(* ===== verification/CPrelude.thy ===== *)
theory CPrelude
  imports Main "HOL-Library.Word" "HOL-Library.Multiset"
begin

unbundle bit_operations_syntax

text \<open>
  What every other theory shares: the machine integers of the C code, the outcome of running
  a C function, and the scan loops over fixed-size tables.

  A C function is a HOL function from its arguments and the state it reads to an outcome:
  it returns (\<open>Ok\<close>), the kernel calls \<open>panic\<close> (\<open>Panic\<close> with the
  message), it never returns (\<open>Hang\<close>), or the C standard gives it no meaning
  (\<open>Undef\<close>: a null dereference, a write past the end of an array).
\<close>

section \<open>Integers\<close>

type_synonym uint = "32 word"
type_synonym int32 = "32 word"
type_synonym byte = "8 word"
type_synonym ulong = "64 word"

section \<open>Outcomes\<close>

datatype 'a res = Ok 'a | Panic string | Hang | Undef

fun rbind :: "'a res \<Rightarrow> ('a \<Rightarrow> 'b res) \<Rightarrow> 'b res" where
  "rbind (Ok x) f = f x"
| "rbind (Panic m) f = Panic m"
| "rbind Hang f = Hang"
| "rbind Undef f = Undef"

fun is_ok :: "'a res \<Rightarrow> bool" where
  "is_ok (Ok x) = True"
| "is_ok (Panic m) = False"
| "is_ok Hang = False"
| "is_ok Undef = False"

named_theorems outcome_simps \<open>rules that evaluate a sequence of outcomes\<close>

lemma rbind_eq_Ok [outcome_simps]: "rbind m f = Ok y \<longleftrightarrow> (\<exists>x. m = Ok x \<and> f x = Ok y)"
  by (cases m) auto

lemma rbind_Ok_right [simp]: "rbind m Ok = m"
  by (cases m) auto

lemma rbind_assoc: "rbind (rbind m f) g = rbind m (\<lambda>x. rbind (f x) g)"
  by (cases m) auto

lemma rbind_cong [fundef_cong]:
  "m = m' \<Longrightarrow> (\<And>x. m' = Ok x \<Longrightarrow> f x = f' x) \<Longrightarrow> rbind m f = rbind m' f'"
  by (cases m') auto

lemma is_ok_iff: "is_ok m \<longleftrightarrow> (\<exists>x. m = Ok x)"
  by (cases m) auto

text \<open>
  Total and partial correctness of a computation: \<open>ends m Q\<close> says that it returns and its
  result satisfies \<open>Q\<close>, \<open>if_ends m Q\<close> only that a result satisfies \<open>Q\<close>.
\<close>

definition ends :: "'a res \<Rightarrow> ('a \<Rightarrow> bool) \<Rightarrow> bool" where
  "ends m Q \<longleftrightarrow> (\<exists>x. m = Ok x \<and> Q x)"

definition if_ends :: "'a res \<Rightarrow> ('a \<Rightarrow> bool) \<Rightarrow> bool" where
  "if_ends m Q \<longleftrightarrow> (\<forall>x. m = Ok x \<longrightarrow> Q x)"

lemma ends_simps [simp]:
  "ends (Ok x) Q = Q x" "\<not> ends (Panic s) Q" "\<not> ends Hang Q" "\<not> ends Undef Q"
  "ends (rbind m f) Q = ends m (\<lambda>x. ends (f x) Q)"
  by (auto simp: ends_def rbind_eq_Ok)

lemma if_ends_simps [simp]:
  "if_ends (Ok x) Q = Q x" "if_ends (Panic s) Q" "if_ends Hang Q" "if_ends Undef Q"
  "if_ends (rbind m f) Q = if_ends m (\<lambda>x. if_ends (f x) Q)"
  by (auto simp: if_ends_def rbind_eq_Ok)

lemma ends_if_ends: "ends m Q \<Longrightarrow> if_ends m Q"
  by (auto simp: ends_def if_ends_def)

lemma ends_mono: "ends m P \<Longrightarrow> (\<And>x. P x \<Longrightarrow> Q x) \<Longrightarrow> ends m Q"
  by (auto simp: ends_def)

lemma if_ends_mono: "if_ends m P \<Longrightarrow> (\<And>x. P x \<Longrightarrow> Q x) \<Longrightarrow> if_ends m Q"
  by (auto simp: if_ends_def)

lemma if_ends_any: "(\<And>x. Q x) \<Longrightarrow> if_ends m Q"
  by (simp add: if_ends_def)

section \<open>Scanning a table\<close>

text \<open>
  \<open>for(p = table; p < &table[N]; p++) if(cond(p)) goto found;\<close>: the index of the first
  entry that satisfies the condition.
\<close>

fun find_idx :: "('a \<Rightarrow> bool) \<Rightarrow> 'a list \<Rightarrow> nat option" where
  "find_idx P [] = None"
| "find_idx P (x # xs) = (if P x then Some 0 else map_option Suc (find_idx P xs))"

lemma find_idx_None [simp]: "find_idx P xs = None \<longleftrightarrow> (\<forall>x\<in>set xs. \<not> P x)"
  by (induction xs) auto

lemma find_idx_SomeD:
  "find_idx P xs = Some i \<Longrightarrow> i < length xs \<and> P (xs ! i) \<and> (\<forall>j<i. \<not> P (xs ! j))"
proof (induction xs arbitrary: i)
  case Nil
  then show ?case by simp
next
  case (Cons x xs)
  show ?case
  proof (cases "P x")
    case True
    with Cons.prems show ?thesis by simp
  next
    case False
    with Cons.prems obtain k where k: "find_idx P xs = Some k" "i = Suc k" by auto
    with False Cons.IH [OF k(1)] show ?thesis by (auto simp: less_Suc_eq_0_disj)
  qed
qed

lemma find_idx_Some_ex: "x \<in> set xs \<Longrightarrow> P x \<Longrightarrow> \<exists>i. find_idx P xs = Some i"
  by (cases "find_idx P xs") auto

lemma find_idx_SomeI:
  "i < length xs \<Longrightarrow> P (xs ! i) \<Longrightarrow> (\<And>j. j < i \<Longrightarrow> \<not> P (xs ! j)) \<Longrightarrow> find_idx P xs = Some i"
proof (induction xs arbitrary: i)
  case Nil
  then show ?case by simp
next
  case (Cons x xs)
  show ?case
  proof (cases i)
    case 0
    with Cons.prems show ?thesis by simp
  next
    case (Suc k)
    have "\<not> P x" using Cons.prems(3) [of 0] Suc by simp
    moreover have "find_idx P xs = Some k"
    proof (rule Cons.IH)
      show "k < length xs" "P (xs ! k)" using Cons.prems Suc by simp_all
      show "\<not> P (xs ! j)" if "j < k" for j
        using Cons.prems(3) [of "Suc j"] Suc that by simp
    qed
    ultimately show ?thesis using Suc by simp
  qed
qed

section \<open>Updating one entry of a table\<close>

definition upd_at :: "nat \<Rightarrow> ('a \<Rightarrow> 'a) \<Rightarrow> 'a list \<Rightarrow> 'a list" where
  "upd_at i f xs = xs[i := f (xs ! i)]"

lemma length_upd_at [simp]: "length (upd_at i f xs) = length xs"
  by (simp add: upd_at_def)

lemma nth_upd_at: "j < length xs \<Longrightarrow> upd_at i f xs ! j = (if i = j then f (xs ! j) else xs ! j)"
  by (simp add: upd_at_def nth_list_update)

lemma upd_at_same [simp]: "i < length xs \<Longrightarrow> upd_at i f xs ! i = f (xs ! i)"
  by (simp add: upd_at_def)

lemma upd_at_other [simp]: "i \<noteq> j \<Longrightarrow> upd_at i f xs ! j = xs ! j"
  by (simp add: upd_at_def)

lemma map_upd_at_frame:
  "(\<And>x. g (f x) = g x) \<Longrightarrow> map g (upd_at i f xs) = map g xs"
  by (cases "i < length xs")
    (simp_all add: upd_at_def map_update list_update_same_conv list_update_beyond)

lemma sum_list_upd_at:
  fixes g :: "'a \<Rightarrow> int"
  shows "i < length xs \<Longrightarrow>
    sum_list (map g (upd_at i f xs)) = sum_list (map g xs) - g (xs ! i) + g (f (xs ! i))"
proof (induction xs arbitrary: i)
  case Nil
  then show ?case by simp
next
  case (Cons x xs)
  then show ?case by (cases i) (simp_all add: upd_at_def)
qed

lemma sum_list_update_monoid:
  fixes f :: "'a \<Rightarrow> 'b::comm_monoid_add"
  shows "i < length xs \<Longrightarrow>
    sum_list (map f (xs[i := y])) + f (xs ! i) = sum_list (map f xs) + f y"
proof (induction xs arbitrary: i)
  case Nil
  then show ?case by simp
next
  case (Cons x xs)
  show ?case
  proof (cases i)
    case 0
    then show ?thesis by (simp add: ac_simps)
  next
    case (Suc j)
    with Cons.IH [of j] Cons.prems show ?thesis by (simp add: add.assoc)
  qed
qed

lemma sum_list_replicate_zero [simp]: "sum_list (replicate n (0::'b::comm_monoid_add)) = 0"
  by (induction n) auto

section \<open>Reading words\<close>

lemma sint_of_nat_32: "n < 2 ^ 31 \<Longrightarrow> sint (of_nat n :: 32 word) = int n"
  by (simp add: signed_of_nat signed_take_bit_int_eq_self)

lemma unat_of_nat_32: "n < 2 ^ 32 \<Longrightarrow> unat (of_nat n :: 32 word) = n"
  by (simp add: unsigned_of_nat take_bit_nat_eq_self)

lemma sint_nonneg_32: "0 \<le> sint w \<Longrightarrow> sint w = int (unat w)" for w :: "32 word"
  using uint_sint [of w] sint_lt [of w] by (simp add: take_bit_int_eq_self)

lemma sint_of_nat_32_neg:
  assumes "2 ^ 31 \<le> n" and "n < 2 ^ 32"
  shows "sint (of_nat n :: 32 word) = int n - 2 ^ 32"
proof -
  have eq: "(of_nat n :: 32 word) = of_int (int n - 2 ^ 32)" by simp
  have "sint (of_int (int n - 2 ^ 32) :: 32 word) = int n - 2 ^ 32"
    using assms by (simp only: signed_of_int) (simp add: signed_take_bit_int_eq_self)
  then show ?thesis unfolding eq .
qed

end
