(* ===== verification/CLib.thy ===== *)
theory CLib
  imports CPrelude
begin

text \<open>
  The functions of the C library that the user programs call, on NUL-free strings (a C string
  is the list of its characters before the terminator), in the C locale.
\<close>

section \<open>Characters\<close>

definition c_code :: "char \<Rightarrow> nat" where
  "c_code c = of_char c"

definition c_newline :: char where
  "c_newline = CHR 0x0A"

definition c_isalpha :: "char \<Rightarrow> bool" where
  "c_isalpha c \<longleftrightarrow> (65 \<le> c_code c \<and> c_code c \<le> 90) \<or> (97 \<le> c_code c \<and> c_code c \<le> 122)"

definition c_isdigit :: "char \<Rightarrow> bool" where
  "c_isdigit c \<longleftrightarrow> 48 \<le> c_code c \<and> c_code c \<le> 57"

definition c_tolower :: "char \<Rightarrow> nat" where
  "c_tolower c = (if 65 \<le> c_code c \<and> c_code c \<le> 90 then c_code c + 32 else c_code c)"

lemma c_tolower_0: "c_tolower c = 0 \<longleftrightarrow> c_code c = 0"
  by (simp add: c_tolower_def)

lemma c_tolower_alnum: "c_isalpha c \<or> c_isdigit c \<Longrightarrow> c_tolower c \<noteq> 0"
  by (auto simp: c_tolower_def c_isalpha_def c_isdigit_def)

section \<open>Comparison\<close>

text \<open>\<open>strncasecmp(p, q, n)\<close>: the difference at the first character that differs, case ignored.\<close>

fun c_strncasecmp :: "string \<Rightarrow> string \<Rightarrow> nat \<Rightarrow> int" where
  "c_strncasecmp p q 0 = 0"
| "c_strncasecmp [] [] (Suc n) = 0"
| "c_strncasecmp [] (d # ds) (Suc n) = - int (c_tolower d)"
| "c_strncasecmp (c # cs) [] (Suc n) = int (c_tolower c)"
| "c_strncasecmp (c # cs) (d # ds) (Suc n) =
     (if c_tolower c = c_tolower d then c_strncasecmp cs ds n
      else int (c_tolower c) - int (c_tolower d))"

lemma c_strncasecmp_0_iff:
  "\<forall>c\<in>set p. c_tolower c \<noteq> 0 \<Longrightarrow>
   c_strncasecmp p q (length p) = 0 \<longleftrightarrow>
   length p \<le> length q \<and> map c_tolower p = map c_tolower (take (length p) q)"
proof (induction p arbitrary: q)
  case Nil
  then show ?case by simp
next
  case (Cons c p)
  then show ?case by (cases q) auto
qed

text \<open>\<open>strcmp(p, q)\<close>, on the characters as unsigned values.\<close>

fun c_strcmp :: "string \<Rightarrow> string \<Rightarrow> int" where
  "c_strcmp [] [] = 0"
| "c_strcmp [] (d # ds) = - int (c_code d)"
| "c_strcmp (c # cs) [] = int (c_code c)"
| "c_strcmp (c # cs) (d # ds) =
     (if c = d then c_strcmp cs ds else int (c_code c) - int (c_code d))"

definition c_wf_string :: "string \<Rightarrow> bool" where
  "c_wf_string s \<longleftrightarrow> (\<forall>c\<in>set s. c_code c \<noteq> 0)"

lemma c_wf_string_simps [simp]:
  "c_wf_string []" "c_wf_string (c # cs) \<longleftrightarrow> c_code c \<noteq> 0 \<and> c_wf_string cs"
  "c_wf_string (s @ t) \<longleftrightarrow> c_wf_string s \<and> c_wf_string t"
  by (auto simp: c_wf_string_def)

lemma c_code_inject [simp]: "c_code c = c_code d \<longleftrightarrow> c = d"
  by (simp add: c_code_def)

lemma c_strcmp_0_iff:
  "c_wf_string p \<Longrightarrow> c_wf_string q \<Longrightarrow> c_strcmp p q = 0 \<longleftrightarrow> p = q"
  by (induction p q rule: c_strcmp.induct) auto

lemma c_strcmp_refl [simp]: "c_strcmp p p = 0"
  by (induction p) auto

lemma c_strcmp_swap: "c_strcmp q p = - c_strcmp p q"
  by (induction p q rule: c_strcmp.induct) auto

lemma c_strcmp_antisym:
  "c_wf_string p \<Longrightarrow> c_wf_string q \<Longrightarrow> c_strcmp p q \<le> 0 \<Longrightarrow> c_strcmp q p \<le> 0 \<Longrightarrow> p = q"
  using c_strcmp_0_iff [of p q] by (simp add: c_strcmp_swap [of q p])

section \<open>Reading lines\<close>

text \<open>
  \<open>fgets(buf, n, fp)\<close> reads at most \<open>n - 1\<close> characters and stops after a newline; at the
  end of the stream it returns NULL.
\<close>

fun c_take_line :: "nat \<Rightarrow> string \<Rightarrow> string \<times> string" where
  "c_take_line 0 s = ([], s)"
| "c_take_line (Suc k) [] = ([], [])"
| "c_take_line (Suc k) (c # cs) =
     (if c = c_newline then ([c], cs)
      else (case c_take_line k cs of (l, r) \<Rightarrow> (c # l, r)))"

definition c_fgets :: "nat \<Rightarrow> string \<Rightarrow> (string \<times> string) option" where
  "c_fgets n s = (if s = [] then None else Some (c_take_line (n - 1) s))"

lemma c_take_line_append: "c_take_line k s = (l, r) \<Longrightarrow> s = l @ r"
  by (induction k s arbitrary: l r rule: c_take_line.induct) (auto split: if_splits prod.splits)

lemma c_take_line_length: "c_take_line k s = (l, r) \<Longrightarrow> length l \<le> k"
  by (induction k s arbitrary: l r rule: c_take_line.induct) (auto split: if_splits prod.splits)

lemma c_take_line_nonempty: "s \<noteq> [] \<Longrightarrow> 0 < k \<Longrightarrow> c_take_line k s = (l, r) \<Longrightarrow> l \<noteq> []"
  by (cases k; cases s) (auto split: if_splits prod.splits)

lemma c_fgets_shrinks: "c_fgets (Suc (Suc n)) s = Some (l, r) \<Longrightarrow> length r < length s"
  using c_take_line_append [of "Suc n" s l r] c_take_line_nonempty [of s "Suc n" l r]
  by (auto simp: c_fgets_def split: if_splits)

lemma c_fgets_shrinks_ge: "2 \<le> n \<Longrightarrow> c_fgets n s = Some (l, r) \<Longrightarrow> length r < length s"
proof -
  assume n: "2 \<le> n" and g: "c_fgets n s = Some (l, r)"
  from n have "n = Suc (Suc (n - 2))" by arith
  with g have "c_fgets (Suc (Suc (n - 2))) s = Some (l, r)" by argo
  then show ?thesis by (rule c_fgets_shrinks)
qed

text \<open>
  The whole lines of a stream, each with its newline (the last one may lack it), and all the
  pieces that a loop over \<open>fgets\<close> with an \<open>n\<close>-byte buffer sees.
\<close>

fun c_lines :: "string \<Rightarrow> string list" where
  "c_lines [] = []"
| "c_lines (c # cs) =
     (if c = c_newline then [c] # c_lines cs
      else (case c_lines cs of [] \<Rightarrow> [[c]] | l # ls \<Rightarrow> (c # l) # ls))"

function c_chunks :: "nat \<Rightarrow> string \<Rightarrow> string list" where
  "c_chunks n s =
     (case c_fgets (Suc (Suc n)) s of None \<Rightarrow> [] | Some (l, r) \<Rightarrow> l # c_chunks n r)"
  by pat_completeness auto
termination
  by (relation "measure (\<lambda>(n, s). length s)") (auto dest: c_fgets_shrinks)

declare c_chunks.simps [simp del]

lemma c_lines_nonempty: "c_lines s = [] \<longleftrightarrow> s = []"
  by (cases s) (auto split: list.splits)

lemma c_take_line_lines:
  "s \<noteq> [] \<Longrightarrow> c_lines s = m # ms \<Longrightarrow> length m \<le> k \<Longrightarrow>
   c_take_line k s = (l, r) \<Longrightarrow> l = m \<and> c_lines r = ms"
proof (induction k s arbitrary: l r m ms rule: c_take_line.induct)
  case (1 s)
  then show ?case by (cases s) (auto split: if_splits list.splits)
next
  case (2 k)
  then show ?case by simp
next
  case (3 k c cs)
  show ?case
  proof (cases "c = c_newline")
    case True
    with "3.prems" show ?thesis by auto
  next
    case False
    obtain l' r' where lr: "c_take_line k cs = (l', r')" by fastforce
    show ?thesis
    proof (cases "c_lines cs")
      case Nil
      then have "cs = []" by (simp add: c_lines_nonempty)
      with False "3.prems" lr show ?thesis by (cases k) auto
    next
      case (Cons m' ms')
      then have ne: "cs \<noteq> []" by auto
      from "3.prems" False Cons have m: "m = c # m'" "ms = ms'" by auto
      with "3.prems"(3) have "length m' \<le> k" by simp
      from "3.IH" [OF False ne Cons this lr] have "l' = m' \<and> c_lines r' = ms'" .
      with False "3.prems" lr m show ?thesis by auto
    qed
  qed
qed

lemma c_chunks_lines:
  "\<forall>l\<in>set (c_lines s). length l \<le> Suc n \<Longrightarrow> c_chunks n s = c_lines s"
proof (induction n s rule: c_chunks.induct)
  case (1 n s)
  show ?case
  proof (cases s)
    case Nil
    then show ?thesis by (subst c_chunks.simps) (simp add: c_fgets_def)
  next
    case (Cons c cs)
    then have ne: "s \<noteq> []" by simp
    then obtain m ms where m: "c_lines s = m # ms"
      by (meson c_lines_nonempty list.exhaust)
    obtain l r where lr: "c_take_line (Suc n) s = (l, r)" by fastforce
    from "1.prems" m have "length m \<le> Suc n" by simp
    from c_take_line_lines [OF ne m this lr] have lm: "l = m" "c_lines r = ms" by auto
    have fg: "c_fgets (Suc (Suc n)) s = Some (l, r)" using ne lr by (simp add: c_fgets_def)
    have "c_chunks n r = c_lines r"
      using "1.IH" [OF fg refl] "1.prems" m lm by simp
    with fg lm m show ?thesis by (subst c_chunks.simps) simp
  qed
qed

section \<open>Numbers\<close>

text \<open>
  \<open>atoi\<close>: white space, a sign, decimal digits up to the first other character. A value that
  does not fit an int is left to the caller (the C standard gives it no meaning).
\<close>

definition c_isspace :: "char \<Rightarrow> bool" where
  "c_isspace c \<longleftrightarrow> c_code c = 32 \<or> (9 \<le> c_code c \<and> c_code c \<le> 13)"

fun c_digits_val :: "int \<Rightarrow> string \<Rightarrow> int" where
  "c_digits_val n [] = n"
| "c_digits_val n (c # cs) =
     (if c_isdigit c then c_digits_val (n * 10 + (int (c_code c) - 48)) cs else n)"

definition c_atoi :: "string \<Rightarrow> int" where
  "c_atoi s =
     (let t = dropWhile c_isspace s in
      case t of
        [] \<Rightarrow> 0
      | c # cs \<Rightarrow>
          if c_code c = 45 then - c_digits_val 0 cs
          else if c_code c = 43 then c_digits_val 0 cs
          else c_digits_val 0 t)"

text \<open>\<open>%d\<close>.\<close>

definition c_digit :: "nat \<Rightarrow> char" where
  "c_digit d = (char_of (48 + d) :: char)"

fun c_show_nat :: "nat \<Rightarrow> string" where
  "c_show_nat n =
     (if n < 10 then [c_digit n] else c_show_nat (n div 10) @ [c_digit (n mod 10)])"

declare c_show_nat.simps [simp del]

definition c_show_int :: "int \<Rightarrow> string" where
  "c_show_int i = (if i < 0 then ''-'' @ c_show_nat (nat (- i)) else c_show_nat (nat i))"

lemma c_code_digit: "d < 10 \<Longrightarrow> c_code (c_digit d) = 48 + d"
  by (simp add: c_code_def c_digit_def)

lemma c_isdigit_digit: "d < 10 \<Longrightarrow> c_isdigit (c_digit d)"
  by (simp add: c_isdigit_def c_code_digit)

lemma c_digits_val_append:
  "\<forall>c\<in>set s. c_isdigit c \<Longrightarrow> c_digits_val n (s @ t) = c_digits_val (c_digits_val n s) t"
  by (induction s arbitrary: n) auto

lemma c_show_nat_digits: "\<forall>c\<in>set (c_show_nat n). c_isdigit c"
proof (induction n rule: c_show_nat.induct)
  case (1 n)
  then show ?case by (subst c_show_nat.simps) (auto simp: c_isdigit_digit)
qed

lemma c_digits_val_show: "c_digits_val 0 (c_show_nat n) = int n"
proof (induction n rule: c_show_nat.induct)
  case (1 n)
  show ?case
  proof (cases "n < 10")
    case True
    then show ?thesis
      by (subst c_show_nat.simps) (simp add: c_isdigit_digit c_code_digit)
  next
    case False
    then show ?thesis
      by (subst c_show_nat.simps)
        (simp add: 1 c_digits_val_append c_show_nat_digits c_isdigit_digit c_code_digit
          zdiv_int zmod_int)
  qed
qed

text \<open>Parsing a printed number gives it back.\<close>

lemma c_atoi_show: "c_atoi (c_show_int i) = i"
proof (cases "i < 0")
  case True
  then show ?thesis
    by (simp add: c_show_int_def c_atoi_def c_isspace_def c_code_def c_digits_val_show)
next
  case False
  obtain c cs where c: "c_show_nat (nat i) = c # cs"
    by (metis c_show_nat.simps list.exhaust snoc_eq_iff_butlast list.discI)
  then have "c_isdigit c" using c_show_nat_digits [of "nat i"] by simp
  with False c c_digits_val_show [of "nat i"] show ?thesis
    by (auto simp: c_show_int_def c_atoi_def c_isspace_def c_isdigit_def)
qed

end
