(* ===== verification/KvMap.thy ===== *)
theory KvMap
  imports CPrelude
begin

text \<open>
  The interface of a key-value store: what its clients rely on, as laws over the abstract map
  the store represents. The hash table of P3A and the alias list of the P2B shell provide it.
\<close>

locale kv_map =
  fixes key_ok :: "'k \<Rightarrow> bool"
    and inv :: "'s \<Rightarrow> bool"
    and abs :: "'s \<Rightarrow> 'k \<Rightarrow> 'v option"
    and room :: "'s \<Rightarrow> nat \<Rightarrow> bool"
    and put :: "'s \<Rightarrow> 'k \<Rightarrow> 'v \<Rightarrow> 's res"
    and get :: "'s \<Rightarrow> 'k \<Rightarrow> 'v option res"
  assumes get_abs: "inv s \<Longrightarrow> key_ok k \<Longrightarrow> get s k = Ok (abs s k)"
    and put_ok: "inv s \<Longrightarrow> room s (Suc n) \<Longrightarrow> key_ok k \<Longrightarrow>
      \<exists>s'. put s k v = Ok s' \<and> inv s' \<and> room s' n \<and> (\<forall>j. key_ok j \<longrightarrow> abs s' j = ((abs s)(k \<mapsto> v)) j)"
begin

text \<open>\<open>room s n\<close>: the store can take \<open>n\<close> more insertions.\<close>

lemma put_law:
  "inv s \<Longrightarrow> room s (Suc n) \<Longrightarrow> key_ok k \<Longrightarrow> put s k v = Ok s' \<Longrightarrow>
   inv s' \<and> room s' n \<and> (\<forall>j. key_ok j \<longrightarrow> abs s' j = ((abs s)(k \<mapsto> v)) j)"
  using put_ok [of s n k v] by auto

lemma get_put:
  "inv s \<Longrightarrow> room s (Suc n) \<Longrightarrow> key_ok k \<Longrightarrow> key_ok j \<Longrightarrow> put s k v = Ok s' \<Longrightarrow>
   get s' j = (if j = k then Ok (Some v) else get s j)"
  using put_law [of s n k v s'] by (auto simp: get_abs)

fun put_all :: "'s \<Rightarrow> ('k \<times> 'v) list \<Rightarrow> 's res" where
  "put_all s [] = Ok s"
| "put_all s ((k, v) # kvs) = rbind (put s k v) (\<lambda>s'. put_all s' kvs)"

lemma put_all_ok:
  "inv s \<Longrightarrow> room s (length kvs) \<Longrightarrow> \<forall>k\<in>fst ` set kvs. key_ok k \<Longrightarrow>
   \<exists>s'. put_all s kvs = Ok s' \<and> inv s' \<and> (\<forall>j. key_ok j \<longrightarrow> abs s' j = (abs s ++ map_of (rev kvs)) j)"
proof (induction kvs arbitrary: s)
  case Nil
  then show ?case by simp
next
  case (Cons kv kvs)
  obtain k v where kv: "kv = (k, v)" by fastforce
  with put_ok [of s "length kvs" k v] Cons.prems
  obtain t where t: "put s k v = Ok t" "inv t" "room t (length kvs)"
      "\<forall>j. key_ok j \<longrightarrow> abs t j = ((abs s)(k \<mapsto> v)) j"
    by auto
  from Cons.IH [OF t(2,3)] Cons.prems(3) obtain s' where s': "put_all t kvs = Ok s'" "inv s'"
      "\<forall>j. key_ok j \<longrightarrow> abs s' j = (abs t ++ map_of (rev kvs)) j" by auto
  show ?case
  proof (intro exI conjI allI impI)
    show "put_all s (kv # kvs) = Ok s'" using t(1) s'(1) by (simp add: kv)
    show "inv s'" by (rule s'(2))
    show "abs s' j = (abs s ++ map_of (rev (kv # kvs))) j" if "key_ok j" for j
      using s'(3) t(4) that by (simp add: kv map_add_def split: option.splits)
  qed
qed

lemma get_put_all:
  "inv s \<Longrightarrow> \<forall>k. key_ok k \<longrightarrow> abs s k = None \<Longrightarrow> room s (length kvs) \<Longrightarrow> \<forall>k\<in>fst ` set kvs. key_ok k \<Longrightarrow>
   \<exists>s'. put_all s kvs = Ok s' \<and> inv s' \<and> (\<forall>k. key_ok k \<longrightarrow> get s' k = Ok (map_of (rev kvs) k))"
  using put_all_ok [of s kvs] by (fastforce simp: get_abs map_add_def split: option.splits)

end

end
