(* ===== verification/Shell.thy ===== *)
theory Shell
  imports CLib KvMap
begin

text \<open>
  P2B, \<open>mysh.c\<close>: a shell with batch and interactive mode, output redirection and aliases. What the
  shell and its children do is a list of events. The operating system answers through \<open>world\<close>:
  whether \<open>fork\<close> succeeds, whether a file can be opened for writing, and whether a program can be
  executed. It also holds what the block from \<open>malloc\<close> for an argument vector contains, which C leaves open: nothing
  terminates the vectors, so that the properties name the hypothesis that the block is zeroed. The error message is taken
  to fit behind the program name it is appended to.
  \<open>memList\<close>, which only remembers what to free at exit, is not kept.
\<close>

datatype sh_event = Output string | Errout string | Run string "string list" "string option" | Exited nat

record world =
  can_fork :: bool
  can_open :: "string \<Rightarrow> bool"
  can_exec :: "string \<Rightarrow> bool"
  malloc_argv :: "nat \<Rightarrow> string option"

definition ch_space :: char where "ch_space = CHR '' ''"
definition ch_tab :: char where "ch_tab = char_of (9::nat)"
definition ch_gt :: char where "ch_gt = CHR ''>''"
definition ch_nul :: char where "ch_nul = char_of (0::nat)"

section \<open>The alias list\<close>

type_synonym aliases = "(string \<times> string) list"

definition addAlias :: "string \<Rightarrow> string \<Rightarrow> aliases \<Rightarrow> aliases" where
  "addAlias name command al = al @ [(name, command)]"

fun unAlias :: "string \<Rightarrow> aliases \<Rightarrow> aliases" where
  "unAlias name [] = []"
| "unAlias name (nd # al) = (if c_strcmp (fst nd) name \<noteq> 0 then nd # unAlias name al else al)"

fun detectAlias :: "string \<Rightarrow> aliases \<Rightarrow> string option" where
  "detectAlias name [] = None"
| "detectAlias name (nd # al) = (if c_strcmp (fst nd) name \<noteq> 0 then detectAlias name al else Some (snd nd))"

section \<open>Parsing a command line\<close>

record argument_pck =
  ap_argv :: "string option list"
  ap_argc :: int
  ap_redir :: bool
  ap_valid :: bool

text \<open>The loop over the command, from its end; \<open>None\<close> is a second redirection.\<close>

fun scan_back :: "bool \<Rightarrow> string \<Rightarrow> string \<Rightarrow> (bool \<times> string) option" where
  "scan_back redir [] acc = Some (redir, acc)"
| "scan_back redir (c # cs) acc =
     (if c = ch_gt then (if redir then None else scan_back True cs (c # acc))
      else if c = ch_tab then scan_back redir cs (ch_space # acc)
      else if c = c_newline then scan_back redir cs (ch_nul # acc)
      else scan_back redir cs (c # acc))"

text \<open>All the pieces that \<open>strtok\<close> returns.\<close>

function strtok_all :: "char \<Rightarrow> string \<Rightarrow> string list" where
  "strtok_all d s =
     (let t = dropWhile (\<lambda>c. c = d) s in
      if t = [] then []
      else takeWhile (\<lambda>c. c \<noteq> d) t # strtok_all d (dropWhile (\<lambda>c. c \<noteq> d) t))"
  by pat_completeness auto
termination
proof (relation "measure (\<lambda>(d, s). length s)", goal_cases)
  case 1
  show ?case by simp
next
  case (2 d s t)
  have "t \<noteq> []" by (fact 2(2))
  then obtain c u where cu: "t = c # u" by (meson neq_Nil_conv)
  have "hd t \<noteq> d" using hd_dropWhile [of "\<lambda>c. c = d" s] \<open>t \<noteq> []\<close> unfolding 2(1) by simp
  then have "c \<noteq> d" by (simp add: cu)
  with cu have t: "t = c # u" "c \<noteq> d" by simp_all
  have "length (dropWhile (\<lambda>c. c \<noteq> d) t) \<le> length u" using t length_dropWhile_le [of _ u] by simp
  moreover have "length t \<le> length s" using 2(1) length_dropWhile_le [of _ s] by simp
  ultimately show ?case using t by simp
qed

declare strtok_all.simps [simp del]

definition cell :: "int \<Rightarrow> string option list \<Rightarrow> string option res" where
  "cell i argv = (if 0 \<le> i \<and> i < int (length argv) then Ok (argv ! nat i) else Undef)"

definition set_cell :: "int \<Rightarrow> string option \<Rightarrow> string option list \<Rightarrow> string option list res" where
  "set_cell i x argv = (if 0 \<le> i \<and> i < int (length argv) then Ok (argv[nat i := x]) else Undef)"

text \<open>
  The loop that finds the redirection; \<open>None\<close> says that it is misformatted. The first argument bounds
  the rounds: the vector has 100 cells and \<open>argc\<close> grows by at most one.
\<close>

fun redir_loop :: "nat \<Rightarrow> int \<Rightarrow> string option list \<Rightarrow> int \<Rightarrow> (string option list \<times> int) option res" where
  "redir_loop 0 i argv argc = Hang"
| "redir_loop (Suc n) i argv argc =
     (if \<not> i < argc then Ok (Some (argv, argc))
      else rbind (cell i argv) (\<lambda>t.
        case t of
          None \<Rightarrow> Undef
        | Some w \<Rightarrow>
            if ch_gt \<notin> set w then redir_loop n (i + 1) argv argc
            else if w = [ch_gt] then
              (if i \<noteq> argc - 2 then Ok None
               else rbind (cell (i + 1) argv) (\<lambda>x.
                    rbind (set_cell i x argv) (\<lambda>argv. redir_loop n (i + 1) argv (argc - 1))))
            else if hd w = ch_gt then rbind (set_cell i (Some (tl w)) argv) (\<lambda>argv. redir_loop n (i + 1) argv argc)
            else if last w = ch_gt then
              rbind (set_cell i (Some (butlast w)) argv) (\<lambda>argv. redir_loop n (i + 1) argv argc)
            else
              let ps = strtok_all ch_gt w in
              rbind (set_cell i (if ps = [] then None else Some (hd ps)) argv) (\<lambda>argv.
              rbind (set_cell (i + 1) (if length ps < 2 then None else Some (ps ! 1)) argv) (\<lambda>argv.
                redir_loop n (i + 1) argv (argc + 1)))))"

definition misformatted :: sh_event where
  "misformatted = Errout (''Redirection misformatted.'' @ [c_newline])"

definition invalid_pck :: "bool \<Rightarrow> argument_pck" where
  "invalid_pck redir = \<lparr>ap_argv = [], ap_argc = 0, ap_redir = redir, ap_valid = False\<rparr>"

definition fill_argv :: "world \<Rightarrow> string list \<Rightarrow> string option list res" where
  "fill_argv w ws = (if length ws \<le> 100 then Ok (map Some ws @ map (malloc_argv w) [length ws..<100]) else Undef)"

definition preprocess :: "world \<Rightarrow> string \<Rightarrow> (sh_event list \<times> argument_pck) res" where
  "preprocess w command =
     (let es = (if command = [] then [Output (c_newline # ''mysh> '')] else []) in
      case scan_back False (rev command) [] of
        None \<Rightarrow> Ok (es @ [misformatted], invalid_pck True)
      | Some (redir, line) \<Rightarrow>
          let ws = strtok_all ch_space (takeWhile (\<lambda>c. c \<noteq> ch_nul) line); argc = int (length ws) in
          rbind (fill_argv w ws) (\<lambda>argv.
          rbind (if redir then
                   rbind (cell (argc - 1) argv) (\<lambda>l. rbind (cell 0 argv) (\<lambda>f.
                     if l \<noteq> Some [ch_gt] \<and> f \<noteq> Some [ch_gt] then redir_loop 102 0 argv argc
                     else Ok None))
                 else Ok (Some (argv, argc)))
            (\<lambda>r. case r of
                None \<Rightarrow> Ok (es @ [misformatted], invalid_pck redir)
              | Some (argv, argc) \<Rightarrow>
                  Ok (es, \<lparr>ap_argv = argv, ap_argc = argc, ap_redir = redir, ap_valid = (argv ! 0 \<noteq> None)\<rparr>))))"

section \<open>Built-in commands\<close>

text \<open>\<open>concat\<close>: the arguments from the third on, separated by spaces.\<close>

fun join_spaces :: "string list \<Rightarrow> string" where
  "join_spaces [] = []"
| "join_spaces [w] = w"
| "join_spaces (w # v # ws) = w @ ch_space # join_spaces (v # ws)"

fun cells_from :: "nat \<Rightarrow> nat \<Rightarrow> string option list \<Rightarrow> string list res" where
  "cells_from i 0 argv = Ok []"
| "cells_from i (Suc n) argv =
     rbind (cell (int i) argv) (\<lambda>t. case t of
       None \<Rightarrow> Undef | Some w \<Rightarrow> rbind (cells_from (Suc i) n argv) (\<lambda>ws. Ok (w # ws)))"

definition concat_args :: "int \<Rightarrow> string option list \<Rightarrow> string res" where
  "concat_args n argv = rbind (cells_from 2 (nat (n - 2)) argv) (\<lambda>ws. Ok (join_spaces ws))"

definition executeAlias :: "argument_pck \<Rightarrow> aliases \<Rightarrow> (sh_event list \<times> aliases) res" where
  "executeAlias arg al =
     (if ap_argc arg = 1 then
        Ok (map (\<lambda>nd. Output (fst nd @ ch_space # snd nd @ [c_newline])) al, al)
      else rbind (cell 1 (ap_argv arg)) (\<lambda>n. case n of
        None \<Rightarrow> Undef
      | Some name \<Rightarrow>
          if c_strcmp name ''unAlias'' = 0 \<or> c_strcmp name ''alias'' = 0 \<or> c_strcmp name ''exit'' = 0 then
            Ok ([Errout (''alias: Too dangerous to alias that.'' @ [c_newline])], al)
          else if ap_argc arg = 2 then
            Ok (case detectAlias name al of
                  None \<Rightarrow> [] | Some c \<Rightarrow> [Output (name @ ch_space # c @ [c_newline])], al)
          else rbind (concat_args (ap_argc arg) (ap_argv arg)) (\<lambda>command.
            Ok ([], if detectAlias name al = None then addAlias name command al
                    else addAlias name command (unAlias name al)))))"

definition executeunAlias :: "argument_pck \<Rightarrow> aliases \<Rightarrow> (sh_event list \<times> aliases) res" where
  "executeunAlias arg al =
     (if ap_argc arg = 2 then
        rbind (cell 1 (ap_argv arg)) (\<lambda>n. Ok ([], case n of None \<Rightarrow> al | Some name \<Rightarrow> unAlias name al))
      else Ok ([Errout (''unAlias: Incorrect number of arguments.'' @ [c_newline])], al))"

section \<open>Running programs\<close>

definition argv_list :: "string option list \<Rightarrow> string list" where
  "argv_list argv = map the (takeWhile (\<lambda>t. t \<noteq> None) argv)"

definition run_program :: "world \<Rightarrow> string option list \<Rightarrow> string option \<Rightarrow> sh_event list res" where
  "run_program w argv out =
     rbind (cell 0 argv) (\<lambda>t. case t of
       None \<Rightarrow> Undef
     | Some path \<Rightarrow>
         if can_exec w path then Ok [Run path (argv_list argv) out]
         else Ok [Errout (path @ '': Command not found.'' @ [c_newline])])"

text \<open>The arguments of the command are copied behind those of the alias, from index \<open>i\<close> on.\<close>

fun append_args :: "nat \<Rightarrow> nat \<Rightarrow> string option list \<Rightarrow> argument_pck \<Rightarrow> argument_pck res" where
  "append_args 0 i argv al = Ok al"
| "append_args (Suc n) i argv al =
     rbind (cell (int i) argv) (\<lambda>x.
     rbind (set_cell (ap_argc al) x (ap_argv al)) (\<lambda>av.
       append_args n (Suc i) argv (al\<lparr>ap_argv := av, ap_argc := ap_argc al + 1\<rparr>)))"

definition child :: "world \<Rightarrow> argument_pck \<Rightarrow> aliases \<Rightarrow> sh_event list res" where
  "child w arg al =
     rbind (if ap_redir arg then
              rbind (cell (ap_argc arg - 1) (ap_argv arg)) (\<lambda>f. case f of
                None \<Rightarrow> Undef
              | Some file \<Rightarrow>
                  if can_open w file then
                    rbind (set_cell (ap_argc arg - 1) None (ap_argv arg)) (\<lambda>av.
                      Ok (Some (Some file, arg\<lparr>ap_argv := av\<rparr>)))
                  else Ok None)
            else Ok (Some (None, arg)))
     (\<lambda>r. case r of
        None \<Rightarrow> Ok [Errout (''Error: Cannot write to file %s.'' @ [c_newline])]
      | Some (out, arg) \<Rightarrow>
          rbind (cell 0 (ap_argv arg)) (\<lambda>name.
            case (case name of None \<Rightarrow> None | Some nm \<Rightarrow> detectAlias nm al) of
              None \<Rightarrow> run_program w (ap_argv arg) out
            | Some command \<Rightarrow>
                rbind (preprocess w command) (\<lambda>(es, al).
                rbind (append_args (nat (ap_argc arg)) 1 (ap_argv arg) al) (\<lambda>al.
                rbind (run_program w (ap_argv al) out) (\<lambda>es'. Ok (es @ es'))))))"

text \<open>The result is what happened, the aliases, and whether the shell has ended.\<close>

definition executeCommand :: "world \<Rightarrow> argument_pck \<Rightarrow> aliases \<Rightarrow> (sh_event list \<times> aliases \<times> bool) res" where
  "executeCommand w arg al =
     rbind (cell 0 (ap_argv arg)) (\<lambda>t. case t of
       None \<Rightarrow> Undef
     | Some name \<Rightarrow>
         if c_strcmp name ''exit'' = 0 then Ok ([Exited 0], al, True)
         else if c_strcmp name ''unAlias'' = 0 then
           rbind (executeunAlias arg al) (\<lambda>(es, al). Ok (es, al, False))
         else if c_strcmp name ''alias'' = 0 then
           rbind (executeAlias arg al) (\<lambda>(es, al). Ok (es, al, False))
         else if \<not> can_fork w then Ok ([Output (''mysh: fork failed'' @ [c_newline])], al, False)
         else rbind (child w arg al) (\<lambda>es. Ok (es, al, False)))"

section \<open>The main loops\<close>

definition run_line :: "world \<Rightarrow> string \<Rightarrow> aliases \<Rightarrow> (sh_event list \<times> aliases \<times> bool) res" where
  "run_line w command al =
     rbind (preprocess w command) (\<lambda>(es, arg).
       if \<not> ap_valid arg then Ok (es, al, False)
       else rbind (executeCommand w arg al) (\<lambda>(es', al, stop). Ok (es @ es', al, stop)))"

text \<open>What \<open>fgets(command, 512, f)\<close> returns, one string after the other.\<close>

fun interactive :: "world \<Rightarrow> string list \<Rightarrow> aliases \<Rightarrow> sh_event list res" where
  "interactive w [] al = Ok [Output ''mysh> '']"
| "interactive w (command # cs) al =
     rbind (if length command > 511 then Ok ([Errout (''Command too long.'' @ [c_newline])], al, False)
            else if command = [c_newline] then Ok ([], al, False)
            else run_line w command al) (\<lambda>(es, al, stop).
       if stop then Ok (Output ''mysh> '' # es)
       else rbind (interactive w cs al) (\<lambda>es'. Ok (Output ''mysh> '' # es @ es')))"

fun batch :: "world \<Rightarrow> string list \<Rightarrow> aliases \<Rightarrow> sh_event list res" where
  "batch w [] al = Ok []"
| "batch w (command # cs) al =
     rbind (if length command < 511 then run_line w command al else Ok ([], al, False)) (\<lambda>(es, al, stop).
       if stop then Ok (Output command # es)
       else rbind (batch w cs al) (\<lambda>es'. Ok (Output command # es @ es')))"

text \<open>The program: \<open>args\<close> are the arguments, \<open>file\<close> the contents of the batch file.\<close>

definition mysh :: "world \<Rightarrow> string list \<Rightarrow> (string \<Rightarrow> string option) \<Rightarrow> string \<Rightarrow> sh_event list res" where
  "mysh w args file stdin =
     (case args of
        [] \<Rightarrow> interactive w (c_chunks 510 stdin) []
      | [f] \<Rightarrow>
          (case file f of
             None \<Rightarrow> Ok [Errout ''Error: Cannot open file '', Errout f, Errout (''.'' @ [c_newline]), Exited 1]
           | Some s \<Rightarrow> batch w (c_chunks 510 s) [])
      | _ \<Rightarrow> Ok [Errout (''Usage: mysh [batch-file]'' @ [c_newline]), Exited 1])"

end
