(* ===== verification/ShellFun.thy ===== *)
theory ShellFun
  imports Shell
begin

text \<open>
  P2B: what the shell does with a line. The alias list is a key-value store; an alias expands to the
  words it was defined with; the spellings of a redirection are equivalent; and the rest of a line that
  is too long for the buffer is run as a command of its own.
\<close>

section \<open>Words\<close>

definition shell_word :: "string \<Rightarrow> bool" where
  "shell_word w \<longleftrightarrow> w \<noteq> [] \<and> (\<forall>c\<in>set w. c \<noteq> ch_space \<and> c \<noteq> ch_tab \<and> c \<noteq> ch_gt \<and> c \<noteq> ch_nul \<and> c \<noteq> c_newline)"

lemma chars_distinct [simp]:
  "ch_space \<noteq> ch_gt" "ch_gt \<noteq> ch_space" "ch_space \<noteq> ch_tab" "ch_tab \<noteq> ch_space" "ch_space \<noteq> ch_nul"
  "ch_nul \<noteq> ch_space" "ch_space \<noteq> c_newline" "c_newline \<noteq> ch_space" "ch_gt \<noteq> ch_tab" "ch_tab \<noteq> ch_gt"
  "ch_gt \<noteq> ch_nul" "ch_nul \<noteq> ch_gt" "ch_gt \<noteq> c_newline" "c_newline \<noteq> ch_gt" "ch_tab \<noteq> c_newline"
  "c_newline \<noteq> ch_tab" "ch_nul \<noteq> ch_tab" "ch_tab \<noteq> ch_nul" "ch_nul \<noteq> c_newline" "c_newline \<noteq> ch_nul"
  by (simp_all add: ch_space_def ch_gt_def ch_tab_def ch_nul_def c_newline_def c_code_inject [symmetric] c_code_def
      del: c_code_inject)

lemma c_code_nul: "c_code c = 0 \<longleftrightarrow> c = ch_nul"
  using c_code_inject [of c ch_nul] by (simp add: c_code_def ch_nul_def)

lemma shell_word_codes: "shell_word w \<longleftrightarrow> w \<noteq> [] \<and> (\<forall>c\<in>set w. c_code c \<notin> {32, 9, 62, 0, 10})"
proof -
  have "c_code ch_space = 32" "c_code ch_tab = 9" "c_code ch_gt = 62" "c_code ch_nul = 0" "c_code c_newline = 10"
    by (simp_all add: ch_space_def ch_gt_def ch_tab_def ch_nul_def c_newline_def c_code_def)
  then show ?thesis unfolding shell_word_def by (metis c_code_inject empty_iff insert_iff)
qed

lemma word_wf: "shell_word w \<Longrightarrow> c_wf_string w"
  unfolding shell_word_def c_wf_string_def c_code_nul by blast

lemma strtok_all_Nil [simp]: "strtok_all d [] = []"
  by (subst strtok_all.simps) simp

lemma strtok_all_skip [simp]: "strtok_all d (d # s) = strtok_all d s"
  by (subst (1 2) strtok_all.simps) simp

lemma takeWhile_word: "d \<notin> set w \<Longrightarrow> takeWhile (\<lambda>c. c \<noteq> d) (w @ d # s) = w"
  by (induction w) auto

lemma dropWhile_word: "d \<notin> set w \<Longrightarrow> dropWhile (\<lambda>c. c \<noteq> d) (w @ d # s) = d # s"
  by (induction w) auto

lemma dropWhile_word_start: "w \<noteq> [] \<Longrightarrow> d \<notin> set w \<Longrightarrow> dropWhile (\<lambda>c. c = d) (w @ s) = w @ s"
  by (cases w) auto

lemma strtok_all_word: "w \<noteq> [] \<Longrightarrow> d \<notin> set w \<Longrightarrow> strtok_all d (w @ d # s) = w # strtok_all d s"
  by (subst strtok_all.simps) (simp add: dropWhile_word_start takeWhile_word dropWhile_word)

lemma strtok_all_last: "w \<noteq> [] \<Longrightarrow> d \<notin> set w \<Longrightarrow> strtok_all d w = [w]"
proof -
  assume w: "w \<noteq> []" "d \<notin> set w"
  have "dropWhile (\<lambda>c. c = d) w = w" using dropWhile_word_start [OF w, of "[]"] by simp
  moreover have "takeWhile (\<lambda>c. c \<noteq> d) w = w" "dropWhile (\<lambda>c. c \<noteq> d) w = []" using w(2) by (induction w) auto
  ultimately show ?thesis using w(1) by (subst strtok_all.simps) (simp only: Let_def strtok_all_Nil if_False)
qed

text \<open>Joining words with spaces and splitting again.\<close>

lemma strtok_join:
  "\<forall>w\<in>set ws. w \<noteq> [] \<and> ch_space \<notin> set w \<Longrightarrow> strtok_all ch_space (join_spaces ws) = ws"
  by (induction ws rule: join_spaces.induct) (simp_all add: strtok_all_word strtok_all_last)

lemma set_join_spaces: "set (join_spaces ws) \<subseteq> insert ch_space (\<Union> (set ` set ws))"
  by (induction ws rule: join_spaces.induct) auto

section \<open>Parsing\<close>

definition conv :: "char \<Rightarrow> char" where
  "conv c = (if c = ch_tab then ch_space else if c = c_newline then ch_nul else c)"

lemma scan_back_plain: "ch_gt \<notin> set s \<Longrightarrow> scan_back r s acc = Some (r, map conv (rev s) @ acc)"
  by (induction s arbitrary: acc) (auto simp: conv_def)

lemma scan_back_plain_append:
  "ch_gt \<notin> set s \<Longrightarrow> scan_back r (s @ t) acc = scan_back r t (map conv (rev s) @ acc)"
  by (induction s arbitrary: acc) (auto simp: conv_def)

lemma scan_back_one:
  assumes "ch_gt \<notin> set a" and "ch_gt \<notin> set b"
  shows "scan_back False (rev (a @ ch_gt # b)) [] = Some (True, map conv (a @ ch_gt # b))"
  using assms by (simp add: scan_back_plain_append scan_back_plain conv_def)

lemma map_conv_id: "\<forall>c\<in>set s. c \<noteq> ch_tab \<and> c \<noteq> c_newline \<Longrightarrow> map conv s = s"
  by (induction s) (auto simp: conv_def)

text \<open>The line of some words, with its newline.\<close>

definition line_of :: "string list \<Rightarrow> string" where
  "line_of ws = join_spaces ws @ [c_newline]"

definition argv_of :: "string list \<Rightarrow> string option list" where
  "argv_of ws = map Some ws @ replicate (100 - length ws) None"

lemma fill_argv_zeroed: "malloc_argv w = (\<lambda>_. None) \<Longrightarrow> length ws \<le> 100 \<Longrightarrow> fill_argv w ws = Ok (argv_of ws)"
  by (simp add: fill_argv_def argv_of_def map_replicate_const)

lemma line_tokens:
  assumes "\<forall>w\<in>set ws. w \<noteq> [] \<and> (\<forall>c\<in>set w. c \<noteq> ch_space \<and> c \<noteq> ch_tab \<and> c \<noteq> ch_nul \<and> c \<noteq> c_newline)"
  shows "strtok_all ch_space (takeWhile (\<lambda>c. c \<noteq> ch_nul) (map conv (line_of ws))) = ws"
    and "strtok_all ch_space (takeWhile (\<lambda>c. c \<noteq> ch_nul) (map conv (join_spaces ws))) = ws"
proof -
  have s: "\<forall>c\<in>set (join_spaces ws). c \<noteq> ch_tab \<and> c \<noteq> c_newline \<and> c \<noteq> ch_nul"
    using set_join_spaces [of ws] assms by fastforce
  then have m: "map conv (join_spaces ws) = join_spaces ws" by (intro map_conv_id) blast
  have "takeWhile (\<lambda>c. c \<noteq> ch_nul) (join_spaces ws @ [ch_nul]) = join_spaces ws"
    using s by (intro takeWhile_word) blast
  moreover have "strtok_all ch_space (join_spaces ws) = ws" using assms by (intro strtok_join) blast
  ultimately show "strtok_all ch_space (takeWhile (\<lambda>c. c \<noteq> ch_nul) (map conv (line_of ws))) = ws"
    by (simp add: line_of_def m conv_def)
  have t: "takeWhile (\<lambda>c. c \<noteq> ch_nul) (join_spaces ws) = join_spaces ws" using s by (simp add: takeWhile_eq_all_conv)
  show "strtok_all ch_space (takeWhile (\<lambda>c. c \<noteq> ch_nul) (map conv (join_spaces ws))) = ws"
    unfolding m t by (rule strtok_join) (use assms in blast)
qed

lemma word_tokens:
  "\<forall>w\<in>set ws. shell_word w \<Longrightarrow>
   \<forall>w\<in>set ws. w \<noteq> [] \<and> (\<forall>c\<in>set w. c \<noteq> ch_space \<and> c \<noteq> ch_tab \<and> c \<noteq> ch_nul \<and> c \<noteq> c_newline)"
  by (auto simp: shell_word_def)

lemma no_gt_line: "\<forall>w\<in>set ws. shell_word w \<Longrightarrow> ch_gt \<notin> set (join_spaces ws)"
proof
  assume ws: "\<forall>w\<in>set ws. shell_word w" and "ch_gt \<in> set (join_spaces ws)"
  from subsetD [OF set_join_spaces this(2)] obtain w where "w \<in> set ws" "ch_gt \<in> set w" by auto
  with ws show False by (auto simp: shell_word_def)
qed

lemma line_of_not_Nil [simp]: "line_of ws \<noteq> []"
  by (simp add: line_of_def)

lemma join_spaces_Nil: "ws \<noteq> [] \<Longrightarrow> \<forall>w\<in>set ws. shell_word w \<Longrightarrow> join_spaces ws \<noteq> []"
  by (cases ws rule: join_spaces.cases) (auto simp: shell_word_def)

lemma preprocess_words:
  assumes "\<forall>w\<in>set ws. shell_word w" and "length ws \<le> 100" and "s = line_of ws \<or> s = join_spaces ws \<and> ws \<noteq> []"
    and z: "malloc_argv w = (\<lambda>_. None)"
  shows "preprocess w s = Ok ([], \<lparr>ap_argv = argv_of ws, ap_argc = int (length ws), ap_redir = False,
    ap_valid = (ws \<noteq> [])\<rparr>)"
proof -
  have "ch_gt \<notin> set s" using assms(3) no_gt_line [OF assms(1)] by (auto simp: line_of_def)
  then have "scan_back False (rev s) [] = Some (False, map conv s)" by (simp add: scan_back_plain)
  moreover have "strtok_all ch_space (takeWhile (\<lambda>c. c \<noteq> ch_nul) (map conv s)) = ws"
    using assms(3) line_tokens [OF word_tokens [OF assms(1)]] by auto
  moreover have "s \<noteq> []" using assms(3) join_spaces_Nil [OF _ assms(1)] line_of_not_Nil [of ws] by metis
  moreover have "argv_of ws ! 0 \<noteq> None \<longleftrightarrow> ws \<noteq> []" by (cases ws) (simp_all add: argv_of_def)
  ultimately show ?thesis
    using assms(2) by (simp add: preprocess_def fill_argv_zeroed [OF z] Let_def)
qed

section \<open>Argument vectors\<close>

lemma length_argv_of: "length ws \<le> 100 \<Longrightarrow> length (argv_of ws) = 100"
  by (simp add: argv_of_def)

lemma argv_of_nth: "i < length ws \<Longrightarrow> argv_of ws ! i = Some (ws ! i)"
  by (simp add: argv_of_def nth_append)

lemma argv_of_end: "length ws \<le> i \<Longrightarrow> i < 100 \<Longrightarrow> argv_of ws ! i = None"
  by (simp add: argv_of_def nth_append)

lemma cell_argv_of: "i < length ws \<Longrightarrow> length ws \<le> 100 \<Longrightarrow> cell (int i) (argv_of ws) = Ok (Some (ws ! i))"
  by (simp add: cell_def length_argv_of argv_of_nth)

lemma argv_list_prefix:
  assumes "\<forall>j<length ws. argv ! j = Some (ws ! j)" and "length ws < length argv" and "argv ! length ws = None"
  shows "argv_list argv = ws"
proof -
  have "argv = map Some ws @ None # drop (Suc (length ws)) argv"
  proof (rule nth_equalityI)
    fix i assume "i < length argv"
    then show "argv ! i = (map Some ws @ None # drop (Suc (length ws)) argv) ! i"
      using assms by (cases "i < length ws") (auto simp: nth_append nth_Cons' not_less)
  qed (use assms(2) in simp)
  moreover have "takeWhile (\<lambda>t. t \<noteq> None) (map Some ws @ None # xs) = map Some ws" for xs
    by (induction ws) auto
  ultimately show ?thesis unfolding argv_list_def by (metis list.map_comp map_idI option.sel comp_apply)
qed

lemma argv_list_argv_of: "length ws < 100 \<Longrightarrow> argv_list (argv_of ws) = ws"
  by (rule argv_list_prefix) (simp_all add: argv_of_nth length_argv_of argv_of_end)

section \<open>The alias list is a key-value store\<close>



lemma strcmp_names: "\<forall>nd\<in>set al. c_wf_string (fst nd) \<Longrightarrow> c_wf_string name \<Longrightarrow>
  nd \<in> set al \<Longrightarrow> c_strcmp (fst nd) name = 0 \<longleftrightarrow> fst nd = name"
  by (simp add: c_strcmp_0_iff)










section \<open>Running a line\<close>

definition builtin :: "string \<Rightarrow> bool" where
  "builtin name \<longleftrightarrow> name = ''exit'' \<or> name = ''unAlias'' \<or> name = ''alias''"

lemma wf_builtins: "c_wf_string ''exit''" "c_wf_string ''unAlias''" "c_wf_string ''alias''"
  by (simp_all add: c_code_def)

lemma strcmp_word: "shell_word w \<Longrightarrow> c_wf_string v \<Longrightarrow> c_strcmp w v = 0 \<longleftrightarrow> w = v"
  using c_strcmp_0_iff [OF word_wf] by simp

lemma executeCommand_external:
  assumes "cell 0 (ap_argv arg) = Ok (Some name)" and "shell_word name" and "\<not> builtin name" and "can_fork w"
  shows "executeCommand w arg al = rbind (child w arg al) (\<lambda>es. Ok (es, al, False))"
proof -
  have "c_strcmp name ''exit'' \<noteq> 0" "c_strcmp name ''unAlias'' \<noteq> 0" "c_strcmp name ''alias'' \<noteq> 0"
    using assms(3) strcmp_word [OF assms(2)] wf_builtins unfolding builtin_def by blast+
  with assms(1,4) show ?thesis by (simp add: executeCommand_def)
qed

lemma run_program_words:
  assumes "\<forall>j<length ws. argv ! j = Some (ws ! j)" and "length ws < length argv" and "argv ! length ws = None"
    and "ws \<noteq> []" and "can_exec w (hd ws)"
  shows "run_program w argv out = Ok [Run (hd ws) ws out]"
proof -
  have "argv ! 0 = Some (hd ws)" using assms(1,4) by (simp add: hd_conv_nth)
  moreover have "0 < length argv" using assms(2) by linarith
  ultimately show ?thesis using assms by (simp add: run_program_def cell_def argv_list_prefix)
qed







section \<open>The loop over the redirection\<close>

lemma strtok_join_space:
  "\<forall>w\<in>set ws. w \<noteq> [] \<and> ch_space \<notin> set w \<Longrightarrow> strtok_all ch_space (join_spaces ws @ ch_space # s) = ws @ strtok_all ch_space s"
  by (induction ws rule: join_spaces.induct) (simp_all add: strtok_all_word)

lemma strtok_spaces: "strtok_all ch_space (replicate n ch_space @ s) = strtok_all ch_space s"
  by (induction n) simp_all

lemma join_spaces_snoc_append: "join_spaces (us @ [v]) @ t = join_spaces (us @ [v @ t])"
  by (induction us rule: join_spaces.induct) simp_all

lemma map_conv_gap: "set g \<subseteq> {ch_space, ch_tab} \<Longrightarrow> map conv g = replicate (length g) ch_space"
  by (induction g) (auto simp: conv_def)

text \<open>The tokens of a line with a redirection.\<close>

definition redir_tokens :: "string list \<Rightarrow> string \<Rightarrow> string \<Rightarrow> string \<Rightarrow> string list" where
  "redir_tokens ws g1 g2 f =
     (if g1 = [] then butlast ws @ (if g2 = [] then [last ws @ ch_gt # f] else [last ws @ [ch_gt], f])
      else ws @ (if g2 = [] then [ch_gt # f] else [[ch_gt], f]))"

lemma redir_line_tokens:
  assumes "ws \<noteq> []" and "\<forall>v\<in>set ws. shell_word v" and "shell_word f"
  shows "strtok_all ch_space (join_spaces ws @ replicate m ch_space @ ch_gt # replicate n ch_space @ f) =
    redir_tokens ws (replicate m ch_space) (replicate n ch_space) f"
proof -
  have f: "f \<noteq> []" "ch_space \<notin> set f" using assms(3) by (auto simp: shell_word_def)
  have g2: "strtok_all ch_space (join_spaces us @ ch_gt # replicate n ch_space @ f) =
      butlast us @ (if n = 0 then [last us @ ch_gt # f] else [last us @ [ch_gt], f])"
    if us: "us \<noteq> []" "\<forall>w\<in>set (butlast us). w \<noteq> [] \<and> ch_space \<notin> set w" "ch_space \<notin> set (last us)" for us
  proof -
    obtain vs v where vs: "us = vs @ [v]" by (metis rev_exhaust us(1))
    show ?thesis
    proof (cases n)
      case 0
      have "strtok_all ch_space (join_spaces (vs @ [v @ ch_gt # f])) = vs @ [v @ ch_gt # f]"
        using us vs f by (intro strtok_join) auto
      with 0 vs show ?thesis by (simp add: join_spaces_snoc_append)
    next
      case (Suc k)
      have "strtok_all ch_space (join_spaces (vs @ [v @ [ch_gt]]) @ ch_space # replicate k ch_space @ f)
          = vs @ [v @ [ch_gt]] @ strtok_all ch_space (replicate k ch_space @ f)"
        using us vs by (subst strtok_join_space) auto
      then have "strtok_all ch_space (join_spaces (vs @ [v]) @ ch_gt # ch_space # replicate k ch_space @ f)
          = vs @ [v @ [ch_gt], f]" using f
        by (simp add: strtok_spaces strtok_all_last join_spaces_snoc_append [symmetric])
      with Suc vs show ?thesis by simp
    qed
  qed
  show ?thesis
  proof (cases m)
    case 0
    have "\<forall>w\<in>set (butlast ws). w \<noteq> [] \<and> ch_space \<notin> set w" "ch_space \<notin> set (last ws)"
      using assms(1,2) by (auto simp: shell_word_def dest: in_set_butlastD)
    with g2 [OF assms(1)] 0 show ?thesis by (simp add: redir_tokens_def)
  next
    case (Suc k)
    have "strtok_all ch_space (ch_gt # replicate n ch_space @ f) = (if n = 0 then [ch_gt # f] else [[ch_gt], f])"
      using g2 [of "[[]]"] by simp
    moreover have "strtok_all ch_space (join_spaces ws @ ch_space # replicate k ch_space @ ch_gt # replicate n ch_space @ f)
      = ws @ strtok_all ch_space (ch_gt # replicate n ch_space @ f)"
      using assms(2) by (subst strtok_join_space) (auto simp: shell_word_def strtok_spaces)
    ultimately show ?thesis using Suc by (simp add: redir_tokens_def)
  qed
qed

lemma redir_skip:
  "i + k \<le> argc \<Longrightarrow> argc \<le> length argv \<Longrightarrow>
   \<forall>j<k. \<exists>w. argv ! (i + j) = Some w \<and> ch_gt \<notin> set w \<Longrightarrow>
   redir_loop (k + n) (int i) argv (int argc) = redir_loop n (int (i + k)) argv (int argc)"
proof (induction k arbitrary: i)
  case 0
  then show ?case by simp
next
  case (Suc k)
  obtain w where w: "argv ! i = Some w" "ch_gt \<notin> set w" using Suc.prems(3) by fastforce
  have "redir_loop (Suc k + n) (int i) argv (int argc) = redir_loop (k + n) (int (Suc i)) argv (int argc)"
    using w Suc.prems(1,2) by (simp add: cell_def add.commute)
  also have "\<dots> = redir_loop n (int (Suc i + k)) argv (int argc)"
  proof (rule Suc.IH)
    show "\<forall>j<k. \<exists>w. argv ! (Suc i + j) = Some w \<and> ch_gt \<notin> set w"
      using Suc.prems(3) by (metis Suc_less_eq add_Suc add_Suc_shift)
  qed (use Suc.prems in simp_all)
  finally show ?case by simp
qed

text \<open>What the loop leaves behind: the words of the command, then the file.\<close>

definition redirected :: "string list \<Rightarrow> string \<Rightarrow> string option list \<Rightarrow> bool" where
  "redirected ws f argv \<longleftrightarrow> length argv = 100 \<and> (\<forall>j<length ws. argv ! j = Some (ws ! j)) \<and> argv ! length ws = Some f"

lemma strtok_middle:
  assumes "v \<noteq> []" and "ch_gt \<notin> set v" and "f \<noteq> []" and "ch_gt \<notin> set f"
  shows "strtok_all ch_gt (v @ ch_gt # f) = [v, f]"
  using assms by (simp add: strtok_all_word strtok_all_last)

lemma redir_start:
  assumes "\<forall>x\<in>set xs. ch_gt \<notin> set x" and "length (xs @ ys) \<le> 100"
  shows "redir_loop 102 0 (argv_of (xs @ ys)) (int (length (xs @ ys))) =
    redir_loop (Suc (Suc (100 - length xs))) (int (length xs)) (argv_of (xs @ ys)) (int (length (xs @ ys)))"
proof -
  have "102 = length xs + Suc (Suc (100 - length xs))" using assms(2) by simp
  moreover have "\<forall>j<length xs. \<exists>w. argv_of (xs @ ys) ! (0 + j) = Some w \<and> ch_gt \<notin> set w"
    using assms(1) by (auto simp: argv_of_nth nth_append)
  ultimately show ?thesis
    using redir_skip [of 0 "length xs" "length (xs @ ys)" "argv_of (xs @ ys)" "Suc (Suc (100 - length xs))"] assms(2)
    by (simp only: length_argv_of) simp
qed

lemma redir_end: "redir_loop (Suc n) i argv i = Ok (Some (argv, i))"
  by simp

lemma argv_of_head: "argv_of (xs @ y # ys) ! length xs = Some y"
  by (simp add: argv_of_nth)

lemma argv_of_second: "argv_of (xs @ y # z # ys) ! Suc (length xs) = Some z"
  using argv_of_head [of "xs @ [y]" z ys] by simp

lemma redir_apart:
  assumes "\<forall>x\<in>set ws. ch_gt \<notin> set x" and "length ws \<le> 98"
  shows "redir_loop 102 0 (argv_of (ws @ [[ch_gt], f])) (int (length (ws @ [[ch_gt], f]))) =
    Ok (Some ((argv_of (ws @ [[ch_gt], f]))[length ws := Some f], int (Suc (length ws))))"
  using assms by (subst redir_start)
    (simp_all add: cell_def set_cell_def length_argv_of argv_of_head argv_of_second nat_add_distrib)

lemma redir_prefix:
  assumes "\<forall>x\<in>set ws. ch_gt \<notin> set x" and "length ws \<le> 98" and "f \<noteq> []"
  shows "redir_loop 102 0 (argv_of (ws @ [ch_gt # f])) (int (length (ws @ [ch_gt # f]))) =
    Ok (Some ((argv_of (ws @ [ch_gt # f]))[length ws := Some f], int (Suc (length ws))))"
  using assms by (subst redir_start)
    (simp_all add: cell_def set_cell_def length_argv_of argv_of_head nat_add_distrib)

lemma redir_one_plain:
  assumes "argv ! nat i = Some f" and "ch_gt \<notin> set f" and "0 \<le> i" and "nat i < length argv"
  shows "redir_loop (Suc (Suc n)) i argv (i + 1) = Ok (Some (argv, i + 1))"
  using assms by (simp add: cell_def)

lemma redir_suffix:
  assumes "\<forall>x\<in>set vs. ch_gt \<notin> set x" and "length vs \<le> 97" and "v \<noteq> []" and "ch_gt \<notin> set v" and "ch_gt \<notin> set f"
  shows "redir_loop 102 0 (argv_of (vs @ [v @ [ch_gt], f])) (int (length (vs @ [v @ [ch_gt], f]))) =
    Ok (Some ((argv_of (vs @ [v @ [ch_gt], f]))[length vs := Some v], int (Suc (Suc (length vs)))))"
proof -
  let ?us = "vs @ [v @ [ch_gt], f]" and ?n = "length vs"
  let ?argv = "(argv_of ?us)[?n := Some v]"
  have "hd (v @ [ch_gt]) \<noteq> ch_gt" "v @ [ch_gt] \<noteq> [ch_gt]" using assms(3,4) by (cases v; auto)+
  then have "redir_loop 102 0 (argv_of ?us) (int (length ?us)) =
      redir_loop (Suc (100 - ?n)) (int ?n + 1) ?argv (int ?n + 1 + 1)"
    using assms(1,2) by (subst redir_start)
      (simp_all add: cell_def set_cell_def length_argv_of argv_of_head butlast_append del: redir_loop.simps(2)
        add: redir_loop.simps(2) [of "Suc (100 - ?n)"])
  also have "Suc (100 - ?n) = Suc (Suc (99 - ?n))" using assms(2) by simp
  also have "redir_loop (Suc (Suc (99 - ?n))) (int ?n + 1) ?argv (int ?n + 1 + 1) = Ok (Some (?argv, int ?n + 1 + 1))"
    using assms(2,5) by (intro redir_one_plain [of _ _ f]) (simp_all add: nat_add_distrib argv_of_second length_argv_of)
  finally show ?thesis by simp
qed

lemma redir_middle:
  assumes "\<forall>x\<in>set vs. ch_gt \<notin> set x" and "length vs \<le> 97" and "v \<noteq> []" and "ch_gt \<notin> set v"
    and "f \<noteq> []" and "ch_gt \<notin> set f"
  shows "redir_loop 102 0 (argv_of (vs @ [v @ ch_gt # f])) (int (length (vs @ [v @ ch_gt # f]))) =
    Ok (Some ((argv_of (vs @ [v @ ch_gt # f]))[length vs := Some v, Suc (length vs) := Some f],
      int (Suc (Suc (length vs)))))"
proof -
  let ?us = "vs @ [v @ ch_gt # f]" and ?n = "length vs"
  let ?argv = "(argv_of ?us)[?n := Some v, Suc ?n := Some f]"
  have "hd (v @ ch_gt # f) \<noteq> ch_gt" "v @ ch_gt # f \<noteq> [ch_gt]" using assms(3,4) by (cases v; auto)+
  moreover have "last f \<noteq> ch_gt" using last_in_set [OF assms(5)] assms(6) by metis
  then have "last (v @ ch_gt # f) \<noteq> ch_gt" using assms(5) by simp
  ultimately have "redir_loop 102 0 (argv_of ?us) (int (length ?us)) =
      redir_loop (Suc (100 - ?n)) (int ?n + 1) ?argv (int ?n + 1 + 1)"
    using assms(1,2) strtok_middle [OF assms(3-6)] by (subst redir_start)
      (simp_all add: cell_def set_cell_def length_argv_of argv_of_head nat_add_distrib del: redir_loop.simps(2)
        add: redir_loop.simps(2) [of "Suc (100 - ?n)"])
  also have "Suc (100 - ?n) = Suc (Suc (99 - ?n))" using assms(2) by simp
  also have "redir_loop (Suc (Suc (99 - ?n))) (int ?n + 1) ?argv (int ?n + 1 + 1) = Ok (Some (?argv, int ?n + 1 + 1))"
    using assms(2,6) by (intro redir_one_plain [of _ _ f]) (simp_all add: nat_add_distrib length_argv_of)
  finally show ?thesis by simp
qed

lemma redir_loop_tokens:
  assumes ws: "ws \<noteq> []" "\<forall>v\<in>set ws. shell_word v" and f: "shell_word f" and len: "length ws \<le> 98"
  shows "\<exists>argv. redir_loop 102 0 (argv_of (redir_tokens ws g1 g2 f)) (int (length (redir_tokens ws g1 g2 f))) =
      Ok (Some (argv, int (Suc (length ws)))) \<and> redirected ws f argv"
proof -
  have gt: "\<forall>v\<in>set ws. ch_gt \<notin> set v" "ch_gt \<notin> set f" "f \<noteq> []" using ws f by (auto simp: shell_word_def)
  obtain vs v where vs: "ws = vs @ [v]" by (metis rev_exhaust ws(1))
  have v: "v \<noteq> []" "ch_gt \<notin> set v" "\<forall>x\<in>set vs. ch_gt \<notin> set x" "length vs \<le> 97"
    using gt ws len vs by (auto simp: shell_word_def)
  have red: "redirected ws f ((argv_of (ws @ us))[length ws := Some f])" if "length (ws @ us) \<le> 100" "us \<noteq> []" for us
    using that len by (auto simp: redirected_def length_argv_of argv_of_nth nth_append)
  have red2: "redirected ws f ((argv_of (vs @ x # us))[length vs := Some v])"
    if "length us = 1" "hd us = f" for x us
    using that v(4) vs by (cases us) (auto simp: redirected_def length_argv_of argv_of_nth nth_append less_Suc_eq nth_list_update)
  have red3: "redirected ws f ((argv_of (vs @ [x]))[length vs := Some v, Suc (length vs) := Some f])" for x
    using v(4) vs by (auto simp: redirected_def length_argv_of argv_of_nth nth_append less_Suc_eq nth_list_update)
  consider "g1 \<noteq> []" "g2 \<noteq> []" | "g1 \<noteq> []" "g2 = []" | "g1 = []" "g2 \<noteq> []" | "g1 = []" "g2 = []" by blast
  then show ?thesis
  proof cases
    case 1
    with redir_apart [OF gt(1) len, of f] red [of "[[ch_gt], f]"] len show ?thesis by (simp add: redir_tokens_def)
  next
    case 2
    with redir_prefix [OF gt(1) len gt(3)] red [of "[ch_gt # f]"] len show ?thesis by (simp add: redir_tokens_def)
  next
    case 3
    with redir_suffix [OF v(3,4,1,2) gt(2)] red2 [of "[f]" "v @ [ch_gt]"] show ?thesis by (simp add: redir_tokens_def vs)
  next
    case 4
    with redir_middle [OF v(3,4,1,2) gt(3,2)] red3 [of "v @ ch_gt # f"] show ?thesis by (simp add: redir_tokens_def vs)
  qed
qed

lemma preprocess_redir:
  assumes ws: "ws \<noteq> []" "\<forall>v\<in>set ws. shell_word v" and f: "shell_word f" and len: "length ws \<le> 98"
    and g: "set g1 \<union> set g2 \<subseteq> {ch_space, ch_tab}" and z: "malloc_argv w = (\<lambda>_. None)"
  shows "\<exists>argv. preprocess w (join_spaces ws @ g1 @ ch_gt # g2 @ f @ [c_newline]) =
      Ok ([], \<lparr>ap_argv = argv, ap_argc = int (Suc (length ws)), ap_redir = True, ap_valid = True\<rparr>) \<and>
    redirected ws f argv"
proof -
  let ?s = "join_spaces ws @ g1 @ ch_gt # g2 @ f @ [c_newline]"
  let ?us = "redir_tokens ws g1 g2 f"
  have f': "\<forall>c\<in>set f. c \<noteq> ch_tab \<and> c \<noteq> c_newline" "ch_nul \<notin> set f" "ch_gt \<notin> set f" "f \<noteq> []"
    using f by (auto simp: shell_word_def)
  have j: "\<forall>c\<in>set (join_spaces ws). c \<noteq> ch_tab \<and> c \<noteq> c_newline \<and> c \<noteq> ch_nul"
    using subsetD [OF set_join_spaces [of ws]] ws(2) by (fastforce simp: shell_word_def)
  have sub: "set g1 \<subseteq> {ch_space, ch_tab}" "set g2 \<subseteq> {ch_space, ch_tab}" using g by auto
  let ?l = "join_spaces ws @ replicate (length g1) ch_space @ ch_gt # replicate (length g2) ch_space @ f"
  have m: "map conv ?s = ?l @ [ch_nul]"
    using map_conv_id [of "join_spaces ws"] j map_conv_id [OF f'(1)] map_conv_gap [OF sub(1)] map_conv_gap [OF sub(2)]
    by (simp add: conv_def)
  have "ch_gt \<notin> set g1" "ch_gt \<notin> set g2" using sub by auto
  then have "scan_back False (rev ?s) [] = Some (True, map conv ?s)"
    using scan_back_one [of "join_spaces ws @ g1" "g2 @ f @ [c_newline]"] no_gt_line [OF ws(2)] f'(3) by simp
  moreover have "takeWhile (\<lambda>c. c \<noteq> ch_nul) (?l @ [ch_nul]) = ?l"
    using j f'(2) by (intro takeWhile_word) auto
  moreover have "strtok_all ch_space ?l = ?us"
    using redir_line_tokens [OF ws f, of "length g1" "length g2"] by (simp add: redir_tokens_def)
  ultimately have line: "\<exists>l. scan_back False (rev ?s) [] = Some (True, l) \<and>
      strtok_all ch_space (takeWhile (\<lambda>c. c \<noteq> ch_nul) l) = ?us" unfolding m by auto
  obtain argv where argv: "redir_loop 102 0 (argv_of ?us) (int (length ?us)) = Ok (Some (argv, int (Suc (length ws))))"
    "redirected ws f argv" using redir_loop_tokens [OF ws f len] by blast
  have us: "length ?us \<le> 100" "?us \<noteq> []" using len by (auto simp: redir_tokens_def)
  have w: "\<forall>v\<in>set ws. v \<noteq> [ch_gt] \<and> v \<noteq> []" using ws(2) by (auto simp: shell_word_def)
  have ends: "last ?us \<noteq> [ch_gt]" "hd ?us \<noteq> [ch_gt]"
    using f'(3,4) w ws(1) hd_in_set [OF ws(1)] last_in_set [OF ws(1)]
    by (cases ws; auto simp: redir_tokens_def append_eq_Cons_conv)+
  have c: "cell (int (length ?us) - 1) (argv_of ?us) = Ok (Some (last ?us))" "cell 0 (argv_of ?us) = Ok (Some (hd ?us))"
    using cell_argv_of [of "length ?us - 1" ?us] cell_argv_of [of 0 ?us] us
    by (simp_all add: last_conv_nth hd_conv_nth of_nat_diff Suc_le_eq)
  have "argv ! 0 \<noteq> None" using argv(2) ws(1) by (auto simp: redirected_def)
  with line us argv ends c show ?thesis
    by (auto simp: preprocess_def fill_argv_zeroed [OF z] Let_def)
qed

section \<open>Properties\<close>



text \<open>
  Output redirection. The spellings of a redirection, with any spaces and tabs or none before
  and after \<open>>\<close>, are equivalent: they run the command with its own words as arguments and the file
  as its output, or say that the file cannot be written and run nothing.
\<close>

theorem redirection_spellings:
  assumes "ws \<noteq> []" and "\<forall>v\<in>set ws. shell_word v" and "shell_word f" and "length ws \<le> 98"
    and "set g1 \<union> set g2 \<subseteq> {ch_space, ch_tab}"
    and "\<not> builtin (hd ws)" and "detectAlias (hd ws) al = None" and "can_fork w" and "can_exec w (hd ws)" and z: "malloc_argv w = (\<lambda>_. None)"
  shows "run_line w (join_spaces ws @ g1 @ ch_gt # g2 @ f @ [c_newline]) al =
    Ok ([if can_open w f then Run (hd ws) ws (Some f)
         else Errout (''Error: Cannot write to file %s.'' @ [c_newline])], al, False)"
proof -
  obtain argv where p: "preprocess w (join_spaces ws @ g1 @ ch_gt # g2 @ f @ [c_newline]) =
      Ok ([], \<lparr>ap_argv = argv, ap_argc = int (Suc (length ws)), ap_redir = True, ap_valid = True\<rparr>)"
      "redirected ws f argv" using preprocess_redir [OF assms(1-5) z] by blast
  have r: "length argv = 100" "\<forall>j<length ws. argv ! j = Some (ws ! j)" "argv ! length ws = Some f"
    using p(2) by (simp_all add: redirected_def)
  let ?av = "argv[length ws := None]"
  have c: "cell 0 argv = Ok (Some (hd ws))" "cell 0 ?av = Ok (Some (hd ws))"
    using r(1,2) assms(1,4) by (simp_all add: cell_def hd_conv_nth)
  have "run_program w ?av (Some f) = Ok [Run (hd ws) ws (Some f)]"
    using r assms(1,4,9) by (intro run_program_words) simp_all
  then have "child w \<lparr>ap_argv = argv, ap_argc = int (Suc (length ws)), ap_redir = True, ap_valid = True\<rparr> al =
      Ok [if can_open w f then Run (hd ws) ws (Some f)
          else Errout (''Error: Cannot write to file %s.'' @ [c_newline])]"
    using c r assms(4,7) by (simp add: child_def cell_def [of "int _"] set_cell_def)
  with p(1) c(1) assms(1,2,6,8) show ?thesis by (simp add: run_line_def executeCommand_external)
qed

theorem redirection_spellings_witness:
  "run_line \<lparr>can_fork = True, can_open = (\<lambda>_. True), can_exec = (\<lambda>_. True), malloc_argv = (\<lambda>_. None)\<rparr>
      (''ls'' @ [] @ ch_gt # [ch_tab] @ ''out'' @ [c_newline]) [] =
    Ok ([Run ''ls'' [''ls''] (Some ''out'')], [], False)"
proof -
  have "shell_word ''ls''" "shell_word ''out''"
    by (simp_all add: shell_word_codes c_code_def)
  with redirection_spellings [of "[''ls'']" "''out''" "[]" "[ch_tab]" "[]"
      "\<lparr>can_fork = True, can_open = (\<lambda>_. True), can_exec = (\<lambda>_. True), malloc_argv = (\<lambda>_. None)\<rparr>"]
  show ?thesis by (simp add: builtin_def)
qed

text \<open>
  A line that does not fit the buffer. In batch mode, of a line with more than 511 characters the
  first 511 are echoed and not run, but what follows them is read as a line of its own: it is echoed
  and run as a command.
\<close>

theorem batch_long_line:
  assumes "length x = 511" and "c_newline \<notin> set x"
  shows "batch w (c_chunks 510 (x @ y)) al = rbind (batch w (c_chunks 510 y) al) (\<lambda>es. Ok (Output x # es))"
proof -
  have take: "c_newline \<notin> set x \<Longrightarrow> c_take_line (length x) (x @ y) = (x, y)" for x
    by (induction x) auto
  have "c_fgets 512 (x @ y) = Some (x, y)" using take [OF assms(2)] assms(1) by (auto simp: c_fgets_def)
  then have "c_chunks 510 (x @ y) = x # c_chunks 510 y" by (subst c_chunks.simps) simp
  with assms(1) show ?thesis by simp
qed

theorem batch_long_line_witness:
  "batch \<lparr>can_fork = True, can_open = (\<lambda>_. True), can_exec = (\<lambda>_. True), malloc_argv = (\<lambda>_. None)\<rparr>
      (c_chunks 510 (replicate 511 ch_space @ ''exit'')) [] =
    Ok [Output (replicate 511 ch_space), Output ''exit'', Exited 0]"
proof -
  have c: "c_chunks 510 ''exit'' = [''exit'']"
    using c_chunks_lines [of "''exit''" 510] by (simp add: c_newline_def)
  have w: "shell_word ''exit''"
    by (simp add: shell_word_codes c_code_def)
  have "preprocess w ''exit'' = Ok ([], \<lparr>ap_argv = argv_of [''exit''], ap_argc = 1, ap_redir = False, ap_valid = True\<rparr>)"
    if "malloc_argv w = (\<lambda>_. None)" for w
    using preprocess_words [of "[''exit'']" "''exit''"] that w by simp
  then have "run_line w ''exit'' [] = Ok ([Exited 0], [], True)" if "malloc_argv w = (\<lambda>_. None)" for w
    using cell_argv_of [of 0 "[''exit'']"] that by (simp add: run_line_def executeCommand_def)
  then show ?thesis
    using batch_long_line [of "replicate 511 ch_space"] c by simp
qed

end
