(* ===== verification/XvSh.thy ===== *)
theory XvSh
  imports CLib
begin

text \<open>
  xv6, \<open>sh.c\<close>: the shell. The line that is parsed is its bytes in front of the terminator, and a pointer into it is
  an offset; behind the end there is the terminator. A command is a tree whose words are pairs of offsets; \<open>nulterminate\<close>
  writes the terminators of the words into the line. What a command does when it runs is the sequence of its system calls.
\<close>

definition MAXARGS :: nat where "MAXARGS = 10"

datatype 'w cmd =
    Exec "'w list"
  | Redir "'w cmd" 'w nat nat
  | PipeC "'w cmd" "'w cmd"
  | ListC "'w cmd" "'w cmd"
  | Back "'w cmd"

definition whitespace :: string where "whitespace = [CHR 0x20, CHR 0x09, CHR 0x0D, CHR 0x0A, CHR 0x0B]"
definition symbols :: string where "symbols = ''<|>&;()''"

definition NUL :: char where "NUL = CHR 0x00"

definition char_at :: "string \<Rightarrow> nat \<Rightarrow> char" where
  "char_at b i = (if i < length b then b ! i else NUL)"

section \<open>Tokens\<close>

definition skip_ws :: "string \<Rightarrow> nat \<Rightarrow> nat" where
  "skip_ws b i = i + length (takeWhile (\<lambda>c. c \<in> set whitespace) (drop i b))"

definition word_char :: "char \<Rightarrow> bool" where
  "word_char c \<longleftrightarrow> c \<notin> set whitespace \<and> c \<notin> set symbols"

text \<open>The kind of the token at an offset, and where it ends: 0 at the end of the line, \<open>+\<close> for \<open>>>\<close>, \<open>a\<close> for a word.\<close>

definition token_at :: "string \<Rightarrow> nat \<Rightarrow> char \<times> nat" where
  "token_at b q =
     (let c = char_at b q in
      if c = NUL then (NUL, q)
      else if c \<in> set ''|();&<'' then (c, q + 1)
      else if c = CHR ''>'' then (if char_at b (q + 1) = CHR ''>'' then (CHR ''+'', q + 2) else (c, q + 1))
      else (CHR ''a'', q + length (takeWhile word_char (drop q b))))"

definition gettoken :: "string \<Rightarrow> nat \<Rightarrow> char \<times> nat \<times> nat \<times> nat" where
  "gettoken b i = (let q = skip_ws b i in case token_at b q of (tok, eq) \<Rightarrow> (tok, q, eq, skip_ws b eq))"

definition peek :: "string \<Rightarrow> nat \<Rightarrow> string \<Rightarrow> bool \<times> nat" where
  "peek b i toks = (let j = skip_ws b i in (char_at b j \<noteq> NUL \<and> char_at b j \<in> set toks, j))"

lemma skip_ws_le: "i \<le> skip_ws b i"
  by (simp add: skip_ws_def)

lemma drop_skip_ws: "drop (skip_ws b i) b = dropWhile (\<lambda>c. c \<in> set whitespace) (drop i b)"
  by (simp add: skip_ws_def dropWhile_eq_drop add.commute)

lemma char_at_drop: "char_at b i = (case drop i b of [] \<Rightarrow> NUL | c # _ \<Rightarrow> c)"
  by (cases "i < length b") (simp_all add: char_at_def Cons_nth_drop_Suc [symmetric])

lemma char_at_skip_ws: "char_at b (skip_ws b i) \<notin> set whitespace"
proof (cases "drop (skip_ws b i) b")
  case Nil
  then show ?thesis by (simp add: char_at_drop NUL_def whitespace_def)
next
  case (Cons c cs)
  then show ?thesis using hd_dropWhile [of "\<lambda>c. c \<in> set whitespace" "drop i b"] by (simp add: char_at_drop drop_skip_ws)
qed

lemma token_at_word:
  assumes "char_at b q \<notin> set whitespace" and "token_at b q = (tok, eq)" and "tok \<noteq> NUL"
  shows "q < eq"
proof (cases "char_at b q \<in> set symbols")
  case True
  then show ?thesis using assms(2,3) by (auto simp: token_at_def Let_def symbols_def split: if_splits)
next
  case False
  then have w: "word_char (char_at b q)" using assms(1) by (simp add: word_char_def)
  show ?thesis
  proof (cases "drop q b")
    case Nil
    then show ?thesis using assms(2,3) by (auto simp: token_at_def Let_def char_at_drop)
  next
    case (Cons c cs)
    then show ?thesis using assms(2,3) w by (auto simp: token_at_def Let_def char_at_drop split: if_splits)
  qed
qed

lemma gettoken_le:
  assumes "gettoken b i = (tok, q, eq, k)"
  shows "i \<le> q" and "q \<le> eq" and "eq \<le> k" and "tok \<noteq> NUL \<Longrightarrow> q < eq"
proof -
  have q: "q = skip_ws b i" and t: "token_at b q = (tok, eq)" and k: "k = skip_ws b eq"
    using assms by (auto simp: gettoken_def Let_def split: prod.splits)
  show "i \<le> q" "eq \<le> k" unfolding q k by (rule skip_ws_le)+
  show "q \<le> eq" using t by (auto simp: token_at_def Let_def split: if_splits)
  show "q < eq" if "tok \<noteq> NUL" using token_at_word [OF _ t that] char_at_skip_ws [of b i] q by simp
qed

lemma peek_le: "peek b i toks = (r, j) \<Longrightarrow> i \<le> j"
  by (auto simp: peek_def Let_def skip_ws_le)

lemma peek_less: "peek b i toks = (True, j) \<Longrightarrow> j < length b"
  by (auto simp: peek_def Let_def char_at_def split: if_splits)

lemma gettoken_peeked:
  assumes "peek b i toks = (True, j)" and "gettoken b j = (tok, q, eq, k)"
  shows "j < k" and "tok \<noteq> NUL"
proof -
  have j: "char_at b j \<noteq> NUL" "j = skip_ws b i" using assms(1) by (auto simp: peek_def Let_def)
  have "char_at b j \<notin> set whitespace" using char_at_skip_ws j(2) by simp
  then have "takeWhile (\<lambda>c. c \<in> set whitespace) (drop j b) = []" by (cases "drop j b") (simp_all add: char_at_drop)
  then have q: "q = j" using assms(2) by (auto simp: gettoken_def skip_ws_def Let_def split: prod.splits)
  then have "token_at b j = (tok, eq)" using assms(2) by (auto simp: gettoken_def Let_def split: prod.splits)
  then show t: "tok \<noteq> NUL" using j(1) by (auto simp: token_at_def Let_def NUL_def split: if_splits)
  show "j < k" using gettoken_le [OF assms(2)] t by simp
qed

lemma consumed:
  assumes "peek b i toks = (True, j)" and "gettoken b j = (tok, q, eq, k)" and "k \<le> l"
  shows "length b - l < length b - i"
  using peek_le [OF assms(1)] peek_less [OF assms(1)] assms(3) gettoken_peeked(1) [OF assms(1,2)] by linarith

lemma consumed2:
  assumes "peek b i toks = (True, j)" and "gettoken b j = (tok, q, eq, k)" and "gettoken b k = (t, r, er, l)"
  shows "length b - l < length b - i"
  using consumed [OF assms(1,2)] gettoken_le [OF assms(3)] by simp

section \<open>The parser\<close>

type_synonym span = "nat \<times> nat"

text \<open>Modes of \<open>open\<close>.\<close>

definition redir_of :: "char \<Rightarrow> span cmd \<Rightarrow> span \<Rightarrow> span cmd" where
  "redir_of tok c w = (if tok = CHR ''<'' then Redir c w 0 0 else Redir c w 0x201 1)"

function parseredirs :: "string \<Rightarrow> nat \<Rightarrow> span cmd \<Rightarrow> (span cmd \<times> nat) res" where
  "parseredirs b i c =
     (case peek b i ''<>'' of (more, j) \<Rightarrow>
        if \<not> more then Ok (c, j)
        else
          (case gettoken b j of (tok, _, _, k) \<Rightarrow>
           case gettoken b k of (t, q, eq, l) \<Rightarrow>
             if t \<noteq> CHR ''a'' then Panic ''missing file for redirection''
             else parseredirs b l (redir_of tok c (q, eq))))"
  by pat_completeness auto
termination
  by (relation "measure (\<lambda>(b, i, c). length b - i)") (auto dest!: sym [of "(_, _)" "peek _ _ _"] sym [of "(_, _)" "gettoken _ _"] intro: consumed2)

declare parseredirs.simps [simp del]

text \<open>The node for the command itself is inside the redirections; \<open>argv[argc++]\<close> goes there.\<close>

fun add_arg :: "span cmd \<Rightarrow> span \<Rightarrow> span cmd" where
  "add_arg (Exec ws) w = Exec (ws @ [w])"
| "add_arg (Redir c f m fd) w = Redir (add_arg c w) f m fd"
| "add_arg c w = c"

function parse_args :: "string \<Rightarrow> nat \<Rightarrow> nat \<Rightarrow> span cmd \<Rightarrow> (span cmd \<times> nat) res" where
  "parse_args b i argc c =
     (case peek b i ''|)&;'' of (stop, j) \<Rightarrow>
        if stop then Ok (c, j)
        else
          (case gettoken b j of (tok, q, eq, k) \<Rightarrow>
             if tok = NUL then Ok (c, k)
             else if tok \<noteq> CHR ''a'' then Panic ''syntax''
             else if argc + 1 \<ge> MAXARGS then Panic ''too many args''
             else rbind (parseredirs b k (add_arg c (q, eq))) (\<lambda>(c, l). parse_args b l (argc + 1) c)))"
  by pat_completeness auto
termination by (relation "measure (\<lambda>(b, i, argc, c). MAXARGS - argc)") auto

declare parse_args.simps [simp del]

text \<open>\<open>while(peek(ps, es, "&"))\<close>\<close>

function parse_backs :: "string \<Rightarrow> nat \<Rightarrow> span cmd \<Rightarrow> span cmd \<times> nat" where
  "parse_backs b i c =
     (case peek b i ''&'' of (more, j) \<Rightarrow>
        if \<not> more then (c, j) else (case gettoken b j of (_, _, _, k) \<Rightarrow> parse_backs b k (Back c)))"
  by pat_completeness auto
termination
  by (relation "measure (\<lambda>(b, i, c). length b - i)") (auto dest!: sym [of "(_, _)" "peek _ _ _"] sym [of "(_, _)" "gettoken _ _"] intro: consumed [OF _ _ order.refl])

declare parse_backs.simps [simp del]

definition skip_token :: "string \<Rightarrow> nat \<Rightarrow> nat" where
  "skip_token b j = (case gettoken b j of (_, _, _, k) \<Rightarrow> k)"

text \<open>The four functions that call each other; the first argument bounds the depth of the calls.\<close>

fun parseline :: "nat \<Rightarrow> string \<Rightarrow> nat \<Rightarrow> (span cmd \<times> nat) res"
  and parsepipe :: "nat \<Rightarrow> string \<Rightarrow> nat \<Rightarrow> (span cmd \<times> nat) res"
  and parseexec :: "nat \<Rightarrow> string \<Rightarrow> nat \<Rightarrow> (span cmd \<times> nat) res"
  and parseblock :: "nat \<Rightarrow> string \<Rightarrow> nat \<Rightarrow> (span cmd \<times> nat) res" where
  "parseline 0 b i = Hang"
| "parseline (Suc n) b i =
     rbind (parsepipe n b i) (\<lambda>(c, i).
       case parse_backs b i c of (c, i) \<Rightarrow>
       case peek b i '';'' of (more, j) \<Rightarrow>
         if more then rbind (parseline n b (skip_token b j)) (\<lambda>(r, i). Ok (ListC c r, i)) else Ok (c, j))"
| "parsepipe 0 b i = Hang"
| "parsepipe (Suc n) b i =
     rbind (parseexec n b i) (\<lambda>(c, i).
       case peek b i ''|'' of (more, j) \<Rightarrow>
         if more then rbind (parsepipe n b (skip_token b j)) (\<lambda>(r, i). Ok (PipeC c r, i)) else Ok (c, j))"
| "parseexec 0 b i = Hang"
| "parseexec (Suc n) b i =
     (case peek b i ''('' of (block, j) \<Rightarrow>
        if block then parseblock n b j
        else rbind (parseredirs b j (Exec [])) (\<lambda>(c, k). parse_args b k 0 c))"
| "parseblock 0 b i = Hang"
| "parseblock (Suc n) b i =
     (case peek b i ''('' of (block, j) \<Rightarrow>
        if \<not> block then Panic ''parseblock''
        else
          rbind (parseline n b (skip_token b j)) (\<lambda>(c, i).
            case peek b i '')'' of (closed, j) \<Rightarrow>
              if \<not> closed then Panic ''syntax - missing )'' else parseredirs b (skip_token b j) c))"

text \<open>\<open>nulterminate\<close>: the terminators at the ends of the words; the one at the end of the line is there already.\<close>

definition put_nul :: "span \<Rightarrow> string \<Rightarrow> string" where
  "put_nul w b = b[snd w := NUL]"

fun nulterminate :: "span cmd \<Rightarrow> string \<Rightarrow> string" where
  "nulterminate (Exec ws) b = fold put_nul ws b"
| "nulterminate (Redir c f m fd) b = put_nul f (nulterminate c b)"
| "nulterminate (PipeC l r) b = nulterminate r (nulterminate l b)"
| "nulterminate (ListC l r) b = nulterminate r (nulterminate l b)"
| "nulterminate (Back c) b = nulterminate c b"

text \<open>A depth of 4 for every character and for the end of the line is enough.\<close>

definition parsecmd :: "string \<Rightarrow> (span cmd \<times> string) res" where
  "parsecmd b =
     rbind (parseline (4 * length b + 4) b 0) (\<lambda>(c, i).
       case peek b i [] of (_, j) \<Rightarrow> if j \<noteq> length b then Panic (''leftovers: '' @ drop j b @ [CHR 0x0A] @ ''syntax'') else Ok (c, nulterminate c b))"

end
