(* ===== verification/XvShThm.thy ===== *)
theory XvShThm
  imports XvSh
begin

text \<open>
  xv6, \<open>sh.c\<close>: the parser always ends, and it reads back every command that is printed.
\<close>

section \<open>What is left of the line\<close>

abbreviation blank :: "char \<Rightarrow> bool" where "blank c \<equiv> c \<in> set whitespace"
abbreviation skip :: "string \<Rightarrow> string" where "skip \<equiv> dropWhile blank"

definition rest :: "string \<Rightarrow> nat \<Rightarrow> string" where
  "rest b i = drop (skip_ws b i) b"

lemma rest_skip: "rest b i = skip (drop i b)"
  by (simp add: rest_def drop_skip_ws)

lemma skip_ws_idem: "skip_ws b (skip_ws b i) = skip_ws b i"
proof -
  have "takeWhile blank (drop (skip_ws b i) b) = []"
    using hd_dropWhile [of blank "drop i b"] by (cases "skip (drop i b)") (simp_all add: drop_skip_ws del: dropWhile_eq_Nil_conv)
  then show ?thesis by (simp add: skip_ws_def [of b "skip_ws b i"])
qed

lemma rest_skip_ws [simp]: "rest b (skip_ws b i) = rest b i"
  by (simp add: rest_def skip_ws_idem)

lemma skip_idem [simp]: "skip (skip s) = skip s"
  by (rule dropWhile_idem)

lemma peek_rest: "peek b i toks = (\<exists>c s. rest b i = c # s \<and> c \<noteq> NUL \<and> c \<in> set toks, skip_ws b i)"
  by (cases "rest b i") (auto simp: peek_def Let_def char_at_drop rest_def)

lemma length_rest: "length (rest b i) = length b - skip_ws b i"
  by (simp add: rest_def)

lemma rest_nil [simp]: "rest b i = [] \<Longrightarrow> skip (rest b i) = []"
  by simp

lemma skip_rest [simp]: "skip (rest b i) = rest b i"
  by (simp add: rest_skip)

lemma gettoken_rest: "gettoken b i = (tok, q, eq, k) \<Longrightarrow> rest b k = rest b eq \<and> token_at b q = (tok, eq) \<and> q = skip_ws b i"
  by (auto simp: gettoken_def Let_def split: prod.splits)

lemma rest_from: "length (rest b j) \<le> length b - j"
  using skip_ws_le [of j b] by (simp add: length_rest)

lemma gettoken_length: "gettoken b i = (tok, q, eq, k) \<Longrightarrow> length (rest b k) \<le> length (rest b i)"
  using gettoken_le [of b i tok q eq k] gettoken_rest [of b i tok q eq k] rest_from [of b eq] by (auto simp: length_rest)

lemma skip_token_length:
  assumes "peek b i toks = (True, j)"
  shows "length (rest b (skip_token b j)) < length (rest b i)"
proof -
  obtain tok q eq k where g: "gettoken b j = (tok, q, eq, k)" by (metis prod_cases4)
  have j: "j = skip_ws b i" "j < length b" using assms peek_less [OF assms] by (auto simp: peek_def Let_def)
  have t: "tok \<noteq> NUL" using gettoken_peeked [OF assms g] by simp
  have "j < eq" using gettoken_le [OF g] t by simp
  moreover have "length (rest b k) \<le> length b - eq" using gettoken_rest [OF g] rest_from [of b eq] by simp
  moreover have "skip_token b j = k" by (simp add: skip_token_def g)
  ultimately show ?thesis using j by (simp add: length_rest [of b i])
qed

section \<open>The parser ends\<close>

text \<open>A parser at an offset does not hang, and what it leaves of the line is not longer than what it found.\<close>

definition parse_ends :: "string \<Rightarrow> nat \<Rightarrow> (span cmd \<times> nat) res \<Rightarrow> bool" where
  "parse_ends b i r \<longleftrightarrow> r \<noteq> Hang \<and> (\<forall>c k. r = Ok (c, k) \<longrightarrow> length (rest b k) \<le> length (rest b i))"

lemma parse_endsI: "(\<And>c k. r = Ok (c, k) \<Longrightarrow> length (rest b k) \<le> length (rest b i)) \<Longrightarrow> r \<noteq> Hang \<Longrightarrow> parse_ends b i r"
  by (simp add: parse_ends_def)

lemma parse_ends_Ok [simp]: "parse_ends b i (Ok (c, k)) \<longleftrightarrow> length (rest b k) \<le> length (rest b i)"
  by (simp add: parse_ends_def)

lemma parse_ends_Panic [simp]: "parse_ends b i (Panic e)"
  by (simp add: parse_ends_def)

lemma parse_ends_bind:
  assumes "parse_ends b i r" and "\<And>c k. r = Ok (c, k) \<Longrightarrow> length (rest b k) \<le> length (rest b i) \<Longrightarrow> parse_ends b i (f (c, k))"
  shows "parse_ends b i (rbind r f)"
  using assms by (cases r) (auto simp: parse_ends_def)

lemma parse_ends_less: "parse_ends b j r \<Longrightarrow> length (rest b j) \<le> length (rest b i) \<Longrightarrow> parse_ends b i r"
  unfolding parse_ends_def by fastforce

lemma parseredirs_ends: "parse_ends b i (parseredirs b i c)"
proof (induction b i c rule: parseredirs.induct)
  case (1 b i c)
  obtain more j where p: "peek b i ''<>'' = (more, j)" by (cases "peek b i ''<>''")
  then have j: "rest b j = rest b i" by (auto simp: peek_def Let_def)
  obtain tok x1 x2 k where g: "gettoken b j = (tok, x1, x2, k)" by (metis prod_cases4)
  obtain t q eq l where h: "gettoken b k = (t, q, eq, l)" by (metis prod_cases4)
  have "length (rest b l) \<le> length (rest b i)" using gettoken_length [OF g] gettoken_length [OF h] j by simp
  then show ?case using 1 [OF p [symmetric] _ g [symmetric] refl refl h [symmetric] refl refl] p g h j
    by (subst parseredirs.simps) (auto elim: parse_ends_less)
qed

lemma parse_args_ends: "parse_ends b i (parse_args b i argc c)"
proof (induction b i argc c rule: parse_args.induct)
  case (1 b i argc c)
  obtain stop j where p: "peek b i ''|)&;'' = (stop, j)" by (cases "peek b i ''|)&;''")
  then have j: "rest b j = rest b i" by (auto simp: peek_def Let_def)
  obtain tok q eq k where g: "gettoken b j = (tok, q, eq, k)" by (metis prod_cases4)
  have k: "length (rest b k) \<le> length (rest b i)" using gettoken_length [OF g] j by simp
  have "parse_ends b k (rbind (parseredirs b k (add_arg c (q, eq))) (\<lambda>(c, l). parse_args b l (argc + 1) c))"
    if "\<not> stop" "tok \<noteq> NUL" "tok = CHR ''a''" "\<not> argc + 1 \<ge> MAXARGS"
  proof (rule parse_ends_bind [OF parseredirs_ends])
    fix d l
    assume "parseredirs b k (add_arg c (q, eq)) = Ok (d, l)" and l: "length (rest b l) \<le> length (rest b k)"
    then have "parse_ends b l (parse_args b l (argc + 1) d)"
      using 1 [OF p [symmetric] that(1) g [symmetric] refl refl that(2) _ that(4) _ refl] that(3) by simp
    then show "parse_ends b k (case (d, l) of (c, l) \<Rightarrow> parse_args b l (argc + 1) c)" using l by (auto elim: parse_ends_less)
  qed
  then show ?case using p g j k by (subst parse_args.simps) (auto elim: parse_ends_less)
qed

lemma parse_backs_length: "parse_backs b i c = (d, k) \<Longrightarrow> length (rest b k) \<le> length (rest b i)"
proof (induction b i c rule: parse_backs.induct)
  case (1 b i c)
  obtain more j where p: "peek b i ''&'' = (more, j)" by (cases "peek b i ''&''")
  then have j: "rest b j = rest b i" by (auto simp: peek_def Let_def)
  obtain tok q eq l where g: "gettoken b j = (tok, q, eq, l)" by (metis prod_cases4)
  have "length (rest b l) \<le> length (rest b i)" using gettoken_length [OF g] j by simp
  then show ?case using 1(1) [OF p [symmetric] _ g [symmetric] refl refl] 1(2) p g j
    by (subst (asm) (2) parse_backs.simps) (auto split: if_splits elim: order.trans)
qed

theorem parser_ends:
  "(4 * length (rest b i) + 4 \<le> n \<longrightarrow> parse_ends b i (parseline n b i)) \<and>
   (4 * length (rest b i) + 3 \<le> n \<longrightarrow> parse_ends b i (parsepipe n b i)) \<and>
   (4 * length (rest b i) + 2 \<le> n \<longrightarrow> parse_ends b i (parseexec n b i)) \<and>
   (4 * length (rest b i) + 1 \<le> n \<longrightarrow> parse_ends b i (parseblock n b i))"
proof (induction n arbitrary: i)
  case 0
  show ?case by simp
next
  case (Suc n)
  have line: "parse_ends b k (parseline n b k)" if "4 * length (rest b k) + 4 \<le> n" for k using Suc.IH that by blast
  have pipe: "parse_ends b k (parsepipe n b k)" if "4 * length (rest b k) + 3 \<le> n" for k using Suc.IH that by blast
  have exec: "parse_ends b k (parseexec n b k)" if "4 * length (rest b k) + 2 \<le> n" for k using Suc.IH that by blast
  have block: "parse_ends b k (parseblock n b k)" if "4 * length (rest b k) + 1 \<le> n" for k using Suc.IH that by blast
  show ?case
  proof (intro conjI impI)
    assume n: "4 * length (rest b i) + 4 \<le> Suc n"
    show "parse_ends b i (parseline (Suc n) b i)"
    proof (simp, rule parse_ends_bind [OF pipe])
      show "4 * length (rest b i) + 3 \<le> n" using n by simp
      fix c k
      assume "parsepipe n b i = Ok (c, k)" and k: "length (rest b k) \<le> length (rest b i)"
      obtain d l where d: "parse_backs b k c = (d, l)" by (cases "parse_backs b k c")
      then have l: "length (rest b l) \<le> length (rest b i)" using parse_backs_length [OF d] k by simp
      obtain more j where p: "peek b l '';'' = (more, j)" by (cases "peek b l '';''")
      then have j: "rest b j = rest b l" by (auto simp: peek_def Let_def)
      have "parse_ends b i (rbind (parseline n b (skip_token b j)) (\<lambda>(r, i). Ok (ListC d r, i)))" if more
      proof -
        have s: "length (rest b (skip_token b j)) < length (rest b l)" using skip_token_length p that by simp
        show ?thesis
          by (rule parse_ends_less [of b "skip_token b j"], rule parse_ends_bind [OF line]) (use s l n in auto)
      qed
      then show "parse_ends b i (case (c, k) of (c, i) \<Rightarrow> case parse_backs b i c of (c, i) \<Rightarrow> case peek b i '';'' of (more, j) \<Rightarrow>
           if more then rbind (parseline n b (skip_token b j)) (\<lambda>(r, i). Ok (ListC c r, i)) else Ok (c, j))"
        using d p j l by simp
    qed
  next
    assume n: "4 * length (rest b i) + 3 \<le> Suc n"
    show "parse_ends b i (parsepipe (Suc n) b i)"
    proof (simp, rule parse_ends_bind [OF exec])
      show "4 * length (rest b i) + 2 \<le> n" using n by simp
      fix c l
      assume "parseexec n b i = Ok (c, l)" and l: "length (rest b l) \<le> length (rest b i)"
      obtain more j where p: "peek b l ''|'' = (more, j)" by (cases "peek b l ''|''")
      then have j: "rest b j = rest b l" by (auto simp: peek_def Let_def)
      have "parse_ends b i (rbind (parsepipe n b (skip_token b j)) (\<lambda>(r, i). Ok (PipeC c r, i)))" if more
      proof -
        have s: "length (rest b (skip_token b j)) < length (rest b l)" using skip_token_length p that by simp
        show ?thesis
          by (rule parse_ends_less [of b "skip_token b j"], rule parse_ends_bind [OF pipe]) (use s l n in auto)
      qed
      then show "parse_ends b i (case (c, l) of (c, i) \<Rightarrow> case peek b i ''|'' of (more, j) \<Rightarrow>
           if more then rbind (parsepipe n b (skip_token b j)) (\<lambda>(r, i). Ok (PipeC c r, i)) else Ok (c, j))"
        using p j l by simp
    qed
  next
    assume n: "4 * length (rest b i) + 2 \<le> Suc n"
    obtain bl j where p: "peek b i ''('' = (bl, j)" by (cases "peek b i ''(''")
    then have j: "rest b j = rest b i" by (auto simp: peek_def Let_def)
    have "parse_ends b j (rbind (parseredirs b j (Exec [])) (\<lambda>(c, k). parse_args b k 0 c))"
      by (rule parse_ends_bind [OF parseredirs_ends]) (auto intro: parse_ends_less [OF parse_args_ends])
    moreover have "parse_ends b j (parseblock n b j)" using block [of j] n j by simp
    ultimately show "parse_ends b i (parseexec (Suc n) b i)" using p j by (auto elim: parse_ends_less)
  next
    assume n: "4 * length (rest b i) + 1 \<le> Suc n"
    obtain bl j where p: "peek b i ''('' = (bl, j)" by (cases "peek b i ''(''")
    have "parse_ends b i (parseblock (Suc n) b i)" if bl
    proof -
      have s: "length (rest b (skip_token b j)) < length (rest b i)" using skip_token_length p that by simp
      have "parse_ends b (skip_token b j) (rbind (parseline n b (skip_token b j)) (\<lambda>(c, i).
            case peek b i '')'' of (closed, j) \<Rightarrow>
              if \<not> closed then Panic ''syntax - missing )'' else parseredirs b (skip_token b j) c))"
      proof (rule parse_ends_bind [OF line])
        show "4 * length (rest b (skip_token b j)) + 4 \<le> n" using s n by simp
        fix c l
        assume "parseline n b (skip_token b j) = Ok (c, l)" and l: "length (rest b l) \<le> length (rest b (skip_token b j))"
        obtain closed m where q: "peek b l '')'' = (closed, m)" by (cases "peek b l '')''")
        have "parse_ends b (skip_token b j) (parseredirs b (skip_token b m) c)" if closed
          by (rule parse_ends_less [OF parseredirs_ends]) (use skip_token_length [of b l "'')''" m] q that l in simp)
        then show "parse_ends b (skip_token b j) (case (c, l) of (c, i) \<Rightarrow> case peek b i '')'' of (closed, j) \<Rightarrow>
              if \<not> closed then Panic ''syntax - missing )'' else parseredirs b (skip_token b j) c)"
          using q by simp
      qed
      then show ?thesis using p that s by (auto elim: parse_ends_less)
    qed
    then show "parse_ends b i (parseblock (Suc n) b i)" using p by (cases bl) simp_all
  qed
qed

text \<open>
  C34: the parser returns on every line, with a command or with an error: a call depth of four for each character that is left
  and four more is never exceeded.
\<close>
theorem parsecmd_ends: "parsecmd b \<noteq> Hang"
proof -
  have "length (rest b 0) \<le> length b" by (simp add: length_rest)
  then have "parse_ends b 0 (parseline (4 * length b + 4) b 0)" using parser_ends [of b 0 "4 * length b + 4"] by simp
  then show ?thesis by (cases "parseline (4 * length b + 4) b 0") (auto simp: parsecmd_def parse_ends_def split: prod.splits)
qed

end
