(* ===== verification/XvShRound.thy ===== *)
theory XvShRound
  imports XvShThm
begin

text \<open>
  xv6, \<open>sh.c\<close>: the parser reads back every command. A command is printed with a blank in front of each token and with
  parentheses where the grammar needs them; what the parser makes of the line is the command, its words being the C strings at
  the offsets of the tree once the terminators are in the line.
\<close>

section \<open>Printing a command\<close>

definition paren :: "bool \<Rightarrow> string \<Rightarrow> string" where
  "paren p s = (if p then '' ('' @ s @ '' )'' else s)"

definition show_words :: "string list \<Rightarrow> string" where
  "show_words ws = concat (map (\<lambda>w. '' '' @ w) ws)"

text \<open>Level 3 is a line, 2 what \<open>&\<close> follows, 1 a pipeline, 0 a member of a pipeline.\<close>

primrec show_at :: "string cmd \<Rightarrow> nat \<Rightarrow> string" where
  "show_at (Exec ws) lv = show_words ws"
| "show_at (Redir c f m fd) lv = show_at c 0 @ (if fd = 0 then '' <'' else '' >'') @ '' '' @ f"
| "show_at (PipeC l r) lv = paren (lv < 1) (show_at l 0 @ '' |'' @ show_at r 1)"
| "show_at (ListC l r) lv = paren (lv < 3) (show_at l 2 @ '' ;'' @ show_at r 3)"
| "show_at (Back c) lv = paren (lv < 2) (show_at c 2 @ '' &'')"

definition good_word :: "string \<Rightarrow> bool" where
  "good_word w \<longleftrightarrow> w \<noteq> [] \<and> (\<forall>c \<in> set w. word_char c \<and> c \<noteq> NUL)"

text \<open>The commands that can be written: at most nine words, and the two modes that a redirection has.\<close>

primrec writable :: "string cmd \<Rightarrow> bool" where
  "writable (Exec ws) \<longleftrightarrow> length ws < MAXARGS \<and> (\<forall>w \<in> set ws. good_word w)"
| "writable (Redir c f m fd) \<longleftrightarrow> writable c \<and> good_word f \<and> (m, fd) \<in> {(0, 0), (0x201, 1)}"
| "writable (PipeC l r) \<longleftrightarrow> writable l \<and> writable r"
| "writable (ListC l r) \<longleftrightarrow> writable l \<and> writable r"
| "writable (Back c) \<longleftrightarrow> writable c"

section \<open>Tokens\<close>

definition is_word :: "string \<Rightarrow> span \<Rightarrow> bool" where
  "is_word b s \<longleftrightarrow> fst s \<le> snd s \<and> snd s \<le> length b \<and> (\<forall>x. fst s \<le> x \<and> x < snd s \<longrightarrow> word_char (b ! x) \<and> b ! x \<noteq> NUL) \<and>
     (snd s < length b \<longrightarrow> \<not> word_char (b ! snd s))"

definition word_at :: "string \<Rightarrow> string \<Rightarrow> span \<Rightarrow> bool" where
  "word_at b w s \<longleftrightarrow> is_word b s \<and> w = take (snd s - fst s) (drop (fst s) b)"

definition sep :: "string \<Rightarrow> bool" where "sep s \<longleftrightarrow> s = [] \<or> \<not> word_char (hd s)"

definition follow :: "string \<Rightarrow> string \<Rightarrow> bool" where
  "follow F s \<longleftrightarrow> sep s \<and> (skip s = [] \<or> hd (skip s) \<in> set F)"

lemma sep_blank [simp]: "sep (CHR 0x20 # s)"
  by (simp add: sep_def word_char_def whitespace_def)

lemma space_blank [simp]: "CHR 0x20 \<in> set whitespace"
  by (simp add: whitespace_def)

declare dropWhile_eq_Nil_conv [simp del]

lemma symbols_not_blank [simp]:
  "CHR ''<'' \<notin> set whitespace" "CHR ''>'' \<notin> set whitespace" "CHR ''('' \<notin> set whitespace" "CHR '')'' \<notin> set whitespace"
  "CHR '';'' \<notin> set whitespace" "CHR ''&'' \<notin> set whitespace" "CHR ''|'' \<notin> set whitespace"
  by (simp_all add: whitespace_def)

lemma skip_blank: "skip (CHR 0x20 # s) = skip s"
  by simp

lemma rest_drop: "rest b i = c # s \<Longrightarrow> drop (Suc (skip_ws b i)) b = s \<and> skip_ws b i < length b \<and> b ! skip_ws b i = c"
  unfolding rest_def by (metis Cons_nth_drop_Suc drop_all list.distinct(1) list.inject not_le)

lemma char_at_rest: "char_at b (skip_ws b i) = (case rest b i of [] \<Rightarrow> NUL | c # _ \<Rightarrow> c)"
  by (simp add: char_at_drop rest_def)

lemma skip_token_symbol:
  assumes "rest b i = c # s" and "c \<in> set ''|();&''"
  shows "rest b (skip_token b i) = skip s"
proof -
  have "c \<noteq> NUL" using assms(2) by (auto simp: NUL_def)
  then show ?thesis using assms rest_drop [OF assms(1)]
    by (auto simp: skip_token_def gettoken_def token_at_def Let_def char_at_rest rest_skip [of b "Suc _"])
qed

lemma gettoken_redir:
  assumes "rest b i = c # CHR 0x20 # s" and "c \<in> set ''<>''"
  shows "\<exists>q eq k. gettoken b i = (c, q, eq, k) \<and> rest b k = skip s"
proof -
  have n: "c \<noteq> NUL" using assms(2) by (auto simp: NUL_def)
  have d: "drop (Suc (skip_ws b i)) b = CHR 0x20 # s" using rest_drop [OF assms(1)] by simp
  then have "char_at b (Suc (skip_ws b i)) = CHR 0x20" by (simp add: char_at_drop)
  then show ?thesis using assms n d
    by (auto simp: gettoken_def token_at_def Let_def char_at_rest rest_skip [of b "Suc _"])
qed

lemma gettoken_word:
  assumes r: "rest b i = w @ s" and w: "good_word w" and s: "sep s"
  shows "\<exists>q eq k. gettoken b i = (CHR ''a'', q, eq, k) \<and> word_at b w (q, eq) \<and> rest b k = skip s"
proof -
  define q where "q = skip_ws b i"
  have d: "drop q b = w @ s" using r by (simp add: rest_def q_def)
  have t: "takeWhile word_char (w @ s) = w"
    using w s by (cases s) (auto simp: good_word_def sep_def takeWhile_append)
  obtain c w' where cw: "w = c # w'" using w by (cases w) (auto simp: good_word_def)
  have c: "word_char c" "c \<noteq> NUL" using w cw by (auto simp: good_word_def)
  have "c \<notin> set ''|();&<''" "c \<noteq> CHR ''>''" using c(1) by (auto simp: word_char_def symbols_def)
  moreover have "char_at b q = c" using d cw by (simp add: char_at_drop)
  ultimately have tok: "token_at b q = (CHR ''a'', q + length w)" using c(2) d t by (simp add: token_at_def Let_def)
  have q: "q + length w \<le> length b" using d cw by (metis drop_all length_append length_drop le_add1 le_diff_conv2 list.distinct(1) append_Cons not_le less_imp_le add.commute)
  have e: "drop (q + length w) b = s" using d by (metis add.commute append_eq_conv_conj drop_drop)
  have "word_at b w (q, q + length w)"
  proof -
    have "word_char (b ! x) \<and> b ! x \<noteq> NUL" if "q \<le> x" "x < q + length w" for x
    proof -
      have "b ! x = (w @ s) ! (x - q)" using d that q by (metis add_diff_inverse_nat nth_drop not_le le_trans less_imp_le trans_le_add1 le_add1 leD)
      then have "b ! x = w ! (x - q)" using that less_diff_conv2 [of q x "length w"] by (simp add: nth_append add.commute)
      then show ?thesis using w that unfolding good_word_def by (metis add_less_imp_less_left le_add_diff_inverse nth_mem)
    qed
    moreover have "\<not> word_char (b ! (q + length w))" if "q + length w < length b"
      using e s that by (metis Cons_nth_drop_Suc list.distinct(1) list.sel(1) sep_def)
    ultimately show ?thesis using q d by (auto simp: word_at_def is_word_def)
  qed
  moreover have "gettoken b i = (CHR ''a'', q, q + length w, skip_ws b (q + length w))"
    using tok by (simp add: gettoken_def Let_def q_def)
  moreover have "rest b (skip_ws b (q + length w)) = skip s" using e by (simp add: rest_skip [of b "q + length w"])
  ultimately show ?thesis by blast
qed


section \<open>Redirections and words\<close>

lemma peek_rest_in: "rest b i = c # s \<Longrightarrow> c \<noteq> NUL \<Longrightarrow> peek b i toks = (c \<in> set toks, skip_ws b i)"
  by (simp add: peek_rest)

lemma peek_rest_out: "(case rest b i of [] \<Rightarrow> True | c # _ \<Rightarrow> c \<notin> set toks) \<Longrightarrow> peek b i toks = (False, skip_ws b i)"
  by (simp add: peek_rest split: list.splits)

lemma peek_yes: "rest b i = c # s \<Longrightarrow> c \<in> set toks \<Longrightarrow> c \<noteq> NUL \<Longrightarrow> peek b i toks = (True, skip_ws b i)"
  by (simp add: peek_rest)

type_synonym redir = "string \<times> nat \<times> nat"

fun good_redir :: "redir \<Rightarrow> bool" where
  "good_redir (f, m, fd) \<longleftrightarrow> good_word f \<and> (m, fd) \<in> {(0, 0), (0x201, 1)}"

fun show_redir :: "redir \<Rightarrow> string" where
  "show_redir (f, m, fd) = (if fd = 0 then '' <'' else '' >'') @ '' '' @ f"

definition show_redirs :: "redir list \<Rightarrow> string" where
  "show_redirs rs = concat (map show_redir rs)"

fun wrap :: "redir list \<Rightarrow> string cmd \<Rightarrow> string cmd" where
  "wrap [] c = c"
| "wrap ((f, m, fd) # rs) c = wrap rs (Redir c f m fd)"

abbreviation denotes :: "string \<Rightarrow> string cmd \<Rightarrow> span cmd \<Rightarrow> bool" where
  "denotes b \<equiv> rel_cmd (word_at b)"

lemma sep_redirs: "sep s \<Longrightarrow> sep (show_redirs rs @ s)"
  by (cases rs) (auto simp: show_redirs_def)

lemma sep_words: "sep s \<Longrightarrow> sep (show_words ws @ s)"
  by (cases ws) (auto simp: show_words_def)

lemma good_word_skip: "good_word w \<Longrightarrow> skip (w @ s) = w @ s"
  by (cases w) (auto simp: good_word_def word_char_def)

lemma parseredirs_show:
  "\<lbrakk> \<forall>r \<in> set rs. good_redir r; rest b i = skip (show_redirs rs @ s); sep s; case skip s of [] \<Rightarrow> True | c # _ \<Rightarrow> c \<notin> set ''<>'';
     denotes b c t \<rbrakk>
   \<Longrightarrow> \<exists>t' k. parseredirs b i t = Ok (t', k) \<and> denotes b (wrap rs c) t' \<and> rest b k = skip s \<and> (rs = [] \<longrightarrow> t' = t)"
proof (induction rs arbitrary: i c t)
  case Nil
  then have "peek b i ''<>'' = (False, skip_ws b i)" using Nil by (intro peek_rest_out) (simp add: show_redirs_def)
  then have "parseredirs b i t = Ok (t, skip_ws b i)" by (subst parseredirs.simps) simp
  then show ?case using Nil by (simp add: show_redirs_def)
next
  case (Cons r rs)
  obtain f m fd where r: "r = (f, m, fd)" by (metis prod_cases3)
  have g: "good_word f" and mf: "(m, fd) \<in> {(0, 0), (0x201, 1)}" using Cons.prems(1) r by auto
  define rd where "rd = (if fd = 0 then CHR ''<'' else CHR ''>'')"
  have rd: "rd \<in> set ''<>''" "rd \<noteq> NUL" "rd \<notin> set whitespace" by (auto simp: rd_def NUL_def whitespace_def)
  have ri: "rest b i = rd # CHR 0x20 # f @ show_redirs rs @ s" using Cons.prems(2) rd r by (simp add: show_redirs_def rd_def)
  have pk: "peek b i ''<>'' = (True, skip_ws b i)" by (rule peek_yes [OF ri rd(1,2)])
  obtain q eq k where tok: "gettoken b (skip_ws b i) = (rd, q, eq, k)" and k: "rest b k = skip (f @ show_redirs rs @ s)"
    using gettoken_redir [of b "skip_ws b i" rd "f @ show_redirs rs @ s"] ri rd by auto
  have "rest b k = f @ show_redirs rs @ s" using k good_word_skip [OF g] by simp
  from gettoken_word [OF this g sep_redirs [OF Cons.prems(3)]]
  obtain q' eq' l where w: "gettoken b k = (CHR ''a'', q', eq', l)" "word_at b f (q', eq')"
    and l: "rest b l = skip (show_redirs rs @ s)" by blast
  have d: "denotes b (Redir c f m fd) (redir_of rd t (q', eq'))"
    using Cons.prems(5) w(2) mf by (auto simp: redir_of_def rd_def)
  have "parseredirs b i t = parseredirs b l (redir_of rd t (q', eq'))"
    by (subst parseredirs.simps) (simp add: pk tok w(1))
  then show ?case using Cons.IH [OF _ l Cons.prems(3,4) d] Cons.prems(1) r by auto
qed

lemma parse_args_stop:
  assumes "rest b i = skip s" and "follow ''|)&;'' s"
  shows "\<exists>k. parse_args b i argc t = Ok (t, k) \<and> rest b k = skip s"
proof (cases "skip s")
  case Nil
  then have pk: "peek b i ''|)&;'' = (False, skip_ws b i)" using assms(1) by (intro peek_rest_out) (simp only: list.case)
  have "token_at b (skip_ws b i) = (NUL, skip_ws b i)"
    using assms(1) Nil by (simp add: token_at_def char_at_rest)
  then have "gettoken b (skip_ws b i) = (NUL, skip_ws b i, skip_ws b i, skip_ws b i)"
    by (simp add: gettoken_def skip_ws_idem Let_def)
  then show ?thesis using pk assms(1) by (subst parse_args.simps) simp
next
  case (Cons c u)
  then have c: "c \<in> set ''|)&;''" using assms(2) by (simp add: follow_def)
  then have "c \<noteq> NUL" by (auto simp: NUL_def)
  then have "peek b i ''|)&;'' = (True, skip_ws b i)" using c assms(1) Cons by (intro peek_yes) auto
  then show ?thesis using assms(1) by (subst parse_args.simps) simp
qed


lemma add_arg_denotes:
  assumes "denotes b (Exec ws) t" and "word_at b w x"
  shows "denotes b (Exec (ws @ [w])) (add_arg t x)"
  using assms by (cases t) (simp_all add: list_all2_appendI)

lemma show_words_Cons: "show_words (w # ws) = CHR 0x20 # w @ show_words ws"
  by (simp add: show_words_def)

lemma parse_args_show:
  "\<lbrakk> ws \<noteq> []; \<forall>w \<in> set ws. good_word w; argc + length ws < MAXARGS; \<forall>r \<in> set rs. good_redir r;
     rest b i = skip (show_words ws @ show_redirs rs @ s); follow ''|)&;'' s; denotes b (Exec us) t \<rbrakk>
   \<Longrightarrow> \<exists>t' k. parse_args b i argc t = Ok (t', k) \<and> denotes b (wrap rs (Exec (us @ ws))) t' \<and> rest b k = skip s"
proof (induction ws arbitrary: i argc us t)
  case Nil
  then show ?case by simp
next
  case (Cons w ws)
  have g: "good_word w" using Cons.prems(2) by simp
  have s: "sep s" using Cons.prems(6) by (simp add: follow_def)
  define u where "u = show_words ws @ show_redirs rs @ s"
  have su: "sep u" unfolding u_def by (intro sep_words sep_redirs s)
  have ri: "rest b i = w @ u" using Cons.prems(5) good_word_skip [OF g, of u] by (simp add: show_words_Cons u_def)
  obtain c w' where cw: "w = c # w'" using g by (cases w) (auto simp: good_word_def)
  have c: "word_char c" "c \<noteq> NUL" using g cw by (auto simp: good_word_def)
  have pk: "peek b i ''|)&;'' = (False, skip_ws b i)"
    using ri cw c by (intro peek_rest_out) (auto simp: word_char_def symbols_def)
  obtain q eq k where tok: "gettoken b (skip_ws b i) = (CHR ''a'', q, eq, k)" and wq: "word_at b w (q, eq)" and k: "rest b k = skip u"
    using gettoken_word [of b "skip_ws b i" w u] ri g su by auto
  have d: "denotes b (Exec (us @ [w])) (add_arg t (q, eq))" by (rule add_arg_denotes [OF Cons.prems(7) wq])
  have step: "parse_args b i argc t = rbind (parseredirs b k (add_arg t (q, eq))) (\<lambda>(c, l). parse_args b l (argc + 1) c)"
    using Cons.prems(3) by (subst parse_args.simps) (simp add: pk tok NUL_def)
  show ?case
  proof (cases "ws = []")
    case True
    have "case skip s of [] \<Rightarrow> True | c # _ \<Rightarrow> c \<notin> set ''<>''"
      using Cons.prems(6) by (cases "skip s") (auto simp: follow_def)
    moreover have "rest b k = skip (show_redirs rs @ s)" using k True by (simp add: u_def show_words_def)
    ultimately obtain t' l where p: "parseredirs b k (add_arg t (q, eq)) = Ok (t', l)" and t': "denotes b (wrap rs (Exec (us @ [w]))) t'"
      and l: "rest b l = skip s"
      using parseredirs_show [OF Cons.prems(4) _ s _ d] by blast
    show ?thesis using parse_args_stop [OF l Cons.prems(6), of "argc + 1" t'] p t' True step by auto
  next
    case False
    then obtain v vs where ws: "ws = v # vs" by (cases ws) auto
    have v: "good_word v" using Cons.prems(2) ws by simp
    obtain c' v' where cv: "v = c' # v'" "word_char c'" using v by (cases v) (auto simp: good_word_def)
    have "skip u = v @ show_words vs @ show_redirs rs @ s"
      using good_word_skip [OF v, of "show_words vs @ show_redirs rs @ s"] by (simp add: u_def ws show_words_Cons)
    then have "case skip u of [] \<Rightarrow> True | c # _ \<Rightarrow> c \<notin> set ''<>''" using cv by (auto simp: word_char_def symbols_def)
    then obtain l where p: "parseredirs b k (add_arg t (q, eq)) = Ok (add_arg t (q, eq), l)" and l: "rest b l = skip u"
      using parseredirs_show [of "[]" b k u, OF _ _ su _ d] k by (auto simp: show_redirs_def)
    have "\<exists>t' k. parse_args b l (argc + 1) (add_arg t (q, eq)) = Ok (t', k) \<and>
        denotes b (wrap rs (Exec ((us @ [w]) @ ws))) t' \<and> rest b k = skip s"
      by (rule Cons.IH [OF False _ _ Cons.prems(4) _ Cons.prems(6) d])
        (use Cons.prems(2,3) l in \<open>simp_all add: u_def\<close>)
    then show ?thesis using p step by simp
  qed
qed

lemma parse_exec_show:
  assumes w: "\<forall>w \<in> set ws. good_word w" "length ws < MAXARGS" and r: "\<forall>r \<in> set rs. good_redir r"
    and ri: "rest b i = skip (show_words ws @ show_redirs rs @ s)" and s: "follow ''|)&;'' s"
  shows "\<exists>t k. parseexec (Suc n) b i = Ok (t, k) \<and> denotes b (wrap rs (Exec ws)) t \<and> rest b k = skip s"
proof -
  have sep: "sep s" using s by (simp add: follow_def)
  have ss: "case skip s of [] \<Rightarrow> True | c # _ \<Rightarrow> c \<notin> set ''<>''" using s by (cases "skip s") (auto simp: follow_def)
  have d: "denotes b (Exec []) (Exec [])" by simp
  show ?thesis
  proof (cases ws)
    case Nil
    have "case rest b i of [] \<Rightarrow> True | c # _ \<Rightarrow> c \<notin> set ''(''"
    proof (cases rs)
      case Nil
      then show ?thesis using ri s \<open>ws = []\<close> by (cases "skip s") (auto simp: show_words_def show_redirs_def follow_def)
    next
      case (Cons x xs)
      then show ?thesis using ri \<open>ws = []\<close>
        by (cases x) (auto simp: show_words_def show_redirs_def whitespace_def)
    qed
    then have pk: "peek b i ''('' = (False, skip_ws b i)" by (rule peek_rest_out)
    obtain t l where p: "parseredirs b (skip_ws b i) (Exec []) = Ok (t, l)" "denotes b (wrap rs (Exec [])) t" and l: "rest b l = skip s"
      using parseredirs_show [OF r _ sep ss d, of "skip_ws b i"] ri Nil by (auto simp: show_words_def)
    show ?thesis using parse_args_stop [OF l s, of 0 t] p pk Nil by auto
  next
    case (Cons v vs)
    have v: "good_word v" using w(1) Cons by simp
    define u where "u = show_words ws @ show_redirs rs @ s"
    have su: "sep u" unfolding u_def by (intro sep_words sep_redirs sep)
    obtain c' v' where cv: "v = c' # v'" "word_char c'" using v by (cases v) (auto simp: good_word_def)
    have k: "skip u = v @ show_words vs @ show_redirs rs @ s"
      using good_word_skip [OF v, of "show_words vs @ show_redirs rs @ s"] by (simp add: u_def Cons show_words_Cons)
    then have "case skip u of [] \<Rightarrow> True | c # _ \<Rightarrow> c \<notin> set ''<>''" using cv by (auto simp: word_char_def symbols_def)
    then obtain l where p: "parseredirs b (skip_ws b i) (Exec []) = Ok (Exec [], l)" and l: "rest b l = skip u"
      using parseredirs_show [of "[]" b "skip_ws b i" u, OF _ _ su _ d] ri by (auto simp: show_redirs_def u_def)
    have pk: "peek b i ''('' = (False, skip_ws b i)"
      using ri k cv by (intro peek_rest_out) (auto simp: u_def word_char_def symbols_def)
    have "\<exists>t' k. parse_args b l 0 (Exec []) = Ok (t', k) \<and> denotes b (wrap rs (Exec ([] @ ws))) t' \<and> rest b k = skip s"
      by (rule parse_args_show [OF _ w(1) _ r _ s d]) (use Cons w(2) l in \<open>simp_all add: u_def\<close>)
    then show ?thesis using p pk by simp
  qed
qed


section \<open>Commands\<close>

definition is_redir :: "string cmd \<Rightarrow> bool" where "is_redir c \<longleftrightarrow> (\<exists>d f m fd. c = Redir d f m fd)"
definition is_back :: "string cmd \<Rightarrow> bool" where "is_back c \<longleftrightarrow> (\<exists>d. c = Back d)"
definition is_exec :: "string cmd \<Rightarrow> bool" where "is_exec c \<longleftrightarrow> (\<exists>ws. c = Exec ws)"

lemma wrap_append: "wrap (rs @ [(f, m, fd)]) c = Redir (wrap rs c) f m fd"
  by (induction rs c rule: wrap.induct) simp_all

lemma unwrap:
  "writable c \<Longrightarrow> \<exists>rs d. c = wrap rs d \<and> \<not> is_redir d \<and> writable d \<and> (\<forall>r \<in> set rs. good_redir r) \<and>
     show_at c 0 = show_at d 0 @ show_redirs rs"
proof (induction c)
  case (Redir c f m fd)
  then obtain rs d where d: "c = wrap rs d" "\<not> is_redir d" "writable d" "\<forall>r \<in> set rs. good_redir r"
      "show_at c 0 = show_at d 0 @ show_redirs rs" by auto
  have "Redir c f m fd = wrap (rs @ [(f, m, fd)]) d" using d(1) by (simp add: wrap_append)
  moreover have "show_at (Redir c f m fd) 0 = show_at d 0 @ show_redirs (rs @ [(f, m, fd)])"
    using d(5) by (simp add: show_redirs_def)
  moreover have "\<forall>r \<in> set (rs @ [(f, m, fd)]). good_redir r" using d(4) Redir.prems by auto
  ultimately show ?case using d(2,3) by blast
qed (rule exI [of _ "[]"], force simp: is_redir_def show_redirs_def)+

definition show_backs :: "nat \<Rightarrow> string" where
  "show_backs m = concat (replicate m '' &'')"

lemma show_backs_Suc: "show_backs (Suc m) = show_backs m @ '' &''"
  by (simp add: show_backs_def replicate_append_same [symmetric])

lemma show_backs_Cons: "show_backs (Suc m) = '' &'' @ show_backs m"
  by (simp add: show_backs_def)

lemma unback:
  "writable c \<Longrightarrow> \<exists>m d. c = (Back ^^ m) d \<and> \<not> is_back d \<and> writable d \<and> show_at c 2 = show_at d 1 @ show_backs m"
proof (induction c)
  case (Back c)
  then obtain m d where d: "c = (Back ^^ m) d" "\<not> is_back d" "writable d" "show_at c 2 = show_at d 1 @ show_backs m" by auto
  have "Back c = (Back ^^ Suc m) d" using d(1) by simp
  moreover have "show_at (Back c) 2 = show_at d 1 @ show_backs (Suc m)" using d(4) by (simp add: paren_def show_backs_Suc)
  ultimately show ?case using d(2,3) by blast
qed (rule exI [of _ 0], force simp: is_back_def show_backs_def paren_def)+

lemma funpow_back_denotes: "denotes b c t \<Longrightarrow> denotes b ((Back ^^ m) c) ((Back ^^ m) t)"
  by (induction m) simp_all

lemma parse_backs_show:
  "\<lbrakk> rest b i = skip (show_backs m @ s); case skip s of [] \<Rightarrow> True | c # _ \<Rightarrow> c \<notin> set ''&'' \<rbrakk>
   \<Longrightarrow> \<exists>k. parse_backs b i t = ((Back ^^ m) t, k) \<and> rest b k = skip s"
proof (induction m arbitrary: i t)
  case 0
  then have "peek b i ''&'' = (False, skip_ws b i)" by (intro peek_rest_out) (simp add: show_backs_def)
  then show ?case using 0 by (subst parse_backs.simps) (simp add: show_backs_def)
next
  case (Suc m)
  have ri: "rest b i = CHR ''&'' # show_backs m @ s" using Suc.prems(1) by (simp add: show_backs_Cons)
  have pk: "peek b i ''&'' = (True, skip_ws b i)" by (rule peek_yes [OF ri]) (simp_all add: NUL_def)
  have l: "rest b (skip_token b (skip_ws b i)) = skip (show_backs m @ s)"
    using skip_token_symbol [of b "skip_ws b i"] ri by simp
  have "parse_backs b i t = parse_backs b (skip_token b (skip_ws b i)) (Back t)"
    by (subst parse_backs.simps) (simp add: pk skip_token_def split: prod.splits)
  then show ?case using Suc.IH [OF l Suc.prems(2), of "Back t"] by (simp add: funpow_swap1)
qed

definition reads :: "string \<Rightarrow> string cmd \<Rightarrow> string \<Rightarrow> (span cmd \<times> nat) res \<Rightarrow> bool" where
  "reads b c s r \<longleftrightarrow> (\<exists>t k. r = Ok (t, k) \<and> denotes b c t \<and> rest b k = skip s)"

lemma readsE: "reads b c s r \<Longrightarrow> (\<And>t k. r = Ok (t, k) \<Longrightarrow> denotes b c t \<Longrightarrow> rest b k = skip s \<Longrightarrow> thesis) \<Longrightarrow> thesis"
  by (auto simp: reads_def)

lemma follow_token [simp]: "c \<notin> set whitespace \<Longrightarrow> follow F (CHR 0x20 # c # s) \<longleftrightarrow> c \<in> set F"
  by (simp add: follow_def)

lemma follow_mono: "follow F s \<Longrightarrow> set F \<subseteq> set G \<Longrightarrow> follow G s"
  by (auto simp: follow_def)

lemma follow_not: "follow F s \<Longrightarrow> (\<And>c. c \<in> set F \<Longrightarrow> c \<notin> set G) \<Longrightarrow> (case skip s of [] \<Rightarrow> True | c # _ \<Rightarrow> c \<notin> set G)"
  by (cases "skip s") (auto simp: follow_def)

lemma length_skip_append: "length (skip t) \<le> length (skip (s @ t))"
proof (induction s)
  case (Cons c s)
  have "length (skip t) \<le> length (c # s @ t)" using length_dropWhile_le [of blank t] by simp
  then show ?case using Cons by simp
qed simp

text \<open>A member, with the shorter depth in front of it.\<close>

lemma parse_head_show:
  assumes pipe: "\<And>d s. writable d \<Longrightarrow> rest b i = skip (show_at d 1 @ s) \<Longrightarrow> follow '')&;'' s \<Longrightarrow> reads b d s (parsepipe n b i)"
    and c: "writable c" "rest b i = skip (show_at c 2 @ s)" "follow '');'' s"
  shows "\<exists>t k t' k'. parsepipe n b i = Ok (t, k) \<and> parse_backs b k t = (t', k') \<and> denotes b c t' \<and> rest b k' = skip s"
proof -
  obtain m d where d: "c = (Back ^^ m) d" "writable d" "show_at c 2 = show_at d 1 @ show_backs m"
    using unback [OF c(1)] by blast
  have "follow '')&;'' (show_backs m @ s)"
  proof (cases m)
    case 0
    then show ?thesis using follow_mono [OF c(3), of "'')&;''"] by (simp add: show_backs_def)
  qed (simp add: show_backs_Cons)
  then have "reads b d (show_backs m @ s) (parsepipe n b i)" using pipe d(2,3) c(2) by simp
  then obtain t k where t: "parsepipe n b i = Ok (t, k)" "denotes b d t" "rest b k = skip (show_backs m @ s)" by (rule readsE)
  have "case skip s of [] \<Rightarrow> True | c # _ \<Rightarrow> c \<notin> set ''&''" by (rule follow_not [OF c(3)]) auto
  from parse_backs_show [OF t(3) this, of t] obtain k' where "parse_backs b k t = ((Back ^^ m) t, k')" "rest b k' = skip s" by blast
  then show ?thesis using t(1) funpow_back_denotes [OF t(2), of m] d(1) by blast
qed


lemma parseline_show:
  assumes pipe: "\<And>d s. writable d \<Longrightarrow> rest b i = skip (show_at d 1 @ s) \<Longrightarrow> follow '')&;'' s \<Longrightarrow> reads b d s (parsepipe n b i)"
    and line: "\<And>d j s. writable d \<Longrightarrow> rest b j = skip (show_at d 3 @ s) \<Longrightarrow> follow '')'' s \<Longrightarrow> length (rest b j) < length (rest b i) \<Longrightarrow>
      reads b d s (parseline n b j)"
    and c: "writable c" "rest b i = skip (show_at c 3 @ s)" "follow '')'' s"
  shows "reads b c s (parseline (Suc n) b i)"
proof (cases "\<exists>l r. c = ListC l r")
  case True
  then obtain l r where lr: "c = ListC l r" by blast
  define u where "u = '' ;'' @ show_at r 3 @ s"
  have ri: "rest b i = skip (show_at l 2 @ u)" using c(2) by (simp add: lr paren_def u_def)
  have "follow '');'' u" by (simp add: u_def)
  from parse_head_show [OF pipe _ ri this] c(1) lr obtain t k t' k' where
    t: "parsepipe n b i = Ok (t, k)" "parse_backs b k t = (t', k')" "denotes b l t'" "rest b k' = skip u" by auto
  have k': "rest b k' = CHR '';'' # show_at r 3 @ s" using t(4) by (simp add: u_def)
  have pk: "peek b k' '';'' = (True, skip_ws b k')" by (rule peek_yes [OF k']) (simp_all add: NUL_def)
  define j where "j = skip_token b (skip_ws b k')"
  have j: "rest b j = skip (show_at r 3 @ s)" using skip_token_symbol [of b "skip_ws b k'"] k' by (simp add: j_def)
  have "length (rest b k') \<le> length (rest b i)" using length_skip_append [of u "show_at l 2"] t(4) ri by simp
  then have "length (rest b j) < length (rest b i)" using skip_token_length [OF pk] by (simp add: j_def)
  then have "reads b r s (parseline n b j)" using line [OF _ j c(3)] c(1) lr by simp
  then obtain t2 k2 where "parseline n b j = Ok (t2, k2)" "denotes b r t2" "rest b k2 = skip s" by (rule readsE)
  then show ?thesis using t pk lr by (simp add: reads_def j_def)
next
  case False
  then have "show_at c 3 = show_at c 2" by (cases c) (simp_all add: paren_def)
  then have ri: "rest b i = skip (show_at c 2 @ s)" using c(2) by simp
  have "follow '');'' s" by (rule follow_mono [OF c(3)]) auto
  from parse_head_show [OF pipe c(1) ri this] obtain t k t' k' where
    t: "parsepipe n b i = Ok (t, k)" "parse_backs b k t = (t', k')" "denotes b c t'" "rest b k' = skip s" by auto
  have "case skip s of [] \<Rightarrow> True | c # _ \<Rightarrow> c \<notin> set '';''" by (rule follow_not [OF c(3)]) auto
  then have "peek b k' '';'' = (False, skip_ws b k')" using t(4) by (intro peek_rest_out) simp
  then show ?thesis using t by (simp add: reads_def)
qed

lemma parsepipe_show:
  assumes exec: "\<And>d s. writable d \<Longrightarrow> rest b i = skip (show_at d 0 @ s) \<Longrightarrow> follow ''|)&;'' s \<Longrightarrow> reads b d s (parseexec n b i)"
    and pipe: "\<And>d j s. writable d \<Longrightarrow> rest b j = skip (show_at d 1 @ s) \<Longrightarrow> follow '')&;'' s \<Longrightarrow> length (rest b j) < length (rest b i) \<Longrightarrow>
      reads b d s (parsepipe n b j)"
    and c: "writable c" "rest b i = skip (show_at c 1 @ s)" "follow '')&;'' s"
  shows "reads b c s (parsepipe (Suc n) b i)"
proof (cases "\<exists>l r. c = PipeC l r")
  case True
  then obtain l r where lr: "c = PipeC l r" by blast
  define u where "u = '' |'' @ show_at r 1 @ s"
  have ri: "rest b i = skip (show_at l 0 @ u)" using c(2) by (simp add: lr paren_def u_def)
  have "follow ''|)&;'' u" by (simp add: u_def)
  then have "reads b l u (parseexec n b i)" using exec [OF _ ri] c(1) lr by simp
  then obtain t k where t: "parseexec n b i = Ok (t, k)" "denotes b l t" "rest b k = skip u" by (rule readsE)
  have k: "rest b k = CHR ''|'' # show_at r 1 @ s" using t(3) by (simp add: u_def)
  have pk: "peek b k ''|'' = (True, skip_ws b k)" by (rule peek_yes [OF k]) (simp_all add: NUL_def)
  define j where "j = skip_token b (skip_ws b k)"
  have j: "rest b j = skip (show_at r 1 @ s)" using skip_token_symbol [of b "skip_ws b k"] k by (simp add: j_def)
  have "length (rest b k) \<le> length (rest b i)" using length_skip_append [of u "show_at l 0"] t(3) ri by simp
  then have "length (rest b j) < length (rest b i)" using skip_token_length [OF pk] by (simp add: j_def)
  then have "reads b r s (parsepipe n b j)" using pipe [OF _ j c(3)] c(1) lr by simp
  then obtain t2 k2 where "parsepipe n b j = Ok (t2, k2)" "denotes b r t2" "rest b k2 = skip s" by (rule readsE)
  then show ?thesis using t pk lr by (simp add: reads_def j_def)
next
  case False
  then have "show_at c 1 = show_at c 0" by (cases c) (simp_all add: paren_def)
  then have ri: "rest b i = skip (show_at c 0 @ s)" using c(2) by simp
  have "follow ''|)&;'' s" by (rule follow_mono [OF c(3)]) auto
  then have "reads b c s (parseexec n b i)" using exec [OF c(1) ri] by simp
  then obtain t k where t: "parseexec n b i = Ok (t, k)" "denotes b c t" "rest b k = skip s" by (rule readsE)
  have "case skip s of [] \<Rightarrow> True | c # _ \<Rightarrow> c \<notin> set ''|''" by (rule follow_not [OF c(3)]) auto
  then have "peek b k ''|'' = (False, skip_ws b k)" using t(3) by (intro peek_rest_out) simp
  then show ?thesis using t by (simp add: reads_def)
qed

lemma parseblock_show:
  assumes line: "\<And>d j s. writable d \<Longrightarrow> rest b j = skip (show_at d 3 @ s) \<Longrightarrow> follow '')'' s \<Longrightarrow> length (rest b j) < length (rest b i) \<Longrightarrow>
      reads b d s (parseline n b j)"
    and c: "writable c" "\<forall>r \<in> set rs. good_redir r" "rest b i = CHR ''('' # show_at c 3 @ '' )'' @ show_redirs rs @ s"
      "follow ''|)&;'' s"
  shows "reads b (wrap rs c) s (parseblock (Suc n) b i)"
proof -
  have pk: "peek b i ''('' = (True, skip_ws b i)" by (rule peek_yes [OF c(3)]) (simp_all add: NUL_def)
  define u where "u = '' )'' @ show_redirs rs @ s"
  define j where "j = skip_token b (skip_ws b i)"
  have j: "rest b j = skip (show_at c 3 @ u)" using skip_token_symbol [of b "skip_ws b i"] c(3) by (simp add: j_def u_def)
  have "follow '')'' u" by (simp add: u_def)
  then have "reads b c u (parseline n b j)" using line [OF c(1) j] skip_token_length [OF pk] by (simp add: j_def)
  then obtain t k where t: "parseline n b j = Ok (t, k)" "denotes b c t" "rest b k = skip u" by (rule readsE)
  have k: "rest b k = CHR '')'' # show_redirs rs @ s" using t(3) by (simp add: u_def)
  have pk2: "peek b k '')'' = (True, skip_ws b k)" by (rule peek_yes [OF k]) (simp_all add: NUL_def)
  define l where "l = skip_token b (skip_ws b k)"
  have l: "rest b l = skip (show_redirs rs @ s)" using skip_token_symbol [of b "skip_ws b k"] k by (simp add: l_def)
  have "case skip s of [] \<Rightarrow> True | c # _ \<Rightarrow> c \<notin> set ''<>''" by (rule follow_not [OF c(4)]) auto
  then obtain t' k' where "parseredirs b l t = Ok (t', k')" "denotes b (wrap rs c) t'" "rest b k' = skip s"
    using parseredirs_show [OF c(2) l _ _ t(2)] c(4) by (auto simp: follow_def)
  then show ?thesis using pk t(1) pk2 by (simp add: reads_def j_def l_def)
qed


lemma parser_reads:
  "(\<forall>c i s. writable c \<longrightarrow> rest b i = skip (show_at c 3 @ s) \<longrightarrow> follow '')'' s \<longrightarrow> 4 * length (rest b i) + 4 \<le> n \<longrightarrow>
      reads b c s (parseline n b i)) \<and>
   (\<forall>c i s. writable c \<longrightarrow> rest b i = skip (show_at c 1 @ s) \<longrightarrow> follow '')&;'' s \<longrightarrow> 4 * length (rest b i) + 3 \<le> n \<longrightarrow>
      reads b c s (parsepipe n b i)) \<and>
   (\<forall>c i s. writable c \<longrightarrow> rest b i = skip (show_at c 0 @ s) \<longrightarrow> follow ''|)&;'' s \<longrightarrow> 4 * length (rest b i) + 2 \<le> n \<longrightarrow>
      reads b c s (parseexec n b i)) \<and>
   (\<forall>c i s rs. writable c \<longrightarrow> (\<forall>r \<in> set rs. good_redir r) \<longrightarrow> rest b i = CHR ''('' # show_at c 3 @ '' )'' @ show_redirs rs @ s \<longrightarrow>
      follow ''|)&;'' s \<longrightarrow> 4 * length (rest b i) + 1 \<le> n \<longrightarrow> reads b (wrap rs c) s (parseblock n b i))"
proof (induction n)
  case 0
  show ?case by simp
next
  case (Suc n)
  have line: "reads b c s (parseline n b i)"
    if "writable c" "rest b i = skip (show_at c 3 @ s)" "follow '')'' s" "4 * length (rest b i) + 4 \<le> n" for c i s
    using Suc.IH that by blast
  have pipe: "reads b c s (parsepipe n b i)"
    if "writable c" "rest b i = skip (show_at c 1 @ s)" "follow '')&;'' s" "4 * length (rest b i) + 3 \<le> n" for c i s
    using Suc.IH that by blast
  have exec: "reads b c s (parseexec n b i)"
    if "writable c" "rest b i = skip (show_at c 0 @ s)" "follow ''|)&;'' s" "4 * length (rest b i) + 2 \<le> n" for c i s
    using Suc.IH that by blast
  have block: "reads b (wrap rs c) s (parseblock n b i)"
    if "writable c" "\<forall>r \<in> set rs. good_redir r" "rest b i = CHR ''('' # show_at c 3 @ '' )'' @ show_redirs rs @ s" "follow ''|)&;'' s"
      "4 * length (rest b i) + 1 \<le> n" for c i s rs
    using Suc.IH that by blast
  show ?case
  proof (intro conjI allI impI)
    fix c i s
    assume c: "writable c" "rest b i = skip (show_at c 3 @ s)" "follow '')'' s" "4 * length (rest b i) + 4 \<le> Suc n"
    show "reads b c s (parseline (Suc n) b i)"
      by (rule parseline_show [OF _ _ c(1,2,3)]) (use c(4) in \<open>auto intro: pipe line\<close>)
  next
    fix c i s
    assume c: "writable c" "rest b i = skip (show_at c 1 @ s)" "follow '')&;'' s" "4 * length (rest b i) + 3 \<le> Suc n"
    show "reads b c s (parsepipe (Suc n) b i)"
      by (rule parsepipe_show [OF _ _ c(1,2,3)]) (use c(4) in \<open>auto intro: exec pipe\<close>)
  next
    fix c i s
    assume c: "writable c" "rest b i = skip (show_at c 0 @ s)" "follow ''|)&;'' s" "4 * length (rest b i) + 2 \<le> Suc n"
    obtain rs d where d: "c = wrap rs d" "\<not> is_redir d" "writable d" "\<forall>r \<in> set rs. good_redir r"
      "show_at c 0 = show_at d 0 @ show_redirs rs" using unwrap [OF c(1)] by blast
    show "reads b c s (parseexec (Suc n) b i)"
    proof (cases "is_exec d")
      case True
      then obtain ws where ws: "d = Exec ws" by (auto simp: is_exec_def)
      show ?thesis using parse_exec_show [of ws rs b i s n] d c(2,3) ws by (simp add: reads_def)
    next
      case False
      then have "show_at d 0 = '' ('' @ show_at d 3 @ '' )''"
        using d(2) by (cases d) (simp_all add: is_exec_def is_redir_def paren_def)
      then have ri: "rest b i = CHR ''('' # show_at d 3 @ '' )'' @ show_redirs rs @ s" using c(2) d(5) by simp
      have "peek b i ''('' = (True, skip_ws b i)" by (rule peek_yes [OF ri]) (simp_all add: NUL_def)
      moreover have "reads b (wrap rs d) s (parseblock n b (skip_ws b i))"
        using block [OF d(3,4) _ c(3), of "skip_ws b i"] ri c(4) by simp
      ultimately show ?thesis using d(1) by simp
    qed
  next
    fix c i s rs
    assume c: "writable c" "\<forall>r \<in> set rs. good_redir r" "rest b i = CHR ''('' # show_at c 3 @ '' )'' @ show_redirs rs @ s"
      "follow ''|)&;'' s" "4 * length (rest b i) + 1 \<le> Suc n"
    show "reads b (wrap rs c) s (parseblock (Suc n) b i)"
      by (rule parseblock_show [OF _ c(1,2,3,4)]) (use c(5) in \<open>auto intro: line\<close>)
  qed
qed

section \<open>Offsets stay in the line\<close>

lemma skip_ws_bound: "i \<le> length b \<Longrightarrow> skip_ws b i \<le> length b"
  using length_takeWhile_le [of blank "drop i b"] by (simp add: skip_ws_def)

lemma token_at_bound: "q \<le> length b \<Longrightarrow> token_at b q = (tok, eq) \<Longrightarrow> eq \<le> length b"
  using length_takeWhile_le [of word_char "drop q b"]
  by (auto simp: token_at_def Let_def char_at_def NUL_def split: if_splits)

lemma gettoken_bound: "i \<le> length b \<Longrightarrow> gettoken b i = (tok, q, eq, k) \<Longrightarrow> k \<le> length b"
  by (auto simp: gettoken_def Let_def intro!: skip_ws_bound elim: token_at_bound [rotated] split: prod.splits)

lemma peek_bound: "i \<le> length b \<Longrightarrow> peek b i toks = (r, j) \<Longrightarrow> j \<le> length b"
  by (auto simp: peek_def Let_def skip_ws_bound)

lemma skip_token_bound: "i \<le> length b \<Longrightarrow> skip_token b i \<le> length b"
  by (auto simp: skip_token_def intro: gettoken_bound split: prod.splits)

lemma parseredirs_bound: "i \<le> length b \<Longrightarrow> parseredirs b i c = Ok (d, k) \<Longrightarrow> k \<le> length b"
proof (induction b i c rule: parseredirs.induct)
  case (1 b i c)
  show ?case using 1(1) [OF _ _ _ _ _ _ _ _ _ gettoken_bound [OF gettoken_bound [OF peek_bound [OF 1(2)]]]] 1(2,3)
    by (subst (asm) (2) parseredirs.simps) (auto split: if_splits prod.splits intro: peek_bound)
qed


lemma parse_args_bound: "i \<le> length b \<Longrightarrow> parse_args b i argc c = Ok (d, k) \<Longrightarrow> k \<le> length b"
proof (induction b i argc c rule: parse_args.induct)
  case (1 b i argc c)
  obtain stop j where p: "peek b i ''|)&;'' = (stop, j)" by (cases "peek b i ''|)&;''")
  obtain tok q eq l where g: "gettoken b j = (tok, q, eq, l)" by (metis prod_cases4)
  have j: "j \<le> length b" by (rule peek_bound [OF 1(2) p])
  have l: "l \<le> length b" by (rule gettoken_bound [OF j g])
  show ?case
  proof (cases "\<not> stop \<and> tok = CHR ''a'' \<and> \<not> MAXARGS \<le> argc + 1")
    case True
    then have "parse_args b i argc c = rbind (parseredirs b l (add_arg c (q, eq))) (\<lambda>(c, l). parse_args b l (argc + 1) c)"
      by (subst parse_args.simps) (simp add: p g NUL_def)
    with 1(3) have "rbind (parseredirs b l (add_arg c (q, eq))) (\<lambda>(c, l). parse_args b l (argc + 1) c) = Ok (d, k)" by simp
    then obtain e m where e: "parseredirs b l (add_arg c (q, eq)) = Ok (e, m)" "parse_args b m (argc + 1) e = Ok (d, k)"
      by (auto simp: rbind_eq_Ok)
    show ?thesis
      by (rule 1(1) [OF p [symmetric] _ g [symmetric] refl refl _ _ _ _ refl parseredirs_bound [OF l e(1)] e(2)])
        (use True e(1) in \<open>simp_all add: NUL_def\<close>)
  next
    case False
    then show ?thesis using 1(3) p g j l by (subst (asm) parse_args.simps) (auto split: if_splits)
  qed
qed

lemma parse_backs_bound: "i \<le> length b \<Longrightarrow> parse_backs b i c = (d, k) \<Longrightarrow> k \<le> length b"
proof (induction b i c rule: parse_backs.induct)
  case (1 b i c)
  show ?case using 1(1) [OF _ _ _ _ _ gettoken_bound [OF peek_bound [OF 1(2)]]] 1(2,3)
    by (subst (asm) (2) parse_backs.simps) (auto split: if_splits prod.splits intro: peek_bound)
qed

lemma parser_bound:
  "i \<le> length b \<Longrightarrow> parseline n b i = Ok (c, k) \<Longrightarrow> k \<le> length b"
  "i \<le> length b \<Longrightarrow> parsepipe n b i = Ok (c, k) \<Longrightarrow> k \<le> length b"
  "i \<le> length b \<Longrightarrow> parseexec n b i = Ok (c, k) \<Longrightarrow> k \<le> length b"
  "i \<le> length b \<Longrightarrow> parseblock n b i = Ok (c, k) \<Longrightarrow> k \<le> length b"
proof (induction n arbitrary: i c k)
  case 0
  {
    case 1
    then show ?case by simp
  next
    case 2
    then show ?case by simp
  next
    case 3
    then show ?case by simp
  next
    case 4
    then show ?case by simp
  }
next
  case (Suc n)
  {
    case 1
    obtain d l where d: "parsepipe n b i = Ok (d, l)" using 1(2) by (auto simp: rbind_eq_Ok)
    obtain f m where f: "parse_backs b l d = (f, m)" by (cases "parse_backs b l d")
    obtain more j where p: "peek b m '';'' = (more, j)" by (cases "peek b m '';''")
    have j: "j \<le> length b" by (rule peek_bound [OF parse_backs_bound [OF Suc.IH(2) [OF 1(1) d] f] p])
    show ?case
    proof (cases more)
      case True
      then obtain r where "parseline n b (skip_token b j) = Ok (r, k)" using 1(2) d f p by (auto simp: rbind_eq_Ok)
      then show ?thesis by (rule Suc.IH(1) [OF skip_token_bound [OF j]])
    qed (use 1(2) d f p j in simp)
  next
    case 2
    obtain d l where d: "parseexec n b i = Ok (d, l)" using 2(2) by (auto simp: rbind_eq_Ok)
    obtain more j where p: "peek b l ''|'' = (more, j)" by (cases "peek b l ''|''")
    have j: "j \<le> length b" by (rule peek_bound [OF Suc.IH(3) [OF 2(1) d] p])
    show ?case
    proof (cases more)
      case True
      then obtain r where "parsepipe n b (skip_token b j) = Ok (r, k)" using 2(2) d p by (auto simp: rbind_eq_Ok)
      then show ?thesis by (rule Suc.IH(2) [OF skip_token_bound [OF j]])
    qed (use 2(2) d p j in simp)
  next
    case 3
    obtain bl j where p: "peek b i ''('' = (bl, j)" by (cases "peek b i ''(''")
    have j: "j \<le> length b" by (rule peek_bound [OF 3(1) p])
    show ?case
    proof (cases bl)
      case True
      then show ?thesis using Suc.IH(4) [OF j, of c k] 3(2) p by simp
    next
      case False
      then obtain d l where d: "parseredirs b j (Exec []) = Ok (d, l)" "parse_args b l 0 d = Ok (c, k)"
        using 3(2) p by (auto simp: rbind_eq_Ok)
      show ?thesis by (rule parse_args_bound [OF parseredirs_bound [OF j d(1)] d(2)])
    qed
  next
    case 4
    obtain bl j where p: "peek b i ''('' = (bl, j)" by (cases "peek b i ''(''")
    have j: "skip_token b j \<le> length b" by (rule skip_token_bound [OF peek_bound [OF 4(1) p]])
    obtain d l where d: "parseline n b (skip_token b j) = Ok (d, l)" using 4(2) p by (auto simp: rbind_eq_Ok split: if_splits)
    obtain closed m where q: "peek b l '')'' = (closed, m)" by (cases "peek b l '')''")
    have m: "skip_token b m \<le> length b" by (rule skip_token_bound [OF peek_bound [OF Suc.IH(1) [OF j d] q]])
    have "parseredirs b (skip_token b m) d = Ok (c, k)" using 4(2) p d q by (auto split: if_splits)
    then show ?case by (rule parseredirs_bound [OF m])
  }
qed

section \<open>The words in the line\<close>

definition cstring :: "string \<Rightarrow> nat \<Rightarrow> string" where
  "cstring b q = takeWhile (\<lambda>c. c \<noteq> NUL) (drop q b)"

lemma length_put_nuls [simp]: "length (fold put_nul ws b) = length b"
  by (induction ws arbitrary: b) (simp_all add: put_nul_def)

lemma length_nulterminate [simp]: "length (nulterminate t b) = length b"
  by (induction t arbitrary: b) (simp_all add: put_nul_def)

lemma put_nuls_nth: "x < length b \<Longrightarrow> fold put_nul ws b ! x = (if x \<in> snd ` set ws then NUL else b ! x)"
  by (induction ws arbitrary: b) (auto simp: put_nul_def nth_list_update)

lemma nulterminate_nth: "x < length b \<Longrightarrow> nulterminate t b ! x = (if x \<in> snd ` set_cmd t then NUL else b ! x)"
  proof (induction t arbitrary: b)
  case (Redir c f m fd)
  then show ?case by (cases "x = snd f") (simp_all add: put_nul_def)
qed (simp_all add: put_nuls_nth image_Un)

lemma cstring_word:
  assumes t: "\<forall>s \<in> set_cmd t. is_word b s" and s: "s \<in> set_cmd t" and w: "word_at b w s"
  shows "cstring (nulterminate t b) (fst s) = w"
proof -
  define n where "n = snd s - fst s"
  have isw: "is_word b s" using t s by blast
  have le: "fst s + n \<le> length b" "snd s = fst s + n" using isw by (auto simp: is_word_def n_def)
  have weq: "w = take n (drop (fst s) b)" using w by (simp only: word_at_def n_def)
  have lw: "length w = n" using weq le(1) by simp
  have wn: "\<And>x. x < n \<Longrightarrow> w ! x = b ! (fst s + x)" using weq le(1) by simp
  let ?d = "drop (fst s) (nulterminate t b)"
  have tw: "take n ?d = w"
  proof (rule nth_equalityI)
    fix x
    assume "x < length (take n ?d)"
    then have x: "x < n" by simp
    have "fst s + x \<noteq> snd r" if "r \<in> set_cmd t" for r
    proof
      assume e: "fst s + x = snd r"
      have "word_char (b ! (fst s + x))" using isw x le(2) by (simp add: is_word_def)
      moreover have "\<not> word_char (b ! snd r)" using t that e x le(1) by (auto simp: is_word_def)
      ultimately show False using e by simp
    qed
    then show "take n ?d ! x = w ! x" using x le wn by (auto simp: nulterminate_nth)
  qed (use lw le in simp)
  have nn: "\<forall>c \<in> set w. c \<noteq> NUL"
  proof
    fix c
    assume "c \<in> set w"
    then obtain x where "x < n" "c = b ! (fst s + x)" using lw wn by (auto simp: in_set_conv_nth)
    then show "c \<noteq> NUL" using isw le(2) by (auto simp: is_word_def)
  qed
  have e: "drop n ?d = [] \<or> hd (drop n ?d) = NUL"
  proof (cases "snd s < length b")
    case True
    then have "nulterminate t b ! snd s = NUL" using s by (simp add: nulterminate_nth)
    then show ?thesis using True le(2) by (simp add: hd_drop_conv_nth add.commute)
  qed (use le in simp)
  have "?d = w @ drop n ?d" using append_take_drop_id [of n ?d] tw by simp
  moreover have "takeWhile (\<lambda>c. c \<noteq> NUL) (w @ drop n ?d) = w"
    using e nn by (cases "drop n ?d") (simp_all only: takeWhile_append2 takeWhile.simps append_Nil2 list.sel(1) takeWhile_eq_all_conv, simp_all)
  ultimately show ?thesis unfolding cstring_def by argo
qed

lemma rel_cmd_words: "rel_cmd R c t \<Longrightarrow> s \<in> set_cmd t \<Longrightarrow> \<exists>w. R w s"
  by (induction rule: cmd.rel_induct) (auto simp: list_all2_conv_all_nth in_set_conv_nth)

lemma parseline_shown:
  assumes "writable c" and "\<forall>x \<in> set w. blank x"
  shows "\<exists>t k. parseline (4 * length (show_at c 3 @ w) + 4) (show_at c 3 @ w) 0 = Ok (t, k) \<and>
    denotes (show_at c 3 @ w) c t \<and> rest (show_at c 3 @ w) k = []"
proof -
  define b where "b = show_at c 3 @ w"
  have w: "skip w = []" using assms(2) by (simp add: dropWhile_eq_Nil_conv)
  have "sep w" using assms(2) by (cases w) (auto simp: sep_def word_char_def)
  then have f: "follow '')'' w" using w by (simp add: follow_def)
  have r: "rest b 0 = skip (show_at c 3 @ w)" by (simp add: rest_skip b_def)
  have "4 * length (rest b 0) + 4 \<le> 4 * length b + 4" by (simp add: length_rest)
  then have "reads b c w (parseline (4 * length b + 4) b 0)" using parser_reads [of b] assms(1) r f by blast
  then show ?thesis using w unfolding b_def by (auto elim: readsE)
qed

lemma parsecmd_denotes:
  assumes t: "parseline (4 * length b + 4) b 0 = Ok (t, k)" "denotes b c t" "rest b k = []"
  shows "\<exists>t b'. parsecmd b = Ok (t, b') \<and> map_cmd (\<lambda>s. cstring b' (fst s)) t = c"
proof -
  have "k \<le> length b" by (rule parser_bound(1) [OF _ t(1)]) simp
  then have "skip_ws b k = length b" using t(3) skip_ws_bound [of k b] by (simp add: rest_def)
  then have p: "parsecmd b = Ok (t, nulterminate t b)" using t(1) by (simp add: parsecmd_def peek_def Let_def)
  have words: "\<forall>s \<in> set_cmd t. is_word b s" using rel_cmd_words [OF t(2)] by (auto simp: word_at_def)
  have "rel_cmd (\<lambda>w s. w = cstring (nulterminate t b) (fst s)) c t"
    using t(2) by (rule cmd.rel_mono_strong) (use cstring_word [OF words] in auto)
  then have "rel_cmd (=) c (map_cmd (\<lambda>s. cstring (nulterminate t b) (fst s)) t)" by (simp add: cmd.rel_map)
  then show ?thesis using p by (auto simp: cmd.rel_eq)
qed

text \<open>
  C17: the parser is the inverse of the printer: of every command of at most nine words, however deep, printed with the blanks
  and parentheses that the grammar needs, it makes the same tree, whose words are the C strings that \<open>nulterminate\<close> cuts
  out of the line.
\<close>
theorem parsecmd_reads_back:
  assumes "writable c" and "\<forall>x \<in> set w. blank x"
  shows "\<exists>t b'. parsecmd (show_at c 3 @ w) = Ok (t, b') \<and> map_cmd (\<lambda>s. cstring b' (fst s)) t = c"
  using parseline_shown [OF assms] parsecmd_denotes by blast

end
