(* ===== verification/XvShLex.thy ===== *)
theory XvShLex
  imports XvShRound
begin

text \<open>
  xv6, \<open>sh.c\<close>: the blanks between the tokens of a line do not matter. The line is cut into its tokens; the parser does the same
  with two lines of the same tokens, whose words are the same. So every line with the tokens of a command is read as that command.
\<close>

section \<open>The tokens of a line\<close>

datatype token = Word string | Sym char

function tokens_of :: "string \<Rightarrow> token list" where
  "tokens_of s =
     (case skip s of [] \<Rightarrow> []
      | c # cs \<Rightarrow>
          if c = CHR ''>'' \<and> take 1 cs = ''>'' then Sym (CHR ''+'') # tokens_of (tl cs)
          else if c \<in> set symbols then Sym c # tokens_of cs
          else Word (takeWhile word_char (c # cs)) # tokens_of (dropWhile word_char (c # cs)))"
  by pat_completeness auto
termination
proof (relation "measure length", simp)
  fix s :: string and c cs
  assume s: "skip s = c # cs"
  have l: "length (c # cs) \<le> length s" using length_dropWhile_le [of blank s] s by simp
  then show "(tl cs, s) \<in> measure length" "(cs, s) \<in> measure length" by simp_all
  assume "c \<notin> set symbols"
  moreover have "c \<notin> set whitespace" using hd_dropWhile [of blank s] s by simp
  ultimately have "word_char c" by (simp add: word_char_def)
  then have "dropWhile word_char (c # cs) = dropWhile word_char cs" by simp
  then show "(dropWhile word_char (c # cs), s) \<in> measure length"
    using l length_dropWhile_le [of word_char cs] by simp
qed

declare tokens_of.simps [simp del]

lemma tokens_of_skip [simp]: "tokens_of (skip s) = tokens_of s"
  by (subst (1 2) tokens_of.simps) simp

definition toks :: "string \<Rightarrow> nat \<Rightarrow> token list" where
  "toks b i = tokens_of (drop i b)"

lemma toks_rest: "toks b i = tokens_of (rest b i)"
  by (simp add: toks_def rest_skip)

lemma toks_skip_ws [simp]: "toks b (skip_ws b i) = toks b i"
  by (simp add: toks_rest)

lemma tokens_of_rest: "tokens_of (rest b i) =
   (case rest b i of [] \<Rightarrow> []
      | c # cs \<Rightarrow>
          if c = CHR ''>'' \<and> take 1 cs = ''>'' then Sym (CHR ''+'') # tokens_of (tl cs)
          else if c \<in> set symbols then Sym c # tokens_of cs
          else Word (takeWhile word_char (c # cs)) # tokens_of (dropWhile word_char (c # cs)))"
  by (subst tokens_of.simps) simp

lemma symbols_split: "c \<in> set symbols \<longleftrightarrow> c \<in> set ''|();&<'' \<or> c = CHR ''>''"
  by (auto simp: symbols_def)

text \<open>What \<open>gettoken\<close> and \<open>peek\<close> do is the first token.\<close>

lemma rest_nonblank: "rest b i = c # cs \<Longrightarrow> c \<notin> set whitespace"
  using hd_dropWhile [of blank "drop i b"] by (simp add: rest_skip)

lemma in_rest: "c \<in> set (rest b i) \<Longrightarrow> c \<in> set b"
  by (auto simp: rest_def dest: in_set_dropD)

lemma gettoken_lex:
  assumes nul: "NUL \<notin> set b" and g: "gettoken b i = (tok, q, eq, k)"
  shows "case toks b i of [] \<Rightarrow> tok = NUL \<and> toks b k = [] | Sym c # ts \<Rightarrow> tok = c \<and> toks b k = ts
    | Word w # ts \<Rightarrow> tok = CHR ''a'' \<and> word_at b w (q, eq) \<and> toks b k = ts"
proof (cases "rest b i")
  case Nil
  then have "token_at b (skip_ws b i) = (NUL, skip_ws b i)" by (simp add: token_at_def char_at_rest)
  then have "tok = NUL" "toks b k = toks b i" using g by (auto simp: gettoken_def Let_def)
  moreover have "toks b i = []" using Nil by (simp add: toks_rest tokens_of.simps [of "[]"])
  ultimately show ?thesis by simp
next
  case (Cons c cs)
  note d = rest_drop [OF Cons]
  have cn: "c \<noteq> NUL" using nul in_rest [of c b i] Cons by auto
  have nx: "char_at b (Suc (skip_ws b i)) = (case cs of [] \<Rightarrow> NUL | x # _ \<Rightarrow> x)" using d by (simp add: char_at_drop)
  have gt: "(case token_at b (skip_ws b i) of (tok, eq) \<Rightarrow> (tok, skip_ws b i, eq, skip_ws b eq)) = (tok, q, eq, k)"
    using g by (simp add: gettoken_def Let_def)
  have ch: "char_at b (skip_ws b i) = c" by (simp add: char_at_rest Cons)
  consider "c = CHR ''>'' \<and> take 1 cs = ''>''" | "\<not> (c = CHR ''>'' \<and> take 1 cs = ''>'')" "c \<in> set symbols" | "c \<notin> set symbols" by blast
  then show ?thesis
  proof cases
    case 1
    then obtain u where u: "cs = CHR ''>'' # u" by (cases cs) auto
    have "drop (Suc (Suc (skip_ws b i))) b = u" using d u drop_drop [of 1 "Suc (skip_ws b i)" b] by simp
    then have "toks b (Suc (Suc (skip_ws b i))) = tokens_of u" by (simp add: toks_def)
    moreover have "toks b i = Sym (CHR ''+'') # tokens_of u" unfolding toks_rest tokens_of_rest using 1 u Cons by simp
    ultimately show ?thesis using 1 gt ch nx u by (auto simp: token_at_def NUL_def)
  next
    case 2
    have t: "toks b i = Sym c # tokens_of cs" unfolding toks_rest tokens_of_rest using 2 Cons by auto
    have "toks b (Suc (skip_ws b i)) = tokens_of cs" using d by (simp add: toks_def)
    moreover have "token_at b (skip_ws b i) = (c, Suc (skip_ws b i))"
      using 2 ch nx cn by (auto simp: token_at_def symbols_split Let_def NUL_def split: list.splits)
    ultimately show ?thesis using gt by (auto simp: t)
  next
    case 3
    let ?w = "takeWhile word_char (c # cs)" and ?u = "dropWhile word_char (c # cs)"
    have wc: "word_char c" using 3 rest_nonblank [OF Cons] by (simp add: word_char_def)
    have t: "toks b i = Word ?w # tokens_of ?u" unfolding toks_rest tokens_of_rest using 3 Cons by (auto simp: symbols_def)
    have r: "rest b i = ?w @ ?u" using Cons by simp
    have "NUL \<notin> set ?w" using nul in_rest [of NUL b i] Cons by (metis set_takeWhileD)
    then have "good_word ?w" using wc by (auto simp: good_word_def dest: set_takeWhileD)
    moreover have "sep ?u" using hd_dropWhile [of word_char "c # cs"] by (auto simp: sep_def)
    ultimately obtain q' eq' k' where z: "gettoken b i = (CHR ''a'', q', eq', k')" "word_at b ?w (q', eq')" "rest b k' = skip ?u"
      using gettoken_word [OF r] by blast
    then have "toks b k' = tokens_of ?u" unfolding toks_rest by (metis tokens_of_skip)
    then show ?thesis using g z(1,2) by (simp add: t del: takeWhile.simps dropWhile.simps)
  qed
qed

definition starts :: "string \<Rightarrow> token list \<Rightarrow> bool" where
  "starts cs ts \<longleftrightarrow> (case ts of Sym c # _ \<Rightarrow> (if c = CHR ''+'' then CHR ''>'' else c) \<in> set cs | _ \<Rightarrow> False)"

lemma peek_lex:
  assumes nul: "NUL \<notin> set b" and cs: "set cs \<subseteq> set symbols" and p: "peek b i cs = (r, j)"
  shows "r = starts cs (toks b i) \<and> toks b j = toks b i"
proof -
  have "r = (\<exists>c s. rest b i = c # s \<and> c \<noteq> NUL \<and> c \<in> set cs)" "j = skip_ws b i" using p by (simp_all add: peek_rest)
  moreover have "(\<exists>c s. rest b i = c # s \<and> c \<noteq> NUL \<and> c \<in> set cs) = starts cs (tokens_of (rest b i))"
  proof (cases "rest b i")
    case Nil
    then show ?thesis by (simp add: starts_def tokens_of.simps [of "[]"])
  next
    case (Cons c s)
    have "c \<noteq> NUL" using nul in_rest [of c b i] Cons by auto
    moreover have "CHR ''+'' \<notin> set symbols" by (simp add: symbols_def)
    ultimately show ?thesis unfolding starts_def tokens_of_rest using Cons cs by auto
  qed
  ultimately show ?thesis by (simp add: toks_rest)
qed

section \<open>Two lines of the same tokens\<close>

text \<open>The trees of two lines have the same words; the results of the parser on them, where the first does not run out of fuel.\<close>

definition same_word :: "string \<Rightarrow> string \<Rightarrow> span \<Rightarrow> span \<Rightarrow> bool" where
  "same_word b b' x y \<longleftrightarrow> (\<exists>w. word_at b w x \<and> word_at b' w y)"

abbreviation same_tree :: "string \<Rightarrow> string \<Rightarrow> span cmd \<Rightarrow> span cmd \<Rightarrow> bool" where
  "same_tree b b' \<equiv> rel_cmd (same_word b b')"

definition same_res :: "string \<Rightarrow> string \<Rightarrow> (span cmd \<times> nat) res \<Rightarrow> (span cmd \<times> nat) res \<Rightarrow> bool" where
  "same_res b b' r r' \<longleftrightarrow>
     (case r of Hang \<Rightarrow> True | Undef \<Rightarrow> r' = Undef | Panic m \<Rightarrow> r' = Panic m
      | Ok (t, k) \<Rightarrow> (\<exists>t' k'. r' = Ok (t', k') \<and> same_tree b b' t t' \<and> toks b k = toks b' k'))"

lemma same_res_Ok [simp]: "same_res b b' (Ok (t, k)) (Ok (t', k')) \<longleftrightarrow> same_tree b b' t t' \<and> toks b k = toks b' k'"
  by (simp add: same_res_def)

lemma same_res_Panic [simp]: "same_res b b' (Panic m) (Panic m)"
  by (simp add: same_res_def)

lemma same_res_bind:
  assumes "same_res b b' r r'"
    and "\<And>t k t' k'. same_tree b b' t t' \<Longrightarrow> toks b k = toks b' k' \<Longrightarrow> same_res b b' (f (t, k)) (f' (t', k'))"
  shows "same_res b b' (rbind r f) (rbind r' f')"
proof (cases r)
  case (Ok x)
  then obtain t k where x: "r = Ok (t, k)" by (cases x) auto
  with assms(1) obtain t' k' where "r' = Ok (t', k')" "same_tree b b' t t'" "toks b k = toks b' k'" by (auto simp: same_res_def)
  then show ?thesis using x assms(2) by simp
qed (use assms(1) in \<open>auto simp: same_res_def\<close>)

text \<open>The next token of both lines.\<close>

definition same_token :: "string \<Rightarrow> string \<Rightarrow> char \<times> nat \<times> nat \<times> nat \<Rightarrow> char \<times> nat \<times> nat \<times> nat \<Rightarrow> bool" where
  "same_token b b' g g' \<longleftrightarrow> fst g = fst g' \<and> toks b (snd (snd (snd g))) = toks b' (snd (snd (snd g'))) \<and>
     (fst g = CHR ''a'' \<longrightarrow> same_word b b' (fst (snd g), fst (snd (snd g))) (fst (snd g'), fst (snd (snd g'))))"

lemma Sym_not_a: "Sym (CHR ''a'') \<notin> set (tokens_of s)"
proof (induction s rule: tokens_of.induct)
  case (1 s)
  show ?case
  proof (cases "skip s")
    case Nil
    then show ?thesis by (subst tokens_of.simps) simp
  next
    case (Cons c cs)
    note i = 1 [OF Cons]
    have "CHR ''a'' \<notin> set symbols" by (simp add: symbols_def)
    then show ?thesis unfolding tokens_of.simps [of s] Cons using i by auto
  qed
qed

lemma same_tokenI:
  assumes "NUL \<notin> set b" "NUL \<notin> set b'" and t: "toks b i = toks b' i'"
  shows "same_token b b' (gettoken b i) (gettoken b' i')"
proof -
  obtain tok q eq k tok' q' eq' k' where g: "gettoken b i = (tok, q, eq, k)" "gettoken b' i' = (tok', q', eq', k')"
    by (metis prod_cases4)
  note l = gettoken_lex [OF assms(1) g(1)] gettoken_lex [OF assms(2) g(2)]
  show ?thesis
  proof (cases "toks b i")
    case Nil
    then show ?thesis using l t by (simp add: same_token_def g NUL_def)
  next
    case (Cons x ts)
    then have "toks b' i' = x # ts" using t by simp
    note z = l(1) [unfolded Cons] l(2) [unfolded this]
    have "Sym (CHR ''a'') \<notin> set (x # ts)" using Sym_not_a [of "drop i b"] Cons by (simp add: toks_def)
    then show ?thesis using z by (cases x) (auto simp: same_token_def g same_word_def)
  qed
qed

lemma same_peek:
  assumes "NUL \<notin> set b" "NUL \<notin> set b'" and t: "toks b i = toks b' i'" and cs: "set cs \<subseteq> set symbols"
    and p: "peek b i cs = (r, j)" and p': "peek b' i' cs = (r', j')"
  shows "r = r'" and "toks b j = toks b' j'"
  using peek_lex [OF assms(1) cs p] peek_lex [OF assms(2) cs p'] t by simp_all

section \<open>The parser on two lines\<close>

text \<open>What a loop does with a tree and an offset, on two lines of the same tokens.\<close>

lemma same_redir: "same_tree b b' c c' \<Longrightarrow> same_word b b' x x' \<Longrightarrow> same_tree b b' (redir_of tok c x) (redir_of tok c' x')"
  by (simp add: redir_of_def)

lemma same_add_arg: "same_tree b b' c c' \<Longrightarrow> same_word b b' x x' \<Longrightarrow> same_tree b b' (add_arg c x) (add_arg c' x')"
proof (induction c arbitrary: c')
  case (Exec ws)
  then show ?case by (cases c') (simp_all add: list_all2_appendI)
next
  case (Redir c f m fd)
  then show ?case by (cases c') simp_all
next
  case (PipeC l r)
  then show ?case by (cases c') simp_all
next
  case (ListC l r)
  then show ?case by (cases c') simp_all
next
  case (Back c)
  then show ?case by (cases c') simp_all
qed

lemma same_gettoken:
  assumes "NUL \<notin> set b" "NUL \<notin> set b'" "toks b i = toks b' i'"
  obtains tok q eq k q' eq' k' where "gettoken b i = (tok, q, eq, k)" "gettoken b' i' = (tok, q', eq', k')" "toks b k = toks b' k'"
    "tok = CHR ''a'' \<longrightarrow> same_word b b' (q, eq) (q', eq')"
proof -
  obtain tok q eq k where g: "gettoken b i = (tok, q, eq, k)" by (metis prod_cases4)
  obtain tok' q' eq' k' where g': "gettoken b' i' = (tok', q', eq', k')" by (metis prod_cases4)
  show thesis by (rule that [OF g]) (use same_tokenI [OF assms] g g' in \<open>auto simp: same_token_def\<close>)
qed

lemma same_peek_cases:
  assumes "NUL \<notin> set b" "NUL \<notin> set b'" "toks b i = toks b' i'" "set cs \<subseteq> set symbols"
  obtains r j j' where "peek b i cs = (r, j)" "peek b' i' cs = (r, j')" "toks b j = toks b' j'"
proof -
  obtain r j where p: "peek b i cs = (r, j)" by fastforce
  obtain r' j' where p': "peek b' i' cs = (r', j')" by fastforce
  show thesis by (rule that [OF p]) (use same_peek [OF assms p p'] p' in simp_all)
qed

lemma redirs_same:
  "NUL \<notin> set b \<Longrightarrow> NUL \<notin> set b' \<Longrightarrow> toks b i = toks b' i' \<Longrightarrow> same_tree b b' c c' \<Longrightarrow>
   same_res b b' (parseredirs b i c) (parseredirs b' i' c')"
proof (induction b i c arbitrary: i' c' rule: parseredirs.induct)
  case (1 b i c)
  note n = 1(2,3)
  have "set ''<>'' \<subseteq> set symbols" by (simp add: symbols_def)
  from same_peek_cases [OF 1(2-4) this] obtain r j j' where
    p: "peek b i ''<>'' = (r, j)" "peek b' i' ''<>'' = (r, j')" "toks b j = toks b' j'" .
  from same_gettoken [OF n p(3)] obtain tok q eq k q' eq' k' where
    g: "gettoken b j = (tok, q, eq, k)" "gettoken b' j' = (tok, q', eq', k')" "toks b k = toks b' k'"
      "tok = CHR ''a'' \<longrightarrow> same_word b b' (q, eq) (q', eq')" .
  from same_gettoken [OF n g(3)] obtain t u v l u' v' l' where
    h: "gettoken b k = (t, u, v, l)" "gettoken b' k' = (t, u', v', l')" "toks b l = toks b' l'"
      "t = CHR ''a'' \<longrightarrow> same_word b b' (u, v) (u', v')" .
  show ?case
  proof (cases "r \<and> t = CHR ''a''")
    case True
    then have "same_tree b b' (redir_of tok c (u, v)) (redir_of tok c' (u', v'))" using 1(5) h(4) by (intro same_redir) simp_all
    then have "same_res b b' (parseredirs b l (redir_of tok c (u, v))) (parseredirs b' l' (redir_of tok c' (u', v')))"
      using True p(1) g(1) h(1,3) n by (intro 1(1)) auto
    then show ?thesis using True p g h by (simp add: parseredirs.simps [of b i] parseredirs.simps [of b' i'])
  next
    case False
    then show ?thesis using p g h 1(5) by (auto simp: parseredirs.simps [of b i] parseredirs.simps [of b' i'])
  qed
qed

lemma args_same:
  "NUL \<notin> set b \<Longrightarrow> NUL \<notin> set b' \<Longrightarrow> toks b i = toks b' i' \<Longrightarrow> same_tree b b' c c' \<Longrightarrow>
   same_res b b' (parse_args b i argc c) (parse_args b' i' argc c')"
proof (induction b i argc c arbitrary: i' c' rule: parse_args.induct)
  case (1 b i argc c)
  note n = 1(2,3)
  have "set ''|)&;'' \<subseteq> set symbols" by (simp add: symbols_def)
  from same_peek_cases [OF 1(2-4) this] obtain r j j' where
    p: "peek b i ''|)&;'' = (r, j)" "peek b' i' ''|)&;'' = (r, j')" "toks b j = toks b' j'" .
  from same_gettoken [OF n p(3)] obtain tok q eq k q' eq' k' where
    g: "gettoken b j = (tok, q, eq, k)" "gettoken b' j' = (tok, q', eq', k')" "toks b k = toks b' k'"
      "tok = CHR ''a'' \<longrightarrow> same_word b b' (q, eq) (q', eq')" .
  note s = parse_args.simps [of b i argc c] parse_args.simps [of b' i' argc c']
  show ?case
  proof (cases "\<not> r \<and> tok = CHR ''a'' \<and> \<not> MAXARGS \<le> argc + 1")
    case True
    then have a: "same_tree b b' (add_arg c (q, eq)) (add_arg c' (q', eq'))" using 1(5) g(4) by (intro same_add_arg) simp_all
    have nn: "tok \<noteq> NUL" using True by (simp add: NUL_def)
    have "same_res b b' (rbind (parseredirs b k (add_arg c (q, eq))) (\<lambda>(c, l). parse_args b l (argc + 1) c))
        (rbind (parseredirs b' k' (add_arg c' (q', eq'))) (\<lambda>(c, l). parse_args b' l (argc + 1) c))"
    proof (cases "parseredirs b k (add_arg c (q, eq))")
      case (Ok x)
      then obtain t l where x: "parseredirs b k (add_arg c (q, eq)) = Ok (t, l)" by (cases x) auto
      with redirs_same [OF n g(3) a] obtain t' l' where y: "parseredirs b' k' (add_arg c' (q', eq')) = Ok (t', l')"
          "same_tree b b' t t'" "toks b l = toks b' l'" by (auto simp: same_res_def)
      have "same_res b b' (parse_args b l (argc + 1) t) (parse_args b' l' (argc + 1) t')"
        using True nn p(1) g(1) x y(2,3) n by (intro 1(1)) auto
      then show ?thesis by (simp add: x y(1))
    qed (use redirs_same [OF n g(3) a] in \<open>auto simp: same_res_def\<close>)
    then show ?thesis using True nn p g by (simp add: s)
  next
    case False
    then show ?thesis using p g 1(5) by (auto simp: s)
  qed
qed

lemma backs_same:
  "NUL \<notin> set b \<Longrightarrow> NUL \<notin> set b' \<Longrightarrow> toks b i = toks b' i' \<Longrightarrow> same_tree b b' c c' \<Longrightarrow>
   same_res b b' (Ok (parse_backs b i c)) (Ok (parse_backs b' i' c'))"
proof (induction b i c arbitrary: i' c' rule: parse_backs.induct)
  case (1 b i c)
  note n = 1(2,3)
  have "set ''&'' \<subseteq> set symbols" by (simp add: symbols_def)
  from same_peek_cases [OF 1(2-4) this] obtain r j j' where
    p: "peek b i ''&'' = (r, j)" "peek b' i' ''&'' = (r, j')" "toks b j = toks b' j'" .
  from same_gettoken [OF n p(3)] obtain tok q eq k q' eq' k' where
    g: "gettoken b j = (tok, q, eq, k)" "gettoken b' j' = (tok, q', eq', k')" "toks b k = toks b' k'"
      "tok = CHR ''a'' \<longrightarrow> same_word b b' (q, eq) (q', eq')" .
  have "same_res b b' (Ok (parse_backs b k (Back c))) (Ok (parse_backs b' k' (Back c')))" if r
    using that p(1) g(1,3) n 1(5) by (intro 1(1)) auto
  then show ?case using p g 1(5) by (simp add: parse_backs.simps [of b i] parse_backs.simps [of b' i'])
qed

lemma skip_token_same:
  assumes "NUL \<notin> set b" "NUL \<notin> set b'" "toks b i = toks b' i'"
  shows "toks b (skip_token b i) = toks b' (skip_token b' i')"
  using same_tokenI [OF assms] by (simp add: same_token_def skip_token_def split_def)

lemma same_bind2:
  assumes "same_res b b' r r'"
    and "\<And>t k t' k'. same_tree b b' t t' \<Longrightarrow> toks b k = toks b' k' \<Longrightarrow> same_res b b' (f t k) (f' t' k')"
  shows "same_res b b' (rbind r (\<lambda>(t, k). f t k)) (rbind r' (\<lambda>(t, k). f' t k))"
  by (rule same_res_bind [OF assms(1)]) (use assms(2) in simp)

lemma parser_same:
  assumes n: "NUL \<notin> set b" "NUL \<notin> set b'"
  shows "(\<forall>m i i'. n \<le> m \<longrightarrow> toks b i = toks b' i' \<longrightarrow> same_res b b' (parseline n b i) (parseline m b' i')) \<and>
    (\<forall>m i i'. n \<le> m \<longrightarrow> toks b i = toks b' i' \<longrightarrow> same_res b b' (parsepipe n b i) (parsepipe m b' i')) \<and>
    (\<forall>m i i'. n \<le> m \<longrightarrow> toks b i = toks b' i' \<longrightarrow> same_res b b' (parseexec n b i) (parseexec m b' i')) \<and>
    (\<forall>m i i'. n \<le> m \<longrightarrow> toks b i = toks b' i' \<longrightarrow> same_res b b' (parseblock n b i) (parseblock m b' i'))"
proof (induction n)
  case 0
  show ?case by (simp add: same_res_def)
next
  case (Suc n)
  have line: "same_res b b' (parseline n b i) (parseline m b' i')" if "n \<le> m" "toks b i = toks b' i'" for m i i'
    using Suc.IH that by blast
  have pipe: "same_res b b' (parsepipe n b i) (parsepipe m b' i')" if "n \<le> m" "toks b i = toks b' i'" for m i i'
    using Suc.IH that by blast
  have exec: "same_res b b' (parseexec n b i) (parseexec m b' i')" if "n \<le> m" "toks b i = toks b' i'" for m i i'
    using Suc.IH that by blast
  have block: "same_res b b' (parseblock n b i) (parseblock m b' i')" if "n \<le> m" "toks b i = toks b' i'" for m i i'
    using Suc.IH that by blast
  have sy: "set '';'' \<subseteq> set symbols" "set ''|'' \<subseteq> set symbols" "set ''('' \<subseteq> set symbols" "set '')'' \<subseteq> set symbols"
    by (simp_all add: symbols_def)
  have "same_res b b' (parseline (Suc n) b i) (parseline m b' i')" if m: "Suc n \<le> m" and t: "toks b i = toks b' i'" for m i i'
  proof -
    obtain m' where m': "m = Suc m'" "n \<le> m'" using m by (cases m) auto
    show ?thesis unfolding m'(1) parseline.simps
    proof (rule same_bind2 [OF pipe [OF m'(2) t]])
      fix c k c' k'
      assume c: "same_tree b b' c c'" "toks b k = toks b' k'"
      obtain d l d' l' where d: "parse_backs b k c = (d, l)" "parse_backs b' k' c' = (d', l')" by (metis prod.exhaust)
      then have dd: "same_tree b b' d d'" "toks b l = toks b' l'" using backs_same [OF n c(2,1)] by simp_all
      from same_peek_cases [OF n dd(2) sy(1)] obtain r j j' where
        p: "peek b l '';'' = (r, j)" "peek b' l' '';'' = (r, j')" "toks b j = toks b' j'" .
      have "same_res b b' (rbind (parseline n b (skip_token b j)) (\<lambda>(r, i). Ok (ListC d r, i)))
          (rbind (parseline m' b' (skip_token b' j')) (\<lambda>(r, i). Ok (ListC d' r, i)))"
        by (rule same_bind2 [OF line [OF m'(2) skip_token_same [OF n p(3)]]]) (use dd(1) in simp)
      then show "same_res b b'
          (case parse_backs b k c of (c, i) \<Rightarrow> case peek b i '';'' of (more, j) \<Rightarrow>
             if more then rbind (parseline n b (skip_token b j)) (\<lambda>(r, i). Ok (ListC c r, i)) else Ok (c, j))
          (case parse_backs b' k' c' of (c, i) \<Rightarrow> case peek b' i '';'' of (more, j) \<Rightarrow>
             if more then rbind (parseline m' b' (skip_token b' j)) (\<lambda>(r, i). Ok (ListC c r, i)) else Ok (c, j))"
        using dd(1) p by (simp add: d)
    qed
  qed
  moreover have "same_res b b' (parsepipe (Suc n) b i) (parsepipe m b' i')" if m: "Suc n \<le> m" and t: "toks b i = toks b' i'" for m i i'
  proof -
    obtain m' where m': "m = Suc m'" "n \<le> m'" using m by (cases m) auto
    show ?thesis unfolding m'(1) parsepipe.simps
    proof (rule same_bind2 [OF exec [OF m'(2) t]])
      fix c k c' k'
      assume c: "same_tree b b' c c'" "toks b k = toks b' k'"
      from same_peek_cases [OF n c(2) sy(2)] obtain r j j' where
        p: "peek b k ''|'' = (r, j)" "peek b' k' ''|'' = (r, j')" "toks b j = toks b' j'" .
      have "same_res b b' (rbind (parsepipe n b (skip_token b j)) (\<lambda>(r, i). Ok (PipeC c r, i)))
          (rbind (parsepipe m' b' (skip_token b' j')) (\<lambda>(r, i). Ok (PipeC c' r, i)))"
        by (rule same_bind2 [OF pipe [OF m'(2) skip_token_same [OF n p(3)]]]) (use c(1) in simp)
      then show "same_res b b'
          (case peek b k ''|'' of (more, j) \<Rightarrow>
             if more then rbind (parsepipe n b (skip_token b j)) (\<lambda>(r, i). Ok (PipeC c r, i)) else Ok (c, j))
          (case peek b' k' ''|'' of (more, j) \<Rightarrow>
             if more then rbind (parsepipe m' b' (skip_token b' j)) (\<lambda>(r, i). Ok (PipeC c' r, i)) else Ok (c', j))"
        using c(1) p by simp
    qed
  qed
  moreover have "same_res b b' (parseexec (Suc n) b i) (parseexec m b' i')" if m: "Suc n \<le> m" and t: "toks b i = toks b' i'" for m i i'
  proof -
    obtain m' where m': "m = Suc m'" "n \<le> m'" using m by (cases m) auto
    from same_peek_cases [OF n t sy(3)] obtain r j j' where
      p: "peek b i ''('' = (r, j)" "peek b' i' ''('' = (r, j')" "toks b j = toks b' j'" .
    have "same_res b b' (rbind (parseredirs b j (Exec [])) (\<lambda>(c, k). parse_args b k 0 c))
        (rbind (parseredirs b' j' (Exec [])) (\<lambda>(c, k). parse_args b' k 0 c))"
      by (rule same_bind2 [OF redirs_same [OF n p(3)]]) (use args_same [OF n] in simp_all)
    then show ?thesis using block [OF m'(2) p(3)] p by (simp add: m'(1))
  qed
  moreover have "same_res b b' (parseblock (Suc n) b i) (parseblock m b' i')" if m: "Suc n \<le> m" and t: "toks b i = toks b' i'" for m i i'
  proof -
    obtain m' where m': "m = Suc m'" "n \<le> m'" using m by (cases m) auto
    from same_peek_cases [OF n t sy(3)] obtain r j j' where
      p: "peek b i ''('' = (r, j)" "peek b' i' ''('' = (r, j')" "toks b j = toks b' j'" .
    have "same_res b b'
        (rbind (parseline n b (skip_token b j)) (\<lambda>(c, i). case peek b i '')'' of (closed, j) \<Rightarrow>
           if \<not> closed then Panic ''syntax - missing )'' else parseredirs b (skip_token b j) c))
        (rbind (parseline m' b' (skip_token b' j')) (\<lambda>(c, i). case peek b' i '')'' of (closed, j) \<Rightarrow>
           if \<not> closed then Panic ''syntax - missing )'' else parseredirs b' (skip_token b' j) c))"
    proof (rule same_bind2 [OF line [OF m'(2) skip_token_same [OF n p(3)]]])
      fix c k c' k'
      assume c: "same_tree b b' c c'" "toks b k = toks b' k'"
      from same_peek_cases [OF n c(2) sy(4)] obtain r j j' where
        p: "peek b k '')'' = (r, j)" "peek b' k' '')'' = (r, j')" "toks b j = toks b' j'" .
      then show "same_res b b'
          (case peek b k '')'' of (closed, j) \<Rightarrow>
             if \<not> closed then Panic ''syntax - missing )'' else parseredirs b (skip_token b j) c)
          (case peek b' k' '')'' of (closed, j) \<Rightarrow>
             if \<not> closed then Panic ''syntax - missing )'' else parseredirs b' (skip_token b' j) c')"
        using redirs_same [OF n skip_token_same [OF n p(3)] c(1)] by simp
    qed
    then show ?thesis using p by (simp add: m'(1))
  qed
  ultimately show ?case by blast
qed

section \<open>The tokens of a command\<close>

definition bracket :: "bool \<Rightarrow> token list \<Rightarrow> token list" where
  "bracket p ts = (if p then [Sym (CHR ''('')] @ ts @ [Sym (CHR '')'')] else ts)"

text \<open>The tokens that spell a command, with parentheses where the grammar needs them; the levels are those of the printed form.\<close>

primrec spelling :: "string cmd \<Rightarrow> nat \<Rightarrow> token list" where
  "spelling (Exec ws) lv = map Word ws"
| "spelling (Redir c f m fd) lv = spelling c 0 @ [Sym (if fd = 0 then CHR ''<'' else CHR ''>''), Word f]"
| "spelling (PipeC l r) lv = bracket (lv < 1) (spelling l 0 @ [Sym (CHR ''|'')] @ spelling r 1)"
| "spelling (ListC l r) lv = bracket (lv < 3) (spelling l 2 @ [Sym (CHR '';'')] @ spelling r 3)"
| "spelling (Back c) lv = bracket (lv < 2) (spelling c 2 @ [Sym (CHR ''&'')])"

lemma tokens_of_blank: "blank c \<Longrightarrow> tokens_of (c # s) = tokens_of s"
  using tokens_of_skip [of "c # s"] tokens_of_skip [of s] by simp

lemma tokens_of_symbol: "c \<in> set ''|();&<'' \<Longrightarrow> tokens_of (c # s) = Sym c # tokens_of s"
proof -
  assume "c \<in> set ''|();&<''"
  then have "c \<notin> set whitespace" "c \<in> set symbols" "c \<noteq> CHR ''>''" by (auto simp: whitespace_def symbols_def)
  then show ?thesis by (subst tokens_of.simps) simp
qed

lemma tokens_of_greater: "tokens_of (CHR ''>'' # CHR 0x20 # s) = Sym (CHR ''>'') # tokens_of s"
  by (subst tokens_of.simps) (simp add: symbols_def tokens_of_blank)

lemma tokens_of_word:
  assumes w: "good_word w" and s: "sep s"
  shows "tokens_of (w @ s) = Word w # tokens_of s"
proof -
  have t: "takeWhile word_char (w @ s) = w" "dropWhile word_char (w @ s) = s"
  proof -
    have a: "word_char x" if "x \<in> set w" for x using w that by (simp add: good_word_def)
    have e: "takeWhile word_char s = []" "dropWhile word_char s = s" using s by (cases s; simp add: sep_def)+
    show "takeWhile word_char (w @ s) = w" using takeWhile_append2 [of w word_char s, OF a] e(1) by simp
    show "dropWhile word_char (w @ s) = s" using dropWhile_append2 [of w word_char s, OF a] e(2) by simp
  qed
  obtain c w' where cw: "w = c # w'" using w by (cases w) (auto simp: good_word_def)
  have c: "c \<notin> set symbols" using w cw by (auto simp: good_word_def word_char_def)
  then have "c \<noteq> CHR ''>''" by (auto simp: symbols_def)
  then show ?thesis using c t good_word_skip [OF w, of s] unfolding cw by (subst tokens_of.simps) simp
qed

lemma tokens_of_words: "\<forall>w \<in> set ws. good_word w \<Longrightarrow> sep s \<Longrightarrow> tokens_of (show_words ws @ s) = map Word ws @ tokens_of s"
proof (induction ws)
  case Nil
  then show ?case by (simp add: show_words_def)
next
  case (Cons w ws)
  have "tokens_of (show_words (w # ws) @ s) = tokens_of (w @ show_words ws @ s)" by (simp add: show_words_Cons tokens_of_blank)
  also have "\<dots> = Word w # tokens_of (show_words ws @ s)" using Cons.prems by (intro tokens_of_word sep_words) simp_all
  finally show ?case using Cons by simp
qed

lemma tokens_of_shown: "writable c \<Longrightarrow> sep s \<Longrightarrow> tokens_of (show_at c lv @ s) = spelling c lv @ tokens_of s"
proof (induction c arbitrary: lv s)
  case (Redir c f m fd)
  then show ?case by (simp add: tokens_of_blank tokens_of_symbol tokens_of_greater tokens_of_word)
qed (simp_all add: tokens_of_words paren_def bracket_def tokens_of_blank tokens_of_symbol)

lemma toks_Nil: "toks b i = [] \<longleftrightarrow> rest b i = []"
  unfolding toks_rest tokens_of_rest by (cases "rest b i") simp_all

lemma parsecmd_spelled:
  assumes c: "writable c" and nul: "NUL \<notin> set b" and b: "tokens_of b = spelling c 3" and shown: "NUL \<notin> set (show_at c 3)"
  shows "\<exists>t b'. parsecmd b = Ok (t, b') \<and> map_cmd (\<lambda>s. cstring b' (fst s)) t = c"
proof -
  define w where "w = replicate (length b) (CHR 0x20)"
  define b' where "b' = show_at c 3 @ w"
  have bl: "\<forall>x \<in> set w. blank x" by (simp add: w_def)
  have nul': "NUL \<notin> set b'" using shown by (simp add: b'_def w_def NUL_def)
  have w: "skip w = []" using bl by (simp add: dropWhile_eq_Nil_conv)
  have "sep w" using bl by (cases w) (auto simp: sep_def word_char_def)
  moreover have "tokens_of w = []" using w by (subst tokens_of.simps) simp
  ultimately have "tokens_of b' = tokens_of b" using tokens_of_shown [OF c, of w 3] b by (simp add: b'_def)
  then have t: "toks b 0 = toks b' 0" by (simp add: toks_def)
  obtain t' k' where p': "parseline (4 * length b' + 4) b' 0 = Ok (t', k')" "denotes b' c t'" "rest b' k' = []"
    using parseline_shown [OF c bl] by (auto simp: b'_def)
  have "4 * length b + 4 \<le> 4 * length b' + 4" by (simp add: b'_def w_def)
  then have s: "same_res b b' (parseline (4 * length b + 4) b 0) (parseline (4 * length b' + 4) b' 0)"
    using parser_same [OF nul nul'] t by blast
  have "4 * length (rest b 0) + 4 \<le> 4 * length b + 4" by (simp add: length_rest)
  then have "parseline (4 * length b + 4) b 0 \<noteq> Hang" using parser_ends [of b 0] by (auto simp: parse_ends_def)
  with s p' obtain t k where p: "parseline (4 * length b + 4) b 0 = Ok (t, k)" "same_tree b b' t t'" "toks b k = toks b' k'"
    by (auto simp: same_res_def split: res.splits)
  have "rel_cmd (same_word b b')\<inverse>\<inverse> t' t" using p(2) by (simp only: cmd.rel_flip conversep_iff)
  with p'(2) have "rel_cmd (word_at b' OO (same_word b b')\<inverse>\<inverse>) c t" unfolding cmd.rel_compp by (rule relcomppI)
  then have "denotes b c t" by (rule cmd.rel_mono_strong) (auto simp: same_word_def word_at_def)
  moreover have "rest b k = []"
    using p(3) p'(3) toks_Nil by metis
  ultimately show ?thesis by (rule parsecmd_denotes [OF p(1)])
qed

end
