(* ===== verification/XvShRun.thy ===== *)
theory XvShRun
  imports XvShLex
begin

text \<open>
  xv6, \<open>sh.c\<close>: what the shell does. A program is the tree of its system calls, each with what the program does for every
  answer. Then what a program starts when the calls do what they promise: each \<open>exec\<close> with the files that its process has open.
\<close>

section \<open>Programs as trees of system calls\<close>

datatype prog =
    SExit
  | SExec string "string list" prog
  | SClose nat prog
  | SOpen string nat "int \<Rightarrow> prog"
  | SDup nat "int \<Rightarrow> prog"
  | SPipe "(nat \<times> nat) option \<Rightarrow> prog"
  | SFork "int \<Rightarrow> prog"
  | SWait prog
  | SPrint string prog
  | SChdir string "int \<Rightarrow> prog"

definition panic_exit :: "string \<Rightarrow> prog" where
  "panic_exit s = SPrint (s @ [CHR 0x0A]) SExit"

definition fork1 :: "prog \<Rightarrow> prog \<Rightarrow> prog" where
  "fork1 child parent = SFork (\<lambda>pid. if pid = - 1 then panic_exit ''fork'' else if pid = 0 then child else parent)"

primrec runcmd :: "string cmd \<Rightarrow> prog" where
  "runcmd (Exec ws) = (case ws of [] \<Rightarrow> SExit | w # _ \<Rightarrow> SExec w ws (SPrint (''exec '' @ w @ '' failed'' @ [CHR 0x0A]) SExit))"
| "runcmd (Redir c f m fd) =
     SClose fd (SOpen f m (\<lambda>r. if r < 0 then SPrint (''open '' @ f @ '' failed'' @ [CHR 0x0A]) SExit else runcmd c))"
| "runcmd (ListC l r) = fork1 (runcmd l) (SWait (runcmd r))"
| "runcmd (PipeC l r) =
     SPipe (\<lambda>p. case p of None \<Rightarrow> panic_exit ''pipe''
       | Some (p0, p1) \<Rightarrow>
           fork1 (SClose 1 (SDup p1 (\<lambda>_. SClose p0 (SClose p1 (runcmd l)))))
             (fork1 (SClose 0 (SDup p0 (\<lambda>_. SClose p0 (SClose p1 (runcmd r)))))
               (SClose p0 (SClose p1 (SWait (SWait SExit))))))"
| "runcmd (Back c) = fork1 (runcmd c) SExit"

section \<open>The loop\<close>

text \<open>\<open>gets\<close> of \<open>ulib.c\<close> on the bytes that are left of the input: the line, and what is left behind it.\<close>

fun gets :: "nat \<Rightarrow> string \<Rightarrow> string \<times> string" where
  "gets (Suc (Suc n)) (c # cs) =
     (if c = CHR 0x0A \<or> c = CHR 0x0D then ([c], cs) else (case gets (Suc n) cs of (l, r) \<Rightarrow> (c # l, r)))"
| "gets _ cs = ([], cs)"

lemma gets_length: "gets n cs = (l, r) \<Longrightarrow> length cs = length l + length r"
  by (induction n cs arbitrary: l r rule: gets.induct) (auto split: if_splits prod.splits)

definition words_of :: "span cmd \<times> string \<Rightarrow> string cmd" where
  "words_of = (\<lambda>(t, b). map_cmd (\<lambda>s. cstring b (fst s)) t)"

text \<open>What the child does with the line: a panic of the parser ends it.\<close>

definition child_line :: "string \<Rightarrow> prog" where
  "child_line s = (case parsecmd s of Ok tb \<Rightarrow> runcmd (words_of tb) | Panic m \<Rightarrow> panic_exit m | _ \<Rightarrow> SExit)"

text \<open>The buffer is what was read, up to the first terminator in it; an empty buffer is the end of the input.\<close>

definition getcmd :: "nat \<Rightarrow> string \<Rightarrow> (string \<times> string) option" where
  "getcmd nbuf input =
     (case gets nbuf input of (line, more) \<Rightarrow> if cstring line 0 = [] then None else Some (cstring line 0, more))"

lemma getcmd_length: "getcmd n input = Some (buf, more) \<Longrightarrow> length more < length input"
  by (auto simp: getcmd_def cstring_def split: prod.splits if_splits dest!: gets_length)

function sh_loop :: "string \<Rightarrow> prog" where
  "sh_loop input =
     SPrint ''$ ''
       (case getcmd 100 input of None \<Rightarrow> SExit
        | Some (buf, more) \<Rightarrow>
            if take 3 buf = ''cd '' then
              SChdir (drop 3 (butlast buf))
                (\<lambda>r. if r < 0 then SPrint (''cannot cd '' @ drop 3 (butlast buf) @ [CHR 0x0A]) (sh_loop more) else sh_loop more)
            else fork1 (child_line buf) (SWait (sh_loop more)))"
  by pat_completeness auto
termination
  by (relation "measure length") (auto dest: getcmd_length)

declare sh_loop.simps [simp del]

section \<open>The programs that are started\<close>

text \<open>An open file: one that a process has from the start, one that was opened by its name, an end of a pipe. A pipe is named
by the process that made it: the forks on the way to it.\<close>

datatype ofile = Given nat | Named string nat | ReadEnd "bool list" | WriteEnd "bool list"

type_synonym fds = "ofile option list"

fun lowest :: "fds \<Rightarrow> nat option" where
  "lowest [] = None"
| "lowest (None # fs) = Some 0"
| "lowest (Some f # fs) = map_option Suc (lowest fs)"

definition install :: "ofile \<Rightarrow> fds \<Rightarrow> (nat \<times> fds) option" where
  "install f fs = map_option (\<lambda>i. (i, fs[i := Some f])) (lowest fs)"

text \<open>Every fork succeeds, a file can be opened when \<open>os\<close> says so, and \<open>exec\<close> succeeds: it is the last thing a process does.\<close>

primrec started :: "(string \<Rightarrow> nat \<Rightarrow> bool) \<Rightarrow> prog \<Rightarrow> bool list \<Rightarrow> fds \<Rightarrow> (string list \<times> fds) list" where
  "started os SExit = (\<lambda>p fs. [])"
| "started os (SExec w ws k) = (\<lambda>p fs. [(ws, fs)])"
| "started os (SClose fd k) = (\<lambda>p fs. started os k p (fs[fd := None]))"
| "started os (SOpen f m k) = (\<lambda>p fs.
     case (if os f m then install (Named f m) fs else None) of
       None \<Rightarrow> started os (k (- 1)) p fs | Some (i, fs') \<Rightarrow> started os (k (int i)) p fs')"
| "started os (SDup fd k) = (\<lambda>p fs.
     case (if fd < length fs then fs ! fd else None) of
       None \<Rightarrow> started os (k (- 1)) p fs
     | Some f \<Rightarrow> (case install f fs of None \<Rightarrow> started os (k (- 1)) p fs | Some (i, fs') \<Rightarrow> started os (k (int i)) p fs'))"
| "started os (SPipe k) = (\<lambda>p fs.
     case install (ReadEnd p) fs of None \<Rightarrow> started os (k None) p fs
     | Some (i, fs') \<Rightarrow>
         (case install (WriteEnd p) fs' of None \<Rightarrow> started os (k None) p fs
          | Some (j, fs'') \<Rightarrow> started os (k (Some (i, j))) p fs''))"
| "started os (SFork k) = (\<lambda>p fs. started os (k 0) (True # p) fs @ started os (k 1) (False # p) fs)"
| "started os (SWait k) = (\<lambda>p fs. started os k p fs)"
| "started os (SPrint s k) = (\<lambda>p fs. started os k p fs)"
| "started os (SChdir d k) = (\<lambda>p fs. started os (k 0) p fs)"

text \<open>What a command means: the programs with their standard input and output.\<close>

primrec meaning :: "(string \<Rightarrow> nat \<Rightarrow> bool) \<Rightarrow> string cmd \<Rightarrow> bool list \<Rightarrow> ofile \<Rightarrow> ofile \<Rightarrow> (string list \<times> ofile \<times> ofile) list" where
  "meaning os (Exec ws) = (\<lambda>p i u. if ws = [] then [] else [(ws, i, u)])"
| "meaning os (Redir c f m fd) = (\<lambda>p i u.
     if os f m then (if fd = 0 then meaning os c p (Named f m) u else meaning os c p i (Named f m)) else [])"
| "meaning os (ListC l r) = (\<lambda>p i u. meaning os l (True # p) i u @ meaning os r (False # p) i u)"
| "meaning os (PipeC l r) = (\<lambda>p i u. meaning os l (True # p) i (WriteEnd p) @ meaning os r (True # False # p) (ReadEnd p) u)"
| "meaning os (Back c) = (\<lambda>p i u. meaning os c (True # p) i u)"

definition std :: "ofile \<Rightarrow> ofile \<Rightarrow> ofile \<Rightarrow> fds" where
  "std e i u = [Some i, Some u, Some e] @ replicate 13 None"

theorem runcmd_plumbing:
  assumes "writable c"
  shows "started os (runcmd c) p (std e i u) = map (\<lambda>(ws, i, u). (ws, std e i u)) (meaning os c p i u)"
  using assms
proof (induction c arbitrary: p i u)
  case (Exec ws)
  then show ?case by (cases ws) simp_all
next
  case (Redir c f m fd)
  then show ?case by (auto simp: std_def install_def)
next
  case (PipeC l r)
  then show ?case by (simp add: std_def install_def fork1_def numeral_eq_Suc)
next
  case (ListC l r)
  then show ?case by (simp add: fork1_def)
next
  case (Back c)
  then show ?case by (simp add: fork1_def)
qed


section \<open>A command that is typed is run\<close>

definition unbroken :: "string \<Rightarrow> bool" where
  "unbroken s \<longleftrightarrow> CHR 0x0A \<notin> set s \<and> CHR 0x0D \<notin> set s \<and> NUL \<notin> set s"

lemma unbroken_append [simp]: "unbroken (s @ t) \<longleftrightarrow> unbroken s \<and> unbroken t"
  by (auto simp: unbroken_def)

lemma unbroken_Cons: "unbroken (c # s) \<longleftrightarrow> c \<noteq> CHR 0x0A \<and> c \<noteq> CHR 0x0D \<and> c \<noteq> NUL \<and> unbroken s"
  by (auto simp: unbroken_def)

lemma unbroken_Nil [simp]: "unbroken []"
  by (simp add: unbroken_def)

lemma good_word_unbroken: "good_word w \<Longrightarrow> unbroken w"
  by (auto simp: good_word_def unbroken_def word_char_def whitespace_def)

lemma unbroken_words: "\<forall>w \<in> set ws. good_word w \<Longrightarrow> unbroken (show_words ws)"
  by (induction ws) (simp_all add: show_words_def unbroken_Cons good_word_unbroken NUL_def)

lemma show_unbroken: "writable c \<Longrightarrow> unbroken (show_at c lv)"
proof (induction c arbitrary: lv)
  case (Redir c f m fd)
  then show ?case by (simp add: unbroken_Cons good_word_unbroken NUL_def)
qed (simp_all add: unbroken_words paren_def unbroken_Cons NUL_def)

lemma tokens_of_newline: "tokens_of (s @ [CHR 0x0A]) = tokens_of s"
proof (induction s rule: tokens_of.induct)
  case (1 s)
  have n: "blank (CHR 0x0A)" "\<not> word_char (CHR 0x0A)" by (simp_all add: whitespace_def word_char_def)
  show ?case
  proof (cases "skip s")
    case Nil
    then have "skip (s @ [CHR 0x0A]) = []" using n by (simp add: dropWhile_append dropWhile_eq_Nil_conv)
    then show ?thesis using Nil by (subst (1 2) tokens_of.simps) simp
  next
    case (Cons c cs)
    have "\<exists>x \<in> set s. \<not> blank x" using Cons dropWhile_eq_Nil_conv [of blank s] by auto
    then have sk: "skip (s @ [CHR 0x0A]) = c # cs @ [CHR 0x0A]" using Cons by (auto simp: dropWhile_append)
    have t: "take 1 (cs @ [CHR 0x0A]) = ''>'' \<longleftrightarrow> take 1 cs = ''>''" "take 1 cs = ''>'' \<Longrightarrow> tl (cs @ [CHR 0x0A]) = tl cs @ [CHR 0x0A]"
      by (cases cs; simp)+
    have w: "takeWhile word_char (c # cs @ [CHR 0x0A]) = takeWhile word_char (c # cs)"
      "dropWhile word_char (c # cs @ [CHR 0x0A]) = dropWhile word_char (c # cs) @ [CHR 0x0A]"
      using n(2) by (auto simp: takeWhile_append dropWhile_append takeWhile_eq_all_conv [THEN iffD2] dropWhile_eq_Nil_conv [THEN iffD2])
    show ?thesis unfolding tokens_of.simps [of s] tokens_of.simps [of "s @ [CHR 0x0A]"] Cons sk
      using 1 [OF Cons] t w by (simp del: takeWhile.simps dropWhile.simps)
  qed
qed

lemma gets_line: "\<forall>x \<in> set s. x \<noteq> CHR 0x0A \<and> x \<noteq> CHR 0x0D \<Longrightarrow> length s + 2 \<le> n \<Longrightarrow> gets n (s @ CHR 0x0A # r) = (s @ [CHR 0x0A], r)"
proof (induction s arbitrary: n)
  case Nil
  then obtain m where "n = Suc (Suc m)" by (metis add_2_eq_Suc le_Suc_ex list.size(3) add_0)
  then show ?case by simp
next
  case (Cons c s)
  then obtain m where "n = Suc (Suc m)" by (metis add_2_eq_Suc le_Suc_ex add.commute add.left_commute)
  then show ?case using Cons by simp
qed

text \<open>
  C6: a command typed in one line of less than 99 characters, with any blanks or none between its tokens, is run as it is meant:
  the parser reads the tree, every program is started with its words, with the standard input and output that its redirections
  and pipes name, and with no other file open than the three, so every reader of a pipe sees its end; then the shell goes on
  with the next line. A line that starts with \<open>cd\<close> and a blank is not parsed: the shell itself changes to the directory that the rest
  of the line names, and says so when it cannot.
\<close>
theorem shell_runs_command:
  assumes c: "writable c" and s: "tokens_of s = spelling c 3" "unbroken s" "length s < 99"
  shows "if take 3 s = ''cd '' then
      sh_loop (s @ CHR 0x0A # more) = SPrint ''$ '' (SChdir (drop 3 s)
        (\<lambda>r. if r < 0 then SPrint (''cannot cd '' @ drop 3 s @ [CHR 0x0A]) (sh_loop more) else sh_loop more))
    else
      started os (sh_loop (s @ CHR 0x0A # more)) p (std e i u) =
        map (\<lambda>(ws, i, u). (ws, std e i u)) (meaning os c (True # p) i u) @ started os (sh_loop more) (False # p) (std e i u)"
proof -
  let ?s = "s @ [CHR 0x0A]"
  have g: "gets 100 (s @ CHR 0x0A # more) = (?s, more)"
    by (rule gets_line) (use s(2,3) in \<open>auto simp: unbroken_def\<close>)
  have b: "cstring ?s 0 = ?s"
    using s(2) by (auto simp: unbroken_def cstring_def NUL_def takeWhile_eq_all_conv)
  have cd: "take 3 ?s = ''cd '' \<longleftrightarrow> take 3 s = ''cd ''"
    by (cases s; cases "tl s"; cases "tl (tl s)") auto
  have "tokens_of ?s = tokens_of s" by (rule tokens_of_newline)
  then have t: "tokens_of ?s = spelling c 3" using s(1) by simp
  have "NUL \<notin> set ?s" using s(2) by (auto simp: unbroken_def NUL_def)
  from parsecmd_spelled [OF c this t] show_unbroken [OF c, of 3]
  obtain t b' where "parsecmd ?s = Ok (t, b')" "map_cmd (\<lambda>s. cstring b' (fst s)) t = c" by (auto simp: unbroken_def)
  then have r: "child_line ?s = runcmd c" by (simp add: child_line_def words_of_def)
  have l: "sh_loop (s @ CHR 0x0A # more) = SPrint ''$ ''
       (if take 3 s = ''cd '' then
          SChdir (drop 3 s) (\<lambda>r. if r < 0 then SPrint (''cannot cd '' @ drop 3 s @ [CHR 0x0A]) (sh_loop more) else sh_loop more)
        else fork1 (runcmd c) (SWait (sh_loop more)))"
    by (subst sh_loop.simps) (simp add: getcmd_def g b cd r cong: if_cong del: take_append take_Suc)
  then show ?thesis using runcmd_plumbing [OF c] by (simp add: fork1_def)
qed

definition demo_cmd :: "string cmd" where
  "demo_cmd = ListC (PipeC (Redir (Exec [''cat'']) ''in'' 0 0) (Exec [''wc'', ''-l''])) (Back (Redir (ListC (Exec [''ls'']) (Exec [''ps''])) ''out'' 0x201 1))"

lemma demo_shown: "show_at demo_cmd 3 = '' cat < in | wc -l ; ( ls ; ps ) > out &''"
  by (simp add: demo_cmd_def paren_def show_words_def)

lemma demo_writable: "writable demo_cmd"
  by (simp add: demo_cmd_def good_word_def word_char_def whitespace_def symbols_def NUL_def MAXARGS_def)

lemma demo_spelled: "tokens_of ''cat<in|wc -l;(ls;ps)>out&'' = spelling demo_cmd 3" "tokens_of ''cd tmp'' = spelling (Exec [''cd'', ''tmp'']) 3"
  by code_simp+

theorem shell_runs_command_witness:
  "started (\<lambda>f m. True) (sh_loop (''cat<in|wc -l;(ls;ps)>out&'' @ [CHR 0x0A])) [] (std (Given 2) (Given 0) (Given 1)) =
    [([''cat''], std (Given 2) (Named ''in'' 0) (WriteEnd [True, True])),
     ([''wc'', ''-l''], std (Given 2) (ReadEnd [True, True]) (Given 1)),
     ([''ls''], std (Given 2) (Given 0) (Named ''out'' 0x201)),
     ([''ps''], std (Given 2) (Given 0) (Named ''out'' 0x201))] \<and>
   sh_loop (''cd tmp'' @ [CHR 0x0A]) = SPrint ''$ '' (SChdir ''tmp''
      (\<lambda>r. if r < 0 then SPrint (''cannot cd tmp'' @ [CHR 0x0A]) (sh_loop []) else sh_loop []))"
proof -
  have e: "sh_loop [] = SPrint ''$ '' SExit" by (subst sh_loop.simps) (simp add: getcmd_def cstring_def)
  have u: "unbroken ''cat<in|wc -l;(ls;ps)>out&''" "unbroken ''cd tmp''" by (simp_all add: unbroken_def NUL_def)
  have w: "writable (Exec [''cd'', ''tmp''])" by (simp add: good_word_def word_char_def whitespace_def symbols_def NUL_def MAXARGS_def)
  show ?thesis
    using shell_runs_command [OF demo_writable demo_spelled(1) u(1), of "[]" "\<lambda>f m. True" "[]" "Given 2" "Given 0" "Given 1"]
      shell_runs_command [OF w demo_spelled(2) u(2), of "[]"]
    by (simp add: demo_cmd_def e cong: if_cong)
qed

theorem parsecmd_reads_back_witness:
  "\<exists>t b'. parsecmd ('' cat < in | wc -l ; ( ls ; ps ) > out &'' @ [CHR 0x0A]) = Ok (t, b') \<and> map_cmd (\<lambda>s. cstring b' (fst s)) t = demo_cmd"
  using parsecmd_reads_back [OF demo_writable, of "[CHR 0x0A]"] unfolding demo_shown by (simp add: whitespace_def)

end
