(* ===== verification/Channel.thy ===== *)
theory Channel
  imports CPrelude
begin

text \<open>
  The interface of a bounded channel of bytes, and what a writer and a reader that sleep on it can rely
  on: no wake-up is lost, every run ends, and at its end all bytes have arrived in order.
\<close>

datatype wait_state = Ready | Asleep | Closed

datatype 'a pcall = Returns 'a | Waits nat

text \<open>
  A writer with its pending calls and the index at which the current one goes on, a reader that reads \<open>n\<close>
  bytes at a time until it gets none, and the channel between them.
\<close>

record 'p talk =
  tk_chan :: 'p
  tk_calls :: "byte list list"
  tk_index :: nat
  tk_writer :: wait_state
  tk_reader :: wait_state
  tk_got :: "byte list"

fun woken :: "wait_state \<Rightarrow> wait_state" where
  "woken Asleep = Ready"
| "woken Ready = Ready"
| "woken Closed = Closed"

text \<open>The turns of the two processes. A call that comes to its end or has to wait wakes the other one.\<close>

inductive turn ::
  "(byte list \<Rightarrow> nat \<Rightarrow> 'p \<Rightarrow> int pcall \<times> 'p) \<Rightarrow> (nat \<Rightarrow> 'p \<Rightarrow> (int \<times> byte list) pcall \<times> 'p) \<Rightarrow> ('p \<Rightarrow> 'p) \<Rightarrow> nat \<Rightarrow>
     'p talk \<Rightarrow> 'p talk \<Rightarrow> bool" for wr rd cl n where
  write_done: "tk_writer s = Ready \<Longrightarrow> tk_calls s = bs # cs \<Longrightarrow> wr bs (tk_index s) (tk_chan s) = (Returns k, p) \<Longrightarrow>
    turn wr rd cl n s (s\<lparr>tk_chan := p, tk_calls := cs, tk_index := 0, tk_reader := woken (tk_reader s)\<rparr>)"
| write_wait: "tk_writer s = Ready \<Longrightarrow> tk_calls s = bs # cs \<Longrightarrow> wr bs (tk_index s) (tk_chan s) = (Waits i, p) \<Longrightarrow>
    turn wr rd cl n s (s\<lparr>tk_chan := p, tk_index := i, tk_writer := Asleep, tk_reader := woken (tk_reader s)\<rparr>)"
| close_write: "tk_writer s = Ready \<Longrightarrow> tk_calls s = [] \<Longrightarrow>
    turn wr rd cl n s (s\<lparr>tk_chan := cl (tk_chan s), tk_writer := Closed, tk_reader := woken (tk_reader s)\<rparr>)"
| read_done: "tk_reader s = Ready \<Longrightarrow> rd n (tk_chan s) = (Returns (k, xs), p) \<Longrightarrow>
    turn wr rd cl n s (s\<lparr>tk_chan := p, tk_got := tk_got s @ xs, tk_writer := woken (tk_writer s),
      tk_reader := (if xs = [] then Closed else Ready)\<rparr>)"
| read_wait: "tk_reader s = Ready \<Longrightarrow> rd n (tk_chan s) = (Waits i, p) \<Longrightarrow>
    turn wr rd cl n s (s\<lparr>tk_chan := p, tk_reader := Asleep\<rparr>)"

inductive_cases turnE: "turn wr rd cl n s t"

definition talk_start :: "'p \<Rightarrow> byte list list \<Rightarrow> 'p talk" where
  "talk_start p calls = \<lparr>tk_chan = p, tk_calls = calls, tk_index = 0, tk_writer = Ready, tk_reader = Ready, tk_got = []\<rparr>"

text \<open>A relation without endless runs from a state reaches one from which it cannot go on.\<close>

lemma run_ends:
  assumes "\<not> (\<exists>f. f 0 = s \<and> (\<forall>k. R (f k) (f (Suc k))))"
  shows "\<exists>t. R\<^sup>*\<^sup>* s t \<and> \<not> (\<exists>u. R t u)"
proof (rule ccontr)
  assume "\<not> ?thesis"
  then have ex: "R\<^sup>*\<^sup>* s t \<Longrightarrow> \<exists>u. R t u" for t by blast
  have "\<exists>f. \<forall>k. (R\<^sup>*\<^sup>* s (f k) \<and> (k = 0 \<longrightarrow> f k = s)) \<and> R (f k) (f (Suc k))"
  proof (rule dependent_nat_choice)
    show "\<exists>x. R\<^sup>*\<^sup>* s x \<and> (0 = (0 :: nat) \<longrightarrow> x = s)" by blast
    fix x and n :: nat assume "R\<^sup>*\<^sup>* s x \<and> (n = 0 \<longrightarrow> x = s)"
    then obtain u where "R x u" "R\<^sup>*\<^sup>* s u" using ex by (meson rtranclp.rtrancl_into_rtrancl)
    then show "\<exists>y. (R\<^sup>*\<^sup>* s y \<and> (Suc n = 0 \<longrightarrow> y = s)) \<and> R x y" by auto
  qed
  with assms show False by blast
qed

locale byte_channel =
  fixes inv :: "'p \<Rightarrow> bool"
    and contents :: "'p \<Rightarrow> byte list"
    and room :: nat
    and ended :: "'p \<Rightarrow> bool"
    and put :: "byte list \<Rightarrow> nat \<Rightarrow> 'p \<Rightarrow> int pcall \<times> 'p"
    and get :: "nat \<Rightarrow> 'p \<Rightarrow> (int \<times> byte list) pcall \<times> 'p"
    and shut :: "'p \<Rightarrow> 'p"
  assumes room_pos: "0 < room"
    and contents_room: "inv p \<Longrightarrow> length (contents p) \<le> room"
    and put_all: "inv p \<Longrightarrow> i \<le> length bs \<Longrightarrow> length (contents p) + (length bs - i) \<le> room \<Longrightarrow>
      \<exists>p'. put bs i p = (Returns (int (length bs)), p') \<and> inv p' \<and> contents p' = contents p @ drop i bs \<and> ended p' = ended p"
    and put_some: "inv p \<Longrightarrow> i \<le> length bs \<Longrightarrow> room < length (contents p) + (length bs - i) \<Longrightarrow>
      \<exists>p'. put bs i p = (Waits (i + (room - length (contents p))), p') \<and> inv p' \<and>
        contents p' = contents p @ take (room - length (contents p)) (drop i bs) \<and> ended p' = ended p"
    and get_some: "inv p \<Longrightarrow> contents p \<noteq> [] \<or> ended p \<Longrightarrow>
      \<exists>p'. get n p = (Returns (int (length (take n (contents p))), take n (contents p)), p') \<and> inv p' \<and> contents p' = drop n (contents p) \<and> ended p' = ended p"
    and get_wait: "inv p \<Longrightarrow> contents p = [] \<Longrightarrow> \<not> ended p \<Longrightarrow> get n p = (Waits 0, p)"
    and shut_law: "inv p \<Longrightarrow> inv (shut p) \<and> contents (shut p) = contents p \<and> ended (shut p)"
begin

text \<open>What is still to come, and the invariant of the two processes for the bytes \<open>all\<close>.\<close>

definition pending :: "'p talk \<Rightarrow> byte list" where
  "pending s = drop (tk_index s) (concat (tk_calls s))"

definition talk_inv :: "byte list \<Rightarrow> 'p talk \<Rightarrow> bool" where
  "talk_inv all s \<longleftrightarrow> inv (tk_chan s) \<and> tk_got s @ contents (tk_chan s) @ pending s = all \<and>
     (case tk_calls s of [] \<Rightarrow> tk_index s = 0 | bs # cs \<Rightarrow> tk_index s \<le> length bs) \<and>
     (tk_writer s = Asleep \<longrightarrow> contents (tk_chan s) \<noteq> [] \<and> tk_calls s \<noteq> []) \<and>
     (tk_reader s = Asleep \<longrightarrow> contents (tk_chan s) = [] \<and> tk_writer s = Ready) \<and>
     (tk_writer s = Closed \<longleftrightarrow> ended (tk_chan s)) \<and> (tk_writer s = Closed \<longrightarrow> tk_calls s = []) \<and>
     (tk_reader s = Closed \<longrightarrow> contents (tk_chan s) = [] \<and> tk_writer s = Closed)"

lemma talk_invD:
  assumes "talk_inv all s"
  shows "inv (tk_chan s)" and "tk_got s @ contents (tk_chan s) @ pending s = all"
    and "tk_calls s = bs # cs \<Longrightarrow> tk_index s \<le> length bs" and "tk_calls s = [] \<Longrightarrow> tk_index s = 0"
    and "tk_writer s = Asleep \<Longrightarrow> contents (tk_chan s) \<noteq> []" and "tk_writer s = Asleep \<Longrightarrow> tk_calls s \<noteq> []"
    and "tk_reader s = Asleep \<Longrightarrow> contents (tk_chan s) = []" and "tk_reader s = Asleep \<Longrightarrow> tk_writer s = Ready"
    and "tk_writer s = Closed \<longleftrightarrow> ended (tk_chan s)" and "tk_writer s = Closed \<Longrightarrow> tk_calls s = []"
    and "tk_reader s = Closed \<Longrightarrow> contents (tk_chan s) = []" and "tk_reader s = Closed \<Longrightarrow> tk_writer s = Closed"
  using assms by (auto simp: talk_inv_def)

text \<open>What a turn leaves to do: bytes and calls to write, then bytes to read, then processes that are ready.\<close>

definition ready :: "wait_state \<Rightarrow> nat" where
  "ready w = (if w = Ready then 1 else 0)"

definition to_write :: "'p talk \<Rightarrow> nat" where
  "to_write s = length (pending s) + length (tk_calls s) + (if tk_writer s = Closed then 0 else 1)"

definition work :: "('p talk \<times> 'p talk) set" where
  "work = measures [to_write, \<lambda>s. length (contents (tk_chan s)), \<lambda>s. ready (tk_writer s) + ready (tk_reader s)]"

lemma write_call:
  assumes i: "talk_inv all s" and w: "tk_writer s = Ready" and c: "tk_calls s = bs # cs"
  shows "wr = put bs (tk_index s) (tk_chan s) \<Longrightarrow>
      (\<exists>p. wr = (Returns (int (length bs)), p) \<and> inv p \<and> ended p = ended (tk_chan s) \<and>
        contents p @ concat cs = contents (tk_chan s) @ pending s) \<or>
      (\<exists>p j. wr = (Waits j, p) \<and> inv p \<and> ended p = ended (tk_chan s) \<and> tk_index s \<le> j \<and> j \<le> length bs \<and> contents p \<noteq> [] \<and>
        contents p @ drop j (concat (tk_calls s)) = contents (tk_chan s) @ pending s \<and>
        (j = tk_index s \<longrightarrow> contents p = contents (tk_chan s)))"
proof -
  note I = talk_invD [OF i]
  have idx: "tk_index s \<le> length bs" by (rule I(3) [OF c])
  have pd: "pending s = drop (tk_index s) bs @ concat cs" using idx by (simp add: pending_def c)
  assume wr: "wr = put bs (tk_index s) (tk_chan s)"
  show ?thesis
  proof (cases "length (contents (tk_chan s)) + (length bs - tk_index s) \<le> room")
    case True
    from put_all [OF I(1) idx True] wr pd show ?thesis by auto
  next
    case False
    let ?k = "room - length (contents (tk_chan s))"
    have k: "?k \<le> length bs - tk_index s" using False by linarith
    from put_some [OF I(1) idx] False obtain p where p: "wr = (Waits (tk_index s + ?k), p)" "inv p" "ended p = ended (tk_chan s)"
        "contents p = contents (tk_chan s) @ take ?k (drop (tk_index s) bs)" using wr by auto
    have d: "drop (tk_index s + ?k) (concat (tk_calls s)) = drop ?k (drop (tk_index s) bs) @ concat cs"
      using k idx by (simp add: c add.commute)
    have "length (contents p) = room" using k contents_room [OF I(1)] by (simp add: p(4))
    then have "contents p \<noteq> []" using room_pos by auto
    moreover have "contents p @ drop (tk_index s + ?k) (concat (tk_calls s)) = contents (tk_chan s) @ pending s"
      unfolding d pd p(4) by (metis append.assoc append_take_drop_id)
    moreover have "tk_index s + ?k \<le> length bs" using k idx by linarith
    ultimately show ?thesis using p by auto
  qed
qed

lemma woken_simps [simp]: "woken w = Ready \<longleftrightarrow> w \<noteq> Closed" "woken w \<noteq> Asleep" "woken w = Closed \<longleftrightarrow> w = Closed"
  by (cases w; simp)+

text \<open>Every turn keeps the invariant and leaves less to do.\<close>

lemma write_turn:
  assumes i: "talk_inv all s" and w: "tk_writer s = Ready" and c: "tk_calls s = bs # cs"
  shows "put bs (tk_index s) (tk_chan s) = (Returns k, p) \<Longrightarrow>
      t = s\<lparr>tk_chan := p, tk_calls := cs, tk_index := 0, tk_reader := woken (tk_reader s)\<rparr> \<Longrightarrow> talk_inv all t \<and> (t, s) \<in> work"
    and "put bs (tk_index s) (tk_chan s) = (Waits j, p) \<Longrightarrow>
      t = s\<lparr>tk_chan := p, tk_index := j, tk_writer := Asleep, tk_reader := woken (tk_reader s)\<rparr> \<Longrightarrow> talk_inv all t \<and> (t, s) \<in> work"
proof -
  note I = talk_invD [OF i] and W = write_call [OF i w c refl]
  have rc: "tk_reader s \<noteq> Closed" using I(12) w by auto
  have pd: "pending s = drop (tk_index s) (concat (tk_calls s))" by (simp add: pending_def)
  {
    assume r: "put bs (tk_index s) (tk_chan s) = (Returns k, p)"
      and t: "t = s\<lparr>tk_chan := p, tk_calls := cs, tk_index := 0, tk_reader := woken (tk_reader s)\<rparr>"
    from W r have p: "inv p" "ended p = ended (tk_chan s)" "contents p @ concat cs = contents (tk_chan s) @ pending s" by auto
    have "talk_inv all t" using p I(2,9) w rc unfolding talk_inv_def t by (auto simp: pending_def split: list.splits)
    moreover have "length (concat cs) \<le> length (pending s)" using I(3) [OF c] by (simp add: pd c)
    then have "to_write t < to_write s" by (simp add: to_write_def t c w pending_def)
    ultimately show "talk_inv all t \<and> (t, s) \<in> work" by (simp add: work_def)
  next
    assume r: "put bs (tk_index s) (tk_chan s) = (Waits j, p)"
      and t: "t = s\<lparr>tk_chan := p, tk_index := j, tk_writer := Asleep, tk_reader := woken (tk_reader s)\<rparr>"
    from W r have p: "inv p" "ended p = ended (tk_chan s)" "tk_index s \<le> j" "j \<le> length bs" "contents p \<noteq> []"
      "contents p @ drop j (concat (tk_calls s)) = contents (tk_chan s) @ pending s"
      "j = tk_index s \<longrightarrow> contents p = contents (tk_chan s)" by auto
    have inv: "talk_inv all t" using p I(2,9) w rc unfolding talk_inv_def t by (auto simp: pending_def c)
    have "(t, s) \<in> work"
    proof (cases "j = tk_index s")
      case True
      then have "tk_reader s \<noteq> Asleep" using p(5,7) I(7) by auto
      then have "woken (tk_reader s) = tk_reader s" by (cases "tk_reader s") simp_all
      with True p(7) w show ?thesis by (simp add: work_def to_write_def t pending_def ready_def)
    next
      case False
      then have "length (pending t) < length (pending s)" using p(3,4) by (simp add: pending_def t c)
      then show ?thesis using w by (simp add: work_def to_write_def t)
    qed
    with inv show "talk_inv all t \<and> (t, s) \<in> work" ..
  }
qed

lemma read_turn:
  assumes i: "talk_inv all s" and r: "tk_reader s = Ready" and n: "0 < n"
  shows "get n (tk_chan s) = (Returns (k, xs), p) \<Longrightarrow>
      t = s\<lparr>tk_chan := p, tk_got := tk_got s @ xs, tk_writer := woken (tk_writer s), tk_reader := (if xs = [] then Closed else Ready)\<rparr> \<Longrightarrow>
      talk_inv all t \<and> (t, s) \<in> work"
    and "get n (tk_chan s) = (Waits j, p) \<Longrightarrow> t = s\<lparr>tk_chan := p, tk_reader := Asleep\<rparr> \<Longrightarrow> talk_inv all t \<and> (t, s) \<in> work"
proof -
  note I = talk_invD [OF i]
  {
    assume g: "get n (tk_chan s) = (Returns (k, xs), p)" and t: "t = s\<lparr>tk_chan := p, tk_got := tk_got s @ xs,
      tk_writer := woken (tk_writer s), tk_reader := (if xs = [] then Closed else Ready)\<rparr>"
    have "contents (tk_chan s) \<noteq> [] \<or> ended (tk_chan s)" using get_wait [OF I(1)] g by fastforce
    from get_some [OF I(1) this, of n] g have p: "xs = take n (contents (tk_chan s))" "inv p"
      "contents p = drop n (contents (tk_chan s))" "ended p = ended (tk_chan s)" by auto
    have e: "xs = [] \<Longrightarrow> contents (tk_chan s) = []" using p(1) n by simp
    have ec: "xs = [] \<Longrightarrow> tk_writer s = Closed"
      using e \<open>contents (tk_chan s) \<noteq> [] \<or> ended (tk_chan s)\<close> I(9) by auto
    have pt: "pending t = pending s" by (simp add: pending_def t)
    have "tk_got t @ contents (tk_chan t) @ pending t = all" using I(2) p(1,3) pt by (simp add: t) (metis append.assoc append_take_drop_id)
    moreover have "case tk_calls t of [] \<Rightarrow> tk_index t = 0 | bs # cs \<Rightarrow> tk_index t \<le> length bs" using i by (cases "tk_calls s") (simp_all add: talk_inv_def t)
    moreover have "tk_reader t = Closed \<longrightarrow> contents (tk_chan t) = [] \<and> tk_writer t = Closed" using e ec p(3) by (simp add: t)
    ultimately have inv: "talk_inv all t" unfolding talk_inv_def using p(2,4) I(9,10) by (simp add: t)
    have "(t, s) \<in> work"
    proof (cases "xs = []")
      case True
      then show ?thesis using e ec p(3) pt r by (simp add: work_def to_write_def t ready_def)
    next
      case False
      then have "length (contents p) < length (contents (tk_chan s))" using p(1,3) n by (cases "contents (tk_chan s)") auto
      moreover have "to_write t = to_write s" using pt by (simp add: to_write_def t)
      ultimately show ?thesis by (simp add: work_def t)
    qed
    with inv show "talk_inv all t \<and> (t, s) \<in> work" ..
  next
    assume g: "get n (tk_chan s) = (Waits j, p)" and t: "t = s\<lparr>tk_chan := p, tk_reader := Asleep\<rparr>"
    have e: "contents (tk_chan s) = []" "\<not> ended (tk_chan s)" using get_some [OF I(1), of n] g by fastforce+
    then have "p = tk_chan s" using get_wait [OF I(1) e] g by auto
    moreover have "tk_writer s = Ready" using I(5,9) e by (cases "tk_writer s") auto
    ultimately have "talk_inv all t" using i e unfolding talk_inv_def t by (auto simp: pending_def split: list.split)
    moreover have "(t, s) \<in> work" using r \<open>p = tk_chan s\<close> by (simp add: work_def to_write_def t pending_def ready_def)
    ultimately show "talk_inv all t \<and> (t, s) \<in> work" ..
  }
qed

lemma close_turn:
  assumes i: "talk_inv all s" and w: "tk_writer s = Ready" and c: "tk_calls s = []"
    and t: "t = s\<lparr>tk_chan := shut (tk_chan s), tk_writer := Closed, tk_reader := woken (tk_reader s)\<rparr>"
  shows "talk_inv all t \<and> (t, s) \<in> work"
proof -
  note I = talk_invD [OF i] and S = shut_law [OF talk_invD(1) [OF i]]
  have "tk_reader s \<noteq> Closed" using I(12) w by auto
  then have "talk_inv all t" using S I(2,4) c unfolding talk_inv_def t by (auto simp: pending_def)
  moreover have "(t, s) \<in> work" using w by (simp add: work_def to_write_def t pending_def)
  ultimately show ?thesis ..
qed

lemma turn_law: "turn put get shut n s t \<Longrightarrow> 0 < n \<Longrightarrow> talk_inv all s \<Longrightarrow> talk_inv all t \<and> (t, s) \<in> work"
proof -
  assume s: "turn put get shut n s t" and n: "0 < n" and i: "talk_inv all s"
  from s show ?thesis
  proof cases
    case (write_done bs cs k p)
    from write_turn(1) [OF i this(2,3,4,1)] show ?thesis .
  next
    case (write_wait bs cs j p)
    from write_turn(2) [OF i this(2,3,4,1)] show ?thesis .
  next
    case close_write
    from close_turn [OF i this(2,3,1)] show ?thesis .
  next
    case (read_done k xs p)
    from read_turn(1) [OF i this(2) n this(3,1)] show ?thesis .
  next
    case (read_wait j p)
    from read_turn(2) [OF i this(2) n this(3,1)] show ?thesis .
  qed
qed

lemma start_inv: "inv p \<Longrightarrow> contents p = [] \<Longrightarrow> \<not> ended p \<Longrightarrow> talk_inv (concat cs) (talk_start p cs)"
  by (auto simp: talk_inv_def talk_start_def pending_def split: list.split)

lemma reach_inv: "(turn put get shut n)\<^sup>*\<^sup>* s t \<Longrightarrow> 0 < n \<Longrightarrow> talk_inv all s \<Longrightarrow> talk_inv all t"
  by (induction rule: rtranclp_induct) (use turn_law in blast)+

lemma wf_work: "wf work"
  by (simp add: work_def)

lemma no_endless_run:
  assumes n: "0 < n" and i: "talk_inv all (f 0)" and run: "\<And>k. turn put get shut n (f k) (f (Suc k))"
  shows False
proof -
  have inv: "talk_inv all (f k)" for k by (induction k) (use i turn_law [OF run n] in blast)+
  have "(f (Suc k), f k) \<in> work" for k using turn_law [OF run n inv] by blast
  with wf_work show False unfolding wf_iff_no_infinite_down_chain by blast
qed

lemma stuck_done:
  assumes i: "talk_inv all s" and n: "0 < n" and stuck: "\<nexists>t. turn put get shut n s t"
  shows "tk_got s = all" and "tk_writer s = Closed" and "tk_reader s = Closed"
proof -
  note I = talk_invD [OF i]
  have r: "tk_reader s \<noteq> Ready"
  proof
    assume r: "tk_reader s = Ready"
    obtain c p where "get n (tk_chan s) = (c, p)" by fastforce
    with r stuck show False using turn.read_done [of s get n] turn.read_wait [of s get n] by (cases c) (metis surj_pair)+
  qed
  have w: "tk_writer s \<noteq> Ready"
  proof
    assume w: "tk_writer s = Ready"
    show False
    proof (cases "tk_calls s")
      case Nil
      with w stuck show False using turn.close_write by metis
    next
      case (Cons bs cs)
      obtain c p where "put bs (tk_index s) (tk_chan s) = (c, p)" by fastforce
      with w Cons stuck show False using turn.write_done [of s bs cs put] turn.write_wait [of s bs cs put] by (cases c) metis+
    qed
  qed
  show wc: "tk_writer s = Closed"
  proof (cases "tk_writer s")
    case Asleep
    with I(5,7,11) r show ?thesis by (cases "tk_reader s") auto
  qed (use w in simp_all)
  show rc: "tk_reader s = Closed" using r I(8) wc by (cases "tk_reader s") auto
  show "tk_got s = all" using I(2,10,11) wc rc by (simp add: pending_def)
qed

end

end
