(* ===== verification/Console.thy ===== *)
theory Console
  imports Channel
begin

text \<open>
  xv6, \<open>console.c\<close>: the input ring with its three indices, what the interrupt handler does with a key, and the read that
  hands out what has been entered. The keys are what \<open>getc\<close> delivers until it has none; what is echoed is a list.
\<close>

definition INPUT_BUF :: uint where "INPUT_BUF = 128"
definition BACKSPACE :: nat where "BACKSPACE = 0x100"

record console =
  in_buf :: "byte list"
  in_r :: uint
  in_w :: uint
  in_e :: uint

definition in_at :: "console \<Rightarrow> uint \<Rightarrow> byte" where
  "in_at c i = in_buf c ! unat (i mod INPUT_BUF)"

text \<open>The keys: \<open>^P\<close>, \<open>^U\<close>, \<open>^H\<close> and delete, \<open>^D\<close>, the line ends.\<close>

definition C :: "nat \<Rightarrow> byte" where "C x = of_nat (x - 64)"
definition LF :: byte where "LF = 0x0A"
definition CR :: byte where "CR = 0x0D"

function kill_line :: "console \<Rightarrow> nat list \<times> console" where
  "kill_line c =
     (if in_e c \<noteq> in_w c \<and> in_at c (in_e c - 1) \<noteq> LF then
        (case kill_line (c\<lparr>in_e := in_e c - 1\<rparr>) of (out, c) \<Rightarrow> (BACKSPACE # out, c))
      else ([], c))"
  by pat_completeness auto
termination
proof (relation "measure (\<lambda>c. unat (in_e c - in_w c))")
  fix c :: console
  assume "in_e c \<noteq> in_w c \<and> in_at c (in_e c - 1) \<noteq> LF"
  then have "in_e c - in_w c \<noteq> 0" by simp
  then have "unat (in_e c - in_w c - 1) < unat (in_e c - in_w c)" by (simp add: unat_minus_one unat_gt_0)
  moreover have "in_e c - in_w c - 1 = in_e c - 1 - in_w c" by simp
  ultimately show "(c\<lparr>in_e := in_e c - 1\<rparr>, c) \<in> measure (\<lambda>c. unat (in_e c - in_w c))" by simp
qed simp

declare kill_line.simps [simp del]

text \<open>One key: what is echoed, whether the process table is to be printed, whether a reader is woken up, and the ring.\<close>

definition put_key :: "byte \<Rightarrow> console \<Rightarrow> nat list \<times> bool \<times> bool \<times> console" where
  "put_key c k =
     (if c \<noteq> 0 \<and> in_e k - in_r k < INPUT_BUF then
        let c = (if c = CR then LF else c);
            k = k\<lparr>in_buf := (in_buf k)[unat (in_e k mod INPUT_BUF) := c], in_e := in_e k + 1\<rparr>
        in if c = LF \<or> c = C 68 \<or> in_e k = in_r k + INPUT_BUF
           then ([unat c], False, True, k\<lparr>in_w := in_e k\<rparr>)
           else ([unat c], False, False, k)
      else ([], False, False, k))"

definition console_key :: "byte \<Rightarrow> console \<Rightarrow> nat list \<times> bool \<times> bool \<times> console" where
  "console_key c k =
     (if c = C 80 then ([], True, False, k)
      else if c = C 85 then (case kill_line k of (out, k) \<Rightarrow> (out, False, False, k))
      else if c = C 72 \<or> c = 0x7F then
        (if in_e k \<noteq> in_w k then ([BACKSPACE], False, False, k\<lparr>in_e := in_e k - 1\<rparr>) else ([], False, False, k))
      else put_key c k)"

fun consoleintr :: "byte list \<Rightarrow> console \<Rightarrow> nat list \<times> bool \<times> bool \<times> console" where
  "consoleintr [] k = ([], False, False, k)"
| "consoleintr (c # cs) k =
     (case console_key c k of (out, dump, wake, k) \<Rightarrow>
      case consoleintr cs k of (out', dump', wake', k) \<Rightarrow> (out @ out', dump \<or> dump', wake \<or> wake', k))"

text \<open>The loop of \<open>consoleread\<close> up to where it ends or has to wait: the bytes that it stored, and how many are still wanted.\<close>

fun console_take :: "nat \<Rightarrow> nat \<Rightarrow> console \<Rightarrow> bool \<times> byte list \<times> nat \<times> console" where
  "console_take target 0 k = (False, [], 0, k)"
| "console_take target (Suc n) k =
     (if in_r k = in_w k then (True, [], Suc n, k)
      else
        let c = in_at k (in_r k); k' = k\<lparr>in_r := in_r k + 1\<rparr> in
        if c = C 68 then (False, [], Suc n, if Suc n < target then k'\<lparr>in_r := in_r k' - 1\<rparr> else k')
        else if c = LF then (False, [c], n, k')
        else (case console_take target n k' of (wait, cs, m, k) \<Rightarrow> (wait, c # cs, m, k)))"

text \<open>A reader that finds nothing sleeps and goes on with what it still wants, unless it has been killed.\<close>

definition consoleread :: "bool \<Rightarrow> nat \<Rightarrow> nat \<Rightarrow> console \<Rightarrow> int pcall \<times> byte list \<times> console" where
  "consoleread killed target n k =
     (case console_take target n k of (wait, cs, m, k) \<Rightarrow>
        (if wait then (if killed then Returns (- 1) else Waits m) else Returns (int (target - m)), cs, k))"

text \<open>\<open>consolewrite\<close> puts every byte on the screen.\<close>

definition consolewrite :: "byte list \<Rightarrow> nat list \<times> int" where
  "consolewrite buf = (map unat buf, int (length buf))"

section \<open>The screen\<close>

record screen =
  crt :: "16 word list"
  cursor :: int

text \<open>The cells that scrolling moves up and clears; the cursor is in the first 25 lines.\<close>

definition scroll_up :: "screen \<Rightarrow> screen" where
  "scroll_up s =
     (let p = nat (cursor s) - 80; moved = take (23 * 80) (drop 80 (crt s)) @ drop (23 * 80) (crt s) in
      \<lparr>crt = take p moved @ replicate (24 * 80 - p) 0 @ drop (24 * 80) moved, cursor = cursor s - 80\<rparr>)"

definition crt_cell :: "nat \<Rightarrow> 16 word" where
  "crt_cell c = (of_nat c AND 0xFF) OR 0x0700"

definition cgaputc :: "nat \<Rightarrow> screen \<Rightarrow> screen res" where
  "cgaputc c s =
     (let s = (if c = 10 then s\<lparr>cursor := cursor s + 80 - cursor s mod 80\<rparr>
               else if c = BACKSPACE then (if 0 < cursor s then s\<lparr>cursor := cursor s - 1\<rparr> else s)
               else s\<lparr>crt := (crt s)[nat (cursor s) := crt_cell c], cursor := cursor s + 1\<rparr>) in
      if cursor s < 0 \<or> 25 * 80 < cursor s then Panic ''pos under/overflow''
      else
        let s = (if 24 \<le> cursor s div 80 then scroll_up s else s) in
        Ok (s\<lparr>crt := (crt s)[nat (cursor s) := crt_cell 32]\<rparr>))"

text \<open>\<open>consputc\<close>: what goes to the serial port, and the screen.\<close>

definition consputc :: "nat \<Rightarrow> screen \<Rightarrow> (nat list \<times> screen) res" where
  "consputc c s =
     rbind (cgaputc c s) (\<lambda>s. Ok (if c = BACKSPACE then [8, 32, 8] else [c], s))"

fun console_out :: "nat list \<Rightarrow> screen \<Rightarrow> (nat list \<times> screen) res" where
  "console_out [] s = Ok ([], s)"
| "console_out (c # cs) s =
     rbind (consputc c s) (\<lambda>(u, s). rbind (console_out cs s) (\<lambda>(v, s). Ok (u @ v, s)))"

end
