(* ===== verification/ConsoleThm.thy ===== *)
theory ConsoleThm
  imports Console
begin

text \<open>
  xv6, \<open>console.c\<close>: the ring is a line editor. What has been entered is a list of bytes and so is the line being edited;
  the three indices, which wrap around, are these two lists in one buffer.
\<close>

section \<open>The ring\<close>

definition ring_slot :: "uint \<Rightarrow> nat \<Rightarrow> nat" where
  "ring_slot r k = (unat r + k) mod 128"

lemma slot_of: "unat ((r + of_nat k) mod INPUT_BUF) = ring_slot r k"
proof -
  have "unat ((r + of_nat k) mod INPUT_BUF) = (unat r + k) mod 2 ^ 32 mod 128"
    by (simp add: INPUT_BUF_def unat_mod_distrib unat_word_ariths unsigned_of_nat take_bit_eq_mod mod_simps)
  also have "\<dots> = (unat r + k) mod 128" by (rule mod_mod_cancel) simp
  finally show ?thesis by (simp add: ring_slot_def)
qed

lemma ring_slot_less: "ring_slot r k < 128"
  by (simp add: ring_slot_def)

lemma ring_slot_distinct: "j < 128 \<Longrightarrow> k < 128 \<Longrightarrow> ring_slot r j = ring_slot r k \<Longrightarrow> j = k"
proof -
  have wlog: "j = k" if "j \<le> k" "k < 128" "(w + j) mod 128 = (w + k) mod 128" for j k w :: nat
  proof -
    have "(128 :: nat) dvd (w + k) - (w + j)" using that by (metis mod_eq_dvd_iff_nat add_le_cancel_left)
    then have "128 dvd k - j" by simp
    moreover have "k - j < 128" using that by simp
    ultimately have "k - j = 0" by (meson nat_dvd_not_less neq0_conv)
    with that show ?thesis by simp
  qed
  assume "j < 128" "k < 128" "ring_slot r j = ring_slot r k"
  then show "j = k" using wlog [of j k "unat r"] wlog [of k j "unat r"] by (cases "j \<le> k") (simp_all add: ring_slot_def)
qed

lemma ring_slot_Suc: "ring_slot (r + 1) k = ring_slot r (Suc k)"
  using slot_of [of "r + 1" k] slot_of [of r "Suc k"] by (simp add: add.assoc)

definition total :: "console \<Rightarrow> nat" where "total k = unat (in_e k - in_r k)"
definition entered :: "console \<Rightarrow> nat" where "entered k = unat (in_w k - in_r k)"

definition ring_bytes :: "console \<Rightarrow> byte list" where
  "ring_bytes k = map (\<lambda>i. in_buf k ! ring_slot (in_r k) i) [0..<total k]"

definition console_ok :: "console \<Rightarrow> bool" where
  "console_ok k \<longleftrightarrow> length (in_buf k) = 128 \<and> entered k \<le> total k \<and> total k \<le> 128 \<and> LF \<notin> set (drop (entered k) (ring_bytes k))"

lemma length_ring_bytes [simp]: "length (ring_bytes k) = total k"
  by (simp add: ring_bytes_def)

lemma nth_ring_bytes: "i < total k \<Longrightarrow> ring_bytes k ! i = in_buf k ! ring_slot (in_r k) i"
  by (simp add: ring_bytes_def)

lemma in_e_total: "in_e k = in_r k + of_nat (total k)"
  by (simp add: total_def)

lemma in_w_entered: "in_w k = in_r k + of_nat (entered k)"
  by (simp add: entered_def)

lemma in_at_slot: "in_at k (in_r k + of_nat i) = in_buf k ! ring_slot (in_r k) i"
  by (simp add: in_at_def slot_of)

lemma edit_empty: "console_ok k \<Longrightarrow> in_e k = in_w k \<longleftrightarrow> total k = entered k"
proof -
  assume k: "console_ok k"
  have "in_e k = in_w k \<longleftrightarrow> in_e k - in_r k = in_w k - in_r k" by simp
  also have "\<dots> \<longleftrightarrow> total k = entered k" by (simp only: total_def entered_def word_unat_eq_iff)
  finally show ?thesis .
qed

lemma entered_empty: "in_r k = in_w k \<longleftrightarrow> entered k = 0"
  by (auto simp: entered_def unat_eq_0)

section \<open>The line editor\<close>

type_synonym editor = "byte list \<times> byte list"

definition editor_of :: "console \<Rightarrow> editor" where
  "editor_of k = (take (entered k) (ring_bytes k), drop (entered k) (ring_bytes k))"

text \<open>The contract: a key changes the line, a line end, \<open>^D\<close> or the last free place enters it.\<close>

definition edit_key :: "byte \<Rightarrow> editor \<Rightarrow> editor" where
  "edit_key c = (\<lambda>(ready, line).
     if c = C 80 then (ready, line)
     else if c = C 85 then (ready, [])
     else if c = C 72 \<or> c = 0x7F then (ready, butlast line)
     else if c \<noteq> 0 \<and> length ready + length line < 128 then
       let b = (if c = CR then LF else c); line = line @ [b] in
       if b = LF \<or> b = C 68 \<or> length ready + length line = 128 then (ready @ line, []) else (ready, line)
     else (ready, line))"

text \<open>A read takes bytes up to a line end, which it delivers, or a \<open>^D\<close>, which it drops when it is the first of the read.\<close>

fun edit_take :: "nat \<Rightarrow> nat \<Rightarrow> byte list \<Rightarrow> bool \<times> byte list \<times> nat \<times> byte list" where
  "edit_take target 0 ready = (False, [], 0, ready)"
| "edit_take target (Suc n) [] = (True, [], Suc n, [])"
| "edit_take target (Suc n) (c # ready) =
     (if c = C 68 then (False, [], Suc n, if Suc n < target then c # ready else ready)
      else if c = LF then (False, [c], n, ready)
      else (case edit_take target n ready of (wait, cs, m, ready) \<Rightarrow> (wait, c # cs, m, ready)))"

section \<open>The ring implements the editor\<close>

lemma shrink:
  assumes k: "console_ok k" and n: "entered k \<le> n" "n \<le> total k"
  shows "console_ok (k\<lparr>in_e := in_r k + of_nat n\<rparr>)" and
    "editor_of (k\<lparr>in_e := in_r k + of_nat n\<rparr>) = (take (entered k) (ring_bytes k), take (n - entered k) (drop (entered k) (ring_bytes k)))"
proof -
  let ?k = "k\<lparr>in_e := in_r k + of_nat n\<rparr>"
  have t: "total ?k = n" using k n by (simp add: total_def unsigned_of_nat take_bit_nat_eq_self console_ok_def)
  have e: "entered ?k = entered k" by (simp add: entered_def)
  have r: "ring_bytes ?k = take n (ring_bytes k)" using n(2) by (simp add: ring_bytes_def t take_map)
  show "editor_of ?k = (take (entered k) (ring_bytes k), take (n - entered k) (drop (entered k) (ring_bytes k)))"
    using n by (simp add: editor_of_def e r min_absorb1 drop_take)
  have "LF \<notin> set (drop (entered k) (take n (ring_bytes k)))"
    using k by (auto simp: console_ok_def drop_take dest: in_set_takeD)
  then show "console_ok ?k" using k n by (simp add: console_ok_def t e r)
qed

lemma kill_line_edit:
  "console_ok k \<Longrightarrow> kill_line k = (out, k') \<Longrightarrow>
     console_ok k' \<and> editor_of k' = (fst (editor_of k), []) \<and> out = replicate (total k - entered k) BACKSPACE"
proof (induction "total k - entered k" arbitrary: k out k')
  case 0
  then have "total k = entered k" by (simp add: console_ok_def)
  then show ?case using 0 edit_empty [of k] by (subst (asm) kill_line.simps) (simp add: editor_of_def)
next
  case (Suc n)
  have lt: "entered k < total k" using Suc.hyps(2) by linarith
  define m where "m = total k - 1"
  have m: "total k = Suc m" "entered k \<le> m" "m \<le> total k" using lt by (simp_all add: m_def)
  have e1: "in_e k - 1 = in_r k + of_nat m" using in_e_total [of k] m(1) by simp
  have ne: "in_e k \<noteq> in_w k" using edit_empty [OF Suc.prems(1)] lt by simp
  have "in_buf k ! ring_slot (in_r k) m = drop (entered k) (ring_bytes k) ! (m - entered k)" using m by (simp add: ring_bytes_def del: upt_Suc)
  moreover have "m - entered k < length (drop (entered k) (ring_bytes k))" using m by simp
  ultimately have "in_buf k ! ring_slot (in_r k) m \<in> set (drop (entered k) (ring_bytes k))" by (metis nth_mem)
  then have lf: "in_at k (in_e k - 1) \<noteq> LF" using Suc.prems(1) unfolding e1 in_at_slot by (auto simp: console_ok_def)
  define k1 where "k1 = k\<lparr>in_e := in_e k - 1\<rparr>"
  have k1: "console_ok k1" "editor_of k1 = (take (entered k) (ring_bytes k), take (m - entered k) (drop (entered k) (ring_bytes k)))"
    using shrink [OF Suc.prems(1) m(2,3)] unfolding k1_def e1 by simp_all
  have t1: "total k1 = m" "entered k1 = entered k"
    using m Suc.prems(1) by (simp_all add: k1_def total_def entered_def e1 [unfolded diff_eq_eq] unsigned_of_nat take_bit_nat_eq_self console_ok_def)
  obtain out1 k2 where k2: "kill_line k1 = (out1, k2)" by (cases "kill_line k1")
  have eq: "out = BACKSPACE # out1" "k' = k2"
    using Suc.prems(2) ne lf k2 by (subst (asm) kill_line.simps, simp add: k1_def)+
  have "console_ok k2 \<and> editor_of k2 = (fst (editor_of k1), []) \<and> out1 = replicate (total k1 - entered k1) BACKSPACE"
    by (rule Suc.hyps(1) [OF _ k1(1) k2]) (use Suc.hyps(2) t1 m in simp)
  then show ?case using k1(2) t1 m eq by (simp add: editor_of_def Suc_diff_le)
qed


lemma append_byte:
  fixes b :: byte
  assumes k: "console_ok k" and n: "total k < 128"
  defines "k' \<equiv> k\<lparr>in_buf := (in_buf k)[unat (in_e k mod INPUT_BUF) := b], in_e := in_e k + 1\<rparr>"
  shows "total k' = Suc (total k)" and "entered k' = entered k" and "ring_bytes k' = ring_bytes k @ [b]" and "length (in_buf k') = 128"
proof -
  have slot: "unat (in_e k mod INPUT_BUF) = ring_slot (in_r k) (total k)" using slot_of [of "in_r k" "total k"] in_e_total [of k] by simp
  have "in_e k' - in_r k' = of_nat (Suc (total k))" by (simp add: k'_def total_def)
  then show t: "total k' = Suc (total k)" using n unfolding total_def [of k'] by (simp add: unsigned_of_nat take_bit_nat_eq_self del: of_nat_Suc)
  show "entered k' = entered k" by (simp add: k'_def entered_def)
  show "length (in_buf k') = 128" using k by (simp add: k'_def console_ok_def)
  have same: "in_buf k' ! ring_slot (in_r k) i = in_buf k ! ring_slot (in_r k) i" if "i < total k" for i
  proof -
    have "ring_slot (in_r k) (total k) \<noteq> ring_slot (in_r k) i" using ring_slot_distinct [of i "total k" "in_r k"] that n by auto
    then show ?thesis by (simp add: k'_def slot)
  qed
  have last: "in_buf k' ! ring_slot (in_r k) (total k) = b" using k ring_slot_less by (simp add: k'_def slot console_ok_def)
  have "in_r k' = in_r k" by (simp add: k'_def)
  then show "ring_bytes k' = ring_bytes k @ [b]" using same last by (simp add: ring_bytes_def t)
qed

lemma room: "console_ok k \<Longrightarrow> in_e k - in_r k < INPUT_BUF \<longleftrightarrow> total k < 128"
  by (simp add: INPUT_BUF_def word_less_nat_alt total_def)

lemma full: "console_ok k \<Longrightarrow> in_e k = in_r k + INPUT_BUF \<longleftrightarrow> total k = 128"
proof -
  have "in_e k = in_r k + INPUT_BUF \<longleftrightarrow> in_e k - in_r k = 128" by (auto simp: INPUT_BUF_def algebra_simps)
  then show ?thesis by (simp add: total_def word_unat_eq_iff)
qed

lemma enter:
  assumes "length (in_buf k) = 128" "total k \<le> 128"
  shows "console_ok (k\<lparr>in_w := in_e k\<rparr>)" and "editor_of (k\<lparr>in_w := in_e k\<rparr>) = (ring_bytes k, [])"
proof -
  have e: "entered (k\<lparr>in_w := in_e k\<rparr>) = total k" "total (k\<lparr>in_w := in_e k\<rparr>) = total k" "ring_bytes (k\<lparr>in_w := in_e k\<rparr>) = ring_bytes k"
    by (simp_all add: entered_def total_def ring_bytes_def)
  show "console_ok (k\<lparr>in_w := in_e k\<rparr>)" "editor_of (k\<lparr>in_w := in_e k\<rparr>) = (ring_bytes k, [])"
    using assms by (simp_all add: console_ok_def editor_of_def e)
qed

lemma editor_parts: "console_ok k \<Longrightarrow> editor_of k = (ready, line) \<Longrightarrow>
    ring_bytes k = ready @ line \<and> length ready = entered k \<and> total k = length ready + length line \<and> LF \<notin> set line"
  by (auto simp: editor_of_def console_ok_def)

lemma put_key_edit:
  assumes k: "console_ok k" and p: "put_key c k = (out, dump, wake, k')" and e: "editor_of k = (ready, line)"
  shows "console_ok k' \<and> editor_of k' =
    (if c \<noteq> 0 \<and> length ready + length line < 128 then
       let b = (if c = CR then LF else c); line = line @ [b] in
       if b = LF \<or> b = C 68 \<or> length ready + length line = 128 then (ready @ line, []) else (ready, line)
     else (ready, line))"
proof (cases "c \<noteq> 0 \<and> length ready + length line < 128")
  case True
  note parts = editor_parts [OF k e]
  define b where "b = (if c = CR then LF else c)"
  define k1 where "k1 = k\<lparr>in_buf := (in_buf k)[unat (in_e k mod INPUT_BUF) := b], in_e := in_e k + 1\<rparr>"
  have t: "total k < 128" using True parts by simp
  note k1 = append_byte [OF k t, of b, folded k1_def]
  have rb: "ring_bytes k1 = ready @ line @ [b]" using k1(3) parts by simp
  have room: "in_e k - in_r k < INPUT_BUF" using room [OF k] t by simp
  have ends: "in_e k1 = in_e k + 1" "in_r k1 = in_r k" by (simp_all add: k1_def)
  have full1: "in_e k + 1 = in_r k + INPUT_BUF \<longleftrightarrow> length ready + length (line @ [b]) = 128"
  proof -
    have "in_e k + 1 = in_r k + INPUT_BUF \<longleftrightarrow> in_e k1 - in_r k1 = 128" unfolding ends by (auto simp: INPUT_BUF_def algebra_simps)
    also have "\<dots> \<longleftrightarrow> total k1 = 128" by (simp add: total_def word_unat_eq_iff)
    finally show ?thesis using k1(1) parts by simp
  qed
  have k': "k' = (if b = LF \<or> b = C 68 \<or> in_e k + 1 = in_r k + INPUT_BUF then k1\<lparr>in_w := in_e k + 1\<rparr> else k1)"
    using p True room by (auto simp: put_key_def Let_def b_def [symmetric] k1_def [symmetric] ends split: if_splits)
  show ?thesis
  proof (cases "b = LF \<or> b = C 68 \<or> length ready + length (line @ [b]) = 128")
    case yes: True
    then have "k' = k1\<lparr>in_w := in_e k1\<rparr>" using k' full1 ends by simp
    moreover have "total k1 \<le> 128" using k1(1) t by simp
    ultimately show ?thesis using enter [OF k1(4)] rb True yes by (simp add: Let_def b_def [symmetric])
  next
    case no: False
    then have "k' = k1" using k' full1 by simp
    moreover have "editor_of k1 = (ready, line @ [b])" using parts by (simp add: editor_of_def k1(2) rb)
    moreover have "console_ok k1" using k k1 t no parts by (auto simp: console_ok_def rb)
    ultimately show ?thesis using True no by (simp add: Let_def b_def [symmetric])
  qed
next
  case False
  then have "\<not> (c \<noteq> 0 \<and> in_e k - in_r k < INPUT_BUF)" using room [OF k] editor_parts [OF k e] by simp
  then show ?thesis using False p k e by (auto simp: put_key_def)
qed

lemma console_key_edit:
  assumes k: "console_ok k" and p: "console_key c k = (out, dump, wake, k')"
  shows "console_ok k' \<and> editor_of k' = edit_key c (editor_of k)"
proof -
  obtain ready line where e: "editor_of k = (ready, line)" by (cases "editor_of k")
  note parts = editor_parts [OF k e]
  consider (dump) "c = C 80" | (kill) "c \<noteq> C 80" "c = C 85" | (erase) "c \<noteq> C 80" "c \<noteq> C 85" "c = C 72 \<or> c = 0x7F"
    | (put) "c \<noteq> C 80" "c \<noteq> C 85" "\<not> (c = C 72 \<or> c = 0x7F)" by blast
  then show ?thesis
  proof cases
    case dump
    then show ?thesis using p k e by (simp add: console_key_def edit_key_def)
  next
    case kill
    obtain o1 k1 where k1: "kill_line k = (o1, k1)" by (cases "kill_line k")
    then show ?thesis using kill p kill_line_edit [OF k k1] e by (simp add: console_key_def edit_key_def)
  next
    case erase
    show ?thesis
    proof (cases "in_e k = in_w k")
      case True
      then show ?thesis using erase p k e edit_empty [OF k] parts by (simp add: console_key_def edit_key_def)
    next
      case False
      then have lt: "entered k < total k" using edit_empty [OF k] k by (auto simp: console_ok_def)
      then have e1: "in_e k - 1 = in_r k + of_nat (total k - 1)" using in_e_total [of k] by (simp add: of_nat_diff)
      have "k' = k\<lparr>in_e := in_r k + of_nat (total k - 1)\<rparr>" using erase p False unfolding e1 [symmetric] by (simp add: console_key_def)
      moreover have "take (total k - 1 - entered k) (drop (entered k) (ring_bytes k)) = butlast line"
        using e parts by (auto simp: editor_of_def butlast_conv_take)
      ultimately show ?thesis using erase shrink [OF k, of "total k - 1"] lt e by (simp add: edit_key_def editor_of_def)
    qed
  next
    case put
    have pk: "put_key c k = (out, dump, wake, k')" using p put by (simp add: console_key_def)
    show ?thesis unfolding e edit_key_def prod.case using put_key_edit [OF k pk e] put by (simp only: if_False)
  qed
qed


section \<open>Reading\<close>

lemma drop_byte:
  assumes k: "console_ok k" and e: "editor_of k = (c # ready, line)"
  shows "in_r k \<noteq> in_w k" "in_at k (in_r k) = c" "console_ok (k\<lparr>in_r := in_r k + 1\<rparr>)"
    "editor_of (k\<lparr>in_r := in_r k + 1\<rparr>) = (ready, line)"
proof -
  let ?k = "k\<lparr>in_r := in_r k + 1\<rparr>"
  note parts = editor_parts [OF k e]
  have n: "0 < entered k" "0 < total k" using parts by auto
  show "in_r k \<noteq> in_w k" using entered_empty [of k] n by simp
  have "ring_bytes k ! 0 = in_buf k ! ring_slot (in_r k) 0" using n(2) by (simp add: ring_bytes_def)
  then show c: "in_at k (in_r k) = c" using parts in_at_slot [of k 0] by simp
  have sel: "in_e ?k = in_e k" "in_r ?k = in_r k + 1" "in_w ?k = in_w k" by simp_all
  have t: "total ?k = total k - 1"
  proof -
    have eq: "in_e k - (in_r k + 1) = in_e k - in_r k - 1" by simp
    have ne: "in_e k - in_r k \<noteq> 0" using n(2) by (auto simp: total_def)
    show ?thesis unfolding total_def sel eq by (rule unat_minus_one [OF ne])
  qed
  have w: "entered ?k = entered k - 1"
  proof -
    have eq: "in_w k - (in_r k + 1) = in_w k - in_r k - 1" by simp
    have ne: "in_w k - in_r k \<noteq> 0" using n(1) by (auto simp: entered_def)
    show ?thesis unfolding entered_def sel eq by (rule unat_minus_one [OF ne])
  qed
  have "ring_bytes ?k = map (\<lambda>i. in_buf k ! ring_slot (in_r k) (Suc i)) [0..<total k - 1]" by (simp add: ring_bytes_def t ring_slot_Suc)
  also have "\<dots> = tl (ring_bytes k)"
    by (rule nth_equalityI) (simp_all add: nth_tl nth_ring_bytes)
  finally have r: "ring_bytes ?k = ready @ line" using parts by simp
  have "entered k = Suc (length ready)" using parts by simp
  then have l: "entered ?k = length ready" using w by simp
  then show "editor_of ?k = (ready, line)" using r by (simp add: editor_of_def)
  show "console_ok ?k" using k parts t l r by (auto simp: console_ok_def)
qed

lemma console_take_edit:
  "console_ok k \<Longrightarrow> editor_of k = (ready, line) \<Longrightarrow> console_take target n k = (wait, cs, m, k') \<Longrightarrow>
   \<exists>ready'. edit_take target n ready = (wait, cs, m, ready') \<and> console_ok k' \<and> editor_of k' = (ready', line)"
proof (induction target n k arbitrary: ready wait cs m k' rule: console_take.induct)
  case (1 target k)
  then show ?case by auto
next
  case (2 target n k)
  show ?case
  proof (cases ready)
    case Nil
    then have "in_r k = in_w k" using entered_empty [of k] editor_parts [OF 2(2,3)] by simp
    then show ?thesis using 2(2,3,4) Nil by auto
  next
    case (Cons c rs)
    note d = drop_byte [OF 2(2) 2(3) [unfolded Cons]]
    show ?thesis
    proof (cases "c = C 68")
      case True
      then show ?thesis using 2(2,3,4) Cons d by (auto simp: Let_def split: if_splits)
    next
      case nd: False
      show ?thesis
      proof (cases "c = LF")
        case True
        then show ?thesis using nd 2(4) Cons d by (auto simp: Let_def)
      next
        case False
        obtain w1 cs1 m1 k1 where t: "console_take target n (k\<lparr>in_r := in_r k + 1\<rparr>) = (w1, cs1, m1, k1)" by (metis prod_cases4)
        from 2(1) [OF d(1) refl refl _ _ d(3,4) t] obtain ready' where
          "edit_take target n rs = (w1, cs1, m1, ready') \<and> console_ok k1 \<and> editor_of k1 = (ready', line)"
          using nd False d(2) by auto
        then show ?thesis using 2(4) t nd False Cons d by (auto simp: Let_def)
      qed
    qed
  qed
qed


section \<open>Runs\<close>

text \<open>Keys that are typed and reads by a process that is not killed: what each read delivers, and how much it still wants when it waits.\<close>

datatype event = Keys "byte list" | Read nat nat

fun console_run :: "event list \<Rightarrow> console \<Rightarrow> (byte list \<times> int pcall) list" where
  "console_run [] k = []"
| "console_run (Keys cs # es) k = (case consoleintr cs k of (_, _, _, k) \<Rightarrow> console_run es k)"
| "console_run (Read target n # es) k = (case consoleread False target n k of (r, cs, k) \<Rightarrow> (cs, r) # console_run es k)"

fun editor_run :: "event list \<Rightarrow> editor \<Rightarrow> (byte list \<times> int pcall) list" where
  "editor_run [] e = []"
| "editor_run (Keys cs # es) e = editor_run es (fold edit_key cs e)"
| "editor_run (Read target n # es) (ready, line) =
     (case edit_take target n ready of (wait, cs, m, ready) \<Rightarrow>
        (cs, if wait then Waits m else Returns (int (target - m))) # editor_run es (ready, line))"

lemma consoleintr_edit:
  "console_ok k \<Longrightarrow> consoleintr cs k = (out, dump, wake, k') \<Longrightarrow> console_ok k' \<and> editor_of k' = fold edit_key cs (editor_of k)"
proof (induction cs arbitrary: k out dump wake)
  case (Cons c cs)
  obtain o1 d1 w1 k1 where c: "console_key c k = (o1, d1, w1, k1)" by (metis prod_cases4)
  obtain o2 d2 w2 k2 where cs: "consoleintr cs k1 = (o2, d2, w2, k2)" by (metis prod_cases4)
  have "k2 = k'" using Cons.prems(2) c cs by simp
  then show ?case using console_key_edit [OF Cons.prems(1) c] Cons.IH [of k1 o2 d2 w2] cs by simp
qed simp

definition console_start :: "byte list \<Rightarrow> console" where
  "console_start buf = \<lparr>in_buf = buf, in_r = 0, in_w = 0, in_e = 0\<rparr>"

text \<open>
  C10: the console is a line editor, however its indices have wrapped around: for every sequence of keys and reads, what each read
  delivers and whether it waits is what the editor says, in which \<open>^U\<close> empties the line, a backspace takes its last byte, a
  line end, \<open>^D\<close> or the last of the 128 places enters it, and a read takes one entered line at most and sees a \<open>^D\<close> as
  an empty one.
\<close>
theorem console_is_line_editor:
  "console_ok k \<Longrightarrow> console_run es k = editor_run es (editor_of k)"
proof (induction es arbitrary: k)
  case (Cons x es)
  show ?case
  proof (cases x)
    case (Keys cs)
    obtain o1 d1 w1 k1 where c: "consoleintr cs k = (o1, d1, w1, k1)" by (metis prod_cases4)
    then show ?thesis using Keys consoleintr_edit [OF Cons.prems c] Cons.IH [of k1] by simp
  next
    case (Read target n)
    obtain w cs m k1 where t: "console_take target n k = (w, cs, m, k1)" by (metis prod_cases4)
    obtain ready line where e: "editor_of k = (ready, line)" by (cases "editor_of k")
    obtain ready' where "edit_take target n ready = (w, cs, m, ready')" "console_ok k1" "editor_of k1 = (ready', line)"
      using console_take_edit [OF Cons.prems e t] by blast
    then show ?thesis using Read Cons.IH [of k1] t e by (simp add: consoleread_def)
  qed
qed simp

theorem console_is_line_editor_witness:
  "console_run [Keys [0x6C, 0x78, 0x7F, 0x73, 0x0D], Read 10 10] (console_start (replicate 128 0)) =
    [([0x6C, 0x73, 0x0A], Returns 3)]"
proof -
  have s: "total (console_start (replicate 128 0)) = 0" "entered (console_start (replicate 128 0)) = 0"
    by (simp_all add: console_start_def total_def entered_def)
  then have "console_ok (console_start (replicate 128 0))" "editor_of (console_start (replicate 128 0)) = ([], [])"
    by (simp_all add: console_ok_def editor_of_def ring_bytes_def) (simp add: console_start_def)
  moreover have "editor_run [Keys [0x6C, 0x78, 0x7F, 0x73, 0x0D], Read 10 10] ([], []) = [([0x6C, 0x73, 0x0A], Returns 3)]"
    by code_simp
  ultimately show ?thesis
    using console_is_line_editor [of "console_start (replicate 128 0)" "[Keys [0x6C, 0x78, 0x7F, 0x73, 0x0D], Read 10 10]"] by simp
qed


section \<open>The screen\<close>

text \<open>The cursor is in the first 24 lines, and every position that a step may reach is a cell.\<close>

definition screen_ok :: "screen \<Rightarrow> bool" where
  "screen_ok s \<longleftrightarrow> length (crt s) = 25 * 80 \<and> 0 \<le> cursor s \<and> cursor s < 24 * 80"

lemma div_80: "0 \<le> p \<Longrightarrow> 24 \<le> p div 80 \<longleftrightarrow> 1920 \<le> (p :: int)"
  by presburger

lemma scroll_cells:
  assumes "length (crt s) = 2000" "1920 \<le> cursor s" "cursor s \<le> 1920 + 80"
  shows "length (crt (scroll_up s)) = 2000" and "cursor (scroll_up s) = cursor s - 80"
    and "i < nat (cursor s) - 80 \<Longrightarrow> i < 1840 \<Longrightarrow> crt (scroll_up s) ! i = crt s ! (i + 80)"
  using assms by (simp_all add: scroll_up_def Let_def nth_append add.commute)

theorem cgaputc_ok: "screen_ok s \<Longrightarrow> \<exists>s'. cgaputc c s = Ok s' \<and> screen_ok s'"
proof -
  assume s: "screen_ok s"
  define t where "t = (if c = 10 then s\<lparr>cursor := cursor s + 80 - cursor s mod 80\<rparr>
     else if c = BACKSPACE then (if 0 < cursor s then s\<lparr>cursor := cursor s - 1\<rparr> else s)
     else s\<lparr>crt := (crt s)[nat (cursor s) := crt_cell c], cursor := cursor s + 1\<rparr>)"
  have m: "0 \<le> cursor s mod 80" "cursor s mod 80 < 80" by simp_all
  have "0 \<le> cursor s" "cursor s < 1920" using s by (simp_all add: screen_ok_def)
  then have line: "cursor s + 80 - cursor s mod 80 \<le> 1920" by presburger
  have t: "length (crt t) = 2000" "0 \<le> cursor t" "cursor t \<le> 1920"
    using s m line by (auto simp: t_def screen_ok_def)
  have c: "cgaputc c s = (if cursor t < 0 \<or> 25 * 80 < cursor t then Panic ''pos under/overflow''
     else let u = (if 24 \<le> cursor t div 80 then scroll_up t else t) in Ok (u\<lparr>crt := (crt u)[nat (cursor u) := crt_cell 32]\<rparr>))"
    by (simp only: cgaputc_def t_def [symmetric] Let_def)
  show ?thesis
  proof (cases "cursor t = 1920")
    case True
    then show ?thesis using c t scroll_cells [of t] by (simp add: Let_def screen_ok_def)
  next
    case False
    then have "\<not> 24 \<le> cursor t div 80" using t div_80 [of "cursor t"] by simp
    then show ?thesis using c t False by (simp add: Let_def screen_ok_def)
  qed
qed


lemma console_out_ok: "screen_ok s \<Longrightarrow> \<exists>u s'. console_out cs s = Ok (u, s') \<and> screen_ok s'"
proof (induction cs arbitrary: s)
  case (Cons c cs)
  obtain t where "cgaputc c s = Ok t" "screen_ok t" using cgaputc_ok [OF Cons.prems] by blast
  then show ?case using Cons.IH [of t] by (auto simp: consputc_def)
qed simp

text \<open>
  Nothing that is printed moves the cursor out of the first 24 lines: the panic about the position is never reached, whatever
  bytes, line ends and backspaces come, and the cells that are stored are cells of the screen.
\<close>
theorem screen_never_panics:
  assumes "screen_ok s"
  shows "\<exists>u s'. console_out cs s = Ok (u, s') \<and> length (crt s') = 25 * 80 \<and> 0 \<le> cursor s' \<and> cursor s' < 24 * 80"
  using console_out_ok [OF assms, of cs] by (auto simp: screen_ok_def)

theorem screen_never_panics_witness:
  "\<exists>u s'. console_out (replicate 30 10 @ [BACKSPACE, 65]) \<lparr>crt = replicate 2000 0, cursor = 0\<rparr> = Ok (u, s') \<and>
     length (crt s') = 25 * 80 \<and> 0 \<le> cursor s' \<and> cursor s' < 24 * 80"
  by (rule screen_never_panics) (simp add: screen_ok_def)

end
