(* ===== verification/Printf.thy ===== *)
theory Printf
  imports CPrelude
begin

text \<open>
  xv6, \<open>printf.c\<close>, the printing part of \<open>console.c\<close>, and \<open>atoi\<close> of \<open>ulib.c\<close>: the characters that are put out, in
  order. The buffer of \<open>printint\<close> has room for 16 characters; one more is outside of it. Signed arithmetic (the negation of the
  least int in \<open>printint\<close>, the sum in \<open>atoi\<close>) wraps around, as it does in the code the compiler makes for it; C leaves it open.
\<close>

definition upper_digits :: string where "upper_digits = ''0123456789ABCDEF''"
definition lower_digits :: string where "lower_digits = ''0123456789abcdef''"

text \<open>The loop that stores the digits, the lowest first, while there is room.\<close>

fun digits_loop :: "nat \<Rightarrow> string \<Rightarrow> uint \<Rightarrow> uint \<Rightarrow> string res" where
  "digits_loop 0 digits base x = Undef"
| "digits_loop (Suc room) digits base x =
     (if base = 0 \<or> length digits \<le> unat (x mod base) then Undef
      else if x div base = 0 then Ok [digits ! unat (x mod base)]
      else rbind (digits_loop room digits base (x div base)) (\<lambda>buf. Ok (digits ! unat (x mod base) # buf)))"

definition printint :: "string \<Rightarrow> uint \<Rightarrow> uint \<Rightarrow> bool \<Rightarrow> string res" where
  "printint digits xx base sg =
     (let neg = (sg \<and> xx <s 0); x = (if neg then - xx else xx) in
      rbind (digits_loop 16 digits base x) (\<lambda>buf.
        if \<not> neg then Ok (rev buf) else if length buf = 16 then Undef else Ok (rev (buf @ ''-''))))"

text \<open>The arguments behind the format: a word, a string, or a null pointer. One that is missing or of another type is read as
what happens to be there.\<close>

datatype va = Num uint | Str string | Null

fun print_d :: "string \<Rightarrow> uint \<Rightarrow> bool \<Rightarrow> va list \<Rightarrow> (string \<times> va list) res" where
  "print_d digits base sg (Num x # ap) = rbind (printint digits x base sg) (\<lambda>s. Ok (s, ap))"
| "print_d digits base sg ap = Undef"

fun print_s :: "va list \<Rightarrow> (string \<times> va list) res" where
  "print_s (Str s # ap) = Ok (s, ap)"
| "print_s (Null # ap) = Ok (''(null)'', ap)"
| "print_s ap = Undef"

fun print_c :: "va list \<Rightarrow> (string \<times> va list) res" where
  "print_c (Num x # ap) = Ok ([char_of (uint x)], ap)"
| "print_c ap = Undef"

text \<open>What the character behind a \<open>%\<close> prints, in the library and in the kernel.\<close>

definition conversion :: "char \<Rightarrow> va list \<Rightarrow> (string \<times> va list) res" where
  "conversion c ap =
     (if c = CHR ''d'' then print_d upper_digits 10 True ap
      else if c = CHR ''x'' \<or> c = CHR ''p'' then print_d upper_digits 16 False ap
      else if c = CHR ''s'' then print_s ap
      else if c = CHR ''c'' then print_c ap
      else if c = CHR ''%'' then Ok ([c], ap)
      else Ok ([CHR ''%'', c], ap))"

definition kernel_conversion :: "char \<Rightarrow> va list \<Rightarrow> (string \<times> va list) res" where
  "kernel_conversion c ap =
     (if c = CHR ''d'' then print_d lower_digits 10 True ap
      else if c = CHR ''x'' \<or> c = CHR ''p'' then print_d lower_digits 16 False ap
      else if c = CHR ''s'' then print_s ap
      else if c = CHR ''%'' then Ok ([c], ap)
      else Ok ([CHR ''%'', c], ap))"

text \<open>The state of \<open>printf\<close>: whether the last character was a \<open>%\<close>.\<close>

fun printf_from :: "bool \<Rightarrow> string \<Rightarrow> va list \<Rightarrow> string res" where
  "printf_from st [] ap = Ok []"
| "printf_from False (c # fmt) ap =
     (if c = CHR ''%'' then printf_from True fmt ap else rbind (printf_from False fmt ap) (\<lambda>s. Ok (c # s)))"
| "printf_from True (c # fmt) ap =
     rbind (conversion c ap) (\<lambda>(s, ap). rbind (printf_from False fmt ap) (\<lambda>t. Ok (s @ t)))"

definition printf :: "string \<Rightarrow> va list \<Rightarrow> string res" where
  "printf fmt ap = printf_from False fmt ap"

text \<open>The loop of \<open>cprintf\<close> reads the character behind a \<open>%\<close> itself.\<close>

fun cprintf :: "string \<Rightarrow> va list \<Rightarrow> string res" where
  "cprintf [] ap = Ok []"
| "cprintf [c] ap = (if c = CHR ''%'' then Ok [] else Ok [c])"
| "cprintf (c # d # fmt) ap =
     (if c \<noteq> CHR ''%'' then rbind (cprintf (d # fmt) ap) (\<lambda>s. Ok (c # s))
      else rbind (kernel_conversion d ap) (\<lambda>(s, ap). rbind (cprintf fmt ap) (\<lambda>t. Ok (s @ t))))"

section \<open>atoi\<close>

definition is_digit :: "char \<Rightarrow> bool" where
  "is_digit c \<longleftrightarrow> 48 \<le> (of_char c :: nat) \<and> (of_char c :: nat) \<le> 57"

fun atoi_from :: "uint \<Rightarrow> string \<Rightarrow> uint" where
  "atoi_from n [] = n"
| "atoi_from n (c # s) = (if is_digit c then atoi_from (n * 10 + of_char c - 48) s else n)"

definition atoi :: "string \<Rightarrow> uint" where
  "atoi s = atoi_from 0 s"

section \<open>Numerals\<close>

text \<open>The reference: the digits of a number, the lowest first, and the number that they are.\<close>

fun numeral_of :: "nat \<Rightarrow> nat \<Rightarrow> nat list" where
  "numeral_of b n = (if b \<le> 1 \<or> n < b then [n] else n mod b # numeral_of b (n div b))"

declare numeral_of.simps [simp del]

primrec number_of :: "nat \<Rightarrow> nat list \<Rightarrow> nat" where
  "number_of b [] = 0"
| "number_of b (d # ds) = d + b * number_of b ds"

lemma number_of_numeral: "number_of b (numeral_of b n) = n"
proof (induction b n rule: numeral_of.induct)
  case (1 b n)
  then show ?case by (subst numeral_of.simps) (cases "b \<le> 1 \<or> n < b", simp_all)
qed

lemma numeral_digits: "1 < b \<Longrightarrow> d \<in> set (numeral_of b n) \<Longrightarrow> d < b"
proof (induction b n rule: numeral_of.induct)
  case (1 b n)
  then show ?case by (subst (asm) (2) numeral_of.simps) (auto split: if_splits)
qed

lemma numeral_length: "1 < b \<Longrightarrow> n < b ^ k \<Longrightarrow> 0 < k \<Longrightarrow> length (numeral_of b n) \<le> k"
proof (induction k arbitrary: n)
  case (Suc k)
  show ?case
  proof (cases "n < b")
    case True
    then show ?thesis by (subst numeral_of.simps) simp
  next
    case False
    have "n div b < b ^ k" using Suc.prems by (simp add: div_less_iff_less_mult mult.commute)
    moreover have "0 < k" using False Suc.prems(2) by (cases k) auto
    ultimately have "length (numeral_of b (n div b)) \<le> k" using Suc.IH Suc.prems(1) by blast
    then show ?thesis using False Suc.prems(1) by (subst numeral_of.simps) simp
  qed
qed simp

lemma digits_loop_numeral:
  assumes "1 < b" "b \<le> length digits" "b < 2 ^ 32"
  shows "length (numeral_of b (unat x)) \<le> room \<Longrightarrow> digits_loop room digits (of_nat b) x = Ok (map (nth digits) (numeral_of b (unat x)))"
proof (induction room arbitrary: x)
  case 0
  then show ?case by (subst (asm) numeral_of.simps) (simp split: if_splits)
next
  case (Suc room)
  have b: "unat (of_nat b :: uint) = b" using assms(3) by (simp add: unsigned_of_nat take_bit_nat_eq_self)
  have m: "unat (x mod of_nat b) = unat x mod b" "unat (x div of_nat b) = unat x div b" by (simp_all add: unat_mod_distrib unat_div_distrib b)
  have nz: "(of_nat b :: uint) \<noteq> 0" using b assms(1) by (metis unat_0 not_one_less_zero)
  have lt: "unat x mod b < length digits" using assms(1,2) less_le_trans [of "unat x mod b" b] by simp
  have z: "x div of_nat b = 0 \<longleftrightarrow> unat x < b" using m(2) assms(1) by (metis unat_eq_0 div_eq_0_iff not_one_less_zero)
  show ?case
  proof (cases "unat x < b")
    case True
    then have "numeral_of b (unat x) = [unat x]" by (subst numeral_of.simps) simp
    then show ?thesis using True nz lt z m by simp
  next
    case False
    then have n: "numeral_of b (unat x) = unat x mod b # numeral_of b (unat (x div of_nat b))"
      using assms(1) by (subst numeral_of.simps) (simp add: m)
    then have "digits_loop room digits (of_nat b) (x div of_nat b) = Ok (map (nth digits) (numeral_of b (unat (x div of_nat b))))"
      using Suc.prems by (intro Suc.IH) simp
    then show ?thesis using False nz lt z n m by simp
  qed
qed


definition decimal :: "int \<Rightarrow> string" where
  "decimal i = (if i < 0 then ''-'' else []) @ rev (map (nth lower_digits) (numeral_of 10 (nat \<bar>i\<bar>)))"

definition hexadecimal :: "string \<Rightarrow> nat \<Rightarrow> string" where
  "hexadecimal digits n = rev (map (nth digits) (numeral_of 16 n))"

lemma unat_less_pow: "unat (x :: uint) < 2 ^ 32"
  using unsigned_less [of x, where ?'a = nat] by simp

lemma unat_abs: "x <s 0 \<Longrightarrow> unat (- x :: uint) = nat \<bar>sint x\<bar>"
proof -
  assume "x <s 0"
  then have n: "sint x < 0" by (simp add: word_sless_alt)
  have "- sint x \<le> 2 ^ 31" using sint_ge [of x] by simp
  moreover have "- x = word_of_int (- sint x)" by simp
  then have "uint (- x) = (- sint x) mod 2 ^ 32" by (simp only: uint_word_of_int) simp
  ultimately have "uint (- x) = - sint x" using n by (simp add: mod_pos_pos_trivial)
  then show ?thesis using n by (simp add: unat_eq_nat_uint)
qed

lemma unat_nonneg: "\<not> x <s 0 \<Longrightarrow> unat (x :: uint) = nat \<bar>sint x\<bar>"
  using sint_nonneg_32 [of x] by (simp add: word_sless_alt not_less)


lemma printint_decimal:
  assumes "digits = upper_digits \<or> digits = lower_digits"
  shows "printint digits x 10 True = Ok (decimal (sint x))"
proof -
  have len: "10 \<le> length digits" using assms by (auto simp: upper_digits_def lower_digits_def)
  have same: "map (nth digits) (numeral_of 10 n) = map (nth lower_digits) (numeral_of 10 n)" for n
  proof (rule map_cong [OF refl])
    fix d
    assume "d \<in> set (numeral_of 10 n)"
    then have "d < 10" by (rule numeral_digits [rotated]) simp
    then have "d \<in> {0, 1, 2, 3, 4, 5, 6, 7, 8, 9}" by auto
    then show "digits ! d = lower_digits ! d" using assms by (auto simp: upper_digits_def lower_digits_def)
  qed
  have l10: "length (numeral_of 10 (unat y)) \<le> 10" for y :: uint
    by (rule numeral_length) (use unat_less_pow [of y] in simp_all)
  have d: "digits_loop 16 digits 10 y = Ok (map (nth digits) (numeral_of 10 (unat y)))" for y
    using digits_loop_numeral [of 10 digits y 16] len l10 [of y] by simp
  show ?thesis
  proof (cases "x <s 0")
    case True
    then have "sint x < 0" by (simp add: word_sless_alt)
    then show ?thesis using True d [of "- x"] l10 [of "- x"] unat_abs [OF True]
      by (simp add: printint_def Let_def same decimal_def)
  next
    case False
    then have "\<not> sint x < 0" by (simp add: word_sless_alt)
    then show ?thesis using False d [of x] unat_nonneg [OF False] by (simp add: printint_def Let_def same decimal_def)
  qed
qed

lemma printint_hex:
  assumes "16 \<le> length digits"
  shows "printint digits x 16 False = Ok (hexadecimal digits (unat x))"
proof -
  have "length (numeral_of 16 (unat x)) \<le> 8" by (rule numeral_length) (use unat_less_pow [of x] in simp_all)
  then show ?thesis using digits_loop_numeral [of 16 digits x 16] assms by (simp add: printint_def Let_def hexadecimal_def)
qed

lemma atoi_numeral:
  "\<forall>d \<in> set ds. d < 10 \<Longrightarrow> atoi_from 0 (rev (map (nth lower_digits) ds) @ s) = atoi_from (of_nat (number_of 10 ds)) s"
proof (induction ds arbitrary: s)
  case (Cons d ds)
  then have "d \<in> {0, 1, 2, 3, 4, 5, 6, 7, 8, 9}" by auto
  then have "is_digit (lower_digits ! d)" "of_char (lower_digits ! d) = (48 + of_nat d :: uint)"
    by (auto simp: lower_digits_def is_digit_def)
  then show ?case using Cons by (simp add: algebra_simps)
qed simp

text \<open>
  C21: the library prints every \<open>int\<close>, the least one included, as its decimal numeral without leaving its buffer. \<open>atoi\<close> reads
  the numeral of every one that is not negative back, and takes no sign: the numeral of a negative one reads as 0. Signed
  arithmetic wraps around, as the compiled code does.
\<close>
theorem atoi_printint:
  "printint upper_digits x 10 True = Ok (decimal (sint x)) \<and> atoi (decimal (sint x)) = (if 0 \<le> sint x then x else 0)"
proof -
  have "atoi (decimal (sint x)) = x" if p: "0 \<le> sint x"
  proof -
    let ?ds = "numeral_of 10 (unat x)"
    have "\<forall>d \<in> set ?ds. d < 10" using numeral_digits [of 10] by simp
    then have "atoi_from 0 (rev (map (nth lower_digits) ?ds) @ []) = atoi_from (of_nat (number_of 10 ?ds)) []" by (rule atoi_numeral)
    then have "atoi_from 0 (rev (map (nth lower_digits) ?ds)) = x" by (simp add: number_of_numeral)
    moreover have "nat \<bar>sint x\<bar> = unat x" using sint_nonneg_32 [OF p] by simp
    ultimately show ?thesis using p by (simp add: atoi_def decimal_def)
  qed
  moreover have "atoi (decimal (sint x)) = 0" if "\<not> 0 \<le> sint x"
    using that by (simp add: atoi_def decimal_def is_digit_def)
  ultimately show ?thesis using printint_decimal [of upper_digits x] by simp
qed

theorem atoi_printint_witness:
  "printint upper_digits 1024 10 True = Ok ''1024'' \<and> atoi ''1024'' = 1024 \<and> printint upper_digits (- 5) 10 True = Ok ''-5'' \<and> atoi ''-5'' = 0"
proof -
  have "decimal 1024 = ''1024''" "decimal (- 5) = ''-5''"
    by (simp_all add: decimal_def lower_digits_def numeral_of.simps [of 10 1024] numeral_of.simps [of 10 102] numeral_of.simps [of 10 10]
        numeral_of.simps [of 10 5] numeral_of.simps [of 10 "Suc 0"])
  then show ?thesis using atoi_printint [of 1024] atoi_printint [of "- 5"] by simp
qed

section \<open>Formats\<close>

datatype piece = Plain char | Percent | Decimal uint | Hex uint | Text string

primrec spell :: "piece \<Rightarrow> string" where
  "spell (Plain c) = [c]"
| "spell Percent = ''%%''"
| "spell (Decimal x) = ''%d''"
| "spell (Hex x) = ''%x''"
| "spell (Text s) = ''%s''"

primrec arg_of :: "piece \<Rightarrow> va list" where
  "arg_of (Plain c) = []"
| "arg_of Percent = []"
| "arg_of (Decimal x) = [Num x]"
| "arg_of (Hex x) = [Num x]"
| "arg_of (Text s) = [Str s]"

primrec print_of :: "string \<Rightarrow> piece \<Rightarrow> string" where
  "print_of digits (Plain c) = [c]"
| "print_of digits Percent = ''%''"
| "print_of digits (Decimal x) = decimal (sint x)"
| "print_of digits (Hex x) = hexadecimal digits (unat x)"
| "print_of digits (Text s) = s"

lemma printf_from_piece:
  "p \<noteq> Plain (CHR ''%'') \<Longrightarrow>
   printf_from False (spell p @ fmt) (arg_of p @ ap) = rbind (printf_from False fmt ap) (\<lambda>t. Ok (print_of upper_digits p @ t))"
  by (cases p) (simp_all add: conversion_def printint_decimal printint_hex upper_digits_def [THEN arg_cong, of length])


lemma cprintf_plain: "c \<noteq> CHR ''%'' \<Longrightarrow> cprintf (c # fmt) ap = rbind (cprintf fmt ap) (\<lambda>s. Ok (c # s))"
  by (cases fmt) simp_all

lemma cprintf_piece:
  "p \<noteq> Plain (CHR ''%'') \<Longrightarrow>
   cprintf (spell p @ fmt) (arg_of p @ ap) = rbind (cprintf fmt ap) (\<lambda>t. Ok (print_of lower_digits p @ t))"
  by (cases p) (simp_all add: cprintf_plain kernel_conversion_def printint_decimal printint_hex lower_digits_def [THEN arg_cong, of length])

text \<open>
  \<open>printf\<close> and \<open>cprintf\<close> print the pieces of a format in order, each conversion with the next argument: the decimal
  numeral of a word, its hexadecimal one, the string, a single \<open>%\<close> for two. They differ only in the case of the digits.
\<close>
theorem printf_prints_pieces:
  assumes "\<forall>p \<in> set ps. p \<noteq> Plain (CHR ''%'')"
  shows "printf (concat (map spell ps)) (concat (map arg_of ps)) = Ok (concat (map (print_of upper_digits) ps)) \<and>
    cprintf (concat (map spell ps)) (concat (map arg_of ps)) = Ok (concat (map (print_of lower_digits) ps))"
  using assms by (induction ps) (simp_all add: printf_def printf_from_piece cprintf_piece)

theorem printf_prints_pieces_witness:
  "printf (''pid '' @ ''%d'' @ '': '' @ ''%s'') [Num 7, Str ''sh''] = Ok (''pid '' @ ''7'' @ '': '' @ ''sh'') \<and>
   cprintf (''pid '' @ ''%d'' @ '': '' @ ''%s'') [Num 7, Str ''sh''] = Ok (''pid '' @ ''7'' @ '': '' @ ''sh'')"
proof -
  have "decimal 7 = ''7''" by (simp add: decimal_def lower_digits_def numeral_of.simps [of 10 7])
  then show ?thesis
    using printf_prints_pieces [of "map Plain ''pid '' @ [Decimal 7] @ map Plain '': '' @ [Text ''sh'']"] by simp
qed

end
