(* ===== verification/UserProgs.thy ===== *)
theory UserProgs
  imports Printf
begin

text \<open>
  xv6, small user programs: \<open>wc.c\<close>, \<open>cat.c\<close>, \<open>echo.c\<close> and the names of \<open>ls.c\<close>. The input of a program is the list of the
  pieces that its reads deliver, up to the first read that delivers nothing, and whether the last read fails; a file that cannot be opened is None. The result is what is
  printed on the standard output, and whether the program goes on with its next argument.
\<close>

type_synonym input = "string list \<times> bool"

section \<open>wc\<close>

record counts =
  wc_l :: uint
  wc_w :: uint
  wc_c :: uint
  wc_inword :: bool

definition wc_blanks :: string where "wc_blanks = [CHR 0x20, CHR 0x0D, CHR 0x09, CHR 0x0A, CHR 0x0B]"

definition wc_char :: "counts \<Rightarrow> char \<Rightarrow> counts" where
  "wc_char k b =
     (let k = k\<lparr>wc_c := wc_c k + 1\<rparr>; k = (if b = CHR 0x0A then k\<lparr>wc_l := wc_l k + 1\<rparr> else k) in
      if b \<in> set wc_blanks then k\<lparr>wc_inword := False\<rparr>
      else if \<not> wc_inword k then k\<lparr>wc_w := wc_w k + 1, wc_inword := True\<rparr>
      else k)"

fun wc_pieces :: "counts \<Rightarrow> string list \<Rightarrow> counts" where
  "wc_pieces k [] = k"
| "wc_pieces k (p # ps) = wc_pieces (foldl wc_char k p) ps"

definition wc :: "input \<Rightarrow> string \<Rightarrow> (string \<times> bool) res" where
  "wc = (\<lambda>(ps, fails) name.
     let k = wc_pieces \<lparr>wc_l = 0, wc_w = 0, wc_c = 0, wc_inword = False\<rparr> ps in
     if fails then Ok (''wc: read error'' @ [CHR 0x0A], False)
     else rbind (printf (''%d %d %d %s'' @ [CHR 0x0A]) [Num (wc_l k), Num (wc_w k), Num (wc_c k), Str name]) (\<lambda>s. Ok (s, True)))"

fun wc_files :: "(string \<Rightarrow> input option) \<Rightarrow> string list \<Rightarrow> string res" where
  "wc_files open_file [] = Ok []"
| "wc_files open_file (f # fs) =
     (case open_file f of None \<Rightarrow> Ok (''wc: cannot open '' @ f @ [CHR 0x0A])
      | Some i \<Rightarrow> rbind (wc i f) (\<lambda>(s, more). if \<not> more then Ok s else rbind (wc_files open_file fs) (\<lambda>t. Ok (s @ t))))"

definition wc_main :: "(string \<Rightarrow> input option) \<Rightarrow> input \<Rightarrow> string list \<Rightarrow> string res" where
  "wc_main open_file stdin args =
     (if args = [] then rbind (wc stdin []) (\<lambda>(s, more). Ok s) else wc_files open_file args)"

section \<open>cat and echo\<close>

text \<open>\<open>cat\<close> gives up at the first write that does not write everything; \<open>room\<close> is what the output still takes.\<close>

fun cat_pieces :: "nat \<Rightarrow> string list \<Rightarrow> string \<times> nat option" where
  "cat_pieces room [] = ([], Some room)"
| "cat_pieces room (p # ps) =
     (if room < length p then (take room p, None) else (case cat_pieces (room - length p) ps of (s, r) \<Rightarrow> (p @ s, r)))"

definition cat :: "nat \<Rightarrow> input \<Rightarrow> string \<times> nat option" where
  "cat room = (\<lambda>(ps, fails). case cat_pieces room ps of (s, r) \<Rightarrow> (s, if fails then None else r))"

fun cat_files :: "(string \<Rightarrow> input option) \<Rightarrow> nat \<Rightarrow> string list \<Rightarrow> string" where
  "cat_files open_file room [] = []"
| "cat_files open_file room (f # fs) =
     (case open_file f of None \<Rightarrow> []
      | Some i \<Rightarrow> (case cat room i of (s, None) \<Rightarrow> s | (s, Some room) \<Rightarrow> s @ cat_files open_file room fs))"

fun echo :: "string list \<Rightarrow> string" where
  "echo [] = []"
| "echo [w] = w @ [CHR 0x0A]"
| "echo (w # ws) = w @ '' '' @ echo ws"

section \<open>The names of ls\<close>

definition fmtname :: "string \<Rightarrow> string" where
  "fmtname path =
     (let p = rev (takeWhile (\<lambda>c. c \<noteq> CHR ''/'') (rev path)) in
      if 14 \<le> length p then p else p @ replicate (14 - length p) CHR 0x20)"

section \<open>What wc counts\<close>

lemma wc_pieces_concat: "wc_pieces k ps = foldl wc_char k (concat ps)"
  by (induction k ps rule: wc_pieces.induct) simp_all

definition word_starts :: "string \<Rightarrow> nat set" where
  "word_starts s = {i. i < length s \<and> s ! i \<notin> set wc_blanks \<and> (i = 0 \<or> s ! (i - 1) \<in> set wc_blanks)}"

lemma word_starts_snoc:
  "word_starts (s @ [b]) = word_starts s \<union> (if b \<notin> set wc_blanks \<and> (s = [] \<or> last s \<in> set wc_blanks) then {length s} else {})"
proof -
  have prev: "(s @ [b]) ! (i - 1) = s ! (i - 1)" if "i \<le> length s" "i \<noteq> 0" for i using that by (cases i) (simp_all add: nth_append)
  show ?thesis
  proof (cases "s = []")
    case True
    then show ?thesis by (auto simp: word_starts_def)
  next
    case False
    then have l: "(s @ [b]) ! (length s - 1) = last s" using prev [of "length s"] by (simp add: last_conv_nth)
    have "i \<in> word_starts (s @ [b]) \<longleftrightarrow> i \<in> word_starts s \<or> i = length s \<and> b \<notin> set wc_blanks \<and> last s \<in> set wc_blanks" for i
    proof (cases "i < length s")
      case True
      then show ?thesis using prev [of i] by (auto simp: word_starts_def nth_append)
    next
      case ge: False
      then show ?thesis using l False by (cases "i = length s") (auto simp: word_starts_def)
    qed
    then show ?thesis using False by auto
  qed
qed

lemma wc_foldl:
  "foldl wc_char \<lparr>wc_l = 0, wc_w = 0, wc_c = 0, wc_inword = False\<rparr> s =
     \<lparr>wc_l = of_nat (count_list s (CHR 0x0A)), wc_w = of_nat (card (word_starts s)), wc_c = of_nat (length s),
       wc_inword = (s \<noteq> [] \<and> last s \<notin> set wc_blanks)\<rparr>"
proof (induction s rule: rev_induct)
  case Nil
  then show ?case by (simp add: word_starts_def)
next
  case (snoc b s)
  have fin: "finite (word_starts s)" "length s \<notin> word_starts s" by (simp_all add: word_starts_def)
  show ?case using snoc fin by (auto simp: wc_char_def Let_def word_starts_snoc wc_blanks_def)
qed

text \<open>
  C30: \<open>wc\<close> prints the number of line ends, of places where a word begins, and of bytes, however the input is spread over the
  reads; a word that is cut by a read is counted once.
\<close>
theorem wc_counts:
  assumes "length (concat ps) < 2 ^ 31"
  shows "wc (ps, False) name = Ok (decimal (int (count_list (concat ps) (CHR 0x0A))) @ '' '' @ decimal (int (card (word_starts (concat ps)))) @
     '' '' @ decimal (int (length (concat ps))) @ '' '' @ name @ [CHR 0x0A], True)"
proof -
  let ?s = "concat ps"
  have fin: "word_starts ?s \<subseteq> {..<length ?s}" by (auto simp: word_starts_def)
  have le: "count_list ?s (CHR 0x0A) \<le> length ?s" "card (word_starts ?s) \<le> length ?s"
    using count_le_length [of ?s] card_mono [OF _ fin] by simp_all
  have si: "sint (of_nat n :: uint) = int n" if "n \<le> length ?s" for n
    using that assms by (simp add: sint_of_nat_32)
  have p: "printf (''%d %d %d %s'' @ [CHR 0x0A]) [Num a, Num b, Num c, Str name] =
      Ok (decimal (sint a) @ '' '' @ decimal (sint b) @ '' '' @ decimal (sint c) @ '' '' @ name @ [CHR 0x0A])" for a b c
    using printf_prints_pieces [of "[Decimal a, Plain CHR 0x20, Decimal b, Plain CHR 0x20, Decimal c, Plain CHR 0x20, Text name, Plain CHR 0x0A]"]
    by simp
  show ?thesis using le si unfolding wc_def by (simp add: Let_def wc_pieces_concat wc_foldl p [simplified])
qed


theorem wc_counts_witness: "wc ([''a b'', ''c'' @ [CHR 0x0A]], False) ''f'' = Ok (''1 2 5 f'' @ [CHR 0x0A], True)"
proof -
  have d: "decimal 1 = ''1''" "decimal 2 = ''2''" "decimal 5 = ''5''"
    by (simp_all add: decimal_def lower_digits_def numeral_of.simps [of 10 "Suc 0"] numeral_of.simps [of 10 2] numeral_of.simps [of 10 5])
  have "word_starts (concat [''a b'', ''c'' @ [CHR 0x0A]]) = {0, 2}"
    by (auto simp: word_starts_def wc_blanks_def less_Suc_eq nth_Cons')
  then show ?thesis using wc_counts [of "[''a b'', ''c'' @ [CHR 0x0A]]" "''f''"] d by simp
qed

end
