(* ===== verification/Kstring.thy ===== *)
theory Kstring
  imports CPrelude
begin

text \<open>
  xv6, \<open>string.c\<close> and the part of \<open>ulib.c\<close> that has the same names: the memory is a map from addresses to bytes, and the
  routines store into it byte by byte in the order of the code.
\<close>

type_synonym addr = "32 word"
type_synonym memory = "addr \<Rightarrow> byte"

section \<open>memset\<close>

primrec stosb :: "nat \<Rightarrow> addr \<Rightarrow> byte \<Rightarrow> memory \<Rightarrow> memory" where
  "stosb 0 d c m = m"
| "stosb (Suc n) d c m = stosb n (d + 1) c (m(d := c))"

definition put_word :: "addr \<Rightarrow> 32 word \<Rightarrow> memory \<Rightarrow> memory" where
  "put_word d w m =
     m(d := ucast w, d + 1 := ucast (drop_bit 8 w), d + 2 := ucast (drop_bit 16 w), d + 3 := ucast (drop_bit 24 w))"

primrec stosl :: "nat \<Rightarrow> addr \<Rightarrow> 32 word \<Rightarrow> memory \<Rightarrow> memory" where
  "stosl 0 d w m = m"
| "stosl (Suc n) d w m = stosl n (d + 4) w (put_word d w m)"

text \<open>The fill byte is an \<open>int\<close>; the test for the alignment of the address is on an \<open>int\<close> too, whose remainder is 0 when that of the bits is.\<close>

definition memset :: "addr \<Rightarrow> 32 word \<Rightarrow> 32 word \<Rightarrow> memory \<Rightarrow> memory" where
  "memset d c n m =
     (if d mod 4 = 0 \<and> n mod 4 = 0 then
        (let c = c AND 0xFF in
         stosl (unat (n div 4)) d (push_bit 24 c OR push_bit 16 c OR push_bit 8 c OR c) m)
      else stosb (unat n) d (ucast c) m)"

section \<open>memcmp and memmove\<close>

primrec compare_bytes :: "nat \<Rightarrow> addr \<Rightarrow> addr \<Rightarrow> memory \<Rightarrow> int" where
  "compare_bytes 0 a b m = 0"
| "compare_bytes (Suc n) a b m = (if m a \<noteq> m b then uint (m a) - uint (m b) else compare_bytes n (a + 1) (b + 1) m)"

definition memcmp :: "addr \<Rightarrow> addr \<Rightarrow> 32 word \<Rightarrow> memory \<Rightarrow> int" where
  "memcmp a b n m = compare_bytes (unat n) a b m"

primrec copy_up :: "nat \<Rightarrow> addr \<Rightarrow> addr \<Rightarrow> memory \<Rightarrow> memory" where
  "copy_up 0 d s m = m"
| "copy_up (Suc n) d s m = copy_up n (d + 1) (s + 1) (m(d := m s))"

primrec copy_down :: "nat \<Rightarrow> addr \<Rightarrow> addr \<Rightarrow> memory \<Rightarrow> memory" where
  "copy_down 0 d s m = m"
| "copy_down (Suc n) d s m = copy_down n (d - 1) (s - 1) (m(d - 1 := m (s - 1)))"

definition memmove :: "addr \<Rightarrow> addr \<Rightarrow> 32 word \<Rightarrow> memory \<Rightarrow> memory" where
  "memmove d s n m = (if s < d \<and> d < s + n then copy_down (unat n) (d + n) (s + n) m else copy_up (unat n) d s m)"

text \<open>\<open>memmove\<close> of \<open>ulib.c\<close> has only the loop that goes up, and a count that is signed.\<close>

definition ulib_memmove :: "addr \<Rightarrow> addr \<Rightarrow> 32 word \<Rightarrow> memory \<Rightarrow> memory" where
  "ulib_memmove d s n m = copy_up (nat (sint n)) d s m"

section \<open>What the routines do\<close>

text \<open>Whether an address is one of the \<open>n\<close> addresses from \<open>d\<close> on.\<close>

definition inside :: "addr \<Rightarrow> addr \<Rightarrow> nat \<Rightarrow> bool" where
  "inside x d n \<longleftrightarrow> unat (x - d) < n"

lemma inside_0 [simp]: "\<not> inside x d 0"
  by (simp add: inside_def)

lemma inside_Suc: "n < 2 ^ 32 \<Longrightarrow> inside x d (Suc n) \<longleftrightarrow> x = d \<or> inside x (d + 1) n"
proof (cases "x = d")
  case True
  then show ?thesis by (simp add: inside_def)
next
  case False
  then have "x - d \<noteq> 0" by simp
  then have "unat (x - d - 1) = unat (x - d) - 1" "unat (x - d) \<noteq> 0" by (simp_all add: unat_minus_one unat_eq_0)
  moreover have "x - d - 1 = x - (d + 1)" by simp
  ultimately show ?thesis using False by (auto simp: inside_def)
qed

lemma not_inside_first: "n < 2 ^ 32 \<Longrightarrow> \<not> inside d (d + 1) n"
proof -
  have "unat (d - (d + 1)) = 2 ^ 32 - 1" by (simp add: unsigned_minus_1_eq_mask mask_eq_exp_minus_1)
  then show "n < 2 ^ 32 \<Longrightarrow> \<not> inside d (d + 1) n" by (simp add: inside_def)
qed

lemma inside_offset: "inside x d n \<longleftrightarrow> (\<exists>i < n. x = d + of_nat i)" if "n \<le> 2 ^ 32"
proof
  assume "inside x d n"
  then show "\<exists>i < n. x = d + of_nat i" by (intro exI [of _ "unat (x - d)"]) (simp add: inside_def)
next
  assume "\<exists>i < n. x = d + of_nat i"
  then obtain i where "i < n" "x = d + of_nat i" by blast
  then show "inside x d n" using that by (simp add: inside_def unsigned_of_nat take_bit_nat_eq_self)
qed

lemma stosb_spec: "n < 2 ^ 32 \<Longrightarrow> stosb n d c m x = (if inside x d n then c else m x)"
  by (induction n arbitrary: d m) (auto simp: inside_Suc not_inside_first)

lemma copy_up_spec:
  "n < 2 ^ 32 \<Longrightarrow> \<forall>j < n. \<forall>i < j. d + of_nat i \<noteq> s + of_nat j \<Longrightarrow>
   copy_up n d s m x = (if inside x d n then m (s + (x - d)) else m x)"
proof (induction n arbitrary: d s m)
  case 0
  then show ?case by simp
next
  case (Suc n)
  have off: "\<forall>j < n. \<forall>i < j. d + 1 + of_nat i \<noteq> s + 1 + of_nat j"
  proof (intro allI impI)
    fix j i
    assume "j < n" "i < j"
    then show "d + 1 + of_nat i \<noteq> s + 1 + of_nat j" using Suc.prems(2) [rule_format, of "Suc j" "Suc i"] by (simp add: add.assoc)
  qed
  define m' where "m' = m(d := m s)"
  have m': "m' a = (if a = d then m s else m a)" for a by (simp add: m'_def)
  have "copy_up (Suc n) d s m x = copy_up n (d + 1) (s + 1) m' x" by (simp add: m'_def)
  also have "\<dots> = (if inside x (d + 1) n then m' (s + 1 + (x - (d + 1))) else m' x)"
    by (rule Suc.IH) (use Suc.prems(1) off in simp_all)
  also have "s + 1 + (x - (d + 1)) = s + (x - d)" by simp
  finally have step: "copy_up (Suc n) d s m x = (if inside x (d + 1) n then m' (s + (x - d)) else m' x)" .
  have ins: "inside x d (Suc n) \<longleftrightarrow> x = d \<or> inside x (d + 1) n" by (rule inside_Suc) (use Suc.prems(1) in simp)
  show ?case
  proof (cases "inside x (d + 1) n")
    case True
    then obtain j where j: "j < n" "x = d + 1 + of_nat j" using inside_offset [of n x "d + 1"] Suc.prems(1) by auto
    then have "s + (x - d) \<noteq> d" using Suc.prems(2) [rule_format, of "Suc j" 0] by (simp add: add.assoc)
    then show ?thesis unfolding step ins m' using True by simp
  next
    case False
    then show ?thesis unfolding step ins m' by simp
  qed
qed

text \<open>Downwards the addresses are the \<open>n\<close> ones below \<open>d\<close>.\<close>

lemma unat_eq_of_nat_32: "n < 2 ^ 32 \<Longrightarrow> unat (w :: 32 word) = n \<longleftrightarrow> w = of_nat n"
  by (auto simp: unsigned_of_nat take_bit_nat_eq_self)

lemma inside_below: "n < 2 ^ 32 \<Longrightarrow> inside x e (Suc n) \<longleftrightarrow> x = e + of_nat n \<or> inside x e n"
  using unat_eq_of_nat_32 [of n "x - e"] by (auto simp: inside_def less_Suc_eq algebra_simps)

lemma copy_down_spec:
  "n < 2 ^ 32 \<Longrightarrow> \<forall>j < n. \<forall>i < j. d - of_nat (Suc i) \<noteq> s - of_nat (Suc j) \<Longrightarrow>
   copy_down n d s m x = (if inside x (d - of_nat n) n then m (s - (d - x)) else m x)"
proof (induction n arbitrary: d s m)
  case 0
  then show ?case by simp
next
  case (Suc n)
  have off: "\<forall>j < n. \<forall>i < j. d - 1 - of_nat (Suc i) \<noteq> s - 1 - of_nat (Suc j)"
  proof (intro allI impI)
    fix j i
    assume "j < n" "i < j"
    then show "d - 1 - of_nat (Suc i) \<noteq> s - 1 - of_nat (Suc j)"
      using Suc.prems(2) [rule_format, of "Suc j" "Suc i"] by (simp add: algebra_simps)
  qed
  define m' where "m' = m(d - 1 := m (s - 1))"
  have m': "m' a = (if a = d - 1 then m (s - 1) else m a)" for a by (simp add: m'_def)
  define e where "e = d - of_nat (Suc n)"
  have e: "d - 1 - of_nat n = e" "e + of_nat n = d - 1" by (simp_all add: e_def)
  have "copy_down (Suc n) d s m x = copy_down n (d - 1) (s - 1) m' x" by (simp add: m'_def)
  also have "\<dots> = (if inside x (d - 1 - of_nat n) n then m' (s - 1 - (d - 1 - x)) else m' x)"
    by (rule Suc.IH) (use Suc.prems(1) off in simp_all)
  also have "s - 1 - (d - 1 - x) = s - (d - x)" by simp
  finally have step: "copy_down (Suc n) d s m x = (if inside x e n then m' (s - (d - x)) else m' x)" unfolding e .
  have ins: "inside x e (Suc n) \<longleftrightarrow> x = d - 1 \<or> inside x e n" 
    using inside_below [of n x e] Suc.prems(1) unfolding e by simp
  show ?case unfolding e_def [symmetric]
  proof (cases "inside x e n")
    case True
    then obtain i where i: "i < n" "x = e + of_nat i" using inside_offset [of n x e] Suc.prems(1) by auto
    define j where "j = n - i"
    have j: "j \<le> n" "0 < j" "of_nat i = (of_nat n - of_nat j :: addr)" using i(1) by (simp_all add: j_def of_nat_diff)
    have "x = d - of_nat (Suc j)" using i(2) j(3) by (simp add: e_def)
    then have "s - (d - x) \<noteq> d - 1" using Suc.prems(2) [rule_format, of j 0] j(1,2) by auto
    then show "copy_down (Suc n) d s m x = (if inside x e (Suc n) then m (s - (d - x)) else m x)"
      unfolding step ins m' using True by auto
  next
    case False
    then show "copy_down (Suc n) d s m x = (if inside x e (Suc n) then m (s - (d - x)) else m x)"
      unfolding step ins m' by (auto simp: algebra_simps)
  qed
qed


section \<open>memset fills, memmove copies\<close>

lemma fill_word_bytes:
  fixes c :: "32 word"
  defines "w \<equiv> push_bit 24 (c AND 0xFF) OR push_bit 16 (c AND 0xFF) OR push_bit 8 (c AND 0xFF) OR (c AND 0xFF)"
  shows "ucast w = (ucast c :: byte)" "ucast (drop_bit 8 w) = (ucast c :: byte)" "ucast (drop_bit 16 w) = (ucast c :: byte)"
    "ucast (drop_bit 24 w) = (ucast c :: byte)"
proof -
  have "(0xFF :: 32 word) = mask 8" by (simp add: mask_eq_exp_minus_1)
  then have w: "w = push_bit 24 (take_bit 8 c) OR push_bit 16 (take_bit 8 c) OR push_bit 8 (take_bit 8 c) OR take_bit 8 c"
    by (simp only: w_def take_bit_eq_mask [symmetric])
  show "ucast w = (ucast c :: byte)" by (rule bit_word_eqI) (auto simp: w bit_simps)
  show "ucast (drop_bit 8 w) = (ucast c :: byte)" by (rule bit_word_eqI) (auto simp: w bit_simps)
  show "ucast (drop_bit 16 w) = (ucast c :: byte)" by (rule bit_word_eqI) (auto simp: w bit_simps)
  show "ucast (drop_bit 24 w) = (ucast c :: byte)" by (rule bit_word_eqI) (auto simp: w bit_simps)
qed

lemma stosl_bytes:
  assumes "ucast w = b" "ucast (drop_bit 8 w) = b" "ucast (drop_bit 16 w) = b" "ucast (drop_bit 24 w) = b"
  shows "stosl k d w m = stosb (4 * k) d b m"
proof (induction k arbitrary: d m)
  case (Suc k)
  have "put_word d w m = m(d := b, d + 1 := b, d + 2 := b, d + 3 := b)" by (simp only: put_word_def assms)
  moreover have "4 * Suc k = Suc (Suc (Suc (Suc (4 * k))))" by simp
  ultimately have "stosb (4 * Suc k) d b m = stosb (4 * k) (d + 4) b (put_word d w m)"
    by (simp only: stosb.simps) (simp add: add.assoc)
  then show ?case using Suc by simp
qed simp

lemma unat_less_32: "unat (n :: 32 word) < 2 ^ 32"
  using unsigned_less [of n, where ?'a = nat] by simp

theorem memset_fills: "memset d c n m x = (if inside x d (unat n) then ucast c else m x)"
proof (cases "d mod 4 = 0 \<and> n mod 4 = 0")
  case True
  have "4 * unat (n div 4) = unat n"
  proof -
    have "unat n mod 4 = unat (n mod 4)" by (simp add: unat_mod_distrib)
    then have "unat n mod 4 = 0" using True by simp
    then show ?thesis by (simp add: unat_div_distrib) presburger
  qed
  then have "memset d c n m = stosb (unat n) d (ucast c) m"
    using True stosl_bytes [OF fill_word_bytes(1) [of c] fill_word_bytes(2,3,4)] by (simp add: memset_def Let_def)
  then show ?thesis using stosb_spec [of "unat n" d "ucast c" m x] unat_less_32 [of n] by simp
next
  case False
  then show ?thesis using stosb_spec [of "unat n" d "ucast c" m x] unat_less_32 [of n] by (auto simp: memset_def)
qed

lemma unat_plus: "unat (s :: addr) + i < 2 ^ 32 \<Longrightarrow> unat (s + of_nat i) = unat s + i"
  by (simp add: unat_word_ariths unsigned_of_nat take_bit_nat_eq_self)

text \<open>
  C29: \<open>memmove\<close> copies however the two areas overlap: every byte of the destination becomes what its byte of the source was,
  and no other byte changes.
\<close>
theorem memmove_copies:
  assumes "unat s + unat n < 2 ^ 32" and "unat d + unat n < 2 ^ 32"
  shows "memmove d s n m x = (if inside x d (unat n) then m (s + (x - d)) else m x)"
proof -
  have n: "unat n < 2 ^ 32" using assms(1) by linarith
  have sn: "unat (s + n) = unat s + unat n" using unat_plus [of s "unat n"] assms(1) by simp
  have dn: "unat (d + n) = unat d + unat n" using unat_plus [of d "unat n"] assms(2) by simp
  show ?thesis
  proof (cases "s < d \<and> d < s + n")
    case True
    have "d + n - of_nat (Suc i) \<noteq> s + n - of_nat (Suc j)" if "j < unat n" "i < j" for i j
    proof
      assume "d + n - of_nat (Suc i) = s + n - of_nat (Suc j)"
      then have "d + of_nat (Suc j) = s + of_nat (Suc i)" by (simp add: algebra_simps)
      then have "unat (d + of_nat (Suc j)) = unat (s + of_nat (Suc i))" by (simp only:)
      moreover have "unat (d + of_nat (Suc j)) = unat d + Suc j" by (rule unat_plus) (use that assms(2) in linarith)
      moreover have "unat (s + of_nat (Suc i)) = unat s + Suc i" by (rule unat_plus) (use that assms(1) in linarith)
      ultimately have "unat d + Suc j = unat s + Suc i" by (simp only:)
      then show False using True that by (simp add: word_less_nat_alt)
    qed
    then have "copy_down (unat n) (d + n) (s + n) m x = (if inside x (d + n - of_nat (unat n)) (unat n) then m (s + n - (d + n - x)) else m x)"
      by (intro copy_down_spec n) blast
    moreover have "s + n - (d + n - x) = s + (x - d)" by simp
    ultimately show ?thesis using True by (simp add: memmove_def)
  next
    case False
    have "d + of_nat i \<noteq> s + of_nat j" if "j < unat n" "i < j" for i j
    proof
      assume "d + of_nat i = s + of_nat j"
      moreover have "unat (d + of_nat i) = unat d + i" by (rule unat_plus) (use that assms(2) in linarith)
      moreover have "unat (s + of_nat j) = unat s + j" by (rule unat_plus) (use that assms(1) in linarith)
      ultimately have "unat d + i = unat s + j" by simp
      then show False using False that sn by (auto simp: word_less_nat_alt)
    qed
    then have "copy_up (unat n) d s m x = (if inside x d (unat n) then m (s + (x - d)) else m x)"
      by (intro copy_up_spec n) blast
    then show ?thesis using False by (auto simp: memmove_def)
  qed
qed

theorem memmove_copies_witness: "memmove 2 1 3 (\<lambda>a. ucast a) 4 = 3"
  using memmove_copies [of 1 3 2 "\<lambda>a. ucast a" 4] by (simp add: inside_def)

lemma copy_up_outside: "n < 2 ^ 32 \<Longrightarrow> \<not> inside x d n \<Longrightarrow> copy_up n d s m x = m x"
  by (induction n arbitrary: d s m) (auto simp: inside_Suc)

lemma copy_up_smears: "n < 2 ^ 32 \<Longrightarrow> inside x (s + 1) n \<Longrightarrow> copy_up n (s + 1) s m x = m s"
proof (induction n arbitrary: s m)
  case (Suc n)
  define m' where "m' = m(s + 1 := m s)"
  have step: "copy_up (Suc n) (s + 1) s m x = copy_up n (s + 1 + 1) (s + 1) m' x" by (simp add: m'_def)
  have i: "x = s + 1 \<or> inside x (s + 1 + 1) n" using Suc.prems inside_Suc [of n x "s + 1"] by simp
  show ?case
  proof (cases "inside x (s + 1 + 1) n")
    case True
    then have "copy_up n (s + 1 + 1) (s + 1) m' x = m' (s + 1)" by (intro Suc.IH) (use Suc.prems(1) in simp_all)
    then show ?thesis unfolding step by (simp add: m'_def)
  next
    case False
    then have "copy_up n (s + 1 + 1) (s + 1) m' x = m' x" by (intro copy_up_outside) (use Suc.prems(1) in simp_all)
    then show ?thesis unfolding step using i False by (simp add: m'_def)
  qed
qed simp

text \<open>A move by one to a higher address with \<open>memmove\<close> of \<open>ulib.c\<close> repeats the first byte.\<close>

theorem ulib_memmove_smears:
  assumes "0 < sint n" and "inside x (s + 1) (nat (sint n))"
  shows "ulib_memmove (s + 1) s n m x = m s"
proof -
  have "sint n < 2 ^ 31" using sint_lt [of n] by simp
  then have "nat (sint n) < 2 ^ 32" by simp
  then show ?thesis using copy_up_smears assms(2) by (simp add: ulib_memmove_def)
qed

end
