(* ===== verification/SpinLock.thy ===== *)
theory SpinLock
  imports CPrelude
begin

text \<open>
  xv6, \<open>spinlock.c\<close> and the CPU bookkeeping of \<open>proc.c\<close>: the interrupt flag and its nesting
  counter, the spin lock, and the interleaving of the CPUs that contend for one lock.

  A CPU is \<open>struct cpu\<close> with the two hardware registers the code reads: the interrupt flag of
  EFLAGS and the id in the local APIC. The argument \<open>me\<close> is the CPU that executes. The field
  \<open>pcs\<close> of a lock, a debugging aid, is not kept; the stack walk that fills it is
  \<open>getcallerpcs\<close>.
\<close>

section \<open>CPUs and interrupts\<close>

record cpu =
  cpu_apicid :: byte
  cpu_lapicid :: byte
  cpu_if :: bool
  cpu_ncli :: int
  cpu_intena :: bool
  cpu_proc :: "nat option"

definition mycpu :: "nat \<Rightarrow> cpu list \<Rightarrow> nat res" where
  "mycpu me cs =
     (if cpu_if (cs ! me) then Panic ''mycpu called with interrupts enabled''
      else (case find_idx (\<lambda>c. cpu_apicid c = cpu_lapicid (cs ! me)) cs of
              Some i \<Rightarrow> Ok i
            | None \<Rightarrow> Panic ''unknown apicid''))"

definition cpuid :: "nat \<Rightarrow> cpu list \<Rightarrow> nat res" where
  "cpuid me cs = mycpu me cs"

definition pushcli :: "nat \<Rightarrow> cpu list \<Rightarrow> cpu list res" where
  "pushcli me cs =
     (let eflags = cpu_if (cs ! me);
          cs = upd_at me (\<lambda>c. c\<lparr>cpu_if := False\<rparr>) cs
      in rbind (mycpu me cs) (\<lambda>i.
        let cs = (if cpu_ncli (cs ! i) = 0 then upd_at i (\<lambda>c. c\<lparr>cpu_intena := eflags\<rparr>) cs else cs)
        in Ok (upd_at i (\<lambda>c. c\<lparr>cpu_ncli := cpu_ncli c + 1\<rparr>) cs)))"

definition popcli :: "nat \<Rightarrow> cpu list \<Rightarrow> cpu list res" where
  "popcli me cs =
     (if cpu_if (cs ! me) then Panic ''popcli - interruptible''
      else rbind (mycpu me cs) (\<lambda>i.
        let cs = upd_at i (\<lambda>c. c\<lparr>cpu_ncli := cpu_ncli c - 1\<rparr>) cs in
        if cpu_ncli (cs ! i) < 0 then Panic ''popcli''
        else if cpu_ncli (cs ! i) = 0 \<and> cpu_intena (cs ! i)
        then Ok (upd_at me (\<lambda>c. c\<lparr>cpu_if := True\<rparr>) cs)
        else Ok cs))"

definition myproc :: "nat \<Rightarrow> cpu list \<Rightarrow> (nat option \<times> cpu list) res" where
  "myproc me cs =
     rbind (pushcli me cs) (\<lambda>cs.
     rbind (mycpu me cs) (\<lambda>c.
       let p = cpu_proc (cs ! c)
       in rbind (popcli me cs) (\<lambda>cs. Ok (p, cs))))"

section \<open>The lock\<close>

record spinlock =
  lk_locked :: bool
  lk_name :: string
  lk_cpu :: "nat option"

definition initlock :: "string \<Rightarrow> spinlock" where
  "initlock name = \<lparr>lk_locked = False, lk_name = name, lk_cpu = None\<rparr>"

definition holding :: "nat \<Rightarrow> spinlock \<Rightarrow> cpu list \<Rightarrow> (bool \<times> cpu list) res" where
  "holding me lk cs =
     rbind (pushcli me cs) (\<lambda>cs.
     rbind (mycpu me cs) (\<lambda>c.
       let r = (lk_locked lk \<and> lk_cpu lk = Some c)
       in rbind (popcli me cs) (\<lambda>cs. Ok (r, cs))))"

text \<open>
  \<open>acquire\<close> spins while another CPU has the lock: a call that finds it taken does not return in
  the state it was called in (\<open>Hang\<close>). How contending CPUs interleave is modelled below.
\<close>

definition acquire :: "nat \<Rightarrow> spinlock \<Rightarrow> cpu list \<Rightarrow> (spinlock \<times> cpu list) res" where
  "acquire me lk cs =
     rbind (pushcli me cs) (\<lambda>cs.
     rbind (holding me lk cs) (\<lambda>(r, cs).
       if r then Panic ''acquire''
       else if lk_locked lk then Hang
       else rbind (mycpu me cs) (\<lambda>c. Ok (lk\<lparr>lk_locked := True, lk_cpu := Some c\<rparr>, cs))))"

definition release :: "nat \<Rightarrow> spinlock \<Rightarrow> cpu list \<Rightarrow> (spinlock \<times> cpu list) res" where
  "release me lk cs =
     rbind (holding me lk cs) (\<lambda>(r, cs).
       if \<not> r then Panic ''release''
       else rbind (popcli me cs) (\<lambda>cs. Ok (lk\<lparr>lk_cpu := None, lk_locked := False\<rparr>, cs)))"

text \<open>
  The stack walk: \<open>mem\<close> is the word at an address, a frame holds the caller's \<open>ebp\<close> and, one
  word up, the return address. At most ten frames, and only kernel addresses are followed.
\<close>

fun getcallerpcs :: "uint \<Rightarrow> (uint \<Rightarrow> uint) \<Rightarrow> nat \<Rightarrow> uint \<Rightarrow> uint list" where
  "getcallerpcs kernbase mem 0 ebp = []"
| "getcallerpcs kernbase mem (Suc n) ebp =
     (if ebp = 0 \<or> ebp < kernbase \<or> ebp = 0xffffffff then replicate (Suc n) 0
      else mem (ebp + 4) # getcallerpcs kernbase mem n (mem ebp))"

lemma getcallerpcs_length: "length (getcallerpcs kernbase mem n ebp) = n"
  by (induction n arbitrary: ebp) auto

section \<open>What the operations do on a well-formed machine\<close>

definition cpus_wf :: "cpu list \<Rightarrow> bool" where
  "cpus_wf cs \<longleftrightarrow> distinct (map cpu_apicid cs) \<and>
     (\<forall>c\<in>set cs. cpu_lapicid c = cpu_apicid c \<and> 0 \<le> cpu_ncli c \<and>
        (0 < cpu_ncli c \<longrightarrow> \<not> cpu_if c))"

definition push1 :: "cpu \<Rightarrow> cpu" where
  "push1 c = c\<lparr>cpu_if := False, cpu_intena := (if cpu_ncli c = 0 then cpu_if c else cpu_intena c),
               cpu_ncli := cpu_ncli c + 1\<rparr>"

definition pop1 :: "cpu \<Rightarrow> cpu" where
  "pop1 c = c\<lparr>cpu_ncli := cpu_ncli c - 1,
              cpu_if := (cpu_ncli c = 1 \<and> cpu_intena c)\<rparr>"

named_theorems cli_simps \<open>the interrupt and lock operations on a well-formed machine\<close>

lemma cpus_wf_nth: "cpus_wf cs \<Longrightarrow> me < length cs \<Longrightarrow>
  cpu_lapicid (cs ! me) = cpu_apicid (cs ! me) \<and> 0 \<le> cpu_ncli (cs ! me) \<and>
  (0 < cpu_ncli (cs ! me) \<longrightarrow> \<not> cpu_if (cs ! me))"
  by (simp add: cpus_wf_def)

lemma find_apicid:
  assumes "distinct (map cpu_apicid cs)" and "me < length cs"
    and "cpu_lapicid (cs ! me) = cpu_apicid (cs ! me)"
  shows "find_idx (\<lambda>c. cpu_apicid c = cpu_lapicid (cs ! me)) cs = Some me"
proof (rule find_idx_SomeI)
  show "cpu_apicid (cs ! j) \<noteq> cpu_lapicid (cs ! me)" if "j < me" for j
    using nth_eq_iff_index_eq [OF assms(1), of j me] assms(2,3) that by auto
qed (use assms in auto)

lemma mycpu_off:
  "distinct (map cpu_apicid cs) \<Longrightarrow> me < length cs \<Longrightarrow>
   cpu_lapicid (cs ! me) = cpu_apicid (cs ! me) \<Longrightarrow> \<not> cpu_if (cs ! me) \<Longrightarrow> mycpu me cs = Ok me"
  using find_apicid [of cs me] by (simp add: mycpu_def)

lemma upd_at_apicid:
  "(\<And>c. cpu_apicid (f c) = cpu_apicid c) \<Longrightarrow> map cpu_apicid (upd_at i f cs) = map cpu_apicid cs"
  by (rule map_upd_at_frame)

lemma upd_at_comp: "upd_at i f (upd_at i g xs) = upd_at i (f \<circ> g) xs"
  by (cases "i < length xs") (simp_all add: upd_at_def list_update_beyond)

lemma upd_at_id: "i < length xs \<Longrightarrow> f (xs ! i) = xs ! i \<Longrightarrow> upd_at i f xs = xs"
  by (simp add: upd_at_def)

lemma upd_at_cong: "f (xs ! i) = g (xs ! i) \<Longrightarrow> upd_at i f xs = upd_at i g xs"
  by (simp add: upd_at_def)

lemma pushcli_eq [cli_simps]:
  assumes "cpus_wf cs" and "me < length cs"
  shows "pushcli me cs = Ok (upd_at me push1 cs)"
proof -
  let ?cs = "upd_at me (\<lambda>c. c\<lparr>cpu_if := False\<rparr>) cs"
  note n = cpus_wf_nth [OF assms]
  have "mycpu me ?cs = Ok me"
    using assms n by (intro mycpu_off) (simp_all add: cpus_wf_def upd_at_apicid)
  then show ?thesis
    using assms by (auto simp: pushcli_def Let_def upd_at_comp push1_def intro!: upd_at_cong)
qed

lemma popcli_eq [cli_simps]:
  assumes "cpus_wf cs" and "me < length cs" and "0 < cpu_ncli (cs ! me)"
  shows "popcli me cs = Ok (upd_at me pop1 cs)"
proof -
  note n = cpus_wf_nth [OF assms(1,2)]
  have "mycpu me cs = Ok me"
    using assms n by (intro mycpu_off) (simp_all add: cpus_wf_def)
  then show ?thesis
    using assms n by (auto simp: popcli_def Let_def upd_at_comp pop1_def intro!: upd_at_cong)
qed

lemma push1_simps [simp]:
  "cpu_apicid (push1 c) = cpu_apicid c" "cpu_lapicid (push1 c) = cpu_lapicid c"
  "cpu_ncli (push1 c) = cpu_ncli c + 1" "cpu_if (push1 c) = False" "cpu_proc (push1 c) = cpu_proc c"
  by (simp_all add: push1_def)

lemma pop1_simps [simp]:
  "cpu_apicid (pop1 c) = cpu_apicid c" "cpu_lapicid (pop1 c) = cpu_lapicid c"
  "cpu_ncli (pop1 c) = cpu_ncli c - 1" "cpu_proc (pop1 c) = cpu_proc c"
  "cpu_if (pop1 c) \<longleftrightarrow> cpu_ncli c = 1 \<and> cpu_intena c" "cpu_intena (pop1 c) = cpu_intena c"
  by (simp_all add: pop1_def)

lemma cpus_wf_upd_at:
  assumes "cpus_wf cs" and "\<And>c. cpu_apicid (f c) = cpu_apicid c"
    and "\<And>c. cpu_lapicid (f c) = cpu_lapicid c"
    and "0 \<le> cpu_ncli (f (cs ! i))" and "0 < cpu_ncli (f (cs ! i)) \<Longrightarrow> \<not> cpu_if (f (cs ! i))"
  shows "cpus_wf (upd_at i f cs)"
proof -
  have "cpu_lapicid (upd_at i f cs ! j) = cpu_apicid (upd_at i f cs ! j) \<and>
      0 \<le> cpu_ncli (upd_at i f cs ! j) \<and> (0 < cpu_ncli (upd_at i f cs ! j) \<longrightarrow> \<not> cpu_if (upd_at i f cs ! j))"
    if "j < length cs" for j
    using cpus_wf_nth [OF assms(1) that] assms(2-5) that by (auto simp: nth_upd_at)
  moreover have "distinct (map cpu_apicid (upd_at i f cs))"
    using assms(1,2) by (simp add: upd_at_apicid cpus_wf_def)
  ultimately show ?thesis unfolding cpus_wf_def by (metis in_set_conv_nth length_upd_at)
qed

lemma cpus_wf_push [simp]: "cpus_wf cs \<Longrightarrow> me < length cs \<Longrightarrow> cpus_wf (upd_at me push1 cs)"
  by (rule cpus_wf_upd_at) (auto dest: cpus_wf_nth)

lemma cpus_wf_pop [simp]:
  "cpus_wf cs \<Longrightarrow> me < length cs \<Longrightarrow> 0 < cpu_ncli (cs ! me) \<Longrightarrow> cpus_wf (upd_at me pop1 cs)"
  by (rule cpus_wf_upd_at) auto

text \<open>A matched pair leaves the flag and the counter as they were; at the outermost level it
  only refreshes the saved flag.\<close>

definition settle :: "cpu \<Rightarrow> cpu" where
  "settle c = (if cpu_ncli c = 0 then c\<lparr>cpu_intena := cpu_if c\<rparr> else c)"

lemma settle_simps [simp]:
  "cpu_apicid (settle c) = cpu_apicid c" "cpu_lapicid (settle c) = cpu_lapicid c"
  "cpu_ncli (settle c) = cpu_ncli c" "cpu_if (settle c) = cpu_if c" "cpu_proc (settle c) = cpu_proc c"
  by (simp_all add: settle_def)

lemma settle_nested [simp]: "cpu_ncli c \<noteq> 0 \<Longrightarrow> settle c = c"
  by (simp add: settle_def)

lemma settle_settle [simp]: "settle (settle c) = settle c"
  by (simp add: settle_def)

lemma pop_push:
  assumes "cpus_wf cs" and "me < length cs"
  shows "upd_at me pop1 (upd_at me push1 cs) = upd_at me settle cs"
  unfolding upd_at_comp
  using cpus_wf_nth [OF assms] by (intro upd_at_cong) (auto simp: pop1_def push1_def settle_def)

lemma cpus_wf_settle [simp]: "cpus_wf cs \<Longrightarrow> me < length cs \<Longrightarrow> cpus_wf (upd_at me settle cs)"
  by (rule cpus_wf_upd_at) (auto dest: cpus_wf_nth)

lemma upd_at_settle_nested [simp]:
  "me < length cs \<Longrightarrow> cpu_ncli (cs ! me) \<noteq> 0 \<Longrightarrow> upd_at me settle cs = cs"
  by (simp add: upd_at_id)

lemma mycpu_nested:
  "cpus_wf cs \<Longrightarrow> me < length cs \<Longrightarrow> \<not> cpu_if (cs ! me) \<Longrightarrow> mycpu me cs = Ok me"
  by (rule mycpu_off) (auto simp: cpus_wf_def)

lemma myproc_eq [cli_simps]:
  assumes "cpus_wf cs" and "me < length cs"
  shows "myproc me cs = Ok (cpu_proc (cs ! me), upd_at me settle cs)"
  using assms cpus_wf_nth [OF assms]
  by (simp add: myproc_def pushcli_eq mycpu_nested Let_def popcli_eq pop_push)

lemma holding_eq [cli_simps]:
  assumes "cpus_wf cs" and "me < length cs"
  shows "holding me lk cs = Ok (lk_locked lk \<and> lk_cpu lk = Some me, upd_at me settle cs)"
  using assms cpus_wf_nth [OF assms]
  by (simp add: holding_def pushcli_eq mycpu_nested Let_def popcli_eq pop_push)

lemma acquire_eq [cli_simps]:
  assumes "cpus_wf cs" and "me < length cs"
  shows "acquire me lk cs =
    (if lk_locked lk then (if lk_cpu lk = Some me then Panic ''acquire'' else Hang)
     else Ok (lk\<lparr>lk_locked := True, lk_cpu := Some me\<rparr>, upd_at me push1 cs))"
  using assms cpus_wf_nth [OF assms]
  by (simp add: acquire_def pushcli_eq holding_eq mycpu_nested)

lemma release_eq [cli_simps]:
  assumes "cpus_wf cs" and "me < length cs" and "0 < cpu_ncli (cs ! me)"
    and "lk_locked lk" and "lk_cpu lk = Some me"
  shows "release me lk cs = Ok (lk\<lparr>lk_cpu := None, lk_locked := False\<rparr>, upd_at me pop1 cs)"
  using assms cpus_wf_nth [OF assms(1,2)]
  by (simp add: release_def holding_eq popcli_eq)

lemma release_not_held [cli_simps]:
  assumes "cpus_wf cs" and "me < length cs" and "\<not> (lk_locked lk \<and> lk_cpu lk = Some me)"
  shows "release me lk cs = Panic ''release''"
  using assms cpus_wf_nth [OF assms(1,2)] by (auto simp: release_def holding_eq)

section \<open>Contending CPUs\<close>

text \<open>
  The steps of \<open>acquire\<close> and \<open>release\<close> on one lock, one memory access each: \<open>xchg\<close> until
  it returns 0, record the CPU, critical section, clear the CPU, \<open>movl $0\<close>. Any CPU may step.
\<close>

datatype lock_pc = Outside | Spinning | Won | Inside | Clearing

record contention =
  ct_locked :: bool
  ct_cpu :: "nat option"
  ct_pcs :: "lock_pc list"

inductive lock_step :: "contention \<Rightarrow> contention \<Rightarrow> bool" where
  enter: "i < length (ct_pcs s) \<Longrightarrow> ct_pcs s ! i = Outside \<Longrightarrow>
    lock_step s (s\<lparr>ct_pcs := (ct_pcs s)[i := Spinning]\<rparr>)"
| xchg_lost: "i < length (ct_pcs s) \<Longrightarrow> ct_pcs s ! i = Spinning \<Longrightarrow> ct_locked s \<Longrightarrow>
    lock_step s (s\<lparr>ct_locked := True\<rparr>)"
| xchg_won: "i < length (ct_pcs s) \<Longrightarrow> ct_pcs s ! i = Spinning \<Longrightarrow> \<not> ct_locked s \<Longrightarrow>
    lock_step s (s\<lparr>ct_locked := True, ct_pcs := (ct_pcs s)[i := Won]\<rparr>)"
| record_cpu: "i < length (ct_pcs s) \<Longrightarrow> ct_pcs s ! i = Won \<Longrightarrow>
    lock_step s (s\<lparr>ct_cpu := Some i, ct_pcs := (ct_pcs s)[i := Inside]\<rparr>)"
| clear_cpu: "i < length (ct_pcs s) \<Longrightarrow> ct_pcs s ! i = Inside \<Longrightarrow>
    lock_step s (s\<lparr>ct_cpu := None, ct_pcs := (ct_pcs s)[i := Clearing]\<rparr>)"
| unlock: "i < length (ct_pcs s) \<Longrightarrow> ct_pcs s ! i = Clearing \<Longrightarrow>
    lock_step s (s\<lparr>ct_locked := False, ct_pcs := (ct_pcs s)[i := Outside]\<rparr>)"

definition lock_start :: "nat \<Rightarrow> contention" where
  "lock_start n = \<lparr>ct_locked = False, ct_cpu = None, ct_pcs = replicate n Outside\<rparr>"

inductive lock_reach :: "nat \<Rightarrow> contention \<Rightarrow> bool" for n where
  start: "lock_reach n (lock_start n)"
| step: "lock_reach n s \<Longrightarrow> lock_step s t \<Longrightarrow> lock_reach n t"

text \<open>The CPUs between their successful \<open>xchg\<close> and their \<open>movl $0\<close>.\<close>

definition owns :: "lock_pc \<Rightarrow> bool" where
  "owns pc \<longleftrightarrow> pc = Won \<or> pc = Inside \<or> pc = Clearing"

definition lock_inv :: "contention \<Rightarrow> bool" where
  "lock_inv s \<longleftrightarrow>
     (\<forall>i<length (ct_pcs s). owns (ct_pcs s ! i) \<longrightarrow> ct_locked s \<and>
        (\<forall>j<length (ct_pcs s). owns (ct_pcs s ! j) \<longrightarrow> j = i)) \<and>
     (\<forall>i. ct_cpu s = Some i \<longleftrightarrow> i < length (ct_pcs s) \<and> ct_pcs s ! i = Inside)"

lemma owns_simps [simp]: "owns Won" "owns Inside" "owns Clearing" "\<not> owns Outside" "\<not> owns Spinning"
  by (simp_all add: owns_def)

lemma lock_inv_start: "lock_inv (lock_start n)"
  by (simp add: lock_inv_def lock_start_def)

lemma lock_step_inv: "lock_step s t \<Longrightarrow> lock_inv s \<Longrightarrow> lock_inv t"
proof (induction rule: lock_step.induct)
  case (xchg_won i s)
  then show ?case by (auto simp: lock_inv_def nth_list_update)
next
  case (record_cpu i s)
  then have "\<forall>j<length (ct_pcs s). owns (ct_pcs s ! j) \<longrightarrow> j = i" by (metis lock_inv_def owns_simps(1))
  with record_cpu show ?case by (fastforce simp: lock_inv_def nth_list_update)
next
  case (clear_cpu i s)
  then have only: "\<forall>j<length (ct_pcs s). owns (ct_pcs s ! j) \<longrightarrow> j = i"
    by (metis lock_inv_def owns_simps(2))
  then have "ct_pcs s ! j \<noteq> Inside" if "j < length (ct_pcs s)" "j \<noteq> i" for j
    using that by (metis owns_simps(2))
  with clear_cpu only show ?case by (fastforce simp: lock_inv_def nth_list_update)
next
  case (unlock i s)
  then have only: "\<forall>j<length (ct_pcs s). owns (ct_pcs s ! j) \<longrightarrow> j = i"
    by (metis lock_inv_def owns_simps(3))
  with unlock show ?case by (auto simp: lock_inv_def nth_list_update)
qed (auto simp: lock_inv_def nth_list_update)

lemma lock_reach_inv: "lock_reach n s \<Longrightarrow> lock_inv s"
  by (induction rule: lock_reach.induct) (auto intro: lock_inv_start lock_step_inv)

section \<open>Properties\<close>

text \<open>
  C22: the spin lock excludes. In every reachable state of any number of CPUs contending for a
  lock, two CPUs that are both past their successful exchange and have not unlocked yet are the
  same CPU, and the test that \<open>holding\<close> makes without any lock, \<open>locked && cpu == mycpu()\<close>,
  is true for exactly the CPU inside its critical section.
\<close>

theorem spinlock_mutual_exclusion:
  assumes "lock_reach n s"
  shows "(\<forall>i<length (ct_pcs s). \<forall>j<length (ct_pcs s).
      owns (ct_pcs s ! i) \<and> owns (ct_pcs s ! j) \<longrightarrow> i = j) \<and>
    (\<forall>i<length (ct_pcs s). ct_locked s \<and> ct_cpu s = Some i \<longleftrightarrow> ct_pcs s ! i = Inside)"
proof -
  have inv: "lock_inv s" by (rule lock_reach_inv [OF assms])
  then show ?thesis unfolding lock_inv_def by (metis owns_simps(2))
qed

theorem spinlock_mutual_exclusion_witness:
  "\<exists>s. lock_reach 2 s \<and> ct_pcs s = [Inside, Spinning] \<and>
    ((\<forall>i<length (ct_pcs s). \<forall>j<length (ct_pcs s).
      owns (ct_pcs s ! i) \<and> owns (ct_pcs s ! j) \<longrightarrow> i = j) \<and>
    (\<forall>i<length (ct_pcs s). ct_locked s \<and> ct_cpu s = Some i \<longleftrightarrow> ct_pcs s ! i = Inside))"
proof -
  let ?s = "\<lambda>l c a b. \<lparr>ct_locked = l, ct_cpu = c, ct_pcs = [a, b]\<rparr>"
  have 0: "lock_reach 2 (?s False None Outside Outside)"
    using lock_reach.start [of 2] by (simp add: lock_start_def numeral_2_eq_2)
  have "lock_step (?s False None Outside Outside) (?s False None Spinning Outside)"
    using lock_step.enter [of 0 "?s False None Outside Outside"] by simp
  note 1 = lock_reach.step [OF 0 this]
  have "lock_step (?s False None Spinning Outside) (?s False None Spinning Spinning)"
    using lock_step.enter [of 1 "?s False None Spinning Outside"] by simp
  note 2 = lock_reach.step [OF 1 this]
  have "lock_step (?s False None Spinning Spinning) (?s True None Won Spinning)"
    using lock_step.xchg_won [of 0 "?s False None Spinning Spinning"] by simp
  note 3 = lock_reach.step [OF 2 this]
  have "lock_step (?s True None Won Spinning) (?s True (Some 0) Inside Spinning)"
    using lock_step.record_cpu [of 0 "?s True None Won Spinning"] by simp
  note 4 = lock_reach.step [OF 3 this]
  show ?thesis
    by (rule exI [of _ "?s True (Some 0) Inside Spinning"],
      intro conjI [OF 4] conjI [OF _ spinlock_mutual_exclusion [OF 4]]) simp
qed

text \<open>
  \<open>acquire\<close> and \<open>release\<close> are matched like brackets. On a well-formed machine a free lock
  is acquired with interrupts off and its holder recorded, and the release gives back a free lock
  and the interrupt flag and nesting depth of before; acquiring a lock the CPU already holds and
  releasing one it does not hold panic.
\<close>

theorem acquire_release_balanced:
  assumes "cpus_wf cs" and "me < length cs"
  shows "(\<not> lk_locked lk \<longrightarrow> (\<exists>lk' cs'. acquire me lk cs = Ok (lk', cs') \<and>
        holding me lk' cs' = Ok (True, cs') \<and> \<not> cpu_if (cs' ! me) \<and>
        acquire me lk' cs' = Panic ''acquire'' \<and>
        (\<exists>lk'' cs''. release me lk' cs' = Ok (lk'', cs'') \<and> \<not> lk_locked lk'' \<and>
           cpu_if (cs'' ! me) = cpu_if (cs ! me) \<and> cpu_ncli (cs'' ! me) = cpu_ncli (cs ! me)))) \<and>
    (\<not> (lk_locked lk \<and> lk_cpu lk = Some me) \<longrightarrow> release me lk cs = Panic ''release'')"
  using assms cpus_wf_nth [OF assms]
  by (auto simp: cli_simps pop_push)

definition demo_cpu :: cpu where
  "demo_cpu = \<lparr>cpu_apicid = 0, cpu_lapicid = 0, cpu_if = True, cpu_ncli = 0,
               cpu_intena = False, cpu_proc = None\<rparr>"

lemma demo_cpu_wf: "cpus_wf [demo_cpu]"
  by (simp add: cpus_wf_def demo_cpu_def)

theorem acquire_release_balanced_witness:
  "cpus_wf [demo_cpu] \<and> release 0 (initlock ''x'') [demo_cpu] = Panic ''release'' \<and>
   (\<exists>lk' cs'. acquire 0 (initlock ''x'') [demo_cpu] = Ok (lk', cs'))"
  using acquire_release_balanced [OF demo_cpu_wf, of 0 "initlock ''x''"] demo_cpu_wf
  by (auto simp: initlock_def)

end
