(* ===== verification/PageAlloc.thy ===== *)
theory PageAlloc
  imports CPrelude
begin

text \<open>
  The interface of a page allocator: the laws that its clients (page tables, pipes, kernel stacks)
  rely on, and what follows for a client that allocates and frees any number of pages.
\<close>

datatype page_op = Alloc | Free uint

locale page_allocator =
  fixes inv :: "'s \<Rightarrow> bool"
    and free_set :: "'s \<Rightarrow> uint set"
    and page :: "uint \<Rightarrow> bool"
    and alloc :: "'s \<Rightarrow> uint \<times> 's"
    and free :: "uint \<Rightarrow> 's \<Rightarrow> 's res"
  assumes alloc_law: "inv s \<Longrightarrow> alloc s = (r, s') \<Longrightarrow>
      inv s' \<and> (if r = 0 then free_set s = {} \<and> free_set s' = {}
                else r \<in> free_set s \<and> free_set s' = free_set s - {r})"
    and free_law: "inv s \<Longrightarrow> v \<notin> free_set s \<Longrightarrow> page v \<Longrightarrow>
      \<exists>s'. free v s = Ok s' \<and> inv s' \<and> free_set s' = insert v (free_set s)"
    and free_pages: "inv s \<Longrightarrow> v \<in> free_set s \<Longrightarrow> page v"
begin

text \<open>A client that keeps the pages it has been given; a failed allocation adds none.\<close>

fun serve :: "page_op list \<Rightarrow> 's \<Rightarrow> uint list \<Rightarrow> ('s \<times> uint list) res" where
  "serve [] s live = Ok (s, live)"
| "serve (Alloc # ops) s live =
     (case alloc s of (r, s') \<Rightarrow> serve ops s' (if r = 0 then live else r # live))"
| "serve (Free v # ops) s live = rbind (free v s) (\<lambda>s'. serve ops s' (remove1 v live))"

text \<open>A legal client frees only pages it holds.\<close>

fun legal :: "page_op list \<Rightarrow> 's \<Rightarrow> uint list \<Rightarrow> bool" where
  "legal [] s live = True"
| "legal (Alloc # ops) s live =
     (case alloc s of (r, s') \<Rightarrow> legal ops s' (if r = 0 then live else r # live))"
| "legal (Free v # ops) s live =
     (v \<in> set live \<and> (case free v s of Ok s' \<Rightarrow> legal ops s' (remove1 v live) | _ \<Rightarrow> True))"

lemma serve_partition:
  assumes "inv s" and "distinct live" and "set live \<inter> free_set s = {}" and "\<forall>v\<in>set live. page v"
    and "legal ops s live"
  shows "\<exists>s' live'. serve ops s live = Ok (s', live') \<and> inv s' \<and> distinct live' \<and>
    set live' \<inter> free_set s' = {} \<and> set live' \<union> free_set s' = set live \<union> free_set s"
  using assms
proof (induction ops s live rule: serve.induct)
  case (1 s live)
  then show ?case by simp
next
  case (2 ops s live)
  obtain r s' where a: "alloc s = (r, s')" by fastforce
  note law = alloc_law [OF "2.prems"(1) a]
  show ?case
  proof (cases "r = 0")
    case True
    with 2 a law show ?thesis by simp
  next
    case False
    have "page r" using free_pages [OF "2.prems"(1)] law False by simp
    with 2 a law False have "\<exists>t live'. serve ops s' (r # live) = Ok (t, live') \<and> inv t \<and> distinct live' \<and>
      set live' \<inter> free_set t = {} \<and> set live' \<union> free_set t = set (r # live) \<union> free_set s'"
      using "2.IH" [OF a [symmetric]] by auto
    with a law False show ?thesis by auto
  qed
next
  case (3 v ops s live)
  then have v: "v \<in> set live" "v \<notin> free_set s" "page v" by auto
  from free_law [OF "3.prems"(1) v(2,3)] obtain s' where
    f: "free v s = Ok s'" "inv s'" "free_set s' = insert v (free_set s)" by blast
  have l: "set (remove1 v live) = set live - {v}" using "3.prems"(2) by simp
  have "\<exists>t live'. serve ops s' (remove1 v live) = Ok (t, live') \<and> inv t \<and> distinct live' \<and>
      set live' \<inter> free_set t = {} \<and> set live' \<union> free_set t = set (remove1 v live) \<union> free_set s'"
    using "3.IH" [OF f(1,2)] f "3.prems" l by auto
  with f l v show ?case by auto
qed

end

end
