(* ===== verification/KAlloc.thy ===== *)
theory KAlloc
  imports SpinLock PageAlloc
begin

text \<open>
  \<open>kalloc.c\<close>: the allocator of physical pages, a linked list of free pages under a lock that is not
  taken while only one CPU runs. The memory is that of the whole kernel, addressed by kernel
  virtual addresses; the link of a free page is kept in the list \<open>v_free\<close> rather than in the first
  word of the page, and entries of page tables (words) are kept apart from the bytes of data pages:
  the kernel never reads one as the other.
\<close>

section \<open>Memory layout\<close>

definition KERNBASE :: uint where "KERNBASE = 0x80000000"
definition EXTMEM :: uint where "EXTMEM = 0x100000"
definition PHYSTOP :: uint where "PHYSTOP = 0xE000000"
definition DEVSPACE :: uint where "DEVSPACE = 0xFE000000"

definition V2P :: "uint \<Rightarrow> uint" where "V2P a = a - KERNBASE"
definition P2V :: "uint \<Rightarrow> uint" where "P2V a = a + KERNBASE"

definition PGROUNDUP :: "uint \<Rightarrow> uint" where "PGROUNDUP a = (a + 4096 - 1) AND NOT 4095"
definition PGROUNDDOWN :: "uint \<Rightarrow> uint" where "PGROUNDDOWN a = a AND NOT 4095"

record vmem =
  v_pte :: "uint \<Rightarrow> uint"
  v_byte :: "uint \<Rightarrow> byte"
  v_free :: "uint list"

definition in_page :: "uint \<Rightarrow> uint \<Rightarrow> bool" where
  "in_page v x \<longleftrightarrow> x - v < 4096"

text \<open>\<open>memset(v, c, PGSIZE)\<close>, seen as words and as bytes.\<close>

definition fill_page :: "uint \<Rightarrow> byte \<Rightarrow> vmem \<Rightarrow> vmem" where
  "fill_page v c m = m\<lparr>v_pte := (\<lambda>x. if in_page v x then ucast c * 0x01010101 else v_pte m x),
                      v_byte := (\<lambda>x. if in_page v x then c else v_byte m x)\<rparr>"

section \<open>The free list\<close>

text \<open>\<open>kend\<close> is the first address after the kernel, a symbol of the linker script.\<close>

definition bad_page :: "uint \<Rightarrow> uint \<Rightarrow> bool" where
  "bad_page kend v \<longleftrightarrow> v mod 4096 \<noteq> 0 \<or> v < kend \<or> V2P v \<ge> PHYSTOP"

definition kfree :: "uint \<Rightarrow> uint \<Rightarrow> vmem \<Rightarrow> vmem res" where
  "kfree kend v m =
     (if bad_page kend v then Panic ''kfree''
      else let m = fill_page v 1 m in Ok (m\<lparr>v_free := v # v_free m\<rparr>))"

definition kalloc :: "vmem \<Rightarrow> uint \<times> vmem" where
  "kalloc m = (case v_free m of [] \<Rightarrow> (0, m) | r # rs \<Rightarrow> (r, m\<lparr>v_free := rs\<rparr>))"

text \<open>\<open>freerange\<close>: the pages between two addresses, in order; the addition that ends the loop can
  wrap around only when \<open>vend\<close> is in the last page of the address space.\<close>

function freerange_from :: "uint \<Rightarrow> uint \<Rightarrow> uint \<Rightarrow> vmem \<Rightarrow> vmem res" where
  "freerange_from kend p vend m =
     (if p + 4096 \<le> vend \<and> p \<le> p + 4096 then
        rbind (kfree kend p m) (freerange_from kend (p + 4096) vend)
      else if p + 4096 \<le> vend then Undef
      else Ok m)"
  by pat_completeness auto
termination
proof (relation "measure (\<lambda>(kend, p, vend, m). unat (vend - p))", goal_cases)
  case 1
  show ?case by simp
next
  case (2 kend p vend m x)
  then have w: "unat (p + 4096) = unat p + 4096" by (simp add: unat_plus_simple)
  have "p + 4096 \<le> vend" "p \<le> vend" using 2 by (auto intro: order_trans)
  then have "unat (vend - (p + 4096)) = unat vend - unat (p + 4096)" "unat (vend - p) = unat vend - unat p"
    "unat p + 4096 \<le> unat vend"
    using w by (simp_all add: unat_sub word_le_nat_alt)
  with w show ?case by simp
qed


declare freerange_from.simps [simp del]

text \<open>\<open>freerange\<close>, \<open>kinit1\<close> and \<open>kinit2\<close>, and the two operations with their lock, which is
  taken only after \<open>kinit2\<close>. A state is the allocator with its lock, and the CPUs.\<close>

record kmem =
  km_lock :: spinlock
  km_use_lock :: bool
  km_mem :: vmem

definition freerange :: "uint \<Rightarrow> uint \<Rightarrow> uint \<Rightarrow> vmem \<Rightarrow> vmem res" where
  "freerange kend vstart vend = freerange_from kend (PGROUNDUP vstart) vend"

definition kinit1 :: "uint \<Rightarrow> uint \<Rightarrow> uint \<Rightarrow> kmem \<Rightarrow> kmem res" where
  "kinit1 kend vstart vend k =
     rbind (freerange kend vstart vend (km_mem k)) (\<lambda>m.
       Ok (k\<lparr>km_lock := initlock ''kmem'', km_use_lock := False, km_mem := m\<rparr>))"

text \<open>\<open>kinit2\<close> calls \<open>kfree\<close> while the lock is not yet used.\<close>

definition kinit2 :: "uint \<Rightarrow> uint \<Rightarrow> uint \<Rightarrow> kmem \<Rightarrow> kmem res" where
  "kinit2 kend vstart vend k =
     rbind (freerange kend vstart vend (km_mem k)) (\<lambda>m.
       Ok (k\<lparr>km_mem := m, km_use_lock := True\<rparr>))"

definition km_enter :: "nat \<Rightarrow> kmem \<times> cpu list \<Rightarrow> (kmem \<times> cpu list) res" where
  "km_enter me s =
     (case s of (k, cs) \<Rightarrow>
        if km_use_lock k then
          rbind (acquire me (km_lock k) cs) (\<lambda>(lk, cs). Ok (k\<lparr>km_lock := lk\<rparr>, cs))
        else Ok (k, cs))"

definition km_leave :: "nat \<Rightarrow> kmem \<times> cpu list \<Rightarrow> (kmem \<times> cpu list) res" where
  "km_leave me s =
     (case s of (k, cs) \<Rightarrow>
        if km_use_lock k then
          rbind (release me (km_lock k) cs) (\<lambda>(lk, cs). Ok (k\<lparr>km_lock := lk\<rparr>, cs))
        else Ok (k, cs))"

definition kfree_locked :: "uint \<Rightarrow> nat \<Rightarrow> uint \<Rightarrow> kmem \<times> cpu list \<Rightarrow> (kmem \<times> cpu list) res" where
  "kfree_locked kend me v s =
     (if bad_page kend v then Panic ''kfree''
      else case s of (k, cs) \<Rightarrow>
        let k = k\<lparr>km_mem := fill_page v 1 (km_mem k)\<rparr> in
        rbind (km_enter me (k, cs)) (\<lambda>(k, cs).
          km_leave me (k\<lparr>km_mem := (km_mem k)\<lparr>v_free := v # v_free (km_mem k)\<rparr>\<rparr>, cs)))"

definition kalloc_locked :: "nat \<Rightarrow> kmem \<times> cpu list \<Rightarrow> (uint \<times> kmem \<times> cpu list) res" where
  "kalloc_locked me s =
     rbind (km_enter me s) (\<lambda>(k, cs).
       case kalloc (km_mem k) of (r, m) \<Rightarrow>
         rbind (km_leave me (k\<lparr>km_mem := m\<rparr>, cs)) (\<lambda>s. Ok (r, s)))"

section \<open>Properties\<close>

definition good_page :: "uint \<Rightarrow> uint \<Rightarrow> bool" where
  "good_page kend v \<longleftrightarrow> \<not> bad_page kend v"

text \<open>The invariant of the free list: pages, each once, and never the null pointer.\<close>

definition free_ok :: "uint \<Rightarrow> vmem \<Rightarrow> bool" where
  "free_ok kend m \<longleftrightarrow> distinct (v_free m) \<and> (\<forall>v\<in>set (v_free m). good_page kend v \<and> v \<noteq> 0)"

lemma kalloc_free_ok:
  assumes "free_ok kend m" and "kalloc m = (r, m')"
  shows "free_ok kend m' \<and> (if r = 0 then v_free m = [] \<and> m' = m
    else r \<in> set (v_free m) \<and> set (v_free m') = set (v_free m) - {r})"
  using assms by (auto simp: kalloc_def free_ok_def split: list.splits)

lemma kfree_free_ok:
  assumes "free_ok kend m" and "v \<notin> set (v_free m)" and "good_page kend v" and "v \<noteq> 0"
  shows "\<exists>m'. kfree kend v m = Ok m' \<and> free_ok kend m' \<and> set (v_free m') = insert v (set (v_free m))"
  using assms by (auto simp: kfree_def good_page_def free_ok_def fill_page_def Let_def)

interpretation pages: page_allocator "free_ok kend" "\<lambda>m. set (v_free m)" "\<lambda>v. good_page kend v \<and> v \<noteq> 0" kalloc "kfree kend"
  for kend
proof
  show "free_ok kend m' \<and> (if r = 0 then set (v_free m) = {} \<and> set (v_free m') = {}
      else r \<in> set (v_free m) \<and> set (v_free m') = set (v_free m) - {r})"
    if "free_ok kend m" "kalloc m = (r, m')" for m r m'
    using kalloc_free_ok [OF that] by auto
  show "\<exists>m'. kfree kend v m = Ok m' \<and> free_ok kend m' \<and> set (v_free m') = insert v (set (v_free m))"
    if "free_ok kend m" "v \<notin> set (v_free m)" "good_page kend v \<and> v \<noteq> 0" for m v
    using kfree_free_ok that by blast
qed (auto simp: free_ok_def)

text \<open>
  C38: no page is handed out twice. Whatever sequence of allocations and frees the kernel makes, as
  long as it only frees pages it holds, every call returns without a panic, the pages in use are
  distinct, none of them is on the free list, and no page is lost: the pages in use and the free ones
  are together those the allocator started with.
\<close>

theorem pages_in_use_are_private:
  assumes "free_ok kend m" and "pages.legal kend ops m []"
  shows "\<exists>m' live. pages.serve kend ops m [] = Ok (m', live) \<and> free_ok kend m' \<and> distinct live \<and>
    set live \<inter> set (v_free m') = {} \<and> set live \<union> set (v_free m') = set (v_free m)"
  using pages.serve_partition [OF assms(1) _ _ _ assms(2)] assms(1) by (auto simp: free_ok_def)


text \<open>Two free pages; the client takes both, finds the list empty, gives one back and takes it again.\<close>

definition demo_vmem :: vmem where
  "demo_vmem = \<lparr>v_pte = (\<lambda>x. 0), v_byte = (\<lambda>x. 0), v_free = [0x80200000, 0x80201000]\<rparr>"

lemma demo_vmem_ok: "free_ok 0x80110000 demo_vmem"
  by (simp add: free_ok_def demo_vmem_def good_page_def bad_page_def V2P_def KERNBASE_def PHYSTOP_def)

theorem pages_in_use_are_private_witness:
  "\<exists>m'. pages.serve 0x80110000 [Alloc, Alloc, Alloc, Free 0x80200000, Alloc] demo_vmem [] =
      Ok (m', [0x80200000, 0x80201000]) \<and> v_free m' = [] \<and>
    distinct [0x80200000, 0x80201000 :: uint]"
proof -
  let ?ops = "[Alloc, Alloc, Alloc, Free 0x80200000, Alloc]"
  have "pages.legal 0x80110000 ?ops demo_vmem []"
    by (simp add: demo_vmem_def kalloc_def split: res.splits)
  from pages_in_use_are_private [OF demo_vmem_ok this] show ?thesis
    by (auto simp: demo_vmem_def kalloc_def kfree_def bad_page_def V2P_def KERNBASE_def PHYSTOP_def fill_page_def Let_def)
qed

text \<open>
  the lock of the allocator is transparent. On a well-formed machine, with the lock free (or not
  yet in use), both operations return, release the lock again, and do to the pages exactly what the
  operations without the lock do; the CPU gets its interrupt state back.
\<close>

theorem kalloc_lock_transparent:
  assumes "cpus_wf cs" and "me < length cs" and "\<not> lk_locked (km_lock k)"
  shows "(\<exists>k' cs'. kalloc_locked me (k, cs) = Ok (fst (kalloc (km_mem k)), k', cs') \<and>
      km_mem k' = snd (kalloc (km_mem k)) \<and> km_use_lock k' = km_use_lock k \<and> \<not> lk_locked (km_lock k') \<and>
      cpu_if (cs' ! me) = cpu_if (cs ! me) \<and> cpu_ncli (cs' ! me) = cpu_ncli (cs ! me)) \<and>
    (case kfree kend v (km_mem k) of
       Ok m \<Rightarrow> \<exists>k' cs'. kfree_locked kend me v (k, cs) = Ok (k', cs') \<and>
         km_mem k' = m \<and> km_use_lock k' = km_use_lock k \<and> \<not> lk_locked (km_lock k') \<and>
         cpu_if (cs' ! me) = cpu_if (cs ! me) \<and> cpu_ncli (cs' ! me) = cpu_ncli (cs ! me)
     | _ \<Rightarrow> kfree_locked kend me v (k, cs) = Panic ''kfree'')"
  using assms cpus_wf_nth [OF assms(1,2)]
  by (cases "km_use_lock k")
    (auto simp: kalloc_locked_def kfree_locked_def kfree_def km_enter_def km_leave_def cli_simps pop_push
      Let_def split: prod.splits)

theorem kalloc_lock_transparent_witness:
  "\<exists>k' cs'. kalloc_locked 0 (\<lparr>km_lock = initlock ''kmem'', km_use_lock = True, km_mem = demo_vmem\<rparr>, [demo_cpu]) =
     Ok (0x80200000, k', cs') \<and> v_free (km_mem k') = [0x80201000] \<and> \<not> lk_locked (km_lock k')"
proof -
  let ?k = "\<lparr>km_lock = initlock ''kmem'', km_use_lock = True, km_mem = demo_vmem\<rparr>"
  have "0 < length [demo_cpu]" "\<not> lk_locked (km_lock ?k)" by (simp_all add: initlock_def)
  note t = kalloc_lock_transparent [OF demo_cpu_wf this, THEN conjunct1]
  have "fst (kalloc (km_mem ?k)) = 0x80200000" "v_free (snd (kalloc (km_mem ?k))) = [0x80201000]"
    by (simp_all add: kalloc_def demo_vmem_def)
  with t show ?thesis by auto
qed

end
