(* ===== verification/Proc.thy ===== *)
theory Proc
  imports SpinLock CLib
begin

text \<open>
  P2A, \<open>proc.c\<close> with the lottery scheduler, and the system calls of \<open>sysproc.c\<close>. The process
  table is the list of its slots, a pointer to a slot is its index. A kernel function that calls
  \<open>sched\<close> is cut there: the part before ends by saving where the process will go on
  (\<open>resume\<close>), the part after is run by the scheduler that picks the process.

  What the functions call in \<open>kalloc.c\<close>, \<open>vm.c\<close>, \<open>file.c\<close>, \<open>fs.c\<close> and \<open>log.c\<close> acts on a
  state of its own, \<open>'w\<close>, through the record \<open>'w ops\<close>.
\<close>

section \<open>State\<close>

datatype procstate = UNUSED | EMBRYO | SLEEPING | RUNNABLE | RUNNING | ZOMBIE

definition NPROC :: nat where "NPROC = 64"
definition NOFILE :: nat where "NOFILE = 16"
definition PGSIZE :: uint where "PGSIZE = 4096"

text \<open>The channels processes sleep on: a process, the tick counter, any other object.\<close>

datatype chan = ChProc nat | ChTicks | ChAddr uint

text \<open>The locks: the one of the process table, the one of the tick counter, any other.\<close>

datatype lockid = PtableLock | TicksLock | OtherLock nat

record trapframe =
  tf_cs :: uint
  tf_ds :: uint
  tf_es :: uint
  tf_ss :: uint
  tf_eflags :: uint
  tf_esp :: uint
  tf_ebp :: uint
  tf_eip :: uint
  tf_eax :: uint

text \<open>Where a process goes on when it is scheduled; \<open>sched\<close> keeps \<open>intena\<close> on its stack.\<close>

datatype resume = At_forkret | At_yield bool | At_sleep lockid bool | At_exit

record proc =
  p_sz :: uint
  p_pgdir :: uint
  p_kstack :: uint
  p_state :: procstate
  p_pid :: int32
  p_parent :: "nat option"
  p_tf :: trapframe
  p_context :: resume
  p_chan :: "chan option"
  p_killed :: bool
  p_ofile :: "nat option list"
  p_cwd :: "nat option"
  p_name :: string
  p_ticket :: int32
  p_sleepTicks :: int32
  p_sleepTicksCount :: int32
  p_runTicks :: int32
  p_boostsleft :: int32

record 'w ops =
  op_kalloc :: "'w \<Rightarrow> uint \<times> 'w"
  op_kfree :: "uint \<Rightarrow> 'w \<Rightarrow> 'w res"
  op_setupkvm :: "'w \<Rightarrow> uint \<times> 'w"
  op_inituvm :: "uint \<Rightarrow> 'w \<Rightarrow> 'w res"
  op_allocuvm :: "uint \<Rightarrow> uint \<Rightarrow> uint \<Rightarrow> 'w \<Rightarrow> uint \<times> 'w"
  op_deallocuvm :: "uint \<Rightarrow> uint \<Rightarrow> uint \<Rightarrow> 'w \<Rightarrow> uint \<times> 'w"
  op_copyuvm :: "uint \<Rightarrow> uint \<Rightarrow> 'w \<Rightarrow> uint \<times> 'w"
  op_freevm :: "uint \<Rightarrow> 'w \<Rightarrow> 'w res"
  op_filedup :: "nat \<Rightarrow> 'w \<Rightarrow> (nat \<times> 'w) res"
  op_fileclose :: "nat \<Rightarrow> 'w \<Rightarrow> 'w res"
  op_idup :: "nat option \<Rightarrow> 'w \<Rightarrow> (nat option \<times> 'w) res"
  op_iput :: "nat option \<Rightarrow> 'w \<Rightarrow> 'w res"
  op_namei_root :: "'w \<Rightarrow> nat option \<times> 'w"
  op_fsinit :: "'w \<Rightarrow> 'w res"

text \<open>The kernel, over the kind of process it has: this one here, threads in \<open>Threads\<close>.\<close>

record ('p, 'w) kern =
  k_cpus :: "cpu list"
  k_lock :: "lockid \<Rightarrow> spinlock"
  k_proc :: "'p list"
  k_nextpid :: int32
  k_rseed :: uint
  k_initproc :: "nat option"
  k_ticks :: uint
  k_first :: bool
  k_rest :: 'w

type_synonym 'w kernel = "(proc, 'w) kern"

definition pupd :: "nat \<Rightarrow> ('p \<Rightarrow> 'p) \<Rightarrow> ('p, 'w) kern \<Rightarrow> ('p, 'w) kern" where
  "pupd p f k = k\<lparr>k_proc := upd_at p f (k_proc k)\<rparr>"

definition k_acquire :: "nat \<Rightarrow> lockid \<Rightarrow> ('p, 'w) kern \<Rightarrow> ('p, 'w) kern res" where
  "k_acquire me l k = rbind (acquire me (k_lock k l) (k_cpus k))
     (\<lambda>(lk, cs). Ok (k\<lparr>k_lock := (k_lock k)(l := lk), k_cpus := cs\<rparr>))"

definition k_release :: "nat \<Rightarrow> lockid \<Rightarrow> ('p, 'w) kern \<Rightarrow> ('p, 'w) kern res" where
  "k_release me l k = rbind (release me (k_lock k l) (k_cpus k))
     (\<lambda>(lk, cs). Ok (k\<lparr>k_lock := (k_lock k)(l := lk), k_cpus := cs\<rparr>))"

definition k_myproc :: "nat \<Rightarrow> ('p, 'w) kern \<Rightarrow> (nat option \<times> ('p, 'w) kern) res" where
  "k_myproc me k = rbind (myproc me (k_cpus k)) (\<lambda>(p, cs). Ok (p, k\<lparr>k_cpus := cs\<rparr>))"

text \<open>\<open>myproc()->...\<close>: a null pointer is followed into undefined behaviour.\<close>

definition with_myproc :: "nat \<Rightarrow> ('p, 'w) kern \<Rightarrow> (nat \<Rightarrow> ('p, 'w) kern \<Rightarrow> 'a res) \<Rightarrow> 'a res" where
  "with_myproc me k f = rbind (k_myproc me k)
     (\<lambda>(p, k). case p of None \<Rightarrow> Undef | Some p \<Rightarrow> f p k)"

definition pinit :: "('p, 'w) kern \<Rightarrow> ('p, 'w) kern" where
  "pinit k = k\<lparr>k_lock := (k_lock k)(PtableLock := initlock ''ptable'')\<rparr>"

section \<open>The lottery\<close>

definition RAND_MAX :: uint where
  "RAND_MAX = 0x7fffffff"

definition rand :: "uint \<Rightarrow> uint" where
  "rand rseed = (rseed * 1103515245 + 12345) AND RAND_MAX"

definition weight :: "proc \<Rightarrow> int32" where
  "weight p = (if 0 < sint (p_boostsleft p) then 2 * p_ticket p else p_ticket p)"

text \<open>
  The loop over the table: it spends a boost of every runnable process and stops looking once
  the count passes the winning number (the comparison is of an int with a uint: unsigned).
\<close>

fun lottery_loop ::
  "uint \<Rightarrow> nat \<Rightarrow> int32 \<Rightarrow> nat option \<Rightarrow> proc list \<Rightarrow> nat option \<times> proc list" where
  "lottery_loop number i tally winner [] = (winner, [])"
| "lottery_loop number i tally winner (p # ps) =
     (if p_state p = RUNNABLE then
        let tally = tally + weight p;
            p' = (if 0 < sint (p_boostsleft p) then p\<lparr>p_boostsleft := p_boostsleft p - 1\<rparr> else p);
            winner = (if winner = None \<and> number < tally then Some i else winner)
        in (case lottery_loop number (Suc i) tally winner ps of (w, ps') \<Rightarrow> (w, p' # ps'))
      else (case lottery_loop number (Suc i) tally winner ps of (w, ps') \<Rightarrow> (w, p # ps')))"

definition hold_lottery :: "int32 \<Rightarrow> 'w kernel \<Rightarrow> nat option \<times> 'w kernel" where
  "hold_lottery total_tickets k =
     (if sint total_tickets \<le> 0 then (None, k)
      else
        let r = rand (k_rseed k);
            number = r mod total_tickets
        in (case lottery_loop number 0 0 None (k_proc k) of
              (winner, procs) \<Rightarrow> (winner, k\<lparr>k_rseed := r, k_proc := procs\<rparr>)))"

fun total_tickets :: "int32 \<Rightarrow> proc list \<Rightarrow> int32" where
  "total_tickets tally [] = tally"
| "total_tickets tally (p # ps) =
     total_tickets (if p_state p = RUNNABLE then tally + weight p else tally) ps"

text \<open>The sanity checks of \<open>switchuvm\<close> in \<open>vm.c\<close>; the hardware registers it loads are not kept.\<close>

definition switchuvm :: "nat option \<Rightarrow> proc list \<Rightarrow> unit res" where
  "switchuvm p procs =
     (case p of
        None \<Rightarrow> Panic ''switchuvm: no process''
      | Some i \<Rightarrow>
          if p_kstack (procs ! i) = 0 then Panic ''switchuvm: no kstack''
          else if p_pgdir (procs ! i) = 0 then Panic ''switchuvm: no pgdir''
          else Ok ())"

definition sti :: "nat \<Rightarrow> ('p, 'w) kern \<Rightarrow> ('p, 'w) kern" where
  "sti me k = k\<lparr>k_cpus := upd_at me (\<lambda>c. c\<lparr>cpu_if := True\<rparr>) (k_cpus k)\<rparr>"

definition set_cpu_proc :: "nat \<Rightarrow> nat option \<Rightarrow> ('p, 'w) kern \<Rightarrow> ('p, 'w) kern" where
  "set_cpu_proc me p k = k\<lparr>k_cpus := upd_at me (\<lambda>c. c\<lparr>cpu_proc := p\<rparr>) (k_cpus k)\<rparr>"

text \<open>
  One round of the scheduler: up to \<open>swtch\<close> into the chosen process (the result), or back to the
  top of the loop when nobody is runnable (None); and what it does when it is switched back to.
\<close>

definition scheduler_pick :: "nat \<Rightarrow> 'w kernel \<Rightarrow> (nat option \<times> 'w kernel) res" where
  "scheduler_pick me k =
     rbind (k_acquire me PtableLock (sti me k)) (\<lambda>k.
     let total = total_tickets 0 (k_proc k) in
     if total = 0 then rbind (k_release me PtableLock k) (\<lambda>k. Ok (None, k))
     else
       case hold_lottery total k of (p, k) \<Rightarrow>
         let k = set_cpu_proc me p k in
         rbind (switchuvm p (k_proc k)) (\<lambda>_.
           Ok (p, pupd (the p) (\<lambda>q. q\<lparr>p_state := RUNNING, p_runTicks := p_runTicks q + 1\<rparr>) k)))"

definition scheduler_back :: "nat \<Rightarrow> 'w kernel \<Rightarrow> 'w kernel res" where
  "scheduler_back me k = k_release me PtableLock (set_cpu_proc me None k)"

section \<open>Giving up the CPU\<close>

definition sched :: "nat \<Rightarrow> (bool \<Rightarrow> resume) \<Rightarrow> 'w kernel \<Rightarrow> 'w kernel res" where
  "sched me where_to k =
     rbind (k_myproc me k) (\<lambda>(p, k).
     rbind (holding me (k_lock k PtableLock) (k_cpus k)) (\<lambda>(h, cs).
       let k = k\<lparr>k_cpus := cs\<rparr> in
       if \<not> h then Panic ''sched ptable.lock''
       else rbind (mycpu me (k_cpus k)) (\<lambda>c.
         if cpu_ncli (k_cpus k ! c) \<noteq> 1 then Panic ''sched locks''
         else (case p of
           None \<Rightarrow> Undef
         | Some p \<Rightarrow>
             if p_state (k_proc k ! p) = RUNNING then Panic ''sched running''
             else if cpu_if (k_cpus k ! me) then Panic ''sched interruptible''
             else Ok (pupd p (\<lambda>q. q\<lparr>p_context := where_to (cpu_intena (k_cpus k ! c))\<rparr>) k)))))"

definition sched_return :: "nat \<Rightarrow> bool \<Rightarrow> ('p, 'w) kern \<Rightarrow> ('p, 'w) kern res" where
  "sched_return me intena k = rbind (mycpu me (k_cpus k)) (\<lambda>c.
     Ok (k\<lparr>k_cpus := upd_at c (\<lambda>cp. cp\<lparr>cpu_intena := intena\<rparr>) (k_cpus k)\<rparr>))"

definition yield :: "nat \<Rightarrow> 'w kernel \<Rightarrow> 'w kernel res" where
  "yield me k =
     rbind (k_acquire me PtableLock k) (\<lambda>k.
     with_myproc me k (\<lambda>p k.
       sched me At_yield (pupd p (\<lambda>q. q\<lparr>p_state := RUNNABLE\<rparr>) k)))"

definition yield_return :: "nat \<Rightarrow> bool \<Rightarrow> 'w kernel \<Rightarrow> 'w kernel res" where
  "yield_return me intena k =
     rbind (sched_return me intena k) (\<lambda>k. k_release me PtableLock k)"

definition forkret :: "'w ops \<Rightarrow> nat \<Rightarrow> 'w kernel \<Rightarrow> 'w kernel res" where
  "forkret ops me k =
     rbind (k_release me PtableLock k) (\<lambda>k.
       if k_first k then
         rbind (op_fsinit ops (k_rest k)) (\<lambda>w. Ok (k\<lparr>k_first := False, k_rest := w\<rparr>))
       else Ok k)"

definition sleep :: "nat \<Rightarrow> chan option \<Rightarrow> lockid option \<Rightarrow> 'w kernel \<Rightarrow> 'w kernel res" where
  "sleep me chan lk k =
     rbind (k_myproc me k) (\<lambda>(p, k).
       case p of
         None \<Rightarrow> Panic ''sleep''
       | Some p \<Rightarrow>
           (case lk of
              None \<Rightarrow> Panic ''sleep without lk''
            | Some l \<Rightarrow>
                rbind (if l \<noteq> PtableLock then
                         rbind (k_acquire me PtableLock k) (k_release me l)
                       else Ok k)
                  (\<lambda>k. sched me (At_sleep l)
                     (pupd p (\<lambda>q. q\<lparr>p_chan := chan, p_state := SLEEPING\<rparr>) k))))"

definition sleep_return :: "nat \<Rightarrow> lockid \<Rightarrow> bool \<Rightarrow> nat \<Rightarrow> 'w kernel \<Rightarrow> 'w kernel res" where
  "sleep_return me l intena p k =
     rbind (sched_return me intena k) (\<lambda>k.
       let k = pupd p (\<lambda>q. q\<lparr>p_chan := None\<rparr>) k in
       if l \<noteq> PtableLock then rbind (k_release me PtableLock k) (k_acquire me l) else Ok k)"

text \<open>Every call of \<open>wakeup1\<close> ages and boosts every sleeper; the sleepers on the channel that
  have slept long enough become runnable.\<close>

definition wakeup1_proc :: "chan option \<Rightarrow> proc \<Rightarrow> proc" where
  "wakeup1_proc chan p =
     (if p_state p = SLEEPING then
        let p = p\<lparr>p_boostsleft := p_boostsleft p + 1, p_sleepTicksCount := p_sleepTicksCount p + 1\<rparr> in
        if p_chan p = chan \<and> sint (p_sleepTicks p) \<le> sint (p_sleepTicksCount p)
        then p\<lparr>p_state := RUNNABLE, p_sleepTicksCount := 0, p_sleepTicks := 0\<rparr>
        else p
      else p)"

definition wakeup1 :: "chan option \<Rightarrow> proc list \<Rightarrow> proc list" where
  "wakeup1 chan procs = map (wakeup1_proc chan) procs"

definition wakeup :: "nat \<Rightarrow> chan option \<Rightarrow> 'w kernel \<Rightarrow> 'w kernel res" where
  "wakeup me chan k =
     rbind (k_acquire me PtableLock k) (\<lambda>k.
       k_release me PtableLock (k\<lparr>k_proc := wakeup1 chan (k_proc k)\<rparr>))"

section \<open>Processes\<close>

definition trapframe_zero :: trapframe where
  "trapframe_zero = \<lparr>tf_cs = 0, tf_ds = 0, tf_es = 0, tf_ss = 0, tf_eflags = 0, tf_esp = 0, tf_ebp = 0,
                     tf_eip = 0, tf_eax = 0\<rparr>"

definition allocproc :: "'w ops \<Rightarrow> nat \<Rightarrow> 'w kernel \<Rightarrow> (nat option \<times> 'w kernel) res" where
  "allocproc ops me k =
     rbind (k_acquire me PtableLock k) (\<lambda>k.
     case find_idx (\<lambda>p. p_state p = UNUSED) (k_proc k) of
       None \<Rightarrow> rbind (k_release me PtableLock k) (\<lambda>k. Ok (None, k))
     | Some p \<Rightarrow>
         let pid = k_nextpid k;
             k = pupd p (\<lambda>q. q\<lparr>p_state := EMBRYO, p_pid := pid\<rparr>) (k\<lparr>k_nextpid := pid + 1\<rparr>)
         in rbind (k_release me PtableLock k) (\<lambda>k.
           case op_kalloc ops (k_rest k) of (stack, w) \<Rightarrow>
             let k = pupd p (\<lambda>q. q\<lparr>p_kstack := stack\<rparr>) (k\<lparr>k_rest := w\<rparr>) in
             if stack = 0 then Ok (None, pupd p (\<lambda>q. q\<lparr>p_state := UNUSED\<rparr>) k)
             else Ok (Some p, pupd p (\<lambda>q. q\<lparr>p_context := At_forkret, p_ticket := 1,
               p_boostsleft := 0, p_runTicks := 0, p_sleepTicks := 0, p_sleepTicksCount := 0\<rparr>) k)))"

text \<open>\<open>safestrcpy(t, s, n)\<close> keeps at most \<open>n - 1\<close> characters.\<close>

definition safestrcpy :: "string \<Rightarrow> nat \<Rightarrow> string" where
  "safestrcpy s n = take (n - 1) s"

text \<open>The selectors and the interrupt bit come from \<open>mmu.h\<close>.\<close>

definition init_trapframe :: "uint \<Rightarrow> uint \<Rightarrow> uint \<Rightarrow> trapframe" where
  "init_trapframe ucode udata fl_if =
     trapframe_zero\<lparr>tf_cs := ucode, tf_ds := udata, tf_es := udata, tf_ss := udata,
                    tf_eflags := fl_if, tf_esp := PGSIZE, tf_eip := 0\<rparr>"

definition userinit :: "'w ops \<Rightarrow> trapframe \<Rightarrow> nat \<Rightarrow> 'w kernel \<Rightarrow> 'w kernel res" where
  "userinit ops tf me k =
     rbind (allocproc ops me k) (\<lambda>(p, k).
       let k = k\<lparr>k_initproc := p\<rparr> in
       case op_setupkvm ops (k_rest k) of (pgdir, w) \<Rightarrow>
         let k = k\<lparr>k_rest := w\<rparr> in
         case p of
           None \<Rightarrow> Undef
         | Some i \<Rightarrow>
             if pgdir = 0 then Panic ''userinit: out of memory?''
             else rbind (op_inituvm ops pgdir (k_rest k)) (\<lambda>w.
               case op_namei_root ops w of (cwd, w) \<Rightarrow>
                 let k = pupd i (\<lambda>q. q\<lparr>p_pgdir := pgdir, p_sz := PGSIZE, p_tf := tf,
                           p_name := safestrcpy ''initcode'' 16, p_cwd := cwd\<rparr>) (k\<lparr>k_rest := w\<rparr>)
                 in rbind (k_acquire me PtableLock k) (\<lambda>k.
                   k_release me PtableLock (pupd i (\<lambda>q. q\<lparr>p_state := RUNNABLE\<rparr>) k))))"

definition growproc :: "'w ops \<Rightarrow> nat \<Rightarrow> int32 \<Rightarrow> 'w kernel \<Rightarrow> (int \<times> 'w kernel) res" where
  "growproc ops me n k =
     with_myproc me k (\<lambda>p k.
       let q = k_proc k ! p; sz = p_sz q in
       if 0 < sint n then
         (case op_allocuvm ops (p_pgdir q) sz (sz + n) (k_rest k) of (sz, w) \<Rightarrow>
            let k = k\<lparr>k_rest := w\<rparr> in
            if sz = 0 then Ok (-1, k)
            else rbind (switchuvm (Some p) (k_proc k)) (\<lambda>_. Ok (0, pupd p (\<lambda>q. q\<lparr>p_sz := sz\<rparr>) k)))
       else if sint n < 0 then
         (case op_deallocuvm ops (p_pgdir q) sz (sz + n) (k_rest k) of (sz, w) \<Rightarrow>
            let k = k\<lparr>k_rest := w\<rparr> in
            if sz = 0 then Ok (-1, k)
            else rbind (switchuvm (Some p) (k_proc k)) (\<lambda>_. Ok (0, pupd p (\<lambda>q. q\<lparr>p_sz := sz\<rparr>) k)))
       else rbind (switchuvm (Some p) (k_proc k)) (\<lambda>_. Ok (0, pupd p (\<lambda>q. q\<lparr>p_sz := sz\<rparr>) k)))"

text \<open>\<open>for(i = 0; i < NOFILE; i++) if(ofile[i]) np->ofile[i] = filedup(ofile[i]);\<close>\<close>

fun dup_files :: "'w ops \<Rightarrow> nat option list \<Rightarrow> nat option list \<Rightarrow> 'w \<Rightarrow> (nat option list \<times> 'w) res" where
  "dup_files ops (Some f # fs) (n # ns) w =
     rbind (op_filedup ops f w) (\<lambda>(g, w).
     rbind (dup_files ops fs ns w) (\<lambda>(gs, w). Ok (Some g # gs, w)))"
| "dup_files ops (None # fs) (n # ns) w =
     rbind (dup_files ops fs ns w) (\<lambda>(gs, w). Ok (n # gs, w))"
| "dup_files ops _ ns w = Ok (ns, w)"

definition fork :: "'w ops \<Rightarrow> nat \<Rightarrow> 'w kernel \<Rightarrow> (int32 \<times> 'w kernel) res" where
  "fork ops me k =
     with_myproc me k (\<lambda>cur k.
     rbind (allocproc ops me k) (\<lambda>(np, k).
       case np of
         None \<Rightarrow> Ok (-1, k)
       | Some np \<Rightarrow>
           let c = k_proc k ! cur in
           case op_copyuvm ops (p_pgdir c) (p_sz c) (k_rest k) of (pgdir, w) \<Rightarrow>
             let k = pupd np (\<lambda>q. q\<lparr>p_pgdir := pgdir\<rparr>) (k\<lparr>k_rest := w\<rparr>) in
             if pgdir = 0 then
               rbind (op_kfree ops (p_kstack (k_proc k ! np)) (k_rest k)) (\<lambda>w.
                 Ok (-1, pupd np (\<lambda>q. q\<lparr>p_kstack := 0, p_state := UNUSED\<rparr>) (k\<lparr>k_rest := w\<rparr>)))
             else
               let k = pupd np (\<lambda>q. q\<lparr>p_sz := p_sz c, p_parent := Some cur,
                         p_tf := (p_tf c)\<lparr>tf_eax := 0\<rparr>, p_ticket := p_ticket c\<rparr>) k
               in rbind (dup_files ops (p_ofile c) (p_ofile (k_proc k ! np)) (k_rest k)) (\<lambda>(fs, w).
                  rbind (op_idup ops (p_cwd c) w) (\<lambda>(cwd, w).
                    let k = pupd np (\<lambda>q. q\<lparr>p_ofile := fs, p_cwd := cwd,
                              p_name := safestrcpy (p_name c) 16\<rparr>) (k\<lparr>k_rest := w\<rparr>);
                        pid = p_pid (k_proc k ! np)
                    in rbind (k_acquire me PtableLock k) (\<lambda>k.
                       rbind (k_release me PtableLock (pupd np (\<lambda>q. q\<lparr>p_state := RUNNABLE\<rparr>) k))
                         (\<lambda>k. Ok (pid, k)))))))"

fun close_files :: "'w ops \<Rightarrow> nat option list \<Rightarrow> 'w \<Rightarrow> (nat option list \<times> 'w) res" where
  "close_files ops [] w = Ok ([], w)"
| "close_files ops (f # fs) w =
     rbind (case f of None \<Rightarrow> Ok w | Some g \<Rightarrow> op_fileclose ops g w) (\<lambda>w.
     rbind (close_files ops fs w) (\<lambda>(gs, w). Ok (None # gs, w)))"

text \<open>Pass abandoned children to init; \<open>wakeup1(initproc)\<close> when one of them is a zombie.\<close>

definition ptr_chan :: "nat option \<Rightarrow> chan option" where
  "ptr_chan p = map_option ChProc p"

fun reparent :: "nat \<Rightarrow> nat option \<Rightarrow> nat list \<Rightarrow> proc list \<Rightarrow> proc list" where
  "reparent cur init [] procs = procs"
| "reparent cur init (i # is) procs =
     reparent cur init is
       (if p_parent (procs ! i) = Some cur then
          let procs = upd_at i (\<lambda>q. q\<lparr>p_parent := init\<rparr>) procs in
          if p_state (procs ! i) = ZOMBIE then wakeup1 (ptr_chan init) procs else procs
        else procs)"

definition exit_proc :: "'w ops \<Rightarrow> nat \<Rightarrow> 'w kernel \<Rightarrow> 'w kernel res" where
  "exit_proc ops me k =
     with_myproc me k (\<lambda>cur k.
       if Some cur = k_initproc k then Panic ''init exiting''
       else
         rbind (close_files ops (p_ofile (k_proc k ! cur)) (k_rest k)) (\<lambda>(fs, w).
         rbind (op_iput ops (p_cwd (k_proc k ! cur)) w) (\<lambda>w.
           let k = pupd cur (\<lambda>q. q\<lparr>p_ofile := fs, p_cwd := None\<rparr>) (k\<lparr>k_rest := w\<rparr>) in
           rbind (k_acquire me PtableLock k) (\<lambda>k.
             let procs = wakeup1 (ptr_chan (p_parent (k_proc k ! cur))) (k_proc k);
                 procs = reparent cur (k_initproc k) [0..<length procs] procs
             in sched me (\<lambda>_. At_exit)
                  (pupd cur (\<lambda>q. q\<lparr>p_state := ZOMBIE\<rparr>) (k\<lparr>k_proc := procs\<rparr>))))))"

text \<open>
  One scan of \<open>wait\<close>, with the table locked: it reaps the first zombie child, gives up, or goes
  to sleep and scans again when it returns (None).
\<close>

fun wait_scan :: "nat \<Rightarrow> nat \<Rightarrow> proc list \<Rightarrow> bool \<times> nat option" where
  "wait_scan cur i [] = (False, None)"
| "wait_scan cur i (p # ps) =
     (if p_parent p \<noteq> Some cur then wait_scan cur (Suc i) ps
      else if p_state p = ZOMBIE then (True, Some i)
      else (True, snd (wait_scan cur (Suc i) ps)))"

definition reaped :: "proc \<Rightarrow> proc" where
  "reaped q = q\<lparr>p_kstack := 0, p_pid := 0, p_parent := None, p_name := [], p_killed := False,
               p_state := UNUSED\<rparr>"

definition wait_loop :: "'w ops \<Rightarrow> nat \<Rightarrow> nat \<Rightarrow> 'w kernel \<Rightarrow> (int32 option \<times> 'w kernel) res" where
  "wait_loop ops me cur k =
     (case wait_scan cur 0 (k_proc k) of
        (havekids, Some i) \<Rightarrow>
          let q = k_proc k ! i in
          rbind (op_kfree ops (p_kstack q) (k_rest k)) (\<lambda>w.
          rbind (op_freevm ops (p_pgdir q) w) (\<lambda>w.
          rbind (k_release me PtableLock (pupd i reaped (k\<lparr>k_rest := w\<rparr>)))
            (\<lambda>k. Ok (Some (p_pid q), k))))
      | (havekids, None) \<Rightarrow>
          if \<not> havekids \<or> p_killed (k_proc k ! cur) then
            rbind (k_release me PtableLock k) (\<lambda>k. Ok (Some (-1), k))
          else rbind (sleep me (Some (ChProc cur)) (Some PtableLock) k) (\<lambda>k. Ok (None, k)))"

definition wait :: "'w ops \<Rightarrow> nat \<Rightarrow> 'w kernel \<Rightarrow> (int32 option \<times> 'w kernel) res" where
  "wait ops me k =
     with_myproc me k (\<lambda>cur k. rbind (k_acquire me PtableLock k) (wait_loop ops me cur))"

definition wait_return ::
  "'w ops \<Rightarrow> nat \<Rightarrow> bool \<Rightarrow> nat \<Rightarrow> 'w kernel \<Rightarrow> (int32 option \<times> 'w kernel) res" where
  "wait_return ops me intena cur k =
     rbind (sleep_return me PtableLock intena cur k) (wait_loop ops me cur)"

definition kill :: "nat \<Rightarrow> int32 \<Rightarrow> 'w kernel \<Rightarrow> (int \<times> 'w kernel) res" where
  "kill me pid k =
     rbind (k_acquire me PtableLock k) (\<lambda>k.
     case find_idx (\<lambda>p. p_pid p = pid) (k_proc k) of
       Some i \<Rightarrow>
         let k = pupd i (\<lambda>q. q\<lparr>p_killed := True,
                   p_state := (if p_state q = SLEEPING then RUNNABLE else p_state q)\<rparr>) k
         in rbind (k_release me PtableLock k) (\<lambda>k. Ok (0, k))
     | None \<Rightarrow> rbind (k_release me PtableLock k) (\<lambda>k. Ok (-1, k)))"

definition settickets :: "nat \<Rightarrow> int32 \<Rightarrow> int32 \<Rightarrow> 'w kernel \<Rightarrow> (int \<times> 'w kernel) res" where
  "settickets me pid n_tickets k =
     rbind (k_acquire me PtableLock k) (\<lambda>k.
     let found = find_idx (\<lambda>p. p_pid p = pid) (k_proc k);
         k = (case found of Some i \<Rightarrow> pupd i (\<lambda>q. q\<lparr>p_ticket := n_tickets\<rparr>) k | None \<Rightarrow> k)
     in rbind (k_release me PtableLock k) (\<lambda>k. Ok (if found = None then -1 else 0, k)))"

record pstat =
  ps_inuse :: "int32 list"
  ps_pid :: "int32 list"
  ps_tickets :: "int32 list"
  ps_runticks :: "int32 list"
  ps_boostsleft :: "int32 list"

definition getpinfo :: "nat \<Rightarrow> 'w kernel \<Rightarrow> (int \<times> pstat \<times> 'w kernel) res" where
  "getpinfo me k =
     rbind (k_acquire me PtableLock k) (\<lambda>k.
     let ps = k_proc k;
         st = \<lparr>ps_inuse = map (\<lambda>p. if p_state p = UNUSED then 0 else 1) ps,
               ps_pid = map p_pid ps, ps_tickets = map p_ticket ps,
               ps_runticks = map p_runTicks ps, ps_boostsleft = map p_boostsleft ps\<rparr>
     in rbind (k_release me PtableLock k) (\<lambda>k. Ok (0, st, k)))"

fun state_name :: "procstate \<Rightarrow> string" where
  "state_name UNUSED = ''unused''"
| "state_name EMBRYO = ''embryo''"
| "state_name SLEEPING = ''sleep ''"
| "state_name RUNNABLE = ''runble''"
| "state_name RUNNING = ''run   ''"
| "state_name ZOMBIE = ''zombie''"

text \<open>\<open>pcs\<close> is what \<open>getcallerpcs\<close> finds on the stack of a sleeper, \<open>show_ptr\<close> is \<open>%p\<close>.\<close>

definition procdump :: "(nat \<Rightarrow> uint list) \<Rightarrow> (uint \<Rightarrow> string) \<Rightarrow> proc list \<Rightarrow> string" where
  "procdump pcs show_ptr procs =
     concat (map (\<lambda>(i, p).
       if p_state p = UNUSED then []
       else c_show_int (sint (p_pid p)) @ '' '' @ state_name (p_state p) @ '' '' @ p_name p @
            (if p_state p = SLEEPING
             then concat (map (\<lambda>pc. '' '' @ show_ptr pc) (takeWhile (\<lambda>pc. pc \<noteq> 0) (take 10 (pcs i))))
             else []) @ [c_newline])
       (enumerate 0 procs))"

section \<open>System calls\<close>

text \<open>The arguments are what \<open>argint\<close> fetched: None when the user stack is out of bounds.\<close>

definition sys_kill :: "nat \<Rightarrow> int32 option \<Rightarrow> 'w kernel \<Rightarrow> (int \<times> 'w kernel) res" where
  "sys_kill me pid k = (case pid of None \<Rightarrow> Ok (-1, k) | Some pid \<Rightarrow> kill me pid k)"

definition sys_getpid :: "nat \<Rightarrow> 'w kernel \<Rightarrow> (int32 \<times> 'w kernel) res" where
  "sys_getpid me k = with_myproc me k (\<lambda>p k. Ok (p_pid (k_proc k ! p), k))"

definition sys_sbrk :: "'w ops \<Rightarrow> nat \<Rightarrow> int32 option \<Rightarrow> 'w kernel \<Rightarrow> (int32 \<times> 'w kernel) res" where
  "sys_sbrk ops me n k =
     (case n of
        None \<Rightarrow> Ok (-1, k)
      | Some n \<Rightarrow>
          with_myproc me k (\<lambda>p k.
            let addr = p_sz (k_proc k ! p) in
            rbind (growproc ops me n k) (\<lambda>(r, k). Ok (if r < 0 then -1 else addr, k))))"

definition sys_sleep :: "nat \<Rightarrow> int32 option \<Rightarrow> 'w kernel \<Rightarrow> (int option \<times> 'w kernel) res" where
  "sys_sleep me n k =
     (case n of
        None \<Rightarrow> Ok (Some (-1), k)
      | Some n \<Rightarrow>
          rbind (k_acquire me TicksLock k) (\<lambda>k.
          with_myproc me k (\<lambda>p k.
          rbind (sleep me (Some ChTicks) (Some TicksLock) (pupd p (\<lambda>q. q\<lparr>p_sleepTicks := n\<rparr>) k))
            (\<lambda>k. Ok (None, k)))))"

definition sys_sleep_return :: "nat \<Rightarrow> bool \<Rightarrow> nat \<Rightarrow> 'w kernel \<Rightarrow> (int \<times> 'w kernel) res" where
  "sys_sleep_return me intena p k =
     rbind (sleep_return me TicksLock intena p k) (\<lambda>k.
     rbind (k_release me TicksLock k) (\<lambda>k. Ok (0, k)))"

definition sys_uptime :: "nat \<Rightarrow> 'w kernel \<Rightarrow> (uint \<times> 'w kernel) res" where
  "sys_uptime me k =
     rbind (k_acquire me TicksLock k) (\<lambda>k.
       let xticks = k_ticks k in rbind (k_release me TicksLock k) (\<lambda>k. Ok (xticks, k)))"

definition sys_settickets ::
  "nat \<Rightarrow> int32 option \<Rightarrow> int32 option \<Rightarrow> 'w kernel \<Rightarrow> (int \<times> 'w kernel) res" where
  "sys_settickets me pid n_tickets k =
     (case (pid, n_tickets) of
        (Some pid, Some n) \<Rightarrow>
          if sint pid < 0 \<or> sint n \<le> 0 then Ok (-1, k) else settickets me pid n k
      | _ \<Rightarrow> Ok (-1, k))"

text \<open>\<open>argint\<close> is not checked: when it fails the seed is an uninitialised variable.\<close>

definition sys_srand :: "uint option \<Rightarrow> 'w kernel \<Rightarrow> 'w kernel res" where
  "sys_srand seed k = (case seed of None \<Rightarrow> Undef | Some s \<Rightarrow> Ok (k\<lparr>k_rseed := s\<rparr>))"

definition sys_getpinfo :: "nat \<Rightarrow> bool \<Rightarrow> 'w kernel \<Rightarrow> (int \<times> pstat option \<times> 'w kernel) res" where
  "sys_getpinfo me arg_ok k =
     (if \<not> arg_ok then Ok (-1, None, k)
      else rbind (getpinfo me k) (\<lambda>(r, st, k). Ok (r, Some st, k)))"

section \<open>The timer interrupt\<close>

text \<open>The part of \<open>trap\<close> that counts the tick, on CPU 0 only.\<close>

definition timer_tick :: "nat \<Rightarrow> 'w kernel \<Rightarrow> 'w kernel res" where
  "timer_tick me k =
     rbind (cpuid me (k_cpus k)) (\<lambda>c.
       if c = 0 then
         rbind (k_acquire me TicksLock k) (\<lambda>k.
         rbind (wakeup me (Some ChTicks) (k\<lparr>k_ticks := k_ticks k + 1\<rparr>)) (k_release me TicksLock))
       else Ok k)"

end
