(* ===== verification/VM.thy ===== *)
theory VM
  imports KAlloc Proc
begin

text \<open>
  P4, the first part of \<open>vm.c\<close>: two-level page tables, and the functions that build, grow, shrink,
  copy and free an address space, changed so that an entry whose page is encrypted counts as a page
  although its present bit is clear. The header that defines the bit \<open>PTE_E\<close> is not in the
  repository: the bit is a parameter, and so are the symbols of the linker script.
\<close>

section \<open>Page table entries\<close>

record vmpar =
  pte_e :: uint
  kernel_end :: uint
  kernel_data :: uint

definition PTE_P :: uint where "PTE_P = 1"
definition PTE_W :: uint where "PTE_W = 2"
definition PTE_U :: uint where "PTE_U = 4"
definition PTE_A :: uint where "PTE_A = 0x20"

definition PDX :: "uint \<Rightarrow> uint" where "PDX va = drop_bit 22 va AND 0x3FF"
definition PTX :: "uint \<Rightarrow> uint" where "PTX va = drop_bit 12 va AND 0x3FF"
definition PGADDR :: "uint \<Rightarrow> uint \<Rightarrow> uint \<Rightarrow> uint" where
  "PGADDR d t off = push_bit 22 d OR push_bit 12 t OR off"
definition PTE_ADDR :: "uint \<Rightarrow> uint" where "PTE_ADDR pte = pte AND NOT 0xFFF"
definition PTE_FLAGS :: "uint \<Rightarrow> uint" where "PTE_FLAGS pte = pte AND 0xFFF"

text \<open>The entry is in use: present or encrypted.\<close>

definition in_use :: "vmpar \<Rightarrow> uint \<Rightarrow> bool" where
  "in_use M pte \<longleftrightarrow> pte AND (PTE_P OR pte_e M) \<noteq> 0"

definition set_pte :: "uint \<Rightarrow> uint \<Rightarrow> vmem \<Rightarrow> vmem" where
  "set_pte a v m = m\<lparr>v_pte := (v_pte m)(a := v)\<rparr>"

section \<open>Walking and mapping\<close>

definition walkpgdir :: "uint \<Rightarrow> uint \<Rightarrow> bool \<Rightarrow> vmem \<Rightarrow> uint option \<times> vmem" where
  "walkpgdir pgdir va alloc m =
     (let pde = pgdir + 4 * PDX va in
      if v_pte m pde AND PTE_P \<noteq> 0 then
        (Some (P2V (PTE_ADDR (v_pte m pde)) + 4 * PTX va), m)
      else if \<not> alloc then (None, m)
      else case kalloc m of (pgtab, m) \<Rightarrow>
        if pgtab = 0 then (None, m)
        else (Some (pgtab + 4 * PTX va),
              set_pte pde (V2P pgtab OR PTE_P OR PTE_W OR PTE_U) (fill_page pgtab 0 m)))"

text \<open>The lookup without allocation.\<close>

definition pte_of :: "uint \<Rightarrow> uint \<Rightarrow> vmem \<Rightarrow> uint option" where
  "pte_of pgdir va m = fst (walkpgdir pgdir va False m)"

text \<open>
  The loop of \<open>mappages\<close> from page \<open>a\<close> to page \<open>end_page\<close>; \<open>n\<close> bounds its rounds, and the bound
  \<open>mappages\<close> passes is the number of pages from \<open>a\<close> to \<open>end_page\<close>. The result is 0 or -1.
\<close>

fun map_from :: "vmpar \<Rightarrow> nat \<Rightarrow> uint \<Rightarrow> uint \<Rightarrow> uint \<Rightarrow> uint \<Rightarrow> uint \<Rightarrow> vmem \<Rightarrow> (int \<times> vmem) res" where
  "map_from M 0 pgdir a end_page pa perm m = Hang"
| "map_from M (Suc n) pgdir a end_page pa perm m =
     (case walkpgdir pgdir a True m of
        (None, m) \<Rightarrow> Ok (-1, m)
      | (Some pte, m) \<Rightarrow>
          if in_use M (v_pte m pte) then Panic ''p4Debug, remapping page''
          else
            let m = set_pte pte (if perm AND pte_e M \<noteq> 0 then pa OR perm OR pte_e M
                                 else pa OR perm OR PTE_P) m
            in if a = end_page then Ok (0, m)
               else map_from M n pgdir (a + 4096) end_page (pa + 4096) perm m)"

definition mappages :: "vmpar \<Rightarrow> uint \<Rightarrow> uint \<Rightarrow> uint \<Rightarrow> uint \<Rightarrow> uint \<Rightarrow> vmem \<Rightarrow> (int \<times> vmem) res" where
  "mappages M pgdir va len pa perm m =
     (let a = PGROUNDDOWN va; end_page = PGROUNDDOWN (va + len - 1) in
      map_from M (Suc (unat (drop_bit 12 (end_page - a)))) pgdir a end_page pa perm m)"

section \<open>Shrinking and freeing\<close>

text \<open>The loop of \<open>deallocuvm\<close>; \<open>n\<close> bounds its rounds. A missing table skips to the next one.\<close>

fun dealloc_from :: "vmpar \<Rightarrow> nat \<Rightarrow> uint \<Rightarrow> uint \<Rightarrow> uint \<Rightarrow> vmem \<Rightarrow> vmem res" where
  "dealloc_from M 0 pgdir a oldsz m = (if a < oldsz then Hang else Ok m)"
| "dealloc_from M (Suc n) pgdir a oldsz m =
     (if \<not> a < oldsz then Ok m
      else case pte_of pgdir a m of
        None \<Rightarrow> dealloc_from M n pgdir (PGADDR (PDX a + 1) 0 0 - 4096 + 4096) oldsz m
      | Some pte \<Rightarrow>
          if in_use M (v_pte m pte) then
            let pa = PTE_ADDR (v_pte m pte) in
            if pa = 0 then Panic ''kfree''
            else rbind (kfree (kernel_end M) (P2V pa) m) (\<lambda>m.
                   dealloc_from M n pgdir (a + 4096) oldsz (set_pte pte 0 m))
          else dealloc_from M n pgdir (a + 4096) oldsz m)"

definition deallocuvm :: "vmpar \<Rightarrow> uint \<Rightarrow> uint \<Rightarrow> uint \<Rightarrow> vmem \<Rightarrow> (uint \<times> vmem) res" where
  "deallocuvm M pgdir oldsz newsz m =
     (if newsz \<ge> oldsz then Ok (oldsz, m)
      else let a = PGROUNDUP newsz in
        rbind (dealloc_from M (Suc (unat (drop_bit 12 (oldsz - a)))) pgdir a oldsz m) (\<lambda>m. Ok (newsz, m)))"

fun free_tables :: "vmpar \<Rightarrow> uint \<Rightarrow> nat list \<Rightarrow> vmem \<Rightarrow> vmem res" where
  "free_tables M pgdir [] m = Ok m"
| "free_tables M pgdir (i # is) m =
     (let pde = v_pte m (pgdir + 4 * of_nat i) in
      if in_use M pde then
        rbind (kfree (kernel_end M) (P2V (PTE_ADDR pde)) m) (free_tables M pgdir is)
      else free_tables M pgdir is m)"

definition freevm :: "vmpar \<Rightarrow> uint \<Rightarrow> vmem \<Rightarrow> vmem res" where
  "freevm M pgdir m =
     (if pgdir = 0 then Panic ''freevm: no pgdir''
      else rbind (deallocuvm M pgdir KERNBASE 0 m) (\<lambda>(sz, m).
           rbind (free_tables M pgdir [0..<1024] m) (\<lambda>m.
             kfree (kernel_end M) pgdir m)))"

section \<open>The kernel part and growing\<close>

text \<open>The rows of \<open>kmap\<close>: virtual address, physical range, permissions.\<close>

definition kmap :: "vmpar \<Rightarrow> (uint \<times> uint \<times> uint \<times> uint) list" where
  "kmap M = [(KERNBASE, 0, EXTMEM, PTE_W), (KERNBASE + EXTMEM, EXTMEM, V2P (kernel_data M), 0),
             (kernel_data M, V2P (kernel_data M), PHYSTOP, PTE_W), (DEVSPACE, DEVSPACE, 0, PTE_W)]"

fun map_kernel :: "vmpar \<Rightarrow> uint \<Rightarrow> (uint \<times> uint \<times> uint \<times> uint) list \<Rightarrow> vmem \<Rightarrow> (uint \<times> vmem) res" where
  "map_kernel M pgdir [] m = Ok (pgdir, m)"
| "map_kernel M pgdir ((virt, start, stop, perm) # ks) m =
     rbind (mappages M pgdir virt (stop - start) start perm m) (\<lambda>(r, m).
       if r < 0 then rbind (freevm M pgdir m) (\<lambda>m. Ok (0, m))
       else map_kernel M pgdir ks m)"

definition setupkvm :: "vmpar \<Rightarrow> vmem \<Rightarrow> (uint \<times> vmem) res" where
  "setupkvm M m =
     (case kalloc m of (pgdir, m) \<Rightarrow>
        if pgdir = 0 then Ok (0, m)
        else if P2V PHYSTOP > DEVSPACE then Panic ''PHYSTOP too high''
        else map_kernel M pgdir (kmap M) (fill_page pgdir 0 m))"

text \<open>The loop of \<open>allocuvm\<close> over the pages to add; the result is whether all were added.\<close>

fun alloc_pages :: "vmpar \<Rightarrow> uint \<Rightarrow> uint list \<Rightarrow> uint \<Rightarrow> uint \<Rightarrow> vmem \<Rightarrow> (uint \<times> vmem) res" where
  "alloc_pages M pgdir [] oldsz newsz m = Ok (newsz, m)"
| "alloc_pages M pgdir (a # as) oldsz newsz m =
     (case kalloc m of (mem, m) \<Rightarrow>
        if mem = 0 then rbind (deallocuvm M pgdir newsz oldsz m) (\<lambda>(sz, m). Ok (0, m))
        else rbind (mappages M pgdir a 4096 (V2P mem) (PTE_W OR PTE_U) (fill_page mem 0 m)) (\<lambda>(r, m).
          if r < 0 then
            rbind (deallocuvm M pgdir newsz oldsz m) (\<lambda>(sz, m).
            rbind (kfree (kernel_end M) mem m) (\<lambda>m. Ok (0, m)))
          else alloc_pages M pgdir as oldsz newsz m))"

text \<open>The page addresses \<open>a\<close>, \<open>a + PGSIZE\<close>, ... below \<open>b\<close>: the values of the loop variable.\<close>

definition pages_between :: "uint \<Rightarrow> uint \<Rightarrow> uint list" where
  "pages_between a b =
     (if a < b then map (\<lambda>i. a + of_nat i * 4096) [0..<Suc (unat (drop_bit 12 (b - a - 1)))] else [])"

definition allocuvm :: "vmpar \<Rightarrow> uint \<Rightarrow> uint \<Rightarrow> uint \<Rightarrow> vmem \<Rightarrow> (uint \<times> vmem) res" where
  "allocuvm M pgdir oldsz newsz m =
     (if newsz \<ge> KERNBASE then Ok (0, m)
      else if newsz < oldsz then Ok (oldsz, m)
      else alloc_pages M pgdir (pages_between (PGROUNDUP oldsz) newsz) oldsz newsz m)"

section \<open>Copying\<close>

text \<open>\<open>memmove\<close> of \<open>n\<close> bytes.\<close>

definition copy_bytes :: "uint \<Rightarrow> uint \<Rightarrow> uint \<Rightarrow> vmem \<Rightarrow> vmem" where
  "copy_bytes dst src n m =
     m\<lparr>v_byte := (\<lambda>x. if x - dst < n then v_byte m (src + (x - dst)) else v_byte m x)\<rparr>"

definition inituvm :: "vmpar \<Rightarrow> uint \<Rightarrow> uint \<Rightarrow> uint \<Rightarrow> vmem \<Rightarrow> vmem res" where
  "inituvm M pgdir code sz m =
     (if sz \<ge> 4096 then Panic ''inituvm: more than a page''
      else case kalloc m of (mem, m) \<Rightarrow>
        if mem = 0 then Undef
        else rbind (mappages M pgdir 0 4096 (V2P mem) (PTE_W OR PTE_U) (fill_page mem 0 m)) (\<lambda>(r, m).
          Ok (copy_bytes mem code sz m)))"

text \<open>\<open>loaduvm\<close> reads the segment from a file: \<open>readi dst off n\<close> copies into memory and returns
  the number of bytes it read.\<close>

fun load_pages ::
  "(uint \<Rightarrow> uint \<Rightarrow> uint \<Rightarrow> vmem \<Rightarrow> uint \<times> vmem) \<Rightarrow> uint \<Rightarrow> uint \<Rightarrow> uint \<Rightarrow> uint \<Rightarrow> uint list \<Rightarrow> vmem \<Rightarrow> (int \<times> vmem) res" where
  "load_pages readi pgdir addr off sz [] m = Ok (0, m)"
| "load_pages readi pgdir addr off sz (i # is) m =
     (case pte_of pgdir (addr + i) m of
        None \<Rightarrow> Panic ''loaduvm: address should exist''
      | Some pte \<Rightarrow>
          let n = (if sz - i < 4096 then sz - i else 4096) in
          case readi (P2V (PTE_ADDR (v_pte m pte))) (off + i) n m of (r, m) \<Rightarrow>
            if r \<noteq> n then Ok (-1, m) else load_pages readi pgdir addr off sz is m)"

definition loaduvm ::
  "(uint \<Rightarrow> uint \<Rightarrow> uint \<Rightarrow> vmem \<Rightarrow> uint \<times> vmem) \<Rightarrow> uint \<Rightarrow> uint \<Rightarrow> uint \<Rightarrow> uint \<Rightarrow> vmem \<Rightarrow> (int \<times> vmem) res" where
  "loaduvm readi pgdir addr off sz m =
     (if addr mod 4096 \<noteq> 0 then Panic ''loaduvm: addr must be page aligned''
      else load_pages readi pgdir addr off sz (pages_between 0 sz) m)"

definition clearpteu :: "uint \<Rightarrow> uint \<Rightarrow> vmem \<Rightarrow> vmem res" where
  "clearpteu pgdir uva m =
     (case pte_of pgdir uva m of
        None \<Rightarrow> Panic ''clearpteu''
      | Some pte \<Rightarrow> Ok (set_pte pte (v_pte m pte AND NOT PTE_U) m))"

fun copy_pages :: "vmpar \<Rightarrow> uint \<Rightarrow> uint \<Rightarrow> uint list \<Rightarrow> vmem \<Rightarrow> (uint \<times> vmem) res" where
  "copy_pages M pgdir d [] m = Ok (d, m)"
| "copy_pages M pgdir d (i # is) m =
     (case pte_of pgdir i m of
        None \<Rightarrow> Panic ''p4Debug: inside copyuvm, pte should exist''
      | Some pte \<Rightarrow>
          if \<not> in_use M (v_pte m pte) then Panic ''p4Debug: inside copyuvm, page not present''
          else
            let pa = PTE_ADDR (v_pte m pte); flags = PTE_FLAGS (v_pte m pte) in
            case kalloc m of (mem, m) \<Rightarrow>
              if mem = 0 then rbind (freevm M d m) (\<lambda>m. Ok (0, m))
              else rbind (mappages M d i 4096 (V2P mem) flags (copy_bytes mem (P2V pa) 4096 m)) (\<lambda>(r, m).
                if r < 0 then
                  rbind (kfree (kernel_end M) mem m) (\<lambda>m. rbind (freevm M d m) (\<lambda>m. Ok (0, m)))
                else copy_pages M pgdir d is m))"

definition copyuvm :: "vmpar \<Rightarrow> uint \<Rightarrow> uint \<Rightarrow> vmem \<Rightarrow> (uint \<times> vmem) res" where
  "copyuvm M pgdir sz m =
     rbind (setupkvm M m) (\<lambda>(d, m).
       if d = 0 then Ok (0, m) else copy_pages M pgdir d (pages_between 0 sz) m)"

text \<open>
  The kernel address of a user page, 0 when there is none. The code reads the entry without asking
  whether the page has a table at all.
\<close>

definition uva2ka :: "vmpar \<Rightarrow> uint \<Rightarrow> uint \<Rightarrow> vmem \<Rightarrow> uint res" where
  "uva2ka M pgdir uva m =
     (case pte_of pgdir uva m of
        None \<Rightarrow> Undef
      | Some pte \<Rightarrow>
          if (v_pte m pte AND PTE_P) OR (v_pte m pte AND pte_e M) = 0 then Ok 0
          else if v_pte m pte AND PTE_U = 0 then Ok 0
          else Ok (P2V (PTE_ADDR (v_pte m pte))))"

function copyout :: "vmpar \<Rightarrow> uint \<Rightarrow> uint \<Rightarrow> uint \<Rightarrow> uint \<Rightarrow> vmem \<Rightarrow> (int \<times> vmem) res" where
  "copyout M pgdir va buf len m =
     (if len = 0 then Ok (0, m)
      else
        let va0 = PGROUNDDOWN va in
        rbind (uva2ka M pgdir va0 m) (\<lambda>pa0.
          if pa0 = 0 then Ok (-1, m)
          else
            let n = (if 4096 - (va - va0) > len then len else 4096 - (va - va0)) in
            if n = 0 then Hang
            else copyout M pgdir (va0 + 4096) (buf + n) (len - n) (copy_bytes (pa0 + (va - va0)) buf n m)))"
  by pat_completeness auto
termination
proof (relation "measure (\<lambda>(M, pgdir, va, buf, len, m). unat len)", goal_cases)
  case 1
  show ?case by simp
next
  case (2 M pgdir va buf len m va0 pa0 n)
  then have "n \<le> len" "0 < unat n" by (auto simp: unat_gt_0 not_less split: if_splits)
  then have "unat (len - n) = unat len - unat n" "unat n \<le> unat len"
    by (simp_all add: unat_sub word_le_nat_alt)
  with \<open>0 < unat n\<close> show ?case by simp
qed

text \<open>The bytes left in a page are never none: the guard that would loop is dead.\<close>

declare copyout.simps [simp del]

lemma copyout_none [simp]: "copyout M pgdir va buf 0 m = Ok (0, m)"
  by (subst copyout.simps) simp

end
