(* ===== verification/MemEnc.thy ===== *)
theory MemEnc
  imports VM
begin

text \<open>
  P4, memory encryption: the second part of \<open>vm.c\<close> (encrypting and decrypting pages, the clock queue
  of decrypted pages, the two statistics calls), with the changes to \<open>proc.c\<close>, \<open>exec.c\<close>,
  \<open>sysproc.c\<close> and \<open>trap.c\<close>. The functions act on the running process and the memory.
\<close>

section \<open>State\<close>

definition CLOCKSIZE :: nat where "CLOCKSIZE = 128"

text \<open>A pointer to an entry may be null.\<close>

record node =
  nd_vpn :: uint
  nd_pte :: "uint option"

record mproc =
  mp_sz :: uint
  mp_pgdir :: uint
  mp_kstack :: uint
  mp_queue :: "node list"
  mp_index :: int

type_synonym mstate = "mproc \<times> vmem"

text \<open>The end of \<open>allocproc\<close>: an empty queue; the pointers are not set.\<close>

definition clear_queue :: "mproc \<Rightarrow> mproc" where
  "clear_queue p = p\<lparr>mp_index := -1, mp_queue := map (\<lambda>nd. nd\<lparr>nd_vpn := -1\<rparr>) (mp_queue p)\<rparr>"

definition m_switchuvm :: "mproc \<Rightarrow> unit res" where
  "m_switchuvm p =
     (if mp_kstack p = 0 then Panic ''switchuvm: no kstack''
      else if mp_pgdir p = 0 then Panic ''switchuvm: no pgdir''
      else Ok ())"

section \<open>Encrypting and decrypting\<close>

text \<open>The loop that complements every byte of a page.\<close>

definition flip_page :: "uint \<Rightarrow> vmem \<Rightarrow> vmem" where
  "flip_page ka m = m\<lparr>v_byte := (\<lambda>x. if in_page ka x then v_byte m x XOR 0xFF else v_byte m x)\<rparr>"

definition encrypt_page :: "vmpar \<Rightarrow> uint \<Rightarrow> uint \<Rightarrow> vmem \<Rightarrow> vmem res" where
  "encrypt_page M pgdir a m =
     rbind (uva2ka M pgdir a m) (\<lambda>ka.
       if ka = 0 then Ok m
       else case pte_of pgdir a m of
         None \<Rightarrow> Undef
       | Some pte \<Rightarrow>
           if v_pte m pte AND pte_e M \<noteq> 0 then Ok m
           else Ok (flip_page ka (set_pte pte ((v_pte m pte AND NOT PTE_P) OR pte_e M) m)))"

fun encrypt_pages :: "vmpar \<Rightarrow> uint \<Rightarrow> uint list \<Rightarrow> vmem \<Rightarrow> vmem res" where
  "encrypt_pages M pgdir [] m = Ok m"
| "encrypt_pages M pgdir (a # as) m = rbind (encrypt_page M pgdir a m) (encrypt_pages M pgdir as)"

definition mencrypt :: "vmpar \<Rightarrow> uint \<Rightarrow> int32 \<Rightarrow> mstate \<Rightarrow> (int \<times> mstate) res" where
  "mencrypt M va len s =
     (if len = 0 then Ok (0, s)
      else if sint len < 0 then Ok (-1, s)
      else case s of (p, m) \<Rightarrow>
        let start = PGROUNDDOWN va in
        rbind (encrypt_pages M (mp_pgdir p) (map (\<lambda>i. start + of_nat i * 4096) [0..<nat (sint len)]) m) (\<lambda>m.
        rbind (m_switchuvm p) (\<lambda>_. Ok (0, p, m))))"

section \<open>The clock queue\<close>

definition set_slot :: "nat \<Rightarrow> uint \<Rightarrow> uint option \<Rightarrow> mproc \<Rightarrow> mproc" where
  "set_slot i vpn pte p = p\<lparr>mp_queue := (mp_queue p)[i := \<lparr>nd_vpn = vpn, nd_pte = pte\<rparr>]\<rparr>"

text \<open>The loop of \<open>insertQueue\<close>: the hand advances to an empty slot or to a page that has not been
  accessed, clearing the access bits it passes. The first argument bounds the rounds.\<close>

fun clock_scan :: "vmpar \<Rightarrow> nat \<Rightarrow> uint \<Rightarrow> uint option \<Rightarrow> mstate \<Rightarrow> mstate res" where
  "clock_scan M 0 vpn pte s = Hang"
| "clock_scan M (Suc n) vpn pte (p, m) =
     (let i = (mp_index p + 1) mod int CLOCKSIZE; p = p\<lparr>mp_index := i\<rparr>; nd = mp_queue p ! nat i in
      if nd_vpn nd = -1 then Ok (set_slot (nat i) vpn pte p, m)
      else case nd_pte nd of
        None \<Rightarrow> Undef
      | Some q \<Rightarrow>
          if v_pte m q AND PTE_A = 0 then
            rbind (mencrypt M (nd_vpn nd) 1 (p, m)) (\<lambda>(r, p, m). Ok (set_slot (nat i) vpn pte p, m))
          else clock_scan M n vpn pte (p, set_pte q (v_pte m q AND NOT PTE_A) m))"

text \<open>
  \<open>mdecrypt\<close> and \<open>insertQueue\<close> call each other; the first argument bounds the depth. The scan needs
  at most one round more than there are slots.
\<close>

fun mdecrypt :: "vmpar \<Rightarrow> nat \<Rightarrow> uint \<Rightarrow> mstate \<Rightarrow> (int \<times> mstate) res"
  and insertQueue :: "vmpar \<Rightarrow> nat \<Rightarrow> uint \<Rightarrow> uint option \<Rightarrow> mstate \<Rightarrow> mstate res" where
  "mdecrypt M 0 va s = Hang"
| "mdecrypt M (Suc n) va (p, m) =
     (let a = PGROUNDDOWN va in
      rbind (uva2ka M (mp_pgdir p) a m) (\<lambda>ka.
        if ka = 0 then Ok (-1, p, m)
        else case pte_of (mp_pgdir p) a m of
          None \<Rightarrow> Undef
        | Some pte \<Rightarrow>
            if v_pte m pte AND pte_e M \<noteq> 0 \<and> v_pte m pte AND PTE_P = 0 then
              let m = set_pte pte ((v_pte m pte OR PTE_P) AND NOT (pte_e M)) (flip_page ka m) in
              rbind (insertQueue M n a (Some pte) (p, m)) (\<lambda>s. Ok (0, s))
            else Ok (-1, p, m)))"
| "insertQueue M n vpn pte s =
     rbind (clock_scan M (Suc CLOCKSIZE) vpn pte s) (\<lambda>s.
     case n of 0 \<Rightarrow> Hang | Suc k \<Rightarrow> rbind (mdecrypt M k vpn s) (\<lambda>(r, s). Ok s))"

text \<open>The index \<open>-1\<close> of a queue never used makes the first slot looked at lie before the array.\<close>

definition removeQueue :: "vmpar \<Rightarrow> uint \<Rightarrow> mstate \<Rightarrow> mstate res" where
  "removeQueue M vpn s =
     (case s of (p, m) \<Rightarrow>
        if mp_index p < 0 then Undef
        else
          let start = nat (mp_index p) in
          case find_idx (\<lambda>i. nd_vpn (mp_queue p ! ((start + i) mod CLOCKSIZE)) = vpn) [0..<CLOCKSIZE] of
            None \<Rightarrow> Ok (p, m)
          | Some k \<Rightarrow>
              let matched = (start + k) mod CLOCKSIZE in
              rbind (mencrypt M (nd_vpn (mp_queue p ! matched)) 1 (p, m)) (\<lambda>(r, p, m).
                let q = fold (\<lambda>i q. q[i := q ! ((i + 1) mod CLOCKSIZE)])
                          (map (\<lambda>j. (matched + j) mod CLOCKSIZE)
                            [0..<(start + CLOCKSIZE - matched) mod CLOCKSIZE]) (mp_queue p);
                    q = q[start := (q ! start)\<lparr>nd_vpn := -1\<rparr>]
                in Ok (p\<lparr>mp_queue := q,
                         mp_index := (if mp_index p = 0 then int CLOCKSIZE - 1 else mp_index p - 1)\<rparr>, m)))"

section \<open>Statistics\<close>

record pt_entry =
  pe_pdx :: uint
  pe_ptx :: uint
  pe_ppage :: uint
  pe_present :: bool
  pe_writable :: bool
  pe_user :: bool
  pe_encrypted :: bool
  pe_ref :: bool

definition pt_entry_of :: "vmpar \<Rightarrow> uint \<Rightarrow> uint \<Rightarrow> pt_entry" where
  "pt_entry_of M a pte =
     \<lparr>pe_pdx = PDX a, pe_ptx = PTX a, pe_ppage = drop_bit 12 pte,
      pe_present = (pte AND PTE_P \<noteq> 0), pe_writable = (pte AND PTE_W \<noteq> 0), pe_user = (pte AND PTE_U \<noteq> 0),
      pe_encrypted = (pte AND pte_e M \<noteq> 0), pe_ref = (pte AND PTE_A \<noteq> 0)\<rparr>"

definition wanted :: "vmpar \<Rightarrow> bool \<Rightarrow> uint \<Rightarrow> bool" where
  "wanted M wset_only pte \<longleftrightarrow>
     (if wset_only then pte AND pte_e M = 0 \<and> pte AND PTE_P \<noteq> 0
      else pte AND pte_e M \<noteq> 0 \<or> pte AND PTE_P \<noteq> 0)"

text \<open>The loop of \<open>getpgtable\<close> with \<open>n\<close> pages left to search, downwards from \<open>a\<close>, and room for
  \<open>room\<close> more entries; the entries it writes.\<close>

fun search_pages :: "vmpar \<Rightarrow> bool \<Rightarrow> uint \<Rightarrow> nat \<Rightarrow> int \<Rightarrow> uint \<Rightarrow> vmem \<Rightarrow> pt_entry list res" where
  "search_pages M wset pgdir 0 room a m = Ok []"
| "search_pages M wset pgdir (Suc n) room a m =
     (if room \<le> 0 then Ok []
      else case pte_of pgdir a m of
        None \<Rightarrow> Undef
      | Some pte \<Rightarrow>
          if wanted M wset (v_pte m pte) then
            rbind (search_pages M wset pgdir n (room - 1) (a - 4096) m) (\<lambda>es.
              Ok (pt_entry_of M a (v_pte m pte) # es))
          else search_pages M wset pgdir n room (a - 4096) m)"

definition getpgtable :: "vmpar \<Rightarrow> uint \<Rightarrow> int32 \<Rightarrow> int32 \<Rightarrow> mstate \<Rightarrow> (int \<times> pt_entry list) res" where
  "getpgtable M entries num wset s =
     (case s of (p, m) \<Rightarrow>
        if entries = 0 \<or> (wset \<noteq> 0 \<and> wset \<noteq> 1) then Ok (-1, [])
        else rbind (search_pages M (wset = 1) (mp_pgdir p) (unat (mp_sz p div 4096)) (sint num)
                     (PGROUNDDOWN (mp_sz p)) m) (\<lambda>es. Ok (int (length es), es)))"

text \<open>
  An access to a user address: a page that is not present faults, the handler decrypts it or gives
  up, and the access is made again; the hardware sets the access bit. In the kernel, giving up is
  a panic, and so is a write to a page that is not writable.
\<close>

definition page_fault :: "vmpar \<Rightarrow> nat \<Rightarrow> uint \<Rightarrow> mstate \<Rightarrow> (bool \<times> mstate) res" where
  "page_fault M n va s = rbind (mdecrypt M n va s) (\<lambda>(r, s). Ok (r = 0, s))"

definition present :: "uint \<Rightarrow> mstate \<Rightarrow> uint option" where
  "present va s =
     (case s of (p, m) \<Rightarrow>
        case pte_of (mp_pgdir p) va m of
          None \<Rightarrow> None
        | Some pte \<Rightarrow> if v_pte m pte AND PTE_P \<noteq> 0 then Some pte else None)"

definition access_page :: "uint \<Rightarrow> mstate \<Rightarrow> mstate" where
  "access_page pte s = (fst s, set_pte pte (v_pte (snd s) pte OR PTE_A) (snd s))"

definition kernel_touch :: "vmpar \<Rightarrow> nat \<Rightarrow> uint \<Rightarrow> mstate \<Rightarrow> mstate res" where
  "kernel_touch M n va s =
     (case present va s of
        Some pte \<Rightarrow> if v_pte (snd s) pte AND PTE_W = 0 then Panic ''trap'' else Ok (access_page pte s)
      | None \<Rightarrow> rbind (page_fault M n va s) (\<lambda>(ok, s).
          if \<not> ok then Panic ''trap''
          else case present va s of
            None \<Rightarrow> Hang
          | Some pte \<Rightarrow> if v_pte (snd s) pte AND PTE_W = 0 then Panic ''trap'' else Ok (access_page pte s)))"

definition dump_rawphymem :: "vmpar \<Rightarrow> nat \<Rightarrow> uint \<Rightarrow> uint \<Rightarrow> mstate \<Rightarrow> (int \<times> mstate) res" where
  "dump_rawphymem M n phys buffer s =
     (if buffer = 0 then Ok (-1, s)
      else rbind (kernel_touch M n buffer s) (\<lambda>(p, m).
           rbind (copyout M (mp_pgdir p) buffer (PGROUNDDOWN (P2V phys)) 4096 m) (\<lambda>(r, m).
             Ok (if r \<noteq> 0 then -1 else 0, p, m))))"

section \<open>Processes\<close>

fun remove_pages :: "vmpar \<Rightarrow> uint list \<Rightarrow> mstate \<Rightarrow> mstate res" where
  "remove_pages M [] s = Ok s"
| "remove_pages M (a # as) s = rbind (removeQueue M a s) (remove_pages M as)"

text \<open>The pages from \<open>page\<close> down to the first below \<open>sz\<close> (\<open>sz\<close> is not 0).\<close>

definition pages_down :: "uint \<Rightarrow> uint \<Rightarrow> uint list" where
  "pages_down page sz =
     (if page \<ge> sz then map (\<lambda>i. page - of_nat i * 4096) [0..<Suc (unat (drop_bit 12 (page - sz)))] else [])"

definition m_growproc :: "vmpar \<Rightarrow> int32 \<Rightarrow> mstate \<Rightarrow> (int \<times> mstate) res" where
  "m_growproc M n s =
     (case s of (p, m) \<Rightarrow>
        let old = mp_sz p in
        if 0 < sint n then
          rbind (allocuvm M (mp_pgdir p) old (old + n) m) (\<lambda>(sz, m).
            if sz = 0 then Ok (-1, p, m)
            else rbind (mencrypt M old (word_of_int (sint n div 4096)) (p, m)) (\<lambda>(r, p, m).
                 let p = p\<lparr>mp_sz := sz\<rparr> in rbind (m_switchuvm p) (\<lambda>_. Ok (0, p, m))))
        else if sint n < 0 then
          rbind (deallocuvm M (mp_pgdir p) old (old + n) m) (\<lambda>(sz, m).
            if sz = 0 then Ok (-1, p, m)
            else rbind (remove_pages M (pages_down (PGROUNDDOWN (old - 1)) sz) (p, m)) (\<lambda>(p, m).
                 let p = p\<lparr>mp_sz := sz\<rparr> in rbind (m_switchuvm p) (\<lambda>_. Ok (0, p, m))))
        else rbind (m_switchuvm p) (\<lambda>_. Ok (0, p, m)))"

text \<open>What \<open>fork\<close> gives the child \<open>np\<close> of \<open>p\<close>: a copy of the address space, and the queue with its
  pointers looked up in the new page table.\<close>

definition fork_memory :: "vmpar \<Rightarrow> mproc \<Rightarrow> mproc \<Rightarrow> vmem \<Rightarrow> (mproc option \<times> vmem) res" where
  "fork_memory M p np m =
     rbind (copyuvm M (mp_pgdir p) (mp_sz p) m) (\<lambda>(d, m).
       if d = 0 then
         rbind (kfree (kernel_end M) (mp_kstack np) m) (\<lambda>m. Ok (None, m))
       else
         Ok (Some (np\<lparr>mp_pgdir := d, mp_sz := mp_sz p, mp_index := mp_index p,
                      mp_queue := map (\<lambda>nd. nd\<lparr>nd_pte := pte_of d (nd_vpn nd) m\<rparr>) (mp_queue p)\<rparr>), m))"

text \<open>The end of \<open>exec\<close>: the new image is installed and encrypted, and the queue is empty.\<close>

definition exec_commit :: "vmpar \<Rightarrow> uint \<Rightarrow> uint \<Rightarrow> mstate \<Rightarrow> mstate res" where
  "exec_commit M pgdir sz s =
     (case s of (p, m) \<Rightarrow>
        let oldpgdir = mp_pgdir p; p = p\<lparr>mp_pgdir := pgdir, mp_sz := sz\<rparr> in
        rbind (m_switchuvm p) (\<lambda>_.
        rbind (freevm M oldpgdir m) (\<lambda>m.
        rbind (mencrypt M 0 (sz div 4096) (p, m)) (\<lambda>(r, p, m).
          Ok (clear_queue p, m)))))"

section \<open>System calls\<close>

text \<open>The arguments are what \<open>argint\<close> and \<open>argptr\<close> fetched, in the order they are fetched.\<close>

definition sys_mencrypt :: "vmpar \<Rightarrow> int32 option \<Rightarrow> uint option \<Rightarrow> mstate \<Rightarrow> (int \<times> mstate) res" where
  "sys_mencrypt M len va s =
     (case len of
        None \<Rightarrow> Ok (-1, s)
      | Some len \<Rightarrow>
          if sint len \<le> 0 then Ok (-1, s)
          else case va of
            None \<Rightarrow> Ok (-1, s)
          | Some va \<Rightarrow> if va \<ge> P2V PHYSTOP then Ok (-1, s) else mencrypt M va len s)"

definition sys_getpgtable ::
  "vmpar \<Rightarrow> int32 option \<Rightarrow> int32 option \<Rightarrow> uint option \<Rightarrow> mstate \<Rightarrow> (int \<times> pt_entry list) res" where
  "sys_getpgtable M wset num entries s =
     (case (wset, num, entries) of
        (Some w, Some n, Some e) \<Rightarrow> getpgtable M e n w s
      | _ \<Rightarrow> Ok (-1, []))"

definition sys_dump_rawphymem ::
  "vmpar \<Rightarrow> nat \<Rightarrow> uint option \<Rightarrow> uint option \<Rightarrow> mstate \<Rightarrow> (int \<times> mstate) res" where
  "sys_dump_rawphymem M n buffer phys s =
     (case (buffer, phys) of
        (Some b, Some a) \<Rightarrow> dump_rawphymem M n a b s
      | _ \<Rightarrow> Ok (-1, s))"

text \<open>\<open>translate_and_set\<close>, which nothing calls: mark a page encrypted without touching its bytes.\<close>

definition translate_and_set :: "vmpar \<Rightarrow> uint \<Rightarrow> uint \<Rightarrow> vmem \<Rightarrow> (uint \<times> vmem) res" where
  "translate_and_set M pgdir uva m =
     (case pte_of pgdir uva m of
        None \<Rightarrow> Undef
      | Some pte \<Rightarrow>
          if v_pte m pte AND PTE_P = 0 \<and> v_pte m pte AND pte_e M = 0 then Ok (0, m)
          else if v_pte m pte AND pte_e M \<noteq> 0 then Ok (0, m)
          else if v_pte m pte AND PTE_U = 0 then Ok (0, m)
          else
            let v = (v_pte m pte OR pte_e M) AND NOT PTE_P in
            Ok (P2V (PTE_ADDR v), set_pte pte v m))"

end
