(* ===== verification/PageArith.thy ===== *)
theory PageArith
  imports VM
begin

text \<open>Arithmetic of page addresses and of the words of a page table.\<close>

named_theorems page_simps \<open>reading page addresses as natural numbers\<close>

lemma mask_12: "(4095 :: uint) = mask 12"
  by (simp add: mask_eq_exp_minus_1)

lemma and_4095: "a AND 4095 = a mod (4096 :: uint)"
  using take_bit_eq_mask [of 12 a] by (simp add: mask_12 [symmetric] take_bit_eq_mod)

lemma and_3FF: "a AND 0x3FF = a mod (1024 :: uint)"
  using take_bit_eq_mask [of 10 a] by (simp add: mask_eq_exp_minus_1 take_bit_eq_mod)

lemma unat_and_4095 [page_simps]: "unat (a AND 4095 :: uint) = unat a mod 4096"
  by (simp only: and_4095 unat_mod_distrib) simp

lemma unat_and_3FF [page_simps]: "unat (a AND 0x3FF :: uint) = unat a mod 1024"
  by (simp only: and_3FF unat_mod_distrib) simp

lemma pgrounddown_minus: "PGROUNDDOWN a = a - (a AND 4095)"
proof -
  have "a - (a AND 4095) = a AND NOT (a AND 4095)"
    by (rule disjunctive_diff) (simp add: bit_simps)
  also have "\<dots> = a AND NOT 4095" by (rule bit_eqI) (auto simp: bit_simps)
  finally show ?thesis by (simp add: PGROUNDDOWN_def)
qed

lemma unat_pgrounddown [page_simps]: "unat (PGROUNDDOWN a) = unat a - unat a mod 4096"
proof -
  have "a AND 4095 \<le> a" by (simp add: word_le_nat_alt unat_and_4095)
  then show ?thesis by (simp add: pgrounddown_minus unat_sub unat_and_4095)
qed

definition aligned :: "uint \<Rightarrow> bool" where
  "aligned a \<longleftrightarrow> unat a mod 4096 = 0"

lemma aligned_pgrounddown [simp]: "aligned (PGROUNDDOWN a)"
  by (simp add: aligned_def unat_pgrounddown minus_mod_eq_mult_div)

lemma pgrounddown_aligned [simp]: "aligned a \<Longrightarrow> PGROUNDDOWN a = a"
  by (rule word_unat_eq_iff [THEN iffD2]) (simp add: aligned_def unat_pgrounddown)

lemma pte_addr_pgrounddown: "PTE_ADDR x = PGROUNDDOWN x"
  by (simp add: PTE_ADDR_def PGROUNDDOWN_def)

lemma aligned_pte_addr [simp]: "aligned (PTE_ADDR x)"
  by (simp add: pte_addr_pgrounddown)

lemma aligned_and: "aligned a \<longleftrightarrow> a AND 4095 = 0"
  by (simp add: aligned_def word_unat_eq_iff [of _ "0::uint"] unat_and_4095)

lemma aligned_add:
  assumes "aligned a" and "aligned b"
  shows "aligned (a + b)"
proof -
  have "unat (a + b) = (unat a + unat b) mod 2 ^ 32" by (simp add: unat_word_ariths)
  then have "unat (a + b) mod 4096 = (unat a + unat b) mod 4096" by (simp add: mod_mod_cancel)
  also have "\<dots> = 0" using assms unfolding aligned_def by (metis add_0 mod_add_eq mod_0)
  finally show ?thesis by (simp add: aligned_def)
qed

lemma aligned_P2V [simp]: "aligned a \<Longrightarrow> aligned (P2V a)"
  unfolding P2V_def by (rule aligned_add) (simp_all add: aligned_def KERNBASE_def)

lemma P2V_inj [simp]: "P2V a = P2V b \<longleftrightarrow> a = b"
  by (simp add: P2V_def)

lemma aligned_top: "aligned a \<Longrightarrow> unat a + 4096 \<le> 2 ^ 32"
proof -
  assume "aligned a"
  then obtain k where k: "unat a = 4096 * k" unfolding aligned_def by blast
  have "unat a < 4096 * 1048576" using unsigned_less [of a] by simp
  then have "k < 1048576" unfolding k by (subst (asm) nat_mult_less_cancel1) simp_all
  then show ?thesis unfolding k by simp
qed

text \<open>An address in a page, split into the page and the offset.\<close>

lemma unat_page_offset: "aligned b \<Longrightarrow> unat off < 4096 \<Longrightarrow> unat (b + off) = unat b + unat off"
  using aligned_top [of b] by (simp add: unat_word_ariths)

lemma pgrounddown_offset:
  assumes "aligned b" and "unat off < 4096"
  shows "PGROUNDDOWN (b + off) = b"
  by (rule word_unat_eq_iff [THEN iffD2])
    (use assms in \<open>simp add: unat_pgrounddown unat_page_offset aligned_def mod_add_left_eq [symmetric]\<close>)

lemma page_offset_inj:
  assumes "aligned b" "aligned c" "unat i < 4096" "unat j < 4096"
  shows "b + i = c + j \<longleftrightarrow> b = c \<and> i = j"
  using pgrounddown_offset [OF assms(1,3)] pgrounddown_offset [OF assms(2,4)] by auto

lemma in_page_iff:
  assumes "aligned b"
  shows "in_page b x \<longleftrightarrow> PGROUNDDOWN x = b"
proof
  assume "in_page b x"
  then have "unat (x - b) < 4096" by (simp add: in_page_def word_less_nat_alt)
  from pgrounddown_offset [OF assms this] show "PGROUNDDOWN x = b" by simp
next
  assume "PGROUNDDOWN x = b"
  then have "x - b = x AND 4095" by (simp add: pgrounddown_minus algebra_simps)
  then show "in_page b x" by (simp add: in_page_def word_less_nat_alt unat_and_4095)
qed

lemma index_lt: "unat (4 * (x AND 0x3FF) :: uint) < 4096"
  by (simp only: unat_word_ariths unat_and_3FF) simp

lemma index_inj: "4 * (x AND 0x3FF) = 4 * (y AND 0x3FF) \<longleftrightarrow> x AND 0x3FF = (y AND 0x3FF :: uint)"
proof
  assume "4 * (x AND 0x3FF) = 4 * (y AND 0x3FF)"
  then have "unat (4 * (x AND 0x3FF)) = unat (4 * (y AND 0x3FF))" by (simp only:)
  then show "x AND 0x3FF = y AND 0x3FF"
    by (simp only: word_unat_eq_iff unat_word_ariths unat_and_3FF) simp
qed simp

lemma page_indices: "PDX a = PDX b \<and> PTX a = PTX b \<longleftrightarrow> PGROUNDDOWN a = PGROUNDDOWN b"
proof
  assume "PDX a = PDX b \<and> PTX a = PTX b"
  then have d: "drop_bit 22 a AND 0x3FF = drop_bit 22 b AND 0x3FF" "drop_bit 12 a AND 0x3FF = drop_bit 12 b AND 0x3FF"
    by (simp_all add: PDX_def PTX_def)
  have m: "(0x3FF :: uint) = mask 10" by (simp add: mask_eq_exp_minus_1)
  show "PGROUNDDOWN a = PGROUNDDOWN b"
  proof (rule bit_word_eqI)
    fix n assume n: "n < LENGTH(32)"
    show "bit (PGROUNDDOWN a) n = bit (PGROUNDDOWN b) n"
    proof (cases "n < 12")
      case True
      then show ?thesis by (simp add: PGROUNDDOWN_def mask_12 bit_simps)
    next
      case False
      have "bit a n = bit b n"
      proof (cases "n < 22")
        case True
        from d(2) have "bit (drop_bit 12 a AND 0x3FF) (n - 12) = bit (drop_bit 12 b AND 0x3FF) (n - 12)" by simp
        moreover have "n - 12 < 10" "n - 12 < 32" using True False by linarith+
        ultimately show ?thesis using False
          by (simp only: m bit_and_iff bit_mask_iff bit_drop_bit_eq comp_apply) simp
      next
        case f: False
        from d(1) have "bit (drop_bit 22 a AND 0x3FF) (n - 22) = bit (drop_bit 22 b AND 0x3FF) (n - 22)" by simp
        moreover have "n - 22 < 10" "n - 22 < 32" using f n by simp_all
        ultimately show ?thesis using f
          by (simp only: m bit_and_iff bit_mask_iff bit_drop_bit_eq comp_apply) simp
      qed
      then show ?thesis using n by (simp add: PGROUNDDOWN_def bit_simps)
    qed
  qed
next
  assume e: "PGROUNDDOWN a = PGROUNDDOWN b"
  have "bit a n = bit b n" if "12 \<le> n" for n
  proof -
    have "bit (PGROUNDDOWN a) n = bit (PGROUNDDOWN b) n" by (simp add: e)
    then show ?thesis using that bit_imp_le_length [of a n] bit_imp_le_length [of b n]
      by (auto simp: PGROUNDDOWN_def mask_12 bit_simps)
  qed
  then have "drop_bit 12 a = drop_bit 12 b" "drop_bit 22 a = drop_bit 22 b"
    by (auto intro!: bit_word_eqI simp: bit_simps)
  then show "PDX a = PDX b \<and> PTX a = PTX b" by (simp add: PDX_def PTX_def)
qed

end
