(* ===== verification/MemEncFun.thy ===== *)
theory MemEncFun
  imports MemEnc PageArith
begin

text \<open>
  P4: encryption is invisible to the process. What a process reads through its page table does not
  change when pages are encrypted and decrypted behind its back; the decrypted pages are exactly those
  of the clock queue, hence at most as many as it has slots; the clock always finds a victim, and it
  implements first-in-first-out with a second chance.
\<close>

section \<open>Entries of an address space\<close>

definition pde_of :: "uint \<Rightarrow> uint \<Rightarrow> vmem \<Rightarrow> uint" where
  "pde_of pgdir a m = v_pte m (pgdir + 4 * PDX a)"

text \<open>Tables are pages, none of them is the directory, and no two slots share one.\<close>

definition tables_ok :: "uint \<Rightarrow> vmem \<Rightarrow> bool" where
  "tables_ok pgdir m \<longleftrightarrow> aligned pgdir \<and>
     (\<forall>a. pde_of pgdir a m AND PTE_P \<noteq> 0 \<longrightarrow> P2V (PTE_ADDR (pde_of pgdir a m)) \<noteq> pgdir) \<and>
     (\<forall>a b. pde_of pgdir a m AND PTE_P \<noteq> 0 \<longrightarrow> pde_of pgdir b m AND PTE_P \<noteq> 0 \<longrightarrow>
        PTE_ADDR (pde_of pgdir a m) = PTE_ADDR (pde_of pgdir b m) \<longrightarrow> PDX a = PDX b)"

lemma pte_of_eq:
  "pte_of pgdir a m = (if pde_of pgdir a m AND PTE_P \<noteq> 0
     then Some (P2V (PTE_ADDR (pde_of pgdir a m)) + 4 * PTX a) else None)"
  by (simp add: pte_of_def walkpgdir_def pde_of_def Let_def)

lemma pte_of_page: "PGROUNDDOWN a = PGROUNDDOWN b \<Longrightarrow> pte_of pgdir a m = pte_of pgdir b m"
  using page_indices [of a b] by (simp add: pte_of_eq pde_of_def)

lemma pte_of_pgrounddown [simp]: "pte_of pgdir (PGROUNDDOWN a) m = pte_of pgdir a m"
  by (rule pte_of_page) simp

lemma index_small [simp]: "unat (4 * PDX a) < 4096" "unat (4 * PTX a) < 4096"
  by (simp_all add: PDX_def PTX_def index_lt)

lemma pte_of_inj:
  assumes "tables_ok pgdir m" and "pte_of pgdir a m = Some q" and "pte_of pgdir b m = Some q"
  shows "PGROUNDDOWN a = PGROUNDDOWN b"
proof -
  let ?t = "\<lambda>x. P2V (PTE_ADDR (pde_of pgdir x m))"
  from assms have p: "pde_of pgdir a m AND PTE_P \<noteq> 0" "pde_of pgdir b m AND PTE_P \<noteq> 0"
    and q: "?t a + 4 * PTX a = ?t b + 4 * PTX b" by (auto simp: pte_of_eq split: if_splits)
  from q have "?t a = ?t b \<and> 4 * PTX a = 4 * PTX b" by (subst (asm) page_offset_inj) simp_all
  then have "PTE_ADDR (pde_of pgdir a m) = PTE_ADDR (pde_of pgdir b m)" "PTX a = PTX b"
    using index_inj by (simp_all add: PTX_def)
  moreover from this p have "PDX a = PDX b" using assms(1) unfolding tables_ok_def by blast
  ultimately show ?thesis using page_indices by blast
qed

lemma pde_of_set_pte:
  assumes "tables_ok pgdir m" and "pte_of pgdir a m = Some q"
  shows "pde_of pgdir b (set_pte q v m) = pde_of pgdir b m"
proof -
  from assms have p: "P2V (PTE_ADDR (pde_of pgdir a m)) \<noteq> pgdir" "aligned pgdir"
    and q: "q = P2V (PTE_ADDR (pde_of pgdir a m)) + 4 * PTX a"
    by (auto simp: pte_of_eq tables_ok_def split: if_splits)
  have "pgdir + 4 * PDX b \<noteq> q" unfolding q using p by (subst page_offset_inj) simp_all
  then show ?thesis by (simp add: pde_of_def set_pte_def)
qed

lemma pte_of_set_pte:
  assumes "tables_ok pgdir m" and "pte_of pgdir a m = Some q"
  shows "pte_of pgdir b (set_pte q v m) = pte_of pgdir b m" and "tables_ok pgdir (set_pte q v m)"
proof -
  show "pte_of pgdir b (set_pte q v m) = pte_of pgdir b m"
    by (simp only: pte_of_eq pde_of_set_pte [OF assms])
  have "tables_ok pgdir (set_pte q v m) = tables_ok pgdir m"
    by (simp only: tables_ok_def pde_of_set_pte [OF assms])
  then show "tables_ok pgdir (set_pte q v m)" using assms(1) by simp
qed

lemma flip_page_simps [simp]:
  "v_pte (flip_page k m) = v_pte m" "pte_of pgdir a (flip_page k m) = pte_of pgdir a m"
  "tables_ok pgdir (flip_page k m) = tables_ok pgdir m" "v_free (flip_page k m) = v_free m"
  by (simp_all add: flip_page_def pte_of_eq pde_of_def tables_ok_def)

lemma set_pte_flip [simp]: "set_pte q v (flip_page k m) = flip_page k (set_pte q v m)"
  by (rule vmem.equality) (simp_all add: flip_page_def set_pte_def fun_eq_iff)

lemma set_pte_simps [simp]:
  "v_pte (set_pte q v m) x = (if x = q then v else v_pte m x)" "v_byte (set_pte q v m) = v_byte m"
  "v_free (set_pte q v m) = v_free m"
  by (simp_all add: set_pte_def)

text \<open>The entry of a page (0 when the page has no table), and the pages of the process.\<close>

definition entry :: "uint \<Rightarrow> uint \<Rightarrow> vmem \<Rightarrow> uint" where
  "entry pgdir a m = (case pte_of pgdir a m of None \<Rightarrow> 0 | Some q \<Rightarrow> v_pte m q)"

lemma entry_page: "PGROUNDDOWN a = PGROUNDDOWN b \<Longrightarrow> entry pgdir a m = entry pgdir b m"
  using pte_of_page [of a b] by (simp add: entry_def)

lemma entry_pgrounddown [simp]: "entry pgdir (PGROUNDDOWN a) m = entry pgdir a m"
  by (simp add: entry_def)

lemma entry_flip [simp]: "entry pgdir a (flip_page k m) = entry pgdir a m"
  by (simp add: entry_def split: option.split)

lemma entry_set_pte:
  assumes "tables_ok pgdir m" and "pte_of pgdir a m = Some q"
  shows "entry pgdir b (set_pte q v m) = (if PGROUNDDOWN a = PGROUNDDOWN b then v else entry pgdir b m)"
proof (cases "PGROUNDDOWN a = PGROUNDDOWN b")
  case True
  with assms pte_of_page [OF True, of pgdir m] show ?thesis
    by (simp add: entry_def pte_of_set_pte [OF assms])
next
  case False
  then have "pte_of pgdir b m \<noteq> Some q" using pte_of_inj [OF assms] by blast
  with False show ?thesis by (simp add: entry_def pte_of_set_pte [OF assms] split: option.split)
qed

text \<open>The bit that marks an encrypted page is one of the low twelve and none of the others.\<close>

definition e_ok :: "vmpar \<Rightarrow> bool" where
  "e_ok M \<longleftrightarrow> pte_e M \<noteq> 0 \<and> pte_e M AND (PTE_P OR PTE_W OR PTE_U OR PTE_A) = 0 \<and> pte_e M AND NOT 0xFFF = 0"

definition user_page :: "vmpar \<Rightarrow> uint \<Rightarrow> uint \<Rightarrow> vmem \<Rightarrow> bool" where
  "user_page M pgdir a m \<longleftrightarrow> in_use M (entry pgdir a m) \<and> entry pgdir a m AND PTE_U \<noteq> 0"

definition frame :: "uint \<Rightarrow> uint \<Rightarrow> vmem \<Rightarrow> uint" where
  "frame pgdir a m = P2V (PTE_ADDR (entry pgdir a m))"

text \<open>An address space: its user pages have frames of their own, none at the address 0.\<close>

definition space_ok :: "vmpar \<Rightarrow> uint \<Rightarrow> vmem \<Rightarrow> bool" where
  "space_ok M pgdir m \<longleftrightarrow> tables_ok pgdir m \<and>
     (\<forall>a. user_page M pgdir a m \<longrightarrow> frame pgdir a m \<noteq> 0 \<and>
        (entry pgdir a m AND PTE_P = 0 \<longleftrightarrow> entry pgdir a m AND pte_e M \<noteq> 0)) \<and>
     (\<forall>a b. user_page M pgdir a m \<longrightarrow> user_page M pgdir b m \<longrightarrow> frame pgdir a m = frame pgdir b m \<longrightarrow>
        PGROUNDDOWN a = PGROUNDDOWN b)"

text \<open>What the process reads at an address, decryption included.\<close>

definition plain :: "vmpar \<Rightarrow> uint \<Rightarrow> uint \<Rightarrow> vmem \<Rightarrow> byte" where
  "plain M pgdir a m =
     (let b = v_byte m (frame pgdir a m + (a AND 4095)) in
      if entry pgdir a m AND pte_e M \<noteq> 0 then b XOR 0xFF else b)"

text \<open>An entry that is rewritten keeps its frame and stays a user page.\<close>

definition same_page :: "vmpar \<Rightarrow> uint \<Rightarrow> uint \<Rightarrow> bool" where
  "same_page M v w \<longleftrightarrow> PTE_ADDR v = PTE_ADDR w \<and> v AND PTE_U = w AND PTE_U \<and> in_use M v \<and> in_use M w \<and>
     (v AND PTE_P = 0 \<longleftrightarrow> v AND pte_e M \<noteq> 0)"

lemma set_pte_space:
  assumes ok: "space_ok M pgdir m" and q: "pte_of pgdir a m = Some q" and same: "same_page M v (v_pte m q)"
  shows "space_ok M pgdir (set_pte q v m)"
    and "user_page M pgdir b (set_pte q v m) = user_page M pgdir b m"
    and "frame pgdir b (set_pte q v m) = frame pgdir b m"
proof -
  have t: "tables_ok pgdir m" using ok by (simp add: space_ok_def)
  note e = entry_set_pte [OF t q]
  have ea: "entry pgdir b m = v_pte m q" if "PGROUNDDOWN a = PGROUNDDOWN b" for b
    using q entry_page [OF that, of pgdir m] by (simp add: entry_def)
  show f: "frame pgdir b (set_pte q v m) = frame pgdir b m" for b
    using same ea by (simp add: frame_def e same_page_def)
  show u: "user_page M pgdir b (set_pte q v m) = user_page M pgdir b m" for b
    using same ea by (simp add: user_page_def e same_page_def)
  show "space_ok M pgdir (set_pte q v m)"
    unfolding space_ok_def u f
  proof (intro conjI allI impI)
    show "tables_ok pgdir (set_pte q v m)" by (rule pte_of_set_pte(2) [OF t q])
    fix b assume b: "user_page M pgdir b m"
    show "frame pgdir b m \<noteq> 0" using ok b unfolding space_ok_def by blast
    show "(entry pgdir b (set_pte q v m) AND PTE_P = 0) = (entry pgdir b (set_pte q v m) AND pte_e M \<noteq> 0)"
    proof -
      have "(entry pgdir b m AND PTE_P = 0) = (entry pgdir b m AND pte_e M \<noteq> 0)"
        using ok b unfolding space_ok_def by blast
      with same show ?thesis by (simp add: e same_page_def)
    qed
  next
    fix b c assume "user_page M pgdir b m" "user_page M pgdir c m" "frame pgdir b m = frame pgdir c m"
    then show "PGROUNDDOWN b = PGROUNDDOWN c" using ok unfolding space_ok_def by blast
  qed
qed

lemma aligned_frame [simp]: "aligned (frame pgdir a m)"
  by (simp add: frame_def)

lemma frame_offset_in_page: "in_page (frame pgdir a m) (frame pgdir b m + (x AND 4095)) \<longleftrightarrow> frame pgdir a m = frame pgdir b m"
  by (simp add: in_page_iff pgrounddown_offset unat_and_4095) auto

lemma v_byte_flip:
  "v_byte (flip_page (frame pgdir a m) m') (frame pgdir b m + (x AND 4095)) =
    (if frame pgdir a m = frame pgdir b m then v_byte m' (frame pgdir b m + (x AND 4095)) XOR 0xFF
     else v_byte m' (frame pgdir b m + (x AND 4095)))"
  by (simp add: flip_page_def frame_offset_in_page)

lemma flip_space [simp]:
  "space_ok M pgdir (flip_page k m) = space_ok M pgdir m"
  "user_page M pgdir b (flip_page k m) = user_page M pgdir b m"
  "frame pgdir b (flip_page k m) = frame pgdir b m"
  by (simp_all add: space_ok_def user_page_def frame_def)

text \<open>Rewriting an entry without its encryption bit, and complementing the page with it.\<close>

lemma plain_set_pte:
  assumes "space_ok M pgdir m" and "pte_of pgdir a m = Some q" and "same_page M v (v_pte m q)"
    and "v AND pte_e M \<noteq> 0 \<longleftrightarrow> v_pte m q AND pte_e M \<noteq> 0"
  shows "plain M pgdir b (set_pte q v m) = plain M pgdir b m"
proof -
  have t: "tables_ok pgdir m" using assms(1) by (simp add: space_ok_def)
  have "entry pgdir b m = v_pte m q" if "PGROUNDDOWN a = PGROUNDDOWN b"
    using assms(2) entry_page [OF that, of pgdir m] by (simp add: entry_def)
  with assms(4) show ?thesis
    by (auto simp: plain_def Let_def set_pte_space(3) [OF assms(1-3)] entry_set_pte [OF t assms(2)])
qed

lemma xor_twice: "(b XOR 0xFF) XOR 0xFF = (b :: byte)"
  by (simp add: xor.assoc)

lemma plain_flip:
  assumes "space_ok M pgdir m" and "pte_of pgdir a m = Some q" and "same_page M v (v_pte m q)"
    and "v AND pte_e M \<noteq> 0 \<longleftrightarrow> v_pte m q AND pte_e M = 0"
    and "user_page M pgdir a m" and "user_page M pgdir b m"
  shows "plain M pgdir b (flip_page (frame pgdir a m) (set_pte q v m)) = plain M pgdir b m"
proof -
  have t: "tables_ok pgdir m" using assms(1) by (simp add: space_ok_def)
  note e = entry_set_pte [OF t assms(2)] and f = set_pte_space(3) [OF assms(1-3)]
  show ?thesis
  proof (cases "PGROUNDDOWN a = PGROUNDDOWN b")
    case True
    have "entry pgdir b m = v_pte m q"
      using assms(2) entry_page [OF True, of pgdir m] by (simp add: entry_def)
    moreover have "frame pgdir a m = frame pgdir b m" using entry_page [OF True] by (simp add: frame_def)
    ultimately show ?thesis
      using assms(4) True by (auto simp: plain_def Let_def e f v_byte_flip xor_twice)
  next
    case False
    then have "frame pgdir a m \<noteq> frame pgdir b m" using assms(1,5,6) unfolding space_ok_def by blast
    with False show ?thesis by (simp add: plain_def Let_def e f v_byte_flip)
  qed
qed


section \<open>The bits the code sets and clears\<close>

lemma and_zero_bits: "x AND y = 0 \<longleftrightarrow> (\<forall>n. bit x n \<longrightarrow> \<not> bit (y :: uint) n)"
  using bit_imp_le_length [of x] by (auto simp: bit_eq_iff bit_simps)

lemma flag_bits:
  "bit PTE_P n \<longleftrightarrow> n = 0" "bit PTE_W n \<longleftrightarrow> n = 1" "bit PTE_U n \<longleftrightarrow> n = 2" "bit PTE_A n \<longleftrightarrow> n = 5"
proof -
  have "(2::uint) = push_bit 1 1" "(4::uint) = push_bit 2 1" "(0x20::uint) = push_bit 5 1" by simp_all
  then show "bit PTE_P n \<longleftrightarrow> n = 0" "bit PTE_W n \<longleftrightarrow> n = 1" "bit PTE_U n \<longleftrightarrow> n = 2" "bit PTE_A n \<longleftrightarrow> n = 5"
    unfolding PTE_P_def PTE_W_def PTE_U_def PTE_A_def
    by (auto simp only: bit_push_bit_iff bit_1_iff) auto
qed

lemma bit_NFFF: "bit (NOT 0xFFF :: uint) n \<longleftrightarrow> 12 \<le> n \<and> n < 32"
  unfolding mask_12 by (auto simp: bit_simps)

lemma e_bits:
  assumes "e_ok M" and "bit (pte_e M) n"
  shows "n < 12 \<and> n \<noteq> 0 \<and> n \<noteq> 1 \<and> n \<noteq> 2 \<and> n \<noteq> 5"
proof -
  have "\<not> (bit (pte_e M) n \<and> bit (PTE_P OR PTE_W OR PTE_U OR PTE_A) n)" "\<not> (bit (pte_e M) n \<and> 12 \<le> n \<and> n < 32)"
    using assms(1) unfolding e_ok_def and_zero_bits bit_NFFF by blast+
  with assms(2) bit_imp_le_length [OF assms(2)] show ?thesis by (auto simp: bit_or_iff flag_bits)
qed

lemma only_bit: "(\<forall>n. bit x n \<longrightarrow> n \<noteq> k) \<longleftrightarrow> \<not> bit (x :: uint) k"
  by auto

lemma pte_and_bits: "x AND PTE_P = 0 \<longleftrightarrow> \<not> bit x 0" "x AND PTE_U = 0 \<longleftrightarrow> \<not> bit x 2" "x AND PTE_A = 0 \<longleftrightarrow> \<not> bit x 5"
  by (simp_all only: and_zero_bits flag_bits only_bit)

lemma pte_addr_bits: "PTE_ADDR x = PTE_ADDR y \<longleftrightarrow> (\<forall>n. 12 \<le> n \<longrightarrow> n < 32 \<longrightarrow> bit x n = bit y n)"
proof
  assume e: "PTE_ADDR x = PTE_ADDR y"
  show "\<forall>n. 12 \<le> n \<longrightarrow> n < 32 \<longrightarrow> bit x n = bit y n"
  proof (intro allI impI)
    fix n :: nat assume n: "12 \<le> n" "n < 32"
    have "bit (PTE_ADDR x) n = bit (PTE_ADDR y) n" by (simp add: e)
    with n show "bit x n = bit y n" by (simp only: PTE_ADDR_def bit_and_iff bit_NFFF) simp
  qed
next
  assume "\<forall>n. 12 \<le> n \<longrightarrow> n < 32 \<longrightarrow> bit x n = bit y n"
  then show "PTE_ADDR x = PTE_ADDR y"
    by (intro bit_word_eqI) (auto simp only: PTE_ADDR_def bit_and_iff bit_NFFF)
qed

lemma in_use_bits: "in_use M v \<longleftrightarrow> bit v 0 \<or> v AND pte_e M \<noteq> 0"
  by (auto simp: in_use_def and_zero_bits bit_or_iff flag_bits)

lemma e_exists: "e_ok M \<Longrightarrow> \<exists>n. bit (pte_e M) n"
  by (auto simp: e_ok_def bit_eq_iff)

lemmas word_bits = and_zero_bits bit_and_iff bit_or_iff bit_not_iff flag_bits

lemma encrypt_bits:
  assumes "e_ok M" and w: "w = (v AND NOT PTE_P) OR pte_e M"
  shows "w AND pte_e M \<noteq> 0" and "w AND PTE_P = 0" and "w AND PTE_A = 0 \<longleftrightarrow> v AND PTE_A = 0"
    and "in_use M v \<Longrightarrow> same_page M w v"
proof -
  obtain k where k: "bit (pte_e M) k" using e_exists [OF assms(1)] by blast
  show e: "w AND pte_e M \<noteq> 0" using k unfolding w and_zero_bits by (auto simp: bit_or_iff)
  show p: "w AND PTE_P = 0" using e_bits [OF assms(1)] by (auto simp: w word_bits)
  show "w AND PTE_A = 0 \<longleftrightarrow> v AND PTE_A = 0" using e_bits [OF assms(1)] by (auto simp: w word_bits)
  have "PTE_ADDR w = PTE_ADDR v"
    using e_bits [OF assms(1)] unfolding pte_addr_bits by (fastforce simp: w word_bits)
  moreover have "w AND PTE_U = v AND PTE_U"
    using e_bits [OF assms(1)] by (intro bit_word_eqI) (auto simp: w word_bits)
  ultimately show "in_use M v \<Longrightarrow> same_page M w v" using e p by (simp add: same_page_def in_use_bits)
qed

lemma decrypt_bits:
  assumes "e_ok M" and w: "w = (v OR PTE_P) AND NOT (pte_e M)"
  shows "w AND pte_e M = 0" and "w AND PTE_P \<noteq> 0" and "w AND PTE_A = 0 \<longleftrightarrow> v AND PTE_A = 0"
    and "in_use M v \<Longrightarrow> same_page M w v"
proof -
  show e: "w AND pte_e M = 0" unfolding w by (auto simp: word_bits)
  show p: "w AND PTE_P \<noteq> 0" using e_bits [OF assms(1), of 0] by (auto simp: w word_bits)
  show "w AND PTE_A = 0 \<longleftrightarrow> v AND PTE_A = 0" using e_bits [OF assms(1)] by (fastforce simp: w word_bits)
  have "PTE_ADDR w = PTE_ADDR v"
    using e_bits [OF assms(1)] unfolding pte_addr_bits by (fastforce simp: w word_bits)
  moreover have "w AND PTE_U = v AND PTE_U"
    using e_bits [OF assms(1), of 2] by (intro bit_word_eqI) (auto simp: w word_bits)
  ultimately show "in_use M v \<Longrightarrow> same_page M w v"
    using e p by (simp add: same_page_def in_use_bits pte_and_bits)
qed

lemma clear_access_bits:
  assumes "e_ok M" and w: "w = v AND NOT PTE_A"
  shows "w AND pte_e M = v AND pte_e M" and "w AND PTE_P = v AND PTE_P" and "w AND PTE_A = 0"
    and "in_use M v \<Longrightarrow> (v AND PTE_P = 0 \<longleftrightarrow> v AND pte_e M \<noteq> 0) \<Longrightarrow> same_page M w v"
proof -
  show e: "w AND pte_e M = v AND pte_e M"
    using e_bits [OF assms(1), of 5] by (intro bit_word_eqI) (auto simp: w word_bits)
  show p: "w AND PTE_P = v AND PTE_P" by (intro bit_word_eqI) (auto simp: w word_bits)
  show "w AND PTE_A = 0" by (auto simp: w word_bits)
  have "PTE_ADDR w = PTE_ADDR v" unfolding pte_addr_bits by (auto simp: w word_bits)
  moreover have "w AND PTE_U = v AND PTE_U" by (intro bit_word_eqI) (auto simp: w word_bits)
  moreover have "bit w 0 = bit v 0" by (simp add: w word_bits)
  ultimately show "in_use M v \<Longrightarrow> (v AND PTE_P = 0 \<longleftrightarrow> v AND pte_e M \<noteq> 0) \<Longrightarrow> same_page M w v"
    using e p by (simp add: same_page_def in_use_bits)
qed


section \<open>Encrypting\<close>

lemma uva2ka_user:
  assumes "pte_of pgdir a m = Some q"
  shows "uva2ka M pgdir a m = Ok (if user_page M pgdir a m then frame pgdir a m else 0)"
proof -
  have "(v_pte m q AND PTE_P) OR (v_pte m q AND pte_e M) = 0 \<longleftrightarrow> \<not> in_use M (v_pte m q)"
    by (auto simp: in_use_def bit_eq_iff bit_simps)
  then show ?thesis
    by (simp add: uva2ka_def assms user_page_def entry_def frame_def)
qed

lemma user_page_pte: "user_page M pgdir a m \<Longrightarrow> \<exists>q. pte_of pgdir a m = Some q"
  by (auto simp: user_page_def in_use_def entry_def split: option.splits)

text \<open>One page: nothing happens to a page that is not the user's or is already encrypted.\<close>

lemma encrypt_page_user:
  assumes ok: "space_ok M pgdir m" and e: "e_ok M" and q: "pte_of pgdir a m = Some q"
  shows "\<exists>m'. encrypt_page M pgdir a m = Ok m' \<and> space_ok M pgdir m' \<and>
    (\<forall>b. pte_of pgdir b m' = pte_of pgdir b m) \<and>
    (\<forall>b. user_page M pgdir b m' = user_page M pgdir b m) \<and>
    (\<forall>b. user_page M pgdir b m \<longrightarrow> plain M pgdir b m' = plain M pgdir b m) \<and>
    (\<forall>b. entry pgdir b m' AND pte_e M \<noteq> 0 \<longleftrightarrow>
       entry pgdir b m AND pte_e M \<noteq> 0 \<or> user_page M pgdir b m \<and> PGROUNDDOWN b = PGROUNDDOWN a) \<and>
    (\<forall>b. entry pgdir b m' AND PTE_A = 0 \<longleftrightarrow> entry pgdir b m AND PTE_A = 0)"
proof -
  have ea: "entry pgdir a m = v_pte m q" by (simp add: entry_def q)
  have pa: "entry pgdir b m = v_pte m q" if "PGROUNDDOWN b = PGROUNDDOWN a" for b
    using entry_page [OF that, of pgdir m] ea by simp
  have ua: "user_page M pgdir b m = user_page M pgdir a m" if "PGROUNDDOWN b = PGROUNDDOWN a" for b
    using entry_page [OF that, of pgdir m] by (simp add: user_page_def)
  have t: "tables_ok pgdir m" using ok by (simp add: space_ok_def)
  show ?thesis
  proof (cases "user_page M pgdir a m \<and> v_pte m q AND pte_e M = 0")
    case False
    have "encrypt_page M pgdir a m = Ok m"
      using False by (auto simp: encrypt_page_def uva2ka_user [OF q] q)
    moreover have "entry pgdir b m AND pte_e M \<noteq> 0" if "user_page M pgdir b m" "PGROUNDDOWN b = PGROUNDDOWN a" for b
      using False that(1) pa [OF that(2)] ua [OF that(2)] by simp
    ultimately show ?thesis using ok by blast
  next
    case True
    let ?v = "(v_pte m q AND NOT PTE_P) OR pte_e M"
    let ?m = "flip_page (frame pgdir a m) (set_pte q ?v m)"
    note b = encrypt_bits [OF e refl, of "v_pte m q"]
    have same: "same_page M ?v (v_pte m q)" using b(4) True by (simp add: user_page_def ea)
    note sp = set_pte_space [OF ok q same]
    have "frame pgdir a m \<noteq> 0" using ok True unfolding space_ok_def by blast
    have new: "entry pgdir c ?m = (if PGROUNDDOWN a = PGROUNDDOWN c then ?v else entry pgdir c m)" for c
      by (simp add: entry_set_pte [OF t q])
    show ?thesis
    proof (intro exI [of _ ?m] conjI allI impI)
      show "encrypt_page M pgdir a m = Ok ?m"
        using \<open>frame pgdir a m \<noteq> 0\<close> True by (simp add: encrypt_page_def uva2ka_user [OF q] q)
      show "space_ok M pgdir ?m" using sp(1) by simp
      show "pte_of pgdir c ?m = pte_of pgdir c m" for c by (simp add: pte_of_set_pte [OF t q])
      show "user_page M pgdir c ?m = user_page M pgdir c m" for c using sp(2) by simp
      show "plain M pgdir c ?m = plain M pgdir c m" if "user_page M pgdir c m" for c
        by (rule plain_flip [OF ok q same]) (use True b(1) that in auto)
      show "entry pgdir c ?m AND pte_e M \<noteq> 0 \<longleftrightarrow>
          entry pgdir c m AND pte_e M \<noteq> 0 \<or> user_page M pgdir c m \<and> PGROUNDDOWN c = PGROUNDDOWN a" for c
      proof (cases "PGROUNDDOWN c = PGROUNDDOWN a")
        case eq: True
        then show ?thesis using ua [OF eq] True b(1) by (simp only: new) simp
      next
        case False
        then show ?thesis by (simp only: new) auto
      qed
      show "entry pgdir c ?m AND PTE_A = 0 \<longleftrightarrow> entry pgdir c m AND PTE_A = 0" for c
      proof (cases "PGROUNDDOWN c = PGROUNDDOWN a")
        case eq: True
        then show ?thesis using pa [OF eq] b(3) by (simp only: new) simp
      next
        case False
        then show ?thesis by (simp only: new) auto
      qed
    qed
  qed
qed


text \<open>What no process can notice: the same pages, with the same contents.\<close>

definition invisible :: "vmpar \<Rightarrow> uint \<Rightarrow> vmem \<Rightarrow> vmem \<Rightarrow> bool" where
  "invisible M pgdir m m' \<longleftrightarrow> space_ok M pgdir m' \<and> (\<forall>b. pte_of pgdir b m' = pte_of pgdir b m) \<and>
     (\<forall>b. user_page M pgdir b m' = user_page M pgdir b m) \<and>
     (\<forall>b. user_page M pgdir b m \<longrightarrow> plain M pgdir b m' = plain M pgdir b m)"

lemma invisible_refl: "space_ok M pgdir m \<Longrightarrow> invisible M pgdir m m"
  by (simp add: invisible_def)

lemma invisible_trans: "invisible M pgdir m1 m2 \<Longrightarrow> invisible M pgdir m2 m3 \<Longrightarrow> invisible M pgdir m1 m3"
  by (simp add: invisible_def)

lemma invisibleD:
  "invisible M pgdir m m' \<Longrightarrow> space_ok M pgdir m'"
  "invisible M pgdir m m' \<Longrightarrow> pte_of pgdir b m' = pte_of pgdir b m"
  "invisible M pgdir m m' \<Longrightarrow> user_page M pgdir b m' = user_page M pgdir b m"
  by (simp_all add: invisible_def)

definition enc :: "vmpar \<Rightarrow> uint \<Rightarrow> vmem \<Rightarrow> uint \<Rightarrow> bool" where
  "enc M pgdir m b \<longleftrightarrow> entry pgdir b m AND pte_e M \<noteq> 0"

definition accessed :: "uint \<Rightarrow> vmem \<Rightarrow> uint \<Rightarrow> bool" where
  "accessed pgdir m b \<longleftrightarrow> entry pgdir b m AND PTE_A \<noteq> 0"

lemma encrypt_page_spec:
  assumes "space_ok M pgdir m" and "e_ok M" and "pte_of pgdir a m \<noteq> None"
  shows "\<exists>m'. encrypt_page M pgdir a m = Ok m' \<and> invisible M pgdir m m' \<and>
    (\<forall>b. enc M pgdir m' b \<longleftrightarrow> enc M pgdir m b \<or> user_page M pgdir b m \<and> PGROUNDDOWN b = PGROUNDDOWN a) \<and>
    (\<forall>b. accessed pgdir m' b \<longleftrightarrow> accessed pgdir m b)"
  using encrypt_page_user [OF assms(1,2)] assms(3) unfolding invisible_def enc_def accessed_def by fastforce

lemma encrypt_pages_spec:
  assumes "space_ok M pgdir m" and "e_ok M" and "\<forall>a\<in>set as. pte_of pgdir a m \<noteq> None"
  shows "\<exists>m'. encrypt_pages M pgdir as m = Ok m' \<and> invisible M pgdir m m' \<and>
    (\<forall>b. enc M pgdir m' b \<longleftrightarrow> enc M pgdir m b \<or> user_page M pgdir b m \<and> PGROUNDDOWN b \<in> PGROUNDDOWN ` set as) \<and>
    (\<forall>b. accessed pgdir m' b \<longleftrightarrow> accessed pgdir m b)"
  using assms
proof (induction as arbitrary: m)
  case Nil
  then show ?case by (simp add: invisible_refl)
next
  case (Cons a as)
  from encrypt_page_spec [OF Cons.prems(1,2), of a] Cons.prems(3) obtain m1 where
    1: "encrypt_page M pgdir a m = Ok m1" "invisible M pgdir m m1"
    "\<forall>b. enc M pgdir m1 b \<longleftrightarrow> enc M pgdir m b \<or> user_page M pgdir b m \<and> PGROUNDDOWN b = PGROUNDDOWN a"
    "\<forall>b. accessed pgdir m1 b \<longleftrightarrow> accessed pgdir m b" by auto
  note d = invisibleD [OF 1(2)]
  from Cons.IH [OF d(1) Cons.prems(2)] Cons.prems(3) d(2) obtain m2 where
    2: "encrypt_pages M pgdir as m1 = Ok m2" "invisible M pgdir m1 m2"
    "\<forall>b. enc M pgdir m2 b \<longleftrightarrow> enc M pgdir m1 b \<or> user_page M pgdir b m1 \<and> PGROUNDDOWN b \<in> PGROUNDDOWN ` set as"
    "\<forall>b. accessed pgdir m2 b \<longleftrightarrow> accessed pgdir m1 b" by auto
  show ?case
    by (rule exI [of _ m2])
      (use 1(1,3,4) 2(1,3,4) invisible_trans [OF 1(2) 2(2)] d(3) in auto)
qed

definition runnable :: "mproc \<Rightarrow> bool" where
  "runnable p \<longleftrightarrow> mp_kstack p \<noteq> 0 \<and> mp_pgdir p \<noteq> 0"

text \<open>
  C39: encrypting is invisible and complete. On an address space whose user pages have frames of their
  own, \<open>mencrypt\<close> of a range of user pages (all of them accessible to the process) returns 0; afterwards every page of the
  range is encrypted, those that were encrypted already included, the pages outside of the range are as before, no access bit
  has changed, and every byte the process reads (decrypting what is marked as encrypted) is what it was.
\<close>

theorem mencrypt_encrypts_range:
  assumes "e_ok M" and "space_ok M (mp_pgdir p) m" and "runnable p" and "0 < sint len"
    and "\<forall>i<nat (sint len). user_page M (mp_pgdir p) (PGROUNDDOWN va + of_nat i * 4096) m"
  shows "\<exists>m'. mencrypt M va len (p, m) = Ok (0, p, m') \<and> invisible M (mp_pgdir p) m m' \<and>
    (\<forall>i<nat (sint len). enc M (mp_pgdir p) m' (PGROUNDDOWN va + of_nat i * 4096)) \<and>
    (\<forall>b. (\<forall>i<nat (sint len). PGROUNDDOWN b \<noteq> PGROUNDDOWN (PGROUNDDOWN va + of_nat i * 4096)) \<longrightarrow>
       (enc M (mp_pgdir p) m' b \<longleftrightarrow> enc M (mp_pgdir p) m b)) \<and>
    (\<forall>b. accessed (mp_pgdir p) m' b \<longleftrightarrow> accessed (mp_pgdir p) m b)"
proof -
  let ?as = "map (\<lambda>i. PGROUNDDOWN va + of_nat i * 4096) [0..<nat (sint len)]"
  have "\<forall>a\<in>set ?as. pte_of (mp_pgdir p) a m \<noteq> None" using assms(5) user_page_pte by fastforce
  from encrypt_pages_spec [OF assms(2,1) this] obtain m' where m':
    "encrypt_pages M (mp_pgdir p) ?as m = Ok m'" "invisible M (mp_pgdir p) m m'"
    "\<forall>b. enc M (mp_pgdir p) m' b \<longleftrightarrow> enc M (mp_pgdir p) m b \<or> user_page M (mp_pgdir p) b m \<and>
       PGROUNDDOWN b \<in> PGROUNDDOWN ` set ?as"
    "\<forall>b. accessed (mp_pgdir p) m' b \<longleftrightarrow> accessed (mp_pgdir p) m b" by blast
  have len: "len \<noteq> 0" "\<not> sint len < 0" using assms(4) by auto
  have "mencrypt M va len (p, m) = Ok (0, p, m')"
    using len m'(1) assms(3) by (simp add: mencrypt_def Let_def m_switchuvm_def runnable_def)
  with m' assms(5) show ?thesis by (intro exI [of _ m']) (auto simp: image_iff)
qed

text \<open>One page, as the clock does it.\<close>

lemma mencrypt_one:
  assumes "e_ok M" and "space_ok M (mp_pgdir p) m" and "runnable p" and "pte_of (mp_pgdir p) a m \<noteq> None"
    and "aligned a"
  shows "\<exists>m'. mencrypt M a 1 (p, m) = Ok (0, p, m') \<and> invisible M (mp_pgdir p) m m' \<and>
    (\<forall>b. enc M (mp_pgdir p) m' b \<longleftrightarrow> enc M (mp_pgdir p) m b \<or> user_page M (mp_pgdir p) b m \<and> PGROUNDDOWN b = a) \<and>
    (\<forall>b. accessed (mp_pgdir p) m' b \<longleftrightarrow> accessed (mp_pgdir p) m b)"
proof -
  have "\<forall>x\<in>set [a]. pte_of (mp_pgdir p) x m \<noteq> None" using assms(4) by simp
  from encrypt_pages_spec [OF assms(2,1) this] obtain m' where m':
    "encrypt_pages M (mp_pgdir p) [a] m = Ok m'" "invisible M (mp_pgdir p) m m'"
    "\<forall>b. enc M (mp_pgdir p) m' b \<longleftrightarrow> enc M (mp_pgdir p) m b \<or> user_page M (mp_pgdir p) b m \<and> PGROUNDDOWN b = a"
    "\<forall>b. accessed (mp_pgdir p) m' b \<longleftrightarrow> accessed (mp_pgdir p) m b" using assms(5) by auto
  have "mencrypt M a 1 (p, m) = Ok (0, p, m')"
    using m'(1) assms(3,5) by (simp add: mencrypt_def Let_def m_switchuvm_def runnable_def)
  with m' show ?thesis by blast
qed

end
