(* ===== verification/Bytes.thy ===== *)
theory Bytes
  imports CPrelude
begin

text \<open>
  Integers in memory: a structure that is read from or written to a block is the bytes at its offset,
  the low byte first.
\<close>

definition le16 :: "byte list \<Rightarrow> nat \<Rightarrow> 16 word" where
  "le16 bs i = ucast (bs ! i) + 2 ^ 8 * ucast (bs ! (i + 1))"

definition le32 :: "byte list \<Rightarrow> nat \<Rightarrow> uint" where
  "le32 bs i = ucast (bs ! i) + 2 ^ 8 * ucast (bs ! (i + 1)) + 2 ^ 16 * ucast (bs ! (i + 2)) + 2 ^ 24 * ucast (bs ! (i + 3))"

definition bytes32 :: "uint \<Rightarrow> byte list" where
  "bytes32 x = [ucast x, ucast (drop_bit 8 x), ucast (drop_bit 16 x), ucast (drop_bit 24 x)]"

definition bytes16 :: "16 word \<Rightarrow> byte list" where
  "bytes16 x = [ucast x, ucast (drop_bit 8 x)]"

text \<open>Overwriting the bytes from an offset on.\<close>

definition put_bytes :: "nat \<Rightarrow> byte list \<Rightarrow> byte list \<Rightarrow> byte list" where
  "put_bytes i bs d = take i d @ bs @ drop (i + length bs) d"

lemma length_put_bytes: "i + length bs \<le> length d \<Longrightarrow> length (put_bytes i bs d) = length d"
  by (simp add: put_bytes_def)

lemma nth_put_bytes:
  "i + length bs \<le> length d \<Longrightarrow> j < length d \<Longrightarrow>
   put_bytes i bs d ! j = (if i \<le> j \<and> j < i + length bs then bs ! (j - i) else d ! j)"
  by (auto simp: put_bytes_def nth_append)

lemma length_bytes32 [simp]: "length (bytes32 x) = 4"
  by (simp add: bytes32_def)

lemma length_bytes16 [simp]: "length (bytes16 x) = 2"
  by (simp add: bytes16_def)

lemma unat_uint_less: "unat (x :: uint) < 4294967296"
  using unsigned_less [of x] by simp

lemma unat_byte: "unat (ucast (x :: uint) :: byte) = unat x mod 256"
  by (simp add: unsigned_ucast_eq take_bit_eq_mod)

lemma unat_le32: "unat (le32 bs i) = unat (bs ! i) + 256 * unat (bs ! (i + 1)) + 65536 * unat (bs ! (i + 2)) + 16777216 * unat (bs ! (i + 3))"
proof -
  have b: "unat (x :: byte) < 256" for x using unsigned_less [of x] by simp
  have u: "unat (ucast x :: uint) = unat x" for x :: byte
    using b [of x] by (simp add: unsigned_ucast_eq take_bit_eq_mod)
  have "unat (bs ! i) + 256 * unat (bs ! (i + 1)) + 65536 * unat (bs ! (i + 2)) + 16777216 * unat (bs ! (i + 3)) < 2 ^ 32"
    using b [of "bs ! i"] b [of "bs ! (i + 1)"] b [of "bs ! (i + 2)"] b [of "bs ! (i + 3)"] by simp
  then show ?thesis by (simp add: le32_def unat_word_ariths u)
qed

lemma nat_bytes:
  fixes n :: nat
  assumes "n < 4294967296"
  shows "n mod 256 + 256 * (n div 256 mod 256) + 65536 * (n div 65536 mod 256) + 16777216 * (n div 16777216 mod 256) = n"
proof -
  have q: "n div 65536 = n div 256 div 256" "n div 16777216 = n div 256 div 256 div 256"
    by (simp_all add: div_mult2_eq [symmetric])
  have "n div 256 div 256 div 256 < 256" using assms by (simp add: div_mult2_eq [symmetric] less_mult_imp_div_less)
  then have "n div 256 div 256 div 256 mod 256 = n div 256 div 256 div 256" by simp
  moreover have "256 * (n div 256) + n mod 256 = n" "256 * (n div 256 div 256) + n div 256 mod 256 = n div 256"
      "256 * (n div 256 div 256 div 256) + n div 256 div 256 mod 256 = n div 256 div 256" by simp_all
  ultimately show ?thesis unfolding q by linarith
qed

lemma le32_bytes32:
  assumes "bs ! i = bytes32 x ! 0" and "bs ! (i + 1) = bytes32 x ! 1" and "bs ! (i + 2) = bytes32 x ! 2" and "bs ! (i + 3) = bytes32 x ! 3"
  shows "le32 bs i = x"
proof -
  have x: "unat x < 4294967296" using unsigned_less [of x] by simp
  have "unat (le32 bs i) = unat x mod 256 + 256 * (unat x div 256 mod 256) + 65536 * (unat x div 65536 mod 256) +
      16777216 * (unat x div 16777216 mod 256)"
    unfolding unat_le32 assms by (simp add: bytes32_def unat_byte unat_drop_bit_eq drop_bit_eq_div unat_div_distrib)
  also have "\<dots> = unat x" using x by (rule nat_bytes)
  finally show ?thesis unfolding word_unat_eq_iff .
qed

lemma le32_put_same: "i + 4 \<le> length d \<Longrightarrow> le32 (put_bytes i (bytes32 x) d) i = x"
  by (rule le32_bytes32) (simp_all add: nth_put_bytes)

lemma le32_put_other:
  "i + length bs \<le> length d \<Longrightarrow> j + 4 \<le> length d \<Longrightarrow> j + 4 \<le> i \<or> i + length bs \<le> j \<Longrightarrow> le32 (put_bytes i bs d) j = le32 d j"
  by (auto simp: le32_def nth_put_bytes)

end
