(* ===== verification/BlockCache.thy ===== *)
theory BlockCache
  imports CPrelude
begin

text \<open>
  The interface of a cache of disk blocks: what the log and the file system rely on. \<open>held\<close> gives the
  block of a handle that is in use, \<open>view\<close> what a reader of a block gets, \<open>disk\<close> what is on the disk,
  \<open>pinned\<close> the changed blocks that may not leave the cache, \<open>trace\<close> the writes that reached the disk.
\<close>

definition BSIZE :: nat where "BSIZE = 512"

text \<open>Copying the blocks of a list of pairs, one after the other.\<close>

fun copies :: "(uint \<Rightarrow> uint \<Rightarrow> 's \<Rightarrow> 's res) \<Rightarrow> (uint \<times> uint) list \<Rightarrow> 's \<Rightarrow> 's res" where
  "copies step [] s = Ok s"
| "copies step ((a, b) # ps) s = rbind (step a b s) (copies step ps)"

text \<open>The contents after the pairs have been copied, the sources read from \<open>v\<close>.\<close>

fun put_pairs :: "(uint \<Rightarrow> byte list) \<Rightarrow> (uint \<times> uint) list \<Rightarrow> (uint \<Rightarrow> byte list) \<Rightarrow> uint \<Rightarrow> byte list" where
  "put_pairs v [] f = f"
| "put_pairs v ((a, b) # ps) f = put_pairs v ps (f(b := v a))"

lemma put_pairs_other: "x \<notin> snd ` set ps \<Longrightarrow> put_pairs v ps f x = f x"
  by (induction ps arbitrary: f) auto

lemma put_pairs_same: "distinct (map snd ps) \<Longrightarrow> (a, b) \<in> set ps \<Longrightarrow> put_pairs v ps f b = v a"
proof (induction ps arbitrary: f)
  case Nil
  then show ?case by simp
next
  case (Cons p ps)
  obtain c d where p: "p = (c, d)" by fastforce
  show ?case
  proof (cases "p = (a, b)")
    case True
    then have "b \<notin> snd ` set ps" using Cons.prems(1) by simp
    with True show ?thesis by (simp add: put_pairs_other)
  next
    case False
    then have "(a, b) \<in> set ps" using Cons.prems(2) by simp
    with Cons p show ?thesis by simp
  qed
qed

lemma put_pairs_cong: "\<forall>a\<in>fst ` set ps. v a = w a \<Longrightarrow> put_pairs v ps f = put_pairs w ps f"
  by (induction ps arbitrary: f) auto

locale block_cache =
  fixes inv :: "'s \<Rightarrow> bool"
    and held :: "'s \<Rightarrow> nat \<Rightarrow> uint option"
    and view :: "'s \<Rightarrow> uint \<Rightarrow> byte list"
    and disk :: "'s \<Rightarrow> uint \<Rightarrow> byte list"
    and pinned :: "'s \<Rightarrow> uint set"
    and trace :: "'s \<Rightarrow> (uint \<times> byte list) list"
    and bound :: "'s \<Rightarrow> uint"
    and room :: nat
    and bread :: "uint \<Rightarrow> 's \<Rightarrow> (nat \<times> 's) res"
    and data :: "nat \<Rightarrow> 's \<Rightarrow> byte list"
    and set_data :: "nat \<Rightarrow> byte list \<Rightarrow> 's \<Rightarrow> 's"
    and pin :: "nat \<Rightarrow> 's \<Rightarrow> 's"
    and bwrite :: "nat \<Rightarrow> 's \<Rightarrow> 's res"
    and brelse :: "nat \<Rightarrow> 's \<Rightarrow> 's res"
  assumes bread_law: "inv s \<Longrightarrow> b < bound s \<Longrightarrow> b \<notin> ran (held s) \<Longrightarrow> card (insert b (pinned s \<union> ran (held s))) \<le> room \<Longrightarrow>
      \<exists>i s'. bread b s = Ok (i, s') \<and> inv s' \<and> held s i = None \<and> held s' = (held s)(i \<mapsto> b) \<and> view s' = view s \<and>
        disk s' = disk s \<and> pinned s' = pinned s \<and> trace s' = trace s \<and> bound s' = bound s"
    and data_law: "inv s \<Longrightarrow> held s i = Some b \<Longrightarrow> data i s = view s b"
    and set_law: "inv s \<Longrightarrow> held s i = Some b \<Longrightarrow> length d = BSIZE \<Longrightarrow>
      inv (set_data i d s) \<and> held (set_data i d s) = held s \<and> view (set_data i d s) = (view s)(b := d) \<and>
      disk (set_data i d s) = disk s \<and> pinned (set_data i d s) = pinned s \<and> trace (set_data i d s) = trace s \<and>
      bound (set_data i d s) = bound s"
    and pin_law: "inv s \<Longrightarrow> held s i = Some b \<Longrightarrow>
      inv (pin i s) \<and> held (pin i s) = held s \<and> view (pin i s) = view s \<and> disk (pin i s) = disk s \<and>
      pinned (pin i s) = insert b (pinned s) \<and> trace (pin i s) = trace s \<and> bound (pin i s) = bound s"
    and bwrite_law: "inv s \<Longrightarrow> held s i = Some b \<Longrightarrow>
      \<exists>s'. bwrite i s = Ok s' \<and> inv s' \<and> held s' = held s \<and> view s' = view s \<and> disk s' = (disk s)(b := view s b) \<and>
        pinned s' = pinned s - {b} \<and> trace s' = trace s @ [(b, view s b)] \<and> bound s' = bound s"
    and brelse_law: "inv s \<Longrightarrow> held s i = Some b \<Longrightarrow> b \<in> pinned s \<or> view s b = disk s b \<Longrightarrow>
      \<exists>s'. brelse i s = Ok s' \<and> inv s' \<and> held s' = (held s)(i := None) \<and> view s' = view s \<and> disk s' = disk s \<and>
        pinned s' = pinned s \<and> trace s' = trace s \<and> bound s' = bound s"
    and view_length: "inv s \<Longrightarrow> b < bound s \<Longrightarrow> length (view s b) = BSIZE"
    and unpinned_view: "inv s \<Longrightarrow> b \<notin> pinned s \<Longrightarrow> b \<notin> ran (held s) \<Longrightarrow> view s b = disk s b"
    and pinned_finite: "inv s \<Longrightarrow> finite (pinned s)"
begin

text \<open>Between two operations no block is in use.\<close>

definition quiet :: "'s \<Rightarrow> bool" where
  "quiet s \<longleftrightarrow> inv s \<and> held s = Map.empty"

text \<open>Reading a block, and reading and writing one.\<close>

lemma read_law:
  assumes q: "quiet s" and b: "b < bound s" and r: "card (insert b (pinned s)) \<le> room"
  shows "\<exists>i s' t. bread b s = Ok (i, s') \<and> data i s' = view s b \<and> brelse i s' = Ok t \<and> quiet t \<and> view t = view s \<and>
    disk t = disk s \<and> pinned t = pinned s \<and> trace t = trace s \<and> bound t = bound s"
proof -
  have s: "inv s" "held s = Map.empty" using q by (simp_all add: quiet_def)
  obtain i s' where 1: "bread b s = Ok (i, s')" "inv s'" "held s' = [i \<mapsto> b]" "view s' = view s" "disk s' = disk s"
      "pinned s' = pinned s" "trace s' = trace s" "bound s' = bound s"
    using bread_law [OF s(1) b] r s(2) by auto
  have "b \<in> pinned s' \<or> view s' b = disk s' b"
    using unpinned_view [OF s(1), of b] s(2) 1 by auto
  from brelse_law [OF 1(2) _ this, of i] 1 obtain t where "brelse i s' = Ok t" "inv t" "held t = Map.empty" "view t = view s"
      "disk t = disk s" "pinned t = pinned s" "trace t = trace s" "bound t = bound s" by auto
  with 1 data_law [OF 1(2), of i b] show ?thesis by (auto simp: quiet_def)
qed

lemma write_law:
  assumes q: "quiet s" and b: "b < bound s" and r: "card (insert b (pinned s)) \<le> room" and len: "length (f (view s b)) = BSIZE"
  shows "\<exists>t. rbind (bread b s) (\<lambda>(i, s). rbind (bwrite i (set_data i (f (data i s)) s)) (brelse i)) = Ok t \<and> quiet t \<and>
    view t = (view s)(b := f (view s b)) \<and> disk t = (disk s)(b := f (view s b)) \<and> pinned t = pinned s - {b} \<and>
    trace t = trace s @ [(b, f (view s b))] \<and> bound t = bound s"
proof -
  have s: "inv s" "held s = Map.empty" using q by (simp_all add: quiet_def)
  obtain i s1 where 1: "bread b s = Ok (i, s1)" "inv s1" "held s1 = [i \<mapsto> b]" "view s1 = view s" "disk s1 = disk s"
      "pinned s1 = pinned s" "trace s1 = trace s" "bound s1 = bound s"
    using bread_law [OF s(1) b] r s(2) by auto
  have d: "data i s1 = view s b" using data_law [OF 1(2), of i b] 1 by simp
  let ?s2 = "set_data i (f (view s b)) s1"
  have 2: "inv ?s2" "held ?s2 = [i \<mapsto> b]" "view ?s2 = (view s)(b := f (view s b))" "disk ?s2 = disk s" "pinned ?s2 = pinned s"
      "trace ?s2 = trace s" "bound ?s2 = bound s"
    using set_law [OF 1(2) _ len, of i b] 1 by auto
  from bwrite_law [OF 2(1), of i b] 2 obtain s3 where 3: "bwrite i ?s2 = Ok s3" "inv s3" "held s3 = [i \<mapsto> b]"
      "view s3 = (view s)(b := f (view s b))" "disk s3 = (disk s)(b := f (view s b))" "pinned s3 = pinned s - {b}"
      "trace s3 = trace s @ [(b, f (view s b))]" "bound s3 = bound s" by auto
  from brelse_law [OF 3(2), of i b] 3 obtain t where "brelse i s3 = Ok t" "inv t" "held t = Map.empty" "view t = view s3"
      "disk t = disk s3" "pinned t = pinned s3" "trace t = trace s3" "bound t = bound s3" by auto
  with 1 3 d show ?thesis by (auto simp: quiet_def)
qed

text \<open>Copying one block onto another, with both in use; the two are read in either order.\<close>

lemma copy_rest:
  assumes i: "inv s" and h: "held s = [i \<mapsto> a, j \<mapsto> b]" "i \<noteq> j" "a \<noteq> b"
    and len: "length (view s a) = BSIZE" and a: "a \<in> pinned s \<or> view s a = disk s a"
  shows "\<exists>t u v. bwrite j (set_data j (data i s) s) = Ok t \<and> brelse i t = Ok u \<and> brelse j u = Ok v \<and> quiet v \<and>
    view v = (view s)(b := view s a) \<and> disk v = (disk s)(b := view s a) \<and> pinned v = pinned s - {b} \<and>
    trace v = trace s @ [(b, view s a)] \<and> bound v = bound s"
proof -
  have hi: "held s i = Some a" "held s j = Some b" using h by simp_all
  have d: "data i s = view s a" by (rule data_law [OF i hi(1)])
  let ?s2 = "set_data j (view s a) s"
  note 2 = set_law [OF i hi(2) len]
  from bwrite_law [of ?s2 j b] 2 hi obtain s3 where 3: "bwrite j ?s2 = Ok s3" "inv s3" "held s3 = held s"
      "view s3 = (view s)(b := view s a)" "disk s3 = (disk s)(b := view s a)" "pinned s3 = pinned s - {b}"
      "trace s3 = trace s @ [(b, view s a)]" "bound s3 = bound s" by auto
  have "a \<in> pinned s3 \<or> view s3 a = disk s3 a" using a h(3) 3 by auto
  from brelse_law [OF 3(2) _ this, of i] 3 hi obtain s4 where 4: "brelse i s3 = Ok s4" "inv s4" "held s4 = (held s)(i := None)"
      "view s4 = view s3" "disk s4 = disk s3" "pinned s4 = pinned s3" "trace s4 = trace s3" "bound s4 = bound s3" by auto
  have "held s4 j = Some b" "(held s)(i := None, j := None) = Map.empty" using 4(3) h by auto
  with brelse_law [OF 4(2), of j b] 3 4 obtain s5 where "brelse j s4 = Ok s5" "inv s5" "held s5 = Map.empty"
      "view s5 = view s4" "disk s5 = disk s4" "pinned s5 = pinned s4" "trace s5 = trace s4" "bound s5 = bound s4" by auto
  with 3 4 d show ?thesis by (auto simp: quiet_def)
qed

lemma two_reads:
  assumes q: "quiet s" and a: "a < bound s" and b: "b < bound s" and ne: "a \<noteq> b" and r: "card (insert b (insert a (pinned s))) \<le> room"
  shows "\<exists>i s1 j s2. bread a s = Ok (i, s1) \<and> bread b s1 = Ok (j, s2) \<and> inv s2 \<and> i \<noteq> j \<and> held s2 = [i \<mapsto> a, j \<mapsto> b] \<and>
    view s2 = view s \<and> disk s2 = disk s \<and> pinned s2 = pinned s \<and> trace s2 = trace s \<and> bound s2 = bound s"
proof -
  have s: "inv s" "held s = Map.empty" using q by (simp_all add: quiet_def)
  have "finite (insert b (insert a (pinned s)))" using pinned_finite [OF s(1)] by simp
  then have "card (insert a (pinned s)) \<le> card (insert b (insert a (pinned s)))" by (intro card_mono) auto
  then have "card (insert a (pinned s)) \<le> room" using r by simp
  with bread_law [OF s(1) a] s(2) obtain i s1 where 1: "bread a s = Ok (i, s1)" "inv s1" "held s1 = [i \<mapsto> a]" "view s1 = view s"
      "disk s1 = disk s" "pinned s1 = pinned s" "trace s1 = trace s" "bound s1 = bound s" by auto
  have "insert b (pinned s1 \<union> ran (held s1)) = insert b (insert a (pinned s))" using 1 by auto
  with bread_law [OF 1(2), of b] 1 b r ne obtain j s2 where 2: "bread b s1 = Ok (j, s2)" "inv s2" "held s1 j = None"
      "held s2 = (held s1)(j \<mapsto> b)" "view s2 = view s" "disk s2 = disk s" "pinned s2 = pinned s" "trace s2 = trace s"
      "bound s2 = bound s" by auto
  have "i \<noteq> j" using 1(3) 2(3) by auto
  with 1 2 show ?thesis by auto
qed

lemma copy_law:
  assumes q: "quiet s" and a: "a < bound s" and b: "b < bound s" and ne: "a \<noteq> b" and r: "card (insert b (insert a (pinned s))) \<le> room"
  shows "\<exists>v. rbind (bread a s) (\<lambda>(i, s). rbind (bread b s) (\<lambda>(j, s).
      rbind (bwrite j (set_data j (data i s) s)) (\<lambda>s. rbind (brelse i s) (brelse j)))) = Ok v \<and> quiet v \<and>
    view v = (view s)(b := view s a) \<and> disk v = (disk s)(b := view s a) \<and> pinned v = pinned s - {b} \<and>
    trace v = trace s @ [(b, view s a)] \<and> bound v = bound s"
proof -
  obtain i s1 j s2 where 2: "bread a s = Ok (i, s1)" "bread b s1 = Ok (j, s2)" "inv s2" "i \<noteq> j" "held s2 = [i \<mapsto> a, j \<mapsto> b]"
      "view s2 = view s" "disk s2 = disk s" "pinned s2 = pinned s" "trace s2 = trace s" "bound s2 = bound s"
    using two_reads [OF q a b ne r] by blast
  have "a \<in> pinned s2 \<or> view s2 a = disk s2 a" using unpinned_view [of s a] q 2 by (auto simp: quiet_def)
  moreover have "length (view s2 a) = BSIZE" using view_length [of s a] q a 2 by (simp add: quiet_def)
  ultimately show ?thesis using copy_rest [OF 2(3,5,4) ne] 2 by fastforce
qed

lemma copy_law':
  assumes q: "quiet s" and a: "a < bound s" and b: "b < bound s" and ne: "a \<noteq> b" and r: "card (insert b (insert a (pinned s))) \<le> room"
  shows "\<exists>v. rbind (bread b s) (\<lambda>(j, s). rbind (bread a s) (\<lambda>(i, s).
      rbind (bwrite j (set_data j (data i s) s)) (\<lambda>s. rbind (brelse i s) (brelse j)))) = Ok v \<and> quiet v \<and>
    view v = (view s)(b := view s a) \<and> disk v = (disk s)(b := view s a) \<and> pinned v = pinned s - {b} \<and>
    trace v = trace s @ [(b, view s a)] \<and> bound v = bound s"
proof -
  have "card (insert a (insert b (pinned s))) \<le> room" using r by (simp add: insert_commute)
  from two_reads [OF q b a ne [symmetric] this]
  obtain j s1 i s2 where 2: "bread b s = Ok (j, s1)" "bread a s1 = Ok (i, s2)" "inv s2" "j \<noteq> i" "held s2 = [j \<mapsto> b, i \<mapsto> a]"
      "view s2 = view s" "disk s2 = disk s" "pinned s2 = pinned s" "trace s2 = trace s" "bound s2 = bound s"
    by blast
  have "held s2 = [i \<mapsto> a, j \<mapsto> b]" using 2(4,5) by (simp add: fun_upd_twist)
  moreover have "a \<in> pinned s2 \<or> view s2 a = disk s2 a" using unpinned_view [of s a] q 2 by (auto simp: quiet_def)
  moreover have "length (view s2 a) = BSIZE" using view_length [of s a] q a 2 by (simp add: quiet_def)
  ultimately show ?thesis using copy_rest [OF 2(3) _ 2(4) [symmetric] ne] 2 by fastforce
qed

text \<open>A step that copies as \<open>copy_law\<close> says, repeated.\<close>

definition copies_block :: "(uint \<Rightarrow> uint \<Rightarrow> 's \<Rightarrow> 's res) \<Rightarrow> bool" where
  "copies_block step \<longleftrightarrow> (\<forall>s a b. quiet s \<and> a < bound s \<and> b < bound s \<and> a \<noteq> b \<and> card (insert b (insert a (pinned s))) \<le> room \<longrightarrow>
     (\<exists>v. step a b s = Ok v \<and> quiet v \<and> view v = (view s)(b := view s a) \<and> disk v = (disk s)(b := view s a) \<and>
       pinned v = pinned s - {b} \<and> trace v = trace s @ [(b, view s a)] \<and> bound v = bound s))"

lemma copies_law:
  assumes step: "copies_block step"
  shows "quiet s \<Longrightarrow> \<forall>p\<in>set ps. fst p < bound s \<and> snd p < bound s \<and> card (insert (snd p) (insert (fst p) (pinned s))) \<le> room \<Longrightarrow>
    fst ` set ps \<inter> snd ` set ps = {} \<Longrightarrow> distinct (map snd ps) \<Longrightarrow>
    \<exists>v. copies step ps s = Ok v \<and> quiet v \<and> view v = put_pairs (view s) ps (view s) \<and>
      disk v = put_pairs (view s) ps (disk s) \<and> pinned v = pinned s - snd ` set ps \<and>
      trace v = trace s @ map (\<lambda>p. (snd p, view s (fst p))) ps \<and> bound v = bound s"
proof (induction ps arbitrary: s)
  case Nil
  then show ?case by simp
next
  case (Cons p ps)
  obtain a b where p: "p = (a, b)" by fastforce
  have ne: "a \<noteq> b" using Cons.prems(3) p by auto
  have ab: "a < bound s" "b < bound s" "card (insert b (insert a (pinned s))) \<le> room" using Cons.prems(2) p by auto
  with ne Cons.prems(1) step obtain t where t: "step a b s = Ok t" "quiet t" "view t = (view s)(b := view s a)"
      "disk t = (disk s)(b := view s a)" "pinned t = pinned s - {b}" "trace t = trace s @ [(b, view s a)]" "bound t = bound s"
    unfolding copies_block_def by blast
  have fin: "finite (pinned s)" using Cons.prems(1) pinned_finite by (simp add: quiet_def)
  have "card (insert (snd q) (insert (fst q) (pinned t))) \<le> room" if "q \<in> set ps" for q
  proof -
    have "card (insert (snd q) (insert (fst q) (pinned t))) \<le> card (insert (snd q) (insert (fst q) (pinned s)))"
      using fin t(5) by (intro card_mono) auto
    then show ?thesis using Cons.prems(2) that by fastforce
  qed
  then have "\<forall>q\<in>set ps. fst q < bound t \<and> snd q < bound t \<and> card (insert (snd q) (insert (fst q) (pinned t))) \<le> room"
    using Cons.prems(2) t(7) by simp
  from Cons.IH [OF t(2) this] Cons.prems(3,4) p obtain v where v: "copies step ps t = Ok v" "quiet v"
      "view v = put_pairs (view t) ps (view t)" "disk v = put_pairs (view t) ps (disk t)" "pinned v = pinned t - snd ` set ps"
      "trace v = trace t @ map (\<lambda>p. (snd p, view t (fst p))) ps" "bound v = bound t" by auto
  have src: "view t x = view s x" if "x \<in> fst ` set ps" for x using that Cons.prems(3) p t(3) by auto
  have c: "put_pairs (view t) ps f = put_pairs (view s) ps f" for f by (rule put_pairs_cong) (use src in blast)
  have "map (\<lambda>p. (snd p, view t (fst p))) ps = map (\<lambda>p. (snd p, view s (fst p))) ps" using src by simp
  with v t c p show ?case by auto
qed

end

end
