(* ===== verification/BufCache.thy ===== *)
theory BufCache
  imports BlockCache
begin

text \<open>
  xv6, \<open>bio.c\<close> with the disk of \<open>memide.c\<close> and the locks of \<open>sleeplock.c\<close>: the buffers are an array,
  the list through \<open>prev\<close> and \<open>next\<close> is the list of their indices, most recently used first. One process
  runs; a lock that is taken is never given back to a process that waits for it (\<open>Hang\<close>). The spin locks
  around the list and inside the sleep locks are not modelled here. \<open>io_writes\<close> records, in order, the
  blocks that reached the disk.
\<close>

definition NBUF :: nat where "NBUF = 30"

section \<open>Sleep locks\<close>

record sleeplock =
  sl_locked :: bool
  sl_pid :: int32

definition initsleeplock :: sleeplock where
  "initsleeplock = \<lparr>sl_locked = False, sl_pid = 0\<rparr>"

definition acquiresleep :: "int32 \<Rightarrow> sleeplock \<Rightarrow> sleeplock res" where
  "acquiresleep pid lk = (if sl_locked lk then Hang else Ok \<lparr>sl_locked = True, sl_pid = pid\<rparr>)"

definition releasesleep :: "sleeplock \<Rightarrow> sleeplock" where
  "releasesleep lk = \<lparr>sl_locked = False, sl_pid = 0\<rparr>"

definition holdingsleep :: "int32 \<Rightarrow> sleeplock \<Rightarrow> bool" where
  "holdingsleep pid lk \<longleftrightarrow> sl_locked lk \<and> sl_pid lk = pid"

section \<open>Buffers\<close>

record buf =
  b_valid :: bool
  b_dirty :: bool
  b_dev :: uint
  b_blockno :: uint
  b_lock :: sleeplock
  b_refcnt :: uint
  b_data :: "byte list"

record io =
  io_pid :: int32
  io_bufs :: "buf list"
  io_lru :: "nat list"
  io_disk :: "uint \<Rightarrow> byte list"
  io_disksize :: uint
  io_writes :: "(uint \<times> byte list) list"

definition upd_buf :: "nat \<Rightarrow> (buf \<Rightarrow> buf) \<Rightarrow> io \<Rightarrow> io" where
  "upd_buf i f s = s\<lparr>io_bufs := upd_at i f (io_bufs s)\<rparr>"

text \<open>The zeroed array, linked from its last element to its first.\<close>

definition binit :: "int32 \<Rightarrow> (uint \<Rightarrow> byte list) \<Rightarrow> uint \<Rightarrow> io" where
  "binit pid disk disksize =
     \<lparr>io_pid = pid,
      io_bufs = replicate NBUF \<lparr>b_valid = False, b_dirty = False, b_dev = 0, b_blockno = 0, b_lock = initsleeplock,
        b_refcnt = 0, b_data = replicate BSIZE 0\<rparr>,
      io_lru = rev [0..<NBUF], io_disk = disk, io_disksize = disksize, io_writes = []\<rparr>"

text \<open>\<open>iderw\<close> of \<open>memide.c\<close>.\<close>

definition iderw :: "nat \<Rightarrow> io \<Rightarrow> io res" where
  "iderw i s =
     (let b = io_bufs s ! i in
      if \<not> holdingsleep (io_pid s) (b_lock b) then Panic ''iderw: buf not locked''
      else if b_valid b \<and> \<not> b_dirty b then Panic ''iderw: nothing to do''
      else if b_dev b \<noteq> 1 then Panic ''iderw: request not for disk 1''
      else if b_blockno b \<ge> io_disksize s then Panic ''iderw: block out of range''
      else if b_dirty b then
        Ok (upd_buf i (\<lambda>b. b\<lparr>b_dirty := False, b_valid := True\<rparr>)
             (s\<lparr>io_disk := (io_disk s)(b_blockno b := b_data b), io_writes := io_writes s @ [(b_blockno b, b_data b)]\<rparr>))
      else Ok (upd_buf i (\<lambda>x. x\<lparr>b_data := io_disk s (b_blockno b), b_valid := True\<rparr>) s))"

definition lock_buf :: "nat \<Rightarrow> io \<Rightarrow> (nat \<times> io) res" where
  "lock_buf i s =
     rbind (acquiresleep (io_pid s) (b_lock (io_bufs s ! i))) (\<lambda>lk. Ok (i, upd_buf i (\<lambda>b. b\<lparr>b_lock := lk\<rparr>) s))"

definition bget :: "uint \<Rightarrow> uint \<Rightarrow> io \<Rightarrow> (nat \<times> io) res" where
  "bget dev blockno s =
     (case find (\<lambda>i. b_dev (io_bufs s ! i) = dev \<and> b_blockno (io_bufs s ! i) = blockno) (io_lru s) of
        Some i \<Rightarrow> lock_buf i (upd_buf i (\<lambda>b. b\<lparr>b_refcnt := b_refcnt b + 1\<rparr>) s)
      | None \<Rightarrow>
          (case find (\<lambda>i. b_refcnt (io_bufs s ! i) = 0 \<and> \<not> b_dirty (io_bufs s ! i)) (rev (io_lru s)) of
             Some i \<Rightarrow> lock_buf i (upd_buf i (\<lambda>b. b\<lparr>b_dev := dev, b_blockno := blockno, b_valid := False, b_dirty := False,
                          b_refcnt := 1\<rparr>) s)
           | None \<Rightarrow> Panic ''bget: no buffers''))"

definition bread :: "uint \<Rightarrow> uint \<Rightarrow> io \<Rightarrow> (nat \<times> io) res" where
  "bread dev blockno s =
     rbind (bget dev blockno s) (\<lambda>(i, s).
       if \<not> b_valid (io_bufs s ! i) then rbind (iderw i s) (\<lambda>s. Ok (i, s)) else Ok (i, s))"

definition bwrite :: "nat \<Rightarrow> io \<Rightarrow> io res" where
  "bwrite i s =
     (if \<not> holdingsleep (io_pid s) (b_lock (io_bufs s ! i)) then Panic ''bwrite''
      else iderw i (upd_buf i (\<lambda>b. b\<lparr>b_dirty := True\<rparr>) s))"

definition brelse :: "nat \<Rightarrow> io \<Rightarrow> io res" where
  "brelse i s =
     (if \<not> holdingsleep (io_pid s) (b_lock (io_bufs s ! i)) then Panic ''brelse''
      else
        let s = upd_buf i (\<lambda>b. b\<lparr>b_lock := releasesleep (b_lock b), b_refcnt := b_refcnt b - 1\<rparr>) s in
        Ok (if b_refcnt (io_bufs s ! i) = 0 then s\<lparr>io_lru := i # remove1 i (io_lru s)\<rparr> else s))"

text \<open>What the clients do with \<open>b->data\<close> and \<open>b->flags |= B_DIRTY\<close>.\<close>

definition buf_data :: "nat \<Rightarrow> io \<Rightarrow> byte list" where
  "buf_data i s = b_data (io_bufs s ! i)"

definition set_buf_data :: "nat \<Rightarrow> byte list \<Rightarrow> io \<Rightarrow> io" where
  "set_buf_data i d s = upd_buf i (\<lambda>b. b\<lparr>b_data := d\<rparr>) s"

definition set_dirty :: "nat \<Rightarrow> io \<Rightarrow> io" where
  "set_dirty i s = upd_buf i (\<lambda>b. b\<lparr>b_dirty := True\<rparr>) s"

section \<open>The invariant\<close>

definition buf_ok :: "io \<Rightarrow> buf \<Rightarrow> bool" where
  "buf_ok s b \<longleftrightarrow>
     b_refcnt b = (if sl_locked (b_lock b) then 1 else 0) \<and> (sl_locked (b_lock b) \<longrightarrow> sl_pid (b_lock b) = io_pid s \<and> b_valid b) \<and>
     length (b_data b) = BSIZE \<and> (b_dirty b \<longrightarrow> b_valid b) \<and>
     (b_dev b = 1 \<longleftrightarrow> b_valid b) \<and> (b_valid b \<longrightarrow> b_blockno b < io_disksize s) \<and>
     (b_valid b \<and> \<not> b_dirty b \<and> \<not> sl_locked (b_lock b) \<longrightarrow> b_data b = io_disk s (b_blockno b))"

definition cache_inv :: "io \<Rightarrow> bool" where
  "cache_inv s \<longleftrightarrow> length (io_bufs s) = NBUF \<and> distinct (io_lru s) \<and> set (io_lru s) = {..<NBUF} \<and>
     (\<forall>i<NBUF. buf_ok s (io_bufs s ! i)) \<and>
     (\<forall>i<NBUF. \<forall>j<NBUF. b_dev (io_bufs s ! i) = 1 \<and> b_dev (io_bufs s ! j) = 1 \<and>
        b_blockno (io_bufs s ! i) = b_blockno (io_bufs s ! j) \<longrightarrow> i = j) \<and>
     (\<forall>b<io_disksize s. length (io_disk s b) = BSIZE)"

definition held_block :: "io \<Rightarrow> nat \<Rightarrow> uint option" where
  "held_block s i = (if i < NBUF \<and> sl_locked (b_lock (io_bufs s ! i)) then Some (b_blockno (io_bufs s ! i)) else None)"

definition caches :: "io \<Rightarrow> uint \<Rightarrow> nat \<Rightarrow> bool" where
  "caches s b i \<longleftrightarrow> b_valid (io_bufs s ! i) \<and> b_dev (io_bufs s ! i) = 1 \<and> b_blockno (io_bufs s ! i) = b"

definition cache_view :: "io \<Rightarrow> uint \<Rightarrow> byte list" where
  "cache_view s b = (case find (caches s b) [0..<NBUF] of Some i \<Rightarrow> b_data (io_bufs s ! i) | None \<Rightarrow> io_disk s b)"

definition dirty_blocks :: "io \<Rightarrow> uint set" where
  "dirty_blocks s = {b_blockno (io_bufs s ! i) | i. i < NBUF \<and> b_dirty (io_bufs s ! i)}"

lemma upd_buf_simps [simp]:
  "io_pid (upd_buf i f s) = io_pid s" "io_lru (upd_buf i f s) = io_lru s" "io_disk (upd_buf i f s) = io_disk s"
  "io_disksize (upd_buf i f s) = io_disksize s" "io_writes (upd_buf i f s) = io_writes s"
  "length (io_bufs (upd_buf i f s)) = length (io_bufs s)"
  by (simp_all add: upd_buf_def)

lemma upd_buf_nth: "j < length (io_bufs s) \<Longrightarrow> io_bufs (upd_buf i f s) ! j = (if i = j then f (io_bufs s ! j) else io_bufs s ! j)"
  by (simp add: upd_buf_def nth_upd_at)

lemma cache_invD:
  assumes "cache_inv s"
  shows "length (io_bufs s) = NBUF" and "distinct (io_lru s)" and "set (io_lru s) = {..<NBUF}"
    and "i < NBUF \<Longrightarrow> buf_ok s (io_bufs s ! i)" and "b < io_disksize s \<Longrightarrow> length (io_disk s b) = BSIZE"
    and "i < NBUF \<Longrightarrow> j < NBUF \<Longrightarrow> b_dev (io_bufs s ! i) = 1 \<Longrightarrow> b_dev (io_bufs s ! j) = 1 \<Longrightarrow>
      b_blockno (io_bufs s ! i) = b_blockno (io_bufs s ! j) \<Longrightarrow> i = j"
  using assms by (auto simp: cache_inv_def)

lemma view_cached:
  assumes "cache_inv s" and "i < NBUF" and "caches s b i"
  shows "cache_view s b = b_data (io_bufs s ! i)"
proof -
  obtain j where j: "find (caches s b) [0..<NBUF] = Some j"
    using assms(2,3) by (metis find_None_iff atLeastLessThan_iff not_None_eq set_upt zero_le)
  then have "j < NBUF" "caches s b j" by (auto simp: find_Some_iff)
  then have "j = i" using cache_invD(6) [OF assms(1), of j i] assms(2,3) by (simp add: caches_def)
  with j show ?thesis by (simp add: cache_view_def)
qed

lemma view_uncached: "\<forall>i<NBUF. \<not> caches s b i \<Longrightarrow> cache_view s b = io_disk s b"
  by (auto simp: cache_view_def find_Some_iff split: option.splits)

lemma held_blockD: "held_block s i = Some b \<Longrightarrow> i < NBUF \<and> sl_locked (b_lock (io_bufs s ! i)) \<and> b_blockno (io_bufs s ! i) = b"
  by (auto simp: held_block_def split: if_splits)

lemma held_buf:
  assumes "cache_inv s" and "held_block s i = Some b"
  shows "i < NBUF" and "caches s b i" and "holdingsleep (io_pid s) (b_lock (io_bufs s ! i))" and "b < io_disksize s"
    and "b_blockno (io_bufs s ! i) = b" and "length (b_data (io_bufs s ! i)) = BSIZE" and "b_dev (io_bufs s ! i) = 1"
    and "b_valid (io_bufs s ! i)" and "b_refcnt (io_bufs s ! i) = 1" and "cache_view s b = b_data (io_bufs s ! i)"
proof -
  note h = held_blockD [OF assms(2)]
  then have ok: "buf_ok s (io_bufs s ! i)" using cache_invD(4) [OF assms(1)] by simp
  show "i < NBUF" "caches s b i" "holdingsleep (io_pid s) (b_lock (io_bufs s ! i))" "b < io_disksize s"
      "b_blockno (io_bufs s ! i) = b" "length (b_data (io_bufs s ! i)) = BSIZE" "b_dev (io_bufs s ! i) = 1"
      "b_valid (io_bufs s ! i)" "b_refcnt (io_bufs s ! i) = 1"
    using h ok by (auto simp: buf_ok_def caches_def holdingsleep_def)
  then show "cache_view s b = b_data (io_bufs s ! i)" by (intro view_cached assms(1))
qed

section \<open>Changing one buffer in place\<close>

definition same_block :: "buf \<Rightarrow> buf \<Rightarrow> bool" where
  "same_block b b' \<longleftrightarrow> b_dev b' = b_dev b \<and> b_blockno b' = b_blockno b \<and> b_valid b' = b_valid b"

lemma buf_ok_cong: "io_pid s' = io_pid s \<Longrightarrow> io_disksize s' = io_disksize s \<Longrightarrow> io_disk s' = io_disk s \<Longrightarrow> buf_ok s' b = buf_ok s b"
  by (simp add: buf_ok_def)

lemma buf_ok_upd: "buf_ok (upd_buf i f s) b = buf_ok s b"
  by (rule buf_ok_cong) simp_all

lemma upd_nth:
  "cache_inv s \<Longrightarrow> j < NBUF \<Longrightarrow> io_bufs (upd_buf i f s) ! j = (if i = j then f (io_bufs s ! j) else io_bufs s ! j)"
  using cache_invD(1) [of s] by (simp add: upd_buf_nth)

lemma upd_inv:
  assumes inv: "cache_inv s" and i: "i < NBUF" and same: "same_block (io_bufs s ! i) (f (io_bufs s ! i))"
    and ok: "buf_ok s (f (io_bufs s ! i))"
  shows "cache_inv (upd_buf i f s)"
proof -
  note I = cache_invD [OF inv]
  let ?s = "upd_buf i f s"
  have n: "io_bufs ?s ! j = (if i = j then f (io_bufs s ! j) else io_bufs s ! j)" if "j < NBUF" for j
    using that I(1) by (simp add: upd_buf_nth)
  have id: "b_dev (io_bufs ?s ! j) = b_dev (io_bufs s ! j)" "b_blockno (io_bufs ?s ! j) = b_blockno (io_bufs s ! j)"
    if "j < NBUF" for j using that same by (auto simp: n same_block_def)
  have "\<forall>j<NBUF. buf_ok ?s (io_bufs ?s ! j)"
    using ok I(4) by (simp add: n buf_ok_upd)
  moreover have "\<forall>j<NBUF. \<forall>k<NBUF. b_dev (io_bufs ?s ! j) = 1 \<and> b_dev (io_bufs ?s ! k) = 1 \<and>
      b_blockno (io_bufs ?s ! j) = b_blockno (io_bufs ?s ! k) \<longrightarrow> j = k"
  proof (intro allI impI)
    fix j k assume j: "j < NBUF" and k: "k < NBUF" and a: "b_dev (io_bufs ?s ! j) = 1 \<and> b_dev (io_bufs ?s ! k) = 1 \<and>
      b_blockno (io_bufs ?s ! j) = b_blockno (io_bufs ?s ! k)"
    show "j = k" by (rule I(6) [OF j k]) (use a in \<open>simp_all add: id [OF j] id [OF k]\<close>)
  qed
  ultimately show ?thesis unfolding cache_inv_def using I(1,2,3,5) by (simp only: upd_buf_simps) blast
qed

lemma upd_held:
  assumes "cache_inv s" and "i < NBUF" and "same_block (io_bufs s ! i) (f (io_bufs s ! i))"
  shows "held_block (upd_buf i f s) = (held_block s)(i := if sl_locked (b_lock (f (io_bufs s ! i))) then Some (b_blockno (io_bufs s ! i)) else None)"
proof
  fix j
  show "held_block (upd_buf i f s) j = ((held_block s)(i := if sl_locked (b_lock (f (io_bufs s ! i))) then Some (b_blockno (io_bufs s ! i)) else None)) j"
    using assms by (cases "j < NBUF") (auto simp: held_block_def upd_nth same_block_def)
qed

lemma upd_caches:
  assumes "cache_inv s" and "i < NBUF" and "same_block (io_bufs s ! i) (f (io_bufs s ! i))" and "j < NBUF"
  shows "caches (upd_buf i f s) b j = caches s b j"
  using assms cache_invD(1) [OF assms(1)] by (auto simp: caches_def upd_buf_nth same_block_def)

lemma upd_view:
  assumes inv: "cache_inv s" and i: "i < NBUF" and same: "same_block (io_bufs s ! i) (f (io_bufs s ! i))"
    and ok: "buf_ok s (f (io_bufs s ! i))" and v: "b_valid (io_bufs s ! i)"
  shows "cache_view (upd_buf i f s) = (cache_view s)(b_blockno (io_bufs s ! i) := b_data (f (io_bufs s ! i)))"
proof
  fix b
  let ?s = "upd_buf i f s"
  note inv' = upd_inv [of s i f, OF inv i same ok]
  show "cache_view ?s b = ((cache_view s)(b_blockno (io_bufs s ! i) := b_data (f (io_bufs s ! i)))) b"
  proof (cases "b = b_blockno (io_bufs s ! i)")
    case True
    have "buf_ok s (io_bufs s ! i)" by (rule cache_invD(4) [OF inv i])
    with v True have "caches s b i" by (simp add: caches_def buf_ok_def)
    then have "caches ?s b i" by (simp add: upd_caches [of s i f, OF inv i same i])
    from view_cached [OF inv' i this] True i cache_invD(1) [OF inv] show ?thesis by (simp add: upd_buf_nth)
  next
    case ne: False
    show ?thesis
    proof (cases "\<exists>j<NBUF. caches s b j")
      case True
      then obtain j where j: "j < NBUF" "caches s b j" by blast
      with ne have "j \<noteq> i" by (auto simp: caches_def)
      moreover have "caches ?s b j" using j by (simp add: upd_caches [of s i f, OF inv i same])
      ultimately show ?thesis
        using ne j view_cached [OF inv j] view_cached [OF inv' j(1)] cache_invD(1) [OF inv] by (simp add: upd_buf_nth)
    next
      case False
      then show ?thesis using ne view_uncached [of s b] view_uncached [of ?s b] by (simp add: upd_caches [of s i f, OF inv i same])
    qed
  qed
qed

lemma mem_dirty: "b \<in> dirty_blocks s \<longleftrightarrow> (\<exists>j<NBUF. b_blockno (io_bufs s ! j) = b \<and> b_dirty (io_bufs s ! j))"
  by (auto simp: dirty_blocks_def)

lemma upd_dirty_same:
  assumes "cache_inv s" and "b_dirty (f (io_bufs s ! i)) = b_dirty (io_bufs s ! i)"
    and "b_blockno (f (io_bufs s ! i)) = b_blockno (io_bufs s ! i)"
  shows "dirty_blocks (upd_buf i f s) = dirty_blocks s"
  using assms(2,3) unfolding set_eq_iff mem_dirty by (intro allI ex_cong) (auto simp: upd_nth [OF assms(1)])

lemma upd_dirty:
  assumes inv: "cache_inv s" and i: "i < NBUF" and same: "same_block (io_bufs s ! i) (f (io_bufs s ! i))"
    and v: "b_valid (io_bufs s ! i)"
  shows "dirty_blocks (upd_buf i f s) =
    (if b_dirty (f (io_bufs s ! i)) then insert (b_blockno (io_bufs s ! i)) (dirty_blocks s)
     else dirty_blocks s - {b_blockno (io_bufs s ! i)})"
proof -
  note I = cache_invD [OF inv]
  have dev: "b_dev (io_bufs s ! j) = 1" if "j < NBUF" "b_valid (io_bufs s ! j)" for j
    using I(4) [OF that(1)] that(2) by (simp add: buf_ok_def)
  have uniq: "j = i" if "j < NBUF" "b_dirty (io_bufs s ! j)" "b_blockno (io_bufs s ! j) = b_blockno (io_bufs s ! i)" for j
  proof (rule I(6) [OF that(1) i _ _ that(3)])
    show "b_dev (io_bufs s ! j) = 1" using I(4) [OF that(1)] that(2) by (intro dev that(1)) (simp add: buf_ok_def)
    show "b_dev (io_bufs s ! i) = 1" by (rule dev [OF i v])
  qed
  show ?thesis
  proof (rule set_eqI)
    fix b
    have "b \<in> dirty_blocks (upd_buf i f s) \<longleftrightarrow>
        (\<exists>j<NBUF. b_blockno (io_bufs s ! j) = b \<and> (if i = j then b_dirty (f (io_bufs s ! j)) else b_dirty (io_bufs s ! j)))"
      using same i unfolding mem_dirty by (intro ex_cong) (auto simp: upd_nth [OF inv] same_block_def)
    also have "\<dots> \<longleftrightarrow> (if b = b_blockno (io_bufs s ! i) then b_dirty (f (io_bufs s ! i)) else b \<in> dirty_blocks s)"
    proof (cases "b = b_blockno (io_bufs s ! i)")
      case True
      with i uniq show ?thesis by (auto split: if_splits)
    next
      case False
      then show ?thesis unfolding mem_dirty by auto
    qed
    finally show "b \<in> dirty_blocks (upd_buf i f s) \<longleftrightarrow> b \<in> (if b_dirty (f (io_bufs s ! i))
        then insert (b_blockno (io_bufs s ! i)) (dirty_blocks s) else dirty_blocks s - {b_blockno (io_bufs s ! i)})" by auto
  qed
qed

section \<open>The operations\<close>

lemma set_buf_data_law:
  assumes inv: "cache_inv s" and h: "held_block s i = Some b" and len: "length d = BSIZE"
  shows "cache_inv (set_buf_data i d s) \<and> held_block (set_buf_data i d s) = held_block s \<and>
    cache_view (set_buf_data i d s) = (cache_view s)(b := d) \<and> io_disk (set_buf_data i d s) = io_disk s \<and>
    dirty_blocks (set_buf_data i d s) = dirty_blocks s \<and> io_writes (set_buf_data i d s) = io_writes s \<and>
    io_disksize (set_buf_data i d s) = io_disksize s"
proof -
  note B = held_buf [OF inv h] and hd = held_blockD [OF h]
  let ?f = "\<lambda>b. b\<lparr>b_data := d\<rparr>"
  have same: "same_block (io_bufs s ! i) (?f (io_bufs s ! i))" by (simp add: same_block_def)
  have ok: "buf_ok s (?f (io_bufs s ! i))" using cache_invD(4) [OF inv B(1)] hd len by (simp add: buf_ok_def)
  have "held_block (upd_buf i ?f s) = held_block s"
    using upd_held [of s i ?f, OF inv B(1) same] hd h by (simp add: fun_upd_idem)
  moreover have "dirty_blocks (upd_buf i ?f s) = dirty_blocks s"
    by (intro upd_dirty_same inv) simp_all
  ultimately show ?thesis
    using upd_inv [of s i ?f, OF inv B(1) same ok] upd_view [of s i ?f, OF inv B(1) same ok B(8)] B(5)
    by (simp add: set_buf_data_def)
qed

lemma set_dirty_law:
  assumes inv: "cache_inv s" and h: "held_block s i = Some b"
  shows "cache_inv (set_dirty i s) \<and> held_block (set_dirty i s) = held_block s \<and> cache_view (set_dirty i s) = cache_view s \<and>
    io_disk (set_dirty i s) = io_disk s \<and> dirty_blocks (set_dirty i s) = insert b (dirty_blocks s) \<and>
    io_writes (set_dirty i s) = io_writes s \<and> io_disksize (set_dirty i s) = io_disksize s"
proof -
  note B = held_buf [OF inv h] and hd = held_blockD [OF h]
  let ?f = "\<lambda>b. b\<lparr>b_dirty := True\<rparr>"
  have same: "same_block (io_bufs s ! i) (?f (io_bufs s ! i))" by (simp add: same_block_def)
  have ok: "buf_ok s (?f (io_bufs s ! i))" using cache_invD(4) [OF inv B(1)] hd B(8) by (simp add: buf_ok_def)
  have "cache_view (upd_buf i ?f s) = cache_view s"
    using upd_view [of s i ?f, OF inv B(1) same ok B(8)] B(5,10) by (simp add: fun_upd_idem)
  then show ?thesis
    using upd_inv [of s i ?f, OF inv B(1) same ok] upd_dirty [of s i ?f, OF inv B(1) same B(8)]
      upd_held [of s i ?f, OF inv B(1) same] hd h B(5) by (simp add: set_dirty_def fun_upd_idem)
qed

lemma write_disk:
  assumes inv: "cache_inv s" and h: "held_block s i = Some b" and t: "t = s\<lparr>io_disk := (io_disk s)(b := cache_view s b), io_writes := ws\<rparr>"
  shows "cache_inv t" and "held_block t = held_block s" and "cache_view t = cache_view s" and "dirty_blocks t = dirty_blocks s"
proof -
  note B = held_buf [OF inv h] and I = cache_invD [OF inv] and hd = held_blockD [OF h]
  have same: "io_bufs t = io_bufs s" "io_lru t = io_lru s" "io_pid t = io_pid s" "io_disksize t = io_disksize s"
      "io_disk t = (io_disk s)(b := cache_view s b)" using t by simp_all
  have "buf_ok t (io_bufs t ! j)" if j: "j < NBUF" for j
  proof -
    have "b_blockno (io_bufs s ! j) \<noteq> b" if "b_valid (io_bufs s ! j)" "\<not> sl_locked (b_lock (io_bufs s ! j))"
    proof
      assume "b_blockno (io_bufs s ! j) = b"
      moreover have "b_dev (io_bufs s ! j) = 1" using I(4) [OF j] that by (simp add: buf_ok_def)
      ultimately have "j = i" using I(6) [OF j B(1)] B(5,7) by simp
      with that hd show False by simp
    qed
    with I(4) [OF j] show ?thesis by (simp add: buf_ok_def same)
  qed
  moreover have "length (io_disk t x) = BSIZE" if "x < io_disksize t" for x
    using I(5) [of x] that B(6,10) by (simp add: same)
  ultimately show "cache_inv t" using I(1,2,3,6) unfolding cache_inv_def same(1,2,4) by (simp add: same(1))
  show "held_block t = held_block s" by (rule ext) (simp add: held_block_def same)
  show "dirty_blocks t = dirty_blocks s" by (simp add: dirty_blocks_def same)
  have c: "caches t = caches s" by (intro ext) (simp add: caches_def same)
  show "cache_view t = cache_view s"
  proof
    fix x
    show "cache_view t x = cache_view s x"
    proof (cases "x = b")
      case True
      then show ?thesis using view_cached [OF \<open>cache_inv t\<close> B(1), of b] B(2,10) c same by simp
    next
      case False
      then show ?thesis by (simp add: cache_view_def c same split: option.splits)
    qed
  qed
qed

lemma bwrite_law:
  assumes inv: "cache_inv s" and h: "held_block s i = Some b"
  shows "\<exists>s'. bwrite i s = Ok s' \<and> cache_inv s' \<and> held_block s' = held_block s \<and> cache_view s' = cache_view s \<and>
    io_disk s' = (io_disk s)(b := cache_view s b) \<and> dirty_blocks s' = dirty_blocks s - {b} \<and>
    io_writes s' = io_writes s @ [(b, cache_view s b)] \<and> io_disksize s' = io_disksize s"
proof -
  note D = set_dirty_law [OF inv h]
  let ?s1 = "set_dirty i s"
  have h1: "held_block ?s1 i = Some b" using D h by simp
  have inv1: "cache_inv ?s1" using D by simp
  note B1 = held_buf [OF inv1 h1]
  have dirty: "b_dirty (io_bufs ?s1 ! i)" using held_buf(1) [OF inv h] by (simp add: set_dirty_def upd_nth [OF inv])
  let ?s2 = "?s1\<lparr>io_disk := (io_disk ?s1)(b := cache_view ?s1 b), io_writes := io_writes ?s1 @ [(b, cache_view ?s1 b)]\<rparr>"
  note W = write_disk [OF inv1 h1 refl]
  have h2: "held_block ?s2 i = Some b" using W(2) h1 by simp
  note B2 = held_buf [OF W(1) h2]
  let ?f = "\<lambda>b. b\<lparr>b_dirty := False, b_valid := True\<rparr>"
  have same: "same_block (io_bufs ?s2 ! i) (?f (io_bufs ?s2 ! i))" using B2(8) by (simp add: same_block_def)
  have ok: "buf_ok ?s2 (?f (io_bufs ?s2 ! i))"
    using cache_invD(4) [OF W(1) B2(1)] held_blockD [OF h2] by (simp add: buf_ok_def)
  let ?s3 = "upd_buf i ?f ?s2"
  have "bwrite i s = Ok ?s3"
    using B1 dirty held_buf(3) [OF inv h] unfolding bwrite_def set_dirty_def [symmetric]
    by (simp add: iderw_def Let_def not_le)
  moreover have "cache_view ?s3 = cache_view s"
    using upd_view [of ?s2 i ?f, OF W(1) B2(1) same ok B2(8)] B2(5,10) W(3) D by (simp add: fun_upd_idem)
  moreover have "held_block ?s3 = held_block s"
    using upd_held [of ?s2 i ?f, OF W(1) B2(1) same] held_blockD [OF h2] h2 W(2) D by (simp add: fun_upd_idem)
  moreover have "dirty_blocks ?s3 = dirty_blocks s - {b}"
    using upd_dirty [of ?s2 i ?f, OF W(1) B2(1) same B2(8)] B2(5) W(4) D by simp
  ultimately show ?thesis
    using upd_inv [of ?s2 i ?f, OF W(1) B2(1) same ok] D by simp
qed

lemma lru_change:
  assumes inv: "cache_inv s" and l: "distinct l" "set l = {..<NBUF}"
  shows "cache_inv (s\<lparr>io_lru := l\<rparr>) \<and> held_block (s\<lparr>io_lru := l\<rparr>) = held_block s \<and> cache_view (s\<lparr>io_lru := l\<rparr>) = cache_view s \<and>
    dirty_blocks (s\<lparr>io_lru := l\<rparr>) = dirty_blocks s"
proof -
  let ?t = "s\<lparr>io_lru := l\<rparr>"
  have "buf_ok ?t b = buf_ok s b" for b by (rule buf_ok_cong) simp_all
  then have "cache_inv ?t" using cache_invD [OF inv] l unfolding cache_inv_def by simp
  moreover have "caches ?t = caches s" by (intro ext) (simp add: caches_def)
  then have "cache_view ?t = cache_view s" by (intro ext) (simp add: cache_view_def split: option.split)
  moreover have "held_block ?t = held_block s" by (rule ext) (simp add: held_block_def)
  ultimately show ?thesis by (simp add: dirty_blocks_def)
qed

lemma brelse_law:
  assumes inv: "cache_inv s" and h: "held_block s i = Some b" and d: "b \<in> dirty_blocks s \<or> cache_view s b = io_disk s b"
  shows "\<exists>s'. brelse i s = Ok s' \<and> cache_inv s' \<and> held_block s' = (held_block s)(i := None) \<and> cache_view s' = cache_view s \<and>
    io_disk s' = io_disk s \<and> dirty_blocks s' = dirty_blocks s \<and> io_writes s' = io_writes s \<and> io_disksize s' = io_disksize s"
proof -
  note B = held_buf [OF inv h] and I = cache_invD [OF inv]
  let ?f = "\<lambda>b. b\<lparr>b_lock := releasesleep (b_lock b), b_refcnt := b_refcnt b - 1\<rparr>"
  let ?s1 = "upd_buf i ?f s"
  have same: "same_block (io_bufs s ! i) (?f (io_bufs s ! i))" by (simp add: same_block_def)
  have "b_dirty (io_bufs s ! i)" if m: "b \<in> dirty_blocks s"
  proof -
    obtain j where j: "j < NBUF" "b_blockno (io_bufs s ! j) = b" "b_dirty (io_bufs s ! j)" using m unfolding mem_dirty by blast
    then have "b_dev (io_bufs s ! j) = 1" using I(4) [of j] by (simp add: buf_ok_def)
    then have "j = i" using I(6) [OF j(1) B(1)] B(5,7) j(2) by simp
    with j show ?thesis by simp
  qed
  then have ok: "buf_ok s (?f (io_bufs s ! i))"
    using I(4) [OF B(1)] d B(5,9,10) by (auto simp: buf_ok_def releasesleep_def)
  have inv1: "cache_inv ?s1" by (rule upd_inv [of s i ?f, OF inv B(1) same ok])
  have h1: "held_block ?s1 = (held_block s)(i := None)"
    using upd_held [of s i ?f, OF inv B(1) same] by (simp add: releasesleep_def)
  have v1: "cache_view ?s1 = cache_view s"
    using upd_view [of s i ?f, OF inv B(1) same ok B(8)] B(5,10) by (simp add: fun_upd_idem)
  have d1: "dirty_blocks ?s1 = dirty_blocks s" by (rule upd_dirty_same [OF inv]) simp_all
  let ?l = "i # remove1 i (io_lru s)"
  have l: "distinct ?l" "set ?l = {..<NBUF}" using I(2,3) B(1) by auto
  have "brelse i s = Ok (?s1\<lparr>io_lru := ?l\<rparr>)"
    using B(1,3,9) by (simp add: brelse_def Let_def upd_nth [OF inv])
  with lru_change [OF inv1 l] h1 v1 d1 show ?thesis by simp
qed

lemma upd_buf_twice: "upd_buf i g (upd_buf i f s) = upd_buf i (\<lambda>b. g (f b)) s"
  by (cases "i < length (io_bufs s)") (simp_all add: upd_buf_def upd_at_def list_update_beyond)

lemma bread_hit:
  assumes inv: "cache_inv s" and f: "find (\<lambda>i. b_dev (io_bufs s ! i) = 1 \<and> b_blockno (io_bufs s ! i) = b) (io_lru s) = Some i"
    and nh: "b \<notin> ran (held_block s)"
  shows "\<exists>s'. bread 1 b s = Ok (i, s') \<and> cache_inv s' \<and> held_block s i = None \<and> held_block s' = (held_block s)(i \<mapsto> b) \<and>
    cache_view s' = cache_view s \<and> io_disk s' = io_disk s \<and> dirty_blocks s' = dirty_blocks s \<and> io_writes s' = io_writes s \<and>
    io_disksize s' = io_disksize s"
proof -
  note I = cache_invD [OF inv]
  have i: "i \<in> set (io_lru s)" "b_dev (io_bufs s ! i) = 1" "b_blockno (io_bufs s ! i) = b"
    using f by (auto simp: find_Some_iff)
  then have n: "i < NBUF" using I(3) by simp
  have v: "b_valid (io_bufs s ! i)" using I(4) [OF n] i(2) by (simp add: buf_ok_def)
  have nl: "\<not> sl_locked (b_lock (io_bufs s ! i))"
  proof
    assume "sl_locked (b_lock (io_bufs s ! i))"
    then have "held_block s i = Some b" using n i(3) by (simp add: held_block_def)
    with nh show False by (meson ranI)
  qed
  let ?f = "\<lambda>x. x\<lparr>b_refcnt := b_refcnt x + 1, b_lock := \<lparr>sl_locked = True, sl_pid = io_pid s\<rparr>\<rparr>"
  let ?s1 = "upd_buf i ?f s"
  have same: "same_block (io_bufs s ! i) (?f (io_bufs s ! i))" by (simp add: same_block_def)
  have ok: "buf_ok s (?f (io_bufs s ! i))" using I(4) [OF n] nl v by (simp add: buf_ok_def)
  have "bget 1 b s = Ok (i, ?s1)"
    using f nl n by (simp add: bget_def lock_buf_def acquiresleep_def upd_nth [OF inv] upd_buf_twice)
  then have "bread 1 b s = Ok (i, ?s1)" using v n by (simp add: bread_def upd_nth [OF inv])
  moreover have "cache_view ?s1 = cache_view s"
    using upd_view [of s i ?f, OF inv n same ok v] view_cached [OF inv n, of b] i v by (simp add: caches_def fun_upd_idem)
  moreover have "held_block s i = None" using nl by (simp add: held_block_def)
  ultimately show ?thesis
    using upd_inv [of s i ?f, OF inv n same ok] upd_held [of s i ?f, OF inv n same] upd_dirty_same [OF inv, of ?f i] i(3) by simp
qed

text \<open>A block that is not cached takes over a buffer that is neither in use nor changed.\<close>

lemma recycle:
  assumes inv: "cache_inv s" and n: "i < NBUF" and free: "b_refcnt (io_bufs s ! i) = 0" "\<not> b_dirty (io_bufs s ! i)"
    and b: "b < io_disksize s" and nc: "\<forall>j<NBUF. \<not> (b_dev (io_bufs s ! j) = 1 \<and> b_blockno (io_bufs s ! j) = b)"
    and x: "x = \<lparr>b_valid = True, b_dirty = False, b_dev = 1, b_blockno = b, b_lock = \<lparr>sl_locked = True, sl_pid = io_pid s\<rparr>,
      b_refcnt = 1, b_data = io_disk s b\<rparr>" and t: "t = upd_buf i (\<lambda>_. x) s"
  shows "cache_inv t" and "held_block s i = None" and "held_block t = (held_block s)(i \<mapsto> b)" and "cache_view t = cache_view s"
    and "dirty_blocks t = dirty_blocks s"
proof -
  note I = cache_invD [OF inv]
  have nth: "io_bufs t ! j = (if i = j then x else io_bufs s ! j)" if "j < NBUF" for j using that by (simp add: t upd_nth [OF inv])
  have nl: "\<not> sl_locked (b_lock (io_bufs s ! i))" using I(4) [OF n] free(1) by (auto simp: buf_ok_def)
  then show "held_block s i = None" by (simp add: held_block_def)
  have "buf_ok s x" using I(5) [OF b] b by (simp add: x buf_ok_def)
  then have ok: "\<forall>j<NBUF. buf_ok t (io_bufs t ! j)" using I(4) nth by (auto simp: t buf_ok_upd)
  have uniq: "\<forall>j<NBUF. \<forall>k<NBUF. b_dev (io_bufs t ! j) = 1 \<and> b_dev (io_bufs t ! k) = 1 \<and>
      b_blockno (io_bufs t ! j) = b_blockno (io_bufs t ! k) \<longrightarrow> j = k"
  proof (intro allI impI)
    fix j k assume jk: "j < NBUF" "k < NBUF"
      and a: "b_dev (io_bufs t ! j) = 1 \<and> b_dev (io_bufs t ! k) = 1 \<and> b_blockno (io_bufs t ! j) = b_blockno (io_bufs t ! k)"
    show "j = k"
    proof (cases "i = j"; cases "i = k")
      assume "i \<noteq> j" "i \<noteq> k"
      with a jk show ?thesis using I(6) [OF jk] by (simp add: nth)
    next
      assume "i = j" "i \<noteq> k"
      with a jk nc show ?thesis by (auto simp: nth x)
    next
      assume "i \<noteq> j" "i = k"
      with a jk nc show ?thesis by (auto simp: nth x)
    qed simp
  qed
  show inv': "cache_inv t" unfolding cache_inv_def
    using I(1,2,3,5) ok uniq by (simp only: t upd_buf_simps) blast
  show "held_block t = (held_block s)(i \<mapsto> b)"
  proof
    fix j show "held_block t j = ((held_block s)(i \<mapsto> b)) j"
      using n nth by (cases "j < NBUF") (auto simp: held_block_def x)
  qed
  show "dirty_blocks t = dirty_blocks s"
    using free(2) unfolding set_eq_iff mem_dirty by (intro allI ex_cong) (auto simp: nth x)
  show "cache_view t = cache_view s"
  proof
    fix c
    show "cache_view t c = cache_view s c"
    proof (cases "c = b")
      case True
      have "caches t b i" using n by (simp add: caches_def nth x)
      from view_cached [OF inv' n this] have "cache_view t b = io_disk s b" using n by (simp add: nth x)
      moreover have "cache_view s b = io_disk s b" using nc by (intro view_uncached) (auto simp: caches_def)
      ultimately show ?thesis using True by simp
    next
      case ne: False
      show ?thesis
      proof (cases "\<exists>j<NBUF. j \<noteq> i \<and> caches s c j")
        case True
        then obtain j where j: "j < NBUF" "j \<noteq> i" "caches s c j" by blast
        then have "caches t c j" by (simp add: caches_def nth)
        with view_cached [OF inv' j(1)] view_cached [OF inv j(1,3)] j show ?thesis by (simp add: nth)
      next
        case no: False
        have "\<forall>j<NBUF. \<not> caches t c j"
        proof (intro allI impI)
          fix j assume j: "j < NBUF"
          show "\<not> caches t c j" using no ne j by (cases "i = j") (auto simp: caches_def nth [OF j] x)
        qed
        then have "cache_view t c = io_disk s c" using view_uncached [of t c] by (simp add: t)
        moreover have "cache_view s c = io_disk s c"
        proof (cases "caches s c i")
          case True
          with view_cached [OF inv n True] I(4) [OF n] free(2) nl show ?thesis by (simp add: caches_def buf_ok_def)
        next
          case False
          with no show ?thesis by (intro view_uncached) auto
        qed
        ultimately show ?thesis by simp
      qed
    qed
  qed
qed

lemma finite_dirty: "finite (dirty_blocks s)"
proof -
  have "dirty_blocks s \<subseteq> (\<lambda>i. b_blockno (io_bufs s ! i)) ` {..<NBUF}" unfolding dirty_blocks_def by blast
  then show ?thesis by (rule finite_subset) simp
qed

lemma finite_held: "finite (ran (held_block s))"
proof -
  have "ran (held_block s) \<subseteq> (\<lambda>i. b_blockno (io_bufs s ! i)) ` {..<NBUF}"
  proof
    fix b assume "b \<in> ran (held_block s)"
    then obtain i where "held_block s i = Some b" unfolding ran_def by blast
    from held_blockD [OF this] show "b \<in> (\<lambda>i. b_blockno (io_bufs s ! i)) ` {..<NBUF}" by blast
  qed
  then show ?thesis by (rule finite_subset) simp
qed

lemma find_SomeD: "find P xs = Some x \<Longrightarrow> x \<in> set xs \<and> P x"
  by (induction xs) (auto split: if_splits)

lemma busy_card:
  assumes inv: "cache_inv s"
  shows "card {i. i < NBUF \<and> (sl_locked (b_lock (io_bufs s ! i)) \<or> b_dirty (io_bufs s ! i))} \<le>
    card (dirty_blocks s \<union> ran (held_block s))"
proof (rule card_inj_on_le [of "\<lambda>i. b_blockno (io_bufs s ! i)"])
  note I = cache_invD [OF inv]
  show "inj_on (\<lambda>i. b_blockno (io_bufs s ! i)) {i. i < NBUF \<and> (sl_locked (b_lock (io_bufs s ! i)) \<or> b_dirty (io_bufs s ! i))}"
  proof (rule inj_onI, clarify)
    fix i j assume ij: "i < NBUF" "j < NBUF" "b_blockno (io_bufs s ! i) = b_blockno (io_bufs s ! j)"
      and b: "sl_locked (b_lock (io_bufs s ! i)) \<or> b_dirty (io_bufs s ! i)" "sl_locked (b_lock (io_bufs s ! j)) \<or> b_dirty (io_bufs s ! j)"
    have "b_dev (io_bufs s ! i) = 1" "b_dev (io_bufs s ! j) = 1"
      using I(4) [OF ij(1)] I(4) [OF ij(2)] b by (auto simp: buf_ok_def)
    with I(6) [OF ij(1,2)] ij(3) show "i = j" by blast
  qed
  show "(\<lambda>i. b_blockno (io_bufs s ! i)) ` {i. i < NBUF \<and> (sl_locked (b_lock (io_bufs s ! i)) \<or> b_dirty (io_bufs s ! i))}
    \<subseteq> dirty_blocks s \<union> ran (held_block s)"
  proof clarify
    fix i assume i: "i < NBUF" "b_blockno (io_bufs s ! i) \<notin> ran (held_block s)"
      "sl_locked (b_lock (io_bufs s ! i)) \<or> b_dirty (io_bufs s ! i)"
    then have "\<not> sl_locked (b_lock (io_bufs s ! i))" by (metis held_block_def ranI)
    with i show "b_blockno (io_bufs s ! i) \<in> dirty_blocks s" unfolding mem_dirty by blast
  qed
  show "finite (dirty_blocks s \<union> ran (held_block s))" using finite_dirty finite_held by (rule finite_UnI)
qed

lemma bread_miss:
  assumes inv: "cache_inv s" and f: "find (\<lambda>i. b_dev (io_bufs s ! i) = 1 \<and> b_blockno (io_bufs s ! i) = b) (io_lru s) = None"
    and b: "b < io_disksize s" and r: "card (insert b (dirty_blocks s \<union> ran (held_block s))) \<le> NBUF"
  shows "\<exists>i s'. bread 1 b s = Ok (i, s') \<and> cache_inv s' \<and> held_block s i = None \<and> held_block s' = (held_block s)(i \<mapsto> b) \<and>
    cache_view s' = cache_view s \<and> io_disk s' = io_disk s \<and> dirty_blocks s' = dirty_blocks s \<and> io_writes s' = io_writes s \<and>
    io_disksize s' = io_disksize s"
proof -
  note I = cache_invD [OF inv]
  have nc: "\<forall>j<NBUF. \<not> (b_dev (io_bufs s ! j) = 1 \<and> b_blockno (io_bufs s ! j) = b)"
    using f I(3) by (auto simp: find_None_iff)
  let ?busy = "{i. i < NBUF \<and> (sl_locked (b_lock (io_bufs s ! i)) \<or> b_dirty (io_bufs s ! i))}"
  have "b \<notin> dirty_blocks s"
  proof
    assume "b \<in> dirty_blocks s"
    then obtain j where "j < NBUF" "b_blockno (io_bufs s ! j) = b" "b_dirty (io_bufs s ! j)" unfolding mem_dirty by blast
    with nc I(4) [of j] show False by (simp add: buf_ok_def)
  qed
  moreover have "b \<notin> ran (held_block s)"
  proof
    assume "b \<in> ran (held_block s)"
    then obtain j where "held_block s j = Some b" by (auto simp: ran_def)
    from held_buf(1,5,7) [OF inv this] nc show False by blast
  qed
  ultimately have "card (dirty_blocks s \<union> ran (held_block s)) < NBUF"
    using r finite_dirty finite_held by (simp add: card_insert_if)
  then have "card ?busy < NBUF" using busy_card [OF inv] by simp
  then have "?busy \<noteq> {..<NBUF}" by (metis card_lessThan less_irrefl)
  then obtain k where k: "k < NBUF" "\<not> sl_locked (b_lock (io_bufs s ! k))" "\<not> b_dirty (io_bufs s ! k)" by auto
  have "b_refcnt (io_bufs s ! k) = 0" using I(4) [OF k(1)] k(2) by (simp add: buf_ok_def)
  with k I(3) obtain i where g: "find (\<lambda>i. b_refcnt (io_bufs s ! i) = 0 \<and> \<not> b_dirty (io_bufs s ! i)) (rev (io_lru s)) = Some i"
    by (metis (mono_tags, lifting) find_None_iff lessThan_iff not_None_eq set_rev)
  then have i: "i \<in> set (rev (io_lru s))" "b_refcnt (io_bufs s ! i) = 0" "\<not> b_dirty (io_bufs s ! i)"
    using find_SomeD by fastforce+
  then have n: "i < NBUF" using I(3) by simp
  have nl: "\<not> sl_locked (b_lock (io_bufs s ! i))" using I(4) [OF n] i(2) by (auto simp: buf_ok_def)
  let ?x = "\<lparr>b_valid = True, b_dirty = False, b_dev = 1, b_blockno = b, b_lock = \<lparr>sl_locked = True, sl_pid = io_pid s\<rparr>,
      b_refcnt = 1, b_data = io_disk s b\<rparr>"
  let ?g = "\<lambda>x. x\<lparr>b_dev := 1, b_blockno := b, b_valid := False, b_dirty := False, b_refcnt := 1,
      b_lock := \<lparr>sl_locked = True, sl_pid = io_pid s\<rparr>\<rparr>"
  let ?s1 = "upd_buf i ?g s"
  have "bget 1 b s = Ok (i, ?s1)"
    using f g n nl by (simp add: bget_def lock_buf_def acquiresleep_def upd_nth [OF inv] upd_buf_twice)
  moreover have "(\<lambda>ba :: buf. ba\<lparr>b_dev := 1, b_blockno := b, b_dirty := False, b_refcnt := 1,
      b_lock := \<lparr>sl_locked = True, sl_pid = io_pid s\<rparr>, b_data := io_disk s b, b_valid := True\<rparr>) = (\<lambda>_. ?x)"
    by (rule ext, rule buf.equality) simp_all
  then have "iderw i ?s1 = Ok (upd_buf i (\<lambda>_. ?x) s)"
    using n b by (simp add: iderw_def Let_def upd_nth [OF inv] holdingsleep_def upd_buf_twice not_le)
  ultimately have "bread 1 b s = Ok (i, upd_buf i (\<lambda>_. ?x) s)" using n by (simp add: bread_def upd_nth [OF inv])
  with recycle [OF inv n i(2,3) b nc refl refl] show ?thesis by fastforce
qed

lemma bread_law:
  assumes "cache_inv s" and "b < io_disksize s" and "b \<notin> ran (held_block s)"
    and "card (insert b (dirty_blocks s \<union> ran (held_block s))) \<le> NBUF"
  shows "\<exists>i s'. bread 1 b s = Ok (i, s') \<and> cache_inv s' \<and> held_block s i = None \<and> held_block s' = (held_block s)(i \<mapsto> b) \<and>
    cache_view s' = cache_view s \<and> io_disk s' = io_disk s \<and> dirty_blocks s' = dirty_blocks s \<and> io_writes s' = io_writes s \<and>
    io_disksize s' = io_disksize s"
proof (cases "find (\<lambda>i. b_dev (io_bufs s ! i) = 1 \<and> b_blockno (io_bufs s ! i) = b) (io_lru s)")
  case None
  from bread_miss [OF assms(1) None assms(2,4)] show ?thesis .
next
  case (Some i)
  from bread_hit [OF assms(1) Some assms(3)] show ?thesis by blast
qed

lemma view_length: "cache_inv s \<Longrightarrow> b < io_disksize s \<Longrightarrow> length (cache_view s b) = BSIZE"
  using cache_invD(4,5) [of s] by (auto simp: cache_view_def buf_ok_def find_Some_iff split: option.split)

lemma unpinned_view:
  assumes inv: "cache_inv s" and d: "b \<notin> dirty_blocks s" and h: "b \<notin> ran (held_block s)"
  shows "cache_view s b = io_disk s b"
proof (cases "\<exists>i<NBUF. caches s b i")
  case True
  then obtain i where i: "i < NBUF" "caches s b i" by blast
  have "\<not> b_dirty (io_bufs s ! i)" using d i unfolding mem_dirty by (auto simp: caches_def)
  moreover have "\<not> sl_locked (b_lock (io_bufs s ! i))"
  proof
    assume "sl_locked (b_lock (io_bufs s ! i))"
    then have "held_block s i = Some b" using i by (simp add: held_block_def caches_def)
    with h show False by (meson ranI)
  qed
  ultimately show ?thesis
    using view_cached [OF inv i] cache_invD(4) [OF inv i(1)] i(2) by (simp add: buf_ok_def caches_def)
next
  case False
  then show ?thesis by (intro view_uncached) blast
qed

interpretation bc: block_cache cache_inv held_block cache_view io_disk dirty_blocks io_writes io_disksize NBUF
  "bread 1" buf_data set_buf_data set_dirty bwrite brelse
proof
  fix s i b assume "cache_inv s" "held_block s i = Some b"
  from held_buf(10) [OF this] show "buf_data i s = cache_view s b" by (simp add: buf_data_def)
qed (simp_all add: bread_law set_buf_data_law set_dirty_law bwrite_law brelse_law view_length unpinned_view finite_dirty)

end
