(* ===== verification/Log.thy ===== *)
theory Log
  imports BufCache Bytes
begin

text \<open>
  xv6, \<open>log.c\<close>: the write-ahead log. The header block holds the number of logged blocks and their home
  addresses; the blocks follow it. One process runs, so a wait for the end of a commit, or for room in
  the log, never ends (\<open>Hang\<close>). The memory is a pair of the log and the buffer cache.
\<close>

definition MAXOPBLOCKS :: int where "MAXOPBLOCKS = 10"
definition LOGSIZE :: int where "LOGSIZE = 30"

text \<open>The fields of \<open>struct log\<close> and of its \<open>struct logheader\<close>.\<close>

record log =
  lg_start :: uint
  lg_size :: int
  lg_outstanding :: int
  lg_committing :: bool
  lg_dev :: uint
  lg_n :: int
  lg_block :: "uint list"

definition log_start :: log where
  "log_start = \<lparr>lg_start = 0, lg_size = 0, lg_outstanding = 0, lg_committing = False, lg_dev = 0, lg_n = 0,
     lg_block = replicate (nat LOGSIZE) 0\<rparr>"

section \<open>Committing\<close>

text \<open>The body of the loop of \<open>install_trans\<close>: from the log block \<open>a\<close> to the home block \<open>b\<close>.\<close>

definition install_block :: "uint \<Rightarrow> uint \<Rightarrow> uint \<Rightarrow> io \<Rightarrow> io res" where
  "install_block dev a b s =
     rbind (bread dev a s) (\<lambda>(lbuf, s).
     rbind (bread dev b s) (\<lambda>(dbuf, s).
     rbind (bwrite dbuf (set_buf_data dbuf (buf_data lbuf s) s)) (\<lambda>s.
     rbind (brelse lbuf s) (brelse dbuf))))"

text \<open>The body of the loop of \<open>write_log\<close>: from the cached block \<open>a\<close> to the log block \<open>b\<close>.\<close>

definition log_block :: "uint \<Rightarrow> uint \<Rightarrow> uint \<Rightarrow> io \<Rightarrow> io res" where
  "log_block dev a b s =
     rbind (bread dev b s) (\<lambda>(to, s).
     rbind (bread dev a s) (\<lambda>(from, s).
     rbind (bwrite to (set_buf_data to (buf_data from s) s)) (\<lambda>s.
     rbind (brelse from s) (brelse to))))"

definition log_at :: "log \<Rightarrow> nat \<Rightarrow> uint" where
  "log_at lg tail = lg_start lg + of_nat tail + 1"

definition install_trans :: "log \<Rightarrow> io \<Rightarrow> io res" where
  "install_trans lg s =
     (if lg_n lg > LOGSIZE then Undef
      else copies (install_block (lg_dev lg)) (map (\<lambda>t. (log_at lg t, lg_block lg ! t)) [0..<nat (lg_n lg)]) s)"

definition write_log :: "log \<Rightarrow> io \<Rightarrow> io res" where
  "write_log lg s =
     (if lg_n lg > LOGSIZE then Undef
      else copies (log_block (lg_dev lg)) (map (\<lambda>t. (lg_block lg ! t, log_at lg t)) [0..<nat (lg_n lg)]) s)"

text \<open>The header in a block: the number, then the addresses.\<close>

definition head_n :: "byte list \<Rightarrow> int" where
  "head_n d = sint (le32 d 0)"

definition head_block :: "byte list \<Rightarrow> nat \<Rightarrow> uint" where
  "head_block d i = le32 d (4 + 4 * i)"

fun put_blocks_from :: "nat \<Rightarrow> uint list \<Rightarrow> byte list \<Rightarrow> byte list" where
  "put_blocks_from i [] d = d"
| "put_blocks_from i (b # bs) d = put_blocks_from (Suc i) bs (put_bytes (4 + 4 * i) (bytes32 b) d)"

definition put_head :: "int \<Rightarrow> uint list \<Rightarrow> byte list \<Rightarrow> byte list" where
  "put_head n bs d = put_blocks_from 0 bs (put_bytes 0 (bytes32 (word_of_int n)) d)"

definition read_head :: "log \<Rightarrow> io \<Rightarrow> (log \<times> io) res" where
  "read_head lg s =
     rbind (bread (lg_dev lg) (lg_start lg) s) (\<lambda>(i, s).
       let d = buf_data i s; n = nat (head_n d) in
       if n > length (lg_block lg) then Undef
       else rbind (brelse i s) (\<lambda>s.
         Ok (lg\<lparr>lg_n := head_n d, lg_block := map (head_block d) [0..<n] @ drop n (lg_block lg)\<rparr>, s)))"

definition write_head :: "log \<Rightarrow> io \<Rightarrow> io res" where
  "write_head lg s =
     rbind (bread (lg_dev lg) (lg_start lg) s) (\<lambda>(i, s).
     rbind (bwrite i (set_buf_data i (put_head (lg_n lg) (take (nat (lg_n lg)) (lg_block lg)) (buf_data i s)) s)) (brelse i))"

definition recover_from_log :: "log \<Rightarrow> io \<Rightarrow> (log \<times> io) res" where
  "recover_from_log lg s =
     rbind (read_head lg s) (\<lambda>(lg, s).
     rbind (install_trans lg s) (\<lambda>s.
       let lg = lg\<lparr>lg_n := 0\<rparr> in
       rbind (write_head lg s) (\<lambda>s. Ok (lg, s))))"

text \<open>\<open>readsb\<close> of \<open>fs.c\<close> gives the place and the length of the log.\<close>

record superblock =
  sb_size :: uint
  sb_nblocks :: uint
  sb_ninodes :: uint
  sb_nlog :: uint
  sb_logstart :: uint
  sb_inodestart :: uint
  sb_bmapstart :: uint

definition superblock_of :: "byte list \<Rightarrow> superblock" where
  "superblock_of d = \<lparr>sb_size = le32 d 0, sb_nblocks = le32 d 4, sb_ninodes = le32 d 8, sb_nlog = le32 d 12,
     sb_logstart = le32 d 16, sb_inodestart = le32 d 20, sb_bmapstart = le32 d 24\<rparr>"

definition readsb :: "uint \<Rightarrow> io \<Rightarrow> (superblock \<times> io) res" where
  "readsb dev s =
     rbind (bread dev 1 s) (\<lambda>(i, s). rbind (brelse i s) (\<lambda>s'. Ok (superblock_of (buf_data i s), s')))"

definition initlog :: "uint \<Rightarrow> io \<Rightarrow> (log \<times> io) res" where
  "initlog dev s =
     rbind (readsb dev s) (\<lambda>(sb, s).
       recover_from_log (log_start\<lparr>lg_start := sb_logstart sb, lg_size := sint (sb_nlog sb), lg_dev := dev\<rparr>) s)"

definition commit :: "log \<Rightarrow> io \<Rightarrow> (log \<times> io) res" where
  "commit lg s =
     (if lg_n lg > 0 then
        rbind (write_log lg s) (\<lambda>s.
        rbind (write_head lg s) (\<lambda>s.
        rbind (install_trans lg s) (\<lambda>s.
          let lg = lg\<lparr>lg_n := 0\<rparr> in
          rbind (write_head lg s) (\<lambda>s. Ok (lg, s)))))
      else Ok (lg, s))"

section \<open>Operations\<close>

definition begin_op :: "log \<Rightarrow> log res" where
  "begin_op lg =
     (if lg_committing lg then Hang
      else if lg_n lg + (lg_outstanding lg + 1) * MAXOPBLOCKS > LOGSIZE then Hang
      else Ok (lg\<lparr>lg_outstanding := lg_outstanding lg + 1\<rparr>))"

definition end_op :: "log \<Rightarrow> io \<Rightarrow> (log \<times> io) res" where
  "end_op lg s =
     (let lg = lg\<lparr>lg_outstanding := lg_outstanding lg - 1\<rparr> in
      if lg_committing lg then Panic ''log.committing''
      else if lg_outstanding lg = 0 then
        rbind (commit (lg\<lparr>lg_committing := True\<rparr>) s) (\<lambda>(lg, s). Ok (lg\<lparr>lg_committing := False\<rparr>, s))
      else Ok (lg, s))"

text \<open>The index at which a block is, or is going to be, in the header.\<close>

definition log_index :: "uint \<Rightarrow> log \<Rightarrow> nat" where
  "log_index b lg =
     (case find_idx (\<lambda>x. x = b) (take (nat (lg_n lg)) (lg_block lg)) of Some i \<Rightarrow> i | None \<Rightarrow> nat (lg_n lg))"

definition log_write :: "nat \<Rightarrow> log \<Rightarrow> io \<Rightarrow> (log \<times> io) res" where
  "log_write i lg s =
     (if lg_n lg \<ge> LOGSIZE \<or> lg_n lg \<ge> lg_size lg - 1 then Panic ''too big a transaction''
      else if lg_outstanding lg < 1 then Panic ''log_write outside of trans''
      else
        let b = b_blockno (io_bufs s ! i); k = log_index b lg in
        Ok (lg\<lparr>lg_block := (lg_block lg)[k := b], lg_n := (if int k = lg_n lg then lg_n lg + 1 else lg_n lg)\<rparr>,
            set_dirty i s))"

end
