(* ===== verification/Fs.thy ===== *)
theory Fs
  imports Log
begin

text \<open>
  xv6, \<open>fs.c\<close>: the bitmap of the blocks, the inodes and their cache, and the contents of the files. The memory is
  the superblock, the log, the buffer cache and the inode cache; a pointer to an inode is its index in
  the cache. Every call takes place between a \<open>begin_op\<close> and an \<open>end_op\<close> of one process.
\<close>

definition NDIRECT :: nat where "NDIRECT = 12"
definition NINDIRECT :: nat where "NINDIRECT = 128"
definition MAXFILE :: nat where "MAXFILE = NDIRECT + NINDIRECT"
definition NINODE :: nat where "NINODE = 50"
definition NDEV :: int where "NDEV = 10"
definition IPB :: nat where "IPB = 8"
definition BPB :: nat where "BPB = 4096"

type_synonym short = "16 word"

definition T_DIR :: short where "T_DIR = 1"
definition T_FILE :: short where "T_FILE = 2"
definition T_DEV :: short where "T_DEV = 3"

text \<open>An inode in memory: the fields of \<open>struct inode\<close>.\<close>

record inode =
  ip_dev :: uint
  ip_inum :: uint
  ip_ref :: int
  ip_lock :: sleeplock
  ip_valid :: bool
  ip_type :: short
  ip_major :: short
  ip_minor :: short
  ip_nlink :: short
  ip_size :: uint
  ip_addrs :: "uint list"

record fsys =
  fs_sb :: superblock
  fs_log :: log
  fs_io :: io
  fs_inodes :: "inode list"

text \<open>The calls of the lower layers on the whole memory.\<close>

definition f_bread :: "uint \<Rightarrow> uint \<Rightarrow> fsys \<Rightarrow> (nat \<times> fsys) res" where
  "f_bread dev b s = rbind (bread dev b (fs_io s)) (\<lambda>(i, t). Ok (i, s\<lparr>fs_io := t\<rparr>))"

definition f_brelse :: "nat \<Rightarrow> fsys \<Rightarrow> fsys res" where
  "f_brelse i s = rbind (brelse i (fs_io s)) (\<lambda>t. Ok (s\<lparr>fs_io := t\<rparr>))"

definition f_log_write :: "nat \<Rightarrow> fsys \<Rightarrow> fsys res" where
  "f_log_write i s = rbind (log_write i (fs_log s) (fs_io s)) (\<lambda>(lg, t). Ok (s\<lparr>fs_log := lg, fs_io := t\<rparr>))"

definition f_data :: "nat \<Rightarrow> fsys \<Rightarrow> byte list" where
  "f_data i s = buf_data i (fs_io s)"

definition f_set_data :: "nat \<Rightarrow> byte list \<Rightarrow> fsys \<Rightarrow> fsys" where
  "f_set_data i d s = s\<lparr>fs_io := set_buf_data i d (fs_io s)\<rparr>"

definition fs_pid :: "fsys \<Rightarrow> int32" where
  "fs_pid s = io_pid (fs_io s)"

definition upd_inode :: "nat \<Rightarrow> (inode \<Rightarrow> inode) \<Rightarrow> fsys \<Rightarrow> fsys" where
  "upd_inode ip f s = s\<lparr>fs_inodes := upd_at ip f (fs_inodes s)\<rparr>"

abbreviation inode_of :: "fsys \<Rightarrow> nat \<Rightarrow> inode" where
  "inode_of s ip \<equiv> fs_inodes s ! ip"

section \<open>Blocks\<close>

definition bzero :: "uint \<Rightarrow> uint \<Rightarrow> fsys \<Rightarrow> fsys res" where
  "bzero dev bno s =
     rbind (f_bread dev bno s) (\<lambda>(i, s).
     rbind (f_log_write i (f_set_data i (replicate BSIZE 0) s)) (f_brelse i))"

definition BBLOCK :: "nat \<Rightarrow> superblock \<Rightarrow> uint" where
  "BBLOCK b sb = of_nat (b div BPB) + sb_bmapstart sb"

definition bit_mask :: "nat \<Rightarrow> byte" where
  "bit_mask bi = push_bit (bi mod 8) 1"

definition bit_free :: "byte list \<Rightarrow> nat \<Rightarrow> bool" where
  "bit_free d bi \<longleftrightarrow> d ! (bi div 8) AND bit_mask bi = 0"

definition mark_bit :: "nat \<Rightarrow> byte list \<Rightarrow> byte list" where
  "mark_bit bi d = upd_at (bi div 8) (\<lambda>x. x OR bit_mask bi) d"

definition clear_bit :: "nat \<Rightarrow> byte list \<Rightarrow> byte list" where
  "clear_bit bi d = upd_at (bi div 8) (\<lambda>x. x AND NOT (bit_mask bi)) d"

lemma f_bread_sb: "f_bread dev b s = Ok (i, t) \<Longrightarrow> fs_sb t = fs_sb s"
  unfolding f_bread_def rbind_eq_Ok by (auto split: prod.splits)

lemma f_brelse_sb: "f_brelse i s = Ok t \<Longrightarrow> fs_sb t = fs_sb s"
  unfolding f_brelse_def rbind_eq_Ok by auto

text \<open>\<open>balloc\<close>: the blocks of the bitmap from the one for block \<open>b\<close> on.\<close>

function balloc_from :: "nat \<Rightarrow> uint \<Rightarrow> fsys \<Rightarrow> (uint \<times> fsys) res" where
  "balloc_from b dev s =
     (if unat (sb_size (fs_sb s)) \<le> b then Panic ''balloc: out of blocks''
      else
        rbind (f_bread dev (BBLOCK b (fs_sb s)) s) (\<lambda>(i, t).
          case find (bit_free (f_data i t)) [0..<min BPB (unat (sb_size (fs_sb s)) - b)] of
            Some bi \<Rightarrow>
              rbind (f_log_write i (f_set_data i (mark_bit bi (f_data i t)) t)) (\<lambda>t.
              rbind (f_brelse i t) (\<lambda>t.
              rbind (bzero dev (of_nat (b + bi)) t) (\<lambda>t. Ok (of_nat (b + bi), t))))
          | None \<Rightarrow> rbind (f_brelse i t) (balloc_from (b + BPB) dev)))"
  by pat_completeness auto
termination
  by (relation "measure (\<lambda>(b, dev, s). unat (sb_size (fs_sb s)) - b)") (auto simp: BPB_def dest!: f_bread_sb f_brelse_sb)

declare balloc_from.simps [simp del]

definition balloc :: "uint \<Rightarrow> fsys \<Rightarrow> (uint \<times> fsys) res" where
  "balloc dev s = balloc_from 0 dev s"

definition bfree :: "uint \<Rightarrow> uint \<Rightarrow> fsys \<Rightarrow> fsys res" where
  "bfree dev b s =
     rbind (f_bread dev (BBLOCK (unat b) (fs_sb s)) s) (\<lambda>(i, s).
       let bi = unat b mod BPB in
       if bit_free (f_data i s) bi then Panic ''freeing free block''
       else rbind (f_log_write i (f_set_data i (clear_bit bi (f_data i s)) s)) (f_brelse i))"

section \<open>Inodes\<close>

definition inode_zero :: inode where
  "inode_zero = \<lparr>ip_dev = 0, ip_inum = 0, ip_ref = 0, ip_lock = initsleeplock, ip_valid = False, ip_type = 0, ip_major = 0,
     ip_minor = 0, ip_nlink = 0, ip_size = 0, ip_addrs = replicate (NDIRECT + 1) 0\<rparr>"

definition iinit :: "uint \<Rightarrow> fsys \<Rightarrow> fsys res" where
  "iinit dev s =
     rbind (readsb dev (fs_io s)) (\<lambda>(sb, t).
       Ok (s\<lparr>fs_sb := sb, fs_io := t, fs_inodes := map (\<lambda>ip. ip\<lparr>ip_lock := initsleeplock\<rparr>) (fs_inodes s)\<rparr>))"

definition IBLOCK :: "uint \<Rightarrow> superblock \<Rightarrow> uint" where
  "IBLOCK i sb = of_nat (unat i div IPB) + sb_inodestart sb"

text \<open>\<open>struct dinode\<close>: the place of an inode in its block, and its bytes.\<close>

definition dinode_off :: "uint \<Rightarrow> nat" where
  "dinode_off inum = 64 * (unat inum mod IPB)"

definition dinode_bytes :: "inode \<Rightarrow> byte list" where
  "dinode_bytes ip = bytes16 (ip_type ip) @ bytes16 (ip_major ip) @ bytes16 (ip_minor ip) @ bytes16 (ip_nlink ip) @
     bytes32 (ip_size ip) @ concat (map bytes32 (ip_addrs ip))"

definition load_dinode :: "byte list \<Rightarrow> nat \<Rightarrow> inode \<Rightarrow> inode" where
  "load_dinode d k ip = ip\<lparr>ip_type := le16 d k, ip_major := le16 d (k + 2), ip_minor := le16 d (k + 4), ip_nlink := le16 d (k + 6),
     ip_size := le32 d (k + 8), ip_addrs := map (\<lambda>j. le32 d (k + 12 + 4 * j)) [0..<NDIRECT + 1]\<rparr>"

fun iget_scan :: "uint \<Rightarrow> uint \<Rightarrow> inode list \<Rightarrow> nat option" where
  "iget_scan dev inum ips = find_idx (\<lambda>ip. ip_ref ip > 0 \<and> ip_dev ip = dev \<and> ip_inum ip = inum) ips"

definition iget :: "uint \<Rightarrow> uint \<Rightarrow> fsys \<Rightarrow> (nat \<times> fsys) res" where
  "iget dev inum s =
     (case iget_scan dev inum (fs_inodes s) of
        Some ip \<Rightarrow> Ok (ip, upd_inode ip (\<lambda>x. x\<lparr>ip_ref := ip_ref x + 1\<rparr>) s)
      | None \<Rightarrow>
          (case find_idx (\<lambda>ip. ip_ref ip = 0) (fs_inodes s) of
             Some ip \<Rightarrow> Ok (ip, upd_inode ip (\<lambda>x. x\<lparr>ip_dev := dev, ip_inum := inum, ip_ref := 1, ip_valid := False\<rparr>) s)
           | None \<Rightarrow> Panic ''iget: no inodes''))"

fun ialloc_from :: "nat list \<Rightarrow> uint \<Rightarrow> short \<Rightarrow> fsys \<Rightarrow> (nat \<times> fsys) res" where
  "ialloc_from [] dev type s = Panic ''ialloc: no inodes''"
| "ialloc_from (n # ns) dev type s =
     (let inum = of_nat n; k = dinode_off inum in
      rbind (f_bread dev (IBLOCK inum (fs_sb s)) s) (\<lambda>(i, s).
        if le16 (f_data i s) k = 0 then
          rbind (f_log_write i (f_set_data i (put_bytes k (bytes16 type) (put_bytes k (replicate 64 0) (f_data i s))) s)) (\<lambda>s.
          rbind (f_brelse i s) (iget dev inum))
        else rbind (f_brelse i s) (ialloc_from ns dev type)))"

definition ialloc :: "uint \<Rightarrow> short \<Rightarrow> fsys \<Rightarrow> (nat \<times> fsys) res" where
  "ialloc dev type s = ialloc_from [1..<unat (sb_ninodes (fs_sb s))] dev type s"

definition iupdate :: "nat \<Rightarrow> fsys \<Rightarrow> fsys res" where
  "iupdate ip s =
     (let x = inode_of s ip in
      rbind (f_bread (ip_dev x) (IBLOCK (ip_inum x) (fs_sb s)) s) (\<lambda>(i, s).
      rbind (f_log_write i (f_set_data i (put_bytes (dinode_off (ip_inum x)) (dinode_bytes x) (f_data i s)) s)) (f_brelse i)))"

definition idup :: "nat \<Rightarrow> fsys \<Rightarrow> nat \<times> fsys" where
  "idup ip s = (ip, upd_inode ip (\<lambda>x. x\<lparr>ip_ref := ip_ref x + 1\<rparr>) s)"

definition ilock :: "nat option \<Rightarrow> fsys \<Rightarrow> fsys res" where
  "ilock p s =
     (case p of None \<Rightarrow> Panic ''ilock''
      | Some ip \<Rightarrow>
          if ip_ref (inode_of s ip) < 1 then Panic ''ilock''
          else
            rbind (acquiresleep (fs_pid s) (ip_lock (inode_of s ip))) (\<lambda>lk.
              let s = upd_inode ip (\<lambda>x. x\<lparr>ip_lock := lk\<rparr>) s; x = inode_of s ip in
              if ip_valid x then Ok s
              else
                rbind (f_bread (ip_dev x) (IBLOCK (ip_inum x) (fs_sb s)) s) (\<lambda>(i, s).
                  let s = upd_inode ip (load_dinode (f_data i s) (dinode_off (ip_inum x))) s in
                  rbind (f_brelse i s) (\<lambda>s.
                    let s = upd_inode ip (\<lambda>x. x\<lparr>ip_valid := True\<rparr>) s in
                    if ip_type (inode_of s ip) = 0 then Panic ''ilock: no type'' else Ok s))))"

definition iunlock :: "nat option \<Rightarrow> fsys \<Rightarrow> fsys res" where
  "iunlock p s =
     (case p of None \<Rightarrow> Panic ''iunlock''
      | Some ip \<Rightarrow>
          if \<not> holdingsleep (fs_pid s) (ip_lock (inode_of s ip)) \<or> ip_ref (inode_of s ip) < 1 then Panic ''iunlock''
          else Ok (upd_inode ip (\<lambda>x. x\<lparr>ip_lock := releasesleep (ip_lock x)\<rparr>) s))"

section \<open>The contents of a file\<close>

text \<open>\<open>bmap\<close>: the block with the contents from \<open>bn\<close> times the block size on.\<close>

definition bmap_direct :: "nat \<Rightarrow> nat \<Rightarrow> fsys \<Rightarrow> (uint \<times> fsys) res" where
  "bmap_direct ip k s =
     (let addr = ip_addrs (inode_of s ip) ! k in
      if addr \<noteq> 0 then Ok (addr, s)
      else rbind (balloc (ip_dev (inode_of s ip)) s) (\<lambda>(addr, s).
        Ok (addr, upd_inode ip (\<lambda>x. x\<lparr>ip_addrs := (ip_addrs x)[k := addr]\<rparr>) s)))"

definition bmap :: "nat \<Rightarrow> nat \<Rightarrow> fsys \<Rightarrow> (uint \<times> fsys) res" where
  "bmap ip bn s =
     (if bn < NDIRECT then bmap_direct ip bn s
      else if bn - NDIRECT < NINDIRECT then
        rbind (bmap_direct ip NDIRECT s) (\<lambda>(ind, s).
        rbind (f_bread (ip_dev (inode_of s ip)) ind s) (\<lambda>(i, s).
          let k = 4 * (bn - NDIRECT); addr = le32 (f_data i s) k in
          if addr \<noteq> 0 then rbind (f_brelse i s) (\<lambda>s. Ok (addr, s))
          else
            rbind (balloc (ip_dev (inode_of s ip)) s) (\<lambda>(addr, s).
            rbind (f_log_write i (f_set_data i (put_bytes k (bytes32 addr) (f_data i s)) s)) (\<lambda>s.
            rbind (f_brelse i s) (\<lambda>s. Ok (addr, s))))))
      else Panic ''bmap: out of range'')"

text \<open>\<open>bfree\<close> for the addresses that are not 0.\<close>

fun bfree_all :: "uint \<Rightarrow> uint list \<Rightarrow> fsys \<Rightarrow> fsys res" where
  "bfree_all dev [] s = Ok s"
| "bfree_all dev (a # as) s = (if a \<noteq> 0 then rbind (bfree dev a s) (bfree_all dev as) else bfree_all dev as s)"

definition itrunc :: "nat \<Rightarrow> fsys \<Rightarrow> fsys res" where
  "itrunc ip s =
     (let dev = ip_dev (inode_of s ip) in
      rbind (bfree_all dev (take NDIRECT (ip_addrs (inode_of s ip))) s) (\<lambda>s.
        let s = upd_inode ip (\<lambda>x. x\<lparr>ip_addrs := replicate NDIRECT 0 @ drop NDIRECT (ip_addrs x)\<rparr>) s;
            ind = ip_addrs (inode_of s ip) ! NDIRECT in
        rbind
          (if ind \<noteq> 0 then
             rbind (f_bread dev ind s) (\<lambda>(i, s).
             rbind (bfree_all dev (map (\<lambda>j. le32 (f_data i s) (4 * j)) [0..<NINDIRECT]) s) (\<lambda>s.
             rbind (f_brelse i s) (\<lambda>s.
             rbind (bfree dev ind s) (\<lambda>s.
               Ok (upd_inode ip (\<lambda>x. x\<lparr>ip_addrs := (ip_addrs x)[NDIRECT := 0]\<rparr>) s)))))
           else Ok s)
          (\<lambda>s. iupdate ip (upd_inode ip (\<lambda>x. x\<lparr>ip_size := 0\<rparr>) s))))"

definition iput :: "nat \<Rightarrow> fsys \<Rightarrow> fsys res" where
  "iput ip s =
     rbind (acquiresleep (fs_pid s) (ip_lock (inode_of s ip))) (\<lambda>lk.
       let s = upd_inode ip (\<lambda>x. x\<lparr>ip_lock := lk\<rparr>) s in
       rbind
         (if ip_valid (inode_of s ip) \<and> ip_nlink (inode_of s ip) = 0 \<and> ip_ref (inode_of s ip) = 1 then
            rbind (itrunc ip s) (\<lambda>s.
            rbind (iupdate ip (upd_inode ip (\<lambda>x. x\<lparr>ip_type := 0\<rparr>) s)) (\<lambda>s.
              Ok (upd_inode ip (\<lambda>x. x\<lparr>ip_valid := False\<rparr>) s)))
          else Ok s)
         (\<lambda>s. Ok (upd_inode ip (\<lambda>x. x\<lparr>ip_lock := releasesleep (ip_lock x), ip_ref := ip_ref x - 1\<rparr>) s)))"

definition iunlockput :: "nat option \<Rightarrow> fsys \<Rightarrow> fsys res" where
  "iunlockput p s = rbind (iunlock p s) (\<lambda>s. case p of None \<Rightarrow> Undef | Some ip \<Rightarrow> iput ip s)"

record stat =
  st_type :: short
  st_dev :: uint
  st_ino :: uint
  st_nlink :: short
  st_size :: uint

definition stati :: "nat \<Rightarrow> fsys \<Rightarrow> stat" where
  "stati ip s = (let x = inode_of s ip in
     \<lparr>st_type = ip_type x, st_dev = ip_dev x, st_ino = ip_inum x, st_nlink = ip_nlink x, st_size = ip_size x\<rparr>)"

text \<open>The table of the devices: what reads from and writes to the device with a major number.\<close>

record devsw =
  d_read :: "short \<Rightarrow> (nat \<Rightarrow> uint \<Rightarrow> fsys \<Rightarrow> (int \<times> byte list \<times> fsys) res) option"
  d_write :: "short \<Rightarrow> (nat \<Rightarrow> byte list \<Rightarrow> fsys \<Rightarrow> (int \<times> fsys) res) option"

text \<open>The loop of \<open>readi\<close> with \<open>r\<close> bytes to go.\<close>

function readi_loop :: "nat \<Rightarrow> nat \<Rightarrow> nat \<Rightarrow> fsys \<Rightarrow> (byte list \<times> fsys) res" where
  "readi_loop ip off r s =
     (if r = 0 then Ok ([], s)
      else
        let m = min r (BSIZE - off mod BSIZE) in
        rbind (bmap ip (off div BSIZE) s) (\<lambda>(b, s).
        rbind (f_bread (ip_dev (inode_of s ip)) b s) (\<lambda>(i, s).
          let xs = take m (drop (off mod BSIZE) (f_data i s)) in
          rbind (f_brelse i s) (\<lambda>s.
          rbind (readi_loop ip (off + m) (r - m) s) (\<lambda>(ys, s). Ok (xs @ ys, s))))))"
  by pat_completeness auto
termination by (relation "measure (\<lambda>(ip, off, r, s). r)") (auto simp: BSIZE_def)

declare readi_loop.simps [simp del]

definition readi :: "devsw \<Rightarrow> nat \<Rightarrow> uint \<Rightarrow> uint \<Rightarrow> fsys \<Rightarrow> (int \<times> byte list \<times> fsys) res" where
  "readi D ip off n s =
     (let x = inode_of s ip in
      if ip_type x = T_DEV then
        (if sint (ip_major x) < 0 \<or> sint (ip_major x) \<ge> NDEV then Ok (- 1, [], s)
         else case d_read D (ip_major x) of None \<Rightarrow> Ok (- 1, [], s) | Some rd \<Rightarrow> rd ip n s)
      else if off > ip_size x \<or> off + n < off then Ok (- 1, [], s)
      else
        let n = (if off + n > ip_size x then ip_size x - off else n) in
        rbind (readi_loop ip (unat off) (unat n) s) (\<lambda>(xs, s). Ok (sint n, xs, s)))"

text \<open>The loop of \<open>writei\<close> with the bytes that are left.\<close>

function writei_loop :: "nat \<Rightarrow> nat \<Rightarrow> byte list \<Rightarrow> fsys \<Rightarrow> fsys res" where
  "writei_loop ip off xs s =
     (if xs = [] then Ok s
      else
        let m = min (length xs) (BSIZE - off mod BSIZE) in
        rbind (bmap ip (off div BSIZE) s) (\<lambda>(b, s).
        rbind (f_bread (ip_dev (inode_of s ip)) b s) (\<lambda>(i, s).
        rbind (f_log_write i (f_set_data i (put_bytes (off mod BSIZE) (take m xs) (f_data i s)) s)) (\<lambda>s.
        rbind (f_brelse i s) (writei_loop ip (off + m) (drop m xs))))))"
  by pat_completeness auto
termination by (relation "measure (\<lambda>(ip, off, xs, s). length xs)") (auto simp: BSIZE_def)

declare writei_loop.simps [simp del]

definition writei :: "devsw \<Rightarrow> nat \<Rightarrow> byte list \<Rightarrow> uint \<Rightarrow> fsys \<Rightarrow> (int \<times> fsys) res" where
  "writei D ip src off s =
     (let x = inode_of s ip; n = of_nat (length src) :: uint in
      if ip_type x = T_DEV then
        (if sint (ip_major x) < 0 \<or> sint (ip_major x) \<ge> NDEV then Ok (- 1, s)
         else case d_write D (ip_major x) of None \<Rightarrow> Ok (- 1, s) | Some wr \<Rightarrow> wr ip src s)
      else if off > ip_size x \<or> off + n < off then Ok (- 1, s)
      else if off + n > of_nat (MAXFILE * BSIZE) then Ok (- 1, s)
      else
        rbind (writei_loop ip (unat off) src s) (\<lambda>s.
        rbind
          (if n > 0 \<and> off + n > ip_size (inode_of s ip) then iupdate ip (upd_inode ip (\<lambda>x. x\<lparr>ip_size := off + n\<rparr>) s) else Ok s)
          (\<lambda>s. Ok (sint n, s))))"

end
