(* ===== verification/FsDir.thy ===== *)
theory FsDir
  imports Fs
begin

text \<open>
  xv6, \<open>fs.c\<close>: directories and path names, with the two string functions of \<open>string.c\<close> they use. A C string is
  the list of its bytes before the terminator; reading past the end of the list reads the terminator.
\<close>

definition DIRSIZ :: nat where "DIRSIZ = 14"
definition ROOTDEV :: uint where "ROOTDEV = 1"
definition ROOTINO :: uint where "ROOTINO = 1"

definition byte_at :: "byte list \<Rightarrow> byte" where
  "byte_at s = (case s of [] \<Rightarrow> 0 | c # _ \<Rightarrow> c)"

fun strncmp :: "byte list \<Rightarrow> byte list \<Rightarrow> nat \<Rightarrow> int" where
  "strncmp p q 0 = 0"
| "strncmp p q (Suc n) =
     (if byte_at p \<noteq> 0 \<and> byte_at p = byte_at q then strncmp (tl p) (tl q) n
      else uint (byte_at p) - uint (byte_at q))"

text \<open>The \<open>n\<close> bytes that \<open>strncpy\<close> writes.\<close>

fun strncpy :: "byte list \<Rightarrow> nat \<Rightarrow> byte list" where
  "strncpy t 0 = []"
| "strncpy t (Suc n) = (if byte_at t = 0 then replicate (Suc n) 0 else byte_at t # strncpy (tl t) n)"

definition namecmp :: "byte list \<Rightarrow> byte list \<Rightarrow> int" where
  "namecmp s t = strncmp s t DIRSIZ"

section \<open>Directories\<close>

text \<open>The offsets of the entries of a directory: \<open>for(off = 0; off < dp->size; off += sizeof(de))\<close>.\<close>

definition entry_offs :: "uint \<Rightarrow> nat list" where
  "entry_offs sz = map (\<lambda>k. 16 * k) [0..<(unat sz + 15) div 16]"

fun dirlookup_from :: "devsw \<Rightarrow> nat \<Rightarrow> byte list \<Rightarrow> nat list \<Rightarrow> fsys \<Rightarrow> ((nat \<times> nat) option \<times> fsys) res" where
  "dirlookup_from D dp name [] s = Ok (None, s)"
| "dirlookup_from D dp name (off # offs) s =
     rbind (readi D dp (of_nat off) 16 s) (\<lambda>(r, de, s).
       if r \<noteq> 16 then Panic ''dirlookup read''
       else if le16 de 0 = 0 then dirlookup_from D dp name offs s
       else if namecmp name (drop 2 de) = 0 then
         rbind (iget (ip_dev (inode_of s dp)) (ucast (le16 de 0)) s) (\<lambda>(ip, s). Ok (Some (ip, off), s))
       else dirlookup_from D dp name offs s)"

definition dirlookup :: "devsw \<Rightarrow> nat \<Rightarrow> byte list \<Rightarrow> fsys \<Rightarrow> ((nat \<times> nat) option \<times> fsys) res" where
  "dirlookup D dp name s =
     (if ip_type (inode_of s dp) \<noteq> T_DIR then Panic ''dirlookup not DIR''
      else dirlookup_from D dp name (entry_offs (ip_size (inode_of s dp))) s)"

text \<open>The offset of the first empty entry, or the first one after the end.\<close>

fun dir_slot :: "devsw \<Rightarrow> nat \<Rightarrow> nat list \<Rightarrow> nat \<Rightarrow> fsys \<Rightarrow> (nat \<times> fsys) res" where
  "dir_slot D dp [] after s = Ok (after, s)"
| "dir_slot D dp (off # offs) after s =
     rbind (readi D dp (of_nat off) 16 s) (\<lambda>(r, de, s).
       if r \<noteq> 16 then Panic ''dirlink read''
       else if le16 de 0 = 0 then Ok (off, s)
       else dir_slot D dp offs after s)"

definition dirlink :: "devsw \<Rightarrow> nat \<Rightarrow> byte list \<Rightarrow> uint \<Rightarrow> fsys \<Rightarrow> (int \<times> fsys) res" where
  "dirlink D dp name inum s =
     rbind (dirlookup D dp name s) (\<lambda>(r, s).
       case r of
         Some (ip, _) \<Rightarrow> rbind (iput ip s) (\<lambda>s. Ok (- 1, s))
       | None \<Rightarrow>
           let offs = entry_offs (ip_size (inode_of s dp)) in
           rbind (dir_slot D dp offs (16 * length offs) s) (\<lambda>(off, s).
           rbind (writei D dp (bytes16 (ucast inum) @ strncpy name DIRSIZ) (of_nat off) s) (\<lambda>(r, s).
             if r \<noteq> 16 then Panic ''dirlink'' else Ok (0, s))))"

section \<open>Paths\<close>

definition slash :: byte where "slash = 47"

text \<open>The rest of the path and the next element, or \<open>None\<close> when there is none.\<close>

definition skipelem :: "byte list \<Rightarrow> (byte list \<times> byte list) option" where
  "skipelem path =
     (let s = dropWhile (\<lambda>c. c = slash) path in
      if s = [] then None
      else Some (dropWhile (\<lambda>c. c = slash) (dropWhile (\<lambda>c. c \<noteq> slash) s), take DIRSIZ (takeWhile (\<lambda>c. c \<noteq> slash) s)))"

lemma skipelem_shrinks:
  assumes "skipelem path = Some (rest, name)"
  shows "length rest < length path"
proof -
  let ?s = "dropWhile (\<lambda>c. c = slash) path"
  have ne: "?s \<noteq> []" and r: "rest = dropWhile (\<lambda>c. c = slash) (dropWhile (\<lambda>c. c \<noteq> slash) ?s)"
    using assms by (auto simp: skipelem_def Let_def split: if_splits)
  have "hd ?s \<noteq> slash" using hd_dropWhile [OF ne] .
  then have "dropWhile (\<lambda>c. c \<noteq> slash) ?s = dropWhile (\<lambda>c. c \<noteq> slash) (tl ?s)" using ne by (cases ?s) simp_all
  then have "length rest \<le> length (tl ?s)" unfolding r by (metis length_dropWhile_le le_trans)
  also have "\<dots> < length ?s" using ne by (cases ?s) simp_all
  also have "\<dots> \<le> length path" by (rule length_dropWhile_le)
  finally show ?thesis .
qed

function namex_loop :: "devsw \<Rightarrow> bool \<Rightarrow> byte list \<Rightarrow> nat \<Rightarrow> fsys \<Rightarrow> ((nat \<times> byte list) option \<times> fsys) res" where
  "namex_loop D parent path ip s =
     (case skipelem path of
        None \<Rightarrow> if parent then rbind (iput ip s) (\<lambda>s. Ok (None, s)) else Ok (Some (ip, []), s)
      | Some (rest, name) \<Rightarrow>
          rbind (ilock (Some ip) s) (\<lambda>s.
            if ip_type (inode_of s ip) \<noteq> T_DIR then rbind (iunlockput (Some ip) s) (\<lambda>s. Ok (None, s))
            else if parent \<and> rest = [] then rbind (iunlock (Some ip) s) (\<lambda>s. Ok (Some (ip, name), s))
            else
              rbind (dirlookup D ip name s) (\<lambda>(r, s).
                case r of
                  None \<Rightarrow> rbind (iunlockput (Some ip) s) (\<lambda>s. Ok (None, s))
                | Some (next, _) \<Rightarrow> rbind (iunlockput (Some ip) s) (namex_loop D parent rest next))))"
  by pat_completeness auto
termination by (relation "measure (\<lambda>(D, parent, path, ip, s). length path)") (auto dest: skipelem_shrinks)

declare namex_loop.simps [simp del]

text \<open>\<open>cwd\<close> is the current directory of the process.\<close>

definition namex :: "devsw \<Rightarrow> nat \<Rightarrow> bool \<Rightarrow> byte list \<Rightarrow> fsys \<Rightarrow> ((nat \<times> byte list) option \<times> fsys) res" where
  "namex D cwd parent path s =
     rbind (if byte_at path = slash then iget ROOTDEV ROOTINO s else Ok (idup cwd s))
       (\<lambda>(ip, s). namex_loop D parent path ip s)"

definition namei :: "devsw \<Rightarrow> nat \<Rightarrow> byte list \<Rightarrow> fsys \<Rightarrow> (nat option \<times> fsys) res" where
  "namei D cwd path s = rbind (namex D cwd False path s) (\<lambda>(r, s). Ok (map_option fst r, s))"

definition nameiparent :: "devsw \<Rightarrow> nat \<Rightarrow> byte list \<Rightarrow> fsys \<Rightarrow> ((nat \<times> byte list) option \<times> fsys) res" where
  "nameiparent D cwd path s = namex D cwd True path s"

end
