(* ===== verification/FsPath.thy ===== *)
theory FsPath
  imports FsDir
begin

text \<open>
  xv6: a path is the sequence of its elements, and looking it up is a walk along them; the name in an entry of a
  directory is a name of at most 14 bytes.
\<close>

section \<open>The elements of a path\<close>

fun split_on :: "'a \<Rightarrow> 'a list \<Rightarrow> 'a list list" where
  "split_on c [] = [[]]"
| "split_on c (x # xs) = (if x = c then [] # split_on c xs else (case split_on c xs of [] \<Rightarrow> [[x]] | y # ys \<Rightarrow> (x # y) # ys))"

definition elements :: "byte list \<Rightarrow> byte list list" where
  "elements path = map (take DIRSIZ) (filter (\<lambda>x. x \<noteq> []) (split_on slash path))"

lemma split_on_unfold:
  "split_on c xs = takeWhile (\<lambda>x. x \<noteq> c) xs # (case dropWhile (\<lambda>x. x \<noteq> c) xs of [] \<Rightarrow> [] | _ # r \<Rightarrow> split_on c r)"
  by (induction xs) auto

lemma elements_slashes: "elements (dropWhile (\<lambda>c. c = slash) path) = elements path"
  by (induction path) (simp_all add: elements_def)

lemma elements_Nil_iff: "elements path = [] \<longleftrightarrow> (\<forall>c\<in>set path. c = slash)"
proof (induction path)
  case (Cons x xs)
  show ?case
  proof (cases "x = slash")
    case True
    then show ?thesis using Cons.IH by (simp add: elements_def)
  next
    case False
    have "split_on slash (x # xs) \<noteq> []" "hd (split_on slash (x # xs)) \<noteq> []"
      using False by (auto split: list.split)
    then show ?thesis using False by (cases "split_on slash (x # xs)") (simp_all add: elements_def)
  qed
qed (simp add: elements_def)

lemma skipelem_elements:
  "skipelem path = (case elements path of [] \<Rightarrow> None
     | name # names \<Rightarrow> Some (dropWhile (\<lambda>c. c = slash) (dropWhile (\<lambda>c. c \<noteq> slash) (dropWhile (\<lambda>c. c = slash) path)), name))"
  "skipelem path = Some (rest, name) \<Longrightarrow> elements path = name # elements rest"
  "skipelem path = Some (rest, name) \<Longrightarrow> rest = [] \<longleftrightarrow> elements rest = []"
proof -
  let ?s = "dropWhile (\<lambda>c. c = slash) path"
  have e: "elements path = (if ?s = [] then [] else take DIRSIZ (takeWhile (\<lambda>c. c \<noteq> slash) ?s) #
      elements (dropWhile (\<lambda>c. c = slash) (dropWhile (\<lambda>c. c \<noteq> slash) ?s)))"
  proof (cases "?s = []")
    case True
    then have "\<forall>c\<in>set path. c = slash" by (simp add: dropWhile_eq_Nil_conv)
    with True show ?thesis using elements_Nil_iff by simp
  next
    case False
    then have h: "hd ?s \<noteq> slash" by (rule hd_dropWhile)
    have t: "takeWhile (\<lambda>c. c \<noteq> slash) ?s \<noteq> []" using False h by (cases ?s) simp_all
    have "elements path = elements ?s" by (simp add: elements_slashes)
    also have "\<dots> = take DIRSIZ (takeWhile (\<lambda>c. c \<noteq> slash) ?s) #
        map (take DIRSIZ) (filter (\<lambda>x. x \<noteq> []) (case dropWhile (\<lambda>x. x \<noteq> slash) ?s of [] \<Rightarrow> [] | _ # r \<Rightarrow> split_on slash r))"
      unfolding elements_def by (subst split_on_unfold) (simp add: t)
    also have "map (take DIRSIZ) (filter (\<lambda>x. x \<noteq> []) (case dropWhile (\<lambda>x. x \<noteq> slash) ?s of [] \<Rightarrow> [] | _ # r \<Rightarrow> split_on slash r)) =
        elements (dropWhile (\<lambda>x. x \<noteq> slash) ?s)"
    proof (cases "dropWhile (\<lambda>x. x \<noteq> slash) ?s")
      case Nil
      show ?thesis unfolding Nil by (simp add: elements_def)
    next
      case (Cons x r)
      then have "x = slash" using hd_dropWhile [of "\<lambda>x. x \<noteq> slash" ?s] by simp
      then show ?thesis unfolding Cons by (simp add: elements_def)
    qed
    finally show ?thesis using False by (simp add: elements_slashes)
  qed
  show "skipelem path = (case elements path of [] \<Rightarrow> None
     | name # names \<Rightarrow> Some (dropWhile (\<lambda>c. c = slash) (dropWhile (\<lambda>c. c \<noteq> slash) (dropWhile (\<lambda>c. c = slash) path)), name))"
    unfolding e by (auto simp: skipelem_def Let_def)
  show "elements path = name # elements rest" if "skipelem path = Some (rest, name)"
    unfolding e using that by (auto simp: skipelem_def Let_def split: if_splits)
  show "rest = [] \<longleftrightarrow> elements rest = []" if "skipelem path = Some (rest, name)"
  proof
    assume n: "elements rest = []"
    have r: "rest = dropWhile (\<lambda>c. c = slash) (dropWhile (\<lambda>c. c \<noteq> slash) ?s)"
      using that by (auto simp: skipelem_def Let_def split: if_splits)
    show "rest = []"
    proof (rule ccontr)
      assume ne: "rest \<noteq> []"
      then have "hd rest \<noteq> slash" unfolding r by (rule hd_dropWhile)
      moreover have "hd rest \<in> set rest" using ne by (rule hd_in_set)
      ultimately show False using n by (simp add: elements_Nil_iff)
    qed
  qed (simp add: elements_def)
qed

section \<open>Looking up a path\<close>

text \<open>The reference: from directory to directory, one name at a time.\<close>

fun walk :: "devsw \<Rightarrow> bool \<Rightarrow> byte list list \<Rightarrow> nat \<Rightarrow> fsys \<Rightarrow> ((nat \<times> byte list) option \<times> fsys) res" where
  "walk D parent [] ip s = (if parent then rbind (iput ip s) (\<lambda>s. Ok (None, s)) else Ok (Some (ip, []), s))"
| "walk D parent (name # names) ip s =
     rbind (ilock (Some ip) s) (\<lambda>s.
       if ip_type (inode_of s ip) \<noteq> T_DIR then rbind (iunlockput (Some ip) s) (\<lambda>s. Ok (None, s))
       else if parent \<and> names = [] then rbind (iunlock (Some ip) s) (\<lambda>s. Ok (Some (ip, name), s))
       else
         rbind (dirlookup D ip name s) (\<lambda>(r, s).
           case r of
             None \<Rightarrow> rbind (iunlockput (Some ip) s) (\<lambda>s. Ok (None, s))
           | Some (next, _) \<Rightarrow> rbind (iunlockput (Some ip) s) (walk D parent names next)))"

lemma namex_loop_walks: "namex_loop D parent path ip s = walk D parent (elements path) ip s"
proof (induction path arbitrary: ip s rule: length_induct)
  case (1 path)
  show ?case
  proof (cases "skipelem path")
    case None
    then have "elements path = []" by (subst (asm) skipelem_elements(1)) (simp split: list.splits)
    with None show ?thesis by (simp add: namex_loop.simps [of D parent path])
  next
    case (Some p)
    obtain rest name where p: "p = (rest, name)" by fastforce
    note sk = Some [unfolded p]
    have IH: "namex_loop D parent rest = walk D parent (elements rest)"
      using 1 skipelem_shrinks [OF sk] by (intro ext) simp
    show ?thesis
      unfolding skipelem_elements(2) [OF sk]
      by (subst namex_loop.simps, subst sk) (simp add: IH skipelem_elements(3) [OF sk] cong: option.case_cong if_cong)
  qed
qed

text \<open>
  C26: Path names. Looking up a path walks along its elements, which are the non-empty pieces between its slashes, cut
  to 14 bytes: from the root if the path begins with a slash and from the current directory otherwise. Hence leading,
  repeated and trailing slashes make no difference beyond that, neither to the inode, nor to the last name, nor to
  the state of the file system.
\<close>

theorem namex_walks:
  "namex D cwd parent path s =
     rbind (if byte_at path = slash then iget ROOTDEV ROOTINO s else Ok (idup cwd s))
       (\<lambda>(ip, s). walk D parent (elements path) ip s)"
  by (simp add: namex_def namex_loop_walks)

section \<open>Names\<close>

definition cstr :: "byte list \<Rightarrow> byte list" where
  "cstr s = takeWhile (\<lambda>c. c \<noteq> 0) s"

lemma cstr_simps [simp]: "cstr [] = []" "cstr (c # s) = (if c = 0 then [] else c # cstr s)"
  by (simp_all add: cstr_def)

lemma strncmp_zero: "strncmp p q n = 0 \<longleftrightarrow> take n (cstr p) = take n (cstr q)"
proof (induction n arbitrary: p q)
  case (Suc n)
  then show ?case by (cases p; cases q) (auto simp: byte_at_def word_uint_eq_iff)
qed simp

lemma length_strncpy [simp]: "length (strncpy t n) = n"
  by (induction n arbitrary: t) simp_all

lemma cstr_replicate [simp]: "cstr (replicate n 0) = []"
  by (cases n) simp_all

lemma cstr_strncpy: "cstr (strncpy t n) = take n (cstr t)"
proof (induction n arbitrary: t)
  case (Suc n)
  then show ?case by (cases t) (auto simp: byte_at_def)
qed simp

lemma namecmp_strncpy: "namecmp name (strncpy name' DIRSIZ) = 0 \<longleftrightarrow> take DIRSIZ (cstr name) = take DIRSIZ (cstr name')"
  by (simp add: namecmp_def strncmp_zero cstr_strncpy)

end
