(* ===== verification/Exec.thy ===== *)
theory Exec
  imports MemEncFun MemEnc Bytes FsPath
begin

text \<open>
  P4, \<open>exec.c\<close>: a program file becomes the memory of a process. The contents of the file are a list of bytes, of which
  \<open>readi\<close> gives what is there; the strings of \<open>argv\<close> are their bytes. What the kernel stores goes through the page table of
  the new image, page by page.
\<close>

section \<open>Headers\<close>

definition ELF_MAGIC :: uint where "ELF_MAGIC = 0x464C457F"
definition ELF_PROG_LOAD :: uint where "ELF_PROG_LOAD = 1"
definition MAXARG :: nat where "MAXARG = 32"

record elfhdr =
  e_magic :: uint
  e_entry :: uint
  e_phoff :: uint
  e_phnum :: nat

definition elfhdr_of :: "byte list \<Rightarrow> elfhdr" where
  "elfhdr_of bs = \<lparr>e_magic = le32 bs 0, e_entry = le32 bs 24, e_phoff = le32 bs 28, e_phnum = unat (le16 bs 44)\<rparr>"

record proghdr =
  ph_type :: uint
  ph_off :: uint
  ph_vaddr :: uint
  ph_filesz :: uint
  ph_memsz :: uint

definition proghdr_of :: "byte list \<Rightarrow> proghdr" where
  "proghdr_of bs = \<lparr>ph_type = le32 bs 0, ph_off = le32 bs 4, ph_vaddr = le32 bs 8, ph_filesz = le32 bs 16, ph_memsz = le32 bs 20\<rparr>"

section \<open>Reading the file\<close>

text \<open>The bytes that \<open>readi\<close> gives, None where it fails.\<close>

definition read_at :: "byte list \<Rightarrow> uint \<Rightarrow> uint \<Rightarrow> byte list option" where
  "read_at img off n =
     (if length img < unat off \<or> off + n < off then None else Some (take (unat n) (drop (unat off) img)))"

definition store_bytes :: "uint \<Rightarrow> byte list \<Rightarrow> vmem \<Rightarrow> vmem" where
  "store_bytes dst xs m =
     m\<lparr>v_byte := (\<lambda>x. if unat (x - dst) < length xs then xs ! unat (x - dst) else v_byte m x)\<rparr>"

definition file_into :: "byte list \<Rightarrow> uint \<Rightarrow> uint \<Rightarrow> uint \<Rightarrow> vmem \<Rightarrow> uint \<times> vmem" where
  "file_into img dst off n m =
     (case read_at img off n of None \<Rightarrow> (- 1, m) | Some xs \<Rightarrow> (of_nat (length xs), store_bytes dst xs m))"

section \<open>The segments\<close>

text \<open>The loop over the program headers; None is the label \<open>bad\<close>.\<close>

fun load_segments :: "vmpar \<Rightarrow> byte list \<Rightarrow> uint \<Rightarrow> nat \<Rightarrow> uint \<Rightarrow> uint \<Rightarrow> vmem \<Rightarrow> (uint option \<times> vmem) res" where
  "load_segments M img pgdir 0 off sz m = Ok (Some sz, m)"
| "load_segments M img pgdir (Suc n) off sz m =
     (case read_at img off 32 of
        None \<Rightarrow> Ok (None, m)
      | Some bs \<Rightarrow>
          let ph = proghdr_of bs; top = ph_vaddr ph + ph_memsz ph in
          if length bs \<noteq> 32 then Ok (None, m)
          else if ph_type ph \<noteq> ELF_PROG_LOAD then load_segments M img pgdir n (off + 32) sz m
          else if ph_memsz ph < ph_filesz ph \<or> top < ph_vaddr ph then Ok (None, m)
          else
            rbind (allocuvm M pgdir sz top m) (\<lambda>(sz, m).
              if sz = 0 \<or> ph_vaddr ph mod 4096 \<noteq> 0 then Ok (None, m)
              else
                rbind (loaduvm (file_into img) pgdir (ph_vaddr ph) (ph_off ph) (ph_filesz ph) m) (\<lambda>(r, m).
                  if r < 0 then Ok (None, m) else load_segments M img pgdir n (off + 32) sz m)))"

section \<open>The stack\<close>

lemma page_offset_bound: "unat (va - PGROUNDDOWN va) < 4096"
  by (simp add: pgrounddown_minus unat_and_4095)

text \<open>\<open>copyout\<close> of bytes that the kernel has in its own memory.\<close>

function copyout_bytes :: "vmpar \<Rightarrow> uint \<Rightarrow> uint \<Rightarrow> byte list \<Rightarrow> vmem \<Rightarrow> (int \<times> vmem) res" where
  "copyout_bytes M pgdir va xs m =
     (if xs = [] then Ok (0, m)
      else
        let va0 = PGROUNDDOWN va; n = min (4096 - unat (va - va0)) (length xs) in
        rbind (uva2ka M pgdir va0 m) (\<lambda>pa0.
          if pa0 = 0 then Ok (- 1, m)
          else copyout_bytes M pgdir (va0 + 4096) (drop n xs) (store_bytes (pa0 + (va - va0)) (take n xs) m)))"
  by pat_completeness auto
termination
  by (relation "measure (\<lambda>(M, pgdir, va, xs, m). length xs)") (simp_all add: page_offset_bound)

declare copyout_bytes.simps [simp del]

text \<open>The argument strings, each rounded down to a word; the addresses are what goes into \<open>ustack\<close>.\<close>

fun push_strings :: "vmpar \<Rightarrow> uint \<Rightarrow> byte list list \<Rightarrow> nat \<Rightarrow> uint \<Rightarrow> vmem \<Rightarrow> ((uint \<times> uint list) option \<times> vmem) res" where
  "push_strings M pgdir [] argc sp m = Ok (Some (sp, []), m)"
| "push_strings M pgdir (s # ss) argc sp m =
     (if MAXARG \<le> argc then Ok (None, m)
      else
        let sp = (sp - (of_nat (length s) + 1)) AND NOT 3 in
        rbind (copyout_bytes M pgdir sp (s @ [0]) m) (\<lambda>(r, m).
          if r < 0 then Ok (None, m)
          else
            rbind (push_strings M pgdir ss (argc + 1) sp m) (\<lambda>(t, m).
              Ok (map_option (\<lambda>(sp', us). (sp', sp # us)) t, m))))"

text \<open>The words below the strings: a return address, \<open>argc\<close>, \<open>argv\<close>, and the pointers with a null pointer behind them.\<close>

definition ustack_of :: "uint \<Rightarrow> uint list \<Rightarrow> uint list" where
  "ustack_of sp us = [0xFFFFFFFF, of_nat (length us), sp - (of_nat (length us) + 1) * 4] @ us @ [0]"

definition push_args :: "vmpar \<Rightarrow> uint \<Rightarrow> byte list list \<Rightarrow> uint \<Rightarrow> vmem \<Rightarrow> (uint option \<times> vmem) res" where
  "push_args M pgdir argv sz m =
     rbind (push_strings M pgdir argv 0 sz m) (\<lambda>(t, m).
       case t of None \<Rightarrow> Ok (None, m)
       | Some (sp, us) \<Rightarrow>
           let sp' = sp - (3 + of_nat (length us) + 1) * 4 in
           rbind (copyout_bytes M pgdir sp' (concat (map bytes32 (ustack_of sp us))) m) (\<lambda>(r, m).
             Ok (if r < 0 then None else Some sp', m)))"

section \<open>exec\<close>

text \<open>The label \<open>bad\<close> once there is a page table; before it, the file is only put back.\<close>

definition exec_bad :: "vmpar \<Rightarrow> uint \<Rightarrow> mproc \<Rightarrow> vmem \<Rightarrow> ((uint \<times> uint) option \<times> mstate) res" where
  "exec_bad M pgdir p m = rbind (freevm M pgdir m) (\<lambda>m. Ok (None, p, m))"

text \<open>The stack: two pages, of which the lower one is taken from the user.\<close>

definition exec_stack :: "vmpar \<Rightarrow> uint \<Rightarrow> byte list list \<Rightarrow> uint \<Rightarrow> vmem \<Rightarrow> ((uint \<times> uint) option \<times> vmem) res" where
  "exec_stack M pgdir argv sz m =
     rbind (allocuvm M pgdir (PGROUNDUP sz) (PGROUNDUP sz + 2 * 4096) m) (\<lambda>(sz, m).
       if sz = 0 then Ok (None, m)
       else
         rbind (clearpteu pgdir (sz - 2 * 4096) m) (\<lambda>m.
         rbind (push_args M pgdir argv sz m) (\<lambda>(t, m). Ok (map_option (\<lambda>sp. (sp, sz)) t, m))))"

text \<open>The result is None for -1, else the entry point and the stack pointer with which the process goes on. The file is None when
the path names none.\<close>

definition exec :: "vmpar \<Rightarrow> byte list option \<Rightarrow> byte list list \<Rightarrow> mstate \<Rightarrow> ((uint \<times> uint) option \<times> mstate) res" where
  "exec M file argv = (\<lambda>(p, m).
     case file of None \<Rightarrow> Ok (None, p, m)
     | Some img \<Rightarrow>
         if length img < 52 \<or> e_magic (elfhdr_of img) \<noteq> ELF_MAGIC then Ok (None, p, m)
         else
           rbind (setupkvm M m) (\<lambda>(pgdir, m).
             if pgdir = 0 then Ok (None, p, m)
             else
               let elf = elfhdr_of img in
               rbind (load_segments M img pgdir (e_phnum elf) (e_phoff elf) 0 m) (\<lambda>(t, m).
                 case t of None \<Rightarrow> exec_bad M pgdir p m
                 | Some sz \<Rightarrow>
                     rbind (exec_stack M pgdir argv sz m) (\<lambda>(t, m).
                       case t of None \<Rightarrow> exec_bad M pgdir p m
                       | Some (sp, sz) \<Rightarrow>
                           rbind (exec_commit M pgdir sz (p, m)) (\<lambda>(p, m). Ok (Some (e_entry elf, sp), p, m))))))"

end
