(* ===== verification/ClockQueue.thy ===== *)
theory ClockQueue
  imports MemEncFun
begin

text \<open>
  P4: the clock queue. Read from the slot after the hand, the array is a queue of pages; the scan of
  \<open>insertQueue\<close> is the second-chance algorithm on it, it always ends, and the pages in it are exactly
  the decrypted pages of the process.
\<close>

section \<open>The abstract algorithm\<close>

text \<open>
  The queue, head first, with \<open>-1\<close> for an empty slot; \<open>acc\<close> says which pages have been accessed. The
  new page replaces the head when that is empty or has not been accessed (and is then the victim);
  otherwise the head loses its mark and moves to the end. The first argument bounds the rounds.
\<close>

fun second_chance :: "nat \<Rightarrow> (uint \<Rightarrow> bool) \<Rightarrow> uint \<Rightarrow> uint list \<Rightarrow> (uint list \<times> uint option) option" where
  "second_chance 0 acc v q = None"
| "second_chance (Suc n) acc v [] = None"
| "second_chance (Suc n) acc v (x # q) =
     (if x = -1 then Some (q @ [v], None)
      else if \<not> acc x then Some (q @ [v], Some x)
      else second_chance n (acc(x := False)) v (q @ [x]))"

lemma second_chance_ends:
  "\<forall>y\<in>set ys. \<not> acc y \<Longrightarrow> length xs < n \<Longrightarrow> xs @ ys \<noteq> [] \<Longrightarrow> second_chance n acc v (xs @ ys) \<noteq> None"
proof (induction xs arbitrary: n acc ys)
  case Nil
  then obtain k where "n = Suc k" by (cases n) auto
  with Nil show ?case by (cases ys) auto
next
  case (Cons x xs)
  then obtain k where k: "n = Suc k" "length xs < k" by (cases n) auto
  show ?case
  proof (cases "x = -1 \<or> \<not> acc x")
    case True
    then show ?thesis using k by auto
  next
    case False
    have "\<forall>y\<in>set (ys @ [x]). \<not> (acc(x := False)) y" using Cons.prems(1) by auto
    from Cons.IH [OF this k(2)] have "second_chance k (acc(x := False)) v (xs @ ys @ [x]) \<noteq> None"
      by (simp del: fun_upd_apply not_None_eq)
    with False k show ?thesis by (simp del: fun_upd_apply not_None_eq)
  qed
qed

lemma second_chance_total: "q \<noteq> [] \<Longrightarrow> second_chance (Suc (length q)) acc v q \<noteq> None"
  using second_chance_ends [of "[]" acc q "Suc (length q)" v] by simp

section \<open>The ring\<close>

definition ring :: "mproc \<Rightarrow> uint list" where
  "ring p = rotate (nat (mp_index p + 1)) (map nd_vpn (mp_queue p))"

lemma rotate_update:
  assumes "i < length q"
  shows "rotate (Suc i) (q[i := v]) = tl (rotate i q) @ [v]" and "rotate i q \<noteq> []" and "hd (rotate i q) = q ! i"
proof -
  have r: "rotate i q = drop i q @ take i q" using assms by (simp add: rotate_drop_take)
  have d: "drop i q = q ! i # drop (Suc i) q" using assms by (simp add: Cons_nth_drop_Suc)
  have "rotate i (q[i := v]) = v # drop (Suc i) q @ take i q"
    using assms by (simp add: rotate_drop_take Cons_nth_drop_Suc [symmetric])
  then show "rotate (Suc i) (q[i := v]) = tl (rotate i q) @ [v]" by (simp add: r d)
  show "rotate i q \<noteq> []" "hd (rotate i q) = q ! i" by (simp_all add: r d)
qed

definition hand :: "mproc \<Rightarrow> nat" where
  "hand p = nat ((mp_index p + 1) mod int CLOCKSIZE)"

definition slots_shape :: "mproc \<Rightarrow> bool" where
  "slots_shape p \<longleftrightarrow> length (mp_queue p) = CLOCKSIZE \<and> -1 \<le> mp_index p \<and> mp_index p < int CLOCKSIZE"

lemma hand_less: "slots_shape p \<Longrightarrow> hand p < length (mp_queue p)"
  by (simp add: slots_shape_def hand_def CLOCKSIZE_def nat_less_iff)

lemma ring_hand:
  assumes "slots_shape p"
  shows "ring p = rotate (hand p) (map nd_vpn (mp_queue p))"
proof -
  have "nat ((mp_index p + 1) mod int CLOCKSIZE) = nat (mp_index p + 1) mod CLOCKSIZE"
    using assms by (simp add: slots_shape_def nat_mod_distrib)
  then show ?thesis
    using assms by (simp add: ring_def hand_def slots_shape_def) (metis length_map rotate_conv_mod)
qed

text \<open>Advancing the hand and writing the slot it has reached.\<close>

lemma ring_advance:
  assumes "slots_shape p"
  shows "ring (set_slot (hand p) v pte (p\<lparr>mp_index := int (hand p)\<rparr>)) = tl (ring p) @ [v]"
    and "ring (p\<lparr>mp_index := int (hand p)\<rparr>) = tl (ring p) @ [hd (ring p)]"
    and "ring p \<noteq> []" and "hd (ring p) = nd_vpn (mp_queue p ! hand p)"
proof -
  let ?q = "map nd_vpn (mp_queue p)"
  have h: "hand p < length ?q" using hand_less [OF assms] by simp
  note r = ring_hand [OF assms] and u = rotate_update [OF h]
  have "ring (set_slot (hand p) v pte (p\<lparr>mp_index := int (hand p)\<rparr>)) = rotate (Suc (hand p)) (?q[hand p := v])"
    by (simp add: ring_def set_slot_def map_update nat_add_distrib)
  then show "ring (set_slot (hand p) v pte (p\<lparr>mp_index := int (hand p)\<rparr>)) = tl (ring p) @ [v]"
    unfolding u(1) by (simp add: r)
  have "ring (p\<lparr>mp_index := int (hand p)\<rparr>) = rotate (Suc (hand p)) (?q[hand p := ?q ! hand p])"
    by (simp add: ring_def nat_add_distrib)
  then show "ring (p\<lparr>mp_index := int (hand p)\<rparr>) = tl (ring p) @ [hd (ring p)]"
    unfolding u(1) by (simp add: r u(3))
  show "ring p \<noteq> []" "hd (ring p) = nd_vpn (mp_queue p ! hand p)"
    using u(2,3) h by (simp_all add: r)
qed

lemma set_ring: "set (ring p) = nd_vpn ` set (mp_queue p)"
  by (simp add: ring_def)

section \<open>The scan\<close>

text \<open>Every page in the queue is a page of the process, in one slot, whose pointer is that of its entry.\<close>

definition slots_ok :: "vmpar \<Rightarrow> mproc \<Rightarrow> vmem \<Rightarrow> bool" where
  "slots_ok M p m \<longleftrightarrow> slots_shape p \<and> distinct (filter (\<lambda>v. v \<noteq> -1) (ring p)) \<and>
     (\<forall>nd\<in>set (mp_queue p). nd_vpn nd \<noteq> -1 \<longrightarrow>
        aligned (nd_vpn nd) \<and> user_page M (mp_pgdir p) (nd_vpn nd) m \<and>
        nd_pte nd = pte_of (mp_pgdir p) (nd_vpn nd) m)"

lemma slots_ok_invisible:
  assumes "slots_ok M p m" and "invisible M (mp_pgdir p) m m'"
  shows "slots_ok M p m'"
  using assms by (simp add: slots_ok_def invisibleD [OF assms(2)])

lemma slots_ok_advance:
  assumes "slots_ok M p m"
  shows "slots_ok M (p\<lparr>mp_index := int (hand p)\<rparr>) m"
proof -
  have s: "slots_shape p" using assms by (simp add: slots_ok_def)
  note r = ring_advance [OF s]
  obtain x xs where x: "ring p = x # xs" using r(3) by (cases "ring p") auto
  have "distinct (filter (\<lambda>v. v \<noteq> -1) (xs @ [x]))"
    using assms x by (auto simp: slots_ok_def)
  with assms r(2) x hand_less [OF s] show ?thesis by (simp add: slots_ok_def slots_shape_def)
qed

lemma clear_accessed:
  assumes "e_ok M" and "space_ok M pgdir m" and "aligned a" and "user_page M pgdir a m"
    and "pte_of pgdir a m = Some q"
  defines "m' \<equiv> set_pte q (v_pte m q AND NOT PTE_A) m"
  shows "invisible M pgdir m m'" and "enc M pgdir m' b = enc M pgdir m b"
    and "accessed pgdir m' b \<longleftrightarrow> accessed pgdir m b \<and> PGROUNDDOWN b \<noteq> a"
proof -
  let ?v = "v_pte m q AND NOT PTE_A"
  have t: "tables_ok pgdir m" using assms(2) by (simp add: space_ok_def)
  have ea: "entry pgdir c m = v_pte m q" if "PGROUNDDOWN a = PGROUNDDOWN c" for c
    using assms(5) entry_page [OF that, of pgdir m] by (simp add: entry_def)
  note b = clear_access_bits [OF assms(1) refl, of "v_pte m q"]
  have "entry pgdir a m AND PTE_P = 0 \<longleftrightarrow> entry pgdir a m AND pte_e M \<noteq> 0"
    using assms(2,4) unfolding space_ok_def by blast
  then have ex: "v_pte m q AND PTE_P = 0 \<longleftrightarrow> v_pte m q AND pte_e M \<noteq> 0" by (simp only: ea [OF refl])
  have "in_use M (v_pte m q)" using assms(4) by (simp add: user_page_def ea)
  from b(4) [OF this ex] have same: "same_page M ?v (v_pte m q)" .
  note sp = set_pte_space [OF assms(2,5) same] and e = entry_set_pte [OF t assms(5)]
  have "plain M pgdir c m' = plain M pgdir c m" for c
    unfolding m'_def by (rule plain_set_pte [OF assms(2,5) same]) (simp add: b(1))
  with sp show "invisible M pgdir m m'"
    by (simp add: invisible_def m'_def pte_of_set_pte [OF t assms(5)])
  show "enc M pgdir m' b = enc M pgdir m b"
    using ea b(1) by (simp add: enc_def m'_def e)
  have "PGROUNDDOWN b = a \<longleftrightarrow> PGROUNDDOWN a = PGROUNDDOWN b" using assms(3) by auto
  then show "accessed pgdir m' b \<longleftrightarrow> accessed pgdir m b \<and> PGROUNDDOWN b \<noteq> a"
    by (simp add: accessed_def m'_def e b(3))
qed

lemma second_chance_cong:
  "\<forall>x\<in>set q. x \<noteq> -1 \<longrightarrow> acc x = acc' x \<Longrightarrow> second_chance n acc v q = second_chance n acc' v q"
proof (induction n acc v q arbitrary: acc' rule: second_chance.induct)
  case (3 n acc v x q)
  show ?case
  proof (cases "x \<noteq> -1 \<and> acc x")
    case True
    have "\<forall>y\<in>set (q @ [x]). y \<noteq> -1 \<longrightarrow> (acc(x := False)) y = (acc'(x := False)) y"
      using "3.prems" by simp
    from "3.IH" [OF _ _ this] True "3.prems" show ?thesis by (simp del: fun_upd_apply)
  next
    case False
    with "3.prems" show ?thesis by auto
  qed
qed simp_all

lemma mencrypt_victim:
  assumes "e_ok M" and "space_ok M d m" and "runnable p" and "mp_pgdir p = d" and "pte_of d a m = Some q"
    and "aligned a"
  obtains m' where "mencrypt M a 1 (p, m) = Ok (0, p, m')" and "invisible M d m m'"
    and "\<forall>b. enc M d m' b \<longleftrightarrow> enc M d m b \<or> user_page M d b m \<and> PGROUNDDOWN b = a"
  using mencrypt_one [of M p m a] assms by auto

text \<open>The refinement: whatever the abstract algorithm answers on the ring, the scan does to the array,
  and it encrypts the victim.\<close>

lemma clock_scan_refines:
  assumes "e_ok M" and "space_ok M (mp_pgdir p) m" and "runnable p" and "slots_ok M p m"
    and "second_chance n (accessed (mp_pgdir p) m) v (ring p) = Some (r, victim)"
  shows "\<exists>p' m'. clock_scan M n v pte (p, m) = Ok (p', m') \<and> invisible M (mp_pgdir p) m m' \<and>
    ring p' = r \<and> slots_shape p' \<and> mp_pgdir p' = mp_pgdir p \<and> runnable p' \<and> mp_sz p' = mp_sz p \<and>
    set (mp_queue p') \<subseteq> insert \<lparr>nd_vpn = v, nd_pte = pte\<rparr> (set (mp_queue p)) \<and>
    (\<forall>b. enc M (mp_pgdir p) m' b \<longleftrightarrow> enc M (mp_pgdir p) m b \<or>
       victim = Some (PGROUNDDOWN b) \<and> user_page M (mp_pgdir p) b m)"
  using assms
proof (induction n arbitrary: p m)
  case 0
  then show ?case by simp
next
  case (Suc n)
  have s: "slots_shape p" using Suc.prems(4) by (simp add: slots_ok_def)
  note ra = ring_advance [OF s]
  let ?nd = "mp_queue p ! hand p" and ?p = "p\<lparr>mp_index := int (hand p)\<rparr>"
  obtain xs where xs: "ring p = nd_vpn ?nd # xs" using ra(3,4) by (cases "ring p") auto
  have nd: "?nd \<in> set (mp_queue p)" using hand_less [OF s] by simp
  have h: "int (hand p) = (mp_index p + 1) mod int CLOCKSIZE" "hand p < CLOCKSIZE"
    using hand_less [OF s] s by (simp_all add: hand_def CLOCKSIZE_def slots_shape_def)
  let ?p' = "set_slot (hand p) v pte ?p"
  have slot: "set (mp_queue ?p') \<subseteq> insert \<lparr>nd_vpn = v, nd_pte = pte\<rparr> (set (mp_queue p))"
    by (simp add: set_slot_def set_update_subset_insert)
  have shape: "slots_shape ?p'" "runnable ?p'" "mp_pgdir ?p' = mp_pgdir p" "mp_sz ?p' = mp_sz p"
    using s h(2) Suc.prems(3) by (simp_all add: slots_shape_def set_slot_def runnable_def)
  show ?case
  proof (cases "nd_vpn ?nd = -1")
    case True
    then have "r = xs @ [v]" "victim = None" using Suc.prems(5) xs by auto
    moreover have "clock_scan M (Suc n) v pte (p, m) = Ok (?p', m)"
      using True h(1) by (simp add: Let_def hand_def)
    ultimately show ?thesis
      using slot shape ra(1) [of v pte] xs Suc.prems(2)
      by (intro exI [of _ ?p'] exI [of _ m]) (simp add: invisible_refl)
  next
    case False
    from Suc.prems(4) nd False have a: "aligned (nd_vpn ?nd)" and u: "user_page M (mp_pgdir p) (nd_vpn ?nd) m"
      and pt: "nd_pte ?nd = pte_of (mp_pgdir p) (nd_vpn ?nd) m" unfolding slots_ok_def by blast+
    obtain q where q: "pte_of (mp_pgdir p) (nd_vpn ?nd) m = Some q" using user_page_pte [OF u] by blast
    have acc: "accessed (mp_pgdir p) m (nd_vpn ?nd) \<longleftrightarrow> v_pte m q AND PTE_A \<noteq> 0"
      by (simp add: accessed_def entry_def q)
    show ?thesis
    proof (cases "accessed (mp_pgdir p) m (nd_vpn ?nd)")
      case no: False
      then have r: "r = xs @ [v]" "victim = Some (nd_vpn ?nd)" using Suc.prems(5) xs False by auto
      have p: "runnable ?p" "mp_pgdir ?p = mp_pgdir p" using Suc.prems(3) by (simp_all add: runnable_def)
      obtain m' where m':
        "mencrypt M (nd_vpn ?nd) 1 (?p, m) = Ok (0, ?p, m')" "invisible M (mp_pgdir p) m m'"
        "\<forall>b. enc M (mp_pgdir p) m' b \<longleftrightarrow> enc M (mp_pgdir p) m b \<or>
          user_page M (mp_pgdir p) b m \<and> PGROUNDDOWN b = nd_vpn ?nd"
        by (rule mencrypt_victim [OF Suc.prems(1,2) p q a])
      have "clock_scan M (Suc n) v pte (p, m) = Ok (?p', m')"
        using False no acc m'(1) q pt h(1) by (simp add: Let_def hand_def)
      moreover have "\<forall>b. enc M (mp_pgdir p) m' b \<longleftrightarrow> enc M (mp_pgdir p) m b \<or>
          victim = Some (PGROUNDDOWN b) \<and> user_page M (mp_pgdir p) b m"
      proof
        fix b
        show "enc M (mp_pgdir p) m' b \<longleftrightarrow> enc M (mp_pgdir p) m b \<or>
            victim = Some (PGROUNDDOWN b) \<and> user_page M (mp_pgdir p) b m"
          using m'(3) [rule_format, of b] unfolding r(2) by (cases "PGROUNDDOWN b = nd_vpn ?nd") simp_all
      qed
      moreover have "ring ?p' = r" using ra(1) [of v pte] xs r by simp
      ultimately show ?thesis using slot shape m'(2) by blast
    next
      case yes: True
      let ?m = "set_pte q (v_pte m q AND NOT PTE_A) m"
      note c = clear_accessed [OF Suc.prems(1,2) a u q]
      have ok: "slots_ok M ?p ?m"
        using slots_ok_invisible [OF slots_ok_advance [OF Suc.prems(4)]] c(1) by simp
      have al: "\<forall>x\<in>set (ring p). x \<noteq> -1 \<longrightarrow> aligned x"
        using Suc.prems(4) by (auto simp: set_ring slots_ok_def)
      have "second_chance n ((accessed (mp_pgdir p) m)(nd_vpn ?nd := False)) v (xs @ [nd_vpn ?nd]) = Some (r, victim)"
        using Suc.prems(5) xs False yes by simp
      moreover have "ring ?p = xs @ [nd_vpn ?nd]" using ra(2) xs by simp
      moreover have "second_chance n ((accessed (mp_pgdir p) m)(nd_vpn ?nd := False)) v (xs @ [nd_vpn ?nd]) =
          second_chance n (accessed (mp_pgdir p) ?m) v (xs @ [nd_vpn ?nd])"
      proof (rule second_chance_cong, rule ballI)
        fix x assume "x \<in> set (xs @ [nd_vpn ?nd])"
        then have "x \<in> set (ring p)" using xs by auto
        with al have "x \<noteq> -1 \<longrightarrow> PGROUNDDOWN x = x" by simp
        then show "x \<noteq> -1 \<longrightarrow> ((accessed (mp_pgdir p) m)(nd_vpn ?nd := False)) x = accessed (mp_pgdir p) ?m x"
          using c(3) [of x] by auto
      qed
      ultimately have sc: "second_chance n (accessed (mp_pgdir ?p) ?m) v (ring ?p) = Some (r, victim)" by simp
      have "space_ok M (mp_pgdir ?p) ?m" "runnable ?p"
        using invisibleD(1) [OF c(1)] Suc.prems(3) by (simp_all add: runnable_def)
      from Suc.IH [OF Suc.prems(1) this ok sc] obtain p' m' where
        i: "clock_scan M n v pte (?p, ?m) = Ok (p', m')" "invisible M (mp_pgdir p) ?m m'"
        "ring p' = r" "slots_shape p'" "mp_pgdir p' = mp_pgdir p" "runnable p'" "mp_sz p' = mp_sz p"
        "set (mp_queue p') \<subseteq> insert \<lparr>nd_vpn = v, nd_pte = pte\<rparr> (set (mp_queue p))"
        "\<forall>b. enc M (mp_pgdir p) m' b \<longleftrightarrow> enc M (mp_pgdir p) ?m b \<or>
           victim = Some (PGROUNDDOWN b) \<and> user_page M (mp_pgdir p) b ?m" by auto
      have "clock_scan M (Suc n) v pte (p, m) = Ok (p', m')"
        using False yes acc i(1) q pt h(1) by (simp add: Let_def hand_def)
      with i invisible_trans [OF c(1) i(2)] c(2) invisibleD(3) [OF c(1)] show ?thesis by auto
    qed
  qed
qed


section \<open>The working set\<close>

definition cleartext :: "vmpar \<Rightarrow> uint \<Rightarrow> vmem \<Rightarrow> uint set" where
  "cleartext M pgdir m = {b. aligned b \<and> user_page M pgdir b m \<and> \<not> enc M pgdir m b}"

definition queued_pages :: "mproc \<Rightarrow> uint set" where
  "queued_pages p = set (ring p) - {-1}"

text \<open>The invariant: the pages in the queue are the decrypted pages of the process.\<close>

definition ws_ok :: "vmpar \<Rightarrow> mproc \<Rightarrow> vmem \<Rightarrow> bool" where
  "ws_ok M p m \<longleftrightarrow> space_ok M (mp_pgdir p) m \<and> runnable p \<and> slots_ok M p m \<and>
     queued_pages p = cleartext M (mp_pgdir p) m"

lemma second_chance_result:
  "second_chance n acc v q = Some (r, victim) \<Longrightarrow>
   (let x = (case victim of None \<Rightarrow> -1 | Some x \<Rightarrow> x) in
    x \<in> set q \<and> (victim \<noteq> None \<longrightarrow> x \<noteq> -1) \<and> mset r = add_mset v (mset q - {#x#}))"
proof (induction n acc v q rule: second_chance.induct)
  case (3 n acc v x q)
  show ?case
  proof (cases "x = -1 \<or> \<not> acc x")
    case True
    with "3.prems" show ?thesis by (auto split: if_splits)
  next
    case False
    with "3.prems" "3.IH" show ?thesis by (auto simp: Let_def simp del: fun_upd_apply)
  qed
qed simp_all

lemma distinct_count_le: "distinct xs \<longleftrightarrow> (\<forall>x. count (mset xs) x \<le> 1)"
proof
  assume "distinct xs"
  then show "\<forall>x. count (mset xs) x \<le> 1" by (simp add: distinct_count_atmost_1)
next
  assume le: "\<forall>x. count (mset xs) x \<le> 1"
  have "count (mset xs) a = (if a \<in> set xs then 1 else 0)" for a
  proof (cases "a \<in> set xs")
    case True
    then have "0 < count (mset xs) a" by simp
    with le [rule_format, of a] True show ?thesis by (simp add: le_Suc_eq del: count_mset_0_iff count_greater_zero_iff)
  next
    case False
    then show ?thesis by (simp add: count_mset_0_iff)
  qed
  then show "distinct xs" by (simp add: distinct_count_atmost_1)
qed

lemma filter_distinct_count:
  "distinct (filter P q) \<longleftrightarrow> (\<forall>x. P x \<longrightarrow> count (mset q) x \<le> 1)"
  by (auto simp: distinct_count_le)

lemma not_aligned_minus_one: "\<not> aligned (-1)"
  by (simp add: aligned_and)

text \<open>A page that was not in the queue replaces the victim; the entries stay distinct.\<close>

lemma replaced_slots:
  fixes v :: uint
  assumes "mset r = add_mset v (mset q - {#x#})" and "x \<in> set q" and "v \<noteq> -1" and "v \<notin> set q"
    and "distinct (filter (\<lambda>v. v \<noteq> -1) q)"
  shows "distinct (filter (\<lambda>v. v \<noteq> -1) r)" and "set r - {-1} = insert v (set q - {-1} - {x})"
proof -
  have le: "count (mset q) y \<le> 1" if "y \<noteq> -1" for y using assms(5) that by (simp add: filter_distinct_count)
  have c: "count (mset r) y = (if y = v then Suc (count (mset q - {#x#}) y) else count (mset q - {#x#}) y)" for y
    by (simp add: assms(1))
  have v: "count (mset q) v = 0" using assms(4) by (simp add: count_mset_0_iff)
  show "distinct (filter (\<lambda>v. v \<noteq> -1) r)"
    unfolding filter_distinct_count
  proof (intro allI impI)
    fix y :: uint assume "y \<noteq> -1"
    with le [of y] v show "count (mset r) y \<le> 1" by (auto simp: c)
  qed
  show "set r - {-1} = insert v (set q - {-1} - {x})"
  proof (rule set_eqI)
    fix y
    have "y \<in> set r \<longleftrightarrow> count (mset r) y \<noteq> 0" "y \<in> set q \<longleftrightarrow> count (mset q) y \<noteq> 0"
      by (simp_all add: count_mset_0_iff)
    then show "y \<in> set r - {-1} \<longleftrightarrow> y \<in> insert v (set q - {-1} - {x})"
      using assms(3) le [of y] by (cases "y = -1") (auto simp: c split: if_splits)
  qed
qed

text \<open>
  Decrypting a page that is encrypted: the page becomes readable and joins the queue as the
  second-chance algorithm says, and the victim, if there is one, is encrypted.
\<close>

lemma decrypt_invisible:
  assumes e: "e_ok M" and ok: "space_ok M d m" and q: "pte_of d a m = Some q" and u: "user_page M d a m"
    and enc: "enc M d m a"
  defines "m' \<equiv> flip_page (frame d a m) (set_pte q ((v_pte m q OR PTE_P) AND NOT (pte_e M)) m)"
  shows "invisible M d m m'" and "enc M d m' b \<longleftrightarrow> enc M d m b \<and> PGROUNDDOWN b \<noteq> PGROUNDDOWN a"
    and "accessed d m' b = accessed d m b" and "entry d a m' AND PTE_P \<noteq> 0"
proof -
  let ?w = "(v_pte m q OR PTE_P) AND NOT (pte_e M)"
  have t: "tables_ok d m" using ok by (simp add: space_ok_def)
  have ea: "entry d c m = v_pte m q" if "PGROUNDDOWN a = PGROUNDDOWN c" for c
    using q entry_page [OF that, of d m] by (simp add: entry_def)
  note b = decrypt_bits [OF e refl, of "v_pte m q"]
  have same: "same_page M ?w (v_pte m q)" using b(4) u ea [OF refl] by (simp add: user_page_def)
  note sp = set_pte_space [OF ok q same] and en = entry_set_pte [OF t q]
  have "plain M d c m' = plain M d c m" if "user_page M d c m" for c
    unfolding m'_def by (rule plain_flip [OF ok q same _ u that]) (use b(1) enc ea [OF refl] in \<open>simp add: enc_def\<close>)
  with sp show "invisible M d m m'" by (simp add: invisible_def m'_def pte_of_set_pte [OF t q])
  show "enc M d m' b \<longleftrightarrow> enc M d m b \<and> PGROUNDDOWN b \<noteq> PGROUNDDOWN a"
    using b(1) by (auto simp: enc_def m'_def en)
  show "accessed d m' b = accessed d m b" using b(3) ea by (simp add: accessed_def m'_def en)
  show "entry d a m' AND PTE_P \<noteq> 0" using b(2) by (simp add: m'_def en)
qed


text \<open>What decrypting a page and making room for it in the queue gives: \<open>p'\<close> and \<open>m'\<close> after the scan.\<close>

definition fetched :: "vmpar \<Rightarrow> uint \<Rightarrow> mproc \<Rightarrow> vmem \<Rightarrow> mproc \<Rightarrow> vmem \<Rightarrow> uint option \<Rightarrow> bool" where
  "fetched M a p m p' m' victim \<longleftrightarrow>
     invisible M (mp_pgdir p) m m' \<and> slots_shape p' \<and> mp_pgdir p' = mp_pgdir p \<and> runnable p' \<and>
     second_chance (Suc CLOCKSIZE) (accessed (mp_pgdir p) m) a (ring p) = Some (ring p', victim) \<and>
     set (mp_queue p') \<subseteq> insert \<lparr>nd_vpn = a, nd_pte = pte_of (mp_pgdir p) a m\<rparr> (set (mp_queue p)) \<and>
     (\<forall>b. enc M (mp_pgdir p) m' b \<longleftrightarrow> enc M (mp_pgdir p) m b \<and> PGROUNDDOWN b \<noteq> a \<or>
        victim = Some (PGROUNDDOWN b) \<and> user_page M (mp_pgdir p) b m)"

lemma decrypt_then_scan:
  assumes e: "e_ok M" and ws: "ws_ok M p m" and a: "aligned a" "user_page M (mp_pgdir p) a m" "enc M (mp_pgdir p) m a"
    and pte: "pte_of (mp_pgdir p) a m = Some pte"
  shows "\<exists>p' m' victim. fetched M a p m p' m' victim \<and>
    clock_scan M (Suc CLOCKSIZE) a (Some pte)
      (p, flip_page (frame (mp_pgdir p) a m) (set_pte pte ((v_pte m pte OR PTE_P) AND NOT (pte_e M)) m)) = Ok (p', m')"
proof -
  let ?d = "mp_pgdir p"
  define m1 where "m1 = flip_page (frame ?d a m) (set_pte pte ((v_pte m pte OR PTE_P) AND NOT (pte_e M)) m)"
  have ok: "space_ok M ?d m" and run: "runnable p" and sl: "slots_ok M p m" using ws by (simp_all add: ws_ok_def)
  note dec = decrypt_invisible [OF e ok pte a(2,3), folded m1_def]
  have acc: "accessed ?d m1 = accessed ?d m" using dec(3) by (simp add: fun_eq_iff)
  have ne: "ring p \<noteq> []" using ring_advance(3) sl by (simp add: slots_ok_def)
  have len: "length (ring p) = CLOCKSIZE" using sl by (simp add: ring_def slots_ok_def slots_shape_def)
  have "second_chance (Suc CLOCKSIZE) (accessed ?d m1) a (ring p) \<noteq> None" using second_chance_total [OF ne] len by simp
  then obtain r victim where sc: "second_chance (Suc CLOCKSIZE) (accessed ?d m1) a (ring p) = Some (r, victim)" by auto
  have sl1: "slots_ok M p m1" by (rule slots_ok_invisible [OF sl dec(1)])
  obtain p2 m2 where s2: "clock_scan M (Suc CLOCKSIZE) a (Some pte) (p, m1) = Ok (p2, m2)"
      "invisible M ?d m1 m2" "ring p2 = r" "slots_shape p2" "mp_pgdir p2 = ?d" "runnable p2"
      "set (mp_queue p2) \<subseteq> insert \<lparr>nd_vpn = a, nd_pte = Some pte\<rparr> (set (mp_queue p))"
      "\<forall>b. enc M ?d m2 b \<longleftrightarrow> enc M ?d m1 b \<or> victim = Some (PGROUNDDOWN b) \<and> user_page M ?d b m1"
    using clock_scan_refines [OF e invisibleD(1) [OF dec(1)] run sl1 sc, of "Some pte"] by blast
  have pa: "PGROUNDDOWN a = a" using a(1) by simp
  have enc2: "enc M ?d m2 b \<longleftrightarrow> enc M ?d m b \<and> PGROUNDDOWN b \<noteq> a \<or> victim = Some (PGROUNDDOWN b) \<and> user_page M ?d b m" for b
    using s2(8) [rule_format, of b] dec(2) [of b] invisibleD(3) [OF dec(1), of b] unfolding pa by simp
  have "fetched M a p m p2 m2 victim"
    using invisible_trans [OF dec(1) s2(2)] s2(3-7) sc enc2 by (simp add: fetched_def acc pte)
  then show ?thesis using s2(1) unfolding m1_def by blast
qed

text \<open>The queue holds exactly the decrypted pages again.\<close>

lemma fetched_working_set:
  assumes ws: "ws_ok M p m" and a: "aligned a" "user_page M (mp_pgdir p) a m" "enc M (mp_pgdir p) m a"
    and f: "fetched M a p m p' m' victim"
  shows "ws_ok M p' m'" and "a \<in> queued_pages p'" and "\<not> enc M (mp_pgdir p) m' a"
proof -
  let ?d = "mp_pgdir p"
  have sl: "slots_ok M p m" and q: "queued_pages p = cleartext M ?d m" using ws by (simp_all add: ws_ok_def)
  have inv: "invisible M ?d m m'" and sc: "second_chance (Suc CLOCKSIZE) (accessed ?d m) a (ring p) = Some (ring p', victim)"
    and sh: "slots_shape p'" "mp_pgdir p' = ?d" "runnable p'"
    and sub: "set (mp_queue p') \<subseteq> insert \<lparr>nd_vpn = a, nd_pte = pte_of ?d a m\<rparr> (set (mp_queue p))"
    and enc2: "\<And>b. enc M ?d m' b \<longleftrightarrow> enc M ?d m b \<and> PGROUNDDOWN b \<noteq> a \<or> victim = Some (PGROUNDDOWN b) \<and> user_page M ?d b m"
    using f by (simp_all add: fetched_def)
  define x where "x = (case victim of None \<Rightarrow> -1 | Some x \<Rightarrow> x)"
  have a1: "a \<noteq> -1" using not_aligned_minus_one a(1) by blast
  have "a \<notin> queued_pages p" using a q by (simp add: cleartext_def)
  then have notin: "a \<notin> set (ring p)" using a1 by (simp add: queued_pages_def)
  have x: "x \<in> set (ring p)" "mset (ring p') = add_mset a (mset (ring p) - {#x#})"
    using second_chance_result [OF sc, folded x_def, unfolded Let_def] by auto
  have dist: "distinct (filter (\<lambda>v. v \<noteq> -1) (ring p))" using sl by (simp add: slots_ok_def)
  note rep = replaced_slots [OF x(2,1) a1 notin dist]
  have xa: "x \<noteq> a" using x(1) notin by auto
  have ring2: "queued_pages p' = insert a (queued_pages p - {x})" using rep(2) by (simp add: queued_pages_def)
  then show "a \<in> queued_pages p'" by simp
  show "\<not> enc M ?d m' a" using xa a(1) by (auto simp: enc2 x_def split: option.splits)
  have clear2: "cleartext M ?d m' = insert a (cleartext M ?d m - {x})"
  proof (rule set_eqI)
    fix b
    have "victim = Some b \<longleftrightarrow> x = b" if "aligned b"
      using that not_aligned_minus_one by (cases victim) (auto simp: x_def)
    then show "b \<in> cleartext M ?d m' \<longleftrightarrow> b \<in> insert a (cleartext M ?d m - {x})"
      using a xa by (auto simp: cleartext_def enc2 invisibleD(3) [OF inv])
  qed
  have nodes: "aligned (nd_vpn nd) \<and> user_page M ?d (nd_vpn nd) m' \<and> nd_pte nd = pte_of ?d (nd_vpn nd) m'"
    if nd: "nd \<in> set (mp_queue p')" "nd_vpn nd \<noteq> -1" for nd
  proof (cases "nd = \<lparr>nd_vpn = a, nd_pte = pte_of ?d a m\<rparr>")
    case True
    then show ?thesis using a by (simp add: invisibleD [OF inv])
  next
    case False
    with nd sub have "nd \<in> set (mp_queue p)" by blast
    with nd(2) sl show ?thesis by (simp add: slots_ok_def invisibleD [OF inv])
  qed
  have "slots_ok M p' m'" using sh rep(1) nodes by (simp add: slots_ok_def)
  then show "ws_ok M p' m'" using invisibleD(1) [OF inv] sh ring2 clear2 q by (simp add: ws_ok_def)
qed

lemma working_set_size:
  assumes "ws_ok M p m"
  shows "card (cleartext M (mp_pgdir p) m) \<le> CLOCKSIZE"
proof -
  have s: "slots_shape p" "queued_pages p = cleartext M (mp_pgdir p) m" using assms by (simp_all add: ws_ok_def slots_ok_def)
  have "finite (set (ring p))" "card (set (ring p)) \<le> CLOCKSIZE"
    using card_length [of "ring p"] s(1) by (simp_all add: ring_def slots_shape_def)
  moreover have "cleartext M (mp_pgdir p) m \<subseteq> set (ring p)" unfolding s(2) [symmetric] by (simp add: queued_pages_def)
  ultimately show ?thesis by (metis card_mono order_trans)
qed

text \<open>The handler is the scan; the call of itself at its end finds the page decrypted and does nothing.\<close>

lemma mdecrypt_is_scan:
  assumes a: "a = PGROUNDDOWN va" and ok: "space_ok M (mp_pgdir p) m" and u: "user_page M (mp_pgdir p) a m" "enc M (mp_pgdir p) m a"
    and pte: "pte_of (mp_pgdir p) a m = Some pte" and n: "3 \<le> n"
    and scan: "clock_scan M (Suc CLOCKSIZE) a (Some pte)
      (p, flip_page (frame (mp_pgdir p) a m) (set_pte pte ((v_pte m pte OR PTE_P) AND NOT (pte_e M)) m)) = Ok (p', m')"
    and inv: "invisible M (mp_pgdir p) m m'" and d: "mp_pgdir p' = mp_pgdir p" and clear: "\<not> enc M (mp_pgdir p) m' a"
  shows "mdecrypt M n va (p, m) = Ok (0, p', m')"
proof -
  let ?d = "mp_pgdir p"
  obtain k where "n = 3 + k" using n le_Suc_ex by blast
  then have k: "n = Suc (Suc (Suc k))" by simp
  have fr: "frame ?d a m \<noteq> 0" "frame ?d a m' \<noteq> 0" "user_page M ?d a m'"
    using ok invisibleD(1) [OF inv] u(1) invisibleD(3) [OF inv] unfolding space_ok_def by blast+
  have pte2: "pte_of ?d a m' = Some pte" using pte by (simp add: invisibleD [OF inv])
  then have "v_pte m' pte AND pte_e M = 0" using clear by (simp add: enc_def entry_def)
  then have inner: "mdecrypt M (Suc k) a (p', m') = Ok (-1, p', m')"
    using fr pte2 d by (simp add: a Let_def uva2ka_user [OF pte2 [unfolded a]])
  have "v_pte m pte AND pte_e M \<noteq> 0" using u(2) pte by (simp add: enc_def entry_def)
  moreover have "v_pte m pte AND PTE_P = 0"
  proof -
    have "entry ?d a m AND PTE_P = 0 \<longleftrightarrow> entry ?d a m AND pte_e M \<noteq> 0" using ok u(1) unfolding space_ok_def by blast
    with u(2) pte show ?thesis by (simp add: enc_def entry_def)
  qed
  ultimately show ?thesis
    unfolding k by (subst mdecrypt.simps(2))
      (use fr(1) u(1) pte scan inner in
        \<open>simp add: a [symmetric] Let_def uva2ka_user [OF pte] del: mdecrypt.simps clock_scan.simps\<close>)
qed

text \<open>
  C8: the page fault handler. When the queue holds exactly the decrypted pages and the process touches
  one of its encrypted pages, the handler returns 0; the page is then present and in cleartext, no
  byte the process can read has changed, the queue again holds exactly the decrypted pages, and it is
  the queue the second-chance algorithm gives: the page at the end, the head that had not been accessed
  (if no slot was empty) evicted and encrypted.
\<close>

theorem mdecrypt_restores_page:
  assumes e: "e_ok M" and ws: "ws_ok M p m" and u: "user_page M (mp_pgdir p) va m"
    and enc: "enc M (mp_pgdir p) m va" and n: "3 \<le> n"
  shows "\<exists>p' m' victim. mdecrypt M n va (p, m) = Ok (0, p', m') \<and> ws_ok M p' m' \<and>
    invisible M (mp_pgdir p) m m' \<and> PGROUNDDOWN va \<in> queued_pages p' \<and>
    entry (mp_pgdir p) va m' AND PTE_P \<noteq> 0 \<and> card (cleartext M (mp_pgdir p) m') \<le> CLOCKSIZE \<and>
    second_chance (Suc CLOCKSIZE) (accessed (mp_pgdir p) m) (PGROUNDDOWN va) (ring p) = Some (ring p', victim) \<and>
    (\<forall>b. enc M (mp_pgdir p) m' b \<longleftrightarrow> enc M (mp_pgdir p) m b \<and> PGROUNDDOWN b \<noteq> PGROUNDDOWN va \<or>
       victim = Some (PGROUNDDOWN b) \<and> user_page M (mp_pgdir p) b m)"
proof -
  let ?d = "mp_pgdir p" and ?a = "PGROUNDDOWN va"
  have ok: "space_ok M ?d m" using ws by (simp add: ws_ok_def)
  have a: "aligned ?a" "user_page M ?d ?a m" "enc M ?d m ?a" using u enc by (simp_all add: user_page_def enc_def)
  obtain pte where pte: "pte_of ?d ?a m = Some pte" using user_page_pte [OF a(2)] by blast
  obtain p' m' victim where f: "fetched M ?a p m p' m' victim" and scan: "clock_scan M (Suc CLOCKSIZE) ?a (Some pte)
      (p, flip_page (frame ?d ?a m) (set_pte pte ((v_pte m pte OR PTE_P) AND NOT (pte_e M)) m)) = Ok (p', m')"
    using decrypt_then_scan [OF e ws a pte] by blast
  have inv: "invisible M ?d m m'" and d: "mp_pgdir p' = ?d" using f by (simp_all add: fetched_def)
  note fin = fetched_working_set [OF ws a f]
  have run: "mdecrypt M n va (p, m) = Ok (0, p', m')" by (rule mdecrypt_is_scan [OF refl ok a(2,3) pte n scan inv d fin(3)])
  have "user_page M ?d ?a m'" using a(2) by (simp add: invisibleD(3) [OF inv])
  then have "entry ?d ?a m' AND PTE_P = 0 \<longleftrightarrow> entry ?d ?a m' AND pte_e M \<noteq> 0"
    using invisibleD(1) [OF inv] unfolding space_ok_def by blast
  then have "entry ?d va m' AND PTE_P \<noteq> 0" using fin(3) by (simp add: enc_def)
  then show ?thesis using run fin(1,2) working_set_size [OF fin(1)] f unfolding d fetched_def by blast
qed

end
