(* ===== verification/MemEncDemo.thy ===== *)
theory MemEncDemo
  imports ClockQueue
begin

text \<open>P4: concrete machines. A process with one user page, whose entry is \<open>w\<close>, and an empty queue; the
  bit that marks encrypted pages is \<open>0x200\<close>.\<close>

definition demo_par :: vmpar where
  "demo_par = \<lparr>pte_e = 0x200, kernel_end = 0x80110000, kernel_data = 0x80108000\<rparr>"

definition demo_one :: "uint \<Rightarrow> vmem" where
  "demo_one w = \<lparr>v_pte = (\<lambda>x. if x = 0x80200000 then 0x201007 else if x = 0x80201000 then w else 0),
                 v_byte = (\<lambda>x. 0x41), v_free = []\<rparr>"

definition demo_mproc :: mproc where
  "demo_mproc = \<lparr>mp_sz = 0x1000, mp_pgdir = 0x80200000, mp_kstack = 0x80300000,
                 mp_queue = replicate CLOCKSIZE \<lparr>nd_vpn = -1, nd_pte = None\<rparr>, mp_index = -1\<rparr>"

lemma demo_e_ok: "e_ok demo_par"
  by (simp add: e_ok_def demo_par_def PTE_P_def PTE_W_def PTE_U_def PTE_A_def)

lemma PDX_zero: "4 * PDX a = 0 \<longleftrightarrow> PDX a = 0" "4 * PTX a = 0 \<longleftrightarrow> PTX a = 0"
  using index_inj [of "drop_bit 22 a" 0] index_inj [of "drop_bit 12 a" 0] by (simp_all add: PDX_def PTX_def)

lemma demo_aligned: "aligned 0x80200000" "aligned 0x80201000"
  by (simp_all add: aligned_def)

lemma demo_pde: "pde_of 0x80200000 a (demo_one w) = (if PDX a = 0 then 0x201007 else 0)"
proof -
  have "0x80200000 + 4 * PDX a = 0x80200000 + 0 \<longleftrightarrow> PDX a = 0" using PDX_zero by simp
  moreover have "0x80200000 + 4 * PDX a \<noteq> 0x80201000 + 0"
    using page_offset_inj [OF demo_aligned, of "4 * PDX a" 0] by simp
  ultimately show ?thesis by (simp add: pde_of_def demo_one_def)
qed

lemma demo_pte_of: "pte_of 0x80200000 a (demo_one w) = (if PDX a = 0 then Some (0x80201000 + 4 * PTX a) else None)"
  by (simp add: pte_of_eq demo_pde PTE_P_def PTE_ADDR_def P2V_def KERNBASE_def)

lemma demo_entry: "entry 0x80200000 a (demo_one w) = (if PGROUNDDOWN a = 0 then w else 0)"
proof -
  have z: "PDX a = 0 \<and> PTX a = 0 \<longleftrightarrow> PGROUNDDOWN a = 0"
    using page_indices [of a 0] by (simp add: PDX_def PTX_def PGROUNDDOWN_def)
  have "0x80201000 + 4 * PTX a = 0x80201000 + 0 \<longleftrightarrow> PTX a = 0" using PDX_zero by simp
  moreover have "0x80201000 + 4 * PTX a \<noteq> 0x80200000 + 0"
    using page_offset_inj [OF demo_aligned(2,1), of "4 * PTX a" 0] by simp
  ultimately have "v_pte (demo_one w) (0x80201000 + 4 * PTX a) = (if PTX a = 0 then w else 0)"
    by (simp add: demo_one_def)
  then show ?thesis using z by (auto simp: entry_def demo_pte_of)
qed

lemma demo_tables: "tables_ok 0x80200000 (demo_one w)"
  using demo_aligned by (auto simp: tables_ok_def demo_pde PTE_P_def PTE_ADDR_def P2V_def KERNBASE_def)

lemma demo_user: "user_page demo_par 0x80200000 a (demo_one w) \<longleftrightarrow>
    PGROUNDDOWN a = 0 \<and> in_use demo_par w \<and> w AND PTE_U \<noteq> 0"
  by (simp add: user_page_def demo_entry in_use_def)

lemma demo_space:
  assumes "w = 0x202007 \<or> w = 0x202206"
  shows "space_ok demo_par 0x80200000 (demo_one w)"
proof -
  have "PTE_ADDR w = 0x202000" "w AND PTE_P = 0 \<longleftrightarrow> w AND pte_e demo_par \<noteq> 0"
    using assms by (auto simp: PTE_ADDR_def PTE_P_def demo_par_def)
  then show ?thesis
    by (auto simp: space_ok_def demo_tables demo_user demo_entry frame_def P2V_def KERNBASE_def)
qed

lemma demo_ring: "ring demo_mproc = replicate CLOCKSIZE (-1)"
  by (simp add: ring_def demo_mproc_def rotate_def)

lemma rep: "replicate CLOCKSIZE x = x # replicate 127 x"
  using replicate_Suc [of 127 x] by (simp add: CLOCKSIZE_def)

lemma demo_slots: "slots_ok demo_par demo_mproc m"
  unfolding slots_ok_def demo_ring by (auto simp: slots_shape_def demo_mproc_def CLOCKSIZE_def)

theorem mencrypt_encrypts_range_witness:
  "\<exists>m'. mencrypt demo_par 0x10 1 (demo_mproc, demo_one 0x202007) = Ok (0, demo_mproc, m') \<and>
     enc demo_par 0x80200000 m' 0x10 \<and> plain demo_par 0x80200000 0x10 m' = 0x41"
proof -
  let ?p = demo_mproc and ?m = "demo_one 0x202007"
  have p: "mp_pgdir ?p = 0x80200000" by (simp add: demo_mproc_def)
  have 1: "space_ok demo_par (mp_pgdir ?p) ?m" "runnable ?p" "0 < sint (1 :: int32)"
    using demo_space by (simp_all add: p) (simp add: runnable_def demo_mproc_def)
  have g: "PGROUNDDOWN 0x10 = 0" "PGROUNDDOWN 0 = 0" by (simp_all add: PGROUNDDOWN_def)
  have us: "user_page demo_par 0x80200000 b ?m \<longleftrightarrow> PGROUNDDOWN b = 0" for b
    unfolding demo_user by (simp add: in_use_def demo_par_def PTE_P_def PTE_U_def)
  have 2: "\<forall>i<nat (sint (1 :: int32)). user_page demo_par (mp_pgdir ?p) (PGROUNDDOWN 0x10 + of_nat i * 4096) ?m"
    by (simp add: p us g)
  obtain m' where m': "mencrypt demo_par 0x10 1 (?p, ?m) = Ok (0, ?p, m')" "invisible demo_par 0x80200000 ?m m'"
    "\<forall>i<nat (sint (1 :: int32)). enc demo_par 0x80200000 m' (PGROUNDDOWN 0x10 + of_nat i * 4096)"
    using mencrypt_encrypts_range [OF demo_e_ok 1 2] unfolding p by blast
  have "plain demo_par 0x80200000 0x10 ?m = 0x41"
    by (simp add: plain_def demo_entry g demo_par_def) (simp add: demo_one_def)
  with m'(2) us g have "plain demo_par 0x80200000 0x10 m' = 0x41" by (simp add: invisible_def)
  moreover have "enc demo_par 0x80200000 m' 0x10"
    using m'(3) by (simp add: g enc_def entry_page [where a = "0x10" and b = 0])
  ultimately show ?thesis using m'(1) by blast
qed

theorem mdecrypt_restores_page_witness:
  "\<exists>p' m'. mdecrypt demo_par 3 0x10 (demo_mproc, demo_one 0x202206) = Ok (0, p', m') \<and>
     queued_pages p' = {0} \<and> \<not> enc demo_par 0x80200000 m' 0x10"
proof -
  let ?p = demo_mproc and ?m = "demo_one 0x202206"
  have p: "mp_pgdir ?p = 0x80200000" by (simp add: demo_mproc_def)
  have g: "PGROUNDDOWN 0x10 = 0" by (simp add: PGROUNDDOWN_def)
  have en: "enc demo_par 0x80200000 ?m b \<longleftrightarrow> PGROUNDDOWN b = 0" for b
    by (simp add: enc_def demo_entry demo_par_def)
  have us: "user_page demo_par 0x80200000 b ?m \<longleftrightarrow> PGROUNDDOWN b = 0" for b
    unfolding demo_user by (simp add: in_use_def demo_par_def PTE_P_def PTE_U_def)
  have "cleartext demo_par 0x80200000 ?m = {}" by (auto simp: cleartext_def en us)
  moreover have "queued_pages ?p = {}" by (auto simp: queued_pages_def demo_ring)
  ultimately have ws: "ws_ok demo_par ?p ?m"
    using demo_space demo_slots by (auto simp: ws_ok_def p) (simp add: runnable_def demo_mproc_def)
  have u: "user_page demo_par (mp_pgdir ?p) 0x10 ?m" "enc demo_par (mp_pgdir ?p) ?m 0x10"
    by (simp_all add: p us en g)
  obtain p' m' victim where r: "mdecrypt demo_par 3 0x10 (?p, ?m) = Ok (0, p', m')" "ws_ok demo_par p' m'"
    "second_chance (Suc CLOCKSIZE) (accessed 0x80200000 ?m) 0 (ring ?p) = Some (ring p', victim)"
    "\<forall>b. enc demo_par 0x80200000 m' b \<longleftrightarrow> enc demo_par 0x80200000 ?m b \<and> PGROUNDDOWN b \<noteq> 0 \<or>
       victim = Some (PGROUNDDOWN b) \<and> user_page demo_par 0x80200000 b ?m"
    using mdecrypt_restores_page [OF demo_e_ok ws u le_refl] unfolding p g by blast
  have "ring p' = replicate 127 (-1) @ [0]" "victim = None"
    using r(3) unfolding demo_ring rep second_chance.simps by simp_all
  then have "queued_pages p' = {0}" "\<not> enc demo_par 0x80200000 m' 0x10"
    using r(4) by (auto simp: queued_pages_def en g)
  with r(1) show ?thesis by blast
qed

end
