(* ===== verification/ExecThm.thy ===== *)
theory ExecThm
  imports Exec MemEncDemo
begin

text \<open>
  P4, \<open>exec.c\<close>: the stack that \<open>main\<close> finds. The stack page is the bytes of its frame; strings and words are put below one
  another, and everything fits when the sizes of the strings, rounded up to words, and the words of \<open>ustack\<close> are a page.
\<close>

section \<open>The bytes of a page\<close>

definition page_bytes :: "uint \<Rightarrow> vmem \<Rightarrow> byte list" where
  "page_bytes ka m = map (\<lambda>i. v_byte m (ka + of_nat i)) [0..<4096]"

lemma length_page_bytes [simp]: "length (page_bytes ka m) = 4096"
  by (simp add: page_bytes_def)

lemma nth_page_bytes: "i < 4096 \<Longrightarrow> page_bytes ka m ! i = v_byte m (ka + of_nat i)"
  by (simp add: page_bytes_def)

lemma unat_of_nat_below: "n < 4294967296 \<Longrightarrow> unat (of_nat n :: uint) = n"
  by (simp add: unsigned_of_nat take_bit_nat_eq_self)

lemma store_page:
  assumes "o' + length xs \<le> 4096"
  shows "page_bytes ka (store_bytes (ka + of_nat o') xs m) = put_bytes o' xs (page_bytes ka m)"
proof (rule nth_equalityI)
  show "length (page_bytes ka (store_bytes (ka + of_nat o') xs m)) = length (put_bytes o' xs (page_bytes ka m))"
    using assms by (simp add: length_put_bytes)
  fix i
  assume "i < length (page_bytes ka (store_bytes (ka + of_nat o') xs m))"
  then have i: "i < 4096" by simp
  have d: "ka + of_nat i - (ka + of_nat o') = of_nat i - (of_nat o' :: uint)" by simp
  have "unat (of_nat i - (of_nat o' :: uint)) < length xs \<longleftrightarrow> o' \<le> i \<and> i < o' + length xs"
  proof (cases "o' \<le> i")
    case True
    then have "of_nat i - (of_nat o' :: uint) = of_nat (i - o')" by (simp add: of_nat_diff)
    then show ?thesis using True i unat_of_nat_below [of "i - o'"] by auto
  next
    case False
    have "(of_nat i :: uint) - of_nat o' = - of_nat (o' - i)" using False by (simp add: of_nat_diff)
    moreover have "- (of_nat (o' - i) :: uint) = of_nat (4294967296 - (o' - i))" using False assms by (simp add: of_nat_diff)
    then have "unat (- (of_nat (o' - i) :: uint)) = 4294967296 - (o' - i)" using False by (simp only:) (rule unat_of_nat_below, simp)
    ultimately show ?thesis using False assms i by simp
  qed
  moreover have "unat (of_nat i - (of_nat o' :: uint)) = i - o'" if "o' \<le> i"
    using that i unat_of_nat_below [of "i - o'"] by (simp add: of_nat_diff)
  ultimately show "page_bytes ka (store_bytes (ka + of_nat o') xs m) ! i = put_bytes o' xs (page_bytes ka m) ! i"
    using i assms by (auto simp: nth_page_bytes store_bytes_def nth_put_bytes)
qed

lemma store_nothing: "store_bytes a [] m = m"
  by (simp add: store_bytes_def)

lemma uva2ka_store: "uva2ka M pgdir a (store_bytes d xs m) = uva2ka M pgdir a m"
  by (simp add: uva2ka_def pte_of_def walkpgdir_def store_bytes_def Let_def)

text \<open>Bytes inside one page that is mapped.\<close>

lemma copyout_page:
  assumes b: "aligned base" and u: "uva2ka M pgdir base m = Ok ka" "ka \<noteq> 0" and f: "o' + length xs \<le> 4096"
  shows "copyout_bytes M pgdir (base + of_nat o') xs m = Ok (0, store_bytes (ka + of_nat o') xs m)"
proof (cases "xs = []")
  case True
  then show ?thesis by (simp add: copyout_bytes.simps [of M pgdir _ "[]"] store_nothing)
next
  case False
  then have o: "o' < 4096" using f by (cases xs) auto
  then have "unat (of_nat o' :: uint) < 4096" by (simp add: unat_of_nat_below)
  then have p: "PGROUNDDOWN (base + of_nat o') = base" by (rule pgrounddown_offset [OF b])
  have "min (4096 - unat (base + of_nat o' - base)) (length xs) = length xs" using o f by (simp add: unat_of_nat_below)
  then show ?thesis using False u p
    by (subst copyout_bytes.simps) (simp add: Let_def copyout_bytes.simps [of M pgdir _ "[]"])
qed


section \<open>Where the strings go\<close>

definition pad :: "nat \<Rightarrow> nat" where "pad n = (n + 3) div 4 * 4"

text \<open>The offsets of the strings, the first one highest, and the offset below the last.\<close>

fun string_offs :: "nat \<Rightarrow> byte list list \<Rightarrow> nat list" where
  "string_offs o' [] = []"
| "string_offs o' (s # ss) = (o' - pad (length s + 1)) # string_offs (o' - pad (length s + 1)) ss"

definition room_for :: "byte list list \<Rightarrow> nat" where
  "room_for ss = sum_list (map (\<lambda>s. pad (length s + 1)) ss)"

fun put_strings :: "nat \<Rightarrow> byte list list \<Rightarrow> byte list \<Rightarrow> byte list" where
  "put_strings o' [] d = d"
| "put_strings o' (s # ss) d = put_strings (o' - pad (length s + 1)) ss (put_bytes (o' - pad (length s + 1)) (s @ [0]) d)"

lemma pad_le: "n \<le> pad n"
  unfolding pad_def by linarith

lemma pad_dvd: "4 dvd pad n"
  by (simp add: pad_def)

lemma and_not_3: "unat (a AND NOT 3 :: uint) = unat a div 4 * 4"
proof -
  have three: "(3 :: uint) = mask 2" by (simp add: mask_eq_exp_minus_1)
  have "a AND NOT 3 = push_bit 2 (drop_bit 2 a)"
  proof (unfold three, rule bit_word_eqI)
    fix n
    have "2 \<le> n \<Longrightarrow> Suc (Suc (n - 2)) = n" by simp
    then show "bit (a AND NOT (mask 2)) n = bit (push_bit 2 (drop_bit 2 a)) n" by (auto simp: bit_simps not_less)
  qed
  moreover have "unat (push_bit 2 (drop_bit 2 a)) = unat a div 4 * 4"
  proof -
    have "unat a div 4 * 4 \<le> unat a" by simp
    then have "unat a div 4 * 4 < 4294967296" using unat_uint_less [of a] by linarith
    then show ?thesis by (simp add: push_bit_eq_mult unat_word_ariths unat_drop_bit_eq drop_bit_eq_div)
  qed
  ultimately show ?thesis by simp
qed

lemma sp_down:
  assumes b: "aligned base" and o: "4 dvd o'" "o' \<le> 4096" and n: "pad (n + 1) \<le> o'"
  shows "(base + of_nat o' - (of_nat n + 1)) AND NOT 3 = base + of_nat (o' - pad (n + 1))"
proof (rule word_unat_eq_iff [THEN iffD2])
  have le: "n + 1 \<le> o'" using n pad_le [of "n + 1"] by linarith
  have top: "unat base + 4096 \<le> 2 ^ 32" by (rule aligned_top [OF b])
  have eq: "base + of_nat o' - (of_nat n + 1) = base + of_nat (o' - (n + 1))" using le by (simp add: of_nat_diff)
  have "o' - (n + 1) < 4096" using o(2) le by linarith
  then have "unat (base + of_nat (o' - (n + 1))) = unat base + (o' - (n + 1))"
    using unat_page_offset [OF b, of "of_nat (o' - (n + 1))"] by (simp add: unat_of_nat_below)
  then have u: "unat (base + of_nat o' - (of_nat n + 1)) = unat base + (o' - (n + 1))" unfolding eq .
  have v: "unat (base + of_nat (o' - pad (n + 1))) = unat base + (o' - pad (n + 1))"
  proof -
    have "o' - pad (n + 1) < 4096" using o(2) pad_le [of "n + 1"] le n by linarith
    then show ?thesis using unat_page_offset [OF b, of "of_nat (o' - pad (n + 1))"] by (simp add: unat_of_nat_below)
  qed
  obtain q where q: "o' = 4 * q" using o(1) by blast
  obtain k where k: "unat base = 4096 * k" using b unfolding aligned_def by blast
  define t where "t = (n + 1 + 3) div 4"
  have t: "pad (n + 1) = 4 * t" "4 * t \<le> n + 4" "n + 1 \<le> 4 * t" by (simp_all add: pad_def t_def)
  have "4 * t \<le> 4 * q" using n t(1) q by simp
  then have "unat base + (o' - (n + 1)) = 4 * (1024 * k + q - t) + (4 * t - (n + 1))" using q k t(3) by (simp add: diff_mult_distrib2)
  moreover have "4 * t - (n + 1) < 4" using t by linarith
  ultimately have "(unat base + (o' - (n + 1))) div 4 * 4 = 4 * (1024 * k + q - t)" by simp
  also have "\<dots> = unat base + (o' - pad (n + 1))" using q k t(1) \<open>4 * t \<le> 4 * q\<close> by (simp add: diff_mult_distrib2)
  finally have "(unat base + (o' - (n + 1))) div 4 * 4 = unat base + (o' - pad (n + 1))" .
  then show "unat ((base + of_nat o' - (of_nat n + 1)) AND NOT 3) = unat (base + of_nat (o' - pad (n + 1)))"
    unfolding and_not_3 u v .
qed

lemma push_strings_page:
  assumes b: "aligned base" and u: "ka \<noteq> 0"
  shows "4 dvd o' \<Longrightarrow> o' \<le> 4096 \<Longrightarrow> room_for ss \<le> o' \<Longrightarrow> argc + length ss \<le> MAXARG \<Longrightarrow> uva2ka M pgdir base m = Ok ka \<Longrightarrow>
    \<exists>m'. push_strings M pgdir ss argc (base + of_nat o') m =
        Ok (Some (base + of_nat (o' - room_for ss), map (\<lambda>i. base + of_nat i) (string_offs o' ss)), m') \<and>
      uva2ka M pgdir base m' = Ok ka \<and> page_bytes ka m' = put_strings o' ss (page_bytes ka m)"
proof (induction ss arbitrary: argc o' m)
  case Nil
  then show ?case by (simp add: room_for_def)
next
  case (Cons s ss)
  define p where "p = pad (length s + 1)"
  have p: "p \<le> o'" "length s + 1 \<le> p" "4 dvd p" "room_for ss \<le> o' - p"
    using Cons.prems(3) pad_le [of "length s + 1"] pad_dvd by (auto simp: room_for_def p_def)
  have sp: "(base + of_nat o' - (of_nat (length s) + 1)) AND NOT 3 = base + of_nat (o' - p)"
    using sp_down [OF b Cons.prems(1,2)] p(1) by (simp add: p_def)
  have c: "copyout_bytes M pgdir (base + of_nat (o' - p)) (s @ [0]) m = Ok (0, store_bytes (ka + of_nat (o' - p)) (s @ [0]) m)"
    by (rule copyout_page [OF b Cons.prems(5) u]) (use p Cons.prems(2) in simp)
  define m1 where "m1 = store_bytes (ka + of_nat (o' - p)) (s @ [0]) m"
  have m1: "uva2ka M pgdir base m1 = Ok ka" "page_bytes ka m1 = put_bytes (o' - p) (s @ [0]) (page_bytes ka m)"
    using Cons.prems(5) store_page [of "o' - p" "s @ [0]" ka m] p Cons.prems(2) by (simp_all add: m1_def uva2ka_store)
  have "4 dvd o' - p" using Cons.prems(1) p(3) by (rule dvd_diff_nat)
  moreover have "o' - p \<le> 4096" using Cons.prems(2) by simp
  ultimately obtain m' where m': "push_strings M pgdir ss (argc + 1) (base + of_nat (o' - p)) m1 =
        Ok (Some (base + of_nat (o' - p - room_for ss), map (\<lambda>i. base + of_nat i) (string_offs (o' - p) ss)), m')"
      "uva2ka M pgdir base m' = Ok ka" "page_bytes ka m' = put_strings (o' - p) ss (page_bytes ka m1)"
    using Cons.IH [of "o' - p" "argc + 1" m1] Cons.prems(4) p(4) m1(1) by auto
  have r: "room_for (s # ss) = p + room_for ss" by (simp add: room_for_def p_def)
  have step: "push_strings M pgdir (s # ss) argc (base + of_nat o') m =
      rbind (push_strings M pgdir ss (argc + 1) (base + of_nat (o' - p)) m1) (\<lambda>(t, m).
        Ok (map_option (\<lambda>(sp', us). (sp', (base + of_nat (o' - p)) # us)) t, m))"
    unfolding push_strings.simps Let_def sp c m1_def [symmetric] using Cons.prems(4) by simp
  have pS: "pad (Suc (length s)) = p" by (simp add: p_def)
  show ?case unfolding r step using m' m1(2) by (intro exI [of _ m']) (simp add: pS)
qed


section \<open>The words below\<close>

lemma length_words: "length (concat (map bytes32 ws)) = 4 * length ws"
  by (induction ws) simp_all

lemma nth_words: "i < length ws \<Longrightarrow> j < 4 \<Longrightarrow> concat (map bytes32 ws) ! (4 * i + j) = bytes32 (ws ! i) ! j"
proof (induction ws arbitrary: i)
  case (Cons w ws)
  then show ?case by (cases i) (simp_all add: nth_append)
qed simp

lemma le32_words:
  assumes "i < length ws" and "e + 4 * length ws \<le> length d"
  shows "le32 (put_bytes e (concat (map bytes32 ws)) d) (e + 4 * i) = ws ! i"
proof (rule le32_bytes32)
  have "put_bytes e (concat (map bytes32 ws)) d ! (e + 4 * i + j) = bytes32 (ws ! i) ! j" if "j < 4" for j
    using assms that nth_words [of i ws j] by (simp add: nth_put_bytes length_words)
  from this [of 0] this [of 1] this [of 2] this [of 3]
  show "put_bytes e (concat (map bytes32 ws)) d ! (e + 4 * i) = bytes32 (ws ! i) ! 0"
    "put_bytes e (concat (map bytes32 ws)) d ! (e + 4 * i + 1) = bytes32 (ws ! i) ! 1"
    "put_bytes e (concat (map bytes32 ws)) d ! (e + 4 * i + 2) = bytes32 (ws ! i) ! 2"
    "put_bytes e (concat (map bytes32 ws)) d ! (e + 4 * i + 3) = bytes32 (ws ! i) ! 3" by simp_all
qed

text \<open>A string that has been put stays: what follows goes below it.\<close>

lemma length_put_strings: "room_for ss \<le> o' \<Longrightarrow> o' \<le> length d \<Longrightarrow> length (put_strings o' ss d) = length d"
proof (induction ss arbitrary: o' d)
  case (Cons s ss)
  have p: "length s + 1 \<le> pad (length s + 1)" "pad (length s + 1) + room_for ss \<le> o'"
    using Cons.prems(1) pad_le [of "length s + 1"] by (simp_all add: room_for_def)
  then show ?case using Cons by (simp add: length_put_bytes)
qed simp

lemma put_strings_above:
  "room_for ss \<le> o' \<Longrightarrow> o' \<le> length d \<Longrightarrow> o' \<le> i \<Longrightarrow> i < length d \<Longrightarrow> put_strings o' ss d ! i = d ! i"
proof (induction ss arbitrary: o' d)
  case (Cons s ss)
  have p: "length s + 1 \<le> pad (length s + 1)" "pad (length s + 1) + room_for ss \<le> o'"
    using Cons.prems(1) pad_le [of "length s + 1"] by (simp_all add: room_for_def)
  define q where "q = o' - pad (length s + 1)"
  have q: "q + length (s @ [0]) \<le> o'" "room_for ss \<le> q" "q \<le> o'" using p by (simp_all add: q_def)
  define d1 where "d1 = put_bytes q (s @ [0]) d"
  have "length d1 = length d" using q(1) Cons.prems(2) by (simp add: d1_def length_put_bytes)
  then have "put_strings q ss d1 ! i = d1 ! i" using Cons.IH [of q d1] q Cons.prems by simp
  also have "d1 ! i = d ! i" using q(1) Cons.prems by (simp add: d1_def nth_put_bytes)
  finally show ?case by (simp add: q_def d1_def)
qed simp

lemma length_string_offs [simp]: "length (string_offs o' ss) = length ss"
  by (induction ss arbitrary: o') simp_all

lemma string_offs_bounds:
  "room_for ss \<le> o' \<Longrightarrow> i < length ss \<Longrightarrow>
   o' - room_for ss \<le> string_offs o' ss ! i \<and> string_offs o' ss ! i + length (ss ! i) + 1 \<le> o'"
proof (induction ss arbitrary: o' i)
  case (Cons s ss)
  have p: "length s + 1 \<le> pad (length s + 1)" "pad (length s + 1) + room_for ss \<le> o'" "room_for (s # ss) = pad (length s + 1) + room_for ss"
    using Cons.prems(1) pad_le [of "length s + 1"] by (simp_all add: room_for_def)
  show ?case
  proof (cases i)
    case 0
    have "o' - pad (length s + 1) + length s + 1 \<le> o'" using p(1,2) by linarith
    then show ?thesis using 0 p(2,3) by simp
  next
    case (Suc k)
    then have "o' - pad (length s + 1) - room_for ss \<le> string_offs (o' - pad (length s + 1)) ss ! k"
      "string_offs (o' - pad (length s + 1)) ss ! k + length (ss ! k) + 1 \<le> o' - pad (length s + 1)"
      using Cons.IH [of "o' - pad (length s + 1)" k] Cons.prems(2) p(2) by simp_all
    then have "o' - room_for (s # ss) \<le> string_offs (o' - pad (length s + 1)) ss ! k"
      "string_offs (o' - pad (length s + 1)) ss ! k + length (ss ! k) + 1 \<le> o'" using p(2,3) by linarith+
    then show ?thesis using Suc by simp
  qed
qed simp

lemma put_strings_string:
  "room_for ss \<le> o' \<Longrightarrow> o' \<le> length d \<Longrightarrow> i < length ss \<Longrightarrow> j \<le> length (ss ! i) \<Longrightarrow>
   put_strings o' ss d ! (string_offs o' ss ! i + j) = (ss ! i @ [0]) ! j"
proof (induction ss arbitrary: o' d i)
  case (Cons s ss)
  define q where "q = o' - pad (length s + 1)"
  have p: "length s + 1 \<le> pad (length s + 1)" "pad (length s + 1) + room_for ss \<le> o'"
    using Cons.prems(1) pad_le [of "length s + 1"] by (simp_all add: room_for_def)
  then have q: "q + length (s @ [0]) \<le> length d" "room_for ss \<le> q" "q \<le> length d" using Cons.prems(2) by (simp_all add: q_def)
  define d1 where "d1 = put_bytes q (s @ [0]) d"
  have d1: "length d1 = length d" using q(1) by (simp add: d1_def length_put_bytes)
  have step: "put_strings o' (s # ss) d = put_strings q ss d1" "string_offs o' (s # ss) = q # string_offs q ss"
    by (simp_all add: q_def d1_def)
  show ?case
  proof (cases i)
    case 0
    then have "put_strings q ss d1 ! (q + j) = d1 ! (q + j)"
      using Cons.prems(4) q d1 by (intro put_strings_above) simp_all
    then show ?thesis using 0 Cons.prems(4) q unfolding step by (simp add: d1_def nth_put_bytes)
  next
    case (Suc k)
    then show ?thesis using Cons.IH [of q d1 k] Cons.prems(3,4) q d1 unfolding step by simp
  qed
qed simp


section \<open>The stack that main finds\<close>

definition stack_need :: "byte list list \<Rightarrow> nat" where
  "stack_need argv = room_for argv + 4 * (length argv + 4)"

lemma put_words_below:
  "e + length xs \<le> i \<Longrightarrow> e + length xs \<le> length d \<Longrightarrow> i < length d \<Longrightarrow> put_bytes e xs d ! i = d ! i"
  by (simp add: nth_put_bytes)

lemma cstr_prefix: "0 \<notin> set s \<Longrightarrow> \<forall>j \<le> length s. d ! j = (s @ [0]) ! j \<Longrightarrow> length s < length d \<Longrightarrow> cstr d = s"
proof (induction s arbitrary: d)
  case Nil
  then show ?case by (cases d) simp_all
next
  case (Cons c s)
  obtain x d' where d: "d = x # d'" using Cons.prems(3) by (cases d) simp_all
  have "x = c" using Cons.prems(2) [rule_format, of 0] d by simp
  moreover have "cstr d' = s"
  proof (rule Cons.IH)
    show "\<forall>j \<le> length s. d' ! j = (s @ [0]) ! j" using Cons.prems(2) d by (metis Suc_le_mono append_Cons length_Cons nth_Cons_Suc)
  qed (use Cons.prems d in auto)
  ultimately show ?case using d Cons.prems(1) by auto
qed

lemma push_args_page:
  assumes b: "aligned base" and u: "uva2ka M pgdir base m = Ok ka" "ka \<noteq> 0"
    and n: "length argv \<le> MAXARG" "stack_need argv \<le> 4096"
  defines "e \<equiv> 4096 - stack_need argv"
  shows "\<exists>m'. push_args M pgdir argv (base + 4096) m = Ok (Some (base + of_nat e), m') \<and>
    page_bytes ka m' = put_bytes e (concat (map bytes32 ([0xFFFFFFFF, of_nat (length argv), base + of_nat (e + 12)] @
        map (\<lambda>i. base + of_nat i) (string_offs 4096 argv) @ [0]))) (put_strings 4096 argv (page_bytes ka m))"
proof -
  define r where "r = room_for argv"
  have r: "r + 4 * (length argv + 4) \<le> 4096" "e + 4 * (length argv + 4) = 4096 - r" "r \<le> 4096"
    using n(2) by (simp_all add: e_def stack_need_def r_def)
  obtain m1 where m1: "push_strings M pgdir argv 0 (base + of_nat 4096) m =
      Ok (Some (base + of_nat (4096 - r), map (\<lambda>i. base + of_nat i) (string_offs 4096 argv)), m1)"
      "uva2ka M pgdir base m1 = Ok ka" "page_bytes ka m1 = put_strings 4096 argv (page_bytes ka m)"
    using push_strings_page [OF b u(2), of 4096 argv 0 M pgdir m] n(1) r(3) u(1) by (auto simp: r_def)
  define us where "us = map (\<lambda>i. base + of_nat i) (string_offs 4096 argv)"
  have us: "length us = length argv" by (simp add: us_def)
  have sp: "base + of_nat (4096 - r) = base + of_nat e + (of_nat (length argv) + 4) * (4 :: uint)"
  proof -
    have "(of_nat (4096 - r) :: uint) = of_nat (e + 4 * (length argv + 4))" using r(2) by simp
    then show ?thesis by (simp add: algebra_simps)
  qed
  have ust: "ustack_of (base + of_nat (4096 - r)) us = [0xFFFFFFFF, of_nat (length argv), base + of_nat (e + 12)] @ us @ [0]"
    unfolding ustack_of_def sp us by (simp add: algebra_simps)
  have esp: "base + of_nat (4096 - r) - (3 + of_nat (length us) + 1) * 4 = base + of_nat e" unfolding sp us by (simp add: algebra_simps)
  define ws where "ws = [0xFFFFFFFF, of_nat (length argv), base + of_nat (e + 12)] @ us @ [0 :: uint]"
  have len: "e + length (concat (map bytes32 ws)) \<le> 4096" using r us by (simp add: length_words ws_def)
  have "copyout_bytes M pgdir (base + of_nat e) (concat (map bytes32 ws)) m1 = Ok (0, store_bytes (ka + of_nat e) (concat (map bytes32 ws)) m1)"
    by (rule copyout_page [OF b m1(2) u(2) len])
  moreover have "push_args M pgdir argv (base + 4096) m =
      rbind (copyout_bytes M pgdir (base + of_nat (4096 - r) - (3 + of_nat (length us) + 1) * 4)
        (concat (map bytes32 (ustack_of (base + of_nat (4096 - r)) us))) m1)
        (\<lambda>(x, m). Ok (if x < 0 then None else Some (base + of_nat (4096 - r) - (3 + of_nat (length us) + 1) * 4), m))"
    unfolding push_args_def m1(1) [unfolded of_nat_numeral] us_def [symmetric] rbind.simps prod.case option.case Let_def ..
  ultimately have "push_args M pgdir argv (base + 4096) m = Ok (Some (base + of_nat e), store_bytes (ka + of_nat e) (concat (map bytes32 ws)) m1)"
    unfolding ust esp ws_def [symmetric] by simp
  moreover have "page_bytes ka (store_bytes (ka + of_nat e) (concat (map bytes32 ws)) m1) =
      put_bytes e (concat (map bytes32 ws)) (put_strings 4096 argv (page_bytes ka m))"
    using store_page [OF len] m1(3) by simp
  ultimately show ?thesis unfolding ws_def us_def by blast
qed


text \<open>Under the words every string of \<open>argv\<close> can be read at its offset.\<close>

lemma string_above_words:
  assumes "stack_need argv \<le> 4096" and "4 * length ws = 4 * (length argv + 4)" and "0 \<notin> set (argv ! i)" and i: "i < length argv"
    and d: "length d = 4096"
  defines "q \<equiv> string_offs 4096 argv ! i"
  shows "q < 4096" and "cstr (drop q (put_bytes (4096 - stack_need argv) (concat (map bytes32 ws)) (put_strings 4096 argv d))) = argv ! i"
proof -
  define page where "page = put_bytes (4096 - stack_need argv) (concat (map bytes32 ws)) (put_strings 4096 argv d)"
  have room: "room_for argv \<le> 4096" "4096 - stack_need argv + 4 * length ws = 4096 - room_for argv"
    using assms(1,2) by (simp_all add: stack_need_def)
  have old: "length (put_strings 4096 argv d) = 4096" using room(1) d by (simp add: length_put_strings)
  have len: "length page = 4096" unfolding page_def using room old by (simp add: length_put_bytes length_words)
  have q: "4096 - room_for argv \<le> q" "q + length (argv ! i) + 1 \<le> 4096"
    using string_offs_bounds [OF room(1) i] by (simp_all add: q_def)
  then show "q < 4096" by simp
  have "page ! (q + j) = (argv ! i @ [0]) ! j" if "j \<le> length (argv ! i)" for j
  proof -
    have "page ! (q + j) = put_strings 4096 argv d ! (q + j)"
      unfolding page_def by (rule put_words_below) (use q room(2) old that in \<open>simp_all add: length_words\<close>)
    then show ?thesis using put_strings_string [of argv 4096 d i j] room(1) d i that by (simp add: q_def)
  qed
  then show "cstr (drop q (put_bytes (4096 - stack_need argv) (concat (map bytes32 ws)) (put_strings 4096 argv d))) = argv ! i"
    unfolding page_def [symmetric] using q(2) assms(3) len by (intro cstr_prefix) simp_all
qed

text \<open>
  C13: \<open>main\<close> finds its arguments. When the strings of \<open>argv\<close>, each with its terminator and rounded up to a word, and their
  pointers fit into the stack page, the stack pointer is the address of a return address that is no address, \<open>argc\<close>, the
  address of the array, and the array: each pointer in it is the address of its string, and a null pointer is behind the last.
\<close>
theorem main_finds_arguments:
  assumes "aligned base" and "uva2ka M pgdir base m = Ok ka" and "ka \<noteq> 0"
    and "length argv \<le> 32" and "stack_need argv \<le> 4096" and "\<forall>s \<in> set argv. 0 \<notin> set s"
  shows "\<exists>m' e. push_args M pgdir argv (base + 4096) m = Ok (Some (base + of_nat e), m') \<and> e = 4096 - stack_need argv \<and>
    (let page = page_bytes ka m' in
      le32 page e = 0xFFFFFFFF \<and> le32 page (e + 4) = of_nat (length argv) \<and> le32 page (e + 8) = base + of_nat (e + 12) \<and>
      (\<forall>i < length argv. \<exists>q. le32 page (e + 12 + 4 * i) = base + of_nat q \<and> q < 4096 \<and> cstr (drop q page) = argv ! i) \<and>
      le32 page (e + 12 + 4 * length argv) = 0)"
proof -
  define e where "e = 4096 - stack_need argv"
  define ws where "ws = [0xFFFFFFFF, of_nat (length argv), base + of_nat (e + 12)] @ map (\<lambda>i. base + of_nat i) (string_offs 4096 argv) @ [0]"
  define old where "old = put_strings 4096 argv (page_bytes ka m)"
  obtain m' where m': "push_args M pgdir argv (base + 4096) m = Ok (Some (base + of_nat e), m')"
      "page_bytes ka m' = put_bytes e (concat (map bytes32 ws)) old"
    using push_args_page [OF assms(1,2,3) _ assms(5)] assms(4) unfolding e_def ws_def old_def by (auto simp: MAXARG_def)
  have need: "room_for argv + 4 * length argv + 16 \<le> 4096" using assms(5) by (simp add: stack_need_def)
  have lw: "length ws = length argv + 4" by (simp add: ws_def)
  have e: "e + 4 * length ws = 4096 - room_for argv" using need by (simp add: e_def stack_need_def lw)
  have old: "length old = 4096" unfolding old_def using need by (subst length_put_strings) simp_all
  have w: "le32 (page_bytes ka m') (e + 4 * i) = ws ! i" if "i < length argv + 4" for i
    unfolding m'(2) by (rule le32_words) (use that lw old e in simp_all)
  have str: "\<exists>q. ws ! (i + 3) = base + of_nat q \<and> q < 4096 \<and> cstr (drop q (page_bytes ka m')) = argv ! i" if i: "i < length argv" for i
  proof (intro exI conjI)
    show "ws ! (i + 3) = base + of_nat (string_offs 4096 argv ! i)" using i by (simp add: ws_def nth_append numeral_3_eq_3)
    show "string_offs 4096 argv ! i < 4096" "cstr (drop (string_offs 4096 argv ! i) (page_bytes ka m')) = argv ! i"
      unfolding m'(2) old_def e_def using string_above_words [OF assms(5) _ _ i, of ws "page_bytes ka m"] lw assms(6) i by simp_all
  qed
  have "ws ! 0 = 0xFFFFFFFF" "ws ! 1 = of_nat (length argv)" "ws ! 2 = base + of_nat (e + 12)" "ws ! (length argv + 3) = 0"
    by (simp_all add: ws_def nth_append numeral_2_eq_2 numeral_3_eq_3)
  then show ?thesis using w [of 0] w [of 1] w [of 2] w [of "length argv + 3"] w [of "_ + 3"] str m'(1)
    by (intro exI [of _ m'] exI [of _ e]) (simp add: Let_def e_def [symmetric] algebra_simps)
qed


lemma demo_uva2ka: "uva2ka demo_par 0x80200000 0 (demo_one 0x202007) = Ok 0x80202000"
proof -
  have "pte_of 0x80200000 0 (demo_one 0x202007) = Some (0x80201000 + 4 * PTX 0)" by (simp add: demo_pte_of PDX_def)
  moreover have "user_page demo_par 0x80200000 0 (demo_one 0x202007)"
    unfolding demo_user by (simp add: in_use_def demo_par_def PTE_P_def PTE_U_def PGROUNDDOWN_def)
  moreover have "frame 0x80200000 0 (demo_one 0x202007) = 0x80202000"
    by (simp add: frame_def demo_entry PGROUNDDOWN_def PTE_ADDR_def P2V_def KERNBASE_def)
  ultimately show ?thesis by (simp add: uva2ka_user)
qed

theorem main_finds_arguments_witness:
  "\<exists>m'. push_args demo_par 0x80200000 [[0x6C, 0x73], [0x2D, 0x6C]] 0x1000 (demo_one 0x202007) = Ok (Some 4064, m') \<and>
     le32 (page_bytes 0x80202000 m') 4068 = 2 \<and> le32 (page_bytes 0x80202000 m') 4072 = 4076 \<and>
     (\<exists>q. le32 (page_bytes 0x80202000 m') 4080 = of_nat q \<and> cstr (drop q (page_bytes 0x80202000 m')) = [0x2D, 0x6C])"
proof -
  have n: "stack_need [[0x6C, 0x73], [0x2D, 0x6C]] = 32" by (simp add: stack_need_def room_for_def pad_def)
  have a: "aligned 0" by (simp add: aligned_def)
  obtain m' where m': "push_args demo_par 0x80200000 [[0x6C, 0x73], [0x2D, 0x6C]] 0x1000 (demo_one 0x202007) = Ok (Some 4064, m')"
      "le32 (page_bytes 0x80202000 m') 4068 = 2" "le32 (page_bytes 0x80202000 m') 4072 = 4076"
      "\<forall>i < 2. \<exists>q. le32 (page_bytes 0x80202000 m') (4076 + 4 * i) = of_nat q \<and> q < 4096 \<and>
         cstr (drop q (page_bytes 0x80202000 m')) = [[0x6C, 0x73], [0x2D, 0x6C]] ! i"
    using main_finds_arguments [OF a demo_uva2ka, of "[[0x6C, 0x73], [0x2D, 0x6C]]"] unfolding n by (auto simp: Let_def)
  show ?thesis using m'(1,2,3) m'(4) [rule_format, of 1] by auto
qed

text \<open>A call that fails leaves the process as it was.\<close>

lemma exec_fails_unchanged: "exec M file argv (p, m) = Ok (None, p', m') \<Longrightarrow> p' = p"
  by (auto simp: exec_def exec_bad_def rbind_eq_Ok Let_def split: option.splits if_splits prod.splits)

end
