(* ===== verification/Ext2.thy ===== *)
theory Ext2
  imports CLib Bytes
begin

text \<open>
  P5, \<open>read_ext2.c\<close> and \<open>ext2_fs.h\<close>: reading the structures of an ext2 image. The image is the list of
  its bytes, the open file its position. A structure is the bytes that \<open>read\<close> put into it: where the
  image ends early the old bytes stay. \<open>exit\<close> is \<open>Panic\<close> with the message.
\<close>

section \<open>The image\<close>

type_synonym image = "byte list"

definition lseek :: "int \<Rightarrow> nat \<Rightarrow> nat" where
  "lseek off pos = (if off < 0 then pos else nat off)"

text \<open>\<open>read(fd, buf, n)\<close>.\<close>

definition read_fd :: "image \<Rightarrow> nat \<Rightarrow> nat \<Rightarrow> byte list \<Rightarrow> byte list \<times> nat" where
  "read_fd img pos n buf = (let bs = take n (drop pos img) in (bs @ drop (length bs) buf, pos + length bs))"

section \<open>On-disk structures\<close>

record ext2_super_block =
  s_inodes_count :: uint
  s_blocks_count :: uint
  s_first_data_block :: uint
  s_log_block_size :: uint
  s_blocks_per_group :: uint
  s_inodes_per_group :: uint
  s_magic :: "16 word"
  s_first_ino :: uint
  s_inode_size :: "16 word"

definition super_of :: "byte list \<Rightarrow> ext2_super_block" where
  "super_of bs = \<lparr>s_inodes_count = le32 bs 0, s_blocks_count = le32 bs 4, s_first_data_block = le32 bs 20,
     s_log_block_size = le32 bs 24, s_blocks_per_group = le32 bs 32, s_inodes_per_group = le32 bs 40,
     s_magic = le16 bs 56, s_first_ino = le32 bs 84, s_inode_size = le16 bs 88\<rparr>"

record ext2_group_desc =
  bg_block_bitmap :: uint
  bg_inode_bitmap :: uint
  bg_inode_table :: uint
  bg_free_blocks_count :: "16 word"
  bg_free_inodes_count :: "16 word"
  bg_used_dirs_count :: "16 word"

definition group_of :: "byte list \<Rightarrow> ext2_group_desc" where
  "group_of bs = \<lparr>bg_block_bitmap = le32 bs 0, bg_inode_bitmap = le32 bs 4, bg_inode_table = le32 bs 8,
     bg_free_blocks_count = le16 bs 12, bg_free_inodes_count = le16 bs 14, bg_used_dirs_count = le16 bs 16\<rparr>"

record ext2_inode =
  i_mode :: "16 word"
  i_size :: uint
  i_links_count :: "16 word"
  i_block :: "uint list"

definition inode_of :: "byte list \<Rightarrow> ext2_inode" where
  "inode_of bs = \<lparr>i_mode = le16 bs 0, i_size = le32 bs 4, i_links_count = le16 bs 26,
     i_block = map (\<lambda>k. le32 bs (40 + 4 * k)) [0..<15]\<rparr>"

definition EXT2_SUPER_MAGIC :: "16 word" where "EXT2_SUPER_MAGIC = 0xEF53"
definition EXT2_NAME_LEN :: nat where "EXT2_NAME_LEN = 255"
definition BASE_OFFSET :: uint where "BASE_OFFSET = 1024"

section \<open>The globals\<close>

text \<open>\<open>fd_pos\<close> is the position of the open image, \<open>said\<close> what was printed to standard output.\<close>

record ext2 =
  block_size :: uint
  inodes_per_block :: uint
  itable_blocks :: uint
  blocks_per_group :: uint
  num_groups :: uint
  inodes_per_group :: uint
  fd_pos :: nat
  said :: "string list"

definition ext2_start :: ext2 where
  "ext2_start = \<lparr>block_size = 1024, inodes_per_block = 0, itable_blocks = 0, blocks_per_group = 0,
     num_groups = 0, inodes_per_group = 0, fd_pos = 0, said = []\<rparr>"

definition BLOCK_OFFSET :: "uint \<Rightarrow> uint \<Rightarrow> uint" where
  "BLOCK_OFFSET bs block = BASE_OFFSET + (block - 1) * bs"

definition say :: "string \<Rightarrow> ext2 \<Rightarrow> ext2" where
  "say s e = e\<lparr>said := said e @ [s]\<rparr>"

definition seek_read :: "image \<Rightarrow> int \<Rightarrow> nat \<Rightarrow> byte list \<Rightarrow> ext2 \<Rightarrow> byte list \<times> ext2" where
  "seek_read img off n buf e =
     (case read_fd img (lseek off (fd_pos e)) n buf of (b, pos) \<Rightarrow> (b, e\<lparr>fd_pos := pos\<rparr>))"

text \<open>\<open>printf\<close> of a heading and one labelled number per line.\<close>

fun number_lines :: "(string \<times> nat) list \<Rightarrow> string" where
  "number_lines [] = []"
| "number_lines ((label, v) # ls) = label @ '': '' @ c_show_nat v @ [c_newline] @ number_lines ls"

definition not_ext2 :: string where
  "not_ext2 = ''read_super_block: Not a Ext2 filesystem'' @ [c_newline]"

section \<open>Reading the structures\<close>

definition ext2_read_init :: "image \<Rightarrow> byte list \<Rightarrow> ext2 \<Rightarrow> ext2 res" where
  "ext2_read_init img super e =
     (case seek_read img (uint BASE_OFFSET) 1024 super e of (super, e) \<Rightarrow>
      let s = super_of super in
      if s_magic s \<noteq> EXT2_SUPER_MAGIC then Panic not_ext2
      else if s_log_block_size s > 20 \<or> s_blocks_per_group s = 0 then Undef
      else
        let bs = push_bit (unat (s_log_block_size s)) 1024;
            ipb = bs div 128;
            itb = s_inodes_per_group s div ipb;
            bpg = s_blocks_per_group s;
            ng = (s_blocks_count s + bpg - 1) div bpg
        in Ok (say (''Reading first super-block from device: '' @ [c_newline] @
                 number_lines [(''Block size                    '', unat bs), (''number of inodes in a block   '', unat ipb),
                   (''Inode table size in blocks    '', unat itb), (''Blocks per group              '', unat bpg),
                   (''number of block groups        '', unat ng)])
               (e\<lparr>block_size := bs, inodes_per_block := ipb, itable_blocks := itb, blocks_per_group := bpg,
                 num_groups := ng, inodes_per_group := s_inodes_per_group s\<rparr>)))"

text \<open>
  The loops divide as long as it goes without a remainder. The first argument bounds the rounds; a
  loop that has not ended by then does not end (\<open>Hang\<close>): a positive int is divided at most 31 times.
\<close>

fun is_power_loop :: "nat \<Rightarrow> int \<Rightarrow> int \<Rightarrow> bool res" where
  "is_power_loop 0 m n = Hang"
| "is_power_loop (Suc k) m n =
     (if m = 1 then Ok True else if n = 0 then Undef
      else if m mod n \<noteq> 0 then Ok False else is_power_loop k (m div n) n)"

definition isPowerOf :: "int \<Rightarrow> int \<Rightarrow> bool res" where
  "isPowerOf m n = is_power_loop 32 m n"

fun powers_loop :: "nat \<Rightarrow> int \<Rightarrow> int \<Rightarrow> int \<Rightarrow> int res" where
  "powers_loop 0 m n cnt = Hang"
| "powers_loop (Suc k) m n cnt =
     (if m = 1 then Ok cnt else if n = 0 then Undef
      else if m mod n \<noteq> 0 then Ok cnt else powers_loop k (m div n) n (cnt + 1))"

definition powersBelow :: "int \<Rightarrow> int \<Rightarrow> int res" where
  "powersBelow m n = powers_loop 32 m n 0"

definition read_super_block :: "image \<Rightarrow> uint \<Rightarrow> byte list \<Rightarrow> ext2 \<Rightarrow> (int \<times> byte list \<times> ext2) res" where
  "read_super_block img ngroup super e =
     rbind (if ngroup = 0 \<or> ngroup = 1 then Ok False
            else rbind (isPowerOf (sint ngroup) 3) (\<lambda>p3. if p3 then Ok False
            else rbind (isPowerOf (sint ngroup) 5) (\<lambda>p5. if p5 then Ok False
            else rbind (isPowerOf (sint ngroup) 7) (\<lambda>p7. Ok (\<not> p7)))))
      (\<lambda>none. if none then Ok (-1, super, say ''this block does not contain a super block copy'' e)
       else
         case seek_read img (uint (BASE_OFFSET + BLOCK_OFFSET (block_size e) (blocks_per_group e * ngroup))) 1024 super e of
           (super, e) \<Rightarrow>
         let s = super_of super in
         if s_magic s \<noteq> EXT2_SUPER_MAGIC then Panic not_ext2
         else if s_log_block_size s > 20 then Undef
         else
           let bs = push_bit (unat (s_log_block_size s)) 1024; ipb = bs div 128
           in Ok (0, super, say (''Reading super-block from device: '' @ [c_newline] @
                number_lines [(''Inodes count            '', unat (s_inodes_count s)), (''Blocks count            '', unat (s_blocks_count s)),
                  (''First data block        '', unat (s_first_data_block s)), (''Block size              '', unat bs),
                  (''log2(Block size)        '', unat (s_log_block_size s)), (''Blocks per group        '', unat (s_blocks_per_group s)),
                  (''Inodes per group        '', unat (s_inodes_per_group s)), (''First non-reserved inode'', unat (s_first_ino s)),
                  (''Size of inode structure '', unat (s_inode_size s))])
              (e\<lparr>block_size := bs, inodes_per_block := ipb, itable_blocks := s_inodes_per_group s div ipb\<rparr>)))"

definition read_group_desc :: "image \<Rightarrow> uint \<Rightarrow> byte list \<Rightarrow> ext2 \<Rightarrow> (byte list \<times> ext2) res" where
  "read_group_desc img ngroup gd e =
     rbind (if ngroup = 0 \<or> ngroup = 1 then Ok False
            else rbind (isPowerOf (sint ngroup) 3) (\<lambda>p3. if \<not> p3 then Ok False
            else rbind (isPowerOf (sint ngroup) 5) (\<lambda>p5. if \<not> p5 then Ok False
            else isPowerOf (sint ngroup) 7)))
      (\<lambda>first.
       let start = BASE_OFFSET + BLOCK_OFFSET (block_size e) (blocks_per_group e * ngroup) in
       case seek_read img (uint (if first then start else start + block_size e)) 32 gd e of
         (gd, e) \<Rightarrow>
       let g = group_of gd
       in Ok (gd, say (''Reading group-descriptor from device:'' @ [c_newline] @
            number_lines [(''Blocks bitmap block'', unat (bg_block_bitmap g)), (''Inodes bitmap block'', unat (bg_inode_bitmap g)),
              (''Inodes table block '', unat (bg_inode_table g)), (''Free blocks count  '', unat (bg_free_blocks_count g)),
              (''Free inodes count  '', unat (bg_free_inodes_count g)), (''Directories count  '', unat (bg_used_dirs_count g))]) e))"

definition locate_inode_table :: "uint \<Rightarrow> ext2_group_desc \<Rightarrow> ext2 \<Rightarrow> uint" where
  "locate_inode_table ngroup g e = BLOCK_OFFSET (block_size e) (bg_inode_table g + blocks_per_group e * ngroup)"

definition locate_data_blocks :: "uint \<Rightarrow> ext2_group_desc \<Rightarrow> ext2 \<Rightarrow> uint" where
  "locate_data_blocks ngroup g e =
     BLOCK_OFFSET (block_size e) (bg_inode_table g + itable_blocks e + blocks_per_group e * ngroup)"

text \<open>The offset is computed in 64 bits; a negative one leaves the position where it is.\<close>

definition inode_offset :: "uint \<Rightarrow> uint \<Rightarrow> uint \<Rightarrow> ext2 \<Rightarrow> ulong" where
  "inode_offset ngroup offset inode_no e =
     ucast (BLOCK_OFFSET (block_size e) (blocks_per_group e * ngroup)) + ucast offset + scast (inode_no - 1) * 128"

definition read_inode :: "image \<Rightarrow> uint \<Rightarrow> uint \<Rightarrow> uint \<Rightarrow> byte list \<Rightarrow> ext2 \<Rightarrow> byte list \<times> ext2" where
  "read_inode img ngroup offset inode_no inode e =
     seek_read img (sint (inode_offset ngroup offset inode_no e)) 128 inode e"

end
