(* ===== verification/RunScan.thy ===== *)
theory RunScan
  imports Ext2
begin

text \<open>
  P5, \<open>runscan.c\<close>: copying every picture of an ext2 image, under its inode number and under its name.
  The environment says whether the output directory exists, which files can be created, and what
  an uninitialised buffer holds. The output files are a map from paths to contents; the two ways the
  program spells a relative path, with and without \<open>./\<close>, name the same file.
\<close>

record environment =
  dir_exists :: bool
  can_create :: "string \<Rightarrow> bool"
  junk :: "nat \<Rightarrow> byte"

definition uninit :: "environment \<Rightarrow> nat \<Rightarrow> byte list" where
  "uninit w n = map (junk w) [0..<n]"

type_synonym files = "string \<Rightarrow> byte list option"

definition path_key :: "string \<Rightarrow> string" where
  "path_key p = (if take 2 p = ''./'' \<and> take 1 (drop 2 p) \<noteq> ''/'' then drop 2 p else p)"

text \<open>
  Opening without \<open>O_TRUNC\<close> and writing from the start: what an earlier, longer file held behind the
  bytes written stays. A file that cannot be opened is written to in vain.
\<close>

definition store :: "environment \<Rightarrow> string \<Rightarrow> byte list \<Rightarrow> files \<Rightarrow> files" where
  "store w p bs fs =
     (let k = path_key p; old = (case fs k of None \<Rightarrow> [] | Some b \<Rightarrow> b) in
      if can_create w k then fs(k := Some (bs @ drop (length bs) old)) else fs)"

section \<open>Copying a file\<close>

record copying =
  cp_ext :: ext2
  cp_size :: uint
  cp_buf :: "byte list"
  cp_wr :: "byte list"

definition put_block :: "image \<Rightarrow> uint \<Rightarrow> copying \<Rightarrow> copying" where
  "put_block img blk c =
     (let n = (if cp_size c > 0 \<and> cp_size c < 1024 then cp_size c else 1024) in
      case seek_read img (uint (BLOCK_OFFSET (block_size (cp_ext c)) blk)) (unat n) (cp_buf c) (cp_ext c) of
        (buf, e) \<Rightarrow> c\<lparr>cp_ext := e, cp_size := cp_size c - n, cp_buf := buf, cp_wr := cp_wr c @ take (unat n) buf\<rparr>)"

fun put_blocks :: "image \<Rightarrow> uint list \<Rightarrow> copying \<Rightarrow> copying" where
  "put_blocks img [] c = c"
| "put_blocks img (b # bs) c = (if cp_size c = 0 then c else put_blocks img bs (put_block img b c))"

text \<open>An array of block numbers that is read from a block.\<close>

definition block_entries :: "byte list \<Rightarrow> uint list" where
  "block_entries buf = map (\<lambda>h. le32 buf (4 * h)) [0..<256]"

definition read_block :: "image \<Rightarrow> uint \<Rightarrow> byte list \<Rightarrow> copying \<Rightarrow> byte list \<times> copying" where
  "read_block img blk buf c =
     (case seek_read img (uint (BLOCK_OFFSET (block_size (cp_ext c)) blk)) 1024 buf (cp_ext c) of
        (buf, e) \<Rightarrow> (buf, c\<lparr>cp_ext := e\<rparr>))"

fun put_indirect :: "image \<Rightarrow> uint list \<Rightarrow> byte list \<Rightarrow> copying \<Rightarrow> copying" where
  "put_indirect img [] buf c = c"
| "put_indirect img (b # bs) buf c =
     (case read_block img b buf c of (buf, c) \<Rightarrow> put_indirect img bs buf (put_blocks img (block_entries buf) c))"

definition copy_file :: "environment \<Rightarrow> image \<Rightarrow> uint list \<Rightarrow> copying \<Rightarrow> copying" where
  "copy_file w img blocks c =
     (let c = put_blocks img (take 12 blocks) c in
      if cp_size c = 0 then c
      else case read_block img (blocks ! 12) (uninit w 1024) c of (buf, c) \<Rightarrow>
      let c = put_blocks img (block_entries buf) c in
      if cp_size c = 0 then c
      else case read_block img (blocks ! 13) (uninit w 4096) c of (buf, c) \<Rightarrow>
           put_indirect img (block_entries buf) (uninit w 4096) c)"

section \<open>Scanning\<close>

definition S_ISREG :: "16 word \<Rightarrow> bool" where
  "S_ISREG mode \<longleftrightarrow> mode AND 0xF000 = 0x8000"

definition is_jpg :: "byte list \<Rightarrow> bool" where
  "is_jpg b \<longleftrightarrow> b ! 0 = 0xff \<and> b ! 1 = 0xd8 \<and> b ! 2 = 0xff \<and> (b ! 3 = 0xe0 \<or> b ! 3 = 0xe1 \<or> b ! 3 = 0xe8)"

record scan =
  sn_ext :: ext2
  sn_files :: files

text \<open>
  The part after a regular inode has been read: its first block goes into the buffer, and if it starts
  a picture the file is copied to a path of which \<open>room\<close> characters fit the name buffer.
\<close>

definition recover :: "environment \<Rightarrow> image \<Rightarrow> nat \<Rightarrow> string res \<Rightarrow> byte list \<Rightarrow> byte list \<Rightarrow> scan \<Rightarrow> (byte list \<times> scan) res" where
  "recover w img room path inode buf s =
     (let ino = inode_of inode in
      case seek_read img (uint (BLOCK_OFFSET (block_size (sn_ext s)) (i_block ino ! 0))) 1024 buf (sn_ext s) of
        (buf, e) \<Rightarrow>
      if \<not> is_jpg buf then Ok (buf, s\<lparr>sn_ext := e\<rparr>)
      else rbind path (\<lambda>p.
        if room \<le> length p then Undef
        else let c = copy_file w img (i_block ino) \<lparr>cp_ext = e, cp_size = i_size ino, cp_buf = buf, cp_wr = []\<rparr>
             in Ok (cp_buf c, s\<lparr>sn_ext := cp_ext c, sn_files := store w p (cp_wr c) (sn_files s)\<rparr>)))"

definition number_path :: "string \<Rightarrow> uint \<Rightarrow> string" where
  "number_path dir no = dir @ ''/file-'' @ c_show_int (sint no) @ ''.jpg''"

text \<open>The name is printed up to its terminator; without one, the array is left.\<close>

definition name_path :: "string \<Rightarrow> byte list \<Rightarrow> string res" where
  "name_path dir name =
     (if 0 \<in> set name then Ok (''./'' @ dir @ ''/'' @ map (\<lambda>b. char_of (unat b)) (takeWhile (\<lambda>b. b \<noteq> 0) name))
      else Undef)"

text \<open>
  The loop over a directory block. The next entry is behind the padded name, whatever the length of
  the record says; reading past the buffer of 1024 bytes has no meaning.
\<close>

definition entry_size :: "nat \<Rightarrow> nat" where
  "entry_size len = (if len mod 4 \<noteq> 0 then 8 + len + 4 - len mod 4 else 8 + len)"

function dir_loop :: "nat \<Rightarrow> environment \<Rightarrow> image \<Rightarrow> string \<Rightarrow> uint \<Rightarrow> uint \<Rightarrow> byte list \<Rightarrow> byte list \<Rightarrow> byte list \<Rightarrow>
    scan \<Rightarrow> (byte list \<times> scan) res" where
  "dir_loop offset w img dir t start buffer name inode s =
     (if \<not> offset < unat (block_size (sn_ext s)) then Ok (inode, s)
      else if offset + 8 > 1024 then Undef
      else
        let no = le32 buffer offset; len = unat (buffer ! (offset + 6)) in
        if offset + 8 + len > 1024 then Undef
        else
          let name = take len (drop (offset + 8) buffer) @ drop len name in
          case read_inode img t start no inode (sn_ext s) of (inode, e) \<Rightarrow>
          rbind (if S_ISREG (i_mode (inode_of inode)) then
                   rbind (recover w img 500 (name_path dir name) inode (uninit w 1024) (s\<lparr>sn_ext := e\<rparr>)) (\<lambda>(b, s). Ok s)
                 else Ok (s\<lparr>sn_ext := e\<rparr>)) (\<lambda>s.
            dir_loop (offset + entry_size len) w img dir t start buffer (replicate EXT2_NAME_LEN 0) inode s))"
  by pat_completeness auto
termination
  by (relation "measure (\<lambda>(offset, _). 1024 - offset)") (auto simp: entry_size_def)

declare dir_loop.simps [simp del]

text \<open>One inode: \<open>buffer\<close> and \<open>inode\<close> are those of the loop over the blocks of the table.\<close>

definition scan_inode :: "environment \<Rightarrow> image \<Rightarrow> string \<Rightarrow> uint \<Rightarrow> uint \<Rightarrow> uint \<Rightarrow> byte list \<Rightarrow> byte list \<Rightarrow> scan \<Rightarrow>
    (byte list \<times> byte list \<times> scan) res" where
  "scan_inode w img dir t start no buffer inode s =
     (case read_inode img t start no inode (sn_ext s) of (inode, e) \<Rightarrow>
      if S_ISREG (i_mode (inode_of inode)) then
        rbind (recover w img 50 (Ok (number_path dir no)) inode buffer (s\<lparr>sn_ext := e\<rparr>)) (\<lambda>(buffer, s). Ok (buffer, inode, s))
      else
        case seek_read img (uint (BLOCK_OFFSET (block_size e) (i_block (inode_of inode) ! 0))) 1024 buffer e of
          (buffer, e) \<Rightarrow>
        rbind (dir_loop 0 w img dir t start buffer (uninit w EXT2_NAME_LEN) inode (s\<lparr>sn_ext := e\<rparr>)) (\<lambda>(inode, s).
          Ok (buffer, inode, s)))"

fun scan_inodes :: "environment \<Rightarrow> image \<Rightarrow> string \<Rightarrow> uint \<Rightarrow> uint \<Rightarrow> uint list \<Rightarrow> byte list \<Rightarrow> byte list \<Rightarrow> scan \<Rightarrow>
    scan res" where
  "scan_inodes w img dir t start [] buffer inode s = Ok s"
| "scan_inodes w img dir t start (no # nos) buffer inode s =
     rbind (scan_inode w img dir t start no buffer inode s) (\<lambda>(buffer, inode, s).
       scan_inodes w img dir t start nos buffer inode s)"

definition upto :: "uint \<Rightarrow> uint list" where
  "upto n = map of_nat [0..<unat n]"

fun scan_table :: "environment \<Rightarrow> image \<Rightarrow> string \<Rightarrow> uint \<Rightarrow> uint \<Rightarrow> uint list \<Rightarrow> scan \<Rightarrow> scan res" where
  "scan_table w img dir t start [] s = Ok s"
| "scan_table w img dir t start (i # is) s =
     rbind (scan_inodes w img dir t start (map (\<lambda>j. i * inodes_per_block (sn_ext s) + j) (upto (inodes_per_block (sn_ext s))))
              (uninit w 1024) (uninit w 128) s) (\<lambda>s. scan_table w img dir t start is s)"

fun scan_groups :: "environment \<Rightarrow> image \<Rightarrow> string \<Rightarrow> uint list \<Rightarrow> byte list \<Rightarrow> byte list \<Rightarrow> scan \<Rightarrow> scan res" where
  "scan_groups w img dir [] super gd s = Ok s"
| "scan_groups w img dir (t # ts) super gd s =
     rbind (read_super_block img t super (sn_ext s)) (\<lambda>(_, super, e).
     rbind (read_group_desc img t gd e) (\<lambda>(gd, e).
     rbind (scan_table w img dir t (locate_inode_table t (group_of gd) e) (upto (itable_blocks e)) (s\<lparr>sn_ext := e\<rparr>)) (\<lambda>s.
       scan_groups w img dir ts super gd s)))"

text \<open>The program: the exit code, the output and the files. A failing \<open>exit\<close> is a \<open>Panic\<close>.\<close>

definition runscan :: "environment \<Rightarrow> string list \<Rightarrow> image \<Rightarrow> files \<Rightarrow> (nat \<times> string list \<times> files) res" where
  "runscan w args img fs =
     (case args of
        [input, dir] \<Rightarrow>
          if dir_exists w then Ok (1, [''Output directory exists!'' @ [c_newline]], fs)
          else rbind (ext2_read_init img (uninit w 1024) ext2_start) (\<lambda>e.
               rbind (scan_groups w img dir (upto (num_groups e)) (uninit w 1024) (uninit w 32)
                        \<lparr>sn_ext = e, sn_files = fs\<rparr>) (\<lambda>s.
                 Ok (0, said (sn_ext s), sn_files s)))
      | _ \<Rightarrow> Ok (0, [''expected usage: ./runscan inputfile outputfile'' @ [c_newline]], fs))"

end
