(* ===== verification/RunScanFun.thy ===== *)
theory RunScanFun
  imports RunScan
begin

text \<open>
  P5: the copy loop writes the blocks of the file in the order of the block map, cut at its size; every
  picture among the scanned inodes of a one-group image is copied under its number; and what the
  arithmetic of the starter code gets wrong.
\<close>

section \<open>Reading\<close>

text \<open>What the loops never change.\<close>

definition geometry :: "ext2 \<Rightarrow> uint \<times> uint \<times> uint \<times> uint" where
  "geometry e = (block_size e, inodes_per_block e, itable_blocks e, blocks_per_group e)"

lemma seek_read_keeps:
  assumes "seek_read img off n buf e = (b, e')" and "n \<le> length buf"
  shows "length b = length buf" and "geometry e' = geometry e" and "block_size e' = block_size e"
  using assms by (auto simp: seek_read_def read_fd_def Let_def geometry_def)

lemma seek_read_inside:
  assumes "0 \<le> off" and "nat off + n \<le> length img"
  shows "fst (seek_read img off n buf e) = take n (drop (nat off) img) @ drop n buf"
  using assms by (simp add: seek_read_def read_fd_def Let_def lseek_def split: prod.splits)

lemma seek_read_inside_nat:
  "m + n \<le> length img \<Longrightarrow> fst (seek_read img (int m) n buf e) = take n (drop m img) @ drop n buf"
  using seek_read_inside [of "int m" n img buf e] by simp

definition block_at :: "image \<Rightarrow> uint \<Rightarrow> byte list" where
  "block_at img b = take 1024 (drop (1024 * unat b) img)"

definition in_image :: "image \<Rightarrow> uint \<Rightarrow> bool" where
  "in_image img b \<longleftrightarrow> 1024 * unat b + 1024 \<le> length img"

lemma length_block_at: "in_image img b \<Longrightarrow> length (block_at img b) = 1024"
  by (simp add: in_image_def block_at_def)

lemma block_offset_1024: "BLOCK_OFFSET 1024 b = 1024 * b"
  by (simp add: BLOCK_OFFSET_def BASE_OFFSET_def algebra_simps)

lemma uint_block_offset:
  assumes "in_image img b" and "length img \<le> 2 ^ 32"
  shows "uint (BLOCK_OFFSET 1024 b) = 1024 * int (unat b)"
proof -
  have "1024 * unat b < 2 ^ 32" using assms unfolding in_image_def by linarith
  then have "unat (1024 * b) = 1024 * unat b"
    by (simp add: unat_word_ariths)
  then show ?thesis unfolding block_offset_1024 by (metis of_nat_mult of_nat_numeral uint_nat)
qed

lemma read_inside:
  assumes "in_image img b" and "length img \<le> 2 ^ 32" and "n \<le> 1024"
  shows "fst (seek_read img (uint (BLOCK_OFFSET 1024 b)) n buf e) = take n (block_at img b) @ drop n buf"
  using assms seek_read_inside [of "uint (BLOCK_OFFSET 1024 b)" n img buf e] uint_block_offset [OF assms(1,2)]
  by (simp add: in_image_def block_at_def nat_mult_distrib)

section \<open>The copy loop\<close>

definition cp_ok :: "copying \<Rightarrow> bool" where
  "cp_ok c \<longleftrightarrow> length (cp_buf c) = 1024 \<and> block_size (cp_ext c) = 1024"

definition chunk :: "uint \<Rightarrow> uint" where
  "chunk n = (if n > 0 \<and> n < 1024 then n else 1024)"

lemma unat_chunk: "n \<noteq> 0 \<Longrightarrow> unat (chunk n) = min (unat n) 1024"
  by (auto simp: chunk_def word_less_nat_alt unat_gt_0)

lemma unat_chunk_le: "unat (chunk n) \<le> 1024"
  by (simp add: chunk_def word_less_nat_alt)

lemma put_block_chunk:
  "put_block img b c =
     (case seek_read img (uint (BLOCK_OFFSET (block_size (cp_ext c)) b)) (unat (chunk (cp_size c))) (cp_buf c) (cp_ext c) of
        (buf, e) \<Rightarrow> c\<lparr>cp_ext := e, cp_size := cp_size c - chunk (cp_size c), cp_buf := buf,
          cp_wr := cp_wr c @ take (unat (chunk (cp_size c))) buf\<rparr>)"
  by (simp add: put_block_def chunk_def Let_def)

lemma put_block_keeps:
  assumes "length (cp_buf c) = 1024"
  shows "length (cp_buf (put_block img b c)) = 1024" and "geometry (cp_ext (put_block img b c)) = geometry (cp_ext c)"
proof -
  obtain buf e where r: "seek_read img (uint (BLOCK_OFFSET (block_size (cp_ext c)) b)) (unat (chunk (cp_size c)))
      (cp_buf c) (cp_ext c) = (buf, e)" by fastforce
  have n: "unat (chunk (cp_size c)) \<le> length (cp_buf c)" using unat_chunk_le assms by simp
  show "length (cp_buf (put_block img b c)) = 1024" "geometry (cp_ext (put_block img b c)) = geometry (cp_ext c)"
    using seek_read_keeps [OF r n] assms by (simp_all add: put_block_chunk r)
qed

lemma put_block_writes:
  assumes ok: "cp_ok c" and b: "in_image img b" and img: "length img \<le> 2 ^ 32" and n: "cp_size c \<noteq> 0"
  shows "cp_wr (put_block img b c) = cp_wr c @ take (unat (cp_size c)) (block_at img b)"
    and "unat (cp_size (put_block img b c)) = unat (cp_size c) - 1024"
    and "cp_ok (put_block img b c)"
proof -
  let ?n = "chunk (cp_size c)"
  obtain buf e where r: "seek_read img (uint (BLOCK_OFFSET 1024 b)) (unat ?n) (cp_buf c) (cp_ext c) = (buf, e)" by fastforce
  have "buf = take (unat ?n) (block_at img b) @ drop (unat ?n) (cp_buf c)"
    using read_inside [OF b img unat_chunk_le, of "cp_size c" "cp_buf c" "cp_ext c"] r by simp
  then have "take (unat ?n) buf = take (unat (cp_size c)) (block_at img b)"
    using length_block_at [OF b] by (simp add: unat_chunk [OF n] min_def)
  then show "cp_wr (put_block img b c) = cp_wr c @ take (unat (cp_size c)) (block_at img b)"
    using ok by (simp add: put_block_chunk cp_ok_def r)
  have "?n \<le> cp_size c" using n by (simp add: chunk_def word_le_nat_alt word_less_nat_alt not_less unat_gt_0)
  then show "unat (cp_size (put_block img b c)) = unat (cp_size c) - 1024"
    using ok n by (simp add: put_block_chunk cp_ok_def r unat_sub unat_chunk split: prod.splits)
  show "cp_ok (put_block img b c)"
    using put_block_keeps [of c img b] ok by (simp add: cp_ok_def geometry_def)
qed

definition blocks_of :: "nat \<Rightarrow> nat" where
  "blocks_of n = (n + 1023) div 1024"

lemma blocks_of_step: "n \<noteq> 0 \<Longrightarrow> blocks_of n = Suc (blocks_of (n - 1024))"
proof -
  assume "n \<noteq> 0"
  then obtain m where m: "n = Suc m" by (cases n) simp_all
  have "blocks_of n = (m + 1024) div 1024" by (simp add: blocks_of_def m)
  also have "\<dots> = Suc (m div 1024)" by simp
  also have "m div 1024 = blocks_of (n - 1024)"
  proof (cases "m < 1024")
    case True
    then show ?thesis by (simp add: blocks_of_def m)
  next
    case False
    then have "n - 1024 + 1023 = m" by (simp add: m)
    then show ?thesis by (simp add: blocks_of_def)
  qed
  finally show ?thesis .
qed

lemma put_blocks_keeps:
  "length (cp_buf c) = 1024 \<Longrightarrow>
   length (cp_buf (put_blocks img bs c)) = 1024 \<and> geometry (cp_ext (put_blocks img bs c)) = geometry (cp_ext c)"
  by (induction bs arbitrary: c) (simp_all add: put_block_keeps)

lemma put_blocks_writes:
  "cp_ok c \<Longrightarrow> length img \<le> 2 ^ 32 \<Longrightarrow> \<forall>b\<in>set (take (blocks_of (unat (cp_size c))) bs). in_image img b \<Longrightarrow>
   cp_wr (put_blocks img bs c) = cp_wr c @ take (unat (cp_size c)) (concat (map (block_at img) bs)) \<and>
   unat (cp_size (put_blocks img bs c)) = unat (cp_size c) - 1024 * length bs \<and> cp_ok (put_blocks img bs c)"
proof (induction bs arbitrary: c)
  case Nil
  then show ?case by simp
next
  case (Cons b bs)
  show ?case
  proof (cases "cp_size c = 0")
    case True
    with Cons.prems show ?thesis by simp
  next
    case False
    then have n: "unat (cp_size c) \<noteq> 0" by (simp add: unat_eq_0)
    have b: "in_image img b" using Cons.prems(3) by (simp add: blocks_of_step [OF n])
    note p = put_block_writes [OF Cons.prems(1) b Cons.prems(2) False]
    have "\<forall>b\<in>set (take (blocks_of (unat (cp_size (put_block img b c)))) bs). in_image img b"
      using Cons.prems(3) by (simp add: blocks_of_step [OF n] p(2))
    from Cons.IH [OF p(3) Cons.prems(2) this] show ?thesis
      using False length_block_at [OF b] by (simp add: p(1,2))
  qed
qed

section \<open>The block map\<close>

definition file_blocks :: "image \<Rightarrow> uint list \<Rightarrow> uint list" where
  "file_blocks img bl = take 12 bl @ block_entries (block_at img (bl ! 12)) @
     concat (map (\<lambda>b. block_entries (block_at img b)) (block_entries (block_at img (bl ! 13))))"

definition file_content :: "image \<Rightarrow> ext2_inode \<Rightarrow> byte list" where
  "file_content img ino = take (unat (i_size ino)) (concat (map (block_at img) (file_blocks img (i_block ino))))"

text \<open>The blocks that a file of this size needs are in the image.\<close>

definition file_readable :: "image \<Rightarrow> ext2_inode \<Rightarrow> bool" where
  "file_readable img ino \<longleftrightarrow>
     (let n = blocks_of (unat (i_size ino)); bl = i_block ino in
      length bl = 15 \<and> (\<forall>b\<in>set (take n (file_blocks img bl)). in_image img b) \<and>
      (12 < n \<longrightarrow> in_image img (bl ! 12)) \<and>
      (268 < n \<longrightarrow> in_image img (bl ! 13) \<and> (\<forall>b\<in>set (block_entries (block_at img (bl ! 13))). in_image img b)))"

lemma read_block_inside:
  assumes "cp_ok c" and "in_image img b" and "length img \<le> 2 ^ 32" and "read_block img b buf c = (buf', c')"
    and "1024 \<le> length buf"
  shows "take 1024 buf' = block_at img b" and "cp_wr c' = cp_wr c" and "cp_size c' = cp_size c" and "cp_ok c'"
    and "length buf' = length buf"
proof -
  obtain d e where r: "seek_read img (uint (BLOCK_OFFSET 1024 b)) 1024 buf (cp_ext c) = (d, e)" by fastforce
  with assms(1,4) have d: "buf' = d" "c' = c\<lparr>cp_ext := e\<rparr>" by (simp_all add: read_block_def cp_ok_def)
  note k = seek_read_keeps [OF r assms(5)]
  have "buf' = take 1024 (block_at img b) @ drop 1024 buf"
    using read_inside [OF assms(2,3), of 1024 buf "cp_ext c"] r d by simp
  then show "take 1024 buf' = block_at img b" using length_block_at [OF assms(2)] by simp
  show "cp_wr c' = cp_wr c" "cp_size c' = cp_size c" "cp_ok c'" "length buf' = length buf"
    using d k assms(1) by (simp_all add: cp_ok_def)
qed

lemma block_entries_take: "block_entries (take 1024 buf) = block_entries buf"
  by (auto simp: block_entries_def le32_def)

lemma length_block_entries [simp]: "length (block_entries buf) = 256"
  by (simp add: block_entries_def)

lemma blocks_of_sub: "blocks_of (n - 1024 * k) = blocks_of n - k"
proof (induction k arbitrary: n)
  case 0
  then show ?case by simp
next
  case (Suc k)
  show ?case
  proof (cases "n = 0")
    case True
    then show ?thesis by (simp add: blocks_of_def)
  next
    case False
    have "n - 1024 * Suc k = (n - 1024) - 1024 * k" by simp
    then show ?thesis by (simp only: Suc.IH) (simp add: blocks_of_step [OF False])
  qed
qed

lemma take_concat_append:
  "\<forall>b\<in>set (take (blocks_of n) (xs @ ys)). in_image img b \<Longrightarrow>
   take n (concat (map (block_at img) (xs @ ys))) =
     take n (concat (map (block_at img) xs)) @ take (n - 1024 * length xs) (concat (map (block_at img) ys))"
proof (induction xs arbitrary: n)
  case Nil
  then show ?case by simp
next
  case (Cons b xs)
  show ?case
  proof (cases "n = 0")
    case True
    then show ?thesis by simp
  next
    case False
    from Cons.prems have "in_image img b" "\<forall>b\<in>set (take (blocks_of (n - 1024)) (xs @ ys)). in_image img b"
      by (simp_all add: blocks_of_step [OF False])
    with Cons.IH [OF this(2)] show ?thesis by (simp add: length_block_at)
  qed
qed

lemma take_blocks_of_append:
  "\<forall>b\<in>set (take (blocks_of n) (xs @ ys)). in_image img b \<Longrightarrow>
   (\<forall>b\<in>set (take (blocks_of n) xs). in_image img b) \<and>
   (\<forall>b\<in>set (take (blocks_of (n - 1024 * length xs)) ys). in_image img b)"
  by (simp add: blocks_of_sub ball_Un)

abbreviation entries_at :: "image \<Rightarrow> uint \<Rightarrow> uint list" where
  "entries_at img b \<equiv> block_entries (block_at img b)"

lemma put_indirect_writes:
  "cp_ok c \<Longrightarrow> length img \<le> 2 ^ 32 \<Longrightarrow> \<forall>b\<in>set bs. in_image img b \<Longrightarrow> 1024 \<le> length buf \<Longrightarrow>
   \<forall>b\<in>set (take (blocks_of (unat (cp_size c))) (concat (map (entries_at img) bs))). in_image img b \<Longrightarrow>
   cp_wr (put_indirect img bs buf c) =
     cp_wr c @ take (unat (cp_size c)) (concat (map (block_at img) (concat (map (entries_at img) bs))))"
proof (induction bs arbitrary: buf c)
  case Nil
  then show ?case by simp
next
  case (Cons b bs)
  let ?es = "entries_at img b" and ?n = "unat (cp_size c)"
  obtain buf' c' where r: "read_block img b buf c = (buf', c')" by fastforce
  have "in_image img b" using Cons.prems(3) by simp
  note rd = read_block_inside [OF Cons.prems(1) this Cons.prems(2) r Cons.prems(4)]
  have es: "block_entries buf' = ?es" using block_entries_take [of buf'] rd(1) by simp
  have all: "\<forall>b\<in>set (take (blocks_of ?n) (?es @ concat (map (entries_at img) bs))). in_image img b"
    using Cons.prems(5) by simp
  note split = take_blocks_of_append [OF all]
  have w: "cp_wr (put_blocks img ?es c') = cp_wr c @ take ?n (concat (map (block_at img) ?es))"
      "unat (cp_size (put_blocks img ?es c')) = ?n - 1024 * length ?es" "cp_ok (put_blocks img ?es c')"
    using put_blocks_writes [OF rd(4) Cons.prems(2), of ?es] split rd(2,3) by simp_all
  have "put_indirect img (b # bs) buf c = put_indirect img bs buf' (put_blocks img ?es c')" by (simp add: r es)
  also have "cp_wr \<dots> = cp_wr (put_blocks img ?es c') @
      take (?n - 1024 * length ?es) (concat (map (block_at img) (concat (map (entries_at img) bs))))"
    using Cons.IH [OF w(3) Cons.prems(2), of buf'] Cons.prems(3,4) split rd(5) w(2) by simp
  also have "\<dots> = cp_wr c @ take ?n (concat (map (block_at img) (?es @ concat (map (entries_at img) bs))))"
    unfolding w(1) take_concat_append [OF all] by simp
  finally show ?case by simp
qed

lemma length_uninit [simp]: "length (uninit w n) = n"
  by (simp add: uninit_def)

lemma copy_file_writes:
  assumes ok: "cp_ok c" and img: "length img \<le> 2 ^ 32" and size: "i_size ino = cp_size c" and rd: "file_readable img ino"
  shows "cp_wr (copy_file w img (i_block ino) c) = cp_wr c @ file_content img ino"
proof -
  let ?bl = "i_block ino" and ?n = "unat (cp_size c)"
  let ?e2 = "entries_at img (?bl ! 12)" and ?i3 = "entries_at img (?bl ! 13)"
  let ?e3 = "concat (map (entries_at img) ?i3)"
  have len: "length (take 12 ?bl) = 12" and all: "\<forall>b\<in>set (take (blocks_of ?n) (take 12 ?bl @ ?e2 @ ?e3)). in_image img b"
    and i2: "12 < blocks_of ?n \<longrightarrow> in_image img (?bl ! 12)"
    and i3: "268 < blocks_of ?n \<longrightarrow> in_image img (?bl ! 13) \<and> (\<forall>b\<in>set ?i3. in_image img b)"
    using rd by (simp_all add: file_readable_def Let_def file_blocks_def size)
  note s1 = take_blocks_of_append [OF all, unfolded len]
  note s2 = take_blocks_of_append [OF s1 [THEN conjunct2]]
  let ?c1 = "put_blocks img (take 12 ?bl) c" and ?n1 = "?n - 1024 * 12"
  have c1: "cp_wr ?c1 = cp_wr c @ take ?n (concat (map (block_at img) (take 12 ?bl)))" "unat (cp_size ?c1) = ?n1" "cp_ok ?c1"
    using put_blocks_writes [OF ok img s1 [THEN conjunct1]] unfolding len by blast+
  have fc: "file_content img ino = take ?n (concat (map (block_at img) (take 12 ?bl))) @
      take ?n1 (concat (map (block_at img) (?e2 @ ?e3)))"
    using take_concat_append [OF all] unfolding len by (simp add: file_content_def file_blocks_def size)
  show ?thesis
  proof (cases "cp_size ?c1 = 0")
    case True
    then have "?n1 = 0" using c1(2) by simp
    with True c1(1) show ?thesis by (simp add: copy_file_def Let_def fc)
  next
    case False
    then have n1: "?n1 \<noteq> 0" using c1(2) by (metis unat_eq_0)
    then have "12 < blocks_of ?n" using blocks_of_sub [of ?n 12] blocks_of_step [OF n1] by simp
    then have b2: "in_image img (?bl ! 12)" using i2 by simp
    obtain buf c2 where r: "read_block img (?bl ! 12) (uninit w 1024) ?c1 = (buf, c2)" by fastforce
    note rd2 = read_block_inside [OF c1(3) b2 img r, unfolded length_uninit, OF order_refl]
    have es: "block_entries buf = ?e2" using block_entries_take [of buf] rd2(1) by simp
    let ?c3 = "put_blocks img ?e2 c2" and ?n3 = "?n1 - 1024 * 256"
    have c3: "cp_wr ?c3 = cp_wr ?c1 @ take ?n1 (concat (map (block_at img) ?e2))" "unat (cp_size ?c3) = ?n3" "cp_ok ?c3"
      using put_blocks_writes [OF rd2(4) img, of ?e2] s2 rd2(2,3) c1(2) by simp_all
    have fc2: "take ?n1 (concat (map (block_at img) (?e2 @ ?e3))) = take ?n1 (concat (map (block_at img) ?e2)) @
        take ?n3 (concat (map (block_at img) ?e3))"
      using take_concat_append [OF s1 [THEN conjunct2]] by simp
    show ?thesis
    proof (cases "cp_size ?c3 = 0")
      case True
      then have "?n3 = 0" using c3(2) by simp
      with True False r es c3(1) c1(1) fc2 show ?thesis by (simp add: copy_file_def Let_def fc)
    next
      case nz: False
      then have n3: "?n3 \<noteq> 0" using c3(2) by (metis unat_eq_0)
      then have "268 < blocks_of ?n" using blocks_of_sub [of ?n 268] blocks_of_step [OF n3] by simp
      then have b3: "in_image img (?bl ! 13)" "\<forall>b\<in>set ?i3. in_image img b" using i3 by simp_all
      obtain buf4 c4 where r4: "read_block img (?bl ! 13) (uninit w 4096) ?c3 = (buf4, c4)" by fastforce
      have "(1024::nat) \<le> 4096" by simp
      note rd4 = read_block_inside [OF c3(3) b3(1) img r4, unfolded length_uninit, OF this]
      have es4: "block_entries buf4 = ?i3" using block_entries_take [of buf4] rd4(1) by simp
      have "cp_wr (put_indirect img ?i3 (uninit w 4096) c4) =
          cp_wr ?c3 @ take ?n3 (concat (map (block_at img) ?e3))"
        using put_indirect_writes [OF rd4(4) img b3(2), of "uninit w 4096"] s2 rd4(2,3) c3(2) by simp
      with False nz r es r4 es4 c3(1) c1(1) fc2 show ?thesis by (simp add: copy_file_def Let_def fc)
    qed
  qed
qed

section \<open>What a scan writes\<close>

text \<open>The files written, in order, by a part of the scan that leaves the geometry alone.\<close>

definition writes_to :: "environment \<Rightarrow> (string \<times> byte list) list \<Rightarrow> files \<Rightarrow> files" where
  "writes_to w ws fs = foldl (\<lambda>fs (p, bs). store w p bs fs) fs ws"

definition logs :: "environment \<Rightarrow> (string \<times> byte list) list \<Rightarrow> scan \<Rightarrow> scan \<Rightarrow> bool" where
  "logs w ws s s' \<longleftrightarrow> sn_files s' = writes_to w ws (sn_files s) \<and> geometry (sn_ext s') = geometry (sn_ext s)"

lemma logs_Nil: "geometry e = geometry (sn_ext s) \<Longrightarrow> logs w [] s (s\<lparr>sn_ext := e\<rparr>)"
  by (simp add: logs_def writes_to_def)

lemma logs_refl: "logs w [] s s"
  by (simp add: logs_def writes_to_def)

lemma logs_append: "logs w ws s t \<Longrightarrow> logs w vs t u \<Longrightarrow> logs w (ws @ vs) s u"
  by (simp add: logs_def writes_to_def)

text \<open>
  What a buffer of the program can hold: uninitialised memory, read over any number of times, and the names that the loop over a
  directory can find in it. A path under the output directory is that of a number or that of such a name.
\<close>

inductive_set buffers :: "environment \<Rightarrow> image \<Rightarrow> byte list set" for w :: environment and img :: image where
  uninit: "uninit w n \<in> buffers w img"
| seek_read: "buf \<in> buffers w img \<Longrightarrow> fst (seek_read img off n buf e) \<in> buffers w img"

definition entry_arrays :: "environment \<Rightarrow> image \<Rightarrow> byte list set" where
  "entry_arrays w img = {take len (drop q buf) @ drop len name | len q buf name.
     buf \<in> buffers w img \<and> (name = uninit w EXT2_NAME_LEN \<or> name = replicate EXT2_NAME_LEN 0)}"

definition c_name :: "byte list \<Rightarrow> string" where
  "c_name arr = map (\<lambda>b. char_of (unat b)) (takeWhile (\<lambda>b. b \<noteq> 0) arr)"

definition entry_names :: "environment \<Rightarrow> image \<Rightarrow> string set" where
  "entry_names w img = c_name ` entry_arrays w img"

definition name_write :: "environment \<Rightarrow> image \<Rightarrow> string \<Rightarrow> string \<Rightarrow> bool" where
  "name_write w img dir p \<longleftrightarrow> (\<exists>n\<in>entry_names w img. p = ''./'' @ dir @ ''/'' @ n)"

lemma in_buffers: "seek_read img off n buf e = (b, e') \<Longrightarrow> buf \<in> buffers w img \<Longrightarrow> b \<in> buffers w img"
  using buffers.seek_read [of buf w img off n e] by simp

lemma put_block_buffers: "cp_buf c \<in> buffers w img \<Longrightarrow> cp_buf (put_block img b c) \<in> buffers w img"
  by (auto simp: put_block_chunk intro: in_buffers split: prod.splits)

lemma put_blocks_buffers: "cp_buf c \<in> buffers w img \<Longrightarrow> cp_buf (put_blocks img bs c) \<in> buffers w img"
  by (induction bs arbitrary: c) (simp_all add: put_block_buffers)

lemma read_block_buffers: "read_block img b buf c = (buf', c') \<Longrightarrow> cp_buf c' = cp_buf c"
  by (auto simp: read_block_def split: prod.splits)

lemma put_indirect_buffers: "cp_buf c \<in> buffers w img \<Longrightarrow> cp_buf (put_indirect img bs buf c) \<in> buffers w img"
  by (induction bs arbitrary: buf c) (simp_all add: put_blocks_buffers read_block_buffers split: prod.splits)

lemma copy_file_buffers: "cp_buf c \<in> buffers w img \<Longrightarrow> cp_buf (copy_file w img bl c) \<in> buffers w img"
  by (simp add: copy_file_def Let_def put_blocks_buffers put_indirect_buffers read_block_buffers split: prod.splits)

lemma read_block_keeps:
  "read_block img b buf c = (buf', c') \<Longrightarrow> 1024 \<le> length buf \<Longrightarrow>
   length buf' = length buf \<and> cp_buf c' = cp_buf c \<and> geometry (cp_ext c') = geometry (cp_ext c)"
  using seek_read_keeps [of img _ 1024 buf "cp_ext c"]
  by (auto simp: read_block_def split: prod.splits)

lemma put_indirect_keeps:
  "length (cp_buf c) = 1024 \<Longrightarrow> 1024 \<le> length buf \<Longrightarrow>
   length (cp_buf (put_indirect img bs buf c)) = 1024 \<and> geometry (cp_ext (put_indirect img bs buf c)) = geometry (cp_ext c)"
proof (induction bs arbitrary: buf c)
  case Nil
  then show ?case by simp
next
  case (Cons b bs)
  obtain buf' c' where r: "read_block img b buf c = (buf', c')" by fastforce
  note k = read_block_keeps [OF r Cons.prems(2)]
  then have "length (cp_buf c') = 1024" using Cons.prems(1) by simp
  note p = put_blocks_keeps [OF this, of img "block_entries buf'"]
  from Cons.IH [of "put_blocks img (block_entries buf') c'" buf'] p k Cons.prems(2) show ?case by (simp add: r)
qed

lemma copy_file_keeps:
  assumes "length (cp_buf c) = 1024"
  shows "length (cp_buf (copy_file w img bl c)) = 1024 \<and> geometry (cp_ext (copy_file w img bl c)) = geometry (cp_ext c)"
proof -
  let ?c1 = "put_blocks img (take 12 bl) c"
  note p1 = put_blocks_keeps [OF assms, of img "take 12 bl"]
  obtain buf c2 where r: "read_block img (bl ! 12) (uninit w 1024) ?c1 = (buf, c2)" by fastforce
  have k2: "length (cp_buf c2) = 1024" "geometry (cp_ext c2) = geometry (cp_ext c)"
    using read_block_keeps [OF r] p1 by simp_all
  let ?c3 = "put_blocks img (block_entries buf) c2"
  note p3 = put_blocks_keeps [OF k2(1), of img "block_entries buf"]
  obtain buf4 c4 where r4: "read_block img (bl ! 13) (uninit w 4096) ?c3 = (buf4, c4)" by fastforce
  have k4: "length (cp_buf c4) = 1024" "geometry (cp_ext c4) = geometry (cp_ext c)"
    using read_block_keeps [OF r4] p3 k2 by simp_all
  from put_indirect_keeps [OF k4(1), of "uninit w 4096" img "block_entries buf4"] p1 p3 k2 k4 r r4
  show ?thesis by (simp add: copy_file_def Let_def)
qed

lemma recover_logs:
  assumes r: "recover w img room path inode buf s = Ok (b, s')" and len: "length buf = 1024"
  shows "\<exists>ws. logs w ws s s' \<and> (\<forall>x\<in>set ws. path = Ok (fst x))" and "length b = 1024"
    and "buf \<in> buffers w img \<Longrightarrow> b \<in> buffers w img"
proof -
  let ?ino = "inode_of inode"
  obtain d e where rd: "seek_read img (uint (BLOCK_OFFSET (block_size (sn_ext s)) (i_block ?ino ! 0))) 1024 buf (sn_ext s)
      = (d, e)" by fastforce
  note k = seek_read_keeps [OF rd, unfolded len, OF order_refl]
  have "(\<exists>ws. logs w ws s s' \<and> (\<forall>x\<in>set ws. path = Ok (fst x))) \<and> length b = 1024 \<and>
      (buf \<in> buffers w img \<longrightarrow> b \<in> buffers w img)"
  proof (cases "is_jpg d")
    case False
    have "logs w [] s (s\<lparr>sn_ext := e\<rparr>)" using k by (intro logs_Nil) simp
    then have "\<exists>ws. logs w ws s (s\<lparr>sn_ext := e\<rparr>) \<and> (\<forall>x\<in>set ws. path = Ok (fst x))" by (intro exI [of _ "[]"]) simp
    with False r rd k in_buffers [OF rd] show ?thesis by (auto simp: recover_def Let_def)
  next
    case True
    let ?c = "copy_file w img (i_block ?ino) \<lparr>cp_ext = e, cp_size = i_size ?ino, cp_buf = d, cp_wr = []\<rparr>"
    note c = copy_file_keeps [of "\<lparr>cp_ext = e, cp_size = i_size ?ino, cp_buf = d, cp_wr = []\<rparr>" w img "i_block ?ino"]
    from r True rd obtain p where p: "path = Ok p" "b = cp_buf ?c"
        "s' = s\<lparr>sn_ext := cp_ext ?c, sn_files := store w p (cp_wr ?c) (sn_files s)\<rparr>"
      by (auto simp: recover_def Let_def rbind_eq_Ok split: if_splits)
    then have "logs w [(p, cp_wr ?c)] s s'" using c k by (simp add: logs_def writes_to_def)
    then have "\<exists>ws. logs w ws s s' \<and> (\<forall>x\<in>set ws. path = Ok (fst x))" using p(1) by (intro exI [of _ "[(p, cp_wr ?c)]"]) simp
    moreover have "buf \<in> buffers w img \<longrightarrow> b \<in> buffers w img"
      using p(2) copy_file_buffers [of "\<lparr>cp_ext = e, cp_size = i_size ?ino, cp_buf = d, cp_wr = []\<rparr>" w img] in_buffers [OF rd] by simp
    ultimately show ?thesis using p(2) c k by simp
  qed
  then show "\<exists>ws. logs w ws s s' \<and> (\<forall>x\<in>set ws. path = Ok (fst x))" "length b = 1024"
    "buf \<in> buffers w img \<Longrightarrow> b \<in> buffers w img" by blast+
qed

text \<open>A picture whose blocks are in the image.\<close>

definition picture :: "image \<Rightarrow> ext2_inode \<Rightarrow> bool" where
  "picture img ino \<longleftrightarrow> S_ISREG (i_mode ino) \<and> in_image img (i_block ino ! 0) \<and> is_jpg (block_at img (i_block ino ! 0)) \<and>
     file_readable img ino"

lemma recover_picture:
  assumes pic: "picture img (inode_of inode)" and img: "length img \<le> 2 ^ 32" and bs: "block_size (sn_ext s) = 1024"
    and len: "length buf = 1024" and r: "recover w img room (Ok p) inode buf s = Ok (b, s')"
  shows "logs w [(p, file_content img (inode_of inode))] s s'"
proof -
  let ?ino = "inode_of inode"
  obtain d e where rd: "seek_read img (uint (BLOCK_OFFSET 1024 (i_block ?ino ! 0))) 1024 buf (sn_ext s) = (d, e)"
    by fastforce
  note k = seek_read_keeps [OF rd, unfolded len, OF order_refl]
  have i: "in_image img (i_block ?ino ! 0)" "is_jpg (block_at img (i_block ?ino ! 0))" "file_readable img ?ino"
    using pic by (simp_all add: picture_def)
  have "d = block_at img (i_block ?ino ! 0)"
    using read_inside [OF i(1) img order_refl, of buf "sn_ext s"] rd len length_block_at [OF i(1)] by simp
  then have jpg: "is_jpg d" using i(2) by simp
  let ?init = "\<lparr>cp_ext = e, cp_size = i_size ?ino, cp_buf = d, cp_wr = []\<rparr>"
  let ?c = "copy_file w img (i_block ?ino) ?init"
  have "cp_wr ?c = file_content img ?ino"
    using copy_file_writes [of ?init img ?ino w] i(3) img k bs by (simp add: cp_ok_def)
  moreover have "s' = s\<lparr>sn_ext := cp_ext ?c, sn_files := store w p (cp_wr ?c) (sn_files s)\<rparr>"
    using r rd jpg bs by (auto simp: recover_def Let_def split: if_splits)
  moreover have "geometry (cp_ext ?c) = geometry (sn_ext s)" using copy_file_keeps [of ?init w img] k by simp
  ultimately show "logs w [(p, file_content img ?ino)] s s'" by (simp add: logs_def writes_to_def)
qed

lemma name_path_write:
  assumes "name_path dir arr = Ok p" and "arr \<in> entry_arrays w img"
  shows "name_write w img dir p"
  using assms by (auto simp: name_path_def name_write_def entry_names_def c_name_def split: if_splits)

lemma dir_loop_logs:
  "dir_loop offset w img dir t start buffer name inode s = Ok (inode', s') \<Longrightarrow> length inode = 128 \<Longrightarrow>
   buffer \<in> buffers w img \<Longrightarrow> name = uninit w EXT2_NAME_LEN \<or> name = replicate EXT2_NAME_LEN 0 \<Longrightarrow>
   (\<exists>ws. logs w ws s s' \<and> (\<forall>x\<in>set ws. name_write w img dir (fst x))) \<and> length inode' = 128"
proof (induction offset w img dir t start buffer name inode s rule: dir_loop.induct)
  case (1 offset w img dir t start buffer name inode s)
  show ?case
  proof (cases "offset < unat (block_size (sn_ext s))")
    case False
    with "1.prems" show ?thesis by (subst (asm) dir_loop.simps) (auto intro!: exI [of _ "[]"] logs_refl)
  next
    case less: True
    let ?no = "le32 buffer offset" and ?len = "unat (buffer ! (offset + 6))"
    let ?name = "take ?len (drop (offset + 8) buffer) @ drop ?len name"
    have arr: "?name \<in> entry_arrays w img" using "1.prems"(3,4) unfolding entry_arrays_def by blast
    obtain ino e where r: "read_inode img t start ?no inode (sn_ext s) = (ino, e)" by fastforce
    have k: "length ino = 128" "geometry e = geometry (sn_ext s)"
      using seek_read_keeps [of img _ 128 inode "sn_ext s" ino e] r "1.prems"(2) by (simp_all add: read_inode_def)
    from "1.prems"(1) less r obtain s1 where s1: "(if S_ISREG (i_mode (inode_of ino)) then
          rbind (recover w img 500 (name_path dir ?name) ino (uninit w 1024) (s\<lparr>sn_ext := e\<rparr>)) (\<lambda>(b, s). Ok s)
        else Ok (s\<lparr>sn_ext := e\<rparr>)) = Ok s1"
      "dir_loop (offset + entry_size ?len) w img dir t start buffer (replicate EXT2_NAME_LEN 0) ino s1 = Ok (inode', s')"
      "\<not> offset + 8 > 1024" "\<not> offset + 8 + ?len > 1024"
      by (subst (asm) dir_loop.simps) (auto simp: Let_def rbind_eq_Ok split: if_splits)
    have i: "(\<exists>ws. logs w ws s1 s' \<and> (\<forall>x\<in>set ws. name_write w img dir (fst x))) \<and> length inode' = 128"
      by (rule "1.IH") (rule r [symmetric] | (use less s1 k "1.prems"(3) in simp))+
    have "\<exists>ws. logs w ws s s1 \<and> (\<forall>x\<in>set ws. name_write w img dir (fst x))"
    proof (cases "S_ISREG (i_mode (inode_of ino))")
      case True
      with s1(1) obtain b where "recover w img 500 (name_path dir ?name) ino (uninit w 1024) (s\<lparr>sn_ext := e\<rparr>) = Ok (b, s1)"
        by (auto simp: rbind_eq_Ok)
      from recover_logs(1) [OF this] obtain ws where ws: "logs w ws (s\<lparr>sn_ext := e\<rparr>) s1"
          "\<forall>x\<in>set ws. name_path dir ?name = Ok (fst x)" by auto
      have "logs w ([] @ ws) s s1" by (rule logs_append [OF logs_Nil [OF k(2)] ws(1)])
      with ws(2) name_path_write [OF _ arr] show ?thesis by (intro exI [of _ ws]) simp
    next
      case False
      with s1(1) logs_Nil [OF k(2), of w] show ?thesis by (intro exI [of _ "[]"]) simp
    qed
    then obtain us where us: "logs w us s s1" "\<forall>x\<in>set us. name_write w img dir (fst x)" by blast
    from i obtain vs where vs: "logs w vs s1 s'" "\<forall>x\<in>set vs. name_write w img dir (fst x)" by blast
    have "\<forall>x\<in>set (us @ vs). name_write w img dir (fst x)" using us(2) vs(2) by auto
    with logs_append [OF us(1) vs(1)] i show ?thesis by blast
  qed
qed

lemma read_inode_keeps:
  "read_inode img t start no inode e = (ino, e') \<Longrightarrow> length inode = 128 \<Longrightarrow>
   length ino = 128 \<and> geometry e' = geometry e \<and> block_size e' = block_size e"
  using seek_read_keeps [of img _ 128 inode e ino e'] by (simp add: read_inode_def)

lemma scan_inode_logs:
  assumes r: "scan_inode w img dir t start no buffer inode s = Ok (buffer', inode', s')"
    and len: "length buffer = 1024" "length inode = 128" and buf: "buffer \<in> buffers w img"
  shows "\<exists>ws. logs w ws s s' \<and> (\<forall>x\<in>set ws. fst x = number_path dir no \<or> name_write w img dir (fst x))"
    and "length buffer' = 1024" and "length inode' = 128" and "buffer' \<in> buffers w img"
proof -
  obtain ino e where i: "read_inode img t start no inode (sn_ext s) = (ino, e)" by fastforce
  note k = read_inode_keeps [OF i len(2)]
  have k1: "geometry e = geometry (sn_ext s)" "length ino = 128" using k by simp_all
  have "(\<exists>ws. logs w ws s s' \<and> (\<forall>x\<in>set ws. fst x = number_path dir no \<or> name_write w img dir (fst x))) \<and>
      length buffer' = 1024 \<and> length inode' = 128 \<and> buffer' \<in> buffers w img"
  proof (cases "S_ISREG (i_mode (inode_of ino))")
    case True
    have "rbind (recover w img 50 (Ok (number_path dir no)) ino buffer (s\<lparr>sn_ext := e\<rparr>)) (\<lambda>(buffer, s). Ok (buffer, ino, s))
        = Ok (buffer', inode', s')" using r True unfolding scan_inode_def i by simp
    then have b: "recover w img 50 (Ok (number_path dir no)) ino buffer (s\<lparr>sn_ext := e\<rparr>) = Ok (buffer', s')"
        "inode' = ino" unfolding rbind_eq_Ok by (auto split: prod.splits)
    obtain ws where ws: "logs w ws (s\<lparr>sn_ext := e\<rparr>) s'" "\<forall>x\<in>set ws. Ok (number_path dir no) = (Ok (fst x) :: string res)"
      using recover_logs(1) [OF b(1) len(1)] by blast
    have "logs w ([] @ ws) s s'" by (rule logs_append [OF logs_Nil [OF k1(1)] ws(1)])
    then have "\<exists>ws. logs w ws s s' \<and> (\<forall>x\<in>set ws. fst x = number_path dir no \<or> name_write w img dir (fst x))"
      using ws(2) by (intro exI [of _ ws]) simp
    then show ?thesis using recover_logs(2,3) [OF b(1) len(1)] k1(2) b(2) buf by blast
  next
    case False
    obtain d e' where rd: "seek_read img (uint (BLOCK_OFFSET (block_size e) (i_block (inode_of ino) ! 0))) 1024 buffer e = (d, e')"
      by fastforce
    note kd = seek_read_keeps [OF rd, unfolded len(1), OF order_refl]
    have "rbind (dir_loop 0 w img dir t start d (uninit w EXT2_NAME_LEN) ino (s\<lparr>sn_ext := e'\<rparr>)) (\<lambda>(inode, s). Ok (d, inode, s))
        = Ok (buffer', inode', s')" using r False unfolding scan_inode_def i by (simp add: rd)
    then have dl: "dir_loop 0 w img dir t start d (uninit w EXT2_NAME_LEN) ino (s\<lparr>sn_ext := e'\<rparr>) = Ok (inode', s')"
        "buffer' = d" unfolding rbind_eq_Ok by (auto split: prod.splits)
    have d: "d \<in> buffers w img" by (rule in_buffers [OF rd buf])
    from dir_loop_logs [OF dl(1) k1(2) d] obtain ws where ws: "logs w ws (s\<lparr>sn_ext := e'\<rparr>) s'"
        "\<forall>x\<in>set ws. name_write w img dir (fst x)" "length inode' = 128" by blast
    have "geometry e' = geometry (sn_ext s)" using kd k1 by simp
    then have "logs w ([] @ ws) s s'" by (rule logs_append [OF logs_Nil ws(1)])
    then have "\<exists>ws. logs w ws s s' \<and> (\<forall>x\<in>set ws. fst x = number_path dir no \<or> name_write w img dir (fst x))"
      using ws(2) by (intro exI [of _ ws]) simp
    then show ?thesis using kd(1) len(1) dl(2) ws(3) d by blast
  qed
  then show "\<exists>ws. logs w ws s s' \<and> (\<forall>x\<in>set ws. fst x = number_path dir no \<or> name_write w img dir (fst x))"
    "length buffer' = 1024" "length inode' = 128" "buffer' \<in> buffers w img" by blast+
qed

text \<open>The inode of a number: where the first group of a file system with blocks of 1024 bytes has it.\<close>

definition inode_at :: "image \<Rightarrow> uint \<Rightarrow> nat \<Rightarrow> byte list" where
  "inode_at img table k = take 128 (drop (1024 * unat table + 128 * (k - 1)) img)"

lemma sint_of_nat_64: "n < 2 ^ 63 \<Longrightarrow> sint (of_nat n :: ulong) = int n"
  by (simp add: signed_of_nat signed_take_bit_int_eq_self)

lemma inode_offset_first_group:
  assumes "1024 * unat table + 128 * k \<le> 2 ^ 32" and "1 \<le> k" and "block_size e = 1024" and "k < 2 ^ 31"
  shows "sint (inode_offset 0 (BLOCK_OFFSET 1024 table) (of_nat k) e) = int (1024 * unat table + 128 * (k - 1))"
proof -
  have tb: "1024 * unat table < 2 ^ 32" using assms(1,2) by linarith
  then have b: "unat (BLOCK_OFFSET 1024 table) = 1024 * unat table"
    unfolding block_offset_1024 by (simp add: unat_word_ariths)
  have "(ucast (BLOCK_OFFSET 1024 table) :: ulong) = of_nat (unat (BLOCK_OFFSET 1024 table))"
    by (rule of_nat_unat [symmetric])
  then have u: "(ucast (BLOCK_OFFSET 1024 table) :: ulong) = of_nat (1024 * unat table)" unfolding b .
  have k: "(of_nat k - 1 :: uint) = of_nat (k - 1)" using assms(2) by (simp add: of_nat_diff)
  have "sint (of_nat (k - 1) :: uint) = int (k - 1)" using assms(4) by (intro sint_of_nat_32) simp
  then have sc: "(scast (of_nat k - 1 :: uint) :: ulong) = of_nat (k - 1)"
    unfolding k by (simp add: scast_eq)
  have z: "BLOCK_OFFSET 1024 (blocks_per_group e * 0) = 0" by (simp add: block_offset_1024)
  have "inode_offset 0 (BLOCK_OFFSET 1024 table) (of_nat k) e = of_nat (1024 * unat table + 128 * (k - 1))"
    unfolding inode_offset_def assms(3) z u sc
    by (simp only: unsigned_0 add_0_left of_nat_add of_nat_mult of_nat_numeral mult.commute)
  moreover have "1024 * unat table + 128 * (k - 1) < 2 ^ 63" using assms(1) by simp
  ultimately show ?thesis using sint_of_nat_64 by presburger
qed

definition scanned_picture :: "image \<Rightarrow> uint \<Rightarrow> nat \<Rightarrow> bool" where
  "scanned_picture img table k \<longleftrightarrow> 1 \<le> k \<and> k < 2 ^ 31 \<and> 1024 * unat table + 128 * k \<le> length img \<and>
     picture img (inode_of (inode_at img table k))"

lemma read_inode_first_group:
  assumes "scanned_picture img table k" and "length img \<le> 2 ^ 32" and "block_size e = 1024" and "length inode = 128"
  shows "fst (read_inode img 0 (BLOCK_OFFSET 1024 table) (of_nat k) inode e) = inode_at img table k"
proof -
  have k: "1 \<le> k" "k < 2 ^ 31" "1024 * unat table + 128 * k \<le> length img"
    using assms(1) by (simp_all add: scanned_picture_def)
  then have "sint (inode_offset 0 (BLOCK_OFFSET 1024 table) (of_nat k) e) = int (1024 * unat table + 128 * (k - 1))"
    using assms(2,3) by (intro inode_offset_first_group) simp_all
  moreover have "128 * (k - 1) + 128 = 128 * k" using k(1) by simp
  then have "1024 * unat table + 128 * (k - 1) + 128 \<le> length img" using k(3) by linarith
  note seek_read_inside_nat [OF this, of inode e]
  ultimately show ?thesis unfolding read_inode_def inode_at_def using assms(4) by simp
qed

lemma scan_inode_picture:
  assumes r: "scan_inode w img dir 0 (BLOCK_OFFSET 1024 table) (of_nat k) buffer inode s = Ok (buffer', inode', s')"
    and len: "length buffer = 1024" "length inode = 128" and img: "length img \<le> 2 ^ 32" and bs: "block_size (sn_ext s) = 1024"
    and pic: "scanned_picture img table k"
  shows "logs w [(number_path dir (of_nat k), file_content img (inode_of (inode_at img table k)))] s s'"
proof -
  let ?ino = "inode_at img table k"
  obtain e where i: "read_inode img 0 (BLOCK_OFFSET 1024 table) (of_nat k) inode (sn_ext s) = (?ino, e)"
    using read_inode_first_group [OF pic img bs len(2)] by (metis prod.collapse)
  note e = read_inode_keeps [OF i len(2)]
  have p: "picture img (inode_of ?ino)" using pic by (simp add: scanned_picture_def)
  then have "S_ISREG (i_mode (inode_of ?ino))" by (simp add: picture_def)
  then have "rbind (recover w img 50 (Ok (number_path dir (of_nat k))) ?ino buffer (s\<lparr>sn_ext := e\<rparr>)) (\<lambda>(buffer, s). Ok (buffer, ?ino, s))
      = Ok (buffer', inode', s')" using r unfolding scan_inode_def i by simp
  then have b: "recover w img 50 (Ok (number_path dir (of_nat k))) ?ino buffer (s\<lparr>sn_ext := e\<rparr>) = Ok (buffer', s')"
    unfolding rbind_eq_Ok by (auto split: prod.splits)
  have "logs w [(number_path dir (of_nat k), file_content img (inode_of ?ino))] (s\<lparr>sn_ext := e\<rparr>) s'"
    using recover_picture [OF p img _ len(1) b] e bs by simp
  moreover have "logs w [] s (s\<lparr>sn_ext := e\<rparr>)" using e by (intro logs_Nil) simp
  ultimately show ?thesis using logs_append by fastforce
qed

lemma logs_block_size: "logs w ws s s' \<Longrightarrow> block_size (sn_ext s') = block_size (sn_ext s) \<and>
  inodes_per_block (sn_ext s') = inodes_per_block (sn_ext s)"
  by (simp add: logs_def geometry_def)

text \<open>The writes of a scan: the pictures under their numbers, what else is regular under its number, names.\<close>

definition right_write :: "environment \<Rightarrow> image \<Rightarrow> string \<Rightarrow> uint \<Rightarrow> string \<times> byte list \<Rightarrow> bool" where
  "right_write w img dir table x \<longleftrightarrow> name_write w img dir (fst x) \<or>
     (\<exists>no. fst x = number_path dir no \<and>
       (\<forall>k. scanned_picture img table k \<and> of_nat k = no \<longrightarrow> snd x = file_content img (inode_of (inode_at img table k))))"

definition scan_writes :: "environment \<Rightarrow> image \<Rightarrow> string \<Rightarrow> uint \<Rightarrow> uint set \<Rightarrow> scan \<Rightarrow> scan \<Rightarrow> bool" where
  "scan_writes w img dir table nos s s' \<longleftrightarrow> (\<exists>ws. logs w ws s s' \<and> (\<forall>x\<in>set ws. right_write w img dir table x) \<and>
     (\<forall>k. scanned_picture img table k \<and> of_nat k \<in> nos \<longrightarrow>
        (number_path dir (of_nat k), file_content img (inode_of (inode_at img table k))) \<in> set ws))"

lemma scan_writes_empty: "scan_writes w img dir table {} s s"
  unfolding scan_writes_def by (intro exI [of _ "[]"]) (simp add: logs_refl)

lemma scan_writes_append:
  assumes "scan_writes w img dir table A s t" and "scan_writes w img dir table B t u"
  shows "scan_writes w img dir table (A \<union> B) s u"
proof -
  from assms obtain us vs where us: "logs w us s t" "\<forall>x\<in>set us. right_write w img dir table x"
      "\<forall>k. scanned_picture img table k \<and> of_nat k \<in> A \<longrightarrow>
        (number_path dir (of_nat k), file_content img (inode_of (inode_at img table k))) \<in> set us"
    and vs: "logs w vs t u" "\<forall>x\<in>set vs. right_write w img dir table x"
      "\<forall>k. scanned_picture img table k \<and> of_nat k \<in> B \<longrightarrow>
        (number_path dir (of_nat k), file_content img (inode_of (inode_at img table k))) \<in> set vs"
    unfolding scan_writes_def by blast
  have "\<forall>x\<in>set (us @ vs). right_write w img dir table x" using us(2) vs(2) by auto
  moreover have "\<forall>k. scanned_picture img table k \<and> of_nat k \<in> A \<union> B \<longrightarrow>
      (number_path dir (of_nat k), file_content img (inode_of (inode_at img table k))) \<in> set (us @ vs)"
    using us(3) vs(3) by (auto simp del: of_nat_eq_iff)
  ultimately show ?thesis unfolding scan_writes_def using logs_append [OF us(1) vs(1)] by blast
qed

lemma scan_writes_block_size: "scan_writes w img dir table A s s' \<Longrightarrow> block_size (sn_ext s') = block_size (sn_ext s) \<and>
  inodes_per_block (sn_ext s') = inodes_per_block (sn_ext s)"
  unfolding scan_writes_def using logs_block_size by blast

lemma scan_inode_writes:
  assumes r: "scan_inode w img dir 0 (BLOCK_OFFSET 1024 table) no buffer inode s = Ok (buffer', inode', s')"
    and len: "length buffer = 1024" "length inode = 128" and buf: "buffer \<in> buffers w img"
    and img: "length img \<le> 2 ^ 32" and bs: "block_size (sn_ext s) = 1024"
  shows "scan_writes w img dir table {no} s s'"
proof (cases "\<exists>k. scanned_picture img table k \<and> of_nat k = no")
  case True
  then obtain k where k: "scanned_picture img table k" "of_nat k = no" by blast
  have same: "j = k" if "scanned_picture img table j" "of_nat j = no" for j
    using that k unat_of_nat_32 [of j] unat_of_nat_32 [of k] by (simp add: scanned_picture_def)
  let ?x = "(number_path dir no, file_content img (inode_of (inode_at img table k)))"
  have "logs w [?x] s s'" using scan_inode_picture [OF r [folded k(2)] len img bs k(1)] k(2) by simp
  moreover have "right_write w img dir table ?x" unfolding right_write_def using same by auto
  ultimately show ?thesis unfolding scan_writes_def using same by (intro exI [of _ "[?x]"]) auto
next
  case False
  obtain ws where ws: "logs w ws s s'" "\<forall>x\<in>set ws. fst x = number_path dir no \<or> name_write w img dir (fst x)"
    using scan_inode_logs(1) [OF r len buf] by blast
  have "\<forall>x\<in>set ws. right_write w img dir table x" using ws(2) False unfolding right_write_def by blast
  with ws(1) False show ?thesis unfolding scan_writes_def by blast
qed

lemma scan_inodes_writes:
  "scan_inodes w img dir 0 (BLOCK_OFFSET 1024 table) nos buffer inode s = Ok s' \<Longrightarrow> length buffer = 1024 \<Longrightarrow> length inode = 128 \<Longrightarrow>
   buffer \<in> buffers w img \<Longrightarrow> length img \<le> 2 ^ 32 \<Longrightarrow> block_size (sn_ext s) = 1024 \<Longrightarrow> scan_writes w img dir table (set nos) s s'"
proof (induction nos arbitrary: buffer inode s)
  case Nil
  then show ?case by (simp add: scan_writes_empty)
next
  case (Cons no nos)
  from Cons.prems(1) obtain b i s1 where s1: "scan_inode w img dir 0 (BLOCK_OFFSET 1024 table) no buffer inode s = Ok (b, i, s1)"
      "scan_inodes w img dir 0 (BLOCK_OFFSET 1024 table) nos b i s1 = Ok s'" by (auto simp: rbind_eq_Ok)
  note l = scan_inode_logs(2-4) [OF s1(1) Cons.prems(2-4)]
  note u = scan_inode_writes [OF s1(1) Cons.prems(2-6)]
  have bs: "block_size (sn_ext s1) = 1024" using scan_writes_block_size [OF u] Cons.prems(6) by simp
  from scan_writes_append [OF u Cons.IH [OF s1(2) l Cons.prems(5) bs]] show ?case by simp
qed

lemma scan_table_writes:
  "scan_table w img dir 0 (BLOCK_OFFSET 1024 table) is s = Ok s' \<Longrightarrow> length img \<le> 2 ^ 32 \<Longrightarrow> block_size (sn_ext s) = 1024 \<Longrightarrow>
   inodes_per_block (sn_ext s) = ipb \<Longrightarrow>
   scan_writes w img dir table {no. \<exists>i\<in>set is. \<exists>j\<in>set (upto ipb). no = i * ipb + j} s s'"
proof (induction "is" arbitrary: s)
  case Nil
  then show ?case by (simp add: scan_writes_empty)
next
  case (Cons i "is")
  let ?nos = "map (\<lambda>j. i * ipb + j) (upto ipb)"
  from Cons.prems(1,4) obtain s1 where s1: "scan_inodes w img dir 0 (BLOCK_OFFSET 1024 table) ?nos (uninit w 1024) (uninit w 128) s = Ok s1"
      "scan_table w img dir 0 (BLOCK_OFFSET 1024 table) is s1 = Ok s'" by (auto simp: rbind_eq_Ok)
  note u = scan_inodes_writes [OF s1(1) _ _ buffers.uninit Cons.prems(2,3), unfolded length_uninit, OF refl refl]
  note v = Cons.IH [OF s1(2) Cons.prems(2)]
  have "set ?nos \<union> {no. \<exists>i\<in>set is. \<exists>j\<in>set (upto ipb). no = i * ipb + j} =
      {no. \<exists>x\<in>set (i # is). \<exists>j\<in>set (upto ipb). no = x * ipb + j}" by auto
  with scan_writes_append [OF u v] scan_writes_block_size [OF u] Cons.prems(3,4) show ?case by simp
qed

text \<open>
  What is in a file after the writes: the last ones win, so that a file that only right writes reach has the right
  contents.
\<close>

lemma writes_to_right:
  "\<forall>x\<in>set ws. path_key (fst x) = p \<longrightarrow> snd x = b \<Longrightarrow> can_create w p \<Longrightarrow> fs p = None \<or> fs p = Some b \<Longrightarrow>
   writes_to w ws fs p = (if \<exists>x\<in>set ws. path_key (fst x) = p then Some b else fs p)"
proof (induction ws arbitrary: fs)
  case Nil
  then show ?case by (simp add: writes_to_def)
next
  case (Cons x ws)
  let ?fs = "store w (fst x) (snd x) fs"
  have f: "?fs p = (if path_key (fst x) = p then Some b else fs p)"
    using Cons.prems by (auto simp: store_def Let_def)
  have "writes_to w (x # ws) fs p = writes_to w ws ?fs p" by (simp add: writes_to_def split_def)
  also have "\<dots> = (if \<exists>x\<in>set ws. path_key (fst x) = p then Some b else ?fs p)"
    using Cons.prems f by (intro Cons.IH) auto
  finally show ?case using f by auto
qed

text \<open>Paths under a plain relative directory: the numbers differ, and a name is another one unless it is spelled like it.\<close>

definition plain_dir :: "string \<Rightarrow> bool" where
  "plain_dir dir \<longleftrightarrow> dir \<noteq> [] \<and> hd dir \<noteq> CHR ''.'' \<and> hd dir \<noteq> CHR ''/''"

definition number_name :: "nat \<Rightarrow> string" where
  "number_name k = ''file-'' @ c_show_int (int k) @ ''.jpg''"

lemma number_path_name: "k < 2 ^ 31 \<Longrightarrow> number_path dir (of_nat k) = dir @ ''/'' @ number_name k"
  by (simp add: number_path_def number_name_def sint_of_nat_32)

lemma number_path_inj: "number_path dir a = number_path dir b \<longleftrightarrow> a = b"
proof
  assume "number_path dir a = number_path dir b"
  then have "c_show_int (sint a) = c_show_int (sint b)" by (simp add: number_path_def)
  then have "sint a = sint b" using c_atoi_show by metis
  then show "a = b" by (rule signed_word_eqI)
qed simp

lemma plain_dir_key: "plain_dir dir \<Longrightarrow> path_key (dir @ q) = dir @ q" "plain_dir dir \<Longrightarrow> path_key (''./'' @ dir @ q) = dir @ q"
  by (cases dir; auto simp: plain_dir_def path_key_def)+

lemma right_write_key:
  assumes "right_write w img dir table x" and "plain_dir dir" and "scanned_picture img table k"
    and "number_name k \<notin> entry_names w img" and "path_key (fst x) = number_path dir (of_nat k)"
  shows "snd x = file_content img (inode_of (inode_at img table k))"
  using assms(1) unfolding right_write_def
proof
  assume "name_write w img dir (fst x)"
  then obtain n where n: "n \<in> entry_names w img" "fst x = ''./'' @ dir @ ''/'' @ n" unfolding name_write_def by blast
  have "k < 2 ^ 31" using assms(3) by (simp add: scanned_picture_def)
  with assms(5) n(2) plain_dir_key(2) [OF assms(2), of "''/'' @ n"] have "n = number_name k" by (simp add: number_path_name)
  with n(1) assms(4) show ?thesis by simp
next
  assume "\<exists>no. fst x = number_path dir no \<and>
      (\<forall>k. scanned_picture img table k \<and> of_nat k = no \<longrightarrow> snd x = file_content img (inode_of (inode_at img table k)))"
  then obtain no where no: "fst x = number_path dir no"
      "\<forall>k. scanned_picture img table k \<and> of_nat k = no \<longrightarrow> snd x = file_content img (inode_of (inode_at img table k))" by blast
  have "path_key (number_path dir no) = number_path dir no" unfolding number_path_def by (rule plain_dir_key(1) [OF assms(2)])
  then have "of_nat k = no" using assms(5) no(1) number_path_inj by metis
  with no(2) assms(3) show ?thesis by blast
qed

text \<open>A file system with blocks of 1024 bytes and one group, and where its inode table is.\<close>

definition disk_super :: "image \<Rightarrow> ext2_super_block" where
  "disk_super img = super_of (take 1024 (drop 1024 img))"

definition disk_group :: "image \<Rightarrow> ext2_group_desc" where
  "disk_group img = group_of (take 32 (drop 2048 img))"

definition one_group :: "image \<Rightarrow> bool" where
  "one_group img \<longleftrightarrow> 2080 \<le> length img \<and> length img \<le> 2 ^ 32 \<and> s_magic (disk_super img) = EXT2_SUPER_MAGIC \<and>
     s_log_block_size (disk_super img) = 0 \<and> s_blocks_per_group (disk_super img) \<noteq> 0 \<and>
     (s_blocks_count (disk_super img) + s_blocks_per_group (disk_super img) - 1) div s_blocks_per_group (disk_super img) = 1"

text \<open>The inodes of the table that are pictures with all their blocks in the image.\<close>

definition pictures :: "image \<Rightarrow> nat set" where
  "pictures img = {k. scanned_picture img (bg_inode_table (disk_group img)) k}"

definition table_inodes :: "image \<Rightarrow> nat" where
  "table_inodes img = unat (s_inodes_per_group (disk_super img)) div 8 * 8"

definition picture_bytes :: "image \<Rightarrow> nat \<Rightarrow> byte list" where
  "picture_bytes img k = file_content img (inode_of (inode_at img (bg_inode_table (disk_group img)) k))"

lemma one_group_super:
  assumes "one_group img" and "length super = 1024" and "unat off = 1024"
  shows "fst (seek_read img (uint off) 1024 super e) = take 1024 (drop 1024 img)"
proof -
  have "uint off = int 1024" using assms(3) by (metis uint_nat)
  then show ?thesis using seek_read_inside_nat [of 1024 1024 img super e] assms(1,2) by (simp add: one_group_def)
qed

lemma init_one_group:
  assumes "one_group img" and "ext2_read_init img (uninit w 1024) ext2_start = Ok e"
  shows "block_size e = 1024" and "inodes_per_block e = 8" and "num_groups e = 1"
    and "blocks_per_group e = s_blocks_per_group (disk_super img)"
proof -
  have "unat BASE_OFFSET = 1024" by (simp add: BASE_OFFSET_def)
  from one_group_super [OF assms(1) length_uninit this, of w ext2_start]
  obtain e0 where r: "seek_read img (uint BASE_OFFSET) 1024 (uninit w 1024) ext2_start = (take 1024 (drop 1024 img), e0)"
    by (metis prod.collapse)
  show "block_size e = 1024" "inodes_per_block e = 8" "num_groups e = 1" "blocks_per_group e = s_blocks_per_group (disk_super img)"
    using assms unfolding ext2_read_init_def r
    by (auto simp: one_group_def disk_super_def say_def Let_def split: if_splits)
qed

lemma upto_one: "upto 1 = [0]"
  by (simp add: upto_def)

lemma super_one_group:
  assumes g: "one_group img" and e: "block_size e = 1024" "length super = 1024"
    and r: "read_super_block img 0 super e = Ok (x, super', e')"
  shows "block_size e' = 1024" and "inodes_per_block e' = 8"
    and "itable_blocks e' = s_inodes_per_group (disk_super img) div 8" and "blocks_per_group e' = blocks_per_group e"
proof -
  have o: "BASE_OFFSET + BLOCK_OFFSET (block_size e) (blocks_per_group e * 0) = 1024"
    using e(1) by (simp add: block_offset_1024 BASE_OFFSET_def)
  have "unat (1024 :: uint) = 1024" by simp
  from one_group_super [OF g e(2) this, of e] obtain e0 where
    q: "seek_read img (uint (1024 :: uint)) 1024 super e = (take 1024 (drop 1024 img), e0)" by (metis prod.collapse)
  then have "geometry e0 = geometry e" using seek_read_keeps(2) [OF q] e(2) by simp
  then have "blocks_per_group e0 = blocks_per_group e" by (simp add: geometry_def)
  with g r q show "block_size e' = 1024" "inodes_per_block e' = 8"
      "itable_blocks e' = s_inodes_per_group (disk_super img) div 8" "blocks_per_group e' = blocks_per_group e"
    unfolding read_super_block_def o
    by (auto simp: one_group_def disk_super_def say_def Let_def split: if_splits)
qed

lemma group_one_group:
  assumes g: "one_group img" and e: "block_size e = 1024" "length gd = 32" and r: "read_group_desc img 0 gd e = Ok (gd', e')"
  shows "group_of gd' = disk_group img" and "geometry e' = geometry e"
proof -
  have o: "BASE_OFFSET + BLOCK_OFFSET (block_size e) (blocks_per_group e * 0) + block_size e = 2048"
    using e(1) by (simp add: block_offset_1024 BASE_OFFSET_def)
  have u: "uint (2048 :: uint) = int 2048" by simp
  have "fst (seek_read img (uint (2048 :: uint)) 32 gd e) = take 32 (drop 2048 img)"
    unfolding u using seek_read_inside_nat [of 2048 32 img gd e] g e(2) by (simp add: one_group_def)
  then obtain e0 where q: "seek_read img (uint (2048 :: uint)) 32 gd e = (take 32 (drop 2048 img), e0)" by (metis prod.collapse)
  then have "geometry e0 = geometry e" using seek_read_keeps(2) [OF q] e(2) by simp
  moreover have "gd' = take 32 (drop 2048 img)" "e' = say (said e' ! (length (said e0))) e0"
    using r q unfolding read_group_desc_def Let_def o by (auto simp: say_def)
  ultimately show "group_of gd' = disk_group img" "geometry e' = geometry e"
    by (simp_all add: disk_group_def say_def geometry_def)
      (metis ext2.select_convs ext2.surjective ext2.update_convs(8))+
qed

lemma table_number:
  assumes "k < unat n * 8" and "unat n * 8 < 2 ^ 32"
  shows "\<exists>i\<in>set (upto n). \<exists>j\<in>set (upto 8). (of_nat k :: uint) = i * 8 + j"
proof (intro bexI)
  show "(of_nat k :: uint) = of_nat (k div 8) * 8 + of_nat (k mod 8)"
    by (metis of_nat_add of_nat_mult of_nat_numeral div_mult_mod_eq)
  show "of_nat (k mod 8) \<in> set (upto 8)" by (simp add: upto_def)
  show "of_nat (k div 8) \<in> set (upto n)" using assms(1) by (simp add: upto_def less_mult_imp_div_less)
qed

text \<open>What a run writes.\<close>

lemma runscan_writes:
  assumes g: "one_group img" and d: "\<not> dir_exists w" and r: "runscan w [input, dir] img fs = Ok (0, out, fs')"
  shows "\<exists>ws. fs' = writes_to w ws fs \<and> (\<forall>x\<in>set ws. right_write w img dir (bg_inode_table (disk_group img)) x) \<and>
    (\<forall>k<table_inodes img. scanned_picture img (bg_inode_table (disk_group img)) k \<longrightarrow> (number_path dir (of_nat k), picture_bytes img k) \<in> set ws)"
proof -
  from r d obtain e0 s where e0: "ext2_read_init img (uninit w 1024) ext2_start = Ok e0"
    and s: "scan_groups w img dir (upto (num_groups e0)) (uninit w 1024) (uninit w 32) \<lparr>sn_ext = e0, sn_files = fs\<rparr> = Ok s"
      "fs' = sn_files s" by (auto simp: runscan_def rbind_eq_Ok)
  note i0 = init_one_group [OF g e0]
  from s(1) obtain x super e1 gd e2 where e1: "read_super_block img 0 (uninit w 1024) e0 = Ok (x, super, e1)"
    and e2: "read_group_desc img 0 (uninit w 32) e1 = Ok (gd, e2)"
    and t: "scan_table w img dir 0 (locate_inode_table 0 (group_of gd) e2) (upto (itable_blocks e2))
      \<lparr>sn_ext = e2, sn_files = fs\<rparr> = Ok s" unfolding i0(3) upto_one by (auto simp: rbind_eq_Ok)
  note i1 = super_one_group [OF g i0(1) length_uninit e1]
  note i2 = group_one_group [OF g i1(1) length_uninit e2]
  have geo: "block_size e2 = 1024" "inodes_per_block e2 = 8" "itable_blocks e2 = s_inodes_per_group (disk_super img) div 8"
    using i1 i2(2) by (simp_all add: geometry_def)
  let ?table = "bg_inode_table (disk_group img)"
  have "locate_inode_table 0 (group_of gd) e2 = BLOCK_OFFSET 1024 ?table"
    by (simp add: locate_inode_table_def geo i2(1))
  with t geo have "scan_writes w img dir ?table {no. \<exists>i\<in>set (upto (itable_blocks e2)). \<exists>j\<in>set (upto 8). no = i * 8 + j}
      \<lparr>sn_ext = e2, sn_files = fs\<rparr> s"
    using scan_table_writes [of w img dir ?table "upto (itable_blocks e2)" "\<lparr>sn_ext = e2, sn_files = fs\<rparr>" s 8] g
    by (simp add: one_group_def)
  then obtain ws where ws: "logs w ws \<lparr>sn_ext = e2, sn_files = fs\<rparr> s" "\<forall>x\<in>set ws. right_write w img dir ?table x"
      "\<forall>k. scanned_picture img ?table k \<and> (\<exists>i\<in>set (upto (itable_blocks e2)). \<exists>j\<in>set (upto 8). of_nat k = i * 8 + j) \<longrightarrow>
        (number_path dir (of_nat k), file_content img (inode_of (inode_at img ?table k))) \<in> set ws"
    unfolding scan_writes_def by blast
  have m: "unat (itable_blocks e2) = unat (s_inodes_per_group (disk_super img)) div 8"
    by (simp add: geo(3) unat_div_distrib)
  have "unat (s_inodes_per_group (disk_super img)) < 2 ^ 32"
    using unsigned_less [of "s_inodes_per_group (disk_super img)"] by simp
  then have lt: "unat (itable_blocks e2) * 8 < 2 ^ 32" unfolding m by simp
  have "(number_path dir (of_nat k), picture_bytes img k) \<in> set ws" if k: "k < table_inodes img" "scanned_picture img ?table k" for k
  proof -
    have "k < unat (itable_blocks e2) * 8" using k(1) by (simp add: m table_inodes_def)
    from table_number [OF this lt] ws(3) k(2) show ?thesis by (simp add: picture_bytes_def)
  qed
  moreover have "fs' = writes_to w ws fs" using ws(1) s(2) by (simp add: logs_def)
  ultimately show ?thesis using ws(2) by blast
qed

text \<open>
  C19: picture recovery. On an image with one group of blocks of 1024 bytes, when the scan comes to its end in a new output
  directory in which files can be created, every inode of the table but the last (the numbers from 1 to one less than the
  size of the table), whether it is in use or deleted, that is a picture with its blocks in the image has its file
  \<open>file-<number>.jpg\<close>, and that file holds exactly the blocks of the block map, direct, indirect and doubly indirect, in order
  and cut at the size of the picture: provided that no name that the scan can find in a directory spells the name of that file.
\<close>

theorem runscan_recovers_pictures:
  assumes g: "one_group img" and d: "\<not> dir_exists w" and r: "runscan w [input, dir] img fs = Ok (0, out, fs')"
    and dir: "plain_dir dir" and new: "\<forall>p. fs (dir @ ''/'' @ p) = None \<and> can_create w (dir @ ''/'' @ p)"
    and k: "k \<in> pictures img" "k < table_inodes img" and n: "number_name k \<notin> entry_names w img"
  shows "fs' (dir @ ''/'' @ number_name k) = Some (picture_bytes img k)"
proof -
  let ?table = "bg_inode_table (disk_group img)"
  from runscan_writes [OF g d r] obtain ws where ws: "fs' = writes_to w ws fs" "\<forall>x\<in>set ws. right_write w img dir ?table x"
      "\<forall>k<table_inodes img. scanned_picture img ?table k \<longrightarrow> (number_path dir (of_nat k), picture_bytes img k) \<in> set ws" by blast
  have sp: "scanned_picture img ?table k" using k(1) by (simp add: pictures_def)
  have "(number_path dir (of_nat k), picture_bytes img k) \<in> set ws" using ws(3) k(2) sp by blast
  moreover have key: "path_key (number_path dir (of_nat k)) = number_path dir (of_nat k)"
    unfolding number_path_def by (rule plain_dir_key(1) [OF dir])
  ultimately have "\<exists>x\<in>set ws. path_key (fst x) = number_path dir (of_nat k)" by force
  moreover have "\<forall>x\<in>set ws. path_key (fst x) = number_path dir (of_nat k) \<longrightarrow> snd x = picture_bytes img k"
    using ws(2) right_write_key [OF _ dir sp n] unfolding picture_bytes_def by blast
  moreover have np: "number_path dir (of_nat k) = dir @ ''/'' @ number_name k"
    using sp by (intro number_path_name) (simp add: scanned_picture_def)
  ultimately have "writes_to w ws fs (number_path dir (of_nat k)) = Some (picture_bytes img k)"
    using writes_to_right [of ws "number_path dir (of_nat k)" "picture_bytes img k" w fs] new by simp
  then show ?thesis using ws(1) by (simp add: np)
qed

end
