(* ===== verification/RunScanDemo.thy ===== *)
theory RunScanDemo
  imports RunScanFun
begin

text \<open>
  P5: an image on which the scan finds pictures, the packed form of a directory block, and what the
  address arithmetic does to the later groups.
\<close>

section \<open>A small image\<close>

text \<open>Eight identical inodes, from the one in front of the table on: a picture of four bytes.\<close>

definition demo_byte :: "nat \<Rightarrow> byte" where
  "demo_byte i =
     (if i = 1024 + 4 then 100 else if i = 1024 + 32 then 100 else if i = 1024 + 40 then 8
      else if i = 1024 + 56 then 0x53 else if i = 1024 + 57 then 0xEF
      else if i = 2048 + 8 then 5
      else if 4992 \<le> i \<and> i < 6016 then
        (if i mod 128 = 1 then 0x80 else if i mod 128 = 4 then 4 else if i mod 128 = 40 then 6 else 0)
      else if i = 6144 then 0xff else if i = 6145 then 0xd8 else if i = 6146 then 0xff else if i = 6147 then 0xe0 else 0)"

definition demo_image :: image where
  "demo_image = map demo_byte [0..<7168]"

definition demo_bytes :: "nat \<Rightarrow> nat \<Rightarrow> byte list" where
  "demo_bytes p n = map demo_byte [p..<p + n]"

lemma demo_part: "p + n \<le> 7168 \<Longrightarrow> take n (drop p demo_image) = demo_bytes p n"
  by (simp add: demo_image_def demo_bytes_def take_map drop_map)

lemma demo_nth: "i < n \<Longrightarrow> demo_bytes p n ! i = demo_byte (p + i)"
  by (simp add: demo_bytes_def)

lemma length_demo: "length demo_image = 7168"
  by (simp add: demo_image_def)

lemma length_demo_bytes [simp]: "length (demo_bytes p n) = n"
  by (simp add: demo_bytes_def)

lemma demo_super: "one_group demo_image"
  by (simp add: one_group_def length_demo disk_super_def demo_part super_of_def le32_def le16_def demo_nth demo_byte_def
      EXT2_SUPER_MAGIC_def)

lemma demo_table: "bg_inode_table (disk_group demo_image) = 5" "table_inodes demo_image = 8"
  by (simp_all add: disk_group_def table_inodes_def disk_super_def demo_part demo_nth group_of_def super_of_def le32_def demo_byte_def)

lemma demo_block: "unat b \<le> 6 \<Longrightarrow> block_at demo_image b = demo_bytes (1024 * unat b) 1024" "unat b \<le> 6 \<Longrightarrow> in_image demo_image b"
  by (simp_all add: block_at_def demo_part in_image_def length_demo)

text \<open>A scan of regular inodes only always comes to its end.\<close>

definition regular_at :: "image \<Rightarrow> uint \<Rightarrow> uint \<Rightarrow> bool" where
  "regular_at img start no \<longleftrightarrow> (\<exists>m. (\<forall>e. block_size e = 1024 \<longrightarrow> sint (inode_offset 0 start no e) = int m) \<and>
     m + 128 \<le> length img \<and> S_ISREG (i_mode (inode_of (take 128 (drop m img)))))"

lemma recover_ok: "length p < room \<Longrightarrow> \<exists>b s'. recover w img room (Ok p) inode buf s = Ok (b, s')"
  by (auto simp: recover_def Let_def split: prod.splits)

lemma scan_inode_ok:
  assumes "regular_at img start no" and "length (number_path dir no) < 50" and "block_size (sn_ext s) = 1024" and "length inode = 128"
  shows "\<exists>b i s'. scan_inode w img dir 0 start no buffer inode s = Ok (b, i, s')"
proof -
  obtain m where m: "sint (inode_offset 0 start no (sn_ext s)) = int m" "m + 128 \<le> length img"
      "S_ISREG (i_mode (inode_of (take 128 (drop m img))))" using assms(1,3) by (auto simp: regular_at_def)
  have "fst (read_inode img 0 start no inode (sn_ext s)) = take 128 (drop m img)"
    unfolding read_inode_def m(1) using seek_read_inside_nat [OF m(2), of inode] assms(4) by simp
  then obtain e where i: "read_inode img 0 start no inode (sn_ext s) = (take 128 (drop m img), e)" by (metis prod.collapse)
  obtain b s' where r: "recover w img 50 (Ok (number_path dir no)) (take 128 (drop m img)) buffer (s\<lparr>sn_ext := e\<rparr>) = Ok (b, s')"
    using recover_ok [OF assms(2)] by blast
  then show ?thesis unfolding scan_inode_def i by (simp add: m(3))
qed

lemma scan_inodes_ok:
  "\<forall>no\<in>set nos. regular_at img start no \<and> length (number_path dir no) < 50 \<Longrightarrow> block_size (sn_ext s) = 1024 \<Longrightarrow>
   length buffer = 1024 \<Longrightarrow> length inode = 128 \<Longrightarrow> buffer \<in> buffers w img \<Longrightarrow>
   \<exists>s'. scan_inodes w img dir 0 start nos buffer inode s = Ok s' \<and> geometry (sn_ext s') = geometry (sn_ext s)"
proof (induction nos arbitrary: buffer inode s)
  case Nil
  then show ?case by simp
next
  case (Cons no nos)
  then obtain b i s1 where 1: "scan_inode w img dir 0 start no buffer inode s = Ok (b, i, s1)"
    using scan_inode_ok [of img start no dir s inode w buffer] by auto
  from scan_inode_logs(1-4) [OF this Cons.prems(3,4,5)] have k: "geometry (sn_ext s1) = geometry (sn_ext s)"
      "length b = 1024" "length i = 128" "b \<in> buffers w img" by (auto simp: logs_def)
  then have "block_size (sn_ext s1) = 1024" using Cons.prems(2) by (simp add: geometry_def)
  with Cons.IH [of s1 b i] Cons.prems(1) k 1 show ?case by auto
qed

lemma demo_start: "BLOCK_OFFSET 1024 5 = 5120"
  by (simp add: block_offset_1024)

lemma demo_regular: "n < 8 \<Longrightarrow> regular_at demo_image 5120 (of_nat n)"
proof -
  assume n: "n < 8"
  let ?m = "4992 + 128 * n"
  have off: "sint (inode_offset 0 5120 (of_nat n) e) = int ?m" if "block_size e = 1024" for e
  proof -
    have "n = 0 \<or> n = 1 \<or> n = 2 \<or> n = 3 \<or> n = 4 \<or> n = 5 \<or> n = 6 \<or> n = 7" using n by linarith
    then show ?thesis using that by (elim disjE) (simp_all add: inode_offset_def block_offset_1024)
  qed
  have "take 128 (drop ?m demo_image) = demo_bytes ?m 128" using n by (intro demo_part) simp
  moreover have "le16 (demo_bytes ?m 128) 0 = 0x8000"
    using n by (auto simp: le16_def demo_nth demo_byte_def)
  ultimately have "S_ISREG (i_mode (inode_of (take 128 (drop ?m demo_image))))"
    by (simp add: inode_of_def S_ISREG_def)
  then show ?thesis using off n unfolding regular_at_def
    by (intro exI [of _ ?m]) (simp add: length_demo)
qed

lemma demo_path: "number_path ''out'' 3 = ''out/file-3.jpg''"
  by code_simp

lemma init_ok:
  assumes "one_group img"
  shows "\<exists>e. ext2_read_init img (uninit w 1024) ext2_start = Ok e"
proof -
  have "unat BASE_OFFSET = 1024" by (simp add: BASE_OFFSET_def)
  from one_group_super [OF assms length_uninit this, of w ext2_start]
  obtain e0 where "seek_read img (uint BASE_OFFSET) 1024 (uninit w 1024) ext2_start = (take 1024 (drop 1024 img), e0)"
    by (metis prod.collapse)
  with assms show ?thesis by (auto simp: ext2_read_init_def one_group_def disk_super_def Let_def)
qed

lemma super_ok:
  assumes "one_group img" and "block_size e = 1024"
  shows "\<exists>x super e'. read_super_block img 0 (uninit w 1024) e = Ok (x, super, e')"
proof -
  have o: "BASE_OFFSET + BLOCK_OFFSET (block_size e) (blocks_per_group e * 0) = 1024"
    using assms(2) by (simp add: block_offset_1024 BASE_OFFSET_def)
  have "unat (1024 :: uint) = 1024" by simp
  from one_group_super [OF assms(1) length_uninit this, of w e] obtain e0 where
    "seek_read img (uint (1024 :: uint)) 1024 (uninit w 1024) e = (take 1024 (drop 1024 img), e0)" by (metis prod.collapse)
  with assms(1) show ?thesis unfolding read_super_block_def o
    by (auto simp: one_group_def disk_super_def Let_def)
qed

lemma group_ok: "\<exists>gd' e'. read_group_desc img 0 gd e = Ok (gd', e')"
  by (auto simp: read_group_desc_def Let_def split: prod.splits)

lemma demo_paths: "\<forall>no\<in>set [0, 1, 2, 3, 4, 5, 6, 7]. length (number_path ''out'' no) < 50"
  by code_simp

lemma demo_numbers: "map (\<lambda>j. 0 * 8 + j) (upto 8) = [0, 1, 2, 3, 4, 5, 6, 7 :: uint]"
  by (simp add: upto_def upt_rec)

lemma demo_runs:
  assumes "\<not> dir_exists w"
  shows "\<exists>out fs'. runscan w [''img'', ''out''] demo_image fs = Ok (0, out, fs')"
proof -
  obtain e0 where e0: "ext2_read_init demo_image (uninit w 1024) ext2_start = Ok e0" using init_ok [OF demo_super] by blast
  note i0 = init_one_group [OF demo_super e0]
  obtain x super e1 where e1: "read_super_block demo_image 0 (uninit w 1024) e0 = Ok (x, super, e1)"
    using super_ok [OF demo_super i0(1)] by blast
  note i1 = super_one_group [OF demo_super i0(1) length_uninit e1]
  obtain gd e2 where e2: "read_group_desc demo_image 0 (uninit w 32) e1 = Ok (gd, e2)" using group_ok by blast
  note i2 = group_one_group [OF demo_super i1(1) length_uninit e2]
  have ipg: "s_inodes_per_group (disk_super demo_image) = 8"
    by (simp add: disk_super_def demo_part demo_nth super_of_def le32_def demo_byte_def)
  have geo: "block_size e2 = 1024" "inodes_per_block e2 = 8" "itable_blocks e2 = 1"
    using i1 i2(2) ipg by (simp_all add: geometry_def)
  have start: "locate_inode_table 0 (group_of gd) e2 = 5120"
    by (simp add: locate_inode_table_def geo i2(1) demo_table demo_start)
  have reg: "\<forall>no\<in>set [0, 1, 2, 3, 4, 5, 6, 7]. regular_at demo_image 5120 no \<and> length (number_path ''out'' no) < 50"
    using demo_paths demo_regular [of 0] demo_regular [of 1] demo_regular [of 2] demo_regular [of 3] demo_regular [of 4]
      demo_regular [of 5] demo_regular [of 6] demo_regular [of 7] by simp
  obtain s where "scan_inodes w demo_image ''out'' 0 5120 [0, 1, 2, 3, 4, 5, 6, 7] (uninit w 1024) (uninit w 128)
      \<lparr>sn_ext = e2, sn_files = fs\<rparr> = Ok s"
    using scan_inodes_ok [OF reg, of "\<lparr>sn_ext = e2, sn_files = fs\<rparr>" "uninit w 1024" "uninit w 128" w] geo buffers.uninit by auto
  then have "scan_groups w demo_image ''out'' (upto (num_groups e0)) (uninit w 1024) (uninit w 32)
      \<lparr>sn_ext = e0, sn_files = fs\<rparr> = Ok s"
    unfolding i0(3) upto_one by (simp add: e1 e2 start geo upto_one demo_numbers [simplified])
  with assms e0 show ?thesis by (simp add: runscan_def)
qed

lemma demo_inode: "inode_at demo_image 5 3 = demo_bytes 5376 128"
  by (simp add: inode_at_def demo_part)

lemma demo_map: "\<exists>bs. i_block (inode_of (demo_bytes 5376 128)) = 6 # bs \<and> length bs = 14"
  by (simp add: inode_of_def upt_conv_Cons le32_def demo_nth demo_byte_def)

lemma demo_size: "i_size (inode_of (demo_bytes 5376 128)) = 4" "i_mode (inode_of (demo_bytes 5376 128)) = 0x8000"
  by (simp_all add: inode_of_def le32_def le16_def demo_nth demo_byte_def)

lemma demo_head: "take 4 (demo_bytes 6144 1024) = [0xff, 0xd8, 0xff, 0xe0]"
  by (simp add: demo_bytes_def upt_conv_Cons demo_byte_def)

lemma demo_content: "picture_bytes demo_image 3 = [0xff, 0xd8, 0xff, 0xe0]"
proof -
  obtain bs where "i_block (inode_of (demo_bytes 5376 128)) = 6 # bs" using demo_map by blast
  then have "\<exists>xs. file_blocks demo_image (i_block (inode_of (demo_bytes 5376 128))) = 6 # xs" by (simp add: file_blocks_def)
  then show ?thesis
    using demo_head by (auto simp: picture_bytes_def file_content_def demo_table demo_inode demo_size demo_block(1))
qed

lemma demo_picture: "3 \<in> pictures demo_image"
proof -
  obtain bs where bs: "i_block (inode_of (demo_bytes 5376 128)) = 6 # bs" "length bs = 14" using demo_map by blast
  then have xs: "\<exists>xs. file_blocks demo_image (i_block (inode_of (demo_bytes 5376 128))) = 6 # xs" by (simp add: file_blocks_def)
  have in6: "in_image demo_image 6" "block_at demo_image 6 = demo_bytes 6144 1024"
    using demo_block [of 6] by simp_all
  have "is_jpg (demo_bytes 6144 1024)" by (simp add: is_jpg_def demo_nth demo_byte_def)
  moreover have "file_readable demo_image (inode_of (demo_bytes 5376 128))"
    using xs bs in6(1) by (auto simp: file_readable_def demo_size blocks_of_def Let_def)
  ultimately show ?thesis
    using bs in6 by (simp add: pictures_def scanned_picture_def demo_table demo_inode length_demo picture_def demo_size S_ISREG_def)
qed

text \<open>No buffer holds a byte that is neither in the image nor in uninitialised memory.\<close>

lemma buffers_bytes: "buf \<in> buffers w img \<Longrightarrow> set buf \<subseteq> set img \<union> range (junk w)"
proof (induction rule: buffers.induct)
  case (uninit n)
  then show ?case by (auto simp: uninit_def)
next
  case (seek_read buf off n e)
  have "set (fst (seek_read img off n buf e)) \<subseteq> set img \<union> set buf"
    by (auto simp: seek_read_def read_fd_def Let_def dest!: in_set_takeD in_set_dropD split: prod.splits)
  with seek_read show ?case by auto
qed

lemma entry_array_bytes: "arr \<in> entry_arrays w img \<Longrightarrow> set arr \<subseteq> set img \<union> range (junk w) \<union> {0}"
proof -
  assume "arr \<in> entry_arrays w img"
  then obtain len q buf name where arr: "arr = take len (drop q buf) @ drop len name" "buf \<in> buffers w img"
      "name = uninit w EXT2_NAME_LEN \<or> name = replicate EXT2_NAME_LEN 0" unfolding entry_arrays_def by blast
  have "set name \<subseteq> range (junk w) \<union> {0}" using arr(3) by (auto simp: uninit_def)
  moreover have "set arr \<subseteq> set buf \<union> set name" unfolding arr(1) by (auto dest!: in_set_takeD in_set_dropD)
  ultimately show ?thesis using buffers_bytes [OF arr(2)] by blast
qed

lemma demo_no_name: "number_name 3 \<notin> entry_names \<lparr>dir_exists = False, can_create = (\<lambda>_. True), junk = (\<lambda>_. 7)\<rparr> demo_image"
proof
  assume "number_name 3 \<in> entry_names \<lparr>dir_exists = False, can_create = (\<lambda>_. True), junk = (\<lambda>_. 7)\<rparr> demo_image"
  then obtain arr where arr: "number_name 3 = c_name arr"
      "arr \<in> entry_arrays \<lparr>dir_exists = False, can_create = (\<lambda>_. True), junk = (\<lambda>_. 7)\<rparr> demo_image"
    unfolding entry_names_def by blast
  have "CHR ''f'' \<in> set (number_name 3)" by (simp add: number_name_def)
  then obtain b where b: "b \<in> set arr" "CHR ''f'' = char_of (unat b)" unfolding arr(1) c_name_def by (auto dest: set_takeWhileD)
  have "b \<in> set demo_image \<union> {7, 0}" using entry_array_bytes [OF arr(2)] b(1) by auto
  then have "b \<in> {0, 4, 5, 6, 7, 8, 100, 0x53, 0x80, 0xEF, 0xff, 0xd8, 0xe0}"
    by (auto simp: demo_image_def demo_byte_def split: if_splits)
  moreover have "unat b = 102" if "CHR ''f'' = char_of (unat b)"
    using arg_cong [OF that, of "of_char :: char \<Rightarrow> nat"] unsigned_less [of b, where ?'a = nat] by simp
  then have "b = 102" using b(2) by (simp add: word_unat_eq_iff)
  ultimately show False by simp
qed

theorem runscan_recovers_pictures_witness:
  "\<exists>out fs'. runscan \<lparr>dir_exists = False, can_create = (\<lambda>_. True), junk = (\<lambda>_. 7)\<rparr> [''img'', ''out''] demo_image Map.empty =
      Ok (0, out, fs') \<and> fs' ''out/file-3.jpg'' = Some [0xff, 0xd8, 0xff, 0xe0]"
proof -
  let ?w = "\<lparr>dir_exists = False, can_create = (\<lambda>_. True), junk = (\<lambda>_. 7)\<rparr>"
  have d: "\<not> dir_exists ?w" "plain_dir ''out''" by (simp_all add: plain_dir_def)
  have new: "\<forall>p. Map.empty (''out'' @ ''/'' @ p) = None \<and> can_create ?w (''out'' @ ''/'' @ p)" by simp
  obtain out fs' where r: "runscan ?w [''img'', ''out''] demo_image Map.empty = Ok (0, out, fs')"
    using demo_runs [OF d(1)] by blast
  have "3 < table_inodes demo_image" unfolding demo_table by simp
  from runscan_recovers_pictures [OF demo_super d(1) r d(2) new demo_picture this demo_no_name]
  have "fs' (number_path ''out'' (of_nat 3)) = Some (picture_bytes demo_image 3)" by (subst number_path_name) simp_all
  with r show ?thesis by (simp add: demo_content demo_path)
qed

section \<open>The other groups\<close>

lemma twice_fits: "1024 * (a + 2 * (b :: nat)) < 2 ^ 32 \<Longrightarrow> 1024 * b < 2 ^ 32 \<and> 1024 * (a + b) < 2 ^ 32"
  by simp

text \<open>
  The inodes of the later groups are looked for in the wrong place. \<open>locate_inode_table\<close> adds the
  offset of the group to the block of the table, and \<open>read_inode\<close> adds it again: for group \<open>t\<close> the
  bytes are read \<open>t\<close> group sizes behind the table of that group, which is where group \<open>2 t\<close> has its
  table.
\<close>

theorem later_groups_misread:
  assumes "block_size e = 1024" and "1 \<le> k" and "k < 2 ^ 31"
    and "1024 * (unat (bg_inode_table g) + 2 * (unat (blocks_per_group e) * unat t)) < 2 ^ 32"
  shows "sint (inode_offset t (locate_inode_table t g e) (of_nat k) e) =
      1024 * (int (unat (bg_inode_table g)) + int (unat (blocks_per_group e)) * (2 * int (unat t))) + 128 * (int k - 1)"
proof -
  let ?T = "unat (bg_inode_table g)" and ?G = "unat (blocks_per_group e) * unat t"
  have G: "1024 * ?G < 2 ^ 32" "1024 * (?T + ?G) < 2 ^ 32" 
    using twice_fits [OF assms(4)] by blast+
  have g1: "unat (blocks_per_group e * t) = ?G"
    using G(1) by (intro unat_mult_lem [THEN iffD1]) (simp add: mult.commute)
  then have g2: "unat (bg_inode_table g + blocks_per_group e * t) = ?T + ?G"
    using G(2) by (simp add: unat_word_ariths)
  have b: "unat (1024 * x :: uint) = 1024 * unat x" if "1024 * unat x < 2 ^ 32" for x
    using that by (simp add: unat_word_ariths)
  have o: "unat (BLOCK_OFFSET 1024 (blocks_per_group e * t)) = 1024 * ?G"
      "unat (locate_inode_table t g e) = 1024 * (?T + ?G)"
    unfolding locate_inode_table_def assms(1) block_offset_1024
    using b [of "blocks_per_group e * t"] b [of "bg_inode_table g + blocks_per_group e * t"] G by (simp_all only: g1 g2)
  have w: "(ucast x :: ulong) = of_nat (unat x)" for x :: uint by (rule of_nat_unat [symmetric])
  have k: "(of_nat k - 1 :: uint) = of_nat (k - 1)" using assms(2) by (simp add: of_nat_diff)
  have "sint (of_nat (k - 1) :: uint) = int (k - 1)" using assms(3) by (intro sint_of_nat_32) simp
  then have sc: "(scast (of_nat k - 1 :: uint) :: ulong) = of_nat (k - 1)" unfolding k by (simp add: scast_eq)
  have "inode_offset t (locate_inode_table t g e) (of_nat k) e = of_nat (1024 * ?G + 1024 * (?T + ?G) + 128 * (k - 1))"
    unfolding inode_offset_def assms(1) w o sc by (simp only: of_nat_add of_nat_mult of_nat_numeral mult.commute)
  moreover have "1024 * ?G + 1024 * (?T + ?G) + 128 * (k - 1) < 2 ^ 63" using G assms(3) by simp
  ultimately have "sint (inode_offset t (locate_inode_table t g e) (of_nat k) e) = int (1024 * ?G + 1024 * (?T + ?G) + 128 * (k - 1))"
    using sint_of_nat_64 by presburger
  then show ?thesis using assms(2) by (simp add: of_nat_diff algebra_simps)
qed

theorem later_groups_misread_witness:
  "sint (inode_offset 1 (locate_inode_table 1 (disk_group demo_image) (ext2_start\<lparr>blocks_per_group := 8192\<rparr>)) 1
     (ext2_start\<lparr>blocks_per_group := 8192\<rparr>)) = 1024 * (5 + 8192 * 2)"
  using later_groups_misread [of "ext2_start\<lparr>blocks_per_group := 8192\<rparr>" 1 "disk_group demo_image" 1]
  by (simp add: ext2_start_def demo_table)

section \<open>Powers\<close>

lemma is_power_loop_ends:
  assumes "2 \<le> n"
  shows "0 < m \<Longrightarrow> m < 2 ^ k \<Longrightarrow> is_power_loop (Suc k) m n = Ok (\<exists>j. m = n ^ j)"
proof (induction k arbitrary: m)
  case 0
  then have "m = 1" by simp
  moreover have "\<exists>j. (1::int) = n ^ j" by (rule exI [of _ 0]) simp
  ultimately show ?case by simp
next
  case (Suc k)
  show ?case
  proof (cases "m = 1 \<or> m mod n \<noteq> 0")
    case True
    have "\<exists>j. m = n ^ j" if "m = 1" using that by (intro exI [of _ 0]) simp
    moreover have "\<not> (\<exists>j. m = n ^ j)" if "m mod n \<noteq> 0" "m \<noteq> 1"
    proof
      assume "\<exists>j. m = n ^ j"
      then obtain j where j: "m = n ^ j" by blast
      with that(2) obtain i where "j = Suc i" by (cases j) auto
      with j that(1) show False by simp
    qed
    ultimately show ?thesis using True assms by auto
  next
    case False
    then have m: "m = n * (m div n)" using assms by auto
    have "0 < n * (m div n)" using Suc.prems(1) m by simp
    then have d: "0 < m div n" by (rule zero_less_mult_pos) (use assms in simp)
    have "2 * (m div n) \<le> m" using m d assms by (metis mult_right_mono less_imp_le)
    then have lt: "m div n < 2 ^ k" using Suc.prems(2) by simp
    have "(\<exists>j. m div n = n ^ j) \<longleftrightarrow> (\<exists>j. m = n ^ j)"
    proof
      assume "\<exists>j. m div n = n ^ j"
      then obtain j where "m div n = n ^ j" by blast
      with m have "m = n ^ Suc j" by simp
      then show "\<exists>j. m = n ^ j" by blast
    next
      assume "\<exists>j. m = n ^ j"
      then obtain j where j: "m = n ^ j" by blast
      with False obtain i where "j = Suc i" by (cases j) auto
      with j assms show "\<exists>j. m div n = n ^ j" by auto
    qed
    moreover have "is_power_loop (Suc (Suc k)) m n = is_power_loop (Suc k) (m div n) n" using False assms by simp
    ultimately show ?thesis using Suc.IH [OF d lt] by simp
  qed
qed

text \<open>
  \<open>isPowerOf\<close> returns for every positive int and decides whether it is a power; for 0 it divides
  0 for ever. So the test of \<open>read_group_desc\<close>, which asks for a power of 3, of 5 and of 7 at once,
  fails for every group it is made for.
\<close>

theorem isPowerOf_decides:
  assumes "0 < m" and "m < 2 ^ 31" and "2 \<le> n"
  shows "isPowerOf m n = Ok (\<exists>j. m = n ^ j) \<and> is_power_loop k 0 n = Hang"
proof
  have "32 = Suc 31" by simp
  then show "isPowerOf m n = Ok (\<exists>j. m = n ^ j)" unfolding isPowerOf_def using is_power_loop_ends assms by metis
  show "is_power_loop k 0 n = Hang" using assms(3) by (induction k) simp_all
qed

theorem isPowerOf_decides_witness:
  "isPowerOf 27 3 = Ok (\<exists>j. (27::int) = 3 ^ j) \<and> is_power_loop 1000 0 3 = Hang"
  by (rule isPowerOf_decides) simp_all

end
