(* ===== verification/LogFun.thy ===== *)
theory LogFun
  imports Log
begin

text \<open>
  xv6: the log makes a transaction atomic. Whatever prefix of the writes of a commit reaches the disk
  before a crash, recovery leaves every block outside the log either all old or all new.
\<close>

section \<open>The header\<close>

lemma length_put_blocks_from:
  "4 + 4 * (i + length bs) \<le> length d \<Longrightarrow> length (put_blocks_from i bs d) = length d"
proof (induction bs arbitrary: i d)
  case Nil
  then show ?case by simp
next
  case (Cons b bs)
  have "length (put_bytes (4 + 4 * i) (bytes32 b) d) = length d" using Cons.prems by (intro length_put_bytes) simp
  with Cons show ?case by simp
qed

lemma le32_put_blocks_before:
  "4 + 4 * (i + length bs) \<le> length d \<Longrightarrow> j + 4 \<le> 4 + 4 * i \<Longrightarrow> le32 (put_blocks_from i bs d) j = le32 d j"
proof (induction bs arbitrary: i d)
  case Nil
  then show ?case by simp
next
  case (Cons b bs)
  have l: "length (put_bytes (4 + 4 * i) (bytes32 b) d) = length d" using Cons.prems by (intro length_put_bytes) simp
  have "le32 (put_bytes (4 + 4 * i) (bytes32 b) d) j = le32 d j" using Cons.prems by (intro le32_put_other) simp_all
  with Cons.IH [of "Suc i" "put_bytes (4 + 4 * i) (bytes32 b) d"] Cons.prems l show ?case by simp
qed

lemma le32_put_blocks_at:
  "4 + 4 * (i + length bs) \<le> length d \<Longrightarrow> k < length bs \<Longrightarrow> le32 (put_blocks_from i bs d) (4 + 4 * (i + k)) = bs ! k"
proof (induction bs arbitrary: i d k)
  case Nil
  then show ?case by simp
next
  case (Cons b bs)
  let ?d = "put_bytes (4 + 4 * i) (bytes32 b) d"
  have l: "length ?d = length d" using Cons.prems by (intro length_put_bytes) simp
  show ?case
  proof (cases k)
    case 0
    have "le32 (put_blocks_from (Suc i) bs ?d) (4 + 4 * i) = le32 ?d (4 + 4 * i)"
      using Cons.prems l by (intro le32_put_blocks_before) simp_all
    also have "\<dots> = b" using Cons.prems by (intro le32_put_same) simp
    finally show ?thesis using 0 by simp
  next
    case (Suc m)
    with Cons.IH [of "Suc i" ?d m] Cons.prems l show ?thesis by simp
  qed
qed

lemma put_head_facts:
  assumes "4 + 4 * length bs \<le> length d" and "0 \<le> n" and "n < 2 ^ 31"
  shows "length (put_head n bs d) = length d" and "head_n (put_head n bs d) = n"
    and "k < length bs \<Longrightarrow> head_block (put_head n bs d) k = bs ! k"
proof -
  let ?d = "put_bytes 0 (bytes32 (word_of_int n)) d"
  have l: "length ?d = length d" using assms(1) by (intro length_put_bytes) simp
  show "length (put_head n bs d) = length d" using assms(1) l length_put_blocks_from [of 0 bs ?d] by (simp add: put_head_def)
  have "le32 (put_head n bs d) 0 = le32 ?d 0"
    unfolding put_head_def using assms(1) l by (intro le32_put_blocks_before) simp_all
  also have "\<dots> = word_of_int n" using assms(1) by (intro le32_put_same) simp
  finally have w: "le32 (put_head n bs d) 0 = word_of_int n" .
  have "sint (word_of_int n :: uint) = n" using sint_of_nat_32 [of "nat n"] assms(2,3) by simp
  then show "head_n (put_head n bs d) = n" by (simp add: head_n_def w)
  show "head_block (put_head n bs d) k = bs ! k" if "k < length bs"
    using le32_put_blocks_at [of 0 bs ?d k] assms(1) l that by (simp add: head_block_def put_head_def)
qed

section \<open>The steps of a commit\<close>

lemma install_copies: "bc.copies_block (install_block 1)"
  unfolding bc.copies_block_def install_block_def by (intro allI impI; elim conjE) (rule bc.copy_law)

lemma log_copies: "bc.copies_block (log_block 1)"
  unfolding bc.copies_block_def log_block_def by (intro allI impI; elim conjE) (rule bc.copy_law')

text \<open>The \<open>log.size\<close> blocks of the log: the header and what follows it.\<close>

definition log_area :: "log \<Rightarrow> uint set" where
  "log_area lg = {b. unat (lg_start lg) \<le> unat b \<and> unat b < unat (lg_start lg) + nat (lg_size lg)}"

definition homes :: "log \<Rightarrow> uint list" where
  "homes lg = take (nat (lg_n lg)) (lg_block lg)"

lemma log_area_cong: "lg_start l = lg_start lg \<Longrightarrow> lg_size l = lg_size lg \<Longrightarrow> log_area l = log_area lg"
  by (simp add: log_area_def)

lemma log_area_simps [simp]:
  "log_area (lg\<lparr>lg_n := n\<rparr>) = log_area lg" "log_area (lg\<lparr>lg_block := bs\<rparr>) = log_area lg"
  "log_area (lg\<lparr>lg_outstanding := k\<rparr>) = log_area lg" "log_area (lg\<lparr>lg_committing := c\<rparr>) = log_area lg"
  by (simp_all add: log_area_def)

text \<open>A log that is in memory, with its homes outside the log.\<close>

definition log_ok :: "log \<Rightarrow> uint \<Rightarrow> bool" where
  "log_ok lg sz \<longleftrightarrow> lg_dev lg = 1 \<and> 0 \<le> lg_n lg \<and> lg_n lg \<le> 29 \<and> lg_n lg < lg_size lg \<and> length (lg_block lg) = 30 \<and>
     unat (lg_start lg) + nat (lg_size lg) \<le> unat sz \<and> distinct (homes lg) \<and> (\<forall>b\<in>set (homes lg). b < sz \<and> b \<notin> log_area lg)"

lemma log_okD:
  assumes "log_ok lg sz"
  shows "lg_dev lg = 1" and "0 \<le> lg_n lg" and "nat (lg_n lg) \<le> 29" and "length (lg_block lg) = 30" and "\<not> lg_n lg > LOGSIZE"
    and "unat (lg_start lg) < unat sz" and "t \<le> nat (lg_n lg) \<Longrightarrow> unat (lg_start lg) + t < unat sz" and "distinct (homes lg)"
    and "b \<in> set (homes lg) \<Longrightarrow> b < sz \<and> b \<notin> log_area lg"
    and "unat (lg_start lg) + nat (lg_size lg) \<le> unat sz" and "lg_n lg < lg_size lg"
proof -
  show "unat (lg_start lg) + t < unat sz" if "t \<le> nat (lg_n lg)" using that assms unfolding log_ok_def by linarith
  show "unat (lg_start lg) < unat sz" using assms unfolding log_ok_def by linarith
qed (use assms in \<open>auto simp: log_ok_def LOGSIZE_def\<close>)

lemma unat_log_at: "log_ok lg sz \<Longrightarrow> t < nat (lg_n lg) \<Longrightarrow> unat (log_at lg t) = unat (lg_start lg) + t + 1"
proof -
  assume ok: "log_ok lg sz" and t: "t < nat (lg_n lg)"
  have "unat (lg_start lg) + (t + 1) < unat sz" using t by (intro log_okD(7) [OF ok]) simp
  then have "unat (of_nat (unat (lg_start lg) + t + 1) :: uint) = unat (lg_start lg) + t + 1"
    using unat_uint_less [of sz] by (intro unat_of_nat_32) simp
  moreover have "(of_nat (unat (lg_start lg) + t + 1) :: uint) = log_at lg t" by (simp add: log_at_def)
  ultimately show ?thesis by argo
qed

lemma log_at_area: "log_ok lg sz \<Longrightarrow> t < nat (lg_n lg) \<Longrightarrow> log_at lg t \<in> log_area lg"
proof -
  assume ok: "log_ok lg sz" and t: "t < nat (lg_n lg)"
  note u = unat_log_at [OF ok t]
  have "t + 1 < nat (lg_size lg)" using t log_okD(11) [OF ok] by linarith
  with u show ?thesis by (simp add: log_area_def)
qed

lemma log_at_less: "log_ok lg sz \<Longrightarrow> t < nat (lg_n lg) \<Longrightarrow> log_at lg t < sz"
  using unat_log_at [of lg sz t] log_okD(7) [of lg sz "t + 1"] by (simp add: word_less_nat_alt)

lemma log_at_inj: "log_ok lg sz \<Longrightarrow> t < nat (lg_n lg) \<Longrightarrow> u < nat (lg_n lg) \<Longrightarrow> log_at lg t = log_at lg u \<Longrightarrow> t = u"
  by (metis unat_log_at add_left_cancel add_right_cancel)

lemma log_at_start: "log_ok lg sz \<Longrightarrow> t < nat (lg_n lg) \<Longrightarrow> log_at lg t \<noteq> lg_start lg"
  using unat_log_at [of lg sz t] by auto

lemma start_area: "log_ok lg sz \<Longrightarrow> lg_start lg \<in> log_area lg"
  using log_okD(2,11) [of lg sz] by (simp add: log_area_def)

lemma homes_facts:
  assumes "log_ok lg sz"
  shows "length (homes lg) = nat (lg_n lg)" and "t < nat (lg_n lg) \<Longrightarrow> homes lg ! t = lg_block lg ! t"
    and "t < nat (lg_n lg) \<Longrightarrow> lg_block lg ! t \<in> set (homes lg)" and "nat (lg_n lg) \<le> 29"
proof -
  have n: "nat (lg_n lg) \<le> length (lg_block lg)" using log_okD(3,4) [OF assms] by simp
  then show "length (homes lg) = nat (lg_n lg)" by (simp add: homes_def)
  show "homes lg ! t = lg_block lg ! t" if "t < nat (lg_n lg)" using that by (simp add: homes_def)
  show "lg_block lg ! t \<in> set (homes lg)" if "t < nat (lg_n lg)"
    using that n by (auto simp: homes_def in_set_conv_nth intro!: exI [of _ t])
  show "nat (lg_n lg) \<le> 29" by (rule log_okD(3) [OF assms])
qed

text \<open>The pairs copied by \<open>write_log\<close> and by \<open>install_trans\<close>.\<close>

definition to_log :: "log \<Rightarrow> (uint \<times> uint) list" where
  "to_log lg = map (\<lambda>t. (lg_block lg ! t, log_at lg t)) [0..<nat (lg_n lg)]"

definition to_home :: "log \<Rightarrow> (uint \<times> uint) list" where
  "to_home lg = map (\<lambda>t. (log_at lg t, lg_block lg ! t)) [0..<nat (lg_n lg)]"

lemma pairs_facts:
  assumes ok: "log_ok lg sz"
  shows "map fst (to_log lg) = homes lg" and "map snd (to_home lg) = homes lg"
    and "set (map snd (to_log lg)) \<subseteq> log_area lg" and "set (map fst (to_home lg)) \<subseteq> log_area lg"
    and "distinct (map snd (to_log lg))" and "lg_start lg \<notin> set (map snd (to_log lg))"
    and "\<forall>b\<in>set (map snd (to_log lg)). b < sz" and "\<forall>b\<in>set (map fst (to_home lg)). b < sz"
proof -
  note H = homes_facts [OF ok]
  show "map fst (to_log lg) = homes lg" "map snd (to_home lg) = homes lg"
    by (rule nth_equalityI; simp add: to_log_def to_home_def H)+
  show "set (map snd (to_log lg)) \<subseteq> log_area lg" "set (map fst (to_home lg)) \<subseteq> log_area lg"
      "lg_start lg \<notin> set (map snd (to_log lg))" "\<forall>b\<in>set (map snd (to_log lg)). b < sz" "\<forall>b\<in>set (map fst (to_home lg)). b < sz"
    using log_at_area [OF ok] log_at_less [OF ok] log_at_start [OF ok] by (auto simp: to_log_def to_home_def) metis
  show "distinct (map snd (to_log lg))"
    using log_at_inj [OF ok] by (auto simp: to_log_def distinct_map inj_on_def)
qed

lemma install_trans_copies: "log_ok lg sz \<Longrightarrow> install_trans lg s = copies (install_block 1) (to_home lg) s"
  using log_okD(1,5) [of lg sz] by (simp add: install_trans_def to_home_def)

lemma write_log_copies: "log_ok lg sz \<Longrightarrow> write_log lg s = copies (log_block 1) (to_log lg) s"
  using log_okD(1,5) [of lg sz] by (simp add: write_log_def to_log_def)

lemma card_pinned:
  assumes ok: "log_ok lg sz" and p: "P \<subseteq> set (homes lg)" and ab: "a \<in> set (homes lg)"
  shows "card (insert a (insert b P)) \<le> NBUF"
proof -
  have "card (insert a (insert b P)) \<le> card (insert b (set (homes lg)))" using p ab by (intro card_mono) auto
  also have "\<dots> \<le> Suc (card (set (homes lg)))" by (rule card_insert_le_m1) simp_all
  also have "\<dots> \<le> Suc (length (homes lg))" by (simp add: card_length)
  finally show ?thesis using homes_facts(1,4) [OF ok] by (simp add: NBUF_def)
qed

lemma card_pinned_start:
  assumes ok: "log_ok lg sz" and p: "P \<subseteq> set (homes lg)"
  shows "card (insert b P) \<le> NBUF"
proof -
  have "card (insert b P) \<le> card (insert b (set (homes lg)))" using p by (intro card_mono) auto
  also have "\<dots> \<le> Suc (length (homes lg))" by (metis card_insert_le_m1 card_length diff_Suc_1 le_Suc_eq zero_less_Suc not_less_eq_eq card_insert_if List.finite_set)
  finally show ?thesis using homes_facts(1,4) [OF ok] by (simp add: NBUF_def)
qed

section \<open>The writes of a commit\<close>

definition apply_writes :: "(uint \<times> byte list) list \<Rightarrow> (uint \<Rightarrow> byte list) \<Rightarrow> uint \<Rightarrow> byte list" where
  "apply_writes ws d = foldl (\<lambda>d (b, x). d(b := x)) d ws"

lemma apply_writes_simps [simp]:
  "apply_writes [] d = d" "apply_writes ((b, x) # ws) d = apply_writes ws (d(b := x))"
  "apply_writes (ws @ vs) d = apply_writes vs (apply_writes ws d)"
  by (simp_all add: apply_writes_def)

lemma put_pairs_writes: "put_pairs v ps d = apply_writes (map (\<lambda>p. (snd p, v (fst p))) ps) d"
  by (induction ps arbitrary: d) (auto simp: apply_writes_def)

lemma apply_writes_other: "b \<notin> fst ` set ws \<Longrightarrow> apply_writes ws d b = d b"
  by (induction ws arbitrary: d) auto

text \<open>With the contents \<open>v\<close> of the cache: the blocks to the log, the header, the blocks to their homes, the empty header.\<close>

definition full_head :: "log \<Rightarrow> (uint \<Rightarrow> byte list) \<Rightarrow> byte list" where
  "full_head lg v = put_head (lg_n lg) (homes lg) (v (lg_start lg))"

definition log_writes :: "log \<Rightarrow> (uint \<Rightarrow> byte list) \<Rightarrow> (uint \<times> byte list) list" where
  "log_writes lg v = map (\<lambda>p. (snd p, v (fst p))) (to_log lg)"

definition home_writes :: "log \<Rightarrow> (uint \<Rightarrow> byte list) \<Rightarrow> (uint \<times> byte list) list" where
  "home_writes lg v = map (\<lambda>b. (b, v b)) (homes lg)"

definition commit_writes :: "log \<Rightarrow> (uint \<Rightarrow> byte list) \<Rightarrow> (uint \<times> byte list) list" where
  "commit_writes lg v = log_writes lg v @ [(lg_start lg, full_head lg v)] @ home_writes lg v @
     [(lg_start lg, put_head 0 [] (full_head lg v))]"

lemma write_head_law:
  assumes q: "bc.quiet s" and dev: "lg_dev lg = 1" and b: "lg_start lg < io_disksize s"
    and r: "card (insert (lg_start lg) (dirty_blocks s)) \<le> NBUF" and n: "0 \<le> lg_n lg" "lg_n lg \<le> 30"
    and len: "nat (lg_n lg) \<le> length (lg_block lg)"
  shows "\<exists>t. write_head lg s = Ok t \<and> bc.quiet t \<and>
    cache_view t = (cache_view s)(lg_start lg := full_head lg (cache_view s)) \<and>
    io_disk t = (io_disk s)(lg_start lg := full_head lg (cache_view s)) \<and> dirty_blocks t = dirty_blocks s - {lg_start lg} \<and>
    io_writes t = io_writes s @ [(lg_start lg, full_head lg (cache_view s))] \<and> io_disksize t = io_disksize s"
proof -
  have l: "length (cache_view s (lg_start lg)) = 512"
    using view_length [OF _ b] q by (simp add: bc.quiet_def BSIZE_def)
  have "length (homes lg) \<le> 30" using n by (simp add: homes_def)
  then have "length (full_head lg (cache_view s)) = BSIZE"
    unfolding full_head_def using l n by (subst put_head_facts(1)) (simp_all add: BSIZE_def)
  with bc.write_law [OF q b r, of "put_head (lg_n lg) (homes lg)"] show ?thesis
    by (simp add: write_head_def dev homes_def full_head_def)
qed

lemma commit_law:
  assumes q: "bc.quiet s" and ok: "log_ok lg (io_disksize s)" and n: "0 < lg_n lg" and d: "dirty_blocks s = set (homes lg)"
  shows "\<exists>t. commit lg s = Ok (lg\<lparr>lg_n := 0\<rparr>, t) \<and> bc.quiet t \<and> dirty_blocks t = {} \<and> io_disksize t = io_disksize s \<and>
    io_writes t = io_writes s @ commit_writes lg (cache_view s) \<and>
    io_disk t = apply_writes (commit_writes lg (cache_view s)) (io_disk s) \<and>
    (\<forall>b. b \<notin> log_area lg \<longrightarrow> cache_view t b = cache_view s b)"
proof -
  let ?v = "cache_view s" and ?A = "log_area lg" and ?sz = "io_disksize s"
  note P = pairs_facts [OF ok] and L = log_okD [OF ok] and H = homes_facts [OF ok]
  have start: "lg_start lg < ?sz" using L(6) by (simp add: word_less_nat_alt)
  have home: "b < ?sz" "b \<notin> ?A" if "b \<in> set (homes lg)" for b using L(9) that by blast+
  have c1: "\<forall>p\<in>set (to_log lg). fst p < ?sz \<and> snd p < ?sz \<and> card (insert (snd p) (insert (fst p) (dirty_blocks s))) \<le> NBUF"
  proof
    fix p assume p: "p \<in> set (to_log lg)"
    then have f: "fst p \<in> set (homes lg)" using P(1) by (metis image_eqI set_map)
    have "card (insert (fst p) (insert (snd p) (dirty_blocks s))) \<le> NBUF" by (rule card_pinned [OF ok _ f]) (simp add: d)
    with f p home P(7) show "fst p < ?sz \<and> snd p < ?sz \<and> card (insert (snd p) (insert (fst p) (dirty_blocks s))) \<le> NBUF"
      by (simp add: insert_commute)
  qed
  have disj: "fst ` set (to_log lg) \<inter> snd ` set (to_log lg) = {}"
    using P(1,3) home(2) by (metis (no_types, lifting) disjoint_iff set_map subsetD)
  from bc.copies_law [OF log_copies q c1 disj P(5)] obtain s1 where s1: "write_log lg s = Ok s1" "bc.quiet s1"
      "cache_view s1 = put_pairs ?v (to_log lg) ?v" "io_disk s1 = put_pairs ?v (to_log lg) (io_disk s)"
      "dirty_blocks s1 = dirty_blocks s - snd ` set (to_log lg)" "io_writes s1 = io_writes s @ log_writes lg ?v" "io_disksize s1 = ?sz"
    by (auto simp: write_log_copies [OF ok] log_writes_def)
  have d1: "dirty_blocks s1 = set (homes lg)" using s1(5) P(3) home(2) d by (auto simp: subset_iff)
  have v1: "cache_view s1 b = ?v b" if "b \<notin> snd ` set (to_log lg)" for b using that s1(3) put_pairs_other by metis
  have vs: "cache_view s1 (lg_start lg) = ?v (lg_start lg)" using P(6) by (intro v1) simp
  have "\<exists>t. write_head lg s1 = Ok t \<and> bc.quiet t \<and>
    cache_view t = (cache_view s1)(lg_start lg := full_head lg (cache_view s1)) \<and>
    io_disk t = (io_disk s1)(lg_start lg := full_head lg (cache_view s1)) \<and> dirty_blocks t = dirty_blocks s1 - {lg_start lg} \<and>
    io_writes t = io_writes s1 @ [(lg_start lg, full_head lg (cache_view s1))] \<and> io_disksize t = io_disksize s1"
    using L start s1(7) card_pinned_start [OF ok, of "dirty_blocks s1"] d1 by (intro write_head_law s1(2)) simp_all
  moreover have fh: "full_head lg (cache_view s1) = full_head lg ?v" by (simp add: full_head_def vs)
  ultimately obtain s2 where s2: "write_head lg s1 = Ok s2" "bc.quiet s2" "cache_view s2 = (cache_view s1)(lg_start lg := full_head lg ?v)"
      "io_disk s2 = (io_disk s1)(lg_start lg := full_head lg ?v)" "dirty_blocks s2 = dirty_blocks s1 - {lg_start lg}"
      "io_writes s2 = io_writes s1 @ [(lg_start lg, full_head lg ?v)]" "io_disksize s2 = ?sz" using s1(7) by auto
  have d2: "dirty_blocks s2 = set (homes lg)" using s2(5) d1 home(2) start_area [OF ok] by blast
  have c2: "\<forall>p\<in>set (to_home lg). fst p < io_disksize s2 \<and> snd p < io_disksize s2 \<and>
      card (insert (snd p) (insert (fst p) (dirty_blocks s2))) \<le> NBUF"
  proof
    fix p assume p: "p \<in> set (to_home lg)"
    then have f: "snd p \<in> set (homes lg)" using P(2) by (metis image_eqI set_map)
    with p home P(8) card_pinned [OF ok _ f, of "dirty_blocks s2"]
    show "fst p < io_disksize s2 \<and> snd p < io_disksize s2 \<and> card (insert (snd p) (insert (fst p) (dirty_blocks s2))) \<le> NBUF"
      by (simp add: d2 s2(7))
  qed
  have disj2: "fst ` set (to_home lg) \<inter> snd ` set (to_home lg) = {}"
    using P(2,4) home(2) by (metis (no_types, lifting) disjoint_iff set_map subsetD)
  have dist2: "distinct (map snd (to_home lg))" using P(2) L(8) by simp
  from bc.copies_law [OF install_copies s2(2) c2 disj2 dist2] obtain s3 where s3: "install_trans lg s2 = Ok s3" "bc.quiet s3"
      "cache_view s3 = put_pairs (cache_view s2) (to_home lg) (cache_view s2)"
      "io_disk s3 = put_pairs (cache_view s2) (to_home lg) (io_disk s2)"
      "dirty_blocks s3 = dirty_blocks s2 - snd ` set (to_home lg)"
      "io_writes s3 = io_writes s2 @ map (\<lambda>p. (snd p, cache_view s2 (fst p))) (to_home lg)" "io_disksize s3 = ?sz"
    using s2(7) by (auto simp: install_trans_copies [OF ok])
  have src: "cache_view s2 (log_at lg t) = ?v (lg_block lg ! t)" if t: "t < nat (lg_n lg)" for t
  proof -
    have "(lg_block lg ! t, log_at lg t) \<in> set (to_log lg)" using t by (auto simp: to_log_def)
    then have "cache_view s1 (log_at lg t) = ?v (lg_block lg ! t)" using put_pairs_same [OF P(5)] s1(3) by simp
    with log_at_start [OF ok t] s2(3) show ?thesis by simp
  qed
  have hw: "map (\<lambda>p. (snd p, cache_view s2 (fst p))) (to_home lg) = home_writes lg ?v"
    by (rule nth_equalityI) (simp_all add: to_home_def home_writes_def H src)
  have d3: "dirty_blocks s3 = {}" using s3(5) d2 P(2) by (metis Diff_cancel set_map)
  let ?lg = "lg\<lparr>lg_n := 0\<rparr>"
  have vh: "cache_view s3 (lg_start lg) = full_head lg ?v"
  proof -
    have "lg_start lg \<notin> snd ` set (to_home lg)" using P(2) home(2) start_area [OF ok] by (metis set_map)
    then show ?thesis using s3(3) s2(3) by (simp add: put_pairs_other)
  qed
  have "\<exists>t. write_head ?lg s3 = Ok t \<and> bc.quiet t \<and>
    cache_view t = (cache_view s3)(lg_start ?lg := full_head ?lg (cache_view s3)) \<and>
    io_disk t = (io_disk s3)(lg_start ?lg := full_head ?lg (cache_view s3)) \<and> dirty_blocks t = dirty_blocks s3 - {lg_start ?lg} \<and>
    io_writes t = io_writes s3 @ [(lg_start ?lg, full_head ?lg (cache_view s3))] \<and> io_disksize t = io_disksize s3"
    using L start s3(7) d3 by (intro write_head_law s3(2)) (simp_all add: NBUF_def)
  moreover have "full_head ?lg (cache_view s3) = put_head 0 [] (full_head lg ?v)"
    by (simp add: full_head_def [of ?lg] homes_def [of ?lg] vh)
  ultimately obtain s4 where s4: "write_head ?lg s3 = Ok s4" "bc.quiet s4"
      "cache_view s4 = (cache_view s3)(lg_start lg := put_head 0 [] (full_head lg ?v))"
      "io_disk s4 = (io_disk s3)(lg_start lg := put_head 0 [] (full_head lg ?v))" "dirty_blocks s4 = {}"
      "io_writes s4 = io_writes s3 @ [(lg_start lg, put_head 0 [] (full_head lg ?v))]" "io_disksize s4 = ?sz" using s3(7) d3 by auto
  have view: "cache_view s4 b = ?v b" if b: "b \<notin> ?A" for b
  proof -
    have ns: "b \<noteq> lg_start lg" using b start_area [OF ok] by blast
    have "b \<notin> snd ` set (to_log lg)" using b P(3) by (auto simp: subset_iff)
    then have v2: "cache_view s2 b = ?v b" using v1 s2(3) ns by simp
    show ?thesis
    proof (cases "b \<in> set (homes lg)")
      case True
      then obtain t where t: "t < nat (lg_n lg)" "b = lg_block lg ! t" using H(1,2) by (metis in_set_conv_nth)
      then have "(log_at lg t, b) \<in> set (to_home lg)" by (auto simp: to_home_def)
      with put_pairs_same [OF dist2 this] src [OF t(1)] t(2) s3(3) s4(3) ns show ?thesis by simp
    next
      case False
      then have "b \<notin> snd ` set (to_home lg)" using P(2) by (metis set_map)
      with v2 s3(3) s4(3) ns show ?thesis by (simp add: put_pairs_other)
    qed
  qed
  have "commit lg s = Ok (?lg, s4)" using n s1(1) s2(1) s3(1) s4(1) by (simp add: commit_def Let_def)
  moreover have "io_writes s4 = io_writes s @ commit_writes lg ?v"
    using s1(6) s2(6) s3(6) s4(6) hw by (simp add: commit_writes_def)
  moreover have "io_disk s4 = apply_writes (commit_writes lg ?v) (io_disk s)"
    using s1(4) s2(4) s3(4) s4(4) hw by (simp add: commit_writes_def put_pairs_writes log_writes_def)
  ultimately show ?thesis using s4 view by blast
qed

section \<open>Recovery\<close>

lemma binit_quiet:
  assumes "\<forall>b < sz. length (D b) = BSIZE"
  shows "bc.quiet (binit pid D sz)" and "cache_view (binit pid D sz) = D" and "dirty_blocks (binit pid D sz) = {}"
proof -
  let ?s = "binit pid D sz"
  have n: "io_bufs ?s ! i = \<lparr>b_valid = False, b_dirty = False, b_dev = 0, b_blockno = 0, b_lock = initsleeplock,
        b_refcnt = 0, b_data = replicate BSIZE 0\<rparr>" if "i < NBUF" for i using that by (simp add: binit_def)
  have u: "io_lru ?s = rev [0..<NBUF]" "length (io_bufs ?s) = NBUF" "io_disksize ?s = sz" "io_disk ?s = D"
    by (simp_all add: binit_def)
  have "cache_inv ?s" using assms by (auto simp: cache_inv_def n u buf_ok_def initsleeplock_def)
  moreover have "held_block ?s = Map.empty" by (rule ext) (simp add: held_block_def n initsleeplock_def)
  ultimately show "bc.quiet ?s" by (simp add: bc.quiet_def)
  show "cache_view ?s = D" by (rule ext, subst view_uncached) (simp_all add: caches_def n u)
  show "dirty_blocks ?s = {}" by (auto simp: dirty_blocks_def n)
qed

lemma quiet_clean_disk: "bc.quiet s \<Longrightarrow> b \<notin> dirty_blocks s \<Longrightarrow> cache_view s b = io_disk s b"
  using unpinned_view [of s b] by (simp add: bc.quiet_def)

text \<open>The log that \<open>read_head\<close> finds in the header \<open>d\<close>.\<close>

definition found_log :: "log \<Rightarrow> byte list \<Rightarrow> log" where
  "found_log lg d = lg\<lparr>lg_n := head_n d,
     lg_block := map (head_block d) [0..<nat (head_n d)] @ drop (nat (head_n d)) (lg_block lg)\<rparr>"

lemma recover_law:
  assumes q: "bc.quiet s" and clean: "dirty_blocks s = {}" and start: "lg_start lg < io_disksize s"
    and f: "f = found_log lg (cache_view s (lg_start lg))" and ok: "log_ok f (io_disksize s)"
    and len: "length (lg_block lg) = 30" and dev: "lg_dev lg = 1"
  shows "\<exists>lg' t. recover_from_log lg s = Ok (lg', t) \<and> lg_n lg' = 0 \<and> bc.quiet t \<and> dirty_blocks t = {} \<and>
    (\<forall>b. b \<notin> log_area lg \<longrightarrow> io_disk t b = put_pairs (cache_view s) (to_home f) (cache_view s) b) \<and>
    head_n (io_disk t (lg_start lg)) = 0"
proof -
  let ?d = "cache_view s (lg_start lg)" and ?sz = "io_disksize s"
  note P = pairs_facts [OF ok] and L = log_okD [OF ok]
  have fs: "lg_start f = lg_start lg" "lg_n f = head_n ?d" "log_area f = log_area lg" by (simp_all add: f found_log_def log_area_def)
  have le: "\<not> nat (head_n ?d) > length (lg_block lg)" using L(3) fs len by simp
  have "card (insert (lg_start lg) (dirty_blocks s)) \<le> NBUF" by (simp add: clean NBUF_def)
  from bc.read_law [OF q start this] obtain i s0 s1 where r: "bread 1 (lg_start lg) s = Ok (i, s0)" "buf_data i s0 = ?d"
      "brelse i s0 = Ok s1" "bc.quiet s1" "cache_view s1 = cache_view s" "dirty_blocks s1 = {}" "io_disksize s1 = ?sz"
    by (auto simp: clean)
  have rh: "read_head lg s = Ok (f, s1)" using r le by (simp add: read_head_def Let_def dev f found_log_def)
  have c: "\<forall>p\<in>set (to_home f). fst p < io_disksize s1 \<and> snd p < io_disksize s1 \<and>
      card (insert (snd p) (insert (fst p) (dirty_blocks s1))) \<le> NBUF"
  proof
    fix p assume p: "p \<in> set (to_home f)"
    then have h: "snd p \<in> set (homes f)" using P(2) by (metis image_eqI set_map)
    have "card {snd p, fst p} \<le> NBUF" by (simp add: NBUF_def card_insert_if)
    with p L(9) [OF h] P(8) show "fst p < io_disksize s1 \<and> snd p < io_disksize s1 \<and>
      card (insert (snd p) (insert (fst p) (dirty_blocks s1))) \<le> NBUF" by (simp add: r(6,7))
  qed
  have disj: "fst ` set (to_home f) \<inter> snd ` set (to_home f) = {}"
    using P(2,4) L(9) by (metis (no_types, lifting) disjoint_iff set_map subsetD)
  have dist: "distinct (map snd (to_home f))" using P(2) L(8) by simp
  from bc.copies_law [OF install_copies r(4) c disj dist] obtain s2 where s2: "install_trans f s1 = Ok s2" "bc.quiet s2"
      "cache_view s2 = put_pairs (cache_view s) (to_home f) (cache_view s)" "dirty_blocks s2 = {}" "io_disksize s2 = ?sz"
    by (auto simp: install_trans_copies [OF ok] r(5,6,7))
  let ?g = "f\<lparr>lg_n := 0\<rparr>"
  have "\<exists>t. write_head ?g s2 = Ok t \<and> bc.quiet t \<and>
    cache_view t = (cache_view s2)(lg_start ?g := full_head ?g (cache_view s2)) \<and>
    io_disk t = (io_disk s2)(lg_start ?g := full_head ?g (cache_view s2)) \<and> dirty_blocks t = dirty_blocks s2 - {lg_start ?g} \<and>
    io_writes t = io_writes s2 @ [(lg_start ?g, full_head ?g (cache_view s2))] \<and> io_disksize t = io_disksize s2"
    using L(1) start fs s2(4,5) by (intro write_head_law s2(2)) (simp_all add: NBUF_def)
  then obtain t where t: "write_head ?g s2 = Ok t" "bc.quiet t" "dirty_blocks t = {}"
      "io_disk t = (io_disk s2)(lg_start lg := full_head ?g (cache_view s2))" using fs s2(4) by auto
  have "recover_from_log lg s = Ok (?g, t)" by (simp add: recover_from_log_def rh s2(1) t(1) Let_def)
  moreover have "io_disk t b = put_pairs (cache_view s) (to_home f) (cache_view s) b" if "b \<notin> log_area lg" for b
    using that start_area [OF ok] fs(1,3) t(4) quiet_clean_disk [OF s2(2), of b] s2(3,4) by auto
  moreover have "head_n (io_disk t (lg_start lg)) = 0"
  proof -
    have "length (cache_view s2 (lg_start lg)) = BSIZE" using view_length s2(2,5) start by (simp add: bc.quiet_def)
    then show ?thesis using t(4) put_head_facts(2) [of "[]" "cache_view s2 (lg_start lg)" 0]
      by (simp add: full_head_def homes_def BSIZE_def fs)
  qed
  ultimately show ?thesis using t(2,3) by fastforce
qed

text \<open>What a reboot finds on the disk \<open>D\<close>.\<close>

lemma reboot_law:
  assumes len: "\<forall>b < sz. length (D b) = BSIZE" and sb: "1 < sz" "sb_logstart (superblock_of (D 1)) = lg_start lg"
      "sint (sb_nlog (superblock_of (D 1))) = lg_size lg"
    and start: "lg_start lg < sz" and f: "f = found_log (log_start\<lparr>lg_start := lg_start lg, lg_size := sint (sb_nlog (superblock_of (D 1))), lg_dev := 1\<rparr>) (D (lg_start lg))"
    and ok: "log_ok f sz"
  shows "\<exists>lg' u. initlog 1 (binit pid D sz) = Ok (lg', u) \<and> lg_n lg' = 0 \<and> bc.quiet u \<and>
    (\<forall>b. b \<notin> log_area lg \<longrightarrow> io_disk u b = put_pairs D (to_home f) D b) \<and> head_n (io_disk u (lg_start lg)) = 0"
proof -
  let ?s = "binit pid D sz"
  note b = binit_quiet [OF len]
  have sz: "io_disksize ?s = sz" by (simp add: binit_def)
  have "1 < io_disksize ?s" "card (insert 1 (dirty_blocks ?s)) \<le> NBUF" using sb(1) by (simp_all add: sz b(3) NBUF_def)
  from bc.read_law [OF b(1) this] obtain i s0 s1 where r: "bread 1 1 ?s = Ok (i, s0)" "buf_data i s0 = D 1"
      "brelse i s0 = Ok s1" "bc.quiet s1" "cache_view s1 = D" "dirty_blocks s1 = {}" "io_disksize s1 = sz"
    by (auto simp: b(2,3) sz)
  let ?lg = "log_start\<lparr>lg_start := lg_start lg, lg_size := sint (sb_nlog (superblock_of (D 1))), lg_dev := 1\<rparr>"
  have ar: "log_area ?lg = log_area lg" using sb(3) by (intro log_area_cong) simp_all
  have "initlog 1 ?s = recover_from_log ?lg s1" using r sb(2) by (simp add: initlog_def readsb_def)
  moreover have "\<exists>lg' t. recover_from_log ?lg s1 = Ok (lg', t) \<and> lg_n lg' = 0 \<and> bc.quiet t \<and> dirty_blocks t = {} \<and>
    (\<forall>b. b \<notin> log_area ?lg \<longrightarrow> io_disk t b = put_pairs (cache_view s1) (to_home f) (cache_view s1) b) \<and>
    head_n (io_disk t (lg_start ?lg)) = 0"
    using r start f ok by (intro recover_law) (simp_all add: log_start_def LOGSIZE_def)
  ultimately show ?thesis using r(5) ar by auto
qed

section \<open>Crashes\<close>

lemma found_empty: "head_n d = 0 \<Longrightarrow> lg_start lg = st \<Longrightarrow> lg_dev lg = 1 \<Longrightarrow> length (lg_block lg) = 30 \<Longrightarrow> 0 < lg_size lg \<Longrightarrow>
  unat st + nat (lg_size lg) \<le> unat sz \<Longrightarrow> log_ok (found_log lg d) sz \<and> to_home (found_log lg d) = []"
  by (simp add: found_log_def log_ok_def homes_def to_home_def)

lemma found_full:
  assumes ok: "log_ok lg sz" and l: "lg_start l = lg_start lg" "lg_dev l = 1" "length (lg_block l) = 30" "lg_size l = lg_size lg"
    and len: "length d = BSIZE"
  shows "log_ok (found_log l (put_head (lg_n lg) (homes lg) d)) sz" and "to_home (found_log l (put_head (lg_n lg) (homes lg) d)) = to_home lg"
proof -
  let ?h = "put_head (lg_n lg) (homes lg) d" and ?n = "nat (lg_n lg)"
  note L = log_okD [OF ok] and H = homes_facts [OF ok]
  have fit: "4 + 4 * length (homes lg) \<le> length d" "0 \<le> lg_n lg" "lg_n lg < 2 ^ 31" using L(2,3) H(1) len by (simp_all add: BSIZE_def)
  note P = put_head_facts [OF fit]
  have bl: "map (head_block ?h) [0..<?n] = homes lg"
    by (rule nth_equalityI) (simp_all add: H(1) P(3))
  have f: "found_log l ?h = l\<lparr>lg_n := lg_n lg, lg_block := homes lg @ drop ?n (lg_block l)\<rparr>"
    by (simp add: found_log_def P(2) bl)
  have hm: "homes (found_log l ?h) = homes lg" by (simp add: f homes_def [of "l\<lparr>lg_n := _, lg_block := _\<rparr>"] H(1))
  show "log_ok (found_log l ?h) sz"
    using ok H(1) L(3) unfolding log_ok_def hm by (simp add: f l log_area_def)
  have at: "log_at (found_log l ?h) t = log_at lg t" for t by (simp add: log_at_def f l)
  show "to_home (found_log l ?h) = to_home lg"
    by (rule nth_equalityI) (simp_all add: to_home_def at, simp_all add: f H nth_append)
qed

lemma apply_writes_length:
  "\<forall>w\<in>set ws. length (snd w) = n \<Longrightarrow> length (d b) = n \<Longrightarrow> length (apply_writes ws d b) = n"
  by (induction ws arbitrary: d) auto

text \<open>The situation in which \<open>end_op\<close> commits: the changed blocks are those in the log, and the log on the disk is empty.\<close>

definition commits :: "log \<Rightarrow> io \<Rightarrow> bool" where
  "commits lg s \<longleftrightarrow> bc.quiet s \<and> log_ok lg (io_disksize s) \<and> 0 < lg_n lg \<and> dirty_blocks s = set (homes lg) \<and>
     head_n (io_disk s (lg_start lg)) = 0 \<and> 1 < io_disksize s \<and> 1 \<notin> log_area lg \<and> 1 \<notin> set (homes lg) \<and>
     sb_logstart (superblock_of (io_disk s 1)) = lg_start lg \<and> sint (sb_nlog (superblock_of (io_disk s 1))) = lg_size lg"

text \<open>The disk after the first \<open>k\<close> writes of the commit.\<close>

definition crash_disk :: "nat \<Rightarrow> log \<Rightarrow> io \<Rightarrow> uint \<Rightarrow> byte list" where
  "crash_disk k lg s = apply_writes (take k (commit_writes lg (cache_view s))) (io_disk s)"

lemma commit_lengths:
  assumes c: "commits lg s" and b: "b < io_disksize s"
  shows "length (crash_disk k lg s b) = BSIZE"
proof -
  have q: "cache_inv s" and ok: "log_ok lg (io_disksize s)" using c by (simp_all add: commits_def bc.quiet_def)
  note L = log_okD [OF ok] and H = homes_facts [OF ok]
  have start: "lg_start lg < io_disksize s" using L(6) by (simp add: word_less_nat_alt)
  have hl: "length (cache_view s x) = BSIZE" if "x \<in> set (homes lg)" for x using view_length [OF q] L(9) that by blast
  have vs: "length (cache_view s (lg_start lg)) = BSIZE" by (rule view_length [OF q start])
  have fh: "length (full_head lg (cache_view s)) = BSIZE"
    unfolding full_head_def using vs H(1) L(2,3) by (subst put_head_facts(1)) (simp_all add: BSIZE_def)
  have "length (put_head 0 [] (full_head lg (cache_view s))) = BSIZE"
    using fh by (subst put_head_facts(1)) (simp_all add: BSIZE_def)
  moreover have "length (cache_view s (fst p)) = BSIZE" if "p \<in> set (to_log lg)" for p
    using that pairs_facts(1) [OF ok] hl by (metis image_eqI set_map)
  ultimately have "\<forall>w\<in>set (commit_writes lg (cache_view s)). length (snd w) = BSIZE"
    using hl fh by (auto simp: commit_writes_def log_writes_def home_writes_def)
  then have "\<forall>w\<in>set (take k (commit_writes lg (cache_view s))). length (snd w) = BSIZE" by (meson in_set_takeD)
  then show ?thesis unfolding crash_disk_def using cache_invD(5) [OF q b] by (rule apply_writes_length)
qed

lemma keys_log_writes: "fst ` set (log_writes lg v) = set (map snd (to_log lg))"
  by (simp add: log_writes_def image_image)

lemma crash_before:
  assumes c: "commits lg s" and k: "k \<le> nat (lg_n lg)"
  shows "\<forall>b. b \<notin> log_area lg \<or> b = lg_start lg \<longrightarrow> crash_disk k lg s b = io_disk s b"
proof (intro allI impI)
  fix b assume b: "b \<notin> log_area lg \<or> b = lg_start lg"
  have ok: "log_ok lg (io_disksize s)" using c by (simp add: commits_def)
  have "length (log_writes lg (cache_view s)) = nat (lg_n lg)" by (simp add: log_writes_def to_log_def)
  then have t: "take k (commit_writes lg (cache_view s)) = take k (log_writes lg (cache_view s))" using k by (simp add: commit_writes_def)
  have "b \<notin> fst ` set (log_writes lg (cache_view s))"
    using b pairs_facts(3,6) [OF ok] unfolding keys_log_writes by blast
  then have "b \<notin> fst ` set (take k (log_writes lg (cache_view s)))" using set_take_subset [of k "log_writes lg (cache_view s)"] by blast
  then show "crash_disk k lg s b = io_disk s b" unfolding crash_disk_def t by (rule apply_writes_other)
qed

lemma crash_middle:
  assumes c: "commits lg s" and k: "nat (lg_n lg) < k" "k \<le> 2 * nat (lg_n lg) + 1"
  shows "crash_disk k lg s (lg_start lg) = full_head lg (cache_view s)"
    and "t < nat (lg_n lg) \<Longrightarrow> crash_disk k lg s (log_at lg t) = cache_view s (lg_block lg ! t)"
    and "b \<notin> log_area lg \<Longrightarrow> b \<notin> set (homes lg) \<Longrightarrow> crash_disk k lg s b = cache_view s b"
proof -
  let ?v = "cache_view s" and ?n = "nat (lg_n lg)"
  have ok: "log_ok lg (io_disksize s)" and q: "bc.quiet s" and d: "dirty_blocks s = set (homes lg)" using c by (simp_all add: commits_def)
  note P = pairs_facts [OF ok] and L = log_okD [OF ok] and H = homes_facts [OF ok]
  have lw: "length (log_writes lg ?v) = ?n" and hw: "length (home_writes lg ?v) = ?n"
    by (simp_all add: log_writes_def to_log_def home_writes_def H(1))
  obtain j where j: "k = ?n + Suc j" "j \<le> ?n" using k by (metis add_Suc_right less_imp_Suc_add add_le_cancel_left mult_2 Suc_eq_plus1 add.assoc Suc_le_mono)
  have t: "take k (commit_writes lg ?v) = log_writes lg ?v @ (lg_start lg, full_head lg ?v) # take j (home_writes lg ?v)"
    using lw hw j by (simp add: commit_writes_def)
  let ?D = "\<lambda>b. apply_writes (take j (home_writes lg ?v)) ((apply_writes (log_writes lg ?v) (io_disk s))(lg_start lg := full_head lg ?v)) b"
  have D: "crash_disk k lg s b = ?D b" for b by (simp add: crash_disk_def t)
  have nh: "?D b = ((apply_writes (log_writes lg ?v) (io_disk s))(lg_start lg := full_head lg ?v)) b" if "b \<notin> set (homes lg)" for b
  proof -
    have "b \<notin> fst ` set (home_writes lg ?v)" using that by (auto simp: home_writes_def)
    then have "b \<notin> fst ` set (take j (home_writes lg ?v))" using set_take_subset [of j "home_writes lg ?v"] by blast
    then show ?thesis by (rule apply_writes_other)
  qed
  have area: "x \<notin> set (homes lg)" if "x \<in> log_area lg" for x using L(9) that by blast
  show "crash_disk k lg s (lg_start lg) = full_head lg ?v" unfolding D by (simp add: nh area start_area [OF ok])
  show "crash_disk k lg s (log_at lg t) = ?v (lg_block lg ! t)" if tn: "t < ?n" for t
  proof -
    have "(lg_block lg ! t, log_at lg t) \<in> set (to_log lg)" using tn by (auto simp: to_log_def)
    from put_pairs_same [OF P(5) this, of ?v "io_disk s"]
    have "apply_writes (log_writes lg ?v) (io_disk s) (log_at lg t) = ?v (lg_block lg ! t)"
      by (simp add: put_pairs_writes log_writes_def)
    then show ?thesis unfolding D using nh [OF area [OF log_at_area [OF ok tn]]] log_at_start [OF ok tn] by simp
  qed
  show "crash_disk k lg s b = ?v b" if b: "b \<notin> log_area lg" "b \<notin> set (homes lg)" for b
  proof -
    have "b \<notin> fst ` set (log_writes lg ?v)" using b P(3) by (auto simp: log_writes_def image_image subset_iff)
    then have "apply_writes (log_writes lg ?v) (io_disk s) b = io_disk s b" by (rule apply_writes_other)
    moreover have "b \<noteq> lg_start lg" using b start_area [OF ok] by blast
    ultimately show ?thesis unfolding D using nh [OF b(2)] quiet_clean_disk [OF q, of b] b(2) d by simp
  qed
qed

lemma crash_after:
  assumes c: "commits lg s" and k: "2 * nat (lg_n lg) + 2 \<le> k"
  shows "head_n (crash_disk k lg s (lg_start lg)) = 0" and "b \<notin> log_area lg \<Longrightarrow> crash_disk k lg s b = cache_view s b"
proof -
  let ?v = "cache_view s" and ?n = "nat (lg_n lg)"
  have ok: "log_ok lg (io_disksize s)" and q: "bc.quiet s" and d: "dirty_blocks s = set (homes lg)" and n: "0 < lg_n lg"
    using c by (simp_all add: commits_def)
  note H = homes_facts [OF ok] and L = log_okD [OF ok]
  have "length (commit_writes lg ?v) = 2 * ?n + 2"
    by (simp add: commit_writes_def log_writes_def to_log_def home_writes_def H(1))
  then have D: "crash_disk k lg s = apply_writes (commit_writes lg ?v) (io_disk s)" using k by (simp add: crash_disk_def)
  have start: "lg_start lg < io_disksize s" using L(6) by (simp add: word_less_nat_alt)
  have "length (?v (lg_start lg)) = BSIZE" using view_length q start by (simp add: bc.quiet_def)
  then have "length (full_head lg ?v) = BSIZE"
    unfolding full_head_def using H(1) L(2,3) by (subst put_head_facts(1)) (simp_all add: BSIZE_def)
  then have "head_n (put_head 0 [] (full_head lg ?v)) = 0" by (intro put_head_facts(2)) (simp_all add: BSIZE_def)
  then show "head_n (crash_disk k lg s (lg_start lg)) = 0" by (simp add: D commit_writes_def)
  obtain t where t: "bc.quiet t" "dirty_blocks t = {}" "io_disk t = apply_writes (commit_writes lg ?v) (io_disk s)"
      "\<forall>b. b \<notin> log_area lg \<longrightarrow> cache_view t b = ?v b" using commit_law [OF q ok n d] by blast
  show "crash_disk k lg s b = ?v b" if "b \<notin> log_area lg"
    using quiet_clean_disk [OF t(1), of b] t(2,3,4) that D by simp
qed

text \<open>
  A commit is atomic. It writes the changed blocks to the log, the header, the blocks to their
  homes and the empty header. If the machine stops after any number \<open>k\<close> of these writes and is
  started again, recovery ends, leaves an empty log, and outside the log every block has the contents
  from before the transaction when the header had not been written, and the contents of the
  transaction when it had.
\<close>

lemma commit_crash_atomic:
  assumes c: "commits lg s"
  shows "\<exists>lg' u. initlog 1 (binit pid (crash_disk k lg s) (io_disksize s)) = Ok (lg', u) \<and> lg_n lg' = 0 \<and>
    head_n (io_disk u (lg_start lg)) = 0 \<and>
    (\<forall>b. b \<notin> log_area lg \<longrightarrow> io_disk u b = (if k \<le> nat (lg_n lg) then io_disk s b else cache_view s b))"
proof -
  let ?D = "crash_disk k lg s" and ?sz = "io_disksize s" and ?n = "nat (lg_n lg)" and ?v = "cache_view s"
  have ok: "log_ok lg ?sz" and q: "bc.quiet s" and d: "dirty_blocks s = set (homes lg)" and h0: "head_n (io_disk s (lg_start lg)) = 0"
    and one: "1 < ?sz" "1 \<notin> log_area lg" "1 \<notin> set (homes lg)" "sb_logstart (superblock_of (io_disk s 1)) = lg_start lg"
      "sint (sb_nlog (superblock_of (io_disk s 1))) = lg_size lg"
    using c by (simp_all add: commits_def)
  note P = pairs_facts [OF ok] and L = log_okD [OF ok] and H = homes_facts [OF ok]
  have start: "lg_start lg < ?sz" using L(6) by (simp add: word_less_nat_alt)
  have clean: "?v b = io_disk s b" if "b \<notin> set (homes lg)" for b using quiet_clean_disk [OF q] d that by simp
  have len: "\<forall>b < ?sz. length (?D b) = BSIZE" using commit_lengths [OF c] by blast
  have D1: "?D 1 = io_disk s 1"
  proof -
    consider "k \<le> ?n" | "?n < k" "k \<le> 2 * ?n + 1" | "2 * ?n + 2 \<le> k" by linarith
    then show ?thesis
      by cases (use crash_before [OF c] crash_middle(3) [OF c] crash_after(2) [OF c] one clean [OF one(3)] in simp_all)
  qed
  let ?l = "log_start\<lparr>lg_start := lg_start lg, lg_size := sint (sb_nlog (superblock_of (?D 1))), lg_dev := 1\<rparr>"
  have l: "lg_start ?l = lg_start lg" "lg_dev ?l = 1" "length (lg_block ?l) = 30" "lg_size ?l = lg_size lg"
    using one(5) D1 by (simp_all add: log_start_def LOGSIZE_def)
  have room: "0 < lg_size ?l" "unat (lg_start lg) + nat (lg_size ?l) \<le> unat ?sz" using L(2,10,11) l(4) by simp_all
  let ?f = "found_log ?l (?D (lg_start lg))"
  have goal: ?thesis if f: "log_ok ?f ?sz" and r: "\<And>b. b \<notin> log_area lg \<Longrightarrow>
      put_pairs ?D (to_home ?f) ?D b = (if k \<le> ?n then io_disk s b else ?v b)"
  proof -
    have sb: "sb_logstart (superblock_of (?D 1)) = lg_start lg" "sint (sb_nlog (superblock_of (?D 1))) = lg_size lg"
      using one(4,5) D1 by simp_all
    from reboot_law [OF len one(1) sb start refl f, of pid] r show ?thesis by (metis (no_types, lifting))
  qed
  consider "k \<le> ?n" | "?n < k" "k \<le> 2 * ?n + 1" | "2 * ?n + 2 \<le> k" by linarith
  then show ?thesis
  proof cases
    case 1
    note b = crash_before [OF c 1]
    then have "head_n (?D (lg_start lg)) = 0" using h0 by simp
    from found_empty [OF this l(1-3) room] b 1 show ?thesis by (intro goal) simp_all
  next
    case 2
    note m = crash_middle [OF c 2]
    have vs: "length (?v (lg_start lg)) = BSIZE" using view_length q start by (simp add: bc.quiet_def)
    have f: "log_ok ?f ?sz" "to_home ?f = to_home lg"
      using found_full [OF ok l vs] m(1) by (simp_all add: full_head_def)
    have dist: "distinct (map snd (to_home lg))" using P(2) L(8) by simp
    show ?thesis
    proof (rule goal [OF f(1)])
      fix b assume b: "b \<notin> log_area lg"
      have "put_pairs ?D (to_home lg) ?D b = ?v b"
      proof (cases "b \<in> set (homes lg)")
        case True
        then obtain t where t: "t < ?n" "b = lg_block lg ! t" using H(1,2) by (metis in_set_conv_nth)
        then have "(log_at lg t, b) \<in> set (to_home lg)" by (auto simp: to_home_def)
        with put_pairs_same [OF dist this] m(2) [OF t(1)] t(2) show ?thesis by simp
      next
        case False
        then have "b \<notin> snd ` set (to_home lg)" using P(2) by (metis set_map)
        with m(3) [OF b False] show ?thesis by (simp add: put_pairs_other)
      qed
      with 2 f(2) show "put_pairs ?D (to_home ?f) ?D b = (if k \<le> ?n then io_disk s b else ?v b)" by simp
    qed
  next
    case 3
    note a = crash_after [OF c 3]
    from found_empty [OF a(1) l(1-3) room] a(2) 3 show ?thesis by (intro goal) simp_all
  qed
qed

end
