(* ===== verification/LogAtomic.thy ===== *)
theory LogAtomic
  imports LogFun
begin

text \<open>
  xv6: a file system call as the log sees it (\<open>begin_op\<close>, updates of blocks, \<open>end_op\<close>), and its atomicity:
  whichever of its writes have reached the disk when the machine stops, recovery leaves all of the
  updates or none.
\<close>

section \<open>Transactions\<close>

text \<open>Between two transactions.\<close>

definition log_idle :: "log \<Rightarrow> io \<Rightarrow> bool" where
  "log_idle lg s \<longleftrightarrow> bc.quiet s \<and> dirty_blocks s = {} \<and> lg_dev lg = 1 \<and> lg_n lg = 0 \<and> lg_outstanding lg = 0 \<and>
     \<not> lg_committing lg \<and> length (lg_block lg) = 30 \<and> 12 \<le> lg_size lg \<and> unat (lg_start lg) + nat (lg_size lg) \<le> unat (io_disksize s) \<and>
     head_n (io_disk s (lg_start lg)) = 0 \<and> 1 < io_disksize s \<and> 1 \<notin> log_area lg \<and>
     sb_logstart (superblock_of (io_disk s 1)) = lg_start lg \<and> sint (sb_nlog (superblock_of (io_disk s 1))) = lg_size lg"

text \<open>In the middle of one that has changed the blocks in the log.\<close>

definition in_transaction :: "log \<Rightarrow> io \<Rightarrow> bool" where
  "in_transaction lg s \<longleftrightarrow> bc.quiet s \<and> log_ok lg (io_disksize s) \<and> dirty_blocks s = set (homes lg) \<and> lg_outstanding lg = 1 \<and>
     \<not> lg_committing lg \<and> 12 \<le> lg_size lg"

lemma homes_index:
  assumes ok: "log_ok lg sz" and n: "lg_n lg < 29" "lg_n lg + 1 < lg_size lg" and b: "b < sz" "b \<notin> log_area lg"
    and l: "lg' = lg\<lparr>lg_block := (lg_block lg)[log_index b lg := b], lg_n := (if int (log_index b lg) = lg_n lg then lg_n lg + 1 else lg_n lg)\<rparr>"
  shows "homes lg' = (if b \<in> set (homes lg) then homes lg else homes lg @ [b])" and "log_ok lg' sz"
proof -
  note L = log_okD [OF ok] and H = homes_facts [OF ok]
  have "homes lg' = (if b \<in> set (homes lg) then homes lg else homes lg @ [b]) \<and> log_ok lg' sz"
  proof (cases "b \<in> set (homes lg)")
    case True
    then obtain i where i: "find_idx (\<lambda>x. x = b) (homes lg) = Some i" using find_idx_Some_ex [of b "homes lg" "\<lambda>x. x = b"] by auto
    then have ib: "i < length (homes lg)" "homes lg ! i = b" using find_idx_SomeD [OF i] by simp_all
    have idx: "log_index b lg = i" using i by (simp add: log_index_def homes_def)
    have i': "i < nat (lg_n lg)" using ib(1) H(1) by simp
    then have "lg_block lg ! i = b" "i < length (lg_block lg)" using ib(2) n L(4) by (simp_all add: homes_def)
    then have "(lg_block lg)[i := b] = lg_block lg" by (metis list_update_id)
    moreover have "int i \<noteq> lg_n lg" using i' by linarith
    ultimately have "lg' = lg" by (simp add: l idx)
    with True ok show ?thesis by simp
  next
    case False
    then have "find_idx (\<lambda>x. x = b) (homes lg) = None" by auto
    then have idx: "log_index b lg = nat (lg_n lg)" unfolding log_index_def homes_def by (simp only: option.case)
    have "nat (lg_n lg + 1) = Suc (nat (lg_n lg))" using L(2) by simp
    then have h: "homes lg' = homes lg @ [b]"
      using n L(2,4) by (simp add: l idx homes_def take_Suc_conv_app_nth)
    have "log_ok lg' sz" unfolding log_ok_def h
      using L(1,2,4,8,9,10) n b False by (auto simp: l idx log_area_def)
    with False h show ?thesis by simp
  qed
  then show "homes lg' = (if b \<in> set (homes lg) then homes lg else homes lg @ [b])" "log_ok lg' sz" by simp_all
qed

text \<open>
  One update, the way the file system makes it: read the block, change it, \<open>log_write\<close>, release.
\<close>

fun update_all :: "uint \<Rightarrow> (uint \<times> (byte list \<Rightarrow> byte list)) list \<Rightarrow> log \<Rightarrow> io \<Rightarrow> (log \<times> io) res" where
  "update_all dev [] lg s = Ok (lg, s)"
| "update_all dev ((b, f) # us) lg s =
     rbind (bread dev b s) (\<lambda>(i, s).
     rbind (log_write i lg (set_buf_data i (f (buf_data i s)) s)) (\<lambda>(lg, s).
     rbind (brelse i s) (\<lambda>s. update_all dev us lg s)))"

definition transaction :: "uint \<Rightarrow> (uint \<times> (byte list \<Rightarrow> byte list)) list \<Rightarrow> log \<Rightarrow> io \<Rightarrow> (log \<times> io) res" where
  "transaction dev us lg s =
     rbind (begin_op lg) (\<lambda>lg. rbind (update_all dev us lg s) (\<lambda>(lg, s). end_op lg s))"

fun updated :: "(uint \<times> (byte list \<Rightarrow> byte list)) list \<Rightarrow> (uint \<Rightarrow> byte list) \<Rightarrow> uint \<Rightarrow> byte list" where
  "updated [] v = v"
| "updated ((b, f) # us) v = updated us (v(b := f (v b)))"

lemma update_law:
  assumes t: "in_transaction lg s" and n: "lg_n lg < 10" and b: "b < io_disksize s" "b \<notin> log_area lg"
    and f: "\<forall>d. length d = BSIZE \<longrightarrow> length (f d) = BSIZE"
  shows "\<exists>i s1 lg' s2 s3. bread 1 b s = Ok (i, s1) \<and> log_write i lg (set_buf_data i (f (buf_data i s1)) s1) = Ok (lg', s2) \<and>
    brelse i s2 = Ok s3 \<and> in_transaction lg' s3 \<and> cache_view s3 = (cache_view s)(b := f (cache_view s b)) \<and>
    io_disk s3 = io_disk s \<and> io_writes s3 = io_writes s \<and> io_disksize s3 = io_disksize s \<and>
    set (homes lg') = insert b (set (homes lg)) \<and> lg_n lg' \<le> lg_n lg + 1 \<and> lg_start lg' = lg_start lg \<and> lg_size lg' = lg_size lg"
proof -
  have q: "cache_inv s" "held_block s = Map.empty" and ok: "log_ok lg (io_disksize s)" and d: "dirty_blocks s = set (homes lg)"
    using t by (simp_all add: in_transaction_def bc.quiet_def)
  have r: "card (insert b (dirty_blocks s \<union> ran (held_block s))) \<le> NBUF"
    using card_pinned_start [OF ok, of "set (homes lg)" b] by (simp add: d q(2))
  from bread_law [OF q(1) b(1) _ r] q(2) obtain i s1 where 1: "bread 1 b s = Ok (i, s1)" "cache_inv s1" "held_block s1 = [i \<mapsto> b]"
      "cache_view s1 = cache_view s" "io_disk s1 = io_disk s" "dirty_blocks s1 = dirty_blocks s" "io_writes s1 = io_writes s"
      "io_disksize s1 = io_disksize s" by auto
  have h1: "held_block s1 i = Some b" using 1(3) by simp
  have dt: "buf_data i s1 = cache_view s b" using bc.data_law [OF 1(2) h1] 1(4) by simp
  have len: "length (f (cache_view s b)) = BSIZE" using f view_length [OF q(1) b(1)] by blast
  let ?s = "set_buf_data i (f (cache_view s b)) s1"
  note 2 = set_buf_data_law [OF 1(2) h1 len]
  have h2: "held_block ?s i = Some b" using 2 h1 by simp
  have inv2: "cache_inv ?s" using 2 by blast
  have bn: "b_blockno (io_bufs ?s ! i) = b" by (rule held_buf(5) [OF inv2 h2])
  note 3 = set_dirty_law [OF inv2 h2]
  let ?lg = "lg\<lparr>lg_block := (lg_block lg)[log_index b lg := b], lg_n := (if int (log_index b lg) = lg_n lg then lg_n lg + 1 else lg_n lg)\<rparr>"
  have lw: "log_write i lg ?s = Ok (?lg, set_dirty i ?s)"
    using t n by (simp add: log_write_def bn Let_def in_transaction_def LOGSIZE_def)
  have "lg_n lg < 29" "lg_n lg + 1 < lg_size lg" using n t by (simp_all add: in_transaction_def)
  note hm = homes_index [OF ok this b refl]
  have h3: "held_block (set_dirty i ?s) i = Some b" using 3 h2 by simp
  have "b \<in> dirty_blocks (set_dirty i ?s)" using 3 by simp
  then have "b \<in> dirty_blocks (set_dirty i ?s) \<or> cache_view (set_dirty i ?s) b = io_disk (set_dirty i ?s) b" ..
  from brelse_law [OF _ h3 this] 3 obtain s3 where 4: "brelse i (set_dirty i ?s) = Ok s3" "cache_inv s3"
      "held_block s3 = (held_block (set_dirty i ?s))(i := None)" "cache_view s3 = cache_view (set_dirty i ?s)"
      "io_disk s3 = io_disk (set_dirty i ?s)" "dirty_blocks s3 = dirty_blocks (set_dirty i ?s)"
      "io_writes s3 = io_writes (set_dirty i ?s)" "io_disksize s3 = io_disksize (set_dirty i ?s)" by blast
  have "held_block s3 = Map.empty" using 4(3) 3 2 1(3) by auto
  then have "bc.quiet s3" using 4(2) by (simp add: bc.quiet_def)
  moreover have "set (homes ?lg) = insert b (set (homes lg))" using hm(1) by auto
  moreover have "dirty_blocks s3 = insert b (set (homes lg))" using 4(6) 3 2 1(6) d by simp
  moreover have "io_disksize s3 = io_disksize s" using 4(8) 3 2 1(8) by simp
  ultimately have "in_transaction ?lg s3" using t hm(2) by (simp add: in_transaction_def)
  with 1 2 3 4 lw dt \<open>set (homes ?lg) = insert b (set (homes lg))\<close> show ?thesis by auto
qed

lemma update_all_law:
  "in_transaction lg s \<Longrightarrow> lg_n lg + int (length us) \<le> 10 \<Longrightarrow>
   \<forall>(b, f)\<in>set us. b < io_disksize s \<and> b \<notin> log_area lg \<and> (\<forall>d. length d = BSIZE \<longrightarrow> length (f d) = BSIZE) \<Longrightarrow>
   \<exists>lg' t. update_all 1 us lg s = Ok (lg', t) \<and> in_transaction lg' t \<and> cache_view t = updated us (cache_view s) \<and>
     io_disk t = io_disk s \<and> io_writes t = io_writes s \<and> io_disksize t = io_disksize s \<and>
     set (homes lg') = fst ` set us \<union> set (homes lg) \<and> lg_start lg' = lg_start lg \<and> lg_size lg' = lg_size lg"
proof (induction us arbitrary: lg s)
  case Nil
  then show ?case by simp
next
  case (Cons u us)
  obtain b f where u: "u = (b, f)" by fastforce
  have n: "lg_n lg < 10" using Cons.prems(2) by simp
  have bf: "b < io_disksize s" "b \<notin> log_area lg" "\<forall>d. length d = BSIZE \<longrightarrow> length (f d) = BSIZE"
    using Cons.prems(3) by (simp_all add: u)
  from update_law [OF Cons.prems(1) n bf] obtain i s1 lg1 s2 s3 where
    1: "bread 1 b s = Ok (i, s1)" "log_write i lg (set_buf_data i (f (buf_data i s1)) s1) = Ok (lg1, s2)" "brelse i s2 = Ok s3"
      "in_transaction lg1 s3" "cache_view s3 = (cache_view s)(b := f (cache_view s b))" "io_disk s3 = io_disk s"
      "io_writes s3 = io_writes s" "io_disksize s3 = io_disksize s" "set (homes lg1) = insert b (set (homes lg))"
      "lg_n lg1 \<le> lg_n lg + 1" "lg_start lg1 = lg_start lg" "lg_size lg1 = lg_size lg" by blast
  have ar: "log_area lg1 = log_area lg" using 1(11,12) by (rule log_area_cong)
  have "lg_n lg1 + int (length us) \<le> 10" using Cons.prems(2) 1(10) by simp
  from Cons.IH [OF 1(4) this] Cons.prems(3) 1(8) ar obtain lg' t where
    2: "update_all 1 us lg1 s3 = Ok (lg', t)" "in_transaction lg' t" "cache_view t = updated us (cache_view s3)"
      "io_disk t = io_disk s3" "io_writes t = io_writes s3" "io_disksize t = io_disksize s3"
      "set (homes lg') = fst ` set us \<union> set (homes lg1)" "lg_start lg' = lg_start lg1" "lg_size lg' = lg_size lg1" by auto
  have "update_all 1 (u # us) lg s = Ok (lg', t)" using 1(1,2,3) 2(1) by (simp add: u)
  with 1 2 u show ?case by auto
qed

text \<open>A reboot recovers, from the disk \<open>D\<close>, a disk with the contents \<open>X\<close> outside the log, and an empty log.\<close>

definition recovers :: "log \<Rightarrow> uint \<Rightarrow> (uint \<Rightarrow> byte list) \<Rightarrow> (uint \<Rightarrow> byte list) \<Rightarrow> bool" where
  "recovers lg sz D X \<longleftrightarrow> (\<forall>pid. \<exists>lg' u. initlog 1 (binit pid D sz) = Ok (lg', u) \<and> lg_n lg' = 0 \<and>
     head_n (io_disk u (lg_start lg)) = 0 \<and> (\<forall>b. b \<notin> log_area lg \<longrightarrow> io_disk u b = X b))"

lemma recovers_idle:
  assumes "log_idle lg s"
  shows "recovers lg (io_disksize s) (io_disk s) (io_disk s)"
proof -
  let ?D = "io_disk s" and ?sz = "io_disksize s"
  have i: "bc.quiet s" "unat (lg_start lg) + nat (lg_size lg) \<le> unat ?sz" "head_n (?D (lg_start lg)) = 0" "1 < ?sz"
      "sb_logstart (superblock_of (?D 1)) = lg_start lg" "sint (sb_nlog (superblock_of (?D 1))) = lg_size lg" "12 \<le> lg_size lg"
    using assms by (simp_all add: log_idle_def)
  have len: "\<forall>b < ?sz. length (?D b) = BSIZE" using cache_invD(5) i(1) by (simp add: bc.quiet_def)
  have start: "lg_start lg < ?sz" using i(2,7) by (simp add: word_less_nat_alt)
  let ?l = "log_start\<lparr>lg_start := lg_start lg, lg_size := sint (sb_nlog (superblock_of (?D 1))), lg_dev := 1\<rparr>"
  have "lg_start ?l = lg_start lg" "lg_dev ?l = 1" "length (lg_block ?l) = 30" "0 < lg_size ?l"
      "unat (lg_start lg) + nat (lg_size ?l) \<le> unat ?sz" using i(2,6,7) by (simp_all add: log_start_def LOGSIZE_def)
  from found_empty [OF i(3) this]
  have f: "log_ok (found_log ?l (?D (lg_start lg))) ?sz" "to_home (found_log ?l (?D (lg_start lg))) = []" by simp_all
  show ?thesis unfolding recovers_def
  proof
    fix pid
    from reboot_law [OF len i(4,5,6) start refl f(1), of pid]
    show "\<exists>lg' u. initlog 1 (binit pid ?D ?sz) = Ok (lg', u) \<and> lg_n lg' = 0 \<and> head_n (io_disk u (lg_start lg)) = 0 \<and>
        (\<forall>b. b \<notin> log_area lg \<longrightarrow> io_disk u b = ?D b)"
      by (auto simp: f(2))
  qed
qed

lemma recovers_commit:
  assumes c: "commits lg s"
  shows "recovers lg (io_disksize s) (crash_disk k lg s) (if k \<le> nat (lg_n lg) then io_disk s else cache_view s)"
  unfolding recovers_def
proof
  fix pid
  from commit_crash_atomic [OF c, of pid k]
  show "\<exists>lg' u. initlog 1 (binit pid (crash_disk k lg s) (io_disksize s)) = Ok (lg', u) \<and> lg_n lg' = 0 \<and>
      head_n (io_disk u (lg_start lg)) = 0 \<and>
      (\<forall>b. b \<notin> log_area lg \<longrightarrow> io_disk u b = (if k \<le> nat (lg_n lg) then io_disk s else cache_view s) b)"
    by (cases "k \<le> nat (lg_n lg)") simp_all
qed

lemma end_op_law:
  assumes t: "in_transaction lg s" and n: "0 < lg_n lg" and h0: "head_n (io_disk s (lg_start lg)) = 0" and one: "1 < io_disksize s"
    "1 \<notin> log_area lg" "1 \<notin> set (homes lg)" "sb_logstart (superblock_of (io_disk s 1)) = lg_start lg"
    "sint (sb_nlog (superblock_of (io_disk s 1))) = lg_size lg"
  shows "\<exists>lg' t W. end_op lg s = Ok (lg', t) \<and> log_idle lg' t \<and> lg_start lg' = lg_start lg \<and> lg_size lg' = lg_size lg \<and> io_writes t = io_writes s @ W \<and>
    (\<forall>b. b \<notin> log_area lg \<longrightarrow> io_disk t b = cache_view s b) \<and>
    (\<forall>k. recovers lg (io_disksize s) (apply_writes (take k W) (io_disk s)) (io_disk s) \<or>
         recovers lg (io_disksize s) (apply_writes (take k W) (io_disk s)) (cache_view s))"
proof -
  let ?l = "lg\<lparr>lg_outstanding := 0, lg_committing := True\<rparr>"
  have same: "homes ?l = homes lg" "log_ok ?l = log_ok lg" "log_area ?l = log_area lg" "recovers ?l = recovers lg"
    by (simp_all add: homes_def log_ok_def log_area_def recovers_def fun_eq_iff)
  have c: "commits ?l s" using assms same by (simp add: commits_def in_transaction_def)
  then have q: "bc.quiet s" and ok: "log_ok ?l (io_disksize s)" and d: "dirty_blocks s = set (homes ?l)" and n': "0 < lg_n ?l"
    by (simp_all add: commits_def)
  from commit_law [OF q ok n' d] obtain t where t': "commit ?l s = Ok (?l\<lparr>lg_n := 0\<rparr>, t)" "bc.quiet t" "dirty_blocks t = {}"
      "io_disksize t = io_disksize s" "io_writes t = io_writes s @ commit_writes ?l (cache_view s)"
      "io_disk t = apply_writes (commit_writes ?l (cache_view s)) (io_disk s)" by blast
  let ?W = "commit_writes ?l (cache_view s)" and ?lg = "lg\<lparr>lg_outstanding := 0, lg_committing := False, lg_n := 0\<rparr>"
  have e: "end_op lg s = Ok (?lg, t)" using t t'(1) by (simp add: end_op_def Let_def in_transaction_def)
  define K where "K = 2 * nat (lg_n ?l) + 2 + length ?W"
  have D: "io_disk t = crash_disk K ?l s" using t'(6) by (simp add: crash_disk_def K_def)
  have K: "2 * nat (lg_n ?l) + 2 \<le> K" by (simp add: K_def)
  note a = crash_after [OF c K]
  have new: "io_disk t b = cache_view s b" if "b \<notin> log_area lg" for b using a(2) [of b] D that same(3) by simp
  have "io_disk t 1 = io_disk s 1" using new [OF one(2)] quiet_clean_disk [OF q, of 1] one(3) d same by simp
  then have "log_idle ?lg t"
    using t t' a(1) D one log_okD(4,10) [OF ok] by (simp add: log_idle_def in_transaction_def log_ok_def)
  moreover have "recovers lg (io_disksize s) (apply_writes (take k ?W) (io_disk s)) (io_disk s) \<or>
         recovers lg (io_disksize s) (apply_writes (take k ?W) (io_disk s)) (cache_view s)" for k
    using recovers_commit [OF c, of k] by (auto simp: crash_disk_def same(4) split: if_splits)
  ultimately show ?thesis using e t'(5) new by (intro exI [of _ ?lg] exI [of _ t] exI [of _ ?W]) simp
qed

text \<open>
  C3: A transaction of the xv6 log is atomic. From a log with nothing in it, a system call that updates up to
  \<open>MAXOPBLOCKS\<close> blocks between \<open>begin_op\<close> and \<open>end_op\<close>, each with \<open>bread\<close>, a change, \<open>log_write\<close> and
  \<open>brelse\<close>, runs to its end and leaves the log empty again and the updates on the disk. If the machine
  stops after any number of the writes of the call, the next boot (\<open>binit\<close>, \<open>initlog\<close>) recovers a disk
  that has, outside the log, either everything from before the call or all of its updates.
\<close>

theorem transaction_atomic:
  assumes idle: "log_idle lg s" and n: "length us \<le> 10"
    and us: "\<forall>(b, f)\<in>set us. b < io_disksize s \<and> b \<notin> log_area lg \<and> b \<noteq> 1 \<and> (\<forall>d. length d = BSIZE \<longrightarrow> length (f d) = BSIZE)"
  shows "\<exists>lg' t W. transaction 1 us lg s = Ok (lg', t) \<and> log_idle lg' t \<and> lg_start lg' = lg_start lg \<and> lg_size lg' = lg_size lg \<and>
    io_writes t = io_writes s @ W \<and>
    (\<forall>b. b \<notin> log_area lg \<longrightarrow> io_disk t b = updated us (io_disk s) b) \<and>
    (\<forall>k. recovers lg (io_disksize s) (apply_writes (take k W) (io_disk s)) (io_disk s) \<or>
         recovers lg (io_disksize s) (apply_writes (take k W) (io_disk s)) (updated us (io_disk s)))"
proof -
  have q: "bc.quiet s" and d: "dirty_blocks s = {}" using idle by (simp_all add: log_idle_def)
  have view: "cache_view s = io_disk s" using quiet_clean_disk [OF q] d by auto
  let ?l = "lg\<lparr>lg_outstanding := 1\<rparr>"
  have b: "begin_op lg = Ok ?l" using idle by (simp add: begin_op_def log_idle_def MAXOPBLOCKS_def LOGSIZE_def)
  have it: "in_transaction ?l s" and n': "lg_n ?l + int (length us) \<le> 10"
    using idle n by (simp_all add: in_transaction_def log_idle_def log_ok_def homes_def)
  have "\<forall>(b, f)\<in>set us. b < io_disksize s \<and> b \<notin> log_area ?l \<and> (\<forall>d. length d = BSIZE \<longrightarrow> length (f d) = BSIZE)"
    using us log_area_cong [of ?l lg] by auto
  from update_all_law [OF it n' this] obtain l1 s1 where
    1: "update_all 1 us ?l s = Ok (l1, s1)" "in_transaction l1 s1" "cache_view s1 = updated us (io_disk s)" "io_disk s1 = io_disk s"
      "io_writes s1 = io_writes s" "io_disksize s1 = io_disksize s" "set (homes l1) = fst ` set us" "lg_start l1 = lg_start lg" "lg_size l1 = lg_size lg"
    using idle by (auto simp: view homes_def log_idle_def)
  have run: "transaction 1 us lg s = end_op l1 s1" by (simp add: transaction_def b 1(1))
  have ok: "log_ok l1 (io_disksize s)" using 1(2,6) by (simp add: in_transaction_def)
  have notone: "1 \<notin> set (homes l1)" using us 1(7) by auto
  show ?thesis
  proof (cases "0 < lg_n l1")
    case True
    have ar: "log_area l1 = log_area lg" using 1(8,9) by (rule log_area_cong)
    then have rc: "recovers l1 = recovers lg" using 1(8) by (simp add: recovers_def fun_eq_iff)
    have "head_n (io_disk s1 (lg_start l1)) = 0" "1 < io_disksize s1" "1 \<notin> log_area l1"
        "sb_logstart (superblock_of (io_disk s1 1)) = lg_start l1" "sint (sb_nlog (superblock_of (io_disk s1 1))) = lg_size l1"
      using idle by (simp_all add: log_idle_def 1(4,6,8,9) ar)
    from end_op_law [OF 1(2) True this(1-3) notone this(4,5)] show ?thesis unfolding run 1(3,4,5,6,8,9) ar rc .
  next
    case False
    then have z: "lg_n l1 = 0" "homes l1 = []" using log_okD(2) [OF ok] by (simp_all add: homes_def)
    then have us: "us = []" using 1(7) by simp
    then have "l1 = ?l" "s1 = s" using 1(1) by simp_all
    then have "transaction 1 us lg s = Ok (lg\<lparr>lg_outstanding := 0, lg_committing := False\<rparr>, s)"
      unfolding run using idle by (simp add: end_op_def commit_def Let_def log_idle_def)
    moreover have "log_idle (lg\<lparr>lg_outstanding := 0, lg_committing := False\<rparr>) s" using idle by (simp add: log_idle_def)
    ultimately show ?thesis using recovers_idle [OF idle] us
      by (intro exI [of _ "lg\<lparr>lg_outstanding := 0, lg_committing := False\<rparr>"] exI [of _ s] exI [of _ "[]"]) simp
  qed
qed

text \<open>A disk of 100 blocks whose superblock puts the log at block 2, and a call that changes a byte of block 32, the first one behind the log.\<close>

definition demo_disk :: "uint \<Rightarrow> byte list" where
  "demo_disk b = (if b = 1 then put_bytes 12 (bytes32 30 @ bytes32 2) (replicate BSIZE 0) else replicate BSIZE 0)"

definition demo_log :: log where
  "demo_log = log_start\<lparr>lg_start := 2, lg_size := 30, lg_dev := 1\<rparr>"

lemma demo_idle: "log_idle demo_log (binit 7 demo_disk 100)"
proof -
  have len: "\<forall>b < (100::uint). length (demo_disk b) = BSIZE" by (simp add: demo_disk_def BSIZE_def length_put_bytes)
  have p: "demo_disk 1 ! k = (if 12 \<le> k \<and> k < 20 then (bytes32 30 @ bytes32 2) ! (k - 12) else 0)" if "k < 512" for k
    using that by (simp add: demo_disk_def BSIZE_def nth_put_bytes)
  have "sb_logstart (superblock_of (demo_disk 1)) = 2" "sb_nlog (superblock_of (demo_disk 1)) = 30"
    by (simp_all add: superblock_of_def le32_def p bytes32_def)
  moreover have "head_n (demo_disk 2) = 0" by (simp add: head_n_def demo_disk_def BSIZE_def le32_def)
  moreover have "1 \<notin> log_area demo_log" by (simp add: log_area_def demo_log_def log_start_def)
  ultimately show ?thesis using binit_quiet [OF len, of 7]
    by (simp add: log_idle_def demo_log_def log_start_def LOGSIZE_def binit_def)
qed

lemma transaction_atomic_witness:
  "\<exists>lg' t W. transaction 1 [(32, \<lambda>d. d[0 := 9])] demo_log (binit 7 demo_disk 100) = Ok (lg', t) \<and> log_idle lg' t \<and>
    lg_start lg' = lg_start demo_log \<and> lg_size lg' = lg_size demo_log \<and> io_writes t = io_writes (binit 7 demo_disk 100) @ W \<and>
    (\<forall>b. b \<notin> log_area demo_log \<longrightarrow>
      io_disk t b = updated [(32, \<lambda>d. d[0 := 9])] (io_disk (binit 7 demo_disk 100)) b) \<and>
    (\<forall>k. recovers demo_log (io_disksize (binit 7 demo_disk 100)) (apply_writes (take k W) (io_disk (binit 7 demo_disk 100)))
           (io_disk (binit 7 demo_disk 100)) \<or>
         recovers demo_log (io_disksize (binit 7 demo_disk 100)) (apply_writes (take k W) (io_disk (binit 7 demo_disk 100)))
           (updated [(32, \<lambda>d. d[0 := 9])] (io_disk (binit 7 demo_disk 100))))"
proof (rule transaction_atomic [OF demo_idle])
  show "length [(32 :: uint, \<lambda>d :: byte list. d[0 := 9])] \<le> 10" by simp
  show "\<forall>(b, f)\<in>set [(32, \<lambda>d. d[0 := 9])]. b < io_disksize (binit 7 demo_disk 100) \<and> b \<notin> log_area demo_log \<and>
      b \<noteq> 1 \<and> (\<forall>d. length d = BSIZE \<longrightarrow> length (f d) = BSIZE)"
    by (simp add: binit_def demo_log_def log_start_def log_area_def)
qed

end
