(* ===== verification/FsLaws.thy ===== *)
theory FsLaws
  imports Fs LogAtomic
begin

text \<open>
  xv6: the file system over the laws of the buffer cache and the log. Inside a transaction the file system works on
  the contents \<open>V\<close> of the blocks; which blocks it changed is what the log has noted.
\<close>

abbreviation V :: "fsys \<Rightarrow> uint \<Rightarrow> byte list" where "V s \<equiv> cache_view (fs_io s)"
abbreviation H :: "fsys \<Rightarrow> nat \<Rightarrow> uint option" where "H s \<equiv> held_block (fs_io s)"
abbreviation logged :: "fsys \<Rightarrow> uint set" where "logged s \<equiv> set (homes (fs_log s))"
abbreviation disk_size :: "fsys \<Rightarrow> uint" where "disk_size s \<equiv> io_disksize (fs_io s)"
abbreviation log_blocks :: "fsys \<Rightarrow> uint set" where "log_blocks s \<equiv> log_area (fs_log s)"

text \<open>The log has room for all blocks that are in it and a few more; nothing has reached the disk.\<close>

definition LOGMAX :: nat where "LOGMAX = 25"

definition txn :: "fsys \<Rightarrow> bool" where
  "txn s \<longleftrightarrow> cache_inv (fs_io s) \<and> log_ok (fs_log s) (disk_size s) \<and> dirty_blocks (fs_io s) = logged s \<and>
     1 \<le> lg_outstanding (fs_log s) \<and> 30 \<le> lg_size (fs_log s) \<and> card (logged s) \<le> LOGMAX \<and>
     (\<forall>b. b \<notin> logged s \<longrightarrow> V s b = io_disk (fs_io s) b)"

text \<open>What the calls on blocks leave alone.\<close>

definition same_fs :: "fsys \<Rightarrow> fsys \<Rightarrow> bool" where
  "same_fs s t \<longleftrightarrow> fs_sb t = fs_sb s \<and> fs_inodes t = fs_inodes s \<and> disk_size t = disk_size s \<and>
     lg_start (fs_log t) = lg_start (fs_log s) \<and> lg_size (fs_log t) = lg_size (fs_log s) \<and> io_pid (fs_io t) = io_pid (fs_io s) \<and> H t = H s"

lemma same_fsD:
  assumes "same_fs s t"
  shows "fs_sb t = fs_sb s" and "fs_inodes t = fs_inodes s" and "disk_size t = disk_size s" and "H t = H s"
    and "log_blocks t = log_blocks s" and "fs_pid t = fs_pid s"
  using assms log_area_cong [of "fs_log t" "fs_log s"] by (simp_all add: same_fs_def fs_pid_def)

lemma same_fs_refl [simp]: "same_fs s s"
  by (simp add: same_fs_def)

lemma same_fs_trans: "same_fs s t \<Longrightarrow> same_fs t u \<Longrightarrow> same_fs s u"
  by (simp add: same_fs_def)

lemma txnD:
  assumes "txn s"
  shows "cache_inv (fs_io s)" and "log_ok (fs_log s) (disk_size s)" and "dirty_blocks (fs_io s) = logged s"
    and "card (logged s) \<le> LOGMAX" and "b \<notin> logged s \<Longrightarrow> V s b = io_disk (fs_io s) b"
    and "b < disk_size s \<Longrightarrow> length (V s b) = BSIZE" and "lg_n (fs_log s) = int (card (logged s))"
    and "b \<in> logged s \<Longrightarrow> b < disk_size s \<and> b \<notin> log_blocks s"
proof -
  show "cache_inv (fs_io s)" "log_ok (fs_log s) (disk_size s)" "dirty_blocks (fs_io s) = logged s"
    "card (logged s) \<le> LOGMAX" "b \<notin> logged s \<Longrightarrow> V s b = io_disk (fs_io s) b" using assms by (simp_all add: txn_def)
  show "b < disk_size s \<Longrightarrow> length (V s b) = BSIZE" using view_length assms by (simp add: txn_def)
  show "lg_n (fs_log s) = int (card (logged s))"
    using homes_facts(1) log_okD(2,8) assms by (fastforce simp: txn_def distinct_card)
  show "b \<in> logged s \<Longrightarrow> b < disk_size s \<and> b \<notin> log_blocks s" using log_okD(9) [of "fs_log s" "disk_size s" b] assms by (simp add: txn_def)
qed

text \<open>Which process runs does not change.\<close>

lemma bread_pid: "bread dev b s = Ok (i, t) \<Longrightarrow> io_pid t = io_pid s"
  unfolding bread_def bget_def lock_buf_def acquiresleep_def iderw_def rbind_eq_Ok Let_def
  by (auto split: option.splits if_splits simp: rbind_eq_Ok)

lemma brelse_pid: "brelse i s = Ok t \<Longrightarrow> io_pid t = io_pid s"
  by (auto simp: brelse_def Let_def split: if_splits)

lemma f_bread_law:
  assumes s: "txn s" and b: "b < disk_size s" "b \<notin> ran (H s)" and h: "card (ran (H s)) \<le> 4"
  shows "\<exists>i t. f_bread 1 b s = Ok (i, t) \<and> txn t \<and> H s i = None \<and> H t = (H s)(i \<mapsto> b) \<and> same_fs s (t\<lparr>fs_io := fs_io s\<rparr>) \<and>
    disk_size t = disk_size s \<and> fs_pid t = fs_pid s \<and> V t = V s \<and> fs_log t = fs_log s \<and> f_data i t = V s b"
proof -
  note S = txnD [OF s]
  have "card (insert b (dirty_blocks (fs_io s) \<union> ran (H s))) \<le> Suc (card (logged s \<union> ran (H s)))"
    unfolding S(3) by (rule card_insert_le_m1) simp_all
  also have "\<dots> \<le> Suc (card (logged s) + card (ran (H s)))" using card_Un_le by (rule Suc_le_mono [THEN iffD2])
  also have "\<dots> \<le> NBUF" using h S(4) by (simp add: NBUF_def LOGMAX_def)
  finally have r: "card (insert b (dirty_blocks (fs_io s) \<union> ran (H s))) \<le> NBUF" .
  from bread_law [OF S(1) b r] obtain i u where u: "bread 1 b (fs_io s) = Ok (i, u)" "cache_inv u" "H s i = None"
      "held_block u = (H s)(i \<mapsto> b)" "cache_view u = V s" "io_disk u = io_disk (fs_io s)" "dirty_blocks u = logged s"
      "io_disksize u = disk_size s" unfolding S(3) by blast
  let ?t = "s\<lparr>fs_io := u\<rparr>"
  have "txn ?t" using s u by (simp add: txn_def)
  moreover have "f_data i ?t = V s b" using bc.data_law [OF u(2), of i b] u(4,5) by (simp add: f_data_def)
  moreover have "f_bread 1 b s = Ok (i, ?t)" using u(1) by (simp add: f_bread_def)
  ultimately show ?thesis using u bread_pid [OF u(1)] by (intro exI [of _ i] exI [of _ ?t]) (simp add: same_fs_def fs_pid_def)
qed

lemma f_write_law:
  assumes s: "txn s" and h: "H s i = Some b" and d: "length d = BSIZE" and b: "b \<notin> log_blocks s" and c: "card (insert b (logged s)) \<le> LOGMAX"
  shows "\<exists>t. f_log_write i (f_set_data i d s) = Ok t \<and> txn t \<and> same_fs s t \<and> V t = (V s)(b := d) \<and> logged t = insert b (logged s)"
proof -
  note S = txnD [OF s]
  have bs: "b < disk_size s" using held_buf(4) [OF S(1) h] .
  note 2 = set_buf_data_law [OF S(1) h d]
  let ?u = "set_buf_data i d (fs_io s)"
  have i2: "cache_inv ?u" and h2: "held_block ?u i = Some b" using 2 h by simp_all
  have bn: "b_blockno (io_bufs ?u ! i) = b" by (rule held_buf(5) [OF i2 h2])
  note 3 = set_dirty_law [OF i2 h2]
  let ?lg = "(fs_log s)\<lparr>lg_block := (lg_block (fs_log s))[log_index b (fs_log s) := b],
      lg_n := (if int (log_index b (fs_log s)) = lg_n (fs_log s) then lg_n (fs_log s) + 1 else lg_n (fs_log s))\<rparr>"
  have n: "lg_n (fs_log s) < 29" "lg_n (fs_log s) + 1 < lg_size (fs_log s)" using S(4,7) s by (simp_all add: LOGMAX_def txn_def)
  have lw: "log_write i (fs_log s) ?u = Ok (?lg, set_dirty i ?u)"
    using s n by (simp add: log_write_def bn Let_def txn_def LOGSIZE_def)
  note hm = homes_index [OF S(2) n bs b refl]
  have l: "set (homes ?lg) = insert b (logged s)" using hm(1) by auto
  let ?t = "s\<lparr>fs_log := ?lg, fs_io := set_dirty i ?u\<rparr>"
  have view: "cache_view (set_dirty i ?u) = (V s)(b := d)" using 2 3 by simp
  have "f_log_write i (f_set_data i d s) = Ok ?t" using lw by (simp add: f_log_write_def f_set_data_def)
  moreover have "txn ?t" unfolding txn_def using s 2 3 hm(2) l c S(3,5) view by (simp add: txn_def)
  moreover have "same_fs s ?t" using 2 3 by (simp add: same_fs_def set_dirty_def set_buf_data_def)
  ultimately show ?thesis using view l by (intro exI [of _ ?t]) simp
qed

lemma f_brelse_law:
  assumes s: "txn s" and h: "H s i = Some b"
  shows "\<exists>t. f_brelse i s = Ok t \<and> txn t \<and> H t = (H s)(i := None) \<and> same_fs s (t\<lparr>fs_io := fs_io s\<rparr>) \<and>
    disk_size t = disk_size s \<and> fs_pid t = fs_pid s \<and> V t = V s \<and> fs_log t = fs_log s"
proof -
  note S = txnD [OF s]
  have "b \<in> dirty_blocks (fs_io s) \<or> V s b = io_disk (fs_io s) b" using S(3,5) by auto
  from brelse_law [OF S(1) h this] obtain u where u: "brelse i (fs_io s) = Ok u" "cache_inv u" "held_block u = (H s)(i := None)"
      "cache_view u = V s" "io_disk u = io_disk (fs_io s)" "dirty_blocks u = logged s" "io_disksize u = disk_size s"
    using S(3) by auto
  let ?t = "s\<lparr>fs_io := u\<rparr>"
  have "txn ?t" using s u by (simp add: txn_def)
  moreover have "f_brelse i s = Ok ?t" using u(1) by (simp add: f_brelse_def)
  ultimately show ?thesis using u brelse_pid [OF u(1)] by (intro exI [of _ ?t]) (simp add: same_fs_def fs_pid_def)
qed

text \<open>Reading a block, and changing one, with other blocks in use.\<close>

lemma f_read_law:
  assumes s: "txn s" and b: "b < disk_size s" "b \<notin> ran (H s)" and h: "card (ran (H s)) \<le> 4"
  shows "\<exists>i t u. f_bread 1 b s = Ok (i, t) \<and> f_data i t = V s b \<and> fs_sb t = fs_sb s \<and> fs_inodes t = fs_inodes s \<and> f_brelse i t = Ok u \<and>
    txn u \<and> same_fs s u \<and> V u = V s \<and> logged u = logged s"
proof -
  from f_bread_law [OF assms] obtain i t where t: "f_bread 1 b s = Ok (i, t)" "txn t" "H s i = None" "H t = (H s)(i \<mapsto> b)"
      "same_fs s (t\<lparr>fs_io := fs_io s\<rparr>)" "disk_size t = disk_size s" "fs_pid t = fs_pid s" "V t = V s" "fs_log t = fs_log s"
      "f_data i t = V s b" by blast
  from t(4) have "H t i = Some b" by simp
  from f_brelse_law [OF t(2) this] obtain u where u: "f_brelse i t = Ok u" "txn u" "H u = (H t)(i := None)"
      "same_fs t (u\<lparr>fs_io := fs_io t\<rparr>)" "disk_size u = disk_size t" "fs_pid u = fs_pid t" "V u = V t" "fs_log u = fs_log t" by blast
  have "H u = H s" using u(3) t(3,4) by auto
  then have "same_fs s u" using t u by (simp add: same_fs_def fs_pid_def)
  with t u show ?thesis by (intro exI [of _ i] exI [of _ t] exI [of _ u]) (simp add: same_fs_def)
qed

lemma f_update_law:
  assumes s: "txn s" and b: "b < disk_size s" "b \<notin> ran (H s)" "b \<notin> log_blocks s" and h: "card (ran (H s)) \<le> 4"
    and d: "length (f (V s b)) = BSIZE" and c: "card (insert b (logged s)) \<le> LOGMAX"
  shows "\<exists>i t u v. f_bread 1 b s = Ok (i, t) \<and> f_data i t = V s b \<and> fs_sb t = fs_sb s \<and> fs_inodes t = fs_inodes s \<and>
    f_log_write i (f_set_data i (f (V s b)) t) = Ok u \<and> f_brelse i u = Ok v \<and>
    txn v \<and> same_fs s v \<and> V v = (V s)(b := f (V s b)) \<and> logged v = insert b (logged s)"
proof -
  from f_bread_law [OF s b(1,2) h] obtain i t where t: "f_bread 1 b s = Ok (i, t)" "txn t" "H s i = None" "H t = (H s)(i \<mapsto> b)"
      "same_fs s (t\<lparr>fs_io := fs_io s\<rparr>)" "disk_size t = disk_size s" "fs_pid t = fs_pid s" "V t = V s" "fs_log t = fs_log s"
      "f_data i t = V s b" by blast
  have ht: "H t i = Some b" using t(4) by simp
  have "b \<notin> log_blocks t" "card (insert b (logged t)) \<le> LOGMAX" using b(3) c t(9) by simp_all
  from f_write_law [OF t(2) ht d this] obtain u where u: "f_log_write i (f_set_data i (f (V s b)) t) = Ok u" "txn u"
      "same_fs t u" "V u = (V t)(b := f (V s b))" "logged u = insert b (logged t)" by blast
  have "H u i = Some b" using same_fsD(4) [OF u(3)] ht by simp
  from f_brelse_law [OF u(2) this] obtain v where v: "f_brelse i u = Ok v" "txn v" "H v = (H u)(i := None)"
      "same_fs u (v\<lparr>fs_io := fs_io u\<rparr>)" "disk_size v = disk_size u" "fs_pid v = fs_pid u" "V v = V u" "fs_log v = fs_log u" by blast
  have "H v = H s" using v(3) same_fsD(4) [OF u(3)] t(3,4) by auto
  then have "same_fs s v" using t u(3) v by (simp add: same_fs_def fs_pid_def)
  with t u v show ?thesis by (intro exI [of _ i] exI [of _ t] exI [of _ u] exI [of _ v]) (simp add: same_fs_def)
qed

end
