(* ===== verification/FsBlocks.thy ===== *)
theory FsBlocks
  imports FsLaws
begin

text \<open>
  xv6: the allocation of blocks. \<open>balloc\<close> hands out a free block, marks it and zeroes it; \<open>bfree\<close> gives it back.
\<close>

section \<open>Bits of the bitmap\<close>

lemma bit_free_iff: "bit_free d bi \<longleftrightarrow> \<not> bit (d ! (bi div 8)) (bi mod 8)"
  by (simp add: bit_free_def bit_mask_def and_exp_eq_0_iff_not_bit push_bit_of_1)

lemma bit_mask_iff: "bit (bit_mask bi) m \<longleftrightarrow> m = bi mod 8"
  by (auto simp: bit_mask_def push_bit_of_1 bit_exp_iff possible_bit_word)

lemma length_mark_bit [simp]: "length (mark_bit bi d) = length d"
  by (simp add: mark_bit_def)

lemma length_clear_bit [simp]: "length (clear_bit bi d) = length d"
  by (simp add: clear_bit_def)

lemma div_mod_8: "bi div 8 = bj div 8 \<Longrightarrow> bi mod 8 = bj mod 8 \<Longrightarrow> bi = (bj :: nat)"
  by (metis mult_div_mod_eq)

lemma bit_free_mark:
  assumes "bj < 8 * length d"
  shows "bit_free (mark_bit bi d) bj \<longleftrightarrow> bj \<noteq> bi \<and> bit_free d bj"
proof -
  have j: "bj div 8 < length d" using assms by simp
  show ?thesis
    using j by (auto simp: bit_free_iff mark_bit_def nth_upd_at bit_or_iff bit_mask_iff dest: div_mod_8)
qed

lemma bit_free_clear:
  assumes "bj < 8 * length d"
  shows "bit_free (clear_bit bi d) bj \<longleftrightarrow> bj = bi \<or> bit_free d bj"
proof -
  have j: "bj div 8 < length d" using assms by simp
  show ?thesis
    using j by (auto simp: bit_free_iff clear_bit_def nth_upd_at bit_and_iff bit_not_iff bit_mask_iff dest: div_mod_8)
qed

lemma clear_mark:
  assumes "bit_free d bi" and "bi < 8 * length d"
  shows "clear_bit bi (mark_bit bi d) = d"
proof -
  have n: "bi div 8 < length d" using assms(2) by simp
  have "(d ! (bi div 8) OR bit_mask bi) AND NOT (bit_mask bi) = d ! (bi div 8)"
  proof (rule bit_word_eqI)
    fix m assume "m < LENGTH(8)"
    then show "bit ((d ! (bi div 8) OR bit_mask bi) AND NOT (bit_mask bi)) m = bit (d ! (bi div 8)) m"
      using assms(1) by (auto simp: bit_and_iff bit_or_iff bit_not_iff bit_mask_iff bit_free_iff)
  qed
  with n show ?thesis by (intro nth_equalityI) (auto simp: clear_bit_def mark_bit_def nth_upd_at)
qed

section \<open>Allocating and freeing\<close>

abbreviation bmap_block :: "fsys \<Rightarrow> uint" where "bmap_block s \<equiv> sb_bmapstart (fs_sb s)"
abbreviation bitmap :: "fsys \<Rightarrow> byte list" where "bitmap s \<equiv> V s (bmap_block s)"

text \<open>A file system whose bitmap is one block, as \<open>mkfs\<close> makes it.\<close>

definition small_fs :: "fsys \<Rightarrow> bool" where
  "small_fs s \<longleftrightarrow> 0 < unat (sb_size (fs_sb s)) \<and> unat (sb_size (fs_sb s)) \<le> BPB \<and> sb_size (fs_sb s) \<le> disk_size s \<and>
     bmap_block s < disk_size s \<and> bmap_block s \<notin> log_blocks s"

lemma BBLOCK_small: "b < BPB \<Longrightarrow> BBLOCK b sb = sb_bmapstart sb"
  by (simp add: BBLOCK_def)

lemma small_fsD:
  assumes "small_fs s"
  shows "0 < unat (sb_size (fs_sb s))" and "unat (sb_size (fs_sb s)) \<le> BPB" and "bmap_block s < disk_size s"
    and "bmap_block s \<notin> log_blocks s" and "b < unat (sb_size (fs_sb s)) \<Longrightarrow> of_nat b < disk_size s"
    and "b < unat (sb_size (fs_sb s)) \<Longrightarrow> unat (of_nat b :: uint) = b"
proof -
  show 1: "0 < unat (sb_size (fs_sb s))" "unat (sb_size (fs_sb s)) \<le> BPB" "bmap_block s < disk_size s"
    "bmap_block s \<notin> log_blocks s" using assms by (simp_all add: small_fs_def)
  show 2: "unat (of_nat b :: uint) = b" if "b < unat (sb_size (fs_sb s))"
    using that 1(2) by (intro unat_of_nat_32) (simp add: BPB_def)
  show "of_nat b < disk_size s" if "b < unat (sb_size (fs_sb s))"
    using that 2 [OF that] assms by (simp add: small_fs_def word_less_nat_alt word_le_nat_alt)
qed

lemma small_fs_same: "same_fs s t \<Longrightarrow> small_fs t = small_fs s"
  using same_fsD [of s t] by (simp add: small_fs_def)

lemma bzero_law:
  assumes s: "txn s" and b: "b < disk_size s" "b \<notin> ran (H s)" "b \<notin> log_blocks s" and h: "card (ran (H s)) \<le> 4"
    and c: "card (insert b (logged s)) \<le> LOGMAX"
  shows "\<exists>t. bzero 1 b s = Ok t \<and> txn t \<and> same_fs s t \<and> V t = (V s)(b := replicate BSIZE 0) \<and> logged t = insert b (logged s)"
proof -
  from f_update_law [OF s b h, of "\<lambda>_. replicate BSIZE 0"] c
  show ?thesis by (auto simp: bzero_def)
qed

definition first_free :: "fsys \<Rightarrow> nat \<Rightarrow> bool" where
  "first_free s b \<longleftrightarrow> find (bit_free (bitmap s)) [0..<unat (sb_size (fs_sb s))] = Some b"

lemma first_freeD:
  assumes "first_free s b"
  shows "b < unat (sb_size (fs_sb s))" and "bit_free (bitmap s) b" and "\<forall>c<b. \<not> bit_free (bitmap s) c"
proof -
  from assms obtain i where i: "i < unat (sb_size (fs_sb s))" "bit_free (bitmap s) i" "b = i" "\<forall>j<i. \<not> bit_free (bitmap s) j"
    by (fastforce simp: first_free_def find_Some_iff)
  then show "b < unat (sb_size (fs_sb s))" "bit_free (bitmap s) b" "\<forall>c<b. \<not> bit_free (bitmap s) c" by simp_all
qed

lemma first_free_ex:
  assumes "b < unat (sb_size (fs_sb s))" and "bit_free (bitmap s) b"
  shows "\<exists>c. first_free s c"
proof (cases "find (bit_free (bitmap s)) [0..<unat (sb_size (fs_sb s))]")
  case None
  with assms show ?thesis by (auto simp: find_None_iff)
next
  case (Some c)
  then show ?thesis by (auto simp: first_free_def)
qed

lemma balloc_law:
  assumes s: "txn s" and small: "small_fs s" and f: "first_free s b" and B: "bmap_block s \<notin> ran (H s)"
    and b: "of_nat b \<notin> log_blocks s" "of_nat b \<noteq> bmap_block s" "of_nat b \<notin> ran (H s)"
    and h: "card (ran (H s)) \<le> 4" and c: "card (insert (of_nat b) (insert (bmap_block s) (logged s))) \<le> LOGMAX"
  shows "\<exists>t. balloc 1 s = Ok (of_nat b, t) \<and> txn t \<and> same_fs s t \<and>
    V t = (V s)(bmap_block s := mark_bit b (bitmap s), of_nat b := replicate BSIZE 0) \<and>
    logged t = insert (of_nat b) (insert (bmap_block s) (logged s))"
proof -
  note F = first_freeD [OF f] and M = small_fsD [OF small]
  have c1: "card (insert (bmap_block s) (logged s)) \<le> LOGMAX"
    using c by (meson card_insert_le dual_order.trans finite.insertI finite_set)
  have len: "length (mark_bit b (bitmap s)) = BSIZE" using txnD(6) [OF s M(3)] by simp
  from f_update_law [OF s M(3) B M(4) h, of "mark_bit b", OF len c1] obtain i t u v where
    1: "f_bread 1 (bmap_block s) s = Ok (i, t)" "f_data i t = bitmap s" "fs_sb t = fs_sb s"
      "f_log_write i (f_set_data i (mark_bit b (bitmap s)) t) = Ok u" "f_brelse i u = Ok v"
      "txn v" "same_fs s v" "V v = (V s)(bmap_block s := mark_bit b (bitmap s))" "logged v = insert (bmap_block s) (logged s)" by blast
  note V = same_fsD [OF 1(7)]
  have pre: "of_nat b < disk_size v" "of_nat b \<notin> ran (H v)" "of_nat b \<notin> log_blocks v" "card (ran (H v)) \<le> 4"
      "card (insert (of_nat b) (logged v)) \<le> LOGMAX"
    using V M(5) [OF F(1)] b h c 1(9) by simp_all
  from bzero_law [OF 1(6) pre] obtain w where 2: "bzero 1 (of_nat b) v = Ok w" "txn w" "same_fs v w"
      "V w = (V v)(of_nat b := replicate BSIZE 0)" "logged w = insert (of_nat b) (logged v)" by blast
  have "find (bit_free (f_data i t)) [0..<min BPB (unat (sb_size (fs_sb s)) - 0)] = Some b"
    using f M(2) by (simp add: first_free_def 1(2) min_absorb2)
  then have "balloc 1 s = Ok (of_nat b, w)"
    using 1 2(1) M(1) by (simp add: balloc_def balloc_from.simps [of 0] BBLOCK_small BPB_def)
  with 1 2 same_fs_trans [OF 1(7) 2(3)] show ?thesis by simp
qed

lemma bfree_law:
  assumes s: "txn s" and small: "small_fs s" and b: "unat b < BPB" "\<not> bit_free (bitmap s) (unat b)" and B: "bmap_block s \<notin> ran (H s)"
    and h: "card (ran (H s)) \<le> 4" and c: "card (insert (bmap_block s) (logged s)) \<le> LOGMAX"
  shows "\<exists>t. bfree 1 b s = Ok t \<and> txn t \<and> same_fs s t \<and> V t = (V s)(bmap_block s := clear_bit (unat b) (bitmap s)) \<and>
    logged t = insert (bmap_block s) (logged s)"
proof -
  note M = small_fsD [OF small]
  have len: "length (clear_bit (unat b) (bitmap s)) = BSIZE" using txnD(6) [OF s M(3)] by simp
  from f_update_law [OF s M(3) B M(4) h, of "clear_bit (unat b)", OF len c] b show ?thesis
    by (auto simp: bfree_def BBLOCK_small Let_def)
qed

end
