(* ===== verification/FsFile.thy ===== *)
theory FsFile
  imports FsBlocks
begin

text \<open>
  xv6: a file is the sequence of its bytes. The blocks that the inode names, directly and through the indirect block,
  are different blocks of the data area that are marked in the bitmap; \<open>bmap\<close> keeps it so, and \<open>readi\<close> and \<open>writei\<close>
  read and write the sequence.
\<close>

section \<open>The blocks of a file\<close>

abbreviation ind :: "fsys \<Rightarrow> nat \<Rightarrow> uint" where "ind s ip \<equiv> ip_addrs (inode_of s ip) ! NDIRECT"

definition blk :: "fsys \<Rightarrow> nat \<Rightarrow> nat \<Rightarrow> uint" where
  "blk s ip bn =
     (if bn < NDIRECT then ip_addrs (inode_of s ip) ! bn
      else if ind s ip = 0 then 0 else le32 (V s (ind s ip)) (4 * (bn - NDIRECT)))"

definition inode_blocks :: "fsys \<Rightarrow> uint set" where
  "inode_blocks s = {IBLOCK i (fs_sb s) | i. i < sb_ninodes (fs_sb s)}"

definition data_block :: "fsys \<Rightarrow> uint \<Rightarrow> bool" where
  "data_block s b \<longleftrightarrow> b \<noteq> 0 \<and> b < sb_size (fs_sb s) \<and> b \<notin> log_blocks s \<and> b \<noteq> bmap_block s \<and> b \<notin> inode_blocks s"

definition unused :: "fsys \<Rightarrow> uint set" where
  "unused s = {b. b < sb_size (fs_sb s) \<and> bit_free (bitmap s) (unat b)}"

definition owned :: "fsys \<Rightarrow> uint \<Rightarrow> bool" where
  "owned s b \<longleftrightarrow> data_block s b \<and> b \<notin> unused s"

text \<open>The layout that \<open>mkfs\<close> gives the disk: what is not in use is in the data area.\<close>

definition fs_ok :: "fsys \<Rightarrow> bool" where
  "fs_ok s \<longleftrightarrow> small_fs s \<and> (\<forall>b\<in>unused s. data_block s b) \<and> bmap_block s \<notin> inode_blocks s \<and>
     (\<forall>b\<in>inode_blocks s. b < disk_size s \<and> b \<notin> log_blocks s)"

text \<open>The block pointers of an inode: those of the contents, and the one of the indirect block.\<close>

definition bptr :: "fsys \<Rightarrow> nat \<Rightarrow> nat \<Rightarrow> uint" where
  "bptr s ip k = (if k = MAXFILE then ind s ip else blk s ip k)"

definition file_ok :: "fsys \<Rightarrow> nat \<Rightarrow> bool" where
  "file_ok s ip \<longleftrightarrow> ip < length (fs_inodes s) \<and> ip_dev (inode_of s ip) = 1 \<and> ip_inum (inode_of s ip) < sb_ninodes (fs_sb s) \<and>
     length (ip_addrs (inode_of s ip)) = NDIRECT + 1 \<and> (\<forall>k\<le>MAXFILE. bptr s ip k \<noteq> 0 \<longrightarrow> owned s (bptr s ip k)) \<and>
     (\<forall>j\<le>MAXFILE. \<forall>k\<le>MAXFILE. bptr s ip j = bptr s ip k \<and> bptr s ip j \<noteq> 0 \<longrightarrow> j = k)"

lemma file_okD:
  assumes "file_ok s ip"
  shows "ip < length (fs_inodes s)" and "ip_dev (inode_of s ip) = 1" and "ip_inum (inode_of s ip) < sb_ninodes (fs_sb s)"
    and "length (ip_addrs (inode_of s ip)) = NDIRECT + 1" and "k \<le> MAXFILE \<Longrightarrow> bptr s ip k \<noteq> 0 \<Longrightarrow> owned s (bptr s ip k)"
    and "j \<le> MAXFILE \<Longrightarrow> k \<le> MAXFILE \<Longrightarrow> bptr s ip j = bptr s ip k \<Longrightarrow> bptr s ip j \<noteq> 0 \<Longrightarrow> j = k"
  using assms by (auto simp: file_ok_def)

lemma data_block_same: "same_fs s t \<Longrightarrow> data_block t = data_block s"
  using same_fsD [of s t] by (simp add: data_block_def inode_blocks_def fun_eq_iff)

lemma fs_okD:
  assumes "fs_ok s"
  shows "small_fs s" and "b \<in> unused s \<Longrightarrow> data_block s b" and "bmap_block s \<notin> inode_blocks s"
    and "b \<in> inode_blocks s \<Longrightarrow> b < disk_size s \<and> b \<notin> log_blocks s"
    and "data_block s b \<Longrightarrow> b < disk_size s \<and> b \<notin> log_blocks s \<and> unat b < BPB"
proof -
  show "small_fs s" "b \<in> unused s \<Longrightarrow> data_block s b" "bmap_block s \<notin> inode_blocks s"
    "b \<in> inode_blocks s \<Longrightarrow> b < disk_size s \<and> b \<notin> log_blocks s" using assms by (simp_all add: fs_ok_def)
  show "b < disk_size s \<and> b \<notin> log_blocks s \<and> unat b < BPB" if "data_block s b"
    using that assms by (auto simp: data_block_def fs_ok_def small_fs_def word_less_nat_alt word_le_nat_alt)
qed

lemma finite_unused: "finite (unused s)"
  by simp

text \<open>Changing what the bitmap says of one block.\<close>

lemma unused_mark:
  fixes b :: uint
  assumes s: "txn s" and ok: "fs_ok s" and eq: "fs_sb t = fs_sb s" and B: "bitmap t = mark_bit (unat b) (bitmap s)"
  shows "unused t = unused s - {b}"
proof -
  note M = small_fsD [OF fs_okD(1) [OF ok]]
  have len: "8 * length (bitmap s) = BPB" using txnD(6) [OF s M(3)] by (simp add: BSIZE_def BPB_def)
  show ?thesis
  proof (rule set_eqI)
    fix c
    show "c \<in> unused t \<longleftrightarrow> c \<in> unused s - {b}"
    proof (cases "c < sb_size (fs_sb s)")
      case True
      then have "unat c < 8 * length (bitmap s)" using M(2) len by (simp add: word_less_nat_alt)
      note m = bit_free_mark [OF this]
      have "unat c = unat b \<longleftrightarrow> c = b" by (simp add: word_unat_eq_iff)
      with True show ?thesis by (auto simp: unused_def eq B [unfolded eq] m)
    qed (simp add: unused_def eq)
  qed
qed

lemma alloc_law:
  assumes s: "txn s" and ok: "fs_ok s" and ne: "unused s \<noteq> {}" and B: "bmap_block s \<notin> ran (H s)" and h: "ran (H s) \<inter> unused s = {}"
    "card (ran (H s)) \<le> 4" and c: "card (insert (bmap_block s) (logged s)) < LOGMAX"
  shows "\<exists>b t. balloc 1 s = Ok (b, t) \<and> b \<in> unused s \<and> txn t \<and> fs_ok t \<and> same_fs s t \<and>
    V t = (V s)(bmap_block s := mark_bit (unat b) (bitmap s), b := replicate BSIZE 0) \<and>
    logged t = insert b (insert (bmap_block s) (logged s)) \<and> unused t = unused s - {b} \<and> first_free s (unat b)"
proof -
  note O = fs_okD [OF ok]
  note M = small_fsD [OF O(1)]
  from ne obtain x where x: "x < sb_size (fs_sb s)" "bit_free (bitmap s) (unat x)" by (auto simp: unused_def)
  then obtain b where f: "first_free s b" using first_free_ex [of "unat x"] by (auto simp: word_less_nat_alt)
  note F = first_freeD [OF f]
  let ?b = "of_nat b :: uint"
  have u: "unat ?b = b" by (rule M(6) [OF F(1)])
  then have free: "?b \<in> unused s" using F by (simp add: unused_def word_less_nat_alt)
  then have d: "data_block s ?b" by (rule O(2))
  then have b: "?b \<notin> log_blocks s" "?b \<noteq> bmap_block s" "?b \<notin> ran (H s)" using h(1) free by (auto simp: data_block_def)
  have "card (insert ?b (insert (bmap_block s) (logged s))) \<le> Suc (card (insert (bmap_block s) (logged s)))"
    by (simp add: card_insert_if)
  then have "card (insert ?b (insert (bmap_block s) (logged s))) \<le> LOGMAX" using c by simp
  from balloc_law [OF s O(1) f B b h(2) this]
  obtain t where t: "balloc 1 s = Ok (?b, t)" "txn t" "same_fs s t"
      "V t = (V s)(bmap_block s := mark_bit b (bitmap s), ?b := replicate BSIZE 0)"
      "logged t = insert ?b (insert (bmap_block s) (logged s))" by blast
  note S = same_fsD [OF t(3)]
  have un: "unused t = unused s - {?b}"
    by (rule unused_mark [OF s ok S(1)]) (use t(4) b(2) S(1) u in simp)
  have "fs_ok t"
    using ok un O(2) small_fs_same [OF t(3)] data_block_same [OF t(3)] S by (auto simp: fs_ok_def inode_blocks_def)
  with t free un u f show ?thesis by (intro exI [of _ ?b] exI [of _ t]) simp
qed


lemma bptr_ind [simp]: "bptr s ip MAXFILE = ind s ip"
  by (simp add: bptr_def)

lemma bptr_blk: "k < MAXFILE \<Longrightarrow> bptr s ip k = blk s ip k"
  by (simp add: bptr_def)

lemma ownedD: "owned s b \<Longrightarrow> b \<noteq> bmap_block s \<and> b \<notin> unused s \<and> b \<noteq> 0"
  by (auto simp: owned_def data_block_def)

lemma le32_zeros: "j + 4 \<le> BSIZE \<Longrightarrow> le32 (replicate BSIZE 0) j = 0"
  by (simp add: le32_def)

text \<open>A pointer that was 0 gets a block that was free.\<close>

lemma bptrs_add:
  assumes f: "file_ok s ip" and b: "b \<in> unused s" "data_block s b" and un: "unused t = unused s - {b}" and d: "data_block t = data_block s"
    and k: "k \<le> MAXFILE" "bptr s ip k = 0" and sl: "\<forall>j\<le>MAXFILE. bptr t ip j = (if j = k then b else bptr s ip j)"
    and i: "fs_inodes t = upd_at ip (\<lambda>x. x\<lparr>ip_addrs := a\<rparr>) (fs_inodes s)" "length a = NDIRECT + 1" and sb: "fs_sb t = fs_sb s"
  shows "file_ok t ip"
proof -
  note F = file_okD [OF f]
  have own: "owned t b" "owned s c \<Longrightarrow> owned t c" for c using b un by (auto simp: owned_def d)
  have new: "bptr s ip j \<noteq> b" if "j \<le> MAXFILE" "bptr s ip j \<noteq> 0" for j
    using F(5) [OF that] b(1) by (auto simp: owned_def)
  have b0: "b \<noteq> 0" using b(2) by (simp add: data_block_def)
  have "\<forall>j\<le>MAXFILE. bptr t ip j \<noteq> 0 \<longrightarrow> owned t (bptr t ip j)"
    using sl own F(5) by auto
  moreover have "\<forall>i\<le>MAXFILE. \<forall>j\<le>MAXFILE. bptr t ip i = bptr t ip j \<and> bptr t ip i \<noteq> 0 \<longrightarrow> i = j"
  proof (intro allI impI)
    fix i j assume ij: "i \<le> MAXFILE" "j \<le> MAXFILE" "bptr t ip i = bptr t ip j \<and> bptr t ip i \<noteq> 0"
    show "i = j"
      using ij(3) sl [rule_format, OF ij(1)] sl [rule_format, OF ij(2)] b0 new [OF ij(1)] new [OF ij(2)] F(6) [OF ij(1,2)]
      by (auto split: if_splits)
  qed
  ultimately show ?thesis using F(1-4) i by (simp add: file_ok_def nth_upd_at sb)
qed

lemma direct_law:
  assumes s: "txn s" and ok: "fs_ok s" and f: "file_ok s ip" and k: "k \<le> NDIRECT" and h: "H s = Map.empty"
    and n: "ip_addrs (inode_of s ip) ! k = 0 \<longrightarrow> unused s \<noteq> {}" and c: "card (insert (bmap_block s) (logged s)) < LOGMAX"
  shows "\<exists>b t. bmap_direct ip k s = Ok (b, t) \<and> b \<noteq> 0 \<and> txn t \<and> fs_ok t \<and> same_fs s (t\<lparr>fs_inodes := fs_inodes s\<rparr>) \<and>
    fs_inodes t = upd_at ip (\<lambda>x. x\<lparr>ip_addrs := (ip_addrs x)[k := b]\<rparr>) (fs_inodes s) \<and>
    (if ip_addrs (inode_of s ip) ! k \<noteq> 0 then b = ip_addrs (inode_of s ip) ! k \<and> V t = V s \<and> logged t = logged s \<and> unused t = unused s
     else b \<in> unused s \<and> unused t = unused s - {b} \<and> V t = (V s)(bmap_block s := mark_bit (unat b) (bitmap s), b := replicate BSIZE 0) \<and>
       logged t = insert b (insert (bmap_block s) (logged s)))"
proof (cases "ip_addrs (inode_of s ip) ! k = 0")
  case False
  have "upd_at ip (\<lambda>x. x\<lparr>ip_addrs := (ip_addrs x)[k := ip_addrs (inode_of s ip) ! k]\<rparr>) (fs_inodes s) = fs_inodes s"
    by (intro nth_equalityI) (simp_all add: nth_upd_at)
  with False s ok show ?thesis by (simp add: bmap_direct_def Let_def)
next
  case True
  note F = file_okD [OF f]
  have hB: "bmap_block s \<notin> ran (H s)" "ran (H s) \<inter> unused s = {}" "card (ran (H s)) \<le> 4" using h by simp_all
  from alloc_law [OF s ok _ hB c] n True obtain b t where t: "balloc 1 s = Ok (b, t)" "b \<in> unused s" "txn t" "fs_ok t" "same_fs s t"
      "V t = (V s)(bmap_block s := mark_bit (unat b) (bitmap s), b := replicate BSIZE 0)"
      "logged t = insert b (insert (bmap_block s) (logged s))" "unused t = unused s - {b}" by blast
  let ?u = "upd_inode ip (\<lambda>x. x\<lparr>ip_addrs := (ip_addrs x)[k := b]\<rparr>) t"
  have u: "fs_io ?u = fs_io t" "fs_log ?u = fs_log t" "fs_sb ?u = fs_sb t" by (simp_all add: upd_inode_def)
  have "txn ?u" using t(3) by (simp add: txn_def u)
  moreover have "fs_ok ?u" using t(4)
    by (simp add: fs_ok_def small_fs_def unused_def data_block_def inode_blocks_def u)
  moreover have "unused ?u = unused t" by (simp add: unused_def u)
  moreover have "b \<noteq> 0" using fs_okD(2) [OF ok t(2)] by (simp add: data_block_def)
  moreover have "bmap_direct ip k s = Ok (b, ?u)" using True t(1) F(2) by (simp add: bmap_direct_def)
  ultimately show ?thesis using True t same_fsD(2) [OF t(5)]
    by (intro exI [of _ b] exI [of _ ?u]) (simp add: u same_fs_def, simp add: upd_inode_def)
qed

end
