(* ===== verification/FsBmap.thy ===== *)
theory FsBmap
  imports FsFile
begin

text \<open>
  xv6: \<open>bmap\<close> finds the block of a part of the file, and gives the file a free block where it has none.
\<close>

definition avail :: "fsys \<Rightarrow> nat \<Rightarrow> nat" where
  "avail s ip = card (unused s) - (if ind s ip = 0 then 1 else 0)"

text \<open>What \<open>bmap\<close> does: the file has the block, no other pointer of it changes, and outside the bitmap, the indirect
  block and what was free the contents of the blocks are the same.\<close>

definition bmaps :: "fsys \<Rightarrow> nat \<Rightarrow> nat \<Rightarrow> uint \<Rightarrow> fsys \<Rightarrow> bool" where
  "bmaps s ip bn b t \<longleftrightarrow> b \<noteq> 0 \<and> txn t \<and> fs_ok t \<and> file_ok t ip \<and> same_fs s (t\<lparr>fs_inodes := fs_inodes s\<rparr>) \<and>
     (\<exists>a. fs_inodes t = upd_at ip (\<lambda>x. x\<lparr>ip_addrs := a\<rparr>) (fs_inodes s)) \<and>
     blk t ip bn = b \<and> (\<forall>bm<MAXFILE. bm \<noteq> bn \<longrightarrow> blk t ip bm = blk s ip bm) \<and>
     (blk s ip bn \<noteq> 0 \<longrightarrow> b = blk s ip bn) \<and> (blk s ip bn = 0 \<longrightarrow> b \<in> unused s) \<and>
     (ind s ip \<noteq> 0 \<longrightarrow> ind t ip = ind s ip) \<and> (ind s ip = 0 \<longrightarrow> ind t ip = 0 \<or> ind t ip \<in> unused s) \<and>
     logged t \<subseteq> insert b ({ind t ip} - {0} \<union> insert (bmap_block s) (logged s)) \<and> unused t \<subseteq> unused s \<and>
     avail s ip \<le> avail t ip + 1 \<and>
     (\<forall>c. c \<notin> unused s \<and> c \<noteq> bmap_block s \<and> c \<noteq> ind s ip \<longrightarrow> V t c = V s c)"

lemma blk_cong:
  assumes "ip_addrs (inode_of t ip) = ip_addrs (inode_of s ip)" and "ind s ip \<noteq> 0 \<Longrightarrow> V t (ind s ip) = V s (ind s ip)"
  shows "blk t ip = blk s ip" and "bptr t ip = bptr s ip"
proof -
  show "blk t ip = blk s ip" using assms by (auto simp: blk_def fun_eq_iff)
  then show "bptr t ip = bptr s ip" using assms(1) by (simp add: bptr_def fun_eq_iff)
qed

lemma fs_ok_cong:
  assumes "fs_sb t = fs_sb s" and "disk_size t = disk_size s" and "log_blocks t = log_blocks s" and "bitmap t = bitmap s"
  shows "unused t = unused s" and "fs_ok t = fs_ok s" and "data_block t = data_block s" and "owned t = owned s"
proof -
  show "unused t = unused s" using assms by (simp add: unused_def)
  moreover show "data_block t = data_block s" using assms by (simp add: data_block_def fun_eq_iff inode_blocks_def)
  ultimately show "fs_ok t = fs_ok s" "owned t = owned s"
    using assms by (simp_all add: fs_ok_def small_fs_def inode_blocks_def owned_def fun_eq_iff)
qed

lemma file_ok_cong:
  assumes "fs_inodes t = fs_inodes s" and "fs_sb t = fs_sb s" and "bptr t ip = bptr s ip" and "owned t = owned s"
  shows "file_ok t ip = file_ok s ip"
  using assms by (simp add: file_ok_def)

lemma owned_keeps:
  assumes "owned s c" and "V t = (V s)(bmap_block s := m, b := z)" and "b \<in> unused s"
  shows "V t c = V s c"
  using assms ownedD [OF assms(1)] by auto

lemma inode_upd: "fs_inodes t = upd_at ip f (fs_inodes s) \<Longrightarrow> ip < length (fs_inodes s) \<Longrightarrow> inode_of t ip = f (inode_of s ip)"
  by (simp add: nth_upd_at)

lemma room_after:
  assumes "card (insert B L) + 2 \<le> LOGMAX" and "L' \<subseteq> insert b (insert B L)" and "finite L"
  shows "card (insert B L') < LOGMAX" and "card L' \<le> LOGMAX" and "card (insert c L') \<le> LOGMAX"
proof -
  have "card (insert B L') \<le> card (insert b (insert B L))" using assms(2,3) by (intro card_mono) auto
  also have "\<dots> \<le> Suc (card (insert B L))" using assms(3) by (simp add: card_insert_if)
  finally show 1: "card (insert B L') < LOGMAX" using assms(1) by simp
  have fin: "finite L'" using assms(2,3) finite_subset by blast
  then have "card L' \<le> card (insert B L')" by (intro card_mono) auto
  with 1 show "card L' \<le> LOGMAX" by simp
  have "card (insert c L') \<le> Suc (card L')" using fin by (simp add: card_insert_if)
  with 1 \<open>card L' \<le> card (insert B L')\<close> show "card (insert c L') \<le> LOGMAX" by simp
qed

lemma bmap_direct_block:
  assumes s: "txn s" and ok: "fs_ok s" and f: "file_ok s ip" and bn: "bn < NDIRECT" and h: "H s = Map.empty"
    and n: "1 \<le> avail s ip" and c: "card (insert (bmap_block s) (logged s)) + 2 \<le> LOGMAX"
  shows "\<exists>b t. bmap ip bn s = Ok (b, t) \<and> bmaps s ip bn b t"
proof -
  note F = file_okD [OF f]
  have k: "bn \<le> NDIRECT" using bn by simp
  have ne: "ip_addrs (inode_of s ip) ! bn = 0 \<longrightarrow> unused s \<noteq> {}" using n by (auto simp: avail_def)
  have "card (insert (bmap_block s) (logged s)) < LOGMAX" using c by simp
  from direct_law [OF s ok f k h ne this] obtain b t where t: "bmap_direct ip bn s = Ok (b, t)" "b \<noteq> 0" "txn t" "fs_ok t"
      "same_fs s (t\<lparr>fs_inodes := fs_inodes s\<rparr>)" "fs_inodes t = upd_at ip (\<lambda>x. x\<lparr>ip_addrs := (ip_addrs x)[bn := b]\<rparr>) (fs_inodes s)"
    and cases: "if ip_addrs (inode_of s ip) ! bn \<noteq> 0 then b = ip_addrs (inode_of s ip) ! bn \<and> V t = V s \<and> logged t = logged s \<and> unused t = unused s
     else b \<in> unused s \<and> unused t = unused s - {b} \<and> V t = (V s)(bmap_block s := mark_bit (unat b) (bitmap s), b := replicate BSIZE 0) \<and>
       logged t = insert b (insert (bmap_block s) (logged s))" by blast
  have it: "inode_of t ip = (inode_of s ip)\<lparr>ip_addrs := (ip_addrs (inode_of s ip))[bn := b]\<rparr>" using inode_upd [OF t(6) F(1)] .
  have ind: "ind t ip = ind s ip" using bn by (simp add: it)
  have up: "fs_inodes t = upd_at ip (\<lambda>x. x\<lparr>ip_addrs := (ip_addrs (inode_of s ip))[bn := b]\<rparr>) (fs_inodes s)"
    unfolding t(6) by (intro nth_equalityI) (simp_all add: nth_upd_at)
  then have ex: "\<exists>a. fs_inodes t = upd_at ip (\<lambda>x. x\<lparr>ip_addrs := a\<rparr>) (fs_inodes s)" by blast
  have r: "bmap ip bn s = Ok (b, t)" using bn t(1) by (simp add: bmap_def)
  have vi: "V t (ind s ip) = V s (ind s ip)" if "ind s ip \<noteq> 0"
  proof (cases "ip_addrs (inode_of s ip) ! bn = 0")
    case True
    with cases owned_keeps [of s "ind s ip" t] F(5) [of MAXFILE] that show ?thesis by simp
  next
    case False
    with cases show ?thesis by simp
  qed
  have blk: "blk t ip bm = (if bm = bn then b else blk s ip bm)" for bm
    using bn vi ind F(4) by (auto simp: blk_def it)
  have bptr: "\<forall>j\<le>MAXFILE. bptr t ip j = (if j = bn then b else bptr s ip j)"
    using bn ind by (auto simp: bptr_def blk MAXFILE_def NDIRECT_def)
  have sb: "fs_sb t = fs_sb s" using t(5) by (simp add: same_fs_def)
  have dt: "data_block t = data_block s" using t(5) same_fsD(5) [OF t(5)] by (simp add: same_fs_def data_block_def inode_blocks_def fun_eq_iff)
  have bm: "bn \<le> MAXFILE" "bn < MAXFILE" using bn by (simp_all add: MAXFILE_def NDIRECT_def)
  show ?thesis
  proof (cases "ip_addrs (inode_of s ip) ! bn = 0")
    case True
    with cases have c: "b \<in> unused s" "unused t = unused s - {b}"
        "V t = (V s)(bmap_block s := mark_bit (unat b) (bitmap s), b := replicate BSIZE 0)" "logged t = insert b (insert (bmap_block s) (logged s))"
      by simp_all
    have z: "bptr s ip bn = 0" "blk s ip bn = 0" using True bn bm(2) by (simp_all add: bptr_blk blk_def)
    have l: "length ((ip_addrs (inode_of s ip))[bn := b]) = NDIRECT + 1" using F(4) by simp
    have "file_ok t ip" by (rule bptrs_add [OF f c(1) fs_okD(2) [OF ok c(1)] c(2) dt bm(1) z(1) bptr up l sb])
    then have "bmaps s ip bn b t" unfolding bmaps_def
      using t(2-5) c z ind blk ex by (auto simp: avail_def)
    with r show ?thesis by blast
  next
    case False
    with cases have c: "b = ip_addrs (inode_of s ip) ! bn" "V t = V s" "logged t = logged s" "unused t = unused s" by simp_all
    have "inode_of s ip = inode_of t ip" using it c(1) by simp
    then have ins: "fs_inodes t = fs_inodes s" unfolding up using it by (intro nth_equalityI) (auto simp: nth_upd_at)
    have bs: "blk s ip bn = b" using bn c(1) by (simp add: blk_def)
    have "bptr t ip = bptr s ip" using blk_cong(2) [of t ip s] ins c(2) by simp
    moreover have "owned t = owned s" using c(4) dt by (simp add: owned_def fun_eq_iff)
    ultimately have "file_ok t ip" using f file_ok_cong [OF ins sb] by simp
    then have "bmaps s ip bn b t" unfolding bmaps_def
      using t(2-5) c(2-4) ind blk ex bs by (auto simp: avail_def)
    with r show ?thesis by blast
  qed
qed


section \<open>Through the indirect block\<close>

definition entry :: "nat \<Rightarrow> nat \<Rightarrow> uint \<Rightarrow> fsys \<Rightarrow> (uint \<times> fsys) res" where
  "entry ip bn a s =
     rbind (f_bread (ip_dev (inode_of s ip)) a s) (\<lambda>(i, s).
       let k = 4 * (bn - NDIRECT); addr = le32 (f_data i s) k in
       if addr \<noteq> 0 then rbind (f_brelse i s) (\<lambda>s. Ok (addr, s))
       else
         rbind (balloc (ip_dev (inode_of s ip)) s) (\<lambda>(addr, s).
         rbind (f_log_write i (f_set_data i (put_bytes k (bytes32 addr) (f_data i s)) s)) (\<lambda>s.
         rbind (f_brelse i s) (\<lambda>s. Ok (addr, s)))))"

lemma bmap_entry:
  "NDIRECT \<le> bn \<Longrightarrow> bn < MAXFILE \<Longrightarrow> bmap ip bn s = rbind (bmap_direct ip NDIRECT s) (\<lambda>(a, s). entry ip bn a s)"
  by (auto simp: bmap_def entry_def MAXFILE_def)

text \<open>The entry is there.\<close>

lemma entry_found:
  assumes s: "txn s" and ok: "fs_ok s" and f: "file_ok s ip" and bn: "NDIRECT \<le> bn" "bn < MAXFILE" and h: "H s = Map.empty"
    and i: "ind s ip \<noteq> 0" and b: "blk s ip bn \<noteq> 0"
  shows "\<exists>t. entry ip bn (ind s ip) s = Ok (blk s ip bn, t) \<and> txn t \<and> same_fs s t \<and> V t = V s \<and> logged t = logged s"
proof -
  have own: "owned s (ind s ip)" using file_okD(5) [OF f, of MAXFILE] i by simp
  then have id: "ind s ip < disk_size s" using fs_okD(5) [OF ok] by (simp add: owned_def)
  have "ind s ip \<notin> ran (H s)" "card (ran (H s)) \<le> 4" using h by simp_all
  from f_read_law [OF s id this] obtain j t u where
    t: "f_bread 1 (ind s ip) s = Ok (j, t)" "f_data j t = V s (ind s ip)" "f_brelse j t = Ok u" "txn u" "same_fs s u" "V u = V s"
      "logged u = logged s" by blast
  have "le32 (V s (ind s ip)) (4 * (bn - NDIRECT)) = blk s ip bn" using bn(1) i by (simp add: blk_def)
  then have "entry ip bn (ind s ip) s = Ok (blk s ip bn, u)" using t b file_okD(2) [OF f] by (simp add: entry_def)
  with t show ?thesis by blast
qed

text \<open>The entry is 0.\<close>

lemma entry_new:
  assumes s: "txn s" and ok: "fs_ok s" and f: "file_ok s ip" and bn: "NDIRECT \<le> bn" "bn < MAXFILE" and h: "H s = Map.empty"
    and i: "ind s ip \<noteq> 0" and b: "blk s ip bn = 0" and ne: "unused s \<noteq> {}"
    and c: "card (insert (ind s ip) (insert (bmap_block s) (logged s))) + 1 \<le> LOGMAX"
  shows "\<exists>b t. entry ip bn (ind s ip) s = Ok (b, t) \<and> b \<in> unused s \<and> txn t \<and> fs_ok t \<and> same_fs s t \<and> unused t = unused s - {b} \<and>
    V t = (V s)(bmap_block s := mark_bit (unat b) (bitmap s), b := replicate BSIZE 0,
      ind s ip := put_bytes (4 * (bn - NDIRECT)) (bytes32 b) (V s (ind s ip))) \<and>
    logged t = insert (ind s ip) (insert b (insert (bmap_block s) (logged s)))"
proof -
  let ?I = "ind s ip" and ?B = "bmap_block s" and ?k = "4 * (bn - NDIRECT)"
  have own: "owned s ?I" using file_okD(5) [OF f, of MAXFILE] i by simp
  have Id: "?I < disk_size s" "?I \<notin> log_blocks s" "?I \<noteq> ?B" "?I \<notin> unused s"
    using fs_okD(5) [OF ok, of ?I] own by (auto simp: owned_def data_block_def)
  have "?I \<notin> ran (H s)" "card (ran (H s)) \<le> 4" using h by simp_all
  from f_bread_law [OF s Id(1) this] obtain j t where t: "f_bread 1 ?I s = Ok (j, t)" "txn t" "H t = (H s)(j \<mapsto> ?I)"
      "same_fs s (t\<lparr>fs_io := fs_io s\<rparr>)" "disk_size t = disk_size s" "fs_pid t = fs_pid s" "V t = V s" "fs_log t = fs_log s"
      "f_data j t = V s ?I" by blast
  have T: "fs_sb t = fs_sb s" "fs_inodes t = fs_inodes s" "bitmap t = bitmap s" "ran (H t) = {?I}"
    using t(3,4,7) h by (simp_all add: same_fs_def)
  have ut: "unused t = unused s" "fs_ok t" using fs_ok_cong [of t s] T t(5,8) ok by simp_all
  have "unused t \<noteq> {}" "bmap_block t \<notin> ran (H t)" "ran (H t) \<inter> unused t = {}" "card (ran (H t)) \<le> 4"
    using ne ut T Id by auto
  moreover have "card (insert (bmap_block t) (logged t)) \<le> card (insert ?I (insert ?B (logged s)))"
    unfolding T(1) t(8) by (rule card_mono) auto
  then have "card (insert (bmap_block t) (logged t)) < LOGMAX" using c by simp
  ultimately obtain b u where u: "balloc 1 t = Ok (b, u)" "b \<in> unused t" "txn u" "fs_ok u" "same_fs t u"
      "V u = (V t)(bmap_block t := mark_bit (unat b) (bitmap t), b := replicate BSIZE 0)"
      "logged u = insert b (insert (bmap_block t) (logged t))" "unused u = unused t - {b}"
    using alloc_law [OF t(2) ut(2)] by blast
  note U = same_fsD [OF u(5)]
  have Hu: "H u j = Some ?I" using U(4) t(3) by simp
  have bI: "?I \<noteq> b" using u(2) ut(1) Id(4) by auto
  have dj: "f_data j u = V s ?I"
    using bc.data_law [OF txnD(1) [OF u(3)] Hu] u(6) bI Id(3) T(1) t(7) by (simp add: f_data_def)
  have len: "length (put_bytes ?k (bytes32 b) (V s ?I)) = BSIZE"
    using bn(2) txnD(6) [OF s Id(1)] by (subst length_put_bytes) (auto simp: MAXFILE_def NDIRECT_def NINDIRECT_def BSIZE_def)
  have "?I \<notin> log_blocks u" using U(5) t(8) Id(2) by simp
  moreover have "card (insert ?I (logged u)) \<le> LOGMAX"
  proof -
    have "card (insert ?I (logged u)) = card (insert b (insert ?I (insert ?B (logged s))))"
      unfolding u(7) T(1) t(8) by (simp add: insert_commute)
    also have "\<dots> \<le> Suc (card (insert ?I (insert ?B (logged s))))" by (simp only: card_insert_if finite.insertI finite_set split: if_split) simp
    finally show ?thesis using c by simp
  qed
  ultimately obtain v where v: "f_log_write j (f_set_data j (put_bytes ?k (bytes32 b) (V s ?I)) u) = Ok v" "txn v" "same_fs u v"
      "V v = (V u)(?I := put_bytes ?k (bytes32 b) (V s ?I))" "logged v = insert ?I (logged u)"
    using f_write_law [OF u(3) Hu len] by blast
  have Hv: "H v j = Some ?I" using same_fsD(4) [OF v(3)] Hu by simp
  from f_brelse_law [OF v(2) Hv] obtain w where w: "f_brelse j v = Ok w" "txn w" "H w = (H v)(j := None)"
      "same_fs v (w\<lparr>fs_io := fs_io v\<rparr>)" "disk_size w = disk_size v" "fs_pid w = fs_pid v" "V w = V v" "fs_log w = fs_log v" by blast
  have "H w = H s" using w(3) same_fsD(4) [OF v(3)] U(4) t(3) h by auto
  then have same: "same_fs s w" using t u(5) v(3) w by (simp add: same_fs_def fs_pid_def)
  have Vw: "V w = (V s)(?B := mark_bit (unat b) (bitmap s), b := replicate BSIZE 0, ?I := put_bytes ?k (bytes32 b) (V s ?I))"
    using w(7) v(4) u(6) t(7) T(1) by simp
  have "le32 (V s ?I) ?k = 0" using bn(1) i b by (simp add: blk_def)
  then have "entry ip bn ?I s = Ok (b, w)"
    using t(1,9) u(1) v(1) w(1) dj T(2) file_okD(2) [OF f] by (simp add: entry_def)
  moreover have "fs_ok w" "unused w = unused u"
    using fs_ok_cong [of w u] u(4) w v(3,4) same_fsD(5) [OF v(3)] Id(3) U(1) T(1) by (simp_all add: same_fs_def)
  moreover have "logged w = insert ?I (insert b (insert ?B (logged s)))" using w(8) v(5) u(7) T(1) t(8) by simp
  ultimately show ?thesis using u(2,8) ut(1) w(2) same Vw by (intro exI [of _ b] exI [of _ w]) simp
qed


text \<open>\<open>bmap\<close> first makes sure that there is an indirect block.\<close>

lemma ind_ready:
  assumes s: "txn s" and ok: "fs_ok s" and f: "file_ok s ip" and h: "H s = Map.empty"
    and n: "1 \<le> avail s ip" and c: "card (insert (bmap_block s) (logged s)) + 2 \<le> LOGMAX"
  shows "\<exists>t. bmap_direct ip NDIRECT s = Ok (ind t ip, t) \<and> ind t ip \<noteq> 0 \<and> txn t \<and> fs_ok t \<and> file_ok t ip \<and>
    same_fs s (t\<lparr>fs_inodes := fs_inodes s\<rparr>) \<and> (\<exists>a. fs_inodes t = upd_at ip (\<lambda>x. x\<lparr>ip_addrs := a\<rparr>) (fs_inodes s)) \<and>
    (\<forall>bm<MAXFILE. blk t ip bm = blk s ip bm) \<and> (ind s ip \<noteq> 0 \<longrightarrow> ind t ip = ind s ip) \<and> (ind s ip = 0 \<longrightarrow> ind t ip \<in> unused s) \<and>
    logged t \<subseteq> insert (ind t ip) (insert (bmap_block s) (logged s)) \<and> unused t \<subseteq> unused s \<and> avail t ip = avail s ip \<and>
    (\<forall>c. c \<notin> unused s \<and> c \<noteq> bmap_block s \<longrightarrow> V t c = V s c)"
proof -
  note F = file_okD [OF f]
  have ne: "ind s ip = 0 \<longrightarrow> unused s \<noteq> {}" using n by (auto simp: avail_def)
  have "card (insert (bmap_block s) (logged s)) < LOGMAX" using c by simp
  from direct_law [OF s ok f order.refl h ne this] obtain b t where t: "bmap_direct ip NDIRECT s = Ok (b, t)" "b \<noteq> 0" "txn t" "fs_ok t"
      "same_fs s (t\<lparr>fs_inodes := fs_inodes s\<rparr>)" "fs_inodes t = upd_at ip (\<lambda>x. x\<lparr>ip_addrs := (ip_addrs x)[NDIRECT := b]\<rparr>) (fs_inodes s)"
    and cases: "if ind s ip \<noteq> 0 then b = ind s ip \<and> V t = V s \<and> logged t = logged s \<and> unused t = unused s
     else b \<in> unused s \<and> unused t = unused s - {b} \<and> V t = (V s)(bmap_block s := mark_bit (unat b) (bitmap s), b := replicate BSIZE 0) \<and>
       logged t = insert b (insert (bmap_block s) (logged s))" by blast
  have it: "inode_of t ip = (inode_of s ip)\<lparr>ip_addrs := (ip_addrs (inode_of s ip))[NDIRECT := b]\<rparr>" using inode_upd [OF t(6) F(1)] .
  have ind: "ind t ip = b" using F(4) by (simp add: it)
  have up: "fs_inodes t = upd_at ip (\<lambda>x. x\<lparr>ip_addrs := (ip_addrs (inode_of s ip))[NDIRECT := b]\<rparr>) (fs_inodes s)"
    unfolding t(6) by (intro nth_equalityI) (simp_all add: nth_upd_at)
  then have ex: "\<exists>a. fs_inodes t = upd_at ip (\<lambda>x. x\<lparr>ip_addrs := a\<rparr>) (fs_inodes s)" by blast
  have sb: "fs_sb t = fs_sb s" using t(5) by (simp add: same_fs_def)
  have dt: "data_block t = data_block s" using t(5) same_fsD(5) [OF t(5)] by (simp add: same_fs_def data_block_def inode_blocks_def fun_eq_iff)
  show ?thesis
  proof (cases "ind s ip = 0")
    case True
    with cases have c: "b \<in> unused s" "unused t = unused s - {b}"
        "V t = (V s)(bmap_block s := mark_bit (unat b) (bitmap s), b := replicate BSIZE 0)" "logged t = insert b (insert (bmap_block s) (logged s))"
      by simp_all
    have blk: "blk t ip bm = blk s ip bm" if "bm < MAXFILE" for bm
    proof (cases "bm < NDIRECT")
      case True
      then show ?thesis by (simp add: blk_def it)
    next
      case False
      have z: "V t b = replicate BSIZE 0" using c(3) by simp
      have "4 * (bm - NDIRECT) + 4 \<le> BSIZE" using that by (simp add: MAXFILE_def NDIRECT_def NINDIRECT_def BSIZE_def)
      from le32_zeros [OF this] False True ind t(2) show ?thesis unfolding blk_def ind z by simp
    qed
    have bptr: "\<forall>j\<le>MAXFILE. bptr t ip j = (if j = MAXFILE then b else bptr s ip j)"
      using blk ind by (simp add: bptr_def)
    have l: "length ((ip_addrs (inode_of s ip))[NDIRECT := b]) = NDIRECT + 1" using F(4) by simp
    have z: "bptr s ip MAXFILE = 0" using True by simp
    have "file_ok t ip" by (rule bptrs_add [OF f c(1) fs_okD(2) [OF ok c(1)] c(2) dt order.refl z bptr up l sb])
    moreover have "avail t ip = avail s ip" using True t(2) ind c(1,2) by (simp add: avail_def)
    ultimately show ?thesis using t(1-5) c ind blk ex True by (intro exI [of _ t]) auto
  next
    case False
    with cases have c: "b = ind s ip" "V t = V s" "logged t = logged s" "unused t = unused s" by simp_all
    have eq: "inode_of s ip = inode_of t ip" using it c(1) by simp
    then have ins: "fs_inodes t = fs_inodes s" unfolding up using it by (intro nth_equalityI) (auto simp: nth_upd_at)
    have sl: "bptr t ip = bptr s ip" "blk t ip = blk s ip" using blk_cong [of t ip s] ins c(2) by simp_all
    have "owned t = owned s" using c(4) dt by (simp add: owned_def fun_eq_iff)
    then have "file_ok t ip" using f file_ok_cong [OF ins sb sl(1)] by simp
    moreover have "avail t ip = avail s ip" using c ind by (simp add: avail_def)
    ultimately show ?thesis using t(1-5) c sl(2) ind ex False by (intro exI [of _ t]) auto
  qed
qed

lemma bmap_indirect_block:
  assumes s: "txn s" and ok: "fs_ok s" and f: "file_ok s ip" and bn: "NDIRECT \<le> bn" "bn < MAXFILE" and h: "H s = Map.empty"
    and n: "1 \<le> avail s ip" and c: "card (insert (bmap_block s) (logged s)) + 2 \<le> LOGMAX"
  shows "\<exists>b t. bmap ip bn s = Ok (b, t) \<and> bmaps s ip bn b t"
proof -
  from ind_ready [OF s ok f h n c] obtain u where u: "bmap_direct ip NDIRECT s = Ok (ind u ip, u)" "ind u ip \<noteq> 0" "txn u" "fs_ok u" "file_ok u ip"
      "same_fs s (u\<lparr>fs_inodes := fs_inodes s\<rparr>)" "\<exists>a. fs_inodes u = upd_at ip (\<lambda>x. x\<lparr>ip_addrs := a\<rparr>) (fs_inodes s)"
      "\<forall>bm<MAXFILE. blk u ip bm = blk s ip bm" "ind s ip \<noteq> 0 \<longrightarrow> ind u ip = ind s ip" "ind s ip = 0 \<longrightarrow> ind u ip \<in> unused s"
      "logged u \<subseteq> insert (ind u ip) (insert (bmap_block s) (logged s))" "unused u \<subseteq> unused s" "avail u ip = avail s ip"
      "\<forall>c. c \<notin> unused s \<and> c \<noteq> bmap_block s \<longrightarrow> V u c = V s c" by blast
  let ?I = "ind u ip"
  have sb: "fs_sb u = fs_sb s" and hu: "H u = Map.empty" using u(6) h by (simp_all add: same_fs_def)
  have r: "bmap ip bn s = entry ip bn ?I u" using bn u(1) by (simp add: bmap_entry)
  have bu: "blk u ip bn = blk s ip bn" using u(8) bn(2) by simp
  show ?thesis
  proof (cases "blk u ip bn = 0")
    case False
    from entry_found [OF u(3,4,5) bn hu u(2) False] obtain t where
      t: "entry ip bn ?I u = Ok (blk u ip bn, t)" "txn t" "same_fs u t" "V t = V u" "logged t = logged u" by blast
    note T = same_fsD [OF t(3)]
    have o: "unused t = unused u" "fs_ok t" "owned t = owned u" using fs_ok_cong [of t u] T t(4) u(4) by simp_all
    have sl: "blk t ip = blk u ip" "bptr t ip = bptr u ip" using blk_cong [of t ip u] T t(4) by simp_all
    have "file_ok t ip" using file_ok_cong [OF T(2,1) sl(2) o(3)] u(5) by simp
    moreover have "same_fs s (t\<lparr>fs_inodes := fs_inodes s\<rparr>)" using u(6) t(3) by (simp add: same_fs_def)
    moreover have "avail s ip \<le> avail t ip + 1" using u(13) o(1) T(2) by (simp add: avail_def)
    moreover have "logged t \<subseteq> insert (blk u ip bn) ({ind t ip} - {0} \<union> insert (bmap_block s) (logged s))"
      using u(2,11) t(5) T(2) by auto
    ultimately have "bmaps s ip bn (blk u ip bn) t" unfolding bmaps_def
      using False t(2,4) o u(7,8,9,10,12,14) T(2) sl(1) bu by auto
    with r t(1) show ?thesis by auto
  next
    case True
    have ne: "unused u \<noteq> {}" using n u(13) by (auto simp: avail_def)
    have "insert ?I (insert (bmap_block u) (logged u)) \<subseteq> insert ?I (insert (bmap_block s) (logged s))" using u(11) sb by auto
    then have "card (insert ?I (insert (bmap_block u) (logged u))) \<le> card (insert ?I (insert (bmap_block s) (logged s)))"
      by (intro card_mono) auto
    also have "\<dots> \<le> Suc (card (insert (bmap_block s) (logged s)))" by (simp only: card_insert_if finite.insertI finite_set split: if_split) simp
    finally have c': "card (insert ?I (insert (bmap_block u) (logged u))) + 1 \<le> LOGMAX" using c by simp
    from entry_new [OF u(3,4,5) bn hu u(2) True ne c'] obtain b t where t: "entry ip bn ?I u = Ok (b, t)" "b \<in> unused u" "txn t" "fs_ok t"
        "same_fs u t" "unused t = unused u - {b}"
        "V t = (V u)(bmap_block u := mark_bit (unat b) (bitmap u), b := replicate BSIZE 0,
           ?I := put_bytes (4 * (bn - NDIRECT)) (bytes32 b) (V u ?I))"
        "logged t = insert ?I (insert b (insert (bmap_block u) (logged u)))" by blast
    note T = same_fsD [OF t(5)]
    have own: "owned u ?I" using file_okD(5) [OF u(5), of MAXFILE] u(2) by simp
    have len: "length (V u ?I) = BSIZE" using txnD(6) [OF u(3)] fs_okD(5) [OF u(4)] own by (simp add: owned_def)
    have VI: "V t ?I = put_bytes (4 * (bn - NDIRECT)) (bytes32 b) (V u ?I)" using t(7) by simp
    have blk: "blk t ip bm = (if bm = bn then b else blk u ip bm)" if bm: "bm < MAXFILE" for bm
    proof (cases "bm < NDIRECT")
      case True
      then show ?thesis using bn(1) T(2) by (simp add: blk_def)
    next
      case False
      then have "4 * (bm - NDIRECT) + 4 \<le> length (V u ?I)" "4 * (bn - NDIRECT) + length (bytes32 b) \<le> length (V u ?I)"
        using bm bn len by (simp_all add: MAXFILE_def NDIRECT_def NINDIRECT_def BSIZE_def)
      moreover have "4 * (bm - NDIRECT) + 4 \<le> 4 * (bn - NDIRECT) \<or> 4 * (bn - NDIRECT) + length (bytes32 b) \<le> 4 * (bm - NDIRECT)" if "bm \<noteq> bn"
        using that False bn(1) by (simp, linarith)
      ultimately show ?thesis using False u(2) T(2) VI by (auto simp: blk_def le32_put_same le32_put_other)
    qed
    have bptr: "\<forall>j\<le>MAXFILE. bptr t ip j = (if j = bn then b else bptr u ip j)"
      using blk T(2) bn(2) by (auto simp: bptr_def)
    have z: "bptr u ip bn = 0" using True bn(2) by (simp add: bptr_blk)
    have up: "fs_inodes t = upd_at ip (\<lambda>x. x\<lparr>ip_addrs := ip_addrs (inode_of u ip)\<rparr>) (fs_inodes u)"
      unfolding T(2) by (intro nth_equalityI) (simp_all add: nth_upd_at)
    have bm: "bn \<le> MAXFILE" using bn(2) by simp
    have "file_ok t ip"
      by (rule bptrs_add [OF u(5) t(2) fs_okD(2) [OF u(4) t(2)] t(6) data_block_same [OF t(5)] bm z bptr up file_okD(4) [OF u(5)] T(1)])
    moreover have "same_fs s (t\<lparr>fs_inodes := fs_inodes s\<rparr>)" using u(6) t(5) by (simp add: same_fs_def)
    moreover have "avail s ip \<le> avail t ip + 1" using u(2,13) t(2,6) T(2) by (simp add: avail_def)
    moreover have "logged t \<subseteq> insert b ({ind t ip} - {0} \<union> insert (bmap_block s) (logged s))"
      using u(2,11) t(8) T(2) sb by auto
    moreover have "b \<noteq> 0" using fs_okD(2) [OF u(4) t(2)] by (simp add: data_block_def)
    moreover have "V t c = V s c" if "c \<notin> unused s" "c \<noteq> bmap_block s" "c \<noteq> ind s ip" for c
    proof -
      have "c \<noteq> ?I" using that u(9,10) by auto
      moreover have "c \<noteq> b" using that(1) t(2) u(12) by auto
      ultimately show ?thesis using that u(14) t(7) sb by simp
    qed
    moreover have "blk s ip bn = 0" "b \<in> unused s" "unused t \<subseteq> unused s" using True bu t(2,6) u(12) by auto
    moreover have "blk t ip bn = b" "\<forall>bm<MAXFILE. bm \<noteq> bn \<longrightarrow> blk t ip bm = blk s ip bm" using blk bn(2) u(8) by simp_all
    ultimately have "bmaps s ip bn b t" unfolding bmaps_def using t(3,4) u(7,9,10) T(2) by simp
    with r t(1) show ?thesis by auto
  qed
qed

lemma bmap_law:
  assumes "txn s" and "fs_ok s" and "file_ok s ip" and "bn < MAXFILE" and "H s = Map.empty"
    and "1 \<le> avail s ip" and "card (insert (bmap_block s) (logged s)) + 2 \<le> LOGMAX"
  shows "\<exists>b t. bmap ip bn s = Ok (b, t) \<and> bmaps s ip bn b t"
  using bmap_direct_block [of s ip bn] bmap_indirect_block [of s ip bn] assms by (cases "bn < NDIRECT") simp_all

end
