(* ===== verification/FsWrite.thy ===== *)
theory FsWrite
  imports FsBmap
begin

text \<open>
  xv6: the loops of \<open>readi\<close> and \<open>writei\<close>, block by block, on the bytes of a file.
\<close>

definition fbyte :: "fsys \<Rightarrow> nat \<Rightarrow> nat \<Rightarrow> byte" where
  "fbyte s ip k = V s (blk s ip (k div BSIZE)) ! (k mod BSIZE)"

text \<open>How many blocks the bytes from \<open>off\<close> on touch, and what the log has to hold.\<close>

definition nblocks :: "nat \<Rightarrow> nat \<Rightarrow> nat" where
  "nblocks off n = (if n = 0 then 0 else Suc ((off + n - 1) div BSIZE) - off div BSIZE)"

definition cost :: "fsys \<Rightarrow> nat \<Rightarrow> nat" where
  "cost s ip = card ({ind s ip} - {0} \<union> insert (bmap_block s) (logged s)) + (if ind s ip = 0 then 1 else 0)"

lemma nblocks_step:
  assumes "0 < n" and "m = min n (BSIZE - off mod BSIZE)"
  shows "nblocks off n = Suc (nblocks (off + m) (n - m))"
proof (cases "n \<le> BSIZE - off mod BSIZE")
  case True
  then have m: "m = n" using assms(2) by simp
  have "off mod BSIZE + (n - 1) < BSIZE" using True assms(1) by (simp add: BSIZE_def)
  moreover have "off + n - 1 = off div BSIZE * BSIZE + (off mod BSIZE + (n - 1))" using assms(1) by simp
  ultimately have "(off + n - 1) div BSIZE = off div BSIZE" by (metis div_mult_self3 div_less add.commute add_0 BSIZE_def zero_neq_numeral)
  then show ?thesis using m assms(1) by (simp add: nblocks_def)
next
  case False
  then have m: "m = BSIZE - off mod BSIZE" "m < n" using assms(2) by simp_all
  have "off mod BSIZE < BSIZE" by (simp add: BSIZE_def)
  then have "off + m = BSIZE + BSIZE * (off div BSIZE)" using m(1) mult_div_mod_eq [of BSIZE off] by linarith
  then have d: "(off + m) div BSIZE = Suc (off div BSIZE)" by (simp add: BSIZE_def)
  have e: "off + m + (n - m) - 1 = off + n - 1" using m(2) by simp
  have "Suc (off div BSIZE) \<le> (off + n - 1) div BSIZE" unfolding d [symmetric] using m(2) by (intro div_le_mono) simp
  then show ?thesis using m assms(1) d e by (simp add: nblocks_def)
qed

lemma bmap_found:
  assumes s: "txn s" and ok: "fs_ok s" and f: "file_ok s ip" and bn: "bn < MAXFILE" and h: "H s = Map.empty" and b: "blk s ip bn \<noteq> 0"
  shows "\<exists>t. bmap ip bn s = Ok (blk s ip bn, t) \<and> txn t \<and> same_fs s t \<and> V t = V s \<and> logged t = logged s"
proof (cases "bn < NDIRECT")
  case True
  then have "bmap ip bn s = Ok (blk s ip bn, s)" using b by (simp add: bmap_def bmap_direct_def blk_def)
  with s show ?thesis by (intro exI [of _ s]) simp
next
  case False
  then have i: "ind s ip \<noteq> 0" using b by (simp add: blk_def split: if_splits)
  have "bmap ip bn s = entry ip bn (ind s ip) s" using i False bn by (simp add: bmap_entry bmap_direct_def)
  with entry_found [OF s ok f _ bn h i b] False show ?thesis by simp
qed

section \<open>Writing\<close>

definition writes :: "fsys \<Rightarrow> nat \<Rightarrow> nat \<Rightarrow> byte list \<Rightarrow> fsys \<Rightarrow> bool" where
  "writes s ip off xs t \<longleftrightarrow> txn t \<and> fs_ok t \<and> file_ok t ip \<and> same_fs s (t\<lparr>fs_inodes := fs_inodes s\<rparr>) \<and>
     (\<exists>a. fs_inodes t = upd_at ip (\<lambda>x. x\<lparr>ip_addrs := a\<rparr>) (fs_inodes s)) \<and>
     (\<forall>k. off \<le> k \<and> k < off + length xs \<longrightarrow> blk t ip (k div BSIZE) \<noteq> 0 \<and> fbyte t ip k = xs ! (k - off)) \<and>
     (\<forall>k<MAXFILE * BSIZE. (k < off \<or> off + length xs \<le> k) \<and> blk s ip (k div BSIZE) \<noteq> 0 \<longrightarrow> fbyte t ip k = fbyte s ip k) \<and>
     (\<forall>k\<le>MAXFILE. bptr s ip k \<noteq> 0 \<longrightarrow> bptr t ip k = bptr s ip k) \<and>
     (\<forall>k\<le>MAXFILE. bptr s ip k = 0 \<longrightarrow> bptr t ip k = 0 \<or> bptr t ip k \<in> unused s) \<and> unused t \<subseteq> unused s \<and>
     (\<forall>c. c \<notin> unused s \<and> c \<noteq> bmap_block s \<and> (\<forall>k\<le>MAXFILE. c \<noteq> bptr s ip k) \<longrightarrow> V t c = V s c)"

lemma writesD:
  assumes "writes s ip off xs t"
  shows "txn t" and "fs_ok t" and "file_ok t ip" and "same_fs s (t\<lparr>fs_inodes := fs_inodes s\<rparr>)"
    and "\<exists>a. fs_inodes t = upd_at ip (\<lambda>x. x\<lparr>ip_addrs := a\<rparr>) (fs_inodes s)"
    and "off \<le> k \<Longrightarrow> k < off + length xs \<Longrightarrow> blk t ip (k div BSIZE) \<noteq> 0 \<and> fbyte t ip k = xs ! (k - off)"
    and "k < MAXFILE * BSIZE \<Longrightarrow> k < off \<or> off + length xs \<le> k \<Longrightarrow> blk s ip (k div BSIZE) \<noteq> 0 \<Longrightarrow> fbyte t ip k = fbyte s ip k"
    and "j \<le> MAXFILE \<Longrightarrow> bptr s ip j \<noteq> 0 \<Longrightarrow> bptr t ip j = bptr s ip j"
    and "j \<le> MAXFILE \<Longrightarrow> bptr s ip j = 0 \<Longrightarrow> bptr t ip j = 0 \<or> bptr t ip j \<in> unused s" and "unused t \<subseteq> unused s"
    and "c \<notin> unused s \<Longrightarrow> c \<noteq> bmap_block s \<Longrightarrow> \<forall>k\<le>MAXFILE. c \<noteq> bptr s ip k \<Longrightarrow> V t c = V s c"
  using assms by (simp_all add: writes_def)

lemma div_MAXFILE: "k < MAXFILE * BSIZE \<Longrightarrow> k div BSIZE < MAXFILE"
  by (simp add: less_mult_imp_div_less)

lemma writes_trans:
  assumes w: "writes s ip off xs t" and v: "writes t ip (off + length xs) ys u" and n: "off + length xs + length ys \<le> MAXFILE * BSIZE"
  shows "writes s ip off (xs @ ys) u"
proof -
  note W = writesD [OF w] and U = writesD [OF v]
  from W(5) U(5) obtain a b where i: "fs_inodes t = upd_at ip (\<lambda>x. x\<lparr>ip_addrs := a\<rparr>) (fs_inodes s)"
      "fs_inodes u = upd_at ip (\<lambda>x. x\<lparr>ip_addrs := b\<rparr>) (fs_inodes t)" by blast
  have "fs_inodes u = upd_at ip (\<lambda>x. x\<lparr>ip_addrs := b\<rparr>) (fs_inodes s)"
    unfolding i by (intro nth_equalityI) (simp_all add: nth_upd_at)
  then have ex: "\<exists>a. fs_inodes u = upd_at ip (\<lambda>x. x\<lparr>ip_addrs := a\<rparr>) (fs_inodes s)" by blast
  have sb: "bmap_block t = bmap_block s" using W(4) by (simp add: same_fs_def)
  have keep: "blk t ip j = blk s ip j" if "j < MAXFILE" "blk s ip j \<noteq> 0" for j
    using W(8) [of j] that by (simp add: bptr_blk)
  have keep': "blk u ip j = blk t ip j" if "j < MAXFILE" "blk t ip j \<noteq> 0" for j
    using U(8) [of j] that by (simp add: bptr_blk)
  have bytes: "blk u ip (k div BSIZE) \<noteq> 0 \<and> fbyte u ip k = (xs @ ys) ! (k - off)" if k: "off \<le> k" "k < off + length (xs @ ys)" for k
  proof (cases "k < off + length xs")
    case True
    then have kk: "k < MAXFILE * BSIZE" using n by simp
    with W(6) [OF k(1) True] U(7) [of k] True keep' [OF div_MAXFILE [OF kk]] show ?thesis using k(1) by (auto simp: nth_append)
  next
    case False
    with U(6) [of k] k show ?thesis by (auto simp: nth_append)
  qed
  have other: "fbyte u ip k = fbyte s ip k" if k: "k < MAXFILE * BSIZE" "k < off \<or> off + length (xs @ ys) \<le> k" "blk s ip (k div BSIZE) \<noteq> 0" for k
  proof -
    have "blk t ip (k div BSIZE) \<noteq> 0" using keep [OF div_MAXFILE [OF k(1)] k(3)] k(3) by simp
    with W(7) [of k] U(7) [of k] k show ?thesis by auto
  qed
  have bptrs: "bptr u ip j = bptr s ip j" if "j \<le> MAXFILE" "bptr s ip j \<noteq> 0" for j
    using W(8) [OF that] U(8) [of j] that by simp
  have new: "bptr u ip j = 0 \<or> bptr u ip j \<in> unused s" if "j \<le> MAXFILE" "bptr s ip j = 0" for j
    using W(9) [OF that] U(8,9) [OF that(1)] W(10) by (cases "bptr t ip j = 0") auto
  have frame: "V u c = V s c" if c: "c \<notin> unused s" "c \<noteq> bmap_block s" "\<forall>k\<le>MAXFILE. c \<noteq> bptr s ip k" for c
  proof -
    have "c \<noteq> bptr t ip k" if k: "k \<le> MAXFILE" for k
      using W(8,9) [OF k] c k by (cases "bptr s ip k = 0") auto
    then have "V u c = V t c" using U(11) [of c] c(1,2) W(10) sb by auto
    with W(11) [OF c] show ?thesis by simp
  qed
  show ?thesis unfolding writes_def
    using U(1-3) W(4) U(4) ex bytes other bptrs new frame W(10) U(10) by (auto simp: same_fs_def)
qed


lemma cost_bound: "cost s ip + 2 \<le> LOGMAX \<Longrightarrow> card (insert (bmap_block s) (logged s)) + 2 \<le> LOGMAX"
proof -
  assume c: "cost s ip + 2 \<le> LOGMAX"
  have "card (insert (bmap_block s) (logged s)) \<le> card ({ind s ip} - {0} \<union> insert (bmap_block s) (logged s))"
    by (intro card_mono) auto
  with c show ?thesis by (simp add: cost_def)
qed

lemma cost_step:
  assumes L: "logged v \<subseteq> insert b ({ind v ip} - {0} \<union> insert (bmap_block s) (logged s))" and B: "bmap_block v = bmap_block s"
    and i: "ind s ip \<noteq> 0 \<longrightarrow> ind v ip = ind s ip"
  shows "cost v ip \<le> cost s ip + 1"
proof -
  let ?S = "{ind s ip} - {0} \<union> insert (bmap_block s) (logged s)" and ?T = "{ind v ip} - {0} \<union> insert (bmap_block v) (logged v)"
  have T: "?T \<subseteq> insert b (insert (ind v ip) ?S)" using L B by auto
  have c1: "card (insert b X) \<le> Suc (card X)" if "finite X" for b :: uint and X using that by (simp add: card_insert_if)
  show ?thesis
  proof (cases "ind s ip = 0 \<and> ind v ip \<noteq> 0")
    case True
    have "card ?T \<le> card (insert b (insert (ind v ip) ?S))" using T by (intro card_mono) auto
    also have "\<dots> \<le> Suc (Suc (card ?S))" using c1 [of "insert (ind v ip) ?S" b] c1 [of ?S "ind v ip"] by simp
    finally show ?thesis using True by (simp add: cost_def)
  next
    case False
    have "?T \<subseteq> insert b ?S" using L B i False by auto
    then have "card ?T \<le> card (insert b ?S)" by (intro card_mono) auto
    also have "\<dots> \<le> Suc (card ?S)" by (rule c1) simp
    finally show ?thesis using False i by (auto simp: cost_def)
  qed
qed

lemma chunk_law:
  assumes s: "txn s" and ok: "fs_ok s" and f: "file_ok s ip" and h: "H s = Map.empty" and n: "1 \<le> avail s ip" and c: "cost s ip + 2 \<le> LOGMAX"
    and x: "off mod BSIZE + length xs \<le> BSIZE" "off < MAXFILE * BSIZE"
  shows "\<exists>b u i t w v. bmap ip (off div BSIZE) s = Ok (b, u) \<and> f_bread (ip_dev (inode_of u ip)) b u = Ok (i, t) \<and>
    f_log_write i (f_set_data i (put_bytes (off mod BSIZE) xs (f_data i t)) t) = Ok w \<and> f_brelse i w = Ok v \<and>
    writes s ip off xs v \<and> avail s ip \<le> avail v ip + 1 \<and> cost v ip \<le> cost s ip + 1"
proof -
  let ?bn = "off div BSIZE"
  have bn: "?bn < MAXFILE" using x(2) by (rule div_MAXFILE)
  from bmap_law [OF s ok f bn h n cost_bound [OF c]] obtain b u where m: "bmap ip ?bn s = Ok (b, u)" "bmaps s ip ?bn b u" by blast
  from m(2) have u: "b \<noteq> 0" "txn u" "fs_ok u" "file_ok u ip" "same_fs s (u\<lparr>fs_inodes := fs_inodes s\<rparr>)"
      "\<exists>a. fs_inodes u = upd_at ip (\<lambda>x. x\<lparr>ip_addrs := a\<rparr>) (fs_inodes s)" "blk u ip ?bn = b"
      "\<forall>bm<MAXFILE. bm \<noteq> ?bn \<longrightarrow> blk u ip bm = blk s ip bm" "blk s ip ?bn \<noteq> 0 \<longrightarrow> b = blk s ip ?bn" "blk s ip ?bn = 0 \<longrightarrow> b \<in> unused s"
      "ind s ip \<noteq> 0 \<longrightarrow> ind u ip = ind s ip" "ind s ip = 0 \<longrightarrow> ind u ip = 0 \<or> ind u ip \<in> unused s"
      "logged u \<subseteq> insert b ({ind u ip} - {0} \<union> insert (bmap_block s) (logged s))" "unused u \<subseteq> unused s" "avail s ip \<le> avail u ip + 1"
      "\<forall>c. c \<notin> unused s \<and> c \<noteq> bmap_block s \<and> c \<noteq> ind s ip \<longrightarrow> V u c = V s c"
    unfolding bmaps_def by blast+
  have sb: "bmap_block u = bmap_block s" "H u = Map.empty" using u(5) h by (simp_all add: same_fs_def)
  have own: "owned u b" using file_okD(5) [OF u(4), of ?bn] bn u(1,7) by (simp add: bptr_blk)
  then have bd: "b < disk_size u" "b \<notin> log_blocks u" "b \<noteq> bmap_block u" using fs_okD(5) [OF u(3), of b] by (auto simp: owned_def data_block_def)
  have bh: "b \<notin> ran (H u)" "card (ran (H u)) \<le> 4" using sb by simp_all
  have bi: "ind u ip \<noteq> b" if "ind u ip \<noteq> 0"
    using file_okD(6) [OF u(4), of MAXFILE ?bn] bn that u(7) by (auto simp: bptr_blk)
  have dev: "ip_dev (inode_of u ip) = 1" by (rule file_okD(2) [OF u(4)])
  have lenb: "length (V u b) = BSIZE" by (rule txnD(6) [OF u(2) bd(1)])
  then have len: "length (put_bytes (off mod BSIZE) xs (V u b)) = BSIZE" using x(1) by (subst length_put_bytes) simp_all
  have cu: "cost u ip \<le> cost s ip + 1" by (rule cost_step [OF u(13) sb(1) u(11)])
  have "card (insert b (logged u)) \<le> Suc (card (logged u))" by (simp add: card_insert_if)
  also have "card (logged u) \<le> card ({ind u ip} - {0} \<union> insert (bmap_block u) (logged u))" by (intro card_mono) auto
  also have "\<dots> \<le> cost u ip" by (simp add: cost_def)
  finally have cl: "card (insert b (logged u)) \<le> LOGMAX" using cu c by simp
  from f_update_law [OF u(2) bd(1) bh(1) bd(2) bh(2), of "put_bytes (off mod BSIZE) xs", OF len cl] obtain i t w v where
    v: "f_bread 1 b u = Ok (i, t)" "f_data i t = V u b" "f_log_write i (f_set_data i (put_bytes (off mod BSIZE) xs (V u b)) t) = Ok w"
      "f_brelse i w = Ok v" "txn v" "same_fs u v" "V v = (V u)(b := put_bytes (off mod BSIZE) xs (V u b))" "logged v = insert b (logged u)"
    by blast
  note S = same_fsD [OF v(6)]
  have o: "unused v = unused u" "fs_ok v" "owned v = owned u" using fs_ok_cong [of v u] S v(7) bd(3) u(3) by simp_all
  have sl: "blk v ip = blk u ip" "bptr v ip = bptr u ip" using blk_cong [of v ip u] S v(7) bi by simp_all
  have fv: "file_ok v ip" using file_ok_cong [OF S(2,1) sl(2) o(3)] u(4) by simp
  have keep: "\<forall>k\<le>MAXFILE. bptr s ip k \<noteq> 0 \<longrightarrow> bptr v ip k = bptr s ip k"
  proof (intro allI impI)
    fix k assume k: "k \<le> MAXFILE" "bptr s ip k \<noteq> 0"
    consider "k = MAXFILE" | "k = ?bn" "k < MAXFILE" | "k < MAXFILE" "k \<noteq> ?bn" using k(1) by linarith
    then show "bptr v ip k = bptr s ip k"
      using u(7-9,11) k(2) unfolding sl(2) by cases (simp_all add: bptr_def)
  qed
  have new: "\<forall>k\<le>MAXFILE. bptr s ip k = 0 \<longrightarrow> bptr v ip k = 0 \<or> bptr v ip k \<in> unused s"
  proof (intro allI impI)
    fix k assume k: "k \<le> MAXFILE" "bptr s ip k = 0"
    show "bptr v ip k = 0 \<or> bptr v ip k \<in> unused s"
      using u(7,8,10,12) k unfolding sl(2) by (cases "k = ?bn") (auto simp: bptr_def split: if_splits)
  qed
  have frame: "\<forall>c. c \<notin> unused s \<and> c \<noteq> bmap_block s \<and> (\<forall>k\<le>MAXFILE. c \<noteq> bptr s ip k) \<longrightarrow> V v c = V s c"
  proof (intro allI impI; elim conjE)
    fix c assume c: "c \<notin> unused s" "c \<noteq> bmap_block s" "\<forall>k\<le>MAXFILE. c \<noteq> bptr s ip k"
    have "c \<noteq> ind s ip" "c \<noteq> blk s ip ?bn" using c(3) [rule_format, of MAXFILE] c(3) [rule_format, of ?bn] bn by (simp_all add: bptr_blk)
    then have "c \<noteq> b" using c(1) u(9,10) by (cases "blk s ip ?bn = 0") auto
    with \<open>c \<noteq> ind s ip\<close> c u(16) v(7) show "V v c = V s c" by simp
  qed
  have data: "V u d = V s d" if "owned s d" "d \<noteq> ind s ip" for d
    using u(16) ownedD [OF that(1)] that(2) by blast
  have bytes: "blk v ip (k div BSIZE) \<noteq> 0 \<and> fbyte v ip k = xs ! (k - off)" if k: "off \<le> k" "k < off + length xs" for k
  proof -
    define d where "d = k - off"
    have d: "k = off + d" "d < length xs" using k by (simp_all add: d_def)
    have lt: "off mod BSIZE + d < BSIZE" using x(1) d(2) by simp
    have "k = off div BSIZE * BSIZE + (off mod BSIZE + d)" using d(1) by simp
    then have "k div BSIZE = ?bn" "k mod BSIZE = off mod BSIZE + d"
      using lt by (metis BSIZE_def div_mult_self3 div_less add.commute add_0 zero_neq_numeral, metis BSIZE_def mod_mult_self3 mod_less)
    with lt d lenb x(1) show ?thesis using u(1,7) v(7) by (simp add: fbyte_def sl(1) nth_put_bytes)
  qed
  have other: "fbyte v ip k = fbyte s ip k" if k: "k < MAXFILE * BSIZE" "k < off \<or> off + length xs \<le> k" "blk s ip (k div BSIZE) \<noteq> 0" for k
  proof -
    let ?kn = "k div BSIZE"
    have kn: "?kn < MAXFILE" using k(1) by (rule div_MAXFILE)
    then have own: "owned s (blk s ip ?kn)" using file_okD(5) [OF f, of ?kn] k(3) by (simp add: bptr_blk)
    have ni: "blk s ip ?kn \<noteq> ind s ip" using file_okD(6) [OF f, of ?kn MAXFILE] kn k(3) by (auto simp: bptr_blk)
    have V: "V u (blk s ip ?kn) = V s (blk s ip ?kn)" by (rule data [OF own ni])
    show ?thesis
    proof (cases "?kn = ?bn")
      case True
      then have b: "b = blk s ip ?kn" using u(9) k(3) by simp
      have "k = BSIZE * ?bn + k mod BSIZE" "off = BSIZE * ?bn + off mod BSIZE" using True by (metis mult_div_mod_eq, simp)
      then have "k mod BSIZE < off mod BSIZE \<or> off mod BSIZE + length xs \<le> k mod BSIZE" using k(2) by linarith
      moreover have "k mod BSIZE < BSIZE" by (simp add: BSIZE_def)
      ultimately have "put_bytes (off mod BSIZE) xs (V u b) ! (k mod BSIZE) = V u b ! (k mod BSIZE)"
        using lenb x(1) by (subst nth_put_bytes) auto
      then show ?thesis using True u(7) v(7) V b by (simp add: fbyte_def sl(1))
    next
      case False
      then have e: "blk u ip ?kn = blk s ip ?kn" using u(8) kn by simp
      have "blk u ip ?kn \<noteq> b" using file_okD(6) [OF u(4), of ?kn ?bn] kn bn False u(7) e k(3) by (auto simp: bptr_blk)
      then show ?thesis using v(7) V e by (simp add: fbyte_def sl(1))
    qed
  qed
  have "same_fs s (v\<lparr>fs_inodes := fs_inodes s\<rparr>)" using u(5) v(6) by (simp add: same_fs_def)
  moreover have "\<exists>a. fs_inodes v = upd_at ip (\<lambda>x. x\<lparr>ip_addrs := a\<rparr>) (fs_inodes s)" using u(6) S(2) by simp
  ultimately have "writes s ip off xs v" unfolding writes_def
    using v(5) o(1,2) fv bytes other keep new frame u(14) by simp
  moreover have "avail s ip \<le> avail v ip + 1" using u(15) o(1) S(2) by (simp add: avail_def)
  moreover have "cost v ip \<le> cost s ip + 1"
    by (rule cost_step [of v b ip s]) (use v(8) u(11,13) S(1,2) sb(1) in auto)
  ultimately show ?thesis using m(1) v(1-4) dev by (intro exI [of _ b] exI [of _ u] exI [of _ i] exI [of _ t] exI [of _ w] exI [of _ v]) simp
qed

end
