(* ===== verification/FsContents.thy ===== *)
theory FsContents
  imports FsWrite
begin

text \<open>
  xv6: what \<open>readi\<close> and \<open>writei\<close> promise. A file is the list of its bytes, up to its size; writing puts the bytes
  into the list, reading takes them out of it, and no other file notices.
\<close>

lemma writes_nil: "txn s \<Longrightarrow> fs_ok s \<Longrightarrow> file_ok s ip \<Longrightarrow> writes s ip off [] s"
proof -
  assume s: "txn s" "fs_ok s" "file_ok s ip"
  have "fs_inodes s = upd_at ip (\<lambda>x. x\<lparr>ip_addrs := ip_addrs (inode_of s ip)\<rparr>) (fs_inodes s)"
    by (intro nth_equalityI) (simp_all add: nth_upd_at)
  then show ?thesis using s unfolding writes_def by auto
qed

lemma writei_loop_law:
  "txn s \<Longrightarrow> fs_ok s \<Longrightarrow> file_ok s ip \<Longrightarrow> H s = Map.empty \<Longrightarrow> off + length xs \<le> MAXFILE * BSIZE \<Longrightarrow>
   nblocks off (length xs) \<le> avail s ip \<Longrightarrow> cost s ip + nblocks off (length xs) + 1 \<le> LOGMAX \<Longrightarrow>
   \<exists>t. writei_loop ip off xs s = Ok t \<and> writes s ip off xs t \<and> avail s ip \<le> avail t ip + nblocks off (length xs) \<and>
     cost t ip \<le> cost s ip + nblocks off (length xs)"
proof (induction "length xs" arbitrary: off xs s rule: less_induct)
  case less
  show ?case
  proof (cases "xs = []")
    case True
    then show ?thesis using writes_nil [OF less.prems(1-3)] by (intro exI [of _ s]) (simp add: writei_loop.simps [of ip off])
  next
    case False
    define m where m_def: "m = min (length xs) (BSIZE - off mod BSIZE)"
    have r: "off mod BSIZE < BSIZE" by (simp add: BSIZE_def)
    then have m: "0 < m" "m \<le> length xs" "off mod BSIZE + m \<le> BSIZE" using False by (simp_all add: m_def)
    have n: "nblocks off (length xs) = Suc (nblocks (off + m) (length xs - m))" by (rule nblocks_step) (use False m_def in simp_all)
    have a: "1 \<le> avail s ip" "cost s ip + 2 \<le> LOGMAX" using less.prems(6,7) n by simp_all
    have b: "off mod BSIZE + length (take m xs) \<le> BSIZE" using m(2,3) by simp
    have c: "off < MAXFILE * BSIZE" using less.prems(5) False by (cases xs) simp_all
    from chunk_law [OF less.prems(1-4) a b c] obtain bb u i t w v where
      v: "bmap ip (off div BSIZE) s = Ok (bb, u)" "f_bread (ip_dev (inode_of u ip)) bb u = Ok (i, t)"
        "f_log_write i (f_set_data i (put_bytes (off mod BSIZE) (take m xs) (f_data i t)) t) = Ok w" "f_brelse i w = Ok v"
        "writes s ip off (take m xs) v" "avail s ip \<le> avail v ip + 1" "cost v ip \<le> cost s ip + 1" by blast
    note W = writesD [OF v(5)]
    have hv: "H v = Map.empty" using W(4) less.prems(4) by (simp add: same_fs_def)
    have l: "length (drop m xs) < length xs" "off + m + length (drop m xs) \<le> MAXFILE * BSIZE" using m less.prems(5) by simp_all
    have e: "nblocks (off + m) (length (drop m xs)) \<le> avail v ip" "cost v ip + nblocks (off + m) (length (drop m xs)) + 1 \<le> LOGMAX"
      using less.prems(6,7) n v(6,7) by simp_all
    from less.hyps [OF l(1) W(1-3) hv l(2) e] obtain z where
      z: "writei_loop ip (off + m) (drop m xs) v = Ok z" "writes v ip (off + m) (drop m xs) z"
        "avail v ip \<le> avail z ip + nblocks (off + m) (length (drop m xs))"
        "cost z ip \<le> cost v ip + nblocks (off + m) (length (drop m xs))" by blast
    have "writei_loop ip off xs s = Ok z" using False v(1-4) z(1) by (simp add: writei_loop.simps [of ip off] Let_def m_def)
    moreover have "writes s ip off (take m xs @ drop m xs) z"
    proof (rule writes_trans [OF v(5)])
      have t: "length (take m xs) = m" using m(2) by (simp only: length_take min_absorb2)
      show "writes v ip (off + length (take m xs)) (drop m xs) z" unfolding t by (rule z(2))
      show "off + length (take m xs) + length (drop m xs) \<le> MAXFILE * BSIZE" unfolding t by (rule l(2))
    qed
    ultimately show ?thesis using n v(6,7) z(3,4) by (intro exI [of _ z]) simp
  qed
qed

section \<open>Reading\<close>

lemma readi_loop_law:
  "txn s \<Longrightarrow> fs_ok s \<Longrightarrow> file_ok s ip \<Longrightarrow> H s = Map.empty \<Longrightarrow> off + r \<le> MAXFILE * BSIZE \<Longrightarrow>
   \<forall>k. off \<le> k \<and> k < off + r \<longrightarrow> blk s ip (k div BSIZE) \<noteq> 0 \<Longrightarrow>
   \<exists>t. readi_loop ip off r s = Ok (map (fbyte s ip) [off..<off + r], t) \<and> txn t \<and> same_fs s t \<and> V t = V s \<and> logged t = logged s"
proof (induction r arbitrary: off s rule: less_induct)
  case (less r)
  show ?case
  proof (cases "r = 0")
    case True
    then show ?thesis using less.prems(1) by (intro exI [of _ s]) (simp add: readi_loop.simps [of ip off])
  next
    case False
    let ?m = "min r (BSIZE - off mod BSIZE)" and ?bn = "off div BSIZE"
    have rb: "off mod BSIZE < BSIZE" by (simp add: BSIZE_def)
    then have m: "0 < ?m" "?m \<le> r" "off mod BSIZE + ?m \<le> BSIZE" using False by simp_all
    have bn: "?bn < MAXFILE" using less.prems(5) False by (intro div_MAXFILE) simp
    have ne: "blk s ip ?bn \<noteq> 0" using less.prems(6) False by simp
    from bmap_found [OF less.prems(1-3) bn less.prems(4) ne] obtain u where
      u: "bmap ip ?bn s = Ok (blk s ip ?bn, u)" "txn u" "same_fs s u" "V u = V s" "logged u = logged s" by blast
    note U = same_fsD [OF u(3)]
    let ?b = "blk s ip ?bn"
    have "owned s ?b" using file_okD(5) [OF less.prems(3), of ?bn] bn ne by (simp add: bptr_blk)
    then have bd: "?b < disk_size u" using fs_okD(5) [OF less.prems(2)] U(3) by (simp add: owned_def)
    have bh: "?b \<notin> ran (H u)" "card (ran (H u)) \<le> 4" using U(4) less.prems(4) by simp_all
    from f_read_law [OF u(2) bd bh] obtain i t v where v: "f_bread 1 ?b u = Ok (i, t)" "f_data i t = V u ?b" "f_brelse i t = Ok v"
        "txn v" "same_fs u v" "V v = V u" "logged v = logged u" by blast
    note S = same_fsD [OF v(5)]
    have sv: "same_fs s v" by (rule same_fs_trans [OF u(3) v(5)])
    have bl: "blk v ip = blk s ip" "bptr v ip = bptr s ip" using blk_cong [of v ip s] S(2) U(2) v(6) u(4) by simp_all
    have o: "fs_ok v" "owned v = owned s" using fs_ok_cong [of v s] same_fsD [OF sv] v(6) u(4) less.prems(2) by simp_all
    have fv: "file_ok v ip" using file_ok_cong [of v s ip] same_fsD [OF sv] bl(2) o(2) less.prems(3) by simp
    have fb: "fbyte v ip = fbyte s ip" using bl(1) v(6) u(4) by (simp add: fbyte_def fun_eq_iff)
    have hv: "H v = Map.empty" using same_fsD(4) [OF sv] less.prems(4) by simp
    have "r - ?m < r" "off + ?m + (r - ?m) \<le> MAXFILE * BSIZE" "\<forall>k. off + ?m \<le> k \<and> k < off + ?m + (r - ?m) \<longrightarrow> blk v ip (k div BSIZE) \<noteq> 0"
      using m less.prems(5,6) bl(1) by auto
    from less.IH [OF this(1) v(4) o(1) fv hv this(2,3)] obtain z where
      z: "readi_loop ip (off + ?m) (r - ?m) v = Ok (map (fbyte v ip) [off + ?m..<off + ?m + (r - ?m)], z)" "txn z" "same_fs v z" "V z = V v"
        "logged z = logged v" by blast
    have len: "length (V s ?b) = BSIZE" using txnD(6) [OF u(2) bd] u(4) by simp
    have head: "take ?m (drop (off mod BSIZE) (V s ?b)) = map (fbyte s ip) [off..<off + ?m]"
    proof (rule nth_equalityI)
      show "length (take ?m (drop (off mod BSIZE) (V s ?b))) = length (map (fbyte s ip) [off..<off + ?m])"
        using len m(3) by simp
      fix j assume "j < length (take ?m (drop (off mod BSIZE) (V s ?b)))"
      then have j: "j < ?m" by simp
      have lt: "off mod BSIZE + j < BSIZE" using j m(3) by linarith
      have "off + j = off div BSIZE * BSIZE + (off mod BSIZE + j)" by simp
      then have "(off + j) div BSIZE = ?bn" "(off + j) mod BSIZE = off mod BSIZE + j"
        using lt by (metis BSIZE_def div_mult_self3 div_less add.commute add_0 zero_neq_numeral, metis BSIZE_def mod_mult_self3 mod_less)
      with j len lt show "take ?m (drop (off mod BSIZE) (V s ?b)) ! j = map (fbyte s ip) [off..<off + ?m] ! j"
        by (simp add: fbyte_def)
    qed
    have "[off..<off + r] = [off..<off + ?m] @ [off + ?m..<off + ?m + (r - ?m)]"
      using m(2) upt_add_eq_append [of off "off + ?m" "r - ?m"] by simp
    moreover have "readi_loop ip off r s =
        Ok (take ?m (drop (off mod BSIZE) (V s ?b)) @ map (fbyte s ip) [off + ?m..<off + ?m + (r - ?m)], z)"
      using False u(1) v(1,2,3) z(1) file_okD(2) [OF less.prems(3)] U(2) u(4) fb
      by (simp add: readi_loop.simps [of ip off] Let_def)
    moreover have "same_fs s z" by (rule same_fs_trans [OF sv z(3)])
    ultimately show ?thesis using z(2,4,5) v(6,7) u(4,5) head by (intro exI [of _ z]) simp
  qed
qed


section \<open>A file as the list of its bytes\<close>

abbreviation fsize :: "fsys \<Rightarrow> nat \<Rightarrow> nat" where "fsize s ip \<equiv> unat (ip_size (inode_of s ip))"

definition contents :: "fsys \<Rightarrow> nat \<Rightarrow> byte list" where
  "contents s ip = map (fbyte s ip) [0..<fsize s ip]"

text \<open>A file or directory in use, between two operations on blocks: all bytes below its size have a block.\<close>

definition file_inv :: "fsys \<Rightarrow> nat \<Rightarrow> bool" where
  "file_inv s ip \<longleftrightarrow> txn s \<and> fs_ok s \<and> file_ok s ip \<and> H s = Map.empty \<and> ip_type (inode_of s ip) \<noteq> T_DEV \<and>
     fsize s ip \<le> MAXFILE * BSIZE \<and> (\<forall>k<fsize s ip. blk s ip (k div BSIZE) \<noteq> 0)"

lemma file_invD:
  assumes "file_inv s ip"
  shows "txn s" and "fs_ok s" and "file_ok s ip" and "H s = Map.empty" and "ip_type (inode_of s ip) \<noteq> T_DEV"
    and "fsize s ip \<le> MAXFILE * BSIZE" and "k < fsize s ip \<Longrightarrow> blk s ip (k div BSIZE) \<noteq> 0"
  using assms by (simp_all add: file_inv_def)

lemma length_contents [simp]: "length (contents s ip) = fsize s ip"
  by (simp add: contents_def)

text \<open>States with the same blocks and inodes have the same files.\<close>

lemma same_files:
  assumes "file_inv s ip" and "txn t" and "same_fs s t" and "V t = V s"
  shows "file_inv t ip" and "contents t ip = contents s ip" and "unused t = unused s" and "bptr t ip = bptr s ip"
proof -
  note S = same_fsD [OF assms(3)] and I = file_invD [OF assms(1)]
  have sl: "blk t ip = blk s ip" "bptr t ip = bptr s ip" using blk_cong [of t ip s] S(2) assms(4) by simp_all
  have o: "unused t = unused s" "fs_ok t" "owned t = owned s" using fs_ok_cong [of t s] S assms(4) I(2) by simp_all
  have "file_ok t ip" using file_ok_cong [OF S(2,1) sl(2) o(3)] I(3) by simp
  then show "file_inv t ip" using I(4-7) assms(2) S o(2) sl(1) by (simp add: file_inv_def)
  show "contents t ip = contents s ip" using S(2) sl(1) assms(4) by (simp add: contents_def fbyte_def)
  show "unused t = unused s" "bptr t ip = bptr s ip" using o(1) sl(2) by simp_all
qed

lemma MAXFILE_BSIZE: "MAXFILE * BSIZE = 71680"
  by (simp add: MAXFILE_def NDIRECT_def NINDIRECT_def BSIZE_def)

lemma take_drop_contents:
  "off + n \<le> fsize s ip \<Longrightarrow> take n (drop off (contents s ip)) = map (fbyte s ip) [off..<off + n]"
  by (simp add: contents_def take_map drop_map)

lemma readi_law:
  assumes inv: "file_inv s ip" and off: "unat off \<le> fsize s ip" and n: "unat off + unat n < 2 ^ 32"
  shows "\<exists>t. readi D ip off n s = Ok (int (min (unat n) (fsize s ip - unat off)), take (unat n) (drop (unat off) (contents s ip)), t) \<and>
    file_inv t ip \<and> same_fs s t \<and> V t = V s \<and> logged t = logged s"
proof -
  note I = file_invD [OF inv]
  have u: "unat (off + n) = unat off + unat n" using n by (simp add: unat_word_ariths)
  have ok: "\<not> (off > ip_size (inode_of s ip) \<or> off + n < off)" using off u by (simp add: word_less_nat_alt)
  define m where "m = (if off + n > ip_size (inode_of s ip) then ip_size (inode_of s ip) - off else n)"
  have m: "unat m = min (unat n) (fsize s ip - unat off)"
  proof (cases "off + n > ip_size (inode_of s ip)")
    case True
    then have "fsize s ip < unat off + unat n" using u by (simp add: word_less_nat_alt)
    moreover have "unat (ip_size (inode_of s ip) - off) = fsize s ip - unat off"
      using off by (intro unat_sub) (simp add: word_le_nat_alt)
    ultimately show ?thesis using True by (simp add: m_def)
  next
    case False
    then have "unat off + unat n \<le> fsize s ip" using u by (simp add: word_less_nat_alt)
    with False show ?thesis by (simp add: m_def)
  qed
  then have mb: "unat off + unat m \<le> fsize s ip" using off by simp
  have "unat off + unat m \<le> MAXFILE * BSIZE" "\<forall>k. unat off \<le> k \<and> k < unat off + unat m \<longrightarrow> blk s ip (k div BSIZE) \<noteq> 0"
    using mb I(6,7) by auto
  from readi_loop_law [OF I(1-4) this] obtain t where
    t: "readi_loop ip (unat off) (unat m) s = Ok (map (fbyte s ip) [unat off..<unat off + unat m], t)" "txn t" "same_fs s t" "V t = V s"
      "logged t = logged s" by blast
  have "sint m = int (unat m)"
    using sint_of_nat_32 [of "unat m"] mb I(6) by (simp add: MAXFILE_BSIZE)
  moreover have "take (unat m) (drop (unat off) (contents s ip)) = take (unat n) (drop (unat off) (contents s ip))"
    unfolding m by (simp add: min_def)
  then have "map (fbyte s ip) [unat off..<unat off + unat m] = take (unat n) (drop (unat off) (contents s ip))"
    using take_drop_contents [OF mb] by simp
  ultimately have "readi D ip off n s = Ok (int (unat m), take (unat n) (drop (unat off) (contents s ip)), t)"
    using I(5) ok t(1) unfolding readi_def Let_def m_def [symmetric] by simp
  with m t same_files(1) [OF inv t(2-4)] show ?thesis by auto
qed

lemma readi_bad:
  assumes "file_inv s ip" and "fsize s ip < unat off \<or> 2 ^ 32 \<le> unat off + unat n"
  shows "readi D ip off n s = Ok (- 1, [], s)"
proof -
  have "off > ip_size (inode_of s ip) \<or> off + n < off"
  proof (cases "fsize s ip < unat off")
    case False
    then have "2 ^ 32 \<le> unat off + unat n" using assms(2) by simp
    moreover have "unat (off + n) = unat off + unat n - 2 ^ 32"
      using calculation unat_uint_less [of off] unat_uint_less [of n] by (simp add: unat_word_ariths mod_if)
    ultimately have "unat (off + n) < unat off" using unat_uint_less [of n] by simp
    then show ?thesis by (simp add: word_less_nat_alt)
  qed (simp add: word_less_nat_alt)
  then show ?thesis using file_invD(5) [OF assms(1)] by (simp add: readi_def)
qed

section \<open>Writing back an inode\<close>

abbreviation iblock :: "fsys \<Rightarrow> nat \<Rightarrow> uint" where "iblock s ip \<equiv> IBLOCK (ip_inum (inode_of s ip)) (fs_sb s)"

lemma length_dinode_bytes: "length (ip_addrs x) = NDIRECT + 1 \<Longrightarrow> length (dinode_bytes x) = 64"
  by (simp add: dinode_bytes_def length_concat comp_def sum_list_triv NDIRECT_def)

lemma iblock_facts:
  assumes "fs_ok s" and "file_ok s ip"
  shows "iblock s ip \<in> inode_blocks s" and "iblock s ip < disk_size s" and "iblock s ip \<notin> log_blocks s" and "iblock s ip \<noteq> bmap_block s"
    and "\<not> data_block s (iblock s ip)"
proof -
  show 1: "iblock s ip \<in> inode_blocks s" using file_okD(3) [OF assms(2)] by (auto simp: inode_blocks_def)
  then show "iblock s ip < disk_size s" "iblock s ip \<notin> log_blocks s" "iblock s ip \<noteq> bmap_block s" "\<not> data_block s (iblock s ip)"
    using fs_okD(3,4) [OF assms(1)] by (auto simp: data_block_def)
qed

lemma iupdate_law:
  assumes s: "txn s" and ok: "fs_ok s" and f: "file_ok s ip" and h: "H s = Map.empty" and c: "card (insert (iblock s ip) (logged s)) \<le> LOGMAX"
  shows "\<exists>t. iupdate ip s = Ok t \<and> txn t \<and> same_fs s t \<and>
    V t = (V s)(iblock s ip := put_bytes (dinode_off (ip_inum (inode_of s ip))) (dinode_bytes (inode_of s ip)) (V s (iblock s ip))) \<and>
    logged t = insert (iblock s ip) (logged s)"
proof -
  note B = iblock_facts [OF ok f]
  have "unat (ip_inum (inode_of s ip)) mod 8 < 8" by simp
  then have "dinode_off (ip_inum (inode_of s ip)) + 64 \<le> 512" unfolding dinode_off_def IPB_def by linarith
  then have len: "length (put_bytes (dinode_off (ip_inum (inode_of s ip))) (dinode_bytes (inode_of s ip)) (V s (iblock s ip))) = BSIZE"
    using txnD(6) [OF s B(2)] length_dinode_bytes [OF file_okD(4) [OF f]] by (subst length_put_bytes) (simp_all add: BSIZE_def)
  have "iblock s ip \<notin> ran (H s)" "card (ran (H s)) \<le> 4" using h by simp_all
  from f_update_law [OF s B(2) this(1) B(3) this(2), of "put_bytes (dinode_off (ip_inum (inode_of s ip))) (dinode_bytes (inode_of s ip))",
      OF len c]
  show ?thesis using file_okD(2) [OF f] by (auto simp: iupdate_def Let_def)
qed

text \<open>The data of the files are elsewhere.\<close>

lemma iblock_write_files:
  assumes ok: "fs_ok s" and f: "file_ok s ip" and t: "same_fs s t" "V t = (V s)(iblock s ip := d)"
  shows "fs_ok t" and "file_ok t ip" and "unused t = unused s" and "bptr t ip = bptr s ip" and "blk t ip = blk s ip"
    and "blk s ip (k div BSIZE) \<noteq> 0 \<Longrightarrow> k < MAXFILE * BSIZE \<Longrightarrow> fbyte t ip k = fbyte s ip k"
proof -
  note S = same_fsD [OF t(1)] and B = iblock_facts [OF ok f]
  have own: "V t c = V s c" if "owned s c" for c using that B(5) t(2) by (auto simp: owned_def)
  have sl: "blk t ip = blk s ip" "bptr t ip = bptr s ip"
    using blk_cong [of t ip s] S(2) own file_okD(5) [OF f, of MAXFILE] by simp_all
  have o: "unused t = unused s" "fs_ok t" "owned t = owned s" using fs_ok_cong [of t s] S t(2) B(4) ok by simp_all
  show "fs_ok t" "unused t = unused s" "bptr t ip = bptr s ip" "blk t ip = blk s ip" using o sl by simp_all
  show "file_ok t ip" using file_ok_cong [OF S(2,1) sl(2) o(3)] f by simp
  show "fbyte t ip k = fbyte s ip k" if "blk s ip (k div BSIZE) \<noteq> 0" "k < MAXFILE * BSIZE"
    using file_okD(5) [OF f, of "k div BSIZE"] own that div_MAXFILE [OF that(2)] by (simp add: fbyte_def sl(1) bptr_blk)
qed


section \<open>Writing\<close>

lemma contents_after:
  assumes w: "writes s ip off src t" and inv: "file_inv s ip" and n: "off \<le> fsize s ip" "off + length src \<le> MAXFILE * BSIZE"
    and v: "\<And>k. k < MAXFILE * BSIZE \<Longrightarrow> blk t ip (k div BSIZE) \<noteq> 0 \<Longrightarrow> fbyte v ip k = fbyte t ip k"
    and size: "fsize v ip = max (fsize s ip) (off + length src)"
  shows "contents v ip = put_bytes off src (contents s ip)" and "\<forall>k<fsize v ip. blk t ip (k div BSIZE) \<noteq> 0"
proof -
  note W = writesD [OF w] and I = file_invD [OF inv]
  have M: "fsize v ip \<le> MAXFILE * BSIZE" using I(6) n(2) size by simp
  have old: "blk t ip (k div BSIZE) \<noteq> 0" if "k < fsize s ip" for k
  proof -
    have "k < MAXFILE * BSIZE" using that I(6) by simp
    from div_MAXFILE [OF this] I(7) [OF that] W(8) [of "k div BSIZE"] show ?thesis by (simp add: bptr_blk)
  qed
  show all: "\<forall>k<fsize v ip. blk t ip (k div BSIZE) \<noteq> 0"
  proof (intro allI impI)
    fix k assume k: "k < fsize v ip"
    show "blk t ip (k div BSIZE) \<noteq> 0"
    proof (cases "k < fsize s ip")
      case True
      then show ?thesis by (rule old)
    next
      case False
      then have "off \<le> k" "k < off + length src" using k size n(1) by simp_all
      then show ?thesis using W(6) by blast
    qed
  qed
  show "contents v ip = put_bytes off src (contents s ip)"
  proof (rule nth_equalityI)
    show "length (contents v ip) = length (put_bytes off src (contents s ip))"
      using n(1) size by (simp add: put_bytes_def)
    fix k assume "k < length (contents v ip)"
    then have k: "k < fsize v ip" "k < MAXFILE * BSIZE" using M by simp_all
    have kv: "contents v ip ! k = fbyte t ip k" using k v [OF k(2)] all by (simp add: contents_def)
    show "contents v ip ! k = put_bytes off src (contents s ip) ! k"
    proof (cases "off \<le> k \<and> k < off + length src")
      case True
      then have "k - off < length src" by linarith
      with True have "put_bytes off src (contents s ip) ! k = src ! (k - off)" using n(1) by (simp add: put_bytes_def nth_append)
      with True kv W(6) [of k] show ?thesis by simp
    next
      case False
      then have ks: "k < fsize s ip" using k(1) size n(1) by linarith
      have "k < off \<or> off + length src \<le> k" using False by auto
      then have "put_bytes off src (contents s ip) ! k = contents s ip ! k"
        using n(1) ks by (auto simp: put_bytes_def nth_append)
      also have "\<dots> = fbyte s ip k" using ks by (simp add: contents_def)
      finally show ?thesis using kv W(7) [OF k(2) \<open>k < off \<or> off + length src \<le> k\<close> I(7) [OF ks]] by simp
    qed
  qed
qed

text \<open>The rest of \<open>writei\<close>: a new size, written back.\<close>

lemma grow_law:
  assumes w: "writes s ip off src t" and inv: "file_inv s ip" and n: "off \<le> fsize s ip" "off + length src \<le> MAXFILE * BSIZE"
    and grow: "fsize s ip < off + length src" and c: "cost t ip + 1 \<le> LOGMAX"
  shows "\<exists>v. iupdate ip (upd_inode ip (\<lambda>x. x\<lparr>ip_size := of_nat (off + length src)\<rparr>) t) = Ok v \<and> file_inv v ip \<and>
    contents v ip = put_bytes off src (contents s ip) \<and> same_fs s (v\<lparr>fs_inodes := fs_inodes s\<rparr>) \<and> unused v = unused t \<and> bptr v ip = bptr t ip \<and>
    fs_inodes v = upd_at ip (\<lambda>x. x\<lparr>ip_size := of_nat (off + length src)\<rparr>) (fs_inodes t) \<and>
    (\<forall>b. b \<noteq> iblock s ip \<longrightarrow> V v b = V t b) \<and> logged v = insert (iblock s ip) (logged t)"
proof -
  define z where "z = (of_nat (off + length src) :: uint)"
  define w where "w = upd_inode ip (\<lambda>x. x\<lparr>ip_size := z\<rparr>) t"
  note W = writesD [OF w] and I = file_invD [OF inv]
  have sz: "unat z = off + length src" unfolding z_def using n(2) by (intro unat_of_nat_32) (simp add: MAXFILE_BSIZE)
  have u: "fs_io w = fs_io t" "fs_log w = fs_log t" "fs_sb w = fs_sb t" "length (fs_inodes w) = length (fs_inodes t)"
    by (simp_all add: w_def upd_inode_def)
  have it: "inode_of w ip = (inode_of t ip)\<lparr>ip_size := z\<rparr>" using file_okD(1) [OF W(3)] by (simp add: w_def upd_inode_def nth_upd_at)
  from W(5) obtain a where a: "fs_inodes t = upd_at ip (\<lambda>x. x\<lparr>ip_addrs := a\<rparr>) (fs_inodes s)" by blast
  then have its: "inode_of t ip = (inode_of s ip)\<lparr>ip_addrs := a\<rparr>" using inode_upd file_okD(1) [OF I(3)] by blast
  have sbt: "fs_sb t = fs_sb s" using W(4) by (simp add: same_fs_def)
  have "ip_addrs (inode_of w ip) = ip_addrs (inode_of t ip)" "V w (ind t ip) = V t (ind t ip)" unfolding it u by simp_all
  note sl = blk_cong [OF this]
  have o: "unused w = unused t" "fs_ok w" "owned w = owned t" using fs_ok_cong [of w t] W(2) by (simp_all add: u)
  have "ip_dev (inode_of w ip) = ip_dev (inode_of t ip)" "ip_inum (inode_of w ip) = ip_inum (inode_of t ip)"
    "ip_addrs (inode_of w ip) = ip_addrs (inode_of t ip)" unfolding it by simp_all
  then have "file_ok w ip = file_ok t ip" unfolding file_ok_def by (simp only: u sl(2) o(3))
  then have fo: "file_ok w ip" using W(3) by simp
  have tx: "txn w" using W(1) by (simp add: txn_def u)
  have ib: "iblock w ip = iblock s ip" by (simp add: it its u sbt)
  have ht: "H w = Map.empty" using W(4) I(4) by (simp add: same_fs_def u)
  have "card (insert (iblock w ip) (logged w)) \<le> Suc (card (logged t))" unfolding u by (simp add: card_insert_if)
  also have "card (logged t) \<le> card ({ind t ip} - {0} \<union> insert (bmap_block t) (logged t))" by (intro card_mono) auto
  also have "\<dots> \<le> cost t ip" by (simp add: cost_def)
  finally have "card (insert (iblock w ip) (logged w)) \<le> LOGMAX" using c by simp
  from iupdate_law [OF tx o(2) fo ht this] obtain v where v: "iupdate ip w = Ok v" "txn v" "same_fs w v"
      "V v = (V w)(iblock w ip := put_bytes (dinode_off (ip_inum (inode_of w ip))) (dinode_bytes (inode_of w ip)) (V w (iblock w ip)))"
      "logged v = insert (iblock w ip) (logged w)" by blast
  note S = same_fsD [OF v(3)] and B = iblock_write_files [OF o(2) fo v(3,4)]
  have fb: "fbyte v ip k = fbyte t ip k" if "k < MAXFILE * BSIZE" "blk t ip (k div BSIZE) \<noteq> 0" for k
    using B(6) [of k] that sl(1) by (simp add: fbyte_def u)
  have size: "fsize v ip = max (fsize s ip) (off + length src)" using S(2) it sz grow by simp
  note C = contents_after [OF w inv n fb size]
  have "file_inv v ip" unfolding file_inv_def
    using v(2) B(1,2) S(2,4) ht I(5) it its C(2) B(5) sl(1) size I(6) n(2) by simp
  moreover have "same_fs s (v\<lparr>fs_inodes := fs_inodes s\<rparr>)" using W(4) v(3) by (simp add: same_fs_def u)
  moreover have "\<forall>b. b \<noteq> iblock s ip \<longrightarrow> V v b = V t b" using v(4) ib by (simp add: u)
  moreover have "fs_inodes v = upd_at ip (\<lambda>x. x\<lparr>ip_size := z\<rparr>) (fs_inodes t)" using S(2) by (simp add: w_def upd_inode_def)
  ultimately show ?thesis using v(1,5) C(1) B(3,4) o(1) sl(2) ib unfolding z_def [symmetric] w_def [symmetric] by (intro exI [of _ v]) (simp add: u)
qed

definition fs_write :: "fsys \<Rightarrow> nat \<Rightarrow> nat \<Rightarrow> byte list \<Rightarrow> fsys \<Rightarrow> bool" where
  "fs_write s ip off src t \<longleftrightarrow> file_inv t ip \<and> contents t ip = put_bytes off src (contents s ip) \<and>
     same_fs s (t\<lparr>fs_inodes := fs_inodes s\<rparr>) \<and>
     (\<exists>a z. fs_inodes t = upd_at ip (\<lambda>x. x\<lparr>ip_addrs := a, ip_size := z\<rparr>) (fs_inodes s)) \<and> unused t \<subseteq> unused s \<and>
     (\<forall>c. c \<notin> unused s \<and> c \<noteq> bmap_block s \<and> c \<noteq> iblock s ip \<and> (\<forall>k\<le>MAXFILE. c \<noteq> bptr s ip k) \<longrightarrow> V t c = V s c)"

lemma writei_law:
  assumes inv: "file_inv s ip" and n: "unat off \<le> fsize s ip" "unat off + length src \<le> MAXFILE * BSIZE"
    and room: "nblocks (unat off) (length src) \<le> avail s ip" "cost s ip + nblocks (unat off) (length src) + 1 \<le> LOGMAX"
  shows "\<exists>t. writei D ip src off s = Ok (int (length src), t) \<and> fs_write s ip (unat off) src t \<and>
    avail s ip \<le> avail t ip + nblocks (unat off) (length src) \<and> card (logged t) \<le> cost s ip + nblocks (unat off) (length src) + 1"
proof -
  note I = file_invD [OF inv]
  let ?n = "of_nat (length src) :: uint" and ?k = "nblocks (unat off) (length src)"
  from writei_loop_law [OF I(1-4) n(2) room] obtain t where
    t: "writei_loop ip (unat off) src s = Ok t" "writes s ip (unat off) src t" "avail s ip \<le> avail t ip + ?k" "cost t ip \<le> cost s ip + ?k"
    by blast
  note W = writesD [OF t(2)]
  have un: "unat ?n = length src" using n(2) by (intro unat_of_nat_32) (simp add: MAXFILE_BSIZE)
  have sn: "sint ?n = int (length src)" using n(2) by (intro sint_of_nat_32) (simp add: MAXFILE_BSIZE)
  have uo: "unat (off + ?n) = unat off + length src" using n(2) un by (simp add: unat_word_ariths MAXFILE_BSIZE)
  have um: "unat (of_nat (MAXFILE * BSIZE) :: uint) = MAXFILE * BSIZE" by (rule unat_of_nat_32) (simp add: MAXFILE_BSIZE)
  have ok: "\<not> (off > ip_size (inode_of s ip) \<or> off + ?n < off)" "\<not> off + ?n > of_nat (MAXFILE * BSIZE)"
    using n uo um by (simp_all add: word_less_nat_alt)
  from W(5) obtain a where a: "fs_inodes t = upd_at ip (\<lambda>x. x\<lparr>ip_addrs := a\<rparr>) (fs_inodes s)" by blast
  then have its: "inode_of t ip = (inode_of s ip)\<lparr>ip_addrs := a\<rparr>" using inode_upd file_okD(1) [OF I(3)] by blast
  have lt: "card (logged t) \<le> cost t ip"
  proof -
    have "card (logged t) \<le> card ({ind t ip} - {0} \<union> insert (bmap_block t) (logged t))" by (intro card_mono) auto
    then show ?thesis by (simp add: cost_def)
  qed
  have frame: "V t c = V s c" if "c \<notin> unused s" "c \<noteq> bmap_block s" "\<forall>k\<le>MAXFILE. c \<noteq> bptr s ip k" for c using W(11) [OF that] .
  have run: "writei D ip src off s =
      rbind (if ?n > 0 \<and> off + ?n > ip_size (inode_of t ip) then iupdate ip (upd_inode ip (\<lambda>x. x\<lparr>ip_size := off + ?n\<rparr>) t) else Ok t)
        (\<lambda>s. Ok (sint ?n, s))"
    using I(5) ok t(1) unfolding writei_def Let_def by simp
  have grow: "(?n > 0 \<and> off + ?n > ip_size (inode_of t ip)) \<longleftrightarrow> fsize s ip < unat off + length src"
    using n(1) uo un its by (auto simp: word_less_nat_alt)
  show ?thesis
  proof (cases "fsize s ip < unat off + length src")
    case True
    have "cost t ip + 1 \<le> LOGMAX" using t(4) room(2) by simp
    from grow_law [OF t(2) inv n True this] obtain v where
      v: "iupdate ip (upd_inode ip (\<lambda>x. x\<lparr>ip_size := of_nat (unat off + length src)\<rparr>) t) = Ok v" "file_inv v ip"
        "contents v ip = put_bytes (unat off) src (contents s ip)" "same_fs s (v\<lparr>fs_inodes := fs_inodes s\<rparr>)" "unused v = unused t"
        "bptr v ip = bptr t ip" "fs_inodes v = upd_at ip (\<lambda>x. x\<lparr>ip_size := of_nat (unat off + length src)\<rparr>) (fs_inodes t)"
        "\<forall>b. b \<noteq> iblock s ip \<longrightarrow> V v b = V t b" "logged v = insert (iblock s ip) (logged t)" by blast
    have "(of_nat (unat off + length src) :: uint) = off + ?n" by simp
    with run grow True v(1) sn have r: "writei D ip src off s = Ok (int (length src), v)" by simp
    have "fs_inodes v = upd_at ip (\<lambda>x. x\<lparr>ip_addrs := a, ip_size := of_nat (unat off + length src)\<rparr>) (fs_inodes s)"
      unfolding v(7) a by (intro nth_equalityI) (simp_all add: nth_upd_at)
    then have "\<exists>a z. fs_inodes v = upd_at ip (\<lambda>x. x\<lparr>ip_addrs := a, ip_size := z\<rparr>) (fs_inodes s)" by blast
    then have "fs_write s ip (unat off) src v" using v(2-5,8) W(10) frame by (simp add: fs_write_def)
    moreover have "avail v ip = avail t ip" using v(5,6) bptr_ind by (simp add: avail_def del: bptr_ind) (metis bptr_ind)
    moreover have "card (logged v) \<le> Suc (card (logged t))" unfolding v(9) by (simp add: card_insert_if)
    ultimately show ?thesis using r t(3,4) lt by (intro exI [of _ v]) simp
  next
    case False
    with run grow sn have r: "writei D ip src off s = Ok (int (length src), t)" by simp
    have size: "fsize t ip = max (fsize s ip) (unat off + length src)" using its False by simp
    note C = contents_after [OF t(2) inv n refl size]
    have "file_inv t ip" unfolding file_inv_def using W(1-4) I(4-6) its C(2) by (simp add: same_fs_def)
    moreover have "fs_inodes t = upd_at ip (\<lambda>x. x\<lparr>ip_addrs := a, ip_size := ip_size (inode_of s ip)\<rparr>) (fs_inodes s)"
      unfolding a by (intro nth_equalityI) (simp_all add: nth_upd_at)
    then have "\<exists>a z. fs_inodes t = upd_at ip (\<lambda>x. x\<lparr>ip_addrs := a, ip_size := z\<rparr>) (fs_inodes s)" by blast
    ultimately have "fs_write s ip (unat off) src t" using C(1) W(4,10) frame by (simp add: fs_write_def)
    with r t(3,4) lt show ?thesis by (intro exI [of _ t]) simp
  qed
qed

end
