(* ===== verification/Pipe.thy ===== *)
theory Pipe
  imports Channel
begin

text \<open>
  xv6, \<open>pipe.c\<close>: the ring buffer between a writer and a reader. A call runs under the lock of the pipe until
  it returns or sleeps; a call that sleeps goes on at the index it had. The pipe is a byte channel
  in the sense of \<open>Channel\<close>, so its readers get every byte, in order.
\<close>

definition PIPESIZE :: uint where "PIPESIZE = 512"

record pipe =
  p_data :: "byte list"
  p_nread :: uint
  p_nwrite :: uint
  p_readopen :: bool
  p_writeopen :: bool

text \<open>What \<open>pipealloc\<close> stores in the new page; the data is what the page held.\<close>

definition pipe_start :: "byte list \<Rightarrow> pipe" where
  "pipe_start page = \<lparr>p_data = page, p_nread = 0, p_nwrite = 0, p_readopen = True, p_writeopen = True\<rparr>"

text \<open>The pipe after \<open>pipeclose\<close>, and whether its page is freed.\<close>

definition pipeclose :: "bool \<Rightarrow> pipe \<Rightarrow> pipe \<times> bool" where
  "pipeclose writable p =
     (let p = (if writable then p\<lparr>p_writeopen := False\<rparr> else p\<lparr>p_readopen := False\<rparr>) in
      (p, \<not> p_readopen p \<and> \<not> p_writeopen p))"

function pipewrite :: "bool \<Rightarrow> byte list \<Rightarrow> nat \<Rightarrow> pipe \<Rightarrow> int pcall \<times> pipe" where
  "pipewrite killed addr i p =
     (if length addr \<le> i then (Returns (int (length addr)), p)
      else if p_nwrite p = p_nread p + PIPESIZE then
        (if \<not> p_readopen p \<or> killed then (Returns (- 1), p) else (Waits i, p))
      else pipewrite killed addr (Suc i)
        (p\<lparr>p_data := (p_data p)[unat (p_nwrite p mod PIPESIZE) := addr ! i], p_nwrite := p_nwrite p + 1\<rparr>))"
  by pat_completeness auto
termination by (relation "measure (\<lambda>(killed, addr, i, p). length addr - i)") auto

declare pipewrite.simps [simp del]

fun pipe_copy :: "nat \<Rightarrow> pipe \<Rightarrow> byte list \<times> pipe" where
  "pipe_copy 0 p = ([], p)"
| "pipe_copy (Suc n) p =
     (if p_nread p = p_nwrite p then ([], p)
      else (case pipe_copy n (p\<lparr>p_nread := p_nread p + 1\<rparr>) of
              (xs, q) \<Rightarrow> (p_data p ! unat (p_nread p mod PIPESIZE) # xs, q)))"

definition piperead :: "bool \<Rightarrow> nat \<Rightarrow> pipe \<Rightarrow> (int \<times> byte list) pcall \<times> pipe" where
  "piperead killed n p =
     (if p_nread p = p_nwrite p \<and> p_writeopen p then
        (if killed then (Returns (- 1, []), p) else (Waits 0, p))
      else (case pipe_copy n p of (xs, q) \<Rightarrow> (Returns (int (length xs), xs), q)))"

section \<open>The ring is a queue\<close>

definition used :: "pipe \<Rightarrow> nat" where
  "used p = unat (p_nwrite p - p_nread p)"

definition slot :: "uint \<Rightarrow> nat" where
  "slot k = unat (k mod PIPESIZE)"

definition pipe_contents :: "pipe \<Rightarrow> byte list" where
  "pipe_contents p = map (\<lambda>k. p_data p ! slot (p_nread p + of_nat k)) [0..<used p]"

definition pipe_inv :: "pipe \<Rightarrow> bool" where
  "pipe_inv p \<longleftrightarrow> length (p_data p) = 512 \<and> used p \<le> 512 \<and> p_readopen p"

lemma unat_mod_512: "unat (w mod PIPESIZE) = unat w mod 512"
  by (simp add: PIPESIZE_def unat_mod_distrib)

lemma slot_less: "slot k < 512"
  by (simp add: slot_def unat_mod_512)

text \<open>The size of the ring divides the range of the counters, so a slot is free when its number comes up again.\<close>

lemma slot_add: "slot (w + of_nat k) = (unat w + k) mod 512"
proof -
  have "unat (w + of_nat k) = (unat w + k) mod 2 ^ 32"
    by (simp add: unat_word_ariths unsigned_of_nat take_bit_eq_mod mod_simps)
  then have "slot (w + of_nat k) = (unat w + k) mod 2 ^ 32 mod 512" by (simp add: slot_def unat_mod_512)
  also have "\<dots> = (unat w + k) mod 512" by (rule mod_mod_cancel) simp
  finally show ?thesis .
qed

lemma slot_distinct: "j < 512 \<Longrightarrow> k < 512 \<Longrightarrow> slot (w + of_nat j) = slot (w + of_nat k) \<Longrightarrow> j = k"
proof -
  have wlog: "j = k" if "j \<le> k" "k < 512" "(w + j) mod 512 = (w + k) mod 512" for j k w :: nat
  proof -
    have "(512 :: nat) dvd (w + k) - (w + j)" using that by (metis mod_eq_dvd_iff_nat add_le_cancel_left)
    then have "512 dvd k - j" by simp
    moreover have "k - j < 512" using that by simp
    ultimately have "k - j = 0" by (meson nat_dvd_not_less neq0_conv)
    with that show ?thesis by simp
  qed
  assume "j < 512" "k < 512" "slot (w + of_nat j) = slot (w + of_nat k)"
  then show "j = k" using wlog [of j k "unat w"] wlog [of k j "unat w"] by (cases "j \<le> k") (simp_all add: slot_add)
qed

lemma nwrite_used: "p_nwrite p = p_nread p + of_nat (used p)"
  by (simp add: used_def)

lemma used_0: "used p = 0 \<longleftrightarrow> p_nread p = p_nwrite p"
  by (auto simp: used_def unat_eq_0)

lemma used_full: "used p = 512 \<longleftrightarrow> p_nwrite p = p_nread p + PIPESIZE"
proof
  assume "used p = 512"
  then show "p_nwrite p = p_nread p + PIPESIZE" using nwrite_used [of p] by (simp add: PIPESIZE_def)
qed (simp add: used_def PIPESIZE_def)

lemma put_byte:
  assumes i: "pipe_inv p" and n: "used p < 512"
    and q: "q = p\<lparr>p_data := (p_data p)[unat (p_nwrite p mod PIPESIZE) := b], p_nwrite := p_nwrite p + 1\<rparr>"
  shows "pipe_inv q" and "pipe_contents q = pipe_contents p @ [b]" and "p_writeopen q = p_writeopen p" and "used q = Suc (used p)"
proof -
  have s: "unat (p_nwrite p mod PIPESIZE) = slot (p_nread p + of_nat (used p))" by (simp add: slot_def nwrite_used [symmetric])
  have "p_nwrite q - p_nread q = of_nat (Suc (used p))" by (simp add: q used_def)
  moreover have "unat (of_nat (Suc (used p)) :: uint) = Suc (used p)" using n by (intro unat_of_nat_32) simp
  ultimately show u: "used q = Suc (used p)" by (simp only: used_def)
  show "pipe_inv q" using i n u by (simp add: pipe_inv_def) (simp add: q)
  have len: "length (p_data p) = 512" using i by (simp add: pipe_inv_def)
  have "p_data q ! slot (p_nread q + of_nat k) = p_data p ! slot (p_nread p + of_nat k)" if "k < used p" for k
  proof -
    have "slot (p_nread p + of_nat k) \<noteq> slot (p_nread p + of_nat (used p))" using slot_distinct [of k "used p" "p_nread p"] that n by auto
    then show ?thesis by (simp add: q s)
  qed
  moreover have "p_data q ! slot (p_nread q + of_nat (used p)) = b" using len slot_less by (simp add: q s)
  ultimately show "pipe_contents q = pipe_contents p @ [b]" by (simp add: pipe_contents_def u)
  show "p_writeopen q = p_writeopen p" by (simp add: q)
qed

lemma get_byte:
  assumes i: "pipe_inv p" and n: "used p = Suc m"
  shows "pipe_inv (p\<lparr>p_nread := p_nread p + 1\<rparr>)"
    and "pipe_contents p = p_data p ! unat (p_nread p mod PIPESIZE) # pipe_contents (p\<lparr>p_nread := p_nread p + 1\<rparr>)"
proof -
  let ?q = "p\<lparr>p_nread := p_nread p + 1\<rparr>"
  have "p_nwrite ?q - p_nread ?q = of_nat m" using nwrite_used [of p] n by simp
  moreover have "m < 512" using i n by (simp add: pipe_inv_def)
  then have "unat (of_nat m :: uint) = m" by (intro unat_of_nat_32) simp
  ultimately have u: "used ?q = m" by (simp only: used_def)
  show "pipe_inv ?q" using i n u by (simp add: pipe_inv_def)
  have "[0..<used p] = 0 # map Suc [0..<m]" unfolding n by (simp add: map_Suc_upt upt_conv_Cons del: upt_Suc)
  then have "pipe_contents p = p_data p ! slot (p_nread p) # map (\<lambda>k. p_data p ! slot (p_nread p + of_nat (Suc k))) [0..<m]"
    by (simp add: pipe_contents_def)
  also have "map (\<lambda>k. p_data p ! slot (p_nread p + of_nat (Suc k))) [0..<m] = pipe_contents ?q"
    unfolding pipe_contents_def u by (simp add: ac_simps)
  finally show "pipe_contents p = p_data p ! unat (p_nread p mod PIPESIZE) # pipe_contents ?q" by (simp only: slot_def)
qed

lemma contents_used: "length (pipe_contents p) = used p"
  by (simp add: pipe_contents_def)

lemma pipewrite_all:
  "pipe_inv p \<Longrightarrow> i \<le> length bs \<Longrightarrow> used p + (length bs - i) \<le> 512 \<Longrightarrow>
   \<exists>q. pipewrite killed bs i p = (Returns (int (length bs)), q) \<and> pipe_inv q \<and> pipe_contents q = pipe_contents p @ drop i bs \<and>
     p_writeopen q = p_writeopen p"
proof (induction killed bs i p rule: pipewrite.induct)
  case (1 killed bs i p)
  show ?case
  proof (cases "length bs \<le> i")
    case True
    with 1 show ?thesis by (simp add: pipewrite.simps)
  next
    case False
    let ?q = "p\<lparr>p_data := (p_data p)[unat (p_nwrite p mod PIPESIZE) := bs ! i], p_nwrite := p_nwrite p + 1\<rparr>"
    have n: "used p < 512" using False 1(4) by simp
    then have nf: "p_nwrite p \<noteq> p_nread p + PIPESIZE" using used_full by force
    note q = put_byte [OF 1(2) n refl, of "bs ! i"]
    have "pipewrite killed bs i p = pipewrite killed bs (Suc i) ?q" using False nf by (subst pipewrite.simps) simp
    moreover have "drop i bs = bs ! i # drop (Suc i) bs" using False by (simp add: Cons_nth_drop_Suc)
    ultimately show ?thesis using 1(1) [OF False nf q(1)] q False 1(4) by simp
  qed
qed

lemma pipewrite_some:
  "pipe_inv p \<Longrightarrow> i \<le> length bs \<Longrightarrow> 512 < used p + (length bs - i) \<Longrightarrow>
   \<exists>q. pipewrite False bs i p = (Waits (i + (512 - used p)), q) \<and> pipe_inv q \<and>
     pipe_contents q = pipe_contents p @ take (512 - used p) (drop i bs) \<and> p_writeopen q = p_writeopen p"
proof (induction False bs i p rule: pipewrite.induct)
  case (1 bs i p)
  have i: "\<not> length bs \<le> i" using 1(2,4) unfolding pipe_inv_def by linarith
  show ?case
  proof (cases "p_nwrite p = p_nread p + PIPESIZE")
    case True
    then have "used p = 512" using used_full by blast
    with True 1(2) i show ?thesis by (simp add: pipewrite.simps pipe_inv_def)
  next
    case nf: False
    let ?q = "p\<lparr>p_data := (p_data p)[unat (p_nwrite p mod PIPESIZE) := bs ! i], p_nwrite := p_nwrite p + 1\<rparr>"
    have n: "used p < 512" using nf used_full [of p] 1(2) unfolding pipe_inv_def by linarith
    note q = put_byte [OF 1(2) n refl, of "bs ! i"]
    have "pipewrite False bs i p = pipewrite False bs (Suc i) ?q" using i nf by (subst pipewrite.simps) simp
    moreover have "drop i bs = bs ! i # drop (Suc i) bs" using i by (simp add: Cons_nth_drop_Suc)
    moreover have "512 - used p = Suc (512 - Suc (used p))" using n by simp
    ultimately show ?thesis using 1(1) [OF i nf q(1)] q i 1(4) by simp
  qed
qed

lemma pipe_copy_take:
  "pipe_inv p \<Longrightarrow> \<exists>q. pipe_copy n p = (take n (pipe_contents p), q) \<and> pipe_inv q \<and> pipe_contents q = drop n (pipe_contents p) \<and>
     p_writeopen q = p_writeopen p"
proof (induction n p rule: pipe_copy.induct)
  case (2 n p)
  show ?case
  proof (cases "p_nread p = p_nwrite p")
    case True
    then have "pipe_contents p = []" using used_0 [of p] contents_used [of p] by simp
    with True 2(2) show ?thesis by simp
  next
    case False
    then obtain m where "used p = Suc m" using used_0 [of p] by (cases "used p") simp_all
    note g = get_byte [OF 2(2) this]
    from 2(1) [OF False g(1)] g(2) False show ?thesis by auto
  qed
qed simp

lemma contents_Nil: "pipe_contents p = [] \<longleftrightarrow> p_nread p = p_nwrite p"
  using contents_used [of p] used_0 [of p] by (metis length_0_conv)

interpretation pc: byte_channel pipe_inv pipe_contents 512 "\<lambda>p. \<not> p_writeopen p" "pipewrite False" "piperead False" "\<lambda>p. fst (pipeclose True p)"
proof unfold_locales
  fix p :: pipe and bs :: "byte list" and i n :: nat
  show "(0 :: nat) < 512" by simp
  assume inv: "pipe_inv p"
  then show "length (pipe_contents p) \<le> 512" by (simp add: contents_used pipe_inv_def)
  show "pipe_inv (fst (pipeclose True p)) \<and> pipe_contents (fst (pipeclose True p)) = pipe_contents p \<and>
      \<not> p_writeopen (fst (pipeclose True p))"
    using inv by (simp add: pipeclose_def pipe_inv_def pipe_contents_def used_def)
  show "\<exists>q. pipewrite False bs i p = (Returns (int (length bs)), q) \<and> pipe_inv q \<and>
      pipe_contents q = pipe_contents p @ drop i bs \<and> (\<not> p_writeopen q) = (\<not> p_writeopen p)"
    if "i \<le> length bs" "length (pipe_contents p) + (length bs - i) \<le> 512"
    using pipewrite_all [OF inv that(1), of False] that(2) by (auto simp: contents_used)
  show "\<exists>q. pipewrite False bs i p = (Waits (i + (512 - length (pipe_contents p))), q) \<and> pipe_inv q \<and>
      pipe_contents q = pipe_contents p @ take (512 - length (pipe_contents p)) (drop i bs) \<and> (\<not> p_writeopen q) = (\<not> p_writeopen p)"
    if "i \<le> length bs" "512 < length (pipe_contents p) + (length bs - i)"
    using pipewrite_some [OF inv that(1)] that(2) by (auto simp: contents_used)
  show "\<exists>q. piperead False n p = (Returns (int (length (take n (pipe_contents p))), take n (pipe_contents p)), q) \<and> pipe_inv q \<and>
      pipe_contents q = drop n (pipe_contents p) \<and> (\<not> p_writeopen q) = (\<not> p_writeopen p)"
    if "pipe_contents p \<noteq> [] \<or> \<not> p_writeopen p"
    using pipe_copy_take [OF inv, of n] that contents_Nil [of p] by (auto simp: piperead_def)
  show "piperead False n p = (Waits 0, p)" if "pipe_contents p = []" "\<not> \<not> p_writeopen p"
    using that contents_Nil [of p] by (simp add: piperead_def)
qed

text \<open>The turns of a process that writes to the pipe and then closes it and of one that reads it.\<close>

abbreviation pipe_turn :: "nat \<Rightarrow> pipe talk \<Rightarrow> pipe talk \<Rightarrow> bool" where
  "pipe_turn n \<equiv> turn (pipewrite False) (piperead False) (\<lambda>p. fst (pipeclose True p)) n"

text \<open>
  C9: xv6 pipes deliver. A process writes the buffers \<open>calls\<close>, of any sizes, to a new pipe and closes it, another
  one reads at most \<open>n > 0\<close> bytes at a time until it gets none. However the two are scheduled, no run
  goes on for ever (in particular neither waits for a wake-up that has been lost), and a run that
  cannot go on has delivered all bytes, in the order in which they were written.
\<close>

theorem pipe_delivers:
  assumes page: "length page = 512" and n: "0 < n"
  shows "\<not> (\<exists>f. f 0 = talk_start (pipe_start page) calls \<and> (\<forall>k. pipe_turn n (f k) (f (Suc k)))) \<and>
    (\<forall>s. (pipe_turn n)\<^sup>*\<^sup>* (talk_start (pipe_start page) calls) s \<and> \<not> (\<exists>t. pipe_turn n s t) \<longrightarrow>
      tk_got s = concat calls \<and> tk_writer s = Closed \<and> tk_reader s = Closed)"
proof (intro conjI allI impI)
  have "pipe_inv (pipe_start page)" "pipe_contents (pipe_start page) = []" "\<not> \<not> p_writeopen (pipe_start page)"
    using page by (simp_all add: pipe_inv_def pipe_contents_def pipe_start_def used_def)
  note i = pc.start_inv [OF this, of calls]
  show "\<not> (\<exists>f. f 0 = talk_start (pipe_start page) calls \<and> (\<forall>k. pipe_turn n (f k) (f (Suc k))))"
    using pc.no_endless_run [OF n] i by metis
  fix s assume "(pipe_turn n)\<^sup>*\<^sup>* (talk_start (pipe_start page) calls) s \<and> \<not> (\<exists>t. pipe_turn n s t)"
  then have s: "pc.talk_inv (concat calls) s" "\<nexists>t. pipe_turn n s t" using pc.reach_inv [OF _ n i] by blast+
  from pc.stuck_done [OF s(1) n s(2)]
  show "tk_got s = concat calls" "tk_writer s = Closed" "tk_reader s = Closed" .
qed

lemma pipe_delivers_witness:
  "\<exists>s. (pipe_turn 10)\<^sup>*\<^sup>* (talk_start (pipe_start (replicate 512 0)) [replicate 600 7, [1, 2]]) s \<and>
    tk_got s = concat [replicate 600 7, [1, 2]] \<and> tk_writer s = Closed \<and> tk_reader s = Closed"
proof -
  have "length (replicate 512 0 :: byte list) = 512" "(0 :: nat) < 10" by simp_all
  note d = pipe_delivers [OF this, of "[replicate 600 7, [1, 2]]"]
  from run_ends [OF d [THEN conjunct1]] d [THEN conjunct2] show ?thesis by blast
qed

end
