(* ===== verification/Files.thy ===== *)
theory Files
  imports FsDir Pipe
begin

text \<open>
  xv6, \<open>file.c\<close> and the allocation of \<open>pipe.c\<close>: the table of the open files, which are inodes or ends of pipes. The
  memory is that of the file system, the file table, the pipes and the free pages, of which only the part
  that becomes the buffer of a pipe is seen. With the process come its descriptors and its directory.
\<close>

definition NFILE :: nat where "NFILE = 100"
definition NOFILES :: nat where "NOFILES = 16"

datatype ftype = FD_NONE | FD_PIPE | FD_INODE

record file_struct =
  f_type :: ftype
  f_ref :: int
  f_readable :: bool
  f_writable :: bool
  f_pipe :: nat
  f_ip :: nat
  f_off :: uint

record kfiles =
  kf_fs :: fsys
  kf_files :: "file_struct list"
  kf_pipes :: "pipe option list"
  kf_pages :: "byte list list"
  kf_ofile :: "nat option list"
  kf_cwd :: nat
  kf_killed :: bool

definition upd_file :: "nat \<Rightarrow> (file_struct \<Rightarrow> file_struct) \<Rightarrow> kfiles \<Rightarrow> kfiles" where
  "upd_file i f k = k\<lparr>kf_files := upd_at i f (kf_files k)\<rparr>"

abbreviation file_at :: "kfiles \<Rightarrow> nat \<Rightarrow> file_struct" where
  "file_at k i \<equiv> kf_files k ! i"

text \<open>A call of the file system.\<close>

definition on_fs :: "(fsys \<Rightarrow> ('a \<times> fsys) res) \<Rightarrow> kfiles \<Rightarrow> ('a \<times> kfiles) res" where
  "on_fs f k = rbind (f (kf_fs k)) (\<lambda>(x, s). Ok (x, k\<lparr>kf_fs := s\<rparr>))"

definition in_fs :: "(fsys \<Rightarrow> fsys res) \<Rightarrow> kfiles \<Rightarrow> kfiles res" where
  "in_fs f k = rbind (f (kf_fs k)) (\<lambda>s. Ok (k\<lparr>kf_fs := s\<rparr>))"

definition f_begin_op :: "fsys \<Rightarrow> fsys res" where
  "f_begin_op s = rbind (begin_op (fs_log s)) (\<lambda>lg. Ok (s\<lparr>fs_log := lg\<rparr>))"

definition f_end_op :: "fsys \<Rightarrow> fsys res" where
  "f_end_op s = rbind (end_op (fs_log s) (fs_io s)) (\<lambda>(lg, t). Ok (s\<lparr>fs_log := lg, fs_io := t\<rparr>))"

definition filealloc :: "kfiles \<Rightarrow> nat option \<times> kfiles" where
  "filealloc k =
     (case find_idx (\<lambda>f. f_ref f = 0) (kf_files k) of
        Some i \<Rightarrow> (Some i, upd_file i (\<lambda>f. f\<lparr>f_ref := 1\<rparr>) k)
      | None \<Rightarrow> (None, k))"

definition filedup :: "nat \<Rightarrow> kfiles \<Rightarrow> kfiles res" where
  "filedup i k =
     (if f_ref (file_at k i) < 1 then Panic ''filedup'' else Ok (upd_file i (\<lambda>f. f\<lparr>f_ref := f_ref f + 1\<rparr>) k))"

text \<open>Closing an end of a pipe; the page of a pipe without ends is free again, and \<open>kfree\<close> has filled it with ones.\<close>

definition close_pipe :: "nat \<Rightarrow> bool \<Rightarrow> kfiles \<Rightarrow> kfiles res" where
  "close_pipe q writable k =
     (case kf_pipes k ! q of
        None \<Rightarrow> Undef
      | Some p \<Rightarrow>
          (case pipeclose writable p of (p, freed) \<Rightarrow>
             Ok (if freed then k\<lparr>kf_pipes := (kf_pipes k)[q := None], kf_pages := replicate 512 1 # kf_pages k\<rparr>
                 else k\<lparr>kf_pipes := (kf_pipes k)[q := Some p]\<rparr>)))"

definition fileclose :: "nat \<Rightarrow> kfiles \<Rightarrow> kfiles res" where
  "fileclose i k =
     (if f_ref (file_at k i) < 1 then Panic ''fileclose''
      else
        let k = upd_file i (\<lambda>f. f\<lparr>f_ref := f_ref f - 1\<rparr>) k; ff = file_at k i in
        if f_ref ff > 0 then Ok k
        else
          let k = upd_file i (\<lambda>f. f\<lparr>f_ref := 0, f_type := FD_NONE\<rparr>) k in
          (case f_type ff of
             FD_PIPE \<Rightarrow> close_pipe (f_pipe ff) (f_writable ff) k
           | FD_INODE \<Rightarrow> rbind (in_fs f_begin_op k) (\<lambda>k. rbind (in_fs (iput (f_ip ff)) k) (in_fs f_end_op))
           | FD_NONE \<Rightarrow> Ok k))"

definition filestat :: "nat \<Rightarrow> kfiles \<Rightarrow> (int \<times> stat option \<times> kfiles) res" where
  "filestat i k =
     (let f = file_at k i in
      if f_type f = FD_INODE then
        rbind (in_fs (ilock (Some (f_ip f))) k) (\<lambda>k.
          let st = stati (f_ip f) (kf_fs k) in
          rbind (in_fs (iunlock (Some (f_ip f))) k) (\<lambda>k. Ok (0, Some st, k)))
      else Ok (- 1, None, k))"

text \<open>A call may have to wait for the other end of a pipe.\<close>

definition on_pipe :: "nat \<Rightarrow> (pipe \<Rightarrow> 'a pcall \<times> pipe) \<Rightarrow> kfiles \<Rightarrow> ('a pcall \<times> kfiles) res" where
  "on_pipe q f k =
     (case kf_pipes k ! q of
        None \<Rightarrow> Undef
      | Some p \<Rightarrow> (case f p of (x, p) \<Rightarrow> Ok (x, k\<lparr>kf_pipes := (kf_pipes k)[q := Some p]\<rparr>)))"

definition fileread :: "devsw \<Rightarrow> nat \<Rightarrow> uint \<Rightarrow> kfiles \<Rightarrow> ((int \<times> byte list) pcall \<times> kfiles) res" where
  "fileread D i n k =
     (let f = file_at k i in
      if \<not> f_readable f then Ok (Returns (- 1, []), k)
      else
        (case f_type f of
           FD_PIPE \<Rightarrow> on_pipe (f_pipe f) (piperead (kf_killed k) (unat n)) k
         | FD_INODE \<Rightarrow>
             rbind (in_fs (ilock (Some (f_ip f))) k) (\<lambda>k.
             rbind (readi D (f_ip f) (f_off f) n (kf_fs k)) (\<lambda>(r, xs, s).
               let k = k\<lparr>kf_fs := s\<rparr>; k = (if r > 0 then upd_file i (\<lambda>f. f\<lparr>f_off := f_off f + of_int r\<rparr>) k else k) in
               rbind (in_fs (iunlock (Some (f_ip f))) k) (\<lambda>k. Ok (Returns (r, xs), k))))
         | FD_NONE \<Rightarrow> Panic ''fileread''))"

text \<open>The loop of \<open>filewrite\<close>: one transaction for every 1536 bytes. It gives whether all bytes were written.\<close>

definition write_max :: nat where
  "write_max = nat ((MAXOPBLOCKS - 1 - 1 - 2) div 2) * 512"

function filewrite_loop :: "devsw \<Rightarrow> nat \<Rightarrow> byte list \<Rightarrow> kfiles \<Rightarrow> (bool \<times> kfiles) res" where
  "filewrite_loop D i xs k =
     (if xs = [] then Ok (True, k)
      else
        let n1 = min (length xs) write_max; ip = f_ip (file_at k i) in
        rbind (in_fs f_begin_op k) (\<lambda>k.
        rbind (in_fs (ilock (Some ip)) k) (\<lambda>k.
        rbind (on_fs (writei D ip (take n1 xs) (f_off (file_at k i))) k) (\<lambda>(r, k).
          let k = (if r > 0 then upd_file i (\<lambda>f. f\<lparr>f_off := f_off f + of_int r\<rparr>) k else k) in
          rbind (in_fs (iunlock (Some ip)) k) (\<lambda>k.
          rbind (in_fs f_end_op k) (\<lambda>k.
            if r < 0 then Ok (False, k)
            else if r \<noteq> int n1 then Panic ''short filewrite''
            else filewrite_loop D i (drop n1 xs) k))))))"
  by pat_completeness auto
termination by (relation "measure (\<lambda>(D, i, xs, k). length xs)") (auto simp: write_max_def MAXOPBLOCKS_def)

declare filewrite_loop.simps [simp del]

text \<open>\<open>at\<close> is 0, or the index at which a write to a pipe goes on after a wait.\<close>

definition filewrite :: "devsw \<Rightarrow> nat \<Rightarrow> byte list \<Rightarrow> nat \<Rightarrow> kfiles \<Rightarrow> (int pcall \<times> kfiles) res" where
  "filewrite D i addr at k =
     (let f = file_at k i in
      if \<not> f_writable f then Ok (Returns (- 1), k)
      else
        (case f_type f of
           FD_PIPE \<Rightarrow> on_pipe (f_pipe f) (pipewrite (kf_killed k) addr at) k
         | FD_INODE \<Rightarrow>
             rbind (filewrite_loop D i addr k) (\<lambda>(done, k). Ok (Returns (if done then int (length addr) else - 1), k))
         | FD_NONE \<Rightarrow> Panic ''filewrite''))"

section \<open>Pipes\<close>

definition pipe_ends :: "nat \<Rightarrow> nat \<Rightarrow> nat \<Rightarrow> kfiles \<Rightarrow> kfiles" where
  "pipe_ends q i j k =
     upd_file j (\<lambda>f. f\<lparr>f_type := FD_PIPE, f_readable := False, f_writable := True, f_pipe := q\<rparr>)
       (upd_file i (\<lambda>f. f\<lparr>f_type := FD_PIPE, f_readable := True, f_writable := False, f_pipe := q\<rparr>) k)"

definition close_opt :: "nat option \<Rightarrow> kfiles \<Rightarrow> kfiles res" where
  "close_opt f k = (case f of None \<Rightarrow> Ok k | Some i \<Rightarrow> fileclose i k)"

text \<open>\<open>pipealloc\<close>: the two files, or \<open>None\<close> when a file or the page is missing.\<close>

definition pipealloc :: "kfiles \<Rightarrow> ((nat \<times> nat) option \<times> kfiles) res" where
  "pipealloc k =
     (case filealloc k of
        (None, k) \<Rightarrow> Ok (None, k)
      | (Some i, k) \<Rightarrow>
          (case filealloc k of
             (None, k) \<Rightarrow> rbind (fileclose i k) (\<lambda>k. Ok (None, k))
           | (Some j, k) \<Rightarrow>
               (case kf_pages k of
                  [] \<Rightarrow> rbind (fileclose i k) (\<lambda>k. rbind (fileclose j k) (\<lambda>k. Ok (None, k)))
                | page # pages \<Rightarrow>
                    Ok (Some (i, j), pipe_ends (length (kf_pipes k)) i j
                      (k\<lparr>kf_pipes := kf_pipes k @ [Some (pipe_start page)], kf_pages := pages\<rparr>)))))"

end
