(* ===== verification/Mkfs.thy ===== *)
theory Mkfs
  imports FsDir
begin

text \<open>
  xv6, \<open>mkfs.c\<close>: the program that builds the disk image on the host. The image is the list of its sectors; an
  assertion that fails and an error that ends the program are a panic. On a little-endian or big-endian host alike
  \<open>xint\<close> and \<open>xshort\<close> make the bytes of an integer little-endian, so a field that is stored is its bytes.
\<close>

definition NINODES :: nat where "NINODES = 200"
definition FSSIZE :: nat where "FSSIZE = 4000"

definition nbitmap :: nat where "nbitmap = FSSIZE div (BSIZE * 8) + 1"
definition ninodeblocks :: nat where "ninodeblocks = NINODES div IPB + 1"
definition nlog :: nat where "nlog = nat LOGSIZE"
definition nmeta :: nat where "nmeta = 2 + nlog + ninodeblocks + nbitmap"

definition mk_sb :: superblock where
  "mk_sb = \<lparr>sb_size = of_nat FSSIZE, sb_nblocks = of_nat (FSSIZE - nmeta), sb_ninodes = of_nat NINODES, sb_nlog = of_nat nlog,
     sb_logstart = 2, sb_inodestart = of_nat (2 + nlog), sb_bmapstart = of_nat (2 + nlog + ninodeblocks)\<rparr>"

definition sb_bytes :: "superblock \<Rightarrow> byte list" where
  "sb_bytes sb = bytes32 (sb_size sb) @ bytes32 (sb_nblocks sb) @ bytes32 (sb_ninodes sb) @ bytes32 (sb_nlog sb) @
     bytes32 (sb_logstart sb) @ bytes32 (sb_inodestart sb) @ bytes32 (sb_bmapstart sb)"

definition zeroes :: "byte list" where "zeroes = replicate BSIZE 0"

text \<open>The image, how many sectors the file has, and the two counters.\<close>

record mkfs =
  mk_disk :: "uint \<Rightarrow> byte list"
  mk_sectors :: nat
  mk_freeinode :: uint
  mk_freeblock :: uint

section \<open>Sectors and inodes\<close>

text \<open>The sector at the offset \<open>sec * BSIZE\<close>, which is computed in 32 bits.\<close>

definition seek_sector :: "uint \<Rightarrow> uint" where
  "seek_sector sec = sec * of_nat BSIZE div of_nat BSIZE"

definition wsect :: "uint \<Rightarrow> byte list \<Rightarrow> mkfs \<Rightarrow> mkfs" where
  "wsect sec buf m =
     (let k = seek_sector sec in m\<lparr>mk_disk := (mk_disk m)(k := buf), mk_sectors := max (mk_sectors m) (unat k + 1)\<rparr>)"

definition rsect :: "uint \<Rightarrow> mkfs \<Rightarrow> byte list res" where
  "rsect sec m = (let k = seek_sector sec in if unat k < mk_sectors m then Ok (mk_disk m k) else Panic ''read'')"

definition winode :: "uint \<Rightarrow> inode \<Rightarrow> mkfs \<Rightarrow> mkfs res" where
  "winode inum ip m =
     (let bn = IBLOCK inum mk_sb in
      rbind (rsect bn m) (\<lambda>buf. Ok (wsect bn (put_bytes (dinode_off inum) (dinode_bytes ip) buf) m)))"

definition rinode :: "uint \<Rightarrow> mkfs \<Rightarrow> inode res" where
  "rinode inum m = rbind (rsect (IBLOCK inum mk_sb) m) (\<lambda>buf. Ok (load_dinode buf (dinode_off inum) inode_zero))"

definition mk_ialloc :: "short \<Rightarrow> mkfs \<Rightarrow> (uint \<times> mkfs) res" where
  "mk_ialloc type m =
     (let inum = mk_freeinode m; din = inode_zero\<lparr>ip_type := type, ip_nlink := 1, ip_size := 0\<rparr> in
      rbind (winode inum din (m\<lparr>mk_freeinode := mk_freeinode m + 1\<rparr>)) (\<lambda>m. Ok (inum, m)))"

text \<open>The bitmap: the blocks in front of the first free one are in use.\<close>

definition mk_balloc :: "int32 \<Rightarrow> mkfs \<Rightarrow> mkfs res" where
  "mk_balloc used m =
     (if sint used < int (BSIZE * 8) then Ok (wsect (sb_bmapstart mk_sb) (fold mark_bit [0..<nat (sint used)] zeroes) m)
      else Panic ''assert'')"

section \<open>Appending to a file\<close>

text \<open>\<open>freeblock++\<close>\<close>

definition next_block :: "mkfs \<Rightarrow> uint \<times> mkfs" where
  "next_block m = (mk_freeblock m, m\<lparr>mk_freeblock := mk_freeblock m + 1\<rparr>)"

definition mk_direct :: "nat \<Rightarrow> inode \<Rightarrow> mkfs \<Rightarrow> inode \<times> mkfs" where
  "mk_direct k din m =
     (if ip_addrs din ! k = 0 then let (b, m) = next_block m in (din\<lparr>ip_addrs := (ip_addrs din)[k := b]\<rparr>, m) else (din, m))"

text \<open>The block of the file with the index \<open>fbn\<close>, which is less than \<open>MAXFILE\<close>.\<close>

definition mk_block :: "nat \<Rightarrow> inode \<Rightarrow> mkfs \<Rightarrow> (uint \<times> inode \<times> mkfs) res" where
  "mk_block fbn din m =
     (if fbn < NDIRECT then let (din, m) = mk_direct fbn din m in Ok (ip_addrs din ! fbn, din, m)
      else
        let (din, m) = mk_direct NDIRECT din m; ind = ip_addrs din ! NDIRECT; k = 4 * (fbn - NDIRECT) in
        rbind (rsect ind m) (\<lambda>indirect.
          if le32 indirect k = 0 then
            let (b, m) = next_block m in Ok (b, din, wsect ind (put_bytes k (bytes32 b) indirect) m)
          else Ok (le32 indirect k, din, m)))"

function iappend_loop :: "byte list \<Rightarrow> uint \<Rightarrow> inode \<Rightarrow> mkfs \<Rightarrow> (uint \<times> inode \<times> mkfs) res" where
  "iappend_loop p off din m =
     (if p = [] then Ok (off, din, m)
      else
        let fbn = unat off div BSIZE in
        if \<not> fbn < MAXFILE then Panic ''assert''
        else
          rbind (mk_block fbn din m) (\<lambda>(x, din, m).
            let n1 = min (length p) ((fbn + 1) * BSIZE - unat off) in
            rbind (rsect x m) (\<lambda>buf.
              iappend_loop (drop n1 p) (off + of_nat n1) din
                (wsect x (put_bytes (unat off - fbn * BSIZE) (take n1 p) buf) m))))"
  by pat_completeness auto
termination
proof (relation "measure (\<lambda>(p, off, din, m). length p)", simp, clarsimp)
  fix p :: "byte list" and off :: uint
  assume "p \<noteq> []"
  moreover have "unat off < BSIZE + unat off div BSIZE * BSIZE"
    using div_mult_mod_eq [of "unat off" BSIZE] mod_less_divisor [of BSIZE "unat off"] by (simp add: BSIZE_def)
  ultimately show "length p - min (length p) (BSIZE + unat off div BSIZE * BSIZE - unat off) < length p" by simp
qed

declare iappend_loop.simps [simp del]

definition iappend :: "uint \<Rightarrow> byte list \<Rightarrow> mkfs \<Rightarrow> mkfs res" where
  "iappend inum p m =
     rbind (rinode inum m) (\<lambda>din.
     rbind (iappend_loop p (ip_size din) din m) (\<lambda>(off, din, m).
       winode inum (din\<lparr>ip_size := off\<rparr>) m))"

section \<open>The program\<close>

text \<open>An entry of the root directory.\<close>

definition de_bytes :: "uint \<Rightarrow> byte list \<Rightarrow> byte list" where
  "de_bytes inum name = bytes16 (ucast inum) @ strncpy name DIRSIZ"

text \<open>The pieces that the reads of the file deliver.\<close>

fun append_pieces :: "uint \<Rightarrow> byte list list \<Rightarrow> mkfs \<Rightarrow> mkfs res" where
  "append_pieces inum [] m = Ok m"
| "append_pieces inum (p # ps) m = rbind (iappend inum p m) (append_pieces inum ps)"

definition underscore :: byte where "underscore = 95"

definition file_name :: "byte list \<Rightarrow> byte list" where
  "file_name arg = (if byte_at arg = underscore then tl arg else arg)"

text \<open>An argument is its name and what \<open>open\<close> and \<open>read\<close> give for it.\<close>

definition add_file :: "byte list \<times> byte list list option \<Rightarrow> mkfs \<Rightarrow> mkfs res" where
  "add_file arg m =
     (if slash \<in> set (fst arg) then Panic ''assert''
      else
        case snd arg of None \<Rightarrow> Panic ''open''
        | Some pieces \<Rightarrow>
            rbind (mk_ialloc T_FILE m) (\<lambda>(inum, m).
            rbind (iappend ROOTINO (de_bytes inum (file_name (fst arg))) m) (append_pieces inum pieces)))"

fun add_files :: "(byte list \<times> byte list list option) list \<Rightarrow> mkfs \<Rightarrow> mkfs res" where
  "add_files [] m = Ok m"
| "add_files (arg # args) m = rbind (add_file arg m) (add_files args)"

definition fix_root :: "mkfs \<Rightarrow> mkfs res" where
  "fix_root m =
     rbind (rinode ROOTINO m) (\<lambda>din.
       winode ROOTINO (din\<lparr>ip_size := (ip_size din div of_nat BSIZE + 1) * of_nat BSIZE\<rparr>) m)"

definition empty_image :: mkfs where
  "empty_image =
     wsect 1 (put_bytes 0 (sb_bytes mk_sb) zeroes)
       (fold (\<lambda>i. wsect (of_nat i) zeroes) [0..<FSSIZE]
         \<lparr>mk_disk = (\<lambda>_. []), mk_sectors = 0, mk_freeinode = 1, mk_freeblock = of_nat nmeta\<rparr>)"

definition mkfs_main :: "(byte list \<times> byte list list option) list \<Rightarrow> mkfs res" where
  "mkfs_main args =
     rbind (mk_ialloc T_DIR empty_image) (\<lambda>(rootino, m).
       if rootino \<noteq> ROOTINO then Panic ''assert''
       else
         rbind (iappend rootino (de_bytes rootino [46]) m) (\<lambda>m.
         rbind (iappend rootino (de_bytes rootino [46, 46]) m) (\<lambda>m.
         rbind (add_files args m) (\<lambda>m.
         rbind (fix_root m) (\<lambda>m. mk_balloc (mk_freeblock m) m)))))"

section \<open>The layout\<close>

lemma layout: "nmeta = 59" "nlog = 30" "ninodeblocks = 26" "nbitmap = 1"
  by (simp_all add: nmeta_def nlog_def ninodeblocks_def nbitmap_def LOGSIZE_def NINODES_def IPB_def FSSIZE_def BSIZE_def)

lemma mk_sb_fields:
  "sb_size mk_sb = 4000" "sb_nblocks mk_sb = 3941" "sb_ninodes mk_sb = 200" "sb_nlog mk_sb = 30" "sb_logstart mk_sb = 2"
  "sb_inodestart mk_sb = 32" "sb_bmapstart mk_sb = 58"
  by (simp_all add: mk_sb_def layout FSSIZE_def NINODES_def)

lemma iblock_place:
  assumes "unat i < NINODES"
  shows "unat (IBLOCK i mk_sb) = 32 + unat i div 8" and "32 \<le> unat (IBLOCK i mk_sb)" and "unat (IBLOCK i mk_sb) < 57"
proof -
  have d: "unat i div 8 < 25" using assms by (simp add: NINODES_def less_mult_imp_div_less)
  have "unat (of_nat (unat i div 8) :: uint) = unat i div 8" using d by (intro unat_of_nat_32) simp
  then show "unat (IBLOCK i mk_sb) = 32 + unat i div 8" using d by (simp add: IBLOCK_def mk_sb_def layout IPB_def unat_word_ariths)
  with d show "32 \<le> unat (IBLOCK i mk_sb)" "unat (IBLOCK i mk_sb) < 57" by simp_all
qed

end
