(* ===== verification/FsThm.thy ===== *)
theory FsThm
  imports FsContents Files Mkfs
begin

text \<open>
  xv6: the theorems about blocks and files, and a small file system on which they are witnessed.
\<close>

section \<open>Blocks\<close>

lemma balloc_full:
  assumes s: "txn s" and ok: "fs_ok s" and h: "H s = Map.empty" and e: "unused s = {}"
  shows "balloc 1 s = Panic ''balloc: out of blocks''"
proof -
  note M = small_fsD [OF fs_okD(1) [OF ok]]
  have hB: "bmap_block s \<notin> ran (H s)" "card (ran (H s)) \<le> 4" using h by simp_all
  have none: "find (bit_free (bitmap s)) [0..<unat (sb_size (fs_sb s))] = None"
  proof (rule ccontr)
    assume "find (bit_free (bitmap s)) [0..<unat (sb_size (fs_sb s))] \<noteq> None"
    then obtain n where "first_free s n" by (auto simp: first_free_def)
    note F = first_freeD [OF this]
    have "of_nat n \<in> unused s" using F(1,2) M(6) [OF F(1)] by (simp add: unused_def word_less_nat_alt)
    with e show False by simp
  qed
  from f_read_law [OF s M(3) hB] obtain i t u where t: "f_bread 1 (bmap_block s) s = Ok (i, t)" "f_data i t = bitmap s"
      "fs_sb t = fs_sb s" "f_brelse i t = Ok u" "same_fs s u" by blast
  have "find (bit_free (f_data i t)) [0..<min BPB (unat (sb_size (fs_sb s)) - 0)] = None"
    using none M(2) by (simp add: t(2) min_absorb2)
  moreover have "balloc_from BPB 1 u = Panic ''balloc: out of blocks''"
    using M(2) same_fsD(1) [OF t(5)] by (simp add: balloc_from.simps [of BPB])
  ultimately show "balloc 1 s = Panic ''balloc: out of blocks''"
    using t M(1) by (simp add: balloc_def balloc_from.simps [of 0] BBLOCK_small BPB_def)
qed

text \<open>
  C16: Allocating blocks. Inside a transaction, \<open>balloc\<close> finds the lowest block that the bitmap has as free, marks it,
  zeroes it and changes no other block; it panics exactly when no block is free. \<open>bfree\<close> of that block restores the
  bitmap, and freeing it once more panics.
\<close>

theorem balloc_bfree:
  assumes s: "txn s" and ok: "fs_ok s" and h: "H s = Map.empty" and c: "card (logged s) + 2 \<le> LOGMAX"
  shows "(unused s \<noteq> {} \<longrightarrow> (\<exists>b t u. balloc 1 s = Ok (b, t) \<and> b \<in> unused s \<and> (\<forall>c\<in>unused s. b \<le> c) \<and> V t b = replicate BSIZE 0 \<and>
      unused t = unused s - {b} \<and> (\<forall>c. c \<noteq> b \<and> c \<noteq> bmap_block s \<longrightarrow> V t c = V s c) \<and>
      bfree 1 b t = Ok u \<and> bitmap u = bitmap s \<and> unused u = unused s \<and> bfree 1 b u = Panic ''freeing free block'')) \<and>
    (unused s = {} \<longrightarrow> balloc 1 s = Panic ''balloc: out of blocks'')"
proof (intro conjI impI)
  note M = small_fsD [OF fs_okD(1) [OF ok]]
  have hB: "bmap_block s \<notin> ran (H s)" "ran (H s) \<inter> unused s = {}" "card (ran (H s)) \<le> 4" using h by simp_all
  { assume ne: "unused s \<noteq> {}"
    have "card (insert (bmap_block s) (logged s)) \<le> Suc (card (logged s))" by (simp add: card_insert_if)
    then have c1: "card (insert (bmap_block s) (logged s)) < LOGMAX" using c by simp
    from alloc_law [OF s ok ne hB c1] obtain b t where t: "balloc 1 s = Ok (b, t)" "b \<in> unused s" "txn t" "fs_ok t" "same_fs s t"
        "V t = (V s)(bmap_block s := mark_bit (unat b) (bitmap s), b := replicate BSIZE 0)"
        "logged t = insert b (insert (bmap_block s) (logged s))" "unused t = unused s - {b}" "first_free s (unat b)" by blast
    note T = same_fsD [OF t(5)] and F = first_freeD [OF t(9)]
    have bB: "b \<noteq> bmap_block s" using fs_okD(2) [OF ok t(2)] by (simp add: data_block_def)
    have len: "length (bitmap s) = BSIZE" using txnD(6) [OF s M(3)] .
    then have b: "unat b < BPB" "unat b < 8 * length (bitmap s)" using F(1) M(2) by (simp_all add: BSIZE_def BPB_def)
    have bt: "bitmap t = mark_bit (unat b) (bitmap s)" using t(6) T(1) bB by simp
    have nf: "\<not> bit_free (bitmap t) (unat b)" unfolding bt using bit_free_mark [OF b(2)] by simp
    have hB': "bmap_block t \<notin> ran (H t)" "card (ran (H t)) \<le> 4" using T(4) h by simp_all
    have "insert (bmap_block t) (logged t) = logged t" using t(7) T(1) by auto
    then have "card (insert (bmap_block t) (logged t)) \<le> LOGMAX" using txnD(4) [OF t(3)] by simp
    from bfree_law [OF t(3) fs_okD(1) [OF t(4)] b(1) nf hB' this] obtain u where u: "bfree 1 b t = Ok u" "txn u" "same_fs t u"
        "V u = (V t)(bmap_block t := clear_bit (unat b) (bitmap t))" by blast
    note U = same_fsD [OF u(3)]
    have bu: "bitmap u = bitmap s" using u(4) U(1) T(1) clear_mark [OF F(2) b(2)] bt by simp
    have uu: "unused u = unused s" by (rule set_eqI) (simp add: unused_def U(1) T(1) bu [unfolded U(1) T(1)])
    have "small_fs u" using fs_okD(1) [OF t(4)] small_fs_same [OF u(3)] by simp
    from small_fsD(3) [OF this] have ub: "bmap_block u < disk_size u" .
    have "bmap_block u \<notin> ran (H u)" "card (ran (H u)) \<le> 4" using hB' U by simp_all
    from f_read_law [OF u(2) ub this] obtain i v where v: "f_bread 1 (bmap_block u) u = Ok (i, v)" "f_data i v = bitmap u" by blast
    have "bfree 1 b u = Panic ''freeing free block''"
      using v F(2) bu b(1) by (simp add: bfree_def BBLOCK_small)
    moreover have "\<forall>c\<in>unused s. b \<le> c"
      using F(3) by (auto simp: unused_def word_le_nat_alt not_less [symmetric])
    ultimately show "\<exists>b t u. balloc 1 s = Ok (b, t) \<and> b \<in> unused s \<and> (\<forall>c\<in>unused s. b \<le> c) \<and> V t b = replicate BSIZE 0 \<and>
        unused t = unused s - {b} \<and> (\<forall>c. c \<noteq> b \<and> c \<noteq> bmap_block s \<longrightarrow> V t c = V s c) \<and>
        bfree 1 b t = Ok u \<and> bitmap u = bitmap s \<and> unused u = unused s \<and> bfree 1 b u = Panic ''freeing free block''"
      using t(1,2,6,8) u(1) bu uu by (intro exI [of _ b] exI [of _ t] exI [of _ u]) simp }
  show "balloc 1 s = Panic ''balloc: out of blocks''" if "unused s = {}" by (rule balloc_full [OF s ok h that])
qed

section \<open>Files\<close>

lemma cost_le: "cost s ip \<le> card (logged s) + 2"
proof -
  let ?S = "{ind s ip} - {0} \<union> insert (bmap_block s) (logged s)"
  have c1: "card (insert b X) \<le> Suc (card X)" if "finite X" for b :: uint and X using that by (simp add: card_insert_if)
  show ?thesis
  proof (cases "ind s ip = 0")
    case True
    then show ?thesis using c1 [of "logged s" "bmap_block s"] by (simp add: cost_def)
  next
    case False
    then have "?S = insert (ind s ip) (insert (bmap_block s) (logged s))" by auto
    then show ?thesis using False c1 [of "insert (bmap_block s) (logged s)" "ind s ip"] c1 [of "logged s" "bmap_block s"]
      by (simp add: cost_def)
  qed
qed

text \<open>Another file, with blocks of its own.\<close>

definition other_file :: "fsys \<Rightarrow> nat \<Rightarrow> nat \<Rightarrow> bool" where
  "other_file s ip jp \<longleftrightarrow> jp \<noteq> ip \<and> file_inv s jp \<and>
     (\<forall>j\<le>MAXFILE. \<forall>k\<le>MAXFILE. bptr s jp j = bptr s ip k \<longrightarrow> bptr s jp j = 0)"

lemma fs_write_other:
  assumes w: "fs_write s ip off src t" and o: "other_file s ip jp" and ok: "fs_ok s" "file_ok s ip"
  shows "contents t jp = contents s jp"
proof -
  have I: "jp \<noteq> ip" "file_inv s jp" and disj: "\<forall>j\<le>MAXFILE. \<forall>k\<le>MAXFILE. bptr s jp j = bptr s ip k \<longrightarrow> bptr s jp j = 0"
    using o by (simp_all add: other_file_def)
  note J = file_invD [OF I(2)]
  have keep: "V t (bptr s jp j) = V s (bptr s jp j)" if j: "j \<le> MAXFILE" "bptr s jp j \<noteq> 0" for j
  proof -
    have own: "owned s (bptr s jp j)" by (rule file_okD(5) [OF J(3) j])
    then have "bptr s jp j \<noteq> iblock s ip" using iblock_facts(5) [OF ok] by (auto simp: owned_def)
    moreover have "\<forall>k\<le>MAXFILE. bptr s jp j \<noteq> bptr s ip k" using disj j by blast
    ultimately show ?thesis using w ownedD [OF own] by (simp add: fs_write_def)
  qed
  from w obtain a z where "fs_inodes t = upd_at ip (\<lambda>x. x\<lparr>ip_addrs := a, ip_size := z\<rparr>) (fs_inodes s)" unfolding fs_write_def by blast
  then have it: "inode_of t jp = inode_of s jp" using I(1) file_okD(1) [OF J(3)] by (simp add: nth_upd_at)
  have b: "blk t jp = blk s jp" using blk_cong(1) [of t jp s] it keep [of MAXFILE] by simp
  show ?thesis unfolding contents_def it
  proof (rule map_cong [OF refl])
    fix k assume "k \<in> set [0..<fsize s jp]"
    then have k: "k < fsize s jp" by simp
    have m: "k div BSIZE < MAXFILE" using k J(6) by (intro div_MAXFILE) simp
    show "fbyte t jp k = fbyte s jp k"
      using keep [of "k div BSIZE"] J(7) [OF k] m by (simp add: fbyte_def b bptr_blk)
  qed
qed

text \<open>
  C4: Files are lists of bytes. For a file or directory with a place for the write in the file system and in the log, \<open>writei\<close>
  at an offset up to the size returns the number of bytes and puts them into the contents, growing the file if they
  reach beyond its end; it keeps the file well formed, leaves every file with other blocks as it was, and any
  later \<open>readi\<close> returns the bytes of the new contents at its offset, as many as there are.
\<close>

theorem files_are_byte_lists:
  assumes inv: "file_inv s ip" and n: "unat off \<le> fsize s ip" "unat off + length src \<le> MAXFILE * BSIZE"
    and room: "nblocks (unat off) (length src) \<le> avail s ip" "card (logged s) + nblocks (unat off) (length src) + 3 \<le> LOGMAX"
  shows "\<exists>t. writei D ip src off s = Ok (int (length src), t) \<and> file_inv t ip \<and>
    contents t ip = take (unat off) (contents s ip) @ src @ drop (unat off + length src) (contents s ip) \<and>
    (\<forall>jp. other_file s ip jp \<longrightarrow> contents t jp = contents s jp) \<and>
    (\<forall>p k. unat p \<le> fsize t ip \<and> unat p + unat k < 2 ^ 32 \<longrightarrow>
      (\<exists>u. readi D ip p k t = Ok (int (min (unat k) (fsize t ip - unat p)), take (unat k) (drop (unat p) (contents t ip)), u) \<and>
        file_inv u ip \<and> contents u ip = contents t ip))"
proof -
  have "cost s ip + nblocks (unat off) (length src) + 1 \<le> LOGMAX" using cost_le [of s ip] room(2) by simp
  from writei_law [OF inv n room(1) this] obtain t where
    t: "writei D ip src off s = Ok (int (length src), t)" "fs_write s ip (unat off) src t" by blast
  then have ti: "file_inv t ip" and tc: "contents t ip = put_bytes (unat off) src (contents s ip)" by (simp_all add: fs_write_def)
  have rd: "\<exists>u. readi D ip p k t = Ok (int (min (unat k) (fsize t ip - unat p)), take (unat k) (drop (unat p) (contents t ip)), u) \<and>
        file_inv u ip \<and> contents u ip = contents t ip" if "unat p \<le> fsize t ip" "unat p + unat k < 2 ^ 32" for p k
  proof -
    from readi_law [OF ti that] obtain u where "readi D ip p k t =
        Ok (int (min (unat k) (fsize t ip - unat p)), take (unat k) (drop (unat p) (contents t ip)), u)" "file_inv u ip" "same_fs t u" "V u = V t"
      by blast
    with same_files(2) [OF ti] file_invD(1) show ?thesis by blast
  qed
  show ?thesis
    using t(1) ti tc rd fs_write_other [OF t(2) _ file_invD(2,3) [OF inv]] by (intro exI [of _ t]) (simp add: put_bytes_def)
qed

text \<open>
  C28: A piece of \<open>filewrite\<close> fits into a transaction. However a write of at most \<open>((MAXOPBLOCKS-1-1-2)/2)*512\<close> bytes lies
  on the blocks of a file, and whatever blocks, indirect block, bitmap and inode it changes, an empty log takes it, with
  at most \<open>MAXOPBLOCKS\<close> blocks.
\<close>

theorem filewrite_piece_fits:
  assumes inv: "file_inv s ip" and n: "unat off \<le> fsize s ip" "unat off + length src \<le> MAXFILE * BSIZE" and len: "length src \<le> write_max"
    and room: "4 \<le> avail s ip" and e: "logged s = {}"
  shows "\<exists>t. writei D ip src off s = Ok (int (length src), t) \<and> int (card (logged t)) \<le> MAXOPBLOCKS"
proof -
  have w: "length src \<le> 1536" using len by (simp add: write_max_def MAXOPBLOCKS_def)
  have "nblocks (unat off) (length src) \<le> 4"
  proof (cases "length src = 0")
    case False
    have "(unat off + length src - 1) div 512 \<le> (unat off + 512 * 3) div 512" using w by (intro div_le_mono) simp
    also have "\<dots> = unat off div 512 + 3" using div_mult_self2 [of 512 "unat off" 3] by simp
    finally show ?thesis using False by (simp add: nblocks_def BSIZE_def)
  qed (simp add: nblocks_def)
  moreover have "cost s ip \<le> 2" using cost_le [of s ip] e by simp
  ultimately have "nblocks (unat off) (length src) \<le> avail s ip" "cost s ip + nblocks (unat off) (length src) + 1 \<le> LOGMAX"
    "cost s ip + nblocks (unat off) (length src) + 1 \<le> 10" using room by (simp_all add: LOGMAX_def)
  note k = this
  from writei_law [OF inv n k(1,2), of D] obtain t where t: "writei D ip src off s = Ok (int (length src), t)"
      "card (logged t) \<le> cost s ip + nblocks (unat off) (length src) + 1" by blast
  have "int (card (logged t)) \<le> MAXOPBLOCKS" using t(2) k(3) by (simp add: MAXOPBLOCKS_def)
  with t(1) show ?thesis by blast
qed

section \<open>A file system with the layout of \<open>mkfs\<close>\<close>

text \<open>The superblock is the one that \<open>mkfs\<close> writes; the first 64 blocks are in use.\<close>

definition demo_image :: "uint \<Rightarrow> byte list" where
  "demo_image b = (if b = 58 then replicate 8 (- 1) @ replicate 504 0 else replicate BSIZE 0)"

definition demo_fs :: "short \<Rightarrow> fsys" where
  "demo_fs type = \<lparr>fs_sb = mk_sb, fs_log = log_start\<lparr>lg_start := 2, lg_size := 30, lg_dev := 1, lg_outstanding := 1\<rparr>,
     fs_io = binit 7 demo_image 4000,
     fs_inodes = [inode_zero\<lparr>ip_dev := 1, ip_inum := 1, ip_ref := 1, ip_valid := True, ip_type := type, ip_nlink := 1\<rparr>]\<rparr>"

definition no_devices :: devsw where
  "no_devices = \<lparr>d_read = (\<lambda>_. None), d_write = (\<lambda>_. None)\<rparr>"

lemma demo_cache: "V (demo_fs type) = demo_image" "H (demo_fs type) = Map.empty" "cache_inv (fs_io (demo_fs type))"
  "dirty_blocks (fs_io (demo_fs type)) = {}" "disk_size (demo_fs type) = 4000" "io_disk (fs_io (demo_fs type)) = demo_image"
proof -
  have len: "\<forall>b < (4000::uint). length (demo_image b) = BSIZE" by (simp add: demo_image_def BSIZE_def)
  have io: "fs_io (demo_fs type) = binit 7 demo_image 4000" by (simp add: demo_fs_def)
  note q = binit_quiet [OF len, of 7]
  show "V (demo_fs type) = demo_image" "dirty_blocks (fs_io (demo_fs type)) = {}" unfolding io by (rule q)+
  show "H (demo_fs type) = Map.empty" "cache_inv (fs_io (demo_fs type))" using q(1) unfolding io bc.quiet_def by blast+
  show "disk_size (demo_fs type) = 4000" "io_disk (fs_io (demo_fs type)) = demo_image" unfolding io by (simp_all add: binit_def)
qed

lemma demo_fields: "fs_sb (demo_fs type) = mk_sb" "logged (demo_fs type) = {}"
  "b \<in> log_blocks (demo_fs type) \<longleftrightarrow> 2 \<le> unat b \<and> unat b < 32"
  "fs_inodes (demo_fs type) = [inode_zero\<lparr>ip_dev := 1, ip_inum := 1, ip_ref := 1, ip_valid := True, ip_type := type, ip_nlink := 1\<rparr>]"
  by (simp_all add: demo_fs_def homes_def log_start_def log_area_def)

lemma demo_txn: "txn (demo_fs type)"
proof -
  have "log_ok (fs_log (demo_fs type)) 4000" "1 \<le> lg_outstanding (fs_log (demo_fs type))" "30 \<le> lg_size (fs_log (demo_fs type))"
    by (simp_all add: demo_fs_def log_ok_def homes_def log_start_def LOGSIZE_def)
  then show ?thesis unfolding txn_def demo_cache(1,4-6) demo_fields using demo_cache(3) [of type] by simp
qed

lemma demo_bits: "bit_free (demo_image 58) n \<longleftrightarrow> 64 \<le> n" if "n < 4096"
proof -
  have "demo_image 58 ! (n div 8) = (if n < 64 then - 1 else 0)"
    using that by (auto simp: demo_image_def nth_append)
  then show ?thesis by (auto simp: bit_free_iff)
qed

lemma demo_unused: "unused (demo_fs type) = {b. 64 \<le> b \<and> b < 4000}"
proof (rule set_eqI)
  fix b :: uint
  have "unat b < 4096" if "b < 4000" using that by (simp add: word_less_nat_alt)
  then show "b \<in> unused (demo_fs type) \<longleftrightarrow> b \<in> {b. 64 \<le> b \<and> b < 4000}"
    by (auto simp: unused_def demo_fields demo_cache mk_sb_fields demo_bits word_le_nat_alt)
qed

lemma demo_inode_blocks: "b \<in> inode_blocks (demo_fs type) \<Longrightarrow> 32 \<le> unat b \<and> unat b < 57"
  using iblock_place(2,3) by (auto simp: inode_blocks_def demo_fields mk_sb_fields NINODES_def word_less_nat_alt)

lemma demo_fs_ok: "fs_ok (demo_fs type)"
proof -
  have ib: "\<not> (2 \<le> unat b \<and> unat b < 32) \<and> b < 4000" if "b \<in> inode_blocks (demo_fs type)" for b
    using demo_inode_blocks [OF that] by (simp add: word_less_nat_alt)
  have "data_block (demo_fs type) b" if "64 \<le> b" "b < 4000" for b
    using that demo_inode_blocks [of b type] unfolding data_block_def demo_fields
    by (auto simp: mk_sb_fields word_le_nat_alt word_less_nat_alt)
  moreover have "small_fs (demo_fs type)"
    by (simp add: small_fs_def demo_fields demo_cache mk_sb_fields BPB_def)
  moreover have "58 \<notin> inode_blocks (demo_fs type)" using demo_inode_blocks [of 58 type] by auto
  ultimately show ?thesis unfolding fs_ok_def demo_unused demo_cache demo_fields using ib by (simp add: mk_sb_fields)
qed

lemma demo_bptrs: "bptr (demo_fs type) 0 k = 0" if "k \<le> MAXFILE"
  using that by (auto simp: bptr_def blk_def demo_fields inode_zero_def NDIRECT_def)

lemma demo_file: "type \<noteq> T_DEV \<Longrightarrow> file_inv (demo_fs type) 0"
  unfolding file_inv_def file_ok_def
  using demo_txn demo_fs_ok demo_bptrs by (simp add: demo_fields demo_cache mk_sb_fields inode_zero_def)

lemma demo_room: "4 \<le> avail (demo_fs type) 0" "cost (demo_fs type) 0 = 2"
proof -
  have "{64, 65, 66, 67, 68} \<subseteq> unused (demo_fs type)" unfolding demo_unused by simp
  then have "card {64 :: uint, 65, 66, 67, 68} \<le> card (unused (demo_fs type))" by (intro card_mono) simp_all
  then have "5 \<le> card (unused (demo_fs type))" by simp
  then show "4 \<le> avail (demo_fs type) 0" unfolding avail_def by (simp split: if_split) presburger
  have "ind (demo_fs type) 0 = 0" by (simp add: demo_fields inode_zero_def NDIRECT_def)
  then show "cost (demo_fs type) 0 = 2" by (simp add: cost_def demo_fields mk_sb_fields)
qed


section \<open>Witnesses\<close>

lemma balloc_bfree_witness:
  "unused (demo_fs T_FILE) \<noteq> {} \<and> (\<exists>b t u. balloc 1 (demo_fs T_FILE) = Ok (b, t) \<and> b \<in> unused (demo_fs T_FILE) \<and> bfree 1 b t = Ok u \<and>
     bitmap u = bitmap (demo_fs T_FILE))"
proof -
  have ne: "unused (demo_fs T_FILE) \<noteq> {}" unfolding demo_unused by (auto intro: exI [of _ 64])
  have "card (logged (demo_fs T_FILE)) + 2 \<le> LOGMAX" by (simp add: demo_fields LOGMAX_def)
  from balloc_bfree [OF demo_txn demo_fs_ok demo_cache(2) this] ne show ?thesis by blast
qed

lemma demo_write_ok:
  "unat (0 :: uint) \<le> fsize (demo_fs T_FILE) 0" "unat (0 :: uint) + length [104 :: byte, 105] \<le> MAXFILE * BSIZE"
  "nblocks (unat (0 :: uint)) (length [104 :: byte, 105]) \<le> avail (demo_fs T_FILE) 0"
  "card (logged (demo_fs T_FILE)) + nblocks (unat (0 :: uint)) (length [104 :: byte, 105]) + 3 \<le> LOGMAX"
proof -
  have "nblocks (unat (0 :: uint)) (length [104 :: byte, 105]) = 1" by (simp add: nblocks_def BSIZE_def)
  then show "nblocks (unat (0 :: uint)) (length [104 :: byte, 105]) \<le> avail (demo_fs T_FILE) 0"
    "card (logged (demo_fs T_FILE)) + nblocks (unat (0 :: uint)) (length [104 :: byte, 105]) + 3 \<le> LOGMAX"
    using demo_room(1) [of T_FILE] by (simp_all add: demo_fields LOGMAX_def)
qed (simp_all add: MAXFILE_BSIZE)

lemma filewrite_piece_fits_witness:
  "\<exists>t. writei no_devices 0 [104, 105] 0 (demo_fs T_FILE) = Ok (2, t) \<and> int (card (logged t)) \<le> MAXOPBLOCKS"
proof -
  have inv: "file_inv (demo_fs T_FILE) 0" by (rule demo_file) (simp add: T_FILE_def T_DEV_def)
  have "length [104 :: byte, 105] \<le> write_max" "4 \<le> avail (demo_fs T_FILE) 0" "logged (demo_fs T_FILE) = {}"
    using demo_room(1) [of T_FILE] by (simp_all add: demo_fields write_max_def MAXOPBLOCKS_def)
  from filewrite_piece_fits [OF inv demo_write_ok(1,2) this] show ?thesis by simp
qed

end
