(* ===== verification/FsDirThm.thy ===== *)
theory FsDirThm
  imports FsThm FsPath
begin

text \<open>
  xv6: a directory is a map from names to inode numbers and the offsets of their entries. \<open>dirlookup\<close> looks a name up
  in it, \<open>dirlink\<close> adds a name, and clearing an entry, as \<open>sys_unlink\<close> does, removes one.
\<close>

section \<open>The entries of a directory\<close>

definition ent :: "fsys \<Rightarrow> nat \<Rightarrow> nat \<Rightarrow> byte list" where
  "ent s dp k = take 16 (drop (16 * k) (contents s dp))"

abbreviation entries :: "fsys \<Rightarrow> nat \<Rightarrow> nat" where "entries s dp \<equiv> fsize s dp div 16"

definition used_ent :: "fsys \<Rightarrow> nat \<Rightarrow> nat \<Rightarrow> bool" where
  "used_ent s dp k \<longleftrightarrow> le16 (ent s dp k) 0 \<noteq> 0"

definition ent_name :: "fsys \<Rightarrow> nat \<Rightarrow> nat \<Rightarrow> byte list" where
  "ent_name s dp k = cstr (drop 2 (ent s dp k))"

definition name_key :: "byte list \<Rightarrow> byte list" where
  "name_key name = take DIRSIZ (cstr name)"

definition dir_map :: "fsys \<Rightarrow> nat \<Rightarrow> byte list \<Rightarrow> (short \<times> nat) option" where
  "dir_map s dp key = map_option (\<lambda>k. (le16 (ent s dp k) 0, 16 * k)) (find (\<lambda>k. used_ent s dp k \<and> ent_name s dp k = key) [0..<entries s dp])"

text \<open>A directory: whole entries, no name twice.\<close>

definition dir_inv :: "fsys \<Rightarrow> nat \<Rightarrow> bool" where
  "dir_inv s dp \<longleftrightarrow> file_inv s dp \<and> ip_type (inode_of s dp) = T_DIR \<and> fsize s dp mod 16 = 0 \<and>
     (\<forall>j<entries s dp. \<forall>k<entries s dp. used_ent s dp j \<and> used_ent s dp k \<and> ent_name s dp j = ent_name s dp k \<longrightarrow> j = k)"

lemma dir_invD:
  assumes "dir_inv s dp"
  shows "file_inv s dp" and "ip_type (inode_of s dp) = T_DIR" and "fsize s dp = 16 * entries s dp" and "entries s dp \<le> 4480"
    and "j < entries s dp \<Longrightarrow> k < entries s dp \<Longrightarrow> used_ent s dp j \<Longrightarrow> used_ent s dp k \<Longrightarrow> ent_name s dp j = ent_name s dp k \<Longrightarrow> j = k"
proof -
  show "file_inv s dp" "ip_type (inode_of s dp) = T_DIR" "fsize s dp = 16 * entries s dp"
    using assms by (auto simp: dir_inv_def)
  then show "entries s dp \<le> 4480" using file_invD(6) [of s dp] by (simp add: MAXFILE_BSIZE)
  show "j = k" if "j < entries s dp" "k < entries s dp" "used_ent s dp j" "used_ent s dp k" "ent_name s dp j = ent_name s dp k"
    using assms that unfolding dir_inv_def by blast
qed

lemma same_dir:
  assumes "dir_inv s dp" and "txn t" and "same_fs s t" and "V t = V s"
  shows "dir_inv t dp" and "ent t dp = ent s dp" and "dir_map t dp = dir_map s dp"
proof -
  note F = same_files [OF dir_invD(1) [OF assms(1)] assms(2-4)] and S = same_fsD [OF assms(3)]
  show e: "ent t dp = ent s dp" using F(2) by (simp add: ent_def fun_eq_iff)
  have u: "used_ent t dp = used_ent s dp" "ent_name t dp = ent_name s dp"
    using e by (simp_all add: used_ent_def ent_name_def fun_eq_iff)
  show "dir_inv t dp" using assms(1) F(1) S(2) unfolding dir_inv_def u by simp
  show "dir_map t dp = dir_map s dp" using S(2) by (simp add: dir_map_def e u fun_eq_iff)
qed

lemma length_ent: "fsize s dp = 16 * n \<Longrightarrow> k < n \<Longrightarrow> length (ent s dp k) = 16"
  by (simp add: ent_def)

lemma ent_match:
  assumes "fsize s dp = 16 * n" and "k < n"
  shows "namecmp name (drop 2 (ent s dp k)) = 0 \<longleftrightarrow> ent_name s dp k = name_key name"
proof -
  have "length (cstr (drop 2 (ent s dp k))) \<le> length (drop 2 (ent s dp k))" unfolding cstr_def by (rule length_takeWhile_le)
  then have "take DIRSIZ (cstr (drop 2 (ent s dp k))) = ent_name s dp k"
    using length_ent [OF assms] by (simp add: ent_name_def DIRSIZ_def)
  then show ?thesis by (auto simp: namecmp_def strncmp_zero name_key_def)
qed

lemma read_ent:
  assumes d: "dir_inv s dp" and k: "k < entries s dp"
  shows "\<exists>t. readi D dp (of_nat (16 * k)) 16 s = Ok (16, ent s dp k, t) \<and> dir_inv t dp \<and> same_fs s t \<and> V t = V s \<and> logged t = logged s"
proof -
  note I = dir_invD [OF d]
  have sz: "16 * k + 16 \<le> fsize s dp" using k I(3) by simp
  have u: "unat (of_nat (16 * k) :: uint) = 16 * k" using k I(4) by (intro unat_of_nat_32) simp
  have "unat (of_nat (16 * k) :: uint) \<le> fsize s dp" "unat (of_nat (16 * k) :: uint) + unat (16 :: uint) < 2 ^ 32"
    unfolding u using sz k I(4) by simp_all
  from readi_law [OF I(1) this, of D] obtain t where
    t: "readi D dp (of_nat (16 * k)) 16 s = Ok (int (min (unat (16 :: uint)) (fsize s dp - 16 * k)),
        take (unat (16 :: uint)) (drop (16 * k) (contents s dp)), t)" "file_inv t dp" "same_fs s t" "V t = V s" "logged t = logged s"
    unfolding u by blast
  have "int (min (unat (16 :: uint)) (fsize s dp - 16 * k)) = 16" using sz by simp
  moreover have "take (unat (16 :: uint)) (drop (16 * k) (contents s dp)) = ent s dp k" by (simp add: ent_def)
  ultimately show ?thesis using t same_dir(1) [OF d file_invD(1) [OF t(2)] t(3,4)] by auto
qed

section \<open>Looking up\<close>

definition found :: "nat \<Rightarrow> nat \<Rightarrow> fsys \<Rightarrow> short \<Rightarrow> ((nat \<times> nat) option \<times> fsys) res" where
  "found dp off s i = rbind (iget 1 (ucast i) s) (\<lambda>(ip, s). Ok (Some (ip, off), s))"

lemma dirlookup_from_law:
  "dir_inv s dp \<Longrightarrow> set ks \<subseteq> {..<entries s dp} \<Longrightarrow>
   \<exists>t. dir_inv t dp \<and> same_fs s t \<and> V t = V s \<and> logged t = logged s \<and>
     dirlookup_from D dp name (map ((*) 16) ks) s =
       (case find (\<lambda>k. used_ent s dp k \<and> ent_name s dp k = name_key name) ks of None \<Rightarrow> Ok (None, t)
        | Some k \<Rightarrow> found dp (16 * k) t (le16 (ent s dp k) 0))"
proof (induction ks arbitrary: s)
  case Nil
  then show ?case by (intro exI [of _ s]) simp
next
  case (Cons k ks)
  have k: "k < entries s dp" using Cons.prems(2) by simp
  note I = dir_invD [OF Cons.prems(1)]
  from read_ent [OF Cons.prems(1) k, of D] obtain u where
    u: "readi D dp (of_nat (16 * k)) 16 s = Ok (16, ent s dp k, u)" "dir_inv u dp" "same_fs s u" "V u = V s" "logged u = logged s" by blast
  note m = ent_match [OF I(3) k, of name]
  have e: "ent u dp = ent s dp" "fs_inodes u = fs_inodes s"
    using same_dir(2) [OF Cons.prems(1) _ u(3,4)] file_invD(1) [OF dir_invD(1) [OF u(2)]] same_fsD(2) [OF u(3)] by auto
  then have ue: "used_ent u dp = used_ent s dp" "ent_name u dp = ent_name s dp" by (simp_all add: used_ent_def ent_name_def fun_eq_iff)
  have dev: "ip_dev (inode_of u dp) = 1" using file_okD(2) [OF file_invD(3) [OF dir_invD(1) [OF u(2)]]] .
  show ?case
  proof (cases "used_ent s dp k \<and> ent_name s dp k = name_key name")
    case True
    then have "dirlookup_from D dp name (map ((*) 16) (k # ks)) s = found dp (16 * k) u (le16 (ent s dp k) 0)"
      using u(1) m dev by (simp add: used_ent_def found_def)
    with True u show ?thesis by (intro exI [of _ u]) simp
  next
    case False
    have "set ks \<subseteq> {..<entries u dp}" using Cons.prems(2) e(2) by simp
    from Cons.IH [OF u(2) this] obtain t where t: "dir_inv t dp" "same_fs u t" "V t = V u" "logged t = logged u"
        "dirlookup_from D dp name (map ((*) 16) ks) u =
           (case find (\<lambda>k. used_ent u dp k \<and> ent_name u dp k = name_key name) ks of None \<Rightarrow> Ok (None, t)
            | Some k \<Rightarrow> found dp (16 * k) t (le16 (ent u dp k) 0))" by blast
    have "dirlookup_from D dp name (map ((*) 16) (k # ks)) s = dirlookup_from D dp name (map ((*) 16) ks) u"
      using u(1) m False by (auto simp: used_ent_def)
    moreover have "find (\<lambda>k. used_ent s dp k \<and> ent_name s dp k = name_key name) (k # ks) =
        find (\<lambda>k. used_ent s dp k \<and> ent_name s dp k = name_key name) ks"
      by (simp only: find.simps False if_False)
    ultimately show ?thesis using t u same_fs_trans [OF u(3) t(2)] unfolding ue e(1) by (intro exI [of _ t]) simp
  qed
qed

lemma entry_offs_dir: "fsize s dp = 16 * n \<Longrightarrow> entry_offs (ip_size (inode_of s dp)) = map ((*) 16) [0..<n]"
proof -
  assume "fsize s dp = 16 * n"
  then have "(fsize s dp + 15) div 16 = n" by simp
  then show ?thesis by (simp add: entry_offs_def)
qed

lemma dirlookup_law:
  assumes d: "dir_inv s dp"
  shows "\<exists>t. dir_inv t dp \<and> same_fs s t \<and> V t = V s \<and> logged t = logged s \<and>
    dirlookup D dp name s = (case dir_map s dp (name_key name) of None \<Rightarrow> Ok (None, t) | Some (i, off) \<Rightarrow> found dp off t i)"
proof -
  note I = dir_invD [OF d]
  have "set [0..<entries s dp] \<subseteq> {..<entries s dp}" by auto
  from dirlookup_from_law [OF d this, of D name] obtain t where t: "dir_inv t dp" "same_fs s t" "V t = V s" "logged t = logged s"
      "dirlookup_from D dp name (map ((*) 16) [0..<entries s dp]) s =
       (case find (\<lambda>k. used_ent s dp k \<and> ent_name s dp k = name_key name) [0..<entries s dp] of None \<Rightarrow> Ok (None, t)
        | Some k \<Rightarrow> found dp (16 * k) t (le16 (ent s dp k) 0))" by blast
  have "dirlookup D dp name s = dirlookup_from D dp name (map ((*) 16) [0..<entries s dp]) s"
    using I(2) entry_offs_dir [OF I(3)] by (simp add: dirlookup_def)
  with t have "dirlookup D dp name s = (case dir_map s dp (name_key name) of None \<Rightarrow> Ok (None, t) | Some (i, off) \<Rightarrow> found dp off t i)"
    unfolding dir_map_def by (cases "find (\<lambda>k. used_ent s dp k \<and> ent_name s dp k = name_key name) [0..<entries s dp]") simp_all
  with t show ?thesis by blast
qed


section \<open>Writing an entry\<close>

lemma dir_map_Some:
  assumes "dir_inv s dp"
  shows "dir_map s dp key = Some e \<longleftrightarrow> (\<exists>k<entries s dp. used_ent s dp k \<and> ent_name s dp k = key \<and> e = (le16 (ent s dp k) 0, 16 * k))"
    (is "_ \<longleftrightarrow> ?R")
proof
  assume "dir_map s dp key = Some e"
  then obtain k where k: "find (\<lambda>k. used_ent s dp k \<and> ent_name s dp k = key) [0..<entries s dp] = Some k" "e = (le16 (ent s dp k) 0, 16 * k)"
    by (auto simp: dir_map_def)
  then show ?R using find_SomeD [OF k(1)] by auto
next
  assume ?R
  then obtain k where k: "k < entries s dp" "used_ent s dp k" "ent_name s dp k = key" "e = (le16 (ent s dp k) 0, 16 * k)" by blast
  then have "find (\<lambda>k. used_ent s dp k \<and> ent_name s dp k = key) [0..<entries s dp] \<noteq> None" by (auto simp: find_None_iff)
  then obtain j where j: "find (\<lambda>k. used_ent s dp k \<and> ent_name s dp k = key) [0..<entries s dp] = Some j" by blast
  then have "j = k" using find_SomeD [OF j] k dir_invD(5) [OF assms, of j k] by auto
  with j k(4) show "dir_map s dp key = Some e" by (simp add: dir_map_def)
qed

lemma map_eqI: "(\<And>x e. m x = Some e \<longleftrightarrow> m' x = Some e) \<Longrightarrow> m = m'"
  by (rule ext) (metis option.exhaust)

text \<open>Room for one more entry.\<close>

definition dir_room :: "fsys \<Rightarrow> nat \<Rightarrow> bool" where
  "dir_room s dp \<longleftrightarrow> 1 \<le> avail s dp \<and> card (logged s) + 4 \<le> LOGMAX"

lemma take_drop_left: "i + n \<le> length xs \<Longrightarrow> take n (drop i (xs @ ys)) = take n (drop i xs)"
  by simp

lemma take_drop_take: "i + n \<le> m \<Longrightarrow> take n (drop i (take m xs)) = take n (drop i xs)"
  by (simp add: drop_take min_absorb1)

lemma nblocks_entry: "nblocks (16 * k) 16 = 1"
proof -
  have "(16 * k + 15) div 512 = (16 * k + 15) div 16 div 32" by (simp add: div_mult2_eq [symmetric])
  also have "(16 * k + 15) div 16 = k" by simp
  also have "k div 32 = 16 * k div 512" using div_mult_mult1 [of 16 k 32] by simp
  finally show ?thesis by (simp add: nblocks_def BSIZE_def)
qed

lemma write_ent:
  assumes d: "dir_inv s dp" and k: "k \<le> entries s dp" "16 * k + 16 \<le> MAXFILE * BSIZE" and room: "dir_room s dp" and de: "length de = 16"
  shows "\<exists>t. writei D dp de (of_nat (16 * k)) s = Ok (16, t) \<and> fs_write s dp (16 * k) de t \<and> ip_type (inode_of t dp) = T_DIR \<and>
    fsize t dp = 16 * max (entries s dp) (k + 1) \<and>
    (\<forall>j<max (entries s dp) (k + 1). ent t dp j = (if j = k then de else ent s dp j)) \<and>
    avail s dp \<le> avail t dp + 1 \<and> card (logged t) \<le> card (logged s) + 4"
proof -
  note I = dir_invD [OF d]
  have u: "unat (of_nat (16 * k) :: uint) = 16 * k" using k I(4) by (intro unat_of_nat_32) simp
  have c: "cost s dp + 1 + 1 \<le> LOGMAX" using cost_le [of s dp] room by (simp add: dir_room_def)
  have "unat (of_nat (16 * k) :: uint) \<le> fsize s dp" "unat (of_nat (16 * k) :: uint) + length de \<le> MAXFILE * BSIZE"
    "nblocks (unat (of_nat (16 * k) :: uint)) (length de) \<le> avail s dp"
    "cost s dp + nblocks (unat (of_nat (16 * k) :: uint)) (length de) + 1 \<le> LOGMAX"
    unfolding u de nblocks_entry using k I(3) room c by (simp_all add: dir_room_def)
  from writei_law [OF I(1) this, of D] obtain t where t: "writei D dp de (of_nat (16 * k)) s = Ok (int 16, t)"
      "fs_write s dp (16 * k) de t" "avail s dp \<le> avail t dp + 1" "card (logged t) \<le> cost s dp + 1 + 1"
    unfolding u de nblocks_entry by blast
  have ct: "contents t dp = take (16 * k) (contents s dp) @ de @ drop (16 * k + 16) (contents s dp)"
    using t(2) de by (simp add: fs_write_def put_bytes_def)
  have "fsize t dp = length (contents t dp)" by simp
  also have "\<dots> = 16 * max (entries s dp) (k + 1)" unfolding ct using k I(3) de by (simp add: max_def)
  finally have sz: "fsize t dp = 16 * max (entries s dp) (k + 1)" .
  have lk: "length (take (16 * k) (contents s dp)) = 16 * k" using k I(3) by simp
  have ents: "ent t dp j = (if j = k then de else ent s dp j)" if j: "j < max (entries s dp) (k + 1)" for j
  proof -
    consider "j < k" | "j = k" | "k < j" by linarith
    then show ?thesis
    proof cases
      case 1
      then have le: "16 * j + 16 \<le> 16 * k" by simp
      have "ent t dp j = take 16 (drop (16 * j) (take (16 * k) (contents s dp)))"
        unfolding ent_def ct by (rule take_drop_left) (use lk le in simp)
      also have "\<dots> = take 16 (drop (16 * j) (contents s dp))" by (rule take_drop_take [OF le])
      finally show ?thesis using 1 by (simp add: ent_def)
    next
      case 2
      then show ?thesis using lk de unfolding ent_def ct by simp
    next
      case 3
      then have "16 * j - 16 * k - 16 + (16 * k + 16) = 16 * j" by simp
      then show ?thesis using 3 lk de unfolding ent_def ct by (simp add: add.commute)
    qed
  qed
  from t(2) obtain a z where "fs_inodes t = upd_at dp (\<lambda>x. x\<lparr>ip_addrs := a, ip_size := z\<rparr>) (fs_inodes s)" unfolding fs_write_def by blast
  then have "ip_type (inode_of t dp) = T_DIR"
    using I(2) file_okD(1) [OF file_invD(3) [OF I(1)]] by (simp add: nth_upd_at)
  with t sz ents de cost_le [of s dp] show ?thesis by (intro exI [of _ t]) simp
qed

lemma same_except:
  assumes "\<forall>j<n. ent t dp j = (if j = k then de else ent s dp j)" and "j < n" and "j \<noteq> k"
  shows "ent t dp j = ent s dp j" and "used_ent t dp j = used_ent s dp j" and "ent_name t dp j = ent_name s dp j"
  using assms by (simp_all add: used_ent_def ent_name_def)

lemma put_entry:
  assumes d: "dir_inv s dp" and k: "k \<le> entries s dp" and free: "k < entries s dp \<longrightarrow> \<not> used_ent s dp k" and f: "file_inv t dp"
    and ty: "ip_type (inode_of t dp) = T_DIR" and sz: "fsize t dp = 16 * max (entries s dp) (k + 1)"
    and e: "\<forall>j<max (entries s dp) (k + 1). ent t dp j = (if j = k then de else ent s dp j)"
    and de: "le16 de 0 \<noteq> 0" "dir_map s dp (cstr (drop 2 de)) = None"
  shows "dir_inv t dp" and "dir_map t dp = (dir_map s dp)(cstr (drop 2 de) \<mapsto> (le16 de 0, 16 * k))"
proof -
  let ?n = "max (entries s dp) (k + 1)" and ?K = "cstr (drop 2 de)"
  note E = same_except [OF e]
  have n: "entries t dp = ?n" using sz by simp
  have ek: "used_ent t dp k" "ent_name t dp k = ?K" "ent t dp k = de" using e de(1) by (simp_all add: used_ent_def ent_name_def)
  have new: "ent_name s dp j \<noteq> ?K" if "j < entries s dp" "used_ent s dp j" for j
    using that de(2) dir_map_Some [OF d, of ?K] by auto
  have lt: "j < entries s dp" if "j < ?n" "j \<noteq> k" for j using that k by linarith
  show inv: "dir_inv t dp" unfolding dir_inv_def n
  proof (intro conjI allI impI)
    show "file_inv t dp" "ip_type (inode_of t dp) = T_DIR" "fsize t dp mod 16 = 0" using f ty sz by simp_all
    fix i j assume ij: "i < ?n" "j < ?n" "used_ent t dp i \<and> used_ent t dp j \<and> ent_name t dp i = ent_name t dp j"
    show "i = j"
    proof (cases "i = k \<or> j = k")
      case True
      then show ?thesis using ij E [of i] E [of j] ek new lt by metis
    next
      case False
      then show ?thesis using ij E [of i] E [of j] dir_invD(5) [OF d lt lt, of i j] by simp
    qed
  qed
  show "dir_map t dp = (dir_map s dp)(?K \<mapsto> (le16 de 0, 16 * k))"
  proof (rule map_eqI)
    fix x y
    show "dir_map t dp x = Some y \<longleftrightarrow> ((dir_map s dp)(?K \<mapsto> (le16 de 0, 16 * k))) x = Some y"
    proof (cases "x = ?K")
      case True
      have "dir_map t dp ?K = Some (le16 de 0, 16 * k)"
        unfolding dir_map_Some [OF inv] n using ek by (intro exI [of _ k]) simp
      with True show ?thesis by auto
    next
      case False
      have "(\<exists>j<?n. used_ent t dp j \<and> ent_name t dp j = x \<and> y = (le16 (ent t dp j) 0, 16 * j)) \<longleftrightarrow>
          (\<exists>j<entries s dp. used_ent s dp j \<and> ent_name s dp j = x \<and> y = (le16 (ent s dp j) 0, 16 * j))"
      proof
        assume "\<exists>j<?n. used_ent t dp j \<and> ent_name t dp j = x \<and> y = (le16 (ent t dp j) 0, 16 * j)"
        then obtain j where j: "j < ?n" "used_ent t dp j" "ent_name t dp j = x" "y = (le16 (ent t dp j) 0, 16 * j)" by blast
        then have "j \<noteq> k" using False ek(2) by auto
        with j E [of j] lt [of j] show "\<exists>j<entries s dp. used_ent s dp j \<and> ent_name s dp j = x \<and> y = (le16 (ent s dp j) 0, 16 * j)"
          by (intro exI [of _ j]) simp
      next
        assume "\<exists>j<entries s dp. used_ent s dp j \<and> ent_name s dp j = x \<and> y = (le16 (ent s dp j) 0, 16 * j)"
        then obtain j where j: "j < entries s dp" "used_ent s dp j" "ent_name s dp j = x" "y = (le16 (ent s dp j) 0, 16 * j)" by blast
        then have "j \<noteq> k" "j < ?n" using free by auto
        with j E [of j] show "\<exists>j<?n. used_ent t dp j \<and> ent_name t dp j = x \<and> y = (le16 (ent t dp j) 0, 16 * j)"
          by (intro exI [of _ j]) simp
      qed
      with False show ?thesis unfolding dir_map_Some [OF inv] n using dir_map_Some [OF d, of x y] by simp
    qed
  qed
qed

lemma clear_entry:
  assumes d: "dir_inv s dp" and k: "k < entries s dp" "used_ent s dp k" and f: "file_inv t dp"
    and ty: "ip_type (inode_of t dp) = T_DIR" and sz: "fsize t dp = 16 * entries s dp"
    and e: "\<forall>j<entries s dp. ent t dp j = (if j = k then replicate 16 0 else ent s dp j)"
  shows "dir_inv t dp" and "dir_map t dp = (dir_map s dp)(ent_name s dp k := None)"
proof -
  note E = same_except [OF e]
  have n: "entries t dp = entries s dp" using sz by simp
  have ek: "\<not> used_ent t dp k" using e k(1) by (simp add: used_ent_def le16_def)
  show inv: "dir_inv t dp" unfolding dir_inv_def n
  proof (intro conjI allI impI)
    show "file_inv t dp" "ip_type (inode_of t dp) = T_DIR" "fsize t dp mod 16 = 0" using f ty sz by simp_all
    fix i j assume ij: "i < entries s dp" "j < entries s dp" "used_ent t dp i \<and> used_ent t dp j \<and> ent_name t dp i = ent_name t dp j"
    then have "i \<noteq> k" "j \<noteq> k" using ek by auto
    then show "i = j" using ij E [of i] E [of j] dir_invD(5) [OF d ij(1,2)] by simp
  qed
  show "dir_map t dp = (dir_map s dp)(ent_name s dp k := None)"
  proof (rule map_eqI)
    fix x y
    have "(\<exists>j<entries s dp. used_ent t dp j \<and> ent_name t dp j = x \<and> y = (le16 (ent t dp j) 0, 16 * j)) \<longleftrightarrow>
        x \<noteq> ent_name s dp k \<and> (\<exists>j<entries s dp. used_ent s dp j \<and> ent_name s dp j = x \<and> y = (le16 (ent s dp j) 0, 16 * j))"
    proof
      assume "\<exists>j<entries s dp. used_ent t dp j \<and> ent_name t dp j = x \<and> y = (le16 (ent t dp j) 0, 16 * j)"
      then obtain j where j: "j < entries s dp" "used_ent t dp j" "ent_name t dp j = x" "y = (le16 (ent t dp j) 0, 16 * j)" by blast
      then have jk: "j \<noteq> k" using ek by auto
      then have "ent_name s dp j \<noteq> ent_name s dp k" using dir_invD(5) [OF d j(1) k(1)] j E [of j] k(2) by auto
      with jk j E [of j] show "x \<noteq> ent_name s dp k \<and> (\<exists>j<entries s dp. used_ent s dp j \<and> ent_name s dp j = x \<and> y = (le16 (ent s dp j) 0, 16 * j))"
        by auto
    next
      assume "x \<noteq> ent_name s dp k \<and> (\<exists>j<entries s dp. used_ent s dp j \<and> ent_name s dp j = x \<and> y = (le16 (ent s dp j) 0, 16 * j))"
      then obtain j where j: "x \<noteq> ent_name s dp k" "j < entries s dp" "used_ent s dp j" "ent_name s dp j = x" "y = (le16 (ent s dp j) 0, 16 * j)"
        by blast
      then have "j \<noteq> k" by auto
      with j E [of j] show "\<exists>j<entries s dp. used_ent t dp j \<and> ent_name t dp j = x \<and> y = (le16 (ent t dp j) 0, 16 * j)"
        by (intro exI [of _ j]) simp
    qed
    then show "dir_map t dp x = Some y \<longleftrightarrow> ((dir_map s dp)(ent_name s dp k := None)) x = Some y"
      unfolding dir_map_Some [OF inv] n using dir_map_Some [OF d, of x y] by simp
  qed
qed


section \<open>Adding a name\<close>

lemma dir_slot_law:
  "dir_inv s dp \<Longrightarrow> set ks \<subseteq> {..<entries s dp} \<Longrightarrow>
   \<exists>t. dir_inv t dp \<and> same_fs s t \<and> V t = V s \<and> logged t = logged s \<and>
     dir_slot D dp (map ((*) 16) ks) after s = Ok (case find (\<lambda>k. \<not> used_ent s dp k) ks of None \<Rightarrow> after | Some k \<Rightarrow> 16 * k, t)"
proof (induction ks arbitrary: s)
  case Nil
  then show ?case by (intro exI [of _ s]) simp
next
  case (Cons k ks)
  have k: "k < entries s dp" using Cons.prems(2) by simp
  from read_ent [OF Cons.prems(1) k, of D] obtain u where
    u: "readi D dp (of_nat (16 * k)) 16 s = Ok (16, ent s dp k, u)" "dir_inv u dp" "same_fs s u" "V u = V s" "logged u = logged s" by blast
  have e: "ent u dp = ent s dp" "fs_inodes u = fs_inodes s"
    using same_dir(2) [OF Cons.prems(1) _ u(3,4)] file_invD(1) [OF dir_invD(1) [OF u(2)]] same_fsD(2) [OF u(3)] by auto
  then have ue: "used_ent u dp = used_ent s dp" by (simp add: used_ent_def fun_eq_iff)
  show ?case
  proof (cases "used_ent s dp k")
    case False
    then show ?thesis using u by (intro exI [of _ u]) (simp add: used_ent_def)
  next
    case True
    have "set ks \<subseteq> {..<entries u dp}" using Cons.prems(2) e(2) by simp
    from Cons.IH [OF u(2) this] obtain t where t: "dir_inv t dp" "same_fs u t" "V t = V u" "logged t = logged u"
        "dir_slot D dp (map ((*) 16) ks) after u = Ok (case find (\<lambda>k. \<not> used_ent s dp k) ks of None \<Rightarrow> after | Some k \<Rightarrow> 16 * k, t)"
      unfolding ue by blast
    have "dir_slot D dp (map ((*) 16) (k # ks)) after s = dir_slot D dp (map ((*) 16) ks) after u"
      using u(1) True by (simp add: used_ent_def)
    with t u True same_fs_trans [OF u(3) t(2)] show ?thesis by (intro exI [of _ t]) simp
  qed
qed

lemma le16_bytes16: "le16 (bytes16 x @ ys) 0 = x"
proof -
  have b: "unat (ucast (y :: short) :: byte) = unat y mod 256" for y by (simp add: unsigned_ucast_eq take_bit_eq_mod)
  have y: "unat y < 256" for y :: byte using unsigned_less [of y] by simp
  have u: "unat (ucast y :: short) = unat y" for y :: byte using y [of y] by (simp add: unsigned_ucast_eq take_bit_eq_mod)
  have x: "unat x < 65536" using unsigned_less [of x] by simp
  then have q: "unat x div 256 < 256" by simp
  have "unat (le16 (bytes16 x @ ys) 0) = unat x mod 256 + 256 * (unat x div 256 mod 256)"
    using x by (simp add: le16_def bytes16_def unat_word_ariths u b unat_drop_bit_eq drop_bit_eq_div unat_div_distrib)
  also have "\<dots> = unat x" using q by simp
  finally show ?thesis unfolding word_unat_eq_iff .
qed

lemma dirlink_law:
  assumes d: "dir_inv s dp" and room: "dir_room s dp" "16 * entries s dp + 16 \<le> MAXFILE * BSIZE"
    and nm: "dir_map s dp (name_key name) = None" and i: "(ucast inum :: short) \<noteq> 0"
  shows "\<exists>t k. dirlink D dp name inum s = Ok (0, t) \<and> dir_inv t dp \<and> k < entries t dp \<and> used_ent t dp k \<and> ent_name t dp k = name_key name \<and>
    dir_map t dp = (dir_map s dp)(name_key name \<mapsto> (ucast inum, 16 * k)) \<and>
    (\<forall>jp. other_file s dp jp \<longrightarrow> contents t jp = contents s jp) \<and> avail s dp \<le> avail t dp + 1 \<and> card (logged t) \<le> card (logged s) + 4"
proof -
  note I = dir_invD [OF d]
  let ?n = "entries s dp" and ?de = "bytes16 (ucast inum) @ strncpy name DIRSIZ"
  from dirlookup_law [OF d, of D name] obtain u where u: "dir_inv u dp" "same_fs s u" "V u = V s" "logged u = logged s"
      "dirlookup D dp name s = Ok (None, u)" by (auto simp: nm)
  have tu: "txn u" using file_invD(1) [OF dir_invD(1) [OF u(1)]] .
  note U = same_fsD [OF u(2)] and eu = same_dir(2,3) [OF d tu u(2,3)]
  have "set [0..<?n] \<subseteq> {..<entries u dp}" using U(2) by auto
  from dir_slot_law [OF u(1) this, of D "16 * ?n"] obtain v where v: "dir_inv v dp" "same_fs u v" "V v = V u" "logged v = logged u"
      "dir_slot D dp (map ((*) 16) [0..<?n]) (16 * ?n) u =
        Ok (case find (\<lambda>k. \<not> used_ent u dp k) [0..<?n] of None \<Rightarrow> 16 * ?n | Some k \<Rightarrow> 16 * k, v)" by blast
  have tv: "txn v" using file_invD(1) [OF dir_invD(1) [OF v(1)]] .
  have sv: "same_fs s v" by (rule same_fs_trans [OF u(2) v(2)])
  have Vv: "V v = V s" using v(3) u(3) by simp
  note S = same_fsD [OF sv] and ev = same_dir(2,3) [OF d tv sv Vv] and fv = same_files(3,4) [OF I(1) tv sv Vv]
  have us: "used_ent u dp = used_ent s dp" "used_ent v dp = used_ent s dp" using eu(1) ev(1) by (simp_all add: used_ent_def fun_eq_iff)
  define k where "k = (case find (\<lambda>k. \<not> used_ent s dp k) [0..<?n] of None \<Rightarrow> ?n | Some k \<Rightarrow> k)"
  have k: "k \<le> ?n" "k < ?n \<longrightarrow> \<not> used_ent s dp k"
    unfolding k_def by (auto split: option.split dest: find_SomeD)
  have slot: "dir_slot D dp (map ((*) 16) [0..<?n]) (16 * ?n) u = Ok (16 * k, v)"
    using v(5) unfolding us k_def by (simp split: option.split)
  have nv: "entries v dp = ?n" using S(2) by simp
  have room': "dir_room v dp" "16 * k + 16 \<le> MAXFILE * BSIZE"
    using room k(1) fv S(2) v(4) u(4) by (simp_all add: dir_room_def avail_def)
  have kv: "k \<le> entries v dp" using k(1) nv by simp
  have de: "length ?de = 16" by (simp add: DIRSIZ_def)
  from write_ent [OF v(1) kv room'(2,1) de, of D] obtain t where t: "writei D dp ?de (of_nat (16 * k)) v = Ok (16, t)" "fs_write v dp (16 * k) ?de t"
      "ip_type (inode_of t dp) = T_DIR" "fsize t dp = 16 * max (entries v dp) (k + 1)"
      "\<forall>j<max (entries v dp) (k + 1). ent t dp j = (if j = k then ?de else ent v dp j)" "avail v dp \<le> avail t dp + 1"
      "card (logged t) \<le> card (logged v) + 4" by blast
  have ft: "file_inv t dp" using t(2) by (simp add: fs_write_def)
  have key: "cstr (drop 2 ?de) = name_key name" "le16 ?de 0 = ucast inum"
    by (simp_all add: cstr_strncpy name_key_def le16_bytes16)
  have fr: "k < entries v dp \<longrightarrow> \<not> used_ent v dp k" using k(2) nv us by simp
  have pre: "le16 ?de 0 \<noteq> 0" "dir_map v dp (cstr (drop 2 ?de)) = None" using i nm ev(2) key by simp_all
  note P = put_entry [OF v(1) kv fr ft t(3,4,5) pre, unfolded key ev(2)]
  have "offs = map ((*) 16) [0..<?n] \<Longrightarrow> 16 * length offs = 16 * ?n" for offs by simp
  then have r: "dirlink D dp name inum s = Ok (0, t)"
    using u(5) entry_offs_dir [OF I(3)] U(2) slot t(1) by (simp add: dirlink_def Let_def)
  have "ent t dp k = ?de" using t(5) by simp
  then have kt: "k < entries t dp" "used_ent t dp k" "ent_name t dp k = name_key name"
    using t(4) i key by (simp_all add: used_ent_def ent_name_def)
  have oth: "contents t jp = contents s jp" if o: "other_file s dp jp" for jp
  proof -
    have fj: "jp \<noteq> dp" "file_inv s jp" using o by (simp_all add: other_file_def)
    note J = same_files [OF fj(2) tv sv Vv]
    have "other_file v dp jp" using o J(1,4) fv(2) by (simp add: other_file_def)
    from fs_write_other [OF t(2) this file_invD(2,3) [OF dir_invD(1) [OF v(1)]]] J(2) show ?thesis by simp
  qed
  have "avail v dp = avail s dp" "card (logged v) = card (logged s)" using fv S(2) v(4) u(4) by (simp_all add: avail_def)
  with r P kt oth t(6,7) show ?thesis by (intro exI [of _ t] exI [of _ k]) simp
qed

text \<open>
  C5: Directories are maps. Adding a name that is not in the directory returns 0 and adds exactly that name, cut to 14 bytes, with
  its inode number; no other file changes. Looking up any name afterwards gives what the map has: nothing, or the inode that
  \<open>iget\<close> finds for the number, and the offset. Overwriting the entry at that offset with zeros, as \<open>sys_unlink\<close> does, gives the
  directory its old names back.
\<close>

theorem directories_are_maps:
  assumes d: "dir_inv s dp" and room: "2 \<le> avail s dp" "card (logged s) + 8 \<le> LOGMAX" "16 * entries s dp + 16 \<le> MAXFILE * BSIZE"
    and nm: "dir_map s dp (name_key name) = None" and i: "(ucast inum :: short) \<noteq> 0"
  shows "\<exists>t off. dirlink D dp name inum s = Ok (0, t) \<and> dir_inv t dp \<and>
    dir_map t dp = (dir_map s dp)(name_key name \<mapsto> (ucast inum, off)) \<and>
    (\<forall>jp. other_file s dp jp \<longrightarrow> contents t jp = contents s jp) \<and>
    (\<forall>nm. \<exists>u. dir_inv u dp \<and> dir_map u dp = dir_map t dp \<and> dirlookup D dp nm t =
      (case dir_map t dp (name_key nm) of None \<Rightarrow> Ok (None, u)
       | Some (i, off) \<Rightarrow> rbind (iget 1 (ucast i) u) (\<lambda>(ip, s). Ok (Some (ip, off), s)))) \<and>
    (\<exists>v. writei D dp (replicate 16 0) (of_nat off) t = Ok (16, v) \<and> dir_inv v dp \<and> dir_map v dp = dir_map s dp)"
proof -
  have "dir_room s dp" using room(1,2) by (simp add: dir_room_def)
  from dirlink_law [OF d this room(3) nm i, of D] obtain t k where t: "dirlink D dp name inum s = Ok (0, t)" "dir_inv t dp" "k < entries t dp"
      "used_ent t dp k" "ent_name t dp k = name_key name" "dir_map t dp = (dir_map s dp)(name_key name \<mapsto> (ucast inum, 16 * k))"
      "\<forall>jp. other_file s dp jp \<longrightarrow> contents t jp = contents s jp" "avail s dp \<le> avail t dp + 1" "card (logged t) \<le> card (logged s) + 4"
    by blast
  have look: "\<exists>u. dir_inv u dp \<and> dir_map u dp = dir_map t dp \<and> dirlookup D dp nm t =
      (case dir_map t dp (name_key nm) of None \<Rightarrow> Ok (None, u)
       | Some (i, off) \<Rightarrow> rbind (iget 1 (ucast i) u) (\<lambda>(ip, s). Ok (Some (ip, off), s)))" for nm
  proof -
    from dirlookup_law [OF t(2), of D nm] obtain u where u: "dir_inv u dp" "same_fs t u" "V u = V t"
        "dirlookup D dp nm t = (case dir_map t dp (name_key nm) of None \<Rightarrow> Ok (None, u) | Some (i, off) \<Rightarrow> found dp off u i)" by blast
    have "dir_map u dp = dir_map t dp" using same_dir(3) [OF t(2) file_invD(1) [OF dir_invD(1) [OF u(1)]] u(2,3)] .
    with u show ?thesis unfolding found_def by blast
  qed
  note I = dir_invD [OF t(2)]
  have "16 * k + 16 \<le> fsize t dp" using t(3) I(3) by simp
  then have k: "k \<le> entries t dp" "16 * k + 16 \<le> MAXFILE * BSIZE" using t(3) file_invD(6) [OF I(1)] by simp_all
  have rt: "dir_room t dp" using t(8,9) room by (simp add: dir_room_def)
  from write_ent [OF t(2) k rt length_replicate [of 16 "0 :: byte"], of D] obtain v where v: "writei D dp (replicate 16 0) (of_nat (16 * k)) t = Ok (16, v)"
      "fs_write t dp (16 * k) (replicate 16 0) v" "ip_type (inode_of v dp) = T_DIR" "fsize v dp = 16 * max (entries t dp) (k + 1)"
      "\<forall>j<max (entries t dp) (k + 1). ent v dp j = (if j = k then replicate 16 0 else ent t dp j)" by blast
  have m: "max (entries t dp) (k + 1) = entries t dp" using t(3) by simp
  have fv: "file_inv v dp" using v(2) by (simp add: fs_write_def)
  note C = clear_entry [OF t(2,3,4) fv v(3) v(4,5) [unfolded m]]
  have "dir_map v dp = dir_map s dp" using C(2) t(5,6) nm by (simp add: fun_upd_idem)
  with C(1) v(1) t look show ?thesis by (intro exI [of _ t] exI [of _ "16 * k"]) blast
qed

lemma directories_are_maps_witness:
  "\<exists>t off. dirlink no_devices 0 [97] 5 (demo_fs T_DIR) = Ok (0, t) \<and> dir_map t 0 = [[97] \<mapsto> (5, off)]"
proof -
  have f: "file_inv (demo_fs T_DIR) 0" by (rule demo_file) (simp add: T_DIR_def T_DEV_def)
  have e: "dir_map (demo_fs T_DIR) 0 = Map.empty" by (rule ext) (simp add: dir_map_def demo_fields inode_zero_def)
  have d: "dir_inv (demo_fs T_DIR) 0" using f by (simp add: dir_inv_def demo_fields inode_zero_def)
  have room: "2 \<le> avail (demo_fs T_DIR) 0" "card (logged (demo_fs T_DIR)) + 8 \<le> LOGMAX" "16 * entries (demo_fs T_DIR) 0 + 16 \<le> MAXFILE * BSIZE"
    using demo_room(1) [of T_DIR] by (simp_all add: demo_fields LOGMAX_def MAXFILE_BSIZE inode_zero_def)
  have n: "dir_map (demo_fs T_DIR) 0 (name_key [97]) = None" using e by simp
  have "(ucast (5 :: uint) :: short) \<noteq> 0" by simp
  from directories_are_maps [OF d room n this, of no_devices] obtain t off where
    "dirlink no_devices 0 [97] 5 (demo_fs T_DIR) = Ok (0, t)" "dir_map t 0 = (dir_map (demo_fs T_DIR) 0)(name_key [97] \<mapsto> (ucast (5 :: uint), off))" by blast
  then show ?thesis unfolding e by (auto simp: name_key_def DIRSIZ_def)
qed

end
