(* ===== verification/MkfsThm.thy ===== *)
theory MkfsThm
  imports FsDirThm
begin

text \<open>
  xv6, \<open>mkfs.c\<close>: the image holds the files. While the image is built, every file is a list of bytes that grows at its
  end, and no two files share a block; the kernel finds on the image what its own invariant asks for.
\<close>

section \<open>The blocks of a file on the image\<close>

type_synonym disk = "uint \<Rightarrow> byte list"

definition fblk :: "disk \<Rightarrow> uint list \<Rightarrow> nat \<Rightarrow> uint" where
  "fblk d a k = (if k < NDIRECT then a ! k else if a ! NDIRECT = 0 then 0 else le32 (d (a ! NDIRECT)) (4 * (k - NDIRECT)))"

definition fptr :: "disk \<Rightarrow> uint list \<Rightarrow> nat \<Rightarrow> uint" where
  "fptr d a k = (if k = MAXFILE then a ! NDIRECT else fblk d a k)"

definition fptrs :: "disk \<Rightarrow> uint list \<Rightarrow> uint set" where
  "fptrs d a = {b. b \<noteq> 0 \<and> (\<exists>k\<le>MAXFILE. fptr d a k = b)}"

text \<open>The block pointers \<open>a\<close> of a file with the bytes \<open>c\<close> that has \<open>n\<close> blocks.\<close>

definition fgood :: "disk \<Rightarrow> uint list \<Rightarrow> byte list \<Rightarrow> nat \<Rightarrow> bool" where
  "fgood d a c n \<longleftrightarrow> length a = NDIRECT + 1 \<and> n \<le> MAXFILE \<and> length c \<le> n * BSIZE \<and>
     (\<forall>k<MAXFILE. fblk d a k \<noteq> 0 \<longleftrightarrow> k < n) \<and> (a ! NDIRECT \<noteq> 0 \<longleftrightarrow> NDIRECT < n) \<and>
     (\<forall>j\<le>MAXFILE. \<forall>k\<le>MAXFILE. fptr d a j = fptr d a k \<and> fptr d a j \<noteq> 0 \<longrightarrow> j = k) \<and>
     (\<forall>j<n * BSIZE. d (fblk d a (j div BSIZE)) ! (j mod BSIZE) = (if j < length c then c ! j else 0))"

lemma fgoodD:
  assumes "fgood d a c n"
  shows "length a = NDIRECT + 1" and "n \<le> MAXFILE" and "length c \<le> n * BSIZE" and "k < MAXFILE \<Longrightarrow> fblk d a k \<noteq> 0 \<longleftrightarrow> k < n"
    and "a ! NDIRECT \<noteq> 0 \<longleftrightarrow> NDIRECT < n"
    and "j \<le> MAXFILE \<Longrightarrow> k \<le> MAXFILE \<Longrightarrow> fptr d a j = fptr d a k \<Longrightarrow> fptr d a j \<noteq> 0 \<Longrightarrow> j = k"
    and "j < n * BSIZE \<Longrightarrow> d (fblk d a (j div BSIZE)) ! (j mod BSIZE) = (if j < length c then c ! j else 0)"
  using assms by (auto simp: fgood_def)

lemma fptr_blk: "k < MAXFILE \<Longrightarrow> fptr d a k = fblk d a k"
  by (simp add: fptr_def)

lemma fptr_ind [simp]: "fptr d a MAXFILE = a ! NDIRECT"
  by (simp add: fptr_def)

lemma fptrs_blk: "k < MAXFILE \<Longrightarrow> fblk d a k \<noteq> 0 \<Longrightarrow> fblk d a k \<in> fptrs d a"
  by (auto simp: fptrs_def fptr_def intro!: exI [of _ k])

lemma fptrs_ind: "a ! NDIRECT \<noteq> 0 \<Longrightarrow> a ! NDIRECT \<in> fptrs d a"
  by (auto simp: fptrs_def intro!: exI [of _ MAXFILE])

lemma fblk_upd: "a ! NDIRECT \<noteq> x \<Longrightarrow> fblk (d(x := v)) a = fblk d a"
  by (simp add: fblk_def fun_eq_iff)

text \<open>What is outside of the blocks of a file does not matter for it.\<close>

lemma fptr_cong: "\<forall>b\<in>fptrs d a. d' b = d b \<Longrightarrow> fblk d' a = fblk d a \<and> fptr d' a = fptr d a \<and> fptrs d' a = fptrs d a"
proof -
  assume "\<forall>b\<in>fptrs d a. d' b = d b"
  then have 1: "fblk d' a = fblk d a" using fptrs_ind [of a d] by (auto simp: fblk_def fun_eq_iff)
  then have "fptr d' a = fptr d a" by (simp add: fptr_def fun_eq_iff)
  with 1 show ?thesis by (simp add: fptrs_def)
qed

lemma fgood_cong:
  assumes "fgood d a c n" and "\<forall>b\<in>fptrs d a. d' b = d b"
  shows "fgood d' a c n" and "fptrs d' a = fptrs d a"
proof -
  note C = fptr_cong [OF assms(2)] and G = fgoodD [OF assms(1)]
  then show "fptrs d' a = fptrs d a" by simp
  have "d' (fblk d a (j div BSIZE)) = d (fblk d a (j div BSIZE))" if "j < n * BSIZE" for j
  proof -
    have "j div BSIZE < n" using that by (simp add: less_mult_imp_div_less)
    then have "j div BSIZE < MAXFILE" "fblk d a (j div BSIZE) \<noteq> 0" using G(2) G(4) [of "j div BSIZE"] by simp_all
    then show ?thesis using assms(2) fptrs_blk [of "j div BSIZE" d a] by blast
  qed
  then have "\<forall>j<n * BSIZE. d' (fblk d a (j div BSIZE)) ! (j mod BSIZE) = (if j < length c then c ! j else 0)" using G(7) by simp
  moreover have e: "fblk d' a = fblk d a" "fptr d' a = fptr d a" using C by blast+
  ultimately show "fgood d' a c n" using assms(1) unfolding fgood_def e by blast
qed

section \<open>Appending\<close>

lemma BSIZE_pos [simp]: "0 < BSIZE"
  by (simp add: BSIZE_def)

lemma put_bytes_append:
  assumes g: "fgood d a c (Suc k)" and k: "k = length c div BSIZE" and q: "length c mod BSIZE + length q \<le> BSIZE"
    and l: "length (d (fblk d a k)) = BSIZE" and e: "e = d(fblk d a k := put_bytes (length c mod BSIZE) q (d (fblk d a k)))"
  shows "fgood e a (c @ q) (Suc k)" and "fptrs e a = fptrs d a"
proof -
  note G = fgoodD [OF g]
  let ?x = "fblk d a k"
  have kM: "k < MAXFILE" using G(2) by simp
  have x: "?x \<noteq> 0" using G(4) [OF kM] by simp
  have ni: "a ! NDIRECT \<noteq> ?x"
    using G(6) [of MAXFILE k] kM x by (auto simp: fptr_blk)
  have b: "fblk e a = fblk d a" unfolding e by (rule fblk_upd [OF ni])
  then have p: "fptr e a = fptr d a" by (simp add: fptr_def fun_eq_iff)
  then show "fptrs e a = fptrs d a" by (simp add: fptrs_def)
  have off: "length c = k * BSIZE + length c mod BSIZE" using k div_mult_mod_eq [of "length c" BSIZE] by simp
  have "e (fblk d a (j div BSIZE)) ! (j mod BSIZE) = (if j < length (c @ q) then (c @ q) ! j else 0)" if j: "j < Suc k * BSIZE" for j
  proof (cases "j div BSIZE = k")
    case True
    then have jj: "j = k * BSIZE + j mod BSIZE" using div_mult_mod_eq [of j BSIZE] by simp
    have lo: "length c \<le> j \<longleftrightarrow> length c mod BSIZE \<le> j mod BSIZE" using off jj by linarith
    have s: "j - length c = j mod BSIZE - length c mod BSIZE" using off jj by linarith
    have "length c mod BSIZE + length q \<le> length (d ?x)" "j mod BSIZE < length (d ?x)" using q l by simp_all
    note n = nth_put_bytes [OF this]
    have hi: "j < length c + length q \<longleftrightarrow> j mod BSIZE < length c mod BSIZE + length q" using off jj by linarith
    show ?thesis using True n G(7) [OF j] lo hi s by (auto simp: e nth_append)
  next
    case False
    have jn: "j div BSIZE < Suc k" using j by (simp add: less_mult_imp_div_less)
    then have kl: "j div BSIZE < k" using False by simp
    have "fblk d a (j div BSIZE) \<noteq> ?x"
      using G(6) [of "j div BSIZE" k] kM kl x by (auto simp: fptr_blk)
    moreover have "j < length c"
    proof -
      have "j < k * BSIZE" using kl by (simp add: div_less_iff_less_mult)
      then show ?thesis using off by simp
    qed
    ultimately show ?thesis using G(7) [OF j] by (simp add: e nth_append)
  qed
  moreover have "length (c @ q) \<le> Suc k * BSIZE" using off q by simp
  ultimately show "fgood e a (c @ q) (Suc k)" using g unfolding fgood_def b p by blast
qed

text \<open>The next block of a file, and with the first one behind the direct ones the indirect block.\<close>

lemma add_block:
  assumes g: "fgood d a c k" and k: "k < MAXFILE" "length c = k * BSIZE" and a: "length a' = NDIRECT + 1"
    and b: "b \<noteq> 0" "b \<notin> fptrs d a" "d' b = zeroes" and i: "i \<noteq> b" "i \<noteq> 0" "k = NDIRECT \<Longrightarrow> i \<notin> fptrs d a" "NDIRECT < k \<Longrightarrow> i = a ! NDIRECT"
    and ind: "a' ! NDIRECT = (if k < NDIRECT then 0 else i)"
    and blk: "\<And>j. j < MAXFILE \<Longrightarrow> fblk d' a' j = (if j = k then b else fblk d a j)"
    and same: "\<And>j. j < k \<Longrightarrow> d' (fblk d a j) = d (fblk d a j)"
  shows "fgood d' a' c (Suc k)" and "fptrs d' a' = insert b (fptrs d a) \<union> (if k < NDIRECT then {} else {i})"
proof -
  note G = fgoodD [OF g]
  have old: "k < NDIRECT \<Longrightarrow> a ! NDIRECT = 0" "k = NDIRECT \<Longrightarrow> a ! NDIRECT = 0" using G(5) by auto
  have io: "a ! NDIRECT \<noteq> 0 \<Longrightarrow> a' ! NDIRECT = a ! NDIRECT" using ind i(4) G(5) by auto
  have ptr: "fptr d' a' j = (if j = k then b else if j = MAXFILE then a' ! NDIRECT else fptr d a j)" if "j \<le> MAXFILE" for j
    using that blk k(1) by (auto simp: fptr_def)
  have ne: "fptr d a j \<noteq> b" if "j \<le> MAXFILE" for j using that b by (auto simp: fptrs_def)
  have ni: "fptr d a j \<noteq> a' ! NDIRECT" if "j < MAXFILE" "a' ! NDIRECT \<noteq> 0" for j
  proof (cases "k = NDIRECT")
    case True
    then show ?thesis using that i(3) ind by (auto simp: fptrs_def)
  next
    case False
    then have "a' ! NDIRECT = a ! NDIRECT" using that(2) ind i(4) by (auto split: if_splits)
    then show ?thesis using G(6) [of MAXFILE j] that by auto
  qed
  have bi: "a' ! NDIRECT \<noteq> b" using ind i(1) b(1) by simp
  have inj: "x = y" if xy: "x \<le> MAXFILE" "y \<le> MAXFILE" "fptr d' a' x = fptr d' a' y" "fptr d' a' x \<noteq> 0" for x y
  proof -
    have kM: "k \<noteq> MAXFILE" using k(1) by simp
    consider "x = k" | "x \<noteq> k" "x = MAXFILE" | "x \<noteq> k" "x < MAXFILE" using xy(1) by linarith
    then show ?thesis
    proof cases
      case 1
      then have "fptr d' a' y = b" using xy(3) ptr [OF xy(1)] by simp
      then have "y = k" using ptr [OF xy(2)] ne [OF xy(2)] bi by (cases "y = k"; cases "y = MAXFILE") simp_all
      with 1 show ?thesis by simp
    next
      case 2
      then have v: "fptr d' a' y = a' ! NDIRECT" "a' ! NDIRECT \<noteq> 0" using xy(3,4) by simp_all
      then have "\<not> y < MAXFILE" using ptr [OF xy(2)] ni [of y] bi by (cases "y = k") auto
      with 2 xy(2) show ?thesis by simp
    next
      case 3
      then have v: "fptr d' a' x = fptr d a x" using ptr [OF xy(1)] by simp
      then have "y \<noteq> k" "y \<noteq> MAXFILE" using ptr [OF xy(2)] xy(3,4) ne [OF xy(1)] ni [OF 3(2)] kM by auto
      then have "fptr d' a' y = fptr d a y" using ptr [OF xy(2)] by simp
      then show ?thesis using G(6) [OF xy(1,2)] v xy(3,4) by simp
    qed
  qed
  have cell: "d' (fblk d' a' (j div BSIZE)) ! (j mod BSIZE) = (if j < length c then c ! j else 0)" if j: "j < Suc k * BSIZE" for j
  proof -
    have q: "j div BSIZE < Suc k" using j by (simp add: less_mult_imp_div_less)
    show ?thesis
    proof (cases "j div BSIZE = k")
      case True
      then have "\<not> j < length c" using k(2) div_less_iff_less_mult [of BSIZE j k] by auto
      then show ?thesis using True blk [OF k(1)] b(3) by (simp add: zeroes_def)
    next
      case False
      then have l: "j div BSIZE < k" using q by simp
      then have "j < k * BSIZE" by (simp add: div_less_iff_less_mult)
      then show ?thesis using G(7) [of j] blk [of "j div BSIZE"] same [OF l] l k(1) False by simp
    qed
  qed
  have 1: "fblk d' a' j \<noteq> 0 \<longleftrightarrow> j < Suc k" if "j < MAXFILE" for j using blk [OF that] G(4) [OF that] b(1) by auto
  have 2: "a' ! NDIRECT \<noteq> 0 \<longleftrightarrow> NDIRECT < Suc k" using ind i(2) by auto
  have 3: "Suc k \<le> MAXFILE" "length c \<le> Suc k * BSIZE" using k by simp_all
  show "fgood d' a' c (Suc k)" unfolding fgood_def using a 1 2 3 inj cell by blast
  show "fptrs d' a' = insert b (fptrs d a) \<union> (if k < NDIRECT then {} else {i})"
  proof (intro set_eqI iffI)
    fix x assume "x \<in> fptrs d' a'"
    then show "x \<in> insert b (fptrs d a) \<union> (if k < NDIRECT then {} else {i})"
      using ptr ind by (auto simp: fptrs_def split: if_splits)
  next
    fix x assume x: "x \<in> insert b (fptrs d a) \<union> (if k < NDIRECT then {} else {i})"
    have "b \<in> fptrs d' a'" using ptr [of k] k(1) b(1) by (auto simp: fptrs_def intro!: exI [of _ k])
    moreover have "\<not> k < NDIRECT \<Longrightarrow> i \<in> fptrs d' a'" using fptrs_ind [of a' d'] ind i(2) by simp
    moreover have "y \<in> fptrs d' a'" if y: "y \<in> fptrs d a" for y
    proof -
      from y obtain j where j: "j \<le> MAXFILE" "fptr d a j = y" "y \<noteq> 0" by (auto simp: fptrs_def)
      have "j \<noteq> k" using j G(4) [OF k(1)] k(1) by (auto simp: fptr_blk)
      then have "fptr d' a' j = y" using ptr [OF j(1)] j io by auto
      with j show ?thesis by (auto simp: fptrs_def)
    qed
    ultimately show "x \<in> fptrs d' a'" using x by (auto split: if_splits)
  qed
qed

section \<open>The image while it is built\<close>

abbreviation mk_top :: "mkfs \<Rightarrow> nat" where "mk_top m \<equiv> unat (mk_freeblock m)"

text \<open>All sectors are there, and those from the first free block on are zero.\<close>

definition disk_inv :: "mkfs \<Rightarrow> bool" where
  "disk_inv m \<longleftrightarrow> mk_sectors m = FSSIZE \<and> nmeta \<le> mk_top m \<and> mk_top m \<le> FSSIZE \<and>
     (\<forall>b. unat b < FSSIZE \<longrightarrow> length (mk_disk m b) = BSIZE) \<and> (\<forall>b. mk_top m \<le> unat b \<and> unat b < FSSIZE \<longrightarrow> mk_disk m b = zeroes)"

lemma disk_invD:
  assumes "disk_inv m"
  shows "mk_sectors m = FSSIZE" and "nmeta \<le> mk_top m" and "mk_top m \<le> FSSIZE" and "unat b < FSSIZE \<Longrightarrow> length (mk_disk m b) = BSIZE"
    and "mk_top m \<le> unat b \<Longrightarrow> unat b < FSSIZE \<Longrightarrow> mk_disk m b = zeroes"
  using assms by (simp_all add: disk_inv_def)

definition area :: "mkfs \<Rightarrow> uint set" where
  "area m = {b. nmeta \<le> unat b \<and> unat b < mk_top m}"

lemma seek_sector_small: "unat sec < 8388608 \<Longrightarrow> seek_sector sec = sec"
proof -
  assume s: "unat sec < 8388608"
  have "unat sec * 512 < 4294967296" using s by simp
  then have "unat (sec * 512) = unat sec * 512" by (simp add: unat_word_ariths)
  then show ?thesis by (simp add: seek_sector_def BSIZE_def word_unat_eq_iff unat_div_distrib)
qed

lemma rsect_ok: "disk_inv m \<Longrightarrow> unat b < FSSIZE \<Longrightarrow> rsect b m = Ok (mk_disk m b)"
  using seek_sector_small [of b] disk_invD(1) [of m] by (simp add: rsect_def Let_def FSSIZE_def)

lemma wsect_ok: "disk_inv m \<Longrightarrow> unat b < FSSIZE \<Longrightarrow> wsect b buf m = m\<lparr>mk_disk := (mk_disk m)(b := buf)\<rparr>"
  using seek_sector_small [of b] disk_invD(1) [of m] by (simp add: wsect_def Let_def FSSIZE_def)

lemma disk_inv_write:
  "disk_inv m \<Longrightarrow> unat b < mk_top m \<Longrightarrow> length buf = BSIZE \<Longrightarrow> disk_inv (m\<lparr>mk_disk := (mk_disk m)(b := buf)\<rparr>)"
  by (auto simp: disk_inv_def)

text \<open>\<open>freeblock++\<close> gives a block of zeros.\<close>

lemma next_block_ok:
  assumes m: "disk_inv m" and t: "mk_top m < FSSIZE"
  shows "next_block m = (mk_freeblock m, m\<lparr>mk_freeblock := mk_freeblock m + 1\<rparr>)" and "disk_inv (m\<lparr>mk_freeblock := mk_freeblock m + 1\<rparr>)"
    and "unat (mk_freeblock m + 1) = Suc (mk_top m)" and "mk_disk m (mk_freeblock m) = zeroes" and "mk_freeblock m \<noteq> 0" and "mk_freeblock m \<notin> area m"
proof -
  note M = disk_invD [OF m]
  show "next_block m = (mk_freeblock m, m\<lparr>mk_freeblock := mk_freeblock m + 1\<rparr>)" by (simp add: next_block_def)
  show u: "unat (mk_freeblock m + 1) = Suc (mk_top m)" using t by (simp add: unat_word_ariths FSSIZE_def)
  then show "disk_inv (m\<lparr>mk_freeblock := mk_freeblock m + 1\<rparr>)" using m t by (simp add: disk_inv_def)
  show "mk_disk m (mk_freeblock m) = zeroes" using M(5) t by simp
  have "0 < mk_top m" using M(2) by (simp add: layout)
  then show "mk_freeblock m \<noteq> 0" by (metis unat_0 less_irrefl)
  show "mk_freeblock m \<notin> area m" by (simp add: area_def)
qed

text \<open>How many blocks a file with \<open>n\<close> blocks of contents takes, and how many a length needs.\<close>

definition nblk :: "nat \<Rightarrow> nat" where
  "nblk n = n + (if NDIRECT < n then 1 else 0)"

definition blocks :: "nat \<Rightarrow> nat" where
  "blocks len = (len + BSIZE - 1) div BSIZE"

text \<open>One file grows from \<open>n\<close> to \<open>n'\<close> blocks, at the cost of free blocks only.\<close>

definition grows :: "mkfs \<Rightarrow> uint list \<Rightarrow> nat \<Rightarrow> mkfs \<Rightarrow> uint list \<Rightarrow> nat \<Rightarrow> bool" where
  "grows m a n m' a' n' \<longleftrightarrow> disk_inv m' \<and> mk_freeinode m' = mk_freeinode m \<and> mk_top m \<le> mk_top m' \<and> mk_top m' + nblk n = mk_top m + nblk n' \<and>
     fptrs (mk_disk m') a' \<subseteq> fptrs (mk_disk m) a \<union> (area m' - area m) \<and>
     (\<forall>b. unat b < mk_top m \<and> b \<notin> fptrs (mk_disk m) a \<longrightarrow> mk_disk m' b = mk_disk m b)"

lemma growsD:
  assumes "grows m a n m' a' n'"
  shows "disk_inv m'" and "mk_freeinode m' = mk_freeinode m" and "mk_top m \<le> mk_top m'" and "mk_top m' + nblk n = mk_top m + nblk n'"
    and "fptrs (mk_disk m') a' \<subseteq> fptrs (mk_disk m) a \<union> (area m' - area m)"
    and "unat b < mk_top m \<Longrightarrow> b \<notin> fptrs (mk_disk m) a \<Longrightarrow> mk_disk m' b = mk_disk m b"
  using assms by (auto simp: grows_def)

lemma area_mono: "mk_top m \<le> mk_top m' \<Longrightarrow> area m \<subseteq> area m'"
  by (auto simp: area_def)

lemma grows_refl: "disk_inv m \<Longrightarrow> grows m a n m a n"
  by (simp add: grows_def)

lemma grows_trans:
  assumes 1: "grows m a n m' a' n'" and 2: "grows m' a' n' m'' a'' n''"
  shows "grows m a n m'' a'' n''"
proof -
  note A = growsD [OF 1] and B = growsD [OF 2]
  have "area m \<subseteq> area m'" "area m' \<subseteq> area m''" using A(3) B(3) by (auto intro!: area_mono)
  then have p: "fptrs (mk_disk m'') a'' \<subseteq> fptrs (mk_disk m) a \<union> (area m'' - area m)" using A(5) B(5) by blast
  have "mk_disk m'' b = mk_disk m b" if "unat b < mk_top m" "b \<notin> fptrs (mk_disk m) a" for b
  proof -
    have "b \<notin> area m' - area m" using that(1) by (auto simp: area_def)
    then have "b \<notin> fptrs (mk_disk m') a'" using A(5) that(2) by blast
    moreover have "unat b < mk_top m'" using that(1) A(3) by simp
    ultimately show ?thesis using A(6) [OF that] B(6) [of b] by simp
  qed
  then show ?thesis using A B p by (simp add: grows_def)
qed

text \<open>A block of the image whose contents is the array of pointers: one of them is set.\<close>

lemma fblk_set_pointer:
  assumes i: "a ! NDIRECT = i" "i \<noteq> 0" and k: "NDIRECT \<le> k" "k < MAXFILE" and l: "length (d i) = BSIZE" and j: "j < MAXFILE"
  shows "fblk (d(i := put_bytes (4 * (k - NDIRECT)) (bytes32 b) (d i))) a j = (if j = k then b else fblk d a j)"
proof (cases "j < NDIRECT \<or> j = k")
  case True
  have "4 * (k - NDIRECT) + 4 \<le> length (d i)" using k l by (simp add: MAXFILE_def NINDIRECT_def BSIZE_def)
  note le32_put_same [OF this, of b]
  then show ?thesis using True i k(1) by (auto simp: fblk_def)
next
  case False
  have "4 * (k - NDIRECT) + length (bytes32 b) \<le> length (d i)" "4 * (j - NDIRECT) + 4 \<le> length (d i)"
    using k j False l by (simp_all add: MAXFILE_def NINDIRECT_def BSIZE_def)
  moreover have "4 * (j - NDIRECT) + 4 \<le> 4 * (k - NDIRECT) \<or> 4 * (k - NDIRECT) + length (bytes32 b) \<le> 4 * (j - NDIRECT)"
    using False k(1) by auto
  ultimately show ?thesis using le32_put_other [of "4 * (k - NDIRECT)" "bytes32 b" "d i" "4 * (j - NDIRECT)"] False i by (simp add: fblk_def)
qed

lemma le32_zero_block: "j < MAXFILE \<Longrightarrow> le32 zeroes (4 * (j - NDIRECT)) = 0"
  unfolding zeroes_def by (intro le32_zeros) (simp add: MAXFILE_def NINDIRECT_def BSIZE_def)

text \<open>The block exists: nothing changes.\<close>

lemma mk_block_old:
  assumes m: "disk_inv m" and g: "fgood (mk_disk m) (ip_addrs din) c (Suc k)" and sub: "fptrs (mk_disk m) (ip_addrs din) \<subseteq> area m"
  shows "mk_block k din m = Ok (fblk (mk_disk m) (ip_addrs din) k, din, m)"
proof -
  note G = fgoodD [OF g]
  have k: "k < MAXFILE" using G(2) by simp
  have ne: "fblk (mk_disk m) (ip_addrs din) k \<noteq> 0" using G(4) [OF k] by simp
  show ?thesis
  proof (cases "k < NDIRECT")
    case True
    then show ?thesis using ne by (simp add: mk_block_def mk_direct_def fblk_def)
  next
    case False
    then have i: "ip_addrs din ! NDIRECT \<noteq> 0" using G(5) by simp
    then have "ip_addrs din ! NDIRECT \<in> area m" using sub fptrs_ind by blast
    then have "rsect (ip_addrs din ! NDIRECT) m = Ok (mk_disk m (ip_addrs din ! NDIRECT))"
      using disk_invD(3) [OF m] by (intro rsect_ok [OF m]) (simp add: area_def)
    then show ?thesis using False i ne by (simp add: mk_block_def mk_direct_def fblk_def Let_def)
  qed
qed

text \<open>The block is new.\<close>

definition got :: "nat \<Rightarrow> mkfs \<Rightarrow> inode \<Rightarrow> byte list \<Rightarrow> nat \<Rightarrow> bool" where
  "got k m din c n \<longleftrightarrow> (\<exists>a m'. mk_block k din m = Ok (fblk (mk_disk m') a k, din\<lparr>ip_addrs := a\<rparr>, m') \<and>
     fgood (mk_disk m') a c (Suc k) \<and> grows m (ip_addrs din) n m' a (Suc k))"

lemma area_not_top: "b \<in> area m \<Longrightarrow> unat b < mk_top m \<and> b \<noteq> mk_freeblock m"
  by (auto simp: area_def)

lemma fresh_area: "nmeta \<le> mk_top m \<Longrightarrow> mk_top m < mk_top m' \<Longrightarrow> mk_freeblock m \<in> area m' - area m"
  by (simp add: area_def)

lemma mk_block_direct:
  assumes m: "disk_inv m" and g: "fgood (mk_disk m) (ip_addrs din) c k" and k: "k < NDIRECT" "length c = k * BSIZE"
    and sub: "fptrs (mk_disk m) (ip_addrs din) \<subseteq> area m" and room: "mk_top m < FSSIZE"
  shows "got k m din c k"
proof -
  note M = disk_invD [OF m] and G = fgoodD [OF g] and N = next_block_ok [OF m room]
  have kM: "k < MAXFILE" using k(1) by (simp add: MAXFILE_def)
  let ?b = "mk_freeblock m" and ?a = "(ip_addrs din)[k := mk_freeblock m]" and ?m = "m\<lparr>mk_freeblock := mk_freeblock m + 1\<rparr>"
  have z: "ip_addrs din ! k = 0" using G(4) [OF kM] k(1) by (simp add: fblk_def)
  have o: "ip_addrs din ! NDIRECT = 0" using G(5) k(1) by auto
  have n: "?b + 1 \<noteq> 0" "?b + 1 \<noteq> ?b" using N(3) by (metis unat_0 nat.distinct(1), simp)
  have e: "fblk (mk_disk m) ?a j = (if j = k then ?b else fblk (mk_disk m) (ip_addrs din) j)" for j
    using k(1) G(1) o by (simp add: fblk_def nth_list_update)
  have A: "fgood (mk_disk m) ?a c (Suc k)"
      "fptrs (mk_disk m) ?a = insert ?b (fptrs (mk_disk m) (ip_addrs din)) \<union> (if k < NDIRECT then {} else {?b + 1})"
    by (rule add_block [OF g kM k(2), of ?a ?b "mk_disk m" "?b + 1"]; use k(1) G(1) N(4-6) n o sub e in \<open>auto simp: nth_list_update\<close>)+
  have "mk_block k din m = Ok (fblk (mk_disk m) ?a k, din\<lparr>ip_addrs := ?a\<rparr>, ?m)"
    using k(1) z N(1) G(1) by (simp add: mk_block_def mk_direct_def Let_def fblk_def)
  moreover have "grows m (ip_addrs din) k ?m ?a (Suc k)"
    using N(2,3) A(2) fresh_area [OF M(2), of ?m] k(1) by (auto simp: grows_def nblk_def)
  ultimately show ?thesis using A(1) unfolding got_def by (intro exI [of _ ?a] exI [of _ ?m]) simp
qed

lemma mk_block_indirect:
  assumes m: "disk_inv m" and g: "fgood (mk_disk m) (ip_addrs din) c k" and k: "NDIRECT < k" "k < MAXFILE" "length c = k * BSIZE"
    and sub: "fptrs (mk_disk m) (ip_addrs din) \<subseteq> area m" and room: "mk_top m < FSSIZE"
  shows "got k m din c k"
proof -
  note M = disk_invD [OF m] and G = fgoodD [OF g] and N = next_block_ok [OF m room]
  let ?a = "ip_addrs din" and ?b = "mk_freeblock m"
  define i where i: "i = ip_addrs din ! NDIRECT"
  define d where d: "d = (mk_disk m)(i := put_bytes (4 * (k - NDIRECT)) (bytes32 ?b) (mk_disk m i))"
  let ?m = "m\<lparr>mk_freeblock := mk_freeblock m + 1, mk_disk := d\<rparr>"
  have ine: "i \<noteq> 0" using G(5) k(1) i by simp
  then have ia: "i \<in> fptrs (mk_disk m) ?a" "i \<in> area m" using sub fptrs_ind i by blast+
  then have it: "unat i < mk_top m" "i \<noteq> ?b" "unat i < FSSIZE" using area_not_top M(3) by fastforce+
  have l: "length (mk_disk m i) = BSIZE" by (rule M(4) [OF it(3)])
  have kd: "4 * (k - NDIRECT) + length (bytes32 ?b) \<le> BSIZE" using k(2) by (simp add: MAXFILE_def NINDIRECT_def BSIZE_def)
  have e: "fblk d ?a j = (if j = k then ?b else fblk (mk_disk m) ?a j)" if "j < MAXFILE" for j
    unfolding d by (rule fblk_set_pointer) (use i ine k l that in simp_all)
  have s: "d (fblk (mk_disk m) ?a j) = mk_disk m (fblk (mk_disk m) ?a j)" if "j < k" for j
  proof -
    have "fblk (mk_disk m) ?a j \<noteq> i" using G(6) [of MAXFILE j] that k(2) i ine by (auto simp: fptr_blk)
    then show ?thesis by (simp add: d)
  qed
  have A: "fgood d ?a c (Suc k)" "fptrs d ?a = insert ?b (fptrs (mk_disk m) ?a) \<union> (if k < NDIRECT then {} else {i})"
    by (rule add_block [OF g k(2,3), of ?a ?b d i]; use k(1) G(1) N(4-6) it(2) ine i sub e s in \<open>auto simp: d\<close>)+
  have new: "fblk (mk_disk m) ?a k = 0" using G(4) [OF k(2)] by simp
  have r: "rsect i m = Ok (mk_disk m i)" by (rule rsect_ok [OF m it(3)])
  have w: "wsect i (put_bytes (4 * (k - NDIRECT)) (bytes32 ?b) (mk_disk m i)) (m\<lparr>mk_freeblock := ?b + 1\<rparr>) = ?m"
    using wsect_ok [OF N(2) it(3)] by (simp add: d)
  have "mk_block k din m = Ok (fblk d ?a k, din, ?m)"
    using k(1) ine new r w e [OF k(2)] N(1) by (simp add: mk_block_def mk_direct_def Let_def fblk_def [of "mk_disk m"] i [symmetric])
  moreover have inv: "disk_inv ?m"
    using disk_inv_write [OF N(2), of i "put_bytes (4 * (k - NDIRECT)) (bytes32 ?b) (mk_disk m i)"] it(1) N(3) l kd
    by (simp add: d length_put_bytes)
  moreover have "grows m ?a k ?m ?a (Suc k)"
    using inv N(3) A(2) ia(1) fresh_area [OF M(2), of ?m] k(1) by (auto simp: grows_def nblk_def d)
  ultimately show ?thesis using A(1) unfolding got_def by (intro exI [of _ ?a] exI [of _ ?m]) simp
qed

lemma mk_block_first_indirect:
  assumes m: "disk_inv m" and g: "fgood (mk_disk m) (ip_addrs din) c NDIRECT" and k: "length c = NDIRECT * BSIZE"
    and sub: "fptrs (mk_disk m) (ip_addrs din) \<subseteq> area m" and room: "mk_top m + 1 < FSSIZE"
  shows "got NDIRECT m din c NDIRECT"
proof -
  have kM: "NDIRECT < MAXFILE" by (simp add: MAXFILE_def NINDIRECT_def)
  have room1: "mk_top m < FSSIZE" using room by simp
  note M = disk_invD [OF m] and G = fgoodD [OF g] and N = next_block_ok [OF m room1]
  let ?i = "mk_freeblock m"
  define m1 where m1: "m1 = m\<lparr>mk_freeblock := mk_freeblock m + 1\<rparr>"
  have i1: "disk_inv m1" "mk_top m1 = Suc (mk_top m)" "mk_disk m1 = mk_disk m" "mk_freeblock m1 = mk_freeblock m + 1" using N(2,3) by (simp_all add: m1)
  have room2: "mk_top m1 < FSSIZE" using room i1(2) by simp
  note N1 = next_block_ok [OF i1(1) room2]
  let ?b = "mk_freeblock m1" and ?a = "(ip_addrs din)[NDIRECT := ?i]"
  define d where d: "d = (mk_disk m)(?i := put_bytes 0 (bytes32 ?b) zeroes)"
  let ?m = "m1\<lparr>mk_freeblock := mk_freeblock m1 + 1, mk_disk := d\<rparr>"
  have o: "ip_addrs din ! NDIRECT = 0" using G(5) by auto
  have ib: "?i \<noteq> ?b" using i1(2,4) by (metis n_not_Suc_n)
  have bn: "?b \<notin> area m" "?i \<notin> fptrs (mk_disk m) (ip_addrs din)" using i1(2) N(6) sub by (auto simp: area_def)
  have it: "unat ?i < mk_top m1" "unat ?i < FSSIZE" using i1(2) room1 by simp_all
  have a: "?a ! NDIRECT = ?i" "length ?a = NDIRECT + 1" using G(1) by simp_all
  have z: "mk_disk m ?i = zeroes" by (rule N(4))
  have lz: "length (mk_disk m ?i) = BSIZE" by (simp add: z zeroes_def)
  have e0: "fblk (mk_disk m) ?a j = fblk (mk_disk m) (ip_addrs din) j" if "j < MAXFILE" for j
    using G(1) o N(5) z le32_zero_block [OF that] by (simp add: fblk_def)
  have e: "fblk d ?a j = (if j = NDIRECT then ?b else fblk (mk_disk m) (ip_addrs din) j)" if "j < MAXFILE" for j
    using fblk_set_pointer [of ?a ?i NDIRECT "mk_disk m" j ?b, OF a(1) N(5) order_refl kM lz that] e0 [OF that] by (simp add: d z)
  have s: "d (fblk (mk_disk m) (ip_addrs din) j) = mk_disk m (fblk (mk_disk m) (ip_addrs din) j)" if "j < NDIRECT" for j
  proof -
    have j: "j < MAXFILE" using that kM by simp
    have "fblk (mk_disk m) (ip_addrs din) j \<in> fptrs (mk_disk m) (ip_addrs din)" using G(4) [OF j] that fptrs_blk [OF j] by blast
    then show ?thesis using bn(2) by (auto simp: d)
  qed
  have db: "d ?b = zeroes" using ib N1(4) i1(3) by (simp add: d)
  have A: "fgood d ?a c (Suc NDIRECT)" "fptrs d ?a = insert ?b (fptrs (mk_disk m) (ip_addrs din)) \<union> (if NDIRECT < NDIRECT then {} else {?i})"
    by (rule add_block [OF g kM k, of ?a ?b d ?i]; use a N1(5) bn ib N(5) sub e s db in auto)+
  have r: "rsect ?i m1 = Ok zeroes" using rsect_ok [OF i1(1) it(2)] z i1(3) by simp
  have w: "wsect ?i (put_bytes 0 (bytes32 ?b) zeroes) (m1\<lparr>mk_freeblock := ?b + 1\<rparr>) = ?m"
    using wsect_ok [OF N1(2) it(2)] by (simp add: d i1(3))
  have l0: "le32 zeroes 0 = 0" using le32_zero_block [OF kM] by simp
  have "mk_block NDIRECT din m = Ok (fblk d ?a NDIRECT, din\<lparr>ip_addrs := ?a\<rparr>, ?m)"
    using o a r w N(1) N1(1) e [OF kM] l0 by (simp add: mk_block_def mk_direct_def Let_def m1 [symmetric])
  moreover have inv: "disk_inv ?m"
    using disk_inv_write [OF N1(2), of ?i "put_bytes 0 (bytes32 ?b) zeroes"] it(1) N1(3)
    by (simp add: d length_put_bytes zeroes_def BSIZE_def i1(3))
  moreover have "grows m (ip_addrs din) NDIRECT ?m ?a (Suc NDIRECT)"
  proof -
    have "unat (mk_freeblock m1 + 1) = Suc (Suc (mk_top m))" using N1(3) i1(2) by simp
    moreover from this have "?i \<in> area ?m - area m" "?b \<in> area ?m - area m" using M(2) i1(2) by (simp_all add: area_def)
    ultimately show ?thesis using inv A(2) by (auto simp: grows_def nblk_def d m1)
  qed
  ultimately show ?thesis using A(1) unfolding got_def by (intro exI [of _ ?a] exI [of _ ?m]) simp
qed

text \<open>In all cases.\<close>

lemma mk_block_got:
  assumes m: "disk_inv m" and g: "fgood (mk_disk m) (ip_addrs din) c n" and sub: "fptrs (mk_disk m) (ip_addrs din) \<subseteq> area m"
    and k: "k < MAXFILE" "n = Suc k \<or> n = k \<and> length c = k * BSIZE" and room: "mk_top m + nblk (Suc k) \<le> FSSIZE + nblk n"
  shows "got k m din c n"
proof -
  consider "n = Suc k" | "n = k" "k < NDIRECT" | "n = k" "k = NDIRECT" | "n = k" "NDIRECT < k" using k(2) by linarith
  then show ?thesis
  proof cases
    case 1
    then show ?thesis using mk_block_old [OF m _ sub] g grows_refl [OF m] unfolding got_def
      by (intro exI [of _ "ip_addrs din"] exI [of _ m]) simp
  next
    case 2
    then show ?thesis using mk_block_direct [OF m _ 2(2) _ sub] g k(2) room by (simp add: nblk_def)
  next
    case 3
    then show ?thesis using mk_block_first_indirect [OF m _ _ sub] g k(2) room by (simp add: nblk_def)
  next
    case 4
    then show ?thesis using mk_block_indirect [OF m _ 4(2) k(1) _ sub] g k(2) room by (simp add: nblk_def)
  qed
qed

section \<open>Appending bytes\<close>

lemma blocks_div: "blocks len = (if len mod BSIZE = 0 then len div BSIZE else Suc (len div BSIZE))"
proof -
  have "len + BSIZE - 1 = BSIZE * (len div BSIZE) + (len mod BSIZE + (BSIZE - 1))"
    using mult_div_mod_eq [of BSIZE len] BSIZE_pos by linarith
  then have "blocks len = len div BSIZE + (len mod BSIZE + (BSIZE - 1)) div BSIZE"
    unfolding blocks_def by (metis BSIZE_pos div_mult_self4 less_irrefl)
  moreover have "(len mod BSIZE + (BSIZE - 1)) div BSIZE = (if len mod BSIZE = 0 then 0 else 1)"
    using mod_less_divisor [OF BSIZE_pos, of len] by (auto simp: BSIZE_def intro!: div_nat_eqI)
  ultimately show ?thesis by simp
qed

lemma blocks_within:
  assumes "0 < n" and "len mod BSIZE + n \<le> BSIZE"
  shows "blocks (len + n) = Suc (len div BSIZE)"
proof -
  have l: "len = BSIZE * (len div BSIZE) + len mod BSIZE" by simp
  show ?thesis
  proof (cases "len mod BSIZE + n = BSIZE")
    case True
    then have "len + n = BSIZE * Suc (len div BSIZE)" using l unfolding mult_Suc_right by linarith
    then show ?thesis unfolding blocks_div by simp
  next
    case False
    then have r: "len mod BSIZE + n < BSIZE" using assms(2) by simp
    define q where "q = len div BSIZE"
    define s where s: "s = len mod BSIZE + n"
    have e: "len + n = s + BSIZE * q" using l unfolding s q_def by linarith
    have "(len + n) mod BSIZE = s" "(len + n) div BSIZE = q" unfolding e using r s by simp_all
    then have "(len + n) mod BSIZE \<noteq> 0" "(len + n) div BSIZE = len div BSIZE" using assms(1) s q_def by simp_all
    then show ?thesis unfolding blocks_div by simp
  qed
qed

lemma blocks_mono: "m \<le> n \<Longrightarrow> blocks m \<le> blocks n"
  unfolding blocks_def by (intro div_le_mono) simp

lemma nblk_mono: "m \<le> n \<Longrightarrow> nblk m \<le> nblk n"
  by (simp add: nblk_def)

text \<open>One turn of the loop.\<close>

lemma append_turn:
  assumes m: "disk_inv m" and g: "fgood (mk_disk m) (ip_addrs din) c (blocks (length c))" and sub: "fptrs (mk_disk m) (ip_addrs din) \<subseteq> area m"
    and q: "q \<noteq> []" "length c mod BSIZE + length q \<le> BSIZE" and len: "length c + length q \<le> MAXFILE * BSIZE"
    and room: "mk_top m + nblk (blocks (length c + length q)) \<le> FSSIZE + nblk (blocks (length c))"
  shows "\<exists>x a m' m''. mk_block (length c div BSIZE) din m = Ok (x, din\<lparr>ip_addrs := a\<rparr>, m') \<and> rsect x m' = Ok (mk_disk m' x) \<and>
    wsect x (put_bytes (length c - length c div BSIZE * BSIZE) q (mk_disk m' x)) m' = m'' \<and>
    fgood (mk_disk m'') a (c @ q) (blocks (length (c @ q))) \<and> grows m (ip_addrs din) (blocks (length c)) m'' a (blocks (length (c @ q))) \<and>
    fptrs (mk_disk m'') a \<subseteq> area m''"
proof -
  let ?k = "length c div BSIZE"
  have lq: "0 < length q" using q(1) by simp
  have n: "blocks (length c + length q) = Suc ?k" by (rule blocks_within [OF lq q(2)])
  have k: "?k < MAXFILE" using len lq by (intro less_mult_imp_div_less) linarith
  have nk: "blocks (length c) = Suc ?k \<or> blocks (length c) = ?k \<and> length c = ?k * BSIZE" unfolding blocks_div by auto
  from mk_block_got [OF m g sub k nk room [unfolded n]] obtain a m' where
    b: "mk_block ?k din m = Ok (fblk (mk_disk m') a ?k, din\<lparr>ip_addrs := a\<rparr>, m')" "fgood (mk_disk m') a c (Suc ?k)"
      "grows m (ip_addrs din) (blocks (length c)) m' a (Suc ?k)" unfolding got_def by blast
  let ?x = "fblk (mk_disk m') a ?k"
  note G = fgoodD [OF b(2)] and W = growsD [OF b(3)]
  have sub': "fptrs (mk_disk m') a \<subseteq> area m'" using W(5) sub area_mono [OF W(3)] by blast
  have "?x \<noteq> 0" using G(4) [OF k] by simp
  then have xp: "?x \<in> fptrs (mk_disk m') a" by (rule fptrs_blk [OF k])
  then have x: "unat ?x < mk_top m'" "unat ?x < FSSIZE" using sub' disk_invD(3) [OF W(1)] by (auto simp: area_def)
  have l: "length (mk_disk m' ?x) = BSIZE" by (rule disk_invD(4) [OF W(1) x(2)])
  define e where e: "e = (mk_disk m')(?x := put_bytes (length c mod BSIZE) q (mk_disk m' ?x))"
  note P = put_bytes_append [OF b(2) refl q(2) l e]
  have o: "length c - ?k * BSIZE = length c mod BSIZE" by (simp add: minus_div_mult_eq_mod)
  let ?m = "m'\<lparr>mk_disk := e\<rparr>"
  have w: "wsect ?x (put_bytes (length c mod BSIZE) q (mk_disk m' ?x)) m' = ?m" using wsect_ok [OF W(1) x(2)] by (simp add: e)
  have inv: "disk_inv ?m"
    using disk_inv_write [OF W(1) x(1), of "put_bytes (length c mod BSIZE) q (mk_disk m' ?x)"] l q(2) by (simp add: e length_put_bytes)
  have s2: "fptrs (mk_disk ?m) a \<subseteq> area ?m" using sub' P(2) by (simp add: area_def)
  have "grows m' a (Suc ?k) ?m a (Suc ?k)" using inv P(2) xp by (auto simp: grows_def e)
  from grows_trans [OF b(3) this] P(1) b(1) rsect_ok [OF W(1) x(2)] w s2 show ?thesis
    unfolding o length_append n by (intro exI [of _ ?x] exI [of _ a] exI [of _ m'] exI [of _ ?m]) simp
qed

lemma iappend_loop_law:
  "disk_inv m \<Longrightarrow> fgood (mk_disk m) (ip_addrs din) c (blocks (length c)) \<Longrightarrow> fptrs (mk_disk m) (ip_addrs din) \<subseteq> area m \<Longrightarrow>
   length c + length p \<le> MAXFILE * BSIZE \<Longrightarrow> mk_top m + nblk (blocks (length c + length p)) \<le> FSSIZE + nblk (blocks (length c)) \<Longrightarrow>
   \<exists>a m'. iappend_loop p (of_nat (length c)) din m = Ok (of_nat (length (c @ p)), din\<lparr>ip_addrs := a\<rparr>, m') \<and>
     fgood (mk_disk m') a (c @ p) (blocks (length (c @ p))) \<and> grows m (ip_addrs din) (blocks (length c)) m' a (blocks (length (c @ p))) \<and>
     fptrs (mk_disk m') a \<subseteq> area m'"
proof (induction "length p" arbitrary: p c din m rule: less_induct)
  case less
  show ?case
  proof (cases "p = []")
    case True
    then show ?thesis using less.prems(1-3) grows_refl
      by (intro exI [of _ "ip_addrs din"] exI [of _ m]) (simp add: iappend_loop.simps)
  next
    case False
    let ?k = "length c div BSIZE"
    define n where n: "n = min (length p) (BSIZE - length c mod BSIZE)"
    have r: "length c mod BSIZE < BSIZE" by simp
    have n0: "0 < n" "n \<le> length p" "n \<le> BSIZE - length c mod BSIZE" using r False by (simp_all add: n)
    then have n1: "length c mod BSIZE + n \<le> BSIZE" using r by linarith
    have lt: "length (take n p) = n" using n0(2) by simp
    have q: "take n p \<noteq> []" "length c mod BSIZE + length (take n p) \<le> BSIZE" "length c + length (take n p) \<le> MAXFILE * BSIZE"
      using n0 n1 less.prems(4) False by simp_all
    have "nblk (blocks (length c + n)) \<le> nblk (blocks (length c + length p))" using n0(2) by (intro nblk_mono blocks_mono) simp
    then have rm: "mk_top m + nblk (blocks (length c + length (take n p))) \<le> FSSIZE + nblk (blocks (length c))" using less.prems(5) lt by simp
    from append_turn [OF less.prems(1-3) q rm] obtain x a m' m'' where
      t: "mk_block ?k din m = Ok (x, din\<lparr>ip_addrs := a\<rparr>, m')" "rsect x m' = Ok (mk_disk m' x)"
        "wsect x (put_bytes (length c - ?k * BSIZE) (take n p) (mk_disk m' x)) m' = m''"
        "fgood (mk_disk m'') a (c @ take n p) (blocks (length (c @ take n p)))"
        "grows m (ip_addrs din) (blocks (length c)) m'' a (blocks (length (c @ take n p)))" "fptrs (mk_disk m'') a \<subseteq> area m''" by blast
    note W = growsD [OF t(5)]
    have cp: "(c @ take n p) @ drop n p = c @ p" by simp
    have l2: "length (c @ take n p) + length (drop n p) = length c + length p" using n0(2) by simp
    have rm2: "mk_top m'' + nblk (blocks (length (c @ take n p) + length (drop n p))) \<le> FSSIZE + nblk (blocks (length (c @ take n p)))"
      unfolding l2 using W(4) less.prems(5) by linarith
    have small: "length (drop n p) < length p" "length (c @ take n p) + length (drop n p) \<le> MAXFILE * BSIZE"
      using n0 less.prems(4) unfolding l2 by simp_all
    have g2: "fgood (mk_disk m'') (ip_addrs (din\<lparr>ip_addrs := a\<rparr>)) (c @ take n p) (blocks (length (c @ take n p)))"
      "fptrs (mk_disk m'') (ip_addrs (din\<lparr>ip_addrs := a\<rparr>)) \<subseteq> area m''" using t(4,6) by simp_all
    from less.hyps [OF small(1) W(1) g2 small(2) rm2] obtain a' z where
      z: "iappend_loop (drop n p) (of_nat (length (c @ take n p))) (din\<lparr>ip_addrs := a\<rparr>) m'' = Ok (of_nat (length (c @ p)), din\<lparr>ip_addrs := a'\<rparr>, z)"
        "fgood (mk_disk z) a' (c @ p) (blocks (length (c @ p)))" "grows m'' a (blocks (length (c @ take n p))) z a' (blocks (length (c @ p)))"
        "fptrs (mk_disk z) a' \<subseteq> area z" unfolding cp by auto
    have u: "unat (of_nat (length c) :: uint) = length c" using less.prems(4) by (intro unat_of_nat_32) (simp add: MAXFILE_BSIZE)
    have kM: "?k < MAXFILE" using less.prems(4) False by (intro less_mult_imp_div_less) (cases p; simp)
    have nn: "min (length p) ((?k + 1) * BSIZE - length c) = n"
    proof -
      have "(?k + 1) * BSIZE - length c = BSIZE - length c mod BSIZE"
        using div_mult_mod_eq [of "length c" BSIZE] unfolding add_mult_distrib mult_1 by linarith
      then show ?thesis by (simp only: n)
    qed
    have o: "of_nat (length c) + of_nat n = (of_nat (length (c @ take n p)) :: uint)" using lt by simp
    have "iappend_loop p (of_nat (length c)) din m = iappend_loop (drop n p) (of_nat (length (c @ take n p))) (din\<lparr>ip_addrs := a\<rparr>) m''"
      using False kM t(1,2,3) by (subst iappend_loop.simps) (simp only: u Let_def nn o if_False not_not simp_thms rbind.simps prod.case)
    with z grows_trans [OF t(5) z(3)] show ?thesis by (intro exI [of _ a'] exI [of _ z]) simp
  qed
qed

section \<open>Inodes on the image\<close>

lemma le32_append: "le32 (xs @ ys) (length xs + j) = le32 ys j"
  by (simp add: le32_def nth_append)

lemma le16_append: "le16 (xs @ ys) (length xs + j) = le16 ys j"
  by (simp add: le16_def nth_append)

lemma le32_here: "le32 (bytes32 x @ ys) 0 = x"
  by (rule le32_bytes32) (simp_all add: nth_append numeral_2_eq_2 numeral_3_eq_3)

lemma le32_concat: "j < length a \<Longrightarrow> le32 (concat (map bytes32 a) @ ys) (4 * j) = a ! j"
proof (induction a arbitrary: j)
  case (Cons x a)
  show ?case
  proof (cases j)
    case 0
    then show ?thesis using le32_here [of x "concat (map bytes32 a) @ ys"] by simp
  next
    case (Suc i)
    then show ?thesis
      using Cons le32_append [of "bytes32 x" "concat (map bytes32 a) @ ys" "4 * i"] by simp
  qed
qed simp

lemma le_put:
  assumes "k + length bs \<le> length d"
  shows "j + 4 \<le> length bs \<Longrightarrow> le32 (put_bytes k bs d) (k + j) = le32 bs j"
    and "j + 2 \<le> length bs \<Longrightarrow> le16 (put_bytes k bs d) (k + j) = le16 bs j"
  using assms by (simp_all add: le32_def le16_def nth_put_bytes)

lemma le16_put_other:
  "i + length bs \<le> length d \<Longrightarrow> j + 2 \<le> length d \<Longrightarrow> j + 2 \<le> i \<or> i + length bs \<le> j \<Longrightarrow> le16 (put_bytes i bs d) j = le16 d j"
  by (auto simp: le16_def nth_put_bytes)

lemma load_dinode_bytes:
  assumes a: "length (ip_addrs x) = NDIRECT + 1" and k: "k + 64 \<le> length d"
  shows "load_dinode (put_bytes k (dinode_bytes x) d) k y =
    y\<lparr>ip_type := ip_type x, ip_major := ip_major x, ip_minor := ip_minor x, ip_nlink := ip_nlink x, ip_size := ip_size x, ip_addrs := ip_addrs x\<rparr>"
proof -
  have l: "length (dinode_bytes x) = 64" by (rule length_dinode_bytes [OF a])
  with k have b: "k + length (dinode_bytes x) \<le> length d" by simp
  note P = le_put [OF b, unfolded l]
  let ?r = "bytes32 (ip_size x) @ concat (map bytes32 (ip_addrs x)) @ []"
  have e: "dinode_bytes x = bytes16 (ip_type x) @ bytes16 (ip_major x) @ bytes16 (ip_minor x) @ bytes16 (ip_nlink x) @ ?r"
    by (simp add: dinode_bytes_def)
  let ?h = "bytes16 (ip_type x) @ bytes16 (ip_major x) @ bytes16 (ip_minor x) @ bytes16 (ip_nlink x)"
  have h: "length ?h = 8" by simp
  have f: "le16 (dinode_bytes x) 0 = ip_type x" "le16 (dinode_bytes x) 2 = ip_major x" "le16 (dinode_bytes x) 4 = ip_minor x"
      "le16 (dinode_bytes x) 6 = ip_nlink x"
    using le16_bytes16 [of "ip_type x" "bytes16 (ip_major x) @ bytes16 (ip_minor x) @ bytes16 (ip_nlink x) @ ?r"]
      le16_append [of "bytes16 (ip_type x)" "bytes16 (ip_major x) @ bytes16 (ip_minor x) @ bytes16 (ip_nlink x) @ ?r" 0]
      le16_append [of "bytes16 (ip_type x) @ bytes16 (ip_major x)" "bytes16 (ip_minor x) @ bytes16 (ip_nlink x) @ ?r" 0]
      le16_append [of "bytes16 (ip_type x) @ bytes16 (ip_major x) @ bytes16 (ip_minor x)" "bytes16 (ip_nlink x) @ ?r" 0]
      le16_bytes16 [of "ip_major x" "bytes16 (ip_minor x) @ bytes16 (ip_nlink x) @ ?r"] le16_bytes16 [of "ip_minor x" "bytes16 (ip_nlink x) @ ?r"]
      le16_bytes16 [of "ip_nlink x" ?r] unfolding e by simp_all
  have s: "le32 (dinode_bytes x) 8 = ip_size x"
    using le32_append [of ?h ?r 0] le32_here [of "ip_size x" "concat (map bytes32 (ip_addrs x)) @ []"] unfolding e by simp
  have c: "le32 (dinode_bytes x) (12 + 4 * j) = ip_addrs x ! j" if "j < NDIRECT + 1" for j
    using le32_append [of "?h @ bytes32 (ip_size x)" "concat (map bytes32 (ip_addrs x)) @ []" "4 * j"]
      le32_concat [of j "ip_addrs x" "[]"] that a unfolding e by simp
  have ad: "map (\<lambda>j. le32 (put_bytes k (dinode_bytes x) d) (k + 12 + 4 * j)) [0..<NDIRECT + 1] = ip_addrs x"
  proof (rule nth_equalityI)
    fix j assume "j < length (map (\<lambda>j. le32 (put_bytes k (dinode_bytes x) d) (k + 12 + 4 * j)) [0..<NDIRECT + 1])"
    then have j: "j < NDIRECT + 1" by simp
    then show "map (\<lambda>j. le32 (put_bytes k (dinode_bytes x) d) (k + 12 + 4 * j)) [0..<NDIRECT + 1] ! j = ip_addrs x ! j"
      using c [OF j] P(1) [of "12 + 4 * j"] by (simp add: NDIRECT_def add.assoc del: upt_Suc)
  qed (simp add: a)
  show ?thesis unfolding load_dinode_def ad using P(2) [of 0] P(2) [of 2] P(2) [of 4] P(2) [of 6] P(1) [of 8] f s by simp
qed

lemma load_dinode_other:
  assumes d: "i + 64 \<le> length d" "k + 64 \<le> length d" "k + 64 \<le> i \<or> i + 64 \<le> k" and l: "length bs = 64"
  shows "load_dinode (put_bytes i bs d) k y = load_dinode d k y"
proof -
  have "le32 (put_bytes i bs d) (k + j) = le32 d (k + j)" if "j + 4 \<le> 64" for j
    using d l that by (intro le32_put_other) auto
  moreover have "le16 (put_bytes i bs d) (k + j) = le16 d (k + j)" if "j + 2 \<le> 64" for j
    using d l that by (intro le16_put_other) auto
  note this [of 0] this [of 2] this [of 4] this [of 6]
  ultimately show ?thesis by (simp add: load_dinode_def NDIRECT_def add.assoc cong: map_cong)
qed

definition din :: "mkfs \<Rightarrow> uint \<Rightarrow> inode" where
  "din m i = load_dinode (mk_disk m (IBLOCK i mk_sb)) (dinode_off i) inode_zero"

lemma dinode_place: "dinode_off i + 64 \<le> 512" "unat i < NINODES \<Longrightarrow> unat j < NINODES \<Longrightarrow> IBLOCK i mk_sb = IBLOCK j mk_sb \<Longrightarrow> i \<noteq> j \<Longrightarrow>
   dinode_off j + 64 \<le> dinode_off i \<or> dinode_off i + 64 \<le> dinode_off j"
proof -
  have "unat i mod 8 < 8" by simp
  then show "dinode_off i + 64 \<le> 512" unfolding dinode_off_def IPB_def by linarith
  assume a: "unat i < NINODES" "unat j < NINODES" "IBLOCK i mk_sb = IBLOCK j mk_sb" "i \<noteq> j"
  then have d: "unat i div 8 = unat j div 8" using iblock_place(1) [OF a(1)] iblock_place(1) [OF a(2)] by simp
  have "unat i \<noteq> unat j" using a(4) by (simp add: word_unat_eq_iff)
  then have "unat i mod 8 \<noteq> unat j mod 8" using d by (metis div_mod_decomp)
  then show "dinode_off j + 64 \<le> dinode_off i \<or> dinode_off i + 64 \<le> dinode_off j" unfolding dinode_off_def IPB_def by linarith
qed

lemma rinode_ok: "disk_inv m \<Longrightarrow> unat i < NINODES \<Longrightarrow> rinode i m = Ok (din m i)"
  using rsect_ok [of m "IBLOCK i mk_sb"] iblock_place(3) [of i] by (simp add: rinode_def din_def FSSIZE_def)

lemma winode_ok:
  assumes m: "disk_inv m" and i: "unat i < NINODES" and a: "length (ip_addrs x) = NDIRECT + 1"
  shows "\<exists>m'. winode i x m = Ok m' \<and> disk_inv m' \<and> mk_freeinode m' = mk_freeinode m \<and> mk_freeblock m' = mk_freeblock m \<and>
    din m' i = inode_zero\<lparr>ip_type := ip_type x, ip_major := ip_major x, ip_minor := ip_minor x, ip_nlink := ip_nlink x,
      ip_size := ip_size x, ip_addrs := ip_addrs x\<rparr> \<and>
    (\<forall>j. unat j < NINODES \<and> j \<noteq> i \<longrightarrow> din m' j = din m j) \<and> (\<forall>b. b \<noteq> IBLOCK i mk_sb \<longrightarrow> mk_disk m' b = mk_disk m b)"
proof -
  let ?b = "IBLOCK i mk_sb" and ?d = "mk_disk m (IBLOCK i mk_sb)"
  note B = iblock_place [OF i]
  have bf: "unat ?b < FSSIZE" using B(3) by (simp add: FSSIZE_def)
  have bt: "unat ?b < mk_top m" using B(3) disk_invD(2) [OF m] by (simp add: layout)
  have l: "length ?d = BSIZE" by (rule disk_invD(4) [OF m bf])
  note ld = length_dinode_bytes [OF a]
  have p: "dinode_off i + 64 \<le> length ?d" using dinode_place(1) l by (simp add: BSIZE_def)
  let ?e = "put_bytes (dinode_off i) (dinode_bytes x) ?d"
  let ?m = "m\<lparr>mk_disk := (mk_disk m)(?b := ?e)\<rparr>"
  have w: "winode i x m = Ok ?m" using rsect_ok [OF m bf] wsect_ok [OF m bf] by (simp add: winode_def Let_def)
  have inv: "disk_inv ?m" by (rule disk_inv_write [OF m bt]) (use p l ld in \<open>simp add: length_put_bytes\<close>)
  have self: "din ?m i = inode_zero\<lparr>ip_type := ip_type x, ip_major := ip_major x, ip_minor := ip_minor x, ip_nlink := ip_nlink x,
      ip_size := ip_size x, ip_addrs := ip_addrs x\<rparr>"
    using load_dinode_bytes [OF a p, of inode_zero] by (simp add: din_def)
  have other: "din ?m j = din m j" if j: "unat j < NINODES" "j \<noteq> i" for j
  proof (cases "IBLOCK j mk_sb = ?b")
    case True
    have q: "dinode_off j + 64 \<le> length ?d" using dinode_place(1) [of j] l by (simp add: BSIZE_def)
    have "dinode_off j + 64 \<le> dinode_off i \<or> dinode_off i + 64 \<le> dinode_off j" using dinode_place(2) [OF i j(1) _ j(2) [symmetric]] True by simp
    from load_dinode_other [OF p q this ld, of inode_zero] show ?thesis using True by (simp add: din_def)
  qed (simp add: din_def)
  show ?thesis using w inv self other by (intro exI [of _ ?m]) auto
qed

section \<open>The invariant of the image\<close>

definition file_on :: "mkfs \<Rightarrow> uint \<Rightarrow> short \<times> byte list \<Rightarrow> bool" where
  "file_on m i f \<longleftrightarrow> ip_type (din m i) = fst f \<and> ip_nlink (din m i) = 1 \<and> ip_size (din m i) = of_nat (length (snd f)) \<and>
     fgood (mk_disk m) (ip_addrs (din m i)) (snd f) (blocks (length (snd f))) \<and> fptrs (mk_disk m) (ip_addrs (din m i)) \<subseteq> area m"

abbreviation iptrs :: "mkfs \<Rightarrow> uint \<Rightarrow> uint set" where "iptrs m i \<equiv> fptrs (mk_disk m) (ip_addrs (din m i))"

definition made :: "mkfs \<Rightarrow> uint set" where
  "made m = {i. 0 < unat i \<and> unat i < unat (mk_freeinode m)}"

definition img_inv :: "mkfs \<Rightarrow> (uint \<Rightarrow> short \<times> byte list) \<Rightarrow> bool" where
  "img_inv m F \<longleftrightarrow> disk_inv m \<and> 0 < unat (mk_freeinode m) \<and> unat (mk_freeinode m) \<le> NINODES \<and> (\<forall>i\<in>made m. file_on m i (F i)) \<and>
     (\<forall>i\<in>made m. \<forall>j\<in>made m. i \<noteq> j \<longrightarrow> iptrs m i \<inter> iptrs m j = {}) \<and>
     (\<forall>b. unat b < 32 \<longrightarrow> mk_disk m b = (if b = 1 then put_bytes 0 (sb_bytes mk_sb) zeroes else zeroes))"

lemma img_invD:
  assumes "img_inv m F"
  shows "disk_inv m" and "0 < unat (mk_freeinode m)" and "unat (mk_freeinode m) \<le> NINODES" and "i \<in> made m \<Longrightarrow> file_on m i (F i)"
    and "i \<in> made m \<Longrightarrow> j \<in> made m \<Longrightarrow> i \<noteq> j \<Longrightarrow> iptrs m i \<inter> iptrs m j = {}"
    and "unat b < 32 \<Longrightarrow> mk_disk m b = (if b = 1 then put_bytes 0 (sb_bytes mk_sb) zeroes else zeroes)"
    and "i \<in> made m \<Longrightarrow> unat i < NINODES"
  using assms by (auto simp: img_inv_def made_def)

lemma file_onD:
  assumes "file_on m i f"
  shows "ip_type (din m i) = fst f" and "ip_nlink (din m i) = 1" and "ip_size (din m i) = of_nat (length (snd f))"
    and "fgood (mk_disk m) (ip_addrs (din m i)) (snd f) (blocks (length (snd f)))" and "iptrs m i \<subseteq> area m"
  using assms by (simp_all add: file_on_def)

text \<open>A file whose inode and blocks are as before is as before.\<close>

lemma file_on_keep:
  assumes f: "file_on m i f" and d: "din m' i = din m i" and s: "\<forall>b\<in>iptrs m i. mk_disk m' b = mk_disk m b" and t: "mk_top m \<le> mk_top m'"
  shows "file_on m' i f" and "iptrs m' i = iptrs m i"
proof -
  note F = file_onD [OF f] and C = fgood_cong [OF file_onD(4) [OF f] s]
  show "iptrs m' i = iptrs m i" using C(2) d by simp
  then show "file_on m' i f" using F C(1) d area_mono [OF t] by (auto simp: file_on_def)
qed

section \<open>The operations keep the invariant\<close>

lemma ip_fields: "ip_type (x\<lparr>ip_addrs := a, ip_size := z\<rparr>) = ip_type x" "ip_nlink (x\<lparr>ip_addrs := a, ip_size := z\<rparr>) = ip_nlink x"
  by simp_all

lemma area_not_meta: "b \<in> area m \<Longrightarrow> nmeta \<le> unat b"
  by (simp add: area_def)

lemma iappend_law:
  assumes v: "img_inv m F" and i: "i \<in> made m" and f: "F i = (ty, c)" and len: "length c + length p \<le> MAXFILE * BSIZE"
    and room: "mk_top m + nblk (blocks (length c + length p)) \<le> FSSIZE + nblk (blocks (length c))"
  shows "\<exists>m'. iappend i p m = Ok m' \<and> img_inv m' (F(i := (ty, c @ p))) \<and> mk_freeinode m' = mk_freeinode m \<and>
    mk_top m' + nblk (blocks (length c)) = mk_top m + nblk (blocks (length c + length p))"
proof -
  note I = img_invD [OF v]
  have iN: "unat i < NINODES" by (rule I(7) [OF i])
  let ?x = "din m i"
  from I(4) [OF i] f have O: "ip_type ?x = ty" "ip_nlink ?x = 1" "ip_size ?x = of_nat (length c)"
      "fgood (mk_disk m) (ip_addrs ?x) c (blocks (length c))" "iptrs m i \<subseteq> area m" using file_onD [of m i "(ty, c)"] by simp_all
  from iappend_loop_law [OF I(1) O(4,5) len room] obtain a m1 where
    l: "iappend_loop p (of_nat (length c)) ?x m = Ok (of_nat (length (c @ p)), ?x\<lparr>ip_addrs := a\<rparr>, m1)"
      "fgood (mk_disk m1) a (c @ p) (blocks (length (c @ p)))" "grows m (ip_addrs ?x) (blocks (length c)) m1 a (blocks (length (c @ p)))"
      "fptrs (mk_disk m1) a \<subseteq> area m1" by blast
  note W = growsD [OF l(3)]
  let ?y = "?x\<lparr>ip_addrs := a, ip_size := of_nat (length (c @ p))\<rparr>"
  have "length (ip_addrs ?y) = NDIRECT + 1" using fgoodD(1) [OF l(2)] by simp
  from winode_ok [OF W(1) iN this] obtain m2 where
    w: "winode i ?y m1 = Ok m2" "disk_inv m2" "mk_freeinode m2 = mk_freeinode m1" "mk_freeblock m2 = mk_freeblock m1"
      "din m2 i = inode_zero\<lparr>ip_type := ip_type ?y, ip_major := ip_major ?y, ip_minor := ip_minor ?y, ip_nlink := ip_nlink ?y,
        ip_size := ip_size ?y, ip_addrs := ip_addrs ?y\<rparr>"
      "\<And>j. unat j < NINODES \<Longrightarrow> j \<noteq> i \<Longrightarrow> din m2 j = din m1 j" "\<And>b. b \<noteq> IBLOCK i mk_sb \<Longrightarrow> mk_disk m2 b = mk_disk m1 b" by blast
  have run: "iappend i p m = Ok m2" using rinode_ok [OF I(1) iN] O(3) l(1) w(1) by (simp add: iappend_def)
  have low: "mk_disk m1 b = mk_disk m b" if "unat b < nmeta" for b
    using W(6) [of b] that O(5) area_not_meta disk_invD(2) [OF I(1)] by fastforce
  have d1: "din m1 j = din m j" if "unat j < NINODES" for j
    using low [of "IBLOCK j mk_sb"] iblock_place(3) [OF that] by (simp add: din_def layout)
  have data: "mk_disk m2 b = mk_disk m1 b" if "nmeta \<le> unat b" for b
    using that iblock_place(3) [OF iN] by (intro w(7)) (auto simp: layout)
  have p1: "\<forall>b\<in>fptrs (mk_disk m1) a. mk_disk m2 b = mk_disk m1 b" using l(4) area_not_meta data by blast
  note P = fgood_cong [OF l(2) p1]
  have ar: "area m2 = area m1" using w(4) by (simp add: area_def)
  have here: "file_on m2 i (ty, c @ p)" using O(1,2) w(5) P l(4) ar by (simp add: file_on_def)
  have hp: "iptrs m2 i \<subseteq> iptrs m i \<union> (area m1 - area m)" using w(5) P(2) W(5) by simp
  have mm: "made m2 = made m" using w(3) W(2) by (simp add: made_def)
  have there: "file_on m2 j (F j)" "iptrs m2 j = iptrs m j" if j: "j \<in> made m" "j \<noteq> i" for j
  proof -
    have s: "mk_disk m2 b = mk_disk m b" if b: "b \<in> iptrs m j" for b
    proof -
      have ba: "b \<in> area m" using file_onD(5) [OF I(4) [OF j(1)]] b by blast
      have "b \<notin> iptrs m i" using I(5) [OF i j(1)] j(2) b by blast
      then have "mk_disk m1 b = mk_disk m b" using W(6) area_not_top [OF ba] by blast
      then show ?thesis using data area_not_meta [OF ba] by simp
    qed
    have dj: "din m2 j = din m j" using w(6) [OF I(7) [OF j(1)] j(2)] d1 [OF I(7) [OF j(1)]] by simp
    have "mk_top m \<le> mk_top m2" using W(3) w(4) by simp
    from file_on_keep [OF I(4) [OF j(1)] dj _ this] s show "file_on m2 j (F j)" "iptrs m2 j = iptrs m j" by blast+
  qed
  have dis: "iptrs m2 j \<inter> iptrs m2 k = {}" if jk: "j \<in> made m" "k \<in> made m" "j \<noteq> k" for j k
  proof -
    have out: "iptrs m2 i \<inter> iptrs m2 k = {}" if k: "k \<in> made m" "k \<noteq> i" for k
      using hp there(2) [OF k] I(5) [OF i k(1)] k(2) file_onD(5) [OF I(4) [OF k(1)]] by blast
    show ?thesis
      using out [of k] out [of j] there(2) [of j] there(2) [of k] I(5) [OF jk] jk by (cases "j = i"; cases "k = i") blast+
  qed
  have meta: "mk_disk m2 b = (if b = 1 then put_bytes 0 (sb_bytes mk_sb) zeroes else zeroes)" if "unat b < 32" for b
  proof -
    have "b \<noteq> IBLOCK i mk_sb" "unat b < nmeta" using that iblock_place(2) [OF iN] by (auto simp: layout)
    then show ?thesis using w(7) low I(6) [OF that] by simp
  qed
  have "img_inv m2 (F(i := (ty, c @ p)))"
    unfolding img_inv_def mm using w(2,3) W(2) I(2,3) here there(1) dis meta by auto
  then show ?thesis using run w(3,4) W(2,4) by (intro exI [of _ m2]) simp
qed

lemma fgood_empty: "fgood d (replicate (NDIRECT + 1) 0) [] (blocks 0)" "fptrs d (replicate (NDIRECT + 1) 0) = {}"
proof -
  have "(replicate (NDIRECT + 1) 0 :: uint list) ! k = 0" if "k \<le> NDIRECT" for k using that by (simp del: replicate_Suc)
  then have b: "fblk d (replicate (NDIRECT + 1) 0) = (\<lambda>_. 0)" and n: "(replicate (NDIRECT + 1) 0 :: uint list) ! NDIRECT = 0"
    unfolding fblk_def by (auto simp: fun_eq_iff simp del: replicate_Suc)
  then have p: "fptr d (replicate (NDIRECT + 1) 0) = (\<lambda>_. 0)" by (simp add: fptr_def fun_eq_iff del: replicate_Suc)
  show "fptrs d (replicate (NDIRECT + 1) 0) = {}" unfolding fptrs_def p by simp
  have "blocks 0 = 0" by (simp add: blocks_div)
  then show "fgood d (replicate (NDIRECT + 1) 0) [] (blocks 0)" unfolding fgood_def b p n by simp
qed

lemma ialloc_law:
  assumes v: "img_inv m F" and n: "unat (mk_freeinode m) < NINODES"
  shows "\<exists>m'. mk_ialloc ty m = Ok (mk_freeinode m, m') \<and> img_inv m' (F(mk_freeinode m := (ty, []))) \<and>
    mk_freeinode m' = mk_freeinode m + 1 \<and> unat (mk_freeinode m') = Suc (unat (mk_freeinode m)) \<and> mk_top m' = mk_top m"
proof -
  note I = img_invD [OF v]
  let ?i = "mk_freeinode m" and ?m = "m\<lparr>mk_freeinode := mk_freeinode m + 1\<rparr>"
  let ?x = "inode_zero\<lparr>ip_type := ty, ip_nlink := 1, ip_size := 0\<rparr>"
  have inv: "disk_inv ?m" using I(1) by (simp add: disk_inv_def)
  have a: "ip_addrs ?x = replicate (NDIRECT + 1) 0" by (simp add: inode_zero_def)
  then have "length (ip_addrs ?x) = NDIRECT + 1" by simp
  from winode_ok [OF inv n this] obtain m2 where
    w: "winode ?i ?x ?m = Ok m2" "disk_inv m2" "mk_freeinode m2 = mk_freeinode ?m" "mk_freeblock m2 = mk_freeblock ?m"
      "din m2 ?i = inode_zero\<lparr>ip_type := ip_type ?x, ip_major := ip_major ?x, ip_minor := ip_minor ?x, ip_nlink := ip_nlink ?x,
        ip_size := ip_size ?x, ip_addrs := ip_addrs ?x\<rparr>"
      "\<And>j. unat j < NINODES \<Longrightarrow> j \<noteq> ?i \<Longrightarrow> din m2 j = din ?m j" "\<And>b. b \<noteq> IBLOCK ?i mk_sb \<Longrightarrow> mk_disk m2 b = mk_disk ?m b" by blast
  have u: "unat (mk_freeinode m + 1) = Suc (unat (mk_freeinode m))" using n by (simp add: unat_word_ariths NINODES_def)
  have dm: "din ?m = din m" by (simp add: din_def fun_eq_iff)
  have mm: "made m2 = insert ?i (made m)"
  proof (rule set_eqI)
    fix j
    have "unat j = unat ?i \<longleftrightarrow> j = ?i" by (simp add: word_unat_eq_iff)
    then show "j \<in> made m2 \<longleftrightarrow> j \<in> insert ?i (made m)" using w(3) u I(2) by (auto simp: made_def less_Suc_eq)
  qed
  have ni: "j \<noteq> ?i" if "j \<in> made m" for j using that by (auto simp: made_def)
  have "ip_addrs (din m2 ?i) = replicate (NDIRECT + 1) 0" "ip_type (din m2 ?i) = ty" "ip_nlink (din m2 ?i) = 1" "ip_size (din m2 ?i) = 0"
    using w(5) a by simp_all
  then have here: "file_on m2 ?i (ty, [])" "iptrs m2 ?i = {}" using fgood_empty [of "mk_disk m2"] by (simp_all add: file_on_def)
  have there: "file_on m2 j (F j)" "iptrs m2 j = iptrs m j" if j: "j \<in> made m" for j
  proof -
    have "mk_disk m2 b = mk_disk m b" if b: "b \<in> iptrs m j" for b
    proof -
      have "b \<in> area m" using file_onD(5) [OF I(4) [OF j]] b by blast
      then have "b \<noteq> IBLOCK ?i mk_sb" using area_not_meta [of b m] iblock_place(3) [OF n] by (auto simp: layout)
      then show ?thesis using w(7) by simp
    qed
    moreover have "din m2 j = din m j" using w(6) [OF I(7) [OF j] ni [OF j]] dm by simp
    moreover have "mk_top m \<le> mk_top m2" using w(4) by simp
    ultimately show "file_on m2 j (F j)" "iptrs m2 j = iptrs m j" using file_on_keep [OF I(4) [OF j], of m2] by blast+
  qed
  have meta: "mk_disk m2 b = (if b = 1 then put_bytes 0 (sb_bytes mk_sb) zeroes else zeroes)" if "unat b < 32" for b
    using that iblock_place(2) [OF n] w(7) [of b] I(6) [OF that] by fastforce
  have "img_inv m2 (F(?i := (ty, [])))"
    unfolding img_inv_def mm using w(2,3) u n here there ni I(5) meta by auto
  then show ?thesis using w(1,3,4) u by (intro exI [of _ m2]) (simp add: mk_ialloc_def Let_def)
qed

lemma append_pieces_law:
  "img_inv m F \<Longrightarrow> i \<in> made m \<Longrightarrow> F i = (ty, c) \<Longrightarrow> length c + length (concat ps) \<le> MAXFILE * BSIZE \<Longrightarrow>
   mk_top m + nblk (blocks (length c + length (concat ps))) \<le> FSSIZE + nblk (blocks (length c)) \<Longrightarrow>
   \<exists>m'. append_pieces i ps m = Ok m' \<and> img_inv m' (F(i := (ty, c @ concat ps))) \<and> mk_freeinode m' = mk_freeinode m \<and>
     mk_top m' + nblk (blocks (length c)) = mk_top m + nblk (blocks (length c + length (concat ps)))"
proof (induction ps arbitrary: m F c)
  case Nil
  then show ?case by (intro exI [of _ m]) (simp add: fun_upd_idem)
next
  case (Cons p ps)
  have l: "length c + length p \<le> MAXFILE * BSIZE" using Cons.prems(4) by simp
  have "nblk (blocks (length c + length p)) \<le> nblk (blocks (length c + length (concat (p # ps))))"
    by (intro nblk_mono blocks_mono) simp
  then have r: "mk_top m + nblk (blocks (length c + length p)) \<le> FSSIZE + nblk (blocks (length c))" using Cons.prems(5) by linarith
  from iappend_law [OF Cons.prems(1-3) l r] obtain m1 where
    m1: "iappend i p m = Ok m1" "img_inv m1 (F(i := (ty, c @ p)))" "mk_freeinode m1 = mk_freeinode m"
      "mk_top m1 + nblk (blocks (length c)) = mk_top m + nblk (blocks (length c + length p))" by blast
  have i: "i \<in> made m1" using Cons.prems(2) m1(3) by (simp add: made_def)
  have a: "length (c @ p) + length (concat ps) = length c + length (concat (p # ps))" by simp
  have r2: "mk_top m1 + nblk (blocks (length (c @ p) + length (concat ps))) \<le> FSSIZE + nblk (blocks (length (c @ p)))"
    unfolding a using m1(4) Cons.prems(5) by simp
  have l2: "length (c @ p) + length (concat ps) \<le> MAXFILE * BSIZE" unfolding a by (rule Cons.prems(4))
  from Cons.IH [OF m1(2) i fun_upd_same l2 r2] obtain z where
    z: "append_pieces i ps m1 = Ok z" "img_inv z ((F(i := (ty, c @ p)))(i := (ty, (c @ p) @ concat ps)))" "mk_freeinode z = mk_freeinode m1"
      "mk_top z + nblk (blocks (length (c @ p))) = mk_top m1 + nblk (blocks (length (c @ p) + length (concat ps)))" by blast
  have "mk_top z + nblk (blocks (length c)) = mk_top m + nblk (blocks (length c + length (concat (p # ps))))"
    using z(4) m1(4) unfolding a by simp
  moreover have "img_inv z (F(i := (ty, c @ concat (p # ps))))" using z(2) by simp
  moreover have "append_pieces i (p # ps) m = Ok z" using m1(1) z(1) by simp
  moreover have "mk_freeinode z = mk_freeinode m" using z(3) m1(3) by simp
  ultimately show ?case by blast
qed

section \<open>The arguments\<close>

definition arg_bytes :: "byte list \<times> byte list list option \<Rightarrow> byte list" where
  "arg_bytes arg = concat (case snd arg of None \<Rightarrow> [] | Some pieces \<Rightarrow> pieces)"

definition arg_ok :: "byte list \<times> byte list list option \<Rightarrow> bool" where
  "arg_ok arg \<longleftrightarrow> slash \<notin> set (fst arg) \<and> snd arg \<noteq> None \<and> length (arg_bytes arg) \<le> MAXFILE * BSIZE"

text \<open>The entries of the root directory, the first one for the inode \<open>i\<close>.\<close>

fun root_entries :: "uint \<Rightarrow> (byte list \<times> byte list list option) list \<Rightarrow> byte list" where
  "root_entries i [] = []"
| "root_entries i (arg # args) = de_bytes i (file_name (fst arg)) @ root_entries (i + 1) args"

definition file_blocks :: "byte list \<Rightarrow> nat" where
  "file_blocks c = nblk (blocks (length c))"

lemma length_de_bytes [simp]: "length (de_bytes i name) = 16"
  by (simp add: de_bytes_def length_strncpy DIRSIZ_def)

lemma length_root_entries [simp]: "length (root_entries i args) = 16 * length args"
  by (induction args arbitrary: i) simp_all

lemma made_next: "img_inv m F \<Longrightarrow> unat (mk_freeinode m') = Suc (unat (mk_freeinode m)) \<Longrightarrow> made m' = insert (mk_freeinode m) (made m)"
  using img_invD(2) [of m F] by (auto simp: made_def less_Suc_eq word_unat_eq_iff)

lemma add_file_law:
  assumes v: "img_inv m F" and ro: "ROOTINO \<in> made m" and f: "F ROOTINO = (ty, r)" and ok: "arg_ok arg"
    and n: "unat (mk_freeinode m) < NINODES" and l: "length r + 16 \<le> MAXFILE * BSIZE"
    and room: "mk_top m + nblk (blocks (length r + 16)) + file_blocks (arg_bytes arg) \<le> FSSIZE + nblk (blocks (length r))"
  shows "\<exists>m'. add_file arg m = Ok m' \<and>
    img_inv m' (F(ROOTINO := (ty, r @ de_bytes (mk_freeinode m) (file_name (fst arg))), mk_freeinode m := (T_FILE, arg_bytes arg))) \<and>
    mk_freeinode m' = mk_freeinode m + 1 \<and> unat (mk_freeinode m') = Suc (unat (mk_freeinode m)) \<and>
    mk_top m' + nblk (blocks (length r)) = mk_top m + nblk (blocks (length r + 16)) + file_blocks (arg_bytes arg)"
proof -
  obtain ps where ps: "snd arg = Some ps" "arg_bytes arg = concat ps" "slash \<notin> set (fst arg)" "length (concat ps) \<le> MAXFILE * BSIZE"
    using ok by (auto simp: arg_ok_def arg_bytes_def)
  let ?i = "mk_freeinode m" and ?de = "de_bytes (mk_freeinode m) (file_name (fst arg))"
  have z: "nblk (blocks (length ([] :: byte list))) = 0" by (simp add: blocks_div nblk_def)
  from ialloc_law [OF v n, of T_FILE] obtain m1 where
    m1: "mk_ialloc T_FILE m = Ok (?i, m1)" "img_inv m1 (F(?i := (T_FILE, [])))" "mk_freeinode m1 = ?i + 1"
      "unat (mk_freeinode m1) = Suc (unat ?i)" "mk_top m1 = mk_top m" by blast
  have mm: "made m1 = insert ?i (made m)" by (rule made_next [OF v m1(4)])
  have ri: "ROOTINO \<noteq> ?i" using ro by (auto simp: made_def)
  let ?F1 = "F(?i := (T_FILE, []))" and ?F2 = "(F(?i := (T_FILE, [])))(ROOTINO := (ty, r @ ?de))"
  have "ROOTINO \<in> made m1" "?F1 ROOTINO = (ty, r)" "length r + length ?de \<le> MAXFILE * BSIZE"
      "mk_top m1 + nblk (blocks (length r + length ?de)) \<le> FSSIZE + nblk (blocks (length r))"
    using ro mm f ri l room m1(5) by simp_all
  from iappend_law [OF m1(2) this] obtain m2 where m2: "iappend ROOTINO ?de m1 = Ok m2" "img_inv m2 ?F2" "mk_freeinode m2 = mk_freeinode m1"
      "mk_top m2 + nblk (blocks (length r)) = mk_top m1 + nblk (blocks (length r + length ?de))" by blast
  have "?i \<in> made m2" using m2(3) mm by (auto simp: made_def)
  moreover have "?F2 ?i = (T_FILE, [])" using ri by simp
  moreover have "length ([] :: byte list) + length (concat ps) \<le> MAXFILE * BSIZE" using ps(4) by simp
  moreover have "mk_top m2 + nblk (blocks (length ([] :: byte list) + length (concat ps))) \<le> FSSIZE + nblk (blocks (length ([] :: byte list)))"
    unfolding z using room m2(4) m1(5) ps(2) by (simp add: file_blocks_def)
  ultimately obtain m3 where m3: "append_pieces ?i ps m2 = Ok m3" "img_inv m3 (?F2(?i := (T_FILE, [] @ concat ps)))" "mk_freeinode m3 = mk_freeinode m2"
      "mk_top m3 + nblk (blocks (length ([] :: byte list))) = mk_top m2 + nblk (blocks (length ([] :: byte list) + length (concat ps)))"
    using append_pieces_law [OF m2(2)] by blast
  have "add_file arg m = Ok m3" using ps(1,3) m1(1) m2(1) m3(1) by (simp add: add_file_def)
  moreover have "?F2(?i := (T_FILE, [] @ concat ps)) = F(ROOTINO := (ty, r @ ?de), ?i := (T_FILE, arg_bytes arg))"
    using ri ps(2) by (simp add: fun_eq_iff)
  moreover have "mk_top m3 + nblk (blocks (length r)) = mk_top m + nblk (blocks (length r + 16)) + file_blocks (arg_bytes arg)"
    using m3(4) m2(4) m1(5) z ps(2) by (simp add: file_blocks_def)
  ultimately show ?thesis using m3(2,3) m2(3) m1(3,4) by (intro exI [of _ m3]) simp
qed

lemma add_files_law:
  "img_inv m F \<Longrightarrow> ROOTINO \<in> made m \<Longrightarrow> F ROOTINO = (ty, r) \<Longrightarrow> \<forall>arg\<in>set args. arg_ok arg \<Longrightarrow>
   unat (mk_freeinode m) + length args \<le> NINODES \<Longrightarrow> length r + 16 * length args \<le> MAXFILE * BSIZE \<Longrightarrow>
   mk_top m + nblk (blocks (length r + 16 * length args)) + sum_list (map (file_blocks \<circ> arg_bytes) args) \<le> FSSIZE + nblk (blocks (length r)) \<Longrightarrow>
   \<exists>m' F'. add_files args m = Ok m' \<and> img_inv m' F' \<and> unat (mk_freeinode m') = unat (mk_freeinode m) + length args \<and>
     F' ROOTINO = (ty, r @ root_entries (mk_freeinode m) args) \<and> (\<forall>i\<in>made m. i \<noteq> ROOTINO \<longrightarrow> F' i = F i) \<and>
     (\<forall>k<length args. F' (mk_freeinode m + of_nat k) = (T_FILE, arg_bytes (args ! k))) \<and>
     mk_top m' + nblk (blocks (length r)) = mk_top m + nblk (blocks (length r + 16 * length args)) + sum_list (map (file_blocks \<circ> arg_bytes) args)"
proof (induction args arbitrary: m F r)
  case Nil
  then show ?case by (intro exI [of _ m] exI [of _ F]) simp
next
  case (Cons arg args)
  let ?i = "mk_freeinode m" and ?de = "de_bytes (mk_freeinode m) (file_name (fst arg))"
  let ?F = "F(ROOTINO := (ty, r @ ?de), ?i := (T_FILE, arg_bytes arg))"
  have mono: "nblk (blocks (length r + 16)) \<le> nblk (blocks (length r + 16 * length (arg # args)))" by (intro nblk_mono blocks_mono) simp
  have ok: "arg_ok arg" "unat ?i < NINODES" "length r + 16 \<le> MAXFILE * BSIZE" using Cons.prems(4,5,6) by simp_all
  have "mk_top m + nblk (blocks (length r + 16)) + file_blocks (arg_bytes arg) \<le> FSSIZE + nblk (blocks (length r))"
    using Cons.prems(7) mono by simp
  from add_file_law [OF Cons.prems(1-3) ok this] obtain m1 where
    m1: "add_file arg m = Ok m1" "img_inv m1 ?F" "mk_freeinode m1 = ?i + 1" "unat (mk_freeinode m1) = Suc (unat ?i)"
      "mk_top m1 + nblk (blocks (length r)) = mk_top m + nblk (blocks (length r + 16)) + file_blocks (arg_bytes arg)" by blast
  have mm: "made m1 = insert ?i (made m)" by (rule made_next [OF Cons.prems(1) m1(4)])
  have ni: "?i \<notin> made m" by (simp add: made_def)
  have ri: "?i \<noteq> ROOTINO" using Cons.prems(2) ni by auto
  have l: "length (r @ ?de) + 16 * length args = length r + 16 * length (arg # args)" by simp
  have r1: "ROOTINO \<in> made m1" "?F ROOTINO = (ty, r @ ?de)" "\<forall>arg\<in>set args. arg_ok arg" "unat (mk_freeinode m1) + length args \<le> NINODES"
      "length (r @ ?de) + 16 * length args \<le> MAXFILE * BSIZE" unfolding l using mm Cons.prems(2,4,5,6) m1(4) ri by simp_all
  have "mk_top m1 + nblk (blocks (length (r @ ?de) + 16 * length args)) + sum_list (map (file_blocks \<circ> arg_bytes) args)
      \<le> FSSIZE + nblk (blocks (length (r @ ?de)))" unfolding l using Cons.prems(7) m1(5) by (simp add: comp_def)
  from Cons.IH [OF m1(2) r1 this] obtain m' F' where z: "add_files args m1 = Ok m'" "img_inv m' F'"
      "unat (mk_freeinode m') = unat (mk_freeinode m1) + length args"
      "F' ROOTINO = (ty, (r @ ?de) @ root_entries (mk_freeinode m1) args)" "\<forall>i\<in>made m1. i \<noteq> ROOTINO \<longrightarrow> F' i = ?F i"
      "\<forall>k<length args. F' (mk_freeinode m1 + of_nat k) = (T_FILE, arg_bytes (args ! k))"
      "mk_top m' + nblk (blocks (length (r @ ?de))) = mk_top m1 + nblk (blocks (length (r @ ?de) + 16 * length args)) + sum_list (map (file_blocks \<circ> arg_bytes) args)"
    by blast
  have tt: "mk_top m' + nblk (blocks (length r)) = mk_top m + nblk (blocks (length r + 16 * length (arg # args))) + sum_list (map (file_blocks \<circ> arg_bytes) (arg # args))"
    using z(7) m1(5) unfolding l by (simp add: comp_def)
  have "F' j = F j" if j: "j \<in> made m" "j \<noteq> ROOTINO" for j
    using z(5) [rule_format, of j] j mm ni by auto
  moreover have "F' (?i + of_nat k) = (T_FILE, arg_bytes ((arg # args) ! k))" if k: "k < length (arg # args)" for k
  proof (cases k)
    case 0
    have "?i \<in> made m1" using mm by simp
    from z(5) [rule_format, OF this ri] show ?thesis using 0 by simp
  next
    case (Suc q)
    then have "F' (mk_freeinode m1 + of_nat q) = (T_FILE, arg_bytes (args ! q))" using z(6) k by simp
    then show ?thesis using Suc m1(3) by (simp add: add.assoc)
  qed
  ultimately show ?case using m1(1,3,4) z(1-4) tt by (intro exI [of _ m'] exI [of _ F']) (simp add: comp_def)
qed

section \<open>The empty image, the size of the root, the bitmap\<close>

lemma fill_sectors:
  "n \<le> FSSIZE \<Longrightarrow> fold (\<lambda>i. wsect (of_nat i) zeroes) [0..<n] m0 =
     m0\<lparr>mk_disk := (\<lambda>b. if unat b < n then zeroes else mk_disk m0 b), mk_sectors := max n (mk_sectors m0)\<rparr>"
proof (induction n)
  case 0
  then show ?case by simp
next
  case (Suc n)
  then have n: "n < 8388608" by (simp add: FSSIZE_def)
  then have u: "unat (of_nat n :: uint) = n" by (intro unat_of_nat_32) simp
  then have k: "seek_sector (of_nat n) = of_nat n" using n by (intro seek_sector_small) simp
  have "b = of_nat n \<longleftrightarrow> unat b = n" for b :: uint using u by (auto simp: word_unat_eq_iff)
  then have "(\<lambda>b. if unat b < n then zeroes else mk_disk m0 b)(of_nat n := zeroes) = (\<lambda>b. if unat b < Suc n then zeroes else mk_disk m0 b)"
    by (auto simp: fun_eq_iff less_Suc_eq)
  then show ?case using Suc u k by (simp add: wsect_def Let_def max.assoc)
qed

lemma length_sb_bytes: "length (sb_bytes mk_sb) = 28"
  by (simp add: sb_bytes_def)

lemma empty_image_inv: "img_inv empty_image F" and empty_image_simps: "mk_freeinode empty_image = 1" "mk_top empty_image = nmeta"
proof -
  let ?m = "\<lparr>mk_disk = (\<lambda>b. if unat b < FSSIZE then zeroes else []), mk_sectors = FSSIZE, mk_freeinode = 1, mk_freeblock = of_nat nmeta\<rparr>"
  have i: "disk_inv ?m" by (simp add: disk_inv_def layout FSSIZE_def zeroes_def)
  have w: "empty_image = ?m\<lparr>mk_disk := (mk_disk ?m)(1 := put_bytes 0 (sb_bytes mk_sb) zeroes)\<rparr>"
  proof -
    have "fold (\<lambda>i. wsect (of_nat i) zeroes) [0..<FSSIZE] \<lparr>mk_disk = (\<lambda>_. []), mk_sectors = 0, mk_freeinode = 1, mk_freeblock = of_nat nmeta\<rparr> = ?m"
      unfolding fill_sectors [OF order_refl] by (simp add: FSSIZE_def cong: if_cong)
    moreover have "wsect 1 (put_bytes 0 (sb_bytes mk_sb) zeroes) ?m = ?m\<lparr>mk_disk := (mk_disk ?m)(1 := put_bytes 0 (sb_bytes mk_sb) zeroes)\<rparr>"
      by (rule wsect_ok [OF i]) (simp add: FSSIZE_def)
    ultimately show ?thesis unfolding empty_image_def by simp
  qed
  have l: "length (put_bytes 0 (sb_bytes mk_sb) zeroes) = BSIZE" by (simp add: length_put_bytes length_sb_bytes zeroes_def BSIZE_def)
  have "disk_inv empty_image" unfolding w by (rule disk_inv_write [OF i _ l]) (simp add: layout)
  moreover have "made empty_image = {}" unfolding w by (auto simp: made_def)
  moreover have "mk_disk empty_image b = (if b = 1 then put_bytes 0 (sb_bytes mk_sb) zeroes else zeroes)" if "unat b < 32" for b
    using that unfolding w by (simp add: FSSIZE_def)
  ultimately show "img_inv empty_image F" unfolding img_inv_def by (simp add: w [THEN arg_cong, of mk_freeinode] NINODES_def)
  show "mk_freeinode empty_image = 1" "mk_top empty_image = nmeta" by (simp_all add: w layout)
qed

section \<open>The size of the root, the bitmap\<close>

lemma fgood_pad: "fgood d a c n \<Longrightarrow> length c + z \<le> n * BSIZE \<Longrightarrow> fgood d a (c @ replicate z 0) n"
  by (auto simp: fgood_def nth_append)

text \<open>The size of the root is rounded up to the end of its last block.\<close>

lemma fix_root_law:
  assumes v: "img_inv m F" and i: "ROOTINO \<in> made m" and f: "F ROOTINO = (ty, c)" and len: "length c \<le> MAXFILE * BSIZE" and z: "length c mod BSIZE \<noteq> 0"
  shows "\<exists>m'. fix_root m = Ok m' \<and> img_inv m' (F(ROOTINO := (ty, c @ replicate (BSIZE - length c mod BSIZE) 0))) \<and>
    mk_freeinode m' = mk_freeinode m \<and> mk_top m' = mk_top m"
proof -
  note I = img_invD [OF v]
  have iN: "unat ROOTINO < NINODES" by (rule I(7) [OF i])
  let ?i = ROOTINO and ?x = "din m ROOTINO" and ?c = "c @ replicate (BSIZE - length c mod BSIZE) 0"
  from I(4) [OF i] f have O: "ip_type ?x = ty" "ip_nlink ?x = 1" "ip_size ?x = of_nat (length c)"
      "fgood (mk_disk m) (ip_addrs ?x) c (blocks (length c))" "iptrs m ?i \<subseteq> area m" using file_onD [of m ?i "(ty, c)"] by simp_all
  have lc: "length ?c = Suc (length c div BSIZE) * BSIZE"
  proof -
    have "length c = BSIZE * (length c div BSIZE) + length c mod BSIZE" "length c mod BSIZE < BSIZE" by simp_all
    then have "length c + (BSIZE - length c mod BSIZE) = BSIZE + BSIZE * (length c div BSIZE)" by linarith
    then show ?thesis by (simp add: mult.commute)
  qed
  have bl: "blocks (length c) = Suc (length c div BSIZE)" "blocks (length ?c) = Suc (length c div BSIZE)"
    using z unfolding blocks_div lc by simp_all
  have fit: "length c + (BSIZE - length c mod BSIZE) \<le> blocks (length c) * BSIZE" using lc unfolding bl by simp
  have g: "fgood (mk_disk m) (ip_addrs ?x) ?c (blocks (length ?c))" using fgood_pad [OF O(4) fit] unfolding bl .
  have u: "unat (ip_size ?x) = length c" unfolding O(3) using len by (intro unat_of_nat_32) (simp add: MAXFILE_BSIZE)
  have q: "length c div BSIZE \<le> MAXFILE" using len div_le_mono [OF len, of BSIZE] by simp
  have sz: "(ip_size ?x div of_nat BSIZE + 1) * of_nat BSIZE = of_nat (length ?c)"
  proof -
    have "ip_size ?x div of_nat BSIZE = of_nat (length c div BSIZE)"
    proof (rule word_unat_eq_iff [THEN iffD2])
      have "unat (of_nat (length c div BSIZE) :: uint) = length c div BSIZE"
        using q by (intro unat_of_nat_32) (simp add: MAXFILE_def NINDIRECT_def NDIRECT_def BSIZE_def)
      moreover have "unat (of_nat BSIZE :: uint) = BSIZE" by (simp add: BSIZE_def)
      ultimately show "unat (ip_size ?x div of_nat BSIZE) = unat (of_nat (length c div BSIZE) :: uint)" using u by (simp add: unat_div)
    qed
    then show ?thesis unfolding lc by (simp add: algebra_simps)
  qed
  let ?y = "?x\<lparr>ip_size := of_nat (length ?c)\<rparr>"
  have "length (ip_addrs ?y) = NDIRECT + 1" using fgoodD(1) [OF g] by simp
  from winode_ok [OF I(1) iN this] obtain m2 where
    w: "winode ?i ?y m = Ok m2" "disk_inv m2" "mk_freeinode m2 = mk_freeinode m" "mk_freeblock m2 = mk_freeblock m"
      "din m2 ?i = inode_zero\<lparr>ip_type := ip_type ?y, ip_major := ip_major ?y, ip_minor := ip_minor ?y, ip_nlink := ip_nlink ?y,
        ip_size := ip_size ?y, ip_addrs := ip_addrs ?y\<rparr>"
      "\<And>j. unat j < NINODES \<Longrightarrow> j \<noteq> ?i \<Longrightarrow> din m2 j = din m j" "\<And>b. b \<noteq> IBLOCK ?i mk_sb \<Longrightarrow> mk_disk m2 b = mk_disk m b" by blast
  have run: "fix_root m = Ok m2" using rinode_ok [OF I(1) iN] w(1) sz by (simp add: fix_root_def)
  have data: "mk_disk m2 b = mk_disk m b" if "b \<in> area m" for b
    using area_not_meta [OF that] iblock_place(3) [OF iN] by (intro w(7)) (auto simp: layout)
  have p1: "\<forall>b\<in>iptrs m ?i. mk_disk m2 b = mk_disk m b" using O(5) data by blast
  note P = fgood_cong [OF g p1]
  have ar: "area m2 = area m" using w(4) by (simp add: area_def)
  have here: "file_on m2 ?i (ty, ?c)" "iptrs m2 ?i = iptrs m ?i" using O(1,2,5) w(5) P ar by (simp_all add: file_on_def)
  have mm: "made m2 = made m" using w(3) by (simp add: made_def)
  have there: "file_on m2 j (F j)" "iptrs m2 j = iptrs m j" if j: "j \<in> made m" "j \<noteq> ?i" for j
  proof -
    have s: "\<forall>b\<in>iptrs m j. mk_disk m2 b = mk_disk m b" using file_onD(5) [OF I(4) [OF j(1)]] data by blast
    show "file_on m2 j (F j)" "iptrs m2 j = iptrs m j"
      using file_on_keep [OF I(4) [OF j(1)] w(6) [OF I(7) [OF j(1)] j(2)] s] w(4) by simp_all
  qed
  have same: "iptrs m2 j = iptrs m j" if "j \<in> made m" for j using here(2) there(2) [OF that] by blast
  have meta: "mk_disk m2 b = (if b = 1 then put_bytes 0 (sb_bytes mk_sb) zeroes else zeroes)" if "unat b < 32" for b
    using that iblock_place(2) [OF iN] w(7) [of b] I(6) [OF that] by fastforce
  have "img_inv m2 (F(?i := (ty, ?c)))"
    unfolding img_inv_def mm using w(2,3) I(2,3,5) here(1) there(1) same meta by auto
  then show ?thesis using run w(3,4) by (intro exI [of _ m2]) simp
qed

text \<open>The bitmap has the blocks in front of the first free one as used.\<close>

lemma fold_mark: "k < 8 * length d \<Longrightarrow> length (fold mark_bit [0..<n] d) = length d \<and> (bit_free (fold mark_bit [0..<n] d) k \<longleftrightarrow> n \<le> k \<and> bit_free d k)"
  by (induction n) (auto simp: bit_free_mark)

lemma mk_balloc_law:
  assumes v: "img_inv m F"
  shows "\<exists>m'. mk_balloc (mk_freeblock m) m = Ok m' \<and> img_inv m' F \<and> mk_freeinode m' = mk_freeinode m \<and> mk_top m' = mk_top m \<and>
    (\<forall>k<4096. bit_free (mk_disk m' 58) k \<longleftrightarrow> mk_top m \<le> k)"
proof -
  note I = img_invD [OF v] and M = disk_invD [OF img_invD(1) [OF v]]
  let ?z = "fold mark_bit [0..<mk_top m] zeroes"
  have t: "mk_top m \<le> 4000" using M(3) by (simp add: FSSIZE_def)
  then have s: "sint (mk_freeblock m) = int (mk_top m)" using sint_of_nat_32 [of "mk_top m"] by simp
  let ?m = "m\<lparr>mk_disk := (mk_disk m)(58 := ?z)\<rparr>"
  have lz: "length ?z = BSIZE" using fold_mark [of 0 zeroes "mk_top m"] by (simp add: zeroes_def BSIZE_def)
  have "wsect 58 ?z m = ?m" by (rule wsect_ok [OF I(1)]) (simp add: FSSIZE_def)
  moreover have "sint (mk_freeblock m) < int (BSIZE * 8)" "nat (sint (mk_freeblock m)) = mk_top m" using s t by (simp_all only: BSIZE_def nat_int)
  ultimately have run: "mk_balloc (mk_freeblock m) m = Ok ?m" by (simp only: mk_balloc_def mk_sb_fields if_True)
  have inv: "disk_inv ?m" by (rule disk_inv_write [OF I(1) _ lz]) (use M(2) in \<open>simp add: layout\<close>)
  have dn: "din ?m i = din m i" if "unat i < NINODES" for i
    using iblock_place(3) [OF that] by (auto simp: din_def)
  have mm: "made ?m = made m" by (simp add: made_def)
  have there: "file_on ?m j (F j)" "iptrs ?m j = iptrs m j" if j: "j \<in> made m" for j
  proof -
    have "58 \<notin> iptrs m j" using file_onD(5) [OF I(4) [OF j]] area_not_meta [of 58 m] by (auto simp: layout)
    then have "\<forall>b\<in>iptrs m j. mk_disk ?m b = mk_disk m b" by auto
    from file_on_keep [OF I(4) [OF j] dn [OF I(7) [OF j]] this] show "file_on ?m j (F j)" "iptrs ?m j = iptrs m j" by simp_all
  qed
  have "img_inv ?m F" unfolding img_inv_def mm using inv I(2,3,5,6) there by auto
  moreover have "bit_free ?z k \<longleftrightarrow> mk_top m \<le> k" if "k < 4096" for k
  proof -
    have "k < 8 * length zeroes" using that by (simp add: zeroes_def BSIZE_def)
    from fold_mark [OF this, of "mk_top m"] show ?thesis using that by (simp add: bit_free_iff zeroes_def BSIZE_def)
  qed
  ultimately show ?thesis using run by (intro exI [of _ ?m]) simp
qed

section \<open>The program\<close>

definition root_bytes :: "(byte list \<times> byte list list option) list \<Rightarrow> byte list" where
  "root_bytes args = de_bytes ROOTINO [46] @ de_bytes ROOTINO [46, 46] @ root_entries 2 args"

lemma length_root_bytes [simp]: "length (root_bytes args) = 32 + 16 * length args"
  by (simp add: root_bytes_def)

text \<open>The image has room: an inode for each file, a block for each piece of 512 bytes, the indirect blocks, and a root whose entries
  do not fill their last block.\<close>

definition fits :: "(byte list \<times> byte list list option) list \<Rightarrow> bool" where
  "fits args \<longleftrightarrow> (\<forall>arg\<in>set args. arg_ok arg) \<and> length args + 2 \<le> NINODES \<and> (length args + 2) mod 32 \<noteq> 0 \<and>
     nmeta + nblk (blocks (32 + 16 * length args)) + sum_list (map (file_blocks \<circ> arg_bytes) args) \<le> FSSIZE"

definition file_of :: "(byte list \<times> byte list list option) list \<Rightarrow> uint \<Rightarrow> short \<times> byte list" where
  "file_of args i = (if i = ROOTINO then (T_DIR, root_bytes args @ replicate (BSIZE - length (root_bytes args) mod BSIZE) 0)
     else (T_FILE, arg_bytes (args ! (unat i - 2))))"

lemma mkfs_main_law:
  assumes "fits args"
  shows "\<exists>m F. mkfs_main args = Ok m \<and> img_inv m F \<and> unat (mk_freeinode m) = length args + 2 \<and> (\<forall>k<4096. bit_free (mk_disk m 58) k \<longleftrightarrow> mk_top m \<le> k) \<and>
    (\<forall>i\<in>made m. F i = file_of args i) \<and> mk_top m = nmeta + nblk (blocks (32 + 16 * length args)) + sum_list (map (file_blocks \<circ> arg_bytes) args)"
proof -
  let ?n = "length args"
  have a: "\<forall>arg\<in>set args. arg_ok arg" "?n + 2 \<le> NINODES" "(?n + 2) mod 32 \<noteq> 0"
    "nmeta + nblk (blocks (32 + 16 * ?n)) + sum_list (map (file_blocks \<circ> arg_bytes) args) \<le> FSSIZE" using assms by (simp_all add: fits_def)
  have n: "?n \<le> 198" using a(2) by (simp add: NINODES_def)
  then have big: "32 + 16 * ?n \<le> MAXFILE * BSIZE" by (simp add: MAXFILE_BSIZE)
  have z: "nblk (blocks (length ([] :: byte list))) = 0" by (simp add: blocks_div nblk_def)
  have up: "nblk (blocks l) \<le> nblk (blocks (32 + 16 * ?n))" if "l \<le> 32" for l using that by (intro nblk_mono blocks_mono) simp
  note E = empty_image_simps
  have "unat (mk_freeinode empty_image) < NINODES" by (simp add: E NINODES_def)
  moreover obtain F0 where F0: "img_inv empty_image F0" using empty_image_inv by blast
  ultimately have e: "img_inv empty_image F0" "unat (mk_freeinode empty_image) < NINODES" by simp_all
  from ialloc_law [OF e, of T_DIR] obtain m1 where
    m1: "mk_ialloc T_DIR empty_image = Ok (ROOTINO, m1)" "img_inv m1 (F0(ROOTINO := (T_DIR, [])))" "mk_freeinode m1 = 2" "mk_top m1 = nmeta"
    unfolding E ROOTINO_def by auto
  have f1: "(F0(ROOTINO := (T_DIR, []))) ROOTINO = (T_DIR, [])" by simp
  have r1: "ROOTINO \<in> made m1" by (simp add: made_def m1(3) ROOTINO_def)
  have l1: "length ([] :: byte list) + length (de_bytes ROOTINO [46]) \<le> MAXFILE * BSIZE"
    "mk_top m1 + nblk (blocks (length ([] :: byte list) + length (de_bytes ROOTINO [46]))) \<le> FSSIZE + nblk (blocks (length ([] :: byte list)))"
    using a(4) up [of 16] m1(4) by (simp_all add: MAXFILE_BSIZE)
  from iappend_law [OF m1(2) r1 f1 l1] obtain m2 where
    q2: "iappend ROOTINO (de_bytes ROOTINO [46]) m1 = Ok m2" "img_inv m2 ((F0(ROOTINO := (T_DIR, [])))(ROOTINO := (T_DIR, [] @ de_bytes ROOTINO [46])))"
      "mk_freeinode m2 = mk_freeinode m1" "mk_top m2 + nblk (blocks (length ([] :: byte list))) = mk_top m1 + nblk (blocks (length ([] :: byte list) + length (de_bytes ROOTINO [46])))"
    by blast
  have m2: "iappend ROOTINO (de_bytes ROOTINO [46]) m1 = Ok m2" "img_inv m2 (F0(ROOTINO := (T_DIR, de_bytes ROOTINO [46])))"
      "mk_freeinode m2 = 2" "mk_top m2 = nmeta + nblk (blocks 16)" using q2 m1(3,4) z by simp_all
  have f2: "(F0(ROOTINO := (T_DIR, de_bytes ROOTINO [46]))) ROOTINO = (T_DIR, de_bytes ROOTINO [46])" by simp
  have r2: "ROOTINO \<in> made m2" by (simp add: made_def m2(3) ROOTINO_def)
  have l2: "length (de_bytes ROOTINO [46]) + length (de_bytes ROOTINO [46, 46]) \<le> MAXFILE * BSIZE"
    "mk_top m2 + nblk (blocks (length (de_bytes ROOTINO [46]) + length (de_bytes ROOTINO [46, 46]))) \<le> FSSIZE + nblk (blocks (length (de_bytes ROOTINO [46])))"
    using a(4) up [of 32] m2(4) by (simp_all add: MAXFILE_BSIZE)
  let ?r = "de_bytes ROOTINO [46] @ de_bytes ROOTINO [46, 46]"
  from iappend_law [OF m2(2) r2 f2 l2] obtain m3 where
    q3: "iappend ROOTINO (de_bytes ROOTINO [46, 46]) m2 = Ok m3" "img_inv m3 ((F0(ROOTINO := (T_DIR, de_bytes ROOTINO [46])))(ROOTINO := (T_DIR, ?r)))"
      "mk_freeinode m3 = mk_freeinode m2" "mk_top m3 + nblk (blocks (length (de_bytes ROOTINO [46]))) =
         mk_top m2 + nblk (blocks (length (de_bytes ROOTINO [46]) + length (de_bytes ROOTINO [46, 46])))"
    by blast
  have m3: "iappend ROOTINO (de_bytes ROOTINO [46, 46]) m2 = Ok m3" "img_inv m3 (F0(ROOTINO := (T_DIR, ?r)))"
      "mk_freeinode m3 = 2" "mk_top m3 = nmeta + nblk (blocks 32)" using q3 m2(3,4) by simp_all
  have f3: "(F0(ROOTINO := (T_DIR, ?r))) ROOTINO = (T_DIR, ?r)" by simp
  have r3: "ROOTINO \<in> made m3" by (simp add: made_def m3(3) ROOTINO_def)
  have l3: "unat (mk_freeinode m3) + ?n \<le> NINODES" "length ?r + 16 * ?n \<le> MAXFILE * BSIZE"
    "mk_top m3 + nblk (blocks (length ?r + 16 * ?n)) + sum_list (map (file_blocks \<circ> arg_bytes) args) \<le> FSSIZE + nblk (blocks (length ?r))"
    using a(2,4) m3(3,4) big by simp_all
  from add_files_law [OF m3(2) r3 f3 a(1) l3] obtain m4 F where
    m4: "add_files args m3 = Ok m4" "img_inv m4 F" "unat (mk_freeinode m4) = 2 + ?n" "F ROOTINO = (T_DIR, root_bytes args)"
      "\<forall>k<?n. F (2 + of_nat k) = (T_FILE, arg_bytes (args ! k))"
      "mk_top m4 = nmeta + nblk (blocks (32 + 16 * ?n)) + sum_list (map (file_blocks \<circ> arg_bytes) args)" using m3(3,4) by (auto simp: root_bytes_def)
  have r4: "ROOTINO \<in> made m4" by (simp add: made_def m4(3) ROOTINO_def)
  have l4: "length (root_bytes args) \<le> MAXFILE * BSIZE" using big by simp
  have "16 * (?n + 2) mod (16 * 32) = 16 * ((?n + 2) mod 32)" by (rule mult_mod_right [symmetric])
  then have "length (root_bytes args) mod BSIZE \<noteq> 0" using a(3) by (simp add: BSIZE_def algebra_simps)
  from fix_root_law [OF m4(2) r4 m4(4) l4 this] obtain m5 where
    m5: "fix_root m4 = Ok m5" "img_inv m5 (F(ROOTINO := file_of args ROOTINO))" "mk_freeinode m5 = mk_freeinode m4" "mk_top m5 = mk_top m4" by (auto simp: file_of_def)
  from mk_balloc_law [OF m5(2)] obtain m where
    m: "mk_balloc (mk_freeblock m5) m5 = Ok m" "img_inv m (F(ROOTINO := file_of args ROOTINO))" "mk_freeinode m = mk_freeinode m5"
      "\<forall>k<4096. bit_free (mk_disk m 58) k \<longleftrightarrow> mk_top m \<le> k" "mk_top m = mk_top m5" by auto
  have "(F(ROOTINO := file_of args ROOTINO)) i = file_of args i" if i: "i \<in> made m" for i
  proof (cases "i = ROOTINO")
    case False
    have b: "0 < unat i" "unat i < 2 + ?n" "unat i \<noteq> 1" using i False m(3) m5(3) m4(3) by (auto simp: made_def ROOTINO_def word_unat_eq_iff)
    then have k: "unat i - 2 < ?n" "2 \<le> unat i" by linarith+
    then have "2 + of_nat (unat i - 2) = i" by (simp add: of_nat_diff)
    then show ?thesis using m4(5) k(1) False by (auto simp: file_of_def)
  qed simp
  moreover have "mkfs_main args = Ok m" using m1(1) m2(1) m3(1) m4(1) m5(1) m(1) by (simp add: mkfs_main_def)
  moreover have "unat (mk_freeinode m) = ?n + 2" using m(3) m5(3) m4(3) by simp
  moreover have "mk_top m = nmeta + nblk (blocks (32 + 16 * ?n)) + sum_list (map (file_blocks \<circ> arg_bytes) args)" using m(5) m5(4) m4(6) by simp
  ultimately show ?thesis using m(2,4) by blast
qed

section \<open>What the kernel finds\<close>

text \<open>The kernel on the image, in a transaction that has changed nothing yet, with the inodes of the numbers \<open>is\<close> in use.\<close>

definition kernel_on :: "mkfs \<Rightarrow> uint list \<Rightarrow> fsys" where
  "kernel_on m nums = \<lparr>fs_sb = mk_sb, fs_log = log_start\<lparr>lg_start := 2, lg_size := 30, lg_dev := 1, lg_outstanding := 1\<rparr>,
     fs_io = binit 7 (mk_disk m) 4000, fs_inodes = map (\<lambda>i. (din m i)\<lparr>ip_dev := 1, ip_inum := i, ip_ref := 1, ip_valid := True\<rparr>) nums\<rparr>"

lemma kernel_fields: "fs_sb (kernel_on m nums) = mk_sb" "logged (kernel_on m nums) = {}"
  "b \<in> log_blocks (kernel_on m nums) \<longleftrightarrow> 2 \<le> unat b \<and> unat b < 32"
  "fs_inodes (kernel_on m nums) = map (\<lambda>i. (din m i)\<lparr>ip_dev := 1, ip_inum := i, ip_ref := 1, ip_valid := True\<rparr>) nums"
  by (simp_all add: kernel_on_def homes_def log_start_def log_area_def)

lemma kernel_cache:
  assumes "disk_inv m"
  shows "V (kernel_on m nums) = mk_disk m" "H (kernel_on m nums) = Map.empty" "cache_inv (fs_io (kernel_on m nums))"
    "dirty_blocks (fs_io (kernel_on m nums)) = {}" "disk_size (kernel_on m nums) = 4000" "io_disk (fs_io (kernel_on m nums)) = mk_disk m"
proof -
  have len: "\<forall>b < (4000::uint). length (mk_disk m b) = BSIZE" using disk_invD(4) [OF assms] by (simp add: FSSIZE_def word_less_nat_alt)
  have io: "fs_io (kernel_on m nums) = binit 7 (mk_disk m) 4000" by (simp add: kernel_on_def)
  note q = binit_quiet [OF len, of 7]
  show "V (kernel_on m nums) = mk_disk m" "dirty_blocks (fs_io (kernel_on m nums)) = {}" unfolding io by (rule q)+
  show "H (kernel_on m nums) = Map.empty" "cache_inv (fs_io (kernel_on m nums))" using q(1) unfolding io bc.quiet_def by blast+
  show "disk_size (kernel_on m nums) = 4000" "io_disk (fs_io (kernel_on m nums)) = mk_disk m" unfolding io by (simp_all add: binit_def)
qed

lemma kernel_txn: "disk_inv m \<Longrightarrow> txn (kernel_on m nums)"
proof -
  assume m: "disk_inv m"
  have "log_ok (fs_log (kernel_on m nums)) 4000" "1 \<le> lg_outstanding (fs_log (kernel_on m nums))" "30 \<le> lg_size (fs_log (kernel_on m nums))"
    by (simp_all add: kernel_on_def log_ok_def homes_def log_start_def LOGSIZE_def)
  then show ?thesis unfolding txn_def kernel_cache(1,4-6) [OF m] kernel_fields using kernel_cache(3) [OF m] by simp
qed

lemma kernel_fs_ok:
  assumes m: "disk_inv m" and bits: "\<forall>k<4096. bit_free (mk_disk m 58) k \<longleftrightarrow> mk_top m \<le> k"
  shows "fs_ok (kernel_on m nums)" and "b \<in> area m \<Longrightarrow> owned (kernel_on m nums) b"
    and "b \<in> unused (kernel_on m nums) \<longleftrightarrow> mk_top m \<le> unat b \<and> unat b < 4000"
proof -
  let ?s = "kernel_on m nums"
  note C = kernel_cache [OF m] and M = disk_invD [OF m]
  have t: "59 \<le> mk_top m" "mk_top m \<le> 4000" using M(2,3) by (simp_all add: layout FSSIZE_def)
  have ib: "32 \<le> unat b \<and> unat b < 57" if "b \<in> inode_blocks ?s" for b
    using that iblock_place(2,3) by (auto simp: inode_blocks_def kernel_fields mk_sb_fields NINODES_def word_less_nat_alt)
  have un: "b \<in> unused ?s \<longleftrightarrow> mk_top m \<le> unat b \<and> unat b < 4000" for b
    using bits by (auto simp: unused_def kernel_fields C mk_sb_fields word_less_nat_alt)
  have data: "data_block ?s b" if "59 \<le> unat b" "unat b < 4000" for b
  proof -
    have "b \<noteq> 0" "b \<noteq> 58" using that(1) by auto
    then show ?thesis using that ib [of b] unfolding data_block_def kernel_fields by (auto simp: mk_sb_fields word_less_nat_alt)
  qed
  have "\<forall>b\<in>unused ?s. data_block ?s b" using un data t(1) by auto
  moreover have "small_fs ?s" by (simp add: small_fs_def kernel_fields C mk_sb_fields BPB_def)
  moreover have "58 \<notin> inode_blocks ?s" using ib [of 58] by auto
  moreover have "\<forall>b\<in>inode_blocks ?s. b < disk_size ?s \<and> b \<notin> log_blocks ?s" unfolding C(5) kernel_fields by (auto simp: word_less_nat_alt dest!: ib)
  ultimately show "fs_ok ?s" unfolding fs_ok_def by (simp add: kernel_fields mk_sb_fields)
  show "b \<in> unused ?s \<longleftrightarrow> mk_top m \<le> unat b \<and> unat b < 4000" by (rule un)
  show "owned ?s b" if "b \<in> area m" using that un data t by (auto simp: owned_def area_def layout)
qed

lemma kernel_file:
  assumes v: "img_inv m F" and bits: "\<forall>k<4096. bit_free (mk_disk m 58) k \<longleftrightarrow> mk_top m \<le> k" and k: "k < length nums" "nums ! k \<in> made m"
    and f: "F (nums ! k) = (ty, c)" and ty: "ty \<noteq> T_DEV"
  shows "file_inv (kernel_on m nums) k" and "contents (kernel_on m nums) k = c" and "ip_type (inode_of (kernel_on m nums) k) = ty"
proof -
  let ?s = "kernel_on m nums" and ?i = "nums ! k"
  note I = img_invD [OF v] and C = kernel_cache [OF img_invD(1) [OF v]] and K = kernel_fs_ok [OF img_invD(1) [OF v] bits]
  have o: "inode_of ?s k = (din m ?i)\<lparr>ip_dev := 1, ip_inum := ?i, ip_ref := 1, ip_valid := True\<rparr>" using k(1) by (simp add: kernel_fields)
  from I(4) [OF k(2)] f have O: "ip_type (din m ?i) = ty" "ip_size (din m ?i) = of_nat (length c)"
      "fgood (mk_disk m) (ip_addrs (din m ?i)) c (blocks (length c))" "iptrs m ?i \<subseteq> area m" using file_onD [of m ?i "(ty, c)"] by simp_all
  note G = fgoodD [OF O(3)]
  have b: "blk ?s k = fblk (mk_disk m) (ip_addrs (din m ?i))" unfolding fun_eq_iff blk_def fblk_def o C(1) by simp
  then have p: "bptr ?s k = fptr (mk_disk m) (ip_addrs (din m ?i))" unfolding fun_eq_iff bptr_def fptr_def o by simp
  have lM: "length c \<le> MAXFILE * BSIZE" using G(2,3) by (meson le_trans mult_le_mono1)
  have sz: "fsize ?s k = length c" unfolding o using lM by (simp add: O(2)) (intro unat_of_nat_32, simp add: MAXFILE_BSIZE)
  have in_blk: "fblk (mk_disk m) (ip_addrs (din m ?i)) (j div BSIZE) \<noteq> 0" if "j < length c" for j
  proof -
    have "j div BSIZE < blocks (length c)" using that G(3) by (intro less_mult_imp_div_less) simp
    then show ?thesis using G(2) G(4) [of "j div BSIZE"] by simp
  qed
  have own: "owned ?s (fptr (mk_disk m) (ip_addrs (din m ?i)) j)" if "j \<le> MAXFILE" "fptr (mk_disk m) (ip_addrs (din m ?i)) j \<noteq> 0" for j
    using that O(4) by (intro K(2)) (auto simp: fptrs_def)
  have inum: "?i < sb_ninodes (fs_sb ?s)" using I(7) [OF k(2)] by (simp add: kernel_fields mk_sb_fields NINODES_def word_less_nat_alt)
  have "k < length (fs_inodes ?s)" using k(1) by (simp add: kernel_fields)
  then have "file_ok ?s k" unfolding file_ok_def p unfolding o using own inum G(1) G(6) by (simp, metis)
  then show "file_inv ?s k" unfolding file_inv_def sz b
    using kernel_txn [OF I(1)] K(1) C(2) in_blk lM ty O(1) o by simp
  show "contents ?s k = c" unfolding contents_def sz
  proof (rule nth_equalityI)
    fix j assume "j < length (map (fbyte ?s k) [0..<length c])"
    then have j: "j < length c" by simp
    then show "map (fbyte ?s k) [0..<length c] ! j = c ! j" using G(3) G(7) [of j] by (simp add: fbyte_def b C(1))
  qed simp
  show "ip_type (inode_of ?s k) = ty" by (simp add: o O(1))
qed

lemma superblock_on_image:
  assumes "img_inv m F"
  shows "superblock_of (mk_disk m 1) = mk_sb"
proof -
  let ?f = "[sb_size mk_sb, sb_nblocks mk_sb, sb_ninodes mk_sb, sb_nlog mk_sb, sb_logstart mk_sb, sb_inodestart mk_sb, sb_bmapstart mk_sb]"
  have d: "mk_disk m 1 = put_bytes 0 (sb_bytes mk_sb) zeroes" using img_invD(6) [OF assms, of 1] by simp
  have e: "sb_bytes mk_sb = concat (map bytes32 ?f) @ []" by (simp add: sb_bytes_def)
  have "le32 (mk_disk m 1) (4 * j) = ?f ! j" if "j < 7" for j
  proof -
    have "le32 (mk_disk m 1) (0 + 4 * j) = le32 (sb_bytes mk_sb) (4 * j)"
      unfolding d by (rule le_put(1)) (use that in \<open>simp_all add: length_sb_bytes zeroes_def BSIZE_def\<close>)
    also have "\<dots> = ?f ! j" unfolding e by (rule le32_concat) (use that in simp)
    finally show ?thesis by simp
  qed
  note this [of 0] this [of 1] this [of 2] this [of 3] this [of 4] this [of 5] this [of 6]
  then show ?thesis by (simp add: superblock_of_def numeral_eq_Suc)
qed

text \<open>The file system that \<open>mkfs\<close> builds: the program succeeds when everything fits, and the kernel finds a well-formed file
  system with the names in the root and the bytes of each file.\<close>

theorem mkfs_file_system:
  assumes "fits args"
  shows "\<exists>m. mkfs_main args = Ok m \<and> superblock_of (mk_disk m 1) = mk_sb \<and>
    (\<forall>nums. set nums \<subseteq> {i. 0 < unat i \<and> unat i < length args + 2} \<longrightarrow> fs_ok (kernel_on m nums) \<and>
      (\<forall>k<length nums. file_inv (kernel_on m nums) k \<and> ip_type (inode_of (kernel_on m nums) k) = fst (file_of args (nums ! k)) \<and>
         contents (kernel_on m nums) k = snd (file_of args (nums ! k))))"
proof -
  from mkfs_main_law [OF assms] obtain m F where m: "mkfs_main args = Ok m" "img_inv m F" "unat (mk_freeinode m) = length args + 2"
      "\<forall>k<4096. bit_free (mk_disk m 58) k \<longleftrightarrow> mk_top m \<le> k" "\<forall>i\<in>made m. F i = file_of args i" by blast
  have ty: "fst (file_of args i) \<noteq> T_DEV" for i by (simp add: file_of_def T_DIR_def T_FILE_def T_DEV_def)
  have "file_inv (kernel_on m nums) k \<and> ip_type (inode_of (kernel_on m nums) k) = fst (file_of args (nums ! k)) \<and>
         contents (kernel_on m nums) k = snd (file_of args (nums ! k))"
    if s: "set nums \<subseteq> {i. 0 < unat i \<and> unat i < length args + 2}" and k: "k < length nums" for nums k
  proof -
    have i: "nums ! k \<in> made m" using s nth_mem [OF k] m(3) by (auto simp: made_def)
    have "F (nums ! k) = (fst (file_of args (nums ! k)), snd (file_of args (nums ! k)))" using m(5) i by simp
    from kernel_file [OF m(2,4) k i this ty] show ?thesis by blast
  qed
  with m(1) superblock_on_image [OF m(2)] kernel_fs_ok(1) [OF img_invD(1) [OF m(2)] m(4)] show ?thesis by blast
qed

section \<open>A file of the image is written\<close>

text \<open>The image with one file, in which the kernel changes the second byte and appends another one.\<close>

definition demo_args :: "(byte list \<times> byte list list option) list" where
  "demo_args = [([95, 65], Some [[104], [105]])]"

lemma demo_fits: "fits demo_args"
  by (simp add: fits_def demo_args_def arg_ok_def arg_bytes_def file_blocks_def nblk_def blocks_def BSIZE_def NINODES_def NDIRECT_def
      FSSIZE_def layout MAXFILE_def NINDIRECT_def slash_def)

lemma files_are_byte_lists_witness:
  "\<exists>m t u. mkfs_main demo_args = Ok m \<and> contents (kernel_on m [2]) 0 = [104, 105] \<and>
     writei no_devices 0 [111, 33] 1 (kernel_on m [2]) = Ok (2, t) \<and> contents t 0 = [104, 111, 33] \<and> readi no_devices 0 1 7 t = Ok (2, [111, 33], u)"
proof -
  from mkfs_main_law [OF demo_fits] obtain m F where m: "mkfs_main demo_args = Ok m" "img_inv m F" "unat (mk_freeinode m) = length demo_args + 2"
      "\<forall>k<4096. bit_free (mk_disk m 58) k \<longleftrightarrow> mk_top m \<le> k" "\<forall>i\<in>made m. F i = file_of demo_args i"
      "mk_top m = nmeta + nblk (blocks (32 + 16 * length demo_args)) + sum_list (map (file_blocks \<circ> arg_bytes) demo_args)" by blast
  let ?s = "kernel_on m [2]"
  have two: "0 < length [2 :: uint]" "[2 :: uint] ! 0 \<in> made m" using m(3) by (simp_all add: made_def demo_args_def)
  have f: "F ([2] ! 0) = (T_FILE, [104, 105])" using m(5) two(2) by (simp add: file_of_def ROOTINO_def demo_args_def arg_bytes_def)
  have ty: "T_FILE \<noteq> T_DEV" by (simp add: T_FILE_def T_DEV_def)
  note K = kernel_file [OF m(2,4) two f ty]
  have sz: "fsize ?s 0 = 2" using K(2) length_contents [of ?s 0] by simp
  have tp: "mk_top m = 61" unfolding m(6) by (simp add: demo_args_def layout nblk_def blocks_def file_blocks_def arg_bytes_def BSIZE_def NDIRECT_def)
  have "{61, 62, 63} \<subseteq> unused ?s" using kernel_fs_ok(3) [OF img_invD(1) [OF m(2)] m(4)] by (auto simp: tp)
  then have "card {61 :: uint, 62, 63} \<le> card (unused ?s)" by (intro card_mono) simp_all
  then have "3 \<le> card (unused ?s)" by simp
  then have av: "2 \<le> avail ?s 0" unfolding avail_def by (simp split: if_split) presburger
  have nb: "nblocks (unat (1 :: uint)) (length [111 :: byte, 33]) = 1" by (simp add: nblocks_def BSIZE_def)
  have h: "unat (1 :: uint) \<le> fsize ?s 0" "unat (1 :: uint) + length [111 :: byte, 33] \<le> MAXFILE * BSIZE"
    "nblocks (unat (1 :: uint)) (length [111 :: byte, 33]) \<le> avail ?s 0"
    "card (logged ?s) + nblocks (unat (1 :: uint)) (length [111 :: byte, 33]) + 3 \<le> LOGMAX"
    unfolding nb sz kernel_fields(2) using av by (simp_all only: MAXFILE_BSIZE LOGMAX_def) simp_all
  from files_are_byte_lists [OF K(1) h, of no_devices] obtain t where
    t: "writei no_devices 0 [111, 33] 1 ?s = Ok (int (length [111 :: byte, 33]), t)"
      "contents t 0 = take (unat (1 :: uint)) (contents ?s 0) @ [111, 33] @ drop (unat (1 :: uint) + length [111 :: byte, 33]) (contents ?s 0)"
    and r: "\<forall>p k. unat p \<le> fsize t 0 \<and> unat p + unat k < 2 ^ 32 \<longrightarrow>
      (\<exists>u. readi no_devices 0 p k t = Ok (int (min (unat k) (fsize t 0 - unat p)), take (unat k) (drop (unat p) (contents t 0)), u) \<and>
        file_inv u 0 \<and> contents u 0 = contents t 0)" by blast
  have c: "contents t 0 = [104, 111, 33]" using t(2) K(2) by simp
  have z: "fsize t 0 = 3" using c length_contents [of t 0] by simp
  from r [rule_format, of 1 7] obtain u where "readi no_devices 0 1 7 t = Ok (2, [111, 33], u)" by (auto simp: c z)
  moreover have "writei no_devices 0 [111, 33] 1 ?s = Ok (2, t)" using t(1) by simp
  ultimately show ?thesis using m(1) K(2) c by blast
qed

end
