(* ===== verification/Syscall.thy ===== *)
theory Syscall
  imports Bytes
begin

text \<open>
  xv6, \<open>syscall.c\<close>: the arguments of a system call, which lie on the user stack and may be pointers into the
  memory of the process. \<open>None\<close> is the \<open>-1\<close> of a bad argument.
\<close>

record uproc =
  u_mem :: "uint \<Rightarrow> byte"
  u_sz :: uint
  u_esp :: uint
  u_eax :: uint

definition u_bytes :: "uproc \<Rightarrow> uint \<Rightarrow> nat \<Rightarrow> byte list" where
  "u_bytes U a n = map (\<lambda>k. u_mem U (a + of_nat k)) [0..<n]"

fun u_store :: "uint \<Rightarrow> byte list \<Rightarrow> uproc \<Rightarrow> uproc" where
  "u_store a [] U = U"
| "u_store a (x # xs) U = u_store (a + 1) xs (U\<lparr>u_mem := (u_mem U)(a := x)\<rparr>)"

definition fetchint :: "uproc \<Rightarrow> uint \<Rightarrow> int32 option" where
  "fetchint U addr =
     (if addr \<ge> u_sz U \<or> addr + 4 > u_sz U then None else Some (le32 (u_bytes U addr 4) 0))"

text \<open>The bytes from \<open>s\<close> up to the terminator, if there is one below the end of the memory.\<close>

function scan_str :: "uproc \<Rightarrow> uint \<Rightarrow> byte list option" where
  "scan_str U s =
     (if s < u_sz U then
        (if u_mem U s = 0 then Some [] else map_option ((#) (u_mem U s)) (scan_str U (s + 1)))
      else None)"
  by pat_completeness auto
termination
proof (relation "measure (\<lambda>(U, s). unat (u_sz U) - unat s)", simp)
  fix U s assume "s < u_sz U" and "u_mem U s \<noteq> 0"
  then have "unat s < unat (u_sz U)" by (simp add: word_less_nat_alt)
  moreover from this have "unat (s + 1) = Suc (unat s)" using unat_uint_less [of "u_sz U"] by (simp add: unat_word_ariths)
  ultimately show "((U, s + 1), (U, s)) \<in> measure (\<lambda>(U, s). unat (u_sz U) - unat s)" by simp
qed

declare scan_str.simps [simp del]

definition fetchstr :: "uproc \<Rightarrow> uint \<Rightarrow> byte list option" where
  "fetchstr U addr = (if addr \<ge> u_sz U then None else scan_str U addr)"

definition argint :: "uproc \<Rightarrow> nat \<Rightarrow> int32 option" where
  "argint U n = fetchint U (u_esp U + 4 + 4 * of_nat n)"

definition argptr :: "uproc \<Rightarrow> nat \<Rightarrow> int32 \<Rightarrow> uint option" where
  "argptr U n sz =
     (case argint U n of None \<Rightarrow> None
      | Some i \<Rightarrow> if sint sz < 0 \<or> i \<ge> u_sz U \<or> i + sz > u_sz U then None else Some i)"

definition argstr :: "uproc \<Rightarrow> nat \<Rightarrow> byte list option" where
  "argstr U n = (case argint U n of None \<Rightarrow> None | Some addr \<Rightarrow> fetchstr U addr)"

text \<open>\<open>syscall\<close>: \<open>calls\<close> is the table; a number without an entry gives \<open>-1\<close> in \<open>eax\<close>.\<close>

definition syscall_entry :: "(uproc \<Rightarrow> 's \<Rightarrow> (int \<times> uproc \<times> 's) res) option list \<Rightarrow> uproc \<Rightarrow> 's \<Rightarrow> (uproc \<times> 's) res" where
  "syscall_entry calls U s =
     (if sint (u_eax U) > 0 \<and> sint (u_eax U) < int (length calls) then
        (case calls ! nat (sint (u_eax U)) of
           Some f \<Rightarrow> rbind (f U s) (\<lambda>(r, U, s). Ok (U\<lparr>u_eax := of_int r\<rparr>, s))
         | None \<Rightarrow> Ok (U\<lparr>u_eax := - 1\<rparr>, s))
      else Ok (U\<lparr>u_eax := - 1\<rparr>, s))"

end
