(* ===== verification/Sysfile.thy ===== *)
theory Sysfile
  imports Files Syscall
begin

text \<open>
  xv6, \<open>sysfile.c\<close>: the system calls on files. Each takes the memory of the process, from which it fetches its
  arguments and to which it writes its results, and the kernel memory of \<open>Files\<close>.
\<close>

definition O_WRONLY :: int32 where "O_WRONLY = 1"
definition O_RDWR :: int32 where "O_RDWR = 2"
definition O_CREATE :: int32 where "O_CREATE = 0x200"

section \<open>Descriptors\<close>

text \<open>The descriptor and the file.\<close>

definition argfd :: "uproc \<Rightarrow> nat \<Rightarrow> kfiles \<Rightarrow> (nat \<times> nat) option" where
  "argfd U n k =
     (case argint U n of None \<Rightarrow> None
      | Some fd \<Rightarrow>
          if sint fd < 0 \<or> sint fd \<ge> int NOFILES then None
          else map_option (\<lambda>f. (nat (sint fd), f)) (kf_ofile k ! nat (sint fd)))"

definition fdalloc :: "nat \<Rightarrow> kfiles \<Rightarrow> nat option \<times> kfiles" where
  "fdalloc f k =
     (case find_idx (\<lambda>x. x = None) (kf_ofile k) of
        Some fd \<Rightarrow> (Some fd, k\<lparr>kf_ofile := (kf_ofile k)[fd := Some f]\<rparr>)
      | None \<Rightarrow> (None, k))"

definition sys_dup :: "uproc \<Rightarrow> kfiles \<Rightarrow> (int \<times> kfiles) res" where
  "sys_dup U k =
     (case argfd U 0 k of None \<Rightarrow> Ok (- 1, k)
      | Some (_, f) \<Rightarrow>
          (case fdalloc f k of (None, k) \<Rightarrow> Ok (- 1, k)
           | (Some fd, k) \<Rightarrow> rbind (filedup f k) (\<lambda>k. Ok (int fd, k))))"

text \<open>A read or write of a pipe may have to wait; it gives the index at which it goes on.\<close>

definition sys_read :: "devsw \<Rightarrow> uproc \<Rightarrow> kfiles \<Rightarrow> (int pcall \<times> uproc \<times> kfiles) res" where
  "sys_read D U k =
     (case (argfd U 0 k, argint U 2) of
        (Some (_, f), Some n) \<Rightarrow>
          (case argptr U 1 n of None \<Rightarrow> Ok (Returns (- 1), U, k)
           | Some p \<Rightarrow>
               rbind (fileread D f n k) (\<lambda>(c, k).
                 case c of Waits i \<Rightarrow> Ok (Waits i, U, k) | Returns (r, xs) \<Rightarrow> Ok (Returns r, u_store p xs U, k)))
      | _ \<Rightarrow> Ok (Returns (- 1), U, k))"

definition sys_write :: "devsw \<Rightarrow> nat \<Rightarrow> uproc \<Rightarrow> kfiles \<Rightarrow> (int pcall \<times> kfiles) res" where
  "sys_write D at U k =
     (case (argfd U 0 k, argint U 2) of
        (Some (_, f), Some n) \<Rightarrow>
          (case argptr U 1 n of None \<Rightarrow> Ok (Returns (- 1), k)
           | Some p \<Rightarrow> filewrite D f (u_bytes U p (unat n)) at k)
      | _ \<Rightarrow> Ok (Returns (- 1), k))"

definition sys_close :: "uproc \<Rightarrow> kfiles \<Rightarrow> (int \<times> kfiles) res" where
  "sys_close U k =
     (case argfd U 0 k of None \<Rightarrow> Ok (- 1, k)
      | Some (fd, f) \<Rightarrow> rbind (fileclose f (k\<lparr>kf_ofile := (kf_ofile k)[fd := None]\<rparr>)) (\<lambda>k. Ok (0, k)))"

text \<open>The fields of \<open>struct stat\<close> at their offsets; the bytes between them keep their values.\<close>

definition store_stat :: "uint \<Rightarrow> stat \<Rightarrow> uproc \<Rightarrow> uproc" where
  "store_stat p st U =
     u_store (p + 16) (bytes32 (st_size st))
       (u_store (p + 4) (bytes32 (st_dev st) @ bytes32 (st_ino st) @ bytes16 (st_nlink st))
         (u_store p (bytes16 (st_type st)) U))"

definition sys_fstat :: "uproc \<Rightarrow> kfiles \<Rightarrow> (int \<times> uproc \<times> kfiles) res" where
  "sys_fstat U k =
     (case (argfd U 0 k, argptr U 1 20) of
        (Some (_, f), Some p) \<Rightarrow>
          rbind (filestat f k) (\<lambda>(r, st, k).
            Ok (r, (case st of None \<Rightarrow> U | Some st \<Rightarrow> store_stat p st U), k))
      | _ \<Rightarrow> Ok (- 1, U, k))"

section \<open>Links\<close>

text \<open>What ends a transaction with the given result.\<close>

definition end_with :: "'a \<Rightarrow> kfiles \<Rightarrow> ('a \<times> kfiles) res" where
  "end_with r k = rbind (in_fs f_end_op k) (\<lambda>k. Ok (r, k))"

definition link_bad :: "nat \<Rightarrow> kfiles \<Rightarrow> (int \<times> kfiles) res" where
  "link_bad ip k =
     rbind (in_fs (ilock (Some ip)) k) (\<lambda>k.
     rbind (in_fs (\<lambda>s. iupdate ip (upd_inode ip (\<lambda>x. x\<lparr>ip_nlink := ip_nlink x - 1\<rparr>) s)) k) (\<lambda>k.
     rbind (in_fs (iunlockput (Some ip)) k) (end_with (- 1))))"

definition link_in :: "devsw \<Rightarrow> nat \<Rightarrow> nat \<Rightarrow> byte list \<Rightarrow> kfiles \<Rightarrow> (int \<times> kfiles) res" where
  "link_in D ip dp name k =
     rbind (in_fs (ilock (Some dp)) k) (\<lambda>k.
     rbind
       (if ip_dev (inode_of (kf_fs k) dp) \<noteq> ip_dev (inode_of (kf_fs k) ip) then Ok (- 1, k)
        else on_fs (dirlink D dp name (ip_inum (inode_of (kf_fs k) ip))) k)
       (\<lambda>(r, k).
          if r < 0 then rbind (in_fs (iunlockput (Some dp)) k) (link_bad ip)
          else
            rbind (in_fs (iunlockput (Some dp)) k) (\<lambda>k.
            rbind (in_fs (iput ip) k) (end_with 0))))"

definition sys_link :: "devsw \<Rightarrow> uproc \<Rightarrow> kfiles \<Rightarrow> (int \<times> kfiles) res" where
  "sys_link D U k =
     (case (argstr U 0, argstr U 1) of
        (Some old, Some new) \<Rightarrow>
          rbind (in_fs f_begin_op k) (\<lambda>k.
          rbind (on_fs (namei D (kf_cwd k) old) k) (\<lambda>(r, k).
            case r of None \<Rightarrow> end_with (- 1) k
            | Some ip \<Rightarrow>
                rbind (in_fs (ilock (Some ip)) k) (\<lambda>k.
                  if ip_type (inode_of (kf_fs k) ip) = T_DIR then rbind (in_fs (iunlockput (Some ip)) k) (end_with (- 1))
                  else
                    rbind (in_fs (\<lambda>s. iupdate ip (upd_inode ip (\<lambda>x. x\<lparr>ip_nlink := ip_nlink x + 1\<rparr>) s)) k) (\<lambda>k.
                    rbind (in_fs (iunlock (Some ip)) k) (\<lambda>k.
                    rbind (on_fs (nameiparent D (kf_cwd k) new) k) (\<lambda>(r, k).
                      case r of None \<Rightarrow> link_bad ip k | Some (dp, name) \<Rightarrow> link_in D ip dp name k))))))
      | _ \<Rightarrow> Ok (- 1, k))"

text \<open>\<open>isdirempty\<close>: all entries from the third on.\<close>

fun isdirempty_from :: "devsw \<Rightarrow> nat \<Rightarrow> nat list \<Rightarrow> fsys \<Rightarrow> (bool \<times> fsys) res" where
  "isdirempty_from D dp [] s = Ok (True, s)"
| "isdirempty_from D dp (off # offs) s =
     rbind (readi D dp (of_nat off) 16 s) (\<lambda>(r, de, s).
       if r \<noteq> 16 then Panic ''isdirempty: readi''
       else if le16 de 0 \<noteq> 0 then Ok (False, s)
       else isdirempty_from D dp offs s)"

definition isdirempty :: "devsw \<Rightarrow> nat \<Rightarrow> fsys \<Rightarrow> (bool \<times> fsys) res" where
  "isdirempty D dp s = isdirempty_from D dp (drop 2 (entry_offs (ip_size (inode_of s dp)))) s"

definition unlink_bad :: "nat \<Rightarrow> kfiles \<Rightarrow> (int \<times> kfiles) res" where
  "unlink_bad dp k = rbind (in_fs (iunlockput (Some dp)) k) (end_with (- 1))"

definition unlink_entry :: "devsw \<Rightarrow> nat \<Rightarrow> nat \<Rightarrow> nat \<Rightarrow> kfiles \<Rightarrow> (int \<times> kfiles) res" where
  "unlink_entry D dp ip off k =
     rbind (on_fs (writei D dp (replicate 16 0) (of_nat off)) k) (\<lambda>(r, k).
       if r \<noteq> 16 then Panic ''unlink: writei''
       else
         rbind
           (if ip_type (inode_of (kf_fs k) ip) = T_DIR
            then in_fs (\<lambda>s. iupdate dp (upd_inode dp (\<lambda>x. x\<lparr>ip_nlink := ip_nlink x - 1\<rparr>) s)) k else Ok k)
           (\<lambda>k.
           rbind (in_fs (iunlockput (Some dp)) k) (\<lambda>k.
           rbind (in_fs (\<lambda>s. iupdate ip (upd_inode ip (\<lambda>x. x\<lparr>ip_nlink := ip_nlink x - 1\<rparr>) s)) k) (\<lambda>k.
           rbind (in_fs (iunlockput (Some ip)) k) (end_with 0)))))"

definition sys_unlink :: "devsw \<Rightarrow> uproc \<Rightarrow> kfiles \<Rightarrow> (int \<times> kfiles) res" where
  "sys_unlink D U k =
     (case argstr U 0 of None \<Rightarrow> Ok (- 1, k)
      | Some path \<Rightarrow>
          rbind (in_fs f_begin_op k) (\<lambda>k.
          rbind (on_fs (nameiparent D (kf_cwd k) path) k) (\<lambda>(r, k).
            case r of None \<Rightarrow> end_with (- 1) k
            | Some (dp, name) \<Rightarrow>
                rbind (in_fs (ilock (Some dp)) k) (\<lambda>k.
                  if namecmp name [46] = 0 \<or> namecmp name [46, 46] = 0 then unlink_bad dp k
                  else
                    rbind (on_fs (dirlookup D dp name) k) (\<lambda>(r, k).
                      case r of None \<Rightarrow> unlink_bad dp k
                      | Some (ip, off) \<Rightarrow>
                          rbind (in_fs (ilock (Some ip)) k) (\<lambda>k.
                            if sint (ip_nlink (inode_of (kf_fs k) ip)) < 1 then Panic ''unlink: nlink < 1''
                            else
                              rbind
                                (if ip_type (inode_of (kf_fs k) ip) = T_DIR then on_fs (isdirempty D ip) k else Ok (True, k))
                                (\<lambda>(empty, k).
                                   if \<not> empty then rbind (in_fs (iunlockput (Some ip)) k) (unlink_bad dp)
                                   else unlink_entry D dp ip off k)))))))"

section \<open>Creating and opening\<close>

text \<open>The entries for the directory itself and its parent.\<close>

definition create_dots :: "devsw \<Rightarrow> nat \<Rightarrow> nat \<Rightarrow> fsys \<Rightarrow> fsys res" where
  "create_dots D ip dp s =
     rbind (iupdate dp (upd_inode dp (\<lambda>x. x\<lparr>ip_nlink := ip_nlink x + 1\<rparr>) s)) (\<lambda>s.
     rbind (dirlink D ip [46] (ip_inum (inode_of s ip)) s) (\<lambda>(r, s).
       if r < 0 then Panic ''create dots''
       else
         rbind (dirlink D ip [46, 46] (ip_inum (inode_of s dp)) s) (\<lambda>(r, s).
           if r < 0 then Panic ''create dots'' else Ok s)))"

definition create_new :: "devsw \<Rightarrow> nat \<Rightarrow> byte list \<Rightarrow> short \<Rightarrow> short \<Rightarrow> short \<Rightarrow> fsys \<Rightarrow> (nat option \<times> fsys) res" where
  "create_new D dp name type major minor s =
     rbind (ialloc (ip_dev (inode_of s dp)) type s) (\<lambda>(ip, s).
     rbind (ilock (Some ip) s) (\<lambda>s.
     rbind (iupdate ip (upd_inode ip (\<lambda>x. x\<lparr>ip_major := major, ip_minor := minor, ip_nlink := 1\<rparr>) s)) (\<lambda>s.
     rbind (if type = T_DIR then create_dots D ip dp s else Ok s) (\<lambda>s.
     rbind (dirlink D dp name (ip_inum (inode_of s ip)) s) (\<lambda>(r, s).
       if r < 0 then Panic ''create: dirlink''
       else rbind (iunlockput (Some dp) s) (\<lambda>s. Ok (Some ip, s)))))))"

definition create :: "devsw \<Rightarrow> nat \<Rightarrow> byte list \<Rightarrow> short \<Rightarrow> short \<Rightarrow> short \<Rightarrow> fsys \<Rightarrow> (nat option \<times> fsys) res" where
  "create D cwd path type major minor s =
     rbind (nameiparent D cwd path s) (\<lambda>(r, s).
       case r of None \<Rightarrow> Ok (None, s)
       | Some (dp, name) \<Rightarrow>
           rbind (ilock (Some dp) s) (\<lambda>s.
           rbind (dirlookup D dp name s) (\<lambda>(r, s).
             case r of
               Some (ip, _) \<Rightarrow>
                 rbind (iunlockput (Some dp) s) (\<lambda>s.
                 rbind (ilock (Some ip) s) (\<lambda>s.
                   if type = T_FILE \<and> ip_type (inode_of s ip) = T_FILE then Ok (Some ip, s)
                   else rbind (iunlockput (Some ip) s) (\<lambda>s. Ok (None, s))))
             | None \<Rightarrow> create_new D dp name type major minor s)))"

text \<open>The inode of \<open>sys_open\<close>, locked, or \<open>None\<close>.\<close>

definition open_inode :: "devsw \<Rightarrow> byte list \<Rightarrow> int32 \<Rightarrow> kfiles \<Rightarrow> (nat option \<times> kfiles) res" where
  "open_inode D path omode k =
     (if omode AND O_CREATE \<noteq> 0 then on_fs (create D (kf_cwd k) path T_FILE 0 0) k
      else
        rbind (on_fs (namei D (kf_cwd k) path) k) (\<lambda>(r, k).
          case r of None \<Rightarrow> Ok (None, k)
          | Some ip \<Rightarrow>
              rbind (in_fs (ilock (Some ip)) k) (\<lambda>k.
                if ip_type (inode_of (kf_fs k) ip) = T_DIR \<and> omode \<noteq> 0
                then rbind (in_fs (iunlockput (Some ip)) k) (\<lambda>k. Ok (None, k))
                else Ok (Some ip, k))))"

definition open_fails :: "nat \<Rightarrow> kfiles \<Rightarrow> (int \<times> kfiles) res" where
  "open_fails ip k = rbind (in_fs (iunlockput (Some ip)) k) (end_with (- 1))"

definition opened :: "nat \<Rightarrow> int32 \<Rightarrow> file_struct \<Rightarrow> file_struct" where
  "opened ip omode f = f\<lparr>f_type := FD_INODE, f_ip := ip, f_off := 0, f_readable := (omode AND O_WRONLY = 0),
     f_writable := (omode AND O_WRONLY \<noteq> 0 \<or> omode AND O_RDWR \<noteq> 0)\<rparr>"

definition sys_open :: "devsw \<Rightarrow> uproc \<Rightarrow> kfiles \<Rightarrow> (int \<times> kfiles) res" where
  "sys_open D U k =
     (case (argstr U 0, argint U 1) of
        (Some path, Some omode) \<Rightarrow>
          rbind (in_fs f_begin_op k) (\<lambda>k.
          rbind (open_inode D path omode k) (\<lambda>(r, k).
            case r of None \<Rightarrow> end_with (- 1) k
            | Some ip \<Rightarrow>
                (case filealloc k of (None, k) \<Rightarrow> open_fails ip k
                 | (Some f, k) \<Rightarrow>
                     (case fdalloc f k of (None, k) \<Rightarrow> rbind (fileclose f k) (open_fails ip)
                      | (Some fd, k) \<Rightarrow>
                          rbind (in_fs (iunlock (Some ip)) k) (\<lambda>k.
                          rbind (in_fs f_end_op k) (\<lambda>k. Ok (int fd, upd_file f (opened ip omode) k)))))))
      | _ \<Rightarrow> Ok (- 1, k))"

text \<open>\<open>sys_mkdir\<close> and \<open>sys_mknod\<close> begin the transaction before they look at their arguments.\<close>

definition make_node :: "devsw \<Rightarrow> (byte list \<times> short \<times> short \<times> short) option \<Rightarrow> kfiles \<Rightarrow> (int \<times> kfiles) res" where
  "make_node D args k =
     rbind (in_fs f_begin_op k) (\<lambda>k.
     rbind
       (case args of None \<Rightarrow> Ok (None, k)
        | Some (path, type, major, minor) \<Rightarrow> on_fs (create D (kf_cwd k) path type major minor) k)
       (\<lambda>(r, k).
          case r of None \<Rightarrow> end_with (- 1) k
          | Some ip \<Rightarrow> rbind (in_fs (iunlockput (Some ip)) k) (end_with 0)))"

definition sys_mkdir :: "devsw \<Rightarrow> uproc \<Rightarrow> kfiles \<Rightarrow> (int \<times> kfiles) res" where
  "sys_mkdir D U k = make_node D (map_option (\<lambda>path. (path, T_DIR, 0, 0)) (argstr U 0)) k"

definition sys_mknod :: "devsw \<Rightarrow> uproc \<Rightarrow> kfiles \<Rightarrow> (int \<times> kfiles) res" where
  "sys_mknod D U k =
     make_node D
       (case (argstr U 0, argint U 1, argint U 2) of
          (Some path, Some major, Some minor) \<Rightarrow> Some (path, T_DEV, ucast major, ucast minor)
        | _ \<Rightarrow> None) k"

definition sys_chdir :: "devsw \<Rightarrow> uproc \<Rightarrow> kfiles \<Rightarrow> (int \<times> kfiles) res" where
  "sys_chdir D U k =
     rbind (in_fs f_begin_op k) (\<lambda>k.
     rbind (case argstr U 0 of None \<Rightarrow> Ok (None, k) | Some path \<Rightarrow> on_fs (namei D (kf_cwd k) path) k) (\<lambda>(r, k).
       case r of None \<Rightarrow> end_with (- 1) k
       | Some ip \<Rightarrow>
           rbind (in_fs (ilock (Some ip)) k) (\<lambda>k.
             if ip_type (inode_of (kf_fs k) ip) \<noteq> T_DIR then rbind (in_fs (iunlockput (Some ip)) k) (end_with (- 1))
             else
               rbind (in_fs (iunlock (Some ip)) k) (\<lambda>k.
               rbind (in_fs (iput (kf_cwd k)) k) (\<lambda>k.
               rbind (in_fs f_end_op k) (\<lambda>k. Ok (0, k\<lparr>kf_cwd := ip\<rparr>)))))))"

text \<open>The arguments of \<open>sys_exec\<close>: the path, and the strings of the array up to its null pointer, at most 31.\<close>

fun exec_args :: "uproc \<Rightarrow> uint \<Rightarrow> nat \<Rightarrow> byte list list option" where
  "exec_args U uargv 0 = None"
| "exec_args U uargv (Suc n) =
     (case fetchint U uargv of None \<Rightarrow> None
      | Some uarg \<Rightarrow>
          if uarg = 0 then Some []
          else (case fetchstr U uarg of None \<Rightarrow> None | Some s \<Rightarrow> map_option ((#) s) (exec_args U (uargv + 4) n)))"

definition sys_exec ::
  "(byte list \<Rightarrow> byte list list \<Rightarrow> uproc \<Rightarrow> kfiles \<Rightarrow> (int \<times> uproc \<times> kfiles) res) \<Rightarrow> uproc \<Rightarrow> kfiles \<Rightarrow> (int \<times> uproc \<times> kfiles) res" where
  "sys_exec exec U k =
     (case (argstr U 0, argint U 1) of
        (Some path, Some uargv) \<Rightarrow>
          (case exec_args U uargv 32 of None \<Rightarrow> Ok (- 1, U, k) | Some argv \<Rightarrow> exec path argv U k)
      | _ \<Rightarrow> Ok (- 1, U, k))"

definition sys_pipe :: "uproc \<Rightarrow> kfiles \<Rightarrow> (int \<times> uproc \<times> kfiles) res" where
  "sys_pipe U k =
     (case argptr U 0 8 of None \<Rightarrow> Ok (- 1, U, k)
      | Some p \<Rightarrow>
          rbind (pipealloc k) (\<lambda>(r, k).
            case r of None \<Rightarrow> Ok (- 1, U, k)
            | Some (rfile, wfile) \<Rightarrow>
                (case fdalloc rfile k of
                   (None, k) \<Rightarrow> rbind (fileclose rfile k) (\<lambda>k. rbind (fileclose wfile k) (\<lambda>k. Ok (- 1, U, k)))
                 | (Some fd0, k) \<Rightarrow>
                     (case fdalloc wfile k of
                        (None, k) \<Rightarrow>
                          rbind (fileclose rfile (k\<lparr>kf_ofile := (kf_ofile k)[fd0 := None]\<rparr>)) (\<lambda>k.
                          rbind (fileclose wfile k) (\<lambda>k. Ok (- 1, U, k)))
                      | (Some fd1, k) \<Rightarrow> Ok (0, u_store p (bytes32 (of_nat fd0) @ bytes32 (of_nat fd1)) U, k)))))"

end
