(* ===== verification/SyscallFun.thy ===== *)
theory SyscallFun
  imports Syscall
begin

text \<open>
  xv6: what the kernel takes from a process as arguments lies inside the memory of that process.
\<close>

definition KERNBASE :: nat where "KERNBASE = 0x80000000"

text \<open>A process image as the kernel lays it out: all below \<open>KERNBASE\<close>.\<close>

definition user_image :: "uproc \<Rightarrow> bool" where
  "user_image U \<longleftrightarrow> unat (u_sz U) \<le> KERNBASE"

lemma fetchint_inside:
  assumes "user_image U" and "fetchint U a = Some i"
  shows "unat a + 4 \<le> unat (u_sz U)"
proof -
  have a: "unat a < unat (u_sz U)" and e: "unat (a + 4) \<le> unat (u_sz U)"
    using assms(2) by (auto simp: fetchint_def not_le word_less_nat_alt word_le_nat_alt split: if_splits)
  have "unat (a + 4) = unat a + 4" using a assms(1) by (simp add: user_image_def KERNBASE_def unat_word_ariths)
  with e show ?thesis by simp
qed

lemma scan_str_spec:
  "scan_str U a = Some s \<Longrightarrow> unat a + length s < unat (u_sz U) \<and> u_bytes U a (Suc (length s)) = s @ [0] \<and> 0 \<notin> set s"
proof (induction U a arbitrary: s rule: scan_str.induct)
  case (1 U a)
  from 1(2) have lt: "a < u_sz U" by (subst (asm) scan_str.simps) (simp split: if_splits)
  show ?case
  proof (cases "u_mem U a = 0")
    case True
    then have "s = []" using 1(2) lt by (simp add: scan_str.simps [of U a])
    with True lt show ?thesis by (simp add: u_bytes_def word_less_nat_alt)
  next
    case False
    then obtain t where t: "scan_str U (a + 1) = Some t" "s = u_mem U a # t"
      using 1(2) lt by (auto simp: scan_str.simps [of U a])
    have "unat (a + 1) = Suc (unat a)"
      using lt unat_uint_less [of "u_sz U"] by (simp add: unat_word_ariths word_less_nat_alt)
    moreover have "u_bytes U a (Suc (Suc (length t))) = u_mem U a # u_bytes U (a + 1) (Suc (length t))"
      unfolding u_bytes_def by (subst upt_conv_Cons) (simp_all add: map_Suc_upt [symmetric] add.assoc del: upt_Suc)
    ultimately show ?thesis using 1(1) [OF lt False t(1)] t(2) False by simp
  qed
qed

lemma scan_str_None:
  "scan_str U a = None \<Longrightarrow> a \<le> b \<Longrightarrow> b < u_sz U \<Longrightarrow> u_mem U b \<noteq> 0"
proof (induction U a rule: scan_str.induct)
  case (1 U a)
  then have lt: "a < u_sz U" by simp
  then have ne: "u_mem U a \<noteq> 0" and n: "scan_str U (a + 1) = None"
    using 1(2) by (auto simp: scan_str.simps [of U a] split: if_splits)
  show ?case
  proof (cases "a = b")
    case True
    with ne show ?thesis by simp
  next
    case False
    then have "unat a < unat b" using 1(3) by (simp add: word_le_nat_alt word_unat_eq_iff)
    moreover have "unat (a + 1) = Suc (unat a)"
      using lt unat_uint_less [of "u_sz U"] by (simp add: unat_word_ariths word_less_nat_alt)
    ultimately have "a + 1 \<le> b" by (simp add: word_le_nat_alt)
    from 1(1) [OF lt ne n this 1(4)] show ?thesis .
  qed
qed

text \<open>
  C23: The arguments of a system call. For a process below \<open>KERNBASE\<close>, an integer that \<open>argint\<close> delivers was read
  from inside the memory of the process; a block that \<open>argptr\<close> accepts lies, from its first to its last byte, inside
  it; a string that \<open>argstr\<close> accepts lies inside it together with its terminator, which is its first; and \<open>argstr\<close> refuses
  a string only if its address could not be read, lies outside, or no terminator follows it in the memory of the process.
\<close>

theorem arguments_inside:
  assumes "user_image U"
  shows "(\<forall>i. argint U n = Some i \<longrightarrow> unat (u_esp U + 4 + 4 * of_nat n) + 4 \<le> unat (u_sz U)) \<and>
    (\<forall>sz p. argptr U n sz = Some p \<longrightarrow> 0 \<le> sint sz \<and> unat p < unat (u_sz U) \<and> unat p + unat sz \<le> unat (u_sz U)) \<and>
    (\<forall>s. argstr U n = Some s \<longrightarrow> (\<exists>a. argint U n = Some a \<and> unat a + length s < unat (u_sz U) \<and>
       u_bytes U a (Suc (length s)) = s @ [0] \<and> 0 \<notin> set s)) \<and>
    (\<forall>a. argint U n = Some a \<and> argstr U n = None \<longrightarrow> (\<forall>b. a \<le> b \<and> b < u_sz U \<longrightarrow> u_mem U b \<noteq> 0))"
proof (intro conjI allI impI)
  fix i assume "argint U n = Some i"
  then show "unat (u_esp U + 4 + 4 * of_nat n) + 4 \<le> unat (u_sz U)"
    unfolding argint_def by (rule fetchint_inside [OF assms])
next
  fix sz p assume "argptr U n sz = Some p"
  then have p: "0 \<le> sint sz" "unat p < unat (u_sz U)" "unat (p + sz) \<le> unat (u_sz U)"
    by (auto simp: argptr_def not_le not_less word_less_nat_alt word_le_nat_alt split: option.splits if_splits)
  have sz: "sint sz = int (unat sz)" using p(1) by (rule sint_nonneg_32)
  then have "unat sz < 2147483648" using sint_lt [of sz, simplified] by linarith
  then have "unat (p + sz) = unat p + unat sz"
    using p(2) assms by (simp add: user_image_def KERNBASE_def unat_word_ariths)
  with sz show "0 \<le> sint sz" "unat p < unat (u_sz U)" "unat p + unat sz \<le> unat (u_sz U)" using p by simp_all
next
  fix s assume "argstr U n = Some s"
  then obtain a where "argint U n = Some a" "scan_str U a = Some s"
    by (auto simp: argstr_def fetchstr_def split: option.splits if_splits)
  with scan_str_spec show "\<exists>a. argint U n = Some a \<and> unat a + length s < unat (u_sz U) \<and>
       u_bytes U a (Suc (length s)) = s @ [0] \<and> 0 \<notin> set s" by blast
next
  fix a b assume a: "argint U n = Some a \<and> argstr U n = None" and b: "a \<le> b \<and> b < u_sz U"
  then have "scan_str U a = None" by (auto simp: argstr_def fetchstr_def split: if_splits)
  with scan_str_None b show "u_mem U b \<noteq> 0" by blast
qed

text \<open>A process whose stack, at 100, has the address 200 as its first argument, and at 200 the string \<open>/a\<close>.\<close>

definition demo_caller :: uproc where
  "demo_caller = \<lparr>u_mem = (\<lambda>_. 0)(104 := 200, 200 := 47, 201 := 97), u_sz = 4096, u_esp = 100, u_eax = 0\<rparr>"

lemma demo_argint: "argint demo_caller 0 = Some 200"
  by (simp add: argint_def fetchint_def demo_caller_def u_bytes_def le32_def upt_rec)

lemma demo_scan: "scan_str demo_caller 200 = Some [47, 97]"
  by (simp add: demo_caller_def scan_str.simps)

lemma arguments_inside_witness:
  "user_image demo_caller \<and> argint demo_caller 0 = Some 200 \<and> argstr demo_caller 0 = Some [47, 97] \<and>
   argptr demo_caller 0 8 = Some 200 \<and> unat (200 :: uint) + unat (8 :: uint) \<le> unat (u_sz demo_caller) \<and>
   u_bytes demo_caller 200 (Suc (length [47 :: byte, 97])) = [47, 97] @ [0]"
proof -
  have u: "user_image demo_caller" by (simp add: user_image_def demo_caller_def KERNBASE_def)
  note A = arguments_inside [OF u, of 0]
  have s: "argstr demo_caller 0 = Some [47, 97]"
    unfolding argstr_def demo_argint fetchstr_def option.case demo_scan by (simp add: demo_caller_def)
  have p: "argptr demo_caller 0 8 = Some 200"
    unfolding argptr_def demo_argint by (simp add: demo_caller_def)
  note A [THEN conjunct2, THEN conjunct1, rule_format, OF p]
  moreover have "\<exists>a. argint demo_caller 0 = Some a \<and> unat a + length [47 :: byte, 97] < unat (u_sz demo_caller) \<and>
      u_bytes demo_caller a (Suc (length [47 :: byte, 97])) = [47, 97] @ [0] \<and> 0 \<notin> set [47 :: byte, 97]"
    using A [THEN conjunct2, THEN conjunct2, THEN conjunct1, rule_format, OF s] .
  ultimately show ?thesis using u demo_argint p s by simp
qed

end
