(* ===== verification/Grep.thy ===== *)
theory Grep
  imports CLib
begin

text \<open>
  xv6, \<open>grep.c\<close>: the matcher of regular expressions with \<open>^ . * $\<close> and the loop over the lines of a
  file. A C string is the list of its characters before the terminator, so reading the terminator is
  reaching the end of the list. The matcher is compared with the language of a pattern, and the
  program with the lines of its input.
\<close>

section \<open>The matcher\<close>

definition starred :: "string \<Rightarrow> bool" where
  "starred rs \<longleftrightarrow> (case rs of [] \<Rightarrow> False | c # _ \<Rightarrow> c = CHR ''*'')"

text \<open>\<open>matchhere\<close> and \<open>matchstar\<close> call each other with a smaller pattern or a smaller text.\<close>

function (sequential) matchhere :: "string \<Rightarrow> string \<Rightarrow> bool"
  and matchstar :: "char \<Rightarrow> string \<Rightarrow> string \<Rightarrow> bool" where
  "matchhere [] text = True"
| "matchhere (c # rs) text =
     (if starred rs then matchstar c (tl rs) text
      else if c = CHR ''$'' \<and> rs = [] then text = []
      else (case text of [] \<Rightarrow> False | t # ts \<Rightarrow> (c = CHR ''.'' \<or> c = t) \<and> matchhere rs ts))"
| "matchstar c re text =
     (if matchhere re text then True
      else (case text of [] \<Rightarrow> False | t # ts \<Rightarrow> (t = c \<or> c = CHR ''.'') \<and> matchstar c re ts))"
  by pat_completeness auto
termination
  by (relation "measures [\<lambda>x. case x of Inl (re, text) \<Rightarrow> length re | Inr (c, re, text) \<Rightarrow> length re,
      \<lambda>x. case x of Inl (re, text) \<Rightarrow> 0 | Inr (c, re, text) \<Rightarrow> Suc (length text)]")
    (auto simp: starred_def split: list.splits)

fun match_from :: "string \<Rightarrow> string \<Rightarrow> bool" where
  "match_from re [] = matchhere re []"
| "match_from re (t # ts) = (matchhere re (t # ts) \<or> match_from re ts)"

definition match :: "string \<Rightarrow> string \<Rightarrow> bool" where
  "match re text =
     (if re \<noteq> [] \<and> hd re = CHR ''^'' then matchhere (tl re) text else match_from re text)"

section \<open>The program\<close>

text \<open>
  A read of at most \<open>n\<close> bytes gives what the file, pipe or terminal delivers at once: the input is the list of
  these pieces, and a longer piece is left for the next read. An empty read is the end.
\<close>

fun read_piece :: "nat \<Rightarrow> string list \<Rightarrow> string \<times> string list" where
  "read_piece n [] = ([], [])"
| "read_piece n (x # xs) = (if length x \<le> n then (x, xs) else (take n x, drop n x # xs))"

text \<open>\<open>strchr(p, '\n')\<close> in the bytes before the terminator: the text before the newline and the rest after it.\<close>

fun split_line :: "string \<Rightarrow> (string \<times> string) option" where
  "split_line [] = None"
| "split_line (c # cs) =
     (if c = c_newline then Some ([], cs)
      else if c_code c = 0 then None
      else map_option (\<lambda>(l, r). (c # l, r)) (split_line cs))"

lemma split_line_shrinks [termination_simp]: "split_line s = Some (l, r) \<Longrightarrow> length r < length s"
  by (induction s arbitrary: l r) (auto split: if_splits)

text \<open>The inner loop: the matching lines of the buffer, and \<open>p\<close> as the bytes from it on.\<close>

function grep_lines :: "string \<Rightarrow> string \<Rightarrow> string \<times> string" where
  "grep_lines pattern p =
     (case split_line p of None \<Rightarrow> ([], p)
      | Some (l, r) \<Rightarrow>
          (case grep_lines pattern r of (out, rest) \<Rightarrow> ((if match pattern l then l @ [c_newline] else []) @ out, rest)))"
  by pat_completeness auto
termination by (relation "measure (\<lambda>(pattern, p). length p)") (auto dest: split_line_shrinks)

declare grep_lines.simps [simp del]

definition BUFSIZE :: nat where "BUFSIZE = 1024"

lemma read_piece_size: "read_piece n xs = (y, ys) \<Longrightarrow> length (concat ys) = length (concat xs) - length y \<and> length y \<le> length (concat xs) \<and> length y \<le> n"
  by (cases xs) (auto split: if_splits)

text \<open>The outer loop with the \<open>m\<close> bytes in the buffer. Without a line in it the buffer is emptied.\<close>

function grep_loop :: "string \<Rightarrow> string \<Rightarrow> string list \<Rightarrow> string" where
  "grep_loop pattern buf xs =
     (let (y, ys) = read_piece (BUFSIZE - length buf - 1) xs in
      if y = [] then []
      else
        (case grep_lines pattern (buf @ y) of (out, p) \<Rightarrow>
           out @ grep_loop pattern (if length p = length (buf @ y) then [] else p) ys))"
  by pat_completeness auto
termination
proof (relation "measure (\<lambda>(pattern, buf, xs). length (concat xs))", simp)
  fix pattern buf xs x y ys
  assume "x = read_piece (BUFSIZE - length buf - 1) xs" and "(y, ys) = x" and "y \<noteq> []"
  then show "((pattern, b, ys), (pattern, buf, xs)) \<in> measure (\<lambda>(pattern, buf, xs). length (concat xs))" for b
    using read_piece_size [of "BUFSIZE - length buf - 1" xs y ys] by (cases y) auto
qed

declare grep_loop.simps [simp del]

definition grep :: "string \<Rightarrow> string list \<Rightarrow> string" where
  "grep pattern xs = grep_loop pattern [] xs"

text \<open>The writes of \<open>main\<close>, each with its descriptor; \<open>opens\<close> gives the input of a file that can be opened.\<close>

fun grep_files :: "(string \<Rightarrow> string list option) \<Rightarrow> string \<Rightarrow> string list \<Rightarrow> (nat \<times> string) list" where
  "grep_files opens pattern [] = []"
| "grep_files opens pattern (f # fs) =
     (case opens f of
        None \<Rightarrow> [(1, ''grep: cannot open '' @ f @ [c_newline])]
      | Some xs \<Rightarrow> (1, grep pattern xs) # grep_files opens pattern fs)"

definition grep_main :: "(string \<Rightarrow> string list option) \<Rightarrow> string list \<Rightarrow> string list \<Rightarrow> (nat \<times> string) list" where
  "grep_main opens stdin argv =
     (if length argv \<le> 1 then [(2, ''usage: grep pattern [file ...]'' @ [c_newline])]
      else if length argv \<le> 2 then [(1, grep (argv ! 1) stdin)]
      else grep_files opens (argv ! 1) (drop 2 argv))"

section \<open>The language of a pattern\<close>

datatype item = One char | Many char

fun accepts :: "char \<Rightarrow> char \<Rightarrow> bool" where
  "accepts c t = (c = CHR ''.'' \<or> c = t)"

fun item_lang :: "item \<Rightarrow> string set" where
  "item_lang (One c) = {[t] | t. accepts c t}"
| "item_lang (Many c) = {w. \<forall>t\<in>set w. accepts c t}"

fun items_lang :: "item list \<Rightarrow> string set" where
  "items_lang [] = {[]}"
| "items_lang (i # is) = {u @ v | u v. u \<in> item_lang i \<and> v \<in> items_lang is}"

text \<open>A pattern is a sequence of items, tied to the start by \<open>^\<close> and to the end by \<open>$\<close>.\<close>

function (sequential) compile :: "string \<Rightarrow> item list \<times> bool" where
  "compile [] = ([], False)"
| "compile (c # rs) =
     (if starred rs then apfst ((#) (Many c)) (compile (tl rs))
      else if c = CHR ''$'' \<and> rs = [] then ([], True)
      else apfst ((#) (One c)) (compile rs))"
  by pat_completeness auto
termination by (relation "measure length") (auto simp: starred_def split: list.splits)

definition here_spec :: "string \<Rightarrow> string \<Rightarrow> bool" where
  "here_spec re text \<longleftrightarrow> (\<exists>w post. text = w @ post \<and> w \<in> items_lang (fst (compile re)) \<and> (snd (compile re) \<longrightarrow> post = []))"

definition selects :: "string \<Rightarrow> string \<Rightarrow> bool" where
  "selects pattern text \<longleftrightarrow>
     (if take 1 pattern = ''^'' then here_spec (tl pattern) text
      else (\<exists>pre rest. text = pre @ rest \<and> here_spec pattern rest))"

section \<open>The matcher finds the language\<close>

lemma here_spec_Nil: "here_spec [] text"
  by (simp add: here_spec_def)

lemma here_spec_end: "here_spec ''$'' text \<longleftrightarrow> text = []"
  by (auto simp: here_spec_def starred_def)

lemma items_lang_Cons: "w \<in> items_lang (i # is) \<longleftrightarrow> (\<exists>u v. w = u @ v \<and> u \<in> item_lang i \<and> v \<in> items_lang is)"
  by auto

lemma in_many: "u \<in> item_lang (Many c) \<longleftrightarrow> (\<forall>t\<in>set u. accepts c t)"
  by simp

lemma here_spec_item:
  assumes c: "compile re = apfst ((#) i) (compile rs)"
  shows "here_spec re text \<longleftrightarrow> (\<exists>u v. text = u @ v \<and> u \<in> item_lang i \<and> here_spec rs v)" (is "?l \<longleftrightarrow> ?r")
proof
  assume ?l
  then obtain w post where w: "text = w @ post" "w \<in> items_lang (i # fst (compile rs))" "snd (compile rs) \<longrightarrow> post = []"
    unfolding here_spec_def c by auto
  then obtain u v where "w = u @ v" "u \<in> item_lang i" "v \<in> items_lang (fst (compile rs))" unfolding items_lang_Cons by blast
  with w show ?r unfolding here_spec_def by (intro exI [of _ u] exI [of _ "v @ post"]) auto
next
  assume ?r
  then obtain u v post where w: "text = u @ v @ post" "u \<in> item_lang i" "v \<in> items_lang (fst (compile rs))" "snd (compile rs) \<longrightarrow> post = []"
    unfolding here_spec_def by blast
  then have "u @ v \<in> items_lang (i # fst (compile rs))" unfolding items_lang_Cons by blast
  with w show ?l unfolding here_spec_def c by (intro exI [of _ "u @ v"] exI [of _ post]) auto
qed

lemma here_spec_star:
  assumes "starred rs"
  shows "here_spec (c # rs) text \<longleftrightarrow> (\<exists>u v. text = u @ v \<and> u \<in> item_lang (Many c) \<and> here_spec (tl rs) v)"
  by (rule here_spec_item) (use assms in simp)

lemma one_step: "(\<exists>u v. w = u @ v \<and> u \<in> item_lang (One c) \<and> P v) \<longleftrightarrow> (\<exists>t v. w = t # v \<and> accepts c t \<and> P v)" (is "?l \<longleftrightarrow> ?r")
proof
  assume ?l
  then show ?r by auto
next
  assume ?r
  then obtain t v where "w = [t] @ v" "accepts c t" "P v" by auto
  then show ?l by (intro exI [of _ "[t]"] exI [of _ v]) simp
qed

lemma here_spec_one:
  assumes "\<not> starred rs" and "\<not> (c = CHR ''$'' \<and> rs = [])"
  shows "here_spec (c # rs) text \<longleftrightarrow> (case text of [] \<Rightarrow> False | t # ts \<Rightarrow> accepts c t \<and> here_spec rs ts)"
proof -
  have c: "compile (c # rs) = apfst ((#) (One c)) (compile rs)" using assms by auto
  have "here_spec (c # rs) text \<longleftrightarrow> (\<exists>t v. text = t # v \<and> accepts c t \<and> here_spec rs v)"
    unfolding here_spec_item [OF c] by (rule one_step)
  then show ?thesis by (auto split: list.split)
qed

lemma many_step:
  "(\<exists>u v. t # ts = u @ v \<and> u \<in> item_lang (Many c) \<and> P v) \<longleftrightarrow>
     P (t # ts) \<or> accepts c t \<and> (\<exists>u v. ts = u @ v \<and> u \<in> item_lang (Many c) \<and> P v)" (is "?l \<longleftrightarrow> ?r")
proof
  assume ?l
  then obtain u v where u: "t # ts = u @ v" "u \<in> item_lang (Many c)" "P v" by blast
  then show ?r by (cases u) auto
next
  assume ?r
  then consider "P (t # ts)" | u v where "accepts c t" "ts = u @ v" "u \<in> item_lang (Many c)" "P v" by blast
  then show ?l
  proof cases
    case 1
    then show ?thesis by (intro exI [of _ "[]"] exI [of _ "t # ts"]) simp
  next
    case 2
    have "t # u \<in> item_lang (Many c)" using 2(1) 2(3) [unfolded in_many] unfolding in_many by auto
    with 2 show ?thesis by (intro exI [of _ "t # u"] exI [of _ v]) (simp del: item_lang.simps)
  qed
qed

lemma many_end: "(\<exists>u v. [] = u @ v \<and> u \<in> item_lang (Many c) \<and> P v) \<longleftrightarrow> P []"
  by (auto simp: in_many)

lemma matchhere_matchstar:
  "matchhere re text \<longleftrightarrow> here_spec re text"
  "matchstar c re text \<longleftrightarrow> (\<exists>u v. text = u @ v \<and> u \<in> item_lang (Many c) \<and> here_spec re v)"
proof (induction re "text" and c re "text" rule: matchhere_matchstar.induct)
  case (1 "text")
  then show ?case by (simp add: here_spec_Nil)
next
  case (2 c rs "text")
  show ?case
  proof (cases "starred rs")
    case True
    with 2(1) show ?thesis by (simp add: here_spec_star del: item_lang.simps)
  next
    case ns: False
    show ?thesis
    proof (cases "c = CHR ''$'' \<and> rs = []")
      case True
      with ns show ?thesis by (simp add: here_spec_end)
    next
      case False
      with 2(2) ns show ?thesis by (cases "text") (auto simp: here_spec_one)
    qed
  qed
next
  case (3 c re "text")
  show ?case
  proof (cases "text")
    case Nil
    with 3(1) show ?thesis by (simp add: many_end)
  next
    case (Cons t ts)
    show ?thesis
    proof (cases "matchhere re text")
      case True
      with 3(1) Cons show ?thesis unfolding Cons many_step by simp
    next
      case False
      with 3 Cons show ?thesis unfolding Cons many_step by (auto simp del: item_lang.simps)
    qed
  qed
qed

lemma match_from_iff: "match_from re text \<longleftrightarrow> (\<exists>pre rest. text = pre @ rest \<and> here_spec re rest)"
proof (induction "text")
  case Nil
  then show ?case by (simp add: matchhere_matchstar)
next
  case (Cons t ts)
  then show ?case by (auto simp: matchhere_matchstar Cons_eq_append_conv)
qed

lemma match_selects: "match pattern text \<longleftrightarrow> selects pattern text"
  by (cases pattern) (auto simp: match_def selects_def match_from_iff matchhere_matchstar)

section \<open>The program prints the lines\<close>

definition join_lines :: "string list \<Rightarrow> string" where
  "join_lines ls = concat (map (\<lambda>l. l @ [c_newline]) ls)"

lemma join_lines_simps [simp]:
  "join_lines [] = []" "join_lines (l # ls) = l @ c_newline # join_lines ls" "join_lines (ls @ ks) = join_lines ls @ join_lines ks"
  by (simp_all add: join_lines_def)

definition line_ok :: "string \<Rightarrow> bool" where
  "line_ok l \<longleftrightarrow> c_newline \<notin> set l \<and> c_wf_string l"

lemma split_line_found: "line_ok l \<Longrightarrow> split_line (l @ c_newline # r) = Some (l, r)"
  by (induction l) (auto simp: line_ok_def)

lemma split_line_none: "line_ok p \<Longrightarrow> split_line p = None"
  by (induction p) (auto simp: line_ok_def)

lemma grep_lines_join:
  "\<forall>l\<in>set ls. line_ok l \<Longrightarrow> line_ok p \<Longrightarrow>
   grep_lines pattern (join_lines ls @ p) = (join_lines (filter (match pattern) ls), p)"
  by (induction ls) (simp_all add: grep_lines.simps [of pattern "_ @ _"] grep_lines.simps [of pattern p] split_line_found split_line_none)

lemma cut_lines: "c_wf_string s \<Longrightarrow> \<exists>ls p. s = join_lines ls @ p \<and> (\<forall>l\<in>set ls. line_ok l) \<and> line_ok p"
proof (induction s rule: rev_induct)
  case Nil
  then show ?case by (intro exI [of _ "[]"]) (simp add: line_ok_def)
next
  case (snoc c s)
  then obtain ls p where p: "s = join_lines ls @ p" "\<forall>l\<in>set ls. line_ok l" "line_ok p" by auto
  show ?case
  proof (cases "c = c_newline")
    case True
    with p show ?thesis by (intro exI [of _ "ls @ [p]"] exI [of _ "[]"]) (auto simp: line_ok_def)
  next
    case False
    with p snoc.prems show ?thesis by (intro exI [of _ ls] exI [of _ "p @ [c]"]) (auto simp: line_ok_def)
  qed
qed

lemma line_unique: "c_newline \<notin> set l \<Longrightarrow> c_newline \<notin> set k \<Longrightarrow> l @ c_newline # r = k @ c_newline # s \<Longrightarrow> l = k \<and> r = s"
proof (induction l arbitrary: k)
  case Nil
  then show ?case by (cases k) auto
next
  case (Cons c l)
  then show ?case by (cases k) auto
qed

lemma lines_prefix:
  "\<forall>l\<in>set ls. line_ok l \<Longrightarrow> \<forall>l\<in>set ks. line_ok l \<Longrightarrow> line_ok rest \<Longrightarrow> join_lines ls @ z = join_lines ks @ rest \<Longrightarrow>
   \<exists>ms. ks = ls @ ms \<and> z = join_lines ms @ rest"
proof (induction ls arbitrary: ks)
  case Nil
  then show ?case by simp
next
  case (Cons l ls)
  show ?case
  proof (cases ks)
    case Nil
    then have "rest = l @ c_newline # join_lines ls @ z" using Cons.prems(4) by simp
    with Cons.prems(3) have False by (simp add: line_ok_def)
    then show ?thesis ..
  next
    case (Cons k ks')
    with Cons.prems have "l = k \<and> join_lines ls @ z = join_lines ks' @ rest"
      by (intro line_unique) (simp_all add: line_ok_def)
    with Cons.IH [of ks'] Cons.prems Cons show ?thesis by auto
  qed
qed

lemma read_fits: "length x + length buf \<le> 1023 \<Longrightarrow> read_piece (BUFSIZE - length buf - 1) (x # xs) = (x, xs)"
  by (simp add: BUFSIZE_def)

lemma grep_loop_lines:
  "\<forall>x\<in>set xs. c_newline \<in> set x \<and> length x \<le> 512 \<Longrightarrow> \<forall>l\<in>set ls. line_ok l \<and> length l \<le> 511 \<Longrightarrow> line_ok rest \<Longrightarrow> line_ok buf \<Longrightarrow>
   buf @ concat xs = join_lines ls @ rest \<Longrightarrow> grep_loop pattern buf xs = join_lines (filter (match pattern) ls)"
proof (induction xs arbitrary: buf ls)
  case Nil
  then have e: "join_lines [] @ buf = join_lines ls @ rest" by simp
  have "ls = []"
  proof (cases ls)
    case (Cons l ls')
    then have "c_newline \<in> set buf" using e by simp
    with Nil.prems(4) show ?thesis by (simp add: line_ok_def)
  qed
  then show ?case by (simp add: grep_loop.simps)
next
  case (Cons x xs)
  have ok: "\<forall>l\<in>set ls. line_ok l" using Cons.prems(2) by blast
  have wf: "c_wf_string (join_lines ls @ rest)" using ok Cons.prems(3)
    by (induction ls) (auto simp: line_ok_def c_newline_def c_code_def)
  then have "c_wf_string (buf @ x)" unfolding Cons.prems(5) [symmetric] by simp
  then obtain ks p where k: "buf @ x = join_lines ks @ p" "\<forall>l\<in>set ks. line_ok l" "line_ok p" using cut_lines by blast
  have "join_lines ks @ (p @ concat xs) = join_lines ls @ rest" using Cons.prems(5) k(1) by (metis append.assoc concat.simps(2))
  from lines_prefix [OF k(2) ok Cons.prems(3) this] obtain ms where m: "ls = ks @ ms" "p @ concat xs = join_lines ms @ rest" by blast
  have nl: "c_newline \<in> set x" using Cons.prems(1) by simp
  have "ks \<noteq> []"
  proof
    assume "ks = []"
    then have "c_newline \<in> set p" using k(1) nl by (metis UnCI append_Nil join_lines_simps(1) set_append)
    with k(3) show False by (simp add: line_ok_def)
  qed
  then obtain l ks' where lk: "ks = l # ks'" by (cases ks) auto
  have "length buf \<le> length l"
  proof (rule ccontr)
    assume "\<not> length buf \<le> length l"
    moreover have "buf @ x = l @ c_newline # (join_lines ks' @ p)" using k(1) lk by simp
    ultimately have "c_newline \<in> set buf" by (metis append_eq_append_conv_if drop_Cons' in_set_conv_decomp less_or_eq_imp_le linorder_not_less nth_Cons_0 nth_append nth_append_length nth_mem)
    with Cons.prems(4) show False by (simp add: line_ok_def)
  qed
  moreover have "length l \<le> 511" using Cons.prems(2) m(1) lk by simp
  ultimately have fits: "length x + length buf \<le> 1023" using Cons.prems(1) by (simp del: BUFSIZE_def)
  have "x \<noteq> []" using nl by auto
  moreover have "length p \<noteq> length (buf @ x)" using k(1) lk by simp
  ultimately have "grep_loop pattern buf (x # xs) = join_lines (filter (match pattern) ks) @ grep_loop pattern p xs"
    using read_fits [OF fits, of xs] grep_lines_join [OF k(2,3), of pattern]
    by (subst grep_loop.simps) (simp add: k(1) [symmetric] Let_def)
  also have "grep_loop pattern p xs = join_lines (filter (match pattern) ms)"
    using Cons.prems m by (intro Cons.IH k(3)) auto
  finally show ?case by (simp add: m(1))
qed

text \<open>Reads of a file, and of deliveries that end with their lines: a buffer that holds no line end is the end of the input.\<close>

definition ended :: "string list \<Rightarrow> bool" where
  "ended xs \<longleftrightarrow> (\<forall>x\<in>set (butlast xs). x \<noteq> [] \<and> last x = c_newline)"

lemma ended_Cons: "ended (x # xs) \<longleftrightarrow> (xs \<noteq> [] \<longrightarrow> x \<noteq> [] \<and> last x = c_newline \<and> ended xs)"
  by (auto simp: ended_def)

lemma read_piece_parts: "0 < n \<Longrightarrow> read_piece n xs = (y, ys) \<Longrightarrow> concat xs = y @ concat ys"
  by (cases xs) (auto split: if_splits)

lemma grep_loop_unended:
  "line_ok (buf @ concat xs) \<Longrightarrow> grep_loop pattern buf xs = []"
proof (induction pattern buf xs rule: grep_loop.induct)
  case (1 pattern buf xs)
  obtain y ys where y: "read_piece (BUFSIZE - length buf - 1) xs = (y, ys)" by fastforce
  have y': "read_piece (BUFSIZE - Suc (length buf)) xs = (y, ys)" using y by simp
  show ?case
  proof (cases "y = []")
    case True
    then show ?thesis by (simp add: grep_loop.simps [of pattern buf xs] y')
  next
    case False
    then have "0 < BUFSIZE - length buf - 1" using read_piece_size [OF y] by (cases y) auto
    from read_piece_parts [OF this y] have e: "concat xs = y @ concat ys" .
    have l: "line_ok (buf @ y)" "line_ok (concat ys)" using 1(2) by (auto simp: e line_ok_def)
    have g: "grep_lines pattern (buf @ y) = ([], buf @ y)" using grep_lines_join [of "[]" "buf @ y" pattern] l(1) by simp
    have "grep_loop pattern [] ys = []" using 1(1) [OF refl y [symmetric] False g [symmetric]] l(2) by simp
    then show ?thesis using False by (simp add: grep_loop.simps [of pattern buf xs] y' g)
  qed
qed

lemma grep_loop_ended:
  "ended xs \<Longrightarrow> \<forall>l\<in>set ls. line_ok l \<and> length l \<le> 1022 \<Longrightarrow> line_ok rest \<Longrightarrow> line_ok buf \<Longrightarrow>
   buf @ concat xs = join_lines ls @ rest \<Longrightarrow> grep_loop pattern buf xs = join_lines (filter (match pattern) ls)"
proof (induction "length (concat xs)" arbitrary: buf xs ls rule: less_induct)
  case less
  show ?case
  proof (cases ls)
    case Nil
    then show ?thesis using grep_loop_unended [of buf xs pattern] less.prems(3,5) by simp
  next
    case (Cons l ls')
    have no: "c_newline \<notin> set buf" using less.prems(4) by (simp add: line_ok_def)
    have e: "buf @ concat xs = l @ c_newline # (join_lines ls' @ rest)" using less.prems(5) Cons by simp
    have lb: "length buf \<le> length l"
    proof (rule ccontr)
      assume "\<not> length buf \<le> length l"
      then have "length l < length buf" by simp
      moreover from this have "buf ! length l = c_newline" using arg_cong [OF e, of "\<lambda>s. s ! length l"] by (simp add: nth_append)
      ultimately show False using no nth_mem by metis
    qed
    have ll: "length l \<le> 1022" using less.prems(2) Cons by simp
    let ?n = "BUFSIZE - length buf - 1"
    obtain y ys where y: "read_piece ?n xs = (y, ys)" by fastforce
    have n: "0 < ?n" "length buf + ?n = 1023" using lb ll by (simp_all add: BUFSIZE_def)
    note cx = read_piece_parts [OF n(1) y]
    obtain x xs' where x: "xs = x # xs'" using e no by (cases xs) auto
    have nl: "c_newline \<in> set (buf @ y) \<and> ended ys"
    proof (cases "length x \<le> ?n")
      case True
      then have yx: "y = x" "ys = xs'" using y x by auto
      show ?thesis
      proof (cases "xs' = []")
        case True
        then show ?thesis using e yx x by (auto simp: ended_def)
      next
        case False
        then have "x \<noteq> []" "last x = c_newline" "ended xs'" using less.prems(1) unfolding x ended_Cons by blast+
        then show ?thesis using yx last_in_set [of x] by auto
      qed
    next
      case False
      then have yx: "y = take ?n x" "ys = drop ?n x # xs'" using y x by auto
      then have "length l < length (buf @ y)" using False n(2) ll by simp
      moreover from this have "(buf @ y) ! length l = c_newline"
        using arg_cong [OF e, of "\<lambda>s. s ! length l"] unfolding cx append_assoc [symmetric] by (simp only: nth_append) simp
      ultimately have "c_newline \<in> set (buf @ y)" using nth_mem by metis
      moreover have "ended ys" using less.prems(1) False unfolding x yx ended_Cons by (auto simp: last_drop)
      ultimately show ?thesis by blast
    qed
    then have yn: "y \<noteq> []" using no by auto
    have ok: "\<forall>l\<in>set ls. line_ok l" using less.prems(2) by blast
    have wf: "c_wf_string (join_lines ls @ rest)" using ok less.prems(3)
      by (induction ls) (auto simp: line_ok_def c_newline_def c_code_def)
    then have "c_wf_string (buf @ y)" unfolding less.prems(5) [symmetric] cx by simp
    then obtain ks p where k: "buf @ y = join_lines ks @ p" "\<forall>l\<in>set ks. line_ok l" "line_ok p" using cut_lines by blast
    have "join_lines ks @ (p @ concat ys) = join_lines ls @ rest" using less.prems(5) k(1) cx by (metis append.assoc)
    from lines_prefix [OF k(2) ok less.prems(3) this] obtain ms where m: "ls = ks @ ms" "p @ concat ys = join_lines ms @ rest" by blast
    have "ks \<noteq> []" using nl k(1,3) by (auto simp: line_ok_def)
    then have "length p \<noteq> length (buf @ y)" using k(1) by (cases ks) simp_all
    then have "grep_loop pattern buf xs = join_lines (filter (match pattern) ks) @ grep_loop pattern p ys"
      using yn y grep_lines_join [OF k(2,3), of pattern]
      by (subst grep_loop.simps) (simp add: k(1) [symmetric] Let_def)
    also have "grep_loop pattern p ys = join_lines (filter (match pattern) ms)"
      using less.prems(2,3) nl m k(3) yn cx by (intro less.hyps) auto
    finally show ?thesis by (simp add: m(1))
  qed
qed

text \<open>
  C20: xv6 grep prints the lines that the pattern selects: the output is, in order, the lines of the input that contain a word of
  the language of the pattern (at the start for \<open>^\<close>, at the end for \<open>$\<close>); a last line without a line end is not looked at.
  This holds of a file (one delivery of any length, of which a read takes as much as the buffer has room for) and of a pipe or
  terminal whose deliveries end with a line, for lines that fit into the buffer with their line end (at most 1022
  characters); and of deliveries of at most 512 bytes with a line end anywhere in each, for lines of at most 511. A delivery
  without a line end is outside of it: there the program drops what it has of the line.
\<close>

theorem grep_prints_selected:
  assumes "ended xs \<and> (\<forall>l\<in>set ls. length l \<le> 1022) \<or>
      (\<forall>x\<in>set xs. c_newline \<in> set x \<and> length x \<le> 512) \<and> (\<forall>l\<in>set ls. length l \<le> 511)"
    and "\<forall>l\<in>set ls. line_ok l" and "line_ok rest" and "concat xs = join_lines ls @ rest"
  shows "grep pattern xs = join_lines (filter (selects pattern) ls)"
proof -
  have e: "[] @ concat xs = join_lines ls @ rest" "line_ok []" using assms(4) by (simp_all add: line_ok_def)
  from assms(1) have "grep_loop pattern [] xs = join_lines (filter (match pattern) ls)"
  proof
    assume "ended xs \<and> (\<forall>l\<in>set ls. length l \<le> 1022)"
    then show ?thesis using assms(2) by (intro grep_loop_ended [OF _ _ assms(3) e(2,1)]) auto
  next
    assume "(\<forall>x\<in>set xs. c_newline \<in> set x \<and> length x \<le> 512) \<and> (\<forall>l\<in>set ls. length l \<le> 511)"
    then show ?thesis using assms(2) by (intro grep_loop_lines [OF _ _ assms(3) e(2,1)]) auto
  qed
  then show ?thesis by (simp add: grep_def match_selects [abs_def])
qed

lemma grep_prints_selected_witness:
  "grep ''^a.*c$'' [''abbc'' @ c_newline # ''ab'', ''x'' @ c_newline # ''ac'' @ [c_newline]] =
     join_lines (filter (selects ''^a.*c$'') [''abbc'', ''abx'', ''ac'']) \<and>
   grep ''k$'' [concat (replicate 800 (''book'' @ [c_newline])) @ ''end''] =
     join_lines (filter (selects ''k$'') (replicate 800 ''book''))"
proof
  show "grep ''^a.*c$'' [''abbc'' @ c_newline # ''ab'', ''x'' @ c_newline # ''ac'' @ [c_newline]] =
     join_lines (filter (selects ''^a.*c$'') [''abbc'', ''abx'', ''ac''])"
    by (rule grep_prints_selected [where rest = "[]"]) (simp_all add: line_ok_def c_newline_def c_code_def)
  show "grep ''k$'' [concat (replicate 800 (''book'' @ [c_newline])) @ ''end''] =
     join_lines (filter (selects ''k$'') (replicate 800 ''book''))"
    by (rule grep_prints_selected [where rest = "''end''"])
      (simp_all add: line_ok_def ended_def join_lines_def c_newline_def c_code_def)
qed

end
