(* ===== verification/UMalloc.thy ===== *)
theory UMalloc
  imports CPrelude
begin

text \<open>
  xv6, \<open>umalloc.c\<close>: the allocator of the user programs. Its free blocks form a ring in the order of their
  addresses, from the static \<open>base\<close> of size 0 through the heap and back. Addresses are numbers of bytes below
  \<open>KERNBASE\<close>, a header has 8 bytes, and the memory holds the two fields of the headers. \<open>sbrk\<close> gives the bytes at the
  break as long as the kernel has \<open>h_room\<close> of them.
\<close>

record heap =
  h_base :: nat
  h_ptr :: "nat \<Rightarrow> nat"
  h_size :: "nat \<Rightarrow> nat"
  h_freep :: nat
  h_brk :: nat
  h_room :: nat

definition set_ptr :: "nat \<Rightarrow> nat \<Rightarrow> heap \<Rightarrow> heap" where
  "set_ptr p q h = h\<lparr>h_ptr := (h_ptr h)(p := q)\<rparr>"

definition set_size :: "nat \<Rightarrow> nat \<Rightarrow> heap \<Rightarrow> heap" where
  "set_size p n h = h\<lparr>h_size := (h_size h)(p := n)\<rparr>"

lemma set_simps [simp]:
  "h_ptr (set_ptr p q h) = (h_ptr h)(p := q)" "h_size (set_ptr p q h) = h_size h" "h_freep (set_ptr p q h) = h_freep h"
  "h_base (set_ptr p q h) = h_base h" "h_brk (set_ptr p q h) = h_brk h" "h_room (set_ptr p q h) = h_room h"
  "h_ptr (set_size p n h) = h_ptr h" "h_size (set_size p n h) = (h_size h)(p := n)" "h_freep (set_size p n h) = h_freep h"
  "h_base (set_size p n h) = h_base h" "h_brk (set_size p n h) = h_brk h" "h_room (set_size p n h) = h_room h"
  by (simp_all add: set_ptr_def set_size_def)

text \<open>The loop of \<open>free\<close> goes round the ring; with a broken ring it may do so for ever.\<close>

partial_function (option) free_slot :: "nat \<Rightarrow> nat \<Rightarrow> heap \<Rightarrow> nat option" where
  "free_slot bp p h =
     (if p < bp \<and> bp < h_ptr h p then Some p
      else if h_ptr h p \<le> p \<and> (p < bp \<or> bp < h_ptr h p) then Some p
      else free_slot bp (h_ptr h p) h)"

definition free_at :: "nat \<Rightarrow> nat \<Rightarrow> heap \<Rightarrow> heap" where
  "free_at bp p h =
     (let h = (if bp + 8 * h_size h bp = h_ptr h p
               then set_ptr bp (h_ptr h (h_ptr h p)) (set_size bp (h_size h bp + h_size h (h_ptr h p)) h)
               else set_ptr bp (h_ptr h p) h);
          h = (if p + 8 * h_size h p = bp then set_ptr p (h_ptr h bp) (set_size p (h_size h p + h_size h bp) h)
               else set_ptr p bp h)
      in h\<lparr>h_freep := p\<rparr>)"

definition free :: "nat \<Rightarrow> heap \<Rightarrow> heap option" where
  "free ap h = (let bp = ap - 8 in map_option (\<lambda>p. free_at bp p h) (free_slot bp (h_freep h) h))"

definition sbrk :: "int32 \<Rightarrow> heap \<Rightarrow> (nat \<times> heap) option" where
  "sbrk n h =
     (if sint n > int (h_room h) \<or> int (h_brk h) + sint n < 0 then None
      else Some (h_brk h, h\<lparr>h_brk := nat (int (h_brk h) + sint n), h_room := nat (int (h_room h) - sint n)\<rparr>))"

text \<open>\<open>morecore\<close>: the new \<open>freep\<close>, or 0.\<close>

definition morecore :: "uint \<Rightarrow> heap \<Rightarrow> (nat \<times> heap) option" where
  "morecore nu h =
     (let nu = (if nu < 4096 then 4096 else nu) in
      case sbrk (nu * 8) h of
        None \<Rightarrow> Some (0, h)
      | Some (hp, h) \<Rightarrow> map_option (\<lambda>h. (h_freep h, h)) (free (hp + 8) (set_size hp (unat nu) h)))"

definition malloc_take :: "nat \<Rightarrow> nat \<Rightarrow> nat \<Rightarrow> heap \<Rightarrow> nat \<times> heap" where
  "malloc_take nunits prevp p h =
     (if h_size h p = nunits then (p + 8, set_ptr prevp (h_ptr h p) h\<lparr>h_freep := prevp\<rparr>)
      else let n = h_size h p - nunits; q = p + 8 * n in
        (q + 8, set_size q nunits (set_size p n h)\<lparr>h_freep := prevp\<rparr>))"

partial_function (option) malloc_loop :: "uint \<Rightarrow> nat \<Rightarrow> nat \<Rightarrow> heap \<Rightarrow> (nat \<times> heap) option" where
  "malloc_loop nunits prevp p h =
     (if unat nunits \<le> h_size h p then Some (malloc_take (unat nunits) prevp p h)
      else if p = h_freep h then
        Option.bind (morecore nunits h) (\<lambda>(q, h).
          if q = 0 then Some (0, h) else malloc_loop nunits q (h_ptr h q) h)
      else malloc_loop nunits p (h_ptr h p) h)"

definition nunits_of :: "uint \<Rightarrow> uint" where
  "nunits_of nbytes = (nbytes + 8 - 1) div 8 + 1"

definition malloc :: "uint \<Rightarrow> heap \<Rightarrow> (nat \<times> heap) option" where
  "malloc nbytes h =
     (let h = (if h_freep h = 0 then set_size (h_base h) 0 (set_ptr (h_base h) (h_base h) h)\<lparr>h_freep := h_base h\<rparr> else h)
      in malloc_loop (nunits_of nbytes) (h_freep h) (h_ptr h (h_freep h)) h)"

end
