(* ===== verification/UMallocRing.thy ===== *)
theory UMallocRing
  imports UMalloc
begin

text \<open>
  xv6, \<open>umalloc.c\<close>: what \<open>free\<close> and \<open>malloc\<close> do to the ring of free blocks, seen as the list of its blocks in
  the order of their addresses. \<open>free\<close> adds a block to what the ring covers, \<open>malloc\<close> takes one out, and both
  come to their ends.
\<close>

section \<open>The ring\<close>

text \<open>The blocks, with address and size, that follow \<open>a\<close>; and the last of them.\<close>

fun linked :: "heap \<Rightarrow> nat \<Rightarrow> (nat \<times> nat) list \<Rightarrow> bool" where
  "linked h a [] = True"
| "linked h a ((b, n) # bs) = (h_ptr h a = b \<and> h_size h b = n \<and> linked h b bs)"

fun last_of :: "nat \<Rightarrow> (nat \<times> nat) list \<Rightarrow> nat" where
  "last_of a [] = a"
| "last_of a ((b, n) # bs) = last_of b bs"

text \<open>Between free blocks there is always a block in use: they are in order and do not touch.\<close>

fun spaced :: "nat \<Rightarrow> (nat \<times> nat) list \<Rightarrow> bool" where
  "spaced e [] = True"
| "spaced e ((b, n) # bs) = (e < b \<and> 0 < n \<and> spaced (b + 8 * n) bs)"

fun end_of :: "nat \<Rightarrow> (nat \<times> nat) list \<Rightarrow> nat" where
  "end_of e [] = e"
| "end_of e ((b, n) # bs) = end_of (b + 8 * n) bs"

definition cover :: "(nat \<times> nat) list \<Rightarrow> nat set" where
  "cover bs = (\<Union>(b, n) \<in> set bs. {b..<b + 8 * n})"

definition heap_ok :: "heap \<Rightarrow> (nat \<times> nat) list \<Rightarrow> bool" where
  "heap_ok h bs \<longleftrightarrow> 0 < h_base h \<and> h_base h < h_brk h \<and> h_size h (h_base h) = 0 \<and> linked h (h_base h) bs \<and> h_ptr h (last_of (h_base h) bs) = h_base h \<and>
     spaced (h_base h) bs \<and> end_of (h_base h) bs \<le> h_brk h \<and> h_freep h \<in> insert (h_base h) (fst ` set bs)"

lemma cover_simps [simp]: "cover [] = {}" "cover ((b, n) # bs) = {b..<b + 8 * n} \<union> cover bs" "cover (as @ bs) = cover as \<union> cover bs"
  by (auto simp: cover_def)

lemma linked_append: "linked h a (as @ bs) \<longleftrightarrow> linked h a as \<and> linked h (last_of a as) bs"
  by (induction as arbitrary: a) auto

lemma last_of_append: "last_of a (as @ bs) = last_of (last_of a as) bs"
  by (induction as arbitrary: a) auto

lemma end_of_append: "end_of e (as @ bs) = end_of (end_of e as) bs"
  by (induction as arbitrary: e) auto

lemma spaced_append: "spaced e (as @ bs) \<longleftrightarrow> spaced e as \<and> spaced (end_of e as) bs"
  by (induction as arbitrary: e) auto

lemma last_of_in: "last_of a bs \<in> insert a (fst ` set bs)"
  by (induction bs arbitrary: a) force+

lemma spaced_lower: "spaced e bs \<Longrightarrow> b \<in> fst ` set bs \<Longrightarrow> e < b"
  by (induction bs arbitrary: e) fastforce+

lemma spaced_mono: "spaced e bs \<Longrightarrow> d \<le> e \<Longrightarrow> spaced d bs"
  by (cases bs) auto

lemma end_of_ge: "spaced e bs \<Longrightarrow> e \<le> end_of e bs"
  by (induction bs arbitrary: e) fastforce+

lemma last_end: "spaced e bs \<Longrightarrow> a \<le> e \<Longrightarrow> last_of a bs \<le> end_of e bs"
  by (induction bs arbitrary: a e) auto

lemma spaced_below_end: "spaced e bs \<Longrightarrow> (b, n) \<in> set bs \<Longrightarrow> b + 8 * n \<le> end_of e bs"
  by (induction bs arbitrary: e) (auto dest: end_of_ge)

lemma cover_bounds: "spaced e bs \<Longrightarrow> x \<in> cover bs \<Longrightarrow> e < x \<and> x < end_of e bs"
proof -
  assume s: "spaced e bs" and "x \<in> cover bs"
  then obtain b n where b: "(b, n) \<in> set bs" "b \<le> x" "x < b + 8 * n" by (auto simp: cover_def)
  then have "e < b" using spaced_lower [OF s] by force
  with b spaced_below_end [OF s b(1)] show ?thesis by simp
qed

lemma last_ge: "spaced e bs \<Longrightarrow> a \<le> e \<Longrightarrow> a \<le> last_of a bs"
proof (induction bs arbitrary: a e)
  case Nil
  then show ?case by simp
next
  case (Cons p bs)
  obtain b n where p: "p = (b, n)" by fastforce
  have "b \<le> last_of b bs" using Cons.prems by (intro Cons.IH [of "b + 8 * n"]) (simp_all add: p)
  with Cons.prems show ?case by (simp add: p)
qed

lemma linked_cong:
  "linked h a bs \<Longrightarrow> spaced e bs \<Longrightarrow> a \<le> e \<Longrightarrow> \<forall>x\<in>insert a (fst ` set bs). x \<noteq> last_of a bs \<longrightarrow> h_ptr h' x = h_ptr h x \<Longrightarrow>
   \<forall>x\<in>fst ` set bs. h_size h' x = h_size h x \<Longrightarrow> linked h' a bs"
proof (induction bs arbitrary: a e)
  case Nil
  then show ?case by simp
next
  case (Cons p bs)
  obtain b n where p: "p = (b, n)" by fastforce
  have "b \<le> b + 8 * n" by simp
  have "a < last_of b bs" using Cons.prems(2,3) p last_ge [of "b + 8 * n" bs b] by simp
  then have "h_ptr h' a = h_ptr h a" using Cons.prems(4) p by auto
  moreover have "linked h' b bs" using Cons.prems p by (intro Cons.IH [of b "b + 8 * n"]) auto
  ultimately show ?case using Cons.prems p by simp
qed

text \<open>Every ring member splits the ring after itself.\<close>

lemma split_ring:
  assumes "p \<in> insert a (fst ` set bs)"
  shows "\<exists>as cs. bs = as @ cs \<and> p = last_of a as"
proof (cases "p = a")
  case True
  then show ?thesis by (intro exI [of _ "[]"] exI [of _ bs]) simp
next
  case False
  with assms obtain n where "(p, n) \<in> set bs" by auto
  then obtain as cs where "bs = as @ (p, n) # cs" by (metis split_list)
  then show ?thesis by (intro exI [of _ "as @ [(p, n)]"] exI [of _ cs]) (simp add: last_of_append)
qed

definition next_of :: "heap \<Rightarrow> (nat \<times> nat) list \<Rightarrow> nat" where
  "next_of h cs = (case cs of [] \<Rightarrow> h_base h | (c, m) # _ \<Rightarrow> c)"

lemma ring_next:
  assumes "heap_ok h (as @ cs)"
  shows "h_ptr h (last_of (h_base h) as) = next_of h cs"
  using assms by (cases cs) (auto simp: heap_ok_def linked_append last_of_append next_of_def)

lemma ring_linked:
  "heap_ok h (as @ cs) \<Longrightarrow> linked h (h_base h) as \<and> linked h (last_of (h_base h) as) cs"
  by (simp add: heap_ok_def linked_append)

lemma base_below: "heap_ok h bs \<Longrightarrow> b \<in> fst ` set bs \<Longrightarrow> h_base h < b"
  by (auto simp: heap_ok_def dest: spaced_lower)

section \<open>Freeing\<close>

text \<open>From any member of the ring the loop of \<open>free\<close> comes to the last one below the block.\<close>

lemma slot_below:
  "linked h a as \<Longrightarrow> spaced e as \<Longrightarrow> a \<le> e \<Longrightarrow> last_of a as < bp \<Longrightarrow> bp < h_ptr h (last_of a as) \<or> h_ptr h (last_of a as) \<le> last_of a as \<Longrightarrow>
   free_slot bp a h = Some (last_of a as)"
proof (induction as arbitrary: a e)
  case Nil
  then show ?case by (subst free_slot.simps) auto
next
  case (Cons p as)
  obtain b n where p: "p = (b, n)" by fastforce
  have b: "h_ptr h a = b" "a < b" using Cons.prems(1,2,3) by (simp_all add: p)
  have "b \<le> last_of b as" using Cons.prems(2) last_ge [of "b + 8 * n" as b] by (simp add: p)
  then have "\<not> bp < b" using Cons.prems(4) by (simp add: p)
  then have "free_slot bp a h = free_slot bp b h" using b by (subst free_slot.simps) simp
  also have "\<dots> = Some (last_of b as)" using Cons.prems by (intro Cons.IH [of b "b + 8 * n"]) (simp_all add: p)
  finally show ?case by (simp add: p)
qed

lemma slot_above:
  "linked h b bs \<Longrightarrow> spaced e bs \<Longrightarrow> b \<le> e \<Longrightarrow> h_ptr h (last_of b bs) = base \<Longrightarrow> base < bp \<Longrightarrow> bp < b \<Longrightarrow>
   free_slot bp b h = free_slot bp base h"
proof (induction bs arbitrary: b e)
  case Nil
  then show ?case by (subst free_slot.simps) auto
next
  case (Cons p bs)
  obtain c n where p: "p = (c, n)" by fastforce
  have c: "h_ptr h b = c" "b < c" using Cons.prems(1,2,3) by (simp_all add: p)
  then have "free_slot bp b h = free_slot bp c h" using Cons.prems(6) by (subst free_slot.simps) simp
  also have "\<dots> = free_slot bp base h" using Cons.prems c by (intro Cons.IH [of c "c + 8 * n"]) (simp_all add: p)
  finally show ?case .
qed

lemma slot_found:
  assumes ok: "heap_ok h (as @ cs)" and lo: "last_of (h_base h) as < bp" and hi: "\<forall>c\<in>fst ` set cs. bp < c"
  shows "free_slot bp (h_freep h) h = Some (last_of (h_base h) as)"
proof -
  let ?base = "h_base h" and ?q = "last_of (h_base h) as"
  have sp: "spaced ?base (as @ cs)" and f: "h_freep h \<in> insert ?base (fst ` set (as @ cs))"
    and lk: "linked h ?base (as @ cs)" and lst: "h_ptr h (last_of ?base (as @ cs)) = ?base" using ok by (simp_all add: heap_ok_def)
  have q: "?base \<le> ?q" using sp last_ge [of ?base as ?base] by (simp add: spaced_append)
  have nx: "bp < h_ptr h ?q \<or> h_ptr h ?q \<le> ?q"
    using ring_next [OF ok] hi q by (cases cs) (auto simp: next_of_def)
  have below: "free_slot bp p h = Some ?q" if "p \<in> insert ?base (fst ` set as)" for p
  proof -
    from split_ring [OF that] obtain xs ys where s: "as = xs @ ys" "p = last_of ?base xs" by blast
    have l: "last_of p ys = ?q" by (simp add: s last_of_append)
    have "linked h p ys" using lk by (simp add: s linked_append)
    moreover have "spaced (end_of ?base xs) ys" "spaced ?base xs" using sp by (simp_all add: s spaced_append)
    moreover have "p \<le> end_of ?base xs" using last_end [of ?base xs ?base] calculation(3) s(2) by simp
    ultimately show ?thesis using slot_below [of h p ys "end_of ?base xs" bp] lo nx l by simp
  qed
  show ?thesis
  proof (cases "h_freep h \<in> insert ?base (fst ` set as)")
    case True
    then show ?thesis by (rule below)
  next
    case False
    then have fc: "h_freep h \<in> fst ` set cs" using f by auto
    then obtain n where "(h_freep h, n) \<in> set cs" by auto
    then obtain xs ys where c: "cs = xs @ (h_freep h, n) # ys" by (metis split_list)
    have "linked h (h_freep h) ys" "spaced (h_freep h + 8 * n) ys" "h_ptr h (last_of (h_freep h) ys) = ?base"
      using lk sp lst by (simp_all add: c linked_append spaced_append last_of_append)
    moreover have "?base < bp" "bp < h_freep h" using q lo hi fc by auto
    ultimately have "free_slot bp (h_freep h) h = free_slot bp ?base h" by (intro slot_above [of h _ ys "h_freep h + 8 * n"]) simp_all
    then show ?thesis using below by simp
  qed
qed

lemma linked_from:
  "linked h a bs \<Longrightarrow> h_ptr h' b = h_ptr h a \<Longrightarrow> \<forall>y\<in>fst ` set bs. h_ptr h' y = h_ptr h y \<and> h_size h' y = h_size h y \<Longrightarrow>
   linked h' b bs \<and> h_ptr h' (last_of b bs) = h_ptr h (last_of a bs)"
  by (induction bs arbitrary: a b) fastforce+

text \<open>A block and the free blocks above it, joined when they touch.\<close>

fun join_up :: "nat \<times> nat \<Rightarrow> (nat \<times> nat) list \<Rightarrow> (nat \<times> nat) list" where
  "join_up (b, n) [] = [(b, n)]"
| "join_up (b, n) ((c, m) # cs) = (if b + 8 * n = c then (b, n + m) # cs else (b, n) # (c, m) # cs)"

lemma join_up_facts:
  assumes "0 < n" and "spaced e cs" and "\<forall>c\<in>fst ` set cs. b + 8 * n \<le> c"
  shows "\<exists>m ds. join_up (b, n) cs = (b, m) # ds \<and> n \<le> m \<and> spaced (b + 8 * m) ds \<and> fst ` set ds \<subseteq> fst ` set cs \<and>
    {b..<b + 8 * m} \<union> cover ds = {b..<b + 8 * n} \<union> cover cs \<and> end_of (b + 8 * m) ds = end_of (b + 8 * n) cs"
proof (cases cs)
  case Nil
  then show ?thesis by simp
next
  case (Cons p ds)
  obtain c k where p: "p = (c, k)" by fastforce
  have s: "spaced (c + 8 * k) ds" "0 < k" "b + 8 * n \<le> c" using assms by (simp_all add: Cons p)
  show ?thesis
  proof (cases "b + 8 * n = c")
    case True
    have e: "b + 8 * (n + k) = c + 8 * k" using True by simp
    have "{b..<c + 8 * k} = {b..<b + 8 * n} \<union> {c..<c + 8 * k}" using True by auto
    then show ?thesis using s True by (intro exI [of _ "n + k"] exI [of _ ds]) (auto simp: Cons p e simp del: distrib_left_numeral)
  next
    case False
    with s show ?thesis by (intro exI [of _ n] exI [of _ cs]) (auto simp: Cons p)
  qed
qed

definition up_step :: "nat \<Rightarrow> nat \<Rightarrow> heap \<Rightarrow> heap" where
  "up_step bp p h =
     (if bp + 8 * h_size h bp = h_ptr h p
      then set_ptr bp (h_ptr h (h_ptr h p)) (set_size bp (h_size h bp + h_size h (h_ptr h p)) h)
      else set_ptr bp (h_ptr h p) h)"

lemma free_at_up:
  "free_at bp p h = (let h = up_step bp p h in
     (if p + 8 * h_size h p = bp then set_ptr p (h_ptr h bp) (set_size p (h_size h p + h_size h bp) h) else set_ptr p bp h)\<lparr>h_freep := p\<rparr>)"
  by (simp add: free_at_def up_step_def Let_def)

lemma up_step_law:
  assumes q: "h_ptr h q = next_of h cs" and lk: "linked h q cs" and last: "h_ptr h (last_of q cs) = h_base h"
    and n: "h_size h bp = n" and lo: "h_base h < bp" and hi: "\<forall>c\<in>fst ` set cs. bp < c"
    and j: "join_up (bp, n) cs = (bp, m) # ds"
  shows "h_size (up_step bp q h) bp = m \<and> linked (up_step bp q h) bp ds \<and> h_ptr (up_step bp q h) (last_of bp ds) = h_base h \<and>
    (\<forall>x. x \<noteq> bp \<longrightarrow> h_ptr (up_step bp q h) x = h_ptr h x \<and> h_size (up_step bp q h) x = h_size h x)"
proof (cases cs)
  case Nil
  with q n lo j show ?thesis by (auto simp: up_step_def next_of_def)
next
  case (Cons p cs')
  obtain c k where p: "p = (c, k)" by fastforce
  have c: "h_ptr h q = c" "h_size h c = k" "linked h c cs'" "h_ptr h (last_of c cs') = h_base h"
    using lk last by (simp_all add: Cons p)
  have ne: "\<forall>y\<in>fst ` set cs'. y \<noteq> bp" "c \<noteq> bp" using hi by (auto simp: Cons p)
  show ?thesis
  proof (cases "bp + 8 * n = c")
    case True
    let ?h = "set_ptr bp (h_ptr h c) (set_size bp (n + k) h)"
    have u: "up_step bp q h = ?h" using True c n by (simp add: up_step_def)
    have "m = n + k" "ds = cs'" using j True by (simp_all add: Cons p)
    with linked_from [OF c(3), of ?h bp] ne c show ?thesis unfolding u by auto
  next
    case False
    let ?h = "set_ptr bp c h"
    have u: "up_step bp q h = ?h" using False c n by (simp add: up_step_def)
    have "m = n" "ds = (c, k) # cs'" using j False by (simp_all add: Cons p)
    with linked_from [OF c(3), of ?h c] ne c n show ?thesis unfolding u by auto
  qed
qed

text \<open>Where a block goes that does not overlap the ring.\<close>

lemma split_below:
  "spaced e bs \<Longrightarrow> e \<le> bp \<Longrightarrow> 0 < n \<Longrightarrow> cover bs \<inter> {bp..<bp + 8 * n} = {} \<Longrightarrow>
   \<exists>as cs. bs = as @ cs \<and> end_of e as \<le> bp \<and> (\<forall>b\<in>fst ` set as. b < bp) \<and> (\<forall>c\<in>fst ` set cs. bp + 8 * n \<le> c)"
proof (induction bs arbitrary: e)
  case Nil
  then show ?case by simp
next
  case (Cons p bs)
  obtain b k where p: "p = (b, k)" by fastforce
  have b: "e < b" "0 < k" "spaced (b + 8 * k) bs" using Cons.prems(1) by (simp_all add: p)
  have "cover (p # bs) = {b..<b + 8 * k} \<union> cover bs" by (simp add: p)
  then have dis: "{b..<b + 8 * k} \<inter> {bp..<bp + 8 * n} = {}" "cover bs \<inter> {bp..<bp + 8 * n} = {}" using Cons.prems(4) by blast+
  show ?case
  proof (cases "b < bp")
    case True
    have "\<not> bp < b + 8 * k"
    proof
      assume "bp < b + 8 * k"
      then have "bp \<in> {b..<b + 8 * k} \<inter> {bp..<bp + 8 * n}" using True Cons.prems(3) by simp
      with dis(1) show False by blast
    qed
    then have "b + 8 * k \<le> bp" by simp
    from Cons.IH [OF b(3) this Cons.prems(3) dis(2)] obtain as cs where
      s: "bs = as @ cs" "end_of (b + 8 * k) as \<le> bp" "\<forall>b\<in>fst ` set as. b < bp" "\<forall>c\<in>fst ` set cs. bp + 8 * n \<le> c" by blast
    then show ?thesis using True by (intro exI [of _ "p # as"] exI [of _ cs]) (auto simp: p)
  next
    case False
    have "bp + 8 * n \<le> b"
    proof (rule ccontr)
      assume "\<not> bp + 8 * n \<le> b"
      then have "b \<in> {b..<b + 8 * k} \<inter> {bp..<bp + 8 * n}" using False b(2) by simp
      with dis(1) show False by blast
    qed
    moreover have "\<forall>c\<in>fst ` set bs. b < c" using spaced_lower [OF b(3)] by force
    ultimately show ?thesis using Cons.prems(2) by (intro exI [of _ "[]"] exI [of _ "p # bs"]) (force simp: p)
  qed
qed

lemma last_below: "a < bp \<Longrightarrow> \<forall>b\<in>fst ` set as. b < bp \<Longrightarrow> last_of a as < bp"
  using last_of_in [of a as] by auto

text \<open>The second half of \<open>free\<close>: joining with the block below.\<close>

lemma down_step_law:
  assumes ok: "heap_ok h (as @ cs)" and q: "q = last_of (h_base h) as" and u: "linked u bp ds" "h_size u bp = m" "h_ptr u (last_of bp ds) = h_base h"
    "\<forall>x. x \<noteq> bp \<longrightarrow> h_ptr u x = h_ptr h x \<and> h_size u x = h_size h x" "h_base u = h_base h" "h_brk u = h_brk h"
    and sp: "spaced (bp + 8 * m) ds" "0 < m" "end_of (h_base h) as \<le> bp" "h_base h < bp" "\<forall>b\<in>fst ` set as. b < bp" "end_of (bp + 8 * m) ds \<le> h_brk h"
    and v: "v = (if q + 8 * h_size u q = bp then set_ptr q (h_ptr u bp) (set_size q (h_size u q + h_size u bp) u) else set_ptr q bp u)\<lparr>h_freep := q\<rparr>"
  shows "\<exists>bs'. heap_ok v bs' \<and> cover bs' = cover as \<union> {bp..<bp + 8 * m} \<union> cover ds \<and> (\<forall>x. x \<notin> cover bs' \<longrightarrow> h_size v x = h_size u x)"
proof -
  let ?base = "h_base h"
  have b0: "0 < ?base \<and> ?base < h_brk h" "h_size h ?base = 0" and sas: "spaced ?base as" and lk: "linked h ?base as"
    using ok by (simp_all add: heap_ok_def spaced_append linked_append)
  have qb: "q < bp" using q last_below [OF sp(4,5)] by simp
  have above: "\<forall>d\<in>fst ` set ds. bp < d" using spaced_lower [OF sp(1)] by force
  show ?thesis
  proof (cases "q + 8 * h_size u q = bp")
    case True
    have "as \<noteq> []"
    proof
      assume "as = []"
      with q u(4) b0 sp(4) True show False by simp
    qed
    then obtain as' r k where as: "as = as' @ [(r, k)]" by (metis rev_exhaust surj_pair)
    have r: "r = q" "h_size h q = k" "h_ptr h (last_of ?base as') = q" "linked h ?base as'"
      using lk q by (simp_all add: as linked_append last_of_append)
    have sas': "spaced ?base as'" "end_of ?base as' < q" "0 < k" using sas r(1) by (simp_all add: as spaced_append)
    have lq: "last_of ?base as' < q" using last_end [OF sas'(1) order_refl] sas'(2) by simp
    have k: "h_size u q = k" "q + 8 * k = bp" using u(4) qb r(2) True by auto
    have e: "q + 8 * (k + m) = bp + 8 * m" using k by simp
    have vv: "v = set_ptr q (h_ptr u bp) (set_size q (k + m) u)\<lparr>h_freep := q\<rparr>" using v True k u(2) by simp
    have below: "\<forall>x\<in>insert ?base (fst ` set as'). x < q"
      using last_below [of ?base q as'] spaced_below_end [OF sas'(1)] sas'(2) end_of_ge [OF sas'(1)] by force
    have "linked v ?base as' \<and> h_ptr v (last_of ?base as') = h_ptr h (last_of ?base as')"
      using below qb lq u(4) vv by (intro linked_from [OF r(4)]) auto
    moreover have "linked v q ds \<and> h_ptr v (last_of q ds) = h_ptr u (last_of bp ds)"
      using above qb vv by (intro linked_from [OF u(1)]) auto
    moreover have "h_size v q = k + m" "h_size v ?base = 0" using vv below u(4) b0 sp(4) by auto
    ultimately have "heap_ok v (as' @ (q, k + m) # ds)"
      using r(3) u(3,5,6) b0(1) sas' sp(1,2,6) vv
      by (simp add: heap_ok_def linked_append last_of_append spaced_append end_of_append e del: distrib_left_numeral)
    moreover have "cover (as' @ (q, k + m) # ds) = cover as \<union> {bp..<bp + 8 * m} \<union> cover ds"
      using k by (auto simp: as r(1) e simp del: distrib_left_numeral)
    moreover have "\<forall>x. x \<notin> cover (as' @ (q, k + m) # ds) \<longrightarrow> h_size v x = h_size u x" using vv sas'(3) by auto
    ultimately show ?thesis by blast
  next
    case False
    have vv: "v = set_ptr q bp u\<lparr>h_freep := q\<rparr>" using v False by simp
    have "end_of ?base as < bp"
    proof (cases as rule: rev_cases)
      case Nil
      with sp(4) show ?thesis by simp
    next
      case (snoc as' p)
      obtain r k where p: "p = (r, k)" by fastforce
      have "h_size h q = k" using lk q by (simp add: snoc p linked_append last_of_append)
      then have "q + 8 * k \<noteq> bp" using False u(4) qb by auto
      moreover have "end_of ?base as = q + 8 * k" using q by (simp add: snoc p end_of_append last_of_append)
      ultimately show ?thesis using sp(3) by simp
    qed
    moreover have "linked v ?base as"
    proof (rule linked_cong [OF lk sas order_refl])
      have ne: "x \<noteq> bp" if "x \<in> insert ?base (fst ` set as)" for x using that sp(4,5) by auto
      show "\<forall>x\<in>insert ?base (fst ` set as). x \<noteq> last_of ?base as \<longrightarrow> h_ptr v x = h_ptr h x"
        using ne u(4) by (simp add: vv q)
      show "\<forall>x\<in>fst ` set as. h_size v x = h_size h x" using ne u(4) by (simp add: vv)
    qed
    moreover have "linked v bp ds \<and> h_ptr v (last_of bp ds) = h_ptr u (last_of bp ds)"
      using above qb vv by (intro linked_from [OF u(1)]) auto
    moreover have "h_size v bp = m" "h_size v ?base = 0" "h_ptr v q = bp" using vv u(2,4) b0 sp(4) by auto
    moreover have "q \<in> insert ?base (fst ` set as)" using q last_of_in by auto
    ultimately have "heap_ok v (as @ (bp, m) # ds)"
      using u(3,5,6) b0(1) sas sp(1,2,6) vv q
      by (auto simp add: heap_ok_def linked_append last_of_append spaced_append end_of_append)
    moreover have "cover (as @ (bp, m) # ds) = cover as \<union> {bp..<bp + 8 * m} \<union> cover ds" by auto
    moreover have "\<forall>x. h_size v x = h_size u x" using vv by simp
    ultimately show ?thesis by blast
  qed
qed

lemma up_step_same [simp]:
  "h_base (up_step bp p h) = h_base h" "h_brk (up_step bp p h) = h_brk h" "h_room (up_step bp p h) = h_room h"
  by (simp_all add: up_step_def)

lemma end_of_same: "cs \<noteq> [] \<Longrightarrow> end_of d cs = end_of e cs"
  by (cases cs) auto

text \<open>\<open>free\<close> puts the block into the ring: what the ring covers grows by the block.\<close>

lemma free_law:
  assumes ok: "heap_ok h bs" and n: "h_size h bp = n" "0 < n" and lo: "h_base h < bp" and hi: "bp + 8 * n \<le> h_brk h"
    and disj: "cover bs \<inter> {bp..<bp + 8 * n} = {}"
  shows "\<exists>h' bs'. free (bp + 8) h = Some h' \<and> heap_ok h' bs' \<and> cover bs' = cover bs \<union> {bp..<bp + 8 * n} \<and>
    h_base h' = h_base h \<and> h_brk h' = h_brk h \<and> h_room h' = h_room h \<and> (\<forall>x. x \<notin> cover bs' \<longrightarrow> h_size h' x = h_size h x)"
proof -
  let ?base = "h_base h"
  have "spaced ?base bs" using ok by (simp add: heap_ok_def)
  from split_below [OF this less_imp_le [OF lo] n(2) disj] obtain as cs where
    s: "bs = as @ cs" "end_of ?base as \<le> bp" "\<forall>b\<in>fst ` set as. b < bp" "\<forall>c\<in>fst ` set cs. bp + 8 * n \<le> c" by blast
  let ?q = "last_of ?base as"
  have ok': "heap_ok h (as @ cs)" using ok s(1) by simp
  have above: "\<forall>c\<in>fst ` set cs. bp < c" using s(4) n(2) by fastforce
  have q: "?q < bp" by (rule last_below [OF lo s(3)])
  have found: "free_slot bp (h_freep h) h = Some ?q" by (rule slot_found [OF ok' q above])
  have scs: "spaced (end_of ?base as) cs" using ok' by (simp add: heap_ok_def spaced_append)
  from join_up_facts [OF n(2) scs s(4)] obtain m ds where
    j: "join_up (bp, n) cs = (bp, m) # ds" "n \<le> m" "spaced (bp + 8 * m) ds" "fst ` set ds \<subseteq> fst ` set cs"
      "{bp..<bp + 8 * m} \<union> cover ds = {bp..<bp + 8 * n} \<union> cover cs" "end_of (bp + 8 * m) ds = end_of (bp + 8 * n) cs" by blast
  have last: "h_ptr h (last_of ?q cs) = ?base" using ok' by (simp add: heap_ok_def last_of_append)
  note u = up_step_law [OF ring_next [OF ok'] ring_linked [OF ok', THEN conjunct2] last n(1) lo above j(1)]
  have top: "end_of (bp + 8 * m) ds \<le> h_brk h"
  proof (cases "cs = []")
    case True
    then show ?thesis using j(6) hi by simp
  next
    case False
    then have "end_of (bp + 8 * n) cs = end_of ?base bs" using end_of_same by (simp add: s(1) end_of_append)
    then show ?thesis using j(6) ok by (simp add: heap_ok_def)
  qed
  let ?u = "up_step bp ?q h"
  let ?v = "(if ?q + 8 * h_size ?u ?q = bp then set_ptr ?q (h_ptr ?u bp) (set_size ?q (h_size ?u ?q + h_size ?u bp) ?u)
    else set_ptr ?q bp ?u)\<lparr>h_freep := ?q\<rparr>"
  have "\<exists>bs'. heap_ok ?v bs' \<and> cover bs' = cover as \<union> {bp..<bp + 8 * m} \<union> cover ds \<and> (\<forall>x. x \<notin> cover bs' \<longrightarrow> h_size ?v x = h_size ?u x)"
    using u j(2,3) n(2) s(2,3) lo top
    by (intro down_step_law [OF ok' refl, where ds = ds and m = m]) simp_all
  then obtain bs' where v: "heap_ok ?v bs'" "cover bs' = cover as \<union> {bp..<bp + 8 * m} \<union> cover ds"
    "\<forall>x. x \<notin> cover bs' \<longrightarrow> h_size ?v x = h_size ?u x" by blast
  have c: "cover bs' = cover bs \<union> {bp..<bp + 8 * n}" using v(2) j(5) s(1) by auto
  have "bp \<in> cover bs'" using c n(2) by simp
  then have "\<forall>x. x \<notin> cover bs' \<longrightarrow> h_size ?v x = h_size h x" using v(3) u by metis
  moreover have "free (bp + 8) h = Some ?v" by (simp add: free_def found free_at_up Let_def)
  ultimately show ?thesis using v(1) c by (intro exI [of _ ?v] exI [of _ bs']) simp
qed

section \<open>Allocating\<close>

lemma linked_reach: "linked h a bs \<Longrightarrow> v \<in> insert a (fst ` set bs) \<Longrightarrow> \<exists>k. (h_ptr h ^^ k) a = v"
proof (induction bs arbitrary: a)
  case Nil
  then show ?case by (intro exI [of _ 0]) simp
next
  case (Cons p bs)
  obtain b n where p: "p = (b, n)" by fastforce
  show ?case
  proof (cases "v = a")
    case True
    then show ?thesis by (intro exI [of _ 0]) simp
  next
    case False
    with Cons obtain k where "(h_ptr h ^^ k) b = v" by (auto simp: p)
    with Cons.prems(1) show ?thesis by (intro exI [of _ "Suc k"]) (simp add: p funpow_swap1)
  qed
qed

lemma ring_reach:
  assumes ok: "heap_ok h bs" and u: "u \<in> insert (h_base h) (fst ` set bs)" and v: "v \<in> insert (h_base h) (fst ` set bs)"
  shows "\<exists>k. (h_ptr h ^^ k) u = v"
proof -
  from split_ring [OF u] obtain as cs where s: "bs = as @ cs" "u = last_of (h_base h) as" by blast
  have l: "linked h u cs" "h_ptr h (last_of u cs) = h_base h" "linked h (h_base h) bs"
    using ok by (simp_all add: heap_ok_def s linked_append last_of_append)
  obtain i where i: "(h_ptr h ^^ i) u = last_of u cs" using linked_reach [OF l(1) last_of_in] by blast
  obtain j where j: "(h_ptr h ^^ j) (h_base h) = v" using linked_reach [OF l(3) v] by blast
  have "(h_ptr h ^^ Suc i) u = h_base h" using i l(2) by simp
  then have "(h_ptr h ^^ (j + Suc i)) u = v" using j by (simp only: funpow_add comp_apply)
  then show ?thesis by blast
qed

lemma ring_closed:
  assumes ok: "heap_ok h bs" and u: "u \<in> insert (h_base h) (fst ` set bs)"
  shows "h_ptr h u \<in> insert (h_base h) (fst ` set bs)"
proof -
  from split_ring [OF u] obtain as cs where s: "bs = as @ cs" "u = last_of (h_base h) as" by blast
  with ok ring_next [of h as cs] show ?thesis by (cases cs) (auto simp: next_of_def)
qed

text \<open>Going round from the one after \<open>x\<close>, the first time at \<open>v\<close> is before the second time at \<open>x\<close>.\<close>

lemma first_visit:
  fixes f :: "nat \<Rightarrow> nat"
  assumes "(f ^^ k) (f x) = v"
  shows "\<exists>k. (f ^^ k) (f x) = v \<and> (\<forall>j<k. (f ^^ j) (f x) \<noteq> x)"
proof -
  let ?m = "LEAST k. (f ^^ k) (f x) = v"
  have m: "(f ^^ ?m) (f x) = v" by (rule LeastI [of "\<lambda>k. (f ^^ k) (f x) = v", OF assms])
  moreover have "(f ^^ j) (f x) \<noteq> x" if j: "j < ?m" for j
  proof
    assume "(f ^^ j) (f x) = x"
    then have "(f ^^ Suc j) (f x) = f x" by simp
    moreover have "?m = (?m - Suc j) + Suc j" using j by simp
    then have "(f ^^ ?m) (f x) = (f ^^ (?m - Suc j)) ((f ^^ Suc j) (f x))" by (metis funpow_add comp_apply)
    ultimately have "(f ^^ (?m - Suc j)) (f x) = v" using m by simp
    then have "?m \<le> ?m - Suc j" by (rule Least_le)
    with j show False by simp
  qed
  ultimately show ?thesis by blast
qed

lemma loop_found:
  "(h_ptr h ^^ k) p = v \<Longrightarrow> unat nu \<le> h_size h v \<Longrightarrow> \<forall>j<k. (h_ptr h ^^ j) p \<noteq> h_freep h \<Longrightarrow> h_ptr h prevp = p \<Longrightarrow>
   prevp \<in> insert (h_base h) (fst ` set bs) \<Longrightarrow> heap_ok h bs \<Longrightarrow>
   \<exists>pr. malloc_loop nu prevp p h = Some (malloc_take (unat nu) pr (h_ptr h pr) h) \<and>
     pr \<in> insert (h_base h) (fst ` set bs) \<and> unat nu \<le> h_size h (h_ptr h pr)"
proof (induction k arbitrary: p prevp)
  case 0
  then show ?case by (intro exI [of _ prevp]) (subst malloc_loop.simps, simp)
next
  case (Suc k)
  show ?case
  proof (cases "unat nu \<le> h_size h p")
    case True
    with Suc.prems show ?thesis by (intro exI [of _ prevp]) (subst malloc_loop.simps, simp)
  next
    case False
    have "p \<noteq> h_freep h" using Suc.prems(3) by (metis funpow_0 zero_less_Suc)
    then have e: "malloc_loop nu prevp p h = malloc_loop nu p (h_ptr h p) h" using False by (subst malloc_loop.simps) simp
    have "p \<in> insert (h_base h) (fst ` set bs)" using ring_closed [OF Suc.prems(6,5)] Suc.prems(4) by simp
    moreover have "(h_ptr h ^^ k) (h_ptr h p) = v" using Suc.prems(1) by (simp add: funpow_swap1)
    moreover have "\<forall>j<k. (h_ptr h ^^ j) (h_ptr h p) \<noteq> h_freep h"
    proof (intro allI impI)
      fix j assume "j < k"
      then have "(h_ptr h ^^ Suc j) p \<noteq> h_freep h" using Suc.prems(3) by blast
      then show "(h_ptr h ^^ j) (h_ptr h p) \<noteq> h_freep h" by (simp add: funpow_swap1)
    qed
    ultimately show ?thesis unfolding e using Suc.prems(2,6) by (intro Suc.IH) simp_all
  qed
qed

lemma loop_miss:
  "(h_ptr h ^^ k) p = h_freep h \<Longrightarrow> \<forall>j<k. (h_ptr h ^^ j) p \<noteq> h_freep h \<Longrightarrow> \<forall>j\<le>k. \<not> unat nu \<le> h_size h ((h_ptr h ^^ j) p) \<Longrightarrow>
   malloc_loop nu prevp p h =
     Option.bind (morecore nu h) (\<lambda>(q, h). if q = 0 then Some (0, h) else malloc_loop nu q (h_ptr h q) h)"
proof (induction k arbitrary: p prevp)
  case 0
  then show ?case by (subst malloc_loop.simps) simp
next
  case (Suc k)
  have ne: "p \<noteq> h_freep h" using Suc.prems(2) by (metis funpow_0 zero_less_Suc)
  have "\<not> unat nu \<le> h_size h p" using Suc.prems(3) by (metis funpow_0 zero_le)
  with ne have "malloc_loop nu prevp p h = malloc_loop nu p (h_ptr h p) h" by (subst malloc_loop.simps) simp
  also have "\<dots> = Option.bind (morecore nu h) (\<lambda>(q, h). if q = 0 then Some (0, h) else malloc_loop nu q (h_ptr h q) h)"
  proof (rule Suc.IH)
    show "(h_ptr h ^^ k) (h_ptr h p) = h_freep h" using Suc.prems(1) by (simp add: funpow_swap1)
    show "\<forall>j<k. (h_ptr h ^^ j) (h_ptr h p) \<noteq> h_freep h" using Suc.prems(2) by (auto simp: funpow_swap1 dest: spec [of _ "Suc _"])
    show "\<forall>j\<le>k. \<not> unat nu \<le> h_size h ((h_ptr h ^^ j) (h_ptr h p))" using Suc.prems(3) by (auto simp: funpow_swap1 dest: spec [of _ "Suc _"])
  qed
  finally show ?case .
qed

lemma cover_parts: "b + 8 * k \<le> e \<Longrightarrow> spaced e bs \<Longrightarrow> {b..<b + 8 * k} \<inter> cover bs = {}"
  using cover_bounds [of e bs] by fastforce

text \<open>Taking a block, or the end of a bigger one, out of the ring.\<close>

lemma take_law:
  assumes ok: "heap_ok h bs" and pr: "pr \<in> insert (h_base h) (fst ` set bs)" and n: "0 < n" "n \<le> h_size h (h_ptr h pr)"
  shows "\<exists>q h' bs'. malloc_take n pr (h_ptr h pr) h = (q + 8, h') \<and> heap_ok h' bs' \<and> h_base h < q \<and>
    {q..<q + 8 * n} \<subseteq> cover bs \<and> cover bs' = cover bs - {q..<q + 8 * n} \<and> h_size h' q = n \<and>
    h_base h' = h_base h \<and> h_brk h' = h_brk h \<and> h_room h' = h_room h \<and> (\<forall>x. x \<notin> cover bs \<longrightarrow> h_size h' x = h_size h x)"
proof -
  let ?base = "h_base h"
  from split_ring [OF pr] obtain as cs where s: "bs = as @ cs" "pr = last_of ?base as" by blast
  have ok': "heap_ok h (as @ cs)" using ok s(1) by simp
  have b: "0 < ?base" "?base < h_brk h" "h_size h ?base = 0" using ok by (simp_all add: heap_ok_def)
  have "cs \<noteq> []"
  proof
    assume "cs = []"
    then have "h_ptr h pr = ?base" using ring_next [OF ok'] s(2) by (simp add: next_of_def)
    with n b show False by simp
  qed
  then obtain r m ds where cs: "cs = (r, m) # ds" by (cases cs) auto
  have r: "h_ptr h pr = r" "h_size h r = m" "linked h r ds" "linked h ?base as" "h_ptr h (last_of r ds) = ?base"
    using ok' s(2) by (simp_all add: heap_ok_def cs linked_append last_of_append)
  have sp: "spaced ?base as" "end_of ?base as < r" "0 < m" "spaced (r + 8 * m) ds" "end_of (r + 8 * m) ds \<le> h_brk h"
    using ok' by (simp_all add: heap_ok_def cs spaced_append end_of_append)
  have pr_r: "pr < r" using last_end [OF sp(1) order_refl] sp(2) s(2) by simp
  have base_r: "?base < r" using end_of_ge [OF sp(1)] sp(2) by simp
  have f: "h_freep h \<in> insert ?base (fst ` set bs)" using ok by (simp add: heap_ok_def)
  have dis: "{r..<r + 8 * m} \<inter> cover as = {}" "{r..<r + 8 * m} \<inter> cover ds = {}"
    using cover_bounds [OF sp(1)] sp(2) cover_parts [OF order_refl sp(4)] by fastforce+
  have below: "\<forall>x\<in>insert ?base (fst ` set as). x < r"
    using base_r spaced_below_end [OF sp(1)] sp(2) by force
  have above: "\<forall>x\<in>fst ` set ds. r + 8 * m < x" using spaced_lower [OF sp(4)] by blast
  have prin: "pr \<in> insert ?base (fst ` set as)" using s(2) last_of_in by auto
  show ?thesis
  proof (cases "m = n")
    case True
    let ?h = "set_ptr pr (h_ptr h r) h\<lparr>h_freep := pr\<rparr>"
    have t: "malloc_take n pr (h_ptr h pr) h = (r + 8, ?h)" using True r by (simp add: malloc_take_def)
    have "linked ?h ?base as"
      using r(4) sp(1) order_refl
    proof (rule linked_cong)
      show "\<forall>x\<in>insert ?base (fst ` set as). x \<noteq> last_of ?base as \<longrightarrow> h_ptr ?h x = h_ptr h x" by (simp add: s(2))
    qed simp
    moreover have "linked ?h pr ds \<and> h_ptr ?h (last_of pr ds) = h_ptr h (last_of r ds)"
      using above pr_r by (intro linked_from [OF r(3)]) auto
    moreover have "spaced (end_of ?base as) ds" using sp(2,4) by (intro spaced_mono [OF sp(4)]) simp
    moreover have "end_of (end_of ?base as) ds \<le> h_brk h"
      using sp(2,5) end_of_ge [OF sp(4)] end_of_same [of ds "r + 8 * m" "end_of ?base as"] by (cases "ds = []") auto
    ultimately have "heap_ok ?h (as @ ds)" using b r(5) sp(1) prin
      by (auto simp: heap_ok_def linked_append last_of_append spaced_append end_of_append s(2))
    moreover have "cover (as @ ds) = cover bs - {r..<r + 8 * n}" using dis True by (auto simp: s(1) cs)
    moreover have "{r..<r + 8 * n} \<subseteq> cover bs" using True by (auto simp: s(1) cs)
    ultimately show ?thesis using t r(2) True base_r by (intro exI [of _ r] exI [of _ ?h] exI [of _ "as @ ds"]) simp
  next
    case False
    let ?k = "m - n"
    let ?q = "r + 8 * ?k"
    let ?h = "set_size ?q n (set_size r ?k h)\<lparr>h_freep := pr\<rparr>"
    have k: "0 < ?k" "?k < m" "?q + 8 * n = r + 8 * m" using False n r by auto
    have t: "malloc_take n pr (h_ptr h pr) h = (?q + 8, ?h)" using False r by (simp add: malloc_take_def Let_def)
    have ne: "x \<noteq> ?q" if "x \<in> insert ?base (fst ` set as) \<union> fst ` set ds" for x
    proof -
      have "x < r \<or> r + 8 * m < x" using that below above by blast
      then show ?thesis using k by linarith
    qed
    have ne': "x \<noteq> r" if "x \<in> insert ?base (fst ` set as) \<union> fst ` set ds" for x
      using that below above by fastforce
    have "linked ?h ?base as \<and> h_ptr ?h (last_of ?base as) = h_ptr h (last_of ?base as)"
      using ne ne' by (intro linked_from [OF r(4)]) auto
    moreover have "linked ?h r ds \<and> h_ptr ?h (last_of r ds) = h_ptr h (last_of r ds)"
      using ne ne' by (intro linked_from [OF r(3)]) auto
    moreover have "h_size ?h r = ?k" "h_size ?h ?base = 0" using k ne [of ?base] base_r b(3) by auto
    moreover have "spaced (r + 8 * ?k) ds" using sp(4) k(3) by (intro spaced_mono [OF sp(4)]) simp
    moreover have "end_of (r + 8 * ?k) ds \<le> h_brk h"
      using sp(5) k(3) end_of_same [of ds "r + 8 * m" "r + 8 * ?k"] by (cases "ds = []") auto
    ultimately have "heap_ok ?h (as @ (r, ?k) # ds)" using b r sp k(1) prin s(2)
      by (auto simp: heap_ok_def linked_append last_of_append spaced_append end_of_append)
    moreover have "{r..<r + 8 * m} = {r..<?q} \<union> {?q..<?q + 8 * n}" unfolding k(3) using k(2) by auto
    then have "cover (as @ (r, ?k) # ds) = cover bs - {?q..<?q + 8 * n}" "{?q..<?q + 8 * n} \<subseteq> cover bs"
      using dis by (auto simp: s(1) cs)
    moreover have "r \<in> cover bs" "?q \<in> cover bs" using k by (auto simp: s(1) cs)
    then have "\<forall>x. x \<notin> cover bs \<longrightarrow> h_size ?h x = h_size h x" by auto
    ultimately show ?thesis using t base_r by (intro exI [of _ ?q] exI [of _ ?h] exI [of _ "as @ (r, ?k) # ds"]) simp
  qed
qed

text \<open>A block of the ring goes as far as what the ring covers without a gap.\<close>

lemma block_end: "spaced e bs \<Longrightarrow> (b, n) \<in> set bs \<Longrightarrow> b + 8 * n \<notin> cover bs"
proof (induction bs arbitrary: e)
  case Nil
  then show ?case by simp
next
  case (Cons p bs)
  obtain c m where p: "p = (c, m)" by fastforce
  have s: "spaced (c + 8 * m) bs" using Cons.prems(1) by (simp add: p)
  show ?case
  proof (cases "(b, n) = p")
    case True
    with cover_bounds [OF s, of "b + 8 * n"] show ?thesis by (auto simp: p)
  next
    case False
    then have i: "(b, n) \<in> set bs" using Cons.prems(2) by simp
    then have "c + 8 * m < b" using spaced_lower [OF s] by force
    with Cons.IH [OF s i] show ?thesis by (simp add: p)
  qed
qed

lemma block_spans:
  assumes sp: "spaced e bs" and c: "{x..<x + 8 * k} \<subseteq> cover bs" and k: "0 < k"
  shows "\<exists>b n. (b, n) \<in> set bs \<and> k \<le> n"
proof -
  have "x \<in> cover bs" using c k by auto
  then obtain b n where b: "(b, n) \<in> set bs" "b \<le> x" "x < b + 8 * n" by (auto simp: cover_def)
  have "x + 8 * k \<le> b + 8 * n"
  proof (rule ccontr)
    assume "\<not> x + 8 * k \<le> b + 8 * n"
    then have "b + 8 * n \<in> {x..<x + 8 * k}" using b by simp
    with c block_end [OF sp b(1)] show False by blast
  qed
  with b show ?thesis by (intro exI [of _ b] exI [of _ n]) simp
qed

lemma heap_ok_grow:
  assumes ok: "heap_ok h bs" and same: "h_base g = h_base h" "h_freep g = h_freep h" "h_ptr g = h_ptr h" "h_brk h \<le> h_brk g"
    and size: "\<forall>x. x < h_brk h \<longrightarrow> h_size g x = h_size h x"
  shows "heap_ok g bs"
proof -
  let ?base = "h_base h"
  have o: "0 < ?base" "?base < h_brk h" "h_size h ?base = 0" "linked h ?base bs" "h_ptr h (last_of ?base bs) = ?base"
    "spaced ?base bs" "end_of ?base bs \<le> h_brk h" "h_freep h \<in> insert ?base (fst ` set bs)" using ok by (simp_all add: heap_ok_def)
  have below: "x < h_brk h" if x: "x \<in> fst ` set bs" for x
  proof -
    from x obtain n where i: "(x, n) \<in> set bs" by auto
    then obtain as cs where "bs = as @ (x, n) # cs" by (metis split_list)
    then have "0 < n" using o(6) by (simp add: spaced_append)
    with spaced_below_end [OF o(6) i] o(7) show ?thesis by simp
  qed
  have "linked g ?base bs \<and> h_ptr g (last_of ?base bs) = h_ptr h (last_of ?base bs)"
    using below size same(3) by (intro linked_from [OF o(4)]) auto
  with o size same show ?thesis by (simp add: heap_ok_def)
qed

lemma sbrk_bytes:
  fixes nu :: uint
  assumes "unat nu < 2 ^ 28"
  shows "sint (nu * 8) = int (8 * unat nu)"
proof -
  have e: "(of_nat (8 * unat nu) :: uint) = nu * 8" by simp
  have "sint (of_nat (8 * unat nu) :: uint) = int (8 * unat nu)" by (rule sint_of_nat_32) (use assms in simp)
  then show ?thesis unfolding e .
qed

lemma sbrk_grows: "sint n = int k \<Longrightarrow> k \<le> h_room h \<Longrightarrow> sbrk n h = Some (h_brk h, h\<lparr>h_brk := h_brk h + k, h_room := h_room h - k\<rparr>)"
  by (simp add: sbrk_def nat_diff_distrib' nat_int_add)

lemma sbrk_fails: "sint n = int k \<Longrightarrow> \<not> k \<le> h_room h \<Longrightarrow> sbrk n h = None"
  by (simp add: sbrk_def)

lemma morecore_law:
  assumes ok: "heap_ok h bs" and nu: "0 < nu" "unat nu < 2 ^ 28"
  shows "(\<exists>h' bs'. morecore nu h = Some (h_freep h', h') \<and> heap_ok h' bs' \<and> h_brk h \<le> h_brk h' \<and>
      cover bs' = cover bs \<union> {h_brk h..<h_brk h'} \<and> h_base h' = h_base h \<and>
      (\<forall>x. x \<notin> cover bs' \<longrightarrow> h_size h' x = h_size h x) \<and> (\<exists>b n. (b, n) \<in> set bs' \<and> unat nu \<le> n)) \<or>
    morecore nu h = Some (0, h)"
proof -
  let ?nu = "if nu < 4096 then 4096 else nu"
  let ?k = "unat ?nu"
  have k: "?k < 2 ^ 28" "unat nu \<le> ?k" "0 < ?k" using nu by (auto simp: word_less_nat_alt word_le_nat_alt unat_gt_0)
  note sb = sbrk_bytes [OF k(1)]
  show ?thesis
  proof (cases "8 * ?k \<le> h_room h")
    case False
    from sbrk_fails [OF sb this] show ?thesis by (simp add: morecore_def Let_def)
  next
    case True
    let ?g = "h\<lparr>h_brk := h_brk h + 8 * ?k, h_room := h_room h - 8 * ?k\<rparr>"
    from sbrk_grows [OF sb True] have m: "morecore nu h = map_option (\<lambda>h. (h_freep h, h)) (free (h_brk h + 8) (set_size (h_brk h) ?k ?g))"
      by (simp add: morecore_def Let_def)
    let ?s = "set_size (h_brk h) ?k ?g"
    have "heap_ok ?s bs" by (rule heap_ok_grow [OF ok]) simp_all
    moreover have "h_size ?s (h_brk h) = ?k" by simp
    moreover have "h_base ?s < h_brk h" using ok by (simp add: heap_ok_def)
    moreover have "h_brk h + 8 * ?k \<le> h_brk ?s" by simp
    moreover have "cover bs \<inter> {h_brk h..<h_brk h + 8 * ?k} = {}"
      using ok cover_bounds [of "h_base h" bs] unfolding heap_ok_def by fastforce
    ultimately have "\<exists>h' bs'. free (h_brk h + 8) ?s = Some h' \<and> heap_ok h' bs' \<and> cover bs' = cover bs \<union> {h_brk h..<h_brk h + 8 * ?k} \<and>
        h_base h' = h_base ?s \<and> h_brk h' = h_brk ?s \<and> h_room h' = h_room ?s \<and> (\<forall>x. x \<notin> cover bs' \<longrightarrow> h_size h' x = h_size ?s x)"
      using k(3) by (intro free_law) simp_all
    then obtain h' bs' where f: "free (h_brk h + 8) ?s = Some h'" "heap_ok h' bs'" "cover bs' = cover bs \<union> {h_brk h..<h_brk h + 8 * ?k}"
      "h_base h' = h_base h" "h_brk h' = h_brk h + 8 * ?k" "\<forall>x. x \<notin> cover bs' \<longrightarrow> h_size h' x = h_size ?s x" by auto
    have "h_brk h \<in> cover bs'" using f(3) k(3) by simp
    then have ne: "x \<noteq> h_brk h" if "x \<notin> cover bs'" for x using that by blast
    have "\<forall>x. x \<notin> cover bs' \<longrightarrow> h_size h' x = h_size h x" using f(6) ne by simp
    moreover have "\<exists>b n. (b, n) \<in> set bs' \<and> ?k \<le> n"
      using f(2,3) k(3) by (intro block_spans [of "h_base h'" bs' "h_brk h"]) (auto simp: heap_ok_def)
    ultimately have "morecore nu h = Some (h_freep h', h') \<and> heap_ok h' bs' \<and> h_brk h \<le> h_brk h' \<and>
        cover bs' = cover bs \<union> {h_brk h..<h_brk h'} \<and> h_base h' = h_base h \<and>
        (\<forall>x. x \<notin> cover bs' \<longrightarrow> h_size h' x = h_size h x) \<and> (\<exists>b n. (b, n) \<in> set bs' \<and> unat nu \<le> n)"
      using m f(1,2,3,4,5) k(2) by (auto intro: order_trans)
    then show ?thesis by blast
  qed
qed

lemma block_size: "heap_ok h bs \<Longrightarrow> (b, n) \<in> set bs \<Longrightarrow> h_size h b = n"
proof -
  assume ok: "heap_ok h bs" and "(b, n) \<in> set bs"
  then obtain as cs where "bs = as @ (b, n) # cs" by (metis split_list)
  with ok show ?thesis by (simp add: heap_ok_def linked_append)
qed

text \<open>With a block that is big enough in the ring, the loop takes one.\<close>

lemma loop_takes:
  assumes ok: "heap_ok h bs" and b: "(b, n) \<in> set bs" "unat nu \<le> n"
  shows "\<exists>pr. malloc_loop nu (h_freep h) (h_ptr h (h_freep h)) h = Some (malloc_take (unat nu) pr (h_ptr h pr) h) \<and>
     pr \<in> insert (h_base h) (fst ` set bs) \<and> unat nu \<le> h_size h (h_ptr h pr)"
proof -
  have f: "h_freep h \<in> insert (h_base h) (fst ` set bs)" using ok by (simp add: heap_ok_def)
  have "b \<in> insert (h_base h) (fst ` set bs)" using b(1) by force
  then obtain k where "(h_ptr h ^^ k) (h_ptr h (h_freep h)) = b" using ring_reach [OF ok ring_closed [OF ok f]] by blast
  then obtain k where k: "(h_ptr h ^^ k) (h_ptr h (h_freep h)) = b" "\<forall>j<k. (h_ptr h ^^ j) (h_ptr h (h_freep h)) \<noteq> h_freep h"
    using first_visit by blast
  have "unat nu \<le> h_size h b" using block_size [OF ok b(1)] b(2) by simp
  from loop_found [OF k(1) this k(2) refl f ok] show ?thesis .
qed

lemma freep_nonzero:
  assumes ok: "heap_ok h bs"
  shows "h_freep h \<noteq> 0"
proof -
  have "h_freep h \<in> insert (h_base h) (fst ` set bs)" "0 < h_base h" using ok by (simp_all add: heap_ok_def)
  then consider "h_freep h = h_base h" | "h_freep h \<in> fst ` set bs" by blast
  then show ?thesis by cases (use base_below [OF ok] \<open>0 < h_base h\<close> in force)+
qed

lemma alloc_from:
  assumes ok: "heap_ok h bs" and b: "(b, n) \<in> set bs" "unat nu \<le> n" and nu: "0 < nu"
  shows "\<exists>q h' bs'. malloc_loop nu (h_freep h) (h_ptr h (h_freep h)) h = Some (q + 8, h') \<and> heap_ok h' bs' \<and> h_base h < q \<and>
    {q..<q + 8 * unat nu} \<subseteq> cover bs \<and> cover bs' = cover bs - {q..<q + 8 * unat nu} \<and> h_size h' q = unat nu \<and>
    h_base h' = h_base h \<and> h_brk h' = h_brk h \<and> (\<forall>x. x \<notin> cover bs \<longrightarrow> h_size h' x = h_size h x)"
proof -
  from loop_takes [OF ok b] obtain pr where
    p: "malloc_loop nu (h_freep h) (h_ptr h (h_freep h)) h = Some (malloc_take (unat nu) pr (h_ptr h pr) h)"
      "pr \<in> insert (h_base h) (fst ` set bs)" "unat nu \<le> h_size h (h_ptr h pr)" by blast
  have "0 < unat nu" using nu by (simp add: unat_gt_0)
  from take_law [OF ok p(2) this p(3)] p(1) show ?thesis by (metis (no_types, lifting))
qed

definition got_block :: "uint \<Rightarrow> heap \<Rightarrow> (nat \<times> nat) list \<Rightarrow> nat \<Rightarrow> heap \<Rightarrow> (nat \<times> nat) list \<Rightarrow> bool" where
  "got_block nu h bs q h' bs' \<longleftrightarrow> heap_ok h' bs' \<and> h_base h < q \<and> h_base h' = h_base h \<and> h_brk h \<le> h_brk h' \<and>
     {q..<q + 8 * unat nu} \<subseteq> cover bs \<union> {h_brk h..<h_brk h'} \<and>
     cover bs' = cover bs \<union> {h_brk h..<h_brk h'} - {q..<q + 8 * unat nu} \<and> h_size h' q = unat nu \<and>
     (\<forall>x. x \<notin> cover bs \<union> {h_brk h..<h_brk h'} \<longrightarrow> h_size h' x = h_size h x)"

lemma malloc_loop_law:
  assumes ok: "heap_ok h bs" and nu: "0 < nu" "unat nu < 2 ^ 28"
  shows "malloc_loop nu (h_freep h) (h_ptr h (h_freep h)) h = Some (0, h) \<or>
    (\<exists>q h' bs'. malloc_loop nu (h_freep h) (h_ptr h (h_freep h)) h = Some (q + 8, h') \<and> got_block nu h bs q h' bs')"
proof (cases "\<exists>b n. (b, n) \<in> set bs \<and> unat nu \<le> n")
  case True
  then obtain b n where "(b, n) \<in> set bs" "unat nu \<le> n" by blast
  from alloc_from [OF ok this nu(1)] obtain q h' bs' where
    "malloc_loop nu (h_freep h) (h_ptr h (h_freep h)) h = Some (q + 8, h')" "heap_ok h' bs'" "h_base h < q"
    "{q..<q + 8 * unat nu} \<subseteq> cover bs" "cover bs' = cover bs - {q..<q + 8 * unat nu}" "h_size h' q = unat nu"
    "h_base h' = h_base h" "h_brk h' = h_brk h" "\<forall>x. x \<notin> cover bs \<longrightarrow> h_size h' x = h_size h x" by blast
  then have "got_block nu h bs q h' bs'" by (simp add: got_block_def)
  with \<open>malloc_loop nu (h_freep h) (h_ptr h (h_freep h)) h = Some (q + 8, h')\<close> show ?thesis by blast
next
  case False
  let ?V = "insert (h_base h) (fst ` set bs)" and ?p = "h_ptr h (h_freep h)"
  have f: "h_freep h \<in> ?V" and b0: "h_size h (h_base h) = 0" using ok by (simp_all add: heap_ok_def)
  have small: "\<not> unat nu \<le> h_size h v" if v: "v \<in> ?V" for v
  proof (cases "v = h_base h")
    case True
    then show ?thesis using b0 nu(1) by (simp add: unat_gt_0)
  next
    case False
    then obtain n where i: "(v, n) \<in> set bs" using v by auto
    then have "\<not> unat nu \<le> n" using \<open>\<not> (\<exists>b n. (b, n) \<in> set bs \<and> unat nu \<le> n)\<close> by blast
    then show ?thesis using block_size [OF ok i] by simp
  qed
  have closed: "(h_ptr h ^^ j) ?p \<in> ?V" for j
    by (induction j) (use ring_closed [OF ok] f in simp_all)
  obtain k where "(h_ptr h ^^ k) ?p = h_freep h" using ring_reach [OF ok ring_closed [OF ok f] f] by blast
  then obtain k where k: "(h_ptr h ^^ k) ?p = h_freep h" "\<forall>j<k. (h_ptr h ^^ j) ?p \<noteq> h_freep h" using first_visit by blast
  have sm: "\<forall>j\<le>k. \<not> unat nu \<le> h_size h ((h_ptr h ^^ j) ?p)" using small [OF closed] by blast
  note m = loop_miss [OF k sm, of "h_freep h"]
  from morecore_law [OF ok nu] show ?thesis
  proof
    assume "morecore nu h = Some (0, h)"
    then show ?thesis using m by simp
  next
    assume "\<exists>h' bs'. morecore nu h = Some (h_freep h', h') \<and> heap_ok h' bs' \<and> h_brk h \<le> h_brk h' \<and>
      cover bs' = cover bs \<union> {h_brk h..<h_brk h'} \<and> h_base h' = h_base h \<and>
      (\<forall>x. x \<notin> cover bs' \<longrightarrow> h_size h' x = h_size h x) \<and> (\<exists>b n. (b, n) \<in> set bs' \<and> unat nu \<le> n)"
    then obtain g gs b n where g: "morecore nu h = Some (h_freep g, g)" "heap_ok g gs" "h_brk h \<le> h_brk g"
      "cover gs = cover bs \<union> {h_brk h..<h_brk g}" "h_base g = h_base h" "\<forall>x. x \<notin> cover gs \<longrightarrow> h_size g x = h_size h x"
      "(b, n) \<in> set gs" "unat nu \<le> n" by blast
    from alloc_from [OF g(2,7,8) nu(1)] obtain q h' bs' where
      a: "malloc_loop nu (h_freep g) (h_ptr g (h_freep g)) g = Some (q + 8, h')" "heap_ok h' bs'" "h_base g < q"
      "{q..<q + 8 * unat nu} \<subseteq> cover gs" "cover bs' = cover gs - {q..<q + 8 * unat nu}" "h_size h' q = unat nu"
      "h_base h' = h_base g" "h_brk h' = h_brk g" "\<forall>x. x \<notin> cover gs \<longrightarrow> h_size h' x = h_size g x" by blast
    have "h_freep g \<noteq> 0" by (rule freep_nonzero [OF g(2)])
    then have "malloc_loop nu (h_freep h) ?p h = Some (q + 8, h')" using m g(1) a(1) by simp
    moreover have "got_block nu h bs q h' bs'" using a g by (simp add: got_block_def)
    ultimately show ?thesis by blast
  qed
qed

lemma units_enough: "a + 8 \<le> 8 * ((a + 7) div 8 + 1)" for a :: nat
  by presburger

lemma nunits_value:
  assumes "unat n < 2 ^ 31 - 32"
  shows "unat (nunits_of n) = (unat n + 7) div 8 + 1" and "0 < nunits_of n" and "unat (nunits_of n) < 2 ^ 28"
    and "unat n + 8 \<le> 8 * unat (nunits_of n)"
proof -
  have "n + 8 - 1 = of_nat (unat n + 7)" by simp
  moreover have "unat (of_nat (unat n + 7) :: uint) = unat n + 7" using assms by (intro unat_of_nat_32) simp
  ultimately have "unat (n + 8 - 1) = unat n + 7" by metis
  moreover have "unat ((n + 8 - 1) div 8) = unat (n + 8 - 1) div unat (8 :: uint)" by (rule unat_div_distrib)
  moreover have "unat (8 :: uint) = 8" by simp
  ultimately have "unat ((n + 8 - 1) div 8) = (unat n + 7) div 8" by metis
  moreover have "(n + 8 - 1) div 8 = of_nat (unat ((n + 8 - 1) div 8))" by simp
  ultimately have "(n + 8 - 1) div 8 = of_nat ((unat n + 7) div 8)" by metis
  then have "nunits_of n = of_nat ((unat n + 7) div 8 + 1)" by (simp add: nunits_of_def)
  moreover have "unat (of_nat ((unat n + 7) div 8 + 1) :: uint) = (unat n + 7) div 8 + 1" using assms by (intro unat_of_nat_32) simp
  ultimately show u: "unat (nunits_of n) = (unat n + 7) div 8 + 1" by simp
  show "0 < nunits_of n" using u by (simp add: word_less_nat_alt)
  show "unat (nunits_of n) < 2 ^ 28" using assms u by simp
  show "unat n + 8 \<le> 8 * unat (nunits_of n)" unfolding u by (rule units_enough)
qed

end
