(* ===== verification/UMallocFun.thy ===== *)
theory UMallocFun
  imports UMallocRing
begin

text \<open>
  xv6, \<open>umalloc.c\<close>: a program that allocates and frees. Its blocks and the ring share the heap between them.
\<close>

section \<open>A program and its blocks\<close>

text \<open>The program keeps the pointers it got with the sizes it asked for, and frees only those.\<close>

inductive heap_step :: "heap \<times> (nat \<Rightarrow> uint option) \<Rightarrow> heap \<times> (nat \<Rightarrow> uint option) \<Rightarrow> bool" where
  got: "unat n < 2 ^ 31 - 32 \<Longrightarrow> malloc n h = Some (r, h') \<Longrightarrow> r \<noteq> 0 \<Longrightarrow> heap_step (h, L) (h', L(r \<mapsto> n))"
| refused: "unat n < 2 ^ 31 - 32 \<Longrightarrow> malloc n h = Some (0, h') \<Longrightarrow> heap_step (h, L) (h', L)"
| freed: "r \<in> dom L \<Longrightarrow> free r h = Some h' \<Longrightarrow> heap_step (h, L) (h', L(r := None))"

definition extent :: "heap \<Rightarrow> nat \<Rightarrow> nat set" where
  "extent h r = {r - 8..<r - 8 + 8 * h_size h (r - 8)}"

definition owned :: "nat \<Rightarrow> heap \<Rightarrow> (nat \<Rightarrow> uint option) \<Rightarrow> (nat \<times> nat) list \<Rightarrow> bool" where
  "owned start h L bs \<longleftrightarrow> heap_ok h bs \<and> h_base h < start \<and> start \<le> h_brk h \<and> cover bs \<union> (\<Union>r\<in>dom L. extent h r) = {start..<h_brk h} \<and>
     (\<forall>r\<in>dom L. extent h r \<inter> cover bs = {}) \<and> (\<forall>r\<in>dom L. \<forall>s\<in>dom L. r \<noteq> s \<longrightarrow> extent h r \<inter> extent h s = {}) \<and>
     (\<forall>r n. L r = Some n \<longrightarrow> 8 \<le> r \<and> unat n + 8 \<le> 8 * h_size h (r - 8))"

lemma owned_malloc:
  assumes o: "owned start h L bs" and n: "unat n < 2 ^ 31 - 32"
  shows "malloc n h = Some (0, h) \<or> (\<exists>r h' bs'. malloc n h = Some (r, h') \<and> r \<noteq> 0 \<and> owned start h' (L(r \<mapsto> n)) bs')"
proof -
  note N = nunits_value [OF n]
  have ok: "heap_ok h bs" using o by (simp add: owned_def)
  have m: "malloc n h = malloc_loop (nunits_of n) (h_freep h) (h_ptr h (h_freep h)) h"
    using freep_nonzero [OF ok] by (simp add: malloc_def)
  from malloc_loop_law [OF ok N(2,3)] show ?thesis
  proof
    assume "malloc_loop (nunits_of n) (h_freep h) (h_ptr h (h_freep h)) h = Some (0, h)"
    with m show ?thesis by simp
  next
    assume "\<exists>q h' bs'. malloc_loop (nunits_of n) (h_freep h) (h_ptr h (h_freep h)) h = Some (q + 8, h') \<and> got_block (nunits_of n) h bs q h' bs'"
    then obtain q h' bs' where q: "malloc n h = Some (q + 8, h')" and g: "got_block (nunits_of n) h bs q h' bs'" using m by auto
    let ?new = "{h_brk h..<h_brk h'}" and ?E = "{q..<q + 8 * unat (nunits_of n)}"
    note G = g [unfolded got_block_def]
    have O: "cover bs \<union> (\<Union>r\<in>dom L. extent h r) = {start..<h_brk h}" "\<forall>r\<in>dom L. extent h r \<inter> cover bs = {}"
      "\<forall>r\<in>dom L. \<forall>s\<in>dom L. r \<noteq> s \<longrightarrow> extent h r \<inter> extent h s = {}" "h_base h < start" "start \<le> h_brk h"
      "\<forall>r n. L r = Some n \<longrightarrow> 8 \<le> r \<and> unat n + 8 \<le> 8 * h_size h (r - 8)" using o by (simp_all add: owned_def)
    have old: "extent h r \<inter> ?new = {}" "extent h r \<inter> cover bs = {}" "r - 8 \<in> extent h r" "h_size h' (r - 8) = h_size h (r - 8)" if "r \<in> dom L" for r
    proof -
      have "extent h r \<subseteq> {start..<h_brk h}" using O(1) that by blast
      then show e: "extent h r \<inter> ?new = {}" by fastforce
      show c: "extent h r \<inter> cover bs = {}" using O(2) that by blast
      show i: "r - 8 \<in> extent h r" using O(6) that by (fastforce simp: extent_def)
      with e c have "r - 8 \<notin> cover bs \<union> ?new" by blast
      with G show "h_size h' (r - 8) = h_size h (r - 8)" by blast
    qed
    have ex: "extent h' r = extent h r" if "r \<in> dom L" for r using old(4) [OF that] by (simp add: extent_def)
    have eq: "extent h' (q + 8) = ?E" using G by (simp add: extent_def)
    have dE: "extent h r \<inter> ?E = {}" if "r \<in> dom L" for r
    proof -
      have "?E \<subseteq> cover bs \<union> ?new" using G by blast
      then show ?thesis using old(1,2) [OF that] by blast
    qed
    have nin: "q + 8 \<notin> dom L"
    proof
      assume "q + 8 \<in> dom L"
      moreover have "q \<in> ?E" using N(2) by (simp add: unat_gt_0)
      ultimately show False using old(3) [of "q + 8"] dE [of "q + 8"] by auto
    qed
    have dom: "dom (L(q + 8 \<mapsto> n)) = insert (q + 8) (dom L)" by simp
    have "owned start h' (L(q + 8 \<mapsto> n)) bs'" unfolding owned_def
    proof (intro conjI)
      show "heap_ok h' bs'" "h_base h' < start" "start \<le> h_brk h'" using G O(4,5) by simp_all
      have "cover bs' \<union> (\<Union>r\<in>dom (L(q + 8 \<mapsto> n)). extent h' r) = cover bs \<union> ?new \<union> (\<Union>r\<in>dom L. extent h r)"
        unfolding dom using G ex eq by auto
      also have "\<dots> = {start..<h_brk h} \<union> ?new" using O(1) by blast
      also have "\<dots> = {start..<h_brk h'}" using O(5) G by auto
      finally show "cover bs' \<union> (\<Union>r\<in>dom (L(q + 8 \<mapsto> n)). extent h' r) = {start..<h_brk h'}" .
      have "extent h r \<inter> cover bs' = {}" if "r \<in> dom L" for r using old(1,2) [OF that] G by blast
      moreover have "?E \<inter> cover bs' = {}" using G by blast
      ultimately show "\<forall>r\<in>dom (L(q + 8 \<mapsto> n)). extent h' r \<inter> cover bs' = {}"
        unfolding dom by (simp add: ex eq)
      show "\<forall>r\<in>dom (L(q + 8 \<mapsto> n)). \<forall>s\<in>dom (L(q + 8 \<mapsto> n)). r \<noteq> s \<longrightarrow> extent h' r \<inter> extent h' s = {}"
        unfolding dom using ex eq dE O(3) by (auto simp: Int_commute)
      show "\<forall>r m. (L(q + 8 \<mapsto> n)) r = Some m \<longrightarrow> 8 \<le> r \<and> unat m + 8 \<le> 8 * h_size h' (r - 8)"
        using G N(4) O(6) old(4) by (auto simp: domI)
    qed
    with q have "malloc n h = Some (q + 8, h') \<and> q + 8 \<noteq> 0 \<and> owned start h' (L(q + 8 \<mapsto> n)) bs'" by simp
    then show ?thesis by blast
  qed
qed

lemma owned_free:
  assumes o: "owned start h L bs" and r: "r \<in> dom L"
  shows "\<exists>h' bs'. free r h = Some h' \<and> owned start h' (L(r := None)) bs'"
proof -
  have ok: "heap_ok h bs" using o by (simp add: owned_def)
  have O: "cover bs \<union> (\<Union>r\<in>dom L. extent h r) = {start..<h_brk h}" "\<forall>r\<in>dom L. extent h r \<inter> cover bs = {}"
    "\<forall>r\<in>dom L. \<forall>s\<in>dom L. r \<noteq> s \<longrightarrow> extent h r \<inter> extent h s = {}" "h_base h < start" "start \<le> h_brk h"
    "\<forall>r n. L r = Some n \<longrightarrow> 8 \<le> r \<and> unat n + 8 \<le> 8 * h_size h (r - 8)" using o by (simp_all add: owned_def)
  let ?bp = "r - 8"
  let ?n = "h_size h ?bp"
  have r8: "8 \<le> r" "0 < ?n" using O(6) r by fastforce+
  have sub: "extent h r \<subseteq> {start..<h_brk h}" using O(1) r by blast
  have e: "extent h r = {?bp..<?bp + 8 * ?n}" by (simp add: extent_def)
  have b: "?bp \<in> extent h r" "?bp + 8 * ?n - 1 \<in> extent h r" using r8(2) by (auto simp: e)
  then have lo: "h_base h < ?bp" and hi: "?bp + 8 * ?n \<le> h_brk h" using sub O(4) r8(2) by fastforce+
  have "cover bs \<inter> {?bp..<?bp + 8 * ?n} = {}" using O(2) r e by blast
  from free_law [OF ok refl r8(2) lo hi this] r8(1) obtain h' bs' where
    f: "free r h = Some h'" "heap_ok h' bs'" "cover bs' = cover bs \<union> extent h r" "h_base h' = h_base h" "h_brk h' = h_brk h"
      "\<forall>x. x \<notin> cover bs' \<longrightarrow> h_size h' x = h_size h x" by (auto simp: e)
  have dom: "dom (L(r := None)) = dom L - {r}" by simp
  have size: "h_size h' (s - 8) = h_size h (s - 8)" if "s \<in> dom L" "s \<noteq> r" for s
  proof -
    have "s - 8 \<in> extent h s" using O(6) that(1) by (fastforce simp: extent_def)
    then have "s - 8 \<notin> cover bs'" using O(2,3) that r f(3) by blast
    with f(6) show ?thesis by blast
  qed
  then have ex: "extent h' s = extent h s" if "s \<in> dom L - {r}" for s using that by (simp add: extent_def)
  have "owned start h' (L(r := None)) bs'" unfolding owned_def
  proof (intro conjI)
    show "heap_ok h' bs'" "h_base h' < start" "start \<le> h_brk h'" using f O(4,5) by simp_all
    have un: "(\<Union>s\<in>dom L. extent h s) = extent h r \<union> (\<Union>s\<in>dom L - {r}. extent h s)" using r by (metis UN_insert insert_Diff)
    have "(\<Union>s\<in>dom (L(r := None)). extent h' s) = (\<Union>s\<in>dom L - {r}. extent h s)" unfolding dom using ex by simp
    then have "cover bs' \<union> (\<Union>s\<in>dom (L(r := None)). extent h' s) = cover bs \<union> (\<Union>s\<in>dom L. extent h s)"
      using f(3) by (simp add: Un_assoc un)
    then show "cover bs' \<union> (\<Union>s\<in>dom (L(r := None)). extent h' s) = {start..<h_brk h'}" by (simp only: O(1) f(5))
    have "extent h s \<inter> cover bs' = {}" if "s \<in> dom L - {r}" for s using O(2,3) that r f(3) by blast
    then show "\<forall>s\<in>dom (L(r := None)). extent h' s \<inter> cover bs' = {}" unfolding dom using ex by simp
    show "\<forall>s\<in>dom (L(r := None)). \<forall>t\<in>dom (L(r := None)). s \<noteq> t \<longrightarrow> extent h' s \<inter> extent h' t = {}"
      unfolding dom using ex O(3) by simp
    show "\<forall>s m. (L(r := None)) s = Some m \<longrightarrow> 8 \<le> s \<and> unat m + 8 \<le> 8 * h_size h' (s - 8)"
      using O(6) size by (auto simp: domI)
  qed
  with f(1) show ?thesis by blast
qed

text \<open>A program starts with no heap.\<close>

definition fresh :: "nat \<Rightarrow> heap \<Rightarrow> bool" where
  "fresh start h \<longleftrightarrow> h_freep h = 0 \<and> 0 < h_base h \<and> h_base h < start \<and> h_brk h = start"

definition heap_inv :: "nat \<Rightarrow> heap \<times> (nat \<Rightarrow> uint option) \<Rightarrow> bool" where
  "heap_inv start s \<longleftrightarrow> (fresh start (fst s) \<and> snd s = Map.empty) \<or> (\<exists>bs. owned start (fst s) (snd s) bs)"

lemma fresh_first:
  assumes "fresh start h"
  shows "\<exists>g. malloc n h = malloc n g \<and> owned start g Map.empty []"
proof -
  let ?g = "set_size (h_base h) 0 (set_ptr (h_base h) (h_base h) h)\<lparr>h_freep := h_base h\<rparr>"
  have "malloc n h = malloc n ?g" using assms by (simp add: malloc_def fresh_def)
  moreover have "owned start ?g Map.empty []" using assms by (auto simp: owned_def heap_ok_def fresh_def)
  ultimately show ?thesis by blast
qed

lemma inv_malloc:
  assumes i: "heap_inv start (h, L)" and n: "unat n < 2 ^ 31 - 32"
  shows "\<exists>r h'. malloc n h = Some (r, h') \<and> heap_inv start (h', if r = 0 then L else L(r \<mapsto> n))"
proof -
  obtain g bs where g: "malloc n h = malloc n g" "owned start g L bs"
    using i fresh_first [of start h n] unfolding heap_inv_def by auto
  from owned_malloc [OF g(2) n] show ?thesis
  proof
    assume "malloc n g = Some (0, g)"
    with g show ?thesis by (auto simp: heap_inv_def)
  next
    assume "\<exists>r h' bs'. malloc n g = Some (r, h') \<and> r \<noteq> 0 \<and> owned start h' (L(r \<mapsto> n)) bs'"
    then obtain r h' bs' where "malloc n g = Some (r, h')" "r \<noteq> 0" "owned start h' (L(r \<mapsto> n)) bs'" by blast
    with g(1) show ?thesis by (intro exI [of _ r] exI [of _ h']) (auto simp: heap_inv_def)
  qed
qed

lemma inv_free: "heap_inv start (h, L) \<Longrightarrow> r \<in> dom L \<Longrightarrow> \<exists>h'. free r h = Some h' \<and> heap_inv start (h', L(r := None))"
  using owned_free [of start h L _ r] unfolding heap_inv_def by (metis domIff fst_conv snd_conv)

lemma heap_step_inv: "heap_step s t \<Longrightarrow> heap_inv start s \<Longrightarrow> heap_inv start t"
proof (induction rule: heap_step.induct)
  case (got n h r h' L)
  with inv_malloc [of start h L n] show ?case by auto
next
  case (refused n h h' L)
  with inv_malloc [of start h L n] show ?case by auto
next
  case (freed r L h h')
  with inv_free [of start h L r] show ?case by auto
qed

lemma heap_reach_inv: "heap_step\<^sup>*\<^sup>* s t \<Longrightarrow> heap_inv start s \<Longrightarrow> heap_inv start t"
  by (induction rule: rtranclp_induct) (use heap_step_inv in blast)+

text \<open>When the program has freed everything, the ring has one block: the whole heap.\<close>

lemma one_block:
  assumes sp: "spaced e bs" and c: "cover bs = {a..<z}" and az: "a < z"
  shows "\<exists>n. bs = [(a, n)] \<and> z = a + 8 * n"
proof -
  obtain b n ds where b: "bs = (b, n) # ds" using c az by (cases bs) auto
  have s: "spaced (b + 8 * n) ds" "0 < n" using sp by (simp_all add: b)
  have ge: "x = b \<or> b < x" if "x \<in> cover bs" for x
    using that cover_bounds [OF s(1), of x] by (auto simp: b)
  have "b \<in> cover bs" using s(2) by (simp add: b)
  then have "b = a" using ge [of a] c az by auto
  have no: "b + 8 * n \<notin> cover bs" using block_end [OF sp, of b n] by (simp add: b)
  moreover have "{b..<b + 8 * n} \<subseteq> cover bs" by (auto simp: b)
  ultimately have z: "z = b + 8 * n" using c \<open>b = a\<close> s(2) az by (metis atLeastLessThan_iff ivl_subset le_add1 less_le_not_le linorder_not_le nat_less_le)
  have "ds = []"
  proof (cases ds)
    case (Cons p es)
    obtain d k where "p = (d, k)" by fastforce
    then have "d \<in> cover bs" "b + 8 * n < d" using s(1) by (simp_all add: b Cons)
    then show ?thesis using c z by auto
  qed
  with b z \<open>b = a\<close> show ?thesis by simp
qed

lemma apart: "{a..<a + x} \<inter> {b..<b + y} = {} \<Longrightarrow> 0 < x \<Longrightarrow> 0 < y \<Longrightarrow> a + x \<le> b \<or> b + y \<le> a" for a :: nat
  by (rule ccontr) (auto simp: not_le disjoint_iff dest: spec [of _ "max a b"])

lemma owned_facts:
  assumes o: "owned start h L bs"
  shows "L r = Some n \<Longrightarrow> start + 8 \<le> r \<and> r + unat n \<le> h_brk h"
    and "L r = Some n \<Longrightarrow> L s = Some m \<Longrightarrow> r \<noteq> s \<Longrightarrow> r + unat n + 8 \<le> s \<or> s + unat m + 8 \<le> r"
    and "L = Map.empty \<Longrightarrow> start < h_brk h \<Longrightarrow> h_ptr h (h_base h) = start \<and> start + 8 * h_size h start = h_brk h"
proof -
  have O: "cover bs \<union> (\<Union>r\<in>dom L. extent h r) = {start..<h_brk h}" "\<forall>r\<in>dom L. \<forall>s\<in>dom L. r \<noteq> s \<longrightarrow> extent h r \<inter> extent h s = {}"
    "\<And>r n. L r = Some n \<Longrightarrow> 8 \<le> r \<and> unat n + 8 \<le> 8 * h_size h (r - 8)" "heap_ok h bs" using o by (simp_all add: owned_def)
  show "start + 8 \<le> r \<and> r + unat n \<le> h_brk h" if r: "L r = Some n"
  proof -
    have "extent h r \<subseteq> {start..<h_brk h}" using O(1) r by blast
    moreover have "r - 8 \<in> extent h r" "r - 8 + 8 * h_size h (r - 8) - 1 \<in> extent h r" using O(3) [OF r] by (auto simp: extent_def)
    ultimately have "start \<le> r - 8" "r - 8 + 8 * h_size h (r - 8) - 1 < h_brk h" by auto
    then show ?thesis using O(3) [OF r] by linarith
  qed
  show "r + unat n + 8 \<le> s \<or> s + unat m + 8 \<le> r" if r: "L r = Some n" and s: "L s = Some m" and ne: "r \<noteq> s"
  proof -
    have "extent h r \<inter> extent h s = {}" using O(2) r s ne by blast
    then have "r - 8 + 8 * h_size h (r - 8) \<le> s - 8 \<or> s - 8 + 8 * h_size h (s - 8) \<le> r - 8"
      using O(3) [OF r] O(3) [OF s] unfolding extent_def by (intro apart) simp_all
    then show ?thesis using O(3) [OF r] O(3) [OF s] by linarith
  qed
  show "h_ptr h (h_base h) = start \<and> start + 8 * h_size h start = h_brk h" if e: "L = Map.empty" "start < h_brk h"
  proof -
    have "cover bs = {start..<h_brk h}" using O(1) e(1) by simp
    from one_block [OF _ this e(2)] obtain n where "bs = [(start, n)]" "h_brk h = start + 8 * n" using O(4) by (auto simp: heap_ok_def)
    with O(4) show ?thesis by (simp add: heap_ok_def)
  qed
qed

text \<open>
  C12: The heap of an xv6 user program stays well formed. After any sequence of \<open>malloc\<close> (of less than
  \<open>2^31 - 32\<close> bytes, refused or not) and \<open>free\<close> of pointers in use, both return again, the blocks
  in use lie inside the heap with room for their header and the bytes that were asked for, no two of them
  overlap, and when the program has freed all of them the ring has joined the whole heap into one block.
\<close>

theorem heap_stays_wellformed:
  assumes f: "fresh start h0" and r: "heap_step\<^sup>*\<^sup>* (h0, Map.empty) (h, L)"
  shows "(\<forall>n. unat n < 2 ^ 31 - 32 \<longrightarrow> malloc n h \<noteq> None) \<and> (\<forall>r\<in>dom L. free r h \<noteq> None) \<and>
    (\<forall>r n. L r = Some n \<longrightarrow> start + 8 \<le> r \<and> r + unat n \<le> h_brk h) \<and>
    (\<forall>r n s m. L r = Some n \<and> L s = Some m \<and> r \<noteq> s \<longrightarrow> r + unat n + 8 \<le> s \<or> s + unat m + 8 \<le> r) \<and>
    (L = Map.empty \<and> start < h_brk h \<longrightarrow> h_ptr h (h_base h) = start \<and> start + 8 * h_size h start = h_brk h)"
proof -
  have i: "heap_inv start (h, L)" by (rule heap_reach_inv [OF r]) (simp add: heap_inv_def f)
  have 1: "\<forall>n. unat n < 2 ^ 31 - 32 \<longrightarrow> malloc n h \<noteq> None" using inv_malloc [OF i] by fastforce
  have 2: "\<forall>r\<in>dom L. free r h \<noteq> None" using inv_free [OF i] by fastforce
  from i consider "fresh start h" "L = Map.empty" | bs where "owned start h L bs" by (auto simp: heap_inv_def)
  then show ?thesis
  proof cases
    case 1
    with \<open>\<forall>n. unat n < 2 ^ 31 - 32 \<longrightarrow> malloc n h \<noteq> None\<close> show ?thesis by (simp add: fresh_def)
  next
    case 2
    note F = owned_facts [OF 2]
    show ?thesis using 1 \<open>\<forall>r\<in>dom L. free r h \<noteq> None\<close> F by (intro conjI) blast+
  qed
qed

text \<open>The bound is needed: with the largest size the sum wraps around and one unit, its header, is enough.\<close>

lemma nunits_overflow: "nunits_of (- 1) = 1"
  by (simp add: nunits_of_def)

text \<open>A program whose break is at 4096 gets 100 bytes at the end of its first 32768.\<close>

definition demo_heap :: heap where
  "demo_heap = \<lparr>h_base = 8, h_ptr = (\<lambda>_. 0), h_size = (\<lambda>_. 0), h_freep = 0, h_brk = 4096, h_room = 100000\<rparr>"

lemma demo_malloc: "\<exists>h. malloc 100 demo_heap = Some (36760, h)"
  apply (simp add: malloc_def demo_heap_def nunits_of_def)
  apply (subst malloc_loop.simps)
  apply (simp add: morecore_def sbrk_def free_def Let_def)
  apply (subst free_slot.simps)
  apply (simp add: free_at_def Let_def)
  apply (subst malloc_loop.simps)
  apply (simp add: malloc_take_def Let_def)
  done

lemma heap_stays_wellformed_witness:
  "\<exists>h. malloc 100 demo_heap = Some (36760, h) \<and>
    (\<forall>n. unat n < 2 ^ 31 - 32 \<longrightarrow> malloc n h \<noteq> None) \<and> (\<forall>r\<in>dom [36760 \<mapsto> 100 :: uint]. free r h \<noteq> None) \<and>
    (\<forall>r n. [36760 \<mapsto> 100 :: uint] r = Some n \<longrightarrow> 4096 + 8 \<le> r \<and> r + unat n \<le> h_brk h) \<and>
    (\<forall>r n s m. [36760 \<mapsto> 100 :: uint] r = Some n \<and> [36760 \<mapsto> 100 :: uint] s = Some m \<and> r \<noteq> s \<longrightarrow>
      r + unat n + 8 \<le> s \<or> s + unat m + 8 \<le> r) \<and>
    ([36760 :: nat \<mapsto> 100 :: uint] = Map.empty \<and> 4096 < h_brk h \<longrightarrow> h_ptr h (h_base h) = 4096 \<and> 4096 + 8 * h_size h 4096 = h_brk h)"
proof -
  obtain h where m: "malloc 100 demo_heap = Some (36760, h)" using demo_malloc by blast
  have f: "fresh 4096 demo_heap" by (simp add: fresh_def demo_heap_def)
  have "heap_step (demo_heap, Map.empty) (h, [36760 \<mapsto> 100])" by (rule heap_step.got [OF _ m]) simp_all
  then have r: "heap_step\<^sup>*\<^sup>* (demo_heap, Map.empty) (h, [36760 \<mapsto> 100])" by blast
  show ?thesis by (rule exI [of _ h], rule conjI [OF m], rule heap_stays_wellformed [OF f r])
qed

end
