(* ===== verification/UnixUtils.thy ===== *)
theory UnixUtils
  imports CLib
begin

text \<open>
  P1, the UNIX utilities: \<open>my-look.c\<close> (prints the lines of a file or of standard input
  that begin with a given string) and \<open>wordle.c\<close> (prints the five-letter words that avoid
  the given letters). A run yields what is printed on standard output, as the list of the
  printed pieces, and the exit status. \<open>fopen\<close> is a parameter: the content of the file of a
  name, or None where it cannot be opened.
\<close>

section \<open>my-look\<close>

subsection \<open>Stripping a line\<close>

fun look_filter :: "string \<Rightarrow> string" where
  "look_filter [] = []"
| "look_filter (c # cs) =
     (if c_isalpha c \<or> c_isdigit c then c # look_filter cs else look_filter cs)"

lemma look_filter_eq: "look_filter s = filter (\<lambda>c. c_isalpha c \<or> c_isdigit c) s"
  by (induction s) auto

lemma look_filter_no_nul: "\<forall>c\<in>set (look_filter s). c_tolower c \<noteq> 0"
  using c_tolower_alnum by (auto simp: look_filter_eq simp del: neq0_conv)

subsection \<open>Printing the lines that match\<close>

definition look_matches :: "string \<Rightarrow> string \<Rightarrow> bool" where
  "look_matches fpre line \<longleftrightarrow>
     c_strncasecmp fpre (look_filter line) (length fpre) = 0"

function look_loop :: "nat \<Rightarrow> string \<Rightarrow> string \<Rightarrow> string list" where
  "look_loop n fpre s =
     (case c_fgets (Suc (Suc n)) s of
        None \<Rightarrow> []
      | Some (line, rest) \<Rightarrow>
          (if look_matches fpre line then [line] else []) @ look_loop n fpre rest)"
  by pat_completeness auto
termination
  by (relation "measure (\<lambda>(n, fpre, s). length s)") (auto dest: c_fgets_shrinks)

declare look_loop.simps [simp del]

lemma look_loop_chunks: "look_loop n fpre s = filter (look_matches fpre) (c_chunks n s)"
proof (induction n fpre s rule: look_loop.induct)
  case (1 n fpre s)
  then show ?case
    by (cases "c_fgets (Suc (Suc n)) s")
      (auto simp: look_loop.simps [of n fpre s] c_chunks.simps [of n s] split: prod.splits)
qed

text \<open>
  \<open>filteredPrefix\<close> has 260 bytes and is filled without a bound, so a longer stripped prefix
  overruns it. The file branch reads with a 260-byte limit, the standard-input branch with 100.
\<close>

definition look_compare :: "string option \<Rightarrow> string \<Rightarrow> string \<Rightarrow> string list res" where
  "look_compare fp pre input =
     (let fpre = look_filter pre in
      if 260 \<le> length fpre then Undef
      else Ok (case fp of
                 Some content \<Rightarrow> look_loop 258 fpre content
               | None \<Rightarrow> look_loop 98 fpre input))"

subsection \<open>The command line\<close>

text \<open>
  \<open>getopt(argc, argv, ''Vhf:'')\<close> as the GNU library documents it: options are taken from
  left to right wherever they stand, the other arguments are moved behind them, \<open>--\<close> ends the
  options, and an unknown option or a missing argument yields \<open>?\<close>.
\<close>

datatype look_opt = OptV | Opth | Optf string | OptErr

fun getopt_cluster :: "string \<Rightarrow> string list \<Rightarrow> look_opt list \<times> string list" where
  "getopt_cluster [] rest = ([], rest)"
| "getopt_cluster (c # cs) rest =
     (if c = CHR ''f'' then
        (if cs \<noteq> [] then ([Optf cs], rest)
         else (case rest of [] \<Rightarrow> ([OptErr], []) | a # as \<Rightarrow> ([Optf a], as)))
      else (case getopt_cluster cs rest of
              (os, rest') \<Rightarrow>
                ((if c = CHR ''V'' then OptV else if c = CHR ''h'' then Opth else OptErr) # os,
                 rest')))"

lemma getopt_cluster_length: "getopt_cluster s rest = (os, rest') \<Longrightarrow> length rest' \<le> length rest"
  by (induction s rest arbitrary: os rest' rule: getopt_cluster.induct)
    (auto split: if_splits list.splits prod.splits)

function look_getopt :: "string list \<Rightarrow> look_opt list \<times> string list" where
  "look_getopt [] = ([], [])"
| "look_getopt (a # rest) =
     (if a = ''--'' then ([], rest)
      else if 2 \<le> length a \<and> hd a = CHR ''-'' then
        (case getopt_cluster (tl a) rest of
           (os, rest') \<Rightarrow>
             (case look_getopt rest' of (os', nons) \<Rightarrow> (os @ os', nons)))
      else (case look_getopt rest of (os', nons) \<Rightarrow> (os', a # nons)))"
  by pat_completeness auto
termination
  by (relation "measure length", goal_cases)
    (auto simp: less_Suc_eq_le intro: getopt_cluster_length [OF sym])

definition print_line :: "string \<Rightarrow> string" where
  "print_line s = s @ [c_newline]"

definition help_lines :: "string list" where
  "help_lines =
    [''Help Information of MY-LOOK(Designed by Yizhe Shang)'',
     ''NAME: '',
     ''    my-look - display lines beginning with a given string.'',
     [],
     ''DESCRIPTION: '',
     ''    This is a variant of the original look utility. my-look take a string as input and return any lines in a file that contain that string as a prefix. But my-look have different command line options.'',
     [],
     ''    Same as look, if file is not specified, the file /usr/share/dict/words is used, only alphanumeric characters are compared and the case of alphabetic characters is ignored.'',
     ''    The following options are available:'',
     [],
     ''    -V: prints information about this utility; the message should be exactly \"my-look from CS537 Spring 2022\" followed by a newline.  The utility should then exit with status code 0 without processing any more options.  (Note this an upper-case V, not lower-case.  Lower-case v is often used to signify verbose output.)'',
     ''    -h: prints help information about this utility; The utility should then exit with status code 0 without processing any more options.'',
     ''    -f <filename>: uses <filename> as the input dictionary.  For example, \"my-look -f ./mywords\" will read the file \"./mywords\" for input.  If this option is not specified, then  my-look will read from standard input (i.e., stdin); it will not open a file called stdin!!!'',
     [],
     ''    If my-look encounters any other arguments or has any error parsing the command line arguments, it will exit with status code 1 and print the exact error message \"my-look: invalid command line\"'']"

definition printHelpInfo :: "string list" where
  "printHelpInfo = map print_line help_lines"

record util_exit =
  ue_out :: "string list"
  ue_code :: int

definition util_fail :: "string \<Rightarrow> util_exit" where
  "util_fail m = \<lparr>ue_out = [print_line m], ue_code = 1\<rparr>"

text \<open>The option loop: it ends the program, or leaves the content of the file to read.\<close>

fun look_options ::
  "(string \<Rightarrow> string option) \<Rightarrow> look_opt list \<Rightarrow> string option \<Rightarrow> util_exit + string option" where
  "look_options fopen [] fp = Inr fp"
| "look_options fopen (OptV # os) fp =
     Inl \<lparr>ue_out = [print_line ''my-look from CS537 Spring 2022''], ue_code = 0\<rparr>"
| "look_options fopen (Opth # os) fp = Inl \<lparr>ue_out = printHelpInfo, ue_code = 0\<rparr>"
| "look_options fopen (Optf path # os) fp =
     (case fopen path of
        None \<Rightarrow> Inl (util_fail ''my-look: cannot open file'')
      | Some content \<Rightarrow> look_options fopen os (Some content))"
| "look_options fopen (OptErr # os) fp = Inl (util_fail ''my-look: invalid command line'')"

definition look_main ::
  "(string \<Rightarrow> string option) \<Rightarrow> string \<Rightarrow> string list \<Rightarrow> util_exit res" where
  "look_main fopen input args =
     (if args = [] then Ok (util_fail ''my-look: invalid command line'')
      else case look_getopt args of
        (os, nons) \<Rightarrow>
          (case look_options fopen os None of
             Inl e \<Rightarrow> Ok e
           | Inr fp \<Rightarrow>
               (case nons of
                  [] \<Rightarrow> Undef
                | pre # _ \<Rightarrow>
                    rbind (look_compare fp pre input)
                      (\<lambda>out. Ok \<lparr>ue_out = out, ue_code = 0\<rparr>))))"

section \<open>wordle\<close>

text \<open>
  The inner loop leaves in \<open>ptr\<close> the position of the first letter of \<open>str\<close> that occurs in
  the line, or NULL after the last letter; with an empty \<open>str\<close> it never assigns \<open>ptr\<close>, and
  the test that follows reads an indeterminate pointer.
\<close>

fun wordle_ptr :: "string \<Rightarrow> string \<Rightarrow> bool option" where
  "wordle_ptr line [] = None"
| "wordle_ptr line (c # cs) =
     (if c \<in> set line then Some True
      else if cs = [] then Some False else wordle_ptr line cs)"

function wordle_loop :: "string \<Rightarrow> string \<Rightarrow> string list res" where
  "wordle_loop str s =
     (case c_fgets (Suc (Suc 258)) s of
        None \<Rightarrow> Ok []
      | Some (line, rest) \<Rightarrow>
          (if length line - 1 \<noteq> 5 then wordle_loop str rest
           else case wordle_ptr line str of
             None \<Rightarrow> Undef
           | Some found \<Rightarrow>
               rbind (wordle_loop str rest)
                 (\<lambda>out. Ok ((if found then [] else [line]) @ out))))"
  by pat_completeness auto
termination
  by (relation "measure (\<lambda>(str, s). length s)") (auto dest: c_fgets_shrinks_ge [rotated])

declare wordle_loop.simps [simp del]

definition wordle_main :: "(string \<Rightarrow> string option) \<Rightarrow> string list \<Rightarrow> util_exit res" where
  "wordle_main fopen args =
     (case args of
        [file, str] \<Rightarrow>
          (case fopen file of
             None \<Rightarrow> Ok (util_fail ''wordle: cannot open file'')
           | Some content \<Rightarrow>
               rbind (wordle_loop str content)
                 (\<lambda>out. Ok \<lparr>ue_out = out, ue_code = 0\<rparr>))
      | _ \<Rightarrow> Ok (util_fail ''wordle: invalid number of args''))"

lemma wordle_ptr_iff:
  "str \<noteq> [] \<Longrightarrow> wordle_ptr line str = Some (\<exists>c\<in>set str. c \<in> set line)"
  by (induction str) auto

lemma wordle_loop_chunks:
  "str \<noteq> [] \<Longrightarrow> wordle_loop str s =
     Ok (filter (\<lambda>l. length l = 6 \<and> set str \<inter> set l = {}) (c_chunks 258 s))"
proof (induction str s rule: wordle_loop.induct)
  case (1 str s)
  show ?case
  proof (cases "c_fgets (Suc (Suc 258)) s")
    case None
    then show ?thesis by (simp add: wordle_loop.simps [of str s] c_chunks.simps [of 258 s])
  next
    case (Some p)
    obtain line rest where p: "p = (line, rest)" by fastforce
    note fg = Some [unfolded p]
    have six: "length line - 1 = 5 \<longleftrightarrow> length line = 6" by arith
    show ?thesis
    proof (cases "length line = 6")
      case True
      with "1.IH" (2) [OF fg refl] "1.prems" fg six show ?thesis
        by (auto simp: wordle_loop.simps [of str s] c_chunks.simps [of 258 s] wordle_ptr_iff)
    next
      case False
      with "1.IH" (1) [OF fg refl] "1.prems" fg six show ?thesis
        by (auto simp: wordle_loop.simps [of str s] c_chunks.simps [of 258 s])
    qed
  qed
qed

section \<open>Properties\<close>

text \<open>
  C40: \<open>my-look -f file prefix\<close> prints, in order and unchanged, exactly the lines of the file
  whose alphanumeric characters begin with those of the prefix, case ignored: for every file
  whose lines fit the 260-byte buffer and every prefix that fits its own. An empty stripped
  prefix prints every line.
\<close>

theorem look_compare_file:
  assumes "\<forall>l\<in>set (c_lines content). length l \<le> 259"
    and "length (look_filter pre) < 260"
  shows "look_compare (Some content) pre input =
    Ok (filter (\<lambda>l. \<exists>rest. map c_tolower (look_filter l) =
                           map c_tolower (look_filter pre) @ rest) (c_lines content))"
proof -
  have pre: "look_matches (look_filter pre) = (\<lambda>l.
      \<exists>rest. map c_tolower (look_filter l) = map c_tolower (look_filter pre) @ rest)"
  proof
    fix l
    have "look_matches (look_filter pre) l \<longleftrightarrow>
        length (look_filter pre) \<le> length (look_filter l) \<and>
        map c_tolower (look_filter pre) =
        take (length (look_filter pre)) (map c_tolower (look_filter l))"
      unfolding look_matches_def
      using c_strncasecmp_0_iff [OF look_filter_no_nul, of pre "look_filter l"]
      by (simp add: take_map)
    also have "\<dots> \<longleftrightarrow>
        (\<exists>rest. map c_tolower (look_filter l) = map c_tolower (look_filter pre) @ rest)"
      by (metis append_eq_conv_conj append_take_drop_id length_append length_map le_add1)
    finally show "look_matches (look_filter pre) l \<longleftrightarrow>
        (\<exists>rest. map c_tolower (look_filter l) = map c_tolower (look_filter pre) @ rest)" .
  qed
  have "c_chunks 258 content = c_lines content"
    using assms(1) by (intro c_chunks_lines) auto
  with assms(2) show ?thesis
    by (simp add: look_compare_def Let_def look_loop_chunks pre)
qed

theorem look_compare_file_witness:
  "look_compare (Some (''Gnu's'' @ c_newline # ''Gap'' @ [c_newline])) ''gn'' [] =
     Ok [''Gnu's'' @ [c_newline]]"
proof -
  have "look_compare (Some (''Gnu's'' @ c_newline # ''Gap'' @ [c_newline])) ''gn'' [] =
    Ok (filter (\<lambda>l. \<exists>rest. map c_tolower (look_filter l) =
                           map c_tolower (look_filter ''gn'') @ rest)
      (c_lines (''Gnu's'' @ c_newline # ''Gap'' @ [c_newline])))"
    by (rule look_compare_file)
      (simp_all add: c_newline_def c_isalpha_def c_isdigit_def c_code_def)
  then show ?thesis
    by (simp add: c_newline_def c_isalpha_def c_isdigit_def c_code_def c_tolower_def)
qed

text \<open>
  \<open>wordle file str\<close> with a non-empty \<open>str\<close> always returns, and prints exactly the lines of
  the file that have five characters before the newline and none of the letters of \<open>str\<close>, for
  every file whose lines fit the buffer and all end in a newline.
\<close>

theorem wordle_main_prints:
  assumes "fopen file = Some content" and "str \<noteq> []"
    and "\<forall>l\<in>set (c_lines content). length l \<le> 259 \<and> last l = c_newline"
    and "c_newline \<notin> set str"
  shows "wordle_main fopen [file, str] = Ok \<lparr>ue_out =
    filter (\<lambda>l. length (butlast l) = 5 \<and> set str \<inter> set (butlast l) = {}) (c_lines content),
    ue_code = 0\<rparr>"
proof -
  have "c_chunks 258 content = c_lines content"
    using assms(3) by (intro c_chunks_lines) auto
  moreover have "filter (\<lambda>l. length l = 6 \<and> set str \<inter> set l = {}) (c_lines content) =
    filter (\<lambda>l. length (butlast l) = 5 \<and> set str \<inter> set (butlast l) = {}) (c_lines content)"
  proof (rule filter_cong [OF refl])
    fix l assume l: "l \<in> set (c_lines content)"
    have "set str \<inter> set l = {} \<longleftrightarrow> set str \<inter> set (butlast l) = {}" if "l \<noteq> []"
      using assms(3,4) l that append_butlast_last_id [OF that]
      by (metis Int_Un_distrib Int_insert_right_if0 Un_empty_right inf_bot_right list.set(1)
          list.simps(15) set_append)
    moreover have "length l = 6 \<longleftrightarrow> length (butlast l) = 5" by auto
    ultimately show "(length l = 6 \<and> set str \<inter> set l = {}) =
      (length (butlast l) = 5 \<and> set str \<inter> set (butlast l) = {})"
      by (cases "l = []") auto
  qed
  ultimately show ?thesis
    using assms(1,2) by (simp add: wordle_main_def wordle_loop_chunks)
qed

theorem wordle_main_prints_witness:
  "wordle_main (\<lambda>_. Some (''soups'' @ c_newline # ''abadc'' @ [c_newline])) [''f'', ''not''] =
     Ok \<lparr>ue_out = [''abadc'' @ [c_newline]], ue_code = 0\<rparr>"
proof -
  have "wordle_main (\<lambda>_. Some (''soups'' @ c_newline # ''abadc'' @ [c_newline])) [''f'', ''not''] =
    Ok \<lparr>ue_out = filter (\<lambda>l. length (butlast l) = 5 \<and> set ''not'' \<inter> set (butlast l) = {})
      (c_lines (''soups'' @ c_newline # ''abadc'' @ [c_newline])), ue_code = 0\<rparr>"
    by (rule wordle_main_prints) (simp_all add: c_newline_def)
  then show ?thesis by (simp add: c_newline_def)
qed

text \<open>
  the two input paths of \<open>my-look\<close> disagree. A 105-character line (99 letters, then
  \<open>-zzzz\<close> and the newline) that matches is printed whole when it comes from a file; from
  standard input, which is read in pieces of 99 characters, only the first 99 are printed.
\<close>

theorem look_stdin_splits_lines:
  "look_compare (Some (replicate 99 (CHR ''a'') @ ''-zzzz'' @ [c_newline])) ''aa'' [] =
     Ok [replicate 99 (CHR ''a'') @ ''-zzzz'' @ [c_newline]] \<and>
   look_compare None ''aa'' (replicate 99 (CHR ''a'') @ ''-zzzz'' @ [c_newline]) =
     Ok [replicate 99 (CHR ''a'')]"
  by code_simp

end
