(* ===== verification/MapReduce.thy ===== *)
theory MapReduce
  imports CLib
begin

text \<open>
  P3A, \<open>mapreduce.c\<close> and its single-threaded reference \<open>sequential_mapreduce.c\<close>. The
  mapper threads are a step relation in which each section under \<open>fileLock\<close> (take the next file)
  and each section under \<open>lock\<close> (\<open>MR_Emit\<close>) is one atomic step, in any interleaving. A user's
  map function is the list of pairs it emits for a file, a user's reduce function drains its
  getter as the reducers of the repository do, and \<open>qsort\<close> is a parameter of which only the C
  standard's contract is used: it sorts by the comparison, and permutes.
\<close>

section \<open>State\<close>

type_synonym node = "string \<times> string"

record mr =
  mr_partitions :: "node list list"
  mr_nodes :: "nat list"
  mr_access :: "nat list"

definition mr_init :: "nat \<Rightarrow> mr" where
  "mr_init num_reducers =
     \<lparr>mr_partitions = replicate num_reducers [],
      mr_nodes = replicate num_reducers 0,
      mr_access = replicate num_reducers 0\<rparr>"

definition mr_cmp :: "node \<Rightarrow> node \<Rightarrow> int" where
  "mr_cmp a b = c_strcmp (fst a) (fst b)"

section \<open>Partitioning and emitting\<close>

text \<open>\<open>hash * 33 + c\<close> in \<open>unsigned long\<close>, with \<open>c\<close> a sign-extended char.\<close>

fun djb_loop :: "ulong \<Rightarrow> string \<Rightarrow> ulong" where
  "djb_loop hash [] = hash"
| "djb_loop hash (c # cs) = djb_loop (hash * 33 + scast (of_nat (c_code c) :: byte)) cs"

definition MR_DefaultHashPartition :: "string \<Rightarrow> nat \<Rightarrow> nat" where
  "MR_DefaultHashPartition key num_partitions = unat (djb_loop 5381 key) mod num_partitions"

text \<open>The counters are ints: one more than the largest is not defined.\<close>

definition INT_MAX :: int where "INT_MAX = 2 ^ 31 - 1"

definition MR_Emit :: "(string \<Rightarrow> nat \<Rightarrow> nat) \<Rightarrow> string \<Rightarrow> string \<Rightarrow> mr \<Rightarrow> mr res" where
  "MR_Emit partitioner key val st =
     (let p = partitioner key (length (mr_partitions st)) in
      if length (mr_partitions st) \<le> p \<or> int (mr_nodes st ! p) = INT_MAX then Undef
      else
        let nodes = upd_at p Suc (mr_nodes st);
            curCount = nodes ! p;
            grown = take (curCount - 1) (mr_partitions st ! p) @ [(key, val)]
        in Ok (st\<lparr>mr_nodes := nodes, mr_partitions := (mr_partitions st)[p := grown]\<rparr>))"

section \<open>Mapper threads\<close>

text \<open>
  What a mapper thread is about to do: go round its loop, or run the rest of the map function
  on the file it took (the pairs still to be emitted), or nothing any more.
\<close>

datatype mapper_pc = Looping | Mapping "node list" | Stopped

record mr_sys =
  ms_mr :: mr
  ms_done :: nat
  ms_pcs :: "mapper_pc list"

inductive mapper_step ::
  "(string \<Rightarrow> nat \<Rightarrow> nat) \<Rightarrow> (string \<Rightarrow> node list) \<Rightarrow> string list \<Rightarrow> mr_sys \<Rightarrow> mr_sys \<Rightarrow> bool"
  for partitioner mapper files where
  stop: "i < length (ms_pcs s) \<Longrightarrow> ms_pcs s ! i = Looping \<Longrightarrow> length files \<le> ms_done s \<Longrightarrow>
    mapper_step partitioner mapper files s (s\<lparr>ms_pcs := (ms_pcs s)[i := Stopped]\<rparr>)"
| take_file: "i < length (ms_pcs s) \<Longrightarrow> ms_pcs s ! i = Looping \<Longrightarrow> ms_done s < length files \<Longrightarrow>
    mapper_step partitioner mapper files s
      (s\<lparr>ms_pcs := (ms_pcs s)[i := Mapping (mapper (files ! ms_done s))],
         ms_done := ms_done s + 1\<rparr>)"
| emit: "i < length (ms_pcs s) \<Longrightarrow> ms_pcs s ! i = Mapping ((key, val) # es) \<Longrightarrow>
    MR_Emit partitioner key val (ms_mr s) = Ok m \<Longrightarrow>
    mapper_step partitioner mapper files s
      (s\<lparr>ms_pcs := (ms_pcs s)[i := Mapping es], ms_mr := m\<rparr>)"
| finish: "i < length (ms_pcs s) \<Longrightarrow> ms_pcs s ! i = Mapping [] \<Longrightarrow>
    mapper_step partitioner mapper files s (s\<lparr>ms_pcs := (ms_pcs s)[i := Looping]\<rparr>)"

text \<open>At most one mapper per file is started.\<close>

definition mr_start :: "string list \<Rightarrow> nat \<Rightarrow> nat \<Rightarrow> mr_sys" where
  "mr_start files num_mappers num_reducers =
     \<lparr>ms_mr = mr_init num_reducers, ms_done = 0,
      ms_pcs = replicate (if length files < num_mappers then length files else num_mappers) Looping\<rparr>"

inductive mr_reach ::
  "(string \<Rightarrow> nat \<Rightarrow> nat) \<Rightarrow> (string \<Rightarrow> node list) \<Rightarrow> string list \<Rightarrow> nat \<Rightarrow> nat \<Rightarrow> mr_sys \<Rightarrow> bool"
  for partitioner mapper files num_mappers num_reducers where
  start: "mr_reach partitioner mapper files num_mappers num_reducers
    (mr_start files num_mappers num_reducers)"
| step: "mr_reach partitioner mapper files num_mappers num_reducers s \<Longrightarrow>
    mapper_step partitioner mapper files s t \<Longrightarrow>
    mr_reach partitioner mapper files num_mappers num_reducers t"

text \<open>\<open>pthread_join\<close> of every mapper: all of them have left their loop.\<close>

definition mr_joined :: "mr_sys \<Rightarrow> bool" where
  "mr_joined s \<longleftrightarrow> (\<forall>pc\<in>set (ms_pcs s). pc = Stopped)"

section \<open>Reducer threads\<close>

definition getValue :: "string \<Rightarrow> nat \<Rightarrow> mr \<Rightarrow> string option \<times> mr" where
  "getValue key part st =
     (let num = mr_access st ! part in
      if num < mr_nodes st ! part \<and> c_strcmp key (fst (mr_partitions st ! part ! num)) = 0
      then (Some (snd (mr_partitions st ! part ! num)),
            st\<lparr>mr_access := upd_at part Suc (mr_access st)\<rparr>)
      else (None, st))"

text \<open>
  \<open>while ((value = get_next(key, partition)) != NULL)\<close>: the reduce functions of the repository
  consume every value of their key. Fuel: one step per stored node and one for the NULL.
\<close>

fun mr_drain :: "nat \<Rightarrow> string \<Rightarrow> nat \<Rightarrow> mr \<Rightarrow> (string list \<times> mr) res" where
  "mr_drain 0 key part st = Hang"
| "mr_drain (Suc n) key part st =
     (case getValue key part st of
        (None, st') \<Rightarrow> Ok ([], st')
      | (Some v, st') \<Rightarrow> rbind (mr_drain n key part st') (\<lambda>(vs, st''). Ok (v # vs, st'')))"

definition drain_reducer :: "string \<Rightarrow> nat \<Rightarrow> mr \<Rightarrow> ((string \<times> string list) \<times> mr) res" where
  "drain_reducer key part st =
     rbind (mr_drain (Suc (mr_nodes st ! part)) key part st) (\<lambda>(vs, st'). Ok ((key, vs), st'))"

text \<open>
  The loop of \<open>reducerHelper\<close>: it calls the reduce function on the key of the next unread node.
  Fuel: each call reads at least one node, or the C loop never ends.
\<close>

fun reducer_loop ::
  "nat \<Rightarrow> (string \<Rightarrow> nat \<Rightarrow> mr \<Rightarrow> ('c \<times> mr) res) \<Rightarrow> nat \<Rightarrow> mr \<Rightarrow> ('c list \<times> mr) res" where
  "reducer_loop n reducer part st =
     (if mr_access st ! part < mr_nodes st ! part then
        (case n of
           0 \<Rightarrow> Hang
         | Suc n' \<Rightarrow>
             rbind (reducer (fst (mr_partitions st ! part ! (mr_access st ! part))) part st)
               (\<lambda>(c, st'). rbind (reducer_loop n' reducer part st')
               (\<lambda>(cs, st''). Ok (c # cs, st''))))
      else Ok ([], st))"

declare reducer_loop.simps [simp del]

definition reducerHelper ::
  "(node list \<Rightarrow> node list) \<Rightarrow> (string \<Rightarrow> nat \<Rightarrow> mr \<Rightarrow> ('c \<times> mr) res) \<Rightarrow> nat \<Rightarrow> mr \<Rightarrow>
   ('c list \<times> mr) res" where
  "reducerHelper qsort reducer part st =
     reducer_loop (mr_nodes st ! part) reducer part
       (st\<lparr>mr_partitions := upd_at part (\<lambda>P. qsort (take (mr_nodes st ! part) P)) (mr_partitions st),
           mr_access := (mr_access st)[part := 0]\<rparr>)"

text \<open>
  The reduce phase of \<open>MR_Run\<close>, one thread per partition, with the threads run one after the other in
  the order of the list. A reducer thread reads and writes the entries of its own partition only: that every interleaving
  gives the same calls is proved of the step relation of the theory \<open>MapReduceThm\<close>.
\<close>

fun mr_reduce_phase ::
  "(node list \<Rightarrow> node list) \<Rightarrow> (string \<Rightarrow> nat \<Rightarrow> mr \<Rightarrow> ('c \<times> mr) res) \<Rightarrow> nat list \<Rightarrow> mr \<Rightarrow>
   ('c list \<times> mr) res" where
  "mr_reduce_phase qsort reducer [] st = Ok ([], st)"
| "mr_reduce_phase qsort reducer (part # parts) st =
     rbind (reducerHelper qsort reducer part st) (\<lambda>(cs, st').
     rbind (mr_reduce_phase qsort reducer parts st') (\<lambda>(cs', st''). Ok (cs @ cs', st'')))"

section \<open>The sequential reference\<close>

record seq_mr =
  kvl_elements :: "node list"
  kvl_counter :: nat

definition seq_emit :: "string \<Rightarrow> string \<Rightarrow> seq_mr \<Rightarrow> seq_mr" where
  "seq_emit key val st = st\<lparr>kvl_elements := kvl_elements st @ [(key, val)]\<rparr>"

definition seq_get_func :: "string \<Rightarrow> seq_mr \<Rightarrow> string option \<times> seq_mr" where
  "seq_get_func key st =
     (if kvl_counter st = length (kvl_elements st) then (None, st)
      else if c_strcmp (fst (kvl_elements st ! kvl_counter st)) key = 0
      then (Some (snd (kvl_elements st ! kvl_counter st)), st\<lparr>kvl_counter := kvl_counter st + 1\<rparr>)
      else (None, st))"

fun seq_drain :: "nat \<Rightarrow> string \<Rightarrow> seq_mr \<Rightarrow> (string list \<times> seq_mr) res" where
  "seq_drain 0 key st = Hang"
| "seq_drain (Suc n) key st =
     (case seq_get_func key st of
        (None, st') \<Rightarrow> Ok ([], st')
      | (Some v, st') \<Rightarrow> rbind (seq_drain n key st') (\<lambda>(vs, st''). Ok (v # vs, st'')))"

fun seq_reduce_loop :: "nat \<Rightarrow> seq_mr \<Rightarrow> ((string \<times> string list) list \<times> seq_mr) res" where
  "seq_reduce_loop n st =
     (if kvl_counter st < length (kvl_elements st) then
        (case n of
           0 \<Rightarrow> Hang
         | Suc n' \<Rightarrow>
             (let key = fst (kvl_elements st ! kvl_counter st) in
              rbind (seq_drain (Suc (length (kvl_elements st))) key st) (\<lambda>(vs, st').
              rbind (seq_reduce_loop n' st') (\<lambda>(cs, st''). Ok ((key, vs) # cs, st'')))))
      else Ok ([], st))"

declare seq_reduce_loop.simps [simp del]

definition seq_run ::
  "(node list \<Rightarrow> node list) \<Rightarrow> (string \<Rightarrow> node list) \<Rightarrow> string list \<Rightarrow>
   ((string \<times> string list) list \<times> seq_mr) res" where
  "seq_run qsort mapper files =
     (let st = foldl (\<lambda>st (k, v). seq_emit k v st) \<lparr>kvl_elements = [], kvl_counter = 0\<rparr>
                 (concat (map mapper files))
      in seq_reduce_loop (length (kvl_elements st))
           (st\<lparr>kvl_elements := qsort (kvl_elements st), kvl_counter := 0\<rparr>))"

section \<open>The map phase loses and duplicates nothing\<close>

fun pc_pending :: "mapper_pc \<Rightarrow> node multiset" where
  "pc_pending Looping = {#}"
| "pc_pending (Mapping es) = mset es"
| "pc_pending Stopped = {#}"

definition mr_pairs :: "mr \<Rightarrow> node multiset" where
  "mr_pairs m = sum_list (map mset (mr_partitions m))"

definition mr_wf :: "(string \<Rightarrow> nat \<Rightarrow> nat) \<Rightarrow> nat \<Rightarrow> mr \<Rightarrow> bool" where
  "mr_wf partitioner n m \<longleftrightarrow>
     length (mr_partitions m) = n \<and> mr_nodes m = map length (mr_partitions m) \<and>
     length (mr_access m) = n \<and>
     (\<forall>p<n. \<forall>x\<in>set (mr_partitions m ! p). partitioner (fst x) n = p)"

lemma mr_init_wf: "mr_wf partitioner n (mr_init n)" and mr_init_pairs: "mr_pairs (mr_init n) = {#}"
  by (simp_all add: mr_wf_def mr_init_def mr_pairs_def)

lemma MR_Emit_eq:
  assumes "mr_wf partitioner n m" and "partitioner k n < n" and "int (mr_nodes m ! partitioner k n) \<noteq> INT_MAX"
  shows "MR_Emit partitioner k v m = Ok (m\<lparr>
    mr_nodes := map length ((mr_partitions m)[partitioner k n := mr_partitions m ! partitioner k n @ [(k, v)]]),
    mr_partitions := (mr_partitions m)[partitioner k n := mr_partitions m ! partitioner k n @ [(k, v)]]\<rparr>)"
  using assms by (simp add: mr_wf_def MR_Emit_def Let_def upd_at_def map_update)

lemma MR_Emit_wf:
  assumes "mr_wf partitioner n m" and "MR_Emit partitioner k v m = Ok m'"
  shows "mr_wf partitioner n m'" and "mr_pairs m' = mr_pairs m + {#(k, v)#}"
proof -
  have p: "partitioner k n < n" "int (mr_nodes m ! partitioner k n) \<noteq> INT_MAX"
    using assms by (auto simp: MR_Emit_def Let_def mr_wf_def split: if_splits)
  let ?p = "partitioner k n"
  note m' = MR_Emit_eq [OF assms(1) p, of v] assms(2)
  have len: "length (mr_partitions m) = n" using assms(1) by (simp add: mr_wf_def)
  show "mr_wf partitioner n m'"
    using assms(1) p m' by (auto simp: mr_wf_def nth_list_update)
  have "sum_list (map mset ((mr_partitions m)[?p := mr_partitions m ! ?p @ [(k, v)]])) +
      mset (mr_partitions m ! ?p) =
    sum_list (map mset (mr_partitions m)) + mset (mr_partitions m ! ?p @ [(k, v)])"
    using p len by (intro sum_list_update_monoid) simp
  then show "mr_pairs m' = mr_pairs m + {#(k, v)#}"
    using m' by (auto simp: mr_pairs_def)
qed

definition map_inv ::
  "(string \<Rightarrow> nat \<Rightarrow> nat) \<Rightarrow> (string \<Rightarrow> node list) \<Rightarrow> string list \<Rightarrow> nat \<Rightarrow> mr_sys \<Rightarrow> bool" where
  "map_inv partitioner mapper files n s \<longleftrightarrow>
     mr_wf partitioner n (ms_mr s) \<and> ms_done s \<le> length files \<and>
     mr_pairs (ms_mr s) + sum_list (map pc_pending (ms_pcs s)) =
       mset (concat (map mapper (take (ms_done s) files))) \<and>
     (Stopped \<in> set (ms_pcs s) \<longrightarrow> ms_done s = length files)"

lemma map_inv_start: "map_inv partitioner mapper files n (mr_start files k n)"
  by (simp add: map_inv_def mr_start_def mr_init_wf mr_init_pairs)

lemma Stopped_update: "Stopped \<in> set (xs[i := pc]) \<Longrightarrow> pc \<noteq> Stopped \<Longrightarrow> Stopped \<in> set xs"
  using set_update_subset_insert [of xs i pc] by auto

lemma pending_update:
  "i < length pcs \<Longrightarrow> pc_pending (pcs ! i) = {#} \<Longrightarrow>
   sum_list (map pc_pending (pcs[i := pc])) = sum_list (map pc_pending pcs) + pc_pending pc"
  using sum_list_update_monoid [of i pcs pc_pending pc] by simp

lemma mapper_step_inv:
  assumes "mapper_step partitioner mapper files s t" and "map_inv partitioner mapper files n s"
  shows "map_inv partitioner mapper files n t"
  using assms
proof (induction rule: mapper_step.induct)
  case (stop i s)
  then show ?case by (auto simp: map_inv_def pending_update)
next
  case (take_file i s)
  then have "take (ms_done s + 1) files = take (ms_done s) files @ [files ! ms_done s]"
    by (simp add: take_Suc_conv_app_nth)
  with take_file show ?case
    by (auto simp: map_inv_def pending_update add.assoc [symmetric] dest: Stopped_update)
next
  case (emit i s key val es m)
  have wf: "mr_wf partitioner n (ms_mr s)" using emit by (simp add: map_inv_def)
  have "sum_list (map pc_pending ((ms_pcs s)[i := Mapping es])) + mset ((key, val) # es) =
      sum_list (map pc_pending (ms_pcs s)) + mset es"
    using sum_list_update_monoid [of i "ms_pcs s" pc_pending "Mapping es"] emit by simp
  then have "sum_list (map pc_pending (ms_pcs s)) =
      sum_list (map pc_pending ((ms_pcs s)[i := Mapping es])) + {#(key, val)#}"
    by simp
  with emit MR_Emit_wf [OF wf emit(3)] show ?case
    by (auto simp: map_inv_def dest: Stopped_update)
next
  case (finish i s)
  then show ?case by (auto simp: map_inv_def pending_update dest: Stopped_update)
qed

lemma mapper_step_threads:
  "mapper_step partitioner mapper files s t \<Longrightarrow> length (ms_pcs t) = length (ms_pcs s)"
  by (induction rule: mapper_step.induct) auto

lemma mr_reach_inv:
  "mr_reach partitioner mapper files k n s \<Longrightarrow>
   map_inv partitioner mapper files n s \<and>
   length (ms_pcs s) = (if length files < k then length files else k)"
proof (induction rule: mr_reach.induct)
  case start
  show ?case using map_inv_start by (simp add: mr_start_def)
next
  case (step s t)
  then show ?case using mapper_step_inv mapper_step_threads by metis
qed

lemma joined_pairs:
  assumes r: "mr_reach partitioner mapper files k n s" and j: "mr_joined s" and k: "0 < k"
  shows "mr_wf partitioner n (ms_mr s)"
    and "mr_pairs (ms_mr s) = mset (concat (map mapper files))"
proof -
  from mr_reach_inv [OF r] have inv: "map_inv partitioner mapper files n s"
    and len: "length (ms_pcs s) = (if length files < k then length files else k)" by auto
  have stopped: "ms_pcs s = replicate (length (ms_pcs s)) Stopped"
    using j by (auto simp: mr_joined_def intro: replicate_eqI)
  have "sum_list (map pc_pending (ms_pcs s)) = {#}"
    by (subst stopped) simp
  moreover have "ms_done s = length files"
  proof (cases "files = []")
    case True
    with inv show ?thesis by (simp add: map_inv_def)
  next
    case False
    with len k have "ms_pcs s \<noteq> []" by (auto split: if_splits)
    then have "Stopped \<in> set (ms_pcs s)" using j by (cases "ms_pcs s") (auto simp: mr_joined_def)
    with inv show ?thesis by (simp add: map_inv_def)
  qed
  ultimately show "mr_pairs (ms_mr s) = mset (concat (map mapper files))"
    using inv by (simp add: map_inv_def)
  show "mr_wf partitioner n (ms_mr s)" using inv by (simp add: map_inv_def)
qed

section \<open>The reduce phase groups every key once\<close>

text \<open>What draining reads off a sorted array: one call per run of equal keys.\<close>

function mr_group :: "node list \<Rightarrow> (string \<times> string list) list" where
  "mr_group [] = []"
| "mr_group ((k, v) # P) =
     (k, v # map snd (takeWhile (\<lambda>x. fst x = k) P)) # mr_group (dropWhile (\<lambda>x. fst x = k) P)"
  by pat_completeness auto
termination
  by (relation "measure length") (auto simp: less_Suc_eq_le length_dropWhile_le)

definition mr_sorted :: "node list \<Rightarrow> bool" where
  "mr_sorted P \<longleftrightarrow> sorted_wrt (\<lambda>a b. mr_cmp a b \<le> 0) P"

definition mr_keys_ok :: "node list \<Rightarrow> bool" where
  "mr_keys_ok P \<longleftrightarrow> (\<forall>x\<in>set P. c_wf_string (fst x))"

lemma mr_keys_ok_simps [simp]:
  "mr_keys_ok []" "mr_keys_ok (x # P) \<longleftrightarrow> c_wf_string (fst x) \<and> mr_keys_ok P"
  by (auto simp: mr_keys_ok_def)

lemma mr_keys_ok_drop: "mr_keys_ok P \<Longrightarrow> mr_keys_ok (drop n P)"
  by (auto simp: mr_keys_ok_def dest: in_set_dropD)

lemma mr_key_eq:
  "mr_keys_ok P \<Longrightarrow> c_wf_string k \<Longrightarrow> x \<in> set P \<Longrightarrow> c_strcmp k (fst x) = 0 \<longleftrightarrow> fst x = k"
  by (auto simp: mr_keys_ok_def c_strcmp_0_iff)

definition vals_of :: "node multiset \<Rightarrow> string \<Rightarrow> string multiset" where
  "vals_of M k = image_mset snd (filter_mset (\<lambda>x. fst x = k) M)"

text \<open>The specification: for every key that occurs, one call with all its values.\<close>

definition mr_result :: "node multiset \<Rightarrow> (string \<times> string multiset) multiset" where
  "mr_result M = image_mset (\<lambda>k. (k, vals_of M k)) (mset_set (fst ` set_mset M))"

definition call_mset :: "string \<times> string list \<Rightarrow> string \<times> string multiset" where
  "call_mset c = (fst c, mset (snd c))"

lemma takeWhile_keys_filter:
  assumes "mr_sorted ((k, v) # P)" and "mr_keys_ok ((k, v) # P)"
  shows "takeWhile (\<lambda>x. fst x = k) P = filter (\<lambda>x. fst x = k) P"
    and "dropWhile (\<lambda>x. fst x = k) P = filter (\<lambda>x. fst x \<noteq> k) P"
proof -
  have "takeWhile (\<lambda>x. fst x = k) P = filter (\<lambda>x. fst x = k) P \<and>
      dropWhile (\<lambda>x. fst x = k) P = filter (\<lambda>x. fst x \<noteq> k) P"
    using assms
  proof (induction P)
    case Nil
    then show ?case by simp
  next
    case (Cons y P)
    show ?case
    proof (cases "fst y = k")
      case True
      with Cons show ?thesis by (simp add: mr_sorted_def)
    next
      case False
      have "fst x \<noteq> k" if x: "x \<in> set P" for x
      proof
        assume "fst x = k"
        with Cons.prems x have "c_strcmp k (fst y) \<le> 0" "c_strcmp (fst y) k \<le> 0"
            "c_wf_string k" "c_wf_string (fst y)"
          by (auto simp: mr_sorted_def mr_cmp_def)
        with c_strcmp_antisym [of k "fst y"] False show False by auto
      qed
      with False show ?thesis by (auto simp: filter_empty_conv intro!: filter_True [symmetric])
    qed
  qed
  then show "takeWhile (\<lambda>x. fst x = k) P = filter (\<lambda>x. fst x = k) P"
    and "dropWhile (\<lambda>x. fst x = k) P = filter (\<lambda>x. fst x \<noteq> k) P" by auto
qed

lemma mr_sorted_filter: "mr_sorted P \<Longrightarrow> mr_sorted (filter Q P)"
  by (simp add: mr_sorted_def sorted_wrt_filter)

lemma mr_result_step:
  "mr_result (add_mset (k, v) M) =
     add_mset (k, add_mset v (vals_of M k)) (mr_result (filter_mset (\<lambda>x. fst x \<noteq> k) M))"
proof -
  let ?R = "filter_mset (\<lambda>x. fst x \<noteq> k) M"
  have keys: "fst ` set_mset (add_mset (k, v) M) = insert k (fst ` set_mset ?R)" by auto
  have notin: "k \<notin> fst ` set_mset ?R" by auto
  have "vals_of (add_mset (k, v) M) j = vals_of ?R j" if "j \<in> fst ` set_mset ?R" for j
    using that by (auto simp: vals_of_def filter_filter_mset intro!: arg_cong [of _ _ "image_mset snd"]
        filter_mset_cong)
  then have "image_mset (\<lambda>j. (j, vals_of (add_mset (k, v) M) j)) (mset_set (fst ` set_mset ?R)) =
      image_mset (\<lambda>j. (j, vals_of ?R j)) (mset_set (fst ` set_mset ?R))"
    by (intro image_mset_cong) simp
  then show ?thesis
    unfolding mr_result_def keys using notin by (simp add: vals_of_def)
qed

lemma mr_group_result:
  "mr_sorted P \<Longrightarrow> mr_keys_ok P \<Longrightarrow> image_mset call_mset (mset (mr_group P)) = mr_result (mset P)"
proof (induction P rule: mr_group.induct)
  case 1
  then show ?case by (simp add: mr_result_def)
next
  case (2 k v P)
  note split = takeWhile_keys_filter [OF "2.prems"]
  have "mr_sorted (dropWhile (\<lambda>x. fst x = k) P)" "mr_keys_ok (dropWhile (\<lambda>x. fst x = k) P)"
    using "2.prems" unfolding split(2)
    by (auto simp: mr_sorted_def mr_keys_ok_def intro: sorted_wrt_filter)
  from "2.IH" [OF this] show ?case
    by (simp add: split mr_result_step call_mset_def vals_of_def)
qed

text \<open>
  The entries of one partition as a cursor over an array: \<open>mr_at part P a st\<close> says that the
  partition holds \<open>P\<close> and that \<open>a\<close> of its nodes have been read.
\<close>

definition mr_at :: "nat \<Rightarrow> node list \<Rightarrow> nat \<Rightarrow> mr \<Rightarrow> bool" where
  "mr_at part P a st \<longleftrightarrow>
     mr_partitions st ! part = P \<and> mr_nodes st ! part = length P \<and>
     part < length (mr_access st) \<and> mr_access st ! part = a"

definition mr_set_access :: "nat \<Rightarrow> nat \<Rightarrow> mr \<Rightarrow> mr" where
  "mr_set_access part a st = st\<lparr>mr_access := (mr_access st)[part := a]\<rparr>"

lemma mr_at_set_access: "mr_at part P a st \<Longrightarrow> mr_at part P b (mr_set_access part b st)"
  by (simp add: mr_at_def mr_set_access_def)

lemma mr_set_access_twice [simp]:
  "mr_set_access part b (mr_set_access part a st) = mr_set_access part b st"
  by (simp add: mr_set_access_def)

lemma mr_set_access_same: "mr_at part P a st \<Longrightarrow> mr_set_access part a st = st"
  by (simp add: mr_at_def mr_set_access_def list_update_same_conv)

lemma getValue_at:
  assumes "mr_at part P a st" and "mr_keys_ok P" and "c_wf_string key"
  shows "getValue key part st =
    (case drop a P of
       [] \<Rightarrow> (None, st)
     | (k, v) # _ \<Rightarrow> if k = key then (Some v, mr_set_access part (Suc a) st) else (None, st))"
proof (cases "a < length P")
  case True
  then have "drop a P = P ! a # drop (Suc a) P" by (simp add: Cons_nth_drop_Suc)
  moreover have "c_strcmp key (fst (P ! a)) = 0 \<longleftrightarrow> fst (P ! a) = key"
    using assms(2,3) True by (intro mr_key_eq) auto
  ultimately show ?thesis
    using assms(1) True
    by (cases "P ! a") (auto simp: getValue_def Let_def mr_at_def mr_set_access_def upd_at_def)
next
  case False
  with assms(1) show ?thesis by (simp add: getValue_def Let_def mr_at_def)
qed

lemma mr_drain_at:
  "mr_at part P a st \<Longrightarrow> mr_keys_ok P \<Longrightarrow> c_wf_string key \<Longrightarrow> length P - a < n \<Longrightarrow>
   mr_drain n key part st =
     Ok (map snd (takeWhile (\<lambda>x. fst x = key) (drop a P)),
         mr_set_access part (a + length (takeWhile (\<lambda>x. fst x = key) (drop a P))) st)"
proof (induction n arbitrary: a st)
  case 0
  then show ?case by simp
next
  case (Suc n)
  note gv = getValue_at [OF Suc.prems(1-3)]
  show ?case
  proof (cases "drop a P")
    case Nil
    with gv mr_set_access_same [OF Suc.prems(1)] show ?thesis by simp
  next
    case (Cons x rest)
    obtain k v where x: "x = (k, v)" by fastforce
    have rest: "drop (Suc a) P = rest" using Cons by (metis drop_Suc list.sel(3) tl_drop)
    show ?thesis
    proof (cases "k = key")
      case True
      have "length P - Suc a < n" using Suc.prems(4) Cons by (metis Cons_nth_drop_Suc Suc_diff_Suc
            Suc_less_eq drop_eq_Nil2 linorder_not_le list.distinct(1))
      from Suc.IH [OF mr_at_set_access [OF Suc.prems(1)] Suc.prems(2,3) this] gv Cons x True rest
      show ?thesis by simp
    next
      case False
      with gv Cons x mr_set_access_same [OF Suc.prems(1)] show ?thesis by simp
    qed
  qed
qed

lemma reducer_loop_at:
  "mr_at part P a st \<Longrightarrow> mr_keys_ok P \<Longrightarrow> a \<le> length P \<Longrightarrow> length P - a \<le> n \<Longrightarrow>
   reducer_loop n drain_reducer part st =
     Ok (mr_group (drop a P), mr_set_access part (length P) st)"
proof (induction n arbitrary: a st)
  case 0
  then have "a = length P" by simp
  with 0 mr_set_access_same [OF "0.prems"(1)] show ?case
    by (subst reducer_loop.simps) (simp add: mr_at_def)
next
  case (Suc n)
  note acc = Suc.prems(1) [unfolded mr_at_def]
  show ?case
  proof (cases "a < length P")
    case False
    with Suc.prems(3) have "a = length P" by simp
    with acc mr_set_access_same [OF Suc.prems(1)] show ?thesis
      by (subst reducer_loop.simps) simp
  next
    case True
    obtain k v where kv: "P ! a = (k, v)" by fastforce
    define rest where "rest = drop (Suc a) P"
    have dr: "drop a P = (k, v) # rest" using True kv by (simp add: rest_def Cons_nth_drop_Suc [symmetric])
    have wf: "c_wf_string k" using Suc.prems(2) True kv by (metis fst_conv mr_keys_ok_def nth_mem)
    define t where "t = takeWhile (\<lambda>x. fst x = k) rest"
    define a' where "a' = a + Suc (length t)"
    have drain: "drain_reducer k part st =
        Ok ((k, v # map snd t), mr_set_access part a' st)"
      using mr_drain_at [OF Suc.prems(1,2) wf, of "Suc (length P)"] acc
      by (simp add: drain_reducer_def dr t_def a'_def)
    have dr': "drop a' P = dropWhile (\<lambda>x. fst x = k) rest"
      unfolding a'_def t_def dropWhile_eq_drop rest_def by (simp add: add.commute)
    have le: "a' \<le> length P"
      using length_takeWhile_le [of "\<lambda>x. fst x = k" rest] True by (simp add: a'_def t_def rest_def)
    have "reducer_loop n drain_reducer part (mr_set_access part a' st) =
        Ok (mr_group (drop a' P), mr_set_access part (length P) st)"
      using Suc.IH [OF mr_at_set_access [OF Suc.prems(1)] Suc.prems(2) le] Suc.prems(4)
      by (simp add: a'_def)
    with acc True kv drain show ?thesis
      by (subst reducer_loop.simps) (simp add: dr dr' t_def)
  qed
qed

text \<open>The contract of \<open>qsort\<close>: the array is permuted into an order of the comparison.\<close>

definition qsort_contract :: "(node list \<Rightarrow> node list) \<Rightarrow> bool" where
  "qsort_contract qsort \<longleftrightarrow>
     (\<forall>P. mr_keys_ok P \<longrightarrow> mset (qsort P) = mset P \<and> mr_sorted (qsort P))"

lemma qsort_contract_length: "qsort_contract q \<Longrightarrow> mr_keys_ok P \<Longrightarrow> length (q P) = length P"
  by (metis mset_eq_length qsort_contract_def)

lemma qsort_contract_keys: "qsort_contract q \<Longrightarrow> mr_keys_ok P \<Longrightarrow> mr_keys_ok (q P)"
  by (metis mr_keys_ok_def mset_eq_setD qsort_contract_def)

lemma reducerHelper_groups:
  assumes wf: "mr_wf partitioner n st" and p: "part < n"
    and keys: "mr_keys_ok (mr_partitions st ! part)" and q: "qsort_contract qsort"
  shows "\<exists>st'. reducerHelper qsort drain_reducer part st =
      Ok (mr_group (qsort (mr_partitions st ! part)), st') \<and> mr_wf partitioner n st' \<and>
      (\<forall>j. j \<noteq> part \<longrightarrow> mr_partitions st' ! j = mr_partitions st ! j)"
proof -
  let ?P = "qsort (mr_partitions st ! part)"
  let ?st = "st\<lparr>mr_partitions := (mr_partitions st)[part := ?P], mr_access := (mr_access st)[part := 0]\<rparr>"
  have len: "length (mr_partitions st) = n" "length (mr_access st) = n"
      "mr_nodes st = map length (mr_partitions st)"
    using wf by (simp_all add: mr_wf_def)
  have lP: "length ?P = length (mr_partitions st ! part)" by (rule qsort_contract_length [OF q keys])
  have "mr_at part ?P 0 ?st" using len p lP by (simp add: mr_at_def)
  from reducer_loop_at [OF this qsort_contract_keys [OF q keys], of "mr_nodes st ! part"]
  have run: "reducerHelper qsort drain_reducer part st = Ok (mr_group ?P, mr_set_access part (length ?P) ?st)"
    using len p lP by (simp add: reducerHelper_def upd_at_def)
  have "set ?P = set (mr_partitions st ! part)"
    using q keys by (metis mset_eq_setD qsort_contract_def)
  moreover have "(map length (mr_partitions st))[part := length (mr_partitions st ! part)] =
      map length (mr_partitions st)"
    by (metis list_update_id map_update)
  ultimately have "mr_wf partitioner n (mr_set_access part (length ?P) ?st)"
    using wf len p lP
    by (auto simp: mr_wf_def mr_set_access_def nth_list_update map_update)
  with run show ?thesis by (auto simp: mr_set_access_def)
qed

text \<open>The results of partitions with disjoint keys add up.\<close>

lemma vals_of_notin: "k \<notin> fst ` set_mset M \<Longrightarrow> vals_of M k = {#}"
  by (induction M) (auto simp: vals_of_def)

lemma vals_of_plus: "vals_of (A + B) k = vals_of A k + vals_of B k"
  by (simp add: vals_of_def)

lemma in_sum_list_mset: "x \<in># sum_list Ms \<longleftrightarrow> (\<exists>M\<in>set Ms. x \<in># M)"
  by (induction Ms) auto

lemma mr_result_disjoint:
  assumes "fst ` set_mset A \<inter> fst ` set_mset B = {}"
  shows "mr_result (A + B) = mr_result A + mr_result B"
proof -
  let ?f = "\<lambda>M k. (k, vals_of M k)"
  have "image_mset (?f (A + B)) (mset_set (fst ` set_mset A)) =
      image_mset (?f A) (mset_set (fst ` set_mset A))"
    using assms by (intro image_mset_cong) (auto simp: vals_of_plus intro: vals_of_notin)
  moreover have "image_mset (?f (A + B)) (mset_set (fst ` set_mset B)) =
      image_mset (?f B) (mset_set (fst ` set_mset B))"
    using assms by (intro image_mset_cong) (auto simp: vals_of_plus intro: vals_of_notin)
  ultimately show ?thesis
    using assms by (simp add: mr_result_def image_Un mset_set_Union)
qed

lemma mr_result_sum:
  assumes "distinct ps" and "\<And>p x. p \<in> set ps \<Longrightarrow> x \<in># M p \<Longrightarrow> h (fst x) = p"
  shows "sum_list (map (\<lambda>p. mr_result (M p)) ps) = mr_result (sum_list (map M ps))"
  using assms
proof (induction ps)
  case Nil
  then show ?case by (simp add: mr_result_def)
next
  case (Cons p ps)
  have "fst ` set_mset (M p) \<inter> fst ` set_mset (sum_list (map M ps)) = {}"
  proof (rule ccontr)
    assume "fst ` set_mset (M p) \<inter> fst ` set_mset (sum_list (map M ps)) \<noteq> {}"
    then obtain x y where xy: "x \<in># M p" "y \<in># sum_list (map M ps)" "fst x = fst y" by blast
    then obtain q where "q \<in> set ps" "y \<in># M q" by (auto simp: in_sum_list_mset)
    with xy Cons.prems(2) [of p x] Cons.prems(2) [of q y] have "q = p" by simp
    with \<open>q \<in> set ps\<close> Cons.prems(1) show False by simp
  qed
  with Cons show ?case by (simp add: mr_result_disjoint)
qed

lemma mr_reduce_phase_result:
  assumes "distinct parts" and "set parts \<subseteq> {..<n}" and "mr_wf partitioner n st"
    and "\<forall>p\<in>set parts. mr_keys_ok (mr_partitions st ! p)" and "qsort_contract qsort"
  shows "\<exists>cs st'. mr_reduce_phase qsort drain_reducer parts st = Ok (cs, st') \<and>
    image_mset call_mset (mset cs) =
      sum_list (map (\<lambda>p. mr_result (mset (mr_partitions st ! p))) parts)"
  using assms
proof (induction parts arbitrary: st)
  case Nil
  then show ?case by simp
next
  case (Cons part parts)
  let ?P = "mr_partitions st ! part"
  have pl: "part < n" and keys: "mr_keys_ok ?P" using Cons.prems(2,4) by auto
  from reducerHelper_groups [OF Cons.prems(3) pl keys Cons.prems(5)] obtain st1 where
    st1: "reducerHelper qsort drain_reducer part st = Ok (mr_group (qsort ?P), st1)"
      "mr_wf partitioner n st1" "\<And>j. j \<noteq> part \<Longrightarrow> mr_partitions st1 ! j = mr_partitions st ! j"
    by blast
  have same: "\<forall>p\<in>set parts. mr_partitions st1 ! p = mr_partitions st ! p"
    using st1(3) Cons.prems(1) by (metis distinct.simps(2))
  have "\<exists>cs st'. mr_reduce_phase qsort drain_reducer parts st1 = Ok (cs, st') \<and>
      image_mset call_mset (mset cs) =
        sum_list (map (\<lambda>p. mr_result (mset (mr_partitions st1 ! p))) parts)"
    using Cons.prems same st1(2) by (intro Cons.IH) auto
  then obtain cs st2 where st2: "mr_reduce_phase qsort drain_reducer parts st1 = Ok (cs, st2)"
      "image_mset call_mset (mset cs) =
        sum_list (map (\<lambda>p. mr_result (mset (mr_partitions st1 ! p))) parts)" by blast
  have sorted: "mr_sorted (qsort ?P)" "mset (qsort ?P) = mset ?P"
    using Cons.prems(5) keys by (auto simp: qsort_contract_def)
  have "image_mset call_mset (mset (mr_group (qsort ?P))) = mr_result (mset ?P)"
    using mr_group_result [OF sorted(1) qsort_contract_keys [OF Cons.prems(5) keys]] sorted(2) by simp
  moreover have "map (\<lambda>p. mr_result (mset (mr_partitions st1 ! p))) parts =
      map (\<lambda>p. mr_result (mset (mr_partitions st ! p))) parts"
    by (rule map_cong [OF refl]) (simp add: same)
  note eq = arg_cong [where f = sum_list, OF this]
  ultimately show ?case using st1(1) st2(1) st2(2) [unfolded eq] by simp
qed

lemma mr_phases_result:
  assumes wf: "mr_wf partitioner n st" and keys: "\<forall>x\<in>#mr_pairs st. c_wf_string (fst x)"
    and q: "qsort_contract qsort" and order: "mset parts = mset [0..<n]"
  shows "\<exists>cs st'. mr_reduce_phase qsort drain_reducer parts st = Ok (cs, st') \<and>
    image_mset call_mset (mset cs) = mr_result (mr_pairs st)"
proof -
  have len: "length (mr_partitions st) = n" using wf by (simp add: mr_wf_def)
  have "distinct parts = distinct [0..<n]" by (rule mset_eq_imp_distinct_iff [OF order])
  then have d: "distinct parts" "set parts = {..<n}"
    using mset_eq_setD [OF order] by (simp_all add: atLeast0LessThan)
  have ok: "mr_keys_ok (mr_partitions st ! p)" if "p < n" for p
    using keys that len by (auto simp: mr_keys_ok_def mr_pairs_def in_sum_list_mset)
  have sub: "set parts \<subseteq> {..<n}" and ok': "\<forall>p\<in>set parts. mr_keys_ok (mr_partitions st ! p)"
    using d(2) ok by auto
  from mr_reduce_phase_result [OF d(1) sub wf ok' q] obtain cs st' where
    cs: "mr_reduce_phase qsort drain_reducer parts st = Ok (cs, st')"
      "image_mset call_mset (mset cs) =
        sum_list (map (\<lambda>p. mr_result (mset (mr_partitions st ! p))) parts)"
    by blast
  have "sum_list (map (\<lambda>p. mr_result (mset (mr_partitions st ! p))) parts) =
      mr_result (sum_list (map (\<lambda>p. mset (mr_partitions st ! p)) parts))"
    using wf d by (intro mr_result_sum [where h = "\<lambda>k. partitioner k n"]) (auto simp: mr_wf_def)
  also have "sum_list (map (\<lambda>p. mset (mr_partitions st ! p)) parts) =
      sum_mset (mset (map (\<lambda>p. mset (mr_partitions st ! p)) parts))"
    by (rule sum_mset_sum_list [symmetric])
  also have "mset (map (\<lambda>p. mset (mr_partitions st ! p)) parts) =
      mset (map (\<lambda>p. mset (mr_partitions st ! p)) [0..<n])"
    by (simp only: mset_map order)
  also have "map (\<lambda>p. mset (mr_partitions st ! p)) [0..<n] = map mset (mr_partitions st)"
    using len by (intro nth_equalityI) simp_all
  also have "sum_mset (mset (map mset (mr_partitions st))) = mr_pairs st"
    unfolding mr_pairs_def by (rule sum_mset_sum_list)
  finally have eq: "sum_list (map (\<lambda>p. mr_result (mset (mr_partitions st ! p))) parts) =
      mr_result (mr_pairs st)" .
  have "image_mset call_mset (mset cs) = mr_result (mr_pairs st)" by (rule trans [OF cs(2) eq])
  with cs(1) show ?thesis by (intro exI conjI)
qed

section \<open>The sequential reference groups in the same way\<close>

lemma seq_emit_all:
  "foldl (\<lambda>st (k, v). seq_emit k v st) st ps = st\<lparr>kvl_elements := kvl_elements st @ ps\<rparr>"
  by (induction ps arbitrary: st) (auto simp: seq_emit_def)

lemma seq_get_func_at:
  assumes "mr_keys_ok (kvl_elements st)" and "c_wf_string key"
    and "kvl_counter st \<le> length (kvl_elements st)"
  shows "seq_get_func key st =
    (case drop (kvl_counter st) (kvl_elements st) of
       [] \<Rightarrow> (None, st)
     | (k, v) # _ \<Rightarrow>
         if k = key then (Some v, st\<lparr>kvl_counter := Suc (kvl_counter st)\<rparr>) else (None, st))"
proof (cases "kvl_counter st < length (kvl_elements st)")
  case True
  let ?x = "kvl_elements st ! kvl_counter st"
  have "drop (kvl_counter st) (kvl_elements st) = ?x # drop (Suc (kvl_counter st)) (kvl_elements st)"
    using True by (simp add: Cons_nth_drop_Suc)
  moreover have "c_strcmp (fst ?x) key = 0 \<longleftrightarrow> fst ?x = key"
    using mr_key_eq [OF assms(1,2), of ?x] True by (simp add: c_strcmp_swap [of key])
  ultimately show ?thesis using True by (cases ?x) (auto simp: seq_get_func_def)
next
  case False
  with assms(3) show ?thesis by (simp add: seq_get_func_def)
qed

lemma seq_drain_at:
  "mr_keys_ok (kvl_elements st) \<Longrightarrow> c_wf_string key \<Longrightarrow> kvl_counter st \<le> length (kvl_elements st) \<Longrightarrow>
   length (kvl_elements st) - kvl_counter st < n \<Longrightarrow>
   seq_drain n key st =
     (let t = takeWhile (\<lambda>x. fst x = key) (drop (kvl_counter st) (kvl_elements st))
      in Ok (map snd t, st\<lparr>kvl_counter := kvl_counter st + length t\<rparr>))"
proof (induction n arbitrary: st)
  case 0
  then show ?case by simp
next
  case (Suc n)
  note gf = seq_get_func_at [OF Suc.prems(1-3)]
  show ?case
  proof (cases "drop (kvl_counter st) (kvl_elements st)")
    case Nil
    with gf show ?thesis by (simp add: Let_def)
  next
    case (Cons x rest)
    obtain k v where x: "x = (k, v)" by fastforce
    have rest: "drop (Suc (kvl_counter st)) (kvl_elements st) = rest"
      using Cons by (metis drop_Suc list.sel(3) tl_drop)
    have lt: "kvl_counter st < length (kvl_elements st)"
      using Cons by (metis drop_eq_Nil2 linorder_not_le list.distinct(1))
    show ?thesis
    proof (cases "k = key")
      case True
      with Suc.IH [of "st\<lparr>kvl_counter := Suc (kvl_counter st)\<rparr>"] Suc.prems gf Cons x rest lt
      show ?thesis by (simp add: Let_def)
    next
      case False
      with gf Cons x show ?thesis by (simp add: Let_def)
    qed
  qed
qed

lemma seq_reduce_loop_at:
  "mr_keys_ok (kvl_elements st) \<Longrightarrow> kvl_counter st \<le> length (kvl_elements st) \<Longrightarrow>
   length (kvl_elements st) - kvl_counter st \<le> n \<Longrightarrow>
   seq_reduce_loop n st = Ok (mr_group (drop (kvl_counter st) (kvl_elements st)),
     st\<lparr>kvl_counter := length (kvl_elements st)\<rparr>)"
proof (induction n arbitrary: st)
  case 0
  then have "kvl_counter st = length (kvl_elements st)" by simp
  then show ?case by (subst seq_reduce_loop.simps) (simp add: mr_at_def)
next
  case (Suc n)
  let ?P = "kvl_elements st" and ?a = "kvl_counter st"
  show ?case
  proof (cases "?a < length ?P")
    case False
    with Suc.prems(2) have "?a = length ?P" by simp
    then show ?thesis by (subst seq_reduce_loop.simps) simp
  next
    case True
    obtain k v where kv: "?P ! ?a = (k, v)" by fastforce
    define rest where "rest = drop (Suc ?a) ?P"
    have dr: "drop ?a ?P = (k, v) # rest" using True kv by (simp add: rest_def Cons_nth_drop_Suc [symmetric])
    have wf: "c_wf_string k" using Suc.prems(1) True kv by (metis fst_conv mr_keys_ok_def nth_mem)
    define t where "t = takeWhile (\<lambda>x. fst x = k) rest"
    define a' where "a' = ?a + Suc (length t)"
    have drain: "seq_drain (Suc (length ?P)) k st = Ok (v # map snd t, st\<lparr>kvl_counter := a'\<rparr>)"
      using seq_drain_at [OF Suc.prems(1) wf Suc.prems(2), of "Suc (length ?P)"]
      by (simp add: Let_def dr t_def a'_def)
    have dr': "drop a' ?P = dropWhile (\<lambda>x. fst x = k) rest"
      unfolding a'_def t_def dropWhile_eq_drop rest_def by (simp add: add.commute)
    have le: "a' \<le> length ?P"
      using length_takeWhile_le [of "\<lambda>x. fst x = k" rest] True by (simp add: a'_def t_def rest_def)
    have "seq_reduce_loop n (st\<lparr>kvl_counter := a'\<rparr>) =
        Ok (mr_group (drop a' ?P), st\<lparr>kvl_counter := length ?P\<rparr>)"
      using Suc.IH [of "st\<lparr>kvl_counter := a'\<rparr>"] Suc.prems le by (simp add: a'_def)
    with True kv drain show ?thesis
      by (subst seq_reduce_loop.simps) (simp add: Let_def dr dr' t_def)
  qed
qed

lemma seq_run_result:
  assumes keys: "mr_keys_ok (concat (map mapper files))" and q: "qsort_contract qsort"
  shows "\<exists>cs st'. seq_run qsort mapper files = Ok (cs, st') \<and>
    image_mset call_mset (mset cs) = mr_result (mset (concat (map mapper files)))"
proof -
  let ?E = "concat (map mapper files)"
  have len: "length (qsort ?E) = length ?E" by (rule qsort_contract_length [OF q keys])
  have "seq_run qsort mapper files =
      Ok (mr_group (qsort ?E), \<lparr>kvl_elements = qsort ?E, kvl_counter = length ?E\<rparr>)"
    using seq_reduce_loop_at [of "\<lparr>kvl_elements = qsort ?E, kvl_counter = 0\<rparr>" "length ?E"]
      qsort_contract_keys [OF q keys] len
    by (simp add: seq_run_def Let_def seq_emit_all)
  moreover have "image_mset call_mset (mset (mr_group (qsort ?E))) = mr_result (mset ?E)"
    using q keys mr_group_result [of "qsort ?E"] qsort_contract_keys [OF q keys]
    by (auto simp: qsort_contract_def)
  ultimately show ?thesis by blast
qed

section \<open>An instance\<close>

text \<open>The contract of \<open>qsort\<close> can be met: insertion sort does.\<close>

fun mr_insert :: "node \<Rightarrow> node list \<Rightarrow> node list" where
  "mr_insert x [] = [x]"
| "mr_insert x (y # ys) = (if mr_cmp x y \<le> 0 then x # y # ys else y # mr_insert x ys)"

definition mr_isort :: "node list \<Rightarrow> node list" where
  "mr_isort P = foldr mr_insert P []"

lemma c_strcmp_trans:
  "c_wf_string p \<Longrightarrow> c_wf_string q \<Longrightarrow> c_wf_string r \<Longrightarrow>
   c_strcmp p q \<le> 0 \<Longrightarrow> c_strcmp q r \<le> 0 \<Longrightarrow> c_strcmp p r \<le> 0"
proof (induction p q arbitrary: r rule: c_strcmp.induct)
  case 1
  then show ?case by simp
next
  case (2 d ds)
  then show ?case by (cases r) auto
next
  case (3 c cs)
  then show ?case by simp
next
  case (4 c cs d ds)
  then show ?case by (cases r) (auto split: if_splits)
qed

lemma mr_insert_mset: "mset (mr_insert x P) = mset (x # P)"
  by (induction P) auto

lemma mr_insert_set [simp]: "set (mr_insert x P) = insert x (set P)"
  by (induction P) auto

lemma mr_insert_sorted:
  "c_wf_string (fst x) \<Longrightarrow> mr_keys_ok P \<Longrightarrow> mr_sorted P \<Longrightarrow> mr_sorted (mr_insert x P)"
proof (induction P)
  case Nil
  then show ?case by (simp add: mr_sorted_def)
next
  case (Cons y ys)
  have y: "c_wf_string (fst y)" and ys: "mr_keys_ok ys" "mr_sorted ys"
      "\<forall>z\<in>set ys. mr_cmp y z \<le> 0"
    using Cons.prems by (auto simp: mr_sorted_def)
  show ?case
  proof (cases "mr_cmp x y \<le> 0")
    case True
    have "mr_cmp x z \<le> 0" if "z \<in> set ys" for z
      using c_strcmp_trans [OF Cons.prems(1) y, of "fst z"] True ys(1,3) that
      by (auto simp: mr_cmp_def mr_keys_ok_def)
    with True Cons.prems(3) show ?thesis by (simp add: mr_sorted_def)
  next
    case False
    then have "mr_cmp y x \<le> 0"
      by (simp add: mr_cmp_def c_strcmp_swap [of "fst y" "fst x"])
    with False Cons.IH [OF Cons.prems(1) ys(1,2)] ys(3) show ?thesis
      by (auto simp: mr_sorted_def)
  qed
qed

lemma mr_isort_contract: "qsort_contract mr_isort"
proof -
  have "mset (mr_isort P) = mset P \<and> mr_sorted (mr_isort P)" if "mr_keys_ok P" for P
    using that
  proof (induction P)
    case Nil
    then show ?case by (simp add: mr_isort_def mr_sorted_def)
  next
    case (Cons x P)
    have "mr_keys_ok (mr_isort P)"
      using Cons by (metis mr_keys_ok_def mr_keys_ok_simps(2) mset_eq_setD)
    with Cons show ?case
      using mr_insert_sorted [of x "mr_isort P"] by (simp add: mr_isort_def mr_insert_mset)
  qed
  then show ?thesis by (simp add: qsort_contract_def)
qed

text \<open>Two mappers on two files, their steps interleaved, and two reducers.\<close>

definition demo_mapper :: "string \<Rightarrow> node list" where
  "demo_mapper file = [(''k'', file)]"

definition demo_system :: "node list list \<Rightarrow> nat list \<Rightarrow> nat \<Rightarrow> mapper_pc list \<Rightarrow> mr_sys" where
  "demo_system parts nodes done pcs =
     \<lparr>ms_mr = \<lparr>mr_partitions = parts, mr_nodes = nodes, mr_access = [0, 0]\<rparr>,
      ms_done = done, ms_pcs = pcs\<rparr>"

lemma demo_hash: "MR_DefaultHashPartition ''k'' 2 = 0"
  by (simp add: MR_DefaultHashPartition_def c_code_def)

lemma demo_reach:
  "mr_reach MR_DefaultHashPartition demo_mapper [''a'', ''b''] 2 2
     (demo_system [[(''k'', ''b''), (''k'', ''a'')], []] [2, 0] 2 [Stopped, Stopped])"
proof -
  let ?S = demo_system
  let ?step = "mapper_step MR_DefaultHashPartition demo_mapper [''a'', ''b'']"
  let ?R = "mr_reach MR_DefaultHashPartition demo_mapper [''a'', ''b''] 2 2"
  note defs = demo_system_def demo_mapper_def MR_Emit_def INT_MAX_def demo_hash [unfolded numeral_2_eq_2] upd_at_def
  note stop = mapper_step.stop [where partitioner = MR_DefaultHashPartition and mapper = demo_mapper and files = "[''a'', ''b'']"]
  note take_file = mapper_step.take_file [where partitioner = MR_DefaultHashPartition and mapper = demo_mapper and files = "[''a'', ''b'']"]
  note emit = mapper_step.emit [where partitioner = MR_DefaultHashPartition and mapper = demo_mapper and files = "[''a'', ''b'']"]
  note finish = mapper_step.finish [where partitioner = MR_DefaultHashPartition and mapper = demo_mapper and files = "[''a'', ''b'']"]
  have 0: "?R (?S [[], []] [0, 0] 0 [Looping, Looping])"
    using mr_reach.start [of MR_DefaultHashPartition demo_mapper "[''a'', ''b'']" 2 2]
    by (simp add: mr_start_def mr_init_def demo_system_def numeral_2_eq_2)
  have "?step (?S [[], []] [0, 0] 0 [Looping, Looping])
      (?S [[], []] [0, 0] 1 [Mapping [(''k'', ''a'')], Looping])"
    using take_file [of 0 "?S [[], []] [0, 0] 0 [Looping, Looping]"] by (simp add: defs)
  note 1 = mr_reach.step [OF 0 this]
  have "?step (?S [[], []] [0, 0] 1 [Mapping [(''k'', ''a'')], Looping])
      (?S [[], []] [0, 0] 2 [Mapping [(''k'', ''a'')], Mapping [(''k'', ''b'')]])"
    using take_file [of 1 "?S [[], []] [0, 0] 1 [Mapping [(''k'', ''a'')], Looping]"]
    by (simp add: defs numeral_2_eq_2)
  note 2 = mr_reach.step [OF 1 this]
  have "?step (?S [[], []] [0, 0] 2 [Mapping [(''k'', ''a'')], Mapping [(''k'', ''b'')]])
      (?S [[(''k'', ''b'')], []] [1, 0] 2 [Mapping [(''k'', ''a'')], Mapping []])"
    using emit [where i = 1 and key = "''k''" and val = "''b''" and es = "[]" and s = "?S [[], []] [0, 0] 2 [Mapping [(''k'', ''a'')], Mapping [(''k'', ''b'')]]"]
    by (simp add: defs numeral_2_eq_2)
  note 3 = mr_reach.step [OF 2 this]
  have "?step (?S [[(''k'', ''b'')], []] [1, 0] 2 [Mapping [(''k'', ''a'')], Mapping []])
      (?S [[(''k'', ''b''), (''k'', ''a'')], []] [2, 0] 2 [Mapping [], Mapping []])"
    using emit [where i = 0 and key = "''k''" and val = "''a''" and es = "[]" and s = "?S [[(''k'', ''b'')], []] [1, 0] 2 [Mapping [(''k'', ''a'')], Mapping []]"]
    by (simp add: defs numeral_2_eq_2)
  note 4 = mr_reach.step [OF 3 this]
  have "?step (?S P N 2 [Mapping [], pc]) (?S P N 2 [Looping, pc])" for P N pc
    using finish [of 0 "?S P N 2 [Mapping [], pc]"] by (simp add: defs)
  note 5 = mr_reach.step [OF 4 this]
  have "?step (?S P N 2 [pc, Mapping []]) (?S P N 2 [pc, Looping])" for P N pc
    using finish [of 1 "?S P N 2 [pc, Mapping []]"] by (simp add: defs)
  note 6 = mr_reach.step [OF 5 this]
  have "?step (?S P N 2 [Looping, pc]) (?S P N 2 [Stopped, pc])" for P N pc
    using stop [of 0 "?S P N 2 [Looping, pc]"] by (simp add: defs)
  note 7 = mr_reach.step [OF 6 this]
  have "?step (?S P N 2 [pc, Looping]) (?S P N 2 [pc, Stopped])" for P N pc
    using stop [of 1 "?S P N 2 [pc, Looping]"] by (simp add: defs)
  from mr_reach.step [OF 7 this] show ?thesis .
qed

end
