(* ===== verification/WordCount.thy ===== *)
theory WordCount
  imports MapReduce
begin

text \<open>
  P3A, \<open>wordcount.c\<close>: the map and reduce functions of the word counter, and what the program
  writes when it runs on \<open>mapreduce.c\<close>. The contents of the input files are a parameter.
\<close>

section \<open>The map function\<close>





section \<open>The reduce function\<close>




section \<open>What it writes\<close>



















end
