(* ===== verification/MapReduceThm.thy ===== *)
theory MapReduceThm
  imports MapReduce
begin

text \<open>
  P3A: the reducer threads of \<open>mapreduce.c\<close> as a step relation, in any interleaving, and the comparison of the threaded program with
  the sequential one. A step of a reducer is its sorting, a call of the reduce function, a call of the getter by that function,
  its return, or the end of the thread; each touches the entries of its own partition only and none is under a lock.
\<close>

section \<open>Reducer threads\<close>

text \<open>
  What a thread is about to do: sort its partition, go round the loop of \<open>reducerHelper\<close>, or go on with the reduce function
  it called for a key, which has got some values so far. The calls that have returned are kept, with their partitions.
\<close>

datatype reducer_pc = Created | Reducing | Calling string "string list" | Ended

record red_sys =
  rs_mr :: mr
  rs_pcs :: "reducer_pc list"
  rs_calls :: "(nat \<times> string \<times> string list) list"

definition sort_partition :: "(node list \<Rightarrow> node list) \<Rightarrow> nat \<Rightarrow> mr \<Rightarrow> mr" where
  "sort_partition qsort part st =
     st\<lparr>mr_partitions := upd_at part (\<lambda>P. qsort (take (mr_nodes st ! part) P)) (mr_partitions st),
        mr_access := (mr_access st)[part := 0]\<rparr>"

inductive reducer_step :: "(node list \<Rightarrow> node list) \<Rightarrow> red_sys \<Rightarrow> red_sys \<Rightarrow> bool" for qsort where
  sorts: "i < length (rs_pcs s) \<Longrightarrow> rs_pcs s ! i = Created \<Longrightarrow>
    reducer_step qsort s (s\<lparr>rs_mr := sort_partition qsort i (rs_mr s), rs_pcs := (rs_pcs s)[i := Reducing]\<rparr>)"
| calls: "i < length (rs_pcs s) \<Longrightarrow> rs_pcs s ! i = Reducing \<Longrightarrow> mr_access (rs_mr s) ! i < mr_nodes (rs_mr s) ! i \<Longrightarrow>
    reducer_step qsort s
      (s\<lparr>rs_pcs := (rs_pcs s)[i := Calling (fst (mr_partitions (rs_mr s) ! i ! (mr_access (rs_mr s) ! i))) []]\<rparr>)"
| gets: "i < length (rs_pcs s) \<Longrightarrow> rs_pcs s ! i = Calling key vs \<Longrightarrow> getValue key i (rs_mr s) = (Some v, m) \<Longrightarrow>
    reducer_step qsort s (s\<lparr>rs_mr := m, rs_pcs := (rs_pcs s)[i := Calling key (vs @ [v])]\<rparr>)"
| returns: "i < length (rs_pcs s) \<Longrightarrow> rs_pcs s ! i = Calling key vs \<Longrightarrow> getValue key i (rs_mr s) = (None, m) \<Longrightarrow>
    reducer_step qsort s
      (s\<lparr>rs_mr := m, rs_pcs := (rs_pcs s)[i := Reducing], rs_calls := rs_calls s @ [(i, key, vs)]\<rparr>)"
| ends: "i < length (rs_pcs s) \<Longrightarrow> rs_pcs s ! i = Reducing \<Longrightarrow> \<not> mr_access (rs_mr s) ! i < mr_nodes (rs_mr s) ! i \<Longrightarrow>
    reducer_step qsort s (s\<lparr>rs_pcs := (rs_pcs s)[i := Ended]\<rparr>)"

text \<open>The threads of \<open>MR_Run\<close> after the mappers are joined, and a run of any of their interleavings.\<close>

definition red_start :: "mr \<Rightarrow> red_sys" where
  "red_start st = \<lparr>rs_mr = st, rs_pcs = replicate (length (mr_partitions st)) Created, rs_calls = []\<rparr>"

definition reducers_run :: "(node list \<Rightarrow> node list) \<Rightarrow> red_sys \<Rightarrow> red_sys \<Rightarrow> bool" where
  "reducers_run qsort = (reducer_step qsort)\<^sup>*\<^sup>*"

definition reducers_joined :: "red_sys \<Rightarrow> bool" where
  "reducers_joined s \<longleftrightarrow> (\<forall>pc\<in>set (rs_pcs s). pc = Ended)"

definition calls_made :: "red_sys \<Rightarrow> (string \<times> string list) list" where
  "calls_made s = map snd (rs_calls s)"

section \<open>One thread\<close>

definition calls_of :: "nat \<Rightarrow> red_sys \<Rightarrow> (string \<times> string list) list" where
  "calls_of i s = map snd (filter (\<lambda>x. fst x = i) (rs_calls s))"

text \<open>
  A thread between two of its steps: what it has handed over, and what is left of its sorted partition, are together the
  groups of the partition.
\<close>

definition thread_inv :: "node list \<Rightarrow> node list \<Rightarrow> nat \<Rightarrow> red_sys \<Rightarrow> bool" where
  "thread_inv P Q i s \<longleftrightarrow>
     (case rs_pcs s ! i of
        Created \<Rightarrow> mr_partitions (rs_mr s) ! i = P \<and> calls_of i s = []
      | Reducing \<Rightarrow> mr_at i Q (mr_access (rs_mr s) ! i) (rs_mr s) \<and> mr_access (rs_mr s) ! i \<le> length Q \<and>
          calls_of i s @ mr_group (drop (mr_access (rs_mr s) ! i) Q) = mr_group Q
      | Calling k vs \<Rightarrow> mr_at i Q (mr_access (rs_mr s) ! i) (rs_mr s) \<and> mr_access (rs_mr s) ! i \<le> length Q \<and> c_wf_string k \<and>
          (vs = [] \<longrightarrow> takeWhile (\<lambda>x. fst x = k) (drop (mr_access (rs_mr s) ! i) Q) \<noteq> []) \<and>
          calls_of i s @ (k, vs @ map snd (takeWhile (\<lambda>x. fst x = k) (drop (mr_access (rs_mr s) ! i) Q))) #
            mr_group (dropWhile (\<lambda>x. fst x = k) (drop (mr_access (rs_mr s) ! i) Q)) = mr_group Q
      | Ended \<Rightarrow> calls_of i s = mr_group Q)"

text \<open>How many steps a thread may still take.\<close>

definition thread_left :: "nat \<Rightarrow> red_sys \<Rightarrow> nat" where
  "thread_left i s =
     (let r = mr_nodes (rs_mr s) ! i - mr_access (rs_mr s) ! i in
      case rs_pcs s ! i of
        Created \<Rightarrow> 3 * mr_nodes (rs_mr s) ! i + 2 | Reducing \<Rightarrow> 3 * r + 1
      | Calling k vs \<Rightarrow> (if vs = [] then 3 * r else 3 * r + 2) | Ended \<Rightarrow> 0)"

text \<open>The entries of the other threads.\<close>

definition same_thread :: "nat \<Rightarrow> red_sys \<Rightarrow> red_sys \<Rightarrow> bool" where
  "same_thread j s t \<longleftrightarrow> rs_pcs t ! j = rs_pcs s ! j \<and> mr_partitions (rs_mr t) ! j = mr_partitions (rs_mr s) ! j \<and>
     mr_access (rs_mr t) ! j = mr_access (rs_mr s) ! j \<and> calls_of j t = calls_of j s"

definition red_shape :: "nat \<Rightarrow> mr \<Rightarrow> red_sys \<Rightarrow> bool" where
  "red_shape n st s \<longleftrightarrow> length (rs_pcs s) = n \<and> length (mr_partitions (rs_mr s)) = n \<and> length (mr_access (rs_mr s)) = n \<and>
     mr_nodes (rs_mr s) = mr_nodes st \<and> (\<forall>x\<in>set (rs_calls s). fst x < n)"

lemma same_thread_inv:
  assumes "same_thread j s t" and "red_shape n st s" and "red_shape n st t"
  shows "thread_inv P Q j t = thread_inv P Q j s" and "thread_left j t = thread_left j s"
  using assms by (auto simp: same_thread_def red_shape_def thread_inv_def thread_left_def mr_at_def Let_def split: reducer_pc.splits)

lemma getValue_other:
  "getValue key i m = (r, m') \<Longrightarrow> mr_partitions m' = mr_partitions m \<and> mr_nodes m' = mr_nodes m \<and>
    length (mr_access m') = length (mr_access m) \<and> (\<forall>j. j \<noteq> i \<longrightarrow> mr_access m' ! j = mr_access m ! j)"
  by (auto simp: getValue_def Let_def upd_at_def split: if_splits)

text \<open>What a step does to the invariant of its own thread.\<close>

definition moves :: "node list \<Rightarrow> node list \<Rightarrow> nat \<Rightarrow> red_sys \<Rightarrow> red_sys \<Rightarrow> bool" where
  "moves P Q i s t \<longleftrightarrow> (thread_inv P Q i s \<longrightarrow> thread_inv P Q i t \<and> thread_left i t < thread_left i s)"

lemma group_drop:
  assumes "a < length Q"
  shows "mr_group (drop a Q) = (fst (Q ! a), map snd (takeWhile (\<lambda>x. fst x = fst (Q ! a)) (drop a Q))) #
      mr_group (dropWhile (\<lambda>x. fst x = fst (Q ! a)) (drop a Q))"
    and "takeWhile (\<lambda>x. fst x = fst (Q ! a)) (drop a Q) \<noteq> []"
proof -
  obtain k v where kv: "Q ! a = (k, v)" by fastforce
  then have "drop a Q = (k, v) # drop (Suc a) Q" using assms by (simp add: Cons_nth_drop_Suc [symmetric])
  then show "mr_group (drop a Q) = (fst (Q ! a), map snd (takeWhile (\<lambda>x. fst x = fst (Q ! a)) (drop a Q))) #
      mr_group (dropWhile (\<lambda>x. fst x = fst (Q ! a)) (drop a Q))"
    "takeWhile (\<lambda>x. fst x = fst (Q ! a)) (drop a Q) \<noteq> []" by (simp_all add: kv)
qed

lemma getValue_here:
  assumes "mr_at i Q a m" and "mr_keys_ok Q" and "c_wf_string key"
  shows "getValue key i m = (Some v, m') \<longleftrightarrow>
      a < length Q \<and> Q ! a = (key, v) \<and> m' = mr_set_access i (Suc a) m"
    and "getValue key i m = (None, m') \<longleftrightarrow> takeWhile (\<lambda>x. fst x = key) (drop a Q) = [] \<and> m' = m"
proof -
  have d: "drop a Q = (if a < length Q then Q ! a # drop (Suc a) Q else [])" by (simp add: Cons_nth_drop_Suc)
  show "getValue key i m = (Some v, m') \<longleftrightarrow> a < length Q \<and> Q ! a = (key, v) \<and> m' = mr_set_access i (Suc a) m"
    unfolding getValue_at [OF assms] d by (cases "Q ! a") auto
  show "getValue key i m = (None, m') \<longleftrightarrow> takeWhile (\<lambda>x. fst x = key) (drop a Q) = [] \<and> m' = m"
    unfolding getValue_at [OF assms] d by (cases "Q ! a") auto
qed

lemma sorts_moves:
  assumes "i < n" and "rs_pcs s ! i = Created" and sh: "red_shape n st s" and len: "length Q = length P" "mr_nodes st ! i = length P" and q: "qsort P = Q"
  shows "moves P Q i s (s\<lparr>rs_mr := sort_partition qsort i (rs_mr s), rs_pcs := (rs_pcs s)[i := Reducing]\<rparr>)"
  using assms
  by (auto simp: moves_def thread_inv_def thread_left_def red_shape_def sort_partition_def upd_at_def mr_at_def calls_of_def)

lemma calls_moves:
  assumes "i < n" and pc: "rs_pcs s ! i = Reducing" and acc: "mr_access (rs_mr s) ! i < mr_nodes (rs_mr s) ! i"
    and sh: "red_shape n st s" and keys: "mr_keys_ok Q"
  shows "moves P Q i s (s\<lparr>rs_pcs := (rs_pcs s)[i := Calling (fst (mr_partitions (rs_mr s) ! i ! (mr_access (rs_mr s) ! i))) []]\<rparr>)"
  unfolding moves_def
proof
  assume inv: "thread_inv P Q i s"
  let ?a = "mr_access (rs_mr s) ! i"
  have a: "mr_at i Q ?a (rs_mr s)" "calls_of i s @ mr_group (drop ?a Q) = mr_group Q"
    using inv pc by (auto simp: thread_inv_def)
  then have lt: "?a < length Q" and part: "mr_partitions (rs_mr s) ! i = Q" using acc by (simp_all add: mr_at_def)
  have "c_wf_string (fst (Q ! ?a))" using keys lt by (simp add: mr_keys_ok_def)
  then show "thread_inv P Q i (s\<lparr>rs_pcs := (rs_pcs s)[i := Calling (fst (mr_partitions (rs_mr s) ! i ! ?a)) []]\<rparr>) \<and>
      thread_left i (s\<lparr>rs_pcs := (rs_pcs s)[i := Calling (fst (mr_partitions (rs_mr s) ! i ! ?a)) []]\<rparr>) < thread_left i s"
    using a lt part pc sh assms(1) group_drop [OF lt]
    by (simp add: thread_inv_def thread_left_def red_shape_def calls_of_def)
qed

lemma gets_moves:
  assumes "i < n" and pc: "rs_pcs s ! i = Calling key vs" and g: "getValue key i (rs_mr s) = (Some v, m)"
    and sh: "red_shape n st s" and keys: "mr_keys_ok Q"
  shows "moves P Q i s (s\<lparr>rs_mr := m, rs_pcs := (rs_pcs s)[i := Calling key (vs @ [v])]\<rparr>)"
  unfolding moves_def
proof
  assume inv: "thread_inv P Q i s"
  let ?a = "mr_access (rs_mr s) ! i"
  have a: "mr_at i Q ?a (rs_mr s)" "c_wf_string key" using inv pc by (auto simp: thread_inv_def)
  from getValue_here(1) [OF a(1) keys a(2)] g have lt: "?a < length Q" and x: "Q ! ?a = (key, v)"
    and m: "m = mr_set_access i (Suc ?a) (rs_mr s)" by auto
  have d: "drop ?a Q = (key, v) # drop (Suc ?a) Q" using lt x by (simp add: Cons_nth_drop_Suc [symmetric])
  have at: "mr_at i Q (Suc ?a) m" unfolding m by (rule mr_at_set_access [OF a(1)])
  then have n: "mr_access m ! i = Suc ?a" "mr_nodes m ! i = length Q" "mr_nodes (rs_mr s) ! i = length Q"
    using a(1) by (simp_all add: mr_at_def)
  show "thread_inv P Q i (s\<lparr>rs_mr := m, rs_pcs := (rs_pcs s)[i := Calling key (vs @ [v])]\<rparr>) \<and>
      thread_left i (s\<lparr>rs_mr := m, rs_pcs := (rs_pcs s)[i := Calling key (vs @ [v])]\<rparr>) < thread_left i s"
    using inv at n d lt pc sh assms(1) by (auto simp: thread_inv_def thread_left_def red_shape_def calls_of_def Let_def)
qed

lemma returns_moves:
  assumes "i < n" and pc: "rs_pcs s ! i = Calling key vs" and g: "getValue key i (rs_mr s) = (None, m)"
    and sh: "red_shape n st s" and keys: "mr_keys_ok Q"
  shows "moves P Q i s (s\<lparr>rs_mr := m, rs_pcs := (rs_pcs s)[i := Reducing], rs_calls := rs_calls s @ [(i, key, vs)]\<rparr>)"
  unfolding moves_def
proof
  assume inv: "thread_inv P Q i s"
  let ?a = "mr_access (rs_mr s) ! i"
  have a: "mr_at i Q ?a (rs_mr s)" "c_wf_string key" using inv pc by (auto simp: thread_inv_def)
  from getValue_here(2) [OF a(1) keys a(2)] g have t: "takeWhile (\<lambda>x. fst x = key) (drop ?a Q) = []" and m: "m = rs_mr s" by auto
  have d: "dropWhile (\<lambda>x. fst x = key) (drop ?a Q) = drop ?a Q"
    using takeWhile_dropWhile_id [of "\<lambda>x. fst x = key" "drop ?a Q"] t by simp
  have "vs \<noteq> []" using inv pc t by (auto simp: thread_inv_def)
  then show "thread_inv P Q i (s\<lparr>rs_mr := m, rs_pcs := (rs_pcs s)[i := Reducing], rs_calls := rs_calls s @ [(i, key, vs)]\<rparr>) \<and>
      thread_left i (s\<lparr>rs_mr := m, rs_pcs := (rs_pcs s)[i := Reducing], rs_calls := rs_calls s @ [(i, key, vs)]\<rparr>) < thread_left i s"
    using inv t d pc sh assms(1) by (simp add: m thread_inv_def thread_left_def red_shape_def calls_of_def)
qed

lemma ends_moves:
  assumes "i < n" and pc: "rs_pcs s ! i = Reducing" and "\<not> mr_access (rs_mr s) ! i < mr_nodes (rs_mr s) ! i"
    and sh: "red_shape n st s"
  shows "moves P Q i s (s\<lparr>rs_pcs := (rs_pcs s)[i := Ended]\<rparr>)"
  using assms by (auto simp: moves_def thread_inv_def thread_left_def red_shape_def mr_at_def calls_of_def)

section \<open>All threads\<close>

text \<open>The partitions that the threads start from, and the state of all of them.\<close>

definition red_inv :: "(node list \<Rightarrow> node list) \<Rightarrow> mr \<Rightarrow> red_sys \<Rightarrow> bool" where
  "red_inv qsort st s \<longleftrightarrow> red_shape (length (mr_partitions st)) st s \<and>
     (\<forall>i<length (mr_partitions st). thread_inv (mr_partitions st ! i) (qsort (mr_partitions st ! i)) i s)"

definition steps_left :: "nat \<Rightarrow> red_sys \<Rightarrow> nat" where
  "steps_left n s = (\<Sum>i<n. thread_left i s)"

lemma step_moves:
  assumes "reducer_step qsort s t" and "red_shape n st s"
    and "\<forall>i<n. mr_keys_ok (P i) \<and> mr_nodes st ! i = length (P i)" and "qsort_contract qsort"
  shows "red_shape n st t \<and> (\<exists>i<n. moves (P i) (qsort (P i)) i s t \<and> (\<forall>j. j \<noteq> i \<longrightarrow> same_thread j s t))"
  using assms
proof (induction rule: reducer_step.induct)
  case (sorts i s)
  then have i: "i < n" by (simp add: red_shape_def)
  with sorts have "moves (P i) (qsort (P i)) i s (s\<lparr>rs_mr := sort_partition qsort i (rs_mr s), rs_pcs := (rs_pcs s)[i := Reducing]\<rparr>)"
    by (intro sorts_moves [OF i sorts(2,3)] qsort_contract_length) simp_all
  with i sorts show ?case
    by (auto simp: red_shape_def same_thread_def sort_partition_def upd_at_def calls_of_def intro!: exI [of _ i])
next
  case (calls i s)
  then have i: "i < n" by (simp add: red_shape_def)
  note m = calls_moves [OF i calls(2-4) qsort_contract_keys [OF calls(6)], of "P i" "P i"]
  with i calls show ?case by (auto simp: red_shape_def same_thread_def calls_of_def intro!: exI [of _ i])
next
  case (gets i s key vs v m)
  then have i: "i < n" by (simp add: red_shape_def)
  note mv = gets_moves [OF i gets(2-4) qsort_contract_keys [OF gets(6)], of "P i" "P i"]
  with i gets getValue_other [OF gets(3)] show ?case
    by (auto simp: red_shape_def same_thread_def calls_of_def intro!: exI [of _ i])
next
  case (returns i s key vs m)
  then have i: "i < n" by (simp add: red_shape_def)
  note mv = returns_moves [OF i returns(2-4) qsort_contract_keys [OF returns(6)], of "P i" "P i"]
  with i returns getValue_other [OF returns(3)] show ?case
    by (auto simp: red_shape_def same_thread_def calls_of_def intro!: exI [of _ i])
next
  case (ends i s)
  then have i: "i < n" by (simp add: red_shape_def)
  note mv = ends_moves [OF i ends(2-4), of "P i" "qsort (P i)"]
  with i ends show ?case by (auto simp: red_shape_def same_thread_def calls_of_def intro!: exI [of _ i])
qed

lemma step_inv:
  assumes s: "reducer_step qsort s t" and inv: "red_inv qsort st s" and n: "mr_nodes st = map length (mr_partitions st)"
    and keys: "\<forall>P\<in>set (mr_partitions st). mr_keys_ok P" and q: "qsort_contract qsort"
  shows "red_inv qsort st t" and "steps_left (length (mr_partitions st)) t < steps_left (length (mr_partitions st)) s"
proof -
  let ?n = "length (mr_partitions st)" and ?P = "\<lambda>i. mr_partitions st ! i"
  have sh: "red_shape ?n st s" and th: "\<forall>i<?n. thread_inv (?P i) (qsort (?P i)) i s" using inv by (simp_all add: red_inv_def)
  have "\<forall>i<?n. mr_keys_ok (?P i) \<and> mr_nodes st ! i = length (?P i)" using n keys by simp
  from step_moves [OF s sh this q] obtain i where sh': "red_shape ?n st t" and i: "i < ?n"
    and m: "moves (?P i) (qsort (?P i)) i s t" "\<forall>j. j \<noteq> i \<longrightarrow> same_thread j s t" by blast
  note o = same_thread_inv [OF m(2) [rule_format] sh sh']
  have own: "thread_inv (?P i) (qsort (?P i)) i t" "thread_left i t < thread_left i s"
    using m(1) th i by (auto simp: moves_def)
  show "red_inv qsort st t" unfolding red_inv_def using sh' own(1) o(1) th by metis
  have "thread_left j t \<le> thread_left j s" for j using own(2) o(2) by (cases "j = i") (simp_all add: less_imp_le)
  then show "steps_left ?n t < steps_left ?n s" unfolding steps_left_def
    using i own(2) by (intro sum_strict_mono_ex1) auto
qed

lemma red_start_inv:
  assumes "mr_wf partitioner n st"
  shows "red_inv qsort st (red_start st)"
  using assms by (simp add: red_inv_def red_start_def red_shape_def thread_inv_def calls_of_def mr_wf_def)

lemma step_exists:
  assumes "\<not> reducers_joined s"
  shows "\<exists>t. reducer_step qsort s t"
proof -
  from assms obtain i where i: "i < length (rs_pcs s)" "rs_pcs s ! i \<noteq> Ended"
    by (auto simp: reducers_joined_def in_set_conv_nth)
  show ?thesis
  proof (cases "rs_pcs s ! i")
    case Created
    then show ?thesis using reducer_step.sorts [OF i(1)] by blast
  next
    case Reducing
    then show ?thesis using reducer_step.calls [OF i(1)] reducer_step.ends [OF i(1)] by blast
  next
    case (Calling key vs)
    obtain r m where "getValue key i (rs_mr s) = (r, m)" by fastforce
    then show ?thesis using reducer_step.gets [OF i(1) Calling] reducer_step.returns [OF i(1) Calling] by (cases r) blast+
  qed (use i in simp)
qed

lemma run_inv:
  assumes r: "reducers_run qsort s t" and inv: "red_inv qsort st s" and n: "mr_nodes st = map length (mr_partitions st)"
    and keys: "\<forall>P\<in>set (mr_partitions st). mr_keys_ok P" and q: "qsort_contract qsort"
  shows "red_inv qsort st t"
  using r unfolding reducers_run_def by (induction rule: rtranclp_induct) (use inv step_inv(1) [OF _ _ n keys q] in auto)

text \<open>A run can always be completed: every step brings the threads nearer to their ends.\<close>

lemma run_completes:
  assumes n: "mr_nodes st = map length (mr_partitions st)" and keys: "\<forall>P\<in>set (mr_partitions st). mr_keys_ok P"
    and q: "qsort_contract qsort"
  shows "red_inv qsort st t \<Longrightarrow> \<exists>u. reducers_run qsort t u \<and> reducers_joined u"
proof (induction "steps_left (length (mr_partitions st)) t" arbitrary: t rule: less_induct)
  case less
  show ?case
  proof (cases "reducers_joined t")
    case True
    then show ?thesis by (auto simp: reducers_run_def)
  next
    case False
    from step_exists [OF this] obtain t1 where t1: "reducer_step qsort t t1" by blast
    note i = step_inv [OF t1 less.prems n keys q]
    from less.hyps [OF i(2,1)] obtain u where "reducers_run qsort t1 u" "reducers_joined u" by blast
    with t1 show ?thesis unfolding reducers_run_def by (blast intro: converse_rtranclp_into_rtranclp)
  qed
qed

section \<open>What the reduce functions receive\<close>

lemma sum_one_part: "(\<Sum>i<(n::nat). if i = a then M else {#}) = (if a < n then M else ({#} :: 'b multiset))"
proof (induction n)
  case (Suc n)
  then show ?case by (cases "a = n") (auto simp: less_Suc_eq)
qed simp

lemma mset_calls_of:
  "\<forall>x\<in>set xs. fst x < (n::nat) \<Longrightarrow> mset (map snd xs) = (\<Sum>i<n. mset (map snd (filter (\<lambda>x. fst x = i) xs)))"
proof (induction xs)
  case Nil
  then show ?case by simp
next
  case (Cons x xs)
  have "(\<Sum>i<n. mset (map snd (filter (\<lambda>y. fst y = i) (x # xs)))) =
      (\<Sum>i<n. (if i = fst x then {#snd x#} else {#}) + mset (map snd (filter (\<lambda>y. fst y = i) xs)))"
    by (intro sum.cong) auto
  also have "\<dots> = {#snd x#} + (\<Sum>i<n. mset (map snd (filter (\<lambda>y. fst y = i) xs)))"
    using Cons.prems by (simp add: sum.distrib sum_one_part)
  finally show ?case using Cons by simp
qed

lemma image_mset_sum_lessThan: "image_mset f (\<Sum>i<n. g i) = (\<Sum>i<(n::nat). image_mset f (g i))"
  by (induction n) simp_all

lemma joined_calls:
  assumes wf: "mr_wf partitioner n st" and inv: "red_inv qsort st t" and j: "reducers_joined t"
    and keys: "\<forall>P\<in>set (mr_partitions st). mr_keys_ok P" and q: "qsort_contract qsort"
  shows "image_mset call_mset (mset (calls_made t)) = mr_result (mr_pairs st)"
proof -
  let ?P = "\<lambda>i. mr_partitions st ! i"
  have len: "length (mr_partitions st) = n" using wf by (simp add: mr_wf_def)
  have sh: "red_shape n st t" using inv by (simp add: red_inv_def len)
  have grp: "calls_of i t = mr_group (qsort (?P i))" if "i < n" for i
  proof -
    have "rs_pcs t ! i = Ended" using j sh that by (simp add: reducers_joined_def red_shape_def)
    then show ?thesis using inv that by (auto simp: red_inv_def thread_inv_def len)
  qed
  have one: "image_mset call_mset (mset (mr_group (qsort (?P i)))) = mr_result (mset (?P i))" if "i < n" for i
  proof -
    have k: "mr_keys_ok (?P i)" using keys that len by simp
    then have "mr_sorted (qsort (?P i))" "mset (qsort (?P i)) = mset (?P i)" using q by (auto simp: qsort_contract_def)
    with mr_group_result [OF _ qsort_contract_keys [OF q k]] show ?thesis by simp
  qed
  have "mset (calls_made t) = (\<Sum>i<n. mset (calls_of i t))"
    using sh mset_calls_of [of "rs_calls t" n] by (simp add: calls_made_def calls_of_def red_shape_def)
  also have "\<dots> = (\<Sum>i<n. mset (mr_group (qsort (?P i))))" by (intro sum.cong) (simp_all add: grp)
  finally have "image_mset call_mset (mset (calls_made t)) = (\<Sum>i<n. image_mset call_mset (mset (mr_group (qsort (?P i)))))"
    by (simp add: image_mset_sum_lessThan)
  also have "\<dots> = (\<Sum>i<n. mr_result (mset (?P i)))" by (intro sum.cong) (simp_all add: one)
  also have "\<dots> = sum_list (map (\<lambda>i. mr_result (mset (?P i))) [0..<n])" by (simp add: sum_list_distinct_conv_sum_set atLeast0LessThan)
  also have "\<dots> = mr_result (sum_list (map (\<lambda>i. mset (?P i)) [0..<n]))"
    using wf by (intro mr_result_sum [where h = "\<lambda>k. partitioner k n"]) (auto simp: mr_wf_def)
  also have "map (\<lambda>i. mset (?P i)) [0..<n] = map mset (mr_partitions st)"
    using len by (intro nth_equalityI) simp_all
  finally show ?thesis by (simp add: mr_pairs_def)
qed

text \<open>Each key once, with all its values.\<close>

definition right_calls :: "node list \<Rightarrow> (string \<times> string list) list \<Rightarrow> bool" where
  "right_calls ps cs \<longleftrightarrow> distinct (map fst cs) \<and> set (map fst cs) = set (map fst ps) \<and>
     (\<forall>(k, vs)\<in>set cs. mset vs = image_mset snd (filter_mset (\<lambda>x. fst x = k) (mset ps)))"

lemma result_calls:
  assumes "image_mset call_mset (mset cs) = mr_result (mset ps)"
  shows "right_calls ps cs"
proof -
  have "image_mset fst (image_mset call_mset (mset cs)) = mset (map fst cs)"
    by (simp add: multiset.map_comp call_mset_def comp_def)
  moreover have "image_mset fst (mr_result (mset ps)) = mset_set (fst ` set ps)"
    by (simp add: mr_result_def multiset.map_comp comp_def)
  ultimately have m: "mset (map fst cs) = mset_set (fst ` set ps)" using assms by simp
  then have "mset (map fst cs) = mset (remdups (map fst ps))"
    by (simp add: mset_set_set [symmetric, of "remdups (map fst ps)"])
  then have d: "distinct (map fst cs)" by (metis distinct_remdups mset_eq_imp_distinct_iff)
  have s: "set (map fst cs) = set (map fst ps)" using arg_cong [OF m, of set_mset] by simp
  have "mset vs = vals_of (mset ps) k" if "(k, vs) \<in> set cs" for k vs
  proof -
    have "(k, mset vs) \<in># image_mset call_mset (mset cs)" using that by (force simp: call_mset_def)
    then show ?thesis unfolding assms by (auto simp: mr_result_def)
  qed
  with d s show ?thesis by (auto simp: right_calls_def vals_of_def)
qed

text \<open>
  C7: the threaded MapReduce computes what the sequential one does. For every interleaving of the mapper threads that ends
  with all of them joined, every pair of sorting routines that meet the contract of \<open>qsort\<close>, and NUL-free keys: the sequential
  program returns, and calls its reduce function once for each key that was emitted, with all of its values; the reducer
  threads can always be run to their ends, and in every interleaving of them that has ended the calls are the same: each key
  once, with the same values, up to the order of the calls and of the values of one key.
\<close>

theorem mapreduce_equals_sequential:
  assumes "mr_reach MR_DefaultHashPartition mapper files num_mappers num_reducers s"
    and "mr_joined s" and "0 < num_mappers"
    and "mr_keys_ok (concat (map mapper files))"
    and "qsort_contract qsort1" and "qsort_contract qsort2"
  shows "\<exists>ds sq. seq_run qsort2 mapper files = Ok (ds, sq) \<and> right_calls (concat (map mapper files)) ds \<and>
    (\<forall>t. reducers_run qsort1 (red_start (ms_mr s)) t \<longrightarrow>
       (\<exists>u. reducers_run qsort1 t u \<and> reducers_joined u) \<and>
       (reducers_joined t \<longrightarrow> right_calls (concat (map mapper files)) (calls_made t) \<and>
          image_mset call_mset (mset (calls_made t)) = image_mset call_mset (mset ds)))"
proof -
  let ?ps = "concat (map mapper files)" and ?st = "ms_mr s"
  note jp = joined_pairs [OF assms(1,2,3)]
  have n: "mr_nodes ?st = map length (mr_partitions ?st)" using jp(1) by (simp add: mr_wf_def)
  have "\<forall>x\<in>#mr_pairs ?st. c_wf_string (fst x)" using jp(2) assms(4) by (auto simp: mr_keys_ok_def)
  then have keys: "\<forall>P\<in>set (mr_partitions ?st). mr_keys_ok P"
    by (auto simp: mr_keys_ok_def mr_pairs_def in_sum_list_mset)
  from seq_run_result [OF assms(4,6)] obtain ds sq where ds: "seq_run qsort2 mapper files = Ok (ds, sq)"
      "image_mset call_mset (mset ds) = mr_result (mset ?ps)" by blast
  have "red_inv qsort1 ?st t" if "reducers_run qsort1 (red_start ?st) t" for t
    by (rule run_inv [OF that red_start_inv [OF jp(1)] n keys assms(5)])
  then have "(\<exists>u. reducers_run qsort1 t u \<and> reducers_joined u) \<and>
      (reducers_joined t \<longrightarrow> image_mset call_mset (mset (calls_made t)) = mr_result (mset ?ps))"
    if "reducers_run qsort1 (red_start ?st) t" for t
    using that run_completes [OF n keys assms(5)] joined_calls [OF jp(1) _ _ keys assms(5)] jp(2) by metis
  with ds result_calls show ?thesis by (metis (no_types, lifting))
qed

text \<open>Both mappers of the demonstration have ended; its reducers have two values of one key to hand over.\<close>

theorem mapreduce_equals_sequential_witness:
  "\<exists>u. reducers_run mr_isort
      (red_start (ms_mr (demo_system [[(''k'', ''b''), (''k'', ''a'')], []] [2, 0] 2 [Stopped, Stopped]))) u \<and>
    reducers_joined u \<and> right_calls [(''k'', ''a''), (''k'', ''b'')] (calls_made u)"
proof -
  let ?s = "demo_system [[(''k'', ''b''), (''k'', ''a'')], []] [2, 0] 2 [Stopped, Stopped]"
  have j: "mr_joined ?s" and z: "0 < (2::nat)" and k: "mr_keys_ok (concat (map demo_mapper [''a'', ''b'']))"
    by (simp_all add: mr_joined_def demo_system_def demo_mapper_def c_code_def)
  have m: "concat (map demo_mapper [''a'', ''b'']) = [(''k'', ''a''), (''k'', ''b'')]" by (simp add: demo_mapper_def)
  have r: "reducers_run mr_isort (red_start (ms_mr ?s)) (red_start (ms_mr ?s))" by (simp add: reducers_run_def)
  from mapreduce_equals_sequential [OF demo_reach j z k mr_isort_contract mr_isort_contract] r obtain u where
    "reducers_run mr_isort (red_start (ms_mr ?s)) u" "reducers_joined u" by blast
  with mapreduce_equals_sequential [OF demo_reach j z k mr_isort_contract mr_isort_contract] m show ?thesis by metis
qed

end
