(* ===== verification/HashMap.thy ===== *)
theory HashMap
  imports CLib KvMap
begin

text \<open>
  P3A, \<open>hashmap.c\<close>: an open-addressing hash table with linear probing, keyed by C strings.
  The table is a list of slots; a slot is NULL (None) or a pair of a key and the bytes of its
  value. Each operation runs inside one critical section of \<open>rwlock\<close> (write side for
  \<open>MapPut\<close>, read side for \<open>MapGet\<close>), so it is one atomic step of the table.
\<close>

section \<open>State and hashing\<close>

type_synonym map_pair = "string \<times> byte list"

record hashmap =
  hm_contents :: "map_pair option list"
  hm_capacity :: nat
  hm_size :: nat

definition MAP_INIT_CAPACITY :: nat where
  "MAP_INIT_CAPACITY = 11"

definition fnv_offset :: ulong where
  "fnv_offset = 14695981039346656037"

definition fnv_prime :: ulong where
  "fnv_prime = 1099511628211"

definition char_byte :: "char \<Rightarrow> byte" where
  "char_byte c = of_nat (c_code c)"

text \<open>
  \<open>*p\<close> is a signed char: the cast through \<open>unsigned char\<close> extends it with zeros, the plain
  cast to \<open>size_t\<close> with its sign.
\<close>

fun fnv_loop :: "ulong \<Rightarrow> string \<Rightarrow> ulong" where
  "fnv_loop hash [] = hash"
| "fnv_loop hash (c # cs) =
     fnv_loop (((hash XOR ucast (char_byte c)) * fnv_prime) XOR scast (char_byte c)) cs"

definition Hash :: "string \<Rightarrow> nat \<Rightarrow> nat" where
  "Hash key capacity = unat (fnv_loop fnv_offset key) mod capacity"

text \<open>The hash is stored in an \<open>int\<close>: a table of more than \<open>2^31\<close> slots would be indexed
  with a negative number.\<close>

definition hm_start :: "string \<Rightarrow> nat \<Rightarrow> nat res" where
  "hm_start key capacity =
     (let h = sint (of_nat (Hash key capacity) :: 32 word)
      in if 0 \<le> h then Ok (nat h) else Undef)"

definition hm_next :: "nat \<Rightarrow> nat \<Rightarrow> nat" where
  "hm_next capacity h = (if Suc h = capacity then 0 else Suc h)"

section \<open>Operations\<close>

definition MapInit :: hashmap where
  "MapInit = \<lparr>hm_contents = replicate MAP_INIT_CAPACITY None,
              hm_capacity = MAP_INIT_CAPACITY, hm_size = 0\<rparr>"

text \<open>
  The probe loop. Its fuel is the capacity: after that many steps every slot has been visited
  without finding NULL or the key, and the C loop goes round for ever.
\<close>

datatype probe = Free nat | Match nat

fun hm_probe :: "nat \<Rightarrow> map_pair option list \<Rightarrow> nat \<Rightarrow> string \<Rightarrow> nat \<Rightarrow> probe res" where
  "hm_probe 0 tab capacity key h = Hang"
| "hm_probe (Suc n) tab capacity key h =
     (case tab ! h of
        None \<Rightarrow> Ok (Free h)
      | Some (k, v) \<Rightarrow>
          if key = k then Ok (Match h)
          else hm_probe n tab capacity key (hm_next capacity h))"

fun hm_probe_free :: "nat \<Rightarrow> map_pair option list \<Rightarrow> nat \<Rightarrow> nat \<Rightarrow> nat res" where
  "hm_probe_free 0 tab capacity h = Hang"
| "hm_probe_free (Suc n) tab capacity h =
     (if tab ! h = None then Ok h
      else hm_probe_free n tab capacity (hm_next capacity h))"

fun hm_rehash :: "map_pair option list \<Rightarrow> map_pair option list \<Rightarrow> nat \<Rightarrow> map_pair option list res"
where
  "hm_rehash [] temp newcapacity = Ok temp"
| "hm_rehash (None # slots) temp newcapacity = hm_rehash slots temp newcapacity"
| "hm_rehash (Some (k, v) # slots) temp newcapacity =
     rbind (hm_start k newcapacity) (\<lambda>h.
     rbind (hm_probe_free newcapacity temp newcapacity h) (\<lambda>h'.
     hm_rehash slots (temp[h' := Some (k, v)]) newcapacity))"

text \<open>\<open>calloc_ok\<close>: whether the allocation of the new table succeeds.\<close>

definition resize_map :: "bool \<Rightarrow> hashmap \<Rightarrow> (int \<times> hashmap) res" where
  "resize_map calloc_ok m =
     (let newcapacity = hm_capacity m * 2 in
      if \<not> calloc_ok then Ok (- 1, m)
      else rbind (hm_rehash (hm_contents m) (replicate newcapacity None) newcapacity) (\<lambda>temp.
           Ok (0, m\<lparr>hm_contents := temp, hm_capacity := newcapacity\<rparr>)))"

text \<open>
  The second half of \<open>MapPut\<close>: copy the value (reading past the end of a short one is
  undefined), find the slot of the key, and fill or overwrite it. \<open>MapPut\<close> itself grows a
  table that is more than half full first, and leaves the program with \<open>exit(0)\<close> (None) when
  that fails.
\<close>

definition hm_store :: "hashmap \<Rightarrow> string \<Rightarrow> byte list \<Rightarrow> nat \<Rightarrow> hashmap res" where
  "hm_store m key val value_size =
     (if length val < value_size then Undef
      else
        let newpair = (key, take value_size val) in
        rbind (hm_start key (hm_capacity m)) (\<lambda>h.
        rbind (hm_probe (hm_capacity m) (hm_contents m) (hm_capacity m) key h) (\<lambda>p.
          case p of
            Match i \<Rightarrow> Ok (m\<lparr>hm_contents := (hm_contents m)[i := Some newpair]\<rparr>)
          | Free i \<Rightarrow> Ok (m\<lparr>hm_contents := (hm_contents m)[i := Some newpair],
                            hm_size := hm_size m + 1\<rparr>))))"

definition MapPut ::
  "bool \<Rightarrow> hashmap \<Rightarrow> string \<Rightarrow> byte list \<Rightarrow> nat \<Rightarrow> hashmap option res" where
  "MapPut calloc_ok m key val value_size =
     (if hm_size m > hm_capacity m div 2 then
        rbind (resize_map calloc_ok m) (\<lambda>(r, m').
          if r < 0 then Ok None
          else rbind (hm_store m' key val value_size) (\<lambda>m''. Ok (Some m'')))
      else rbind (hm_store m key val value_size) (\<lambda>m'. Ok (Some m')))"

definition MapGet :: "hashmap \<Rightarrow> string \<Rightarrow> byte list option res" where
  "MapGet m key =
     rbind (hm_start key (hm_capacity m)) (\<lambda>h.
     rbind (hm_probe (hm_capacity m) (hm_contents m) (hm_capacity m) key h) (\<lambda>p.
       case p of
         Match i \<Rightarrow> Ok (map_option snd (hm_contents m ! i))
       | Free i \<Rightarrow> Ok None))"

definition MapSize :: "hashmap \<Rightarrow> nat" where
  "MapSize m = hm_size m"

section \<open>The table as a map\<close>

definition hm_count :: "map_pair option list \<Rightarrow> nat" where
  "hm_count tab = length (filter (\<lambda>s. s \<noteq> None) tab)"

definition hm_distinct :: "map_pair option list \<Rightarrow> bool" where
  "hm_distinct tab \<longleftrightarrow>
     (\<forall>i<length tab. \<forall>j<length tab. \<forall>k v w.
        tab ! i = Some (k, v) \<longrightarrow> tab ! j = Some (k, w) \<longrightarrow> i = j)"

text \<open>Every key is reachable: from its home slot, no NULL before it.\<close>

definition hm_reach :: "map_pair option list \<Rightarrow> bool" where
  "hm_reach tab \<longleftrightarrow>
     (\<forall>i<length tab. \<forall>k v. tab ! i = Some (k, v) \<longrightarrow>
        (\<exists>d<length tab. i = (Hash k (length tab) + d) mod length tab \<and>
           (\<forall>e<d. tab ! ((Hash k (length tab) + e) mod length tab) \<noteq> None)))"

definition hm_abs_tab :: "map_pair option list \<Rightarrow> string \<Rightarrow> byte list option" where
  "hm_abs_tab tab k =
     (case find_idx (\<lambda>s. map_option fst s = Some k) tab of
        None \<Rightarrow> None
      | Some i \<Rightarrow> map_option snd (tab ! i))"

definition hm_abs :: "hashmap \<Rightarrow> string \<Rightarrow> byte list option" where
  "hm_abs m = hm_abs_tab (hm_contents m)"

definition hm_inv :: "hashmap \<Rightarrow> bool" where
  "hm_inv m \<longleftrightarrow>
     length (hm_contents m) = hm_capacity m \<and> 4 \<le> hm_capacity m \<and> hm_capacity m \<le> 2 ^ 31 \<and>
     hm_size m = hm_count (hm_contents m) \<and> hm_size m \<le> hm_capacity m div 2 + 1 \<and>
     hm_distinct (hm_contents m) \<and> hm_reach (hm_contents m)"

lemma hm_abs_tab_iff:
  assumes "hm_distinct tab"
  shows "hm_abs_tab tab k = Some v \<longleftrightarrow> Some (k, v) \<in> set tab"
proof
  assume "hm_abs_tab tab k = Some v"
  then obtain i where i: "find_idx (\<lambda>s. map_option fst s = Some k) tab = Some i"
      "map_option snd (tab ! i) = Some v"
    by (auto simp: hm_abs_tab_def split: option.splits)
  from find_idx_SomeD [OF i(1)] i(2) have "i < length tab" "tab ! i = Some (k, v)" by auto
  then show "Some (k, v) \<in> set tab" by (metis nth_mem)
next
  assume "Some (k, v) \<in> set tab"
  then obtain j where j: "j < length tab" "tab ! j = Some (k, v)" by (auto simp: in_set_conv_nth)
  from find_idx_Some_ex [OF \<open>Some (k, v) \<in> set tab\<close>, of "\<lambda>s. map_option fst s = Some k"]
  obtain i where i: "find_idx (\<lambda>s. map_option fst s = Some k) tab = Some i" by auto
  from find_idx_SomeD [OF i] obtain w where w: "i < length tab" "tab ! i = Some (k, w)" by auto
  with j assms have "i = j" unfolding hm_distinct_def by blast
  with i j show "hm_abs_tab tab k = Some v" by (simp add: hm_abs_tab_def)
qed

lemma hm_abs_tab_None:
  "hm_abs_tab tab k = None \<longleftrightarrow> (\<forall>v. Some (k, v) \<notin> set tab)"
proof -
  have "hm_abs_tab tab k = None \<longleftrightarrow> find_idx (\<lambda>s. map_option fst s = Some k) tab = None"
    by (auto simp: hm_abs_tab_def dest!: find_idx_SomeD split: option.splits)
  also have "\<dots> \<longleftrightarrow> (\<forall>v. Some (k, v) \<notin> set tab)"
    by auto
  finally show ?thesis .
qed

lemma hm_abs_tab_eqI:
  assumes "hm_distinct tab" and "\<And>k v. Some (k, v) \<in> set tab \<longleftrightarrow> f k = Some v"
  shows "hm_abs_tab tab = f"
proof
  fix k
  show "hm_abs_tab tab k = f k"
    using hm_abs_tab_iff [OF assms(1), of k] hm_abs_tab_None [of tab k] assms(2) [of k]
    by (metis not_None_eq)
qed

lemma hm_count_free: "hm_count tab < length tab \<Longrightarrow> \<exists>i<length tab. tab ! i = None"
proof (rule ccontr)
  assume lt: "hm_count tab < length tab" and "\<not> (\<exists>i<length tab. tab ! i = None)"
  then have "filter (\<lambda>s. s \<noteq> None) tab = tab"
    by (intro filter_True) (auto simp: in_set_conv_nth)
  with lt show False by (simp add: hm_count_def)
qed

lemma hm_count_update:
  "i < length tab \<Longrightarrow> hm_count (tab[i := Some p]) = hm_count tab + (if tab ! i = None then 1 else 0)"
proof (induction tab arbitrary: i)
  case Nil
  then show ?case by simp
next
  case (Cons s tab)
  then show ?case by (cases i) (auto simp: hm_count_def)
qed

section \<open>Probing\<close>

lemma Hash_less: "0 < capacity \<Longrightarrow> Hash k capacity < capacity"
  by (simp add: Hash_def)

lemma hm_start_eq: "0 < capacity \<Longrightarrow> capacity \<le> 2 ^ 31 \<Longrightarrow> hm_start k capacity = Ok (Hash k capacity)"
proof -
  assume c: "0 < capacity" "capacity \<le> 2 ^ 31"
  then have "Hash k capacity < 2 ^ 31" using Hash_less [of capacity k] by simp
  then have "sint (of_nat (Hash k capacity) :: 32 word) = int (Hash k capacity)"
    by (rule sint_of_nat_32)
  then show ?thesis by (simp add: hm_start_def Let_def)
qed

lemma hm_next_mod: "h < capacity \<Longrightarrow> hm_next capacity h = Suc h mod capacity"
  by (auto simp: hm_next_def)

lemma mod_reach: "(h::nat) < c \<Longrightarrow> i < c \<Longrightarrow> \<exists>d<c. (h + d) mod c = i"
  by (cases "h \<le> i")
    (auto intro: exI [of _ "i - h"] exI [of _ "i + c - h"])

lemma hm_probe_run:
  "h < c \<Longrightarrow> d < n \<Longrightarrow>
   (\<forall>e<d. \<exists>k v. tab ! ((h + e) mod c) = Some (k, v) \<and> k \<noteq> key) \<Longrightarrow>
   hm_probe n tab c key h = hm_probe (n - d) tab c key ((h + d) mod c)"
proof (induction d)
  case 0
  then show ?case by simp
next
  case (Suc d)
  then have IH: "hm_probe n tab c key h = hm_probe (n - d) tab c key ((h + d) mod c)" by simp
  obtain m where m: "n - d = Suc m" "n - Suc d = m" using Suc.prems(2) by (cases "n - d") auto
  from Suc.prems(3) obtain k v where "tab ! ((h + d) mod c) = Some (k, v)" "k \<noteq> key" by blast
  moreover have "hm_next c ((h + d) mod c) = (h + Suc d) mod c"
    using Suc.prems(1) by (simp add: hm_next_mod mod_Suc_eq)
  ultimately show ?case using IH m by simp
qed

lemma hm_probe_free_run:
  "h < c \<Longrightarrow> d < n \<Longrightarrow> (\<forall>e<d. tab ! ((h + e) mod c) \<noteq> None) \<Longrightarrow>
   hm_probe_free n tab c h = hm_probe_free (n - d) tab c ((h + d) mod c)"
proof (induction d)
  case 0
  then show ?case by simp
next
  case (Suc d)
  then have IH: "hm_probe_free n tab c h = hm_probe_free (n - d) tab c ((h + d) mod c)" by simp
  obtain m where m: "n - d = Suc m" "n - Suc d = m" using Suc.prems(2) by (cases "n - d") auto
  from Suc.prems(3) obtain p where "tab ! ((h + d) mod c) = Some p" by blast
  moreover have "hm_next c ((h + d) mod c) = (h + Suc d) mod c"
    using Suc.prems(1) by (simp add: hm_next_mod mod_Suc_eq)
  ultimately show ?case using IH m by simp
qed

text \<open>The probe stops at the first slot that is NULL or holds the key.\<close>

lemma hm_probe_stops:
  assumes h: "h < length tab" and i: "i < length tab" "tab ! i = None"
  shows "\<exists>d<length tab. (\<forall>e<d. \<exists>k v. tab ! ((h + e) mod length tab) = Some (k, v) \<and> k \<noteq> key) \<and>
    ((tab ! ((h + d) mod length tab) = None \<and>
      hm_probe (length tab) tab (length tab) key h = Ok (Free ((h + d) mod length tab))) \<or>
     (\<exists>v. tab ! ((h + d) mod length tab) = Some (key, v) \<and>
      hm_probe (length tab) tab (length tab) key h = Ok (Match ((h + d) mod length tab))))"
proof -
  let ?c = "length tab"
  define stop where "stop = (\<lambda>d. case tab ! ((h + d) mod ?c) of None \<Rightarrow> True | Some (k, v) \<Rightarrow> k = key)"
  from mod_reach [OF h i(1)] obtain d0 where d0: "d0 < ?c" "(h + d0) mod ?c = i" by auto
  then have s0: "stop d0" using i by (simp add: stop_def)
  define d where "d = (LEAST d. stop d)"
  have d: "stop d" "d \<le> d0" using LeastI [of stop, OF s0] Least_le [of stop, OF s0] by (auto simp: d_def)
  have pre: "\<forall>e<d. \<exists>k v. tab ! ((h + e) mod ?c) = Some (k, v) \<and> k \<noteq> key"
  proof (intro allI impI)
    fix e assume "e < d"
    then have "\<not> stop e" using not_less_Least unfolding d_def by blast
    then show "\<exists>k v. tab ! ((h + e) mod ?c) = Some (k, v) \<and> k \<noteq> key"
      by (auto simp: stop_def split: option.splits)
  qed
  have dlt: "d < ?c" using d d0 by simp
  then obtain m where m: "?c - d = Suc m" by (cases "?c - d") auto
  from hm_probe_run [OF h dlt pre]
  have run: "hm_probe ?c tab ?c key h = hm_probe (Suc m) tab ?c key ((h + d) mod ?c)" by (simp add: m)
  show ?thesis
  proof (cases "tab ! ((h + d) mod ?c)")
    case None
    with run pre dlt show ?thesis by auto
  next
    case (Some p)
    with d(1) obtain v where v: "tab ! ((h + d) mod ?c) = Some (key, v)"
      by (auto simp: stop_def split: prod.splits)
    with run pre dlt show ?thesis by (intro exI [of _ d]) auto
  qed
qed

lemma hm_probe_free_stops:
  assumes h: "h < length tab" and i: "i < length tab" "tab ! i = None"
  shows "\<exists>d<length tab. (\<forall>e<d. tab ! ((h + e) mod length tab) \<noteq> None) \<and>
    tab ! ((h + d) mod length tab) = None \<and>
    hm_probe_free (length tab) tab (length tab) h = Ok ((h + d) mod length tab)"
proof -
  let ?c = "length tab"
  define stop where "stop = (\<lambda>d. tab ! ((h + d) mod ?c) = None)"
  from mod_reach [OF h i(1)] obtain d0 where d0: "d0 < ?c" "(h + d0) mod ?c = i" by auto
  then have s0: "stop d0" using i by (simp add: stop_def)
  define d where "d = (LEAST d. stop d)"
  have d: "stop d" "d \<le> d0" using LeastI [of stop, OF s0] Least_le [of stop, OF s0] by (auto simp: d_def)
  have pre: "\<forall>e<d. tab ! ((h + e) mod ?c) \<noteq> None"
    using not_less_Least unfolding d_def stop_def by blast
  have dlt: "d < ?c" using d d0 by simp
  then obtain m where m: "?c - d = Suc m" by (cases "?c - d") auto
  from hm_probe_free_run [OF h dlt pre] d(1) pre dlt
  show ?thesis by (intro exI [of _ d]) (simp add: m stop_def)
qed

text \<open>
  Filling a free slot, found by probing from the key's home slot, keeps the table well formed;
  overwriting the value of a key does too.
\<close>

lemma hm_insert_free:
  assumes wf: "hm_distinct tab" "hm_reach tab"
    and d: "d < length tab" "\<forall>e<d. tab ! ((Hash k (length tab) + e) mod length tab) \<noteq> None"
    and i: "i = (Hash k (length tab) + d) mod length tab" "tab ! i = None"
    and new: "\<forall>w. Some (k, w) \<notin> set tab"
  shows "hm_distinct (tab[i := Some (k, v)])" and "hm_reach (tab[i := Some (k, v)])"
proof -
  have "0 < length tab" using d(1) by linarith
  then have il: "i < length tab" using i(1) by simp
  show "hm_distinct (tab[i := Some (k, v)])"
    unfolding hm_distinct_def
  proof (intro allI impI)
    fix a b k' v' w'
    assume ab: "a < length (tab[i := Some (k, v)])" "b < length (tab[i := Some (k, v)])"
      "tab[i := Some (k, v)] ! a = Some (k', v')" "tab[i := Some (k, v)] ! b = Some (k', w')"
    then have ab': "a < length tab" "b < length tab" by simp_all
    have no: "tab ! x \<noteq> Some (k, w)" if "x < length tab" for x w
      using new nth_mem [OF that] by metis
    from ab show "a = b"
      using no [OF ab'(1)] no [OF ab'(2)] wf(1) ab'
      by (cases "a = i"; cases "b = i") (auto simp: hm_distinct_def)
  qed
  show "hm_reach (tab[i := Some (k, v)])"
    unfolding hm_reach_def
  proof (intro allI impI)
    fix a k' v'
    assume a: "a < length (tab[i := Some (k, v)])" "tab[i := Some (k, v)] ! a = Some (k', v')"
    let ?c = "length tab"
    have keep: "tab[i := Some (k, v)] ! x \<noteq> None" if "tab ! x \<noteq> None" for x
      using that il by (cases "x = i") auto
    have "\<exists>d<?c. a = (Hash k' ?c + d) mod ?c \<and> (\<forall>e<d. tab ! ((Hash k' ?c + e) mod ?c) \<noteq> None)"
    proof (cases "a = i")
      case True
      with a il have "k' = k" by simp
      with True d i show ?thesis by blast
    next
      case False
      with a wf(2) show ?thesis by (auto simp: hm_reach_def)
    qed
    then show "\<exists>d<length (tab[i := Some (k, v)]).
        a = (Hash k' (length (tab[i := Some (k, v)])) + d) mod length (tab[i := Some (k, v)]) \<and>
        (\<forall>e<d. tab[i := Some (k, v)] !
           ((Hash k' (length (tab[i := Some (k, v)])) + e) mod length (tab[i := Some (k, v)])) \<noteq> None)"
      using keep by (metis length_list_update)
  qed
qed

lemma hm_overwrite:
  assumes wf: "hm_distinct tab" "hm_reach tab" and i: "i < length tab" "tab ! i = Some (k, w)"
  shows "hm_distinct (tab[i := Some (k, v)])" and "hm_reach (tab[i := Some (k, v)])"
    and "hm_count (tab[i := Some (k, v)]) = hm_count tab"
proof -
  have key: "map_option fst (tab[i := Some (k, v)] ! x) = map_option fst (tab ! x)"
    if "x < length tab" for x
    using that i by (cases "x = i") auto
  show "hm_distinct (tab[i := Some (k, v)])"
    unfolding hm_distinct_def
  proof (intro allI impI)
    fix a b k' v' w'
    assume ab: "a < length (tab[i := Some (k, v)])" "b < length (tab[i := Some (k, v)])"
      "tab[i := Some (k, v)] ! a = Some (k', v')" "tab[i := Some (k, v)] ! b = Some (k', w')"
    then have "map_option fst (tab ! a) = Some k'" "map_option fst (tab ! b) = Some k'"
      using key [of a] key [of b] by simp_all
    then obtain x y where "tab ! a = Some (k', x)" "tab ! b = Some (k', y)" by auto
    with wf(1) ab show "a = b" by (auto simp: hm_distinct_def)
  qed
  show "hm_reach (tab[i := Some (k, v)])"
    unfolding hm_reach_def
  proof (intro allI impI)
    fix a k' v'
    assume a: "a < length (tab[i := Some (k, v)])" "tab[i := Some (k, v)] ! a = Some (k', v')"
    let ?c = "length tab"
    have "map_option fst (tab ! a) = Some k'" using a key [of a] by simp
    then obtain x where "tab ! a = Some (k', x)" by auto
    with wf(2) a obtain d where d: "d < ?c" "a = (Hash k' ?c + d) mod ?c"
        "\<forall>e<d. tab ! ((Hash k' ?c + e) mod ?c) \<noteq> None"
      by (auto simp: hm_reach_def)
    have "tab[i := Some (k, v)] ! x \<noteq> None" if "tab ! x \<noteq> None" for x
      using that i by (cases "x = i") auto
    with d show "\<exists>d<length (tab[i := Some (k, v)]).
        a = (Hash k' (length (tab[i := Some (k, v)])) + d) mod length (tab[i := Some (k, v)]) \<and>
        (\<forall>e<d. tab[i := Some (k, v)] !
           ((Hash k' (length (tab[i := Some (k, v)])) + e) mod length (tab[i := Some (k, v)])) \<noteq> None)"
      by (metis length_list_update)
  qed
  show "hm_count (tab[i := Some (k, v)]) = hm_count tab"
    using hm_count_update [OF i(1), of "(k, v)"] i(2) by simp
qed

lemma set_insert_free:
  assumes "i < length tab" and "tab ! i = None"
  shows "Some p \<in> set (tab[i := Some q]) \<longleftrightarrow> p = q \<or> Some p \<in> set tab"
proof
  assume "Some p \<in> set (tab[i := Some q])"
  then show "p = q \<or> Some p \<in> set tab"
    using set_update_subset_insert [of tab i "Some q"] by auto
next
  assume "p = q \<or> Some p \<in> set tab"
  then show "Some p \<in> set (tab[i := Some q])"
  proof
    assume "Some p \<in> set tab"
    then obtain j where j: "j < length tab" "tab ! j = Some p" by (auto simp: in_set_conv_nth)
    with assms have "i \<noteq> j" by auto
    with j have "tab[i := Some q] ! j = Some p" "j < length (tab[i := Some q])" by auto
    then show ?thesis by (metis nth_mem)
  qed (use assms in \<open>auto intro: set_update_memI\<close>)
qed

lemma set_overwrite:
  assumes "hm_distinct tab" and i: "i < length tab" "tab ! i = Some (k, w)"
  shows "Some (k', v') \<in> set (tab[i := Some (k, v)]) \<longleftrightarrow>
    (if k' = k then v' = v else Some (k', v') \<in> set tab)"
proof -
  have uniq: "x = i" if "x < length tab" "tab ! x = Some (k, y)" for x y
    using assms that unfolding hm_distinct_def by blast
  show ?thesis
  proof (cases "k' = k")
    case True
    then show ?thesis using i
      by (auto simp: in_set_conv_nth nth_list_update dest: uniq split: if_splits)
  next
    case False
    have "tab[i := Some (k, v)] ! x = Some (k', v') \<longleftrightarrow> tab ! x = Some (k', v')"
      if "x < length tab" for x
      using False i that by (cases "x = i") auto
    then show ?thesis using False by (auto simp: in_set_conv_nth)
  qed
qed

lemma hm_distinct_Cons:
  "hm_distinct (s # slots) \<Longrightarrow> hm_distinct slots \<and>
   (\<forall>k v w. s = Some (k, v) \<longrightarrow> Some (k, w) \<notin> set slots)"
proof (intro conjI allI impI)
  assume d: "hm_distinct (s # slots)"
  show "hm_distinct slots"
    unfolding hm_distinct_def
  proof (intro allI impI)
    fix i j k v w
    assume "i < length slots" "j < length slots" "slots ! i = Some (k, v)" "slots ! j = Some (k, w)"
    with d [unfolded hm_distinct_def, rule_format, of "Suc i" "Suc j" k v w] show "i = j" by simp
  qed
  fix k v w
  assume s: "s = Some (k, v)"
  show "Some (k, w) \<notin> set slots"
  proof
    assume "Some (k, w) \<in> set slots"
    then obtain j where "j < length slots" "slots ! j = Some (k, w)" by (auto simp: in_set_conv_nth)
    with d [unfolded hm_distinct_def, rule_format, of 0 "Suc j" k v w] s show False by simp
  qed
qed

lemma hm_rehash_ok:
  assumes "length temp = c" "0 < c" "c \<le> 2 ^ 31"
    and "hm_distinct temp" "hm_reach temp" "hm_distinct slots"
    and "\<And>k v w. Some (k, v) \<in> set slots \<Longrightarrow> Some (k, w) \<notin> set temp"
    and "hm_count temp + hm_count slots < c"
  shows "\<exists>t. hm_rehash slots temp c = Ok t \<and> length t = c \<and> hm_distinct t \<and> hm_reach t \<and>
    hm_count t = hm_count temp + hm_count slots \<and>
    (\<forall>p. Some p \<in> set t \<longleftrightarrow> Some p \<in> set temp \<or> Some p \<in> set slots)"
  using assms
proof (induction slots temp c rule: hm_rehash.induct)
  case (1 temp c)
  then show ?case by (auto simp: hm_count_def)
next
  case (2 slots temp c)
  then show ?case using hm_distinct_Cons [OF "2.prems"(6)] by (auto simp: hm_count_def)
next
  case (3 k v slots temp c)
  note len = "3.prems"(1)
  have cnt: "hm_count (Some (k, v) # slots) = Suc (hm_count slots)" by (simp add: hm_count_def)
  obtain f where f: "f < length temp" "temp ! f = None"
    using hm_count_free [of temp] "3.prems"(8) len cnt by auto
  have hl: "Hash k c < length temp" using Hash_less "3.prems"(2) len by simp
  from hm_probe_free_stops [OF hl f] len
  obtain d where d: "d < c" "\<forall>e<d. temp ! ((Hash k c + e) mod c) \<noteq> None"
      "temp ! ((Hash k c + d) mod c) = None"
      "hm_probe_free c temp c (Hash k c) = Ok ((Hash k c + d) mod c)" by auto
  define i where "i = (Hash k c + d) mod c"
  have i: "i < length temp" "temp ! i = None" using d(3) "3.prems"(2) len by (simp_all add: i_def)
  have new: "\<forall>w. Some (k, w) \<notin> set temp" using "3.prems"(7) by auto
  note start = hm_start_eq [OF "3.prems"(2,3), of k]
  let ?t = "temp[i := Some (k, v)]"
  have step: "hm_rehash (Some (k, v) # slots) temp c = hm_rehash slots ?t c"
    using start d(4) by (simp add: i_def)
  have ins: "hm_distinct ?t" "hm_reach ?t"
    using hm_insert_free [OF "3.prems"(4,5), of d k i v] d(1,2) i(2) new len
    by (simp_all add: i_def)
  have ct: "hm_count ?t = Suc (hm_count temp)" using hm_count_update [OF i(1), of "(k, v)"] i(2) by simp
  have "\<exists>t. hm_rehash slots ?t c = Ok t \<and> length t = c \<and> hm_distinct t \<and> hm_reach t \<and>
      hm_count t = hm_count ?t + hm_count slots \<and>
      (\<forall>p. Some p \<in> set t \<longleftrightarrow> Some p \<in> set ?t \<or> Some p \<in> set slots)"
  proof (rule "3.IH" [of "Hash k c" i])
    show "hm_start k c = Ok (Hash k c)" by (rule start)
    show "hm_probe_free c temp c (Hash k c) = Ok i" using d(4) by (simp add: i_def)
    show "length ?t = c" "0 < c" "c \<le> 2 ^ 31" using len "3.prems"(2,3) by simp_all
    show "hm_distinct ?t" "hm_reach ?t" by fact+
    show "hm_distinct slots" using hm_distinct_Cons [OF "3.prems"(6)] by simp
    show "Some (k', w) \<notin> set ?t" if "Some (k', v') \<in> set slots" for k' v' w
      using that "3.prems"(7) [of k' v' w] hm_distinct_Cons [OF "3.prems"(6)]
      by (auto simp: set_insert_free [OF i])
    show "hm_count ?t + hm_count slots < c" using ct cnt "3.prems"(8) by simp
  qed
  then show ?case unfolding step using ct cnt by (auto simp: set_insert_free [OF i])
qed

section \<open>Every operation keeps the invariant and implements the map\<close>

lemma hm_inv_free:
  assumes "hm_inv m"
  shows "\<exists>i<length (hm_contents m). hm_contents m ! i = None"
  using assms by (intro hm_count_free) (auto simp: hm_inv_def)

lemma MapInit_inv: "hm_inv MapInit" and MapInit_abs: "hm_abs MapInit = Map.empty"
  by (auto simp: hm_inv_def MapInit_def MAP_INIT_CAPACITY_def hm_count_def hm_distinct_def
      hm_reach_def hm_abs_def hm_abs_tab_None)

lemma resize_map_ok:
  assumes inv: "hm_inv m" and cap: "hm_capacity m * 2 \<le> 2 ^ 31"
  shows "\<exists>m'. resize_map True m = Ok (0, m') \<and> hm_inv m' \<and> hm_abs m' = hm_abs m \<and>
    hm_capacity m' = 2 * hm_capacity m \<and> hm_size m' = hm_size m"
proof -
  let ?c = "hm_capacity m * 2" and ?tab = "hm_contents m"
  have m: "length ?tab = hm_capacity m" "4 \<le> hm_capacity m" "hm_size m = hm_count ?tab"
      "hm_size m \<le> hm_capacity m div 2 + 1" "hm_distinct ?tab" "hm_reach ?tab"
    using inv by (simp_all add: hm_inv_def)
  have "\<exists>t. hm_rehash ?tab (replicate ?c None) ?c = Ok t \<and> length t = ?c \<and> hm_distinct t \<and>
      hm_reach t \<and> hm_count t = hm_count (replicate ?c None) + hm_count ?tab \<and>
      (\<forall>p. Some p \<in> set t \<longleftrightarrow> Some p \<in> set (replicate ?c None) \<or> Some p \<in> set ?tab)"
  proof (rule hm_rehash_ok)
    show "hm_count (replicate ?c None) + hm_count ?tab < ?c" using m by (simp add: hm_count_def)
  qed (use m cap in \<open>auto simp: hm_distinct_def hm_reach_def\<close>)
  then obtain t where t: "hm_rehash ?tab (replicate ?c None) ?c = Ok t" "length t = ?c"
      "hm_distinct t" "hm_reach t" "hm_count t = hm_count ?tab"
      "\<And>p. Some p \<in> set t \<longleftrightarrow> Some p \<in> set ?tab"
    by (auto simp: hm_count_def)
  have "hm_abs_tab t = hm_abs_tab ?tab"
    using t(6) by (intro hm_abs_tab_eqI [OF t(3)]) (simp add: hm_abs_tab_iff [OF m(5)])
  with t m cap show ?thesis
    by (auto simp: resize_map_def Let_def hm_inv_def hm_abs_def)
qed

lemma MapGet_abs:
  assumes inv: "hm_inv m"
  shows "MapGet m key = Ok (hm_abs m key)"
proof -
  let ?tab = "hm_contents m" and ?c = "hm_capacity m" and ?h = "Hash key (hm_capacity m)"
  have m: "length ?tab = ?c" "4 \<le> ?c" "?c \<le> 2 ^ 31" "hm_distinct ?tab" "hm_reach ?tab"
    using inv by (simp_all add: hm_inv_def)
  have start: "hm_start key ?c = Ok ?h" using m by (intro hm_start_eq) auto
  have hl: "?h < length ?tab" using m Hash_less [of ?c key] by simp
  obtain f where f: "f < length ?tab" "?tab ! f = None" using hm_inv_free [OF inv] by auto
  from hm_probe_stops [OF hl f, of key] m(1)
  obtain d where d: "d < ?c" "\<forall>e<d. \<exists>k v. ?tab ! ((?h + e) mod ?c) = Some (k, v) \<and> k \<noteq> key" and
    stop: "(?tab ! ((?h + d) mod ?c) = None \<and>
        hm_probe ?c ?tab ?c key ?h = Ok (Free ((?h + d) mod ?c))) \<or>
      (\<exists>v. ?tab ! ((?h + d) mod ?c) = Some (key, v) \<and>
        hm_probe ?c ?tab ?c key ?h = Ok (Match ((?h + d) mod ?c)))"
    by auto
  show ?thesis
  proof (cases "hm_abs m key")
    case (Some w)
    then have "Some (key, w) \<in> set ?tab" using hm_abs_tab_iff [OF m(4)] by (simp add: hm_abs_def)
    then obtain j where j: "j < ?c" "?tab ! j = Some (key, w)"
      using m(1) by (auto simp: in_set_conv_nth)
    have "\<exists>dj<?c. j = (?h + dj) mod ?c \<and> (\<forall>e<dj. ?tab ! ((?h + e) mod ?c) \<noteq> None)"
      using m(5) [unfolded hm_reach_def m(1)] j by simp
    then obtain dj where dj: "dj < ?c" "j = (?h + dj) mod ?c"
        "\<forall>e<dj. ?tab ! ((?h + e) mod ?c) \<noteq> None" by auto
    have "d \<le> dj"
    proof (rule ccontr)
      assume "\<not> d \<le> dj"
      then have "dj < d" by simp
      with d(2) obtain k v where "?tab ! ((?h + dj) mod ?c) = Some (k, v)" "k \<noteq> key" by blast
      with dj j show False by simp
    qed
    then have "?tab ! ((?h + d) mod ?c) \<noteq> None"
      using dj j by (cases "d = dj") auto
    with stop obtain v where v: "?tab ! ((?h + d) mod ?c) = Some (key, v)"
        "hm_probe ?c ?tab ?c key ?h = Ok (Match ((?h + d) mod ?c))" by auto
    have "(?h + d) mod ?c = j"
      using m(4) [unfolded hm_distinct_def, rule_format, OF _ _ v(1) j(2)] m(1,2) j(1) by simp
    with v j start Some show ?thesis by (simp add: MapGet_def)
  next
    case None
    then have "\<forall>v. Some (key, v) \<notin> set ?tab" by (simp add: hm_abs_def hm_abs_tab_None)
    moreover have "(?h + d) mod ?c < length ?tab" using m by simp
    ultimately have "\<nexists>v. ?tab ! ((?h + d) mod ?c) = Some (key, v)" by (metis nth_mem)
    with stop start None show ?thesis by (auto simp: MapGet_def)
  qed
qed

lemma hm_store_ok:
  assumes inv: "hm_inv m" and room: "hm_size m \<le> hm_capacity m div 2" and val: "n \<le> length val"
  shows "\<exists>m'. hm_store m key val n = Ok m' \<and> hm_inv m' \<and>
    hm_abs m' = (hm_abs m)(key \<mapsto> take n val) \<and> hm_capacity m' = hm_capacity m \<and>
    hm_size m' \<le> hm_size m + 1"
proof -
  let ?tab = "hm_contents m" and ?c = "hm_capacity m" and ?h = "Hash key (hm_capacity m)"
  let ?v = "take n val"
  have m: "length ?tab = ?c" "4 \<le> ?c" "?c \<le> 2 ^ 31" "hm_distinct ?tab" "hm_reach ?tab"
      "hm_size m = hm_count ?tab"
    using inv by (simp_all add: hm_inv_def)
  have start: "hm_start key ?c = Ok ?h" using m by (intro hm_start_eq) auto
  have hl: "?h < length ?tab" using m Hash_less [of ?c key] by simp
  obtain f where f: "f < length ?tab" "?tab ! f = None" using hm_inv_free [OF inv] by auto
  from hm_probe_stops [OF hl f, of key] m(1)
  obtain d where d: "d < ?c" "\<forall>e<d. \<exists>k v. ?tab ! ((?h + e) mod ?c) = Some (k, v) \<and> k \<noteq> key" and
    stop: "(?tab ! ((?h + d) mod ?c) = None \<and>
        hm_probe ?c ?tab ?c key ?h = Ok (Free ((?h + d) mod ?c))) \<or>
      (\<exists>v. ?tab ! ((?h + d) mod ?c) = Some (key, v) \<and>
        hm_probe ?c ?tab ?c key ?h = Ok (Match ((?h + d) mod ?c)))"
    by auto
  define i where "i = (?h + d) mod ?c"
  have il: "i < length ?tab" using m by (simp add: i_def)
  have abs_iff: "hm_abs m k = Some w \<longleftrightarrow> Some (k, w) \<in> set ?tab" for k w
    using hm_abs_tab_iff [OF m(4)] by (simp add: hm_abs_def)
  from stop show ?thesis
  proof (elim disjE conjE exE)
    assume free: "?tab ! ((?h + d) mod ?c) = None"
      "hm_probe ?c ?tab ?c key ?h = Ok (Free ((?h + d) mod ?c))"
    have iN: "?tab ! i = None" using free by (simp add: i_def)
    have new: "\<forall>w. Some (key, w) \<notin> set ?tab"
    proof (intro allI notI)
      fix w assume "Some (key, w) \<in> set ?tab"
      then have "MapGet m key = Ok (Some w)" using MapGet_abs [OF inv] abs_iff by simp
      with start free show False by (simp add: MapGet_def)
    qed
    let ?t = "?tab[i := Some (key, ?v)]"
    have pre: "\<forall>e<d. ?tab ! ((?h + e) mod ?c) \<noteq> None" using d(2) by fastforce
    have wf: "hm_distinct ?t" "hm_reach ?t"
      using hm_insert_free [OF m(4,5), of d key i ?v] d(1) pre iN new m(1) by (simp_all add: i_def)
    have "hm_abs_tab ?t = (hm_abs m)(key \<mapsto> ?v)"
      using new by (intro hm_abs_tab_eqI [OF wf(1)])
        (auto simp: set_insert_free [OF il iN] abs_iff)
    moreover have "hm_count ?t = hm_size m + 1"
      using hm_count_update [OF il, of "(key, ?v)"] iN m(6) by simp
    ultimately show ?thesis
      using start free wf m room val
      by (simp add: hm_store_def Let_def i_def [symmetric] hm_inv_def hm_abs_def)
  next
    fix w
    assume match: "?tab ! ((?h + d) mod ?c) = Some (key, w)"
      "hm_probe ?c ?tab ?c key ?h = Ok (Match ((?h + d) mod ?c))"
    have iS: "?tab ! i = Some (key, w)" using match by (simp add: i_def)
    let ?t = "?tab[i := Some (key, ?v)]"
    note wf = hm_overwrite [OF m(4,5) il iS, of ?v]
    have "hm_abs_tab ?t = (hm_abs m)(key \<mapsto> ?v)"
      by (intro hm_abs_tab_eqI [OF wf(1)]) (auto simp: set_overwrite [OF m(4) il iS] abs_iff)
    then show ?thesis
      using start match wf m room val
      by (simp add: hm_store_def Let_def i_def [symmetric] hm_inv_def hm_abs_def)
  qed
qed

definition hm_room :: "hashmap \<Rightarrow> nat \<Rightarrow> bool" where
  "hm_room m n \<longleftrightarrow> hm_size m + n \<le> 2 ^ 29"

lemma MapPut_ok:
  assumes inv: "hm_inv m" and room: "hm_room m (Suc n)" and val: "k \<le> length val"
  shows "\<exists>m'. MapPut True m key val k = Ok (Some m') \<and> hm_inv m' \<and> hm_room m' n \<and>
    hm_abs m' = (hm_abs m)(key \<mapsto> take k val)"
proof (cases "hm_size m > hm_capacity m div 2")
  case True
  then have "hm_capacity m * 2 \<le> 2 ^ 31" using room by (simp add: hm_room_def)
  from resize_map_ok [OF inv this] obtain r where r: "resize_map True m = Ok (0, r)" "hm_inv r"
      "hm_abs r = hm_abs m" "hm_capacity r = 2 * hm_capacity m" "hm_size r = hm_size m" by blast
  have "4 \<le> hm_capacity m" "hm_size m \<le> hm_capacity m div 2 + 1"
    using inv by (simp_all add: hm_inv_def)
  then have "hm_size m \<le> hm_capacity m" by linarith
  with r have "hm_size r \<le> hm_capacity r div 2" by simp
  from hm_store_ok [OF r(2) this val, of key] r True room show ?thesis
    by (auto simp: MapPut_def hm_room_def)
next
  case False
  then have "hm_size m \<le> hm_capacity m div 2" by simp
  from hm_store_ok [OF inv this val, of key] False room show ?thesis
    by (auto simp: MapPut_def hm_room_def)
qed

definition hm_put :: "hashmap \<Rightarrow> string \<Rightarrow> byte list \<Rightarrow> hashmap res" where
  "hm_put m key val =
     rbind (MapPut True m key val (length val))
       (\<lambda>r. case r of None \<Rightarrow> Panic ''exit'' | Some m' \<Rightarrow> Ok m')"

interpretation hm: kv_map "\<lambda>_. True" hm_inv hm_abs hm_room hm_put MapGet
proof
  fix m :: hashmap and n key and val :: "byte list"
  assume "hm_inv m" "hm_room m (Suc n)"
  from MapPut_ok [OF this order_refl, of key val]
  show "\<exists>m'. hm_put m key val = Ok m' \<and> hm_inv m' \<and> hm_room m' n \<and>
      (\<forall>j. True \<longrightarrow> hm_abs m' j = ((hm_abs m)(key \<mapsto> val)) j)"
    by (auto simp: hm_put_def)
qed (rule MapGet_abs)

section \<open>The size is the number of keys\<close>

lemma hm_count_card: "hm_distinct tab \<Longrightarrow> hm_count tab = card {k. \<exists>v. Some (k, v) \<in> set tab}"
proof (induction tab)
  case Nil
  then show ?case by (simp add: hm_count_def)
next
  case (Cons s tab)
  note d = hm_distinct_Cons [OF Cons.prems]
  have fin: "finite {k. \<exists>v. Some (k, v) \<in> set tab}"
    by (rule finite_subset [of _ "(\<lambda>s. fst (the s)) ` set tab"]) force+
  show ?case
  proof (cases s)
    case None
    with d Cons.IH show ?thesis by (simp add: hm_count_def)
  next
    case (Some p)
    obtain k v where p: "p = (k, v)" by fastforce
    have "{k. \<exists>v. Some (k, v) \<in> set (s # tab)} = insert k {k. \<exists>v. Some (k, v) \<in> set tab}"
      using Some p by auto
    moreover have "k \<notin> {k. \<exists>v. Some (k, v) \<in> set tab}" using d Some p by auto
    ultimately show ?thesis using fin d Cons.IH Some by (simp add: hm_count_def)
  qed
qed

lemma MapSize_card:
  assumes "hm_inv m"
  shows "MapSize m = card (dom (hm_abs m))"
proof -
  have d: "hm_distinct (hm_contents m)" using assms by (simp add: hm_inv_def)
  have "dom (hm_abs m) = {k. \<exists>v. Some (k, v) \<in> set (hm_contents m)}"
    using hm_abs_tab_iff [OF d] by (auto simp: hm_abs_def dom_def)
  with assms hm_count_card [OF d] show ?thesis by (simp add: MapSize_def hm_inv_def)
qed

text \<open>A client that inserts a sequence of pairs, the allocations succeeding.\<close>

fun hm_put_seq :: "hashmap \<Rightarrow> (string \<times> byte list) list \<Rightarrow> hashmap option res" where
  "hm_put_seq m [] = Ok (Some m)"
| "hm_put_seq m ((key, val) # kvs) =
     rbind (MapPut True m key val (length val))
       (\<lambda>r. case r of None \<Rightarrow> Ok None | Some m' \<Rightarrow> hm_put_seq m' kvs)"

lemma hm_put_OkD: "hm_put m key val = Ok m' \<Longrightarrow> MapPut True m key val (length val) = Ok (Some m')"
  by (auto simp: hm_put_def outcome_simps split: option.splits)

lemma hm_put_seq_put_all: "hm.put_all m kvs = Ok m' \<Longrightarrow> hm_put_seq m kvs = Ok (Some m')"
proof (induction kvs arbitrary: m)
  case Nil
  then show ?case by (simp add: hm.put_all.simps)
next
  case (Cons kv kvs)
  obtain key val where kv: "kv = (key, val)" by fastforce
  with Cons.prems obtain t where t: "hm_put m key val = Ok t" "hm.put_all t kvs = Ok m'"
    by (auto simp: hm.put_all.simps outcome_simps)
  with Cons.IH hm_put_OkD [OF t(1)] kv show ?case by simp
qed

section \<open>Properties\<close>

text \<open>
  C14: the hash table is a map. After any sequence of at most \<open>2^29\<close> insertions into a fresh
  table, none of which hangs or leaves the program, \<open>MapGet\<close> returns for every key the bytes of
  the last insertion of that key, NULL for a key never inserted, and \<open>MapSize\<close> is the number of
  distinct keys, across all the resizes on the way.
\<close>

theorem hashmap_get_after_puts:
  assumes "length kvs \<le> 2 ^ 29"
  shows "\<exists>m. hm_put_seq MapInit kvs = Ok (Some m) \<and>
    (\<forall>k. MapGet m k = Ok (map_of (rev kvs) k)) \<and>
    MapSize m = card (fst ` set kvs)"
proof -
  have "hm_room MapInit (length kvs)" using assms by (simp add: hm_room_def MapInit_def)
  from hm.put_all_ok [OF MapInit_inv this] obtain m where m: "hm.put_all MapInit kvs = Ok m"
      "hm_inv m" "hm_abs m = map_of (rev kvs)" by (auto simp: MapInit_abs fun_eq_iff)
  have "card (dom (map_of (rev kvs))) = card (fst ` set kvs)" by (simp add: dom_map_of_conv_image_fst)
  with m show ?thesis
    by (auto simp: hm_put_seq_put_all MapGet_abs MapSize_card)
qed

theorem hashmap_get_after_puts_witness:
  "\<exists>m. hm_put_seq MapInit [(''a'', [1]), (''b'', [2]), (''a'', [3])] = Ok (Some m) \<and>
     MapGet m ''a'' = Ok (Some [3]) \<and> MapGet m ''b'' = Ok (Some [2]) \<and>
     MapGet m ''c'' = Ok None \<and> MapSize m = 2"
proof -
  have "length [(''a'', [1::byte]), (''b'', [2]), (''a'', [3])] \<le> 2 ^ 29" by simp
  moreover have "card {''a'', ''b'', ''a''} = 2" by (simp add: card_insert_if)
  ultimately show ?thesis using hashmap_get_after_puts [of "[(''a'', [1]), (''b'', [2]), (''a'', [3])]"]
    by auto
qed

text \<open>
  One insertion into a well-formed table that is not near its limit always returns, whatever
  the allocator does: the program exits exactly when the table was more than half full and could
  not be reallocated, and otherwise the new table is well formed and differs from the old one at
  the inserted key only; a lookup always returns.
\<close>

theorem MapPut_total:
  assumes "hm_inv m" and "hm_size m < 2 ^ 29" and "k \<le> length val"
  shows "\<exists>r. MapPut calloc_ok m key val k = Ok r \<and>
    (r = None \<longleftrightarrow> \<not> calloc_ok \<and> hm_capacity m div 2 < hm_size m) \<and>
    (\<forall>m'. r = Some m' \<longrightarrow> hm_inv m' \<and> MapGet m' key = Ok (Some (take k val)) \<and>
       (\<forall>j. j \<noteq> key \<longrightarrow> MapGet m' j = MapGet m j \<and> MapGet m j \<noteq> Hang))"
proof -
  have room: "hm_room m (Suc 0)" using assms(2) by (simp add: hm_room_def)
  from MapPut_ok [OF assms(1) room assms(3)] obtain m' where m': "MapPut True m key val k = Ok (Some m')"
      "hm_inv m'" "hm_abs m' = (hm_abs m)(key \<mapsto> take k val)" by blast
  show ?thesis
  proof (cases "\<not> calloc_ok \<and> hm_capacity m div 2 < hm_size m")
    case True
    then show ?thesis by (simp add: MapPut_def resize_map_def Let_def)
  next
    case False
    then have "MapPut calloc_ok m key val k = MapPut True m key val k"
      by (cases calloc_ok) (simp_all add: MapPut_def)
    with m' False assms(1) show ?thesis by (auto simp: MapGet_abs)
  qed
qed

theorem MapPut_total_witness:
  "\<exists>r. MapPut False MapInit ''k'' [7] 1 = Ok r \<and> r \<noteq> None"
proof -
  have "hm_size MapInit < 2 ^ 29" "1 \<le> length [7 :: byte]" by (simp_all add: MapInit_def)
  from MapPut_total [OF MapInit_inv this, of False "''k''"] show ?thesis
    by (auto simp: MapInit_def MAP_INIT_CAPACITY_def)
qed

end
