(* ===== verification/Trap.thy ===== *)
theory Trap
  imports Proc
begin

text \<open>
  P2A, the kernel as a transition system: \<open>trap\<close> of \<open>trap.c\<close> around the system calls of
  \<open>sysproc.c\<close>, and the scheduler of every CPU. One step takes one CPU from one quiet point to
  the next one; a quiet point is user mode or the top of the scheduler loop. A step runs a whole
  system call up to its return or to the switch that ends it, then the scheduler's half of the
  switch; the critical sections of \<open>ptable.lock\<close> make these halves one atomic exchange.
\<close>

section \<open>Leaving the kernel\<close>

definition cli :: "nat \<Rightarrow> 'w kernel \<Rightarrow> 'w kernel" where
  "cli me k = k\<lparr>k_cpus := upd_at me (\<lambda>c. c\<lparr>cpu_if := False\<rparr>) (k_cpus k)\<rparr>"

text \<open>\<open>trapret\<close>: the return to user mode loads the user's flags, interrupts on.\<close>

definition return_user :: "nat \<Rightarrow> 'w kernel \<Rightarrow> 'w kernel" where
  "return_user me k = sti me k"

definition set_eax :: "nat \<Rightarrow> uint \<Rightarrow> 'w kernel \<Rightarrow> 'w kernel" where
  "set_eax p v k = pupd p (\<lambda>q. q\<lparr>p_tf := (p_tf q)\<lparr>tf_eax := v\<rparr>\<rparr>) k"

definition trap_exit :: "'w ops \<Rightarrow> nat \<Rightarrow> 'w kernel \<Rightarrow> 'w kernel res" where
  "trap_exit ops me k = rbind (exit_proc ops me k) (scheduler_back me)"

text \<open>\<open>if(myproc()->killed) exit();\<close> on the way out.\<close>

definition trap_leave :: "'w ops \<Rightarrow> nat \<Rightarrow> 'w kernel \<Rightarrow> 'w kernel res" where
  "trap_leave ops me k =
     with_myproc me k (\<lambda>p k.
       if p_killed (k_proc k ! p) then trap_exit ops me k else Ok (return_user me k))"

section \<open>System calls\<close>

text \<open>
  The calls of \<open>sysproc.c\<close> with their fetched arguments, and the sleeps and wakeups that the
  rest of the kernel does (pipes, the log, the disk): take a lock, sleep on a channel, give the
  lock back.
\<close>

datatype call =
    SysFork | SysExit | SysWait
  | SysKill "int32 option" | SysGetpid | SysSbrk "int32 option" | SysSleep "int32 option" | SysUptime
  | SysSettickets "int32 option" "int32 option" | SysSrand "uint option" | SysGetpinfo bool
  | Block chan nat | Wake chan

text \<open>The result: whether the call has returned, else the CPU is back in its scheduler.\<close>

definition returned :: "nat \<Rightarrow> uint \<Rightarrow> 'w kernel \<Rightarrow> (bool \<times> 'w kernel) res" where
  "returned p v k = Ok (True, set_eax p v k)"

definition switched :: "nat \<Rightarrow> 'w kernel \<Rightarrow> (bool \<times> 'w kernel) res" where
  "switched me k = rbind (scheduler_back me k) (\<lambda>k. Ok (False, k))"

fun syscall :: "'w ops \<Rightarrow> nat \<Rightarrow> nat \<Rightarrow> call \<Rightarrow> 'w kernel \<Rightarrow> (bool \<times> 'w kernel) res" where
  "syscall ops me p SysFork k = rbind (fork ops me k) (\<lambda>(r, k). returned p r k)"
| "syscall ops me p SysExit k = rbind (exit_proc ops me k) (switched me)"
| "syscall ops me p SysWait k = rbind (wait ops me k)
     (\<lambda>(r, k). case r of Some v \<Rightarrow> returned p v k | None \<Rightarrow> switched me k)"
| "syscall ops me p (SysKill pid) k = rbind (sys_kill me pid k) (\<lambda>(r, k). returned p (of_int r) k)"
| "syscall ops me p SysGetpid k = rbind (sys_getpid me k) (\<lambda>(r, k). returned p r k)"
| "syscall ops me p (SysSbrk n) k = rbind (sys_sbrk ops me n k) (\<lambda>(r, k). returned p r k)"
| "syscall ops me p (SysSleep n) k = rbind (sys_sleep me n k)
     (\<lambda>(r, k). case r of Some v \<Rightarrow> returned p (of_int v) k | None \<Rightarrow> switched me k)"
| "syscall ops me p SysUptime k = rbind (sys_uptime me k) (\<lambda>(r, k). returned p r k)"
| "syscall ops me p (SysSettickets pid n) k =
     rbind (sys_settickets me pid n k) (\<lambda>(r, k). returned p (of_int r) k)"
| "syscall ops me p (SysSrand seed) k = rbind (sys_srand seed k) (\<lambda>k. returned p 0 k)"
| "syscall ops me p (SysGetpinfo arg_ok) k =
     rbind (sys_getpinfo me arg_ok k) (\<lambda>(r, st, k). returned p (of_int r) k)"
| "syscall ops me p (Block chan n) k =
     rbind (k_acquire me (OtherLock n) k) (\<lambda>k.
     rbind (sleep me (Some chan) (Some (OtherLock n)) k) (switched me))"
| "syscall ops me p (Wake chan) k = rbind (wakeup me (Some chan) k) (returned p 0)"

definition trap_syscall :: "'w ops \<Rightarrow> nat \<Rightarrow> call \<Rightarrow> 'w kernel \<Rightarrow> 'w kernel res" where
  "trap_syscall ops me c k =
     with_myproc me k (\<lambda>p k.
       if p_killed (k_proc k ! p) then trap_exit ops me k
       else rbind (syscall ops me p c k) (\<lambda>(back, k). if back then trap_leave ops me k else Ok k))"

section \<open>Interrupts and faults\<close>

definition trap_timer :: "'w ops \<Rightarrow> nat \<Rightarrow> 'w kernel \<Rightarrow> 'w kernel res" where
  "trap_timer ops me k =
     rbind (timer_tick me (cli me k)) (\<lambda>k.
     rbind (k_myproc me k) (\<lambda>(p, k).
       case p of
         None \<Rightarrow> Ok (return_user me k)
       | Some p \<Rightarrow>
           if p_killed (k_proc k ! p) then trap_exit ops me k
           else if p_state (k_proc k ! p) = RUNNING
           then rbind (yield me k) (scheduler_back me)
           else Ok (return_user me k)))"

text \<open>An exception in user mode: the process is marked and leaves through \<open>exit\<close>.\<close>

definition trap_fault :: "'w ops \<Rightarrow> nat \<Rightarrow> 'w kernel \<Rightarrow> 'w kernel res" where
  "trap_fault ops me k =
     with_myproc me (cli me k) (\<lambda>p k.
       trap_leave ops me (pupd p (\<lambda>q. q\<lparr>p_killed := True\<rparr>) k))"

section \<open>Coming back\<close>

definition resume_proc :: "'w ops \<Rightarrow> nat \<Rightarrow> nat \<Rightarrow> 'w kernel \<Rightarrow> 'w kernel res" where
  "resume_proc ops me p k =
     (case p_context (k_proc k ! p) of
        At_forkret \<Rightarrow> rbind (forkret ops me k) (\<lambda>k. Ok (return_user me k))
      | At_yield intena \<Rightarrow> rbind (yield_return me intena k) (trap_leave ops me)
      | At_sleep l intena \<Rightarrow>
          (case l of
             PtableLock \<Rightarrow> rbind (wait_return ops me intena p k)
               (\<lambda>(r, k). case r of
                  Some v \<Rightarrow> trap_leave ops me (set_eax p v k)
                | None \<Rightarrow> scheduler_back me k)
           | TicksLock \<Rightarrow> rbind (sys_sleep_return me intena p k)
               (\<lambda>(r, k). trap_leave ops me (set_eax p (of_int r) k))
           | OtherLock n \<Rightarrow> rbind (sleep_return me (OtherLock n) intena p k)
               (\<lambda>k. rbind (k_release me (OtherLock n) k) (trap_leave ops me)))
      | At_exit \<Rightarrow> Panic ''zombie exit'')"

text \<open>One round of the scheduler of CPU \<open>me\<close>, and of the process it switches to.\<close>

definition scheduler_round :: "'w ops \<Rightarrow> nat \<Rightarrow> 'w kernel \<Rightarrow> 'w kernel res" where
  "scheduler_round ops me k =
     rbind (scheduler_pick me k)
       (\<lambda>(p, k). case p of None \<Rightarrow> Ok k | Some p \<Rightarrow> resume_proc ops me p k)"

section \<open>The system\<close>

inductive kstep :: "'w ops \<Rightarrow> 'w kernel \<Rightarrow> 'w kernel \<Rightarrow> bool" for ops where
  schedule: "me < length (k_cpus k) \<Longrightarrow> cpu_proc (k_cpus k ! me) = None \<Longrightarrow>
    scheduler_round ops me k = Ok k' \<Longrightarrow> kstep ops k k'"
| syscall: "me < length (k_cpus k) \<Longrightarrow> cpu_proc (k_cpus k ! me) = Some p \<Longrightarrow>
    trap_syscall ops me c k = Ok k' \<Longrightarrow> kstep ops k k'"
| timer: "me < length (k_cpus k) \<Longrightarrow> trap_timer ops me k = Ok k' \<Longrightarrow> kstep ops k k'"
| fault: "me < length (k_cpus k) \<Longrightarrow> cpu_proc (k_cpus k ! me) = Some p \<Longrightarrow>
    trap_fault ops me k = Ok k' \<Longrightarrow> kstep ops k k'"

inductive kreach :: "'w ops \<Rightarrow> 'w kernel \<Rightarrow> 'w kernel \<Rightarrow> bool" for ops k0 where
  start: "kreach ops k0 k0"
| step: "kreach ops k0 k \<Longrightarrow> kstep ops k k' \<Longrightarrow> kreach ops k0 k'"

end
