(* ===== verification/SchedInv.thy ===== *)
theory SchedInv
  imports Trap
begin

text \<open>
  P2A: what holds of the kernel at every quiet point. All locks are free, interrupts are balanced,
  and the CPUs and the process table agree on who is running: no process runs on two CPUs, and a
  process is marked RUNNING exactly while a CPU has it.
\<close>

section \<open>Locking and unlocking\<close>

definition locks_free :: "('p, 'w) kern \<Rightarrow> bool" where
  "locks_free k \<longleftrightarrow> (\<forall>l. \<not> lk_locked (k_lock k l) \<and> lk_cpu (k_lock k l) = None)"

lemma locks_freeD: "locks_free k \<Longrightarrow> \<not> lk_locked (k_lock k l)"
    "locks_free k \<Longrightarrow> lk_cpu (k_lock k l) = None"
  by (simp_all add: locks_free_def)

definition taken :: "nat \<Rightarrow> lockid \<Rightarrow> (lockid \<Rightarrow> spinlock) \<Rightarrow> lockid \<Rightarrow> spinlock" where
  "taken me l locks = locks(l := (locks l)\<lparr>lk_locked := True, lk_cpu := Some me\<rparr>)"

definition freed :: "lockid \<Rightarrow> (lockid \<Rightarrow> spinlock) \<Rightarrow> lockid \<Rightarrow> spinlock" where
  "freed l locks = locks(l := (locks l)\<lparr>lk_cpu := None, lk_locked := False\<rparr>)"

lemma taken_simps [simp]:
  "lk_locked (taken me l locks l') \<longleftrightarrow> l' = l \<or> lk_locked (locks l')"
  "lk_cpu (taken me l locks l') = (if l' = l then Some me else lk_cpu (locks l'))"
  by (simp_all add: taken_def)

lemma freed_simps [simp]:
  "lk_locked (freed l locks l') \<longleftrightarrow> l' \<noteq> l \<and> lk_locked (locks l')"
  "lk_cpu (freed l locks l') = (if l' = l then None else lk_cpu (locks l'))"
  by (simp_all add: freed_def)

lemma freed_taken_other [simp]:
  "l \<noteq> l' \<Longrightarrow> freed l (taken me l' (taken me l locks)) = taken me l' (freed l (taken me l locks))"
  by (rule ext) (simp add: freed_def taken_def)

lemma k_acquire_eq [cli_simps]:
  assumes "cpus_wf (k_cpus k)" and "me < length (k_cpus k)" and "\<not> lk_locked (k_lock k l)"
  shows "k_acquire me l k =
    Ok (k\<lparr>k_lock := taken me l (k_lock k), k_cpus := upd_at me push1 (k_cpus k)\<rparr>)"
  using assms by (simp add: k_acquire_def acquire_eq taken_def)

lemma k_release_eq [cli_simps]:
  assumes "cpus_wf (k_cpus k)" and "me < length (k_cpus k)" and "0 < cpu_ncli (k_cpus k ! me)"
    and "lk_locked (k_lock k l)" and "lk_cpu (k_lock k l) = Some me"
  shows "k_release me l k =
    Ok (k\<lparr>k_lock := freed l (k_lock k), k_cpus := upd_at me pop1 (k_cpus k)\<rparr>)"
  using assms by (simp add: k_release_def release_eq freed_def)

lemma k_myproc_eq [cli_simps]:
  assumes "cpus_wf (k_cpus k)" and "me < length (k_cpus k)"
  shows "k_myproc me k =
    Ok (cpu_proc (k_cpus k ! me), k\<lparr>k_cpus := upd_at me settle (k_cpus k)\<rparr>)"
  using assms by (simp add: k_myproc_def myproc_eq)

lemma with_myproc_eq [cli_simps]:
  assumes "cpus_wf (k_cpus k)" and "me < length (k_cpus k)" and "cpu_proc (k_cpus k ! me) = Some p"
  shows "with_myproc me k f = f p (k\<lparr>k_cpus := upd_at me settle (k_cpus k)\<rparr>)"
  using assms by (simp add: with_myproc_def k_myproc_eq)

lemma pupd_simps [simp]:
  "k_cpus (pupd p f k) = k_cpus k" "k_lock (pupd p f k) = k_lock k" "k_rest (pupd p f k) = k_rest k"
  "k_proc (pupd p f k) = upd_at p f (k_proc k)" "k_initproc (pupd p f k) = k_initproc k"
  "k_nextpid (pupd p f k) = k_nextpid k" "k_ticks (pupd p f k) = k_ticks k"
  "k_first (pupd p f k) = k_first k" "k_rseed (pupd p f k) = k_rseed k"
  by (simp_all add: pupd_def)

section \<open>The invariant\<close>

definition ptable_ok :: "proc \<Rightarrow> bool" where
  "ptable_ok q \<longleftrightarrow>
     (p_state q \<in> {SLEEPING, RUNNABLE, RUNNING, ZOMBIE} \<longrightarrow> p_kstack q \<noteq> 0 \<and> p_pgdir q \<noteq> 0) \<and>
     (p_state q = SLEEPING \<longrightarrow> (\<exists>l intena. p_context q = At_sleep l intena)) \<and>
     (p_state q = RUNNABLE \<longrightarrow> p_context q \<noteq> At_exit)"

definition runs_on :: "nat \<Rightarrow> cpu list \<Rightarrow> nat" where
  "runs_on p cs = sum_list (map (\<lambda>c. if cpu_proc c = Some p then 1 else 0) cs)"

definition cpu_quiet :: "cpu \<Rightarrow> bool" where
  "cpu_quiet c \<longleftrightarrow> cpu_ncli c = 0 \<and> (cpu_proc c \<noteq> None \<longrightarrow> cpu_if c)"

definition agree :: "cpu list \<Rightarrow> proc list \<Rightarrow> bool" where
  "agree cs ps \<longleftrightarrow>
     (\<forall>c\<in>set cs. \<forall>p. cpu_proc c = Some p \<longrightarrow> p < length ps) \<and>
     (\<forall>p<length ps. runs_on p cs = (if p_state (ps ! p) = RUNNING then 1 else 0))"

definition kinv :: "'w kernel \<Rightarrow> bool" where
  "kinv k \<longleftrightarrow>
     cpus_wf (k_cpus k) \<and> (\<forall>c\<in>set (k_cpus k). cpu_quiet c) \<and> locks_free k \<and>
     agree (k_cpus k) (k_proc k) \<and> (\<forall>q\<in>set (k_proc k). ptable_ok q)"

lemma runs_on_upd:
  assumes "me < length cs"
  shows "runs_on p (upd_at me f cs) + (if cpu_proc (cs ! me) = Some p then 1 else 0) =
    runs_on p cs + (if cpu_proc (f (cs ! me)) = Some p then 1 else 0)"
  unfolding runs_on_def upd_at_def
  using sum_list_update_monoid [OF assms, of "\<lambda>c. if cpu_proc c = Some p then 1 else 0" "f (cs ! me)"]
  by simp

lemma runs_on_same:
  "me < length cs \<Longrightarrow> cpu_proc (f (cs ! me)) = cpu_proc (cs ! me) \<Longrightarrow> runs_on p (upd_at me f cs) = runs_on p cs"
  using runs_on_upd [of me cs p f] by simp

lemma runs_on_pos: "c \<in> set cs \<Longrightarrow> cpu_proc c = Some p \<Longrightarrow> 0 < runs_on p cs"
  unfolding runs_on_def by (induction cs) auto

lemma runs_on_0: "runs_on p cs = 0 \<longleftrightarrow> (\<forall>c\<in>set cs. cpu_proc c \<noteq> Some p)"
  unfolding runs_on_def by (induction cs) auto

lemma runs_on_unique:
  "runs_on p cs \<le> 1 \<Longrightarrow> i < length cs \<Longrightarrow> j < length cs \<Longrightarrow>
   cpu_proc (cs ! i) = Some p \<Longrightarrow> cpu_proc (cs ! j) = Some p \<Longrightarrow> i = j"
proof (induction cs arbitrary: i j)
  case Nil
  then show ?case by simp
next
  case (Cons c cs)
  have tl: "runs_on p cs \<le> 1" and hd: "cpu_proc c = Some p \<Longrightarrow> runs_on p cs = 0"
    using Cons.prems(1) by (auto simp: runs_on_def split: if_splits)
  show ?case
    using Cons.prems(2-5) Cons.IH [OF tl] hd
    by (cases i; cases j) (auto simp: runs_on_0)
qed

lemma set_upd_at: "x \<in> set (upd_at i f xs) \<Longrightarrow> x \<in> set xs \<or> (i < length xs \<and> x = f (xs ! i))"
  unfolding upd_at_def by (metis insertE list_update_beyond not_le set_update_subset_insert subsetD)

lemma running_unique_cpu:
  "agree cs ps \<Longrightarrow> i < length cs \<Longrightarrow> cpu_proc (cs ! i) = Some p \<Longrightarrow> p < length ps \<and> p_state (ps ! p) = RUNNING"
  unfolding agree_def by (metis less_numeral_extra(3) nth_mem runs_on_pos)

text \<open>The three ways the CPUs and the table change together.\<close>

lemma agree_frame:
  assumes "agree cs ps" and "me < length cs"
    and "cpu_proc (f (cs ! me)) = cpu_proc (cs ! me)" and "length ps' = length ps"
    and "\<And>p. p < length ps \<Longrightarrow> p_state (ps' ! p) = RUNNING \<longleftrightarrow> p_state (ps ! p) = RUNNING"
  shows "agree (upd_at me f cs) ps'"
  unfolding agree_def
proof (intro conjI allI impI ballI)
  fix c p assume "c \<in> set (upd_at me f cs)" "cpu_proc c = Some p"
  then show "p < length ps'"
    using set_upd_at [of c me f cs] running_unique_cpu [OF assms(1,2)] assms(1,3,4)
    by (auto simp: agree_def)
next
  fix p assume "p < length ps'"
  then show "runs_on p (upd_at me f cs) = (if p_state (ps' ! p) = RUNNING then 1 else 0)"
    using assms runs_on_same [of me cs f p] by (simp add: agree_def)
qed

lemma agree_out:
  assumes "agree cs ps" and "me < length cs" and "cpu_proc (cs ! me) = Some cur"
    and "cpu_proc (f (cs ! me)) = None" and "length ps' = length ps"
    and "\<And>p. p < length ps \<Longrightarrow>
      p_state (ps' ! p) = RUNNING \<longleftrightarrow> p_state (ps ! p) = RUNNING \<and> p \<noteq> cur"
  shows "agree (upd_at me f cs) ps'"
  unfolding agree_def
proof (intro conjI allI impI ballI)
  fix c p assume "c \<in> set (upd_at me f cs)" "cpu_proc c = Some p"
  then show "p < length ps'"
    using set_upd_at [of c me f cs] assms by (auto simp: agree_def)
next
  fix p assume p: "p < length ps'"
  have cur: "p_state (ps ! cur) = RUNNING"
    using running_unique_cpu [OF assms(1-3)] by simp
  show "runs_on p (upd_at me f cs) = (if p_state (ps' ! p) = RUNNING then 1 else 0)"
    using p assms cur runs_on_upd [OF assms(2), of p f]
    by (cases "p = cur") (auto simp: agree_def)
qed

lemma agree_in:
  assumes "agree cs ps" and "me < length cs" and "cpu_proc (cs ! me) = None"
    and "cpu_proc (f (cs ! me)) = Some new" and "new < length ps" and "length ps' = length ps"
    and "p_state (ps ! new) \<noteq> RUNNING"
    and "\<And>p. p < length ps \<Longrightarrow>
      p_state (ps' ! p) = RUNNING \<longleftrightarrow> p_state (ps ! p) = RUNNING \<or> p = new"
  shows "agree (upd_at me f cs) ps'"
  unfolding agree_def
proof (intro conjI allI impI ballI)
  fix c p assume "c \<in> set (upd_at me f cs)" "cpu_proc c = Some p"
  then show "p < length ps'"
    using set_upd_at [of c me f cs] assms by (auto simp: agree_def)
next
  fix p assume p: "p < length ps'"
  show "runs_on p (upd_at me f cs) = (if p_state (ps' ! p) = RUNNING then 1 else 0)"
    using p assms runs_on_upd [OF assms(2), of p f]
    by (cases "p = new") (auto simp: agree_def)
qed

section \<open>Inside the kernel\<close>

text \<open>
  CPU \<open>me\<close> is in the kernel holding the locks \<open>ls\<close>, the newest first, and everything else is as
  the invariant says.
\<close>

definition kst :: "nat \<Rightarrow> lockid list \<Rightarrow> 'w kernel \<Rightarrow> bool" where
  "kst me ls k \<longleftrightarrow>
     cpus_wf (k_cpus k) \<and> me < length (k_cpus k) \<and>
     cpu_ncli (k_cpus k ! me) = int (length ls) \<and> distinct ls \<and>
     (\<forall>l. lk_locked (k_lock k l) = (l \<in> set ls) \<and>
          lk_cpu (k_lock k l) = (if l \<in> set ls then Some me else None)) \<and>
     (\<forall>i<length (k_cpus k). i \<noteq> me \<longrightarrow> cpu_quiet (k_cpus k ! i)) \<and>
     agree (k_cpus k) (k_proc k) \<and> (\<forall>q\<in>set (k_proc k). ptable_ok q)"

lemma kst_basic:
  assumes "kst me ls k"
  shows "cpus_wf (k_cpus k)" "me < length (k_cpus k)" "cpu_ncli (k_cpus k ! me) = int (length ls)"
    "lk_locked (k_lock k l) = (l \<in> set ls)" "lk_cpu (k_lock k l) = (if l \<in> set ls then Some me else None)"
    "distinct ls" "agree (k_cpus k) (k_proc k)" "ls \<noteq> [] \<Longrightarrow> \<not> cpu_if (k_cpus k ! me)"
  using assms cpus_wf_nth [of "k_cpus k" me] by (auto simp: kst_def)

lemma kst_ptable_ok: "kst me ls k \<Longrightarrow> p < length (k_proc k) \<Longrightarrow> ptable_ok (k_proc k ! p)"
  by (simp add: kst_def)

lemma kinv_kst: "kinv k \<Longrightarrow> me < length (k_cpus k) \<Longrightarrow> kst me [] k"
  by (auto simp: kinv_def kst_def cpu_quiet_def locks_freeD)

lemma kst_kinv:
  assumes "kst me [] k" and "cpu_proc (k_cpus k ! me) = None \<or> cpu_if (k_cpus k ! me)"
  shows "kinv k"
proof -
  have "cpu_quiet c" if "c \<in> set (k_cpus k)" for c
    using assms that by (auto simp: in_set_conv_nth kst_def cpu_quiet_def)
  then show ?thesis
    unfolding kinv_def locks_free_def
    using kst_basic(1,4,5,7) [OF assms(1)] assms(1) [unfolded kst_def] by auto
qed

text \<open>A change of this CPU that keeps its process, together with a change of the locks and of the
  table that keeps who is running.\<close>

lemma kst_change:
  assumes "kst me ls k" and "k_cpus k' = upd_at me f (k_cpus k)"
    and "\<And>c. cpu_apicid (f c) = cpu_apicid c" and "\<And>c. cpu_lapicid (f c) = cpu_lapicid c"
    and "cpu_proc (f (k_cpus k ! me)) = cpu_proc (k_cpus k ! me)"
    and "cpu_ncli (f (k_cpus k ! me)) = int (length ls')"
    and "ls' \<noteq> [] \<Longrightarrow> \<not> cpu_if (f (k_cpus k ! me))" and "distinct ls'"
    and "\<And>l. lk_locked (k_lock k' l) = (l \<in> set ls')"
    and "\<And>l. lk_cpu (k_lock k' l) = (if l \<in> set ls' then Some me else None)"
    and "length (k_proc k') = length (k_proc k)"
    and "\<And>p. p < length (k_proc k) \<Longrightarrow>
      (p_state (k_proc k' ! p) = RUNNING \<longleftrightarrow> p_state (k_proc k ! p) = RUNNING) \<and>
      ptable_ok (k_proc k' ! p)"
  shows "kst me ls' k'"
proof -
  have wf: "cpus_wf (k_cpus k')"
    unfolding assms(2)
  proof (rule cpus_wf_upd_at [OF kst_basic(1) [OF assms(1)] assms(3,4)])
    show "0 \<le> cpu_ncli (f (k_cpus k ! me))" by (simp add: assms(6))
    show "\<not> cpu_if (f (k_cpus k ! me))" if "0 < cpu_ncli (f (k_cpus k ! me))"
      using that by (intro assms(7)) (auto simp: assms(6))
  qed
  have "agree (k_cpus k') (k_proc k')"
    unfolding assms(2)
    by (rule agree_frame [where f = f, OF kst_basic(7,2) [OF assms(1)] assms(5,11)]) (simp add: assms(12))
  moreover have "cpu_quiet (k_cpus k' ! i)" if "i < length (k_cpus k')" "i \<noteq> me" for i
    using that assms(1,2) by (simp add: kst_def)
  moreover have "\<forall>q\<in>set (k_proc k'). ptable_ok q"
    using assms(11,12) by (metis in_set_conv_nth)
  ultimately show ?thesis
    unfolding kst_def using wf kst_basic(2) [OF assms(1)] assms(2,6,8-10) by simp
qed

lemma kst_acquire:
  assumes "kst me ls k" and "l \<notin> set ls"
  shows "k_acquire me l k =
      Ok (k\<lparr>k_lock := taken me l (k_lock k), k_cpus := upd_at me push1 (k_cpus k)\<rparr>)"
    and "kst me (l # ls) (k\<lparr>k_lock := taken me l (k_lock k), k_cpus := upd_at me push1 (k_cpus k)\<rparr>)"
proof -
  note b = kst_basic [OF assms(1)]
  show "k_acquire me l k =
      Ok (k\<lparr>k_lock := taken me l (k_lock k), k_cpus := upd_at me push1 (k_cpus k)\<rparr>)"
    using b assms(2) by (intro k_acquire_eq) auto
  show "kst me (l # ls) (k\<lparr>k_lock := taken me l (k_lock k), k_cpus := upd_at me push1 (k_cpus k)\<rparr>)"
    by (rule kst_change [OF assms(1), where f = push1])
      (use b assms kst_ptable_ok [OF assms(1)] in auto)
qed

lemma kst_release:
  assumes "kst me ls k" and "l \<in> set ls"
  shows "k_release me l k =
      Ok (k\<lparr>k_lock := freed l (k_lock k), k_cpus := upd_at me pop1 (k_cpus k)\<rparr>)"
    and "kst me (remove1 l ls) (k\<lparr>k_lock := freed l (k_lock k), k_cpus := upd_at me pop1 (k_cpus k)\<rparr>)"
proof -
  note b = kst_basic [OF assms(1)]
  have len: "0 < length ls" using assms(2) by auto
  show "k_release me l k =
      Ok (k\<lparr>k_lock := freed l (k_lock k), k_cpus := upd_at me pop1 (k_cpus k)\<rparr>)"
    using b assms(2) len by (intro k_release_eq) auto
  have "int (length ls) - 1 = int (length (remove1 l ls))"
    using assms(2) len by (simp add: length_remove1 of_nat_diff Suc_le_eq del: length_greater_0_conv)
  moreover have "remove1 l ls \<noteq> [] \<Longrightarrow> int (length ls) \<noteq> 1"
    using assms(2) by (cases ls) auto
  ultimately show "kst me (remove1 l ls)
      (k\<lparr>k_lock := freed l (k_lock k), k_cpus := upd_at me pop1 (k_cpus k)\<rparr>)"
    by (intro kst_change [OF assms(1), where f = pop1])
      (use b assms kst_ptable_ok [OF assms(1)] in auto)
qed

lemma kst_settle:
  assumes "kst me ls k"
  shows "kst me ls (k\<lparr>k_cpus := upd_at me settle (k_cpus k)\<rparr>)"
  by (rule kst_change [OF assms, where f = settle])
    (use kst_basic [OF assms] kst_ptable_ok [OF assms] in auto)

lemma kst_with_myproc:
  assumes "kst me ls k" and "cpu_proc (k_cpus k ! me) = Some p"
  shows "with_myproc me k f = f p (k\<lparr>k_cpus := upd_at me settle (k_cpus k)\<rparr>)"
  using kst_basic [OF assms(1)] assms(2) by (intro with_myproc_eq)

lemma kst_procs:
  assumes "kst me ls k" and "length ps = length (k_proc k)"
    and "\<And>p. p < length (k_proc k) \<Longrightarrow>
      (p_state (ps ! p) = RUNNING \<longleftrightarrow> p_state (k_proc k ! p) = RUNNING) \<and> ptable_ok (ps ! p)"
  shows "kst me ls (k\<lparr>k_proc := ps\<rparr>)"
  by (rule kst_change [OF assms(1), where f = id]) (use kst_basic [OF assms(1)] assms in \<open>auto simp: upd_at_def\<close>)

lemma kst_pupd:
  assumes "kst me ls k"
    and "\<And>q. ptable_ok q \<Longrightarrow> q = k_proc k ! p \<Longrightarrow>
      (p_state (f q) = RUNNING \<longleftrightarrow> p_state q = RUNNING) \<and> ptable_ok (f q)"
  shows "kst me ls (pupd p f k)"
  unfolding pupd_def
  by (rule kst_procs [OF assms(1)])
    (use assms kst_ptable_ok [OF assms(1)] in \<open>auto simp: nth_upd_at\<close>)

lemma kst_other [simp]:
  "kst me ls (k\<lparr>k_rest := w\<rparr>) = kst me ls k" "kst me ls (k\<lparr>k_nextpid := n\<rparr>) = kst me ls k"
  "kst me ls (k\<lparr>k_ticks := t\<rparr>) = kst me ls k" "kst me ls (k\<lparr>k_rseed := r\<rparr>) = kst me ls k"
  "kst me ls (k\<lparr>k_first := b\<rparr>) = kst me ls k" "kst me ls (k\<lparr>k_initproc := i\<rparr>) = kst me ls k"
  by (simp_all add: kst_def)

section \<open>Switching\<close>

lemma proc_upd_at_comp: "upd_at i f (upd_at i g ps) = upd_at i (\<lambda>q. f (g q)) (ps :: proc list)"
  by (simp add: upd_at_comp comp_def)

text \<open>\<open>sched\<close> passes its four checks when the table lock is the only one held.\<close>

lemma sched_eq:
  assumes "cpus_wf (k_cpus k)" and "me < length (k_cpus k)" and "cpu_ncli (k_cpus k ! me) = 1"
    and "lk_locked (k_lock k PtableLock)" and "lk_cpu (k_lock k PtableLock) = Some me"
    and "cpu_proc (k_cpus k ! me) = Some p" and "p_state (k_proc k ! p) \<noteq> RUNNING"
  shows "sched me to k =
    Ok (pupd p (\<lambda>q. q\<lparr>p_context := to (cpu_intena (k_cpus k ! me))\<rparr>) k)"
  using assms cpus_wf_nth [OF assms(1,2)]
  by (simp add: sched_def cli_simps mycpu_nested Let_def)

lemma cpus_wf_set_proc [simp]:
  "cpus_wf cs \<Longrightarrow> me < length cs \<Longrightarrow> cpus_wf (upd_at me (\<lambda>c. c\<lparr>cpu_proc := p\<rparr>) cs)"
  by (rule cpus_wf_upd_at) (auto dest: cpus_wf_nth)

lemma scheduler_back_eq:
  assumes "cpus_wf (k_cpus k)" and "me < length (k_cpus k)" and "0 < cpu_ncli (k_cpus k ! me)"
    and "lk_locked (k_lock k PtableLock)" and "lk_cpu (k_lock k PtableLock) = Some me"
  shows "scheduler_back me k = Ok (k\<lparr>k_lock := freed PtableLock (k_lock k),
    k_cpus := upd_at me (\<lambda>c. (pop1 c)\<lparr>cpu_proc := None\<rparr>) (k_cpus k)\<rparr>)"
proof -
  have "upd_at me pop1 (upd_at me (\<lambda>c. c\<lparr>cpu_proc := None\<rparr>) (k_cpus k)) =
      upd_at me (\<lambda>c. (pop1 c)\<lparr>cpu_proc := None\<rparr>) (k_cpus k)"
    unfolding upd_at_comp by (intro upd_at_cong) (simp add: pop1_def)
  then show ?thesis
    using assms by (simp add: scheduler_back_def set_cpu_proc_def cli_simps)
qed

text \<open>A kernel function that returns to its caller: still on this CPU, with these locks.\<close>

definition stays :: "nat \<Rightarrow> lockid list \<Rightarrow> 'w kernel \<Rightarrow> 'w kernel \<Rightarrow> bool" where
  "stays me ls k k' \<longleftrightarrow> kst me ls k' \<and> cpu_proc (k_cpus k' ! me) = cpu_proc (k_cpus k ! me) \<and>
     length (k_proc k') = length (k_proc k) \<and> length (k_cpus k') = length (k_cpus k)"

lemma kst_running:
  assumes "kst me ls k" and "cpu_proc (k_cpus k ! me) = Some p"
  shows "p < length (k_proc k)" and "p_state (k_proc k ! p) = RUNNING"
  using running_unique_cpu [OF kst_basic(7,2) [OF assms(1)] assms(2)] by simp_all

lemma switch_out:
  assumes "kst me [PtableLock] k" and "cpu_proc (k_cpus k ! me) = Some cur"
    and "p_state (f (k_proc k ! cur)) \<noteq> RUNNING"
    and "ptable_ok ((f (k_proc k ! cur))\<lparr>p_context := to (cpu_intena (k_cpus k ! me))\<rparr>)"
  shows "\<exists>k'. rbind (sched me to (pupd cur f k)) (scheduler_back me) = Ok k' \<and> kinv k' \<and>
    length (k_proc k') = length (k_proc k) \<and> length (k_cpus k') = length (k_cpus k)"
proof -
  note b = kst_basic [OF assms(1)] and run = kst_running [OF assms(1,2)]
  let ?g = "\<lambda>q. (f q)\<lparr>p_context := to (cpu_intena (k_cpus k ! me))\<rparr>"
  let ?h = "\<lambda>c. (pop1 c)\<lparr>cpu_proc := None\<rparr>"
  let ?k = "k\<lparr>k_proc := upd_at cur ?g (k_proc k), k_lock := freed PtableLock (k_lock k),
    k_cpus := upd_at me ?h (k_cpus k)\<rparr>"
  have s: "sched me to (pupd cur f k) = Ok (pupd cur ?g k)"
    using b run(1) assms(2,3) by (subst sched_eq) (auto simp: pupd_def proc_upd_at_comp)
  have "scheduler_back me (pupd cur ?g k) = Ok ?k"
    using b by (subst scheduler_back_eq) (auto simp: pupd_def)
  moreover have "kinv ?k"
    unfolding kinv_def
  proof (intro conjI)
    show "cpus_wf (k_cpus ?k)"
      by simp (rule cpus_wf_upd_at [OF b(1)], use b(3) in simp_all)
    show "\<forall>c\<in>set (k_cpus ?k). cpu_quiet c"
    proof
      fix c assume "c \<in> set (k_cpus ?k)"
      then obtain i where i: "i < length (k_cpus k)" "c = upd_at me ?h (k_cpus k) ! i"
        by (auto simp: in_set_conv_nth)
      show "cpu_quiet c"
        using i assms(1) b by (cases "i = me") (auto simp: kst_def cpu_quiet_def)
    qed
    show "locks_free ?k" using b by (simp add: locks_free_def)
    show "agree (k_cpus ?k) (k_proc ?k)"
      using b run assms(2,3) by (auto intro!: agree_out [of _ "k_proc k" me cur] simp: nth_upd_at split: if_splits)
    show "\<forall>q\<in>set (k_proc ?k). ptable_ok q"
      using assms(1,4) by (auto dest!: set_upd_at simp: kst_def)
  qed
  ultimately show ?thesis using s by auto
qed

lemma switch_in:
  assumes "kst me [PtableLock] k" and "cpu_proc (k_cpus k ! me) = None"
    and "p < length (k_proc k)" and "p_state (k_proc k ! p) = RUNNABLE"
    and "p_state (f (k_proc k ! p)) = RUNNING" and "ptable_ok (f (k_proc k ! p))"
  shows "kst me [PtableLock] (pupd p f (set_cpu_proc me (Some p) k))"
proof -
  note b = kst_basic [OF assms(1)]
  let ?k = "pupd p f (set_cpu_proc me (Some p) k)"
  have cs: "k_cpus ?k = upd_at me (\<lambda>c. c\<lparr>cpu_proc := Some p\<rparr>) (k_cpus k)"
    by (simp add: set_cpu_proc_def)
  have ps: "k_proc ?k = upd_at p f (k_proc k)" by (simp add: set_cpu_proc_def)
  have "agree (k_cpus ?k) (k_proc ?k)"
    unfolding cs ps using b assms
    by (intro agree_in [of "k_cpus k" "k_proc k" me _ p]) (auto simp: nth_upd_at)
  moreover have "\<forall>q\<in>set (k_proc ?k). ptable_ok q"
    unfolding ps using assms(1,6) by (auto dest!: set_upd_at simp: kst_def)
  moreover have "cpus_wf (k_cpus ?k)" unfolding cs using b by simp
  moreover have "\<forall>i<length (k_cpus ?k). i \<noteq> me \<longrightarrow> cpu_quiet (k_cpus ?k ! i)"
    unfolding cs using assms(1) by (simp add: kst_def)
  moreover have "k_lock ?k = k_lock k" by (simp add: set_cpu_proc_def)
  ultimately show ?thesis
    unfolding kst_def using b by (simp add: set_cpu_proc_def)
qed

section \<open>Every handler keeps the books\<close>

lemma staysI:
  "kst me ls k' \<Longrightarrow> k_cpus k' = upd_at me f (k_cpus k) \<Longrightarrow> me < length (k_cpus k) \<Longrightarrow>
   cpu_proc (f (k_cpus k ! me)) = cpu_proc (k_cpus k ! me) \<Longrightarrow>
   length (k_proc k') = length (k_proc k) \<Longrightarrow> stays me ls k k'"
  by (simp add: stays_def)

lemma stays_trans: "stays me ls k k' \<Longrightarrow> stays me ls' k' k'' \<Longrightarrow> stays me ls' k k''"
  by (simp add: stays_def)

lemma stays_refl: "kst me ls k \<Longrightarrow> stays me ls k k"
  by (simp add: stays_def)

lemma acquire_ends:
  assumes "kst me ls k" and "l \<notin> set ls"
    and "\<And>k'. stays me (l # ls) k k' \<Longrightarrow> k_proc k' = k_proc k \<Longrightarrow> k_rest k' = k_rest k \<Longrightarrow>
      k_initproc k' = k_initproc k \<Longrightarrow> Q k'"
  shows "ends (k_acquire me l k) Q"
  using kst_acquire [OF assms(1,2)] kst_basic(2) [OF assms(1)] assms(3) by (auto simp: stays_def)

lemma release_ends:
  assumes "kst me ls k" and "l \<in> set ls"
    and "\<And>k'. stays me (remove1 l ls) k k' \<Longrightarrow> k_proc k' = k_proc k \<Longrightarrow> k_rest k' = k_rest k \<Longrightarrow>
      k_initproc k' = k_initproc k \<Longrightarrow> Q k'"
  shows "ends (k_release me l k) Q"
  using kst_release [OF assms(1,2)] kst_basic(2) [OF assms(1)] assms(3) by (auto simp: stays_def)

lemma myproc_ends:
  assumes "kst me ls k" and "cpu_proc (k_cpus k ! me) = Some p"
    and "\<And>k'. stays me ls k k' \<Longrightarrow> k_proc k' = k_proc k \<Longrightarrow> k_rest k' = k_rest k \<Longrightarrow>
      k_initproc k' = k_initproc k \<Longrightarrow> ends (f p k') Q"
  shows "ends (with_myproc me k f) Q"
  using kst_with_myproc [OF assms(1,2), of f] kst_settle [OF assms(1)] kst_basic(2) [OF assms(1)] assms(3)
  by (auto simp: stays_def)

lemma procs_stays:
  assumes "kst me ls k" and "length ps = length (k_proc k)"
    and "\<And>p. p < length (k_proc k) \<Longrightarrow>
      (p_state (ps ! p) = RUNNING \<longleftrightarrow> p_state (k_proc k ! p) = RUNNING) \<and> ptable_ok (ps ! p)"
  shows "stays me ls k (k\<lparr>k_proc := ps\<rparr>)"
  using kst_procs [OF assms] assms(2) by (simp add: stays_def)

lemma pupd_stays:
  assumes "kst me ls k"
    and "\<And>q. ptable_ok q \<Longrightarrow> q = k_proc k ! p \<Longrightarrow>
      (p_state (f q) = RUNNING \<longleftrightarrow> p_state q = RUNNING) \<and> ptable_ok (f q)"
  shows "stays me ls k (pupd p f k)"
  using kst_pupd [OF assms] by (simp add: stays_def)

lemma staysD: "stays me ls k k' \<Longrightarrow> kst me ls k'"
  by (simp add: stays_def)

text \<open>Waking keeps every process consistent.\<close>

lemma wakeup1_proc_ok:
  "p_state (wakeup1_proc chan q) = RUNNING \<longleftrightarrow> p_state q = RUNNING"
  "ptable_ok q \<Longrightarrow> ptable_ok (wakeup1_proc chan q)"
  by (auto simp: wakeup1_proc_def Let_def ptable_ok_def)

lemma wakeup1_stays: "kst me ls k \<Longrightarrow> stays me ls k (k\<lparr>k_proc := wakeup1 chan (k_proc k)\<rparr>)"
  by (rule procs_stays) (auto simp: wakeup1_def wakeup1_proc_ok kst_ptable_ok)

lemma wakeup_ends:
  assumes "kst me ls k" and "PtableLock \<notin> set ls" and "\<And>k'. stays me ls k k' \<Longrightarrow> Q k'"
  shows "ends (wakeup me chan k) Q"
  unfolding wakeup_def ends_simps
proof (rule acquire_ends [OF assms(1,2)])
  fix k1 assume 1: "stays me (PtableLock # ls) k k1"
  note 2 = wakeup1_stays [OF staysD [OF 1], of chan]
  show "ends (k_release me PtableLock (k1\<lparr>k_proc := wakeup1 chan (k_proc k1)\<rparr>)) Q"
    by (rule release_ends [OF staysD [OF 2]])
      (use stays_trans [OF stays_trans [OF 1 2]] assms(3) in auto)
qed

lemma yield_ends:
  assumes "kst me [] k" and "cpu_proc (k_cpus k ! me) = Some p"
  shows "ends (rbind (yield me k) (scheduler_back me)) kinv"
  unfolding yield_def rbind_assoc
proof (simp, rule acquire_ends [OF assms(1)], simp)
  fix k1 assume 1: "stays me [PtableLock] k k1"
  then have p1: "cpu_proc (k_cpus k1 ! me) = Some p" using assms(2) by (simp add: stays_def)
  show "ends (with_myproc me k1 (\<lambda>p k. sched me At_yield (pupd p (\<lambda>q. q\<lparr>p_state := RUNNABLE\<rparr>) k)))
      (\<lambda>x. ends (scheduler_back me x) kinv)"
  proof (rule myproc_ends [OF staysD [OF 1] p1])
    fix k2 assume 2: "stays me [PtableLock] k1 k2"
    then have p2: "cpu_proc (k_cpus k2 ! me) = Some p" using p1 by (simp add: stays_def)
    note run = kst_running [OF staysD [OF 2] p2]
    have "ptable_ok ((k_proc k2 ! p)\<lparr>p_state := RUNNABLE, p_context := At_yield b\<rparr>)" for b
      using kst_ptable_ok [OF staysD [OF 2] run(1)] run(2) by (simp add: ptable_ok_def)
    from switch_out [OF staysD [OF 2] p2, of "\<lambda>q. q\<lparr>p_state := RUNNABLE\<rparr>" At_yield] this
    show "ends (sched me At_yield (pupd p (\<lambda>q. q\<lparr>p_state := RUNNABLE\<rparr>) k2))
        (\<lambda>x. ends (scheduler_back me x) kinv)"
      by (auto simp: ends_def rbind_eq_Ok)
  qed
qed

end
