(* ===== verification/SchedSafe.thy ===== *)
theory SchedSafe
  imports SchedInv
begin

text \<open>
  P2A: every system call, interrupt and scheduling decision preserves the invariant of
  \<open>SchedInv\<close>, and the calls that only work on the process table always return.
\<close>

section \<open>Sleeping and waking\<close>

lemma stays_proc:
  "stays me ls k k' \<Longrightarrow> cpu_proc (k_cpus k ! me) = p \<Longrightarrow> cpu_proc (k_cpus k' ! me) = p"
  by (simp add: stays_def)

lemma kst_return_user: "kst me [] k \<Longrightarrow> kinv (return_user me k)"
proof (rule kst_kinv [of me])
  assume k: "kst me [] k"
  note b = kst_basic [OF k]
  show "kst me [] (return_user me k)"
    unfolding return_user_def sti_def
    by (rule kst_change [OF k, where f = "\<lambda>c. c\<lparr>cpu_if := True\<rparr>"])
      (use b kst_ptable_ok [OF k] in auto)
  show "cpu_proc (k_cpus (return_user me k) ! me) = None \<or> cpu_if (k_cpus (return_user me k) ! me)"
    using b by (simp add: return_user_def sti_def)
qed

lemma kst_cli: "kst me ls k \<Longrightarrow> kst me ls (cli me k)"
proof -
  assume k: "kst me ls k"
  show ?thesis
    unfolding cli_def
    by (rule kst_change [OF k, where f = "\<lambda>c. c\<lparr>cpu_if := False\<rparr>"])
      (use kst_basic [OF k] kst_ptable_ok [OF k] in auto)
qed

lemma cli_proc [simp]: "me < length (k_cpus k) \<Longrightarrow> cpu_proc (k_cpus (cli me k) ! me) = cpu_proc (k_cpus k ! me)"
  by (simp add: cli_def)

lemma sleep_ends:
  assumes "kst me [l] k" and "cpu_proc (k_cpus k ! me) = Some p"
  shows "ends (rbind (sleep me chan (Some l) k) (scheduler_back me)) kinv"
proof -
  let ?f = "\<lambda>q. q\<lparr>p_chan := chan, p_state := SLEEPING\<rparr>"
  let ?go = "\<lambda>k. rbind (sched me (At_sleep l) (pupd p ?f k)) (scheduler_back me)"
  have go: "ends (?go k1) kinv" if "stays me [PtableLock] k k1" for k1
  proof -
    note p1 = stays_proc [OF that assms(2)]
    note run = kst_running [OF staysD [OF that] p1]
    have "ptable_ok ((?f (k_proc k1 ! p))\<lparr>p_context := At_sleep l b\<rparr>)" for b
      using kst_ptable_ok [OF staysD [OF that] run(1)] run(2) by (simp add: ptable_ok_def)
    then have "\<exists>k'. ?go k1 = Ok k' \<and> kinv k' \<and> length (k_proc k') = length (k_proc k1) \<and>
        length (k_cpus k') = length (k_cpus k1)"
      by (intro switch_out [OF staysD [OF that] p1]) simp_all
    then show ?thesis by (auto simp: ends_def)
  qed
  have k: "k_myproc me k = Ok (Some p, k\<lparr>k_cpus := upd_at me settle (k_cpus k)\<rparr>)"
    using k_myproc_eq [OF kst_basic(1,2) [OF assms(1)]] assms(2) by simp
  have s0: "stays me [l] k (k\<lparr>k_cpus := upd_at me settle (k_cpus k)\<rparr>)" (is "stays _ _ _ ?k")
    using kst_settle [OF assms(1)] kst_basic(2) [OF assms(1)] by (simp add: stays_def)
  show ?thesis
  proof (cases "l = PtableLock")
    case True
    with k go [of ?k] s0 show ?thesis by (simp add: sleep_def)
  next
    case False
    have "ends (k_acquire me PtableLock ?k)
        (\<lambda>k. ends (k_release me l k) (\<lambda>k. ends (?go k) kinv))"
    proof (rule acquire_ends [OF staysD [OF s0]])
      fix k1 assume 1: "stays me [PtableLock, l] ?k k1"
      show "ends (k_release me l k1) (\<lambda>k. ends (?go k) kinv)"
      proof (rule release_ends [OF staysD [OF 1]])
        fix k2 assume "stays me (remove1 l [PtableLock, l]) k1 k2"
        then have "stays me [PtableLock] k1 k2" using False by simp
        from go [OF stays_trans [OF s0 stays_trans [OF 1 this]]] show "ends (?go k2) kinv" .
      qed simp
    qed (use False in simp)
    with False k show ?thesis by (simp add: sleep_def)
  qed
qed

lemma sched_return_ends:
  assumes "kst me [PtableLock] k" and "\<And>k'. stays me [PtableLock] k k' \<Longrightarrow> k_proc k' = k_proc k \<Longrightarrow>
    k_rest k' = k_rest k \<Longrightarrow> Q k'"
  shows "ends (sched_return me intena k) Q"
proof -
  note b = kst_basic [OF assms(1)]
  let ?k = "k\<lparr>k_cpus := upd_at me (\<lambda>c. c\<lparr>cpu_intena := intena\<rparr>) (k_cpus k)\<rparr>"
  have "kst me [PtableLock] ?k"
    by (rule kst_change [OF assms(1), where f = "\<lambda>c. c\<lparr>cpu_intena := intena\<rparr>"])
      (use b kst_ptable_ok [OF assms(1)] in auto)
  then have "stays me [PtableLock] k ?k" using b by (simp add: stays_def)
  moreover have "mycpu me (k_cpus k) = Ok me" using b by (intro mycpu_nested) auto
  ultimately show ?thesis using assms(2) by (simp add: sched_return_def)
qed

lemma yield_return_ends:
  assumes "kst me [PtableLock] k" and "\<And>k'. stays me [] k k' \<Longrightarrow> Q k'"
  shows "ends (yield_return me intena k) Q"
  unfolding yield_return_def ends_simps
proof (rule sched_return_ends [OF assms(1)])
  fix k1 assume 1: "stays me [PtableLock] k k1"
  show "ends (k_release me PtableLock k1) Q"
    by (rule release_ends [OF staysD [OF 1]]) (use stays_trans [OF 1] assms(2) in auto)
qed

lemma sleep_return_ends:
  assumes "kst me [PtableLock] k" and "\<And>k'. stays me [l] k k' \<Longrightarrow> Q k'"
  shows "ends (sleep_return me l intena p k) Q"
  unfolding sleep_return_def ends_simps Let_def
proof (rule sched_return_ends [OF assms(1)])
  fix k1 assume 1: "stays me [PtableLock] k k1"
  have 2: "stays me [PtableLock] k1 (pupd p (\<lambda>q. q\<lparr>p_chan := None\<rparr>) k1)" (is "stays _ _ _ ?k2")
    by (rule pupd_stays [OF staysD [OF 1]]) (simp add: ptable_ok_def)
  show "ends (if l \<noteq> PtableLock then rbind (k_release me PtableLock ?k2) (k_acquire me l) else Ok ?k2) Q"
  proof (cases "l = PtableLock")
    case True
    with assms(2) [OF stays_trans [OF 1]] 2 show ?thesis by simp
  next
    case False
    have "ends (k_release me PtableLock ?k2) (\<lambda>k. ends (k_acquire me l k) Q)"
    proof (rule release_ends [OF staysD [OF 2]])
      fix k3 assume "stays me (remove1 PtableLock [PtableLock]) ?k2 k3"
      then have 3: "stays me [] ?k2 k3" by simp
      show "ends (k_acquire me l k3) Q"
        by (rule acquire_ends [OF staysD [OF 3]])
          (use assms(2) stays_trans [OF 1 stays_trans [OF 2 stays_trans [OF 3]]] in auto)
    qed simp
    with False show ?thesis by simp
  qed
qed

section \<open>Calls on the process table\<close>

lemma table_call_ends:
  assumes "kst me ls k" and "PtableLock \<notin> set ls"
    and "\<And>k1. stays me (PtableLock # ls) k k1 \<Longrightarrow> k_proc k1 = k_proc k \<Longrightarrow>
      stays me (PtableLock # ls) k1 (f k1)"
    and "\<And>k'. stays me ls k k' \<Longrightarrow> Q k'"
  shows "ends (rbind (k_acquire me PtableLock k) (\<lambda>k. k_release me PtableLock (f k))) Q"
  unfolding ends_simps
proof (rule acquire_ends [OF assms(1,2)])
  fix k1 assume 1: "stays me (PtableLock # ls) k k1" and same: "k_proc k1 = k_proc k"
  note 2 = assms(3) [OF 1 same]
  show "ends (k_release me PtableLock (f k1)) Q"
    by (rule release_ends [OF staysD [OF 2]])
      (use stays_trans [OF stays_trans [OF 1 2]] assms(4) in auto)
qed

lemma kill_ends:
  assumes "kst me [] k" and "\<And>r k'. stays me [] k k' \<Longrightarrow> Q (r, k')"
  shows "ends (kill me pid k) Q"
proof (cases "find_idx (\<lambda>p. p_pid p = pid) (k_proc k)")
  case None
  have "ends (rbind (k_acquire me PtableLock k) (\<lambda>k. k_release me PtableLock (id k))) (\<lambda>k. Q (-1, k))"
    by (rule table_call_ends [OF assms(1)]) (auto intro: stays_refl staysD assms(2))
  then show ?thesis
    unfolding kill_def
    by (simp add: None ends_def kst_acquire(1) [OF assms(1)] rbind_eq_Ok)
next
  case (Some i)
  let ?f = "\<lambda>k. pupd i (\<lambda>q. q\<lparr>p_killed := True,
    p_state := (if p_state q = SLEEPING then RUNNABLE else p_state q)\<rparr>) k"
  have "ends (rbind (k_acquire me PtableLock k) (\<lambda>k. k_release me PtableLock (?f k))) (\<lambda>k. Q (0, k))"
    by (rule table_call_ends [OF assms(1)])
      (auto intro!: pupd_stays assms(2) simp: ptable_ok_def dest: staysD split: if_splits)
  with Some show ?thesis
    unfolding kill_def
    by (simp add: ends_def kst_acquire(1) [OF assms(1)] rbind_eq_Ok Let_def)
qed

lemma settickets_ends:
  assumes "kst me [] k" and "\<And>r k'. stays me [] k k' \<Longrightarrow> Q (r, k')"
  shows "ends (settickets me pid n k) Q"
proof -
  let ?F = "find_idx (\<lambda>p. p_pid p = pid) (k_proc k)"
  let ?f = "\<lambda>k. case ?F of Some i \<Rightarrow> pupd i (\<lambda>q. q\<lparr>p_ticket := n\<rparr>) k | None \<Rightarrow> k"
  have "ends (rbind (k_acquire me PtableLock k) (\<lambda>k. k_release me PtableLock (?f k)))
      (\<lambda>k. Q (if ?F = None then -1 else 0, k))"
    by (rule table_call_ends [OF assms(1)])
      (auto intro!: pupd_stays stays_refl assms(2) simp: ptable_ok_def dest: staysD split: option.splits)
  then show ?thesis
    unfolding settickets_def
    by (simp add: ends_def kst_acquire(1) [OF assms(1)] rbind_eq_Ok Let_def)
qed

lemma getpinfo_ends:
  assumes "kst me [] k" and "\<And>r st k'. stays me [] k k' \<Longrightarrow> Q (r, st, k')"
  shows "ends (getpinfo me k) Q"
proof -
  have "ends (rbind (k_acquire me PtableLock k) (\<lambda>k. k_release me PtableLock (id k)))
      (\<lambda>k'. \<forall>r st. Q (r, st, k'))"
    by (rule table_call_ends [OF assms(1)]) (auto intro: stays_refl staysD assms(2))
  then show ?thesis
    unfolding getpinfo_def
    by (auto simp: ends_def kst_acquire(1) [OF assms(1)] rbind_eq_Ok Let_def)
qed

lemma uptime_ends:
  assumes "kst me [] k" and "\<And>r k'. stays me [] k k' \<Longrightarrow> Q (r, k')"
  shows "ends (sys_uptime me k) Q"
  unfolding sys_uptime_def ends_simps Let_def
proof (rule acquire_ends [OF assms(1)])
  fix k1 assume 1: "stays me [TicksLock] k k1"
  show "ends (k_release me TicksLock k1) (\<lambda>x. Q (k_ticks k1, x))"
    by (rule release_ends [OF staysD [OF 1]]) (use stays_trans [OF 1] assms(2) in auto)
qed simp

lemma timer_tick_ends:
  assumes "kst me [] k" and "\<not> cpu_if (k_cpus k ! me)" and "\<And>k'. stays me [] k k' \<Longrightarrow> Q k'"
  shows "ends (timer_tick me k) Q"
proof -
  have c: "cpuid me (k_cpus k) = Ok me"
    unfolding cpuid_def using kst_basic(1,2) [OF assms(1)] assms(2) by (intro mycpu_nested)
  show ?thesis
  proof (cases "me = 0")
    case False
    with c assms(3) [OF stays_refl [OF assms(1)]] show ?thesis by (simp add: timer_tick_def)
  next
    case True
    have "ends (k_acquire me TicksLock k) (\<lambda>k.
        ends (wakeup me (Some ChTicks) (k\<lparr>k_ticks := k_ticks k + 1\<rparr>)) (\<lambda>k. ends (k_release me TicksLock k) Q))"
    proof (rule acquire_ends [OF assms(1)])
      fix k1 assume 1: "stays me [TicksLock] k k1"
      then have 2: "stays me [TicksLock] k1 (k1\<lparr>k_ticks := k_ticks k1 + 1\<rparr>)" by (simp add: stays_def)
      show "ends (wakeup me (Some ChTicks) (k1\<lparr>k_ticks := k_ticks k1 + 1\<rparr>)) (\<lambda>k. ends (k_release me TicksLock k) Q)"
      proof (rule wakeup_ends [OF staysD [OF 2]])
        fix k3 assume 3: "stays me [TicksLock] (k1\<lparr>k_ticks := k_ticks k1 + 1\<rparr>) k3"
        show "ends (k_release me TicksLock k3) Q"
          by (rule release_ends [OF staysD [OF 3]])
            (use stays_trans [OF 1 stays_trans [OF 2 stays_trans [OF 3]]] assms(3) in auto)
      qed simp
    qed simp
    with True c show ?thesis by (simp add: timer_tick_def)
  qed
qed

section \<open>Creating and ending processes\<close>

text \<open>Changes of the table that keep who runs and keep every slot consistent.\<close>

definition tame :: "proc list \<Rightarrow> proc list \<Rightarrow> bool" where
  "tame ps ps' \<longleftrightarrow> length ps' = length ps \<and>
     (\<forall>p<length ps. (p_state (ps' ! p) = RUNNING \<longleftrightarrow> p_state (ps ! p) = RUNNING) \<and>
        (ptable_ok (ps ! p) \<longrightarrow> ptable_ok (ps' ! p)))"

lemma tame_refl [simp]: "tame ps ps"
  by (simp add: tame_def)

lemma tame_trans: "tame ps ps' \<Longrightarrow> tame ps' ps'' \<Longrightarrow> tame ps ps''"
  by (auto simp: tame_def)

lemma tame_wakeup1: "tame ps (wakeup1 chan ps)"
  by (simp add: tame_def wakeup1_def wakeup1_proc_ok)

lemma tame_upd:
  "(\<And>q. (p_state (f q) = RUNNING \<longleftrightarrow> p_state q = RUNNING) \<and> (ptable_ok q \<longrightarrow> ptable_ok (f q))) \<Longrightarrow>
   tame ps (upd_at i f ps)"
  by (simp add: tame_def nth_upd_at)

lemma tame_reparent: "tame ps (reparent cur init is ps)"
proof (induction "is" arbitrary: ps)
  case Nil
  then show ?case by simp
next
  case (Cons i "is")
  have p: "tame ps (upd_at i (\<lambda>q. q\<lparr>p_parent := init\<rparr>) ps)"
    by (rule tame_upd) (simp add: ptable_ok_def)
  show ?case
    using Cons [of ps] tame_trans [OF p Cons] tame_trans [OF tame_trans [OF p tame_wakeup1] Cons]
    by (simp add: Let_def)
qed

lemma tame_stays: "kst me ls k \<Longrightarrow> tame (k_proc k) ps \<Longrightarrow> stays me ls k (k\<lparr>k_proc := ps\<rparr>)"
  by (rule procs_stays) (auto simp: tame_def kst_ptable_ok)

lemma stays_rest [simp]:
  "stays me ls k (k\<lparr>k_rest := w\<rparr>) \<longleftrightarrow> kst me ls k" "stays me ls k (k\<lparr>k_nextpid := n\<rparr>) \<longleftrightarrow> kst me ls k"
  "stays me ls k (k\<lparr>k_rseed := u\<rparr>) \<longleftrightarrow> kst me ls k" "stays me ls k (k\<lparr>k_initproc := i\<rparr>) \<longleftrightarrow> kst me ls k"
  "stays me ls k (k\<lparr>k_first := b\<rparr>) \<longleftrightarrow> kst me ls k"
  by (simp_all add: stays_def)

lemma allocproc_ends:
  assumes k: "kst me [] k"
    and none: "\<And>k'. stays me [] k k' \<Longrightarrow> Q (None, k')"
    and some: "\<And>p k'. stays me [] k k' \<Longrightarrow> p < length (k_proc k') \<Longrightarrow> p_state (k_proc k' ! p) = EMBRYO \<Longrightarrow>
      p_kstack (k_proc k' ! p) \<noteq> 0 \<Longrightarrow> p_context (k_proc k' ! p) = At_forkret \<Longrightarrow> Q (Some p, k')"
  shows "ends (allocproc ops me k) Q"
  unfolding allocproc_def ends_simps
proof (rule acquire_ends [OF k])
  fix k1 assume 1: "stays me [PtableLock] k k1"
  note K1 = staysD [OF 1]
  show "ends (case find_idx (\<lambda>p. p_state p = UNUSED) (k_proc k1) of
      None \<Rightarrow> rbind (k_release me PtableLock k1) (\<lambda>k. Ok (None, k))
    | Some p \<Rightarrow> let pid = k_nextpid k1;
          k = pupd p (\<lambda>q. q\<lparr>p_state := EMBRYO, p_pid := pid\<rparr>) (k1\<lparr>k_nextpid := pid + 1\<rparr>)
        in rbind (k_release me PtableLock k) (\<lambda>k.
          case op_kalloc ops (k_rest k) of (stack, w) \<Rightarrow>
            let k = pupd p (\<lambda>q. q\<lparr>p_kstack := stack\<rparr>) (k\<lparr>k_rest := w\<rparr>) in
            if stack = 0 then Ok (None, pupd p (\<lambda>q. q\<lparr>p_state := UNUSED\<rparr>) k)
            else Ok (Some p, pupd p (\<lambda>q. q\<lparr>p_context := At_forkret, p_ticket := 1,
              p_boostsleft := 0, p_runTicks := 0, p_sleepTicks := 0, p_sleepTicksCount := 0\<rparr>) k))) Q"
  proof (cases "find_idx (\<lambda>p. p_state p = UNUSED) (k_proc k1)")
    case None
    have "ends (k_release me PtableLock k1) (\<lambda>k. Q (None, k))"
      by (rule release_ends [OF K1]) (use none stays_trans [OF 1] in auto)
    then show ?thesis by (simp add: None)
  next
    case (Some p)
    from find_idx_SomeD [OF this] have p: "p < length (k_proc k1)" "p_state (k_proc k1 ! p) = UNUSED" by auto
    let ?k2 = "pupd p (\<lambda>q. q\<lparr>p_state := EMBRYO, p_pid := k_nextpid k1\<rparr>) (k1\<lparr>k_nextpid := k_nextpid k1 + 1\<rparr>)"
    have 2: "stays me [PtableLock] k1 ?k2"
      using K1 p
      by (intro stays_trans [OF stays_rest(2) [THEN iffD2, OF K1] pupd_stays]) (auto simp: ptable_ok_def)
    have "ends (k_release me PtableLock ?k2) (\<lambda>k.
        ends (case op_kalloc ops (k_rest k) of (stack, w) \<Rightarrow>
            let k = pupd p (\<lambda>q. q\<lparr>p_kstack := stack\<rparr>) (k\<lparr>k_rest := w\<rparr>) in
            if stack = 0 then Ok (None, pupd p (\<lambda>q. q\<lparr>p_state := UNUSED\<rparr>) k)
            else Ok (Some p, pupd p (\<lambda>q. q\<lparr>p_context := At_forkret, p_ticket := 1,
              p_boostsleft := 0, p_runTicks := 0, p_sleepTicks := 0, p_sleepTicksCount := 0\<rparr>) k)) Q)"
    proof (rule release_ends [OF staysD [OF 2]])
      fix k3 assume "stays me (remove1 PtableLock [PtableLock]) ?k2 k3" and ps: "k_proc k3 = k_proc ?k2"
      then have 3: "stays me [] k k3" using stays_trans [OF 1 stays_trans [OF 2]] by simp
      have p3: "p < length (k_proc k3)" "p_state (k_proc k3 ! p) = EMBRYO" using p ps by simp_all
      obtain stack w where sw: "op_kalloc ops (k_rest k3) = (stack, w)" by fastforce
      let ?k4 = "pupd p (\<lambda>q. q\<lparr>p_kstack := stack\<rparr>) (k3\<lparr>k_rest := w\<rparr>)"
      have 4: "stays me [] k ?k4"
        using p3 staysD [OF 3]
        by (intro stays_trans [OF 3] stays_trans [OF stays_rest(1) [THEN iffD2] pupd_stays])
          (auto simp: ptable_ok_def)
      have p4: "p_state (k_proc ?k4 ! p) = EMBRYO" "p_kstack (k_proc ?k4 ! p) = stack"
        using p3 by simp_all
      have 5: "stays me [] k (pupd p (\<lambda>q. q\<lparr>p_state := UNUSED\<rparr>) ?k4)"
        using p4 by (intro stays_trans [OF 4 pupd_stays [OF staysD [OF 4]]]) (auto simp: ptable_ok_def)
      have 6: "stays me [] k (pupd p (\<lambda>q. q\<lparr>p_context := At_forkret, p_ticket := 1,
            p_boostsleft := 0, p_runTicks := 0, p_sleepTicks := 0, p_sleepTicksCount := 0\<rparr>) ?k4)"
        using p4 by (intro stays_trans [OF 4 pupd_stays [OF staysD [OF 4]]]) (auto simp: ptable_ok_def)
      show "ends (case op_kalloc ops (k_rest k3) of (stack, w) \<Rightarrow>
            let k = pupd p (\<lambda>q. q\<lparr>p_kstack := stack\<rparr>) (k3\<lparr>k_rest := w\<rparr>) in
            if stack = 0 then Ok (None, pupd p (\<lambda>q. q\<lparr>p_state := UNUSED\<rparr>) k)
            else Ok (Some p, pupd p (\<lambda>q. q\<lparr>p_context := At_forkret, p_ticket := 1,
              p_boostsleft := 0, p_runTicks := 0, p_sleepTicks := 0, p_sleepTicksCount := 0\<rparr>) k)) Q"
        using sw none [OF 5] some [OF 6] p3 p4 by (cases "stack = 0") (simp_all add: Let_def)
    qed simp
    then show ?thesis by (simp add: Some Let_def)
  qed
qed simp

text \<open>From here on the calls into the other subsystems may fail: if they return, so does the
  handler, and the books are right.\<close>

lemma if_ends_bindI: "(\<And>x. if_ends (f x) Q) \<Longrightarrow> if_ends (rbind m f) Q"
  by (auto intro: if_ends_any)

lemma if_ends_bindI2: "(\<And>x y. if_ends (f (x, y)) Q) \<Longrightarrow> if_ends (rbind m f) Q"
  by (auto intro: if_ends_any)

lemma myproc_if_ends:
  assumes "kst me ls k"
    and "\<And>p k'. cpu_proc (k_cpus k ! me) = Some p \<Longrightarrow> stays me ls k k' \<Longrightarrow> k_proc k' = k_proc k \<Longrightarrow>
      k_rest k' = k_rest k \<Longrightarrow> k_initproc k' = k_initproc k \<Longrightarrow> if_ends (f p k') Q"
  shows "if_ends (with_myproc me k f) Q"
proof (cases "cpu_proc (k_cpus k ! me)")
  case None
  then show ?thesis
    using k_myproc_eq [OF kst_basic(1,2) [OF assms(1)]] by (simp add: with_myproc_def)
next
  case (Some p)
  show ?thesis
    using kst_with_myproc [OF assms(1) Some, of f] kst_settle [OF assms(1)] kst_basic(2) [OF assms(1)]
      assms(2) [OF Some] by (auto simp: stays_def)
qed

lemma growproc_if_ends:
  assumes "kst me [] k" and "\<And>r k'. stays me [] k k' \<Longrightarrow> Q (r, k')"
  shows "if_ends (growproc ops me n k) Q"
  unfolding growproc_def
proof (rule myproc_if_ends [OF assms(1)])
  fix p k1 assume 1: "stays me [] k k1"
  note K = staysD [OF 1]
  have up: "stays me [] k (pupd p (\<lambda>q. q\<lparr>p_sz := sz\<rparr>) (k1\<lparr>k_rest := w\<rparr>))" for sz w
    using K by (intro stays_trans [OF 1] stays_trans [OF stays_rest(1) [THEN iffD2] pupd_stays])
      (auto simp: ptable_ok_def)
  have w: "stays me [] k (k1\<lparr>k_rest := w\<rparr>)" for w
    using stays_trans [OF 1 stays_rest(1) [THEN iffD2, OF K]] .
  have id: "k1\<lparr>k_rest := k_rest k1\<rparr> = k1" by simp
  note up' = up [of _ "k_rest k1", unfolded id]
  have sv: "if_ends (rbind (switchuvm x ps) (\<lambda>_. Ok y)) Q" if "Q y" for x ps y
    using that by (auto intro: if_ends_any)
  show "if_ends (let q = k_proc k1 ! p; sz = p_sz q in
       if 0 < sint n then
         (case op_allocuvm ops (p_pgdir q) sz (sz + n) (k_rest k1) of (sz, w) \<Rightarrow>
            let k = k1\<lparr>k_rest := w\<rparr> in
            if sz = 0 then Ok (-1, k)
            else rbind (switchuvm (Some p) (k_proc k)) (\<lambda>_. Ok (0, pupd p (\<lambda>q. q\<lparr>p_sz := sz\<rparr>) k)))
       else if sint n < 0 then
         (case op_deallocuvm ops (p_pgdir q) sz (sz + n) (k_rest k1) of (sz, w) \<Rightarrow>
            let k = k1\<lparr>k_rest := w\<rparr> in
            if sz = 0 then Ok (-1, k)
            else rbind (switchuvm (Some p) (k_proc k)) (\<lambda>_. Ok (0, pupd p (\<lambda>q. q\<lparr>p_sz := sz\<rparr>) k)))
       else rbind (switchuvm (Some p) (k_proc k1)) (\<lambda>_. Ok (0, pupd p (\<lambda>q. q\<lparr>p_sz := sz\<rparr>) k1))) Q"
    unfolding Let_def
    by (auto intro!: sv assms(2) up up' w simp del: if_ends_simps(5) split: prod.split)
qed

lemma fork_if_ends:
  assumes "kst me [] k" and "\<And>r k'. stays me [] k k' \<Longrightarrow> Q (r, k')"
  shows "if_ends (fork ops me k) Q"
  unfolding fork_def
proof (rule myproc_if_ends [OF assms(1)])
  fix cur k1 assume 1: "stays me [] k k1"
  show "if_ends (rbind (allocproc ops me k1) (\<lambda>(np, k).
       case np of
         None \<Rightarrow> Ok (-1, k)
       | Some np \<Rightarrow>
           let c = k_proc k ! cur in
           case op_copyuvm ops (p_pgdir c) (p_sz c) (k_rest k) of (pgdir, w) \<Rightarrow>
             let k = pupd np (\<lambda>q. q\<lparr>p_pgdir := pgdir\<rparr>) (k\<lparr>k_rest := w\<rparr>) in
             if pgdir = 0 then
               rbind (op_kfree ops (p_kstack (k_proc k ! np)) (k_rest k)) (\<lambda>w.
                 Ok (-1, pupd np (\<lambda>q. q\<lparr>p_kstack := 0, p_state := UNUSED\<rparr>) (k\<lparr>k_rest := w\<rparr>)))
             else
               let k = pupd np (\<lambda>q. q\<lparr>p_sz := p_sz c, p_parent := Some cur,
                         p_tf := (p_tf c)\<lparr>tf_eax := 0\<rparr>, p_ticket := p_ticket c\<rparr>) k
               in rbind (dup_files ops (p_ofile c) (p_ofile (k_proc k ! np)) (k_rest k)) (\<lambda>(fs, w).
                  rbind (op_idup ops (p_cwd c) w) (\<lambda>(cwd, w).
                    let k = pupd np (\<lambda>q. q\<lparr>p_ofile := fs, p_cwd := cwd,
                              p_name := safestrcpy (p_name c) 16\<rparr>) (k\<lparr>k_rest := w\<rparr>);
                        pid = p_pid (k_proc k ! np)
                    in rbind (k_acquire me PtableLock k) (\<lambda>k.
                       rbind (k_release me PtableLock (pupd np (\<lambda>q. q\<lparr>p_state := RUNNABLE\<rparr>) k))
                         (\<lambda>k. Ok (pid, k))))))) Q"
    unfolding if_ends_simps
  proof (rule ends_if_ends, rule allocproc_ends [OF staysD [OF 1]], goal_cases)
    case (1 k2)
    with \<open>stays me [] k k1\<close> show ?case by (auto intro: assms(2) stays_trans)
  next
    case (2 np k2)
    note s2 = stays_trans [OF \<open>stays me [] k k1\<close> 2(1)]
    let ?c = "k_proc k2 ! cur"
    obtain pgdir w where c: "op_copyuvm ops (p_pgdir ?c) (p_sz ?c) (k_rest k2) = (pgdir, w)" by fastforce
    let ?k3 = "pupd np (\<lambda>q. q\<lparr>p_pgdir := pgdir\<rparr>) (k2\<lparr>k_rest := w\<rparr>)"
    have s3: "stays me [] k ?k3"
      using 2(2,3) staysD [OF s2]
      by (intro stays_trans [OF s2] stays_trans [OF stays_rest(1) [THEN iffD2] pupd_stays])
        (auto simp: ptable_ok_def)
    have f3: "np < length (k_proc ?k3)" "p_state (k_proc ?k3 ! np) = EMBRYO" "p_kstack (k_proc ?k3 ! np) \<noteq> 0"
        "p_context (k_proc ?k3 ! np) = At_forkret" "p_pgdir (k_proc ?k3 ! np) = pgdir"
      using 2(2-) by simp_all
    show ?case
    proof (cases "pgdir = 0")
      case True
      have "stays me [] k (pupd np (\<lambda>q. q\<lparr>p_kstack := 0, p_state := UNUSED\<rparr>) (?k3\<lparr>k_rest := w'\<rparr>))" for w'
        using f3(2) staysD [OF s3]
        by (intro stays_trans [OF s3] stays_trans [OF stays_rest(1) [THEN iffD2] pupd_stays])
          (auto simp: ptable_ok_def)
      with True c assms(2) show ?thesis by (auto simp: Let_def intro!: if_ends_any)
    next
      case False
      let ?k4 = "pupd np (\<lambda>q. q\<lparr>p_sz := p_sz ?c, p_parent := Some cur,
        p_tf := (p_tf ?c)\<lparr>tf_eax := 0\<rparr>, p_ticket := p_ticket ?c\<rparr>) ?k3"
      have s4: "stays me [] k ?k4"
        by (rule stays_trans [OF s3 pupd_stays [OF staysD [OF s3]]]) (auto simp: ptable_ok_def)
      have f4: "np < length (k_proc ?k4)" "p_state (k_proc ?k4 ! np) = EMBRYO" "p_kstack (k_proc ?k4 ! np) \<noteq> 0"
          "p_context (k_proc ?k4 ! np) = At_forkret" "p_pgdir (k_proc ?k4 ! np) \<noteq> 0"
        using f3 False by simp_all
      have go: "if_ends (rbind (k_acquire me PtableLock k5) (\<lambda>k.
            rbind (k_release me PtableLock (pupd np (\<lambda>q. q\<lparr>p_state := RUNNABLE\<rparr>) k)) (\<lambda>k. Ok (pid, k)))) Q"
        if k5: "k5 = pupd np (\<lambda>q. q\<lparr>p_ofile := fs, p_cwd := cwd, p_name := nm\<rparr>) (?k4\<lparr>k_rest := w'\<rparr>)"
        for k5 fs cwd nm w' pid
      proof -
        have s5: "stays me [] k k5"
          unfolding k5 using staysD [OF s4]
          by (intro stays_trans [OF s4] stays_trans [OF stays_rest(1) [THEN iffD2] pupd_stays])
            (auto simp: ptable_ok_def)
        have f5: "np < length (k_proc k5)" "p_state (k_proc k5 ! np) = EMBRYO" "p_kstack (k_proc k5 ! np) \<noteq> 0"
          "p_context (k_proc k5 ! np) = At_forkret" "p_pgdir (k_proc k5 ! np) \<noteq> 0"
          using f4 unfolding k5 by simp_all
        have "ends (rbind (k_acquire me PtableLock k5)
            (\<lambda>k. k_release me PtableLock (pupd np (\<lambda>q. q\<lparr>p_state := RUNNABLE\<rparr>) k))) (\<lambda>k. Q (pid, k))"
        proof (rule table_call_ends [OF staysD [OF s5]])
          fix k6 assume "stays me [PtableLock] k5 k6" and "k_proc k6 = k_proc k5"
          then show "stays me [PtableLock] k6 (pupd np (\<lambda>q. q\<lparr>p_state := RUNNABLE\<rparr>) k6)"
            using f5 by (intro pupd_stays [OF staysD]) (auto simp: ptable_ok_def)
        qed (use stays_trans [OF s5] assms(2) in auto)
        then have "ends (rbind (rbind (k_acquire me PtableLock k5)
            (\<lambda>k. k_release me PtableLock (pupd np (\<lambda>q. q\<lparr>p_state := RUNNABLE\<rparr>) k))) (\<lambda>k. Ok (pid, k))) Q"
          by simp
        then show ?thesis unfolding rbind_assoc by (rule ends_if_ends)
      qed
      show ?thesis
        using False
        by (simp only: c Let_def prod.case option.case if_False)
          (rule if_ends_bindI2, simp only: prod.case, rule if_ends_bindI2, simp only: prod.case,
            rule go [OF refl])
    qed
  qed
qed

lemma exit_if_ends:
  assumes "kst me [] k"
  shows "if_ends (trap_exit ops me k) kinv"
  unfolding trap_exit_def exit_proc_def if_ends_simps
proof (rule myproc_if_ends [OF assms])
  fix cur k1
  assume cur: "cpu_proc (k_cpus k ! me) = Some cur" and 1: "stays me [] k k1"
  have go: "if_ends (rbind (k_acquire me PtableLock k2) (\<lambda>k.
       let procs = wakeup1 (ptr_chan (p_parent (k_proc k ! cur))) (k_proc k);
           procs = reparent cur (k_initproc k) [0..<length procs] procs
       in sched me (\<lambda>_. At_exit) (pupd cur (\<lambda>q. q\<lparr>p_state := ZOMBIE\<rparr>) (k\<lparr>k_proc := procs\<rparr>))))
       (\<lambda>x. if_ends (scheduler_back me x) kinv)"
    if k2: "k2 = pupd cur (\<lambda>q. q\<lparr>p_ofile := fs, p_cwd := None\<rparr>) (k1\<lparr>k_rest := w\<rparr>)" for k2 fs w
  proof -
    have 2: "stays me [] k k2"
      unfolding k2 using staysD [OF 1]
      by (intro stays_trans [OF 1] stays_trans [OF stays_rest(1) [THEN iffD2] pupd_stays])
        (auto simp: ptable_ok_def)
    show ?thesis
      unfolding if_ends_simps Let_def
    proof (rule ends_if_ends, rule acquire_ends [OF staysD [OF 2]])
      fix k3 assume 3: "stays me [PtableLock] k2 k3"
      let ?ps = "reparent cur (k_initproc k3) [0..<length (wakeup1 (ptr_chan (p_parent (k_proc k3 ! cur))) (k_proc k3))]
        (wakeup1 (ptr_chan (p_parent (k_proc k3 ! cur))) (k_proc k3))"
      have 4: "stays me [PtableLock] k3 (k3\<lparr>k_proc := ?ps\<rparr>)"
        by (rule tame_stays [OF staysD [OF 3] tame_trans [OF tame_wakeup1 tame_reparent]])
      have c4: "cpu_proc (k_cpus (k3\<lparr>k_proc := ?ps\<rparr>) ! me) = Some cur"
        using stays_proc [OF stays_trans [OF 2 stays_trans [OF 3 4]] cur] .
      note run = kst_running [OF staysD [OF 4] c4]
      have "ptable_ok ((k_proc (k3\<lparr>k_proc := ?ps\<rparr>) ! cur)\<lparr>p_state := ZOMBIE, p_context := At_exit\<rparr>)"
        using kst_ptable_ok [OF staysD [OF 4] run(1)] run(2) by (simp add: ptable_ok_def)
      with switch_out [OF staysD [OF 4] c4, of "\<lambda>q. q\<lparr>p_state := ZOMBIE\<rparr>" "\<lambda>_. At_exit"]
      have "ends (rbind (sched me (\<lambda>_. At_exit) (pupd cur (\<lambda>q. q\<lparr>p_state := ZOMBIE\<rparr>) (k3\<lparr>k_proc := ?ps\<rparr>)))
          (scheduler_back me)) kinv"
        by (auto simp: ends_def simp del: ends_simps)
      from ends_if_ends [OF this]
      show "if_ends (sched me (\<lambda>_. At_exit) (pupd cur (\<lambda>q. q\<lparr>p_state := ZOMBIE\<rparr>) (k3\<lparr>k_proc := ?ps\<rparr>)))
          (\<lambda>x. if_ends (scheduler_back me x) kinv)" by simp
    qed simp
  qed
  show "if_ends (if Some cur = k_initproc k1 then Panic ''init exiting''
       else
         rbind (close_files ops (p_ofile (k_proc k1 ! cur)) (k_rest k1)) (\<lambda>(fs, w).
         rbind (op_iput ops (p_cwd (k_proc k1 ! cur)) w) (\<lambda>w.
           let k = pupd cur (\<lambda>q. q\<lparr>p_ofile := fs, p_cwd := None\<rparr>) (k1\<lparr>k_rest := w\<rparr>) in
           rbind (k_acquire me PtableLock k) (\<lambda>k.
             let procs = wakeup1 (ptr_chan (p_parent (k_proc k ! cur))) (k_proc k);
                 procs = reparent cur (k_initproc k) [0..<length procs] procs
             in sched me (\<lambda>_. At_exit)
                  (pupd cur (\<lambda>q. q\<lparr>p_state := ZOMBIE\<rparr>) (k\<lparr>k_proc := procs\<rparr>))))))
      (\<lambda>x. if_ends (scheduler_back me x) kinv)"
    by (cases "Some cur = k_initproc k1", simp, simp only: if_False)
      (rule if_ends_bindI2, simp only: prod.case, rule if_ends_bindI, simp only: Let_def,
        rule go [unfolded Let_def, OF refl])
qed

lemma wait_scan_zombie:
  "snd (wait_scan cur i ps) = Some j \<Longrightarrow>
   i \<le> j \<and> j < i + length ps \<and> p_state (ps ! (j - i)) = ZOMBIE \<and> p_parent (ps ! (j - i)) = Some cur"
  by (induction ps arbitrary: i) (force split: if_splits simp: nth_Cons')+

text \<open>\<open>wait\<close> with the table locked: it returns, or it has gone to sleep and the CPU is free.\<close>

definition wait_done :: "nat \<Rightarrow> 'w kernel \<Rightarrow> (int32 \<times> 'w kernel \<Rightarrow> bool) \<Rightarrow> int32 option \<times> 'w kernel \<Rightarrow> bool" where
  "wait_done me k0 Q rk \<longleftrightarrow>
     (case rk of (Some v, k) \<Rightarrow> Q (v, k) | (None, k) \<Rightarrow> if_ends (scheduler_back me k) kinv)"

lemma wait_loop_if_ends:
  assumes "kst me [PtableLock] k" and "cpu_proc (k_cpus k ! me) = Some cur"
    and "\<And>v k'. stays me [] k k' \<Longrightarrow> Q (v, k')"
  shows "if_ends (wait_loop ops me cur k) (wait_done me k Q)"
proof -
  obtain kids z where s: "wait_scan cur 0 (k_proc k) = (kids, z)" by fastforce
  show ?thesis
  proof (cases z)
    case None
    show ?thesis
    proof (cases "\<not> kids \<or> p_killed (k_proc k ! cur)")
      case True
      have "if_ends (k_release me PtableLock k) (\<lambda>k'. wait_done me k Q (Some (-1), k'))"
        by (rule ends_if_ends, rule release_ends [OF assms(1)]) (use assms(3) in \<open>auto simp: wait_done_def\<close>)
      with s None True show ?thesis by (simp add: wait_loop_def)
    next
      case False
      from ends_if_ends [OF sleep_ends [OF assms(1,2), of "Some (ChProc cur)"]] False s None
      show ?thesis by (simp add: wait_loop_def wait_done_def)
    qed
  next
    case (Some i)
    with s wait_scan_zombie [of cur 0 "k_proc k" i]
    have i: "i < length (k_proc k)" "p_state (k_proc k ! i) = ZOMBIE" by auto
    have "if_ends (k_release me PtableLock (pupd i reaped (k\<lparr>k_rest := w\<rparr>)))
        (\<lambda>k'. wait_done me k Q (Some v, k'))" for w v
    proof -
      have 1: "stays me [PtableLock] k (pupd i reaped (k\<lparr>k_rest := w\<rparr>))"
        using i assms(1)
        by (intro stays_trans [OF stays_rest(1) [THEN iffD2, OF assms(1)] pupd_stays])
          (auto simp: ptable_ok_def reaped_def)
      show ?thesis
        by (rule ends_if_ends, rule release_ends [OF staysD [OF 1]])
          (use stays_trans [OF 1] assms(3) in \<open>auto simp: wait_done_def\<close>)
    qed
    with s Some show ?thesis by (auto simp: wait_loop_def Let_def intro!: if_ends_any)
  qed
qed

end
