(* ===== verification/Lottery.thy ===== *)
theory Lottery
  imports SchedInv
begin

text \<open>
  P2A, the lottery: which process a random number picks, how often each process wins, that the
  scheduler finds a winner whenever it holds a lottery, and what happens when the ticket count
  does not fit an int.
\<close>

section \<open>Counting in the naturals\<close>

text \<open>The tickets a process plays with: none unless runnable, twice its own when boosted.\<close>

definition nweight :: "proc \<Rightarrow> nat" where
  "nweight p =
     (if p_state p = RUNNABLE
      then (if 0 < sint (p_boostsleft p) then 2 else 1) * nat (sint (p_ticket p)) else 0)"

definition tickets_nonneg :: "proc list \<Rightarrow> bool" where
  "tickets_nonneg ps \<longleftrightarrow> (\<forall>p\<in>set ps. p_state p = RUNNABLE \<longrightarrow> 0 \<le> sint (p_ticket p))"

text \<open>The owner of ticket number \<open>r\<close> when the tickets are handed out in table order.\<close>

fun pick :: "nat \<Rightarrow> nat list \<Rightarrow> nat option" where
  "pick r [] = None"
| "pick r (w # ws) = (if r < w then Some 0 else map_option Suc (pick (r - w) ws))"

lemma pick_None: "pick r ws = None \<longleftrightarrow> sum_list ws \<le> r"
proof (induction ws arbitrary: r)
  case Nil
  then show ?case by simp
next
  case (Cons w ws)
  then show ?case by (cases "r < w") (simp_all add: le_diff_conv2 not_less add.commute)
qed

lemma pick_Some: "pick r ws = Some j \<Longrightarrow> j < length ws \<and> 0 < ws ! j"
  by (induction ws arbitrary: r j) (auto split: if_splits)

lemma pick_card:
  "j < length ws \<Longrightarrow> card {r. r < sum_list ws \<and> pick r ws = Some j} = ws ! j"
proof (induction ws arbitrary: j)
  case Nil
  then show ?case by simp
next
  case (Cons w ws)
  show ?case
  proof (cases j)
    case 0
    have "{r. r < sum_list (w # ws) \<and> pick r (w # ws) = Some 0} = {..<w}"
      by (auto split: if_splits)
    then show ?thesis by (simp add: 0)
  next
    case (Suc i)
    have "{r. r < sum_list (w # ws) \<and> pick r (w # ws) = Some (Suc i)} =
        (\<lambda>r. r + w) ` {r. r < sum_list ws \<and> pick r ws = Some i}"
    proof (intro set_eqI iffI)
      fix r assume "r \<in> {r. r < sum_list (w # ws) \<and> pick r (w # ws) = Some (Suc i)}"
      then have "\<not> r < w" "r - w < sum_list ws" "pick (r - w) ws = Some i"
        by (auto split: if_splits)
      then show "r \<in> (\<lambda>r. r + w) ` {r. r < sum_list ws \<and> pick r ws = Some i}"
        by (intro image_eqI [of _ _ "r - w"]) auto
    qed auto
    moreover have "inj_on (\<lambda>r. r + w) A" for A by (simp add: inj_on_def)
    ultimately show ?thesis using Cons by (simp add: card_image Suc)
  qed
qed

lemma weight_nat:
  assumes "p_state p = RUNNABLE" and "0 \<le> sint (p_ticket p)"
  shows "weight p = of_nat (nweight p)"
proof -
  have "of_nat (nat (sint (p_ticket p))) = p_ticket p"
    using assms(2) by simp
  with assms(1) show ?thesis by (simp add: weight_def nweight_def)
qed

lemma total_tickets_nat:
  "tickets_nonneg ps \<Longrightarrow>
   total_tickets tally ps = tally + of_nat (sum_list (map nweight ps))"
proof (induction ps arbitrary: tally)
  case Nil
  then show ?case by simp
next
  case (Cons p ps)
  have ps: "tickets_nonneg ps" using Cons.prems by (simp add: tickets_nonneg_def)
  show ?case
  proof (cases "p_state p = RUNNABLE")
    case True
    with Cons.prems have "weight p = of_nat (nweight p)"
      by (intro weight_nat) (auto simp: tickets_nonneg_def)
    with True Cons.IH [OF ps] show ?thesis by (simp add: ac_simps)
  next
    case False
    with Cons.IH [OF ps] show ?thesis by (simp add: nweight_def)
  qed
qed

section \<open>The loop\<close>

lemma case_pair_map [simp]:
  "fst (case x of (w, ps) \<Rightarrow> (w, f ps)) = fst x" "snd (case x of (w, ps) \<Rightarrow> (w, f ps)) = f (snd x)"
  by (cases x; simp)+

lemma lottery_loop_won: "fst (lottery_loop number i tally (Some w) ps) = Some w"
  by (induction ps arbitrary: i tally) (simp_all add: Let_def)

definition spend_boost :: "proc \<Rightarrow> proc" where
  "spend_boost p =
     (if p_state p = RUNNABLE \<and> 0 < sint (p_boostsleft p)
      then p\<lparr>p_boostsleft := p_boostsleft p - 1\<rparr> else p)"

lemma lottery_loop_boosts: "snd (lottery_loop number i tally w ps) = map spend_boost ps"
  by (induction ps arbitrary: i tally w) (simp_all add: Let_def spend_boost_def)

lemma lottery_loop_runnable:
  "fst (lottery_loop number i tally None ps) = Some w \<Longrightarrow>
   i \<le> w \<and> w < i + length ps \<and> p_state (ps ! (w - i)) = RUNNABLE"
proof (induction ps arbitrary: i tally)
  case Nil
  then show ?case by simp
next
  case (Cons p ps)
  have step: "i \<le> w \<and> w < i + length (p # ps) \<and> p_state ((p # ps) ! (w - i)) = RUNNABLE"
    if "fst (lottery_loop number (Suc i) t None ps) = Some w" for t
    using Cons.IH [OF that] by (auto simp: nth_Cons')
  show ?case
    using Cons.prems step
    by (auto simp: Let_def lottery_loop_won split: if_splits)
qed

lemma lottery_loop_pick:
  "tickets_nonneg ps \<Longrightarrow> t \<le> r \<Longrightarrow> r < 2 ^ 32 \<Longrightarrow> t + sum_list (map nweight ps) < 2 ^ 32 \<Longrightarrow>
   fst (lottery_loop (of_nat r) i (of_nat t) None ps) =
     map_option ((+) i) (pick (r - t) (map nweight ps))"
proof (induction ps arbitrary: i t)
  case Nil
  then show ?case by simp
next
  case (Cons p ps)
  have ps: "tickets_nonneg ps" using Cons.prems(1) by (simp add: tickets_nonneg_def)
  show ?case
  proof (cases "p_state p = RUNNABLE")
    case True
    with Cons.prems(1) have w: "weight p = of_nat (nweight p)"
      by (intro weight_nat) (auto simp: tickets_nonneg_def)
    have tally: "of_nat t + weight p = (of_nat (t + nweight p) :: 32 word)" by (simp add: w)
    have lt: "(of_nat r < (of_nat (t + nweight p) :: 32 word)) \<longleftrightarrow> r - t < nweight p"
      using Cons.prems(2-4) by (simp add: word_less_nat_alt unat_of_nat_32 del: of_nat_add) auto
    show ?thesis
    proof (cases "r - t < nweight p")
      case True
      then show ?thesis
        using \<open>p_state p = RUNNABLE\<close> lt
        by (simp add: Let_def tally lottery_loop_won del: of_nat_add)
    next
      case False
      then have "t + nweight p \<le> r" using Cons.prems(2) by simp
      from Cons.IH [OF ps this Cons.prems(3), of "Suc i"] Cons.prems(4)
      have ih: "fst (lottery_loop (of_nat r) (Suc i) (of_nat (t + nweight p)) None ps) =
          map_option ((+) (Suc i)) (pick (r - (t + nweight p)) (map nweight ps))"
        by (simp only: list.map sum_list.Cons add.assoc)
      have "(+) (Suc i) = (\<lambda>x. Suc (i + x))" by auto
      with False \<open>p_state p = RUNNABLE\<close> lt ih show ?thesis
        by (simp add: Let_def tally option.map_comp comp_def del: of_nat_add)
    qed
  next
    case False
    then have z: "nweight p = 0" by (simp add: nweight_def)
    have "t + sum_list (map nweight ps) < 2 ^ 32" using Cons.prems(4) z by simp
    note ih = Cons.IH [OF ps Cons.prems(2,3) this, of "Suc i"]
    have "(+) (Suc i) = (\<lambda>x. Suc (i + x))" by auto
    with False z ih show ?thesis by (simp add: option.map_comp comp_def)
  qed
qed

section \<open>Holding the lottery\<close>

lemma map_option_add_0: "map_option ((+) (0::nat)) x = x"
  by (cases x) simp_all

lemma hold_lottery_eq:
  assumes "tickets_nonneg (k_proc k)" and "sum_list (map nweight (k_proc k)) < 2 ^ 31"
    and "0 < sum_list (map nweight (k_proc k))"
  shows "hold_lottery (total_tickets 0 (k_proc k)) k =
    (pick (unat (rand (k_rseed k)) mod sum_list (map nweight (k_proc k))) (map nweight (k_proc k)),
     k\<lparr>k_rseed := rand (k_rseed k), k_proc := map spend_boost (k_proc k)\<rparr>)"
proof -
  let ?T = "sum_list (map nweight (k_proc k))" and ?r = "rand (k_rseed k)"
  have tot: "total_tickets 0 (k_proc k) = of_nat ?T"
    using total_tickets_nat [OF assms(1)] by simp
  have pos: "0 < sint (of_nat ?T :: 32 word)" using assms(2,3) by (simp add: sint_of_nat_32)
  have "?r mod of_nat ?T = of_nat (unat ?r mod ?T)"
    using assms(2) by (simp add: word_arith_nat_mod unat_of_nat_32)
  moreover have "unat ?r mod ?T < ?T" using assms(3) by simp
  then have "unat ?r mod ?T < 2 ^ 32" using assms(2) by simp
  ultimately have "fst (lottery_loop (?r mod of_nat ?T) 0 0 None (k_proc k)) =
      pick (unat ?r mod ?T) (map nweight (k_proc k))"
    using lottery_loop_pick [OF assms(1), of 0 "unat ?r mod ?T" 0] assms(2)
    by (simp add: map_option_add_0)
  with pos show ?thesis
    unfolding tot hold_lottery_def Let_def
    using lottery_loop_boosts [of "?r mod of_nat ?T" 0 0 None "k_proc k"]
    by (simp split: prod.splits) (metis fst_conv snd_conv)
qed

text \<open>
  C2: the lottery is fair. When the tickets in play are positive in number and their total fits an
  int, \<open>hold_lottery\<close>, called as the scheduler calls it, finds a winner; it is the owner of the
  ticket numbered by the random number modulo the total, and of all the ticket numbers each
  process owns as many as it has tickets, twice as many when it is boosted, none when it is not
  runnable. Every runnable process spends one boost.
\<close>

theorem lottery_fair:
  assumes "tickets_nonneg (k_proc k)" and "sum_list (map nweight (k_proc k)) < 2 ^ 31"
    and "0 < sum_list (map nweight (k_proc k))" and "i < length (k_proc k)"
  shows "\<exists>w k'. hold_lottery (total_tickets 0 (k_proc k)) k = (Some w, k') \<and>
    w < length (k_proc k) \<and> p_state (k_proc k ! w) = RUNNABLE \<and>
    pick (unat (rand (k_rseed k)) mod sum_list (map nweight (k_proc k))) (map nweight (k_proc k)) = Some w \<and>
    k_proc k' = map spend_boost (k_proc k) \<and>
    card {r. r < sum_list (map nweight (k_proc k)) \<and> pick r (map nweight (k_proc k)) = Some i} =
      nweight (k_proc k ! i)"
proof -
  let ?ws = "map nweight (k_proc k)"
  obtain w where w: "pick (unat (rand (k_rseed k)) mod sum_list ?ws) ?ws = Some w"
    using pick_None assms(3) by (metis mod_less_divisor not_Some_eq not_le)
  from pick_Some [OF this] have "w < length (k_proc k)" "0 < nweight (k_proc k ! w)" by auto
  moreover from this(2) have "p_state (k_proc k ! w) = RUNNABLE"
    by (auto simp: nweight_def split: if_splits)
  ultimately show ?thesis
    using hold_lottery_eq [OF assms(1-3)] w pick_card [of i ?ws] assms(4) by simp
qed

text \<open>A table with a boosted and an unboosted runnable process.\<close>

definition demo_proc :: "procstate \<Rightarrow> int32 \<Rightarrow> int32 \<Rightarrow> proc" where
  "demo_proc st tickets boosts =
     \<lparr>p_sz = 0, p_pgdir = 4096, p_kstack = 8192, p_state = st, p_pid = 1, p_parent = None,
      p_tf = trapframe_zero, p_context = At_forkret, p_chan = None, p_killed = False,
      p_ofile = replicate NOFILE None, p_cwd = None, p_name = [], p_ticket = tickets,
      p_sleepTicks = 0, p_sleepTicksCount = 0, p_runTicks = 0, p_boostsleft = boosts\<rparr>"

definition demo_kernel :: "proc list \<Rightarrow> unit kernel" where
  "demo_kernel ps =
     \<lparr>k_cpus = [demo_cpu], k_lock = (\<lambda>l. initlock ''lock''), k_proc = ps, k_nextpid = 2,
      k_rseed = 0, k_initproc = Some 0, k_ticks = 0, k_first = False, k_rest = ()\<rparr>"

theorem lottery_fair_witness:
  "let ps = [demo_proc RUNNABLE 1 0, demo_proc SLEEPING 9 9, demo_proc RUNNABLE 2 3] in
   (\<exists>w k'. hold_lottery (total_tickets 0 ps) (demo_kernel ps) = (Some w, k')) \<and>
   card {r. r < sum_list (map nweight ps) \<and> pick r (map nweight ps) = Some 2} = 4"
proof -
  let ?ps = "[demo_proc RUNNABLE 1 0, demo_proc SLEEPING 9 9, demo_proc RUNNABLE 2 3]"
  have w: "map nweight ?ps = [1, 0, 4]" by (simp add: nweight_def demo_proc_def)
  have n: "tickets_nonneg (k_proc (demo_kernel ?ps))"
    by (simp add: tickets_nonneg_def demo_kernel_def demo_proc_def)
  have p: "k_proc (demo_kernel ?ps) = ?ps" by (simp add: demo_kernel_def)
  have c: "nweight (?ps ! 2) = 4" by (simp add: nweight_def demo_proc_def)
  have "sum_list [1, 0, 4] < (2::nat) ^ 31" "0 < sum_list [1, 0, 4::nat]" "2 < length ?ps" by simp_all
  from lottery_fair [of "demo_kernel ?ps" 2, OF n, unfolded p w, OF this]
  have "(\<exists>w k'. hold_lottery (total_tickets 0 ?ps) (demo_kernel ?ps) = (Some w, k')) \<and>
      card {r. r < sum_list [1, 0, 4] \<and> pick r [1, 0, 4] = Some 2} = nweight (?ps ! 2)"
    by (elim exE conjE) (intro conjI exI; assumption)
  then show ?thesis unfolding Let_def w c .
qed

section \<open>The scheduler\<close>

text \<open>
  C35: a ticket total that overflows takes the kernel down. Tickets are ints without an upper bound
  and the scheduler adds them in an int; when the tickets in play sum to between \<open>2^31\<close> and
  \<open>2^32\<close> the total is negative but not zero, the lottery is refused, and the scheduler goes on
  to switch to a null process.
\<close>

theorem scheduler_overflow_panics:
  assumes "cpus_wf (k_cpus k)" and "me < length (k_cpus k)" and "cpu_ncli (k_cpus k ! me) = 0"
    and "locks_free k" and "tickets_nonneg (k_proc k)"
    and "2 ^ 31 \<le> sum_list (map nweight (k_proc k))" and "sum_list (map nweight (k_proc k)) < 2 ^ 32"
  shows "scheduler_pick me k = Panic ''switchuvm: no process''"
proof -
  let ?T = "sum_list (map nweight (k_proc k))"
  have tot: "total_tickets 0 (k_proc k) = of_nat ?T"
    using total_tickets_nat [OF assms(5)] by simp
  have wf: "cpus_wf (upd_at me (\<lambda>c. c\<lparr>cpu_if := True\<rparr>) (k_cpus k))"
    using assms(1,3) by (intro cpus_wf_upd_at) auto
  have "sint (of_nat ?T :: 32 word) = int ?T - 2 ^ 32"
    by (rule sint_of_nat_32_neg [OF assms(6,7)])
  with assms(7) have neg: "sint (of_nat ?T :: 32 word) < 0" by simp
  then have nz: "of_nat ?T \<noteq> (0 :: 32 word)" by auto
  show ?thesis
    using wf assms(2) locks_freeD [OF assms(4), of PtableLock] neg nz
    by (simp add: scheduler_pick_def k_acquire_def sti_def acquire_eq Let_def tot hold_lottery_def
        switchuvm_def)
qed

theorem scheduler_overflow_panics_witness:
  "scheduler_pick 0 (demo_kernel [demo_proc RUNNABLE 0x40000000 0, demo_proc RUNNABLE 0x40000000 0])
     = Panic ''switchuvm: no process''"
  using demo_cpu_wf by (intro scheduler_overflow_panics)
    (simp_all add: demo_kernel_def demo_cpu_def locks_free_def initlock_def
      tickets_nonneg_def demo_proc_def nweight_def)

end
