(* ===== verification/SchedThm.thy ===== *)
theory SchedThm
  imports SchedSafe Lottery
begin

text \<open>
  P2A: the invariant over whole executions. What a CPU does between two quiet points, put together
  from the handlers of \<open>SchedSafe\<close>: the trap paths, the scheduler, the process it resumes.
\<close>

section \<open>Traps\<close>

lemma trap_leave_if_ends: "kst me [] k \<Longrightarrow> if_ends (trap_leave ops me k) kinv"
  unfolding trap_leave_def
  by (rule myproc_if_ends) (auto dest: staysD intro: exit_if_ends kst_return_user)

definition back_ok :: "nat \<Rightarrow> bool \<times> 'w kernel \<Rightarrow> bool" where
  "back_ok me bk \<longleftrightarrow> (if fst bk then kst me [] (snd bk) else kinv (snd bk))"

lemma returned_ok: "kst me [] k \<Longrightarrow> if_ends (returned p v k) (back_ok me)"
  unfolding returned_def set_eax_def
  by (simp add: back_ok_def) (rule kst_pupd, auto simp: ptable_ok_def)

lemma switched_ok: "if_ends (scheduler_back me k) kinv \<Longrightarrow> if_ends (switched me k) (back_ok me)"
  by (auto simp: switched_def back_ok_def if_ends_def rbind_eq_Ok)

lemma sleep_switched:
  assumes "kst me [l] k" and "cpu_proc (k_cpus k ! me) = Some p"
  shows "if_ends (sleep me chan (Some l) k) (\<lambda>k. if_ends (switched me k) (back_ok me))"
  using ends_if_ends [OF sleep_ends [OF assms, of chan]]
  by (auto intro: if_ends_mono switched_ok)

lemma if_ends_done [simp]: "if_ends m (wait_done me k Q) =
    if_ends m (\<lambda>(r, k'). case r of Some v \<Rightarrow> Q (v, k') | None \<Rightarrow> if_ends (scheduler_back me k') kinv)"
  unfolding wait_done_def if_ends_def by (auto split: option.splits)

lemma syscall_if_ends:
  assumes k: "kst me [] k" and p: "cpu_proc (k_cpus k ! me) = Some p"
  shows "if_ends (syscall ops me p c k) (back_ok me)"
proof (cases c)
  case SysFork
  have "if_ends (fork ops me k) (\<lambda>(r, k). if_ends (returned p r k) (back_ok me))"
    by (rule fork_if_ends [OF k]) (auto dest: staysD intro: returned_ok)
  then show ?thesis by (simp add: SysFork case_prod_beta' cong: if_cong)
next
  case SysExit
  from exit_if_ends [OF k] show ?thesis
    by (auto simp: SysExit trap_exit_def intro: if_ends_mono switched_ok)
next
  case SysWait
  have "if_ends (wait ops me k)
      (wait_done me k (\<lambda>(v, k). if_ends (returned p v k) (back_ok me)))"
    unfolding wait_def
  proof (rule myproc_if_ends [OF k])
    fix cur k1 assume cur: "cpu_proc (k_cpus k ! me) = Some cur" and 1: "stays me [] k k1"
    show "if_ends (rbind (k_acquire me PtableLock k1) (wait_loop ops me cur))
        (wait_done me k (\<lambda>(v, k). if_ends (returned p v k) (back_ok me)))"
      unfolding if_ends_simps
    proof (rule ends_if_ends, rule acquire_ends [OF staysD [OF 1]])
      fix k2 assume 2: "stays me [PtableLock] k1 k2"
      have "if_ends (wait_loop ops me cur k2)
          (wait_done me k2 (\<lambda>(v, k). if_ends (returned p v k) (back_ok me)))"
        by (rule wait_loop_if_ends [OF staysD [OF 2] stays_proc [OF stays_trans [OF 1 2] cur]])
          (auto dest: staysD intro: returned_ok)
      then show "if_ends (wait_loop ops me cur k2)
          (wait_done me k (\<lambda>(v, k). if_ends (returned p v k) (back_ok me)))" by simp
    qed simp
  qed
  then show ?thesis
    by (auto simp: SysWait intro!: switched_ok elim!: if_ends_mono split: option.splits)
next
  case (SysKill pid)
  have "if_ends (sys_kill me pid k) (\<lambda>(r, k). if_ends (returned p (of_int r) k) (back_ok me))"
    unfolding sys_kill_def using k
    by (auto split: option.split intro!: returned_ok ends_if_ends [OF kill_ends] dest: staysD)
  then show ?thesis by (simp add: SysKill case_prod_beta')
next
  case SysGetpid
  have "if_ends (sys_getpid me k) (\<lambda>(r, k). if_ends (returned p r k) (back_ok me))"
    unfolding sys_getpid_def
    by (rule myproc_if_ends [OF k]) (auto dest: staysD intro: returned_ok)
  then show ?thesis by (simp add: SysGetpid case_prod_beta')
next
  case (SysSbrk n)
  have "if_ends (sys_sbrk ops me n k) (\<lambda>(r, k). if_ends (returned p r k) (back_ok me))"
  proof (cases n)
    case None
    with k show ?thesis by (simp add: sys_sbrk_def returned_ok)
  next
    case (Some m)
    have "if_ends (with_myproc me k (\<lambda>p k.
        let addr = p_sz (k_proc k ! p) in
        rbind (growproc ops me m k) (\<lambda>(r, k). Ok (if r < 0 then -1 else addr, k))))
        (\<lambda>(r, k). if_ends (returned p r k) (back_ok me))"
    proof (rule myproc_if_ends [OF k])
      fix q k1 assume 1: "stays me [] k k1"
      have "if_ends (growproc ops me m k1) (\<lambda>(r, k). \<forall>v. if_ends (returned p v k) (back_ok me))"
        by (rule growproc_if_ends [OF staysD [OF 1]]) (auto dest: staysD intro: returned_ok)
      then show "if_ends (let addr = p_sz (k_proc k1 ! q) in
          rbind (growproc ops me m k1) (\<lambda>(r, k). Ok (if r < 0 then -1 else addr, k)))
          (\<lambda>(r, k). if_ends (returned p r k) (back_ok me))"
        by (auto simp: Let_def elim!: if_ends_mono)
    qed
    with Some show ?thesis by (simp add: sys_sbrk_def)
  qed
  then show ?thesis by (simp add: SysSbrk case_prod_beta')
next
  case (SysSleep n)
  show ?thesis
  proof (cases n)
    case None
    with k show ?thesis by (simp add: SysSleep sys_sleep_def returned_ok)
  next
    case (Some m)
    have "if_ends (k_acquire me TicksLock k) (\<lambda>k. if_ends (with_myproc me k (\<lambda>p k.
        sleep me (Some ChTicks) (Some TicksLock) (pupd p (\<lambda>q. q\<lparr>p_sleepTicks := m\<rparr>) k)))
        (\<lambda>k. if_ends (switched me k) (back_ok me)))"
    proof (rule ends_if_ends, rule acquire_ends [OF k])
      fix k1 assume 1: "stays me [TicksLock] k k1"
      show "if_ends (with_myproc me k1 (\<lambda>p k.
          sleep me (Some ChTicks) (Some TicksLock) (pupd p (\<lambda>q. q\<lparr>p_sleepTicks := m\<rparr>) k)))
          (\<lambda>k. if_ends (switched me k) (back_ok me))"
      proof (rule myproc_if_ends [OF staysD [OF 1]])
        fix q k2 assume 2: "stays me [TicksLock] k1 k2"
        have 3: "stays me [TicksLock] k2 (pupd q (\<lambda>q. q\<lparr>p_sleepTicks := m\<rparr>) k2)"
          by (rule pupd_stays [OF staysD [OF 2]]) (auto simp: ptable_ok_def)
        show "if_ends (sleep me (Some ChTicks) (Some TicksLock) (pupd q (\<lambda>q. q\<lparr>p_sleepTicks := m\<rparr>) k2))
            (\<lambda>k. if_ends (switched me k) (back_ok me))"
          by (rule sleep_switched [OF staysD [OF 3] stays_proc [OF stays_trans [OF 1 stays_trans [OF 2 3]] p]])
      qed
    qed simp
    then show ?thesis
      by (auto simp: SysSleep Some sys_sleep_def with_myproc_def elim!: if_ends_mono split: option.splits)
  qed
next
  case SysUptime
  have "if_ends (sys_uptime me k) (\<lambda>(r, k). if_ends (returned p r k) (back_ok me))"
    by (rule ends_if_ends, rule uptime_ends [OF k]) (auto dest: staysD intro: returned_ok)
  then show ?thesis by (simp add: SysUptime case_prod_beta')
next
  case (SysSettickets pid n)
  have "if_ends (sys_settickets me pid n k) (\<lambda>(r, k). if_ends (returned p (of_int r) k) (back_ok me))"
    unfolding sys_settickets_def using k
    by (auto split: option.split intro!: returned_ok ends_if_ends [OF settickets_ends] dest: staysD)
  then show ?thesis by (simp add: SysSettickets case_prod_beta')
next
  case (SysSrand seed)
  then show ?thesis
    using k by (cases seed) (auto simp: sys_srand_def intro: returned_ok)
next
  case (SysGetpinfo arg)
  have "if_ends (sys_getpinfo me arg k) (\<lambda>(r, st, k). if_ends (returned p (of_int r) k) (back_ok me))"
  proof (cases arg)
    case True
    have "if_ends (getpinfo me k) (\<lambda>(r, st, k). if_ends (returned p (of_int r) k) (back_ok me))"
      by (rule ends_if_ends, rule getpinfo_ends [OF k]) (auto dest: staysD intro: returned_ok)
    then show ?thesis by (auto simp: sys_getpinfo_def True elim!: if_ends_mono)
  qed (simp add: sys_getpinfo_def returned_ok k)
  then show ?thesis by (auto simp: SysGetpinfo elim!: if_ends_mono)
next
  case (Block chan n)
  have "if_ends (k_acquire me (OtherLock n) k) (\<lambda>k. if_ends (sleep me (Some chan) (Some (OtherLock n)) k)
      (\<lambda>k. if_ends (switched me k) (back_ok me)))"
  proof (rule ends_if_ends, rule acquire_ends [OF k])
    fix k1 assume 1: "stays me [OtherLock n] k k1"
    show "if_ends (sleep me (Some chan) (Some (OtherLock n)) k1) (\<lambda>k. if_ends (switched me k) (back_ok me))"
      by (rule sleep_switched [OF staysD [OF 1] stays_proc [OF 1 p]])
  qed simp
  then show ?thesis by (simp add: Block)
next
  case (Wake chan)
  have "if_ends (wakeup me (Some chan) k) (\<lambda>k. if_ends (returned p 0 k) (back_ok me))"
    by (rule ends_if_ends, rule wakeup_ends [OF k]) (auto dest: staysD intro: returned_ok)
  then show ?thesis by (simp add: Wake)
qed

lemma trap_syscall_if_ends:
  assumes "kst me [] k"
  shows "if_ends (trap_syscall ops me c k) kinv"
  unfolding trap_syscall_def
proof (rule myproc_if_ends [OF assms])
  fix p k1 assume p: "cpu_proc (k_cpus k ! me) = Some p" and 1: "stays me [] k k1"
  have "if_ends (syscall ops me p c k1)
      (\<lambda>(back, k). if_ends (if back then trap_leave ops me k else Ok k) kinv)"
    by (rule if_ends_mono [OF syscall_if_ends [OF staysD [OF 1] stays_proc [OF 1 p]]])
      (auto simp: back_ok_def intro: trap_leave_if_ends split: if_splits)
  then show "if_ends (if p_killed (k_proc k1 ! p) then trap_exit ops me k1
      else rbind (syscall ops me p c k1) (\<lambda>(back, k). if back then trap_leave ops me k else Ok k)) kinv"
    using exit_if_ends [OF staysD [OF 1]] by (simp add: case_prod_beta')
qed

lemma trap_timer_if_ends:
  assumes "kst me [] k"
  shows "if_ends (trap_timer ops me k) kinv"
  unfolding trap_timer_def if_ends_simps
proof (rule ends_if_ends, rule timer_tick_ends [OF kst_cli [OF assms]])
  show "\<not> cpu_if (k_cpus (cli me k) ! me)" using kst_basic(2) [OF assms] by (simp add: cli_def)
next
  fix k1 assume 1: "stays me [] (cli me k) k1"
  let ?k2 = "k1\<lparr>k_cpus := upd_at me settle (k_cpus k1)\<rparr>"
  note K = kst_settle [OF staysD [OF 1]]
  have len: "me < length (k_cpus k1)" using kst_basic(2) [OF staysD [OF 1]] .
  have m: "k_myproc me k1 = Ok (cpu_proc (k_cpus k1 ! me), ?k2)"
    by (rule k_myproc_eq [OF kst_basic(1,2) [OF staysD [OF 1]]])
  show "if_ends (k_myproc me k1) (\<lambda>x. if_ends (case x of (p, k) \<Rightarrow>
      (case p of
         None \<Rightarrow> Ok (return_user me k)
       | Some p \<Rightarrow>
           if p_killed (k_proc k ! p) then trap_exit ops me k
           else if p_state (k_proc k ! p) = RUNNING
           then rbind (yield me k) (scheduler_back me)
           else Ok (return_user me k))) kinv)"
  proof (cases "cpu_proc (k_cpus k1 ! me)")
    case None
    with kst_return_user [OF K] show ?thesis by (simp add: m)
  next
    case (Some p)
    with len have p: "cpu_proc (k_cpus ?k2 ! me) = Some p" by simp
    from ends_if_ends [OF yield_ends [OF K p]] exit_if_ends [OF K, of ops] kst_return_user [OF K] Some
    show ?thesis by (simp add: m)
  qed
qed

lemma trap_fault_if_ends:
  assumes "kst me [] k"
  shows "if_ends (trap_fault ops me k) kinv"
  unfolding trap_fault_def
proof (rule myproc_if_ends [OF kst_cli [OF assms]])
  fix p k1 assume 1: "stays me [] (cli me k) k1"
  show "if_ends (trap_leave ops me (pupd p (\<lambda>q. q\<lparr>p_killed := True\<rparr>) k1)) kinv"
    by (rule trap_leave_if_ends, rule kst_pupd [OF staysD [OF 1]]) (auto simp: ptable_ok_def)
qed

section \<open>The scheduler\<close>

lemma tame_spend: "tame ps (map spend_boost ps)"
  by (auto simp: tame_def spend_boost_def ptable_ok_def)

lemma scheduler_pick_if_ends:
  assumes k: "kst me [] k" and idle: "cpu_proc (k_cpus k ! me) = None"
  shows "if_ends (scheduler_pick me k) (\<lambda>(p, k'). case p of
      None \<Rightarrow> kinv k'
    | Some p \<Rightarrow> kst me [PtableLock] k' \<and> cpu_proc (k_cpus k' ! me) = Some p)"
    (is "if_ends _ ?Q")
proof -
  have 0: "kst me [] (sti me k)" "cpu_proc (k_cpus (sti me k) ! me) = None"
    unfolding sti_def
    by (rule kst_change [OF k, where f = "\<lambda>c. c\<lparr>cpu_if := True\<rparr>"])
      (use kst_basic [OF k] kst_ptable_ok [OF k] idle in auto)
  show ?thesis
    unfolding scheduler_pick_def if_ends_simps Let_def
  proof (rule ends_if_ends, rule acquire_ends [OF 0(1)])
    fix k1 assume 1: "stays me [PtableLock] (sti me k) k1"
    note K1 = staysD [OF 1] and idle1 = stays_proc [OF 1 0(2)]
    let ?total = "total_tickets 0 (k_proc k1)"
    obtain w k2 where l: "hold_lottery ?total k1 = (w, k2)" by fastforce
    have none: "if_ends (rbind (k_release me PtableLock k1) (\<lambda>k. Ok (None, k))) ?Q"
    proof -
      have "if_ends (k_release me PtableLock k1) kinv"
      proof (rule ends_if_ends, rule release_ends [OF K1])
        fix k' assume "stays me (remove1 PtableLock [PtableLock]) k1 k'"
        then have 2: "stays me [] k1 k'" by simp
        show "kinv k'" by (rule kst_kinv [OF staysD [OF 2]]) (simp add: stays_proc [OF 2 idle1])
      qed simp
      then show ?thesis by simp
    qed
    have some: "?Q (Some p, pupd p (\<lambda>q. q\<lparr>p_state := RUNNING, p_runTicks := p_runTicks q + 1\<rparr>)
        (set_cpu_proc me (Some p) k2))"
      if w: "w = Some p" and sv: "switchuvm (Some p) (k_proc (set_cpu_proc me (Some p) k2)) = Ok u" for p u
    proof -
      define r where "r = rand (k_rseed k1)"
      let ?L = "lottery_loop (r mod ?total) 0 0 None (k_proc k1)"
      have eq: "fst ?L = Some p" "k2 = k1\<lparr>k_rseed := r, k_proc := map spend_boost (k_proc k1)\<rparr>"
        using l w lottery_loop_boosts [of "r mod ?total" 0 0 None "k_proc k1"]
        by (auto simp: hold_lottery_def Let_def r_def split: if_splits prod.splits)
      have p: "p < length (k_proc k1)" "p_state (k_proc k1 ! p) = RUNNABLE"
        using lottery_loop_runnable [OF eq(1)] by auto
      have 2: "stays me [PtableLock] (k1\<lparr>k_rseed := r\<rparr>) k2"
        unfolding eq(2) using tame_stays [of me "[PtableLock]" "k1\<lparr>k_rseed := r\<rparr>"] K1 tame_spend by auto
      have k2p: "k_proc k2 ! p = spend_boost (k_proc k1 ! p)" "p < length (k_proc k2)"
        using p(1) by (simp_all add: eq(2))
      have st: "p_state (k_proc k2 ! p) = RUNNABLE" using p(2) by (simp add: k2p spend_boost_def)
      have idle2: "cpu_proc (k_cpus k2 ! me) = None" using idle1 by (simp add: eq(2))
      have ok: "ptable_ok ((k_proc k2 ! p)\<lparr>p_state := RUNNING, p_runTicks := n\<rparr>)" for n
        using kst_ptable_ok [OF staysD [OF 2] k2p(2)] st by (simp add: ptable_ok_def)
      from switch_in [OF staysD [OF 2] idle2 k2p(2) st,
          of "\<lambda>q. q\<lparr>p_state := RUNNING, p_runTicks := p_runTicks q + 1\<rparr>"] ok
      show ?thesis using kst_basic(2) [OF staysD [OF 2]] by (simp add: set_cpu_proc_def)
    qed
    show "if_ends (if ?total = 0 then rbind (k_release me PtableLock k1) (\<lambda>k. Ok (None, k))
        else case hold_lottery ?total k1 of (p, k) \<Rightarrow>
          rbind (switchuvm p (k_proc (set_cpu_proc me p k))) (\<lambda>_.
            Ok (p, pupd (the p) (\<lambda>q. q\<lparr>p_state := RUNNING, p_runTicks := p_runTicks q + 1\<rparr>)
              (set_cpu_proc me p k)))) ?Q"
    proof (cases "?total = 0")
      case True
      with none show ?thesis by simp
    next
      case False
      show ?thesis
      proof (cases w)
        case None
        with False l show ?thesis by (simp add: switchuvm_def)
      next
        case (Some p)
        then show ?thesis using False l some [OF Some] by (auto simp: if_ends_def rbind_eq_Ok)
      qed
    qed
  qed simp
qed

lemma resume_if_ends:
  assumes k: "kst me [PtableLock] k" and p: "cpu_proc (k_cpus k ! me) = Some p"
  shows "if_ends (resume_proc ops me p k) kinv"
proof (cases "p_context (k_proc k ! p)")
  case At_forkret
  have "ends (k_release me PtableLock k) (\<lambda>k. if_ends
      (if k_first k then rbind (op_fsinit ops (k_rest k)) (\<lambda>w. Ok (k\<lparr>k_first := False, k_rest := w\<rparr>))
       else Ok k) (\<lambda>k. kinv (return_user me k)))"
    by (rule release_ends [OF k])
      (auto intro!: if_ends_any kst_return_user dest!: staysD)
  from ends_if_ends [OF this] At_forkret show ?thesis by (simp add: resume_proc_def forkret_def)
next
  case (At_yield intena)
  have "ends (yield_return me intena k) (\<lambda>k. if_ends (trap_leave ops me k) kinv)"
    by (rule yield_return_ends [OF k]) (auto dest: staysD intro: trap_leave_if_ends)
  from ends_if_ends [OF this] At_yield show ?thesis by (simp add: resume_proc_def)
next
  case (At_sleep l intena)
  have eax: "if_ends (trap_leave ops me (set_eax p v k')) kinv" if "kst me [] k'" for v k'
    unfolding set_eax_def
    by (rule trap_leave_if_ends, rule kst_pupd [OF that]) (auto simp: ptable_ok_def)
  show ?thesis
  proof (cases l)
    case PtableLock
    have "if_ends (wait_return ops me intena p k) (wait_done me k
        (\<lambda>(v, k). if_ends (trap_leave ops me (set_eax p v k)) kinv))"
      unfolding wait_return_def if_ends_simps
    proof (rule ends_if_ends, rule sleep_return_ends [OF k])
      fix k1 assume 1: "stays me [PtableLock] k k1"
      have "if_ends (wait_loop ops me p k1) (wait_done me k1
          (\<lambda>(v, k). if_ends (trap_leave ops me (set_eax p v k)) kinv))"
        by (rule wait_loop_if_ends [OF staysD [OF 1] stays_proc [OF 1 p]]) (auto dest: staysD intro: eax)
      then show "if_ends (wait_loop ops me p k1) (wait_done me k
          (\<lambda>(v, k). if_ends (trap_leave ops me (set_eax p v k)) kinv))" by simp
    qed
    then show ?thesis
      by (auto simp: At_sleep PtableLock resume_proc_def elim!: if_ends_mono split: option.splits)
  next
    case TicksLock
    have "ends (sleep_return me TicksLock intena p k) (\<lambda>k.
        ends (k_release me TicksLock k) (\<lambda>k. if_ends (trap_leave ops me (set_eax p 0 k)) kinv))"
    proof (rule sleep_return_ends [OF k])
      fix k1 assume 1: "stays me [TicksLock] k k1"
      show "ends (k_release me TicksLock k1) (\<lambda>k. if_ends (trap_leave ops me (set_eax p 0 k)) kinv)"
        by (rule release_ends [OF staysD [OF 1]]) (auto dest: staysD intro: eax)
    qed
    then have "ends (sys_sleep_return me intena p k)
        (\<lambda>(r, k). if_ends (trap_leave ops me (set_eax p (of_int r) k)) kinv)"
      by (simp add: sys_sleep_return_def)
    from ends_if_ends [OF this] show ?thesis
      by (simp add: At_sleep TicksLock resume_proc_def case_prod_beta')
  next
    case (OtherLock n)
    have "ends (sleep_return me (OtherLock n) intena p k) (\<lambda>k.
        ends (k_release me (OtherLock n) k) (\<lambda>k. if_ends (trap_leave ops me k) kinv))"
    proof (rule sleep_return_ends [OF k])
      fix k1 assume 1: "stays me [OtherLock n] k k1"
      show "ends (k_release me (OtherLock n) k1) (\<lambda>k. if_ends (trap_leave ops me k) kinv)"
        by (rule release_ends [OF staysD [OF 1]]) (auto dest: staysD intro: trap_leave_if_ends)
    qed
    then show ?thesis
      by (auto simp: At_sleep OtherLock resume_proc_def dest!: ends_if_ends elim!: if_ends_mono)
  qed
next
  case At_exit
  then show ?thesis by (simp add: resume_proc_def)
qed

lemma scheduler_round_if_ends:
  assumes "kst me [] k" and "cpu_proc (k_cpus k ! me) = None"
  shows "if_ends (scheduler_round ops me k) kinv"
  unfolding scheduler_round_def if_ends_simps
  by (rule if_ends_mono [OF scheduler_pick_if_ends [OF assms]])
    (auto split: option.splits simp: resume_if_ends)

section \<open>Executions\<close>

lemma kstep_kinv: "kstep ops k k' \<Longrightarrow> kinv k \<Longrightarrow> kinv k'"
proof (induction rule: kstep.induct)
  case (schedule me k k')
  from scheduler_round_if_ends [OF kinv_kst [OF schedule.prems schedule.hyps(1)] schedule.hyps(2)]
    schedule.hyps(3) show ?case by (simp add: if_ends_def)
next
  case (syscall me k p c k')
  from trap_syscall_if_ends [OF kinv_kst [OF syscall.prems syscall.hyps(1)]] syscall.hyps(3)
  show ?case by (simp add: if_ends_def)
next
  case (timer me k k')
  from trap_timer_if_ends [OF kinv_kst [OF timer.prems timer.hyps(1)]] timer.hyps(2)
  show ?case by (simp add: if_ends_def)
next
  case (fault me k p k')
  from trap_fault_if_ends [OF kinv_kst [OF fault.prems fault.hyps(1)]] fault.hyps(3)
  show ?case by (simp add: if_ends_def)
qed

lemma kreach_kinv: "kreach ops k0 k \<Longrightarrow> kinv k0 \<Longrightarrow> kinv k"
  by (induction rule: kreach.induct) (auto intro: kstep_kinv)

section \<open>Properties\<close>

text \<open>
  C1: no execution of the kernel lets the CPUs and the process table disagree. From any state that
  satisfies the invariant, whatever the system calls, timer interrupts, faults and scheduling
  decisions of any number of CPUs and whatever their order, at every quiet point: no process runs on
  two CPUs, the process of a CPU is marked RUNNING and every process so marked has its CPU, all locks
  are free, the counters of disabled interrupts are zero, and a CPU that runs a process has its
  interrupts on.
\<close>

theorem kernel_run_safe:
  assumes "kinv k0" and "kreach ops k0 k"
  shows "(\<forall>i<length (k_cpus k). \<forall>j<length (k_cpus k). \<forall>p.
      cpu_proc (k_cpus k ! i) = Some p \<and> cpu_proc (k_cpus k ! j) = Some p \<longrightarrow> i = j) \<and>
    (\<forall>i<length (k_cpus k). \<forall>p. cpu_proc (k_cpus k ! i) = Some p \<longrightarrow>
      p < length (k_proc k) \<and> p_state (k_proc k ! p) = RUNNING) \<and>
    (\<forall>p<length (k_proc k). p_state (k_proc k ! p) = RUNNING \<longrightarrow>
      (\<exists>i<length (k_cpus k). cpu_proc (k_cpus k ! i) = Some p)) \<and>
    (\<forall>l. \<not> lk_locked (k_lock k l)) \<and>
    (\<forall>i<length (k_cpus k). cpu_ncli (k_cpus k ! i) = 0 \<and>
      (cpu_proc (k_cpus k ! i) \<noteq> None \<longrightarrow> cpu_if (k_cpus k ! i)))"
proof (intro conjI allI impI)
  have inv: "kinv k" by (rule kreach_kinv [OF assms(2,1)])
  then have ag: "agree (k_cpus k) (k_proc k)" and lf: "locks_free k"
    and quiet: "\<And>c. c \<in> set (k_cpus k) \<Longrightarrow> cpu_quiet c" by (simp_all add: kinv_def)
  fix i j p
  show "p < length (k_proc k)" "p_state (k_proc k ! p) = RUNNING"
    if "i < length (k_cpus k)" "cpu_proc (k_cpus k ! i) = Some p"
    using running_unique_cpu [OF ag that] by simp_all
  show "i = j" if ij: "i < length (k_cpus k)" "j < length (k_cpus k)"
    and p: "cpu_proc (k_cpus k ! i) = Some p \<and> cpu_proc (k_cpus k ! j) = Some p"
  proof (rule runs_on_unique [OF _ ij])
    show "runs_on p (k_cpus k) \<le> 1"
      using ag running_unique_cpu [OF ag ij(1)] p by (simp add: agree_def)
  qed (use p in simp_all)
  show "\<exists>i<length (k_cpus k). cpu_proc (k_cpus k ! i) = Some p"
    if "p < length (k_proc k)" "p_state (k_proc k ! p) = RUNNING"
  proof -
    have "runs_on p (k_cpus k) \<noteq> 0" using ag that by (simp add: agree_def)
    then show ?thesis by (auto simp: runs_on_0 in_set_conv_nth)
  qed
  show "\<not> lk_locked (k_lock k l)" for l using lf by (simp add: locks_freeD)
  show "cpu_ncli (k_cpus k ! i) = 0" if "i < length (k_cpus k)"
    using quiet [of "k_cpus k ! i"] that by (simp add: cpu_quiet_def)
  show "cpu_if (k_cpus k ! i)" if "i < length (k_cpus k)" "cpu_proc (k_cpus k ! i) \<noteq> None"
    using quiet [of "k_cpus k ! i"] that by (simp add: cpu_quiet_def)
qed

definition demo_ops :: "unit ops" where
  "demo_ops = \<lparr>op_kalloc = (\<lambda>w. (4096, w)), op_kfree = (\<lambda>a w. Ok w), op_setupkvm = (\<lambda>w. (4096, w)),
     op_inituvm = (\<lambda>a w. Ok w), op_allocuvm = (\<lambda>a b c w. (c, w)), op_deallocuvm = (\<lambda>a b c w. (c, w)),
     op_copyuvm = (\<lambda>a b w. (4096, w)), op_freevm = (\<lambda>a w. Ok w), op_filedup = (\<lambda>f w. Ok (f, w)),
     op_fileclose = (\<lambda>f w. Ok w), op_idup = (\<lambda>i w. Ok (i, w)), op_iput = (\<lambda>i w. Ok w),
     op_namei_root = (\<lambda>w. (None, w)), op_fsinit = (\<lambda>w. Ok w)\<rparr>"

lemma demo_kinv: "kinv (demo_kernel [demo_proc RUNNABLE 1 0])"
  by (simp add: kinv_def demo_kernel_def demo_cpu_def cpus_wf_def cpu_quiet_def locks_free_def
      initlock_def agree_def runs_on_def demo_proc_def ptable_ok_def)

lemma demo_round: "\<exists>k. scheduler_round demo_ops 0 (demo_kernel [demo_proc RUNNABLE 1 0]) = Ok k \<and>
    cpu_proc (k_cpus k ! 0) = Some 0"
proof -
  have r: "rand 0 = 12345" by (simp add: rand_def RAND_MAX_def)
  show ?thesis
    by (simp add: scheduler_round_def scheduler_pick_def k_acquire_def k_release_def acquire_def
        release_def pushcli_def popcli_def holding_def mycpu_def upd_at_def Let_def sti_def
        demo_kernel_def demo_cpu_def initlock_def demo_proc_def weight_def hold_lottery_def r
        switchuvm_def set_cpu_proc_def pupd_def resume_proc_def forkret_def return_user_def)
qed

theorem kernel_run_safe_witness:
  "\<exists>k. kreach demo_ops (demo_kernel [demo_proc RUNNABLE 1 0]) k \<and> cpu_proc (k_cpus k ! 0) = Some 0 \<and>
     (\<forall>l. \<not> lk_locked (k_lock k l))"
proof -
  obtain k where k: "scheduler_round demo_ops 0 (demo_kernel [demo_proc RUNNABLE 1 0]) = Ok k"
      "cpu_proc (k_cpus k ! 0) = Some 0"
    using demo_round by blast
  have "kstep demo_ops (demo_kernel [demo_proc RUNNABLE 1 0]) k"
    by (rule kstep.schedule [OF _ _ k(1)]) (simp_all add: demo_kernel_def demo_cpu_def)
  then have "kreach demo_ops (demo_kernel [demo_proc RUNNABLE 1 0]) k"
    by (rule kreach.step [OF kreach.start])
  with k(2) kernel_run_safe [OF demo_kinv this] show ?thesis by blast
qed

text \<open>
  C33: the calls that only work on the process table never panic and never leave a lock behind. At
  any quiet point, \<open>kill\<close>, \<open>settickets\<close>, \<open>getpinfo\<close>, \<open>uptime\<close>, \<open>wakeup\<close> and the timer
  tick return to their caller, and \<open>yield\<close> and \<open>sleep\<close> on a lock of their own reach the
  scheduler; each leaves the state as the invariant demands.
\<close>

theorem table_calls_return:
  assumes "kinv k" and "me < length (k_cpus k)" and "cpu_proc (k_cpus k ! me) = Some p"
  shows "ends (kill me pid k) (\<lambda>(r, k'). kst me [] k') \<and>
    ends (settickets me pid n k) (\<lambda>(r, k'). kst me [] k') \<and>
    ends (getpinfo me k) (\<lambda>(r, st, k'). kst me [] k') \<and>
    ends (sys_uptime me k) (\<lambda>(r, k'). kst me [] k') \<and>
    ends (wakeup me chan k) (kst me []) \<and>
    ends (timer_tick me (cli me k)) (kst me []) \<and>
    ends (rbind (yield me k) (scheduler_back me)) kinv \<and>
    ends (rbind (k_acquire me (OtherLock m) k) (\<lambda>k.
      rbind (sleep me chan (Some (OtherLock m)) k) (scheduler_back me))) kinv"
proof -
  note k = kinv_kst [OF assms(1,2)]
  have off: "\<not> cpu_if (k_cpus (cli me k) ! me)" using assms(2) by (simp add: cli_def)
  have "ends (k_acquire me (OtherLock m) k)
      (\<lambda>k. ends (rbind (sleep me chan (Some (OtherLock m)) k) (scheduler_back me)) kinv)"
    by (rule acquire_ends [OF k])
      (auto simp del: ends_simps intro: sleep_ends [OF staysD stays_proc [OF _ assms(3)]])
  then show ?thesis
    by (intro conjI) (auto intro!: kill_ends [OF k] settickets_ends [OF k] getpinfo_ends [OF k]
        uptime_ends [OF k] wakeup_ends [OF k] timer_tick_ends [OF kst_cli [OF k] off]
        yield_ends [OF k assms(3)] dest: staysD simp del: ends_simps(5) simp: ends_simps(5) [symmetric])
qed

text \<open>One CPU in the middle of process 0.\<close>

definition demo_running :: "proc list \<Rightarrow> unit kernel" where
  "demo_running ps = (demo_kernel ps)\<lparr>k_cpus := [demo_cpu\<lparr>cpu_proc := Some 0\<rparr>]\<rparr>"

lemma demo_running_kinv: "kinv (demo_running [demo_proc RUNNING 1 0])"
  by (simp add: kinv_def demo_running_def demo_kernel_def demo_cpu_def cpus_wf_def cpu_quiet_def
      locks_free_def initlock_def agree_def runs_on_def demo_proc_def ptable_ok_def)

theorem table_calls_return_witness:
  "ends (kill 0 7 (demo_running [demo_proc RUNNING 1 0])) (\<lambda>(r, k'). kst 0 [] k') \<and>
   ends (rbind (yield 0 (demo_running [demo_proc RUNNING 1 0])) (scheduler_back 0)) kinv"
proof -
  have "0 < length (k_cpus (demo_running [demo_proc RUNNING 1 0]))"
      "cpu_proc (k_cpus (demo_running [demo_proc RUNNING 1 0]) ! 0) = Some 0"
    by (simp_all add: demo_running_def)
  from table_calls_return [OF demo_running_kinv this] show ?thesis by blast
qed

end
