(* ===== verification/ProcFun.thy ===== *)
theory ProcFun
  imports SchedThm
begin

text \<open>
  P2A: what the process calls do to the table: how long a sleeper sleeps, what \<open>exit\<close> leaves to
  its children and its parent, which child \<open>wait\<close> reaps.
\<close>

section \<open>Sleeping for ticks\<close>

lemma wakeups_asleep:
  assumes "p_state p = SLEEPING" and "p_chan p = Some ChTicks" and "p_sleepTicks p = of_int n"
    and "0 \<le> n" and "n < 2 ^ 31" and "p_sleepTicksCount p = of_nat m" and "m + length cs < 2 ^ 31"
  shows "p_state (fold wakeup1_proc cs p) =
    (if \<exists>i<length cs. cs ! i = Some ChTicks \<and> n \<le> int (m + i + 1) then RUNNABLE else SLEEPING)"
  using assms
proof (induction cs arbitrary: p m)
  case Nil
  then show ?case by simp
next
  case (Cons c cs)
  have awake: "p_state (fold wakeup1_proc xs q) = RUNNABLE" if "p_state q = RUNNABLE" for q xs
    using that by (induction xs arbitrary: q) (auto simp: wakeup1_proc_def)
  have n: "sint (of_int n :: 32 word) = n"
    using Cons.prems(4,5) by (simp add: signed_of_int signed_take_bit_int_eq_self)
  have m: "sint (of_nat m + 1 :: 32 word) = int m + 1"
    using Cons.prems(7) sint_of_nat_32 [of "Suc m"] by (simp add: ac_simps)
  have split: "(\<exists>i<length (c # cs). (c # cs) ! i = Some ChTicks \<and> n \<le> int (m + i + 1)) \<longleftrightarrow>
      c = Some ChTicks \<and> n \<le> int m + 1 \<or>
      (\<exists>i<length cs. cs ! i = Some ChTicks \<and> n \<le> int (Suc m + i + 1))"
    by (auto simp: less_Suc_eq_0_disj)
  show ?case
  proof (cases "c = Some ChTicks \<and> n \<le> int m + 1")
    case True
    then have "p_state (wakeup1_proc c p) = RUNNABLE"
      using Cons.prems n m by (simp add: wakeup1_proc_def Let_def)
    with True awake split show ?thesis by simp
  next
    case False
    let ?p = "wakeup1_proc c p"
    have "p_state ?p = SLEEPING" "p_chan ?p = Some ChTicks" "p_sleepTicks ?p = of_int n"
        "p_sleepTicksCount ?p = of_nat (Suc m)"
      using Cons.prems n m False by (auto simp: wakeup1_proc_def Let_def ac_simps)
    from Cons.IH [OF this(1-3) Cons.prems(4,5) this(4)] Cons.prems(7) split False
    show ?thesis by simp
  qed
qed

text \<open>
  A sleeper counts wakeups, not ticks. A process that sleeps for \<open>n\<close> ticks becomes runnable at
  the first tick that is at least the \<open>n\<close>-th call of \<open>wakeup1\<close> on any channel since it fell
  asleep. With only ticks in between that is the \<open>n\<close>-th tick; wakeups on other channels (a pipe,
  the disk, an exiting process) bring it forward, down to the first tick.
\<close>

theorem sleep_counts_wakeups:
  assumes "p_state p = SLEEPING" and "p_chan p = Some ChTicks" and "p_sleepTicks p = of_int n"
    and "0 \<le> n" and "n < 2 ^ 31" and "p_sleepTicksCount p = 0" and "length cs < 2 ^ 31"
  shows "(p_state (fold wakeup1_proc cs p) = RUNNABLE \<longleftrightarrow>
      (\<exists>i<length cs. cs ! i = Some ChTicks \<and> n \<le> int i + 1)) \<and>
    (cs = replicate k (Some ChTicks) \<longrightarrow>
      (p_state (fold wakeup1_proc cs p) = RUNNABLE \<longleftrightarrow> 0 < k \<and> n \<le> int k)) \<and>
    (cs = replicate k other @ [Some ChTicks] \<longrightarrow> n \<le> int k + 1 \<longrightarrow>
      p_state (fold wakeup1_proc cs p) = RUNNABLE)"
proof -
  have main: "p_state (fold wakeup1_proc cs p) = RUNNABLE \<longleftrightarrow>
      (\<exists>i<length cs. cs ! i = Some ChTicks \<and> n \<le> int i + 1)"
    using wakeups_asleep [OF assms(1-5), of 0 cs] assms(6,7) by (simp add: add.commute)
  have "(\<exists>i<k. n \<le> int i + 1) \<longleftrightarrow> 0 < k \<and> n \<le> int k"
  proof
    assume "0 < k \<and> n \<le> int k"
    then show "\<exists>i<k. n \<le> int i + 1" by (intro exI [of _ "k - 1"]) auto
  qed auto
  then have "cs = replicate k (Some ChTicks) \<longrightarrow>
      (p_state (fold wakeup1_proc cs p) = RUNNABLE \<longleftrightarrow> 0 < k \<and> n \<le> int k)"
    unfolding main by auto
  moreover have "cs = replicate k other @ [Some ChTicks] \<longrightarrow> n \<le> int k + 1 \<longrightarrow>
      p_state (fold wakeup1_proc cs p) = RUNNABLE"
    unfolding main by (auto simp: nth_append intro!: exI [of _ k])
  ultimately show ?thesis using main by blast
qed

theorem sleep_counts_wakeups_witness:
  "let p = (demo_proc SLEEPING 1 0)\<lparr>p_chan := Some ChTicks, p_sleepTicks := 3\<rparr> in
   p_state (fold wakeup1_proc (replicate 2 (Some ChTicks)) p) \<noteq> RUNNABLE \<and>
   p_state (fold wakeup1_proc (replicate 2 (Some (ChProc 5)) @ [Some ChTicks]) p) = RUNNABLE"
proof -
  let ?p = "(demo_proc SLEEPING 1 0)\<lparr>p_chan := Some ChTicks, p_sleepTicks := 3\<rparr>"
  have p: "p_state ?p = SLEEPING" "p_chan ?p = Some ChTicks" "p_sleepTicks ?p = of_int 3"
      "(0::int) \<le> 3" "(3::int) < 2 ^ 31" "p_sleepTicksCount ?p = 0"
    by (simp_all add: demo_proc_def)
  from sleep_counts_wakeups [OF p, of "replicate 2 (Some ChTicks)" 2]
    sleep_counts_wakeups [OF p, of "replicate 2 (Some (ChProc 5)) @ [Some ChTicks]" 2 "Some (ChProc 5)"]
  show ?thesis by (simp add: Let_def)
qed

section \<open>Exit\<close>

text \<open>What does not change when processes are woken or handed over.\<close>

lemma wakeup1_parent [simp]:
  "length (wakeup1 c ps) = length ps"
  "i < length ps \<Longrightarrow> p_parent (wakeup1 c ps ! i) = p_parent (ps ! i)"
  "i < length ps \<Longrightarrow> p_state (wakeup1 c ps ! i) = ZOMBIE \<longleftrightarrow> p_state (ps ! i) = ZOMBIE"
  by (auto simp: wakeup1_def wakeup1_proc_def Let_def)

lemma wakeup1_runnable:
  "i < length ps \<Longrightarrow> p_state (ps ! i) = RUNNABLE \<Longrightarrow> p_state (wakeup1 c ps ! i) = RUNNABLE"
  by (simp add: wakeup1_def wakeup1_proc_def)

lemma reparent_length [simp]: "length (reparent cur init is ps) = length ps"
  by (induction "is" arbitrary: ps) (simp_all add: Let_def)

lemma reparent_runnable:
  "i < length ps \<Longrightarrow> p_state (ps ! i) = RUNNABLE \<Longrightarrow> p_state (reparent cur init is ps ! i) = RUNNABLE"
proof (induction "is" arbitrary: ps)
  case Nil
  then show ?case by simp
next
  case (Cons j "is")
  then show ?case by (auto simp: Let_def nth_upd_at wakeup1_runnable)
qed

lemma reparent_parent:
  "init \<noteq> Some cur \<Longrightarrow> q < length ps \<Longrightarrow>
   p_parent (reparent cur init is ps ! q) =
     (if q \<in> set is \<and> p_parent (ps ! q) = Some cur then init else p_parent (ps ! q))"
proof (induction "is" arbitrary: ps)
  case Nil
  then show ?case by simp
next
  case (Cons j "is")
  then show ?case by (auto simp: Let_def nth_upd_at)
qed

text \<open>The table after an exit, and the exit itself at a quiet point.\<close>

definition exit_table :: "nat \<Rightarrow> nat option \<Rightarrow> nat option list \<Rightarrow> proc list \<Rightarrow> proc list" where
  "exit_table cur init fs ps =
     (let ps = upd_at cur (\<lambda>q. q\<lparr>p_ofile := fs, p_cwd := None\<rparr>) ps;
          ps = reparent cur init [0..<length ps] (wakeup1 (ptr_chan (p_parent (ps ! cur))) ps)
      in upd_at cur (\<lambda>q. q\<lparr>p_state := ZOMBIE, p_context := At_exit\<rparr>) ps)"

lemma exit_proc_table:
  assumes k: "kst me [] k" and p: "cpu_proc (k_cpus k ! me) = Some cur"
    and ex: "exit_proc ops me k = Ok k'"
  shows "\<exists>fs. k_proc k' = exit_table cur (k_initproc k) fs (k_proc k) \<and> Some cur \<noteq> k_initproc k"
proof -
  note b = kst_basic [OF k]
  let ?cs = "upd_at me settle (k_cpus k)"
  have k1: "kst me [] (k\<lparr>k_cpus := ?cs\<rparr>)" by (rule kst_settle [OF k])
  from ex obtain fs w w' where init: "Some cur \<noteq> k_initproc k"
    and sch: "rbind (k_acquire me PtableLock (pupd cur (\<lambda>q. q\<lparr>p_ofile := fs, p_cwd := None\<rparr>)
        (k\<lparr>k_cpus := ?cs, k_rest := w'\<rparr>))) (\<lambda>k.
        let procs = wakeup1 (ptr_chan (p_parent (k_proc k ! cur))) (k_proc k);
            procs = reparent cur (k_initproc k) [0..<length procs] procs
        in sched me (\<lambda>_. At_exit) (pupd cur (\<lambda>q. q\<lparr>p_state := ZOMBIE\<rparr>) (k\<lparr>k_proc := procs\<rparr>))) = Ok k'"
    by (auto simp: exit_proc_def with_myproc_eq [OF b(1,2) p] rbind_eq_Ok split: if_splits)
  let ?k2 = "pupd cur (\<lambda>q. q\<lparr>p_ofile := fs, p_cwd := None\<rparr>) (k\<lparr>k_cpus := ?cs, k_rest := w'\<rparr>)"
  have cur: "cur < length (k_proc k)" by (rule kst_running(1) [OF k p])
  have wf: "cpus_wf (k_cpus ?k2)" "me < length (k_cpus ?k2)" "\<not> lk_locked (k_lock ?k2 PtableLock)"
    using b by simp_all
  let ?k3 = "?k2\<lparr>k_lock := taken me PtableLock (k_lock ?k2), k_cpus := upd_at me push1 (k_cpus ?k2)\<rparr>"
  let ?ps = "reparent cur (k_initproc k) [0..<length (k_proc k)]
     (wakeup1 (ptr_chan (p_parent (k_proc ?k2 ! cur))) (k_proc ?k2))"
  let ?k4 = "pupd cur (\<lambda>q. q\<lparr>p_state := ZOMBIE\<rparr>) (?k3\<lparr>k_proc := ?ps\<rparr>)"
  have sch': "sched me (\<lambda>_. At_exit) ?k4 = Ok k'"
    using sch by (simp add: k_acquire_eq [OF wf] Let_def)
  have "sched me (\<lambda>_. At_exit) ?k4 = Ok (pupd cur (\<lambda>q. q\<lparr>p_context := At_exit\<rparr>) ?k4)"
    using b wf p cur by (intro sched_eq) simp_all
  with sch' have "k_proc k' = upd_at cur (\<lambda>q. q\<lparr>p_state := ZOMBIE, p_context := At_exit\<rparr>) ?ps"
    by (auto simp: proc_upd_at_comp)
  with init show ?thesis by (auto simp: exit_table_def Let_def)
qed

text \<open>
  C31: an exit loses nobody. When \<open>exit\<close> gets to the scheduler, the process is a zombie and no child
  of it is left: every child now belongs to init and nobody else has changed parents. A parent that
  sleeps in \<open>wait\<close> is runnable.
\<close>

theorem exit_hands_over:
  assumes "kinv k" and "me < length (k_cpus k)" and "cpu_proc (k_cpus k ! me) = Some cur"
    and "exit_proc ops me k = Ok k'"
  shows "length (k_proc k') = length (k_proc k) \<and> p_state (k_proc k' ! cur) = ZOMBIE \<and>
    (\<forall>q<length (k_proc k). p_parent (k_proc k' ! q) =
      (if p_parent (k_proc k ! q) = Some cur then k_initproc k else p_parent (k_proc k ! q))) \<and>
    (\<forall>q<length (k_proc k). p_parent (k_proc k ! cur) = Some q \<and> q \<noteq> cur \<and>
      p_state (k_proc k ! q) = SLEEPING \<and> p_chan (k_proc k ! q) = Some (ChProc q) \<and>
      sint (p_sleepTicks (k_proc k ! q)) \<le> sint (p_sleepTicksCount (k_proc k ! q) + 1) \<longrightarrow>
      p_state (k_proc k' ! q) = RUNNABLE)"
proof -
  note k = kinv_kst [OF assms(1,2)]
  from exit_proc_table [OF k assms(3,4)] obtain fs where
    tab: "k_proc k' = exit_table cur (k_initproc k) fs (k_proc k)" and init: "k_initproc k \<noteq> Some cur"
    by auto
  have cur: "cur < length (k_proc k)" by (rule kst_running(1) [OF k assms(3)])
  let ?ps = "upd_at cur (\<lambda>q. q\<lparr>p_ofile := fs, p_cwd := None\<rparr>) (k_proc k)"
  have par: "p_parent (k_proc k' ! q) =
      (if p_parent (k_proc k ! q) = Some cur then k_initproc k else p_parent (k_proc k ! q))"
    if "q < length (k_proc k)" for q
    using that init
    by (cases "q = cur") (simp_all add: tab exit_table_def Let_def nth_upd_at reparent_parent)
  have "p_state (k_proc k' ! q) = RUNNABLE"
    if q: "q < length (k_proc k)" "p_parent (k_proc k ! cur) = Some q" "q \<noteq> cur"
      "p_state (k_proc k ! q) = SLEEPING" "p_chan (k_proc k ! q) = Some (ChProc q)"
      "sint (p_sleepTicks (k_proc k ! q)) \<le> sint (p_sleepTicksCount (k_proc k ! q) + 1)" for q
  proof -
    have "p_state (wakeup1 (ptr_chan (p_parent (?ps ! cur))) ?ps ! q) = RUNNABLE"
      using q cur by (simp add: wakeup1_def wakeup1_proc_def Let_def ptr_chan_def)
    then have "p_state (reparent cur (k_initproc k) [0..<length (k_proc k)]
        (wakeup1 (ptr_chan (p_parent (?ps ! cur))) ?ps) ! q) = RUNNABLE"
      using q(1) by (intro reparent_runnable) simp_all
    then show ?thesis using q(3) by (simp add: tab exit_table_def Let_def)
  qed
  moreover have "p_state (k_proc k' ! cur) = ZOMBIE" "length (k_proc k') = length (k_proc k)"
    using cur by (simp_all add: tab exit_table_def Let_def)
  ultimately show ?thesis using par by blast
qed

text \<open>Process 0 exits; process 1 is init and its parent, asleep in \<open>wait\<close>; 2 is its child.\<close>

definition demo_family :: "unit kernel" where
  "demo_family = (demo_running
     [(demo_proc RUNNING 1 0)\<lparr>p_parent := Some 1\<rparr>,
      (demo_proc SLEEPING 1 0)\<lparr>p_chan := Some (ChProc 1), p_context := At_sleep PtableLock True\<rparr>,
      (demo_proc RUNNABLE 1 0)\<lparr>p_parent := Some 0\<rparr>])\<lparr>k_initproc := Some 1\<rparr>"

lemma demo_family_kinv: "kinv demo_family"
  by (simp add: kinv_def demo_family_def demo_running_def demo_kernel_def demo_cpu_def cpus_wf_def
      cpu_quiet_def locks_free_def initlock_def agree_def runs_on_def demo_proc_def ptable_ok_def
      less_Suc_eq) (rule exI [of _ True], rule TrueI)

lemma close_no_files [simp]: "close_files ops (replicate n None) w = Ok (replicate n None, w)"
  by (induction n) simp_all

lemma demo_family_exit: "\<exists>k'. exit_proc demo_ops 0 demo_family = Ok k'"
  by (simp add: exit_proc_def with_myproc_def k_myproc_def myproc_def k_acquire_def acquire_def
      pushcli_def popcli_def holding_def mycpu_def upd_at_def Let_def demo_running_def
      demo_kernel_def demo_cpu_def initlock_def demo_proc_def pupd_def sched_def demo_ops_def NOFILE_def
      upt_rec demo_family_def ptr_chan_def wakeup1_def wakeup1_proc_def)

theorem exit_hands_over_witness:
  "\<exists>k'. exit_proc demo_ops 0 demo_family = Ok k' \<and> p_parent (k_proc k' ! 2) = Some 1 \<and>
     p_state (k_proc k' ! 1) = RUNNABLE"
proof -
  obtain k' where k': "exit_proc demo_ops 0 demo_family = Ok k'" using demo_family_exit by blast
  have c: "0 < length (k_cpus demo_family)" "cpu_proc (k_cpus demo_family ! 0) = Some 0"
    by (simp_all add: demo_family_def demo_running_def)
  have p: "2 < length (k_proc demo_family)" "1 < length (k_proc demo_family)"
      "p_parent (k_proc demo_family ! 2) = Some 0" "k_initproc demo_family = Some 1"
      "p_parent (k_proc demo_family ! 0) = Some 1" "p_state (k_proc demo_family ! 1) = SLEEPING"
      "p_chan (k_proc demo_family ! 1) = Some (ChProc 1)"
      "sint (p_sleepTicks (k_proc demo_family ! 1)) \<le> sint (p_sleepTicksCount (k_proc demo_family ! 1) + 1)"
    by (simp_all add: demo_family_def demo_running_def demo_kernel_def demo_proc_def)
  from exit_hands_over [OF demo_family_kinv c k'] p k' show ?thesis by auto
qed

section \<open>Wait\<close>

lemma wait_scan_spec:
  "wait_scan cur i ps =
    (\<exists>q\<in>set ps. p_parent q = Some cur,
     map_option ((+) i) (find_idx (\<lambda>q. p_parent q = Some cur \<and> p_state q = ZOMBIE) ps))"
proof (induction ps arbitrary: i)
  case Nil
  then show ?case by simp
next
  case (Cons p ps)
  have "(+) (Suc i) = (\<lambda>x. Suc (i + x))" by auto
  with Cons show ?case by (simp add: option.map_comp comp_def)
qed

text \<open>
  C32: \<open>wait\<close> reaps the first zombie child in the table and returns its pid, freeing the slot; with
  no zombie it returns -1 exactly when there are no children or the caller has been killed, and goes
  to sleep on its own slot otherwise.
\<close>

theorem wait_reaps:
  assumes "kst me [PtableLock] k" and "cpu_proc (k_cpus k ! me) = Some cur"
    and "wait_loop ops me cur k = Ok (r, k')"
  shows "(\<forall>i. find_idx (\<lambda>q. p_parent q = Some cur \<and> p_state q = ZOMBIE) (k_proc k) = Some i \<longrightarrow>
      r = Some (p_pid (k_proc k ! i)) \<and> k_proc k' = upd_at i reaped (k_proc k)) \<and>
    ((\<forall>q\<in>set (k_proc k). \<not> (p_parent q = Some cur \<and> p_state q = ZOMBIE)) \<longrightarrow>
      (if (\<forall>q\<in>set (k_proc k). p_parent q \<noteq> Some cur) \<or> p_killed (k_proc k ! cur)
       then r = Some (-1) \<and> k_proc k' = k_proc k
       else r = None \<and> p_state (k_proc k' ! cur) = SLEEPING \<and>
         p_chan (k_proc k' ! cur) = Some (ChProc cur)))"
proof -
  note b = kst_basic [OF assms(1)]
  have rel: "k_proc k2 = k_proc k1"
    if "k_release me l k1 = Ok k2" for l and k1 k2 :: "'a kernel"
    using that by (auto simp: k_release_def rbind_eq_Ok)
  show ?thesis
  proof (cases "find_idx (\<lambda>q. p_parent q = Some cur \<and> p_state q = ZOMBIE) (k_proc k)")
    case (Some i)
    from find_idx_SomeD [OF this] have z: "i < length (k_proc k)"
        "p_parent (k_proc k ! i) = Some cur" "p_state (k_proc k ! i) = ZOMBIE" by auto
    have "r = Some (p_pid (k_proc k ! i)) \<and> k_proc k' = upd_at i reaped (k_proc k)"
      using assms(3) Some by (auto simp: wait_loop_def wait_scan_spec Let_def rbind_eq_Ok dest!: rel)
    with Some z show ?thesis by auto
  next
    case None
    show ?thesis
    proof (cases "(\<forall>q\<in>set (k_proc k). p_parent q \<noteq> Some cur) \<or> p_killed (k_proc k ! cur)")
      case True
      then have "r = Some (-1) \<and> k_proc k' = k_proc k"
        using assms(3) by (auto simp: wait_loop_def wait_scan_spec None rbind_eq_Ok dest!: rel)
      with True show ?thesis by (simp add: None del: find_idx_None)
    next
      case False
      have cur: "cur < length (k_proc k)" by (rule kst_running(1) [OF assms(1,2)])
      let ?k1 = "pupd cur (\<lambda>q. q\<lparr>p_chan := Some (ChProc cur), p_state := SLEEPING\<rparr>)
        (k\<lparr>k_cpus := upd_at me settle (k_cpus k)\<rparr>)"
      have "sleep me (Some (ChProc cur)) (Some PtableLock) k = sched me (At_sleep PtableLock) ?k1"
        using b assms(2) by (simp add: sleep_def k_myproc_eq)
      moreover have "sched me (At_sleep PtableLock) ?k1 =
          Ok (pupd cur (\<lambda>q. q\<lparr>p_context := At_sleep PtableLock (cpu_intena (k_cpus ?k1 ! me))\<rparr>) ?k1)"
        using b assms(2) cur by (intro sched_eq) simp_all
      ultimately have "r = None \<and> p_state (k_proc k' ! cur) = SLEEPING \<and>
          p_chan (k_proc k' ! cur) = Some (ChProc cur)"
        using assms(3) False cur by (auto simp: wait_loop_def wait_scan_spec None)
      with False show ?thesis by (simp add: None del: find_idx_None)
    qed
  qed
qed

text \<open>Process 0 waits and slot 1 is its zombie child.\<close>

definition demo_waiting :: "unit kernel" where
  "demo_waiting = demo_running
     [demo_proc RUNNING 1 0, (demo_proc ZOMBIE 1 0)\<lparr>p_parent := Some 0, p_pid := 7\<rparr>]"

lemma demo_waiting_kinv: "kinv demo_waiting"
  by (simp add: kinv_def demo_waiting_def demo_running_def demo_kernel_def demo_cpu_def cpus_wf_def
      cpu_quiet_def locks_free_def initlock_def agree_def runs_on_def demo_proc_def ptable_ok_def
      less_Suc_eq)

theorem wait_reaps_witness:
  "\<exists>k k'. k_proc k = k_proc demo_waiting \<and> wait_loop demo_ops 0 0 k = Ok (Some 7, k') \<and>
     p_state (k_proc k' ! 1) = UNUSED"
proof -
  have c: "0 < length (k_cpus demo_waiting)" by (simp add: demo_waiting_def demo_running_def)
  have kst: "kst 0 [] demo_waiting" by (rule kinv_kst [OF demo_waiting_kinv c])
  obtain k :: "unit kernel" where k: "kst 0 [PtableLock] k" "k_proc k = k_proc demo_waiting"
      "cpu_proc (k_cpus k ! 0) = Some 0"
  proof -
    have "ends (k_acquire 0 PtableLock demo_waiting) (\<lambda>k. kst 0 [PtableLock] k \<and>
        k_proc k = k_proc demo_waiting \<and> cpu_proc (k_cpus k ! 0) = Some 0)"
      by (rule acquire_ends [OF kst])
        (auto simp: stays_def demo_waiting_def demo_running_def)
    then show ?thesis unfolding ends_def by (elim exE conjE) (rule that; assumption)
  qed
  have z: "find_idx (\<lambda>q. p_parent q = Some 0 \<and> p_state q = ZOMBIE) (k_proc k) = Some 1"
    by (simp add: k(2) demo_waiting_def demo_running_def demo_kernel_def demo_proc_def)
  have s: "wait_scan 0 0 (k_proc k) = (True, Some 1)"
    by (simp add: k(2) demo_waiting_def demo_running_def demo_kernel_def demo_proc_def)
  have len: "1 < length (k_proc k)"
    by (simp add: k(2) demo_waiting_def demo_running_def demo_kernel_def)
  have z1: "p_state (k_proc k ! 1) = ZOMBIE"
    by (simp add: k(2) demo_waiting_def demo_running_def demo_kernel_def demo_proc_def)
  have st: "stays 0 [PtableLock] (k\<lparr>k_rest := ()\<rparr>) (pupd 1 reaped (k\<lparr>k_rest := ()\<rparr>))"
    using k(1) z1 by (intro pupd_stays) (auto simp: reaped_def ptable_ok_def)
  obtain k' where k': "k_release 0 PtableLock (pupd 1 reaped (k\<lparr>k_rest := ()\<rparr>)) = Ok k'"
    using kst_release(1) [OF staysD [OF st], of PtableLock] by auto
  have "wait_loop demo_ops 0 0 k = Ok (Some (p_pid (k_proc k ! 1)), k')"
    using s k' by (simp add: wait_loop_def Let_def demo_ops_def)
  moreover have "p_pid (k_proc k ! 1) = 7"
    by (simp add: k(2) demo_waiting_def demo_running_def demo_kernel_def demo_proc_def)
  ultimately have w: "wait_loop demo_ops 0 0 k = Ok (Some 7, k')" by simp
  from wait_reaps [OF k(1,3) w] z len
  have "k_proc k' = upd_at 1 reaped (k_proc k)" by simp
  with w k(2) len show ?thesis by (intro exI [of _ k] exI [of _ k']) (simp add: reaped_def)
qed

end
