(* ===== verification/Threads.thy ===== *)
theory Threads
  imports SchedInv
begin

text \<open>
  P3B, \<open>proc.c\<close> with kernel threads: \<open>clone\<close> and \<open>join\<close>, and the process calls that have to
  know about threads (\<open>growproc\<close>, \<open>wait\<close>, \<open>fork\<close>, \<open>exit\<close>), with the plain scheduler of that
  kernel. A thread is a process that shares the page table of its parent. The locks, the CPUs
  and the record of the kernel are those of \<open>Proc\<close>, over this kernel's \<open>struct proc\<close>.
\<close>

section \<open>State\<close>

record thread =
  t_sz :: uint
  t_pgdir :: uint
  t_kstack :: uint
  t_state :: procstate
  t_pid :: int32
  t_parent :: "nat option"
  t_tf :: trapframe
  t_context :: resume
  t_chan :: "chan option"
  t_killed :: bool
  t_ofile :: "nat option list"
  t_cwd :: "nat option"
  t_name :: string
  t_stack :: uint

text \<open>A store to a user address goes through the page table the CPU has loaded.\<close>

record 'w tops = "'w ops" +
  op_store :: "uint \<Rightarrow> uint \<Rightarrow> uint \<Rightarrow> 'w \<Rightarrow> 'w res"

type_synonym 'w tkernel = "(thread, 'w) kern"

section \<open>Scheduling\<close>

definition t_switchuvm :: "nat \<Rightarrow> thread list \<Rightarrow> unit res" where
  "t_switchuvm i ts =
     (if t_kstack (ts ! i) = 0 then Panic ''switchuvm: no kstack''
      else if t_pgdir (ts ! i) = 0 then Panic ''switchuvm: no pgdir''
      else Ok ())"

text \<open>
  The loop of the scheduler over the table, from slot \<open>i\<close> with the lock held: it goes on until a
  runnable slot (to which it switches) or the end of the table (where it releases the lock).
\<close>

definition t_scheduler_from :: "nat \<Rightarrow> nat \<Rightarrow> 'w tkernel \<Rightarrow> (nat option \<times> 'w tkernel) res" where
  "t_scheduler_from me i k =
     (case find_idx (\<lambda>p. t_state p = RUNNABLE) (drop i (k_proc k)) of
        None \<Rightarrow> rbind (k_release me PtableLock k) (\<lambda>k. Ok (None, k))
      | Some j \<Rightarrow>
          let p = i + j in
          rbind (t_switchuvm p (k_proc k)) (\<lambda>_.
            Ok (Some p, pupd p (\<lambda>q. q\<lparr>t_state := RUNNING\<rparr>) (set_cpu_proc me (Some p) k))))"

definition t_scheduler_start :: "nat \<Rightarrow> 'w tkernel \<Rightarrow> (nat option \<times> 'w tkernel) res" where
  "t_scheduler_start me k = rbind (k_acquire me PtableLock (sti me k)) (t_scheduler_from me 0)"

definition t_scheduler_back :: "nat \<Rightarrow> nat \<Rightarrow> 'w tkernel \<Rightarrow> (nat option \<times> 'w tkernel) res" where
  "t_scheduler_back me p k = t_scheduler_from me (Suc p) (set_cpu_proc me None k)"

definition t_sched :: "nat \<Rightarrow> (bool \<Rightarrow> resume) \<Rightarrow> 'w tkernel \<Rightarrow> 'w tkernel res" where
  "t_sched me where_to k =
     rbind (k_myproc me k) (\<lambda>(p, k).
     rbind (holding me (k_lock k PtableLock) (k_cpus k)) (\<lambda>(h, cs).
       let k = k\<lparr>k_cpus := cs\<rparr> in
       if \<not> h then Panic ''sched ptable.lock''
       else rbind (mycpu me (k_cpus k)) (\<lambda>c.
         if cpu_ncli (k_cpus k ! c) \<noteq> 1 then Panic ''sched locks''
         else (case p of
           None \<Rightarrow> Undef
         | Some p \<Rightarrow>
             if t_state (k_proc k ! p) = RUNNING then Panic ''sched running''
             else if cpu_if (k_cpus k ! me) then Panic ''sched interruptible''
             else Ok (pupd p (\<lambda>q. q\<lparr>t_context := where_to (cpu_intena (k_cpus k ! c))\<rparr>) k)))))"

definition t_yield :: "nat \<Rightarrow> 'w tkernel \<Rightarrow> 'w tkernel res" where
  "t_yield me k =
     rbind (k_acquire me PtableLock k) (\<lambda>k.
     with_myproc me k (\<lambda>p k.
       t_sched me At_yield (pupd p (\<lambda>q. q\<lparr>t_state := RUNNABLE\<rparr>) k)))"

definition t_sleep :: "nat \<Rightarrow> chan option \<Rightarrow> lockid option \<Rightarrow> 'w tkernel \<Rightarrow> 'w tkernel res" where
  "t_sleep me chan lk k =
     rbind (k_myproc me k) (\<lambda>(p, k).
       case p of
         None \<Rightarrow> Panic ''sleep''
       | Some p \<Rightarrow>
           (case lk of
              None \<Rightarrow> Panic ''sleep without lk''
            | Some l \<Rightarrow>
                rbind (if l \<noteq> PtableLock then
                         rbind (k_acquire me PtableLock k) (k_release me l)
                       else Ok k)
                  (\<lambda>k. t_sched me (At_sleep l)
                     (pupd p (\<lambda>q. q\<lparr>t_chan := chan, t_state := SLEEPING\<rparr>) k))))"

definition t_sleep_return :: "nat \<Rightarrow> lockid \<Rightarrow> bool \<Rightarrow> nat \<Rightarrow> 'w tkernel \<Rightarrow> 'w tkernel res" where
  "t_sleep_return me l intena p k =
     rbind (sched_return me intena k) (\<lambda>k.
       let k = pupd p (\<lambda>q. q\<lparr>t_chan := None\<rparr>) k in
       if l \<noteq> PtableLock then rbind (k_release me PtableLock k) (k_acquire me l) else Ok k)"

definition t_wakeup1 :: "chan option \<Rightarrow> thread list \<Rightarrow> thread list" where
  "t_wakeup1 chan ts =
     map (\<lambda>p. if t_state p = SLEEPING \<and> t_chan p = chan then p\<lparr>t_state := RUNNABLE\<rparr> else p) ts"

definition t_wakeup :: "nat \<Rightarrow> chan option \<Rightarrow> 'w tkernel \<Rightarrow> 'w tkernel res" where
  "t_wakeup me chan k =
     rbind (k_acquire me PtableLock k) (\<lambda>k.
       k_release me PtableLock (k\<lparr>k_proc := t_wakeup1 chan (k_proc k)\<rparr>))"

section \<open>Creating\<close>

definition t_allocproc :: "'w tops \<Rightarrow> nat \<Rightarrow> 'w tkernel \<Rightarrow> (nat option \<times> 'w tkernel) res" where
  "t_allocproc ops me k =
     rbind (k_acquire me PtableLock k) (\<lambda>k.
     case find_idx (\<lambda>p. t_state p = UNUSED) (k_proc k) of
       None \<Rightarrow> rbind (k_release me PtableLock k) (\<lambda>k. Ok (None, k))
     | Some p \<Rightarrow>
         let pid = k_nextpid k;
             k = pupd p (\<lambda>q. q\<lparr>t_state := EMBRYO, t_pid := pid, t_stack := 0\<rparr>)
                   (k\<lparr>k_nextpid := pid + 1\<rparr>)
         in rbind (k_release me PtableLock k) (\<lambda>k.
           case op_kalloc ops (k_rest k) of (kstack, w) \<Rightarrow>
             let k = pupd p (\<lambda>q. q\<lparr>t_kstack := kstack\<rparr>) (k\<lparr>k_rest := w\<rparr>) in
             if kstack = 0 then Ok (None, pupd p (\<lambda>q. q\<lparr>t_state := UNUSED\<rparr>) k)
             else Ok (Some p, pupd p (\<lambda>q. q\<lparr>t_context := At_forkret\<rparr>) k)))"

definition t_growproc :: "'w tops \<Rightarrow> nat \<Rightarrow> int32 \<Rightarrow> 'w tkernel \<Rightarrow> (int \<times> 'w tkernel) res" where
  "t_growproc ops me n k =
     with_myproc me k (\<lambda>p k.
       let q = k_proc k ! p;
           r = (if 0 < sint n then op_allocuvm ops (t_pgdir q) (t_sz q) (t_sz q + n) (k_rest k)
                else if sint n < 0 then op_deallocuvm ops (t_pgdir q) (t_sz q) (t_sz q + n) (k_rest k)
                else (t_sz q, k_rest k));
           k = k\<lparr>k_rest := snd r\<rparr>
       in if sint n \<noteq> 0 \<and> fst r = 0 then Ok (-1, k)
          else
            let k = pupd p (\<lambda>q. q\<lparr>t_sz := fst r\<rparr>) k;
                k = k\<lparr>k_proc := map (\<lambda>t. if t_pgdir t = t_pgdir q then t\<lparr>t_sz := fst r\<rparr> else t) (k_proc k)\<rparr>
            in rbind (t_switchuvm p (k_proc k)) (\<lambda>_. Ok (0, k)))"

definition t_fork :: "'w tops \<Rightarrow> nat \<Rightarrow> 'w tkernel \<Rightarrow> (int32 \<times> 'w tkernel) res" where
  "t_fork ops me k =
     with_myproc me k (\<lambda>cur k.
     rbind (t_allocproc ops me k) (\<lambda>(np, k).
       case np of
         None \<Rightarrow> Ok (-1, k)
       | Some np \<Rightarrow>
           let c = k_proc k ! cur in
           case op_copyuvm ops (t_pgdir c) (t_sz c) (k_rest k) of (pgdir, w) \<Rightarrow>
             let k = pupd np (\<lambda>q. q\<lparr>t_pgdir := pgdir\<rparr>) (k\<lparr>k_rest := w\<rparr>) in
             if pgdir = 0 then
               rbind (op_kfree ops (t_kstack (k_proc k ! np)) (k_rest k)) (\<lambda>w.
                 Ok (-1, pupd np (\<lambda>q. q\<lparr>t_kstack := 0, t_state := UNUSED\<rparr>) (k\<lparr>k_rest := w\<rparr>)))
             else
               let k = pupd np (\<lambda>q. q\<lparr>t_sz := t_sz c, t_parent := Some cur,
                         t_tf := (t_tf c)\<lparr>tf_eax := 0\<rparr>\<rparr>) k
               in rbind (dup_files (ops.truncate ops) (t_ofile c) (t_ofile (k_proc k ! np)) (k_rest k)) (\<lambda>(fs, w).
                  rbind (op_idup ops (t_cwd c) w) (\<lambda>(cwd, w).
                    let k = pupd np (\<lambda>q. q\<lparr>t_ofile := fs, t_cwd := cwd,
                              t_name := safestrcpy (t_name c) 16\<rparr>) (k\<lparr>k_rest := w\<rparr>);
                        pid = t_pid (k_proc k ! np)
                    in rbind (k_acquire me PtableLock k) (\<lambda>k.
                       rbind (k_release me PtableLock (pupd np (\<lambda>q. q\<lparr>t_state := RUNNABLE\<rparr>) k))
                         (\<lambda>k. Ok (pid, k)))))))"

text \<open>
  \<open>clone\<close>: the stack must be page-aligned and a page of it must lie below \<open>sz\<close> (the difference
  is unsigned); the two arguments and a fake return address go to the top of the page.
\<close>

definition clone ::
  "'w tops \<Rightarrow> nat \<Rightarrow> uint \<Rightarrow> uint \<Rightarrow> uint \<Rightarrow> uint \<Rightarrow> 'w tkernel \<Rightarrow> (int32 \<times> 'w tkernel) res" where
  "clone ops me fcn arg1 arg2 stack k =
     with_myproc me k (\<lambda>cur k.
       if stack mod PGSIZE \<noteq> 0 then Ok (-1, k)
       else if t_sz (k_proc k ! cur) - stack < PGSIZE then Ok (-1, k)
       else rbind (t_allocproc ops me k) (\<lambda>(np, k).
         case np of
           None \<Rightarrow> Ok (-1, k)
         | Some np \<Rightarrow>
             let c = k_proc k ! cur;
                 tos = stack + PGSIZE;
                 tf = (t_tf c)\<lparr>tf_eax := 0, tf_eip := fcn, tf_esp := tos - 12, tf_ebp := tos - 12\<rparr>;
                 k = pupd np (\<lambda>q. q\<lparr>t_pgdir := t_pgdir c, t_sz := t_sz c, t_parent := Some cur,
                       t_tf := tf, t_stack := stack\<rparr>) k
             in rbind (op_store ops (t_pgdir c) (tos - 4) arg2 (k_rest k)) (\<lambda>w.
                rbind (op_store ops (t_pgdir c) (tos - 8) arg1 w) (\<lambda>w.
                rbind (op_store ops (t_pgdir c) (tos - 12) 0xffffffff w) (\<lambda>w.
                rbind (dup_files (ops.truncate ops) (t_ofile c) (t_ofile (k_proc k ! np)) w) (\<lambda>(fs, w).
                rbind (op_idup ops (t_cwd c) w) (\<lambda>(cwd, w).
                  let k = pupd np (\<lambda>q. q\<lparr>t_ofile := fs, t_cwd := cwd,
                            t_name := safestrcpy (t_name c) 16\<rparr>) (k\<lparr>k_rest := w\<rparr>);
                      pid = t_pid (k_proc k ! np)
                  in rbind (k_acquire me PtableLock k) (\<lambda>k.
                     rbind (k_release me PtableLock (pupd np (\<lambda>q. q\<lparr>t_state := RUNNABLE\<rparr>) k))
                       (\<lambda>k. Ok (pid, pupd np (\<lambda>q. q\<lparr>t_name :=
                          safestrcpy (t_name (k_proc k ! cur)) 16\<rparr>) k))))))))))"

section \<open>Ending\<close>

fun t_reparent :: "nat \<Rightarrow> nat option \<Rightarrow> nat list \<Rightarrow> thread list \<Rightarrow> thread list" where
  "t_reparent cur init [] ts = ts"
| "t_reparent cur init (i # is) ts =
     t_reparent cur init is
       (if t_parent (ts ! i) = Some cur then
          let ts = upd_at i (\<lambda>q. q\<lparr>t_parent := init\<rparr>) ts in
          if t_state (ts ! i) = ZOMBIE then t_wakeup1 (ptr_chan init) ts else ts
        else ts)"

definition t_exit :: "'w tops \<Rightarrow> nat \<Rightarrow> 'w tkernel \<Rightarrow> 'w tkernel res" where
  "t_exit ops me k =
     with_myproc me k (\<lambda>cur k.
       if Some cur = k_initproc k then Panic ''init exiting''
       else
         rbind (close_files (ops.truncate ops) (t_ofile (k_proc k ! cur)) (k_rest k)) (\<lambda>(fs, w).
         rbind (op_iput ops (t_cwd (k_proc k ! cur)) w) (\<lambda>w.
           let k = pupd cur (\<lambda>q. q\<lparr>t_ofile := fs, t_cwd := None\<rparr>) (k\<lparr>k_rest := w\<rparr>) in
           rbind (k_acquire me PtableLock k) (\<lambda>k.
             let ts = t_wakeup1 (ptr_chan (t_parent (k_proc k ! cur))) (k_proc k);
                 ts = t_reparent cur (k_initproc k) [0..<length ts] ts
             in t_sched me (\<lambda>_. At_exit)
                  (pupd cur (\<lambda>q. q\<lparr>t_state := ZOMBIE\<rparr>) (k\<lparr>k_proc := ts\<rparr>))))))"

text \<open>The children \<open>wait\<close> looks at, and those \<open>join\<close> looks at.\<close>

definition is_child :: "nat \<Rightarrow> thread \<Rightarrow> thread \<Rightarrow> bool" where
  "is_child cur c p \<longleftrightarrow> \<not> (t_parent p \<noteq> Some cur \<or> t_pgdir p = t_pgdir c)"

definition is_thread :: "nat \<Rightarrow> thread \<Rightarrow> thread \<Rightarrow> bool" where
  "is_thread cur c p \<longleftrightarrow> \<not> (t_parent p \<noteq> Some cur \<or> t_pid p = t_pid c \<or> t_pgdir p \<noteq> t_pgdir c)"

fun t_scan :: "(thread \<Rightarrow> bool) \<Rightarrow> nat \<Rightarrow> thread list \<Rightarrow> bool \<times> nat option" where
  "t_scan want i [] = (False, None)"
| "t_scan want i (p # ps) =
     (if \<not> want p then t_scan want (Suc i) ps
      else if t_state p = ZOMBIE then (True, Some i)
      else (True, snd (t_scan want (Suc i) ps)))"

definition t_reaped :: "thread \<Rightarrow> thread" where
  "t_reaped q = q\<lparr>t_kstack := 0, t_pid := 0, t_parent := None, t_name := [], t_killed := False,
                 t_state := UNUSED\<rparr>"

definition t_wait_loop ::
  "'w tops \<Rightarrow> nat \<Rightarrow> nat \<Rightarrow> 'w tkernel \<Rightarrow> (int32 option \<times> 'w tkernel) res" where
  "t_wait_loop ops me cur k =
     (case t_scan (is_child cur (k_proc k ! cur)) 0 (k_proc k) of
        (havekids, Some i) \<Rightarrow>
          let q = k_proc k ! i in
          rbind (op_kfree ops (t_kstack q) (k_rest k)) (\<lambda>w.
          rbind (op_freevm ops (t_pgdir q) w) (\<lambda>w.
          rbind (k_release me PtableLock (pupd i t_reaped (k\<lparr>k_rest := w\<rparr>)))
            (\<lambda>k. Ok (Some (t_pid q), k))))
      | (havekids, None) \<Rightarrow>
          if \<not> havekids \<or> t_killed (k_proc k ! cur) then
            rbind (k_release me PtableLock k) (\<lambda>k. Ok (Some (-1), k))
          else rbind (t_sleep me (Some (ChProc cur)) (Some PtableLock) k) (\<lambda>k. Ok (None, k)))"

definition t_wait :: "'w tops \<Rightarrow> nat \<Rightarrow> 'w tkernel \<Rightarrow> (int32 option \<times> 'w tkernel) res" where
  "t_wait ops me k =
     with_myproc me k (\<lambda>cur k. rbind (k_acquire me PtableLock k) (t_wait_loop ops me cur))"

text \<open>\<open>join(stack)\<close>: the stack of the thread is stored at the user address \<open>stack\<close>.\<close>

definition join_loop ::
  "'w tops \<Rightarrow> nat \<Rightarrow> nat \<Rightarrow> uint \<Rightarrow> 'w tkernel \<Rightarrow> (int32 option \<times> 'w tkernel) res" where
  "join_loop ops me cur stack k =
     (case t_scan (is_thread cur (k_proc k ! cur)) 0 (k_proc k) of
        (havethreads, Some i) \<Rightarrow>
          let q = k_proc k ! i in
          rbind (op_kfree ops (t_kstack q) (k_rest k)) (\<lambda>w.
          rbind (op_store ops (t_pgdir (k_proc k ! cur)) stack (t_stack q) w) (\<lambda>w.
          rbind (k_release me PtableLock (pupd i t_reaped (k\<lparr>k_rest := w\<rparr>)))
            (\<lambda>k. Ok (Some (t_pid q), k))))
      | (havethreads, None) \<Rightarrow>
          if \<not> havethreads \<or> t_killed (k_proc k ! cur) then
            rbind (k_release me PtableLock k) (\<lambda>k. Ok (Some (-1), k))
          else rbind (t_sleep me (Some (ChProc cur)) (Some PtableLock) k) (\<lambda>k. Ok (None, k)))"

definition join :: "'w tops \<Rightarrow> nat \<Rightarrow> uint \<Rightarrow> 'w tkernel \<Rightarrow> (int32 option \<times> 'w tkernel) res" where
  "join ops me stack k =
     with_myproc me k (\<lambda>cur k. rbind (k_acquire me PtableLock k) (join_loop ops me cur stack))"

definition t_kill :: "nat \<Rightarrow> int32 \<Rightarrow> 'w tkernel \<Rightarrow> (int \<times> 'w tkernel) res" where
  "t_kill me pid k =
     rbind (k_acquire me PtableLock k) (\<lambda>k.
     case find_idx (\<lambda>p. t_pid p = pid) (k_proc k) of
       Some i \<Rightarrow>
         let k = pupd i (\<lambda>q. q\<lparr>t_killed := True,
                   t_state := (if t_state q = SLEEPING then RUNNABLE else t_state q)\<rparr>) k
         in rbind (k_release me PtableLock k) (\<lambda>k. Ok (0, k))
     | None \<Rightarrow> rbind (k_release me PtableLock k) (\<lambda>k. Ok (-1, k)))"

section \<open>System calls\<close>

text \<open>The arguments are what \<open>argptr\<close> fetched; any argument that fails makes the call fail.\<close>

definition sys_clone ::
  "'w tops \<Rightarrow> nat \<Rightarrow> uint option \<Rightarrow> uint option \<Rightarrow> uint option \<Rightarrow> uint option \<Rightarrow> 'w tkernel \<Rightarrow>
   (int32 \<times> 'w tkernel) res" where
  "sys_clone ops me fcn arg1 arg2 stack k =
     (case (fcn, arg1, arg2, stack) of
        (Some f, Some a, Some b, Some s) \<Rightarrow> clone ops me f a b s k
      | _ \<Rightarrow> Ok (-1, k))"

definition sys_join :: "'w tops \<Rightarrow> nat \<Rightarrow> uint option \<Rightarrow> 'w tkernel \<Rightarrow> (int32 option \<times> 'w tkernel) res" where
  "sys_join ops me stack k =
     (case stack of None \<Rightarrow> Ok (Some (-1), k) | Some s \<Rightarrow> join ops me s k)"

text \<open>
  The loop of \<open>sys_sleep\<close>, with \<open>tickslock\<close> held: it sleeps again until \<open>n\<close> ticks have passed
  (\<open>ticks - ticks0 < n\<close> is a comparison of a uint with an int: unsigned).
\<close>

definition t_sleep_loop :: "nat \<Rightarrow> uint \<Rightarrow> int32 \<Rightarrow> 'w tkernel \<Rightarrow> (int option \<times> 'w tkernel) res" where
  "t_sleep_loop me ticks0 n k =
     (if k_ticks k - ticks0 < n then
        with_myproc me k (\<lambda>p k.
          if t_killed (k_proc k ! p) then rbind (k_release me TicksLock k) (\<lambda>k. Ok (Some (-1), k))
          else rbind (t_sleep me (Some ChTicks) (Some TicksLock) k) (\<lambda>k. Ok (None, k)))
      else rbind (k_release me TicksLock k) (\<lambda>k. Ok (Some 0, k)))"

definition t_sys_sleep :: "nat \<Rightarrow> int32 option \<Rightarrow> 'w tkernel \<Rightarrow> (int option \<times> 'w tkernel) res" where
  "t_sys_sleep me n k =
     (case n of
        None \<Rightarrow> Ok (Some (-1), k)
      | Some n \<Rightarrow> rbind (k_acquire me TicksLock k) (\<lambda>k. t_sleep_loop me (k_ticks k) n k))"

end
