(* ===== verification/ThreadsFun.thy ===== *)
theory ThreadsFun
  imports Threads
begin

text \<open>
  P3B: what \<open>clone\<close>, \<open>join\<close>, \<open>wait\<close> and \<open>growproc\<close> do, that threads of an address space agree
  on its size, and two ways in which the kernel lets threads damage each other.
\<close>

section \<open>Frames\<close>

lemma k_acquire_frame:
  "k_acquire me l k = Ok k' \<Longrightarrow> k_proc k' = k_proc k \<and> k_rest k' = k_rest k \<and>
   k_nextpid k' = k_nextpid k \<and> k_initproc k' = k_initproc k \<and> k_ticks k' = k_ticks k"
  by (auto simp: k_acquire_def rbind_eq_Ok)

lemma k_release_frame:
  "k_release me l k = Ok k' \<Longrightarrow> k_proc k' = k_proc k \<and> k_rest k' = k_rest k \<and>
   k_nextpid k' = k_nextpid k \<and> k_initproc k' = k_initproc k \<and> k_ticks k' = k_ticks k"
  by (auto simp: k_release_def rbind_eq_Ok)

text \<open>\<open>allocproc\<close> takes the first free slot and touches no other.\<close>

definition fresh_thread :: "int32 \<Rightarrow> uint \<Rightarrow> thread \<Rightarrow> thread" where
  "fresh_thread pid kstack q = q\<lparr>t_state := EMBRYO, t_pid := pid, t_stack := 0, t_kstack := kstack,
                                 t_context := At_forkret\<rparr>"

definition failed_thread :: "int32 \<Rightarrow> thread \<Rightarrow> thread" where
  "failed_thread pid q = q\<lparr>t_state := UNUSED, t_pid := pid, t_stack := 0, t_kstack := 0\<rparr>"

lemma thread_upd_at_comp: "upd_at i f (upd_at i g ps) = upd_at i (\<lambda>q. f (g q)) (ps :: thread list)"
  by (simp add: upd_at_comp comp_def)

lemma t_allocproc_result:
  assumes "t_allocproc ops me k = Ok (r, k')"
  shows "case r of
      Some np \<Rightarrow> find_idx (\<lambda>p. t_state p = UNUSED) (k_proc k) = Some np \<and>
        (\<exists>s. s \<noteq> 0 \<and> k_proc k' = upd_at np (fresh_thread (k_nextpid k) s) (k_proc k))
    | None \<Rightarrow> k_proc k' = k_proc k \<or> (\<exists>i. find_idx (\<lambda>p. t_state p = UNUSED) (k_proc k) = Some i \<and>
        k_proc k' = upd_at i (failed_thread (k_nextpid k)) (k_proc k))"
proof -
  from assms obtain k1 where 1: "k_acquire me PtableLock k = Ok k1" and
    body: "(case find_idx (\<lambda>p. t_state p = UNUSED) (k_proc k1) of
       None \<Rightarrow> rbind (k_release me PtableLock k1) (\<lambda>k. Ok (None, k))
     | Some p \<Rightarrow>
         let pid = k_nextpid k1;
             k = pupd p (\<lambda>q. q\<lparr>t_state := EMBRYO, t_pid := pid, t_stack := 0\<rparr>)
                   (k1\<lparr>k_nextpid := pid + 1\<rparr>)
         in rbind (k_release me PtableLock k) (\<lambda>k.
           case op_kalloc ops (k_rest k) of (kstack, w) \<Rightarrow>
             let k = pupd p (\<lambda>q. q\<lparr>t_kstack := kstack\<rparr>) (k\<lparr>k_rest := w\<rparr>) in
             if kstack = 0 then Ok (None, pupd p (\<lambda>q. q\<lparr>t_state := UNUSED\<rparr>) k)
             else Ok (Some p, pupd p (\<lambda>q. q\<lparr>t_context := At_forkret\<rparr>) k))) = Ok (r, k')"
    by (auto simp: t_allocproc_def rbind_eq_Ok)
  note f1 = k_acquire_frame [OF 1]
  show ?thesis
  proof (cases "find_idx (\<lambda>p. t_state p = UNUSED) (k_proc k)")
    case None
    with body f1 show ?thesis by (auto simp: rbind_eq_Ok None dest!: k_release_frame simp del: find_idx_None)
  next
    case (Some p)
    let ?k2 = "pupd p (\<lambda>q. q\<lparr>t_state := EMBRYO, t_pid := k_nextpid k1, t_stack := 0\<rparr>)
                   (k1\<lparr>k_nextpid := k_nextpid k1 + 1\<rparr>)"
    from body f1 Some obtain k3 where 3: "k_release me PtableLock ?k2 = Ok k3"
      and rest: "(case op_kalloc ops (k_rest k3) of (kstack, w) \<Rightarrow>
             let k = pupd p (\<lambda>q. q\<lparr>t_kstack := kstack\<rparr>) (k3\<lparr>k_rest := w\<rparr>) in
             if kstack = 0 then Ok (None, pupd p (\<lambda>q. q\<lparr>t_state := UNUSED\<rparr>) k)
             else Ok (Some p, pupd p (\<lambda>q. q\<lparr>t_context := At_forkret\<rparr>) k)) = Ok (r, k')"
      by (auto simp: rbind_eq_Ok Let_def)
    note f3 = k_release_frame [OF 3]
    obtain s w where sw: "op_kalloc ops (k_rest k3) = (s, w)" by fastforce
    show ?thesis
    proof (cases "s = 0")
      case True
      have "k_proc k' = upd_at p (failed_thread (k_nextpid k)) (k_proc k)" "r = None"
        using rest sw f3 f1 True
        by (auto simp: Let_def thread_upd_at_comp failed_thread_def intro!: upd_at_cong)
      with Some show ?thesis by auto
    next
      case False
      have "k_proc k' = upd_at p (fresh_thread (k_nextpid k) s) (k_proc k)" "r = Some p"
        using rest sw f3 f1 False
        by (auto simp: Let_def thread_upd_at_comp fresh_thread_def intro!: upd_at_cong)
      with Some False show ?thesis by auto
    qed
  qed
qed

section \<open>Clone\<close>

text \<open>The new thread: the parent's address space and registers, its own stack and entry point.\<close>

definition cloned ::
  "thread \<Rightarrow> nat \<Rightarrow> uint \<Rightarrow> uint \<Rightarrow> int32 \<Rightarrow> uint \<Rightarrow> nat option list \<Rightarrow> nat option \<Rightarrow> thread \<Rightarrow> thread" where
  "cloned c cur fcn stack pid kstack fs cwd q =
     q\<lparr>t_sz := t_sz c, t_pgdir := t_pgdir c, t_kstack := kstack, t_state := RUNNABLE, t_pid := pid,
       t_parent := Some cur,
       t_tf := (t_tf c)\<lparr>tf_eax := 0, tf_eip := fcn, tf_esp := stack + PGSIZE - 12,
                       tf_ebp := stack + PGSIZE - 12\<rparr>,
       t_context := At_forkret, t_ofile := fs, t_cwd := cwd, t_name := safestrcpy (t_name c) 16,
       t_stack := stack\<rparr>"

definition stored3 :: "'w tops \<Rightarrow> uint \<Rightarrow> uint \<Rightarrow> uint \<Rightarrow> uint \<Rightarrow> 'w \<Rightarrow> 'w res" where
  "stored3 ops pgdir tos arg1 arg2 w =
     rbind (op_store ops pgdir (tos - 4) arg2 w) (\<lambda>w.
     rbind (op_store ops pgdir (tos - 8) arg1 w) (\<lambda>w.
     op_store ops pgdir (tos - 12) 0xffffffff w))"

lemma clone_result:
  assumes wf: "cpus_wf (k_cpus k)" "me < length (k_cpus k)" and cur: "cpu_proc (k_cpus k ! me) = Some cur"
    and ok: "clone ops me fcn arg1 arg2 stack k = Ok (pid, k')" and pid: "pid \<noteq> -1"
    and live: "t_state (k_proc k ! cur) \<noteq> UNUSED"
  shows "stack mod PGSIZE = 0 \<and> PGSIZE \<le> t_sz (k_proc k ! cur) - stack \<and> pid = k_nextpid k \<and>
    (\<exists>np s fs cwd w w' w''.
      find_idx (\<lambda>p. t_state p = UNUSED) (k_proc k) = Some np \<and> s \<noteq> 0 \<and>
      k_proc k' = upd_at np (cloned (k_proc k ! cur) cur fcn stack pid s fs cwd) (k_proc k) \<and>
      stored3 ops (t_pgdir (k_proc k ! cur)) (stack + PGSIZE) arg1 arg2 w = Ok w' \<and>
      dup_files (ops.truncate ops) (t_ofile (k_proc k ! cur)) (t_ofile (k_proc k ! np)) w' = Ok (fs, w'') \<and>
      op_idup ops (t_cwd (k_proc k ! cur)) w'' = Ok (cwd, k_rest k'))"
proof -
  let ?k0 = "k\<lparr>k_cpus := upd_at me settle (k_cpus k)\<rparr>"
  let ?c = "k_proc k ! cur"
  let ?tos = "stack + PGSIZE"
  have st: "stack mod PGSIZE = 0" "\<not> t_sz ?c - stack < PGSIZE"
    using ok pid by (auto simp: clone_def with_myproc_eq [OF wf cur] split: if_splits)
  from ok pid st obtain np k1 where a: "t_allocproc ops me ?k0 = Ok (Some np, k1)"
    by (auto simp: clone_def with_myproc_eq [OF wf cur] rbind_eq_Ok split: option.splits)
  from t_allocproc_result [OF a] obtain s where
    np: "find_idx (\<lambda>p. t_state p = UNUSED) (k_proc k) = Some np" and s: "s \<noteq> 0"
    and k1: "k_proc k1 = upd_at np (fresh_thread (k_nextpid k) s) (k_proc k)" by auto
  from find_idx_SomeD [OF np] have l: "np < length (k_proc k)" "t_state (k_proc k ! np) = UNUSED" by auto
  then have ne: "np \<noteq> cur" using live by auto
  then have c1: "k_proc k1 ! cur = ?c" by (simp add: k1)
  let ?tf = "(t_tf ?c)\<lparr>tf_eax := 0, tf_eip := fcn, tf_esp := ?tos - 12, tf_ebp := ?tos - 12\<rparr>"
  let ?k2 = "pupd np (\<lambda>q. q\<lparr>t_pgdir := t_pgdir ?c, t_sz := t_sz ?c, t_parent := Some cur,
                       t_tf := ?tf, t_stack := stack\<rparr>) k1"
  let ?k4 = "\<lambda>fs cwd w. pupd np (\<lambda>q. q\<lparr>t_ofile := fs, t_cwd := cwd,
                            t_name := safestrcpy (t_name ?c) 16\<rparr>) (?k2\<lparr>k_rest := w\<rparr>)"
  from ok obtain w1 w2 w3 fs w4 cwd w5 k5 k6 where
    w: "op_store ops (t_pgdir ?c) (?tos - 4) arg2 (k_rest k1) = Ok w1"
      "op_store ops (t_pgdir ?c) (?tos - 8) arg1 w1 = Ok w2"
      "op_store ops (t_pgdir ?c) (?tos - 12) 0xffffffff w2 = Ok w3"
    and dup: "dup_files (ops.truncate ops) (t_ofile ?c) (t_ofile (k_proc ?k2 ! np)) w3 = Ok (fs, w4)"
      "op_idup ops (t_cwd ?c) w4 = Ok (cwd, w5)"
    and k5: "k_acquire me PtableLock (?k4 fs cwd w5) = Ok k5"
    and k6: "k_release me PtableLock (pupd np (\<lambda>q. q\<lparr>t_state := RUNNABLE\<rparr>) k5) = Ok k6"
    and k': "k' = pupd np (\<lambda>q. q\<lparr>t_name := safestrcpy (t_name (k_proc k6 ! cur)) 16\<rparr>) k6"
      "pid = t_pid (k_proc (?k4 fs cwd w5) ! np)"
    using st by (auto simp: clone_def with_myproc_eq [OF wf cur] a c1 rbind_eq_Ok Let_def)
  note f = k_acquire_frame [OF k5] k_release_frame [OF k6]
  have n6: "t_name (k_proc k6 ! cur) = t_name ?c" using f ne c1 by simp
  have "pid = k_nextpid k" using k'(2) l(1) by (simp add: k1 fresh_thread_def)
  moreover have "k_proc k' = upd_at np (cloned ?c cur fcn stack (k_nextpid k) s fs cwd) (k_proc k)"
    using f unfolding k'(1) n6
    by (simp add: k1 thread_upd_at_comp) (rule upd_at_cong, simp add: cloned_def fresh_thread_def)
  moreover have "stored3 ops (t_pgdir ?c) ?tos arg1 arg2 (k_rest k1) = Ok w3"
    using w by (simp add: stored3_def)
  moreover have "dup_files (ops.truncate ops) (t_ofile ?c) (t_ofile (k_proc k ! np)) w3 = Ok (fs, w4)"
    using dup(1) l(1) by (simp add: k1 fresh_thread_def)
  moreover have "op_idup ops (t_cwd ?c) w4 = Ok (cwd, k_rest k')" using dup(2) f unfolding k'(1) by simp
  moreover have "PGSIZE \<le> t_sz ?c - stack" using st(2) by simp
  ultimately show ?thesis using st(1) np s by blast
qed

text \<open>
  What reads the user memory of a page table: a word that is stored is read back, words that do not overlap
  it are as before, and counting references to files and inodes does not change user memory.
\<close>

definition reads_memory :: "'w tops \<Rightarrow> (uint \<Rightarrow> uint \<Rightarrow> 'w \<Rightarrow> uint) \<Rightarrow> bool" where
  "reads_memory ops rd \<longleftrightarrow>
     (\<forall>d a v w w'. op_store ops d a v w = Ok w' \<longrightarrow> rd d a w' = v \<and> (\<forall>b. 4 \<le> b - a \<and> 4 \<le> a - b \<longrightarrow> rd d b w' = rd d b w)) \<and>
     (\<forall>f w g w' d a. op_filedup ops f w = Ok (g, w') \<longrightarrow> rd d a w' = rd d a w) \<and>
     (\<forall>i w j w' d a. op_idup ops i w = Ok (j, w') \<longrightarrow> rd d a w' = rd d a w)"

lemma dup_files_memory:
  assumes "reads_memory ops rd"
  shows "dup_files (ops.truncate ops) fs ns w = Ok (gs, w') \<Longrightarrow> rd d a w' = rd d a w"
proof (induction "ops.truncate ops" fs ns w arbitrary: gs w' rule: dup_files.induct)
  case (1 f fs n ns w)
  then obtain g w1 hs where "op_filedup ops f w = Ok (g, w1)" "dup_files (ops.truncate ops) fs ns w1 = Ok (hs, w')"
    by (auto simp: rbind_eq_Ok ops.truncate_def)
  with 1 assms show ?case by (auto simp: reads_memory_def ops.truncate_def)
qed (auto simp: rbind_eq_Ok)

lemma stored3_memory:
  assumes m: "reads_memory ops rd" and s: "stored3 ops d tos arg1 arg2 w = Ok w'"
  shows "rd d (tos - 4) w' = arg2 \<and> rd d (tos - 8) w' = arg1 \<and> rd d (tos - 12) w' = 0xffffffff"
proof -
  from s obtain w1 w2 where "op_store ops d (tos - 4) arg2 w = Ok w1" "op_store ops d (tos - 8) arg1 w1 = Ok w2"
      "op_store ops d (tos - 12) 0xffffffff w2 = Ok w'" by (auto simp: stored3_def rbind_eq_Ok)
  with m show ?thesis unfolding reads_memory_def by (auto simp: word_le_nat_alt)
qed

text \<open>
  C24: what \<open>clone\<close> makes. When it succeeds, the stack was a page-aligned address and the thread is
  in the first free slot: runnable, in the address space of its creator and with its size, a child of
  the creator, entering the kernel exit path with the start routine as its program counter and the
  stack pointer 12 bytes below the top of the stack page. In the memory that the kernel leaves, the stack
  holds the fake return address there and the two arguments above it. No other slot has changed.
\<close>

theorem clone_makes_thread:
  assumes "cpus_wf (k_cpus k)" and "me < length (k_cpus k)" and "cpu_proc (k_cpus k ! me) = Some cur"
    and "t_state (k_proc k ! cur) \<noteq> UNUSED" and "reads_memory ops rd"
    and "clone ops me fcn arg1 arg2 stack k = Ok (pid, k')" and "pid \<noteq> -1"
  shows "stack mod PGSIZE = 0 \<and> (\<exists>np.
    find_idx (\<lambda>p. t_state p = UNUSED) (k_proc k) = Some np \<and>
    (let c = k_proc k ! cur; t = k_proc k' ! np in
      t_state t = RUNNABLE \<and> t_pid t = pid \<and> t_pgdir t = t_pgdir c \<and> t_sz t = t_sz c \<and>
      t_parent t = Some cur \<and> t_context t = At_forkret \<and> t_stack t = stack \<and>
      tf_eip (t_tf t) = fcn \<and> tf_esp (t_tf t) = stack + PGSIZE - 12 \<and>
      tf_ebp (t_tf t) = tf_esp (t_tf t) \<and> tf_eax (t_tf t) = 0 \<and>
      rd (t_pgdir t) (tf_esp (t_tf t)) (k_rest k') = 0xffffffff \<and>
      rd (t_pgdir t) (tf_esp (t_tf t) + 4) (k_rest k') = arg1 \<and>
      rd (t_pgdir t) (tf_esp (t_tf t) + 8) (k_rest k') = arg2) \<and>
    (\<forall>q. q \<noteq> np \<longrightarrow> k_proc k' ! q = k_proc k ! q))"
proof -
  from clone_result [OF assms(1-3,6,7,4)] obtain np s fs cwd w w' w'' where
    st: "stack mod PGSIZE = 0" and np: "find_idx (\<lambda>p. t_state p = UNUSED) (k_proc k) = Some np"
    and k': "k_proc k' = upd_at np (cloned (k_proc k ! cur) cur fcn stack pid s fs cwd) (k_proc k)"
    and w: "stored3 ops (t_pgdir (k_proc k ! cur)) (stack + PGSIZE) arg1 arg2 w = Ok w'"
      "dup_files (ops.truncate ops) (t_ofile (k_proc k ! cur)) (t_ofile (k_proc k ! np)) w' = Ok (fs, w'')"
      "op_idup ops (t_cwd (k_proc k ! cur)) w'' = Ok (cwd, k_rest k')"
    by (elim conjE exE) (rule that; assumption)
  have "rd d a (k_rest k') = rd d a w'" for d a
    using dup_files_memory [OF assms(5) w(2)] assms(5) w(3) by (simp add: reads_memory_def)
  with stored3_memory [OF assms(5) w(1)]
  have mem: "rd (t_pgdir (k_proc k ! cur)) (stack + PGSIZE - 12) (k_rest k') = 0xffffffff"
      "rd (t_pgdir (k_proc k ! cur)) (stack + PGSIZE - 12 + 4) (k_rest k') = arg1"
      "rd (t_pgdir (k_proc k ! cur)) (stack + PGSIZE - 12 + 8) (k_rest k') = arg2" by simp_all
  from find_idx_SomeD [OF np] have l: "np < length (k_proc k)" by simp
  then have t: "k_proc k' ! np = cloned (k_proc k ! cur) cur fcn stack pid s fs cwd (k_proc k ! np)"
    by (simp add: k')
  have "\<forall>q. q \<noteq> np \<longrightarrow> k_proc k' ! q = k_proc k ! q" by (simp add: k')
  with st np mem show ?thesis by (intro conjI exI [of _ np]) (simp_all add: t Let_def cloned_def)
qed

text \<open>A machine whose only process runs on its only CPU, with a second slot free; memory is the
  list of the stores.\<close>

definition demo_thread :: "procstate \<Rightarrow> thread" where
  "demo_thread st =
     \<lparr>t_sz = 0x4000, t_pgdir = 0x1000, t_kstack = 0x2000, t_state = st, t_pid = 1, t_parent = None,
      t_tf = trapframe_zero, t_context = At_forkret, t_chan = None, t_killed = False,
      t_ofile = [], t_cwd = None, t_name = [], t_stack = 0\<rparr>"

type_synonym demo_mem = "(uint \<times> uint) list"

definition demo_tops :: "demo_mem tops" where
  "demo_tops = \<lparr>op_kalloc = (\<lambda>w. (0x3000, w)), op_kfree = (\<lambda>a w. Ok w), op_setupkvm = (\<lambda>w. (0x5000, w)),
     op_inituvm = (\<lambda>a w. Ok w), op_allocuvm = (\<lambda>a b c w. (c, w)), op_deallocuvm = (\<lambda>a b c w. (c, w)),
     op_copyuvm = (\<lambda>a b w. (0x5000, w)), op_freevm = (\<lambda>a w. Ok ((a, 0) # w)), op_filedup = (\<lambda>f w. Ok (f, w)),
     op_fileclose = (\<lambda>f w. Ok w), op_idup = (\<lambda>i w. Ok (i, w)), op_iput = (\<lambda>i w. Ok w),
     op_namei_root = (\<lambda>w. (None, w)), op_fsinit = (\<lambda>w. Ok w), op_store = (\<lambda>d a v w. Ok ((a, v) # w))\<rparr>"

definition demo_tkernel :: "thread list \<Rightarrow> demo_mem tkernel" where
  "demo_tkernel ts =
     \<lparr>k_cpus = [demo_cpu\<lparr>cpu_proc := Some 0\<rparr>], k_lock = (\<lambda>l. initlock ''lock''), k_proc = ts,
      k_nextpid = 2, k_rseed = 0, k_initproc = None, k_ticks = 0, k_first = False, k_rest = []\<rparr>"

lemma demo_tcpu_wf: "cpus_wf (k_cpus (demo_tkernel ts))" "0 < length (k_cpus (demo_tkernel ts))"
    "cpu_proc (k_cpus (demo_tkernel ts) ! 0) = Some 0"
  by (simp_all add: demo_tkernel_def cpus_wf_def demo_cpu_def)

lemma demo_clone: "\<exists>k'. clone demo_tops 0 0x100 7 8 0x3000
    (demo_tkernel [demo_thread RUNNING, demo_thread UNUSED]) = Ok (2, k')"
  by (simp add: clone_def t_allocproc_def with_myproc_def k_myproc_def myproc_def k_acquire_def
      acquire_def k_release_def release_def pushcli_def popcli_def holding_def mycpu_def upd_at_def
      Let_def demo_tkernel_def demo_cpu_def initlock_def demo_thread_def pupd_def demo_tops_def PGSIZE_def
      ops.truncate_def)

definition demo_rd :: "uint \<Rightarrow> uint \<Rightarrow> demo_mem \<Rightarrow> uint" where
  "demo_rd d a w = (case map_of w a of Some v \<Rightarrow> v | None \<Rightarrow> 0)"

lemma demo_reads: "reads_memory demo_tops demo_rd"
  by (auto simp: reads_memory_def demo_tops_def demo_rd_def)

theorem clone_makes_thread_witness:
  "\<exists>k'. clone demo_tops 0 0x100 7 8 0x3000
     (demo_tkernel [demo_thread RUNNING, demo_thread UNUSED]) = Ok (2, k') \<and>
   t_parent (k_proc k' ! 1) = Some 0 \<and> tf_esp (t_tf (k_proc k' ! 1)) = 0x3FF4 \<and>
   demo_rd 0x1000 0x3FF8 (k_rest k') = 7 \<and> demo_rd 0x1000 0x3FFC (k_rest k') = 8"
proof -
  let ?k = "demo_tkernel [demo_thread RUNNING, demo_thread UNUSED]"
  obtain k' where k': "clone demo_tops 0 0x100 7 8 0x3000 ?k = Ok (2, k')"
    using demo_clone by blast
  have live: "t_state (k_proc ?k ! 0) \<noteq> UNUSED" by (simp add: demo_tkernel_def demo_thread_def)
  have free: "find_idx (\<lambda>p. t_state p = UNUSED) (k_proc ?k) = Some 1"
    by (simp add: demo_tkernel_def demo_thread_def)
  have pg: "t_pgdir (k_proc ?k ! 0) = 0x1000" by (simp add: demo_tkernel_def demo_thread_def)
  have "(2 :: 32 word) \<noteq> -1" by simp
  from clone_makes_thread [OF demo_tcpu_wf live demo_reads k' this] free k' pg
  show ?thesis by (auto simp: Let_def PGSIZE_def)
qed

text \<open>
  C37: the bounds check of \<open>clone\<close> wraps. A page-aligned stack above the end of the process, an
  address of the kernel say, is not refused, because \<open>sz - stack\<close> is unsigned: when a slot is free
  \<open>clone\<close> goes on to store the arguments at the top of that page, and fails only if the store does.
\<close>

theorem clone_accepts_kernel_stack:
  assumes "cpus_wf (k_cpus k)" and "me < length (k_cpus k)" and "cpu_proc (k_cpus k ! me) = Some cur"
    and "stack mod PGSIZE = 0" and "t_sz (k_proc k ! cur) < stack"
    and "unat stack + 4096 \<le> 2 ^ 32 + unat (t_sz (k_proc k ! cur))"
    and "t_allocproc ops me (k\<lparr>k_cpus := upd_at me settle (k_cpus k)\<rparr>) = Ok (Some np, k1)"
    and "clone ops me fcn arg1 arg2 stack k = Ok (r, k')"
  shows "\<exists>w'. stored3 ops (t_pgdir (k_proc k1 ! cur)) (stack + PGSIZE) arg1 arg2 (k_rest k1) = Ok w'"
proof -
  let ?sz = "t_sz (k_proc k ! cur)"
  have "unat (?sz - stack) = 2 ^ 32 + unat ?sz - unat stack"
    using assms(5) by (simp add: unat_sub_if' word_less_nat_alt)
  then have "\<not> ?sz - stack < PGSIZE" using assms(6) by (simp add: word_less_nat_alt PGSIZE_def)
  then obtain w1 w2 w3 where
    "op_store ops (t_pgdir (k_proc k1 ! cur)) (stack + PGSIZE - 4) arg2 (k_rest k1) = Ok w1"
    "op_store ops (t_pgdir (k_proc k1 ! cur)) (stack + PGSIZE - 8) arg1 w1 = Ok w2"
    "op_store ops (t_pgdir (k_proc k1 ! cur)) (stack + PGSIZE - 12) 0xffffffff w2 = Ok w3"
    using assms(4,8) by (auto simp: clone_def with_myproc_eq [OF assms(1-3)] assms(7) rbind_eq_Ok Let_def)
  then show ?thesis
    by (intro exI [of _ w3]) (simp add: stored3_def)
qed

lemma demo_clone_kernel: "\<exists>k1. t_allocproc demo_tops 0
    ((demo_tkernel [demo_thread RUNNING, demo_thread UNUSED])\<lparr>k_cpus :=
      upd_at 0 settle (k_cpus (demo_tkernel [demo_thread RUNNING, demo_thread UNUSED]))\<rparr>) = Ok (Some 1, k1)"
    "\<exists>k'. clone demo_tops 0 0x100 7 8 0x80100000
      (demo_tkernel [demo_thread RUNNING, demo_thread UNUSED]) = Ok (2, k')"
  by (simp_all add: clone_def t_allocproc_def with_myproc_def k_myproc_def myproc_def k_acquire_def
      acquire_def k_release_def release_def pushcli_def popcli_def holding_def mycpu_def upd_at_def
      Let_def demo_tkernel_def demo_cpu_def initlock_def demo_thread_def pupd_def demo_tops_def PGSIZE_def
      ops.truncate_def settle_def)

theorem clone_accepts_kernel_stack_witness:
  "\<exists>k'. clone demo_tops 0 0x100 7 8 0x80100000
      (demo_tkernel [demo_thread RUNNING, demo_thread UNUSED]) = Ok (2, k') \<and>
    (\<exists>d w w'. stored3 demo_tops d (0x80100000 + PGSIZE) 7 8 w = Ok w')"
proof -
  let ?k = "demo_tkernel [demo_thread RUNNING, demo_thread UNUSED]"
  obtain k' where k': "clone demo_tops 0 0x100 7 8 0x80100000 ?k = Ok (2, k')"
    using demo_clone_kernel(2) by blast
  obtain k1 where k1: "t_allocproc demo_tops 0 (?k\<lparr>k_cpus := upd_at 0 settle (k_cpus ?k)\<rparr>) = Ok (Some 1, k1)"
    using demo_clone_kernel(1) by blast
  have p: "t_sz (k_proc ?k ! 0) = 0x4000" by (simp add: demo_tkernel_def demo_thread_def)
  have "(0x80100000 :: uint) mod PGSIZE = 0" "(0x4000 :: uint) < 0x80100000"
      "unat (0x80100000 :: uint) + 4096 \<le> 2 ^ 32 + unat (0x4000 :: uint)"
    by (simp_all add: PGSIZE_def)
  from clone_accepts_kernel_stack [where k = ?k and stack = "0x80100000", OF demo_tcpu_wf, unfolded p, OF this k1 k'] k'
  show ?thesis by blast
qed

section \<open>Waiting for children, joining threads\<close>

lemma t_scan_spec:
  "t_scan want i ps =
    (\<exists>q\<in>set ps. want q, map_option ((+) i) (find_idx (\<lambda>q. want q \<and> t_state q = ZOMBIE) ps))"
proof (induction ps arbitrary: i)
  case Nil
  then show ?case by simp
next
  case (Cons p ps)
  have "(+) (Suc i) = (\<lambda>x. Suc (i + x))" by auto
  with Cons show ?case by (simp add: option.map_comp comp_def)
qed

lemma sleep_stays_asleep:
  assumes "t_sleep me c (Some PtableLock) k = Ok k'" and "cpus_wf (k_cpus k)" and "me < length (k_cpus k)"
    and "cpu_proc (k_cpus k ! me) = Some cur"
  shows "k_rest k' = k_rest k \<and> (\<exists>r. k_proc k' =
    upd_at cur (\<lambda>q. q\<lparr>t_chan := c, t_state := SLEEPING, t_context := r\<rparr>) (k_proc k))"
proof -
  let ?k = "pupd cur (\<lambda>q. q\<lparr>t_chan := c, t_state := SLEEPING\<rparr>) (k\<lparr>k_cpus := upd_at me settle (k_cpus k)\<rparr>)"
  have s: "t_sched me (At_sleep PtableLock) ?k = Ok k'"
    using assms by (simp add: t_sleep_def k_myproc_eq)
  have "k_myproc me ?k = Ok (Some cur, ?k\<lparr>k_cpus := upd_at me settle (k_cpus ?k)\<rparr>)"
    using assms by (subst k_myproc_eq) simp_all
  with s show ?thesis
    by (auto simp: t_sched_def rbind_eq_Ok Let_def thread_upd_at_comp split: if_splits)
qed

text \<open>
  C25: \<open>join\<close> reaps threads. It takes the first zombie in the table that is a child in the same
  address space: it frees the kernel stack, hands the user stack over at the given address, and
  leaves the page table alone. It fails when there is no thread to wait for or the caller has been
  killed, and sleeps on the caller's slot otherwise.
\<close>

theorem join_reaps_threads:
  assumes "cpus_wf (k_cpus k)" and "me < length (k_cpus k)" and "cpu_proc (k_cpus k ! me) = Some cur"
    and "join_loop ops me cur stack k = Ok (r, k')"
  defines "mine \<equiv> is_thread cur (k_proc k ! cur)"
  shows "case find_idx (\<lambda>q. mine q \<and> t_state q = ZOMBIE) (k_proc k) of
      Some i \<Rightarrow>
        r = Some (t_pid (k_proc k ! i)) \<and> k_proc k' = upd_at i t_reaped (k_proc k) \<and>
        rbind (op_kfree ops (t_kstack (k_proc k ! i)) (k_rest k))
          (op_store ops (t_pgdir (k_proc k ! cur)) stack (t_stack (k_proc k ! i))) = Ok (k_rest k')
    | None \<Rightarrow>
        if (\<forall>q\<in>set (k_proc k). \<not> mine q) \<or> t_killed (k_proc k ! cur)
        then r = Some (-1) \<and> k_proc k' = k_proc k
        else r = None \<and> (\<exists>c. k_proc k' = upd_at cur (\<lambda>q. q\<lparr>t_chan := Some (ChProc cur),
          t_state := SLEEPING, t_context := c\<rparr>) (k_proc k))"
proof (cases "find_idx (\<lambda>q. mine q \<and> t_state q = ZOMBIE) (k_proc k)")
  case (Some i)
  from assms(4) Some show ?thesis
    unfolding mine_def by (auto simp: join_loop_def t_scan_spec Let_def rbind_eq_Ok dest!: k_release_frame)
next
  case None
  show ?thesis
  proof (cases "(\<forall>q\<in>set (k_proc k). \<not> mine q) \<or> t_killed (k_proc k ! cur)")
    case True
    with assms(4) None [unfolded mine_def] show ?thesis
      unfolding mine_def
      by (auto simp: join_loop_def t_scan_spec None [unfolded mine_def] rbind_eq_Ok
          dest!: k_release_frame simp del: find_idx_None)
  next
    case False
    with assms(4) obtain k2 where "r = None" "t_sleep me (Some (ChProc cur)) (Some PtableLock) k = Ok k'"
      unfolding mine_def
      by (auto simp: join_loop_def t_scan_spec None [unfolded mine_def] rbind_eq_Ok simp del: find_idx_None)
    with sleep_stays_asleep [OF this(2) assms(1-3)] False show ?thesis
      by (simp add: None del: find_idx_None)
  qed
qed

text \<open>A process with the table locked, a zombie thread in slot 1, and a zombie child process that
  has a live thread of its own.\<close>

definition demo_locked :: "thread list \<Rightarrow> demo_mem tkernel" where
  "demo_locked ts = (demo_tkernel ts)\<lparr>k_lock := (\<lambda>l. \<lparr>lk_locked = True, lk_name = ''lock'', lk_cpu = Some 0\<rparr>),
     k_cpus := [demo_cpu\<lparr>cpu_proc := Some 0, cpu_ncli := 1, cpu_if := False\<rparr>]\<rparr>"

lemma demo_locked_wf: "cpus_wf (k_cpus (demo_locked ts))" "0 < length (k_cpus (demo_locked ts))"
    "cpu_proc (k_cpus (demo_locked ts) ! 0) = Some 0"
  by (simp_all add: demo_locked_def cpus_wf_def demo_cpu_def)

definition demo_joinable :: "demo_mem tkernel" where
  "demo_joinable = demo_locked [demo_thread RUNNING,
     (demo_thread ZOMBIE)\<lparr>t_parent := Some 0, t_pid := 5, t_stack := 0x3000\<rparr>]"

lemma demo_join: "\<exists>k'. join_loop demo_tops 0 0 0x40 demo_joinable = Ok (Some 5, k')"
  by (simp add: join_loop_def demo_joinable_def demo_locked_def demo_tkernel_def demo_thread_def is_thread_def
      k_release_def release_def holding_def pushcli_def popcli_def mycpu_def upd_at_def Let_def
      demo_cpu_def demo_tops_def pupd_def t_reaped_def)

theorem join_reaps_threads_witness:
  "\<exists>k'. join_loop demo_tops 0 0 0x40 demo_joinable = Ok (Some 5, k') \<and>
     k_rest k' = [(0x40, 0x3000)] \<and> t_state (k_proc k' ! 1) = UNUSED"
proof -
  obtain k' where k': "join_loop demo_tops 0 0 0x40 demo_joinable = Ok (Some 5, k')"
    using demo_join by blast
  have f: "find_idx (\<lambda>q. is_thread 0 (k_proc demo_joinable ! 0) q \<and> t_state q = ZOMBIE) (k_proc demo_joinable)
      = Some 1"
    by (simp add: demo_joinable_def demo_locked_def demo_tkernel_def demo_thread_def is_thread_def)
  note wf = demo_locked_wf [of "[demo_thread RUNNING,
     (demo_thread ZOMBIE)\<lparr>t_parent := Some 0, t_pid := 5, t_stack := 0x3000\<rparr>]", folded demo_joinable_def]
  have "k_proc k' = upd_at 1 t_reaped (k_proc demo_joinable)"
      "rbind (op_kfree demo_tops (t_kstack (k_proc demo_joinable ! 1)) (k_rest demo_joinable))
        (op_store demo_tops (t_pgdir (k_proc demo_joinable ! 0)) 0x40 (t_stack (k_proc demo_joinable ! 1))) =
       Ok (k_rest k')"
    using join_reaps_threads [OF wf k'] f by simp_all
  with k' show ?thesis
    by (auto simp: demo_joinable_def demo_locked_def demo_tkernel_def demo_tops_def t_reaped_def)
qed

text \<open>
  C36: \<open>wait\<close> frees memory that threads still use. It takes the first zombie child in another address
  space and frees that child's page table; a thread of the child that is still alive, in another slot,
  keeps the freed page table. (Once that thread has exited too, \<open>wait\<close> frees the same page table
  a second time, on behalf of init.)
\<close>

theorem wait_frees_live_address_space:
  assumes "t_wait_loop ops me cur k = Ok (r, k')"
    and "find_idx (\<lambda>q. is_child cur (k_proc k ! cur) q \<and> t_state q = ZOMBIE) (k_proc k) = Some i"
    and "j < length (k_proc k)" and "j \<noteq> i" and "t_pgdir (k_proc k ! j) = t_pgdir (k_proc k ! i)"
  shows "r = Some (t_pid (k_proc k ! i)) \<and>
    rbind (op_kfree ops (t_kstack (k_proc k ! i)) (k_rest k)) (op_freevm ops (t_pgdir (k_proc k ! j))) =
      Ok (k_rest k') \<and>
    k_proc k' ! j = k_proc k ! j"
  using assms
  by (auto simp: t_wait_loop_def t_scan_spec Let_def rbind_eq_Ok dest!: k_release_frame)

definition demo_orphan :: "demo_mem tkernel" where
  "demo_orphan = demo_locked [demo_thread RUNNING,
     (demo_thread ZOMBIE)\<lparr>t_parent := Some 0, t_pid := 5, t_pgdir := 0x6000\<rparr>,
     (demo_thread RUNNABLE)\<lparr>t_pid := 6, t_pgdir := 0x6000\<rparr>]"

lemma demo_wait: "\<exists>k'. t_wait_loop demo_tops 0 0 demo_orphan = Ok (Some 5, k')"
  by (simp add: t_wait_loop_def demo_orphan_def demo_locked_def demo_tkernel_def demo_thread_def is_child_def
      k_release_def release_def holding_def pushcli_def popcli_def mycpu_def upd_at_def Let_def
      demo_cpu_def demo_tops_def pupd_def t_reaped_def)

theorem wait_frees_live_address_space_witness:
  "\<exists>k'. t_wait_loop demo_tops 0 0 demo_orphan = Ok (Some 5, k') \<and> k_rest k' = [(0x6000, 0)] \<and>
     t_state (k_proc k' ! 2) = RUNNABLE \<and> t_pgdir (k_proc k' ! 2) = 0x6000"
proof -
  obtain k' where k': "t_wait_loop demo_tops 0 0 demo_orphan = Ok (Some 5, k')" using demo_wait by blast
  have "find_idx (\<lambda>q. is_child 0 (k_proc demo_orphan ! 0) q \<and> t_state q = ZOMBIE) (k_proc demo_orphan) = Some 1"
      "2 < length (k_proc demo_orphan)" "2 \<noteq> (1::nat)"
      "t_pgdir (k_proc demo_orphan ! 2) = t_pgdir (k_proc demo_orphan ! 1)"
    by (simp_all add: demo_orphan_def demo_locked_def demo_tkernel_def demo_thread_def is_child_def)
  from wait_frees_live_address_space [OF k' this] k' show ?thesis
    by (auto simp: demo_orphan_def demo_locked_def demo_tkernel_def demo_tops_def demo_thread_def)
qed

section \<open>The size of a shared address space\<close>

text \<open>Two slots in use with the same page table have the same size.\<close>

definition sizes_agree :: "thread list \<Rightarrow> bool" where
  "sizes_agree ts \<longleftrightarrow> (\<forall>p\<in>set ts. \<forall>q\<in>set ts. t_state p \<noteq> UNUSED \<longrightarrow> t_state q \<noteq> UNUSED \<longrightarrow>
     t_pgdir p = t_pgdir q \<longrightarrow> t_sz p = t_sz q)"

lemma sizes_agreeD:
  "sizes_agree ts \<Longrightarrow> i < length ts \<Longrightarrow> j < length ts \<Longrightarrow> t_state (ts ! i) \<noteq> UNUSED \<Longrightarrow>
   t_state (ts ! j) \<noteq> UNUSED \<Longrightarrow> t_pgdir (ts ! i) = t_pgdir (ts ! j) \<Longrightarrow> t_sz (ts ! i) = t_sz (ts ! j)"
  unfolding sizes_agree_def using nth_mem by blast

lemma sizes_agree_map:
  assumes "sizes_agree ts"
  shows "sizes_agree (map (\<lambda>t. if t_pgdir t = d then t\<lparr>t_sz := sz\<rparr> else t) ts)"
  unfolding sizes_agree_def
proof (intro ballI impI)
  let ?g = "\<lambda>t. if t_pgdir t = d then t\<lparr>t_sz := sz\<rparr> else t"
  fix p q assume "p \<in> set (map ?g ts)" "q \<in> set (map ?g ts)"
  then obtain x y where x: "x \<in> set ts" "p = ?g x" and y: "y \<in> set ts" "q = ?g y"
    by (auto simp del: if_split)
  assume "t_state p \<noteq> UNUSED" "t_state q \<noteq> UNUSED" "t_pgdir p = t_pgdir q"
  then have "t_state x \<noteq> UNUSED" "t_state y \<noteq> UNUSED" "t_pgdir x = t_pgdir y"
    by (simp_all add: x y split: if_splits)
  with assms [unfolded sizes_agree_def, rule_format, OF x(1) y(1)] show "t_sz p = t_sz q"
    by (simp add: x y)
qed

lemma growproc_result:
  assumes "cpus_wf (k_cpus k)" and "me < length (k_cpus k)" and "cpu_proc (k_cpus k ! me) = Some cur"
    and "t_growproc ops me n k = Ok (0, k')" and "cur < length (k_proc k)"
  shows "\<exists>sz. k_proc k' = map (\<lambda>t. if t_pgdir t = t_pgdir (k_proc k ! cur) then t\<lparr>t_sz := sz\<rparr> else t) (k_proc k)"
proof -
  let ?d = "t_pgdir (k_proc k ! cur)"
  let ?g = "\<lambda>sz t. if t_pgdir t = ?d then t\<lparr>t_sz := sz\<rparr> else t"
  have "map (?g sz) (upd_at cur (\<lambda>q. q\<lparr>t_sz := sz\<rparr>) (k_proc k)) = map (?g sz) (k_proc k)" for sz
    by (rule nth_equalityI) (auto simp: nth_upd_at)
  then show ?thesis
    using assms(4)
    by (auto simp: t_growproc_def with_myproc_eq [OF assms(1-3)] Let_def rbind_eq_Ok
        split: if_splits intro!: exI)
qed

text \<open>
  C27: threads agree on how much memory they have. Growing or shrinking the memory of one thread gives
  every slot of its address space the same new size and touches no other, and creating a thread gives
  it the size of its address space; so the slots in use that share a page table always agree.
\<close>

theorem sizes_agree_preserved:
  assumes "sizes_agree (k_proc k)"
    and "cpus_wf (k_cpus k)" and "me < length (k_cpus k)" and "cpu_proc (k_cpus k ! me) = Some cur"
    and "cur < length (k_proc k)" and "t_state (k_proc k ! cur) \<noteq> UNUSED"
  shows "(t_growproc ops me n k = Ok (0, k') \<longrightarrow> sizes_agree (k_proc k')) \<and>
    (clone ops me fcn arg1 arg2 stack k = Ok (pid, k') \<longrightarrow> pid \<noteq> -1 \<longrightarrow> sizes_agree (k_proc k'))"
proof (intro conjI impI)
  assume "t_growproc ops me n k = Ok (0, k')"
  from growproc_result [OF assms(2-4) this assms(5)] obtain sz where
    k': "k_proc k' = map (\<lambda>t. if t_pgdir t = t_pgdir (k_proc k ! cur) then t\<lparr>t_sz := sz\<rparr> else t) (k_proc k)"
    by blast
  show "sizes_agree (k_proc k')"
    unfolding k' by (rule sizes_agree_map [OF assms(1)])
next
  assume "clone ops me fcn arg1 arg2 stack k = Ok (pid, k')" "pid \<noteq> -1"
  from clone_result [OF assms(2-4) this assms(6)] obtain np s fs cwd where
    k': "k_proc k' = upd_at np (cloned (k_proc k ! cur) cur fcn stack pid s fs cwd) (k_proc k)"
    by (elim conjE exE)
  show "sizes_agree (k_proc k')"
    unfolding sizes_agree_def
  proof (intro ballI impI)
    fix p q assume pq: "p \<in> set (k_proc k')" "q \<in> set (k_proc k')" "t_state p \<noteq> UNUSED" "t_state q \<noteq> UNUSED"
      "t_pgdir p = t_pgdir q"
    have old: "\<exists>y\<in>set (k_proc k). t_state y \<noteq> UNUSED \<and> t_pgdir y = t_pgdir x \<and> t_sz y = t_sz x"
      if x: "x \<in> set (k_proc k')" "t_state x \<noteq> UNUSED" for x
    proof (cases "x \<in> set (k_proc k)")
      case True
      with x show ?thesis by blast
    next
      case False
      with set_upd_at [OF x(1) [unfolded k']] have "t_pgdir x = t_pgdir (k_proc k ! cur)" "t_sz x = t_sz (k_proc k ! cur)"
        by (auto simp: cloned_def)
      with assms(5,6) show ?thesis by (intro bexI [of _ "k_proc k ! cur"]) simp_all
    qed
    from old [OF pq(1,3)] old [OF pq(2,4)] obtain y z where
      "y \<in> set (k_proc k)" "t_state y \<noteq> UNUSED" "t_pgdir y = t_pgdir p" "t_sz y = t_sz p"
      "z \<in> set (k_proc k)" "t_state z \<noteq> UNUSED" "t_pgdir z = t_pgdir q" "t_sz z = t_sz q" by blast
    moreover from this pq(5) have "t_sz y = t_sz z"
      using assms(1) [unfolded sizes_agree_def, rule_format, of y z] by simp
    ultimately show "t_sz p = t_sz q" by simp
  qed
qed

theorem sizes_agree_preserved_witness:
  "\<exists>k'. clone demo_tops 0 0x100 7 8 0x3000
     (demo_tkernel [demo_thread RUNNING, demo_thread UNUSED]) = Ok (2, k') \<and> sizes_agree (k_proc k')"
proof -
  let ?k = "demo_tkernel [demo_thread RUNNING, demo_thread UNUSED]"
  obtain k' where k': "clone demo_tops 0 0x100 7 8 0x3000 ?k = Ok (2, k')"
    using demo_clone by blast
  have k: "sizes_agree (k_proc ?k)" "0 < length (k_proc ?k)" "t_state (k_proc ?k ! 0) \<noteq> UNUSED"
    by (simp_all add: demo_tkernel_def demo_thread_def sizes_agree_def)
  have "(2 :: 32 word) \<noteq> -1" by simp
  with sizes_agree_preserved [OF k(1) demo_tcpu_wf k(2,3)] k' show ?thesis by blast
qed

end
