(* ===== verification/UThreads.thy ===== *)
theory UThreads
  imports Proc "HOL-Library.Signed_Division"
begin

text \<open>
  P3B, the thread library of \<open>ulib.c\<close>: \<open>thread_create\<close> and \<open>thread_join\<close> with their table of the
  stacks they allocated, over the system calls \<open>clone\<close> and \<open>join\<close> and the allocator, and the ticket
  lock, whose threads interleave at its atomic \<open>xaddl\<close>.
\<close>

section \<open>Creating and joining\<close>

text \<open>What the library calls, over the state \<open>'w\<close> of the heap and the kernel: \<open>join\<close> returns the pid
  and the stack it stored.\<close>

record 'w ucalls =
  uc_malloc :: "uint \<Rightarrow> 'w \<Rightarrow> (uint \<times> 'w) res"
  uc_free :: "uint \<Rightarrow> 'w \<Rightarrow> 'w res"
  uc_clone :: "uint \<Rightarrow> uint \<Rightarrow> uint \<Rightarrow> uint \<Rightarrow> 'w \<Rightarrow> (int32 \<times> 'w) res"
  uc_join :: "'w \<Rightarrow> (int32 \<times> uint \<times> 'w) res"

record 'w ulib =
  ul_addresses :: "uint list"
  ul_pids :: "int32 list"
  ul_rest :: 'w

definition ulib_start :: "'w \<Rightarrow> 'w ulib" where
  "ulib_start w = \<lparr>ul_addresses = replicate 64 0, ul_pids = replicate 64 0, ul_rest = w\<rparr>"

text \<open>The address rounded up to a page; \<open>%\<close> is that of \<open>int\<close>.\<close>

definition stack_page :: "uint \<Rightarrow> uint" where
  "stack_page a =
     (let extra = sint a smod 4096 in
      if extra \<noteq> 0 then a + PGSIZE - of_int extra else a)"

definition remember :: "uint \<Rightarrow> int32 \<Rightarrow> 'w ulib \<Rightarrow> 'w ulib" where
  "remember a pid l =
     (case find_idx (\<lambda>x. x = 0) (ul_addresses l) of
        None \<Rightarrow> l
      | Some i \<Rightarrow> l\<lparr>ul_addresses := (ul_addresses l)[i := a], ul_pids := (ul_pids l)[i := pid]\<rparr>)"

definition thread_create ::
  "'w ucalls \<Rightarrow> uint \<Rightarrow> uint \<Rightarrow> uint \<Rightarrow> 'w ulib \<Rightarrow> (int32 \<times> 'w ulib) res" where
  "thread_create u f arg1 arg2 l =
     rbind (uc_malloc u (2 * PGSIZE) (ul_rest l)) (\<lambda>(a, w).
       if a = 0 then Ok (-1, l\<lparr>ul_rest := w\<rparr>)
       else rbind (uc_clone u f arg1 arg2 (stack_page a) w) (\<lambda>(pid, w).
         if pid \<noteq> -1 then Ok (pid, remember a pid (l\<lparr>ul_rest := w\<rparr>))
         else rbind (uc_free u a w) (\<lambda>w. Ok (pid, l\<lparr>ul_rest := w\<rparr>))))"

text \<open>The loop of \<open>thread_join\<close> over the slots: it does not stop at the first match.\<close>

fun reclaim :: "'w ucalls \<Rightarrow> int32 \<Rightarrow> nat list \<Rightarrow> 'w ulib \<Rightarrow> 'w ulib res" where
  "reclaim u pid [] l = Ok l"
| "reclaim u pid (i # is) l =
     (if ul_pids l ! i = pid then
        rbind (uc_free u (ul_addresses l ! i) (ul_rest l)) (\<lambda>w.
          reclaim u pid is (l\<lparr>ul_pids := (ul_pids l)[i := -1], ul_addresses := (ul_addresses l)[i := 0],
                              ul_rest := w\<rparr>))
      else reclaim u pid is l)"

definition thread_join :: "'w ucalls \<Rightarrow> 'w ulib \<Rightarrow> (int32 \<times> 'w ulib) res" where
  "thread_join u l =
     rbind (uc_join u (ul_rest l)) (\<lambda>(pid, stack, w).
       if pid \<noteq> -1 then
         rbind (reclaim u pid [0..<64] (l\<lparr>ul_rest := w\<rparr>)) (\<lambda>l. Ok (pid, l))
       else Ok (-1, l\<lparr>ul_rest := w\<rparr>))"

lemma ul_rest_start [simp]: "ul_rest (ulib_start w) = w"
  by (simp add: ulib_start_def)

section \<open>The table of stacks\<close>

text \<open>The map from pids to allocated stacks that the two arrays stand for.\<close>

definition stacks :: "'w ulib \<Rightarrow> int32 \<rightharpoonup> uint" where
  "stacks l pid =
     (case find_idx (\<lambda>i. ul_pids l ! i = pid \<and> ul_addresses l ! i \<noteq> 0) [0..<64] of
        None \<Rightarrow> None
      | Some i \<Rightarrow> Some (ul_addresses l ! i))"

definition taken_slots :: "'w ulib \<Rightarrow> nat set" where
  "taken_slots l = {i. i < 64 \<and> ul_addresses l ! i \<noteq> 0}"

definition ulib_wf :: "'w ulib \<Rightarrow> bool" where
  "ulib_wf l \<longleftrightarrow> length (ul_addresses l) = 64 \<and> length (ul_pids l) = 64 \<and>
     (\<forall>i<64. ul_pids l ! i \<in> {0, -1} \<longleftrightarrow> ul_addresses l ! i = 0) \<and>
     inj_on (\<lambda>i. ul_pids l ! i) (taken_slots l)"

lemma taken_slots_iff: "i \<in> taken_slots l \<longleftrightarrow> i < 64 \<and> ul_addresses l ! i \<noteq> 0"
  by (simp add: taken_slots_def)

lemma ulib_wfD:
  assumes "ulib_wf l"
  shows "length (ul_addresses l) = 64" and "length (ul_pids l) = 64"
    and "i < 64 \<Longrightarrow> ul_addresses l ! i = 0 \<longleftrightarrow> ul_pids l ! i = 0 \<or> ul_pids l ! i = -1"
    and "i \<in> taken_slots l \<Longrightarrow> j \<in> taken_slots l \<Longrightarrow> ul_pids l ! i = ul_pids l ! j \<Longrightarrow> i = j"
  using assms unfolding ulib_wf_def by (auto dest: inj_onD)

lemma ulib_wf_start: "ulib_wf (ulib_start w)"
  by (auto simp: ulib_wf_def ulib_start_def taken_slots_def inj_on_def)

lemma ulib_wfI:
  "length (ul_addresses l) = 64 \<Longrightarrow> length (ul_pids l) = 64 \<Longrightarrow>
   (\<And>i. i < 64 \<Longrightarrow> ul_pids l ! i = 0 \<or> ul_pids l ! i = -1 \<longleftrightarrow> ul_addresses l ! i = 0) \<Longrightarrow>
   inj_on (\<lambda>i. ul_pids l ! i) (taken_slots l) \<Longrightarrow> ulib_wf l"
  by (simp add: ulib_wf_def)

lemma wf_slot:
  assumes "ulib_wf l" and "i < 64" and "ul_pids l ! i = pid" and "pid \<notin> {0, -1}"
    and "j < 64" and "ul_pids l ! j = pid"
  shows "j = i"
proof -
  have "i \<in> taken_slots l" "j \<in> taken_slots l"
    using assms ulib_wfD(3) [OF assms(1), of i] ulib_wfD(3) [OF assms(1), of j]
    by (simp_all add: taken_slots_iff)
  from ulib_wfD(4) [OF assms(1) this] assms(3,6) show ?thesis by simp
qed

lemma stacks_start: "stacks (ulib_start w) = Map.empty"
  by (rule ext) (auto simp: stacks_def ulib_start_def split: option.splits dest!: find_idx_SomeD)

lemma stacks_None: "stacks l pid = None \<longleftrightarrow> (\<forall>i<64. ul_addresses l ! i \<noteq> 0 \<longrightarrow> ul_pids l ! i \<noteq> pid)"
  by (auto simp: stacks_def split: option.splits dest!: find_idx_SomeD)

lemma stacks_Some:
  assumes "ulib_wf l"
  shows "stacks l pid = Some a \<longleftrightarrow> (\<exists>i<64. ul_addresses l ! i = a \<and> a \<noteq> 0 \<and> ul_pids l ! i = pid)"
proof
  assume "stacks l pid = Some a"
  then show "\<exists>i<64. ul_addresses l ! i = a \<and> a \<noteq> 0 \<and> ul_pids l ! i = pid"
    by (auto simp: stacks_def split: option.splits dest!: find_idx_SomeD)
next
  assume "\<exists>i<64. ul_addresses l ! i = a \<and> a \<noteq> 0 \<and> ul_pids l ! i = pid"
  then obtain i where i: "i < 64" "ul_addresses l ! i = a" "a \<noteq> 0" "ul_pids l ! i = pid" by blast
  then obtain b where b: "stacks l pid = Some b" using stacks_None [of l pid] by (cases "stacks l pid") auto
  then obtain j where j: "j < 64" "ul_addresses l ! j = b" "b \<noteq> 0" "ul_pids l ! j = pid"
    by (auto simp: stacks_def split: option.splits dest!: find_idx_SomeD)
  have "j = i" using assms i j unfolding ulib_wf_def taken_slots_def by (auto dest: inj_onD)
  with b i j show "stacks l pid = Some a" by simp
qed

lemma stacks_eqI:
  assumes "ulib_wf l" and "\<And>pid a. (\<exists>i<64. ul_addresses l ! i = a \<and> a \<noteq> 0 \<and> ul_pids l ! i = pid) \<longleftrightarrow> m pid = Some a"
  shows "stacks l = m"
proof (rule ext)
  fix pid
  have "stacks l pid = Some a \<longleftrightarrow> m pid = Some a" for a
    using stacks_Some [OF assms(1), of pid a] assms(2) [of a pid] by simp
  then show "stacks l pid = m pid" by (cases "m pid"; cases "stacks l pid") auto
qed

lemma remember_stacks:
  assumes wf: "ulib_wf l" and room: "0 \<in> set (ul_addresses l)" and a: "a \<noteq> 0"
    and pid: "pid \<notin> {0, -1}" "stacks l pid = None"
  shows "ulib_wf (remember a pid l) \<and> stacks (remember a pid l) = (stacks l)(pid \<mapsto> a)"
proof -
  obtain i where "find_idx (\<lambda>x. x = 0) (ul_addresses l) = Some i"
    using find_idx_Some_ex [OF room, of "\<lambda>x. x = 0"] by blast
  with find_idx_SomeD [OF this] wf
  have i: "i < 64" "ul_addresses l ! i = 0"
    and r: "remember a pid l = l\<lparr>ul_addresses := (ul_addresses l)[i := a], ul_pids := (ul_pids l)[i := pid]\<rparr>"
    by (simp_all add: remember_def ulib_wf_def)
  have new: "\<forall>j<64. ul_addresses l ! j \<noteq> 0 \<longrightarrow> ul_pids l ! j \<noteq> pid" using pid(2) by (simp add: stacks_None)
  have t: "taken_slots (remember a pid l) = insert i (taken_slots l)"
    using wf i a unfolding r by (auto simp: taken_slots_def nth_list_update ulib_wf_def split: if_splits)
  have inj: "inj_on (\<lambda>j. ul_pids (remember a pid l) ! j) (insert i (taken_slots l))"
    using ulib_wfD(2) [OF wf] i(1) new
    by (auto simp: r inj_on_def nth_list_update taken_slots_iff intro: ulib_wfD(4) [OF wf])
  have wf': "ulib_wf (remember a pid l)"
  proof (rule ulib_wfI)
    show "inj_on (\<lambda>j. ul_pids (remember a pid l) ! j) (taken_slots (remember a pid l))"
      using inj by (simp only: t)
  qed (use ulib_wfD(1,2,3) [OF wf] i a pid(1) in \<open>auto simp: r nth_list_update\<close>)
  have "stacks (remember a pid l) = (stacks l)(pid \<mapsto> a)"
  proof (rule stacks_eqI [OF wf'])
    fix p b
    show "(\<exists>j<64. ul_addresses (remember a pid l) ! j = b \<and> b \<noteq> 0 \<and> ul_pids (remember a pid l) ! j = p) \<longleftrightarrow>
        ((stacks l)(pid \<mapsto> a)) p = Some b"
      using stacks_Some [OF wf, of p b] wf i a new unfolding r
      by (auto simp: ulib_wf_def nth_list_update)
  qed
  with wf' show ?thesis ..
qed


lemma reclaim_none: "\<forall>i\<in>set is. ul_pids l ! i \<noteq> pid \<Longrightarrow> reclaim u pid is l = Ok l"
  by (induction "is") auto

definition forget :: "nat \<Rightarrow> 'w \<Rightarrow> 'w ulib \<Rightarrow> 'w ulib" where
  "forget i w l = l\<lparr>ul_pids := (ul_pids l)[i := -1], ul_addresses := (ul_addresses l)[i := 0], ul_rest := w\<rparr>"

lemma reclaim_one:
  assumes "i \<in> set is" "distinct is" "ul_pids l ! i = pid"
    and "\<forall>j\<in>set is. ul_pids l ! j = pid \<longrightarrow> j = i"
  shows "reclaim u pid is l = rbind (uc_free u (ul_addresses l ! i) (ul_rest l)) (\<lambda>w. Ok (forget i w l))"
  using assms
proof (induction "is")
  case Nil
  then show ?case by simp
next
  case (Cons j js)
  show ?case
  proof (cases "j = i")
    case True
    have "ul_pids (forget i w l) ! k \<noteq> pid" if k: "k \<in> set js" for w k
    proof -
      have "k \<noteq> i" using True Cons.prems(2) k by auto
      moreover from this have "ul_pids l ! k \<noteq> pid" using Cons.prems(4) k by auto
      ultimately show ?thesis by (simp add: forget_def)
    qed
    then have "reclaim u pid js (forget i w l) = Ok (forget i w l)" for w
      by (intro reclaim_none ballI)
    with True Cons.prems(3) show ?thesis by (simp add: forget_def)
  next
    case False
    with Cons.prems(1,2) have "i \<in> set js" "distinct js" by simp_all
    note this = Cons.IH [OF this Cons.prems(3)]
    moreover have "ul_pids l ! j \<noteq> pid" using Cons.prems(4) False by auto
    ultimately show ?thesis using Cons.prems(4) by simp
  qed
qed

lemma forget_stacks:
  assumes "ulib_wf l" and "i < 64" and "ul_addresses l ! i \<noteq> 0"
  shows "ulib_wf (forget i w l) \<and> stacks (forget i w l) = (stacks l)(ul_pids l ! i := None)"
proof -
  have t: "taken_slots (forget i w l) = taken_slots l - {i}"
    using assms by (auto simp: forget_def taken_slots_def nth_list_update ulib_wf_def split: if_splits)
  have "inj_on (\<lambda>j. ul_pids (forget i w l) ! j) (taken_slots l - {i})"
    by (auto simp: inj_on_def forget_def intro: ulib_wfD(4) [OF assms(1)])
  then have inj: "inj_on (\<lambda>j. ul_pids (forget i w l) ! j) (taken_slots (forget i w l))" by (simp only: t)
  have wf': "ulib_wf (forget i w l)"
    by (rule ulib_wfI [OF _ _ _ inj])
      (use ulib_wfD(1,2,3) [OF assms(1)] assms(2) in \<open>auto simp: forget_def nth_list_update\<close>)
  have "stacks (forget i w l) = (stacks l)(ul_pids l ! i := None)"
  proof (rule stacks_eqI [OF wf'])
    fix p b
    show "(\<exists>j<64. ul_addresses (forget i w l) ! j = b \<and> b \<noteq> 0 \<and> ul_pids (forget i w l) ! j = p) \<longleftrightarrow>
        ((stacks l)(ul_pids l ! i := None)) p = Some b"
      (is "?new \<longleftrightarrow> ?old")
    proof
      assume ?new
      then obtain j where j: "j < 64" "j \<noteq> i" "ul_addresses l ! j = b" "b \<noteq> 0" "ul_pids l ! j = p"
        using ulib_wfD(1) [OF assms(1)] assms(2) by (auto simp: forget_def nth_list_update split: if_splits)
      have "ul_pids l ! i \<noteq> p"
      proof
        assume "ul_pids l ! i = p"
        then have "i = j" using ulib_wfD(4) [OF assms(1), of i j] j assms(2,3) by (simp add: taken_slots_iff)
        with j(2) show False by simp
      qed
      moreover have "stacks l p = Some b" using j by (subst stacks_Some [OF assms(1)]) blast
      ultimately show ?old by simp
    next
      assume ?old
      then have p: "p \<noteq> ul_pids l ! i" and "stacks l p = Some b" by (auto split: if_splits)
      then obtain j where j: "j < 64" "ul_addresses l ! j = b" "b \<noteq> 0" "ul_pids l ! j = p"
        using stacks_Some [OF assms(1)] by blast
      with p have "j \<noteq> i" by auto
      with j show ?new by (intro exI [of _ j]) (simp add: forget_def)
    qed
  qed
  with wf' show ?thesis ..
qed

lemma reclaim_stacks:
  assumes wf: "ulib_wf l" and pid: "pid \<notin> {0, -1}" and ok: "reclaim u pid [0..<64] l = Ok l'"
  shows "ulib_wf l' \<and> stacks l' = (stacks l)(pid := None) \<and>
    (case stacks l pid of None \<Rightarrow> l' = l | Some a \<Rightarrow> uc_free u a (ul_rest l) = Ok (ul_rest l'))"
proof (cases "stacks l pid")
  case None
  then have "\<forall>i\<in>set [0..<64]. ul_pids l ! i \<noteq> pid"
    using wf pid unfolding stacks_None ulib_wf_def by (metis atLeastLessThan_iff set_upt)
  with reclaim_none [OF this] ok None wf show ?thesis by (auto simp: fun_upd_idem)
next
  case (Some a)
  then obtain i where i: "i < 64" "ul_addresses l ! i = a" "a \<noteq> 0" "ul_pids l ! i = pid"
    using stacks_Some [OF wf] by blast
  have only: "\<forall>j\<in>set [0..<64]. ul_pids l ! j = pid \<longrightarrow> j = i"
    using wf_slot [OF wf i(1,4) pid] by simp
  have "reclaim u pid [0..<64] l = rbind (uc_free u a (ul_rest l)) (\<lambda>w. Ok (forget i w l))"
    unfolding i(2) [symmetric] by (rule reclaim_one [OF _ _ i(4) only]) (use i(1) in simp_all)
  with ok obtain w where "uc_free u a (ul_rest l) = Ok w" "l' = forget i w l"
    by (auto simp: rbind_eq_Ok)
  with forget_stacks [OF wf i(1), of w] i Some show ?thesis by (simp add: forget_def)
qed

lemma ul_rest_update [simp]:
  "stacks (l\<lparr>ul_rest := w\<rparr>) = stacks l" "ulib_wf (l\<lparr>ul_rest := w\<rparr>) = ulib_wf l"
  "remember a pid (l\<lparr>ul_rest := w\<rparr>) = (remember a pid l)\<lparr>ul_rest := w\<rparr>"
  by (simp_all add: fun_eq_iff stacks_def ulib_wf_def taken_slots_def remember_def del: find_idx_None split: option.split)

section \<open>Properties of the library\<close>

text \<open>
  The table of stacks is a map from threads to the blocks they run on. A successful
  \<open>thread_create\<close> adds the block it has allocated under the new pid, and \<open>thread_join\<close> removes the
  entry of the thread it has joined and frees exactly that block, once; a thread that is not in the
  table (one that was created when all 64 slots were taken) has its block freed by nobody.
\<close>

theorem thread_table_is_a_map:
  assumes "ulib_wf l" and "0 \<in> set (ul_addresses l)"
    and "thread_create u f arg1 arg2 l = Ok (pid, l1)" and "pid \<notin> {0, -1}" and "stacks l pid = None"
    and "thread_join u l1 = Ok (pid', l2)" and "pid' \<noteq> 0"
  shows "ulib_wf l1 \<and>
    (\<exists>a w. uc_malloc u (2 * PGSIZE) (ul_rest l) = Ok (a, w) \<and>
       uc_clone u f arg1 arg2 (stack_page a) w = Ok (pid, ul_rest l1) \<and> stacks l1 = (stacks l)(pid \<mapsto> a)) \<and>
    (\<exists>s w. uc_join u (ul_rest l1) = Ok (pid', s, w) \<and>
       (if pid' = -1 then stacks l2 = stacks l1 \<and> ul_rest l2 = w
        else ulib_wf l2 \<and> stacks l2 = (stacks l1)(pid' := None) \<and>
          (case stacks l1 pid' of None \<Rightarrow> ul_rest l2 = w | Some a \<Rightarrow> uc_free u a w = Ok (ul_rest l2))))"
proof -
  from assms(3,4) obtain a w w' where a: "uc_malloc u (2 * PGSIZE) (ul_rest l) = Ok (a, w)" "a \<noteq> 0"
    and c: "uc_clone u f arg1 arg2 (stack_page a) w = Ok (pid, w')"
    and l1: "l1 = (remember a pid l)\<lparr>ul_rest := w'\<rparr>"
    by (auto simp: thread_create_def rbind_eq_Ok split: if_splits)
  note r = remember_stacks [OF assms(1,2) a(2) assms(4,5)]
  from assms(6) obtain s v where j: "uc_join u (ul_rest l1) = Ok (pid', s, v)"
    and rest: "(if pid' \<noteq> -1 then rbind (reclaim u pid' [0..<64] (l1\<lparr>ul_rest := v\<rparr>)) (\<lambda>l. Ok (pid', l))
       else Ok (-1, l1\<lparr>ul_rest := v\<rparr>)) = Ok (pid', l2)"
    by (auto simp: thread_join_def rbind_eq_Ok split: if_splits)
  have "if pid' = -1 then stacks l2 = stacks l1 \<and> ul_rest l2 = v
        else ulib_wf l2 \<and> stacks l2 = (stacks l1)(pid' := None) \<and>
          (case stacks l1 pid' of None \<Rightarrow> ul_rest l2 = v | Some a \<Rightarrow> uc_free u a v = Ok (ul_rest l2))"
    using rest reclaim_stacks [of "l1\<lparr>ul_rest := v\<rparr>" pid' u l2] assms(7) r
    by (auto simp: l1 rbind_eq_Ok split: if_splits option.splits)
  with a c j r show ?thesis by (auto simp: l1)
qed

text \<open>An allocator that hands out one block and records what is freed; the thread gets pid 2.\<close>

definition demo_ucalls :: "uint list ucalls" where
  "demo_ucalls = \<lparr>uc_malloc = (\<lambda>n w. Ok (0x5008, w)), uc_free = (\<lambda>a w. Ok (a # w)),
     uc_clone = (\<lambda>f x y s w. Ok (2, w)), uc_join = (\<lambda>w. Ok (2, 0x6000, w))\<rparr>"

theorem thread_table_is_a_map_witness:
  "\<exists>l1 l2. thread_create demo_ucalls 0x100 7 8 (ulib_start []) = Ok (2, l1) \<and> stacks l1 = [2 \<mapsto> 0x5008] \<and>
     thread_join demo_ucalls l1 = Ok (2, l2) \<and> stacks l2 = Map.empty \<and> ul_rest l2 = [0x5008]"
proof -
  let ?l = "ulib_start [] :: uint list ulib"
  define l1 where l1: "l1 = remember 0x5008 2 (?l\<lparr>ul_rest := []\<rparr>)"
  have c: "thread_create demo_ucalls 0x100 7 8 ?l = Ok (2, l1)"
    unfolding l1 by (simp add: thread_create_def demo_ucalls_def ulib_start_def)
  have wf: "ulib_wf ?l" "0 \<in> set (ul_addresses ?l)" "stacks ?l 2 = None"
    by (simp_all add: ulib_wf_start stacks_start) (simp add: ulib_start_def)
  have p: "(2::int32) \<notin> {0, -1}" "(2::int32) \<noteq> 0" by simp_all
  have r: "ulib_wf l1" "stacks l1 = [2 \<mapsto> 0x5008]"
    using remember_stacks [OF wf(1,2) _ p(1) wf(3), of "0x5008"] by (simp_all add: l1 stacks_start)
  obtain l2 where j: "thread_join demo_ucalls l1 = Ok (2, l2)"
  proof -
    obtain i where i: "i < 64" "ul_pids l1 ! i = 2"
      using stacks_Some [OF r(1), of 2 "0x5008"] r(2) by auto
    have only: "\<forall>j\<in>set [0..<64]. ul_pids (l1\<lparr>ul_rest := w\<rparr>) ! j = 2 \<longrightarrow> j = i" for w
      using wf_slot [OF r(1) i p(1)] by simp
    have "reclaim demo_ucalls 2 [0..<64] (l1\<lparr>ul_rest := w\<rparr>) =
        Ok (forget i (ul_addresses l1 ! i # w) (l1\<lparr>ul_rest := w\<rparr>))" for w
      by (subst reclaim_one [OF _ _ _ only]) (use i in \<open>simp_all add: demo_ucalls_def\<close>)
    moreover have "uc_join demo_ucalls w = Ok (2, 0x6000, w)" for w by (simp add: demo_ucalls_def)
    ultimately show ?thesis using that by (simp add: thread_join_def del: upt_rec_numeral)
  qed
  from thread_table_is_a_map [OF wf(1,2) c p(1) wf(3) j p(2)] r(2) c j show ?thesis
    by (auto simp: demo_ucalls_def)
qed


text \<open>
  the stack of a thread fits the block that was allocated for it: for a block of two pages
  in user memory (which ends at \<open>0x80000000\<close>), \<open>stack_page\<close> is a multiple of the page size, as
  \<open>clone\<close> demands, and the page it starts lies inside the block.
\<close>

theorem stack_page_fits:
  assumes "unat a + 8192 \<le> 2 ^ 31"
  shows "unat (stack_page a) mod 4096 = 0 \<and> unat a \<le> unat (stack_page a) \<and>
    unat (stack_page a) + 4096 \<le> unat a + 8192"
proof -
  have s: "sint a = int (unat a)"
    using assms sint_of_nat_32 [of "unat a"] by simp
  have "int n smod 4096 = int (n mod 4096)" for n
    by (cases "n = 0") (simp_all add: signed_modulo_int_def zmod_int)
  with s have m: "sint a smod 4096 = int (unat a mod 4096)" by (simp only:)
  show ?thesis
  proof (cases "unat a mod 4096 = 0")
    case True
    then show ?thesis using s m by (simp add: stack_page_def)
  next
    case False
    let ?n = "unat a + 4096 - unat a mod 4096"
    have "stack_page a = of_nat ?n"
      using False m by (simp add: stack_page_def Let_def PGSIZE_def of_nat_diff trans_le_add2)
    moreover have "?n < 2 ^ 32" using assms by simp
    ultimately have u: "unat (stack_page a) = ?n" by (simp only: unat_of_nat_32)
    have "?n = 4096 * (unat a div 4096 + 1)" by (simp add: minus_mod_eq_mult_div [symmetric])
    then have "?n mod 4096 = 0" by (metis mod_mult_self1_is_0)
    moreover have "unat a mod 4096 < 4096" "unat a mod 4096 \<le> unat a" by simp_all
    ultimately show ?thesis unfolding u by linarith
  qed
qed

theorem stack_page_fits_witness:
  "unat (0x5008 :: uint) + 8192 \<le> 2 ^ 31 \<and> unat (stack_page 0x5008) mod 4096 = 0 \<and>
   unat (stack_page 0x5008) + 4096 \<le> unat (0x5008 :: uint) + 8192"
  using stack_page_fits [where a = "0x5008"] by simp

section \<open>The ticket lock\<close>

text \<open>
  A thread is outside, spins with the ticket it has drawn, or is inside. Both counters are 32-bit
  integers that wrap; each \<open>xaddl\<close> is one step.
\<close>

datatype ticket_pc = Out | Waiting uint | In

record ticket_lock =
  tl_ticket :: uint
  tl_turn :: uint
  tl_pcs :: "ticket_pc list"

definition lock_init :: "nat \<Rightarrow> ticket_lock" where
  "lock_init n = \<lparr>tl_ticket = 0, tl_turn = 0, tl_pcs = replicate n Out\<rparr>"

definition draw :: "nat \<Rightarrow> ticket_lock \<Rightarrow> ticket_lock" where
  "draw i s = s\<lparr>tl_ticket := tl_ticket s + 1, tl_pcs := (tl_pcs s)[i := Waiting (tl_ticket s)]\<rparr>"

definition spin :: "nat \<Rightarrow> uint \<Rightarrow> ticket_lock \<Rightarrow> ticket_lock" where
  "spin i t s = (if tl_turn s \<noteq> t then s else s\<lparr>tl_pcs := (tl_pcs s)[i := In]\<rparr>)"

definition lock_release :: "nat \<Rightarrow> ticket_lock \<Rightarrow> ticket_lock" where
  "lock_release i s = s\<lparr>tl_turn := tl_turn s + 1, tl_pcs := (tl_pcs s)[i := Out]\<rparr>"

text \<open>A step of thread \<open>i\<close>.\<close>

inductive ticket_step :: "nat \<Rightarrow> ticket_lock \<Rightarrow> ticket_lock \<Rightarrow> bool" where
  drawing: "i < length (tl_pcs s) \<Longrightarrow> tl_pcs s ! i = Out \<Longrightarrow> ticket_step i s (draw i s)"
| spinning: "i < length (tl_pcs s) \<Longrightarrow> tl_pcs s ! i = Waiting t \<Longrightarrow> ticket_step i s (spin i t s)"
| releasing: "i < length (tl_pcs s) \<Longrightarrow> tl_pcs s ! i = In \<Longrightarrow> ticket_step i s (lock_release i s)"

inductive ticket_reach :: "nat \<Rightarrow> ticket_lock \<Rightarrow> bool" for n where
  init: "ticket_reach n (lock_init n)"
| step: "ticket_reach n s \<Longrightarrow> ticket_step i s t \<Longrightarrow> ticket_reach n t"

text \<open>
  The abstract lock is a queue of threads. It represents a state when the threads in it hold
  consecutive tickets from the current turn on, and only its head may be inside.
\<close>

definition queued :: "nat list \<Rightarrow> ticket_lock \<Rightarrow> bool" where
  "queued ws s \<longleftrightarrow> distinct ws \<and>
     (\<forall>i. i \<in> set ws \<longleftrightarrow> i < length (tl_pcs s) \<and> tl_pcs s ! i \<noteq> Out) \<and>
     tl_ticket s = tl_turn s + of_nat (length ws) \<and>
     (\<forall>j<length ws. tl_pcs s ! (ws ! j) = Waiting (tl_turn s + of_nat j) \<or> j = 0 \<and> tl_pcs s ! (ws ! j) = In)"

inductive fifo_step :: "nat \<Rightarrow> nat list \<Rightarrow> nat list \<Rightarrow> bool" where
  join_queue: "i \<notin> set ws \<Longrightarrow> fifo_step i ws (ws @ [i])"
| stay: "i \<in> set ws \<Longrightarrow> fifo_step i ws ws"
| leave: "fifo_step i (i # ws) ws"

lemma queued_init: "queued [] (lock_init n)"
  by (simp add: queued_def lock_init_def)

lemma queued_length:
  assumes "queued ws s"
  shows "length ws \<le> length (tl_pcs s)"
proof -
  have "set ws \<subseteq> {..<length (tl_pcs s)}" "distinct ws" using assms by (auto simp: queued_def)
  then have "card (set ws) \<le> length (tl_pcs s)" by (metis card_lessThan card_mono finite_lessThan)
  with \<open>distinct ws\<close> show ?thesis by (simp add: distinct_card)
qed


lemma of_nat_32_eq_iff:
  assumes "m < 2 ^ 32" and "n < 2 ^ 32"
  shows "(of_nat m :: uint) = of_nat n \<longleftrightarrow> m = n"
  using assms unat_of_nat_32 by metis

lemma queued_waiting_turn:
  assumes "queued ws s" and "length (tl_pcs s) < 2 ^ 32" and "i \<in> set ws"
    and "tl_pcs s ! i = Waiting (tl_turn s)"
  shows "\<exists>ws'. ws = i # ws'"
proof -
  from assms(3) obtain j where j: "j < length ws" "ws ! j = i" by (auto simp: in_set_conv_nth)
  with assms(1,4) have "(of_nat j :: uint) = of_nat 0" by (force simp: queued_def)
  then have "j = 0" using j(1) queued_length [OF assms(1)] assms(2) by (subst (asm) of_nat_32_eq_iff) simp_all
  with j show ?thesis by (cases ws) auto
qed

lemma queued_head_In:
  assumes "queued ws s" and "i < length (tl_pcs s)" and "tl_pcs s ! i = In"
  shows "\<exists>ws'. ws = i # ws'"
proof -
  from assms have "i \<in> set ws" by (simp add: queued_def)
  then obtain j where j: "j < length ws" "ws ! j = i" by (auto simp: in_set_conv_nth)
  with assms(1,3) have "j = 0" by (fastforce simp: queued_def)
  with j show ?thesis by (cases ws) auto
qed

lemma queued_draw:
  assumes q: "queued ws s" and i: "i < length (tl_pcs s)" "tl_pcs s ! i = Out"
  shows "queued (ws @ [i]) (draw i s)"
proof -
  have n: "i \<notin> set ws" using q i by (simp add: queued_def)
  show ?thesis
    unfolding queued_def
  proof (intro conjI allI impI)
    fix j assume "j < length (ws @ [i])"
    then show "tl_pcs (draw i s) ! ((ws @ [i]) ! j) = Waiting (tl_turn (draw i s) + of_nat j) \<or>
        j = 0 \<and> tl_pcs (draw i s) ! ((ws @ [i]) ! j) = In"
    proof (cases "j < length ws")
      case True
      then have "ws ! j \<noteq> i" using n nth_mem by blast
      with True q show ?thesis by (simp add: queued_def draw_def nth_append)
    next
      case False
      with \<open>j < length (ws @ [i])\<close> have "j = length ws" by simp
      with q i show ?thesis by (simp add: queued_def draw_def)
    qed
  next
    fix k show "k \<in> set (ws @ [i]) \<longleftrightarrow> k < length (tl_pcs (draw i s)) \<and> tl_pcs (draw i s) ! k \<noteq> Out"
      using q i by (auto simp: queued_def draw_def nth_list_update)
  qed (use q n in \<open>auto simp: queued_def draw_def\<close>)
qed

lemma queued_spin:
  assumes q: "queued ws s" and l: "length (tl_pcs s) < 2 ^ 32"
    and i: "i < length (tl_pcs s)" "tl_pcs s ! i = Waiting t"
  shows "queued ws (spin i t s)"
proof (cases "tl_turn s = t")
  case False
  with q show ?thesis by (simp add: spin_def)
next
  case True
  have "i \<in> set ws" using q i by (simp add: queued_def)
  from queued_waiting_turn [OF q l this] i(2) True obtain ws' where ws: "ws = i # ws'" by blast
  have "ws' ! j \<noteq> i" if "j < length ws'" for j using q that nth_mem by (fastforce simp: queued_def ws)
  with True q i show ?thesis
    unfolding ws queued_def by (auto simp: spin_def nth_list_update nth_Cons split: nat.splits)
qed

lemma queued_release:
  assumes q: "queued (i # ws) s" and i: "i < length (tl_pcs s)"
  shows "queued ws (lock_release i s)"
proof -
  have n: "i \<notin> set ws" using q by (simp add: queued_def)
  show ?thesis
    unfolding queued_def
  proof (intro conjI allI impI)
    fix j assume j: "j < length ws"
    have "tl_pcs s ! (ws ! j) = Waiting (tl_turn s + of_nat (Suc j))"
      using q j unfolding queued_def by (force dest: spec [of _ "Suc j"])
    moreover have "ws ! j \<noteq> i" using n j nth_mem by blast
    ultimately show "tl_pcs (lock_release i s) ! (ws ! j) = Waiting (tl_turn (lock_release i s) + of_nat j) \<or>
        j = 0 \<and> tl_pcs (lock_release i s) ! (ws ! j) = In"
      by (simp add: lock_release_def add.commute add.left_commute)
  next
    fix k show "k \<in> set ws \<longleftrightarrow> k < length (tl_pcs (lock_release i s)) \<and> tl_pcs (lock_release i s) ! k \<noteq> Out"
      using q i n by (auto simp: queued_def lock_release_def nth_list_update)
  qed (use q in \<open>auto simp: queued_def lock_release_def\<close>)
qed

lemma ticket_step_simulated:
  assumes "ticket_step i s t" and "queued ws s" and "length (tl_pcs s) < 2 ^ 32"
  shows "\<exists>ws'. queued ws' t \<and> fifo_step i ws ws'"
  using assms
proof (cases rule: ticket_step.cases)
  case drawing
  with assms have "i \<notin> set ws" by (simp add: queued_def)
  with drawing queued_draw [OF assms(2)] show ?thesis by (blast intro: join_queue)
next
  case (spinning t)
  with assms have "i \<in> set ws" by (simp add: queued_def)
  with spinning queued_spin [OF assms(2,3)] show ?thesis by (blast intro: stay)
next
  case releasing
  then obtain ws' where "ws = i # ws'" using queued_head_In [OF assms(2)] by blast
  with releasing queued_release assms(2) show ?thesis by (blast intro: leave)
qed

lemma ticket_step_length: "ticket_step i s t \<Longrightarrow> length (tl_pcs t) = length (tl_pcs s)"
  by (auto elim!: ticket_step.cases simp: draw_def spin_def lock_release_def)

lemma ticket_reach_queued:
  assumes "ticket_reach n s" and "n < 2 ^ 32"
  shows "length (tl_pcs s) = n \<and> (\<exists>ws. queued ws s)"
  using assms
proof (induction rule: ticket_reach.induct)
  case init
  then show ?case using queued_init [of n] by (auto simp: lock_init_def)
next
  case (step s i t)
  then obtain ws where "queued ws s" "length (tl_pcs s) = n" by blast
  with ticket_step_simulated [OF step.hyps(2)] ticket_step_length [OF step.hyps(2)] step.prems
  show ?case by fastforce
qed

text \<open>
  C15: the ticket lock is a fair queue. For fewer than \<open>2 ^ 32\<close> threads every reachable state
  represents a queue, and each step of a thread is a step of the queue: the thread joins at the
  end, stays where it is, or leaves from the head; although the counters wrap around, at most one
  thread is inside, it is the head, and whenever somebody waits and nobody is inside, the head's
  next look at the counter lets it in.
\<close>

theorem ticket_lock_is_fifo:
  assumes "ticket_reach n s" and "n < 2 ^ 32"
  shows "\<exists>ws. queued ws s \<and>
    (\<forall>i t. ticket_step i s t \<longrightarrow> (\<exists>ws'. queued ws' t \<and> fifo_step i ws ws')) \<and>
    (\<forall>i<n. tl_pcs s ! i = In \<longrightarrow> (\<exists>ws'. ws = i # ws')) \<and>
    (\<forall>i ws'. ws = i # ws' \<longrightarrow> tl_pcs s ! i \<noteq> In \<longrightarrow>
       tl_pcs s ! i = Waiting (tl_turn s) \<and> tl_pcs (spin i (tl_turn s) s) ! i = In)"
proof -
  from ticket_reach_queued [OF assms] obtain ws where l: "length (tl_pcs s) = n" and q: "queued ws s" by blast
  have "tl_pcs s ! i = Waiting (tl_turn s) \<and> tl_pcs (spin i (tl_turn s) s) ! i = In"
    if "ws = i # ws'" "tl_pcs s ! i \<noteq> In" for i ws'
  proof -
    have "i \<in> set ws" using that by simp
    then have "i < length (tl_pcs s)" using q by (simp add: queued_def)
    moreover have "tl_pcs s ! (ws ! 0) = Waiting (tl_turn s + of_nat 0)"
      using q that by (force simp: queued_def)
    ultimately show ?thesis using that by (simp add: spin_def)
  qed
  with q ticket_step_simulated [OF _ q] queued_head_In [OF q] l assms(2) show ?thesis by blast
qed

text \<open>Two threads: the first is inside, the second waits.\<close>

theorem ticket_lock_is_fifo_witness:
  "\<exists>s ws. ticket_reach 2 s \<and> tl_pcs s = [In, Waiting 1] \<and> queued ws s \<and>
     (\<forall>i<2. tl_pcs s ! i = In \<longrightarrow> (\<exists>ws'. ws = i # ws'))"
proof -
  have 0: "ticket_reach 2 \<lparr>tl_ticket = 0, tl_turn = 0, tl_pcs = [Out, Out]\<rparr>"
    using ticket_reach.init [of 2] by (simp add: lock_init_def numeral_2_eq_2)
  from ticket_reach.step [OF 0 ticket_step.drawing [of 0]]
  have 1: "ticket_reach 2 \<lparr>tl_ticket = 1, tl_turn = 0, tl_pcs = [Waiting 0, Out]\<rparr>" by (simp add: draw_def)
  from ticket_reach.step [OF 1 ticket_step.drawing [of 1]]
  have 2: "ticket_reach 2 \<lparr>tl_ticket = 2, tl_turn = 0, tl_pcs = [Waiting 0, Waiting 1]\<rparr>" by (simp add: draw_def)
  from ticket_reach.step [OF 2 ticket_step.spinning [of 0 _ 0]]
  have 3: "ticket_reach 2 \<lparr>tl_ticket = 2, tl_turn = 0, tl_pcs = [In, Waiting 1]\<rparr>" by (simp add: spin_def)
  let ?s = "\<lparr>tl_ticket = 2, tl_turn = 0, tl_pcs = [In, Waiting 1]\<rparr>"
  have "(2::nat) < 2 ^ 32" by simp
  from ticket_lock_is_fifo [OF 3 this] obtain ws where "queued ws ?s"
    "\<forall>i<2. tl_pcs ?s ! i = In \<longrightarrow> (\<exists>ws'. ws = i # ws')"
    by (elim exE conjE) (rule that; assumption)
  with 3 show ?thesis by (intro exI [of _ ?s] exI [of _ ws]) simp
qed

end
