(* ===== verification/MemStat.thy ===== *)
theory MemStat
  imports MemEncDemo
begin

text \<open>P4: what the two statistics calls get wrong, and what growing leaves in cleartext.\<close>

section \<open>The pages \<open>getpgtable\<close> looks at\<close>

lemma search_pages_entries:
  assumes "search_pages M wset pgdir n room a m = Ok es"
  shows "\<forall>e\<in>set es. \<exists>i<n. pe_pdx e = PDX (a - of_nat i * 4096) \<and> pe_ptx e = PTX (a - of_nat i * 4096)"
  using assms
proof (induction n arbitrary: room a es)
  case 0
  then show ?case by simp
next
  case (Suc n)
  have shift: "\<exists>i<Suc n. pe_pdx e = PDX (a - of_nat i * 4096) \<and> pe_ptx e = PTX (a - of_nat i * 4096)"
    if i: "\<exists>i<n. pe_pdx e = PDX (a - 4096 - of_nat i * 4096) \<and> pe_ptx e = PTX (a - 4096 - of_nat i * 4096)" for e
  proof -
    from i obtain i where "i < n" "pe_pdx e = PDX (a - 4096 - of_nat i * 4096)"
        "pe_ptx e = PTX (a - 4096 - of_nat i * 4096)" by blast
    moreover have "a - 4096 - of_nat i * 4096 = a - of_nat (Suc i) * 4096" by (simp add: algebra_simps)
    ultimately show ?thesis by (intro exI [of _ "Suc i"]) simp
  qed
  show ?case
  proof (cases "room \<le> 0")
    case True
    with Suc.prems show ?thesis by simp
  next
    case False
    with Suc.prems obtain pte where pte: "pte_of pgdir a m = Some pte" by (cases "pte_of pgdir a m") auto
    show ?thesis
    proof (cases "wanted M wset (v_pte m pte)")
      case True
      with Suc.prems False pte obtain es' where es': "search_pages M wset pgdir n (room - 1) (a - 4096) m = Ok es'"
        and es: "es = pt_entry_of M a (v_pte m pte) # es'" by (auto simp: rbind_eq_Ok)
      have "\<exists>i<Suc n. pe_pdx (hd es) = PDX (a - of_nat i * 4096) \<and> pe_ptx (hd es) = PTX (a - of_nat i * 4096)"
        by (rule exI [of _ 0]) (simp add: pt_entry_of_def es)
      moreover have "\<exists>i<Suc n. pe_pdx e = PDX (a - of_nat i * 4096) \<and> pe_ptx e = PTX (a - of_nat i * 4096)"
        if "e \<in> set es'" for e using Suc.IH [OF es'] that by (intro shift) blast
      ultimately show ?thesis unfolding es by simp
    next
      case no: False
      with Suc.prems False pte have "search_pages M wset pgdir n room (a - 4096) m = Ok es" by simp
      from Suc.IH [OF this] shift show ?thesis by blast
    qed
  qed
qed

text \<open>
  \<open>getpgtable\<close> never reports the first page. The search goes down from the page that holds the
  size, which is the page above the last one when the size is a multiple of the page size, and stops
  after as many pages as the process has; so no entry it returns is that of page 0.
\<close>

theorem getpgtable_misses_first_page:
  assumes "getpgtable M entries num wset (p, m) = Ok (r, es)"
  shows "\<not> list_ex (\<lambda>e. pe_pdx e = 0 \<and> pe_ptx e = 0) es"
proof (cases "es = []")
  case False
  let ?n = "unat (mp_sz p div 4096)"
  from assms False have "search_pages M (wset = 1) (mp_pgdir p) ?n (sint num) (PGROUNDDOWN (mp_sz p)) m = Ok es"
    by (auto simp: getpgtable_def rbind_eq_Ok split: if_splits)
  note s = search_pages_entries [OF this]
  show ?thesis unfolding list_ex_iff
  proof (intro notI, elim bexE)
    fix e assume "e \<in> set es" and z: "pe_pdx e = 0 \<and> pe_ptx e = 0"
    with s obtain i where i: "i < ?n" "PDX (PGROUNDDOWN (mp_sz p) - of_nat i * 4096) = 0"
      "PTX (PGROUNDDOWN (mp_sz p) - of_nat i * 4096) = 0" by auto
    have n: "?n = unat (mp_sz p) div 4096" by (simp add: unat_div_distrib)
    have top: "unat (PGROUNDDOWN (mp_sz p)) = ?n * 4096"
      by (simp add: unat_pgrounddown n minus_mod_eq_div_mult)
    have lt: "?n * 4096 < 2 ^ 32" unfolding top [symmetric] using unsigned_less [of "PGROUNDDOWN (mp_sz p)"] by simp
    have "i * 4096 \<le> ?n * 4096" using i(1) by simp
    then have u: "unat (of_nat i * 4096 :: uint) = i * 4096"
    proof -
      have "(of_nat i * 4096 :: uint) = of_nat (i * 4096)" by simp
      moreover have "unat (of_nat (i * 4096) :: uint) = i * 4096"
        using lt \<open>i * 4096 \<le> ?n * 4096\<close> by (intro unat_of_nat_32) linarith
      ultimately show ?thesis by simp
    qed
    have "PGROUNDDOWN (PGROUNDDOWN (mp_sz p) - of_nat i * 4096) = PGROUNDDOWN 0"
      using i(2,3) page_indices [of "PGROUNDDOWN (mp_sz p) - of_nat i * 4096" 0]
      by (simp add: PDX_def PTX_def)
    then have "unat (PGROUNDDOWN (PGROUNDDOWN (mp_sz p) - of_nat i * 4096)) = 0" by (simp add: PGROUNDDOWN_def)
    moreover have "unat (PGROUNDDOWN (mp_sz p) - of_nat i * 4096) = (?n - i) * 4096"
      using u top \<open>i * 4096 \<le> ?n * 4096\<close> by (simp add: unat_sub word_le_nat_alt diff_mult_distrib)
    ultimately show False using i(1) by (simp add: unat_pgrounddown)
  qed
qed simp

theorem getpgtable_misses_first_page_witness:
  "getpgtable demo_par 0x100 4 0 (demo_mproc, demo_one 0x202007) = Ok (0, []) \<and>
   user_page demo_par 0x80200000 0 (demo_one 0x202007) \<and>
   \<not> list_ex (\<lambda>e. pe_pdx e = 0 \<and> pe_ptx e = 0) ([] :: pt_entry list)"
proof -
  have g: "PGROUNDDOWN 0x1000 = 0x1000" "PGROUNDDOWN 0 = 0" by (simp_all add: PGROUNDDOWN_def)
  have pte: "pte_of 0x80200000 0x1000 (demo_one w) = Some 0x80201004" for w
    by (simp add: demo_pte_of PDX_def PTX_def)
  have r: "getpgtable demo_par 0x100 4 0 (demo_mproc, demo_one 0x202007) = Ok (0, [])"
    by (simp add: getpgtable_def demo_mproc_def g pte wanted_def) (simp add: demo_one_def)
  have "user_page demo_par 0x80200000 0 (demo_one 0x202007)"
    unfolding demo_user by (simp add: g in_use_def demo_par_def PTE_P_def PTE_U_def)
  then show ?thesis using getpgtable_misses_first_page [OF r] r by blast
qed

section \<open>Writing to an encrypted page\<close>

lemma copyout_one_page:
  assumes "len \<noteq> 0" and "unat (va AND 4095) + unat len \<le> 4096"
    and "uva2ka M pgdir (PGROUNDDOWN va) m = Ok ka" and "ka \<noteq> 0"
  shows "copyout M pgdir va buf len m = Ok (0, copy_bytes (ka + (va AND 4095)) buf len m)"
proof -
  let ?off = "va AND 4095"
  have off: "va - PGROUNDDOWN va = ?off" by (simp add: pgrounddown_minus)
  have lt: "unat ?off < 4096" by (simp add: unat_and_4095)
  then have u: "unat (4096 - ?off) = 4096 - unat ?off" by (simp add: unat_sub word_le_nat_alt)
  have n: "(if 4096 - ?off > len then len else 4096 - ?off) = len"
    using assms(2) u by (auto simp: word_less_nat_alt word_unat_eq_iff)
  show ?thesis
    by (subst copyout.simps) (use assms(1,3,4) n in \<open>simp add: Let_def off cong: if_cong\<close>)
qed

lemma entry_copy_bytes [simp]: "entry pgdir a (copy_bytes dst src n m) = entry pgdir a m"
  by (simp add: entry_def pte_of_eq pde_of_def copy_bytes_def split: option.split)

text \<open>
  the kernel writes cleartext into encrypted pages. When \<open>copyout\<close> writes into a page that is
  encrypted, it succeeds, and afterwards the process reads the complement of what was written: this is
  what \<open>dump_rawphymem\<close> does to the second page of a buffer that is not page-aligned, for it touches
  (and so decrypts) only the first.
\<close>

theorem copyout_ignores_encryption:
  assumes "space_ok M pgdir m" and "user_page M pgdir va m" and "enc M pgdir m va"
    and "len \<noteq> 0" and "unat (va AND 4095) + unat len \<le> 4096"
  shows "\<exists>m'. copyout M pgdir va buf len m = Ok (0, m') \<and> plain M pgdir va m' = v_byte m buf XOR 0xFF"
proof -
  have u: "user_page M pgdir (PGROUNDDOWN va) m" using assms(2) by (simp add: user_page_def)
  obtain q where q: "pte_of pgdir (PGROUNDDOWN va) m = Some q" using user_page_pte [OF u] by blast
  have f: "frame pgdir (PGROUNDDOWN va) m = frame pgdir va m" by (simp add: frame_def)
  have "frame pgdir va m \<noteq> 0" using assms(1,2) unfolding space_ok_def by blast
  with copyout_one_page [OF assms(4,5), of M pgdir m "frame pgdir va m" buf] u
  have "copyout M pgdir va buf len m = Ok (0, copy_bytes (frame pgdir va m + (va AND 4095)) buf len m)"
    by (simp add: uva2ka_user [OF q] f)
  moreover have "0 < len" using assms(4) by (simp add: word_neq_0_conv)
  then have "plain M pgdir va (copy_bytes (frame pgdir va m + (va AND 4095)) buf len m) = v_byte m buf XOR 0xFF"
    using assms(3) by (simp add: plain_def frame_def enc_def Let_def) (simp add: copy_bytes_def)
  ultimately show ?thesis by blast
qed

theorem copyout_ignores_encryption_witness:
  "\<exists>m'. copyout demo_par 0x80200000 0 0x80300000 4 (demo_one 0x202206) = Ok (0, m') \<and>
     v_byte (demo_one 0x202206) 0x80300000 = 0x41 \<and> plain demo_par 0x80200000 0 m' = 0xBE"
proof -
  let ?m = "demo_one 0x202206"
  have g: "PGROUNDDOWN 0 = 0" by (simp add: PGROUNDDOWN_def)
  have "user_page demo_par 0x80200000 0 ?m"
    unfolding demo_user by (simp add: g in_use_def demo_par_def PTE_P_def PTE_U_def)
  moreover have "enc demo_par 0x80200000 ?m 0" by (simp add: enc_def demo_entry g demo_par_def)
  moreover have "(4 :: uint) \<noteq> 0" "unat (0 AND 4095 :: uint) + unat (4 :: uint) \<le> 4096" by simp_all
  moreover have "space_ok demo_par 0x80200000 ?m" by (rule demo_space) simp
  ultimately show ?thesis
    using copyout_ignores_encryption [of demo_par "0x80200000" ?m 0 4 "0x80300000"] by (simp add: demo_one_def)
qed

end
