(* ===== verification/Spec2Isabelle.thy ===== *)
theory Spec2Isabelle
  imports ShellFun XvShRun ConsoleThm UserProgs Kstring ExecThm RunScanDemo LogAtomic FsDirThm MkfsThm Sysfile SyscallFun Grep UMallocFun UnixUtils WordCount MapReduceThm HashMap ProcFun ThreadsFun UThreads MemStat
begin

text \<open>
  Verification of the seven projects of an operating systems course: two sets of user programs (P1, P2B), a
  threaded MapReduce library (P3A), three versions of the xv6 kernel (P2A with a lottery scheduler, P3B with
  kernel threads, P4 with encrypted memory) and a recovery tool for ext2 images (P5).

  Conventions. A C function is a HOL function from its arguments and the state it reads. \<open>CPrelude\<close> has the
  outcomes: \<open>Ok\<close>, \<open>Panic\<close> with the message of the kernel, \<open>Undef\<close> where C leaves the behaviour undefined, and a
  hang; \<open>rbind\<close> runs one call after another. Machine integers are words of the width of the C type, in place of
  which \<open>int\<close> is used where the values are shown or assumed not to overflow. Pointers into tables are indices.
  Integers in memory are little-endian bytes (\<open>Bytes\<close>); C strings are the lists of their characters in front of
  the terminator, with the C library in \<open>CLib\<close>. Code outside the repository (the C library's sort, the program
  behind \<open>execv\<close>, the random source, the page fault hardware) is a parameter.

  Interfaces. Where one part relies on another, a locale states the contract and its interpretation on the model
  of the code discharges it: \<open>KvMap\<close> (a key-value store: the hash table of P3A and the alias list of P2B),
  \<open>PageAlloc\<close> (an allocator of pages: \<open>kalloc.c\<close>), \<open>BlockCache\<close> (a cache of disk blocks: \<open>bio.c\<close>, used by the log),
  \<open>Channel\<close> (a bounded channel with sleeping and waking: \<open>pipe.c\<close>).

  P1, user programs. \<open>UnixUtils\<close>: \<open>my-look.c\<close> and \<open>wordle.c\<close>, whole. The lines they print are exactly those the
  documentation selects; the two input paths of \<open>my-look\<close> cut long lines differently.

  P2A, the xv6 kernel. Bottom up:
  \<open>SpinLock\<close> (\<open>spinlock.c\<close>, \<open>pushcli\<close>): matched brackets over the interrupt flag, and mutual exclusion of the
  interleaved \<open>xchg\<close> loop.
  \<open>Proc\<close>, \<open>Trap\<close> (\<open>proc.c\<close>, \<open>sysproc.c\<close>, \<open>trap.c\<close>): the process table, every process call and the paths through
  \<open>trap\<close>; \<open>kstep\<close> is one CPU going from one point without locks to the next. \<open>SchedInv\<close>, \<open>SchedSafe\<close>, \<open>SchedThm\<close>:
  the invariant between the CPUs and the process table, its preservation by every handler, and over all
  executions. \<open>Lottery\<close>: who wins; \<open>ProcFun\<close>: what \<open>exit\<close>, \<open>wait\<close> and \<open>sleep\<close> do.
  \<open>BufCache\<close> (\<open>bio.c\<close>, \<open>memide.c\<close>, \<open>sleeplock.c\<close>), \<open>Log\<close> (\<open>log.c\<close>): the disk is a list of blocks with the list of
  the writes made to it, so that a crash is a prefix of the writes. \<open>LogFun\<close>, \<open>LogAtomic\<close>: whatever the prefix,
  recovery gives all updates of a transaction or none. The area of the log is what the superblock says: \<open>mkfs\<close> gives it
  the 30 blocks from block 2 on, and the inodes the blocks from 32 on.
  \<open>Fs\<close>, \<open>FsDir\<close> (\<open>fs.c\<close>): block bitmap, inodes, contents of files, directories, path names. On top, from the laws of
  the cache and the log (\<open>FsLaws\<close>): \<open>FsBlocks\<close> (\<open>balloc\<close> gives a free block, zeroed, that nobody else has), \<open>FsFile\<close>,
  \<open>FsBmap\<close>, \<open>FsWrite\<close>, \<open>FsContents\<close> and \<open>FsThm\<close> (\<open>readi\<close> and \<open>writei\<close> on a file are reading and writing a list of bytes,
  and leave every other file alone), \<open>FsDirThm\<close> (a directory is a map from names), \<open>FsPath\<close> (a path is its elements).
  \<open>Mkfs\<close> (\<open>mkfs.c\<close>): the program that builds the image on the host. \<open>MkfsThm\<close>: it succeeds when the files fit, and on its
  image the kernel finds what \<open>fs_ok\<close> and \<open>file_inv\<close> ask for, with the bytes of every file (\<open>mkfs_file_system\<close>); the
  invariants of the theories above are those of the file systems that this program makes.
  \<open>Pipe\<close> (\<open>pipe.c\<close>), \<open>Files\<close> (\<open>file.c\<close>, \<open>pipealloc\<close>), \<open>Syscall\<close> (\<open>syscall.c\<close>), \<open>Sysfile\<close> (\<open>sysfile.c\<close>): open files and the
  system calls on them, with the arguments fetched from the memory of the process; \<open>SyscallFun\<close>: what is fetched
  lies inside that memory.
  \<open>Kstring\<close> (\<open>string.c\<close>, \<open>memmove\<close> of \<open>ulib.c\<close>): the kernel's copy is right when the regions overlap, the user's is
  right only downwards. \<open>Printf\<close> (\<open>printf.c\<close>, \<open>cprintf\<close>, \<open>atoi\<close>): the format loops; printed numbers read back.
  \<open>Console\<close>, \<open>ConsoleThm\<close> (\<open>console.c\<close>): the input ring refines a line editor; the screen and the cursor.
  \<open>XvSh\<close> (\<open>sh.c\<close>): the shell of xv6, with its parser on the bytes of the line and programs as trees of their system
  calls. \<open>XvShThm\<close>: the parser returns on every line. \<open>XvShRound\<close>: it inverts the printer. \<open>XvShLex\<close>: what it reads depends
  on the tokens of the line alone, not on the blanks between them. \<open>XvShRun\<close>: a command typed with any blanks
  starts every program with the words and the files that its pipes and redirections name.
  \<open>UserProgs\<close>: \<open>wc.c\<close>, \<open>cat.c\<close>, \<open>echo.c\<close> and the names of \<open>ls.c\<close>, over reads that split their input anywhere.
  User programs: \<open>Grep\<close> (\<open>grep.c\<close>) and \<open>UMalloc\<close>, \<open>UMallocRing\<close>, \<open>UMallocFun\<close> (\<open>umalloc.c\<close>: the ring of free blocks is
  a sorted list of disjoint, unmergeable blocks whose union with the blocks in use is the heap).

  P2B, the shell. \<open>Shell\<close> is \<open>mysh.c\<close>, \<open>ShellFun\<close> what it does with a line: aliases, redirections, long lines. The
  vector of arguments comes from \<open>malloc\<close>: what its words hold before they are set is a parameter of the world.

  P3A, MapReduce. \<open>HashMap\<close> (\<open>hashmap.c\<close>): linear probing with resizing is a map. \<open>MapReduce\<close> (\<open>mapreduce.c\<close>,
  \<open>sequential_mapreduce.c\<close>): the mapper threads as a step relation at the granularity of the two mutexes; every
  interleaving gives the same table. \<open>MapReduceThm\<close>: the reducer threads as a step relation (sorting, a call of the
  user's function, a value that it gets, its return); every interleaving calls the user's function as the sequential program does, once for each key, with all
  its values. \<open>WordCount\<close> (\<open>wordcount.c\<close>) on top.

  P3B, kernel threads. \<open>Threads\<close>, \<open>ThreadsFun\<close>: \<open>clone\<close>, \<open>join\<close> and the changed \<open>fork\<close>, \<open>exit\<close>, \<open>wait\<close>, \<open>growproc\<close>.
  \<open>UThreads\<close>: the thread library of \<open>ulib.c\<close>; the ticket lock refines a queue.

  P4, encrypted memory. \<open>KAlloc\<close> (\<open>kalloc.c\<close>), \<open>VM\<close>, \<open>PageArith\<close>, \<open>MemEnc\<close>, \<open>MemEncFun\<close>, \<open>ClockQueue\<close>, \<open>MemStat\<close> (\<open>vm.c\<close>):
  page tables over a memory of bytes, encryption of pages, the clock queue of decrypted pages, and the two
  statistics calls. A process cannot see encryption; the page fault handler follows the second-chance algorithm.
  \<open>MemEncDemo\<close> has the concrete machines of the witnesses. \<open>Exec\<close>, \<open>ExecThm\<close> (\<open>exec.c\<close>): a program file becomes the
  memory of a process, and \<open>main\<close> finds its arguments on the stack.

  P5, ext2. \<open>Ext2\<close> (\<open>read_ext2.c\<close>, \<open>ext2_fs.h\<close>), \<open>RunScan\<close>, \<open>RunScanFun\<close>, \<open>RunScanDemo\<close> (\<open>runscan.c\<close>):
  the files that are left in the output directory have the bytes of the pictures.

  Arithmetic that C leaves undefined when it overflows (\<open>atoi\<close>, \<open>printint\<close> of the least integer, the sum of the tickets) is
  modelled as the wrapping arithmetic of the compiled code, and the theorems say for which values they hold. A system call is
  one step of \<open>kstep\<close>: the kernel code between two points without locks is not interrupted in the model.

  Bounds and fuel. Loops over tables are recursion over the list of their indices. \<open>namex\<close>, \<open>readi\<close>, \<open>writei\<close>,
  \<open>balloc\<close> and \<open>filewrite\<close> are total by measures (the rest of the path, the bytes or blocks left). Fuel is used in
  four places and each has a theorem that the fuel the callers pass is enough: the probing of the hash table
  (its size), the rotation of the clock hand (twice the queue), the ring walks of \<open>umalloc\<close> (the blocks of the
  ring), the recursive descent of the parser in \<open>sh.c\<close> (four calls for each character left, and four). \<open>isPowerOf\<close> and the loops that may not end in the source are partial functions or have their
  termination proved.

  Not modelled. Device drivers (\<open>ide.c\<close>, \<open>kbd.c\<close>, \<open>uart.c\<close>, \<open>lapic.c\<close>, \<open>ioapic.c\<close>, \<open>picirq.c\<close>, \<open>mp.c\<close>), \<open>main.c\<close>, boot
  code and assembly: hardware registers only. The parts of \<open>vm.c\<close> that
  load segment and page table registers. Programs of a few system calls (\<open>init.c\<close>, \<open>kill.c\<close>, \<open>ln.c\<close>, \<open>mkdir.c\<close>, \<open>rm.c\<close>,
  \<open>zombie.c\<close>, \<open>loop.c\<close>, \<open>schedtest.c\<close>, what \<open>ls.c\<close> does besides names) and test programs (\<open>usertests.c\<close>, \<open>stressfs.c\<close>,
  \<open>forktest.c\<close> and the tests of each project). A source file that is the same in several kernels is modelled once: from
  P4 for \<open>vm.c\<close> and \<open>exec.c\<close>, from P2A for all others.
\<close>

end
